(* ===== verification/Prelude.thy ===== *)
theory Prelude
  imports Main "HOL-Library.Multiset" "HOL-Library.Word" "HOL-Library.Monad_Syntax"
begin

text \<open>
  Shared vocabulary of the development.

  \<^item> Arrays.  A C array is a list; a read or a write outside its bounds is undefined
    behaviour in C, so the accessors return \<open>None\<close> there and the models run in the option
    monad: \<open>None\<close> is ``the program reached undefined behaviour'', and a theorem that a
    routine returns \<open>Some\<close> is a memory-safety theorem.  \<open>rd\<close> and \<open>wr\<close> take an unsigned
    index, \<open>rdi\<close> and \<open>wri\<close> a signed one.
  \<^item> Machine integers.  \<open>i32\<close> is the result of a signed 32-bit operation: overflow is
    undefined behaviour, hence \<open>None\<close>.  \<open>cdiv\<close> and \<open>cmod\<close> are C's truncating
    division.  Unsigned integers are \<^typ>\<open>'w word\<close>.
  \<^item> Generic lemmas on lists and array segments that the component theories share.
\<close>

section \<open>Arrays with bounds\<close>

definition rd :: "'a list \<Rightarrow> nat \<Rightarrow> 'a option" where
  "rd a i = (if i < length a then Some (a ! i) else None)"

definition wr :: "'a list \<Rightarrow> nat \<Rightarrow> 'a \<Rightarrow> 'a list option" where
  "wr a i x = (if i < length a then Some (a[i := x]) else None)"

definition rdi :: "'a list \<Rightarrow> int \<Rightarrow> 'a option" where
  "rdi a i = (if 0 \<le> i then rd a (nat i) else None)"

definition wri :: "'a list \<Rightarrow> int \<Rightarrow> 'a \<Rightarrow> 'a list option" where
  "wri a i x = (if 0 \<le> i then wr a (nat i) x else None)"

lemma rd_Some [simp]: "i < length a \<Longrightarrow> rd a i = Some (a ! i)"
  by (simp add: rd_def)

lemma rd_None [simp]: "\<not> i < length a \<Longrightarrow> rd a i = None"
  by (simp add: rd_def)

lemma wr_Some [simp]: "i < length a \<Longrightarrow> wr a i x = Some (a[i := x])"
  by (simp add: wr_def)

lemma wr_None [simp]: "\<not> i < length a \<Longrightarrow> wr a i x = None"
  by (simp add: wr_def)

lemma rd_eq_Some_iff: "rd a i = Some x \<longleftrightarrow> i < length a \<and> a ! i = x"
  by (auto simp: rd_def)

lemma wr_eq_Some_iff: "wr a i x = Some b \<longleftrightarrow> i < length a \<and> b = a[i := x]"
  by (auto simp: wr_def)

lemma rdi_Some [simp]: "0 \<le> i \<Longrightarrow> i < int (length a) \<Longrightarrow> rdi a i = Some (a ! nat i)"
  by (simp add: rdi_def nat_less_iff)

lemma rdi_eq_Some_iff: "rdi a i = Some x \<longleftrightarrow> 0 \<le> i \<and> i < int (length a) \<and> a ! nat i = x"
  by (auto simp: rdi_def rd_def nat_less_iff)

lemma wri_Some [simp]: "0 \<le> i \<Longrightarrow> i < int (length a) \<Longrightarrow> wri a i x = Some (a[nat i := x])"
  by (simp add: wri_def nat_less_iff)

lemma wri_eq_Some_iff:
  "wri a i x = Some b \<longleftrightarrow> 0 \<le> i \<and> i < int (length a) \<and> b = a[nat i := x]"
  by (auto simp: wri_def wr_def nat_less_iff)

lemmas access_iffs = rd_eq_Some_iff wr_eq_Some_iff rdi_eq_Some_iff wri_eq_Some_iff

section \<open>Signed machine arithmetic\<close>

definition i32 :: "int \<Rightarrow> int option" where
  "i32 x = (if - (2 ^ 31) \<le> x \<and> x < 2 ^ 31 then Some x else None)"

definition cdiv :: "int \<Rightarrow> int \<Rightarrow> int" where
  "cdiv a b = sgn a * sgn b * (\<bar>a\<bar> div \<bar>b\<bar>)"

definition cmod :: "int \<Rightarrow> int \<Rightarrow> int" where
  "cmod a b = a - cdiv a b * b"

lemma i32_Some [simp]: "- 2147483648 \<le> x \<Longrightarrow> x < 2147483648 \<Longrightarrow> i32 x = Some x"
  by (simp add: i32_def)

text \<open>A non-negative \<open>int\<close>, such as an index, as a natural number: it overflows at \<open>2 ^ 31\<close>.\<close>

definition n32 :: "nat \<Rightarrow> nat option" where
  "n32 n = (if int n < 2 ^ 31 then Some n else None)"

lemma n32_Some [simp]: "n < 2147483648 \<Longrightarrow> n32 n = Some n"
  by (simp add: n32_def)

lemma n32_eq_Some_iff: "n32 n = Some m \<longleftrightarrow> n = m \<and> n < 2147483648"
  by (auto simp: n32_def)

lemma i32_eq_Some_iff: "i32 x = Some y \<longleftrightarrow> x = y \<and> - 2147483648 \<le> x \<and> x < 2147483648"
  by (auto simp: i32_def)

lemma cdiv_nonneg [simp]: "0 \<le> a \<Longrightarrow> 0 < b \<Longrightarrow> cdiv a b = a div b"
  by (cases "a = 0") (simp_all add: cdiv_def sgn_if)

lemma cmod_nonneg [simp]: "0 \<le> a \<Longrightarrow> 0 < b \<Longrightarrow> cmod a b = a mod b"
  by (simp add: cmod_def minus_div_mult_eq_mod)

lemma cmod_neg: "a < 0 \<Longrightarrow> 0 < b \<Longrightarrow> cmod a b = - ((- a) mod b)"
  by (simp add: cmod_def cdiv_def sgn_if minus_div_mult_eq_mod [symmetric])

section \<open>Array segments\<close>

text \<open>\<open>seg a i n\<close> is the segment of \<open>n\<close> elements that starts at index \<open>i\<close>.\<close>

definition seg :: "'a list \<Rightarrow> nat \<Rightarrow> nat \<Rightarrow> 'a list" where
  "seg a i n = take n (drop i a)"

lemma length_seg [simp]: "i + n \<le> length a \<Longrightarrow> length (seg a i n) = n"
  by (simp add: seg_def)

lemma nth_seg [simp]: "i + n \<le> length a \<Longrightarrow> k < n \<Longrightarrow> seg a i n ! k = a ! (i + k)"
  by (simp add: seg_def)

lemma seg_0 [simp]: "seg a i 0 = []"
  by (simp add: seg_def)

lemma seg_full [simp]: "seg a 0 (length a) = a"
  by (simp add: seg_def)

lemma seg_Cons: "i < length a \<Longrightarrow> seg a i (Suc n) = a ! i # seg a (Suc i) n"
  by (simp add: seg_def Cons_nth_drop_Suc [symmetric])

lemma seg_split: "take i a @ seg a i n @ drop (i + n) a = a"
proof -
  have "drop (i + n) a = drop n (drop i a)" by (simp add: add.commute)
  then show ?thesis by (simp only: seg_def append_take_drop_id)
qed

lemma take_Suc_update: "t < length a \<Longrightarrow> take (Suc t) (a[t := x]) = take t a @ [x]"
  by (simp add: take_Suc_conv_app_nth)

text \<open>
  Filling a hole: writing \<open>a ! j\<close> to index \<open>i\<close> and then the saved value to \<open>j\<close> exchanges
  two elements, so it keeps the multiset.  Every in-place sort below moves elements this way.
\<close>

lemma mset_move_hole:
  assumes "i < length a" "j < length a"
  shows "mset (a[i := a ! j, j := x]) = mset (a[i := x])"
proof (cases "i = j")
  case True
  then show ?thesis by simp
next
  case False
  let ?b = "a[i := x]"
  have "a[i := a ! j, j := x] = ?b[i := ?b ! j, j := ?b ! i]"
    using False assms by simp
  then show ?thesis
    using assms mset_swap [of j ?b i] by simp
qed

lemma set_update_subset: "i < length a \<Longrightarrow> set (a[i := x]) \<subseteq> insert x (set a)"
  by (rule set_update_subset_insert)

text \<open>Changing one element changes a sum over a list by the difference of its contributions.\<close>

lemma sum_list_change:
  "i < length xs \<Longrightarrow> sum_list (map f (xs[i := x])) + f (xs ! i) = sum_list (map f xs) + (f x :: 'a :: comm_monoid_add)"
proof (induction xs arbitrary: i)
  case (Cons y xs)
  show ?case
  proof (cases i)
    case (Suc k)
    then have "sum_list (map f (xs[k := x])) + f (xs ! k) = sum_list (map f xs) + f x" using Cons by simp
    then show ?thesis using Suc by (simp add: add.assoc)
  qed (simp add: ac_simps)
qed simp

end
