(* ===== verification/Insertion_Sorts.thy ===== *)
theory Insertion_Sorts
  imports Prelude
begin

text \<open>
  Insertion sort and Shell sort of \<^verbatim>\<open>src/example_sort.cpp\<close>.  Both inner loops move
  elements up until the place of the saved element is found; insertion sort's loop is
  Shell sort's loop at increment 1 (\<open>insert_shift_eq_shell_shift\<close>), so one invariant about
  a pass with an arbitrary increment serves both.
\<close>

section \<open>The code\<close>

text \<open>
  \<open>insert_shift a j tmp\<close>: the inner loop of \<open>insertSort\<close>,
  \<^verbatim>\<open>for(j=i; j>0 && arr[j-1]>tmp; j--) arr[j] = arr[j-1];\<close>, with the final \<open>j\<close>.
\<close>

fun insert_shift :: "int list \<Rightarrow> nat \<Rightarrow> int \<Rightarrow> (int list \<times> nat) option" where
  "insert_shift a 0 tmp = Some (a, 0)"
| "insert_shift a (Suc j) tmp =
     do { x \<leftarrow> rd a j;
          if x > tmp then do { a' \<leftarrow> wr a (Suc j) x; insert_shift a' j tmp }
          else Some (a, Suc j) }"

function insertSort_loop :: "int list \<Rightarrow> nat \<Rightarrow> nat \<Rightarrow> int list option" where
  "insertSort_loop a i sz =
     (if i < sz then
        do { tmp \<leftarrow> rd a i;
             (a1, j) \<leftarrow> insert_shift a i tmp;
             a2 \<leftarrow> wr a1 j tmp;
             insertSort_loop a2 (Suc i) sz }
      else Some a)"
  by pat_completeness auto
termination
  by (relation "measure (\<lambda>(a, i, sz). sz - i)") auto

definition insertSort :: "int list \<Rightarrow> nat \<Rightarrow> int list option" where
  "insertSort a sz = insertSort_loop a 1 sz"

text \<open>
  \<open>shell_shift a j h tmp\<close>: the innermost loop of \<open>shellSort\<close> at increment \<open>h\<close>.  The code
  only runs it with a positive increment; the guard \<open>0 < h\<close> makes the function total.
\<close>

function shell_shift :: "int list \<Rightarrow> nat \<Rightarrow> nat \<Rightarrow> int \<Rightarrow> (int list \<times> nat) option" where
  "shell_shift a j h tmp =
     (if 0 < h \<and> h \<le> j then
        do { x \<leftarrow> rd a (j - h);
             if tmp < x then do { a' \<leftarrow> wr a j x; shell_shift a' (j - h) h tmp }
             else Some (a, j) }
      else Some (a, j))"
  by pat_completeness auto
termination
  by (relation "measure (\<lambda>(a, j, h, tmp). j)") auto

function shell_pass :: "int list \<Rightarrow> nat \<Rightarrow> nat \<Rightarrow> nat \<Rightarrow> int list option" where
  "shell_pass a i h sz =
     (if i < sz then
        do { tmp \<leftarrow> rd a i;
             (a1, j) \<leftarrow> shell_shift a i h tmp;
             a2 \<leftarrow> wr a1 j tmp;
             shell_pass a2 (Suc i) h sz }
      else Some a)"
  by pat_completeness auto
termination
  by (relation "measure (\<lambda>(a, i, h, sz). sz - i)") auto

fun shellSort_loop :: "int list \<Rightarrow> nat \<Rightarrow> nat \<Rightarrow> int list option" where
  "shellSort_loop a increment sz =
     (if 0 < increment then
        do { a' \<leftarrow> shell_pass a increment increment sz;
             shellSort_loop a' (increment div 2) sz }
      else Some a)"

definition shellSort :: "int list \<Rightarrow> nat \<Rightarrow> int list option" where
  "shellSort a sz = shellSort_loop a (sz div 2) sz"

declare insertSort_loop.simps [simp del] shell_shift.simps [simp del]
  shell_pass.simps [simp del] shellSort_loop.simps [simp del]

section \<open>One pass\<close>

lemma insert_shift_eq_shell_shift: "insert_shift a j tmp = shell_shift a j 1 tmp"
proof (induction a j tmp rule: insert_shift.induct)
  case (1 a tmp)
  then show ?case by (simp add: shell_shift.simps)
next
  case (2 a j tmp)
  then show ?case
    by (subst shell_shift.simps) (auto simp: Option.bind_eq_Some_conv split: if_splits
        intro!: bind_option_cong)
qed

lemma insertSort_loop_eq_shell_pass: "insertSort_loop a i sz = shell_pass a i 1 sz"
  by (induction a i sz rule: insertSort_loop.induct)
    (subst insertSort_loop.simps, subst shell_pass.simps,
      auto simp: insert_shift_eq_shell_shift intro!: bind_option_cong)

text \<open>
  \<open>hsorted h n a\<close>: elements of the first \<open>n\<close> that are a multiple of \<open>h\<close> apart are in
  order.  While an element is moved down, \<open>hole_inv\<close> says that the elements other than the
  hole \<open>j\<close> are ordered and that those after the hole, in its class, exceed the saved one.
\<close>

definition hsorted :: "nat \<Rightarrow> nat \<Rightarrow> int list \<Rightarrow> bool" where
  "hsorted h n a \<longleftrightarrow> (\<forall>p q. p < q \<and> q < n \<and> h dvd (q - p) \<longrightarrow> a ! p \<le> a ! q)"

definition hole_inv :: "nat \<Rightarrow> nat \<Rightarrow> nat \<Rightarrow> int \<Rightarrow> int list \<Rightarrow> bool" where
  "hole_inv h n j tmp a \<longleftrightarrow>
     (\<forall>p q. p < q \<and> q < n \<and> h dvd (q - p) \<and> p \<noteq> j \<and> q \<noteq> j \<longrightarrow> a ! p \<le> a ! q) \<and>
     (\<forall>q. j < q \<and> q < n \<and> h dvd (q - j) \<longrightarrow> tmp < a ! q)"

lemma hsorted_1: "hsorted 1 n a \<Longrightarrow> n \<le> length a \<Longrightarrow> sorted (take n a)"
  by (auto simp: hsorted_def sorted_iff_nth_mono_less)

lemma hole_invD1:
  "hole_inv h n j tmp a \<Longrightarrow> p < q \<Longrightarrow> q < n \<Longrightarrow> h dvd (q - p) \<Longrightarrow> p \<noteq> j \<Longrightarrow> q \<noteq> j \<Longrightarrow> a ! p \<le> a ! q"
  by (auto simp: hole_inv_def)

lemma hole_invD2: "hole_inv h n j tmp a \<Longrightarrow> j < q \<Longrightarrow> q < n \<Longrightarrow> h dvd (q - j) \<Longrightarrow> tmp < a ! q"
  by (auto simp: hole_inv_def)

lemma dvd_diff_shift: "0 < h \<Longrightarrow> h \<le> j \<Longrightarrow> j \<le> q \<Longrightarrow> h dvd (q - (j - h)) \<longleftrightarrow> h dvd (q - (j::nat))"
proof -
  assume "0 < h" "h \<le> j" "j \<le> q"
  then have "q - (j - h) = (q - j) + h" by simp
  then show ?thesis by simp
qed

lemma dvd_class_below:
  fixes p j h :: nat
  assumes "p < j" "h dvd (j - p)" "p \<noteq> j - h" "0 < h" "h \<le> j"
  shows "p < j - h \<and> h dvd (j - h - p)"
proof -
  from assms(2) obtain k where k: "j - p = h * k" by blast
  have "k \<noteq> 0" using k assms by (cases k) auto
  moreover have "k \<noteq> 1" using k assms by auto
  ultimately have "h * 2 \<le> h * k" using assms by (intro mult_le_mono2) simp
  with k assms have "p < j - h" by linarith
  moreover have "j - h - p = h * k - h" using k by simp
  then have "h dvd (j - h - p)" by simp
  ultimately show ?thesis by blast
qed

lemma hole_inv_step:
  assumes inv: "hole_inv h n j tmp a" and h: "0 < h" "h \<le> j" "j < n" and len: "n \<le> length a"
    and gt: "tmp < a ! (j - h)"
  shows "hole_inv h n (j - h) tmp (a[j := a ! (j - h)])"
  unfolding hole_inv_def
proof (intro conjI allI impI)
  let ?b = "a[j := a ! (j - h)]"
  fix p q assume pq: "p < q \<and> q < n \<and> h dvd (q - p) \<and> p \<noteq> j - h \<and> q \<noteq> j - h"
  consider "q = j" | "p = j" | "p \<noteq> j" "q \<noteq> j" by blast
  then show "?b ! p \<le> ?b ! q"
  proof cases
    case 1
    with pq h have "p < j - h \<and> h dvd (j - h - p)" by (intro dvd_class_below) auto
    then have "a ! p \<le> a ! (j - h)" using inv h pq 1 by (auto simp: hole_inv_def)
    then show ?thesis using 1 pq len h by simp
  next
    case 2
    with pq h have "h dvd (q - (j - h))" using dvd_diff_shift [of h j q] by simp
    then have "a ! (j - h) \<le> a ! q" using inv h pq 2 by (auto simp: hole_inv_def)
    then show ?thesis using 2 pq len h by simp
  next
    case 3
    then show ?thesis using inv pq by (auto simp: hole_inv_def)
  qed
next
  let ?b = "a[j := a ! (j - h)]"
  fix q assume q: "j - h < q \<and> q < n \<and> h dvd (q - (j - h))"
  consider "q = j" | "j < q" | "q < j" by linarith
  then show "tmp < ?b ! q"
  proof cases
    case 1
    then show ?thesis using gt h len by simp
  next
    case 2
    with q h have "h dvd (q - j)" using dvd_diff_shift [of h j q] by simp
    with 2 q have "tmp < a ! q" by (intro hole_invD2 [OF inv]) auto
    with 2 show ?thesis by simp
  next
    case 3
    with q have "h dvd (q - (j - h))" "0 < q - (j - h)" "q - (j - h) < h" using h by auto
    then show ?thesis using dvd_imp_le by fastforce
  qed
qed

lemma hole_inv_fill:
  assumes inv: "hole_inv h n j tmp a" and h: "0 < h" "j < n" and len: "n \<le> length a"
    and stop: "h \<le> j \<Longrightarrow> a ! (j - h) \<le> tmp"
  shows "hsorted h n (a[j := tmp])"
  unfolding hsorted_def
proof (intro allI impI)
  let ?b = "a[j := tmp]"
  fix p q assume pq: "p < q \<and> q < n \<and> h dvd (q - p)"
  consider "q = j" | "p = j" | "p \<noteq> j" "q \<noteq> j" by blast
  then show "?b ! p \<le> ?b ! q"
  proof cases
    case 1
    with pq have "h \<le> j - p" using dvd_imp_le [of h "j - p"] by simp
    then have "h \<le> j" by simp
    have "a ! p \<le> a ! (j - h)"
    proof (cases "p = j - h")
      case False
      with 1 pq h \<open>h \<le> j\<close> have "p < j - h" "h dvd (j - h - p)"
        using dvd_class_below [of p j h] by auto
      then show ?thesis using \<open>h \<le> j\<close> h pq 1 by (intro hole_invD1 [OF inv]) auto
    qed simp
    then show ?thesis using 1 pq stop \<open>h \<le> j\<close> h len by simp
  next
    case 2
    then have "tmp < a ! q" using inv pq by (auto simp: hole_inv_def)
    then show ?thesis using 2 pq h len by simp
  next
    case 3
    then show ?thesis using inv pq by (auto simp: hole_inv_def)
  qed
qed

lemma shell_shift_correct:
  assumes "0 < h" "j < n" "n \<le> length a" "hole_inv h n j tmp a"
  shows "\<exists>a' j'. shell_shift a j h tmp = Some (a', j') \<and> length a' = length a \<and> j' < n
    \<and> mset (a'[j' := tmp]) = mset (a[j := tmp]) \<and> hsorted h n (a'[j' := tmp])
    \<and> drop n a' = drop n a"
  using assms
proof (induction a j h tmp rule: shell_shift.induct)
  case (1 a j h tmp)
  show ?case
  proof (cases "h \<le> j \<and> tmp < a ! (j - h)")
    case True
    let ?b = "a[j := a ! (j - h)]"
    have "hole_inv h n (j - h) tmp ?b" using "1.prems" True by (intro hole_inv_step) auto
    moreover have "mset (?b[j - h := tmp]) = mset (a[j := tmp])"
      using "1.prems" True by (intro mset_move_hole) auto
    moreover have "shell_shift a j h tmp = shell_shift ?b (j - h) h tmp"
      using "1.prems" True by (subst shell_shift.simps) simp
    ultimately show ?thesis
      using "1.IH" [of "a ! (j - h)" ?b] "1.prems" True by (simp add: drop_update_cancel)
  next
    case False
    then have "shell_shift a j h tmp = Some (a, j)"
      using "1.prems" by (subst shell_shift.simps) auto
    then show ?thesis using "1.prems" False
      by (auto intro!: hole_inv_fill)
  qed
qed

lemma hsorted_hole:
  "hsorted h i a \<Longrightarrow> 0 < h \<Longrightarrow> i < length a \<Longrightarrow> hole_inv h (Suc i) i (a ! i) a"
  by (auto simp: hsorted_def hole_inv_def less_Suc_eq)

lemma hsorted_base: "hsorted h h a"
  by (auto simp: hsorted_def dest!: dvd_imp_le)

lemma shell_pass_correct:
  assumes "0 < h" "i \<le> sz" "sz \<le> length a" "hsorted h i a"
  shows "\<exists>a'. shell_pass a i h sz = Some a' \<and> length a' = length a \<and> mset a' = mset a
    \<and> hsorted h sz a' \<and> drop sz a' = drop sz a"
  using assms
proof (induction a i h sz rule: shell_pass.induct)
  case (1 a i h sz)
  show ?case
  proof (cases "i < sz")
    case True
    with "1.prems" have "hole_inv h (Suc i) i (a ! i) a" by (intro hsorted_hole) auto
    then obtain a1 j where sh: "shell_shift a i h (a ! i) = Some (a1, j)" "length a1 = length a"
        "j < Suc i" "mset (a1[j := a ! i]) = mset (a[i := a ! i])"
        "hsorted h (Suc i) (a1[j := a ! i])" "drop (Suc i) a1 = drop (Suc i) a"
      using shell_shift_correct [of h i "Suc i" a "a ! i"] "1.prems" True by auto
    have dr: "drop sz (a1[j := a ! i]) = drop sz a"
    proof -
      have "drop sz a1 = drop (sz - Suc i) (drop (Suc i) a1)" using True by simp
      also have "\<dots> = drop sz a" using sh(6) True by simp
      finally show ?thesis using sh(3) True by (simp add: drop_update_cancel)
    qed
    have "shell_pass a i h sz = shell_pass (a1[j := a ! i]) (Suc i) h sz"
      using True "1.prems" sh by (subst shell_pass.simps) simp
    then show ?thesis
      using "1.IH" [of "a ! i" "(a1, j)" a1 j "a1[j := a ! i]"] "1.prems" True sh dr by simp
  next
    case False
    then show ?thesis using "1.prems" by (subst shell_pass.simps) auto
  qed
qed

section \<open>The sorts\<close>

text \<open>
  Insertion sort returns (no access is out of bounds), permutes the array, sorts its
  first \<open>sz\<close> elements and leaves the rest alone.
\<close>

theorem insertSort_correct:
  assumes "sz \<le> length a"
  shows "\<exists>a'. insertSort a sz = Some a' \<and> mset a' = mset a \<and> sorted (take sz a')
    \<and> drop sz a' = drop sz a"
proof (cases "sz = 0")
  case True
  then show ?thesis by (auto simp: insertSort_def insertSort_loop.simps)
next
  case False
  then show ?thesis
    using shell_pass_correct [of 1 1 sz a] assms hsorted_1
    by (fastforce simp: insertSort_def insertSort_loop_eq_shell_pass hsorted_base)
qed

lemma insertSort_correct_witness:
  "(3::nat) \<le> length [3, 1, 2, 0::int] \<and>
   (\<exists>a'. insertSort [3, 1, 2, 0] 3 = Some a' \<and> mset a' = mset [3, 1, 2, 0] \<and> sorted (take 3 a')
     \<and> drop 3 a' = drop 3 [3, 1, 2, 0])"
  using insertSort_correct [of 3 "[3, 1, 2, 0]"] by simp

lemma shellSort_loop_correct:
  assumes "sz \<le> length a" "inc \<le> sz" "inc = 0 \<Longrightarrow> sorted (take sz a)"
  shows "\<exists>a'. shellSort_loop a inc sz = Some a' \<and> mset a' = mset a \<and> sorted (take sz a')
    \<and> drop sz a' = drop sz a"
  using assms
proof (induction a inc sz rule: shellSort_loop.induct)
  case (1 a inc sz)
  show ?case
  proof (cases "0 < inc")
    case True
    then obtain a' where a': "shell_pass a inc inc sz = Some a'" "length a' = length a"
        "mset a' = mset a" "hsorted inc sz a'" "drop sz a' = drop sz a"
      using shell_pass_correct [of inc inc sz a] "1.prems" hsorted_base by blast
    have "sorted (take sz a')" if "inc div 2 = 0"
    proof -
      from that True have "inc = 1" by (cases "inc = 1") auto
      then show ?thesis using a' "1.prems" hsorted_1 by simp
    qed
    then have "\<exists>b. shellSort_loop a' (inc div 2) sz = Some b \<and> mset b = mset a'
        \<and> sorted (take sz b) \<and> drop sz b = drop sz a'"
      using "1.IH" True a' "1.prems" by simp
    then show ?thesis using True a' by (subst shellSort_loop.simps) simp
  next
    case False
    then show ?thesis using "1.prems" by (subst shellSort_loop.simps) auto
  qed
qed

text \<open>
  Shell sort with the increments \<open>sz/2, sz/4, \<dots>, 1\<close> returns, permutes the array and
  sorts its first \<open>sz\<close> elements.
\<close>

theorem shellSort_correct:
  assumes "sz \<le> length a"
  shows "\<exists>a'. shellSort a sz = Some a' \<and> mset a' = mset a \<and> sorted (take sz a')
    \<and> drop sz a' = drop sz a"
proof -
  have "sorted (take sz a)" if "sz div 2 = 0"
  proof -
    from that have "sz = 0 \<or> sz = 1" by auto
    then show ?thesis by (cases a) auto
  qed
  then show ?thesis
    using shellSort_loop_correct [of sz a "sz div 2"] assms by (simp add: shellSort_def)
qed

lemma shellSort_correct_witness:
  "(4::nat) \<le> length [81, 94, 11, 96::int] \<and>
   (\<exists>a'. shellSort [81, 94, 11, 96] 4 = Some a' \<and> mset a' = mset [81, 94, 11, 96]
     \<and> sorted (take 4 a') \<and> drop 4 a' = drop 4 [81, 94, 11, 96])"
  using shellSort_correct [of 4 "[81, 94, 11, 96]"] by simp

end
