(* ===== verification/Merge_Sort.thy ===== *)
theory Merge_Sort
  imports Prelude
begin

text \<open>
  Merge sort of \<^verbatim>\<open>src/example_sort.cpp\<close>.  \<open>merge\<close> works on two arrays, the
  input and a scratch array at the same indices; \<open>mSort\<close> returns both because the code
  mutates both.
\<close>

section \<open>Merge sort: the code\<close>

function merge_loop ::
  "int list \<Rightarrow> int list \<Rightarrow> nat \<Rightarrow> nat \<Rightarrow> nat \<Rightarrow> nat \<Rightarrow> nat \<Rightarrow> (int list \<times> nat \<times> nat \<times> nat) option"
where
  "merge_loop arr tmp lpos leftEnd rpos rightend tmpPos =
     (if lpos \<le> leftEnd \<and> rpos \<le> rightend then
        do { x \<leftarrow> rd arr lpos;
             y \<leftarrow> rd arr rpos;
             if x \<le> y then
               do { tmp' \<leftarrow> wr tmp tmpPos x;
                    merge_loop arr tmp' (Suc lpos) leftEnd rpos rightend (Suc tmpPos) }
             else
               do { tmp' \<leftarrow> wr tmp tmpPos y;
                    merge_loop arr tmp' lpos leftEnd (Suc rpos) rightend (Suc tmpPos) } }
      else Some (tmp, lpos, rpos, tmpPos))"
  by pat_completeness auto
termination
  by (relation "measure (\<lambda>(arr, tmp, lpos, leftEnd, rpos, rightend, t).
        (Suc leftEnd - lpos) + (Suc rightend - rpos))") auto

function copy_rest :: "int list \<Rightarrow> int list \<Rightarrow> nat \<Rightarrow> nat \<Rightarrow> nat \<Rightarrow> (int list \<times> nat) option" where
  "copy_rest arr tmp pos lst tmpPos =
     (if pos \<le> lst then
        do { x \<leftarrow> rd arr pos;
             tmp' \<leftarrow> wr tmp tmpPos x;
             copy_rest arr tmp' (Suc pos) lst (Suc tmpPos) }
      else Some (tmp, tmpPos))"
  by pat_completeness auto
termination
  by (relation "measure (\<lambda>(arr, tmp, pos, lst, t). Suc lst - pos)") auto

text \<open>
  The last loop copies back from the right.  Its index is decremented once more after the
  last copy; that value is never used.
\<close>

fun copy_back :: "int list \<Rightarrow> int list \<Rightarrow> nat \<Rightarrow> nat \<Rightarrow> int list option" where
  "copy_back arr tmp 0 rightend = Some arr"
| "copy_back arr tmp (Suc k) rightend =
     do { x \<leftarrow> rd tmp rightend;
          arr' \<leftarrow> wr arr rightend x;
          copy_back arr' tmp k (rightend - 1) }"

definition merge_to_tmp :: "int list \<Rightarrow> int list \<Rightarrow> nat \<Rightarrow> nat \<Rightarrow> nat \<Rightarrow> nat \<Rightarrow> nat \<Rightarrow> int list option" where
  "merge_to_tmp arr tmp lpos leftEnd rpos rightend tmpPos =
     do { (t1, l, r, p) \<leftarrow> merge_loop arr tmp lpos leftEnd rpos rightend tmpPos;
          (t2, p2) \<leftarrow> copy_rest arr t1 l leftEnd p;
          (t3, _) \<leftarrow> copy_rest arr t2 r rightend p2;
          Some t3 }"

definition merge_arr :: "int list \<Rightarrow> int list \<Rightarrow> nat \<Rightarrow> nat \<Rightarrow> nat \<Rightarrow> (int list \<times> int list) option" where
  "merge_arr arr tmp lpos rpos rightend =
     do { tmp' \<leftarrow> merge_to_tmp arr tmp lpos (rpos - 1) rpos rightend lpos;
          arr' \<leftarrow> copy_back arr tmp' (rightend - lpos + 1) rightend;
          Some (arr', tmp') }"

text \<open>The index sum \<open>left + right\<close> is a signed addition, undefined if it overflows.\<close>

function mSort :: "int list \<Rightarrow> int list \<Rightarrow> nat \<Rightarrow> nat \<Rightarrow> (int list \<times> int list) option" where
  "mSort arr tmp left right =
     (if left < right then
        do { s \<leftarrow> i32 (int left + int right);
             (arr1, tmp1) \<leftarrow> mSort arr tmp left (nat s div 2);
             (arr2, tmp2) \<leftarrow> mSort arr1 tmp1 (nat s div 2 + 1) right;
             merge_arr arr2 tmp2 left (nat s div 2 + 1) right }
      else Some (arr, tmp))"
  by pat_completeness auto
termination
  by (relation "measure (\<lambda>(arr, tmp, left, right). right - left)")
    (auto simp: i32_eq_Some_iff nat_add_distrib)

text \<open>
  \<open>mergeSort tmp a sz\<close>: \<open>tmp\<close> is what \<open>malloc\<close> returns, \<open>None\<close> for a null pointer, and then
  the array is left alone.  For \<open>sz = 0\<close> the code passes \<open>-1\<close> as the right end, and
  \<open>0 < right\<close> fails just as it does for \<open>0\<close>.
\<close>

definition mergeSort :: "int list option \<Rightarrow> int list \<Rightarrow> nat \<Rightarrow> int list option" where
  "mergeSort tmp a sz =
     (case tmp of
        None \<Rightarrow> Some a
      | Some t \<Rightarrow> do { (a', _) \<leftarrow> mSort a t 0 (sz - 1); Some a' })"

declare merge_loop.simps [simp del] copy_rest.simps [simp del] mSort.simps [simp del]

section \<open>Merge sort: correctness\<close>

fun mrg :: "int list \<Rightarrow> int list \<Rightarrow> int list" where
  "mrg [] ys = ys"
| "mrg xs [] = xs"
| "mrg (x # xs) (y # ys) = (if x \<le> y then x # mrg xs (y # ys) else y # mrg (x # xs) ys)"

lemma mrg_Nil2 [simp]: "mrg xs [] = xs"
  by (cases xs) simp_all

lemma mset_mrg [simp]: "mset (mrg xs ys) = mset xs + mset ys"
  by (induction xs ys rule: mrg.induct) auto

lemma length_mrg [simp]: "length (mrg xs ys) = length xs + length ys"
  by (induction xs ys rule: mrg.induct) auto

lemma set_mrg: "set (mrg xs ys) = set xs \<union> set ys"
  by (induction xs ys rule: mrg.induct) auto

lemma sorted_mrg: "sorted xs \<Longrightarrow> sorted ys \<Longrightarrow> sorted (mrg xs ys)"
  by (induction xs ys rule: mrg.induct) (auto simp: set_mrg)

text \<open>\<open>put t zs tmp\<close>: the array \<open>tmp\<close> with \<open>zs\<close> written from index \<open>t\<close> on.\<close>

definition put :: "nat \<Rightarrow> int list \<Rightarrow> int list \<Rightarrow> int list" where
  "put t zs tmp = take t tmp @ zs @ drop (t + length zs) tmp"

lemma put_Nil [simp]: "put t [] tmp = tmp"
  by (simp add: put_def)

lemma length_put [simp]: "t + length zs \<le> length tmp \<Longrightarrow> length (put t zs tmp) = length tmp"
  by (simp add: put_def)

lemma put_Cons: "t < length tmp \<Longrightarrow> put (Suc t) zs (tmp[t := z]) = put t (z # zs) tmp"
  by (simp add: put_def take_Suc_update)

lemma nth_put_in: "t \<le> i \<Longrightarrow> i < t + length zs \<Longrightarrow> t \<le> length tmp \<Longrightarrow> put t zs tmp ! i = zs ! (i - t)"
proof -
  assume a: "t \<le> i" "i < t + length zs" "t \<le> length tmp"
  then have "i - t < length zs" by linarith
  then show ?thesis using a by (simp add: put_def nth_append)
qed

lemma copy_rest_correct:
  "lst < length arr \<Longrightarrow> t + (Suc lst - pos) \<le> length tmp \<Longrightarrow>
   copy_rest arr tmp pos lst t
     = Some (put t (seg arr pos (Suc lst - pos)) tmp, t + (Suc lst - pos))"
proof (induction arr tmp pos lst t rule: copy_rest.induct)
  case (1 arr tmp pos lst t)
  show ?case
  proof (cases "pos \<le> lst")
    case True
    then have n: "Suc lst - pos = Suc (lst - pos)" by simp
    show ?thesis
      using True "1.prems" "1.IH" [of "arr ! pos" "tmp[t := arr ! pos]"]
      by (subst copy_rest.simps) (simp add: n seg_Cons put_Cons)
  qed (simp add: copy_rest.simps)
qed

lemma merge_to_tmp_correct:
  assumes "leftEnd < length arr" "rightend < length arr"
    "t + (Suc leftEnd - lpos) + (Suc rightend - rpos) \<le> length tmp"
  shows "merge_to_tmp arr tmp lpos leftEnd rpos rightend t
    = Some (put t (mrg (seg arr lpos (Suc leftEnd - lpos)) (seg arr rpos (Suc rightend - rpos))) tmp)"
  using assms
proof (induction arr tmp lpos leftEnd rpos rightend t rule: merge_loop.induct)
  case (1 arr tmp lpos leftEnd rpos rightend t)
  consider "leftEnd < lpos" | "rightend < rpos" "lpos \<le> leftEnd"
    | "lpos \<le> leftEnd" "rpos \<le> rightend" by linarith
  then show ?case
  proof cases
    case 1
    then show ?thesis using "1.prems"
      by (simp add: merge_to_tmp_def merge_loop.simps copy_rest_correct)
  next
    case 2
    then show ?thesis using "1.prems"
      by (simp add: merge_to_tmp_def merge_loop.simps copy_rest_correct)
  next
    case 3
    then have n: "Suc leftEnd - lpos = Suc (leftEnd - lpos)" "Suc rightend - rpos = Suc (rightend - rpos)"
      by auto
    show ?thesis
    proof (cases "arr ! lpos \<le> arr ! rpos")
      case True
      have "merge_to_tmp arr tmp lpos leftEnd rpos rightend t
          = merge_to_tmp arr (tmp[t := arr ! lpos]) (Suc lpos) leftEnd rpos rightend (Suc t)"
        using True 3 "1.prems" unfolding merge_to_tmp_def by (subst merge_loop.simps) simp
      then show ?thesis
        using "1.IH"(1) [of "arr ! lpos" "arr ! rpos" "tmp[t := arr ! lpos]"] True 3 "1.prems"
        by (simp add: n seg_Cons put_Cons)
    next
      case False
      have "merge_to_tmp arr tmp lpos leftEnd rpos rightend t
          = merge_to_tmp arr (tmp[t := arr ! rpos]) lpos leftEnd (Suc rpos) rightend (Suc t)"
        using False 3 "1.prems" unfolding merge_to_tmp_def by (subst merge_loop.simps) simp
      then show ?thesis
        using "1.IH"(2) [of "arr ! lpos" "arr ! rpos" "tmp[t := arr ! rpos]"] False 3 "1.prems"
        by (simp add: n seg_Cons put_Cons)
    qed
  qed
qed

lemma copy_back_correct:
  "k \<le> Suc r \<Longrightarrow> r < length arr \<Longrightarrow> r < length tmp \<Longrightarrow>
   \<exists>a'. copy_back arr tmp k r = Some a' \<and> length a' = length arr
     \<and> (\<forall>i < length arr. a' ! i = (if Suc r \<le> i + k \<and> i \<le> r then tmp ! i else arr ! i))"
proof (induction k arbitrary: arr r)
  case 0
  then show ?case by simp
next
  case (Suc k)
  show ?case
  proof (cases "k = 0")
    case True
    then show ?thesis using Suc.prems by (auto simp: nth_list_update)
  next
    case False
    then have "k \<le> Suc (r - 1)" "0 < r" "r - 1 < length arr" "r - 1 < length tmp"
      using Suc.prems by auto
    then obtain a' where a': "copy_back (arr[r := tmp ! r]) tmp k (r - 1) = Some a'"
      "length a' = length arr"
      "\<forall>i < length arr. a' ! i = (if Suc (r - 1) \<le> i + k \<and> i \<le> r - 1 then tmp ! i
          else arr[r := tmp ! r] ! i)"
      using Suc.IH [of "r - 1" "arr[r := tmp ! r]"] Suc.prems by auto
    have "a' ! i = (if Suc r \<le> i + Suc k \<and> i \<le> r then tmp ! i else arr ! i)"
      if "i < length arr" for i
      using a'(3) that \<open>0 < r\<close> Suc.prems by (auto simp: nth_list_update)
    then show ?thesis using a' Suc.prems by auto
  qed
qed

lemma merge_arr_correct:
  assumes "lpos < rpos" "rpos \<le> rightend" "rightend < length arr" "length tmp = length arr"
  shows "\<exists>tmp'. length tmp' = length tmp \<and> merge_arr arr tmp lpos rpos rightend
    = Some (put lpos (mrg (seg arr lpos (rpos - lpos)) (seg arr rpos (Suc rightend - rpos))) arr, tmp')"
proof -
  let ?zs = "mrg (seg arr lpos (rpos - lpos)) (seg arr rpos (Suc rightend - rpos))"
  let ?t = "put lpos ?zs tmp"
  have len: "length ?zs = Suc rightend - lpos" using assms by simp
  have t: "merge_to_tmp arr tmp lpos (rpos - 1) rpos rightend lpos = Some ?t"
    using merge_to_tmp_correct [of "rpos - 1" arr rightend lpos lpos rpos tmp] assms by simp
  have lt: "length ?t = length arr" using len assms by simp
  obtain a' where a': "copy_back arr ?t (rightend - lpos + 1) rightend = Some a'"
    "length a' = length arr"
    "\<forall>i < length arr. a' ! i = (if Suc rightend \<le> i + (rightend - lpos + 1) \<and> i \<le> rightend
        then ?t ! i else arr ! i)"
    using copy_back_correct [of "rightend - lpos + 1" rightend arr ?t] assms lt by auto
  have cond: "Suc rightend \<le> i + (rightend - lpos + 1) \<and> i \<le> rightend \<longleftrightarrow> lpos \<le> i \<and> i \<le> rightend" for i
    using assms by auto
  have "a' = put lpos ?zs arr"
  proof (rule nth_equalityI)
    show "length a' = length (put lpos ?zs arr)" using a' assms len by simp
    fix i assume i: "i < length a'"
    show "a' ! i = put lpos ?zs arr ! i"
    proof (cases "lpos \<le> i \<and> i \<le> rightend")
      case True
      then have "a' ! i = ?t ! i" using a'(2,3) i unfolding cond by simp
      also have "\<dots> = put lpos ?zs arr ! i" using True len assms by (simp add: nth_put_in)
      finally show ?thesis .
    next
      case False
      then have "a' ! i = arr ! i" using a'(2,3) i unfolding cond by (simp only: if_False)
      then show ?thesis using False len assms i a'(2)
        by (auto simp: put_def nth_append min_def)
    qed
  qed
  then show ?thesis using t a' lt assms by (auto simp: merge_arr_def)
qed

text \<open>Sorting a segment: what \<open>mSort\<close> does to \<open>arr[left..right]\<close>.\<close>

definition sorts_seg :: "nat \<Rightarrow> nat \<Rightarrow> int list \<Rightarrow> int list \<Rightarrow> bool" where
  "sorts_seg left n a a' \<longleftrightarrow>
     (\<exists>zs. a' = put left zs a \<and> length zs = n \<and> sorted zs \<and> mset zs = mset (seg a left n))"

lemma seg_put_same [simp]: "t + length zs \<le> length a \<Longrightarrow> seg (put t zs a) t (length zs) = zs"
  by (simp add: put_def seg_def)

lemma seg_put_after: "t + length zs \<le> i \<Longrightarrow> i \<le> length a \<Longrightarrow> seg (put t zs a) i n = seg a i n"
  by (simp add: put_def seg_def)

lemma seg_put_before: "i + n \<le> t \<Longrightarrow> t \<le> length a \<Longrightarrow> seg (put t zs a) i n = seg a i n"
proof -
  assume a: "i + n \<le> t" "t \<le> length a"
  then have "seg (put t zs a) i n = take n (drop i (take t a))"
    by (simp add: put_def seg_def)
  also have "\<dots> = take (min n (t - i)) (drop i a)" by (simp add: drop_take)
  also have "min n (t - i) = n" using a by simp
  finally show ?thesis by (simp add: seg_def)
qed

lemma put_put: "length zs = length ys + length xs \<Longrightarrow> t + length zs \<le> length a \<Longrightarrow>
    put t zs (put (t + length xs) ys (put t xs a)) = put t zs a"
  by (simp add: put_def ac_simps)

lemma seg_append: "i + m + n \<le> length a \<Longrightarrow> seg a i (m + n) = seg a i m @ seg a (i + m) n"
  by (simp add: seg_def take_add add.commute)

lemma mSort_correct:
  assumes "left \<le> right" "right < length arr" "length tmp = length arr" "length arr \<le> 2 ^ 30"
  shows "\<exists>arr' tmp'. mSort arr tmp left right = Some (arr', tmp') \<and> length arr' = length arr
    \<and> length tmp' = length tmp \<and> sorts_seg left (Suc right - left) arr arr'"
  using assms
proof (induction arr tmp left right rule: mSort.induct)
  case (1 arr tmp left right)
  show ?case
  proof (cases "left < right")
    case False
    then have "left = right" using "1.prems" by simp
    then have "sorts_seg left (Suc right - left) arr arr"
      using "1.prems" unfolding sorts_seg_def
      by (intro exI [of _ "seg arr left 1"]) (simp add: put_def seg_Cons id_take_nth_drop [symmetric])
    then show ?thesis using False by (simp add: mSort.simps)
  next
    case True
    define c where "c = (left + right) div 2"
    have c: "left \<le> c" "c < right" using True by (auto simp: c_def)
    have s: "i32 (int left + int right) = Some (int (left + right))"
      using "1.prems" by (simp add: i32_def)
    have cs: "nat (int (left + right)) div 2 = c" by (simp add: c_def)
    have cs': "nat (int left + int right) div 2 = c" by (simp add: c_def nat_int_add)
    obtain a1 t1 zs1 where h1: "mSort arr tmp left c = Some (a1, t1)" "length a1 = length arr"
        "length t1 = length tmp" "a1 = put left zs1 arr" "length zs1 = Suc c - left" "sorted zs1"
        "mset zs1 = mset (seg arr left (Suc c - left))"
      using "1.IH"(1) [OF True s] c "1.prems" unfolding cs sorts_seg_def by fastforce
    obtain a2 t2 zs2 where h2: "mSort a1 t1 (c + 1) right = Some (a2, t2)" "length a2 = length arr"
        "length t2 = length tmp" "a2 = put (c + 1) zs2 a1" "length zs2 = right - c" "sorted zs2"
        "mset zs2 = mset (seg a1 (c + 1) (right - c))"
      using "1.IH"(2) [OF True s h1(1) [folded cs] refl] c "1.prems" h1
      unfolding cs sorts_seg_def by fastforce
    have l: "left + length zs1 = c + 1" using h1(5) c by simp
    have seg1: "seg a2 left (c + 1 - left) = zs1"
      using h2(2,4) h1(2,4,5) c "1.prems" seg_put_same [of left zs1 arr]
      by (simp add: seg_put_before)
    have seg2: "seg a2 (c + 1) (Suc right - (c + 1)) = zs2"
      using h2(2,4,5) h1(2) c "1.prems" seg_put_same [of "c + 1" zs2 a1] by simp
    have m2: "mset zs2 = mset (seg arr (c + 1) (right - c))"
      using h2(7) h1(4) l "1.prems" c by (simp add: seg_put_after)
    obtain t3 where t3: "length t3 = length tmp"
      "merge_arr a2 t2 left (c + 1) right = Some (put left (mrg zs1 zs2) a2, t3)"
      using merge_arr_correct [of left "c + 1" right a2 t2] c "1.prems" h2 seg1 seg2 by auto
    have "put left (mrg zs1 zs2) a2 = put left (mrg zs1 zs2) arr"
      using put_put [of "mrg zs1 zs2" zs2 zs1 left arr] h1 h2 l "1.prems" c by simp
    moreover have "mset (mrg zs1 zs2) = mset (seg arr left (Suc right - left))"
    proof -
      have "Suc right - left = (Suc c - left) + (right - c)" using c by simp
      then show ?thesis
        using seg_append [of left "Suc c - left" "right - c" arr] h1(7) m2 c "1.prems" by simp
    qed
    ultimately have "sorts_seg left (Suc right - left) arr (put left (mrg zs1 zs2) a2)"
      using h1 h2 c unfolding sorts_seg_def
      by (intro exI [of _ "mrg zs1 zs2"]) (simp add: sorted_mrg)
    moreover have "mSort arr tmp left right = Some (put left (mrg zs1 zs2) a2, t3)"
      using True s h1(1) h2(1) t3 by (subst mSort.simps) (simp add: cs')
    moreover have "length (put left (mrg zs1 zs2) a2) = length arr"
      using h1 h2 c "1.prems" by simp
    ultimately show ?thesis using t3 by blast
  qed
qed

text \<open>
  Merge sort with a scratch array of the same length returns a sorted permutation; up
  to \<open>2^30\<close> elements its index sums do not overflow.
\<close>

theorem mergeSort_correct:
  assumes "length a \<le> 2 ^ 30" "length t = length a"
  shows "\<exists>a'. mergeSort (Some t) a (length a) = Some a' \<and> sorted a' \<and> mset a' = mset a"
proof (cases "a = []")
  case True
  then show ?thesis by (simp add: mergeSort_def mSort.simps)
next
  case False
  then obtain a' t' zs where "mSort a t 0 (length a - 1) = Some (a', t')"
    "a' = put 0 zs a" "length zs = length a" "sorted zs" "mset zs = mset a"
    using mSort_correct [of 0 "length a - 1" a t] assms by (auto simp: sorts_seg_def)
  then show ?thesis by (auto simp: mergeSort_def put_def)
qed

lemma mergeSort_correct_witness:
  "length [5, 2, 9::int] \<le> 2 ^ 30 \<and> length [0, 0, 0::int] = length [5, 2, 9::int] \<and>
   (\<exists>a'. mergeSort (Some [0, 0, 0]) [5, 2, 9] (length [5, 2, 9::int]) = Some a' \<and> sorted a'
     \<and> mset a' = mset [5, 2, 9])"
  using mergeSort_correct [of "[5, 2, 9]" "[0, 0, 0]"] by simp

end
