(* ===== verification/Bucket_Sort.thy ===== *)
theory Bucket_Sort
  imports Prelude
begin

text \<open>
  Bucket sort of \<^verbatim>\<open>src/example_sort.cpp\<close>.  The table has one head node per bucket, whose
  \<open>key\<close> field counts the nodes chained behind it; a key \<open>k\<close> goes to bucket \<open>k / 10\<close>
  (C's truncating division) and its chain is kept in order.  A key outside the table is an
  out-of-bounds access, so the model returns \<open>None\<close>.
\<close>

record bucket =
  count :: int
  chain :: "int list"

text \<open>\<^verbatim>\<open>while(p->next != NULL && p->next->key <= node->key) p = p->next;\<close> and the insertion behind \<open>p\<close>.\<close>

fun chain_insert :: "int \<Rightarrow> int list \<Rightarrow> int list" where
  "chain_insert x [] = [x]"
| "chain_insert x (y # ys) = (if y \<le> x then y # chain_insert x ys else x # y # ys)"

definition bucket_add :: "bucket list \<Rightarrow> int \<Rightarrow> bucket list option" where
  "bucket_add table x =
     do { b \<leftarrow> rdi table (cdiv x 10);
          if count b = 0 then wri table (cdiv x 10) \<lparr>count = count b + 1, chain = [x]\<rparr>
          else wri table (cdiv x 10) \<lparr>count = count b + 1, chain = chain_insert x (chain b)\<rparr> }"

function bucket_fill :: "bucket list \<Rightarrow> int list \<Rightarrow> nat \<Rightarrow> nat \<Rightarrow> bucket list option" where
  "bucket_fill table keys j sz =
     (if j < sz then
        do { k \<leftarrow> rd keys j;
             table' \<leftarrow> bucket_add table k;
             bucket_fill table' keys (Suc j) sz }
      else Some table)"
  by pat_completeness auto
termination
  by (relation "measure (\<lambda>(t, k, j, sz). sz - j)") auto

text \<open>The closing double loop writes the chains back, bucket after bucket.\<close>

fun write_chain :: "int list \<Rightarrow> nat \<Rightarrow> int list \<Rightarrow> (int list \<times> nat) option" where
  "write_chain keys tmp [] = Some (keys, tmp)"
| "write_chain keys tmp (k # ks) =
     do { keys' \<leftarrow> wr keys tmp k; write_chain keys' (Suc tmp) ks }"

fun write_table :: "int list \<Rightarrow> nat \<Rightarrow> bucket list \<Rightarrow> int list option" where
  "write_table keys tmp [] = Some keys"
| "write_table keys tmp (b # bs) =
     do { (keys', tmp') \<leftarrow> write_chain keys tmp (chain b); write_table keys' tmp' bs }"

definition bucketsort :: "int list \<Rightarrow> nat \<Rightarrow> nat \<Rightarrow> int list option" where
  "bucketsort keys sz bucket_size =
     do { table \<leftarrow> bucket_fill (replicate bucket_size \<lparr>count = 0, chain = []\<rparr>) keys 0 sz;
          write_table keys 0 table }"

declare bucket_fill.simps [simp del]

section \<open>Correctness\<close>

text \<open>
  The table invariant: the counter of a bucket is the length of its chain, the chain is in
  order, and holds exactly the keys of its decade.
\<close>

definition table_ok :: "bucket list \<Rightarrow> bool" where
  "table_ok table \<longleftrightarrow>
     (\<forall>i < length table. count (table ! i) = int (length (chain (table ! i)))
        \<and> sorted (chain (table ! i)) \<and> (\<forall>k \<in> set (chain (table ! i)). cdiv k 10 = int i))"

definition table_mset :: "bucket list \<Rightarrow> int multiset" where
  "table_mset table = mset (concat (map chain table))"

lemma mset_chain_insert [simp]: "mset (chain_insert x ys) = add_mset x (mset ys)"
  by (induction ys) auto

lemma set_chain_insert [simp]: "set (chain_insert x ys) = insert x (set ys)"
  by (induction ys) auto

lemma length_chain_insert [simp]: "length (chain_insert x ys) = Suc (length ys)"
  by (induction ys) auto

lemma sorted_chain_insert: "sorted ys \<Longrightarrow> sorted (chain_insert x ys)"
  by (induction ys) auto

lemma table_mset_update:
  "i < length table \<Longrightarrow> mset (chain b) = add_mset x (mset (chain (table ! i))) \<Longrightarrow>
   table_mset (table[i := b]) = add_mset x (table_mset table)"
proof -
  assume i: "i < length table" and b: "mset (chain b) = add_mset x (mset (chain (table ! i)))"
  have "table_mset (table[i := b])
      = mset (concat (map chain (take i table))) + mset (chain b) + mset (concat (map chain (drop (Suc i) table)))"
    using i by (simp add: table_mset_def upd_conv_take_nth_drop)
  also have "\<dots> = add_mset x (table_mset (take i table @ table ! i # drop (Suc i) table))"
    using b by (simp add: table_mset_def)
  finally show ?thesis by (simp only: id_take_nth_drop [OF i, symmetric])
qed

lemma bucket_add_correct:
  assumes ok: "table_ok table" and x: "0 \<le> cdiv x 10" "cdiv x 10 < int (length table)"
  shows "\<exists>table'. bucket_add table x = Some table' \<and> table_ok table'
    \<and> length table' = length table \<and> table_mset table' = add_mset x (table_mset table)"
proof -
  obtain i where ci: "cdiv x 10 = int i" using x(1) nonneg_int_cases by blast
  let ?i = "i"
  have i: "?i < length table" using x ci by simp
  let ?b = "table ! ?i"
  let ?b' = "\<lparr>count = count ?b + 1, chain = chain_insert x (chain ?b)\<rparr>"
  have b: "count ?b = int (length (chain ?b))" "sorted (chain ?b)"
    "\<forall>k \<in> set (chain ?b). cdiv k 10 = int ?i"
    using ok i by (auto simp: table_ok_def)
  then have "count ?b = 0 \<Longrightarrow> chain_insert x (chain ?b) = [x]" by simp
  then have add: "bucket_add table x = Some (table[?i := ?b'])"
    using i by (simp add: bucket_add_def ci)
  have "table_ok (table[?i := ?b'])"
    using ok i b ci by (auto simp: table_ok_def nth_list_update sorted_chain_insert)
  moreover have "table_mset (table[?i := ?b']) = add_mset x (table_mset table)"
    using i by (intro table_mset_update) auto
  ultimately show ?thesis using add by simp
qed

lemma bucket_fill_correct:
  assumes "table_ok table" "sz \<le> length keys" "j \<le> sz"
    "\<forall>k \<in> set (drop j (take sz keys)). 0 \<le> cdiv k 10 \<and> cdiv k 10 < int (length table)"
  shows "\<exists>table'. bucket_fill table keys j sz = Some table' \<and> table_ok table'
    \<and> table_mset table' = table_mset table + mset (drop j (take sz keys))"
  using assms
proof (induction table keys j sz rule: bucket_fill.induct)
  case (1 table keys j sz)
  show ?case
  proof (cases "j < sz")
    case True
    then have d: "drop j (take sz keys) = keys ! j # drop (Suc j) (take sz keys)"
      using "1.prems" by (metis Cons_nth_drop_Suc length_take min.absorb2 nth_take)
    then obtain t where t: "bucket_add table (keys ! j) = Some t" "table_ok t"
        "length t = length table" "table_mset t = add_mset (keys ! j) (table_mset table)"
      using bucket_add_correct [of table "keys ! j"] "1.prems" by auto
    then obtain t' where "bucket_fill t keys (Suc j) sz = Some t'" "table_ok t'"
        "table_mset t' = table_mset t + mset (drop (Suc j) (take sz keys))"
      using "1.IH" [of "keys ! j" t] True "1.prems" d by auto
    then show ?thesis using True t d "1.prems" by (subst bucket_fill.simps) simp
  next
    case False
    then show ?thesis using "1.prems" by (subst bucket_fill.simps) simp
  qed
qed

lemma write_chain_correct:
  "t + length ks \<le> length keys \<Longrightarrow>
   write_chain keys t ks = Some (take t keys @ ks @ drop (t + length ks) keys, t + length ks)"
  by (induction keys t ks rule: write_chain.induct) (simp_all add: take_Suc_update)

lemma write_table_correct:
  "t + length (concat (map chain bs)) \<le> length keys \<Longrightarrow>
   write_table keys t bs
     = Some (take t keys @ concat (map chain bs) @ drop (t + length (concat (map chain bs))) keys)"
  by (induction keys t bs rule: write_table.induct) (simp_all add: write_chain_correct ac_simps)

lemma cdiv_mono: "0 < b \<Longrightarrow> x \<le> y \<Longrightarrow> cdiv x b \<le> cdiv y b"
proof -
  assume b: "0 < b" and xy: "x \<le> y"
  have neg: "cdiv z b = - ((- z) div b)" if "z < 0" for z
    using that b by (simp add: cdiv_def sgn_if)
  consider "0 \<le> x" | "x < 0" "0 \<le> y" | "y < 0" by linarith
  then show ?thesis
  proof cases
    case 1 then show ?thesis using b xy by (simp add: zdiv_mono1)
  next
    case 2
    then have "cdiv x b \<le> 0" using neg [of x] b by (simp add: pos_imp_zdiv_nonneg_iff)
    moreover have "0 \<le> cdiv y b" using 2 b by (simp add: pos_imp_zdiv_nonneg_iff)
    ultimately show ?thesis by linarith
  next
    case 3
    then have "(- y) div b \<le> (- x) div b" using b xy by (intro zdiv_mono1) auto
    then show ?thesis using 3 xy neg [of x] neg [of y] by simp
  qed
qed

lemma sorted_concat_table:
  assumes "table_ok table"
  shows "sorted (concat (map chain table))"
proof -
  have "sorted (concat (map chain (drop n table)))
      \<and> (\<forall>k \<in> set (concat (map chain (drop n table))). int n \<le> cdiv k 10)" for n
  proof (induction "length table - n" arbitrary: n)
    case 0
    then show ?case by simp
  next
    case (Suc m)
    then have n: "n < length table" by simp
    then have d: "drop n table = table ! n # drop (Suc n) table" by (simp add: Cons_nth_drop_Suc)
    have tn: "sorted (chain (table ! n))" "\<forall>k \<in> set (chain (table ! n)). cdiv k 10 = int n"
      using assms n by (auto simp: table_ok_def)
    have IH: "sorted (concat (map chain (drop (Suc n) table)))"
      "\<forall>k \<in> set (concat (map chain (drop (Suc n) table))). int (Suc n) \<le> cdiv k 10"
      using Suc.hyps(1) [of "Suc n"] Suc.hyps(2) by auto
    have "x \<le> y" if "x \<in> set (chain (table ! n))"
      "y \<in> set (concat (map chain (drop (Suc n) table)))" for x y
    proof (rule ccontr)
      assume "\<not> x \<le> y"
      then have "cdiv y 10 \<le> cdiv x 10" by (intro cdiv_mono) auto
      then show False using tn(2) IH(2) that by fastforce
    qed
    then have "sorted (concat (map chain (drop n table)))"
      using tn IH d by (auto simp: sorted_append)
    moreover have "int n \<le> cdiv k 10" if "k \<in> set (concat (map chain (drop n table)))" for k
      using that tn(2) IH(2) unfolding d by fastforce
    ultimately show ?case by blast
  qed
  from this [of 0] show ?thesis by simp
qed

text \<open>
  When every key lies between \<open>-9\<close> and the last decade of the table, bucket sort
  stays in bounds and sorts the first \<open>sz\<close> keys.
\<close>

theorem bucketsort_correct:
  assumes sz: "sz \<le> length keys" "0 < bucket_size"
    and keys: "\<forall>k \<in> set (take sz keys). - 10 < k \<and> k < 10 * int bucket_size"
  shows "\<exists>keys'. bucketsort keys sz bucket_size = Some keys' \<and> sorted (take sz keys')
    \<and> mset (take sz keys') = mset (take sz keys) \<and> drop sz keys' = drop sz keys"
proof -
  let ?t0 = "replicate bucket_size \<lparr>count = 0, chain = []\<rparr>"
  have cd: "0 \<le> cdiv k 10 \<and> cdiv k 10 < int bucket_size" if "k \<in> set (take sz keys)" for k
  proof (cases "0 \<le> k")
    case True
    then show ?thesis using keys that by auto
  next
    case False
    then have "(- k) div 10 = 0" using keys that by (intro div_pos_pos_trivial) auto
    then show ?thesis using False sz by (simp add: cdiv_def)
  qed
  have ok: "table_ok ?t0" by (simp add: table_ok_def)
  have m0: "table_mset ?t0 = {#}"
    by (simp add: table_mset_def)
  obtain t where t: "bucket_fill ?t0 keys 0 sz = Some t" "table_ok t"
      "table_mset t = mset (take sz keys)"
    using bucket_fill_correct [OF ok sz(1), of 0] cd m0 by auto
  let ?c = "concat (map chain t)"
  have m: "mset ?c = mset (take sz keys)" using t(3) by (simp add: table_mset_def)
  then have len: "length ?c = sz" using sz mset_eq_length by fastforce
  have "write_table keys 0 t = Some (?c @ drop sz keys)"
    using write_table_correct [of 0 t keys] len sz by simp
  then have "bucketsort keys sz bucket_size = Some (?c @ drop sz keys)"
    using t by (simp add: bucketsort_def)
  then show ?thesis using m len sorted_concat_table [OF t(2)] by simp
qed

lemma bucketsort_correct_witness:
  "(3::nat) \<le> length [81, 94, 11::int] \<and>
   (\<exists>keys'. bucketsort [81, 94, 11] 3 10 = Some keys' \<and> sorted (take 3 keys')
     \<and> mset (take 3 keys') = mset (take 3 [81, 94, 11]) \<and> drop 3 keys' = drop 3 [81, 94, 11])"
  using bucketsort_correct [of 3 "[81, 94, 11]" 10] by simp

text \<open>A key outside the decades of the table is an out-of-bounds access.\<close>

lemma bucketsort_out_of_range: "bucketsort [100] 1 10 = None"
  by (simp add: bucketsort_def bucket_fill.simps bucket_add_def rdi_def)

end
