(* ===== verification/Heap_Sort.thy ===== *)
theory Heap_Sort
  imports Prelude
begin

text \<open>
  Heap sort of \<^verbatim>\<open>src/example_heapsort.cpp\<close> (the same code stands in
  \<^verbatim>\<open>src/example_sort.cpp\<close>): a binary max-heap in the array, sifted down by \<open>maxheapify\<close>.
\<close>

section \<open>The code\<close>

text \<open>\<open>swap_at a i j\<close> is \<^verbatim>\<open>swap(&arr[i], &arr[j])\<close>.\<close>

definition swap_at :: "int list \<Rightarrow> nat \<Rightarrow> nat \<Rightarrow> int list option" where
  "swap_at a i j =
     do { tmp \<leftarrow> rd a i;
          y \<leftarrow> rd a j;
          a' \<leftarrow> wr a i y;
          wr a' j tmp }"

text \<open>
  The choice of \<open>maxpos\<close> at the start of \<open>maxheapify\<close>.  \<open>left\<close> and \<open>right\<close> are of type \<open>int\<close> and computed before they are
  compared with the size; where they overflow the result is \<open>None\<close>.
\<close>

definition select_max :: "int list \<Rightarrow> nat \<Rightarrow> nat \<Rightarrow> nat option" where
  "select_max a sz pos =
     do { left \<leftarrow> n32 (2 * pos + 1);
          right \<leftarrow> n32 (2 * pos + 2);
          maxpos \<leftarrow> (if left < sz then
                       do { l \<leftarrow> rd a left;
                            p \<leftarrow> rd a pos;
                            Some (if l > p then left else pos) }
                     else Some pos);
          if right < sz then
            do { r \<leftarrow> rd a right;
                 m \<leftarrow> rd a maxpos;
                 Some (if r > m then right else maxpos) }
          else Some maxpos }"

lemma select_max_cases:
  "select_max a sz pos = Some m \<Longrightarrow> m = pos \<or> (pos < m \<and> m < sz)"
  by (auto simp: select_max_def Option.bind_eq_Some_conv n32_eq_Some_iff split: if_splits)

function maxheapify :: "int list \<Rightarrow> nat \<Rightarrow> nat \<Rightarrow> int list option" where
  "maxheapify a sz pos =
     do { maxpos \<leftarrow> select_max a sz pos;
          if maxpos \<noteq> pos then
            do { a' \<leftarrow> swap_at a maxpos pos; maxheapify a' sz maxpos }
          else Some a }"
  by pat_completeness auto
termination
  by (relation "measure (\<lambda>(a, sz, pos). sz - pos)") (auto dest!: select_max_cases)

text \<open>\<open>buildheap_loop a sz k\<close>: the iterations \<open>i = k - 1, \<dots>, 0\<close>.\<close>

fun buildheap_loop :: "int list \<Rightarrow> nat \<Rightarrow> nat \<Rightarrow> int list option" where
  "buildheap_loop a sz 0 = Some a"
| "buildheap_loop a sz (Suc i) = do { a' \<leftarrow> maxheapify a sz i; buildheap_loop a' sz i }"

definition buildheap :: "int list \<Rightarrow> nat \<Rightarrow> int list option" where
  "buildheap a sz = buildheap_loop a sz (sz div 2)"

text \<open>\<open>heapsort_loop a i heapsize\<close>: the iterations from \<open>i\<close> down to \<open>1\<close>.\<close>

fun heapsort_loop :: "int list \<Rightarrow> nat \<Rightarrow> nat \<Rightarrow> int list option" where
  "heapsort_loop a 0 heapsize = Some a"
| "heapsort_loop a (Suc i) heapsize =
     do { a1 \<leftarrow> swap_at a 0 (Suc i);
          a2 \<leftarrow> maxheapify a1 (heapsize - 1) 0;
          heapsort_loop a2 i (heapsize - 1) }"

definition heapsort :: "int list \<Rightarrow> nat \<Rightarrow> int list option" where
  "heapsort a sz = do { a' \<leftarrow> buildheap a sz; heapsort_loop a' (sz - 1) sz }"

declare maxheapify.simps [simp del]

section \<open>Sifting down\<close>

text \<open>
  \<open>dominates n a p v\<close>: the children of \<open>p\<close> below \<open>n\<close> are at most \<open>v\<close>.  \<open>heap_from lo n a\<close>
  is the heap property at every node from \<open>lo\<close> on; \<open>almost_heap\<close> excepts \<open>pos\<close>, whose
  children are already below its parent.
\<close>

definition dominates :: "nat \<Rightarrow> int list \<Rightarrow> nat \<Rightarrow> int \<Rightarrow> bool" where
  "dominates n a p v \<longleftrightarrow>
     (2 * p + 1 < n \<longrightarrow> a ! (2 * p + 1) \<le> v) \<and> (2 * p + 2 < n \<longrightarrow> a ! (2 * p + 2) \<le> v)"

definition heap_from :: "nat \<Rightarrow> nat \<Rightarrow> int list \<Rightarrow> bool" where
  "heap_from lo n a \<longleftrightarrow> (\<forall>p \<ge> lo. dominates n a p (a ! p))"

definition almost_heap :: "nat \<Rightarrow> nat \<Rightarrow> nat \<Rightarrow> int list \<Rightarrow> bool" where
  "almost_heap lo n pos a \<longleftrightarrow>
     (\<forall>p \<ge> lo. p \<noteq> pos \<longrightarrow> dominates n a p (a ! p)) \<and>
     (\<forall>p \<ge> lo. 2 * p + 1 = pos \<or> 2 * p + 2 = pos \<longrightarrow> dominates n a pos (a ! p))"

lemma swap_at_Some:
  "i < length a \<Longrightarrow> j < length a \<Longrightarrow> swap_at a i j = Some (a[i := a ! j, j := a ! i])"
  by (simp add: swap_at_def)

lemma select_max_Some:
  assumes "pos < length a" "n \<le> length a" "length a < 2 ^ 30"
  shows "\<exists>m. select_max a n pos = Some m
    \<and> (m = pos \<and> dominates n a pos (a ! pos)
       \<or> (m = 2 * pos + 1 \<or> m = 2 * pos + 2) \<and> m < n \<and> a ! pos < a ! m \<and> dominates n a pos (a ! m))"
  using assms by (auto simp: select_max_def dominates_def)

lemma almost_heap_swap:
  assumes al: "almost_heap lo n pos a" and lo: "lo \<le> pos" and n: "n \<le> length a"
    and m: "m = 2 * pos + 1 \<or> m = 2 * pos + 2" "m < n" "a ! pos < a ! m" "dominates n a pos (a ! m)"
  shows "almost_heap lo n m (a[m := a ! pos, pos := a ! m])"
proof -
  let ?b = "a[m := a ! pos, pos := a ! m]"
  have b: "?b ! i = (if i = pos then a ! m else if i = m then a ! pos else a ! i)" if "i < n" for i
    using that n m by (auto simp: nth_list_update)
  have pos: "pos < n" using m by auto
  have "dominates n ?b p (?b ! p)" if p: "lo \<le> p" "p \<noteq> m" for p
  proof (cases "p = pos")
    case True
    then show ?thesis using b pos m unfolding dominates_def by force
  next
    case False
    then have d: "dominates n a p (a ! p)" using al p by (simp add: almost_heap_def)
    show ?thesis
    proof (cases "p < n")
      case pn: True
      then have v: "?b ! p = a ! p" using b False p by simp
      have "?b ! c \<le> a ! p" if c: "c = 2 * p + 1 \<or> c = 2 * p + 2" "c < n" for c
      proof (cases "c = pos")
        case True
        then have "dominates n a pos (a ! p)" using al p c by (auto simp: almost_heap_def)
        then have "a ! m \<le> a ! p" using m by (auto simp: dominates_def)
        then show ?thesis using True b pos by simp
      next
        case False
        moreover have "c \<noteq> m" using c(1) m(1) \<open>p \<noteq> pos\<close> by presburger
        ultimately show ?thesis using b c d by (auto simp: dominates_def)
      qed
      then show ?thesis using v by (auto simp: dominates_def)
    qed (simp add: dominates_def)
  qed
  moreover have "dominates n ?b m (?b ! p)" if p: "2 * p + 1 = m \<or> 2 * p + 2 = m" for p
  proof -
    have "p = pos" using p m(1) by presburger
    then have v: "?b ! p = a ! m" using b pos by simp
    have "dominates n a m (a ! m)" using al m lo by (auto simp: almost_heap_def)
    then show ?thesis using v b m by (auto simp: dominates_def)
  qed
  ultimately show ?thesis by (simp add: almost_heap_def)
qed

lemma maxheapify_correct:
  assumes "almost_heap lo n pos a" "lo \<le> pos" "pos < length a" "n \<le> length a" "length a < 2 ^ 30"
  shows "\<exists>a'. maxheapify a n pos = Some a' \<and> heap_from lo n a' \<and> mset a' = mset a
    \<and> drop n a' = drop n a"
  using assms
proof (induction a n pos rule: maxheapify.induct)
  case (1 a n pos)
  obtain m where m: "select_max a n pos = Some m"
    "m = pos \<and> dominates n a pos (a ! pos)
       \<or> (m = 2 * pos + 1 \<or> m = 2 * pos + 2) \<and> m < n \<and> a ! pos < a ! m \<and> dominates n a pos (a ! m)"
    using select_max_Some [of pos a n] "1.prems" by auto
  show ?case
  proof (cases "m = pos")
    case True
    then have "heap_from lo n a" using "1.prems" m by (auto simp: heap_from_def almost_heap_def)
    then show ?thesis using m True by (subst maxheapify.simps) simp
  next
    case False
    let ?b = "a[m := a ! pos, pos := a ! m]"
    have al: "almost_heap lo n m ?b" using m False "1.prems" by (intro almost_heap_swap) auto
    have sw: "swap_at a m pos = Some ?b" using m False "1.prems" by (intro swap_at_Some) auto
    have "\<exists>a'. maxheapify ?b n m = Some a' \<and> heap_from lo n a' \<and> mset a' = mset ?b
        \<and> drop n a' = drop n ?b"
      using "1.IH" [OF m(1) False sw al] m False "1.prems" by auto
    moreover have "mset ?b = mset a" using m False "1.prems" mset_swap [of pos a m] by auto
    moreover have "drop n ?b = drop n a" using m False by (auto simp: drop_update_cancel)
    ultimately show ?thesis using m(1) False sw by (subst maxheapify.simps) simp
  qed
qed

lemma buildheap_loop_correct:
  assumes "heap_from k n a" "n \<le> length a" "k \<le> length a" "length a < 2 ^ 30"
  shows "\<exists>a'. buildheap_loop a n k = Some a' \<and> heap_from 0 n a' \<and> mset a' = mset a
    \<and> drop n a' = drop n a"
  using assms
proof (induction a n k rule: buildheap_loop.induct)
  case (1 a n)
  then show ?case by simp
next
  case (2 a n i)
  have "almost_heap i n i a" using 2(2) by (auto simp: heap_from_def almost_heap_def)
  then obtain a' where a': "maxheapify a n i = Some a'" "heap_from i n a'" "mset a' = mset a"
      "drop n a' = drop n a"
    using maxheapify_correct [of i n i a] 2 by auto
  then have "length a' = length a" using mset_eq_length by blast
  then show ?case using 2(1) [OF a'(1,2)] 2(3-5) a' by auto
qed

lemma heap_fromD:
  "heap_from lo n a \<Longrightarrow> lo \<le> p \<Longrightarrow> c = 2 * p + 1 \<or> c = 2 * p + 2 \<Longrightarrow> c < n \<Longrightarrow> a ! c \<le> a ! p"
  by (auto simp: heap_from_def dominates_def)

lemma heap_root_max:
  assumes "heap_from 0 n a" "k < n"
  shows "a ! k \<le> a ! 0"
  using assms(2)
proof (induction k rule: less_induct)
  case (less k)
  show ?case
  proof (cases "k = 0")
    case False
    obtain p where p: "p < k" "k = 2 * p + 1 \<or> k = 2 * p + 2"
    proof
      show "(k - 1) div 2 < k" using False by auto
      show "k = 2 * ((k - 1) div 2) + 1 \<or> k = 2 * ((k - 1) div 2) + 2" using False by presburger
    qed
    then have "a ! k \<le> a ! p" using assms(1) less.prems by (intro heap_fromD) auto
    also have "\<dots> \<le> a ! 0" using less p by auto
    finally show ?thesis .
  qed simp
qed

section \<open>The sort\<close>

lemma mset_take_drop_eq:
  "mset a' = mset a \<Longrightarrow> drop n a' = drop n a \<Longrightarrow> mset (take n a') = mset (take n a)"
  by (metis add_right_cancel append_take_drop_id mset_append)

lemma in_take_conv: "x \<in> set (take n a) \<longleftrightarrow> (\<exists>i < n. i < length a \<and> a ! i = x)"
  by (auto simp: in_set_conv_nth)

lemma heapsort_loop_correct:
  assumes "heap_from 0 (Suc i) a" "Suc i \<le> length a"
    "\<forall>p q. p \<le> i \<and> i < q \<and> q < length a \<longrightarrow> a ! p \<le> a ! q"
    "\<forall>p q. i < p \<and> p < q \<and> q < length a \<longrightarrow> a ! p \<le> a ! q"
    "length a < 2 ^ 30"
  shows "\<exists>a'. heapsort_loop a i (Suc i) = Some a' \<and> sorted a' \<and> mset a' = mset a"
  using assms
proof (induction i arbitrary: a)
  case 0
  have "a ! p \<le> a ! q" if "p < q" "q < length a" for p q
    using 0 that by (cases "p = 0") auto
  then have "sorted a" by (auto simp: sorted_iff_nth_mono_less)
  then show ?case by simp
next
  case (Suc i)
  let ?b = "a[0 := a ! Suc i, Suc i := a ! 0]"
  have sw: "swap_at a 0 (Suc i) = Some ?b" using Suc.prems by (intro swap_at_Some) auto
  have "almost_heap 0 (Suc i) 0 ?b"
    using Suc.prems(1,2) by (auto simp: almost_heap_def heap_from_def dominates_def nth_list_update)
  then obtain c where c: "maxheapify ?b (Suc i) 0 = Some c" "heap_from 0 (Suc i) c"
      "mset c = mset ?b" "drop (Suc i) c = drop (Suc i) ?b"
    using maxheapify_correct [of 0 "Suc i" 0 ?b] Suc.prems(2,5) by (cases a) auto
  have mb: "mset ?b = mset a" using Suc.prems(2) mset_swap [of "Suc i" a 0] by (cases a) auto
  have len: "length c = length a" using c(3) mb mset_eq_length by metis
  have hi: "c ! q = ?b ! q" if "Suc i \<le> q" "q < length a" for q
  proof -
    have "drop (Suc i) c ! (q - Suc i) = drop (Suc i) ?b ! (q - Suc i)" using c(4) by simp
    then show ?thesis using that len by simp
  qed
  have inS: "\<exists>r \<le> Suc i. c ! p = a ! r" if "p \<le> i" for p
  proof -
    have "set (take (Suc i) c) = set (take (Suc i) ?b)"
      using mset_take_drop_eq [OF c(3,4)] mset_eq_setD by blast
    moreover have "c ! p \<in> set (take (Suc i) c)"
      unfolding in_take_conv using that len Suc.prems(2) by (intro exI [of _ p]) auto
    ultimately obtain r where "r < Suc i" "?b ! r = c ! p" by (auto simp: in_take_conv)
    then show ?thesis using Suc.prems(2)
      by (intro exI [of _ "if r = 0 then Suc i else r"]) (cases a; auto simp: nth_list_update)
  qed
  have max: "c ! p \<le> a ! 0" if "p \<le> i" for p
    using inS [OF that] heap_root_max [OF Suc.prems(1)] by auto
  have low: "c ! p \<le> c ! q" if pq: "p \<le> i" "i < q" "q < length c" for p q
  proof (cases "q = Suc i")
    case True
    then show ?thesis using that max hi [of q] len Suc.prems(2) by simp
  next
    case False
    then have "c ! q = a ! q" using that hi [of q] len by simp
    moreover obtain r where "r \<le> Suc i" "c ! p = a ! r" using inS [OF pq(1)] by blast
    ultimately show ?thesis using Suc.prems(3) pq False len by simp
  qed
  have high: "c ! p \<le> c ! q" if "i < p" "p < q" "q < length c" for p q
  proof -
    have q: "c ! q = a ! q" using that hi [of q] len by simp
    show ?thesis
    proof (cases "p = Suc i")
      case True
      then show ?thesis using that hi [of p] q len Suc.prems(2,3) by auto
    next
      case False
      then show ?thesis using that hi [of p] q len Suc.prems(4) by auto
    qed
  qed
  obtain a' where "heapsort_loop c i (Suc i) = Some a'" "sorted a'" "mset a' = mset c"
    using Suc.IH [OF c(2)] low high len Suc.prems(2,5) by auto
  then show ?case using sw c(1,3) mb by simp
qed

text \<open>
  Heap sort returns a sorted permutation of every array of fewer than \<open>2 ^ 30\<close> elements.  For a longer one the index of the right
  child of the last element is not an \<open>int\<close>.
\<close>

theorem heapsort_correct:
  assumes l: "length a < 2 ^ 30"
  shows "\<exists>a'. heapsort a (length a) = Some a' \<and> sorted a' \<and> mset a' = mset a"
proof (cases "a = []")
  case True
  then show ?thesis by (simp add: heapsort_def buildheap_def)
next
  case False
  let ?n = "length a"
  have "heap_from (?n div 2) ?n a" by (auto simp: heap_from_def dominates_def)
  then obtain b where b: "buildheap a ?n = Some b" "heap_from 0 ?n b" "mset b = mset a"
    using buildheap_loop_correct [of "?n div 2" ?n a] l by (auto simp: buildheap_def)
  have len: "length b = ?n" using b(3) mset_eq_length by blast
  have "\<exists>a'. heapsort_loop b (?n - 1) (Suc (?n - 1)) = Some a' \<and> sorted a' \<and> mset a' = mset b"
    using b(2) len False l by (intro heapsort_loop_correct) auto
  then show ?thesis using b(1,3) False by (auto simp: heapsort_def)
qed

lemma select_max_overflow: "2 ^ 30 - 1 \<le> pos \<Longrightarrow> select_max a sz pos = None"
  by (simp add: select_max_def n32_def)

end
