(* ===== verification/Quick_Sort.thy ===== *)
theory Quick_Sort
  imports Prelude
begin

text \<open>
  Quick sort of \<^verbatim>\<open>src/example_quicksort.cpp\<close>: the first element of the range is the pivot
  and leaves a hole that the two inner loops move to its final place.  The bounds of
  \<open>quicksort\<close> are signed, since \<open>i - 1\<close> may be \<open>-1\<close>.
\<close>

section \<open>The code\<close>

text \<open>\<^verbatim>\<open>while(i<j && arr[j]>=key)j--;\<close> and \<^verbatim>\<open>while(i<j && arr[i]<=key)i++;\<close>\<close>

function scan_down :: "int list \<Rightarrow> nat \<Rightarrow> nat \<Rightarrow> int \<Rightarrow> nat option" where
  "scan_down a i j key =
     (if i < j then
        do { x \<leftarrow> rd a j; if x \<ge> key then scan_down a i (j - 1) key else Some j }
      else Some j)"
  by pat_completeness auto
termination
  by (relation "measure (\<lambda>(a, i, j, key). j)") auto

function scan_up :: "int list \<Rightarrow> nat \<Rightarrow> nat \<Rightarrow> int \<Rightarrow> nat option" where
  "scan_up a i j key =
     (if i < j then
        do { x \<leftarrow> rd a i; if x \<le> key then scan_up a (Suc i) j key else Some i }
      else Some i)"
  by pat_completeness auto
termination
  by (relation "measure (\<lambda>(a, i, j, key). j - i)") auto

declare scan_down.simps [simp del] scan_up.simps [simp del]

lemma scan_down_result:
  "i \<le> j \<Longrightarrow> scan_down a i j key = Some j' \<Longrightarrow>
   i \<le> j' \<and> j' \<le> j \<and> (\<forall>k. j' < k \<and> k \<le> j \<longrightarrow> key \<le> a ! k) \<and> (i < j' \<longrightarrow> a ! j' < key)"
proof (induction a i j key rule: scan_down.induct)
  case (1 a i j key)
  show ?case
  proof (cases "i < j \<and> j < length a \<and> key \<le> a ! j")
    case True
    then have "scan_down a i (j - 1) key = Some j'"
      using "1.prems" by (subst (asm) scan_down.simps) simp
    with "1.IH" [of "a ! j"] True
    have IH: "i \<le> j' \<and> j' \<le> j - 1 \<and> (\<forall>k. j' < k \<and> k \<le> j - 1 \<longrightarrow> key \<le> a ! k) \<and> (i < j' \<longrightarrow> a ! j' < key)"
      by auto
    have "key \<le> a ! k" if "j' < k" "k \<le> j" for k
      using IH True that by (cases "k = j") auto
    then show ?thesis using IH by auto
  next
    case False
    then show ?thesis using "1.prems"
      by (subst (asm) scan_down.simps) (auto simp: access_iffs Option.bind_eq_Some_conv split: if_splits)
  qed
qed

lemma scan_up_result:
  "i \<le> j \<Longrightarrow> scan_up a i j key = Some i' \<Longrightarrow>
   i \<le> i' \<and> i' \<le> j \<and> (\<forall>k. i \<le> k \<and> k < i' \<longrightarrow> a ! k \<le> key) \<and> (i' < j \<longrightarrow> key < a ! i')"
proof (induction a i j key rule: scan_up.induct)
  case (1 a i j key)
  show ?case
  proof (cases "i < j \<and> i < length a \<and> a ! i \<le> key")
    case True
    then have "scan_up a (Suc i) j key = Some i'"
      using "1.prems" by (subst (asm) scan_up.simps) simp
    with "1.IH" [of "a ! i"] True
    have IH: "Suc i \<le> i' \<and> i' \<le> j \<and> (\<forall>k. Suc i \<le> k \<and> k < i' \<longrightarrow> a ! k \<le> key) \<and> (i' < j \<longrightarrow> key < a ! i')"
      by auto
    have "a ! k \<le> key" if "i \<le> k" "k < i'" for k
      using IH True that by (cases "k = i") auto
    then show ?thesis using IH by auto
  next
    case False
    then show ?thesis using "1.prems"
      by (subst (asm) scan_up.simps) (auto simp: access_iffs Option.bind_eq_Some_conv split: if_splits)
  qed
qed

text \<open>
  The partition loop.  It terminates because whenever \<open>j\<close> stops above \<open>i\<close>, the element
  moved to \<open>i\<close> is below the pivot and the upward scan moves past it.
\<close>

function partition_loop :: "int list \<Rightarrow> nat \<Rightarrow> nat \<Rightarrow> int \<Rightarrow> (int list \<times> nat) option" where
  "partition_loop a i j key =
     (if i < j then
        do { j' \<leftarrow> scan_down a i j key;
             x \<leftarrow> rd a j';
             a1 \<leftarrow> wr a i x;
             i' \<leftarrow> scan_up a1 i j' key;
             y \<leftarrow> rd a1 i';
             a2 \<leftarrow> wr a1 j' y;
             partition_loop a2 i' j' key }
      else Some (a, i))"
  by pat_completeness auto
termination
proof (relation "measure (\<lambda>(a, i, j, key). j - i)")
  fix a :: "int list" and i j j' i' :: nat and key x y :: int and a1 a2 :: "int list"
  assume h: "i < j" "scan_down a i j key = Some j'" "rd a j' = Some x" "wr a i x = Some a1"
    "scan_up a1 i j' key = Some i'"
  have d: "i \<le> j'" "j' \<le> j" "i < j' \<Longrightarrow> a ! j' < key"
    using scan_down_result [OF _ h(2)] h(1) by auto
  have u: "i \<le> i'" "i' \<le> j'" "i' < j' \<Longrightarrow> key < a1 ! i'"
    using scan_up_result [OF _ h(5)] d by auto
  have "j' - i' < j - i"
  proof (cases "i < j' \<and> i' = i")
    case True
    then have "key < a1 ! i" "a ! j' < key" using u d by auto
    moreover have "a1 ! i = a ! j'" using h(3,4) by (auto simp: access_iffs)
    ultimately show ?thesis by simp
  next
    case False
    then show ?thesis using d u h(1) by auto
  qed
  then show "((a2, i', j', key), (a, i, j, key)) \<in> measure (\<lambda>(a, i, j, key). j - i)" by simp
qed auto

declare partition_loop.simps [simp del]

lemma partition_loop_bounds:
  "i \<le> j \<Longrightarrow> partition_loop a i j key = Some (a', m) \<Longrightarrow> i \<le> m \<and> m \<le> j"
proof (induction a i j key rule: partition_loop.induct)
  case (1 a i j key)
  show ?case
  proof (cases "i < j")
    case True
    from "1.prems" True obtain j' x a1 i' y a2 where h: "scan_down a i j key = Some j'"
      "rd a j' = Some x" "wr a i x = Some a1" "scan_up a1 i j' key = Some i'" "rd a1 i' = Some y"
      "wr a1 j' y = Some a2" "partition_loop a2 i' j' key = Some (a', m)"
      by (simp add: partition_loop.simps [of a i j key]) (auto simp: Option.bind_eq_Some_conv)
    have "i \<le> j'" "j' \<le> j" using scan_down_result [OF _ h(1)] True by auto
    moreover have "i \<le> i'" "i' \<le> j'" using scan_up_result [OF _ h(4)] \<open>i \<le> j'\<close> by auto
    ultimately show ?thesis using "1.IH" [OF True h(1-6)] h(7) by simp
  next
    case False
    then show ?thesis using "1.prems" by (simp add: partition_loop.simps)
  qed
qed

function quicksort :: "int list \<Rightarrow> int \<Rightarrow> int \<Rightarrow> int list option" where
  "quicksort a left right =
     (if left \<ge> right then Some a
      else
        do { key \<leftarrow> rdi a left;
             (a1, i) \<leftarrow> partition_loop a (nat left) (nat right) key;
             a2 \<leftarrow> wr a1 i key;
             a3 \<leftarrow> quicksort a2 (int i + 1) right;
             quicksort a3 left (int i - 1) })"
  by pat_completeness auto
termination
proof (relation "measure (\<lambda>(a, l, r). nat (r - l))")
  fix a :: "int list" and left right key :: int and x :: "int list \<times> nat" and a1 i a2
  assume h: "\<not> left \<ge> right" "rdi a left = Some key"
    "partition_loop a (nat left) (nat right) key = Some x" "(a1, i) = x"
  then have "nat left \<le> i" "i \<le> nat right" "0 \<le> left"
    using partition_loop_bounds [of "nat left" "nat right" a key a1 i] by (auto simp: access_iffs)
  then show "((a2, int i + 1, right), (a, left, right)) \<in> measure (\<lambda>(a, l, r). nat (r - l))"
    and "((a2, left, int i - 1), (a, left, right)) \<in> measure (\<lambda>(a, l, r). nat (r - l))"
    using h(1) by auto
qed auto

declare quicksort.simps [simp del]

section \<open>Partitioning\<close>

lemma scan_down_Some: "j < length a \<Longrightarrow> \<exists>j'. scan_down a i j key = Some j'"
proof (induction a i j key rule: scan_down.induct)
  case (1 a i j key)
  then show ?case by (subst scan_down.simps) auto
qed

lemma scan_up_Some: "j < length a \<Longrightarrow> \<exists>i'. scan_up a i j key = Some i'"
proof (induction a i j key rule: scan_up.induct)
  case (1 a i j key)
  then show ?case by (subst scan_up.simps) auto
qed

text \<open>
  The partition invariant: with the pivot put into the hole \<open>i\<close> the array is a permutation,
  everything outside \<open>[i, j]\<close> is untouched, and what the scans passed is on its side.
\<close>

lemma partition_loop_correct:
  assumes "i \<le> j" "j < length a"
  shows "\<exists>a' m. partition_loop a i j key = Some (a', m) \<and> i \<le> m \<and> m \<le> j
    \<and> mset (a'[m := key]) = mset (a[i := key]) \<and> length a' = length a
    \<and> (\<forall>k. k < i \<or> j < k \<longrightarrow> a' ! k = a ! k)
    \<and> (\<forall>k. i \<le> k \<and> k < m \<longrightarrow> a' ! k \<le> key) \<and> (\<forall>k. m < k \<and> k \<le> j \<longrightarrow> key \<le> a' ! k)"
  using assms
proof (induction a i j key rule: partition_loop.induct)
  case (1 a i j key)
  show ?case
  proof (cases "i < j")
    case False
    then show ?thesis using "1.prems" by (auto simp: partition_loop.simps)
  next
    case True
    obtain j' where j': "scan_down a i j key = Some j'" using scan_down_Some "1.prems" by blast
    note d = scan_down_result [OF _ j']
    let ?a1 = "a[i := a ! j']"
    have jl: "i \<le> j'" "j' \<le> j" "j' < length a" using d True "1.prems" by auto
    obtain i' where i': "scan_up ?a1 i j' key = Some i'" using scan_up_Some [of j' ?a1] jl by auto
    note u = scan_up_result [OF jl(1) i']
    let ?a2 = "?a1[j' := ?a1 ! i']"
    have il: "i \<le> i'" "i' \<le> j'" using u by auto
    have step: "partition_loop a i j key = partition_loop ?a2 i' j' key"
      using True j' i' jl il "1.prems" by (subst partition_loop.simps) simp
    obtain a' m where IH: "partition_loop ?a2 i' j' key = Some (a', m)" "i' \<le> m" "m \<le> j'"
        "mset (a'[m := key]) = mset (?a2[i' := key])" "length a' = length ?a2"
        "\<forall>k. k < i' \<or> j' < k \<longrightarrow> a' ! k = ?a2 ! k"
        "\<forall>k. i' \<le> k \<and> k < m \<longrightarrow> a' ! k \<le> key" "\<forall>k. m < k \<and> k \<le> j' \<longrightarrow> key \<le> a' ! k"
      using "1.IH" [OF True j' rd_Some [OF jl(3)] wr_Some i' rd_Some wr_Some] jl il by auto
    have "mset (?a2[i' := key]) = mset (?a1[j' := key])"
      using jl il by (intro mset_move_hole) auto
    also have "\<dots> = mset (a[i := key])" using jl il by (intro mset_move_hole) auto
    finally have ms: "mset (a'[m := key]) = mset (a[i := key])" using IH(4) by simp
    have out: "a' ! k = a ! k" if "k < i \<or> j < k" for k
      using IH(6) that il jl by (auto simp: nth_list_update)
    have lo: "a' ! k \<le> key" if "i \<le> k" "k < m" for k
    proof (cases "i' \<le> k")
      case True
      then show ?thesis using IH(7) that by simp
    next
      case False
      then have "a' ! k = ?a1 ! k" using IH(6) il by (simp add: nth_list_update)
      then show ?thesis using u False that by simp
    qed
    have hi: "key \<le> a' ! k" if "m < k" "k \<le> j" for k
    proof (cases "k \<le> j'")
      case True
      then show ?thesis using IH(8) that by simp
    next
      case False
      then have "a' ! k = a ! k" using IH(6) il jl by (simp add: nth_list_update)
      then show ?thesis using d \<open>i < j\<close> False that by auto
    qed
    show ?thesis using step IH(1-3,5) ms out lo hi il jl by auto
  qed
qed

section \<open>The sort\<close>

text \<open>Elements of \<open>a'\<close> at indices \<open>l..r\<close> are those of \<open>a\<close> there, the others are unchanged.\<close>

definition perm_range :: "nat \<Rightarrow> nat \<Rightarrow> int list \<Rightarrow> int list \<Rightarrow> bool" where
  "perm_range l n a a' \<longleftrightarrow> length a' = length a \<and> mset a' = mset a
     \<and> (\<forall>k. k < l \<or> n \<le> k \<longrightarrow> a' ! k = a ! k)"

lemma perm_range_trans: "perm_range l n a b \<Longrightarrow> perm_range l n b c \<Longrightarrow> perm_range l n a c"
  by (auto simp: perm_range_def)

lemma perm_range_mono: "perm_range l n a b \<Longrightarrow> l' \<le> l \<Longrightarrow> n \<le> n' \<Longrightarrow> perm_range l' n' a b"
  by (auto simp: perm_range_def)

lemma perm_range_values:
  assumes "perm_range l n a a'" "l \<le> k" "k < n" "n \<le> length a"
  shows "\<exists>q. l \<le> q \<and> q < n \<and> a' ! k = a ! q"
proof -
  have len: "length a' = length a" using assms by (simp add: perm_range_def)
  have t: "take l a' = take l a" "drop n a' = drop n a"
    using assms len by (auto simp: perm_range_def list_eq_iff_nth_eq)
  have split: "mset a' = mset (take l a') + mset (take (n - l) (drop l a')) + mset (drop n a')"
    "mset a = mset (take l a) + mset (take (n - l) (drop l a)) + mset (drop n a)"
    using seg_split [of l a' "n - l"] seg_split [of l a "n - l"] assms(2,3)
    by (metis add.assoc le_add_diff_inverse less_imp_le_nat mset_append order.trans seg_def)+
  then have "mset (take (n - l) (drop l a')) = mset (take (n - l) (drop l a))"
    using assms(1) t by (simp add: perm_range_def)
  then have "set (take (n - l) (drop l a')) = set (take (n - l) (drop l a))"
    using mset_eq_setD by blast
  moreover have "a' ! k \<in> set (take (n - l) (drop l a'))"
    unfolding in_set_conv_nth using assms len by (intro exI [of _ "k - l"]) auto
  ultimately obtain q where "q < n - l" "a ! (l + q) = a' ! k"
    using assms by (auto simp: in_set_conv_nth)
  then show ?thesis by (intro exI [of _ "l + q"]) auto
qed

lemma quicksort_range_correct:
  assumes "0 \<le> left" "right < int (length a)"
  shows "\<exists>a'. quicksort a left right = Some a' \<and> perm_range (nat left) (nat (right + 1)) a a'
    \<and> (\<forall>p q. left \<le> int p \<and> p < q \<and> int q \<le> right \<longrightarrow> a' ! p \<le> a' ! q)"
  using assms
proof (induction a left right rule: quicksort.induct)
  case (1 a left right)
  show ?case
  proof (cases "left \<ge> right")
    case True
    then show ?thesis by (auto simp: quicksort.simps perm_range_def)
  next
    case False
    let ?l = "nat left" and ?r = "nat right"
    have lr: "?l < ?r" "?r < length a" "int ?l = left" "int ?r = right" using False "1.prems" by auto
    let ?key = "a ! ?l"
    obtain a1 m where p: "partition_loop a ?l ?r ?key = Some (a1, m)" "?l \<le> m" "m \<le> ?r"
      "mset (a1[m := ?key]) = mset (a[?l := ?key])" "length a1 = length a"
      "\<forall>k. k < ?l \<or> ?r < k \<longrightarrow> a1 ! k = a ! k"
      "\<forall>k. ?l \<le> k \<and> k < m \<longrightarrow> a1 ! k \<le> ?key" "\<forall>k. m < k \<and> k \<le> ?r \<longrightarrow> ?key \<le> a1 ! k"
      using partition_loop_correct [of ?l ?r a ?key] lr by auto
    let ?a2 = "a1[m := ?key]"
    have key: "rdi a left = Some ?key" using lr "1.prems" by simp
    have w: "wr a1 m ?key = Some ?a2" using p lr by simp
    have r2: "perm_range ?l (Suc ?r) a ?a2" using p lr by (auto simp: perm_range_def)
    obtain a3 where a3: "quicksort ?a2 (int m + 1) right = Some a3"
      "perm_range (Suc m) (Suc ?r) ?a2 a3"
      "\<forall>p q. int m + 1 \<le> int p \<and> p < q \<and> int q \<le> right \<longrightarrow> a3 ! p \<le> a3 ! q"
      using "1.IH"(1) [OF False key p(1) refl w] "1.prems" p(5) lr
      by (auto simp: nat_add_distrib)
    have len3: "length a3 = length a" using a3(2) p(5) by (simp add: perm_range_def)
    obtain a4 where a4: "quicksort a3 left (int m - 1) = Some a4" "perm_range ?l m a3 a4"
      "\<forall>p q. left \<le> int p \<and> p < q \<and> int q \<le> int m - 1 \<longrightarrow> a4 ! p \<le> a4 ! q"
      using "1.IH"(2) [OF False key p(1) refl w a3(1)] "1.prems" len3 lr p(3) by auto
    have "quicksort a left right = Some a4"
      using False key p(1) w a3(1) a4(1) by (subst quicksort.simps) simp
    moreover have "perm_range ?l (Suc ?r) a a4"
      using p(2,3) by (intro perm_range_trans [OF r2 perm_range_trans
            [OF perm_range_mono [OF a3(2)] perm_range_mono [OF a4(2)]]]) auto
    moreover have "a4 ! s \<le> a4 ! q" if s: "?l \<le> s" "s < q" "q \<le> ?r" for s q
    proof -
      have low: "a4 ! k \<le> ?key" if kk: "?l \<le> k" "k < m" for k
      proof -
        obtain k' where k': "?l \<le> k'" "k' < m" "a4 ! k = a3 ! k'"
          using perm_range_values [OF a4(2), of k] kk len3 p(3) lr by auto
        then have "a3 ! k' = ?a2 ! k'" using a3(2) by (auto simp: perm_range_def)
        then show ?thesis using k' p(7) by simp
      qed
      have mid: "a4 ! m = ?key" using a4(2) a3(2) p(3,5) lr by (auto simp: perm_range_def)
      have high: "?key \<le> a4 ! k" if kk: "m < k" "k \<le> ?r" for k
      proof -
        have "a4 ! k = a3 ! k" using a4(2) kk by (auto simp: perm_range_def)
        moreover have "\<exists>q. Suc m \<le> q \<and> q < Suc ?r \<and> a3 ! k = ?a2 ! q"
          using perm_range_values [OF a3(2), of k] kk p(5) lr by simp
        then obtain k' where k': "m < k'" "k' \<le> ?r" "a3 ! k = ?a2 ! k'"
          using Suc_le_lessD less_Suc_eq_le by blast
        ultimately show ?thesis using p(8) by simp
      qed
      consider "q < m" | "s < m" "m \<le> q" | "s = m" | "m < s" by linarith
      then show ?thesis
      proof cases
        case 1
        then show ?thesis using a4(3) s lr by auto
      next
        case 2
        then have "a4 ! s \<le> ?key" using low s by simp
        moreover have "?key \<le> a4 ! q" using mid high 2 s by (cases "q = m") auto
        ultimately show ?thesis by linarith
      next
        case 3
        then show ?thesis using mid high s by auto
      next
        case 4
        then have "a4 ! s = a3 ! s" "a4 ! q = a3 ! q" using a4(2) s by (auto simp: perm_range_def)
        then show ?thesis using a3(3) 4 s lr by auto
      qed
    qed
    ultimately show ?thesis using lr by (auto simp: nat_add_distrib)
  qed
qed

text \<open>
  Quick sort of the whole array terminates, stays in bounds and returns a sorted
  permutation.
\<close>

theorem quicksort_correct:
  "\<exists>a'. quicksort a 0 (int (length a) - 1) = Some a' \<and> sorted a' \<and> mset a' = mset a"
proof -
  obtain a' where "quicksort a 0 (int (length a) - 1) = Some a'"
    "perm_range 0 (nat (int (length a) - 1 + 1)) a a'"
    "\<forall>p q. 0 \<le> int p \<and> p < q \<and> int q \<le> int (length a) - 1 \<longrightarrow> a' ! p \<le> a' ! q"
    using quicksort_range_correct [of 0 "int (length a) - 1" a] by auto
  then show ?thesis by (auto simp: perm_range_def sorted_iff_nth_mono_less)
qed

end
