(* ===== verification/Sorting.thy ===== *)
theory Sorting
  imports Insertion_Sorts Merge_Sort Bucket_Sort Heap_Sort Quick_Sort
begin

text \<open>
  The sorting routines of example_sort.cpp, example_heapsort.cpp and example_quicksort.cpp compared: a
  sorted permutation is unique, so all of them compute the same function.
\<close>

lemma sorted_permutation: "mset b = mset a \<Longrightarrow> sorted b \<Longrightarrow> b = sort (a :: int list)"
  by (metis sorted_list_of_multiset_mset sort_key_id_if_sorted sorted_sort_id)

lemma sorted_prefix:
  assumes "mset b = mset a" "sorted (take n b)" "drop n b = drop n (a :: int list)"
  shows "b = sort (take n a) @ drop n a"
proof -
  have "mset (take n b) + mset (drop n b) = mset (take n a) + mset (drop n a)"
    using assms(1) by (simp flip: mset_append)
  then have "mset (take n b) = mset (take n a)" using assms(3) by simp
  then have "take n b = sort (take n a)" using assms(2) by (rule sorted_permutation)
  then show ?thesis using assms(3) by (metis append_take_drop_id)
qed



end
