(* ===== verification/Binary_Search.thy ===== *)
theory Binary_Search
  imports Prelude
begin

text \<open>
  The two binary searches of \<^verbatim>\<open>src/example_binarysearch.cpp\<close>.  Indices are signed, since
  \<open>r = mid - 1\<close> and \<open>high = mid - 1\<close> may become \<open>-1\<close>; the sum \<open>l + r\<close> is a signed 32-bit
  addition, undefined when it overflows.
\<close>

section \<open>The code\<close>

function binarySearch_loop :: "int list \<Rightarrow> int \<Rightarrow> int \<Rightarrow> int \<Rightarrow> int option" where
  "binarySearch_loop arr l r key =
     (if l \<le> r then
        do { s \<leftarrow> i32 (l + r);
             x \<leftarrow> rdi arr (cdiv s 2);
             if x = key then Some (cdiv s 2)
             else if key > x then binarySearch_loop arr (cdiv s 2 + 1) r key
             else binarySearch_loop arr l (cdiv s 2 - 1) key }
      else Some (- 1))"
  by pat_completeness auto
termination
proof (relation "measure (\<lambda>(arr, l, r, key). nat (r - l + 1))")
  show "wf (measure (\<lambda>(arr, l, r, key). nat (r - l + 1)))" by simp
next
  fix arr :: "int list" and l r key s x :: int
  assume a: "l \<le> r" "i32 (l + r) = Some s" "rdi arr (cdiv s 2) = Some x"
  have m: "l \<le> cdiv s 2" "cdiv s 2 \<le> r"
  proof -
    have s: "s = l + r" using a(2) by (simp add: i32_eq_Some_iff)
    have "0 \<le> cdiv s 2" using a(3) by (simp add: rdi_eq_Some_iff)
    show "l \<le> cdiv s 2" "cdiv s 2 \<le> r"
      using a(1) s \<open>0 \<le> cdiv s 2\<close> by (auto simp: cdiv_def sgn_if split: if_splits)
  qed
  show "((arr, cdiv s 2 + 1, r, key), (arr, l, r, key)) \<in> measure (\<lambda>(arr, l, r, key). nat (r - l + 1))"
    using m a(1) by simp
  show "((arr, l, cdiv s 2 - 1, key), (arr, l, r, key)) \<in> measure (\<lambda>(arr, l, r, key). nat (r - l + 1))"
    using m a(1) by simp
qed

text \<open>
  \<open>binarySearch arr sz key\<close>.  The guard \<^verbatim>\<open>array==NULL && size == 0\<close> never fires for a
  non-null array, which a list is.
\<close>

definition binarySearch :: "int list \<Rightarrow> int \<Rightarrow> int \<Rightarrow> int option" where
  "binarySearch arr sz key = binarySearch_loop arr 0 (sz - 1) key"

function BinarySearchRecursive :: "int list \<Rightarrow> int \<Rightarrow> int \<Rightarrow> int \<Rightarrow> int option" where
  "BinarySearchRecursive arr low high key =
     (if low > high then Some (- 1)
      else
        do { s \<leftarrow> i32 (low + high);
             x \<leftarrow> rdi arr (cdiv s 2);
             if x = key then Some (cdiv s 2)
             else if x < key then BinarySearchRecursive arr (cdiv s 2 + 1) high key
             else BinarySearchRecursive arr low (cdiv s 2 - 1) key })"
  by pat_completeness auto
termination
proof (relation "measure (\<lambda>(arr, l, r, key). nat (r - l + 1))")
  show "wf (measure (\<lambda>(arr, l, r, key). nat (r - l + 1)))" by simp
next
  fix arr :: "int list" and l r key s x :: int
  assume a: "\<not> l > r" "i32 (l + r) = Some s" "rdi arr (cdiv s 2) = Some x"
  have m: "l \<le> cdiv s 2" "cdiv s 2 \<le> r"
  proof -
    have s: "s = l + r" using a(2) by (simp add: i32_eq_Some_iff)
    have "0 \<le> cdiv s 2" using a(3) by (simp add: rdi_eq_Some_iff)
    show "l \<le> cdiv s 2" "cdiv s 2 \<le> r"
      using a(1) s \<open>0 \<le> cdiv s 2\<close> by (auto simp: cdiv_def sgn_if split: if_splits)
  qed
  show "((arr, cdiv s 2 + 1, r, key), (arr, l, r, key)) \<in> measure (\<lambda>(arr, l, r, key). nat (r - l + 1))"
    using m a(1) by simp
  show "((arr, l, cdiv s 2 - 1, key), (arr, l, r, key)) \<in> measure (\<lambda>(arr, l, r, key). nat (r - l + 1))"
    using m a(1) by simp
qed

declare binarySearch_loop.simps [simp del] BinarySearchRecursive.simps [simp del]

section \<open>Correctness\<close>

text \<open>The recursive version computes what the loop does, on every input.\<close>

text \<open>
  The recursive search computes what the loop does, on every array and range, the
  undefined cases included.
\<close>

theorem recursive_eq_loop: "BinarySearchRecursive arr l r key = binarySearch_loop arr l r key"
proof (induction arr l r key rule: binarySearch_loop.induct)
  case (1 arr l r key)
  then show ?case
    by (subst BinarySearchRecursive.simps, subst binarySearch_loop.simps)
      (auto intro!: bind_option_cong)
qed

lemma binarySearch_loop_correct:
  assumes "sorted arr" "0 \<le> l" "r < int (length arr)" "length arr \<le> 2 ^ 30"
  shows "\<exists>k. binarySearch_loop arr l r key = Some k
    \<and> (k = - 1 \<and> (\<forall>i. l \<le> int i \<and> int i \<le> r \<longrightarrow> arr ! i \<noteq> key)
       \<or> l \<le> k \<and> k \<le> r \<and> arr ! nat k = key)"
  using assms
proof (induction arr l r key rule: binarySearch_loop.induct)
  case (1 arr l r key)
  show ?case
  proof (cases "l \<le> r")
    case False
    then show ?thesis by (auto simp: binarySearch_loop.simps)
  next
    case True
    define m where "m = (l + r) div 2"
    have m: "l \<le> m" "m \<le> r" "0 \<le> m" using True "1.prems" by (auto simp: m_def)
    have s: "i32 (l + r) = Some (l + r)" using "1.prems" True by (intro i32_Some) auto
    have c: "cdiv (l + r) 2 = m" using True "1.prems" by (simp add: m_def)
    have nm: "nat m < length arr" using m "1.prems"(3) by linarith
    have x: "rdi arr m = Some (arr ! nat m)" using m "1.prems" by (intro rdi_Some) auto
    have mono: "arr ! i \<le> arr ! j" if "i \<le> j" "j < length arr" for i j
      using that "1.prems"(1) by (simp add: sorted_iff_nth_mono)
    show ?thesis
    proof (cases "arr ! nat m" key rule: linorder_cases)
      case equal
      then show ?thesis using True s c x m by (subst binarySearch_loop.simps) auto
    next
      case less
      obtain k where k: "binarySearch_loop arr (m + 1) r key = Some k"
        "k = - 1 \<and> (\<forall>i. m + 1 \<le> int i \<and> int i \<le> r \<longrightarrow> arr ! i \<noteq> key)
          \<or> m + 1 \<le> k \<and> k \<le> r \<and> arr ! nat k = key"
        using "1.IH"(1) [OF True s, unfolded c, OF x] less "1.prems" m by auto
      have lo: "arr ! i \<noteq> key" if "l \<le> int i" "int i \<le> m" for i
        using mono [of i "nat m"] that less m nm by (auto simp: le_nat_iff)
      have "arr ! i \<noteq> key" if "k = - 1" "l \<le> int i" "int i \<le> r" for i
        using k(2) lo [of i] that m "1.prems"(2) by (cases "int i \<le> m") auto
      moreover have "binarySearch_loop arr l r key = Some k"
        using k(1) True s c x less by (subst binarySearch_loop.simps) simp
      ultimately show ?thesis using k(2) m by auto
    next
      case greater
      obtain k where k: "binarySearch_loop arr l (m - 1) key = Some k"
        "k = - 1 \<and> (\<forall>i. l \<le> int i \<and> int i \<le> m - 1 \<longrightarrow> arr ! i \<noteq> key)
          \<or> l \<le> k \<and> k \<le> m - 1 \<and> arr ! nat k = key"
        using "1.IH"(2) [OF True s, unfolded c, OF x] greater "1.prems" m by auto
      have hi: "arr ! i \<noteq> key" if "m \<le> int i" "int i \<le> r" for i
        using mono [of "nat m" i] that greater m "1.prems"(3) by (auto simp: nat_le_iff)
      have "arr ! i \<noteq> key" if "k = - 1" "l \<le> int i" "int i \<le> r" for i
        using k(2) hi [of i] that m "1.prems"(2) by (cases "int i \<le> m - 1") auto
      moreover have "binarySearch_loop arr l r key = Some k"
        using k(1) True s c x greater by (subst binarySearch_loop.simps) simp
      ultimately show ?thesis using k(2) m by auto
    qed
  qed
qed

text \<open>
  On a sorted array of up to \<open>2^30\<close> elements the search returns an index of the key when
  the array holds it and \<open>-1\<close> otherwise.
\<close>

theorem binarySearch_correct:
  assumes "sorted arr" "length arr \<le> 2 ^ 30"
  shows "\<exists>k. binarySearch arr (int (length arr)) key = Some k
    \<and> (if key \<in> set arr then 0 \<le> k \<and> k < int (length arr) \<and> arr ! nat k = key else k = - 1)"
proof -
  obtain k where k: "binarySearch arr (int (length arr)) key = Some k"
    "k = - 1 \<and> (\<forall>i. 0 \<le> int i \<and> int i \<le> int (length arr) - 1 \<longrightarrow> arr ! i \<noteq> key)
     \<or> 0 \<le> k \<and> k \<le> int (length arr) - 1 \<and> arr ! nat k = key"
    using binarySearch_loop_correct [of arr 0 "int (length arr) - 1" key] assms
    by (auto simp: binarySearch_def)
  show ?thesis
  proof (cases "key \<in> set arr")
    case True
    then obtain i where "i < length arr" "arr ! i = key" by (auto simp: in_set_conv_nth)
    then have "k \<noteq> - 1" using k(2) by force
    then show ?thesis using k True by auto
  next
    case False
    have "k = - 1"
    proof (rule ccontr)
      assume "k \<noteq> - 1"
      then have "nat k < length arr" "arr ! nat k = key" using k(2) by auto
      then show False using False nth_mem by blast
    qed
    then show ?thesis using k False by simp
  qed
qed

lemma binarySearch_correct_witness:
  "sorted [1, 4, 6::int] \<and> length [1, 4, 6::int] \<le> 2 ^ 30 \<and>
   (\<exists>k. binarySearch [1, 4, 6] (int (length [1, 4, 6::int])) 4 = Some k
    \<and> (if 4 \<in> set [1, 4, 6::int] then 0 \<le> k \<and> k < int (length [1, 4, 6::int])
        \<and> [1, 4, 6] ! nat k = (4::int) else k = - 1))"
  using binarySearch_correct [of "[1, 4, 6]" 4] by simp

text \<open>
  The two searches.  On a sorted array of up to \<open>2 ^ 30\<close> elements the loop and the recursion return without an
  access outside the array or an overflow, and the same: an index of the key when the array holds it and -1 otherwise.
\<close>

theorem binary_searches_agree:
  assumes "sorted arr" "length arr \<le> 2 ^ 30"
  shows "\<exists>k. binarySearch arr (int (length arr)) key = Some k
    \<and> BinarySearchRecursive arr 0 (int (length arr) - 1) key = Some k
    \<and> (if key \<in> set arr then 0 \<le> k \<and> k < int (length arr) \<and> arr ! nat k = key else k = - 1)"
  using binarySearch_correct [OF assms, of key] recursive_eq_loop [of arr 0 "int (length arr) - 1" key] assms(2)
  by (auto simp: binarySearch_def)

theorem binary_searches_agree_witness:
  "\<exists>k. binarySearch [1, 3, 5] 3 3 = Some k \<and> BinarySearchRecursive [1, 3, 5] 0 2 3 = Some k \<and> k \<noteq> - 1"
proof -
  have "sorted [1, 3, 5 :: int]" "length [1, 3, 5 :: int] \<le> 2 ^ 30" by simp_all
  from binary_searches_agree [OF this, of 3] show ?thesis by auto
qed

end
