(* ===== verification/Ring_Buffer.thy ===== *)
theory Ring_Buffer
  imports Prelude
begin

text \<open>
  Bytes in a ring: \<open>memcpy\<close> with its bounds, the two-part copies that wrap around the end of
  a buffer, and the interface of a bounded byte queue with the facts its clients rest on.
\<close>

section \<open>memcpy\<close>

text \<open>
  \<open>memcpy_at dst d src s n\<close> copies \<open>n\<close> elements from index \<open>s\<close> of \<open>src\<close> to index \<open>d\<close> of
  \<open>dst\<close>; leaving either buffer is undefined behaviour.
\<close>

definition memcpy_at :: "'a list \<Rightarrow> nat \<Rightarrow> 'a list \<Rightarrow> nat \<Rightarrow> nat \<Rightarrow> 'a list option" where
  "memcpy_at dst d src s n =
     (if d + n \<le> length dst \<and> s + n \<le> length src
      then Some (take d dst @ take n (drop s src) @ drop (d + n) dst) else None)"

lemma memcpy_at_Some [simp]:
  "d + n \<le> length dst \<Longrightarrow> s + n \<le> length src \<Longrightarrow>
   memcpy_at dst d src s n = Some (take d dst @ take n (drop s src) @ drop (d + n) dst)"
  by (simp add: memcpy_at_def)

lemma memcpy_at_length: "memcpy_at dst d src s n = Some b \<Longrightarrow> length b = length dst"
  by (auto simp: memcpy_at_def split: if_splits)

lemma nth_splice:
  assumes "d + length xs \<le> length a" "i < length a"
  shows "(take d a @ xs @ drop (d + length xs) a) ! i
    = (if d \<le> i \<and> i < d + length xs then xs ! (i - d) else a ! i)"
  using assms by (auto simp: nth_append min_def)

section \<open>Reading and writing around the end\<close>

text \<open>\<open>ring_read b s n\<close>: the \<open>n\<close> elements from position \<open>s\<close> on, positions taken modulo the size.\<close>

definition ring_read :: "'a list \<Rightarrow> nat \<Rightarrow> nat \<Rightarrow> 'a list" where
  "ring_read b s n = map (\<lambda>k. b ! ((s + k) mod length b)) [0..<n]"

lemma length_ring_read [simp]: "length (ring_read b s n) = n"
  by (simp add: ring_read_def)

lemma nth_ring_read [simp]: "k < n \<Longrightarrow> ring_read b s n ! k = b ! ((s + k) mod length b)"
  by (simp add: ring_read_def)

lemma ring_read_0 [simp]: "ring_read b s 0 = []"
  by (simp add: ring_read_def)

lemma ring_read_mod: "ring_read b (s mod length b) n = ring_read b s n"
  by (rule nth_equalityI) (simp_all add: mod_add_left_eq)

lemma take_ring_read [simp]: "n \<le> m \<Longrightarrow> take n (ring_read b s m) = ring_read b s n"
  by (rule nth_equalityI) auto

lemma drop_ring_read [simp]: "drop n (ring_read b s m) = ring_read b (s + n) (m - n)"
  by (rule nth_equalityI) (auto simp: add.assoc)

lemma ring_read_add: "ring_read b s (m + n) = ring_read b s m @ ring_read b (s + m) n"
  by (metis add_diff_cancel_left' append_take_drop_id drop_ring_read le_add1 take_ring_read)

lemma dist_mod:
  fixes L a b :: nat
  assumes "0 < L" "a < L" "b < L"
  shows "(((s + a) mod L) + L - ((s + b) mod L)) mod L = (if b \<le> a then a - b else L + a - b)"
proof -
  have "int ((((s + a) mod L) + L - ((s + b) mod L)) mod L)
      = (int ((s + a) mod L) + int L - int ((s + b) mod L)) mod int L"
    using assms(1) mod_less_divisor [OF assms(1), of "s + b"] by (simp add: zmod_int of_nat_diff)
  also have "\<dots> = (int a - int b) mod int L"
  proof -
    have "(int ((s + a) mod L) + int L - int ((s + b) mod L)) mod int L
        = (int ((s + a) mod L) - int ((s + b) mod L) + int L) mod int L"
      by (simp add: algebra_simps)
    also have "\<dots> = ((int s + int a) mod int L - (int s + int b) mod int L) mod int L"
      by (simp add: zmod_int)
    also have "\<dots> = ((int s + int a) - (int s + int b)) mod int L" by (rule mod_diff_eq)
    finally show ?thesis by simp
  qed
  also have "\<dots> = (if b \<le> a then int (a - b) else int (L + a - b))"
  proof (cases "b \<le> a")
    case True
    then show ?thesis using assms by (simp add: of_nat_diff)
  next
    case False
    then have "(int a - int b) mod int L = (int a - int b + int L) mod int L" by simp
    also have "\<dots> = int a - int b + int L" using False assms by (intro mod_pos_pos_trivial) auto
    finally show ?thesis using False assms by (simp add: of_nat_diff)
  qed
  finally show ?thesis by (simp split: if_splits)
qed

text \<open>
  The copy in two parts, up to the end of the buffer and then from its beginning, as the code
  writes it; \<open>off\<close> is the position already reduced.
\<close>

definition ring_write :: "'a list \<Rightarrow> nat \<Rightarrow> 'a list \<Rightarrow> nat \<Rightarrow> 'a list option" where
  "ring_write b off src n =
     do { b1 \<leftarrow> memcpy_at b off src 0 (min n (length b - off));
          memcpy_at b1 0 src (min n (length b - off)) (n - min n (length b - off)) }"

lemma ring_write_nth:
  assumes "off < length b" "n \<le> length b" "n \<le> length src"
  shows "\<exists>b'. ring_write b off src n = Some b' \<and> length b' = length b
    \<and> (\<forall>p < length b. b' ! p = (let d = (p + length b - off) mod length b
         in if d < n then src ! d else b ! p))"
proof -
  let ?L = "length b" and ?l = "min n (length b - off)"
  let ?b1 = "take off b @ take ?l (drop 0 src) @ drop (off + ?l) b"
  let ?b2 = "take 0 ?b1 @ take (n - ?l) (drop ?l src) @ drop (0 + (n - ?l)) ?b1"
  have l1: "length ?b1 = ?L" using assms by auto
  have w: "ring_write b off src n = Some ?b2"
    using assms l1 by (simp add: ring_write_def)
  have n1: "?b1 ! p = (if off \<le> p \<and> p < off + ?l then src ! (p - off) else b ! p)" if "p < ?L" for p
  proof -
    have len: "length (take ?l (drop 0 src)) = ?l" "off + ?l \<le> ?L" using assms by auto
    have "take ?l (drop 0 src) ! (p - off) = src ! (p - off)" if "off \<le> p" "p < off + ?l"
    proof -
      have "p - off < ?l" using that by linarith
      then show ?thesis by simp
    qed
    then show ?thesis
      using nth_splice [of off "take ?l (drop 0 src)" b p] that len(2) unfolding len(1) by presburger
  qed
  have n2: "?b2 ! p = (if p < n - ?l then src ! (?l + p) else ?b1 ! p)" if "p < ?L" for p
  proof -
    have len: "length (take (n - ?l) (drop ?l src)) = n - ?l" using assms by simp
    show ?thesis
      using nth_splice [of 0 "take (n - ?l) (drop ?l src)" ?b1 p] that assms l1 unfolding len
      by (auto simp: min_def split: if_splits)
  qed
  have "?b2 ! p = (let d = (p + ?L - off) mod ?L in if d < n then src ! d else b ! p)" if p: "p < ?L" for p
  proof (cases "off \<le> p")
    case True
    have "p + ?L - off = (p - off) + ?L" using True by simp
    then have "(p + ?L - off) mod ?L = (p - off) mod ?L" by (simp only: mod_add_self2)
    also have "\<dots> = p - off" using p by simp
    finally have d: "(p + ?L - off) mod ?L = p - off" .
    have np: "\<not> p < n - ?l" using True assms p by auto
    have "?b2 ! p = (if p < off + ?l then src ! (p - off) else b ! p)"
      using n2 [OF p] n1 [OF p] True np by presburger
    moreover have "p < off + ?l \<longleftrightarrow> p - off < n" using True p by auto
    ultimately show ?thesis unfolding d Let_def by presburger
  next
    case False
    then have d: "(p + ?L - off) mod ?L = p + ?L - off" using p assms by simp
    show ?thesis
    proof (cases "p + ?L - off < n")
      case True
      then have e: "p < n - ?l" "?l + p = p + ?L - off" using False assms by auto
      have "?b2 ! p = src ! (p + ?L - off)" using n2 [OF p] e by presburger
      then show ?thesis unfolding d Let_def using True by presburger
    next
      case ge: False
      then have np: "\<not> p < n - ?l" using False assms by auto
      have "?b2 ! p = b ! p" using n2 [OF p] n1 [OF p] np False by presburger
      then show ?thesis unfolding d Let_def using ge by presburger
    qed
  qed
  moreover have "length ?b2 = ?L" using l1 assms by auto
  ultimately show ?thesis using w by blast
qed

text \<open>
  Writing \<open>n\<close> elements behind the \<open>used\<close> ones that start at \<open>s\<close>, when they fit, appends them
  and keeps what was there.
\<close>

lemma ring_write_append:
  assumes L: "0 < length b" and fit: "used + n \<le> length b" and src: "n \<le> length src"
  shows "\<exists>b'. ring_write b ((s + used) mod length b) src n = Some b' \<and> length b' = length b
    \<and> ring_read b' s used = ring_read b s used \<and> ring_read b' (s + used) n = take n src"
proof -
  let ?L = "length b" and ?off = "(s + used) mod length b"
  have "?off < ?L" using L by simp
  then obtain b' where b': "ring_write b ?off src n = Some b'" "length b' = ?L"
    "\<forall>p < ?L. b' ! p = (let d = (p + ?L - ?off) mod ?L in if d < n then src ! d else b ! p)"
    using ring_write_nth [of ?off b n src] fit src by auto
  have old: "b' ! ((s + k) mod ?L) = b ! ((s + k) mod ?L)" if "k < used" for k
  proof -
    have m: "(s + k) mod ?L < ?L" using L by simp
    show ?thesis
    proof (cases "used = ?L")
      case True
      then show ?thesis using fit b'(3) m by (simp add: Let_def)
    next
      case False
      then have "((s + k) mod ?L + ?L - ?off) mod ?L = ?L + k - used"
        using dist_mod [of ?L k used s] that fit L by auto
      moreover have "\<not> ?L + k - used < n" using that fit by linarith
      ultimately show ?thesis using b'(3) m by (simp add: Let_def)
    qed
  qed
  have new: "b' ! ((s + used + k) mod ?L) = src ! k" if "k < n" for k
  proof -
    have m: "(s + (used + k)) mod ?L < ?L" using L by simp
    have "((s + (used + k)) mod ?L + ?L - ?off) mod ?L = used + k - used"
      using dist_mod [of ?L "used + k" used s] that fit L by auto
    then show ?thesis using b'(3) m that by (simp add: Let_def add.assoc)
  qed
  have "ring_read b' s used = ring_read b s used"
    using old b'(2) by (intro nth_equalityI) auto
  moreover have "ring_read b' (s + used) n = take n src"
    using new b'(2) src by (intro nth_equalityI) auto
  ultimately show ?thesis using b' by blast
qed

lemma ring_write_first:
  "n \<le> length b - off \<Longrightarrow> n \<le> length src \<Longrightarrow> ring_write b off src n = memcpy_at b off src 0 n"
  by (auto simp: ring_write_def memcpy_at_def)

lemma ring_write_second:
  "k + n \<le> length src \<Longrightarrow> n \<le> length b \<Longrightarrow> ring_write b 0 (drop k src) n = memcpy_at b 0 src k n"
  by (auto simp: ring_write_def memcpy_at_def min_def)

text \<open>The copy out of the ring in two parts, into the first \<open>n\<close> bytes of a destination.\<close>

definition ring_copy_out :: "'a list \<Rightarrow> nat \<Rightarrow> 'a list \<Rightarrow> nat \<Rightarrow> 'a list option" where
  "ring_copy_out b off dst n =
     do { d1 \<leftarrow> memcpy_at dst 0 b off (min n (length b - off));
          memcpy_at d1 (min n (length b - off)) b 0 (n - min n (length b - off)) }"

lemma ring_copy_out_correct:
  assumes "0 < length b" "n \<le> length b" "n \<le> length dst"
  shows "ring_copy_out b (s mod length b) dst n = Some (ring_read b s n @ drop n dst)"
proof -
  define L off where "L = length b" and "off = s mod length b"
  have off: "off < L" "length b = L" using assms by (auto simp: L_def off_def)
  define l where "l = min n (L - off)"
  have l: "l \<le> n" "off + l \<le> L" "n - l \<le> L" "l \<le> length dst"
    using off assms by (auto simp: l_def)
  let ?d1 = "take l (drop off b) @ drop l dst"
  have l1: "length ?d1 = length dst" "length (take l (drop off b)) = l" using l off by auto
  have t: "take l ?d1 = take l (drop off b)" "drop n ?d1 = drop n dst" using l l1 by auto
  have "memcpy_at dst 0 b off l = Some ?d1" using l off by simp
  moreover have "memcpy_at ?d1 l b 0 (n - l) = Some (take l ?d1 @ take (n - l) b @ drop n ?d1)"
    using l l1 off assms(3) by (subst memcpy_at_Some) simp_all
  ultimately have "ring_copy_out b off dst n = Some (take l (drop off b) @ take (n - l) b @ drop n dst)"
    unfolding ring_copy_out_def off(2) l_def [symmetric] t by (simp only: bind.bind_lunit t)
  also have "take l (drop off b) @ take (n - l) b @ drop n dst
      = (take l (drop off b) @ take (n - l) b) @ drop n dst" by simp
  also have "take l (drop off b) @ take (n - l) b = ring_read b s n"
  proof (rule nth_equalityI)
    show "length (take l (drop off b) @ take (n - l) b) = length (ring_read b s n)"
      using l off by simp
    fix k assume "k < length (take l (drop off b) @ take (n - l) b)"
    then have k: "k < n" using l off by simp
    have sk: "(s + k) mod L = (off + k) mod L" by (simp add: off_def L_def mod_add_left_eq)
    show "(take l (drop off b) @ take (n - l) b) ! k = ring_read b s n ! k"
    proof (cases "k < l")
      case True
      then have "(off + k) mod L = off + k" using l by simp
      then show ?thesis using True k off l sk by (simp add: nth_append)
    next
      case False
      then have ll: "l = L - off" using k by (simp add: l_def)
      have "(off + k) mod L = k - l"
        using False k assms off ll by (subst le_mod_geq) auto
      then show ?thesis using False k off l l1 sk by (simp add: nth_append)
    qed
  qed
  finally show ?thesis by (simp add: off_def)
qed

section \<open>The interface of a bounded byte queue\<close>

text \<open>
  \<open>put s xs\<close> accepts as many of \<open>xs\<close> as there is room for and tells how many; \<open>get s n\<close>
  delivers up to \<open>n\<close>.
\<close>

datatype 'a qop = QPut "'a list" | QGet nat

text \<open>
  The queue that the client sees: a list of bounded length.  \<open>qspec\<close> runs the operations on it and answers each of them, a
  \<open>put\<close> with the number of elements that fit, a \<open>get\<close> with the first elements; \<open>qanswers\<close> lists the answers of an
  implementation.
\<close>

datatype 'a qreply = RPut nat | RGet "'a list"

fun qspec :: "nat \<Rightarrow> 'a list \<Rightarrow> 'a qop list \<Rightarrow> 'a list \<times> 'a qreply list" where
  "qspec cap xs [] = (xs, [])"
| "qspec cap xs (QPut ys # ops) =
     (let n = min (length ys) (cap - length xs); (zs, rs) = qspec cap (xs @ take n ys) ops in (zs, RPut n # rs))"
| "qspec cap xs (QGet n # ops) = (let (zs, rs) = qspec cap (drop n xs) ops in (zs, RGet (take n xs) # rs))"

fun qanswers :: "('s \<Rightarrow> 'a list \<Rightarrow> ('s \<times> nat) option) \<Rightarrow> ('s \<Rightarrow> nat \<Rightarrow> ('s \<times> 'a list) option)
    \<Rightarrow> 's \<Rightarrow> 'a qop list \<Rightarrow> ('s \<times> 'a qreply list) option" where
  "qanswers put get s [] = Some (s, [])"
| "qanswers put get s (QPut xs # ops) = do { (s, n) \<leftarrow> put s xs; (s, rs) \<leftarrow> qanswers put get s ops; Some (s, RPut n # rs) }"
| "qanswers put get s (QGet n # ops) = do { (s, ys) \<leftarrow> get s n; (s, rs) \<leftarrow> qanswers put get s ops; Some (s, RGet ys # rs) }"

definition qop_ok :: "nat \<Rightarrow> 'a qop \<Rightarrow> bool" where
  "qop_ok maxlen p = (case p of QPut xs \<Rightarrow> length xs < maxlen | QGet n \<Rightarrow> n < maxlen)"

locale bounded_queue =
  fixes put :: "'s \<Rightarrow> 'a list \<Rightarrow> ('s \<times> nat) option"
    and get :: "'s \<Rightarrow> nat \<Rightarrow> ('s \<times> 'a list) option"
    and contents :: "'s \<Rightarrow> 'a list"
    and capacity :: "'s \<Rightarrow> nat"
    and valid :: "'s \<Rightarrow> bool"
    and maxlen :: nat
  assumes put_law: "valid s \<Longrightarrow> length xs < maxlen \<Longrightarrow>
      \<exists>s'. put s xs = Some (s', min (length xs) (capacity s - length (contents s))) \<and> valid s'
        \<and> capacity s' = capacity s
        \<and> contents s' = contents s @ take (capacity s - length (contents s)) xs"
    and get_law: "valid s \<Longrightarrow> n < maxlen \<Longrightarrow>
      \<exists>s'. get s n = Some (s', take n (contents s)) \<and> valid s' \<and> capacity s' = capacity s
        \<and> contents s' = drop n (contents s)"
    and bounded: "valid s \<Longrightarrow> length (contents s) \<le> capacity s"
begin

text \<open>Every answer is the one of the list.\<close>

lemma run_refines:
  "valid s \<Longrightarrow> list_all (qop_ok maxlen) ops \<Longrightarrow>
   \<exists>s'. qanswers put get s ops = Some (s', snd (qspec (capacity s) (contents s) ops)) \<and> valid s' \<and> capacity s' = capacity s
     \<and> contents s' = fst (qspec (capacity s) (contents s) ops)"
proof (induction ops arbitrary: s)
  case (Cons p ops)
  show ?case
  proof (cases p)
    case (QPut xs)
    obtain s1 where s1: "put s xs = Some (s1, min (length xs) (capacity s - length (contents s)))" "valid s1" "capacity s1 = capacity s"
      "contents s1 = contents s @ take (capacity s - length (contents s)) xs"
      using put_law [of s xs] Cons.prems QPut by (auto simp: qop_ok_def)
    moreover have "take (min (length xs) m) xs = take m xs" for m by (simp add: min_def)
    ultimately show ?thesis using Cons.IH [OF s1(2)] Cons.prems(2) QPut by (auto simp: split_beta)
  next
    case (QGet n)
    obtain s1 where s1: "get s n = Some (s1, take n (contents s))" "valid s1"
      "capacity s1 = capacity s" "contents s1 = drop n (contents s)"
      using get_law [of s n] Cons.prems QGet by (auto simp: qop_ok_def)
    then show ?thesis using Cons.IH [OF s1(2)] Cons.prems(2) QGet by (auto simp: split_beta)
  qed
qed simp

end

end
