(* ===== verification/Unlock_Queue.thy ===== *)
theory Unlock_Queue
  imports Ring_Buffer
begin

text \<open>
  The lock-free single-producer single-consumer byte queue \<open>UnlockQueue\<close> of
  example_unlockqueue.cpp: its size rounding on 64-bit words, \<open>Put\<close> and \<open>Get\<close> with their
  free-running 32-bit indices, and the interleaving of one producer with one consumer between
  the memory barriers.
\<close>

unbundle bit_operations_syntax

section \<open>Rounding the size\<close>

definition is_power_of_2 :: "64 word \<Rightarrow> bool" where
  "is_power_of_2 n \<longleftrightarrow> n \<noteq> 0 \<and> n AND (n - 1) = 0"

partial_function (option) roundup_loop :: "64 word \<Rightarrow> 64 word \<Rightarrow> 64 word option" where
  "roundup_loop andv v = (if andv AND v = 0 then roundup_loop (drop_bit 1 andv) v else Some andv)"

definition roundup_power_of_two :: "64 word \<Rightarrow> 64 word option" where
  "roundup_power_of_two v =
     (if v AND (v - 1) = 0 then Some v
      else do { let maxulong = NOT 0;
                andv \<leftarrow> roundup_loop (NOT (maxulong AND drop_bit 1 maxulong)) v;
                Some (push_bit 1 andv) })"

definition pow2 :: "nat \<Rightarrow> 64 word" where
  "pow2 k = push_bit k 1"

lemma bit_pow2: "bit (pow2 k) n \<longleftrightarrow> n = k \<and> k < 64"
  by (auto simp: pow2_def bit_exp_iff)

lemma unat_pow2: "k < 64 \<Longrightarrow> unat (pow2 k) = 2 ^ k"
proof -
  assume k: "k < 64"
  have "pow2 k = of_nat (2 ^ k)" by (simp add: pow2_def)
  then have "unat (pow2 k) = 2 ^ k mod 2 ^ 64" by (simp only: unat_of_nat) simp
  also have "\<dots> = 2 ^ k" using k by (intro mod_less power_strict_increasing) auto
  finally show ?thesis .
qed

text \<open>Every positive word lies between two powers of two; its top bit decides the tests.\<close>

lemma word_log:
  fixes v :: "64 word"
  assumes "v \<noteq> 0"
  obtains k where "k < 64" "2 ^ k \<le> unat v" "unat v < 2 ^ Suc k"
proof -
  have pos: "0 < unat v" using assms by (simp add: unat_gt_0)
  obtain k where k: "2 ^ k \<le> unat v" "unat v < 2 ^ (k + 1)"
    using ex_power_ivl1 [of 2 "unat v"] pos by auto
  have "unat v < 2 ^ 64" using unsigned_less [of v, where ?'a = nat] by simp
  then have "(2::nat) ^ k < 2 ^ 64" using k by linarith
  then have "k < 64" by (rule power_less_imp_less_exp [rotated]) simp
  then show ?thesis using that k by simp
qed

lemma bit_word_unat:
  fixes v :: "'a::len word"
  shows "bit v k \<longleftrightarrow> odd (unat v div 2 ^ k)"
  using bit_unsigned_iff [of v k, where ?'a = nat] by (simp add: bit_iff_odd [of "unat v"])

lemma top_bit:
  fixes v :: "64 word"
  assumes "2 ^ k \<le> unat v" "unat v < 2 ^ Suc k"
  shows "bit v k" "\<And>j. k < j \<Longrightarrow> \<not> bit v j"
proof -
  have "unat v div 2 ^ k = 1" using assms by (simp add: div_nat_eqI)
  then show "bit v k" by (simp add: bit_word_unat)
  fix j assume "k < j"
  then have "(2::nat) ^ Suc k \<le> 2 ^ j" by (intro power_increasing) auto
  then have "unat v < 2 ^ j" using assms by linarith
  then show "\<not> bit v j" by (simp add: bit_word_unat)
qed

lemma and_minus_one:
  fixes v :: "64 word"
  assumes k: "2 ^ k \<le> unat v" "unat v < 2 ^ Suc k" "k < 64"
  shows "v AND (v - 1) = 0 \<longleftrightarrow> v = pow2 k"
proof
  assume z: "v AND (v - 1) = 0"
  show "v = pow2 k"
  proof (rule ccontr)
    assume ne: "v \<noteq> pow2 k"
    have "unat (pow2 k) = 2 ^ k"
      using k(3) by (rule unat_pow2)
    then have lt: "2 ^ k < unat v" using k(1) ne by (metis le_neq_implies_less word_unat_eq_iff)
    then have "v \<noteq> 0" by auto
    then have "unat (v - 1) = unat v - 1" by (simp add: unat_minus_one)
    then have "bit (v - 1) k" using lt k(2) by (intro top_bit) auto
    moreover have "bit v k" using k by (intro top_bit) auto
    ultimately have "bit (v AND (v - 1)) k" by (simp add: bit_and_iff)
    then show False using z by simp
  qed
next
  assume v: "v = pow2 k"
  have "mask k = v - 1" using v by (simp add: mask_eq_exp_minus_1 push_bit_eq_mult pow2_def)
  then have "v AND (v - 1) = take_bit k v" by (simp add: take_bit_eq_mask)
  then show "v AND (v - 1) = 0" using v
    by (auto intro!: bit_eqI simp: bit_take_bit_iff bit_pow2)
qed

lemma roundup_loop_top:
  fixes v :: "64 word"
  assumes k: "2 ^ k \<le> unat v" "unat v < 2 ^ Suc k" "k < 64" and "k \<le> j" "j < 64"
  shows "roundup_loop (pow2 j) v = Some (pow2 k)"
  using assms(4,5)
proof (induction "j - k" arbitrary: j)
  case 0
  then have "bit (pow2 j AND v) k" using top_bit(1) [OF k(1,2)] k(3)
    by (simp add: bit_and_iff bit_pow2)
  then have "pow2 j AND v \<noteq> 0" by auto
  then show ?case using 0 by (simp add: roundup_loop.simps)
next
  case (Suc d)
  then have j: "k < j" "j = Suc (j - 1)" by auto
  have "pow2 j AND v = 0"
    using top_bit(2) [OF k(1,2) j(1)] by (auto intro!: bit_eqI simp: bit_and_iff bit_pow2)
  moreover have "drop_bit 1 (pow2 j) = (pow2 (j - 1))"
    using j Suc.prems by (auto intro!: bit_eqI simp: bit_drop_bit_eq bit_pow2)
  moreover have "roundup_loop (pow2 (j - 1)) v = Some (pow2 k)"
    using Suc.hyps(1) [of "j - 1"] Suc.hyps(2) Suc.prems j by simp
  ultimately show ?case by (simp add: roundup_loop.simps [of "pow2 j" v])
qed

lemma roundup_start: "NOT (NOT 0 AND drop_bit 1 (NOT 0)) = (pow2 63)"
  by (auto intro!: bit_eqI simp: bit_and_iff bit_pow2 bit_not_iff bit_mask_iff)

text \<open>
  The rounding loop always ends; for a value up to \<open>2 ^ 63\<close> the result is the least power of two
  not below it, above that the shift loses the bit and the result is 0.
\<close>

lemma roundup_value:
  fixes v :: "64 word"
  assumes k: "2 ^ k \<le> unat v" "unat v < 2 ^ Suc k" "k < 64"
  shows "roundup_power_of_two v = Some (if v = pow2 k then v else pow2 (Suc k))"
  unfolding roundup_power_of_two_def Let_def roundup_start
  using and_minus_one [OF k] roundup_loop_top [OF k, of 63] k(3)
  by (simp add: pow2_def)

section \<open>The queue\<close>

text \<open>
  \<open>m_pBuffer\<close> is \<open>None\<close> while it is the null pointer.  The constructor takes a C \<open>int\<close>, which
  is converted to \<open>unsigned int\<close> for the size and to \<open>unsigned long\<close> for the test.
\<close>

record uq =
  m_pBuffer :: "8 word list option"
  m_nSize :: "32 word"
  m_nIn :: "32 word"
  m_nOut :: "32 word"

definition UnlockQueue :: "int \<Rightarrow> uq option" where
  "UnlockQueue nSize =
     (let q = \<lparr>m_pBuffer = None, m_nSize = word_of_int nSize, m_nIn = 0, m_nOut = 0\<rparr> in
      if \<not> is_power_of_2 (word_of_int nSize)
      then do { r \<leftarrow> roundup_power_of_two (word_of_int nSize); Some (q\<lparr>m_nSize := ucast r\<rparr>) }
      else Some q)"

definition destroy :: "uq \<Rightarrow> uq" where
  "destroy q = (if m_pBuffer q \<noteq> None then q\<lparr>m_pBuffer := None\<rparr> else q)"

text \<open>\<open>mem\<close> is what \<open>new unsigned char[m_nSize]\<close> returns: a block with any contents, or null.\<close>

definition Initialize :: "8 word list option \<Rightarrow> uq \<Rightarrow> uq \<times> bool" where
  "Initialize mem q =
     (let q1 = q\<lparr>m_pBuffer := mem\<rparr> in
      if m_pBuffer q1 = None then (q1, False) else (q1\<lparr>m_nIn := 0, m_nOut := 0\<rparr>, True))"

definition Clean :: "uq \<Rightarrow> uq" where
  "Clean q = q\<lparr>m_nIn := 0, m_nOut := 0\<rparr>"

definition GetDataLen :: "uq \<Rightarrow> 32 word" where
  "GetDataLen q = m_nIn q - m_nOut q"

text \<open>
  \<open>Put\<close> and \<open>Get\<close> in the pieces the two memory barriers separate: the length is fixed from
  the other side's index, then the bytes are copied in two parts, then the own index moves.
\<close>

definition put_len :: "uq \<Rightarrow> 32 word \<Rightarrow> 32 word" where
  "put_len q n = min n (m_nSize q - m_nIn q + m_nOut q)"

definition get_len :: "uq \<Rightarrow> 32 word \<Rightarrow> 32 word" where
  "get_len q n = min n (m_nIn q - m_nOut q)"

definition slot :: "uq \<Rightarrow> 32 word \<Rightarrow> 32 word" where
  "slot q i = i AND (m_nSize q - 1)"

definition first_part :: "uq \<Rightarrow> 32 word \<Rightarrow> 32 word \<Rightarrow> 32 word" where
  "first_part q i n = min n (m_nSize q - slot q i)"

definition Put :: "uq \<Rightarrow> 8 word list \<Rightarrow> 32 word \<Rightarrow> (uq \<times> 32 word) option" where
  "Put q buffer n0 =
     do { mem \<leftarrow> m_pBuffer q;
          let n = put_len q n0;
          let l = first_part q (m_nIn q) n;
          b1 \<leftarrow> memcpy_at mem (unat (slot q (m_nIn q))) buffer 0 (unat l);
          b2 \<leftarrow> memcpy_at b1 0 buffer (unat l) (unat (n - l));
          Some (q\<lparr>m_pBuffer := Some b2, m_nIn := m_nIn q + n\<rparr>, n) }"

definition Get :: "uq \<Rightarrow> 8 word list \<Rightarrow> 32 word \<Rightarrow> (uq \<times> 8 word list \<times> 32 word) option" where
  "Get q buffer n0 =
     do { mem \<leftarrow> m_pBuffer q;
          let n = get_len q n0;
          let l = first_part q (m_nOut q) n;
          d1 \<leftarrow> memcpy_at buffer 0 mem (unat (slot q (m_nOut q))) (unat l);
          d2 \<leftarrow> memcpy_at d1 (unat l) mem 0 (unat (n - l));
          Some (q\<lparr>m_nOut := m_nOut q + n\<rparr>, d2, n) }"

section \<open>The queue as a bounded list of bytes\<close>

definition uq_used :: "uq \<Rightarrow> nat" where
  "uq_used q = unat (m_nIn q - m_nOut q)"

definition uq_mem :: "uq \<Rightarrow> 8 word list" where
  "uq_mem q = (case m_pBuffer q of Some b \<Rightarrow> b | None \<Rightarrow> [])"

definition uq_contents :: "uq \<Rightarrow> 8 word list" where
  "uq_contents q = ring_read (uq_mem q) (unat (m_nOut q)) (uq_used q)"

definition uq_valid :: "uq \<Rightarrow> bool" where
  "uq_valid q \<longleftrightarrow> (\<exists>k < 32. unat (m_nSize q) = 2 ^ k) \<and> m_pBuffer q \<noteq> None
     \<and> length (uq_mem q) = unat (m_nSize q) \<and> uq_used q \<le> unat (m_nSize q)"

lemma unat_min: "unat (min a (b :: 'a::len word)) = min (unat a) (unat b)"
  by (simp add: min_def word_le_nat_alt)

lemma unat_slot:
  assumes "unat (m_nSize q) = 2 ^ k" "k < 32"
  shows "unat (slot q i) = unat i mod unat (m_nSize q)"
proof -
  have "m_nSize q = of_nat (unat (m_nSize q))" by simp
  then have "m_nSize q = 2 ^ k" unfolding assms(1) by simp
  then have "slot q i = take_bit k i"
    by (simp add: slot_def take_bit_eq_mask mask_eq_exp_minus_1)
  then have "unat (slot q i) = take_bit k (unat i)" by (simp add: unsigned_take_bit_eq)
  then show ?thesis by (simp add: take_bit_eq_mod assms)
qed

lemma uq_valid_size:
  assumes "uq_valid q"
  shows "0 < unat (m_nSize q)" "unat (m_nSize q) < 2 ^ 32" "unat (m_nSize q) dvd 2 ^ 32"
    "unat (slot q i) = unat i mod unat (m_nSize q)" "unat (slot q i) < unat (m_nSize q)"
proof -
  obtain k where k: "k < 32" "unat (m_nSize q) = 2 ^ k" using assms by (auto simp: uq_valid_def)
  show "0 < unat (m_nSize q)" using k by simp
  show "unat (m_nSize q) dvd 2 ^ 32"
    unfolding k(2) using k(1) by (intro le_imp_power_dvd) simp
  show "unat (m_nSize q) < 2 ^ 32"
    unfolding k(2) using k(1) by (intro power_strict_increasing) auto
  show e: "unat (slot q i) = unat i mod unat (m_nSize q)" by (rule unat_slot [OF k(2,1)])
  show "unat (slot q i) < unat (m_nSize q)" unfolding e using k(2) by simp
qed

lemma uq_in_out:
  assumes "uq_valid q"
  shows "unat (m_nIn q) mod unat (m_nSize q) = (unat (m_nOut q) + uq_used q) mod unat (m_nSize q)"
proof -
  have "unat (m_nIn q) = unat (m_nOut q + (m_nIn q - m_nOut q))" by simp
  also have "\<dots> = (unat (m_nOut q) + uq_used q) mod 2 ^ 32"
    unfolding uq_used_def by (subst unat_word_ariths(1)) simp
  finally show ?thesis using uq_valid_size(3) [OF assms] by (simp add: mod_mod_cancel)
qed

lemma unat_put_len:
  assumes "uq_valid q"
  shows "unat (put_len q n) = min (unat n) (unat (m_nSize q) - uq_used q)"
proof -
  have e: "m_nSize q - m_nIn q + m_nOut q = m_nSize q - (m_nIn q - m_nOut q)" by simp
  have "m_nIn q - m_nOut q \<le> m_nSize q"
    using assms by (simp add: uq_valid_def uq_used_def word_le_nat_alt)
  then show ?thesis unfolding put_len_def unat_min e uq_used_def by (simp only: unat_sub)
qed

lemma unat_get_len: "unat (get_len q n) = min (unat n) (uq_used q)"
  by (simp add: get_len_def unat_min uq_used_def)

lemma unat_first_part:
  assumes "uq_valid q"
  shows "unat (first_part q i n) = min (unat n) (unat (m_nSize q) - unat (slot q i))"
proof -
  have "slot q i \<le> m_nSize q" using uq_valid_size(5) [OF assms] by (simp add: word_le_nat_alt less_imp_le)
  then show ?thesis by (simp add: first_part_def unat_min unat_sub)
qed

lemma unat_second_part:
  assumes "uq_valid q"
  shows "unat (n - first_part q i n) = unat n - min (unat n) (unat (m_nSize q) - unat (slot q i))"
proof -
  have "first_part q i n \<le> n" by (simp add: first_part_def)
  then show ?thesis by (simp add: unat_sub unat_first_part [OF assms])
qed

text \<open>The four copies: what is between \<open>m_nOut\<close> and \<open>m_nIn\<close> stays as it is.\<close>

lemma put_first_copy:
  assumes q: "uq_valid q" and n: "unat n + uq_used q \<le> unat (m_nSize q)" "unat n \<le> length data"
  shows "\<exists>b. memcpy_at (uq_mem q) (unat (slot q (m_nIn q))) data 0 (unat (first_part q (m_nIn q) n)) = Some b
    \<and> length b = unat (m_nSize q)
    \<and> ring_read b (unat (m_nOut q)) (uq_used q) = uq_contents q
    \<and> ring_read b (unat (m_nIn q)) (unat (first_part q (m_nIn q) n))
        = take (unat (first_part q (m_nIn q) n)) data"
proof -
  let ?m = "uq_mem q" and ?l = "unat (first_part q (m_nIn q) n)" and ?off = "unat (slot q (m_nIn q))"
  have L: "length ?m = unat (m_nSize q)" using q by (simp add: uq_valid_def)
  note sz = uq_valid_size [OF q]
  have l: "?l \<le> unat n" "?l \<le> length ?m - ?off" by (simp_all add: unat_first_part [OF q] L)
  have off: "?off = (unat (m_nOut q) + uq_used q) mod length ?m"
    using sz(4) [of "m_nIn q"] uq_in_out [OF q] L by simp
  obtain b where b: "ring_write ?m ?off data ?l = Some b" "length b = length ?m"
    "ring_read b (unat (m_nOut q)) (uq_used q) = ring_read ?m (unat (m_nOut q)) (uq_used q)"
    "ring_read b (unat (m_nOut q) + uq_used q) ?l = take ?l data"
    using ring_write_append [of ?m "uq_used q" ?l data "unat (m_nOut q)"] sz(1) L n l off by auto
  have "ring_write ?m ?off data ?l = memcpy_at ?m ?off data 0 ?l"
    using l n(2) by (intro ring_write_first) linarith+
  then have "memcpy_at ?m ?off data 0 ?l = Some b" using b(1) by (rule subst)
  moreover have "ring_read b (unat (m_nIn q)) ?l = take ?l data"
    using b(2,4) uq_in_out [OF q] L by (metis ring_read_mod)
  ultimately show ?thesis using b(2,3) L by (intro exI [of _ b]) (simp add: uq_contents_def)
qed

lemma put_second_copy:
  assumes q: "uq_valid q" and n: "unat n + uq_used q \<le> unat (m_nSize q)" "unat n \<le> length data"
    and l: "l = first_part q (m_nIn q) n"
    and done1: "ring_read (uq_mem q) (unat (m_nIn q)) (unat l) = take (unat l) data"
  shows "\<exists>b. memcpy_at (uq_mem q) 0 data (unat l) (unat (n - l)) = Some b
    \<and> length b = unat (m_nSize q)
    \<and> ring_read b (unat (m_nOut q)) (uq_used q) = uq_contents q
    \<and> ring_read b (unat (m_nIn q)) (unat n) = take (unat n) data"
proof -
  let ?m = "uq_mem q" and ?off = "unat (slot q (m_nIn q))"
  have L: "length ?m = unat (m_nSize q)" using q by (simp add: uq_valid_def)
  note sz = uq_valid_size [OF q]
  have ul: "unat l = min (unat n) (length ?m - ?off)" by (simp add: l unat_first_part [OF q] L)
  have nl: "unat (n - l) = unat n - unat l"
    unfolding l by (simp add: unat_second_part [OF q] unat_first_part [OF q])
  show ?thesis
  proof (cases "unat l = unat n")
    case True
    then show ?thesis using done1 L n by (auto simp: nl uq_contents_def)
  next
    case False
    then have e: "unat l = length ?m - ?off" "unat l < unat n" using ul by auto
    have off: "?off = (unat (m_nOut q) + uq_used q) mod length ?m"
      using sz(4) [of "m_nIn q"] uq_in_out [OF q] L by simp
    have "?off < length ?m" using sz(5) L by simp
    then have z: "(unat (m_nOut q) + (uq_used q + unat l)) mod length ?m = 0"
      using e(1) off by (metis add.assoc le_add_diff_inverse less_imp_le mod_add_left_eq mod_self)
    obtain b where b: "ring_write ?m 0 (drop (unat l) data) (unat n - unat l) = Some b"
      "length b = length ?m"
      "ring_read b (unat (m_nOut q)) (uq_used q + unat l)
         = ring_read ?m (unat (m_nOut q)) (uq_used q + unat l)"
      "ring_read b (unat (m_nOut q) + (uq_used q + unat l)) (unat n - unat l)
         = take (unat n - unat l) (drop (unat l) data)"
      using ring_write_append [of ?m "uq_used q + unat l" "unat n - unat l" "drop (unat l) data"
          "unat (m_nOut q)"] sz(1) L n e(2) unfolding z by (auto simp: diff_le_mono)
    have "ring_write ?m 0 (drop (unat l) data) (unat n - unat l)
        = memcpy_at ?m 0 data (unat l) (unat n - unat l)"
      using n L e(2) by (intro ring_write_second) auto
    then have "memcpy_at ?m 0 data (unat l) (unat n - unat l) = Some b" using b(1) by (rule subst)
    moreover have old: "ring_read b (unat (m_nOut q)) (uq_used q) = uq_contents q"
      "ring_read b (unat (m_nOut q) + uq_used q) (unat l) = ring_read ?m (unat (m_nOut q) + uq_used q) (unat l)"
      using b(3) by (simp_all add: ring_read_add uq_contents_def)
    moreover have "ring_read b (unat (m_nIn q)) (unat n) = take (unat n) data"
    proof -
      have "ring_read b (unat (m_nIn q)) (unat n)
          = ring_read b (unat (m_nOut q) + uq_used q) (unat l + (unat n - unat l))"
        using b(2) uq_in_out [OF q] L e(2) by (metis le_add_diff_inverse less_imp_le ring_read_mod)
      also have "\<dots> = ring_read ?m (unat (m_nOut q) + uq_used q) (unat l)
          @ take (unat n - unat l) (drop (unat l) data)"
        using b(4) old(2) by (simp add: ring_read_add add.assoc)
      also have "ring_read ?m (unat (m_nOut q) + uq_used q) (unat l) = take (unat l) data"
        using done1 uq_in_out [OF q] L by (metis ring_read_mod)
      also have "take (unat l) data @ take (unat n - unat l) (drop (unat l) data) = take (unat n) data"
        using e(2) by (metis le_add_diff_inverse less_imp_le take_add)
      finally show ?thesis .
    qed
    ultimately show ?thesis using b(2) L by (intro exI [of _ b]) (simp add: nl)
  qed
qed

lemma get_first_copy:
  assumes q: "uq_valid q" and n: "unat n \<le> uq_used q" "unat n \<le> length dst"
  shows "\<exists>d. memcpy_at dst 0 (uq_mem q) (unat (slot q (m_nOut q))) (unat (first_part q (m_nOut q) n)) = Some d
    \<and> length d = length dst
    \<and> take (unat (first_part q (m_nOut q) n)) d
        = ring_read (uq_mem q) (unat (m_nOut q)) (unat (first_part q (m_nOut q) n))"
proof -
  let ?m = "uq_mem q" and ?l = "unat (first_part q (m_nOut q) n)" and ?off = "unat (slot q (m_nOut q))"
  have L: "length ?m = unat (m_nSize q)" using q by (simp add: uq_valid_def)
  note sz = uq_valid_size [OF q]
  have l: "?l \<le> unat n" "?l \<le> length ?m - ?off" by (simp_all add: unat_first_part [OF q] L)
  have off: "?off = unat (m_nOut q) mod length ?m" "?off < length ?m" using sz(4,5) L by simp_all
  have "memcpy_at dst 0 ?m ?off ?l = Some (take ?l (drop ?off ?m) @ drop ?l dst)"
    using l n off(2) by (subst memcpy_at_Some) auto
  moreover have "take ?l (drop ?off ?m) = ring_read ?m (unat (m_nOut q)) ?l"
    using off l by (intro nth_equalityI) (auto simp: mod_less simp flip: mod_add_left_eq [of "unat (m_nOut q)"])
  ultimately show ?thesis using l n by auto
qed

lemma get_second_copy:
  assumes q: "uq_valid q" and n: "unat n \<le> uq_used q" "unat n \<le> length dst"
    and l: "l = first_part q (m_nOut q) n"
    and done1: "take (unat l) dst = ring_read (uq_mem q) (unat (m_nOut q)) (unat l)"
  shows "\<exists>d. memcpy_at dst (unat l) (uq_mem q) 0 (unat (n - l)) = Some d
    \<and> length d = length dst \<and> drop (unat n) d = drop (unat n) dst
    \<and> take (unat n) d = ring_read (uq_mem q) (unat (m_nOut q)) (unat n)"
proof -
  let ?m = "uq_mem q" and ?off = "unat (slot q (m_nOut q))"
  have L: "length ?m = unat (m_nSize q)" using q by (simp add: uq_valid_def)
  note sz = uq_valid_size [OF q]
  have ul: "unat l = min (unat n) (length ?m - ?off)" by (simp add: l unat_first_part [OF q] L)
  have nl: "unat (n - l) = unat n - unat l"
    unfolding l by (simp add: unat_second_part [OF q] unat_first_part [OF q])
  have nL: "unat n \<le> length ?m" using n q by (simp add: uq_valid_def)
  have off: "?off = unat (m_nOut q) mod length ?m" "?off < length ?m" using sz(4,5) L by simp_all
  have ln: "unat l \<le> unat n" using ul by simp
  let ?d = "take (unat l) dst @ take (unat n - unat l) ?m @ drop (unat n) dst"
  have "memcpy_at dst (unat l) ?m 0 (unat (n - l)) = Some ?d"
    unfolding nl using n nL ln by (subst memcpy_at_Some) auto
  moreover have "take (unat n - unat l) ?m = ring_read ?m (unat (m_nOut q) + unat l) (unat n - unat l)"
  proof (cases "unat l = unat n")
    case False
    then have "unat l = length ?m - ?off" using ul by simp
    then have "(unat (m_nOut q) + unat l) mod length ?m = 0"
      using off by (metis le_add_diff_inverse less_imp_le mod_add_left_eq mod_self)
    then have "ring_read ?m (unat (m_nOut q) + unat l) (unat n - unat l) = ring_read ?m 0 (unat n - unat l)"
      by (metis ring_read_mod)
    then show ?thesis using nL off(2) by (simp, intro nth_equalityI) auto
  qed simp
  moreover have "ring_read ?m (unat (m_nOut q)) (unat n) = ring_read ?m (unat (m_nOut q)) (unat l)
      @ ring_read ?m (unat (m_nOut q) + unat l) (unat n - unat l)"
    using ln by (metis le_add_diff_inverse ring_read_add)
  ultimately show ?thesis using done1 n ln nL by (intro exI [of _ ?d]) auto
qed

text \<open>Publishing the own index.\<close>

lemma publish_in:
  assumes q: "uq_valid q" and n: "unat n + uq_used q \<le> unat (m_nSize q)"
  defines "q' \<equiv> q\<lparr>m_nIn := m_nIn q + n\<rparr>"
  shows "uq_valid q'" "uq_used q' = uq_used q + unat n"
    "uq_contents q' = uq_contents q @ ring_read (uq_mem q) (unat (m_nIn q)) (unat n)"
proof -
  have "uq_used q' = unat (m_nIn q + n - m_nOut q)" by (simp add: uq_used_def q'_def)
  also have "m_nIn q + n - m_nOut q = (m_nIn q - m_nOut q) + n" by simp
  also have "unat ((m_nIn q - m_nOut q) + n) = unat (m_nIn q - m_nOut q) + unat n"
    using n uq_valid_size(2) [OF q] by (subst unat_word_ariths(1)) (simp add: uq_used_def)
  finally show u: "uq_used q' = uq_used q + unat n" by (simp add: uq_used_def)
  have m: "uq_mem q' = uq_mem q" by (simp add: uq_mem_def q'_def)
  show "uq_valid q'" using q n by (simp add: uq_valid_def u m) (simp add: q'_def)
  have "ring_read (uq_mem q) (unat (m_nOut q) + uq_used q) (unat n)
      = ring_read (uq_mem q) (unat (m_nIn q)) (unat n)"
    using uq_in_out [OF q] q by (metis ring_read_mod uq_valid_def)
  then show "uq_contents q' = uq_contents q @ ring_read (uq_mem q) (unat (m_nIn q)) (unat n)"
    by (simp add: uq_contents_def u m ring_read_add) (simp add: q'_def)
qed

lemma publish_out:
  assumes q: "uq_valid q" and n: "unat n \<le> uq_used q"
  defines "q' \<equiv> q\<lparr>m_nOut := m_nOut q + n\<rparr>"
  shows "uq_valid q'" "uq_used q' = uq_used q - unat n" "uq_contents q' = drop (unat n) (uq_contents q)"
proof -
  have "uq_used q' = unat (m_nIn q - (m_nOut q + n))" by (simp add: uq_used_def q'_def)
  also have "m_nIn q - (m_nOut q + n) = (m_nIn q - m_nOut q) - n" by simp
  also have "unat ((m_nIn q - m_nOut q) - n) = unat (m_nIn q - m_nOut q) - unat n"
    using n by (intro unat_sub) (simp add: uq_used_def word_le_nat_alt)
  finally show u: "uq_used q' = uq_used q - unat n" by (simp add: uq_used_def)
  have m: "uq_mem q' = uq_mem q" by (simp add: uq_mem_def q'_def)
  show "uq_valid q'" using q unfolding uq_valid_def u m by (auto simp: q'_def)
  have "unat (m_nOut q + n) mod length (uq_mem q) = (unat (m_nOut q) + unat n) mod length (uq_mem q)"
    using uq_valid_size(3) [OF q] q by (subst unat_word_ariths(1)) (simp add: uq_valid_def mod_mod_cancel)
  then show "uq_contents q' = drop (unat n) (uq_contents q)"
    by (simp add: uq_contents_def u m) (metis q'_def ring_read_mod uq.select_convs(4) uq.update_convs(4) uq.surjective)
qed

section \<open>Put and Get\<close>

lemma uq_set_mem:
  assumes q: "uq_valid q" and b: "length b = unat (m_nSize q)"
    "ring_read b (unat (m_nOut q)) (uq_used q) = uq_contents q"
  shows "uq_valid (q\<lparr>m_pBuffer := Some b\<rparr>)" "uq_mem (q\<lparr>m_pBuffer := Some b\<rparr>) = b"
    "uq_used (q\<lparr>m_pBuffer := Some b\<rparr>) = uq_used q" "uq_contents (q\<lparr>m_pBuffer := Some b\<rparr>) = uq_contents q"
    "slot (q\<lparr>m_pBuffer := Some b\<rparr>) i = slot q i" "first_part (q\<lparr>m_pBuffer := Some b\<rparr>) i n = first_part q i n"
proof -
  show m: "uq_mem (q\<lparr>m_pBuffer := Some b\<rparr>) = b" by (simp add: uq_mem_def)
  show u: "uq_used (q\<lparr>m_pBuffer := Some b\<rparr>) = uq_used q" by (simp add: uq_used_def)
  show "uq_valid (q\<lparr>m_pBuffer := Some b\<rparr>)" using q b(1) by (simp add: uq_valid_def m u)
  show "uq_contents (q\<lparr>m_pBuffer := Some b\<rparr>) = uq_contents q"
    using b(2) by (simp add: uq_contents_def [of "_\<lparr>m_pBuffer := _\<rparr>"] m u)
qed (simp_all add: slot_def first_part_def)

lemma uq_Put_spec:
  assumes q: "uq_valid q" and len: "unat n0 \<le> length buffer"
  shows "\<exists>q'. Put q buffer n0 = Some (q', put_len q n0) \<and> uq_valid q' \<and> m_nSize q' = m_nSize q
    \<and> uq_contents q' = uq_contents q @ take (unat (put_len q n0)) buffer"
proof -
  let ?n = "put_len q n0"
  have used: "uq_used q \<le> unat (m_nSize q)" using q by (simp add: uq_valid_def)
  have n: "unat ?n + uq_used q \<le> unat (m_nSize q)" "unat ?n \<le> length buffer"
    using used len by (simp_all add: unat_put_len [OF q])
  let ?l = "first_part q (m_nIn q) ?n"
  obtain b1 where b1: "memcpy_at (uq_mem q) (unat (slot q (m_nIn q))) buffer 0 (unat ?l) = Some b1"
    "length b1 = unat (m_nSize q)" "ring_read b1 (unat (m_nOut q)) (uq_used q) = uq_contents q"
    "ring_read b1 (unat (m_nIn q)) (unat ?l) = take (unat ?l) buffer"
    using put_first_copy [OF q n] by blast
  let ?q1 = "q\<lparr>m_pBuffer := Some b1\<rparr>"
  note s1 = uq_set_mem [OF q b1(2,3)]
  have "unat ?n + uq_used ?q1 \<le> unat (m_nSize ?q1)" using n(1) s1(3) by simp
  then obtain b2 where b2: "memcpy_at b1 0 buffer (unat ?l) (unat (?n - ?l)) = Some b2"
    "length b2 = unat (m_nSize q)" "ring_read b2 (unat (m_nOut q)) (uq_used q) = uq_contents q"
    "ring_read b2 (unat (m_nIn q)) (unat ?n) = take (unat ?n) buffer"
    using put_second_copy [OF s1(1) _ n(2) refl] b1(4) unfolding s1 by auto
  let ?q2 = "q\<lparr>m_pBuffer := Some b2\<rparr>"
  note s2 = uq_set_mem [OF q b2(2,3)]
  let ?q' = "?q2\<lparr>m_nIn := m_nIn ?q2 + ?n\<rparr>"
  obtain mem where mem: "m_pBuffer q = Some mem" "uq_mem q = mem"
    using q by (auto simp: uq_valid_def uq_mem_def)
  have "Put q buffer n0 = Some (?q', ?n)"
    using mem b1(1) b2(1) by (simp add: Put_def Let_def)
  moreover have "uq_valid ?q'" "uq_contents ?q' = uq_contents q @ take (unat ?n) buffer"
    using publish_in [OF s2(1), of ?n] n(1) b2(4) unfolding s2 by auto
  ultimately show ?thesis by (intro exI [of _ ?q']) simp
qed

lemma uq_Get_spec:
  assumes q: "uq_valid q" and len: "unat n0 \<le> length buffer"
  shows "\<exists>q' d. Get q buffer n0 = Some (q', d, get_len q n0) \<and> uq_valid q' \<and> m_nSize q' = m_nSize q
    \<and> take (unat (get_len q n0)) d = take (unat n0) (uq_contents q)
    \<and> length d = length buffer
    \<and> uq_contents q' = drop (unat n0) (uq_contents q)"
proof -
  let ?n = "get_len q n0" and ?l = "first_part q (m_nOut q) (get_len q n0)"
  have n: "unat ?n \<le> uq_used q" "unat ?n \<le> length buffer" "unat ?n = min (unat n0) (uq_used q)"
    using len by (simp_all add: unat_get_len)
  obtain d1 where d1: "memcpy_at buffer 0 (uq_mem q) (unat (slot q (m_nOut q))) (unat ?l) = Some d1"
    "length d1 = length buffer" "take (unat ?l) d1 = ring_read (uq_mem q) (unat (m_nOut q)) (unat ?l)"
    using get_first_copy [OF q n(1,2)] by blast
  obtain d2 where d2: "memcpy_at d1 (unat ?l) (uq_mem q) 0 (unat (?n - ?l)) = Some d2"
    "length d2 = length buffer" "take (unat ?n) d2 = ring_read (uq_mem q) (unat (m_nOut q)) (unat ?n)"
    using get_second_copy [OF q n(1) _ refl d1(3)] d1(2) n(2) by auto
  obtain mem where mem: "m_pBuffer q = Some mem" "uq_mem q = mem"
    using q by (auto simp: uq_valid_def uq_mem_def)
  have "Get q buffer n0 = Some (q\<lparr>m_nOut := m_nOut q + ?n\<rparr>, d2, ?n)"
    using mem d1(1) d2(1) by (simp add: Get_def Let_def)
  moreover have "drop (unat ?n) (uq_contents q) = drop (unat n0) (uq_contents q)"
    "take (unat ?n) d2 = take (unat n0) (uq_contents q)"
    using n(3) d2(3) by (cases "unat n0 \<le> uq_used q"; simp add: uq_contents_def)+
  ultimately show ?thesis using publish_out [OF q n(1)] d2(2) by (intro exI [of _ d2] exI) auto
qed

text \<open>
  The queue as a provider of the bounded-queue interface: \<open>uq_put\<close> passes a whole byte string
  and its length, \<open>uq_get\<close> a fresh destination of the length asked for.
\<close>

definition uq_put :: "uq \<Rightarrow> 8 word list \<Rightarrow> (uq \<times> nat) option" where
  "uq_put q xs = map_option (\<lambda>(q', n). (q', unat n)) (Put q xs (of_nat (length xs)))"

definition uq_get :: "uq \<Rightarrow> nat \<Rightarrow> (uq \<times> 8 word list) option" where
  "uq_get q n =
     map_option (\<lambda>(q', d, m). (q', take (unat m) d)) (Get q (replicate n 0) (of_nat n))"

interpretation unlockq: bounded_queue uq_put uq_get uq_contents "\<lambda>q. unat (m_nSize q)" uq_valid
  "2 ^ 32"
proof
  fix q :: uq and xs :: "8 word list"
  assume q: "uq_valid q" and xs: "length xs < 2 ^ 32"
  have len: "unat (of_nat (length xs) :: 32 word) = length xs"
    using xs by (simp add: unat_of_nat)
  then obtain q' where q': "Put q xs (of_nat (length xs)) = Some (q', put_len q (of_nat (length xs)))"
    "uq_valid q'" "m_nSize q' = m_nSize q"
    "uq_contents q' = uq_contents q @ take (unat (put_len q (of_nat (length xs)))) xs"
    using uq_Put_spec [OF q, of "of_nat (length xs)" xs] by auto
  have n: "unat (put_len q (of_nat (length xs)))
      = min (length xs) (unat (m_nSize q) - length (uq_contents q))"
    by (simp only: unat_put_len [OF q] len) (simp add: uq_contents_def)
  have "take (min (length xs) (unat (m_nSize q) - length (uq_contents q))) xs
      = take (unat (m_nSize q) - length (uq_contents q)) xs" by (simp add: min_def)
  then show "\<exists>s'. uq_put q xs = Some (s', min (length xs) (unat (m_nSize q) - length (uq_contents q)))
      \<and> uq_valid s' \<and> unat (m_nSize s') = unat (m_nSize q)
      \<and> uq_contents s' = uq_contents q @ take (unat (m_nSize q) - length (uq_contents q)) xs"
    using q' n by (auto simp: uq_put_def)
next
  fix q :: uq and n :: nat
  assume q: "uq_valid q" and n: "n < 2 ^ 32"
  then have len: "unat (of_nat n :: 32 word) = n" by (simp add: unat_of_nat)
  then show "\<exists>s'. uq_get q n = Some (s', take n (uq_contents q)) \<and> uq_valid s'
      \<and> unat (m_nSize s') = unat (m_nSize q) \<and> uq_contents s' = drop n (uq_contents q)"
    using uq_Get_spec [OF q, of "of_nat n" "replicate n 0"] by (auto simp: uq_get_def)
next
  fix q :: uq assume "uq_valid q"
  then show "length (uq_contents q) \<le> unat (m_nSize q)"
    by (simp add: uq_contents_def uq_valid_def)
qed

text \<open>A constructed and initialised queue is valid and empty.\<close>

lemma uq_init_valid:
  assumes s: "0 < nSize" "nSize < 2 ^ 31"
  shows "\<exists>q. UnlockQueue nSize = Some q \<and> nat nSize \<le> unat (m_nSize q)
    \<and> unat (m_nSize q) < 2 * nat nSize
    \<and> (length mem = unat (m_nSize q) \<longrightarrow> uq_valid (fst (Initialize (Some mem) q))
        \<and> uq_contents (fst (Initialize (Some mem) q)) = [])"
proof -
  let ?v = "word_of_int nSize :: 64 word" and ?w = "word_of_int nSize :: 32 word"
  have v: "unat ?v = nat nSize" "unat ?w = nat nSize"
    using s by (simp_all add: unsigned_of_int take_bit_int_eq_self)
  then have "?v \<noteq> 0" using s by auto
  then obtain k where k: "k < 64" "2 ^ k \<le> unat ?v" "unat ?v < 2 ^ Suc k" by (rule word_log)
  have "nat nSize < 2 ^ 31" using s by (simp add: nat_less_iff)
  then have "(2::nat) ^ k < 2 ^ 31" using k(2) v by linarith
  then have k31: "k < 31" by (rule power_less_imp_less_exp [rotated]) simp
  let ?q0 = "\<lparr>m_pBuffer = None, m_nSize = ?w, m_nIn = 0, m_nOut = 0\<rparr>"
  have "\<exists>q. UnlockQueue nSize = Some q \<and> nat nSize \<le> unat (m_nSize q) \<and> unat (m_nSize q) < 2 * nat nSize
      \<and> (\<exists>j < 32. unat (m_nSize q) = 2 ^ j)"
  proof (cases "?v = pow2 k")
    case True
    then have "is_power_of_2 ?v" using and_minus_one [OF k(2,3,1)] \<open>?v \<noteq> 0\<close> by (simp add: is_power_of_2_def)
    then have "UnlockQueue nSize = Some ?q0" by (simp add: UnlockQueue_def)
    moreover have "nat nSize = 2 ^ k" using v(1) True unat_pow2 [OF k(1)] by simp
    ultimately show ?thesis using v s k31 by (auto intro!: exI [of _ k])
  next
    case False
    then have "\<not> is_power_of_2 ?v" using and_minus_one [OF k(2,3,1)] by (simp add: is_power_of_2_def)
    then have u: "UnlockQueue nSize = Some (?q0\<lparr>m_nSize := ucast (pow2 (Suc k))\<rparr>)"
      using roundup_value [OF k(2,3,1)] False by (simp add: UnlockQueue_def)
    have ne: "unat ?v \<noteq> 2 ^ k" using False unat_pow2 [OF k(1)] by (metis word_unat_eq_iff)
    have "unat (ucast (pow2 (Suc k)) :: 32 word) = 2 ^ Suc k"
    proof -
      have "unat (ucast (pow2 (Suc k)) :: 32 word) = take_bit 32 (unat (pow2 (Suc k)))"
        by (simp add: unsigned_ucast_eq)
      also have "\<dots> = take_bit 32 (2 ^ Suc k)" using k31 by (subst unat_pow2) auto
      also have "\<dots> = 2 ^ Suc k"
        using k31 by (intro take_bit_nat_eq_self power_strict_increasing) auto
      finally show ?thesis .
    qed
    then show ?thesis using u v s k31 k ne by (auto intro!: exI [of _ "Suc k"])
  qed
  then show ?thesis
    by (auto simp: uq_valid_def Initialize_def uq_mem_def uq_used_def uq_contents_def)
qed

section \<open>One producer, one consumer\<close>

text \<open>
  Between the barriers the two sides interleave.  A producer in the middle of \<open>Put\<close> and a
  consumer in the middle of \<open>Get\<close> hold the local variables of the call; \<open>sent\<close> and \<open>recvd\<close>
  record the bytes published by \<open>Put\<close> and delivered by \<open>Get\<close>.  A turn of a side runs the
  call up to its next access of the shared state.
\<close>

datatype producer =
    PIdle
  | PLen "8 word list" "32 word"
  | PHalf "8 word list" "32 word" "32 word"
  | PFull "8 word list" "32 word"

datatype consumer =
    CIdle
  | CLen "8 word list" "32 word"
  | CHalf "8 word list" "32 word" "32 word"
  | CFull "8 word list" "32 word"

record spsc =
  queue :: uq
  producing :: producer
  consuming :: consumer
  sent :: "8 word list"
  recvd :: "8 word list"

fun put_step :: "8 word list \<Rightarrow> 32 word \<Rightarrow> uq \<Rightarrow> producer \<Rightarrow> (uq \<times> producer \<times> 8 word list) option" where
  "put_step buffer n0 q PIdle = Some (q, PLen buffer (put_len q n0), [])"
| "put_step _ _ q (PLen buffer n) =
     do { mem \<leftarrow> m_pBuffer q;
          let l = first_part q (m_nIn q) n;
          b \<leftarrow> memcpy_at mem (unat (slot q (m_nIn q))) buffer 0 (unat l);
          Some (q\<lparr>m_pBuffer := Some b\<rparr>, PHalf buffer n l, []) }"
| "put_step _ _ q (PHalf buffer n l) =
     do { mem \<leftarrow> m_pBuffer q;
          b \<leftarrow> memcpy_at mem 0 buffer (unat l) (unat (n - l));
          Some (q\<lparr>m_pBuffer := Some b\<rparr>, PFull buffer n, []) }"
| "put_step _ _ q (PFull buffer n) =
     Some (q\<lparr>m_nIn := m_nIn q + n\<rparr>, PIdle, take (unat n) buffer)"

fun get_step :: "8 word list \<Rightarrow> 32 word \<Rightarrow> uq \<Rightarrow> consumer \<Rightarrow> (uq \<times> consumer \<times> 8 word list) option" where
  "get_step buffer n0 q CIdle = Some (q, CLen buffer (get_len q n0), [])"
| "get_step _ _ q (CLen buffer n) =
     do { mem \<leftarrow> m_pBuffer q;
          let l = first_part q (m_nOut q) n;
          d \<leftarrow> memcpy_at buffer 0 mem (unat (slot q (m_nOut q))) (unat l);
          Some (q, CHalf d n l, []) }"
| "get_step _ _ q (CHalf buffer n l) =
     do { mem \<leftarrow> m_pBuffer q;
          d \<leftarrow> memcpy_at buffer (unat l) mem 0 (unat (n - l));
          Some (q, CFull d n, []) }"
| "get_step _ _ q (CFull buffer n) =
     Some (q\<lparr>m_nOut := m_nOut q + n\<rparr>, CIdle, take (unat n) buffer)"

text \<open>A turn names the side; the buffer and the length only matter when a new call starts.\<close>

datatype turn = Producer "8 word list" "32 word" | Consumer "8 word list" "32 word"

fun spsc_step :: "turn \<Rightarrow> spsc \<Rightarrow> spsc option" where
  "spsc_step (Producer buffer n0) s =
     do { (q, p, out) \<leftarrow> put_step buffer n0 (queue s) (producing s);
          Some (s\<lparr>queue := q, producing := p, sent := sent s @ out\<rparr>) }"
| "spsc_step (Consumer buffer n0) s =
     do { (q, c, out) \<leftarrow> get_step buffer n0 (queue s) (consuming s);
          Some (s\<lparr>queue := q, consuming := c, recvd := recvd s @ out\<rparr>) }"

fun spsc_run :: "turn list \<Rightarrow> spsc \<Rightarrow> spsc option" where
  "spsc_run [] s = Some s"
| "spsc_run (t # ts) s = do { s' \<leftarrow> spsc_step t s; spsc_run ts s' }"

fun turn_ok :: "turn \<Rightarrow> bool" where
  "turn_ok (Producer buffer n) \<longleftrightarrow> unat n \<le> length buffer"
| "turn_ok (Consumer buffer n) \<longleftrightarrow> unat n \<le> length buffer"

definition spsc_start :: "uq \<Rightarrow> spsc" where
  "spsc_start q = \<lparr>queue = q, producing = PIdle, consuming = CIdle, sent = uq_contents q, recvd = []\<rparr>"

text \<open>
  What each side knows in the middle of its call.  The other side's moves keep it: the consumer
  only makes room, the producer only adds bytes behind \<open>m_nIn\<close>.
\<close>

fun prod_inv :: "uq \<Rightarrow> producer \<Rightarrow> bool" where
  "prod_inv q PIdle \<longleftrightarrow> True"
| "prod_inv q (PLen buffer n) \<longleftrightarrow> unat n + uq_used q \<le> unat (m_nSize q) \<and> unat n \<le> length buffer"
| "prod_inv q (PHalf buffer n l) \<longleftrightarrow> unat n + uq_used q \<le> unat (m_nSize q) \<and> unat n \<le> length buffer
     \<and> l = first_part q (m_nIn q) n
     \<and> ring_read (uq_mem q) (unat (m_nIn q)) (unat l) = take (unat l) buffer"
| "prod_inv q (PFull buffer n) \<longleftrightarrow> unat n + uq_used q \<le> unat (m_nSize q)
     \<and> ring_read (uq_mem q) (unat (m_nIn q)) (unat n) = take (unat n) buffer"

fun cons_inv :: "uq \<Rightarrow> consumer \<Rightarrow> bool" where
  "cons_inv q CIdle \<longleftrightarrow> True"
| "cons_inv q (CLen buffer n) \<longleftrightarrow> unat n \<le> uq_used q \<and> unat n \<le> length buffer"
| "cons_inv q (CHalf buffer n l) \<longleftrightarrow> unat n \<le> uq_used q \<and> unat n \<le> length buffer
     \<and> l = first_part q (m_nOut q) n
     \<and> take (unat l) buffer = ring_read (uq_mem q) (unat (m_nOut q)) (unat l)"
| "cons_inv q (CFull buffer n) \<longleftrightarrow> unat n \<le> uq_used q
     \<and> take (unat n) buffer = ring_read (uq_mem q) (unat (m_nOut q)) (unat n)"

definition spsc_inv :: "spsc \<Rightarrow> bool" where
  "spsc_inv s \<longleftrightarrow> uq_valid (queue s) \<and> recvd s @ uq_contents (queue s) = sent s
     \<and> prod_inv (queue s) (producing s) \<and> cons_inv (queue s) (consuming s)"

lemma used_prefix:
  assumes "ring_read b i u = ring_read a i u" "n \<le> u"
  shows "ring_read b i n = ring_read a i n"
  using assms by (metis take_ring_read)

lemma cons_inv_set_mem:
  assumes q: "uq_valid q" and b: "length b = unat (m_nSize q)"
    "ring_read b (unat (m_nOut q)) (uq_used q) = uq_contents q" and c: "cons_inv q c"
  shows "cons_inv (q\<lparr>m_pBuffer := Some b\<rparr>) c"
proof -
  have pre: "ring_read b (unat (m_nOut q)) m = ring_read (uq_mem q) (unat (m_nOut q)) m"
    if "m \<le> uq_used q" for m
    by (rule used_prefix [OF _ that]) (use b(2) in \<open>simp add: uq_contents_def\<close>)
  have l: "unat (first_part q i n) \<le> unat n" for i n by (simp add: unat_first_part [OF q])
  note s = uq_set_mem [OF q b]
  show ?thesis
  proof (cases c)
    case (CHalf d n l')
    then have "unat (first_part q (m_nOut q) n) \<le> uq_used q"
      using c l [of "m_nOut q" n] by (auto intro: order_trans)
    then show ?thesis using c CHalf pre by (auto simp: s)
  qed (use c pre in \<open>auto simp: s\<close>)
qed

lemma cons_inv_publish_in:
  assumes q: "uq_valid q" and n: "unat n + uq_used q \<le> unat (m_nSize q)" and c: "cons_inv q c"
  shows "cons_inv (q\<lparr>m_nIn := m_nIn q + n\<rparr>) c"
proof -
  have "uq_mem (q\<lparr>m_nIn := m_nIn q + n\<rparr>) = uq_mem q" by (simp add: uq_mem_def)
  moreover have "first_part (q\<lparr>m_nIn := m_nIn q + n\<rparr>) i k = first_part q i k" for i k
    by (simp add: first_part_def slot_def)
  ultimately show ?thesis using c publish_in(2) [OF q n] by (cases c) auto
qed

lemma prod_inv_publish_out:
  assumes q: "uq_valid q" and n: "unat n \<le> uq_used q" and p: "prod_inv q p"
  shows "prod_inv (q\<lparr>m_nOut := m_nOut q + n\<rparr>) p"
proof -
  have "uq_mem (q\<lparr>m_nOut := m_nOut q + n\<rparr>) = uq_mem q" by (simp add: uq_mem_def)
  moreover have "first_part (q\<lparr>m_nOut := m_nOut q + n\<rparr>) i k = first_part q i k" for i k
    by (simp add: first_part_def slot_def)
  ultimately show ?thesis using p publish_out(2) [OF q n] by (cases p) auto
qed

lemma put_step_inv:
  assumes q: "uq_valid q" and p: "prod_inv q p" and c: "cons_inv q c" and ok: "unat n0 \<le> length buffer"
  shows "\<exists>q' p' out. put_step buffer n0 q p = Some (q', p', out) \<and> uq_valid q'
    \<and> uq_contents q' = uq_contents q @ out \<and> prod_inv q' p' \<and> cons_inv q' c"
proof -
  obtain mem where mem: "m_pBuffer q = Some mem" "uq_mem q = mem"
    using q by (auto simp: uq_valid_def uq_mem_def)
  show ?thesis
  proof (cases p)
    case PIdle
    have "uq_used q \<le> unat (m_nSize q)" using q by (simp add: uq_valid_def)
    then have "unat (put_len q n0) + uq_used q \<le> unat (m_nSize q)" "unat (put_len q n0) \<le> length buffer"
      using ok by (auto simp: unat_put_len [OF q])
    then show ?thesis using PIdle q c by simp
  next
    case (PLen data n)
    then have n: "unat n + uq_used q \<le> unat (m_nSize q)" "unat n \<le> length data" using p by auto
    obtain b where b: "memcpy_at mem (unat (slot q (m_nIn q))) data 0 (unat (first_part q (m_nIn q) n)) = Some b"
      "length b = unat (m_nSize q)" "ring_read b (unat (m_nOut q)) (uq_used q) = uq_contents q"
      "ring_read b (unat (m_nIn q)) (unat (first_part q (m_nIn q) n))
        = take (unat (first_part q (m_nIn q) n)) data"
      using put_first_copy [OF q n] mem by auto
    then show ?thesis
      using PLen n mem cons_inv_set_mem [OF q b(2,3) c] by (simp add: Let_def uq_set_mem [OF q b(2,3)])
  next
    case (PHalf data n l)
    then have n: "unat n + uq_used q \<le> unat (m_nSize q)" "unat n \<le> length data" "l = first_part q (m_nIn q) n"
      "ring_read (uq_mem q) (unat (m_nIn q)) (unat l) = take (unat l) data" using p by auto
    obtain b where b: "memcpy_at mem 0 data (unat l) (unat (n - l)) = Some b"
      "length b = unat (m_nSize q)" "ring_read b (unat (m_nOut q)) (uq_used q) = uq_contents q"
      "ring_read b (unat (m_nIn q)) (unat n) = take (unat n) data"
      using put_second_copy [OF q n] mem by auto
    then show ?thesis
      using PHalf n(1) mem cons_inv_set_mem [OF q b(2,3) c] by (simp add: uq_set_mem [OF q b(2,3)])
  next
    case (PFull data n)
    then have n: "unat n + uq_used q \<le> unat (m_nSize q)"
      "ring_read (uq_mem q) (unat (m_nIn q)) (unat n) = take (unat n) data" using p by auto
    then show ?thesis
      using PFull publish_in [OF q n(1)] cons_inv_publish_in [OF q n(1) c] by simp
  qed
qed

lemma get_step_inv:
  assumes q: "uq_valid q" and p: "prod_inv q p" and c: "cons_inv q c" and ok: "unat n0 \<le> length buffer"
  shows "\<exists>q' c' out. get_step buffer n0 q c = Some (q', c', out) \<and> uq_valid q'
    \<and> out @ uq_contents q' = uq_contents q \<and> prod_inv q' p \<and> cons_inv q' c'"
proof -
  obtain mem where mem: "m_pBuffer q = Some mem" "uq_mem q = mem"
    using q by (auto simp: uq_valid_def uq_mem_def)
  show ?thesis
  proof (cases c)
    case CIdle
    have "unat (get_len q n0) \<le> uq_used q" "unat (get_len q n0) \<le> length buffer"
      using ok by (auto simp: unat_get_len)
    then show ?thesis using CIdle q p by simp
  next
    case (CLen dst n)
    then have n: "unat n \<le> uq_used q" "unat n \<le> length dst" using c by auto
    show ?thesis using get_first_copy [OF q n] mem CLen n q p by (auto simp: Let_def)
  next
    case (CHalf dst n l)
    then have n: "unat n \<le> uq_used q" "unat n \<le> length dst" "l = first_part q (m_nOut q) n"
      "take (unat l) dst = ring_read (uq_mem q) (unat (m_nOut q)) (unat l)" using c by auto
    show ?thesis using get_second_copy [OF q n] mem CHalf n(1) q p by auto
  next
    case (CFull dst n)
    then have n: "unat n \<le> uq_used q"
      "take (unat n) dst = ring_read (uq_mem q) (unat (m_nOut q)) (unat n)" using c by auto
    have "take (unat n) dst = take (unat n) (uq_contents q)" using n by (simp add: uq_contents_def)
    then show ?thesis
      using CFull publish_out [OF q n(1)] prod_inv_publish_out [OF q n(1) p]
        append_take_drop_id [of "unat n" "uq_contents q"] by simp
  qed
qed

lemma spsc_step_inv:
  assumes s: "spsc_inv s" and t: "turn_ok t"
  shows "\<exists>s'. spsc_step t s = Some s' \<and> spsc_inv s'"
proof (cases t)
  case (Producer buffer n0)
  then have "unat n0 \<le> length buffer" using t by simp
  then obtain q' p' out where "put_step buffer n0 (queue s) (producing s) = Some (q', p', out)" "uq_valid q'"
    "uq_contents q' = uq_contents (queue s) @ out" "prod_inv q' p'" "cons_inv q' (consuming s)"
    using put_step_inv [of "queue s" "producing s" "consuming s" n0 buffer] s unfolding spsc_inv_def by blast
  then show ?thesis using Producer s by (auto simp: spsc_inv_def)
next
  case (Consumer buffer n0)
  then have "unat n0 \<le> length buffer" using t by simp
  then obtain q' c' out where "get_step buffer n0 (queue s) (consuming s) = Some (q', c', out)" "uq_valid q'"
    "out @ uq_contents q' = uq_contents (queue s)" "prod_inv q' (producing s)" "cons_inv q' c'"
    using get_step_inv [of "queue s" "producing s" "consuming s" n0 buffer] s unfolding spsc_inv_def by blast
  then show ?thesis using Consumer s by (auto simp: spsc_inv_def)
qed

lemma spsc_run_inv:
  "spsc_inv s \<Longrightarrow> list_all turn_ok ts \<Longrightarrow> \<exists>s'. spsc_run ts s = Some s' \<and> spsc_inv s'"
proof (induction ts arbitrary: s)
  case (Cons t ts)
  then obtain s1 where "spsc_step t s = Some s1" "spsc_inv s1" using spsc_step_inv [of s t] by auto
  then show ?case using Cons by auto
qed simp

section \<open>Properties\<close>

text \<open>
  For every \<open>unsigned long\<close> from 1 to \<open>2 ^ 63\<close>, \<open>roundup_power_of_two\<close> terminates and
  returns the least power of two that is not below it.
\<close>

theorem roundup_least:
  assumes v: "0 < unat v" "unat v \<le> 2 ^ 63"
  shows "\<exists>r k. roundup_power_of_two v = Some r \<and> unat r = 2 ^ k \<and> unat v \<le> 2 ^ k \<and> 2 ^ k < 2 * unat v"
proof -
  have "v \<noteq> 0" using v by auto
  then obtain k where k: "k < 64" "2 ^ k \<le> unat v" "unat v < 2 ^ Suc k" by (rule word_log)
  show ?thesis
  proof (cases "v = pow2 k")
    case True
    then show ?thesis using roundup_value [OF k(2,3,1)] unat_pow2 [OF k(1)] by auto
  next
    case False
    then have ne: "2 ^ k < unat v" using k unat_pow2 [OF k(1)] by (metis le_neq_implies_less word_unat_eq_iff)
    then have "(2::nat) ^ k < 2 ^ 63" using v by linarith
    then have "k < 63" by (rule power_less_imp_less_exp [rotated]) simp
    then have "unat (pow2 (Suc k)) = 2 ^ Suc k" by (intro unat_pow2) simp
    then show ?thesis
      using roundup_value [OF k(2,3,1)] False k(3) ne
      by (intro exI [of _ "pow2 (Suc k)"] exI [of _ "Suc k"]) simp
  qed
qed

lemma roundup_least_witness:
  "\<exists>r k. roundup_power_of_two 100 = Some r \<and> unat r = 2 ^ k \<and> (100::nat) \<le> 2 ^ k \<and> 2 ^ k < (200::nat)"
  using roundup_least [of 100] by simp

text \<open>
  C4: A queue built for any positive \<open>int\<close> size and initialised has a capacity of at least that
  size and less than twice it, and refines a bounded first-in first-out queue of bytes: any sequence of \<open>Put\<close> and \<open>Get\<close>
  calls runs without leaving the buffer, across the wrap-around of both 32-bit indices, each \<open>Put\<close> accepts exactly the bytes
  that fit and tells how many, and each \<open>Get\<close> delivers the bytes that stand first, as many as it asks for if there are so many.
\<close>

theorem unlock_queue_fifo:
  assumes "0 < nSize" "nSize < 2 ^ 31" and new: "UnlockQueue nSize = Some q"
    and mem: "length mem = unat (m_nSize q)" and ops: "list_all (qop_ok (2 ^ 32)) ops"
  shows "nat nSize \<le> unat (m_nSize q) \<and> unat (m_nSize q) < 2 * nat nSize
    \<and> (\<exists>q'. qanswers uq_put uq_get (fst (Initialize (Some mem) q)) ops = Some (q', snd (qspec (unat (m_nSize q)) [] ops))
          \<and> uq_valid q' \<and> uq_contents q' = fst (qspec (unat (m_nSize q)) [] ops))"
  using uq_init_valid [OF assms(1,2), of mem] new mem ops
    unlockq.run_refines [of "fst (Initialize (Some mem) q)" ops] by (auto simp: Initialize_def)

definition wit_uq :: uq where
  "wit_uq = \<lparr>m_pBuffer = None, m_nSize = 4, m_nIn = 0, m_nOut = 0\<rparr>"

lemma unlock_queue_fifo_witness:
  "\<exists>q'. qanswers uq_put uq_get (fst (Initialize (Some [0, 0, 0, 0]) wit_uq))
      [QPut [1, 2, 3], QGet 2, QPut [4, 5, 6, 7], QGet 9] = Some (q', [RPut 3, RGet [1, 2], RPut 3, RGet [3, 4, 5, 6]])
    \<and> uq_valid q' \<and> uq_contents q' = []"
proof -
  have "UnlockQueue 4 = Some wit_uq"
    by (simp add: UnlockQueue_def is_power_of_2_def wit_uq_def)
  then show ?thesis
    using unlock_queue_fifo [of 4 wit_uq "[0, 0, 0, 0]" "[QPut [1, 2, 3], QGet 2, QPut [4, 5, 6, 7], QGet 9]"]
    by (simp add: wit_uq_def qop_ok_def numeral_3_eq_3 del: qanswers.simps)
qed

text \<open>
  C1: However one producer and one consumer interleave between the memory barriers of \<open>Put\<close>
  and \<open>Get\<close>, no copy leaves a buffer, the queue stays valid, and what was delivered plus
  what is queued is what was published, in order.
\<close>

theorem spsc_safe:
  assumes "uq_valid q" "list_all turn_ok ts"
  shows "\<exists>s. spsc_run ts (spsc_start q) = Some s \<and> uq_valid (queue s)
    \<and> recvd s @ uq_contents (queue s) = sent s"
  using spsc_run_inv [of "spsc_start q" ts] assms by (auto simp: spsc_inv_def spsc_start_def)

lemma spsc_safe_witness:
  "\<exists>s. spsc_run [Producer [1, 2, 3] 3, Producer [] 0, Consumer [0, 0] 2, Producer [] 0, Producer [] 0,
      Consumer [] 0, Consumer [] 0, Consumer [] 0, Consumer [9] 1]
      (spsc_start \<lparr>m_pBuffer = Some [0, 0, 0, 0], m_nSize = 4, m_nIn = - 1, m_nOut = - 1\<rparr>) = Some s
    \<and> uq_valid (queue s) \<and> recvd s @ uq_contents (queue s) = sent s"
proof -
  have "uq_valid \<lparr>m_pBuffer = Some [0, 0, 0, 0], m_nSize = 4, m_nIn = - 1, m_nOut = - 1\<rparr>"
    by (auto simp: uq_valid_def uq_mem_def uq_used_def intro!: exI [of _ 2])
  then show ?thesis by (rule spsc_safe) simp
qed

declare roundup_loop.simps [code]

end
