(* ===== verification/Key_Store.thy ===== *)
theory Key_Store
  imports Prelude
begin

text \<open>
  The interface of a table that maps keys to values, as the program's hash tables offer it:
  looking up, inserting a new key (which may find the key present or the table full), removing,
  and, for some of them, replacing.  The facts a client rests on are proved once from the
  laws; the tables that keep the laws interpret the locales.
\<close>

datatype ins_reply = Inserted | Exists | Full

datatype ('k, 'v) kv_op = KGet 'k | KInsert 'k 'v | KRemove 'k

datatype 'v kv_reply = RGet "'v option" | RInsert ins_reply | RRemove bool

fun kv_key :: "('k, 'v) kv_op \<Rightarrow> 'k" where
  "kv_key (KGet k) = k"
| "kv_key (KInsert k v) = k"
| "kv_key (KRemove k) = k"

text \<open>
  What a reply says about the map: the reply of an operation is right for the map before, and
  determines the map after.  A table may refuse a new key, but nothing else.
\<close>

fun kv_reply_ok :: "('k \<rightharpoonup> 'v) \<Rightarrow> ('k, 'v) kv_op \<Rightarrow> 'v kv_reply \<Rightarrow> bool" where
  "kv_reply_ok m (KGet k) r \<longleftrightarrow> r = RGet (m k)"
| "kv_reply_ok m (KInsert k v) r \<longleftrightarrow>
     (if m k = None then r = RInsert Inserted \<or> r = RInsert Full else r = RInsert Exists)"
| "kv_reply_ok m (KRemove k) r \<longleftrightarrow> r = RRemove (m k \<noteq> None)"

fun kv_next :: "('k \<rightharpoonup> 'v) \<Rightarrow> ('k, 'v) kv_op \<Rightarrow> 'v kv_reply \<Rightarrow> ('k \<rightharpoonup> 'v)" where
  "kv_next m (KInsert k v) (RInsert Inserted) = m(k \<mapsto> v)"
| "kv_next m (KRemove k) _ = m(k := None)"
| "kv_next m _ _ = m"

fun kv_conforms :: "('k \<rightharpoonup> 'v) \<Rightarrow> ('k, 'v) kv_op list \<Rightarrow> 'v kv_reply list \<Rightarrow> ('k \<rightharpoonup> 'v) \<Rightarrow> bool" where
  "kv_conforms m [] [] m' \<longleftrightarrow> m' = m"
| "kv_conforms m (p # ps) (r # rs) m' \<longleftrightarrow> kv_reply_ok m p r \<and> kv_conforms (kv_next m p r) ps rs m'"
| "kv_conforms m _ _ m' \<longleftrightarrow> False"

fun kv_step :: "('s \<Rightarrow> 'k \<Rightarrow> ('s \<times> 'v option) option) \<Rightarrow> ('s \<Rightarrow> 'k \<Rightarrow> 'v \<Rightarrow> ('s \<times> ins_reply) option)
    \<Rightarrow> ('s \<Rightarrow> 'k \<Rightarrow> ('s \<times> bool) option) \<Rightarrow> 's \<Rightarrow> ('k, 'v) kv_op \<Rightarrow> ('s \<times> 'v kv_reply) option" where
  "kv_step get ins rem s (KGet k) = map_option (\<lambda>(s', r). (s', RGet r)) (get s k)"
| "kv_step get ins rem s (KInsert k v) = map_option (\<lambda>(s', r). (s', RInsert r)) (ins s k v)"
| "kv_step get ins rem s (KRemove k) = map_option (\<lambda>(s', r). (s', RRemove r)) (rem s k)"

fun kv_run :: "('s \<Rightarrow> 'k \<Rightarrow> ('s \<times> 'v option) option) \<Rightarrow> ('s \<Rightarrow> 'k \<Rightarrow> 'v \<Rightarrow> ('s \<times> ins_reply) option)
    \<Rightarrow> ('s \<Rightarrow> 'k \<Rightarrow> ('s \<times> bool) option) \<Rightarrow> 's \<Rightarrow> ('k, 'v) kv_op list \<Rightarrow> ('s \<times> 'v kv_reply list) option" where
  "kv_run get ins rem s [] = Some (s, [])"
| "kv_run get ins rem s (p # ps) =
     do { (s1, r) \<leftarrow> kv_step get ins rem s p;
          (s2, rs) \<leftarrow> kv_run get ins rem s1 ps;
          Some (s2, r # rs) }"

locale keyed_store =
  fixes get :: "'s \<Rightarrow> 'k \<Rightarrow> ('s \<times> 'v option) option"
    and ins :: "'s \<Rightarrow> 'k \<Rightarrow> 'v \<Rightarrow> ('s \<times> ins_reply) option"
    and rem :: "'s \<Rightarrow> 'k \<Rightarrow> ('s \<times> bool) option"
    and contents :: "'s \<Rightarrow> 'k \<rightharpoonup> 'v"
    and valid :: "'s \<Rightarrow> bool"
    and key_ok :: "'k \<Rightarrow> bool"
  assumes get_law: "valid s \<Longrightarrow> key_ok k \<Longrightarrow>
      \<exists>s'. get s k = Some (s', contents s k) \<and> valid s' \<and> contents s' = contents s"
    and ins_law: "valid s \<Longrightarrow> key_ok k \<Longrightarrow>
      \<exists>s' r. ins s k v = Some (s', r) \<and> valid s'
        \<and> (if contents s k = None then r = Inserted \<or> r = Full else r = Exists)
        \<and> contents s' = (if r = Inserted then (contents s)(k \<mapsto> v) else contents s)"
    and rem_law: "valid s \<Longrightarrow> key_ok k \<Longrightarrow>
      \<exists>s'. rem s k = Some (s', contents s k \<noteq> None) \<and> valid s' \<and> contents s' = (contents s)(k := None)"
begin

lemma step_conforms:
  assumes "valid s" "key_ok (kv_key p)"
  shows "\<exists>s' r. kv_step get ins rem s p = Some (s', r) \<and> valid s'
    \<and> kv_reply_ok (contents s) p r \<and> contents s' = kv_next (contents s) p r"
proof (cases p)
  case (KGet k)
  then show ?thesis using get_law [of s k] assms by auto
next
  case (KInsert k v)
  then obtain s' r where r: "ins s k v = Some (s', r)" "valid s'"
    "if contents s k = None then r = Inserted \<or> r = Full else r = Exists"
    "contents s' = (if r = Inserted then (contents s)(k \<mapsto> v) else contents s)"
    using ins_law [of s k v] assms by auto
  then show ?thesis using KInsert by (cases r) (auto split: if_splits)
next
  case (KRemove k)
  then show ?thesis using rem_law [of s k] assms by auto
qed

lemma run_conforms:
  "valid s \<Longrightarrow> list_all (\<lambda>p. key_ok (kv_key p)) ps \<Longrightarrow>
   \<exists>s' rs. kv_run get ins rem s ps = Some (s', rs) \<and> valid s' \<and> kv_conforms (contents s) ps rs (contents s')"
proof (induction ps arbitrary: s)
  case (Cons p ps)
  then obtain s1 r where s1: "kv_step get ins rem s p = Some (s1, r)" "valid s1"
    "kv_reply_ok (contents s) p r" "contents s1 = kv_next (contents s) p r"
    using step_conforms [of s p] by auto
  then show ?case using Cons.IH [OF s1(2)] Cons.prems by auto
qed simp

lemma kept_unless_removed:
  "valid s \<Longrightarrow> list_all (\<lambda>p. key_ok (kv_key p)) ps \<Longrightarrow> KRemove k \<notin> set ps \<Longrightarrow> contents s k = Some v \<Longrightarrow>
   \<exists>s' rs. kv_run get ins rem s ps = Some (s', rs) \<and> contents s' k = Some v"
proof (induction ps arbitrary: s)
  case (Cons p ps)
  then obtain s1 r where s1: "kv_step get ins rem s p = Some (s1, r)" "valid s1"
    "kv_reply_ok (contents s) p r" "contents s1 = kv_next (contents s) p r"
    using step_conforms [of s p] by auto
  have "contents s1 k = Some v"
  proof (cases p)
    case (KInsert k' v')
    then show ?thesis using s1(3,4) Cons.prems(4) by (auto split: if_splits)
  qed (use s1(3,4) Cons.prems in auto)
  then show ?case using Cons.IH [OF s1(2)] Cons.prems s1(1) by auto
qed simp

end

text \<open>A store that can also overwrite.\<close>

locale replacing_store = keyed_store +
  fixes repl :: "'a \<Rightarrow> 'b \<Rightarrow> 'c \<Rightarrow> ('a \<times> bool) option"
  assumes repl_law: "valid s \<Longrightarrow> key_ok k \<Longrightarrow>
      \<exists>s' r. repl s k v = Some (s', r) \<and> valid s' \<and> (contents s k \<noteq> None \<longrightarrow> r)
        \<and> contents s' = (if r then (contents s)(k \<mapsto> v) else contents s)"
begin

lemma replace_then_get:
  assumes "valid s" "key_ok k" "repl s k v = Some (s', True)"
  shows "\<exists>s''. get s' k = Some (s'', Some v)"
  using repl_law [OF assms(1,2), of v] assms(3) get_law [of s' k] assms(2) by auto

lemma replace_others:
  assumes "valid s" "key_ok k" "repl s k v = Some (s', r)" "k' \<noteq> k"
  shows "contents s' k' = contents s k'"
  using repl_law [OF assms(1,2), of v] assms(3,4) by (auto split: if_splits)

end

end
