(* ===== verification/Multi_Hash.thy ===== *)
theory Multi_Hash
  imports Key_Store
begin

text \<open>
  The data structure behind both shared-memory tables: a hash in several levels.  Row \<open>i\<close>
  has \<open>tbl ! i\<close> cells; a key owns one cell per row and is stored in at most one of them; key 0
  marks a free cell.  Here: the positions, the search over them, and how the stored map
  changes when a cell is written.
\<close>

record 'v hash_node =
  key :: "64 word"
  val :: 'v

lemma node_eta [simp]: "\<lparr>key = key n, val = val n\<rparr> = n"
  by (cases n) simp

section \<open>Positions\<close>

definition mh_slot :: "nat list \<Rightarrow> 64 word \<Rightarrow> nat \<Rightarrow> 64 word \<Rightarrow> nat" where
  "mh_slot tbl off i k = sum_list (take i tbl) + unat ((k + off) mod of_nat (tbl ! i))"

definition mh_slots :: "nat list \<Rightarrow> 64 word \<Rightarrow> 64 word \<Rightarrow> nat list" where
  "mh_slots tbl off k = map (\<lambda>i. mh_slot tbl off i k) [0..<length tbl]"

definition mh_table :: "nat list \<Rightarrow> bool" where
  "mh_table tbl = list_all (\<lambda>m. 0 < m \<and> m < 2 ^ 64) tbl"

lemma mh_table_nth: "mh_table tbl \<Longrightarrow> i < length tbl \<Longrightarrow> 0 < tbl ! i \<and> tbl ! i < 2 ^ 64"
  by (simp add: mh_table_def list_all_length)

lemma col_less:
  fixes x :: "64 word"
  assumes "0 < m" "m < 2 ^ 64"
  shows "unat (x mod of_nat m) < m"
proof -
  have "unat (of_nat m :: 64 word) = m" using assms by (simp add: unat_of_nat)
  then show ?thesis using assms by (simp add: unat_mod)
qed

lemma sum_take_Suc: "i < length tbl \<Longrightarrow> sum_list (take (Suc i) tbl) = sum_list (take i tbl) + tbl ! i"
  for tbl :: "nat list"
  by (simp add: take_Suc_conv_app_nth)

lemma sum_take_mono: "i \<le> j \<Longrightarrow> sum_list (take i tbl) \<le> sum_list (take j tbl)" for tbl :: "nat list"
proof -
  assume "i \<le> j"
  then have "take j tbl = take i tbl @ take (j - i) (drop i tbl)" by (metis le_add_diff_inverse take_add)
  then show ?thesis by simp
qed

lemma slot_range:
  assumes "mh_table tbl" "i < length tbl"
  shows "sum_list (take i tbl) \<le> mh_slot tbl off i k" "mh_slot tbl off i k < sum_list (take (Suc i) tbl)"
  using mh_table_nth [OF assms] col_less [of "tbl ! i" "k + off"] assms(2)
  by (simp_all add: mh_slot_def sum_take_Suc)

lemma slot_less:
  assumes "mh_table tbl" "i < length tbl"
  shows "mh_slot tbl off i k < sum_list tbl"
proof -
  have "sum_list (take (Suc i) tbl) \<le> sum_list (take (length tbl) tbl)"
    using assms(2) by (intro sum_take_mono) simp
  then show ?thesis using slot_range(2) [OF assms, of off k] by simp
qed

lemma slots_distinct:
  assumes t: "mh_table tbl"
  shows "distinct (mh_slots tbl off k)"
proof -
  have "mh_slot tbl off i k < mh_slot tbl off j k" if "i < j" "j < length tbl" for i j
    using slot_range(2) [OF t, of i off k] slot_range(1) [OF t that(2), of off k]
      sum_take_mono [of "Suc i" j tbl] that by simp
  then have "mh_slot tbl off i k \<noteq> mh_slot tbl off j k"
    if "i \<noteq> j" "i < length tbl" "j < length tbl" for i j
    using that by (metis linorder_neqE_nat order_less_irrefl)
  then show ?thesis by (simp add: mh_slots_def distinct_conv_nth)
qed

lemma slots_less: "mh_table tbl \<Longrightarrow> p \<in> set (mh_slots tbl off k) \<Longrightarrow> p < sum_list tbl"
  by (auto simp: mh_slots_def slot_less)

section \<open>Searching a list of positions\<close>

fun first_at :: "('v hash_node \<Rightarrow> bool) \<Rightarrow> 'v hash_node list \<Rightarrow> nat list \<Rightarrow> nat option" where
  "first_at P ns [] = None"
| "first_at P ns (p # ps) = (if P (ns ! p) then Some p else first_at P ns ps)"

lemma first_at_Some: "first_at P ns ps = Some p \<Longrightarrow> p \<in> set ps \<and> P (ns ! p)"
  by (induction ps) (auto split: if_splits)

lemma first_at_None: "first_at P ns ps = None \<longleftrightarrow> (\<forall>p \<in> set ps. \<not> P (ns ! p))"
  by (induction ps) auto

lemma first_at_unique:
  assumes "p \<in> set ps" "P (ns ! p)" "\<And>q. q \<in> set ps \<Longrightarrow> P (ns ! q) \<Longrightarrow> q = p"
  shows "first_at P ns ps = Some p"
proof (cases "first_at P ns ps")
  case None
  then show ?thesis using assms(1,2) by (simp add: first_at_None)
next
  case (Some q)
  then show ?thesis using first_at_Some [OF Some] assms(3) by simp
qed

definition keyed :: "64 word \<Rightarrow> 'v hash_node \<Rightarrow> bool" where
  "keyed k n \<longleftrightarrow> key n = k"

definition mh_find :: "nat list \<Rightarrow> 64 word \<Rightarrow> 'v hash_node list \<Rightarrow> 64 word \<Rightarrow> nat option" where
  "mh_find tbl off ns k = first_at (keyed k) ns (mh_slots tbl off k)"

definition mh_free :: "nat list \<Rightarrow> 64 word \<Rightarrow> 'v hash_node list \<Rightarrow> 64 word \<Rightarrow> nat option" where
  "mh_free tbl off ns k = first_at (keyed 0) ns (mh_slots tbl off k)"

section \<open>The stored map\<close>

definition mh_wf :: "nat list \<Rightarrow> 64 word \<Rightarrow> 'v hash_node list \<Rightarrow> bool" where
  "mh_wf tbl off ns \<longleftrightarrow> mh_table tbl \<and> length ns = sum_list tbl
     \<and> (\<forall>p < length ns. key (ns ! p) \<noteq> 0 \<longrightarrow> p \<in> set (mh_slots tbl off (key (ns ! p))))
     \<and> (\<forall>p < length ns. \<forall>q < length ns. key (ns ! p) \<noteq> 0 \<longrightarrow> key (ns ! p) = key (ns ! q) \<longrightarrow> p = q)"

definition mh_map :: "nat list \<Rightarrow> 64 word \<Rightarrow> 'v hash_node list \<Rightarrow> (64 word \<rightharpoonup> 'v)" where
  "mh_map tbl off ns k = (if k = 0 then None else map_option (\<lambda>p. val (ns ! p)) (mh_find tbl off ns k))"

definition mh_count :: "'v hash_node list \<Rightarrow> nat" where
  "mh_count ns = length (filter (\<lambda>n. key n \<noteq> 0) ns)"

lemma mh_wf_unique:
  "mh_wf tbl off ns \<Longrightarrow> p < length ns \<Longrightarrow> q < length ns \<Longrightarrow> key (ns ! p) \<noteq> 0 \<Longrightarrow>
   key (ns ! p) = key (ns ! q) \<Longrightarrow> p = q"
  unfolding mh_wf_def by blast

lemma mh_wf_slot:
  "mh_wf tbl off ns \<Longrightarrow> p < length ns \<Longrightarrow> key (ns ! p) \<noteq> 0 \<Longrightarrow> p \<in> set (mh_slots tbl off (key (ns ! p)))"
  unfolding mh_wf_def by blast

lemma mh_wf_length: "mh_wf tbl off ns \<Longrightarrow> length ns = sum_list tbl"
  unfolding mh_wf_def by blast

lemma mh_wf_slots_less: "mh_wf tbl off ns \<Longrightarrow> p \<in> set (mh_slots tbl off k) \<Longrightarrow> p < length ns"
  by (simp add: mh_wf_def slots_less)

lemma mh_find_iff:
  assumes wf: "mh_wf tbl off ns" and k: "k \<noteq> 0"
  shows "mh_find tbl off ns k = Some p \<longleftrightarrow> p < length ns \<and> key (ns ! p) = k"
proof
  assume "mh_find tbl off ns k = Some p"
  then have "p \<in> set (mh_slots tbl off k)" "keyed k (ns ! p)"
    by (auto simp: mh_find_def dest: first_at_Some)
  then show "p < length ns \<and> key (ns ! p) = k"
    using mh_wf_slots_less [OF wf] by (simp add: keyed_def)
next
  assume p: "p < length ns \<and> key (ns ! p) = k"
  then have "p \<in> set (mh_slots tbl off k)" using mh_wf_slot [OF wf, of p] k by simp
  moreover have "q = p" if "q \<in> set (mh_slots tbl off k)" "keyed k (ns ! q)" for q
  proof -
    have "q < length ns" using mh_wf_slots_less [OF wf that(1)] .
    then show ?thesis using p that(2) mh_wf_unique [OF wf, of q p] k by (simp add: keyed_def)
  qed
  moreover have "keyed k (ns ! p)" using p by (simp add: keyed_def)
  ultimately show "mh_find tbl off ns k = Some p"
    unfolding mh_find_def using first_at_unique [of p "mh_slots tbl off k" "keyed k" ns] by blast
qed

lemma mh_find_None:
  assumes "mh_wf tbl off ns" "k \<noteq> 0"
  shows "mh_find tbl off ns k = None \<longleftrightarrow> (\<forall>p < length ns. key (ns ! p) \<noteq> k)"
  using mh_find_iff [OF assms] by (metis not_None_eq option.distinct(1))

lemma mh_map_iff:
  assumes "mh_wf tbl off ns" "k \<noteq> 0"
  shows "mh_map tbl off ns k = Some v \<longleftrightarrow> (\<exists>p < length ns. ns ! p = \<lparr>key = k, val = v\<rparr>)"
proof -
  have "mh_map tbl off ns k = Some v \<longleftrightarrow> (\<exists>p. mh_find tbl off ns k = Some p \<and> val (ns ! p) = v)"
    using assms(2) by (auto simp: mh_map_def)
  also have "\<dots> \<longleftrightarrow> (\<exists>p < length ns. ns ! p = \<lparr>key = k, val = v\<rparr>)"
    unfolding mh_find_iff [OF assms] by (metis hash_node.select_convs hash_node.surjective old.unit.exhaust)
  finally show ?thesis .
qed

lemma mh_map_0 [simp]: "mh_map tbl off ns 0 = None"
  by (simp add: mh_map_def)

lemma mh_map_None:
  assumes "mh_wf tbl off ns" "k \<noteq> 0"
  shows "mh_map tbl off ns k = None \<longleftrightarrow> mh_find tbl off ns k = None"
  using assms(2) by (simp add: mh_map_def)

lemma mh_free_Some:
  assumes "mh_wf tbl off ns" "mh_free tbl off ns k = Some p"
  shows "p < length ns" "key (ns ! p) = 0" "p \<in> set (mh_slots tbl off k)"
  using assms first_at_Some [of "keyed 0" ns "mh_slots tbl off k" p] slots_less
  by (auto simp: mh_free_def keyed_def mh_wf_def)

text \<open>Two tables that hold the same nodes hold the same map.\<close>

lemma mh_map_eqI:
  assumes "mh_wf tbl off ns'"
    "\<And>k v. k \<noteq> 0 \<Longrightarrow> (\<exists>p < length ns'. ns' ! p = \<lparr>key = k, val = v\<rparr>) \<longleftrightarrow> m k = Some v"
    "m 0 = None"
  shows "mh_map tbl off ns' = m"
proof
  fix k show "mh_map tbl off ns' k = m k"
  proof (cases "k = 0")
    case False
    then have "mh_map tbl off ns' k = Some v \<longleftrightarrow> m k = Some v" for v
      using mh_map_iff [OF assms(1) False] assms(2) by simp
    then show ?thesis by (metis option.exhaust)
  qed (simp add: assms(3))
qed

lemma count_update:
  assumes "p < length ns"
  shows "mh_count (ns[p := n]) + (if key (ns ! p) \<noteq> 0 then 1 else 0)
    = mh_count ns + (if key n \<noteq> 0 then 1 else 0)"
proof -
  have "ns = take p ns @ ns ! p # drop (Suc p) ns" using assms by (rule id_take_nth_drop)
  then have "mh_count ns = mh_count (take p ns @ ns ! p # drop (Suc p) ns)" by (rule arg_cong)
  also have "\<dots> = mh_count (take p ns) + (if key (ns ! p) \<noteq> 0 then 1 else 0) + mh_count (drop (Suc p) ns)"
    by (simp add: mh_count_def)
  finally have "mh_count ns = mh_count (take p ns) + (if key (ns ! p) \<noteq> 0 then 1 else 0) + mh_count (drop (Suc p) ns)" .
  moreover have "mh_count (ns[p := n]) = mh_count (take p ns) + (if key n \<noteq> 0 then 1 else 0) + mh_count (drop (Suc p) ns)"
    unfolding mh_count_def upd_conv_take_nth_drop [OF assms] by simp
  ultimately show ?thesis by simp
qed

lemma count_le: "mh_count ns \<le> length ns"
  by (simp add: mh_count_def)

section \<open>Writing a cell\<close>

lemma mh_insert:
  assumes wf: "mh_wf tbl off ns" and k: "k \<noteq> 0" and new: "mh_find tbl off ns k = None"
    and p: "mh_free tbl off ns k = Some p"
  shows "mh_wf tbl off (ns[p := \<lparr>key = k, val = v\<rparr>])"
    "mh_map tbl off (ns[p := \<lparr>key = k, val = v\<rparr>]) = (mh_map tbl off ns)(k \<mapsto> v)"
    "mh_count (ns[p := \<lparr>key = k, val = v\<rparr>]) = Suc (mh_count ns)"
proof -
  let ?ns = "ns[p := \<lparr>key = k, val = v\<rparr>]"
  note fr = mh_free_Some [OF wf p]
  have nk: "\<forall>q < length ns. key (ns ! q) \<noteq> k" using mh_find_None [OF wf k] new by simp
  show w: "mh_wf tbl off ?ns"
    unfolding mh_wf_def
  proof (intro conjI allI impI)
    show "mh_table tbl" "length ?ns = sum_list tbl" using wf by (auto simp: mh_wf_def)
    fix q assume "q < length ?ns" "key (?ns ! q) \<noteq> 0"
    then show "q \<in> set (mh_slots tbl off (key (?ns ! q)))"
      using wf fr(3) by (cases "q = p") (auto simp: mh_wf_def)
  next
    fix q r assume "q < length ?ns" "r < length ?ns" "key (?ns ! q) \<noteq> 0" "key (?ns ! q) = key (?ns ! r)"
    then show "q = r"
      using wf nk by (cases "q = p"; cases "r = p") (auto simp: mh_wf_def)
  qed
  show "mh_map tbl off ?ns = (mh_map tbl off ns)(k \<mapsto> v)"
  proof (rule mh_map_eqI [OF w])
    fix k' v' assume k': "k' \<noteq> (0 :: 64 word)"
    show "(\<exists>q < length ?ns. ?ns ! q = \<lparr>key = k', val = v'\<rparr>) \<longleftrightarrow> ((mh_map tbl off ns)(k \<mapsto> v)) k' = Some v'"
    proof (cases "k' = k")
      case True
      then show ?thesis using fr(1) nk by (auto simp: nth_list_update)
    next
      case False
      then have "(\<exists>q < length ?ns. ?ns ! q = \<lparr>key = k', val = v'\<rparr>) \<longleftrightarrow> (\<exists>q < length ns. ns ! q = \<lparr>key = k', val = v'\<rparr>)"
        using fr k' by (auto simp: nth_list_update) (metis hash_node.select_convs(1))
      then show ?thesis using False mh_map_iff [OF wf k', of v'] by simp
    qed
  qed (use k in simp)
  show "mh_count ?ns = Suc (mh_count ns)" using count_update [OF fr(1)] fr(2) k by simp
qed

lemma mh_overwrite:
  assumes wf: "mh_wf tbl off ns" and k: "k \<noteq> 0" and p: "mh_find tbl off ns k = Some p"
  shows "mh_wf tbl off (ns[p := (ns ! p)\<lparr>val := v\<rparr>])"
    "mh_map tbl off (ns[p := (ns ! p)\<lparr>val := v\<rparr>]) = (mh_map tbl off ns)(k \<mapsto> v)"
    "mh_count (ns[p := (ns ! p)\<lparr>val := v\<rparr>]) = mh_count ns"
proof -
  let ?ns = "ns[p := (ns ! p)\<lparr>val := v\<rparr>]"
  have pk: "p < length ns" "key (ns ! p) = k" using mh_find_iff [OF wf k] p by auto
  have keys: "key (?ns ! q) = key (ns ! q)" if "q < length ns" for q
    using that by (cases "q = p") auto
  show w: "mh_wf tbl off ?ns"
    using wf unfolding mh_wf_def by (simp add: keys)
  show "mh_map tbl off ?ns = (mh_map tbl off ns)(k \<mapsto> v)"
  proof (rule mh_map_eqI [OF w])
    fix k' v' assume k': "k' \<noteq> (0 :: 64 word)"
    show "(\<exists>q < length ?ns. ?ns ! q = \<lparr>key = k', val = v'\<rparr>) \<longleftrightarrow> ((mh_map tbl off ns)(k \<mapsto> v)) k' = Some v'"
    proof (cases "k' = k")
      case True
      have e: "?ns ! p = \<lparr>key = k, val = v\<rparr>" using pk by simp
      have "v' = v" if "q < length ns" "?ns ! q = \<lparr>key = k, val = v'\<rparr>" for q
      proof -
        have "key (ns ! q) = k" using keys [OF that(1)] that(2) by simp
        then have "q = p" using mh_wf_unique [OF wf that(1) pk(1)] pk(2) k by simp
        then show ?thesis using e that(2) by simp
      qed
      then have "(\<exists>q < length ns. ?ns ! q = \<lparr>key = k, val = v'\<rparr>) \<longleftrightarrow> v' = v"
        using e pk(1) by blast
      then show ?thesis using True by auto
    next
      case False
      then have "?ns ! q = \<lparr>key = k', val = v'\<rparr> \<longleftrightarrow> ns ! q = \<lparr>key = k', val = v'\<rparr>" if "q < length ns" for q
        using pk by (cases "q = p") (auto dest: arg_cong [where f = key])
      then have "(\<exists>q < length ?ns. ?ns ! q = \<lparr>key = k', val = v'\<rparr>) \<longleftrightarrow> (\<exists>q < length ns. ns ! q = \<lparr>key = k', val = v'\<rparr>)"
        by auto
      then show ?thesis using False mh_map_iff [OF wf k', of v'] by simp
    qed
  qed (use k in simp)
  show "mh_count ?ns = mh_count ns" using count_update [OF pk(1), of "(ns ! p)\<lparr>val := v\<rparr>"] by simp
qed

lemma mh_delete:
  assumes wf: "mh_wf tbl off ns" and k: "k \<noteq> 0" and p: "mh_find tbl off ns k = Some p"
  shows "mh_wf tbl off (ns[p := (ns ! p)\<lparr>key := 0\<rparr>])"
    "mh_map tbl off (ns[p := (ns ! p)\<lparr>key := 0\<rparr>]) = (mh_map tbl off ns)(k := None)"
    "Suc (mh_count (ns[p := (ns ! p)\<lparr>key := 0\<rparr>])) = mh_count ns"
proof -
  let ?ns = "ns[p := (ns ! p)\<lparr>key := 0\<rparr>]"
  have pk: "p < length ns" "key (ns ! p) = k" using mh_find_iff [OF wf k] p by auto
  have uniq: "q = p" if "q < length ns" "key (ns ! q) = k" for q
    using mh_wf_unique [OF wf that(1) pk(1)] that(2) pk(2) k by simp
  show w: "mh_wf tbl off ?ns"
    unfolding mh_wf_def
  proof (intro conjI allI impI)
    show "mh_table tbl" "length ?ns = sum_list tbl" using wf by (auto simp: mh_wf_def)
    fix q assume "q < length ?ns" "key (?ns ! q) \<noteq> 0"
    then show "q \<in> set (mh_slots tbl off (key (?ns ! q)))"
      using wf pk(1) by (cases "q = p") (auto simp: mh_wf_def)
  next
    fix q r assume "q < length ?ns" "r < length ?ns" "key (?ns ! q) \<noteq> 0" "key (?ns ! q) = key (?ns ! r)"
    then show "q = r"
      using wf pk(1) by (cases "q = p"; cases "r = p") (auto simp: mh_wf_def)
  qed
  show "mh_map tbl off ?ns = (mh_map tbl off ns)(k := None)"
  proof (rule mh_map_eqI [OF w])
    fix k' v' assume k': "k' \<noteq> (0 :: 64 word)"
    have "(\<exists>q < length ?ns. ?ns ! q = \<lparr>key = k', val = v'\<rparr>)
        \<longleftrightarrow> k' \<noteq> k \<and> (\<exists>q < length ns. ns ! q = \<lparr>key = k', val = v'\<rparr>)"
    proof
      assume "\<exists>q < length ?ns. ?ns ! q = \<lparr>key = k', val = v'\<rparr>"
      then obtain q where q: "q < length ns" "?ns ! q = \<lparr>key = k', val = v'\<rparr>" by auto
      then have "q \<noteq> p" using pk(1) k' by (metis hash_node.select_convs(1) hash_node.surjective hash_node.update_convs(1) nth_list_update_eq)
      then have "ns ! q = \<lparr>key = k', val = v'\<rparr>" using q by simp
      then show "k' \<noteq> k \<and> (\<exists>q < length ns. ns ! q = \<lparr>key = k', val = v'\<rparr>)"
        using q(1) \<open>q \<noteq> p\<close> uniq by auto
    next
      assume "k' \<noteq> k \<and> (\<exists>q < length ns. ns ! q = \<lparr>key = k', val = v'\<rparr>)"
      then show "\<exists>q < length ?ns. ?ns ! q = \<lparr>key = k', val = v'\<rparr>"
        using pk(2) by (metis hash_node.select_convs(1) length_list_update nth_list_update_neq)
    qed
    then show "(\<exists>q < length ?ns. ?ns ! q = \<lparr>key = k', val = v'\<rparr>) \<longleftrightarrow> ((mh_map tbl off ns)(k := None)) k' = Some v'"
      using mh_map_iff [OF wf k', of v'] by auto
  qed simp
  show "Suc (mh_count ?ns) = mh_count ns"
    using count_update [OF pk(1), of "(ns ! p)\<lparr>key := 0\<rparr>"] pk(2) k by simp
qed

lemma mh_empty:
  assumes "mh_table tbl"
  shows "mh_wf tbl off (replicate (sum_list tbl) \<lparr>key = 0, val = v\<rparr>)"
    "mh_map tbl off (replicate (sum_list tbl) \<lparr>key = 0, val = v\<rparr>) = Map.empty"
    "mh_count (replicate (sum_list tbl) \<lparr>key = 0, val = v\<rparr>) = 0"
proof -
  show w: "mh_wf tbl off (replicate (sum_list tbl) \<lparr>key = 0, val = v\<rparr>)"
    using assms by (simp add: mh_wf_def)
  show "mh_map tbl off (replicate (sum_list tbl) \<lparr>key = 0, val = v\<rparr>) = Map.empty"
    by (rule mh_map_eqI [OF w]) auto
qed (simp add: mh_count_def)

end
