(* ===== verification/C_Hash_Shm.thy ===== *)
theory C_Hash_Shm
  imports Multi_Hash
begin

text \<open>
  The shared-memory hash table \<open>CHashShm\<close> of example_shm_hashtable2.cpp.  The segment is a
  header and an array of nodes; \<open>lines\<close>, the number of rows, is the template parameter.  The
  operating system's answers to \<open>shmget\<close> and \<open>shmat\<close> are arguments.
\<close>

unbundle bit_operations_syntax

section \<open>Data\<close>

datatype HASH_RETURN_CODE =
    HASHSHM_OK
  | HASHSHM_KEYEXIST
  | HASHSHM_ERROR
  | HASHSHM_NOTFOUND
  | HASHSHM_INSERTERROR
  | HASHSHM_OUTOFMEM
  | HASHSHM_UPDATE_ERROR

definition HASH_STATUS_NORMAL :: "64 word" where "HASH_STATUS_NORMAL = 1"
definition HASH_ENABLE_NONE :: "32 word" where "HASH_ENABLE_NONE = 0"
definition HASH_ENABLE_DETACH :: "32 word" where "HASH_ENABLE_DETACH = 1"
definition MAX_LINES :: nat where "MAX_LINES = 32"
definition FACTOR :: nat where "FACTOR = 5381"

definition PRIMER_TABLE_LEN :: nat where "PRIMER_TABLE_LEN = 64"

definition PRIMER_TABLE :: "nat list" where
  "PRIMER_TABLE =
    [1511, 1523, 1531, 1543, 1549, 1553, 1559, 1567, 1571, 1579, 1583, 1597, 1601, 1607, 1609, 1613,
     1619, 1621, 1627, 1637, 1657, 1663, 1667, 1669, 1693, 1697, 1699, 1709, 1721, 1723, 1733, 1741,
     1747, 1753, 1759, 1777, 1783, 1787, 1789, 1801, 1811, 1823, 1831, 1847, 1861, 1867, 1871, 1873,
     1877, 1879, 1889, 1901, 1907, 1913, 1931, 1933, 1949, 1951, 1973, 1979, 1987, 1993, 1997, 1999]"

record hash_head =
  currentSize :: "64 word"
  status :: "64 word"
  reservered2 :: "64 word"
  reservered3 :: "64 word"

definition sizeof_hash_head :: nat where "sizeof_hash_head = 32"

record 'v shm_image =
  head :: hash_head
  nodes :: "'v hash_node list"

text \<open>\<open>flag\<close> and \<open>lastFound\<close> are \<open>None\<close> until they are first assigned, \<open>mem\<close> while nothing is attached.\<close>

record 'v chs =
  mem :: "'v shm_image option"
  memSize :: "64 word"
  PRIMER_TABLE_TATAL :: "64 word list"
  maxSize :: "64 word"
  lastFound :: "nat option"
  bInitOk :: bool
  flag :: "32 word option"

definition CHashShm :: "nat \<Rightarrow> 'v chs" where
  "CHashShm lines = \<lparr>mem = None, memSize = 0, PRIMER_TABLE_TATAL = replicate lines 0, maxSize = 0,
     lastFound = None, bInitOk = False, flag = None\<rparr>"

section \<open>Initialisation\<close>

text \<open>
  \<open>os\<close>: the segment \<open>shmget\<close> finds for the key, whether one can be created, whether \<open>shmat\<close>
  succeeds.  A fresh segment is cleared before the result of \<open>shmat\<close> is checked.  \<open>z\<close> is
  the value whose bytes are all zero.
\<close>

record 'v shm_os =
  existing :: "'v shm_image option"
  can_create :: bool
  can_attach :: bool

definition zero_head :: hash_head where
  "zero_head = \<lparr>currentSize = 0, status = 0, reservered2 = 0, reservered3 = 0\<rparr>"

definition zero_image :: "'v \<Rightarrow> nat \<Rightarrow> 'v shm_image" where
  "zero_image z n = \<lparr>head = zero_head, nodes = replicate n \<lparr>key = 0, val = z\<rparr>\<rparr>"

definition getShm :: "'v \<Rightarrow> 'v shm_os \<Rightarrow> 'v chs \<Rightarrow> ('v chs \<times> bool) option" where
  "getShm z os s =
     (case existing os of
        None \<Rightarrow>
          if \<not> can_create os then Some (s, False)
          else if \<not> can_attach os then None
          else Some (s\<lparr>mem := Some (zero_image z (unat (maxSize s)))\<rparr>, True)
      | Some img \<Rightarrow>
          if \<not> can_attach os then Some (s\<lparr>mem := None\<rparr>, False)
          else Some (s\<lparr>mem := Some img\<rparr>, True))"

fun init_tables :: "nat list \<Rightarrow> 64 word \<Rightarrow> 64 word list \<Rightarrow> (64 word \<times> 64 word list) option" where
  "init_tables [] mx ptt = Some (mx, ptt)"
| "init_tables (i # is) mx ptt =
     do { m \<leftarrow> rd PRIMER_TABLE i;
          t \<leftarrow> (if i \<noteq> 0 then do { a \<leftarrow> rd ptt (i - 1); b \<leftarrow> rd PRIMER_TABLE (i - 1); Some (a + of_nat b) }
                else Some 0);
          ptt' \<leftarrow> wr ptt i t;
          init_tables is (mx + of_nat m) ptt' }"

definition Init :: "nat \<Rightarrow> nat \<Rightarrow> 'v \<Rightarrow> 'v shm_os \<Rightarrow> 'v chs \<Rightarrow> ('v chs \<times> bool) option" where
  "Init lines node_sz z os s =
     (if lines > PRIMER_TABLE_LEN then Some (s, False)
      else do { (mx, ptt) \<leftarrow> init_tables [0..<lines] 0 (PRIMER_TABLE_TATAL s);
                let s1 = s\<lparr>maxSize := mx, PRIMER_TABLE_TATAL := ptt,
                           memSize := of_nat node_sz * mx + of_nat sizeof_hash_head\<rparr>;
                (s2, ok) \<leftarrow> getShm z os s1;
                if \<not> ok then Some (s2\<lparr>bInitOk := False\<rparr>, False)
                else do { img \<leftarrow> mem s2;
                          Some (s2\<lparr>mem := Some (img\<lparr>head := (head img)\<lparr>currentSize := 0,
                                     status := HASH_STATUS_NORMAL\<rparr>\<rparr>),
                                   flag := Some HASH_ENABLE_NONE, bInitOk := True\<rparr>, True) } })"

definition destroy_chs :: "'v chs \<Rightarrow> 'v chs option" where
  "destroy_chs s =
     do { f \<leftarrow> flag s;
          Some (if f AND HASH_ENABLE_DETACH \<noteq> 0 then s\<lparr>mem := None\<rparr> else s) }"

definition Clear :: "'v \<Rightarrow> 'v chs \<Rightarrow> 'v chs option" where
  "Clear z s =
     do { img \<leftarrow> mem s;
          let n = unat (maxSize s);
          if n \<le> length (nodes img)
          then Some (s\<lparr>mem := Some \<lparr>head = zero_head\<lparr>currentSize := 0\<rparr>,
                         nodes = replicate n \<lparr>key = 0, val = z\<rparr> @ drop n (nodes img)\<rparr>\<rparr>)
          else None }"

section \<open>Access\<close>

definition col :: "nat \<Rightarrow> 64 word \<Rightarrow> nat \<Rightarrow> 64 word option" where
  "col lines k i = do { m \<leftarrow> rd PRIMER_TABLE i; Some ((k + of_nat (lines * FACTOR)) mod of_nat m) }"

text \<open>The outer option is undefined behaviour, the inner one the null pointer.\<close>

definition getPos :: "'v chs \<Rightarrow> nat \<Rightarrow> 64 word \<Rightarrow> nat option option" where
  "getPos s row c =
     do { t \<leftarrow> rd (PRIMER_TABLE_TATAL s) row;
          let pos = t + c;
          Some (if pos \<ge> maxSize s + of_nat sizeof_hash_head then None else Some (unat pos)) }"

definition node_at :: "'v chs \<Rightarrow> nat \<Rightarrow> 'v hash_node option" where
  "node_at s p = do { img \<leftarrow> mem s; rd (nodes img) p }"

definition set_node :: "'v chs \<Rightarrow> nat \<Rightarrow> 'v hash_node \<Rightarrow> 'v chs option" where
  "set_node s p n =
     do { img \<leftarrow> mem s; ns \<leftarrow> wr (nodes img) p n; Some (s\<lparr>mem := Some (img\<lparr>nodes := ns\<rparr>)\<rparr>) }"

definition add_size :: "'v chs \<Rightarrow> 64 word \<Rightarrow> 'v chs option" where
  "add_size s d =
     do { img \<leftarrow> mem s;
          Some (s\<lparr>mem := Some (img\<lparr>head := (head img)\<lparr>currentSize := currentSize (head img) + d\<rparr>\<rparr>)\<rparr>) }"

fun find_rows :: "nat \<Rightarrow> 64 word \<Rightarrow> 'v chs \<Rightarrow> nat list \<Rightarrow> ('v chs \<times> HASH_RETURN_CODE) option" where
  "find_rows lines k s [] = Some (s, HASHSHM_NOTFOUND)"
| "find_rows lines k s (i # is) =
     do { h \<leftarrow> col lines k i;
          pH \<leftarrow> getPos s i h;
          case pH of
            None \<Rightarrow> Some (s, HASHSHM_NOTFOUND)
          | Some p \<Rightarrow>
              do { n \<leftarrow> node_at s p;
                   if key n = k then Some (s\<lparr>lastFound := Some p\<rparr>, HASHSHM_OK)
                   else find_rows lines k s is } }"

definition find :: "nat \<Rightarrow> 64 word \<Rightarrow> 'v chs \<Rightarrow> ('v chs \<times> HASH_RETURN_CODE) option" where
  "find lines k s = find_rows lines k s [0..<lines]"

text \<open>The loop of \<open>Set\<close> and of \<open>Replace\<close> that looks for a free cell.\<close>

fun place_rows :: "nat \<Rightarrow> 64 word \<Rightarrow> 'v \<Rightarrow> 'v chs \<Rightarrow> nat list \<Rightarrow> ('v chs \<times> HASH_RETURN_CODE) option" where
  "place_rows lines k v s [] = Some (s, HASHSHM_ERROR)"
| "place_rows lines k v s (i # is) =
     do { h \<leftarrow> col lines k i;
          pH \<leftarrow> getPos s i h;
          case pH of
            None \<Rightarrow> Some (s, HASHSHM_OUTOFMEM)
          | Some p \<Rightarrow>
              do { n \<leftarrow> node_at s p;
                   if key n = 0
                   then do { s1 \<leftarrow> set_node s p \<lparr>key = k, val = v\<rparr>;
                             s2 \<leftarrow> add_size s1 1;
                             Some (s2, HASHSHM_OK) }
                   else place_rows lines k v s is } }"

definition Set :: "nat \<Rightarrow> 64 word \<Rightarrow> 'v \<Rightarrow> 'v chs \<Rightarrow> ('v chs \<times> HASH_RETURN_CODE) option" where
  "Set lines k v s =
     do { (s1, r) \<leftarrow> find lines k s;
          if r = HASHSHM_OK then Some (s1, HASHSHM_KEYEXIST)
          else place_rows lines k v s1 [0..<lines] }"

text \<open>\<open>Get\<close> assigns the caller's variable, whose old value is \<open>out\<close>, only when the key is found.\<close>

definition Get :: "nat \<Rightarrow> 64 word \<Rightarrow> 'v \<Rightarrow> 'v chs \<Rightarrow> ('v chs \<times> 'v \<times> HASH_RETURN_CODE) option" where
  "Get lines k out s =
     do { (s1, r) \<leftarrow> find lines k s;
          if r \<noteq> HASHSHM_OK then Some (s1, out, HASHSHM_NOTFOUND)
          else do { p \<leftarrow> lastFound s1; n \<leftarrow> node_at s1 p; Some (s1, val n, HASHSHM_OK) } }"

definition Replace :: "nat \<Rightarrow> 64 word \<Rightarrow> 'v \<Rightarrow> 'v chs \<Rightarrow> ('v chs \<times> HASH_RETURN_CODE) option" where
  "Replace lines k v s =
     do { (s1, r) \<leftarrow> find lines k s;
          if r = HASHSHM_OK
          then do { p \<leftarrow> lastFound s1; n \<leftarrow> node_at s1 p;
                    s2 \<leftarrow> set_node s1 p (n\<lparr>val := v\<rparr>); Some (s2, HASHSHM_OK) }
          else place_rows lines k v s1 [0..<lines] }"

definition Remove :: "nat \<Rightarrow> 64 word \<Rightarrow> 'v chs \<Rightarrow> ('v chs \<times> HASH_RETURN_CODE) option" where
  "Remove lines k s =
     do { (s1, r) \<leftarrow> find lines k s;
          if r \<noteq> HASHSHM_OK then Some (s1, HASHSHM_NOTFOUND)
          else do { p \<leftarrow> lastFound s1; n \<leftarrow> node_at s1 p;
                    s2 \<leftarrow> set_node s1 p (n\<lparr>key := 0\<rparr>);
                    s3 \<leftarrow> add_size s2 (- 1);
                    Some (s3, HASHSHM_OK) } }"

text \<open>\<open>callback\<close> gets the key, the value by reference and the client's parameter.\<close>

fun foreach_nodes :: "(64 word \<Rightarrow> 'v \<Rightarrow> 'p \<Rightarrow> 'v \<times> 'p) \<Rightarrow> 'v hash_node list \<Rightarrow> 'p \<Rightarrow> 'v hash_node list \<times> 'p" where
  "foreach_nodes callback [] p = ([], p)"
| "foreach_nodes callback (n # ns) p =
     (if key n \<noteq> 0
      then let (v, p1) = callback (key n) (val n) p; (ns', p2) = foreach_nodes callback ns p1
           in (n\<lparr>val := v\<rparr> # ns', p2)
      else let (ns', p2) = foreach_nodes callback ns p in (n # ns', p2))"

definition Foreach :: "nat \<Rightarrow> (64 word \<Rightarrow> 'v \<Rightarrow> 'p \<Rightarrow> 'v \<times> 'p) \<Rightarrow> 'p \<Rightarrow> 'v chs \<Rightarrow> ('v chs \<times> 'p) option" where
  "Foreach lines callback p s =
     do { a \<leftarrow> rd PRIMER_TABLE (lines - 1);
          b \<leftarrow> rd (PRIMER_TABLE_TATAL s) (lines - 1);
          img \<leftarrow> mem s;
          let n = unat (of_nat a + b);
          if n \<le> length (nodes img)
          then let (ns, p') = foreach_nodes callback (take n (nodes img)) p
               in Some (s\<lparr>mem := Some (img\<lparr>nodes := ns @ drop n (nodes img)\<rparr>)\<rparr>, p')
          else None }"

text \<open>
  A dump file is the image itself: \<open>memSize\<close> bytes of the segment.  \<open>opened\<close> tells whether the
  file could be opened.
\<close>

definition image_bytes :: "nat \<Rightarrow> 'v shm_image \<Rightarrow> nat" where
  "image_bytes node_sz img = sizeof_hash_head + node_sz * length (nodes img)"

definition BinDump :: "bool \<Rightarrow> 'v chs \<Rightarrow> ('v shm_image option \<times> bool) option" where
  "BinDump opened s =
     (if \<not> opened then Some (None, False)
      else do { img \<leftarrow> mem s;
                let n = unat (maxSize s);
                if n \<le> length (nodes img)
                then Some (Some (img\<lparr>nodes := take n (nodes img)\<rparr>), True) else None })"

definition BinRestore :: "nat \<Rightarrow> 'v shm_image option \<Rightarrow> 'v chs \<Rightarrow> ('v chs \<times> bool) option" where
  "BinRestore node_sz file s =
     (case file of
        None \<Rightarrow> Some (s, False)
      | Some f \<Rightarrow>
          if image_bytes node_sz f \<noteq> unat (memSize s) then Some (s, False)
          else do { img \<leftarrow> mem s;
                    if length (nodes f) \<le> length (nodes img)
                    then Some (s\<lparr>mem := Some (f\<lparr>nodes := nodes f @ drop (length (nodes f)) (nodes img)\<rparr>)\<rparr>, True)
                    else None })"

definition GetCurSize :: "'v chs \<Rightarrow> 64 word option" where
  "GetCurSize s = map_option (\<lambda>img. currentSize (head img)) (mem s)"

definition GetSize :: "'v chs \<Rightarrow> 64 word" where
  "GetSize s = maxSize s"

text \<open>The node pointer is not advanced by the counting loop.\<close>

fun count_loop :: "'v chs \<Rightarrow> nat \<Rightarrow> nat \<Rightarrow> int \<Rightarrow> int option" where
  "count_loop s p 0 cnt = Some cnt"
| "count_loop s p (Suc n) cnt =
     do { nd \<leftarrow> node_at s p;
          cnt' \<leftarrow> (if key nd \<noteq> 0 then i32 (cnt + 1) else Some cnt);
          count_loop s p n cnt' }"

definition GetBucketUseSize :: "nat \<Rightarrow> nat \<Rightarrow> 'v chs \<Rightarrow> int option" where
  "GetBucketUseSize lines index s =
     (if index \<ge> lines then Some 0
      else do { m \<leftarrow> rd PRIMER_TABLE index; count_loop s index m 0 })"

definition SetBehavior :: "32 word \<Rightarrow> 'v chs \<Rightarrow> ('v chs \<times> 32 word) option" where
  "SetBehavior iflag s = do { f \<leftarrow> flag s; Some (s\<lparr>flag := Some (f OR iflag)\<rparr>, f OR iflag) }"

definition UnsetBehavior :: "32 word \<Rightarrow> 'v chs \<Rightarrow> ('v chs \<times> 32 word) option" where
  "UnsetBehavior iflag s = do { f \<leftarrow> flag s; Some (s\<lparr>flag := Some (f AND NOT iflag)\<rparr>, f AND NOT iflag) }"

section \<open>The string hash\<close>

text \<open>
  \<open>char\<close> is signed and is sign-extended to \<open>unsigned long\<close>.  The loop without a length stops
  at the terminating 0; the one with a length is unrolled eight times with a fall-through
  switch for the rest.
\<close>

fun time33_cstr :: "8 word list \<Rightarrow> 64 word \<Rightarrow> 64 word option" where
  "time33_cstr [] h = None"
| "time33_cstr (c # cs) h = (if c = 0 then Some h else time33_cstr cs (h * 33 + scast c))"

definition TIME33_HASH_MIXED_CH :: "8 word list \<times> 64 word \<Rightarrow> (8 word list \<times> 64 word) option" where
  "TIME33_HASH_MIXED_CH st =
     (case st of ([], h) \<Rightarrow> None | (c # cs, h) \<Rightarrow> Some (cs, (push_bit 5 h + h) + scast c))"

fun time33_blocks :: "nat \<Rightarrow> 8 word list \<times> 64 word \<Rightarrow> (nat \<times> 8 word list \<times> 64 word) option" where
  "time33_blocks n st =
     (if 8 \<le> n
      then do { st \<leftarrow> TIME33_HASH_MIXED_CH st; st \<leftarrow> TIME33_HASH_MIXED_CH st;
                st \<leftarrow> TIME33_HASH_MIXED_CH st; st \<leftarrow> TIME33_HASH_MIXED_CH st;
                st \<leftarrow> TIME33_HASH_MIXED_CH st; st \<leftarrow> TIME33_HASH_MIXED_CH st;
                st \<leftarrow> TIME33_HASH_MIXED_CH st; st \<leftarrow> TIME33_HASH_MIXED_CH st;
                time33_blocks (n - 8) st }
      else Some (n, st))"

declare time33_blocks.simps [simp del]

definition time33_switch :: "nat \<Rightarrow> 8 word list \<times> 64 word \<Rightarrow> (8 word list \<times> 64 word) option" where
  "time33_switch n st =
     do { st \<leftarrow> (if n = 7 then TIME33_HASH_MIXED_CH st else Some st);
          st \<leftarrow> (if n = 7 \<or> n = 6 then TIME33_HASH_MIXED_CH st else Some st);
          st \<leftarrow> (if n = 7 \<or> n = 6 \<or> n = 5 then TIME33_HASH_MIXED_CH st else Some st);
          st \<leftarrow> (if n = 7 \<or> n = 6 \<or> n = 5 \<or> n = 4 then TIME33_HASH_MIXED_CH st else Some st);
          st \<leftarrow> (if n = 7 \<or> n = 6 \<or> n = 5 \<or> n = 4 \<or> n = 3 then TIME33_HASH_MIXED_CH st else Some st);
          st \<leftarrow> (if n = 7 \<or> n = 6 \<or> n = 5 \<or> n = 4 \<or> n = 3 \<or> n = 2 then TIME33_HASH_MIXED_CH st else Some st);
          (if n = 7 \<or> n = 6 \<or> n = 5 \<or> n = 4 \<or> n = 3 \<or> n = 2 \<or> n = 1 then TIME33_HASH_MIXED_CH st
           else Some st) }"

definition hash_time33 :: "8 word list \<Rightarrow> int \<Rightarrow> 64 word option" where
  "hash_time33 str len =
     (if len < 0 then time33_cstr str 5381
      else do { (n, st) \<leftarrow> time33_blocks (nat len) (str, 5381);
                st' \<leftarrow> time33_switch n st;
                Some (snd st') })"

text \<open>The overloads with a character array; those with a \<open>std::string\<close> pass its data and size.\<close>

definition Set_str :: "nat \<Rightarrow> 8 word list \<Rightarrow> int \<Rightarrow> 'v \<Rightarrow> 'v chs \<Rightarrow> ('v chs \<times> HASH_RETURN_CODE) option" where
  "Set_str lines skey len v s = do { h \<leftarrow> hash_time33 skey len; Set lines h v s }"

definition Get_str :: "nat \<Rightarrow> 8 word list \<Rightarrow> int \<Rightarrow> 'v \<Rightarrow> 'v chs \<Rightarrow> ('v chs \<times> 'v \<times> HASH_RETURN_CODE) option" where
  "Get_str lines skey len out s = do { h \<leftarrow> hash_time33 skey len; Get lines h out s }"

definition Replace_str :: "nat \<Rightarrow> 8 word list \<Rightarrow> int \<Rightarrow> 'v \<Rightarrow> 'v chs \<Rightarrow> ('v chs \<times> HASH_RETURN_CODE) option" where
  "Replace_str lines skey len v s = do { h \<leftarrow> hash_time33 skey len; Replace lines h v s }"

definition Remove_str :: "nat \<Rightarrow> 8 word list \<Rightarrow> int \<Rightarrow> 'v chs \<Rightarrow> ('v chs \<times> HASH_RETURN_CODE) option" where
  "Remove_str lines skey len s = do { h \<leftarrow> hash_time33 skey len; Remove lines h s }"

section \<open>The table as a map\<close>

definition chs_tbl :: "nat \<Rightarrow> nat list" where
  "chs_tbl lines = take lines PRIMER_TABLE"

definition chs_off :: "nat \<Rightarrow> 64 word" where
  "chs_off lines = of_nat (lines * FACTOR)"

definition chs_nodes :: "'v chs \<Rightarrow> 'v hash_node list" where
  "chs_nodes s = (case mem s of Some img \<Rightarrow> nodes img | None \<Rightarrow> [])"

definition chs_geometry :: "nat \<Rightarrow> 'v chs \<Rightarrow> bool" where
  "chs_geometry lines s \<longleftrightarrow> lines \<le> PRIMER_TABLE_LEN \<and> mem s \<noteq> None
     \<and> length (PRIMER_TABLE_TATAL s) = lines
     \<and> (\<forall>i < lines. PRIMER_TABLE_TATAL s ! i = of_nat (sum_list (take i (chs_tbl lines))))
     \<and> maxSize s = of_nat (sum_list (chs_tbl lines))
     \<and> length (chs_nodes s) = sum_list (chs_tbl lines)"

definition chs_valid :: "nat \<Rightarrow> 'v chs \<Rightarrow> bool" where
  "chs_valid lines s \<longleftrightarrow> chs_geometry lines s \<and> mh_wf (chs_tbl lines) (chs_off lines) (chs_nodes s)
     \<and> GetCurSize s = Some (of_nat (mh_count (chs_nodes s)))"

definition chs_map :: "nat \<Rightarrow> 'v chs \<Rightarrow> (64 word \<rightharpoonup> 'v)" where
  "chs_map lines s = mh_map (chs_tbl lines) (chs_off lines) (chs_nodes s)"

definition chs_room :: "nat \<Rightarrow> 'v chs \<Rightarrow> 64 word \<Rightarrow> bool" where
  "chs_room lines s k \<longleftrightarrow> (\<exists>p \<in> set (mh_slots (chs_tbl lines) (chs_off lines) k). key (chs_nodes s ! p) = 0)"

lemma PRIMER_TABLE_facts:
  "length PRIMER_TABLE = 64" "list_all (\<lambda>m. 0 < m \<and> m < 2 ^ 11) PRIMER_TABLE"
  by (simp_all add: PRIMER_TABLE_def)

lemma chs_tbl_bounds: "i < length (chs_tbl lines) \<Longrightarrow> 0 < chs_tbl lines ! i \<and> chs_tbl lines ! i < 2 ^ 11"
  using PRIMER_TABLE_facts(2) by (simp add: chs_tbl_def list_all_length)

lemma chs_table: "mh_table (chs_tbl lines)"
  unfolding mh_table_def list_all_length
proof (intro allI impI)
  fix i assume "i < length (chs_tbl lines)"
  then have "0 < chs_tbl lines ! i" "chs_tbl lines ! i < 2 ^ 11" using chs_tbl_bounds by blast+
  moreover have "(2::nat) ^ 11 < 2 ^ 64" by simp
  ultimately show "0 < chs_tbl lines ! i \<and> chs_tbl lines ! i < 2 ^ 64" by linarith
qed

lemma sum_take_bound:
  "(\<And>i. i < length t \<Longrightarrow> t ! i \<le> b) \<Longrightarrow> sum_list t \<le> b * length t" for t :: "nat list"
proof (induction t)
  case (Cons a t)
  have "a \<le> b" using Cons.prems [of 0] by simp
  moreover have "sum_list t \<le> b * length t"
    using Cons.prems [of "Suc _"] by (intro Cons.IH) simp
  ultimately show ?case by simp
qed simp

lemma chs_sum: "sum_list (chs_tbl lines) < 2 ^ 18"
proof -
  have "sum_list (chs_tbl lines) \<le> (2 ^ 11 - 1) * length (chs_tbl lines)"
    using chs_tbl_bounds by (intro sum_take_bound) fastforce
  moreover have "length (chs_tbl lines) \<le> 64"
    using PRIMER_TABLE_facts(1) by (simp add: chs_tbl_def)
  ultimately show ?thesis by simp
qed

lemma chs_geometry_row:
  assumes g: "chs_geometry lines s" and i: "i < lines"
  shows "\<exists>h. col lines k i = Some h
    \<and> getPos s i h = Some (Some (mh_slot (chs_tbl lines) (chs_off lines) i k))"
    "node_at s (mh_slot (chs_tbl lines) (chs_off lines) i k)
      = Some (chs_nodes s ! mh_slot (chs_tbl lines) (chs_off lines) i k)"
proof -
  let ?t = "chs_tbl lines" and ?h = "(k + chs_off lines) mod of_nat (chs_tbl lines ! i)"
  have lines: "lines \<le> 64" using g by (simp add: chs_geometry_def PRIMER_TABLE_LEN_def)
  then have len: "length ?t = lines" using PRIMER_TABLE_facts(1) by (simp add: chs_tbl_def)
  have i': "i < length ?t" using i len by simp
  have pt: "rd PRIMER_TABLE i = Some (?t ! i)"
    using i lines PRIMER_TABLE_facts(1) by (simp add: chs_tbl_def)
  have sl: "mh_slot ?t (chs_off lines) i k < sum_list ?t" by (rule slot_less [OF chs_table i'])
  have bnd: "sum_list ?t < 2 ^ 18" by (rule chs_sum)
  have "sum_list (take i ?t) \<le> sum_list ?t"
    using sum_take_mono [of i "length ?t" ?t] i' by simp
  then have ua: "unat (of_nat (sum_list (take i ?t)) :: 64 word) = sum_list (take i ?t)"
    using bnd by (simp add: unat_of_nat)
  have up: "unat (of_nat (sum_list (take i ?t)) + ?h) = mh_slot ?t (chs_off lines) i k"
    using sl bnd by (subst unat_word_ariths(1)) (simp add: ua mh_slot_def)
  have um: "unat (of_nat (sum_list ?t) + of_nat sizeof_hash_head :: 64 word) = sum_list ?t + 32"
    using bnd by (subst unat_word_ariths(1)) (simp add: unat_of_nat sizeof_hash_head_def)
  have "\<not> maxSize s + of_nat sizeof_hash_head \<le> of_nat (sum_list (take i ?t)) + ?h"
    using g sl unfolding word_le_nat_alt up by (simp add: chs_geometry_def um)
  moreover have "rd (PRIMER_TABLE_TATAL s) i = Some (of_nat (sum_list (take i ?t)))"
    using g i by (simp add: chs_geometry_def)
  ultimately have "getPos s i ?h = Some (Some (mh_slot ?t (chs_off lines) i k))"
    by (simp add: getPos_def Let_def up)
  moreover have "col lines k i = Some ?h" by (simp add: col_def pt chs_off_def)
  ultimately show "\<exists>h. col lines k i = Some h \<and> getPos s i h = Some (Some (mh_slot ?t (chs_off lines) i k))"
    by blast
  obtain img where "mem s = Some img" using g by (auto simp: chs_geometry_def)
  then show "node_at s (mh_slot ?t (chs_off lines) i k) = Some (chs_nodes s ! mh_slot ?t (chs_off lines) i k)"
    using g sl by (simp add: node_at_def chs_nodes_def chs_geometry_def)
qed

lemma find_rows_first:
  assumes g: "chs_geometry lines s" and r: "\<forall>i \<in> set is. i < lines"
  shows "find_rows lines k s is =
    Some (case first_at (keyed k) (chs_nodes s) (map (\<lambda>i. mh_slot (chs_tbl lines) (chs_off lines) i k) is) of
        None \<Rightarrow> (s, HASHSHM_NOTFOUND) | Some p \<Rightarrow> (s\<lparr>lastFound := Some p\<rparr>, HASHSHM_OK))"
  using r
proof (induction "is")
  case (Cons i "is")
  then obtain h where "col lines k i = Some h"
    "getPos s i h = Some (Some (mh_slot (chs_tbl lines) (chs_off lines) i k))"
    using chs_geometry_row(1) [OF g, of i k] by auto
  then show ?case using Cons chs_geometry_row(2) [OF g, of i k] by (simp add: keyed_def)
qed simp

lemma place_rows_first:
  assumes g: "chs_geometry lines s" and r: "\<forall>i \<in> set is. i < lines"
  shows "place_rows lines k v s is =
    (case first_at (keyed 0) (chs_nodes s) (map (\<lambda>i. mh_slot (chs_tbl lines) (chs_off lines) i k) is) of
        None \<Rightarrow> Some (s, HASHSHM_ERROR)
      | Some p \<Rightarrow> do { s1 \<leftarrow> set_node s p \<lparr>key = k, val = v\<rparr>; s2 \<leftarrow> add_size s1 1; Some (s2, HASHSHM_OK) })"
  using r
proof (induction "is")
  case (Cons i "is")
  then obtain h where "col lines k i = Some h"
    "getPos s i h = Some (Some (mh_slot (chs_tbl lines) (chs_off lines) i k))"
    using chs_geometry_row(1) [OF g, of i k] by auto
  then show ?case using Cons chs_geometry_row(2) [OF g, of i k] by (simp add: keyed_def)
qed simp

lemma chs_lines: "chs_geometry lines s \<Longrightarrow> length (chs_tbl lines) = lines"
  using PRIMER_TABLE_facts(1) by (simp add: chs_geometry_def chs_tbl_def PRIMER_TABLE_LEN_def)

lemma find_mh:
  assumes g: "chs_geometry lines s"
  shows "find lines k s = Some (case mh_find (chs_tbl lines) (chs_off lines) (chs_nodes s) k of
      None \<Rightarrow> (s, HASHSHM_NOTFOUND) | Some p \<Rightarrow> (s\<lparr>lastFound := Some p\<rparr>, HASHSHM_OK))"
  using find_rows_first [OF g, of "[0..<lines]" k]
  by (simp add: find_def mh_find_def mh_slots_def chs_lines [OF g])

lemma place_mh:
  assumes g: "chs_geometry lines s"
  shows "place_rows lines k v s [0..<lines] =
    (case mh_free (chs_tbl lines) (chs_off lines) (chs_nodes s) k of
        None \<Rightarrow> Some (s, HASHSHM_ERROR)
      | Some p \<Rightarrow> do { s1 \<leftarrow> set_node s p \<lparr>key = k, val = v\<rparr>; s2 \<leftarrow> add_size s1 1; Some (s2, HASHSHM_OK) })"
  using place_rows_first [OF g, of "[0..<lines]" k v]
  by (simp add: mh_free_def mh_slots_def chs_lines [OF g])

text \<open>The effect of an access on the nodes and on the size.\<close>

lemma set_node_nodes:
  assumes "chs_geometry lines s" "p < length (chs_nodes s)"
  shows "\<exists>s'. set_node s p n = Some s' \<and> chs_geometry lines s' \<and> chs_nodes s' = (chs_nodes s)[p := n]
    \<and> GetCurSize s' = GetCurSize s \<and> lastFound s' = lastFound s"
  using assms by (auto simp: set_node_def chs_geometry_def chs_nodes_def GetCurSize_def)

lemma add_size_nodes:
  assumes "chs_geometry lines s" "GetCurSize s = Some c"
  shows "\<exists>s'. add_size s d = Some s' \<and> chs_geometry lines s' \<and> chs_nodes s' = chs_nodes s
    \<and> GetCurSize s' = Some (c + d)"
  using assms by (auto simp: add_size_def chs_geometry_def chs_nodes_def GetCurSize_def)

lemma chs_lastFound [simp]:
  "chs_geometry lines (s\<lparr>lastFound := f\<rparr>) = chs_geometry lines s"
  "chs_nodes (s\<lparr>lastFound := f\<rparr>) = chs_nodes s" "GetCurSize (s\<lparr>lastFound := f\<rparr>) = GetCurSize s"
  "chs_valid lines (s\<lparr>lastFound := f\<rparr>) = chs_valid lines s"
  "chs_map lines (s\<lparr>lastFound := f\<rparr>) = chs_map lines s"
  by (auto simp: chs_geometry_def chs_nodes_def GetCurSize_def chs_valid_def chs_map_def)

lemma place_spec:
  assumes s: "chs_valid lines s" and k: "k \<noteq> 0" and new: "chs_map lines s k = None"
  shows "\<exists>s' r. place_rows lines k v s [0..<lines] = Some (s', r) \<and> chs_valid lines s'
    \<and> (r = HASHSHM_OK \<or> r = HASHSHM_ERROR)
    \<and> (r = HASHSHM_OK \<longleftrightarrow> chs_room lines s k)
    \<and> chs_map lines s' = (if r = HASHSHM_OK then (chs_map lines s)(k \<mapsto> v) else chs_map lines s)"
proof -
  let ?t = "chs_tbl lines" and ?o = "chs_off lines"
  have g: "chs_geometry lines s" and wf: "mh_wf ?t ?o (chs_nodes s)"
    and c: "GetCurSize s = Some (of_nat (mh_count (chs_nodes s)))" using s by (auto simp: chs_valid_def)
  have nf: "mh_find ?t ?o (chs_nodes s) k = None"
    using new mh_map_None [OF wf k] by (simp add: chs_map_def)
  show ?thesis
  proof (cases "mh_free ?t ?o (chs_nodes s) k")
    case None
    then have "place_rows lines k v s [0..<lines] = Some (s, HASHSHM_ERROR)"
      using place_mh [OF g, of k v] by simp
    moreover have "\<forall>p \<in> set (mh_slots ?t ?o k). key (chs_nodes s ! p) \<noteq> 0"
      using None by (simp add: mh_free_def first_at_None keyed_def)
    ultimately show ?thesis using s by (auto simp: chs_room_def)
  next
    case (Some p)
    note fr = mh_free_Some [OF wf Some]
    obtain s1 where s1: "set_node s p \<lparr>key = k, val = v\<rparr> = Some s1" "chs_geometry lines s1"
      "chs_nodes s1 = (chs_nodes s)[p := \<lparr>key = k, val = v\<rparr>]" "GetCurSize s1 = GetCurSize s"
      using set_node_nodes [OF g fr(1)] by blast
    obtain s2 where s2: "add_size s1 1 = Some s2" "chs_geometry lines s2" "chs_nodes s2 = chs_nodes s1"
      "GetCurSize s2 = Some (of_nat (mh_count (chs_nodes s)) + 1)"
      using add_size_nodes [OF s1(2), of _ 1] s1(4) c by auto
    have "chs_valid lines s2"
      using s2 s1 mh_insert [OF wf k nf Some, of v] by (simp add: chs_valid_def)
    moreover have "chs_map lines s2 = (chs_map lines s)(k \<mapsto> v)"
      using s2(3) s1(3) mh_insert(2) [OF wf k nf Some, of v] by (simp add: chs_map_def)
    moreover have "chs_room lines s k" using fr by (auto simp: chs_room_def)
    ultimately show ?thesis using place_mh [OF g, of k v] Some s1(1) s2(1) by auto
  qed
qed

text \<open>Each operation on a valid table, for the keys other than 0.\<close>

lemma find_spec:
  assumes s: "chs_valid lines s" and k: "k \<noteq> 0"
  obtains "chs_map lines s k = None" "find lines k s = Some (s, HASHSHM_NOTFOUND)"
    | p where "p < length (chs_nodes s)" "key (chs_nodes s ! p) = k"
      "mh_find (chs_tbl lines) (chs_off lines) (chs_nodes s) k = Some p"
      "chs_map lines s k = Some (val (chs_nodes s ! p))"
      "find lines k s = Some (s\<lparr>lastFound := Some p\<rparr>, HASHSHM_OK)"
      "\<And>t. chs_geometry lines t \<Longrightarrow> chs_nodes t = chs_nodes s \<Longrightarrow> node_at t p = Some (chs_nodes s ! p)"
proof -
  have g: "chs_geometry lines s" and wf: "mh_wf (chs_tbl lines) (chs_off lines) (chs_nodes s)"
    using s by (auto simp: chs_valid_def)
  show thesis
  proof (cases "mh_find (chs_tbl lines) (chs_off lines) (chs_nodes s) k")
    case None
    then show thesis using that(1) find_mh [OF g, of k] by (simp add: chs_map_def mh_map_def)
  next
    case (Some p)
    have p: "p < length (chs_nodes s)" "key (chs_nodes s ! p) = k"
      using mh_find_iff [OF wf k] Some by auto
    have "node_at t p = Some (chs_nodes s ! p)" if "chs_geometry lines t" "chs_nodes t = chs_nodes s" for t
      using that p(1) by (auto simp: node_at_def chs_geometry_def chs_nodes_def)
    then show thesis
      using that(2) [OF p Some] find_mh [OF g, of k] Some k by (simp add: chs_map_def mh_map_def)
  qed
qed

lemma Get_spec:
  assumes s: "chs_valid lines s" and k: "k \<noteq> 0"
  shows "\<exists>s'. Get lines k out s = Some (s', (case chs_map lines s k of None \<Rightarrow> out | Some v \<Rightarrow> v),
      (if chs_map lines s k = None then HASHSHM_NOTFOUND else HASHSHM_OK))
    \<and> chs_valid lines s' \<and> chs_map lines s' = chs_map lines s"
  using s k
proof (cases rule: find_spec)
  case 1
  then show ?thesis using s by (simp add: Get_def)
next
  case (2 p)
  have "node_at (s\<lparr>lastFound := Some p\<rparr>) p = Some (chs_nodes s ! p)"
    using s by (intro 2(6)) (simp_all add: chs_valid_def)
  then show ?thesis using 2 s by (simp add: Get_def)
qed

lemma Set_spec:
  assumes s: "chs_valid lines s" and k: "k \<noteq> 0"
  shows "\<exists>s' r. Set lines k v s = Some (s', r) \<and> chs_valid lines s'
    \<and> (if chs_map lines s k \<noteq> None then r = HASHSHM_KEYEXIST
       else if chs_room lines s k
       then r = HASHSHM_OK else r = HASHSHM_ERROR)
    \<and> chs_map lines s' = (if r = HASHSHM_OK then (chs_map lines s)(k \<mapsto> v) else chs_map lines s)"
  using s k
proof (cases rule: find_spec)
  case 1
  obtain s' r where "place_rows lines k v s [0..<lines] = Some (s', r)" "chs_valid lines s'"
    "r = HASHSHM_OK \<or> r = HASHSHM_ERROR" "r = HASHSHM_OK \<longleftrightarrow> chs_room lines s k"
    "chs_map lines s' = (if r = HASHSHM_OK then (chs_map lines s)(k \<mapsto> v) else chs_map lines s)"
    using place_spec [OF s k 1(1), of v] by blast
  then show ?thesis using 1 by (intro exI [of _ s'] exI [of _ r]) (auto simp: Set_def)
next
  case (2 p)
  then show ?thesis using s by (simp add: Set_def)
qed

lemma Replace_spec:
  assumes s: "chs_valid lines s" and k: "k \<noteq> 0"
  shows "\<exists>s' r. Replace lines k v s = Some (s', r) \<and> chs_valid lines s'
    \<and> (if chs_map lines s k \<noteq> None \<or> chs_room lines s k
       then r = HASHSHM_OK else r = HASHSHM_ERROR)
    \<and> chs_map lines s' = (if r = HASHSHM_OK then (chs_map lines s)(k \<mapsto> v) else chs_map lines s)"
  using s k
proof (cases rule: find_spec)
  case 1
  obtain s' r where "place_rows lines k v s [0..<lines] = Some (s', r)" "chs_valid lines s'"
    "r = HASHSHM_OK \<or> r = HASHSHM_ERROR" "r = HASHSHM_OK \<longleftrightarrow> chs_room lines s k"
    "chs_map lines s' = (if r = HASHSHM_OK then (chs_map lines s)(k \<mapsto> v) else chs_map lines s)"
    using place_spec [OF s k 1(1), of v] by blast
  then show ?thesis using 1 by (intro exI [of _ s'] exI [of _ r]) (auto simp: Replace_def)
next
  case (2 p)
  let ?s1 = "s\<lparr>lastFound := Some p\<rparr>" and ?n = "(chs_nodes s ! p)\<lparr>val := v\<rparr>"
  have g: "chs_geometry lines ?s1" and wf: "mh_wf (chs_tbl lines) (chs_off lines) (chs_nodes s)"
    and c: "GetCurSize s = Some (of_nat (mh_count (chs_nodes s)))" using s by (auto simp: chs_valid_def)
  have n: "node_at ?s1 p = Some (chs_nodes s ! p)" using g by (intro 2(6)) simp_all
  obtain s2 where s2: "set_node ?s1 p ?n = Some s2" "chs_geometry lines s2"
    "chs_nodes s2 = (chs_nodes s)[p := ?n]" "GetCurSize s2 = GetCurSize s"
    using set_node_nodes [OF g, of p ?n] 2(1) by auto
  note ow = mh_overwrite [OF wf k 2(3), of v]
  have "chs_valid lines s2" using s2 ow c by (simp add: chs_valid_def)
  moreover have "chs_map lines s2 = (chs_map lines s)(k \<mapsto> v)" using s2(3) ow(2) by (simp add: chs_map_def)
  ultimately show ?thesis using 2 n s2(1) by (simp add: Replace_def)
qed

lemma Remove_spec:
  assumes s: "chs_valid lines s" and k: "k \<noteq> 0"
  shows "\<exists>s'. Remove lines k s = Some (s', if chs_map lines s k = None then HASHSHM_NOTFOUND else HASHSHM_OK)
    \<and> chs_valid lines s' \<and> chs_map lines s' = (chs_map lines s)(k := None)"
  using s k
proof (cases rule: find_spec)
  case 1
  then show ?thesis using s by (auto simp: Remove_def)
next
  case (2 p)
  let ?s1 = "s\<lparr>lastFound := Some p\<rparr>" and ?n = "(chs_nodes s ! p)\<lparr>key := 0\<rparr>"
  have g: "chs_geometry lines ?s1" and wf: "mh_wf (chs_tbl lines) (chs_off lines) (chs_nodes s)"
    and c: "GetCurSize s = Some (of_nat (mh_count (chs_nodes s)))" using s by (auto simp: chs_valid_def)
  have n: "node_at ?s1 p = Some (chs_nodes s ! p)" using g by (intro 2(6)) simp_all
  obtain s2 where s2: "set_node ?s1 p ?n = Some s2" "chs_geometry lines s2"
    "chs_nodes s2 = (chs_nodes s)[p := ?n]" "GetCurSize s2 = GetCurSize s"
    using set_node_nodes [OF g, of p ?n] 2(1) by auto
  obtain s3 where s3: "add_size s2 (- 1) = Some s3" "chs_geometry lines s3" "chs_nodes s3 = chs_nodes s2"
    "GetCurSize s3 = Some (of_nat (mh_count (chs_nodes s)) + - 1)"
    using add_size_nodes [OF s2(2), of _ "- 1"] s2(4) c by auto
  note de = mh_delete [OF wf k 2(3)]
  have "(of_nat (mh_count (chs_nodes s)) :: 64 word) = of_nat (mh_count ((chs_nodes s)[p := ?n])) + 1"
    using de(3) by (metis add.commute of_nat_Suc)
  then have "chs_valid lines s3" using s3 s2(3) de(1) by (simp add: chs_valid_def)
  moreover have "chs_map lines s3 = (chs_map lines s)(k := None)" using s3(3) s2(3) de(2) by (simp add: chs_map_def)
  ultimately show ?thesis using 2 n s2(1) s3(1) by (simp add: Remove_def)
qed

text \<open>The table provides the interface of a replacing store.\<close>

definition chs_get :: "nat \<Rightarrow> 'v \<Rightarrow> 'v chs \<Rightarrow> 64 word \<Rightarrow> ('v chs \<times> 'v option) option" where
  "chs_get lines out s k =
     map_option (\<lambda>(s', v, r). (s', if r = HASHSHM_OK then Some v else None)) (Get lines k out s)"

definition chs_ins :: "nat \<Rightarrow> 'v chs \<Rightarrow> 64 word \<Rightarrow> 'v \<Rightarrow> ('v chs \<times> ins_reply) option" where
  "chs_ins lines s k v =
     map_option (\<lambda>(s', r). (s', if r = HASHSHM_OK then Inserted else if r = HASHSHM_KEYEXIST then Exists else Full))
       (Set lines k v s)"

definition chs_rem :: "nat \<Rightarrow> 'v chs \<Rightarrow> 64 word \<Rightarrow> ('v chs \<times> bool) option" where
  "chs_rem lines s k = map_option (\<lambda>(s', r). (s', r = HASHSHM_OK)) (Remove lines k s)"

definition chs_repl :: "nat \<Rightarrow> 'v chs \<Rightarrow> 64 word \<Rightarrow> 'v \<Rightarrow> ('v chs \<times> bool) option" where
  "chs_repl lines s k v = map_option (\<lambda>(s', r). (s', r = HASHSHM_OK)) (Replace lines k v s)"

interpretation chs: replacing_store "chs_get lines out" "chs_ins lines" "chs_rem lines"
  "chs_map lines" "chs_valid lines" "\<lambda>k. k \<noteq> 0" "chs_repl lines"
  for lines :: nat and out :: 'v
proof
  fix s :: "'v chs" and k :: "64 word" and v :: 'v
  assume s: "chs_valid lines s" "k \<noteq> 0"
  show "\<exists>s'. chs_get lines out s k = Some (s', chs_map lines s k) \<and> chs_valid lines s' \<and> chs_map lines s' = chs_map lines s"
    using Get_spec [OF s, of out] by (auto simp: chs_get_def split: option.splits)
  obtain s1 r1 where r1: "Set lines k v s = Some (s1, r1)" "chs_valid lines s1"
    "if chs_map lines s k \<noteq> None then r1 = HASHSHM_KEYEXIST
     else if chs_room lines s k then r1 = HASHSHM_OK else r1 = HASHSHM_ERROR"
    "chs_map lines s1 = (if r1 = HASHSHM_OK then (chs_map lines s)(k \<mapsto> v) else chs_map lines s)"
    using Set_spec [OF s, of v] by blast
  let ?r = "if r1 = HASHSHM_OK then Inserted else if r1 = HASHSHM_KEYEXIST then Exists else Full"
  show "\<exists>s' r. chs_ins lines s k v = Some (s', r) \<and> chs_valid lines s'
      \<and> (if chs_map lines s k = None then r = Inserted \<or> r = Full else r = Exists)
      \<and> chs_map lines s' = (if r = Inserted then (chs_map lines s)(k \<mapsto> v) else chs_map lines s)"
    using r1 by (intro exI [of _ s1] exI [of _ ?r]) (auto simp: chs_ins_def split: if_splits)
  show "\<exists>s'. chs_rem lines s k = Some (s', chs_map lines s k \<noteq> None) \<and> chs_valid lines s'
      \<and> chs_map lines s' = (chs_map lines s)(k := None)"
    using Remove_spec [OF s] by (auto simp: chs_rem_def)
  show "\<exists>s' r. chs_repl lines s k v = Some (s', r) \<and> chs_valid lines s' \<and> (chs_map lines s k \<noteq> None \<longrightarrow> r)
      \<and> chs_map lines s' = (if r then (chs_map lines s)(k \<mapsto> v) else chs_map lines s)"
    using Replace_spec [OF s, of v] by (auto simp: chs_repl_def split: if_splits)
qed

section \<open>The string hash against its definition\<close>

definition time33_ref :: "8 word list \<Rightarrow> 64 word \<Rightarrow> 64 word" where
  "time33_ref cs h = foldl (\<lambda>h c. h * 33 + scast c) h cs"

definition time33_at :: "8 word list \<Rightarrow> 64 word \<Rightarrow> nat \<Rightarrow> 8 word list \<times> 64 word" where
  "time33_at str h j = (drop j str, time33_ref (take j str) h)"

lemma mixed_step:
  assumes "j < length str"
  shows "TIME33_HASH_MIXED_CH (time33_at str h j) = Some (time33_at str h (Suc j))"
proof -
  have "drop j str = str ! j # drop (Suc j) str" using assms by (simp add: Cons_nth_drop_Suc)
  moreover have "push_bit 5 x + x = x * 33" for x :: "64 word" by (simp add: push_bit_eq_mult)
  ultimately show ?thesis using assms
    by (simp add: TIME33_HASH_MIXED_CH_def time33_at_def time33_ref_def take_Suc_conv_app_nth)
qed

lemma blocks_at:
  "j + n \<le> length str \<Longrightarrow>
   time33_blocks n (time33_at str h j) = Some (n mod 8, time33_at str h (j + (n - n mod 8)))"
proof (induction n arbitrary: j rule: less_induct)
  case (less n)
  show ?case
  proof (cases "8 \<le> n")
    case True
    have "time33_blocks n (time33_at str h j) = time33_blocks (n - 8) (time33_at str h (j + 8))"
      using True less.prems by (subst time33_blocks.simps) (simp add: mixed_step eval_nat_numeral)
    also have "\<dots> = Some ((n - 8) mod 8, time33_at str h (j + 8 + (n - 8 - (n - 8) mod 8)))"
      using True less.prems by (intro less.IH) auto
    also have "(n - 8) mod 8 = n mod 8" using True by (simp add: le_mod_geq)
    also have "j + 8 + (n - 8 - n mod 8) = j + (n - n mod 8)"
      using True less.prems by (metis (no_types, lifting) Nat.add_diff_assoc add.assoc add.commute diff_le_mono2
        diff_right_commute le_add_diff_inverse mod_less_eq_dividend \<open>(n - 8) mod 8 = n mod 8\<close>)
    finally show ?thesis .
  qed (simp add: time33_blocks.simps)
qed

lemma switch_at:
  assumes "n < 8" "j + n \<le> length str"
  shows "time33_switch n (time33_at str h j) = Some (time33_at str h (j + n))"
proof -
  have "n \<in> {0, 1, 2, 3, 4, 5, 6, 7}" using assms(1) by auto
  then show ?thesis using assms(2)
    by (auto simp: time33_switch_def mixed_step eval_nat_numeral)
qed

lemma cstr_ref:
  "0 \<notin> set cs \<Longrightarrow> time33_cstr (cs @ 0 # rest) h = Some (time33_ref cs h)"
  by (induction cs arbitrary: h) (auto simp: time33_ref_def)

text \<open>
  The unrolled \<open>hash_time33\<close> reads exactly \<open>len\<close> characters and computes the plain
  \<open>hash * 33 + c\<close> recurrence on 64-bit words, for every length; with a negative length it hashes
  the characters before the terminating 0.
\<close>

theorem hash_time33_reference:
  "(\<forall>n \<le> length str. hash_time33 str (int n) = Some (time33_ref (take n str) 5381))
   \<and> (0 \<notin> set str \<longrightarrow> len < 0 \<longrightarrow> hash_time33 (str @ 0 # rest) len = Some (time33_ref str 5381))"
proof (intro conjI allI impI)
  fix n assume n: "n \<le> length str"
  have z: "(str, 5381) = time33_at str 5381 0" by (simp add: time33_at_def time33_ref_def)
  have "n - n mod 8 + n mod 8 = n" by simp
  then have "time33_switch (n mod 8) (time33_at str 5381 (n - n mod 8)) = Some (time33_at str 5381 n)"
    using switch_at [of "n mod 8" "n - n mod 8" str 5381] n by simp
  then show "hash_time33 str (int n) = Some (time33_ref (take n str) 5381)"
    using blocks_at [of 0 n str 5381] n by (simp add: hash_time33_def z) (simp add: time33_at_def)
qed (simp add: hash_time33_def cstr_ref)

lemma hash_time33_reference_witness:
  "hash_time33 [97, 98, 99] (int 3) = Some (time33_ref (take 3 [97, 98, 99]) 5381)"
  using hash_time33_reference [of "[97, 98, 99]" 0 "[]", THEN conjunct1, THEN spec, of 3] by simp

section \<open>Creating, attaching, dumping and restoring\<close>

lemma init_tables_spec:
  assumes "i \<le> lines" "lines \<le> PRIMER_TABLE_LEN" "length ptt = lines"
    "\<forall>j < i. ptt ! j = of_nat (sum_list (take j (chs_tbl lines)))" "mx = of_nat (sum_list (take i (chs_tbl lines)))"
  shows "\<exists>ptt'. init_tables [i..<lines] mx ptt = Some (of_nat (sum_list (chs_tbl lines)), ptt')
    \<and> length ptt' = lines \<and> (\<forall>j < lines. ptt' ! j = of_nat (sum_list (take j (chs_tbl lines))))"
  using assms
proof (induction "lines - i" arbitrary: i mx ptt)
  case 0
  have "take i (chs_tbl lines) = chs_tbl lines" using 0 by (simp add: chs_tbl_def)
  then show ?case using 0 by simp
next
  case (Suc d)
  let ?S = "\<lambda>j. of_nat (sum_list (take j (chs_tbl lines))) :: 64 word"
  have i: "i < lines" "[i..<lines] = i # [Suc i..<lines]" using Suc.hyps(2) by (auto simp: upt_conv_Cons)
  have len: "length (chs_tbl lines) = lines"
    using Suc.prems(2) PRIMER_TABLE_facts(1) by (simp add: chs_tbl_def PRIMER_TABLE_LEN_def)
  have pt: "rd PRIMER_TABLE j = Some (chs_tbl lines ! j)" if "j < lines" for j
    using that Suc.prems(2) PRIMER_TABLE_facts(1) by (simp add: chs_tbl_def PRIMER_TABLE_LEN_def)
  have S: "?S (Suc j) = ?S j + of_nat (chs_tbl lines ! j)" if "j < lines" for j
    using that len by (simp add: sum_take_Suc)
  have t: "(if i \<noteq> 0 then do { a \<leftarrow> rd ptt (i - 1); b \<leftarrow> rd PRIMER_TABLE (i - 1); Some (a + of_nat b) } else Some 0)
      = Some (?S i)"
    using Suc.prems(3,4) i(1) pt [of "i - 1"] S [of "i - 1"] by (cases i) simp_all
  have "\<exists>ptt'. init_tables [Suc i..<lines] (mx + of_nat (chs_tbl lines ! i)) (ptt[i := ?S i])
      = Some (of_nat (sum_list (chs_tbl lines)), ptt')
    \<and> length ptt' = lines \<and> (\<forall>j < lines. ptt' ! j = ?S j)"
    using Suc.hyps(2) Suc.prems i(1) S [OF i(1)]
    by (intro Suc.hyps(1)) (auto simp: nth_list_update less_Suc_eq)
  then show ?case using i pt [OF i(1)] t Suc.prems(3) by simp
qed

lemma init_tables_from_0:
  assumes "lines \<le> PRIMER_TABLE_LEN" "length ptt = lines"
  obtains ptt' where "init_tables [0..<lines] 0 ptt = Some (of_nat (sum_list (chs_tbl lines)), ptt')"
    "length ptt' = lines" "\<forall>j < lines. ptt' ! j = of_nat (sum_list (take j (chs_tbl lines)))"
  using init_tables_spec [of 0 lines ptt 0] assms by auto

lemma Init_fresh:
  assumes "lines \<le> PRIMER_TABLE_LEN" "length (PRIMER_TABLE_TATAL s) = lines"
    "existing os = None" "can_create os" "can_attach os"
  shows "\<exists>s'. Init lines node_sz z os s = Some (s', True) \<and> chs_valid lines s' \<and> chs_map lines s' = Map.empty
    \<and> memSize s' = of_nat node_sz * of_nat (sum_list (chs_tbl lines)) + 32
    \<and> chs_nodes s' = replicate (sum_list (chs_tbl lines)) \<lparr>key = 0, val = z\<rparr>"
proof -
  obtain ptt where p: "init_tables [0..<lines] 0 (PRIMER_TABLE_TATAL s) = Some (of_nat (sum_list (chs_tbl lines)), ptt)"
    "length ptt = lines" "\<forall>j < lines. ptt ! j = of_nat (sum_list (take j (chs_tbl lines)))"
    using init_tables_from_0 [OF assms(1,2)] .
  have u: "unat (of_nat (sum_list (chs_tbl lines)) :: 64 word) = sum_list (chs_tbl lines)"
    using chs_sum [of lines] by (simp add: unat_of_nat)
  show ?thesis
    using assms p mh_empty(1,2) [OF chs_table [of lines], of "chs_off lines" z] mh_empty(3) [OF chs_table [of lines], of z]
    by (simp add: Init_def getShm_def zero_image_def chs_valid_def chs_geometry_def chs_nodes_def chs_map_def
        GetCurSize_def u sizeof_hash_head_def)
qed

lemma Init_existing:
  assumes s: "chs_valid lines s" "mem s = Some img" and t: "length (PRIMER_TABLE_TATAL t) = lines"
    and os: "existing os = Some img" "can_attach os"
  shows "\<exists>t'. Init lines node_sz z os t = Some (t', True) \<and> chs_map lines t' = chs_map lines s
    \<and> chs_geometry lines t' \<and> GetCurSize t' = Some 0"
proof -
  have l: "lines \<le> PRIMER_TABLE_LEN" using s by (simp add: chs_valid_def chs_geometry_def)
  obtain ptt where p: "init_tables [0..<lines] 0 (PRIMER_TABLE_TATAL t) = Some (of_nat (sum_list (chs_tbl lines)), ptt)"
    "length ptt = lines" "\<forall>j < lines. ptt ! j = of_nat (sum_list (take j (chs_tbl lines)))"
    using init_tables_from_0 [OF l t] .
  show ?thesis
    using l p os s
    by (simp add: Init_def getShm_def chs_map_def chs_nodes_def chs_geometry_def GetCurSize_def chs_valid_def)
qed

lemma Clear_spec:
  assumes s: "chs_geometry lines s"
  shows "\<exists>s'. Clear z s = Some s' \<and> chs_valid lines s' \<and> chs_map lines s' = Map.empty"
proof -
  have u: "unat (of_nat (sum_list (chs_tbl lines)) :: 64 word) = sum_list (chs_tbl lines)"
    using chs_sum [of lines] by (simp add: unat_of_nat)
  show ?thesis
    using s mh_empty(1,2) [OF chs_table [of lines], of "chs_off lines" z] mh_empty(3) [OF chs_table [of lines], of z]
    by (auto simp: Clear_def chs_valid_def chs_geometry_def chs_nodes_def chs_map_def GetCurSize_def u zero_head_def)
qed

definition sized :: "nat \<Rightarrow> nat \<Rightarrow> 'v chs \<Rightarrow> bool" where
  "sized lines node_sz s \<longleftrightarrow> node_sz < 2 ^ 40 \<and> memSize s = of_nat (node_sz * sum_list (chs_tbl lines) + sizeof_hash_head)"

lemma sized_bytes:
  assumes "sized lines node_sz s"
  shows "unat (memSize s) = sizeof_hash_head + node_sz * sum_list (chs_tbl lines)"
proof -
  have "node_sz * sum_list (chs_tbl lines) \<le> 2 ^ 40 * 2 ^ 18"
    using assms chs_sum [of lines] by (intro mult_le_mono) (auto simp: sized_def)
  then have "node_sz * sum_list (chs_tbl lines) + sizeof_hash_head < 2 ^ 64"
    by (simp add: sizeof_hash_head_def)
  then have "unat (of_nat (node_sz * sum_list (chs_tbl lines) + sizeof_hash_head) :: 64 word)
      = node_sz * sum_list (chs_tbl lines) + sizeof_hash_head" by (subst unat_of_nat) (simp del: of_nat_add of_nat_mult)
  then show ?thesis using assms by (simp add: sized_def)
qed

lemma dump_restore:
  assumes s: "chs_valid lines s" and t: "chs_valid lines t" "sized lines node_sz t"
  shows "\<exists>file t'. BinDump True s = Some (file, True) \<and> BinRestore node_sz file t = Some (t', True)
    \<and> chs_valid lines t' \<and> chs_map lines t' = chs_map lines s \<and> GetCurSize t' = GetCurSize s"
proof -
  have u: "unat (of_nat (sum_list (chs_tbl lines)) :: 64 word) = sum_list (chs_tbl lines)"
    using chs_sum [of lines] by (simp add: unat_of_nat)
  obtain img where img: "mem s = Some img" "length (nodes img) = sum_list (chs_tbl lines)" "maxSize s = of_nat (sum_list (chs_tbl lines))"
    using s by (auto simp: chs_valid_def chs_geometry_def chs_nodes_def)
  obtain img' where img': "mem t = Some img'" "length (nodes img') = sum_list (chs_tbl lines)"
    using t(1) by (auto simp: chs_valid_def chs_geometry_def chs_nodes_def)
  have d: "BinDump True s = Some (Some img, True)"
    using img by (simp add: BinDump_def u)
  have r: "BinRestore node_sz (Some img) t = Some (t\<lparr>mem := Some img\<rparr>, True)"
    using img img' sized_bytes [OF t(2)] by (simp add: BinRestore_def image_bytes_def)
  have "chs_geometry lines (t\<lparr>mem := Some img\<rparr>)"
    using t(1) img(2) by (simp add: chs_valid_def chs_geometry_def chs_nodes_def)
  then show ?thesis
    using s img(1) d r by (auto simp: chs_valid_def chs_nodes_def chs_map_def GetCurSize_def)
qed

section \<open>Traversal\<close>

definition live :: "'v hash_node list \<Rightarrow> (64 word \<times> 'v) list" where
  "live ns = map (\<lambda>n. (key n, val n)) (filter (\<lambda>n. key n \<noteq> 0) ns)"

definition visit :: "(64 word \<Rightarrow> 'v \<Rightarrow> 'v) \<Rightarrow> 64 word \<Rightarrow> 'v \<Rightarrow> (64 word \<times> 'v) list \<Rightarrow> 'v \<times> (64 word \<times> 'v) list" where
  "visit f k v p = (f k v, p @ [(k, v)])"

lemma foreach_visit:
  "foreach_nodes (visit f) ns p =
    (map (\<lambda>n. if key n \<noteq> 0 then n\<lparr>val := f (key n) (val n)\<rparr> else n) ns, p @ live ns)"
  by (induction ns arbitrary: p) (simp_all add: visit_def live_def)

lemma live_set:
  assumes "mh_wf tbl off ns"
  shows "set (live ns) = {(k, v). mh_map tbl off ns k = Some v}"
proof -
  have "(k, v) \<in> set (live ns) \<longleftrightarrow> mh_map tbl off ns k = Some v" for k v
  proof (cases "k = 0")
    case False
    have "(k, v) \<in> set (live ns) \<longleftrightarrow> (\<exists>n \<in> set ns. n = \<lparr>key = k, val = v\<rparr>)"
      using False by (auto simp: live_def image_iff intro: bexI [of _ "\<lparr>key = k, val = v\<rparr>"])
    also have "\<dots> \<longleftrightarrow> (\<exists>p < length ns. ns ! p = \<lparr>key = k, val = v\<rparr>)"
      by (auto simp: in_set_conv_nth)
    finally show ?thesis using mh_map_iff [OF assms False] by simp
  qed (auto simp: live_def)
  then show ?thesis by auto
qed

lemma distinct_live_keys:
  "(\<And>p q. p < length ns \<Longrightarrow> q < length ns \<Longrightarrow> key (ns ! p) \<noteq> 0 \<Longrightarrow> key (ns ! p) = key (ns ! q) \<Longrightarrow> p = q)
   \<Longrightarrow> distinct (map fst (live ns))"
proof (induction ns)
  case (Cons n ns)
  have "distinct (map fst (live ns))"
  proof (rule Cons.IH)
    fix p q assume "p < length ns" "q < length ns" "key (ns ! p) \<noteq> 0" "key (ns ! p) = key (ns ! q)"
    then show "p = q" using Cons.prems [of "Suc p" "Suc q"] by simp
  qed
  moreover have "key n \<noteq> key m" if m: "m \<in> set ns" "key n \<noteq> 0" for m
  proof -
    obtain q where "q < length ns" "ns ! q = m" using m(1) by (auto simp: in_set_conv_nth)
    then show ?thesis using Cons.prems [of 0 "Suc q"] m(2) by auto
  qed
  ultimately show ?case by (auto simp: live_def)
qed (simp add: live_def)

lemma foreach_wf:
  fixes f :: "64 word \<Rightarrow> 'v \<Rightarrow> 'v" and ns :: "'v hash_node list"
  assumes wf: "mh_wf tbl off ns"
  defines "ns' \<equiv> map (\<lambda>n. if key n \<noteq> 0 then n\<lparr>val := f (key n) (val n)\<rparr> else n) ns"
  shows "mh_wf tbl off ns'" "mh_map tbl off ns' k = map_option (f k) (mh_map tbl off ns k)"
    "mh_count ns' = mh_count ns"
proof -
  have keys: "key (ns' ! p) = key (ns ! p)" if "p < length ns" for p
    using that by (simp add: ns'_def)
  have len: "length ns' = length ns" by (simp add: ns'_def)
  show w: "mh_wf tbl off ns'"
    using wf keys len unfolding mh_wf_def by (metis (no_types, lifting))
  show "mh_count ns' = mh_count ns"
    unfolding ns'_def mh_count_def by (induction ns) auto
  show "mh_map tbl off ns' k = map_option (f k) (mh_map tbl off ns k)"
  proof (cases "k = 0")
    case False
    have "mh_find tbl off ns' k = mh_find tbl off ns k"
    proof (cases "mh_find tbl off ns k")
      case None
      then show ?thesis using mh_find_None [OF wf False] mh_find_None [OF w False] keys len by simp
    next
      case (Some p)
      then show ?thesis using mh_find_iff [OF wf False, of p] mh_find_iff [OF w False, of p] keys len by simp
    qed
    moreover have "val (ns' ! p) = f k (val (ns ! p))" if "mh_find tbl off ns k = Some p" for p
      using that mh_find_iff [OF wf False, of p] False by (auto simp: ns'_def)
    ultimately show ?thesis using False by (cases "mh_find tbl off ns k") (simp_all add: mh_map_def)
  qed simp
qed

lemma Foreach_spec:
  assumes s: "chs_valid lines s" and l: "0 < lines"
  shows "\<exists>s' visited. Foreach lines (visit f) [] s = Some (s', visited) \<and> chs_valid lines s'
    \<and> (\<forall>k. chs_map lines s' k = map_option (f k) (chs_map lines s k))
    \<and> distinct (map fst visited) \<and> set visited = {(k, v). chs_map lines s k = Some v}"
proof -
  have g: "chs_geometry lines s" and wf: "mh_wf (chs_tbl lines) (chs_off lines) (chs_nodes s)"
    using s by (auto simp: chs_valid_def)
  have len: "length (chs_tbl lines) = lines" by (rule chs_lines [OF g])
  have t: "rd PRIMER_TABLE (lines - 1) = Some (chs_tbl lines ! (lines - 1))"
    using l g PRIMER_TABLE_facts(1) by (subst rd_Some) (auto simp: chs_geometry_def chs_tbl_def PRIMER_TABLE_LEN_def)
  have p: "rd (PRIMER_TABLE_TATAL s) (lines - 1) = Some (of_nat (sum_list (take (lines - 1) (chs_tbl lines))))"
    using l g by (simp add: chs_geometry_def)
  have "sum_list (chs_tbl lines) = sum_list (take (Suc (lines - 1)) (chs_tbl lines))" using l len by simp
  also have "\<dots> = sum_list (take (lines - 1) (chs_tbl lines)) + chs_tbl lines ! (lines - 1)"
    using l len by (intro sum_take_Suc) simp
  finally have "(of_nat (chs_tbl lines ! (lines - 1)) + of_nat (sum_list (take (lines - 1) (chs_tbl lines))) :: 64 word)
      = of_nat (sum_list (chs_tbl lines))" by simp
  then have u: "unat (of_nat (chs_tbl lines ! (lines - 1)) + of_nat (sum_list (take (lines - 1) (chs_tbl lines))) :: 64 word)
      = sum_list (chs_tbl lines)" using chs_sum [of lines] by (simp add: unat_of_nat)
  obtain img where img: "mem s = Some img" "nodes img = chs_nodes s" "length (chs_nodes s) = sum_list (chs_tbl lines)"
    using g by (auto simp: chs_geometry_def chs_nodes_def)
  define ns' where "ns' = map (\<lambda>n. if key n \<noteq> 0 then n\<lparr>val := f (key n) (val n)\<rparr> else n) (chs_nodes s)"
  let ?s' = "s\<lparr>mem := Some (img\<lparr>nodes := ns'\<rparr>)\<rparr>"
  have F: "Foreach lines (visit f) [] s = Some (?s', live (chs_nodes s))"
    using t p img u [unfolded One_nat_def] by (simp add: Foreach_def Let_def foreach_visit ns'_def)
  have n: "chs_nodes ?s' = ns'" by (simp add: chs_nodes_def)
  note fw = foreach_wf [OF wf, of f, folded ns'_def]
  have "chs_geometry lines ?s'" using g n img by (simp add: chs_geometry_def ns'_def)
  then have "chs_valid lines ?s'" using s fw n img by (simp add: chs_valid_def GetCurSize_def)
  moreover have "distinct (map fst (live (chs_nodes s)))"
    using mh_wf_unique [OF wf] by (intro distinct_live_keys) blast
  ultimately show ?thesis using F fw(2) n live_set [OF wf] by (auto simp: chs_map_def)
qed

section \<open>Properties\<close>

lemma chs_size:
  assumes s: "chs_valid lines s"
  shows "GetCurSize s = Some (of_nat (card (dom (chs_map lines s))))"
proof -
  have wf: "mh_wf (chs_tbl lines) (chs_off lines) (chs_nodes s)" using s by (simp add: chs_valid_def)
  have "dom (chs_map lines s) = fst ` set (live (chs_nodes s))"
    using live_set [OF wf] by (force simp: chs_map_def)
  moreover have "distinct (map fst (live (chs_nodes s)))"
    using mh_wf_unique [OF wf] by (intro distinct_live_keys) blast
  ultimately have "card (dom (chs_map lines s)) = length (live (chs_nodes s))"
    by (metis distinct_card length_map set_map)
  then show ?thesis using s by (simp add: chs_valid_def live_def mh_count_def)
qed

text \<open>
  C6: On a freshly created segment, every sequence of \<open>Get\<close>, \<open>Set\<close> and \<open>Remove\<close> on keys other
  than 0 stays inside the segment and answers as a map does: \<open>Get\<close> returns the stored value or
  not-found, \<open>Set\<close> refuses a present key and otherwise stores the value or reports a full
  table, \<open>Remove\<close> tells whether the key was there; and \<open>GetCurSize\<close> is the number of keys.
\<close>

theorem chs_refines_map:
  assumes "lines \<le> PRIMER_TABLE_LEN" "existing os = None" "can_create os" "can_attach os"
    and "list_all (\<lambda>p. kv_key p \<noteq> 0) ops"
  shows "\<exists>s0 s rs. Init lines node_sz z os (CHashShm lines) = Some (s0, True)
    \<and> kv_run (chs_get lines out) (chs_ins lines) (chs_rem lines) s0 ops = Some (s, rs)
    \<and> kv_conforms Map.empty ops rs (chs_map lines s)
    \<and> GetCurSize s = Some (of_nat (card (dom (chs_map lines s))))"
proof -
  obtain s0 where s0: "Init lines node_sz z os (CHashShm lines) = Some (s0, True)" "chs_valid lines s0"
    "chs_map lines s0 = Map.empty"
    using Init_fresh [of lines "CHashShm lines" os node_sz z] assms(1-4) by (auto simp: CHashShm_def)
  obtain s rs where "kv_run (chs_get lines out) (chs_ins lines) (chs_rem lines) s0 ops = Some (s, rs)"
    "chs_valid lines s" "kv_conforms (chs_map lines s0) ops rs (chs_map lines s)"
    using chs.run_conforms [OF s0(2) assms(5), of out] by blast
  then show ?thesis using s0 chs_size [of lines s] by auto
qed

definition fresh_os :: "'v shm_os" where
  "fresh_os = \<lparr>existing = None, can_create = True, can_attach = True\<rparr>"

lemma chs_refines_map_witness:
  "\<exists>s0 s rs. Init MAX_LINES 16 0 fresh_os (CHashShm MAX_LINES) = Some (s0, True)
    \<and> kv_run (chs_get MAX_LINES 0) (chs_ins MAX_LINES) (chs_rem MAX_LINES) s0
        [KInsert 7 (1::nat), KInsert 7 2, KGet 7, KRemove 7, KGet 7] = Some (s, rs)
    \<and> kv_conforms Map.empty [KInsert 7 1, KInsert 7 2, KGet 7, KRemove 7, KGet 7] rs (chs_map MAX_LINES s)
    \<and> GetCurSize s = Some (of_nat (card (dom (chs_map MAX_LINES s))))"
  by (rule chs_refines_map) (simp_all add: fresh_os_def MAX_LINES_def PRIMER_TABLE_LEN_def)

text \<open>
  C18: \<open>Set\<close> on a valid table stores a new key exactly when one of the key's cells, one per row,
  is free, and reports an error otherwise; no other key is touched.
\<close>

theorem chs_set_exact:
  assumes "chs_valid lines s" "k \<noteq> 0" "chs_map lines s k = None"
  shows "\<exists>s'. Set lines k v s = Some (s', if chs_room lines s k then HASHSHM_OK else HASHSHM_ERROR)
    \<and> chs_valid lines s' \<and> chs_map lines s' = (if chs_room lines s k then (chs_map lines s)(k \<mapsto> v) else chs_map lines s)"
proof -
  obtain s' r where "Set lines k v s = Some (s', r)" "chs_valid lines s'"
    "if chs_map lines s k \<noteq> None then r = HASHSHM_KEYEXIST
     else if chs_room lines s k then r = HASHSHM_OK else r = HASHSHM_ERROR"
    "chs_map lines s' = (if r = HASHSHM_OK then (chs_map lines s)(k \<mapsto> v) else chs_map lines s)"
    using Set_spec [OF assms(1,2), of v] by blast
  then show ?thesis using assms(3) by (intro exI [of _ s']) (auto split: if_splits)
qed

definition blank_chs :: "nat chs" where
  "blank_chs = fst (the (Init MAX_LINES 16 0 fresh_os (CHashShm MAX_LINES)))"

definition one_chs :: "nat chs" where
  "one_chs = fst (the (Set MAX_LINES 5 9 blank_chs))"

lemma blank_chs_facts:
  "chs_valid MAX_LINES blank_chs" "chs_map MAX_LINES blank_chs = Map.empty"
  "memSize blank_chs = of_nat (16 * sum_list (chs_tbl MAX_LINES) + sizeof_hash_head)"
  "chs_room MAX_LINES blank_chs 5"
proof -
  obtain s' where s': "Init MAX_LINES 16 0 fresh_os (CHashShm MAX_LINES) = Some (s' :: nat chs, True)"
    "chs_valid MAX_LINES s'" "chs_map MAX_LINES s' = Map.empty"
    "memSize s' = of_nat 16 * of_nat (sum_list (chs_tbl MAX_LINES)) + 32"
    "chs_nodes s' = replicate (sum_list (chs_tbl MAX_LINES)) \<lparr>key = 0, val = 0\<rparr>"
    using Init_fresh [of MAX_LINES "CHashShm MAX_LINES" fresh_os 16 "0::nat"]
    by (auto simp: fresh_os_def CHashShm_def MAX_LINES_def PRIMER_TABLE_LEN_def)
  then have b: "blank_chs = s'" by (simp add: blank_chs_def)
  show "chs_valid MAX_LINES blank_chs" "chs_map MAX_LINES blank_chs = Map.empty"
    "memSize blank_chs = of_nat (16 * sum_list (chs_tbl MAX_LINES) + sizeof_hash_head)"
    using s' by (simp_all add: b sizeof_hash_head_def)
  have "length (chs_tbl MAX_LINES) = MAX_LINES"
    using s'(2) by (auto simp: chs_valid_def intro: chs_lines)
  then have i: "0 < length (chs_tbl MAX_LINES)" by (simp add: MAX_LINES_def)
  let ?p = "mh_slot (chs_tbl MAX_LINES) (chs_off MAX_LINES) 0 5"
  have "?p \<in> set (mh_slots (chs_tbl MAX_LINES) (chs_off MAX_LINES) 5)"
    using i by (auto simp: mh_slots_def)
  moreover have "key (chs_nodes blank_chs ! ?p) = 0"
    using slot_less [OF chs_table i, of "chs_off MAX_LINES" 5] by (simp add: b s'(5))
  ultimately show "chs_room MAX_LINES blank_chs 5" unfolding chs_room_def by blast
qed

lemma one_chs_facts:
  "chs_valid MAX_LINES one_chs" "chs_map MAX_LINES one_chs = [5 \<mapsto> 9]"
  using Set_spec [OF blank_chs_facts(1), of 5 9] blank_chs_facts(2,4) by (auto simp: one_chs_def)

lemma chs_set_exact_witness:
  "\<exists>s'. Set MAX_LINES 5 9 blank_chs
      = Some (s', if chs_room MAX_LINES blank_chs 5 then HASHSHM_OK else HASHSHM_ERROR)
    \<and> chs_valid MAX_LINES s' \<and> chs_map MAX_LINES s'
        = (if chs_room MAX_LINES blank_chs 5 then (chs_map MAX_LINES blank_chs)(5 \<mapsto> 9)
           else chs_map MAX_LINES blank_chs)"
  by (rule chs_set_exact) (simp_all add: blank_chs_facts)

text \<open>
  \<open>Foreach\<close> calls back exactly once for every stored key, with its value, and what the
  callback assigns to the value is what the table stores afterwards.
\<close>

theorem chs_foreach_each_once:
  assumes "chs_valid lines s" "0 < lines"
  shows "\<exists>s' visited. Foreach lines (visit f) [] s = Some (s', visited) \<and> chs_valid lines s'
    \<and> (\<forall>k. chs_map lines s' k = map_option (f k) (chs_map lines s k))
    \<and> distinct (map fst visited) \<and> set visited = {(k, v). chs_map lines s k = Some v}"
  by (rule Foreach_spec [OF assms])

lemma chs_foreach_each_once_witness:
  "\<exists>s' visited. Foreach MAX_LINES (visit (\<lambda>k v. v + 1)) [] one_chs = Some (s', visited)
    \<and> chs_valid MAX_LINES s'
    \<and> (\<forall>k. chs_map MAX_LINES s' k = map_option (\<lambda>v. v + 1) (chs_map MAX_LINES one_chs k))
    \<and> distinct (map fst visited) \<and> set visited = {(k, v). chs_map MAX_LINES one_chs k = Some v}"
  by (rule chs_foreach_each_once [OF one_chs_facts(1)]) (simp add: MAX_LINES_def)

text \<open>
  C35: A dump written by one valid table and restored into another of the same shape makes the
  other hold the same map and the same size, whatever it held before.
\<close>

theorem chs_dump_restore:
  assumes "chs_valid lines s" "chs_valid lines t" "sized lines node_sz t"
  shows "\<exists>file t'. BinDump True s = Some (file, True) \<and> BinRestore node_sz file t = Some (t', True)
    \<and> chs_valid lines t' \<and> chs_map lines t' = chs_map lines s \<and> GetCurSize t' = GetCurSize s"
  by (rule dump_restore [OF assms])

lemma chs_dump_restore_witness:
  "\<exists>file t'. BinDump True one_chs = Some (file, True)
    \<and> BinRestore 16 file blank_chs = Some (t', True)
    \<and> chs_valid MAX_LINES t' \<and> chs_map MAX_LINES t' = chs_map MAX_LINES one_chs
    \<and> GetCurSize t' = GetCurSize one_chs"
  by (rule chs_dump_restore) (simp_all add: blank_chs_facts one_chs_facts sized_def)

text \<open>
  Attaching to the segment of a valid table finds its entries, but \<open>Init\<close> resets the stored
  size to 0, so \<open>GetCurSize\<close> disagrees with the number of keys unless the table was empty.
\<close>

theorem chs_attach_resets_size:
  assumes "chs_valid lines s" "mem s = Some img" "existing os = Some img" "can_attach os"
  shows "\<exists>t. Init lines node_sz z os (CHashShm lines) = Some (t, True) \<and> chs_map lines t = chs_map lines s
    \<and> GetCurSize t = Some 0"
  using Init_existing [OF assms(1,2), of "CHashShm lines" os node_sz z] assms(3,4) by (auto simp: CHashShm_def)

lemma chs_attach_resets_size_witness:
  "\<exists>t. Init MAX_LINES 16 0 \<lparr>existing = mem one_chs, can_create = True, can_attach = True\<rparr>
      (CHashShm MAX_LINES) = Some (t, True)
    \<and> chs_map MAX_LINES t = chs_map MAX_LINES one_chs \<and> GetCurSize t = Some 0"
proof -
  have v: "chs_valid MAX_LINES one_chs"
    by (rule one_chs_facts)
  then obtain img where "mem one_chs = Some img" by (auto simp: chs_valid_def chs_geometry_def)
  then show ?thesis using v by (intro chs_attach_resets_size) auto
qed

text \<open>\<open>GetBucketUseSize\<close> looks at one node only, node \<open>index\<close> of the whole table.\<close>

lemma count_loop_const:
  "node_at s p = Some nd \<Longrightarrow> 0 \<le> c \<Longrightarrow> c + int n < 2 ^ 31 \<Longrightarrow>
   count_loop s p n c = Some (if key nd \<noteq> 0 then c + int n else c)"
  by (induction n arbitrary: c) auto

lemma bucket_use_size_one_node:
  assumes g: "chs_geometry lines s" and i: "index < lines"
  shows "GetBucketUseSize lines index s
    = Some (if key (chs_nodes s ! index) \<noteq> 0 then int (chs_tbl lines ! index) else 0)"
proof -
  have len: "length (chs_tbl lines) = lines" by (rule chs_lines [OF g])
  have m: "rd PRIMER_TABLE index = Some (chs_tbl lines ! index)"
    using i g PRIMER_TABLE_facts(1) by (subst rd_Some) (auto simp: chs_geometry_def chs_tbl_def PRIMER_TABLE_LEN_def)
  have b: "chs_tbl lines ! index < 2 ^ 11" using chs_tbl_bounds [of index lines] i len by simp
  have "lines \<le> sum_list (chs_tbl lines)"
  proof -
    have "length t \<le> sum_list t" if "\<And>x. x \<in> set t \<Longrightarrow> 0 < x" for t :: "nat list"
      using that by (induction t) (force simp: Suc_leI)+
    then show ?thesis using chs_tbl_bounds len by (metis in_set_conv_nth)
  qed
  then have "node_at s index = Some (chs_nodes s ! index)"
    using g i by (auto simp: node_at_def chs_geometry_def chs_nodes_def)
  from count_loop_const [OF this, of 0 "chs_tbl lines ! index"] show ?thesis
    using i m b by (simp add: GetBucketUseSize_def)
qed

end
