(* ===== verification/Hash_Shm.thy ===== *)
theory Hash_Shm
  imports Multi_Hash
begin

text \<open>
  The older shared-memory table \<open>hash_shm\<close> of example_shm_hashtable1.cpp: the search for the
  moduli (\<open>getMode\<close>), the constructors, and the operations as a keyed store.  \<open>maxLine\<close> and
  \<open>lines\<close> are the template parameters.
\<close>

section \<open>The moduli\<close>

text \<open>
  \<open>getMode\<close> walks \<open>t\<close> down from \<open>maxLine / 6\<close> and tests \<open>6 t + 1\<close> (flag \<open>j\<close>) and
  \<open>6 t - 1\<close> (flag \<open>i\<close>) by trial division with the numbers \<open>6 p + 1\<close> and \<open>6 p - 1\<close> up to the
  square root.  The comparison with the floating-point square root is written with integers;
  both agree as long as a \<open>double\<close> holds \<open>m + 1\<close> exactly.
\<close>

definition sqrt_bound :: "nat \<Rightarrow> nat \<Rightarrow> bool" where
  "sqrt_bound p m \<longleftrightarrow> (p * 6 - 2) * (p * 6 - 2) \<le> m + 1"

definition trial :: "nat \<Rightarrow> nat \<Rightarrow> bool \<times> bool \<Rightarrow> bool \<times> bool" where
  "trial m p ij =
     (let n = p * 6; k = p mod 10;
          a = \<not> (k = 4 \<or> k = 9); b = \<not> (k = 6);
          (i, j) = ij;
          i = (i \<and> \<not> (a \<and> (m - 1) mod (n + 1) = 0));
          i = (i \<and> \<not> (b \<and> (m - 1) mod (n - 1) = 0));
          j = (j \<and> \<not> (a \<and> (m + 1) mod (n + 1) = 0));
          j = (j \<and> \<not> (b \<and> (m + 1) mod (n - 1) = 0))
      in (i, j))"

function trial_loop :: "nat \<Rightarrow> nat \<Rightarrow> bool \<times> bool \<Rightarrow> bool \<times> bool" where
  "trial_loop m p ij =
     (if sqrt_bound p m
      then let ij' = trial m p ij in
           if \<not> fst ij' \<and> \<not> snd ij' then ij' else trial_loop m (Suc p) ij'
      else ij)"
  by pat_completeness auto

lemma sqrt_bound_le:
  assumes "sqrt_bound p m"
  shows "p \<le> m + 1"
proof (cases "p = 0")
  case False
  then have "p \<le> p * 6 - 2" by simp
  also have "p * 6 - 2 \<le> (p * 6 - 2) * (p * 6 - 2)" using False by (cases "p * 6 - 2") auto
  finally show ?thesis using assms by (simp add: sqrt_bound_def)
qed simp

termination trial_loop
  by (relation "measure (\<lambda>(m, p, _). m + 2 - p)") (auto dest: sqrt_bound_le)

declare trial_loop.simps [simp del]

definition test_pair :: "nat \<Rightarrow> bool \<times> bool" where
  "test_pair t =
     (let m = 6 * t; k = t mod 10;
          j = \<not> (k = 4 \<or> k = 9 \<or> (m + 1) mod 3 = 0);
          i = \<not> (k = 6 \<or> (m - 1) mod 3 = 0)
      in trial_loop m 1 (i, j))"

text \<open>
  The outer loop; \<open>z\<close> is the length of the table filled so far.  At \<open>t = 0\<close> the candidates are
  1, which passes, and \<open>2 ^ 64 - 1\<close>, a multiple of 3; after that \<open>t--\<close> wraps around, which is
  \<open>None\<close> here: there were not enough candidates.
\<close>

fun mode_loop :: "nat \<Rightarrow> nat \<Rightarrow> nat list \<Rightarrow> nat list option" where
  "mode_loop lines t modTable =
     (if \<not> length modTable < lines then Some modTable
      else case t of
        0 \<Rightarrow> (let tb = modTable @ [1] in if length tb \<ge> lines then Some tb else None)
      | Suc t' \<Rightarrow>
         (let (i, j) = test_pair t; m = 6 * t;
              tb = (if j then modTable @ [m + 1] else modTable)
          in if j \<and> length tb \<ge> lines then Some tb
             else let tb = (if i then tb @ [m - 1] else tb)
                  in if i \<and> length tb \<ge> lines then Some tb else mode_loop lines t' tb))"

declare mode_loop.simps [simp del]

text \<open>\<open>Inl\<close> is \<open>exit\<close>.\<close>

definition getMode :: "nat \<Rightarrow> nat \<Rightarrow> (unit + nat list) option" where
  "getMode maxLine lines =
     (if maxLine < 5 then Some (Inl ()) else map_option Inr (mode_loop lines (maxLine div 6) []))"

definition is_prime :: "nat \<Rightarrow> bool" where
  "is_prime n \<longleftrightarrow> 1 < n \<and> (\<forall>d. d dvd n \<longrightarrow> d = 1 \<or> d = n)"

lemma prime_factor:
  fixes n :: nat
  assumes "1 < n" "\<not> is_prime n"
  obtains q where "is_prime q" "q dvd n" "q * q \<le> n"
proof -
  let ?P = "\<lambda>d. 1 < d \<and> d dvd n"
  define q where "q = (LEAST d. ?P d)"
  have ex: "?P n" using assms by simp
  then have q: "1 < q" "q dvd n" unfolding q_def by (metis (mono_tags, lifting) LeastI)+
  have least: "q \<le> d" if "1 < d" "d dvd n" for d
    unfolding q_def using that by (intro Least_le) simp
  have "is_prime q"
    unfolding is_prime_def
  proof (intro conjI allI impI q(1))
    fix d assume d: "d dvd q"
    then have "d dvd n" "d \<le> q" using q by (auto intro: dvd_trans dvd_imp_le)
    moreover have "d \<noteq> 0" using d q(1) by (cases "d = 0") auto
    ultimately show "d = 1 \<or> d = q" using least [of d] by force
  qed
  moreover have "q * q \<le> n"
  proof -
    obtain e where e: "n = q * e" using q(2) by blast
    have "q \<noteq> n"
    proof
      assume "q = n"
      then have "is_prime n" using \<open>is_prime q\<close> by simp
      then show False using assms by simp
    qed
    then have "1 < e" using e assms(1) by (cases e) (auto simp: Suc_lessI)
    then have "q \<le> e" using e by (intro least) auto
    then show ?thesis using e by simp
  qed
  ultimately show thesis using q(2) that by blast
qed

text \<open>What a candidate that survives the trial divisions has been tested against.\<close>

definition divides_out :: "nat \<Rightarrow> nat \<Rightarrow> bool" where
  "divides_out c p \<longleftrightarrow> (\<not> (p mod 10 = 4 \<or> p mod 10 = 9) \<and> c mod (p * 6 + 1) = 0)
     \<or> (p mod 10 \<noteq> 6 \<and> c mod (p * 6 - 1) = 0)"

lemma trial_flags:
  "fst (trial m p ij) \<longleftrightarrow> fst ij \<and> \<not> divides_out (m - 1) p"
  "snd (trial m p ij) \<longleftrightarrow> snd ij \<and> \<not> divides_out (m + 1) p"
  by (cases ij; auto simp: trial_def divides_out_def Let_def)+

lemma sqrt_bound_mono: "sqrt_bound q m \<Longrightarrow> p \<le> q \<Longrightarrow> sqrt_bound p m"
  unfolding sqrt_bound_def by (erule order_trans [rotated]) (intro mult_le_mono; simp)

lemma trial_loop_flags:
  "(fst (trial_loop m p ij) \<longrightarrow> fst ij \<and> (\<forall>q \<ge> p. sqrt_bound q m \<longrightarrow> \<not> divides_out (m - 1) q))
   \<and> (snd (trial_loop m p ij) \<longrightarrow> snd ij \<and> (\<forall>q \<ge> p. sqrt_bound q m \<longrightarrow> \<not> divides_out (m + 1) q))"
proof (induction m p ij rule: trial_loop.induct)
  case (1 m p ij)
  show ?case
  proof (cases "sqrt_bound p m")
    case False
    then have "\<not> sqrt_bound q m" if "p \<le> q" for q using that sqrt_bound_mono by blast
    then show ?thesis using False by (subst (1 2) trial_loop.simps) simp
  next
    case True
    let ?ij = "trial m p ij"
    show ?thesis
    proof (cases "\<not> fst ?ij \<and> \<not> snd ?ij")
      case both: True
      then have "trial_loop m p ij = ?ij" using True by (subst trial_loop.simps) (simp add: Let_def)
      then show ?thesis using both by simp
    next
      case False
      then have e: "trial_loop m p ij = trial_loop m (Suc p) ?ij"
        using True by (subst trial_loop.simps) (auto simp: Let_def)
      note IH = 1 [OF True refl False]
      have all: "(\<forall>q \<ge> p. sqrt_bound q m \<longrightarrow> \<not> divides_out c q)"
        if "\<not> divides_out c p" "\<forall>q \<ge> Suc p. sqrt_bound q m \<longrightarrow> \<not> divides_out c q" for c
        using that by (metis le_antisym not_less_eq_eq)
      show ?thesis using IH all unfolding e trial_flags by blast
    qed
  qed
qed

lemma prime_5:
  assumes "is_prime q" "5 dvd q"
  shows "q = 5"
  using conjunct2 [OF assms(1) [unfolded is_prime_def], THEN spec, of 5] assms(2) by simp

lemma survivor_prime:
  assumes c: "1 < c" "odd c" "c mod 3 \<noteq> 0" "c \<le> m + 1"
    and survives: "\<forall>p \<ge> 1. sqrt_bound p m \<longrightarrow> \<not> divides_out c p"
  shows "is_prime c"
proof (rule ccontr)
  assume "\<not> is_prime c"
  then obtain q where q: "is_prime q" "q dvd c" "q * q \<le> c" using prime_factor c(1) by blast
  have "odd q" using q(2) c(2) dvd_trans by blast
  moreover have "q mod 3 \<noteq> 0" using q(2) c(3) dvd_trans by (metis mod_0_imp_dvd mod_eq_0_iff_dvd)
  moreover have "1 < q" using q(1) by (simp add: is_prime_def)
  ultimately have "\<exists>p \<ge> 1. q = p * 6 + 1 \<or> q = p * 6 - 1" by presburger
  then obtain p where p: "1 \<le> p" "q = p * 6 + 1 \<or> q = p * 6 - 1" by blast
  have "p * 6 - 2 \<le> q" using p(2) by auto
  then have "(p * 6 - 2) * (p * 6 - 2) \<le> q * q" by (intro mult_le_mono)
  then have "sqrt_bound p m" using q(3) c(4) by (simp add: sqrt_bound_def)
  then have nd: "\<not> divides_out c p" using survives p(1) by blast
  have cq: "c mod q = 0" using q(2) by simp
  show False
    using p(2)
  proof
    assume e: "q = p * 6 + 1"
    then have "p mod 10 = 4 \<or> p mod 10 = 9" using nd cq by (auto simp: divides_out_def)
    then have "5 dvd q" unfolding e by presburger
    then show False using prime_5 [OF q(1)] e by presburger
  next
    assume e: "q = p * 6 - 1"
    then have k: "p mod 10 = 6" using nd cq by (auto simp: divides_out_def)
    then have "5 dvd q" unfolding e by presburger
    then have "p * 6 - 1 = 5" using prime_5 [OF q(1)] e by simp
    then have "p = 1" by simp
    then show False using k by simp
  qed
qed

lemma test_pair_prime:
  assumes "0 < t"
  shows "fst (test_pair t) \<Longrightarrow> is_prime (6 * t - 1)" "snd (test_pair t) \<Longrightarrow> is_prime (6 * t + 1)"
proof -
  define ij where "ij = (\<not> (t mod 10 = 6 \<or> (6 * t - 1) mod 3 = 0), \<not> (t mod 10 = 4 \<or> t mod 10 = 9 \<or> (6 * t + 1) mod 3 = 0))"
  have e: "test_pair t = trial_loop (6 * t) 1 ij" by (simp add: test_pair_def ij_def Let_def)
  note fl = trial_loop_flags [of "6 * t" 1 ij]
  have "1 < 6 * t - 1" "odd (6 * t - 1)" "(6 * t - 1) mod 3 \<noteq> 0" "6 * t - 1 \<le> 6 * t + 1"
    using assms by presburger+
  then show "is_prime (6 * t - 1)" if "fst (test_pair t)"
    using that fl unfolding e by (intro survivor_prime [of _ "6 * t"]) blast+
  have "1 < 6 * t + 1" "odd (6 * t + 1)" "(6 * t + 1) mod 3 \<noteq> 0" "6 * t + 1 \<le> 6 * t + 1"
    using assms by presburger+
  then show "is_prime (6 * t + 1)" if "snd (test_pair t)"
    using that fl unfolding e by (intro survivor_prime [of _ "6 * t"]) blast+
qed

text \<open>The candidates below a start value, in the order of the walk.\<close>

fun mode_cands :: "nat \<Rightarrow> nat list" where
  "mode_cands 0 = []"
| "mode_cands (Suc t) =
     (if snd (test_pair (Suc t)) then [6 * Suc t + 1] else []) @
     (if fst (test_pair (Suc t)) then [6 * Suc t - 1] else []) @ mode_cands t"

lemma mode_cands_prime: "c \<in> set (mode_cands t) \<Longrightarrow> is_prime c \<and> c \<le> 6 * t + 1"
proof (induction t)
  case (Suc t)
  then consider "c = 6 * Suc t + 1" "snd (test_pair (Suc t))" | "c = 6 * Suc t - 1" "fst (test_pair (Suc t))"
    | "c \<in> set (mode_cands t)"
    by (auto split: if_splits)
  then show ?case
  proof cases
    case 1
    then show ?thesis using test_pair_prime(2) [of "Suc t"] by (metis le_refl zero_less_Suc)
  next
    case 2
    then have "is_prime c" using test_pair_prime(1) [of "Suc t"] by (metis zero_less_Suc)
    then show ?thesis using 2(1) by simp
  next
    case 3
    then show ?thesis using Suc.IH by simp
  qed
qed simp

lemma mode_loop_take:
  "length tb \<le> lines \<Longrightarrow> lines \<le> length tb + length (mode_cands t) \<Longrightarrow>
   mode_loop lines t tb = Some (take lines (tb @ mode_cands t))"
proof (induction t arbitrary: tb)
  case 0
  then show ?case by (simp add: mode_loop.simps)
next
  case (Suc t)
  obtain i j where ij: "test_pair (Suc t) = (i, j)" by (cases "test_pair (Suc t)")
  show ?case
  proof (cases "length tb < lines")
    case False
    then show ?thesis using Suc.prems by (simp add: mode_loop.simps)
  next
    case True
    then obtain n where n: "lines = length tb + Suc n" by (metis add_Suc_right less_imp_Suc_add)
    show ?thesis
      using Suc.prems Suc.IH [of "tb @ [6 * Suc t + 1]"] Suc.IH [of "tb @ [6 * Suc t - 1]"]
        Suc.IH [of "tb @ [6 * Suc t + 1, 6 * Suc t - 1]"] Suc.IH [of tb] ij unfolding n
      by (cases i; cases j; cases n) (subst mode_loop.simps, simp add: Let_def)+
  qed
qed

section \<open>The table\<close>

text \<open>
  The counter \<open>*currentSize\<close> lies at \<open>mem + memSize\<close>, behind the nodes and outside the
  \<open>memSize\<close> bytes that were asked for; \<open>tail\<close> is that word, \<open>None\<close> when the address is not
  accessible.
\<close>

record 'v hs_segment =
  hs_nodes :: "'v hash_node list"
  hs_tail :: "64 word option"

record 'v hs =
  hs_mem :: "'v hs_segment option"
  hs_memSize :: "64 word"
  modTable :: "64 word list"
  hs_maxSize :: "64 word"
  hs_lastFound :: "nat option"

record 'v hs_os =
  hs_existing :: "'v hs_segment option"
  hs_created :: "'v hs_segment option"
  hs_can_attach :: bool

definition hs_getShm :: "'v hs_os \<Rightarrow> 'v hs \<Rightarrow> 'v hs \<times> bool" where
  "hs_getShm os s =
     (case (case hs_existing os of None \<Rightarrow> hs_created os | Some g \<Rightarrow> Some g) of
        None \<Rightarrow> (s, False)
      | Some g \<Rightarrow> if \<not> hs_can_attach os then (s\<lparr>hs_mem := None\<rparr>, False) else (s\<lparr>hs_mem := Some g\<rparr>, True))"

text \<open>\<open>*currentSize < 0\<close> is a comparison of an unsigned number, so the reset never happens.\<close>

definition check_size :: "'v hs \<Rightarrow> 'v hs option" where
  "check_size s =
     do { g \<leftarrow> hs_mem s; c \<leftarrow> hs_tail g;
          Some (if c < 0 then s\<lparr>hs_mem := Some (g\<lparr>hs_tail := Some 0\<rparr>)\<rparr> else s) }"

definition hash_shm_key :: "nat \<Rightarrow> nat \<Rightarrow> nat \<Rightarrow> 'v hs_os \<Rightarrow> (unit + 'v hs) option" where
  "hash_shm_key maxLine lines node_sz os =
     do { r \<leftarrow> getMode maxLine lines;
          case r of
            Inl e \<Rightarrow> Some (Inl e)
          | Inr tb \<Rightarrow>
              let mx = sum_list (map of_nat tb);
                  (s, ok) = hs_getShm os \<lparr>hs_mem = None, hs_memSize = of_nat node_sz * mx,
                      modTable = map of_nat tb, hs_maxSize = mx, hs_lastFound = None\<rparr>
              in if \<not> ok then Some (Inl ()) else map_option Inr (check_size s) }"

text \<open>
  The constructor on a given address exits when the address is not null, and otherwise goes on
  with the member \<open>mem\<close>, which it never assigns.
\<close>

definition hash_shm_at :: "nat \<Rightarrow> nat \<Rightarrow> nat \<Rightarrow> bool \<Rightarrow> 64 word \<Rightarrow> (unit + 'v hs) option" where
  "hash_shm_at maxLine lines node_sz startShm_null shmSize =
     (if \<not> startShm_null then Some (Inl ())
      else do { r \<leftarrow> getMode maxLine lines;
                case r of
                  Inl e \<Rightarrow> Some (Inl e)
                | Inr tb \<Rightarrow>
                    let mx = sum_list (map of_nat tb) in
                    if shmSize < of_nat node_sz * (mx + 1) then Some (Inl ())
                    else map_option Inr (check_size \<lparr>hs_mem = None, hs_memSize = shmSize,
                      modTable = map of_nat tb, hs_maxSize = mx, hs_lastFound = None\<rparr>) })"

definition hs_getPos :: "'v hs \<Rightarrow> nat \<Rightarrow> 64 word \<Rightarrow> nat option option" where
  "hs_getPos s row c =
     (if row \<le> length (modTable s)
      then let pos = foldl (+) 0 (take row (modTable s)) + c
           in Some (if pos \<ge> hs_maxSize s then None else Some (unat pos))
      else None)"

text \<open>The pointer is used without a check: null is undefined behaviour here.\<close>

definition hs_node :: "nat \<Rightarrow> 64 word \<Rightarrow> 'v hs \<Rightarrow> nat \<Rightarrow> (nat \<times> 'v hash_node) option" where
  "hs_node maxLine k s i =
     do { m \<leftarrow> rd (modTable s) i;
          pH \<leftarrow> hs_getPos s i ((k + of_nat maxLine) mod m);
          p \<leftarrow> pH;
          g \<leftarrow> hs_mem s;
          n \<leftarrow> rd (hs_nodes g) p;
          Some (p, n) }"

definition hs_write :: "'v hs \<Rightarrow> nat \<Rightarrow> 'v hash_node \<Rightarrow> 64 word \<Rightarrow> 'v hs option" where
  "hs_write s p n d =
     do { g \<leftarrow> hs_mem s;
          ns \<leftarrow> wr (hs_nodes g) p n;
          c \<leftarrow> hs_tail g;
          Some (s\<lparr>hs_mem := Some \<lparr>hs_nodes = ns, hs_tail = Some (c + d)\<rparr>\<rparr>) }"

fun hs_find_rows :: "nat \<Rightarrow> 64 word \<Rightarrow> 'v hs \<Rightarrow> nat list \<Rightarrow> ('v hs \<times> int) option" where
  "hs_find_rows maxLine k s [] = Some (s, - 1)"
| "hs_find_rows maxLine k s (i # is) =
     do { (p, n) \<leftarrow> hs_node maxLine k s i;
          if key n = k then Some (s\<lparr>hs_lastFound := Some p\<rparr>, 0) else hs_find_rows maxLine k s is }"

definition hs_find :: "nat \<Rightarrow> nat \<Rightarrow> 64 word \<Rightarrow> 'v hs \<Rightarrow> ('v hs \<times> int) option" where
  "hs_find maxLine lines k s = hs_find_rows maxLine k s [0..<lines]"

fun hs_place_rows :: "nat \<Rightarrow> 64 word \<Rightarrow> 'v \<Rightarrow> 'v hs \<Rightarrow> nat list \<Rightarrow> ('v hs \<times> int) option" where
  "hs_place_rows maxLine k v s [] = Some (s, - 1)"
| "hs_place_rows maxLine k v s (i # is) =
     do { (p, n) \<leftarrow> hs_node maxLine k s i;
          if key n = 0 then do { s' \<leftarrow> hs_write s p \<lparr>key = k, val = v\<rparr> 1; Some (s', 0) }
          else hs_place_rows maxLine k v s is }"

definition hs_insert :: "nat \<Rightarrow> nat \<Rightarrow> 64 word \<Rightarrow> 'v \<Rightarrow> 'v hs \<Rightarrow> ('v hs \<times> int) option" where
  "hs_insert maxLine lines k v s =
     do { (s1, r) \<leftarrow> hs_find maxLine lines k s;
          if r = 0 then Some (s1, 1) else hs_place_rows maxLine k v s1 [0..<lines] }"

definition hs_remove :: "nat \<Rightarrow> nat \<Rightarrow> 64 word \<Rightarrow> 'v hs \<Rightarrow> ('v hs \<times> int) option" where
  "hs_remove maxLine lines k s =
     do { (s1, r) \<leftarrow> hs_find maxLine lines k s;
          if r = - 1 then Some (s1, - 1)
          else do { p \<leftarrow> hs_lastFound s1; g \<leftarrow> hs_mem s1; n \<leftarrow> rd (hs_nodes g) p;
                    s2 \<leftarrow> hs_write s1 p (n\<lparr>key := 0\<rparr>) (- 1);
                    Some (s2, 0) } }"

definition hs_clear :: "'v \<Rightarrow> 'v hs \<Rightarrow> 'v hs option" where
  "hs_clear z s =
     do { g \<leftarrow> hs_mem s;
          let n = unat (hs_maxSize s);
          if n \<le> length (hs_nodes g) \<and> hs_tail g \<noteq> None
          then Some (s\<lparr>hs_mem := Some \<lparr>hs_nodes = replicate n \<lparr>key = 0, val = z\<rparr> @ drop n (hs_nodes g),
                                        hs_tail = Some 0\<rparr>\<rparr>)
          else None }"

section \<open>The table as a set of keys\<close>

definition hs_cells :: "'v hs \<Rightarrow> 'v hash_node list" where
  "hs_cells s = (case hs_mem s of Some g \<Rightarrow> hs_nodes g | None \<Rightarrow> [])"

definition hs_count :: "'v hs \<Rightarrow> 64 word option" where
  "hs_count s = do { g \<leftarrow> hs_mem s; hs_tail g }"

definition hs_tbl :: "'v hs \<Rightarrow> nat list" where
  "hs_tbl s = map unat (modTable s)"

definition hs_geometry :: "nat \<Rightarrow> 'v hs \<Rightarrow> bool" where
  "hs_geometry lines s \<longleftrightarrow> length (modTable s) = lines \<and> hs_mem s \<noteq> None \<and> mh_table (hs_tbl s)
     \<and> sum_list (hs_tbl s) < 2 ^ 63 \<and> hs_maxSize s = of_nat (sum_list (hs_tbl s))
     \<and> length (hs_cells s) = sum_list (hs_tbl s)"

definition hs_valid :: "nat \<Rightarrow> nat \<Rightarrow> 'v hs \<Rightarrow> bool" where
  "hs_valid maxLine lines s \<longleftrightarrow> hs_geometry lines s \<and> mh_wf (hs_tbl s) (of_nat maxLine) (hs_cells s)
     \<and> hs_count s = Some (of_nat (mh_count (hs_cells s)))"

definition hs_keys :: "nat \<Rightarrow> 'v hs \<Rightarrow> (64 word \<rightharpoonup> unit)" where
  "hs_keys maxLine s k = map_option (\<lambda>_. ()) (mh_map (hs_tbl s) (of_nat maxLine) (hs_cells s) k)"

lemma foldl_word_sum: "foldl (+) a ws = a + of_nat (sum_list (map unat ws))" for a :: "64 word"
  by (induction ws arbitrary: a) simp_all

lemma hs_node_slot:
  assumes g: "hs_geometry lines s" and i: "i < lines"
  shows "hs_node maxLine k s i = Some (mh_slot (hs_tbl s) (of_nat maxLine) i k,
    hs_cells s ! mh_slot (hs_tbl s) (of_nat maxLine) i k)"
proof -
  let ?t = "hs_tbl s" and ?p = "mh_slot (hs_tbl s) (of_nat maxLine) i k"
  have len: "length ?t = lines" "i < length ?t" "i < length (modTable s)"
    using g i by (auto simp: hs_geometry_def hs_tbl_def)
  have tab: "mh_table ?t" using g by (simp add: hs_geometry_def)
  have sl: "?p < sum_list ?t" by (rule slot_less [OF tab len(2)])
  have S: "sum_list ?t < 2 ^ 63" using g by (simp add: hs_geometry_def)
  have m: "modTable s ! i = of_nat (?t ! i)" using len(3) by (simp add: hs_tbl_def)
  let ?h = "(k + of_nat maxLine) mod modTable s ! i"
  have "foldl (+) 0 (take i (modTable s)) = (of_nat (sum_list (take i ?t)) :: 64 word)"
    by (simp add: foldl_word_sum hs_tbl_def take_map)
  moreover have e: "?p = sum_list (take i ?t) + unat ?h" by (simp add: mh_slot_def m)
  ultimately have "foldl (+) 0 (take i (modTable s)) + ?h = of_nat ?p"
    unfolding e of_nat_add by simp
  moreover have u: "unat (of_nat ?p :: 64 word) = ?p" using sl S by (simp add: unat_of_nat)
  moreover have "unat (of_nat (sum_list ?t) :: 64 word) = sum_list ?t" using S by (simp add: unat_of_nat)
  ultimately have "hs_getPos s i ?h = Some (Some ?p)"
    using len sl g by (simp add: hs_getPos_def Let_def word_le_nat_alt hs_geometry_def)
  moreover obtain gg where "hs_mem s = Some gg" using g by (auto simp: hs_geometry_def)
  ultimately show ?thesis
    using len sl g by (simp add: hs_node_def hs_cells_def hs_geometry_def)
qed

lemma hs_find_rows_first:
  assumes g: "hs_geometry lines s" and r: "\<forall>i \<in> set is. i < lines"
  shows "hs_find_rows maxLine k s is =
    Some (case first_at (keyed k) (hs_cells s) (map (\<lambda>i. mh_slot (hs_tbl s) (of_nat maxLine) i k) is) of
        None \<Rightarrow> (s, - 1) | Some p \<Rightarrow> (s\<lparr>hs_lastFound := Some p\<rparr>, 0))"
  using r by (induction "is") (simp_all add: hs_node_slot [OF g] keyed_def)

lemma hs_place_rows_first:
  assumes g: "hs_geometry lines s" and r: "\<forall>i \<in> set is. i < lines"
  shows "hs_place_rows maxLine k v s is =
    (case first_at (keyed 0) (hs_cells s) (map (\<lambda>i. mh_slot (hs_tbl s) (of_nat maxLine) i k) is) of
        None \<Rightarrow> Some (s, - 1)
      | Some p \<Rightarrow> do { s' \<leftarrow> hs_write s p \<lparr>key = k, val = v\<rparr> 1; Some (s', 0) })"
  using r by (induction "is") (simp_all add: hs_node_slot [OF g] keyed_def)

lemma hs_rows: "hs_geometry lines s \<Longrightarrow> mh_slots (hs_tbl s) off k = map (\<lambda>i. mh_slot (hs_tbl s) off i k) [0..<lines]"
  by (simp add: mh_slots_def hs_geometry_def hs_tbl_def)

lemma hs_find_mh:
  assumes "hs_geometry lines s"
  shows "hs_find maxLine lines k s = Some (case mh_find (hs_tbl s) (of_nat maxLine) (hs_cells s) k of
    None \<Rightarrow> (s, - 1) | Some p \<Rightarrow> (s\<lparr>hs_lastFound := Some p\<rparr>, 0))"
  using hs_find_rows_first [OF assms, of "[0..<lines]"] by (simp add: hs_find_def mh_find_def hs_rows [OF assms])

lemma hs_write_spec:
  assumes g: "hs_geometry lines s" "p < length (hs_cells s)" "hs_count s = Some c"
  shows "\<exists>s'. hs_write s p n d = Some s' \<and> hs_geometry lines s' \<and> hs_cells s' = (hs_cells s)[p := n]
    \<and> hs_count s' = Some (c + d) \<and> hs_tbl s' = hs_tbl s"
  using assms by (auto simp: hs_write_def hs_geometry_def hs_cells_def hs_count_def hs_tbl_def)

lemma hs_lastFound_upd [simp]:
  "hs_cells (s\<lparr>hs_lastFound := f\<rparr>) = hs_cells s" "hs_tbl (s\<lparr>hs_lastFound := f\<rparr>) = hs_tbl s"
  "hs_geometry lines (s\<lparr>hs_lastFound := f\<rparr>) = hs_geometry lines s"
  "hs_count (s\<lparr>hs_lastFound := f\<rparr>) = hs_count s"
  "hs_valid maxLine lines (s\<lparr>hs_lastFound := f\<rparr>) = hs_valid maxLine lines s"
  "hs_keys maxLine (s\<lparr>hs_lastFound := f\<rparr>) = hs_keys maxLine s"
  by (auto simp: hs_cells_def hs_tbl_def hs_geometry_def hs_count_def hs_valid_def hs_keys_def)

definition hs_has :: "nat \<Rightarrow> nat \<Rightarrow> 'v hs \<Rightarrow> 64 word \<Rightarrow> ('v hs \<times> unit option) option" where
  "hs_has maxLine lines s k =
     map_option (\<lambda>(s', r). (s', if r = 0 then Some () else None)) (hs_find maxLine lines k s)"

definition hs_add :: "nat \<Rightarrow> nat \<Rightarrow> 'v \<Rightarrow> 'v hs \<Rightarrow> 64 word \<Rightarrow> unit \<Rightarrow> ('v hs \<times> ins_reply) option" where
  "hs_add maxLine lines v s k _ =
     map_option (\<lambda>(s', r). (s', if r = 0 then Inserted else if r = 1 then Exists else Full))
       (hs_insert maxLine lines k v s)"

definition hs_del :: "nat \<Rightarrow> nat \<Rightarrow> 'v hs \<Rightarrow> 64 word \<Rightarrow> ('v hs \<times> bool) option" where
  "hs_del maxLine lines s k = map_option (\<lambda>(s', r). (s', r = 0)) (hs_remove maxLine lines k s)"

text \<open>One of the cells of the key, one in each row, is free.\<close>

definition hs_room :: "nat \<Rightarrow> nat list \<Rightarrow> 'v hs \<Rightarrow> 64 word \<Rightarrow> bool" where
  "hs_room maxLine tb s k \<longleftrightarrow> (\<exists>i < length tb. key (hs_cells s ! (sum_list (take i tb) + unat ((k + of_nat maxLine) mod of_nat (tb ! i)))) = 0)"

lemma hs_room_free: "hs_room maxLine (hs_tbl s) s k \<longleftrightarrow> mh_free (hs_tbl s) (of_nat maxLine) (hs_cells s) k \<noteq> None"
  unfolding mh_free_def first_at_None by (auto simp: hs_room_def keyed_def mh_slots_def mh_slot_def)

lemma hs_add_law:
  assumes s: "hs_valid maxLine lines s" and k: "k \<noteq> 0"
  shows "\<exists>s' r. hs_add maxLine lines v s k u = Some (s', r) \<and> hs_valid maxLine lines s'
    \<and> r = (if hs_keys maxLine s k = None then if hs_room maxLine (hs_tbl s) s k then Inserted else Full else Exists)
    \<and> hs_tbl s' = hs_tbl s
    \<and> hs_keys maxLine s' = (if r = Inserted then (hs_keys maxLine s)(k \<mapsto> u) else hs_keys maxLine s)"
proof -
  let ?o = "of_nat maxLine :: 64 word"
  have g: "hs_geometry lines s" and wf: "mh_wf (hs_tbl s) ?o (hs_cells s)"
    and c: "hs_count s = Some (of_nat (mh_count (hs_cells s)))" using s by (auto simp: hs_valid_def)
  show ?thesis
  proof (cases "mh_find (hs_tbl s) ?o (hs_cells s) k")
    case (Some p)
    then have "hs_keys maxLine s k \<noteq> None" using k by (simp add: hs_keys_def mh_map_def)
    then show ?thesis using Some s
      by (intro exI [of _ "s\<lparr>hs_lastFound := Some p\<rparr>"] exI [of _ Exists])
        (simp add: hs_add_def hs_insert_def hs_find_mh [OF g])
  next
    case None
    then have nk: "hs_keys maxLine s k = None" using k by (simp add: hs_keys_def mh_map_def)
    have pl: "hs_insert maxLine lines k v s = hs_place_rows maxLine k v s [0..<lines]"
      using None by (simp add: hs_insert_def hs_find_mh [OF g])
    show ?thesis
    proof (cases "mh_free (hs_tbl s) ?o (hs_cells s) k")
      case nf: None
      then have "hs_insert maxLine lines k v s = Some (s, - 1)"
        using pl hs_place_rows_first [OF g, of "[0..<lines]"] by (simp add: mh_free_def hs_rows [OF g])
      then show ?thesis using s nk nf by (intro exI [of _ s] exI [of _ Full]) (simp add: hs_add_def hs_room_free)
    next
      case (Some p)
      note fr = mh_free_Some [OF wf Some]
      note ins = mh_insert [OF wf k None Some, of v]
      obtain s1 where s1: "hs_write s p \<lparr>key = k, val = v\<rparr> 1 = Some s1" "hs_geometry lines s1"
        "hs_cells s1 = (hs_cells s)[p := \<lparr>key = k, val = v\<rparr>]"
        "hs_count s1 = Some (of_nat (mh_count (hs_cells s)) + 1)" "hs_tbl s1 = hs_tbl s"
        using hs_write_spec [OF g fr(1) c] by blast
      have "hs_insert maxLine lines k v s = Some (s1, 0)"
        using pl hs_place_rows_first [OF g, of "[0..<lines]"] Some s1(1) by (simp add: mh_free_def hs_rows [OF g])
      moreover have "hs_valid maxLine lines s1" using s1 ins by (simp add: hs_valid_def)
      moreover have "hs_keys maxLine s1 = (hs_keys maxLine s)(k \<mapsto> u)"
        using s1 ins(2) by (auto simp: hs_keys_def)
      ultimately show ?thesis using nk Some s1(5) by (intro exI [of _ s1] exI [of _ Inserted]) (simp add: hs_add_def hs_room_free)
    qed
  qed
qed

lemma hs_del_law:
  assumes s: "hs_valid maxLine lines s" and k: "k \<noteq> 0"
  shows "\<exists>s'. hs_del maxLine lines s k = Some (s', hs_keys maxLine s k \<noteq> None) \<and> hs_valid maxLine lines s'
    \<and> hs_keys maxLine s' = (hs_keys maxLine s)(k := None) \<and> hs_tbl s' = hs_tbl s"
proof -
  let ?o = "of_nat maxLine :: 64 word"
  have g: "hs_geometry lines s" and wf: "mh_wf (hs_tbl s) ?o (hs_cells s)"
    and c: "hs_count s = Some (of_nat (mh_count (hs_cells s)))" using s by (auto simp: hs_valid_def)
  show ?thesis
  proof (cases "mh_find (hs_tbl s) ?o (hs_cells s) k")
    case None
    then have "hs_keys maxLine s k = None" using k by (simp add: hs_keys_def mh_map_def)
    then show ?thesis using None s
      by (intro exI [of _ s]) (auto simp: hs_del_def hs_remove_def hs_find_mh [OF g])
  next
    case (Some p)
    have hk: "hs_keys maxLine s k \<noteq> None" using Some k by (simp add: hs_keys_def mh_map_def)
    have p: "p < length (hs_cells s)" using mh_find_iff [OF wf k, of p] Some by simp
    let ?s1 = "s\<lparr>hs_lastFound := Some p\<rparr>" and ?n = "(hs_cells s ! p)\<lparr>key := 0\<rparr>"
    note de = mh_delete [OF wf k Some]
    obtain gg where gg: "hs_mem s = Some gg" "hs_nodes gg = hs_cells s"
      using g by (auto simp: hs_geometry_def hs_cells_def)
    obtain s2 where s2: "hs_write ?s1 p ?n (- 1) = Some s2" "hs_geometry lines s2"
      "hs_cells s2 = (hs_cells s)[p := ?n]" "hs_count s2 = Some (of_nat (mh_count (hs_cells s)) + - 1)"
      "hs_tbl s2 = hs_tbl s"
      using hs_write_spec [of lines ?s1 p "of_nat (mh_count (hs_cells s))" ?n "- 1"] g p c by auto
    have "(of_nat (mh_count (hs_cells s)) :: 64 word) = of_nat (mh_count ((hs_cells s)[p := ?n])) + 1"
      using de(3) by (metis add.commute of_nat_Suc)
    then have "hs_valid maxLine lines s2" using s2 de(1) by (simp add: hs_valid_def)
    moreover have "hs_keys maxLine s2 = (hs_keys maxLine s)(k := None)"
      using s2 de(2) by (auto simp: hs_keys_def)
    moreover have "hs_remove maxLine lines k s = Some (s2, 0)"
      using Some gg p s2(1) by (simp add: hs_remove_def hs_find_mh [OF g])
    ultimately show ?thesis using hk s2(5) by (intro exI [of _ s2]) (simp add: hs_del_def)
  qed
qed

interpretation hs: keyed_store "hs_has maxLine lines" "hs_add maxLine lines v" "hs_del maxLine lines"
  "hs_keys maxLine" "\<lambda>s. hs_valid maxLine lines s \<and> hs_tbl s = tb" "\<lambda>k. k \<noteq> 0"
  for maxLine lines :: nat and tb :: "nat list" and v :: 'v
proof
  fix s :: "'v hs" and k :: "64 word" and u :: unit
  assume h: "hs_valid maxLine lines s \<and> hs_tbl s = tb" and k: "k \<noteq> 0"
  then have s: "hs_valid maxLine lines s" by simp
  have g: "hs_geometry lines s" using s by (simp add: hs_valid_def)
  show "\<exists>s'. hs_has maxLine lines s k = Some (s', hs_keys maxLine s k) \<and> (hs_valid maxLine lines s' \<and> hs_tbl s' = tb)
      \<and> hs_keys maxLine s' = hs_keys maxLine s"
    using h k by (cases "mh_find (hs_tbl s) (of_nat maxLine) (hs_cells s) k")
      (simp_all add: hs_has_def hs_find_mh [OF g] hs_keys_def mh_map_def)
  obtain s' r where "hs_add maxLine lines v s k u = Some (s', r)" "hs_valid maxLine lines s'"
    "if hs_keys maxLine s k = None then r = Inserted \<or> r = Full else r = Exists"
    "hs_keys maxLine s' = (if r = Inserted then (hs_keys maxLine s)(k \<mapsto> u) else hs_keys maxLine s)" "hs_tbl s' = hs_tbl s"
    using hs_add_law [OF s k, of v u] by (auto split: if_splits)
  then show "\<exists>s' r. hs_add maxLine lines v s k u = Some (s', r) \<and> (hs_valid maxLine lines s' \<and> hs_tbl s' = tb)
      \<and> (if hs_keys maxLine s k = None then r = Inserted \<or> r = Full else r = Exists)
      \<and> hs_keys maxLine s' = (if r = Inserted then (hs_keys maxLine s)(k \<mapsto> u) else hs_keys maxLine s)"
    using h by blast
  show "\<exists>s'. hs_del maxLine lines s k = Some (s', hs_keys maxLine s k \<noteq> None) \<and> (hs_valid maxLine lines s' \<and> hs_tbl s' = tb)
      \<and> hs_keys maxLine s' = (hs_keys maxLine s)(k := None)"
    using hs_del_law [OF s k] h by auto
qed

section \<open>Properties\<close>



text \<open>
  C26: A table created on a fresh, zeroed segment whose trailing counter is accessible answers any
  sequence of \<open>find\<close>, \<open>insert\<close> and \<open>remove\<close> on keys other than 0 as a set of keys does.  After every such sequence, \<open>insert\<close> of a key that is not
  in the table succeeds exactly when one of the key's cells, one in each row, is free, and then adds it; otherwise it answers that the table is full.
\<close>

theorem hash_shm_refines_set:
  assumes mode: "getMode maxLine lines = Some (Inr tb)" "length tb = lines" "mh_table tb" "sum_list tb < 2 ^ 63"
    and os: "hs_existing os = None" "hs_can_attach os"
      "hs_created os = Some \<lparr>hs_nodes = replicate (sum_list tb) \<lparr>key = 0, val = z\<rparr>, hs_tail = Some 0\<rparr>"
    and ops: "list_all (\<lambda>p. kv_key p \<noteq> 0) ops"
  shows "\<exists>s0 s rs. hash_shm_key maxLine lines node_sz os = Some (Inr s0)
    \<and> kv_run (hs_has maxLine lines) (hs_add maxLine lines v) (hs_del maxLine lines) s0 ops = Some (s, rs)
    \<and> kv_conforms Map.empty ops rs (hs_keys maxLine s)
    \<and> (\<forall>k. k \<noteq> 0 \<and> hs_keys maxLine s k = None \<longrightarrow>
        map_option snd (hs_add maxLine lines v s k ()) = Some (if hs_room maxLine tb s k then Inserted else Full))"
proof -
  let ?mx = "sum_list (map of_nat tb) :: 64 word"
  let ?s0 = "\<lparr>hs_mem = hs_created os, hs_memSize = of_nat node_sz * ?mx,
    modTable = map of_nat tb, hs_maxSize = ?mx, hs_lastFound = None\<rparr>"
  have s0: "hash_shm_key maxLine lines node_sz os = Some (Inr ?s0)"
    using mode(1) os by (simp add: hash_shm_key_def hs_getShm_def check_size_def Let_def)
  have t: "hs_tbl ?s0 = tb"
    using mode(3) by (auto simp: hs_tbl_def mh_table_def list_all_iff unat_of_nat intro!: map_idI)
  have mx: "?mx = of_nat (sum_list tb)" by (induction tb) simp_all
  have c: "hs_cells ?s0 = replicate (sum_list tb) \<lparr>key = 0, val = z\<rparr>" "hs_count ?s0 = Some 0"
    using os by (simp_all add: hs_cells_def hs_count_def)
  note em = mh_empty(1,2) [OF mode(3), of "of_nat maxLine" z] mh_empty(3) [OF mode(3), of z]
  have "hs_geometry lines ?s0" using mode os t c mx by (simp add: hs_geometry_def)
  then have v: "hs_valid maxLine lines ?s0" using em t c by (simp add: hs_valid_def)
  have k: "hs_keys maxLine ?s0 = Map.empty" using em t c by (auto simp: hs_keys_def)
  have "hs_valid maxLine lines ?s0 \<and> hs_tbl ?s0 = tb" using v t by blast
  from hs.run_conforms [OF this ops, of v] obtain s rs where run:
    "kv_run (hs_has maxLine lines) (hs_add maxLine lines v) (hs_del maxLine lines) ?s0 ops = Some (s, rs)"
    "hs_valid maxLine lines s" "hs_tbl s = tb" "kv_conforms (hs_keys maxLine ?s0) ops rs (hs_keys maxLine s)" by blast
  have "map_option snd (hs_add maxLine lines v s k ()) = Some (if hs_room maxLine tb s k then Inserted else Full)"
    if "k \<noteq> 0" "hs_keys maxLine s k = None" for k
    using hs_add_law [OF run(2) that(1), of v "()"] that(2) run(3) by auto
  then show ?thesis using s0 k run(1,4) by auto
qed

lemma hash_shm_refines_set_witness:
  "\<exists>s0 s rs. hash_shm_key 30 3 16 \<lparr>hs_existing = None,
        hs_created = Some \<lparr>hs_nodes = replicate 83 \<lparr>key = 0, val = 0 :: nat\<rparr>, hs_tail = Some 0\<rparr>,
        hs_can_attach = True\<rparr> = Some (Inr s0)
    \<and> kv_run (hs_has 30 3) (hs_add 30 3 1) (hs_del 30 3) s0 [KInsert 4 (), KGet 4, KRemove 4] = Some (s, rs)
    \<and> kv_conforms Map.empty [KInsert 4 (), KGet 4, KRemove 4] rs (hs_keys 30 s)"
proof -
  have "getMode 30 3 = Some (Inr [31, 29, 23])"
    by code_simp
  from hash_shm_refines_set [OF this, where os = "\<lparr>hs_existing = None,
        hs_created = Some \<lparr>hs_nodes = replicate 83 \<lparr>key = 0, val = 0 :: nat\<rparr>, hs_tail = Some 0\<rparr>, hs_can_attach = True\<rparr>"
      and ops = "[KInsert 4 (), KGet 4, KRemove 4]" and z = 0 and v = 1 and node_sz = 16]
  show ?thesis by (simp add: mh_table_def) blast
qed

end
