(* ===== verification/Sq_Memory.thy ===== *)
theory Sq_Memory
  imports Prelude
begin

text \<open>
  Memory as bytes: 32-bit words in little-endian order inside a byte array, with the facts a
  reader of a header needs: a word written is the word read, and other bytes are untouched.
\<close>

unbundle bit_operations_syntax

definition le32 :: "32 word \<Rightarrow> 8 word list" where
  "le32 v = [ucast v, ucast (drop_bit 8 v), ucast (drop_bit 16 v), ucast (drop_bit 24 v)]"

definition of_le32 :: "8 word list \<Rightarrow> 32 word" where
  "of_le32 bs = ucast (bs ! 0) OR push_bit 8 (ucast (bs ! 1)) OR push_bit 16 (ucast (bs ! 2)) OR push_bit 24 (ucast (bs ! 3))"

lemma length_le32 [simp]: "length (le32 v) = 4"
  by (simp add: le32_def)

lemma of_le32_le32 [simp]: "of_le32 (le32 v) = v"
proof (rule bit_eqI)
  fix n assume "possible_bit TYPE(32 word) n"
  then have n: "n < 32" by simp
  consider "n < 8" | "8 \<le> n" "n < 16" | "16 \<le> n" "n < 24" | "24 \<le> n" using n by linarith
  then show "bit (of_le32 (le32 v)) n = bit v n"
    using n by cases (auto simp: of_le32_def le32_def bit_or_iff bit_push_bit_iff bit_ucast_iff bit_drop_bit_eq)
qed

definition rd32 :: "8 word list \<Rightarrow> nat \<Rightarrow> 32 word option" where
  "rd32 m p = (if p + 4 \<le> length m then Some (of_le32 (seg m p 4)) else None)"

definition wr_bytes :: "8 word list \<Rightarrow> nat \<Rightarrow> 8 word list \<Rightarrow> 8 word list option" where
  "wr_bytes m p bs = (if p + length bs \<le> length m then Some (take p m @ bs @ drop (p + length bs) m) else None)"

definition rd_bytes :: "8 word list \<Rightarrow> nat \<Rightarrow> nat \<Rightarrow> 8 word list option" where
  "rd_bytes m p n = (if p + n \<le> length m then Some (seg m p n) else None)"

definition wr32 :: "8 word list \<Rightarrow> nat \<Rightarrow> 32 word \<Rightarrow> 8 word list option" where
  "wr32 m p v = wr_bytes m p (le32 v)"

text \<open>\<open>same m m' A\<close>: the two memories agree on the addresses of \<open>A\<close>.\<close>

definition same :: "8 word list \<Rightarrow> 8 word list \<Rightarrow> nat set \<Rightarrow> bool" where
  "same m m' A \<longleftrightarrow> length m' = length m \<and> (\<forall>i \<in> A. i < length m \<longrightarrow> m' ! i = m ! i)"

lemma same_refl [simp]: "same m m A"
  by (simp add: same_def)

lemma same_trans: "same a b A \<Longrightarrow> same b c B \<Longrightarrow> same a c (A \<inter> B)"
  by (simp add: same_def)

lemma same_mono: "same a b A \<Longrightarrow> B \<subseteq> A \<Longrightarrow> same a b B"
  by (auto simp: same_def)

lemma same_length: "same a b A \<Longrightarrow> length b = length a"
  by (simp add: same_def)

lemma same_seg:
  assumes "same m m' A" "{p ..< p + n} \<subseteq> A" "p + n \<le> length m"
  shows "seg m' p n = seg m p n"
proof (rule nth_equalityI)
  fix k assume "k < length (seg m' p n)"
  then have k: "k < n" using assms by (simp add: same_def)
  then have "p + k \<in> A" using assms(2) by auto
  then show "seg m' p n ! k = seg m p n ! k" using assms k by (simp add: same_def)
qed (use assms in \<open>simp add: same_def\<close>)

lemma same_rd32: "same m m' A \<Longrightarrow> {p ..< p + 4} \<subseteq> A \<Longrightarrow> rd32 m' p = rd32 m p"
  using same_seg [of m m' A p 4] by (auto simp: rd32_def same_length)

lemma same_rd_bytes: "same m m' A \<Longrightarrow> {p ..< p + n} \<subseteq> A \<Longrightarrow> rd_bytes m' p n = rd_bytes m p n"
  using same_seg [of m m' A p n] by (auto simp: rd_bytes_def same_length)

lemma rd32_disjoint: "same m m' (- {a ..< b}) \<Longrightarrow> p + 4 \<le> a \<or> b \<le> p \<Longrightarrow> rd32 m' p = rd32 m p"
  by (rule same_rd32) auto

lemma wr_bytes_spec:
  assumes "p + length bs \<le> length m"
  shows "\<exists>m'. wr_bytes m p bs = Some m' \<and> same m m' (- {p ..< p + length bs}) \<and> rd_bytes m' p (length bs) = Some bs"
proof -
  let ?m = "take p m @ bs @ drop (p + length bs) m"
  have "?m ! i = m ! i" if "i < length m" "i \<notin> {p ..< p + length bs}" for i
    using that assms by (auto simp: nth_append min_def)
  moreover have "seg ?m p (length bs) = bs" using assms by (simp add: seg_def)
  ultimately show ?thesis using assms by (auto simp: wr_bytes_def same_def rd_bytes_def)
qed

lemma wr32_spec:
  assumes "p + 4 \<le> length m"
  shows "\<exists>m'. wr32 m p v = Some m' \<and> same m m' (- {p ..< p + 4}) \<and> rd32 m' p = Some v"
proof -
  obtain m' where m': "wr_bytes m p (le32 v) = Some m'" "same m m' (- {p ..< p + 4})" "rd_bytes m' p 4 = Some (le32 v)"
    using wr_bytes_spec [of p "le32 v" m] assms by auto
  then have "rd32 m' p = Some v" by (auto simp: rd_bytes_def rd32_def split: if_splits)
  then show ?thesis using m' by (auto simp: wr32_def)
qed

end
