(* ===== verification/Shm_Queue.thy ===== *)
theory Shm_Queue
  imports Sq_Memory
begin

text \<open>
  The shared-memory message queue of shmqueue/shm_queue.c: its data, the position arithmetic
  of its macros, \<open>sq_put\<close> and \<open>sq_get\<close> on the bytes of the node array, and the signalling of
  readers.  The functions are run by one process at a time; a compare-and-swap compares with
  the value read before it.
\<close>

section \<open>Data\<close>

definition TOKEN_NO_DATA :: "32 word" where "TOKEN_NO_DATA = 0"
definition TOKEN_SKIPPED :: "32 word" where "TOKEN_SKIPPED = 0xdb030000"
definition TOKEN_HAS_DATA :: "32 word" where "TOKEN_HAS_DATA = 0x0000db03"

definition SQ_MAX_READER_PROC_NUM :: int where "SQ_MAX_READER_PROC_NUM = 64"
definition SQ_MAX_CONFLICT_TRIES :: int where "SQ_MAX_CONFLICT_TRIES = 10"
definition MAX_SQ_DATA_LENGTH :: int where "MAX_SQ_DATA_LENGTH = 65536"
definition RESERVE_BLOCK_COUNT :: int where "RESERVE_BLOCK_COUNT = 100"

lemmas token_defs = TOKEN_NO_DATA_def TOKEN_SKIPPED_def TOKEN_HAS_DATA_def

text \<open>The header of a node: token, length, seconds, microseconds; 4 bytes each, then the data.\<close>

definition sizeof_node_head :: int where "sizeof_node_head = 16"

record sq_head_t =
  ele_size :: int
  ele_count :: int
  head_pos :: int
  tail_pos :: int
  sig_node_num :: int
  sig_process_num :: int
  pidnum :: int
  pidset :: "int list"
  sigmask :: "8 word list"
  siglock :: "int list"
  signr :: "int list"
  nodes :: "8 word list"

record shm_queue =
  head :: sq_head_t
  sig_idx :: int
  poll_fd :: int
  poll_fdset :: "int list"
  fifo_times :: "int list"
  shm_key :: "64 word"
  rw_conflict :: int

section \<open>Positions\<close>

text \<open>\<open>to_i32\<close> is the conversion of a wider integer to \<open>int\<close>.\<close>

definition to_i32 :: "int \<Rightarrow> int" where
  "to_i32 x = (x + 2 ^ 31) mod 2 ^ 32 - 2 ^ 31"

definition int_mod :: "int \<Rightarrow> int \<Rightarrow> int option" where
  "int_mod a b = (if b = 0 then None else Some (cmod a b))"

definition SQ_ADD_POS :: "sq_head_t \<Rightarrow> int \<Rightarrow> int \<Rightarrow> int option" where
  "SQ_ADD_POS q pos v = do { a \<leftarrow> i32 (pos + v); b \<leftarrow> i32 (ele_count q + 1); int_mod a b }"

definition SQ_ADD_TAIL :: "sq_head_t \<Rightarrow> int \<Rightarrow> int option" where
  "SQ_ADD_TAIL q v = SQ_ADD_POS q (tail_pos q) v"

definition SQ_EMPTY_NODES2 :: "sq_head_t \<Rightarrow> int \<Rightarrow> int option" where
  "SQ_EMPTY_NODES2 q h =
     do { a \<leftarrow> i32 (h + ele_count q); b \<leftarrow> i32 (a - tail_pos q); c \<leftarrow> i32 (ele_count q + 1); int_mod b c }"

definition SQ_EMPTY_NODES :: "sq_head_t \<Rightarrow> int option" where
  "SQ_EMPTY_NODES q = SQ_EMPTY_NODES2 q (head_pos q)"

definition SQ_USED_NODES2 :: "sq_head_t \<Rightarrow> int \<Rightarrow> int option" where
  "SQ_USED_NODES2 q h = do { e \<leftarrow> SQ_EMPTY_NODES2 q h; i32 (ele_count q - e) }"

definition SQ_USED_NODES :: "sq_head_t \<Rightarrow> int option" where
  "SQ_USED_NODES q = SQ_USED_NODES2 q (head_pos q)"

definition SQ_NODE_SIZE :: "sq_head_t \<Rightarrow> int" where
  "SQ_NODE_SIZE q = sizeof_node_head + ele_size q"

definition SQ_NUM_NEEDED_NODES :: "sq_head_t \<Rightarrow> int \<Rightarrow> int option" where
  "SQ_NUM_NEEDED_NODES q datalen =
     (if SQ_NODE_SIZE q = 0 then None
      else Some (to_i32 ((datalen + sizeof_node_head + SQ_NODE_SIZE q - 1) mod 2 ^ 64 div SQ_NODE_SIZE q)))"

definition SQ_GET :: "sq_head_t \<Rightarrow> int \<Rightarrow> nat option" where
  "SQ_GET q idx = (if 0 \<le> idx \<and> 0 \<le> SQ_NODE_SIZE q then Some (nat (idx * SQ_NODE_SIZE q)) else None)"

definition CAS32 :: "int \<Rightarrow> int \<Rightarrow> int \<Rightarrow> int \<times> bool" where
  "CAS32 cur old new = (if cur = old then (new, True) else (cur, False))"

section \<open>Signals\<close>

definition u32 :: "int \<Rightarrow> int" where "u32 x = x mod 2 ^ 32"

definition sq_set_sig_on :: "sq_head_t \<Rightarrow> int \<Rightarrow> (sq_head_t \<times> int) option" where
  "sq_set_sig_on q i =
     (if u32 i < u32 (pidnum q)
      then do { m \<leftarrow> rdi (sigmask q) (cdiv i 8);
                ms \<leftarrow> wri (sigmask q) (cdiv i 8) (m OR push_bit (nat (cmod i 8)) 1);
                Some (q\<lparr>sigmask := ms\<rparr>, 0) }
      else Some (q, - 1))"

definition sq_set_sig_off :: "sq_head_t \<Rightarrow> int \<Rightarrow> (sq_head_t \<times> int) option" where
  "sq_set_sig_off q i =
     (if u32 i < u32 (pidnum q)
      then do { m \<leftarrow> rdi (sigmask q) (cdiv i 8);
                ms \<leftarrow> wri (sigmask q) (cdiv i 8) (m AND NOT (push_bit (nat (cmod i 8)) 1));
                Some (q\<lparr>sigmask := ms\<rparr>, 0) }
      else Some (q, - 1))"

definition sq_sigon :: "shm_queue \<Rightarrow> (shm_queue \<times> int) option" where
  "sq_sigon sq =
     do { (q, r) \<leftarrow> sq_set_sig_on (head sq) (sig_idx sq);
          Some (sq\<lparr>head := q\<rparr>, if r \<noteq> 0 then - 1 else 0) }"

definition sq_sigoff :: "shm_queue \<Rightarrow> (shm_queue \<times> int) option" where
  "sq_sigoff sq =
     do { (q, r) \<leftarrow> sq_set_sig_off (head sq) (sig_idx sq);
          Some (sq\<lparr>head := q\<rparr>, if r \<noteq> 0 then - 1 else 0) }"

text \<open>
  What the operating system answers: which processes exist, the clock, the descriptor (or a
  negative number) that \<open>create_fifo\<close> gets for an index.
\<close>

record sq_env =
  pid_exists :: "int \<Rightarrow> bool"
  clock_sec :: int
  clock_usec :: int
  fifo_fd :: "int \<Rightarrow> int"
  getpid :: int

definition is_pid_valid :: "sq_env \<Rightarrow> int \<Rightarrow> bool" where
  "is_pid_valid env pid = (if pid = 0 then False else pid_exists env pid)"

text \<open>The two loops of \<open>verify_and_remove_bad_pids\<close>; \<open>n\<close> is \<open>i + 1\<close>.\<close>

fun drop_bad_pids :: "sq_env \<Rightarrow> nat \<Rightarrow> sq_head_t \<Rightarrow> (sq_head_t \<times> nat) option" where
  "drop_bad_pids env 0 q = Some (q, 0)"
| "drop_bad_pids env (Suc i) q =
     do { pid \<leftarrow> rd (pidset q) i;
          if is_pid_valid env pid then Some (q, Suc i)
          else do { (q1, _) \<leftarrow> sq_set_sig_off q (int i);
                    let (n, ok) = CAS32 (pidnum q1) (int i + 1) (int i);
                    if \<not> ok then Some (q1, Suc i) else drop_bad_pids env i (q1\<lparr>pidnum := n\<rparr>) } }"

fun zero_bad_pids :: "sq_env \<Rightarrow> nat \<Rightarrow> sq_head_t \<Rightarrow> sq_head_t option" where
  "zero_bad_pids env 0 q = Some q"
| "zero_bad_pids env (Suc i) q =
     do { oldpid \<leftarrow> rd (pidset q) i;
          q2 \<leftarrow> (if \<not> is_pid_valid env oldpid
                 then do { (q1, _) \<leftarrow> sq_set_sig_off q (int i);
                           ps \<leftarrow> wr (pidset q1) i 0; Some (q1\<lparr>pidset := ps\<rparr>) }
                 else Some q);
          zero_bad_pids env i q2 }"

definition verify_and_remove_bad_pids :: "sq_env \<Rightarrow> sq_head_t \<Rightarrow> sq_head_t option" where
  "verify_and_remove_bad_pids env q =
     (let newpidnum = (if pidnum q < 0 \<or> pidnum q > SQ_MAX_READER_PROC_NUM
                       then SQ_MAX_READER_PROC_NUM else pidnum q) in
      do { (q1, n) \<leftarrow> drop_bad_pids env (nat newpidnum) (q\<lparr>pidnum := newpidnum\<rparr>);
           zero_bad_pids env (n - 1) q1 })"

text \<open>\<open>signal_process\<close> returns the index it wrote a byte for, if it did.\<close>

definition signal_process :: "sq_env \<Rightarrow> shm_queue \<Rightarrow> int \<Rightarrow> (shm_queue \<times> int list \<times> int) option" where
  "signal_process env sq i =
     do { fd \<leftarrow> rdi (poll_fdset sq) i;
          sq \<leftarrow> (if fd \<le> 0
                 then do { ft \<leftarrow> rdi (fifo_times sq) i;
                           late \<leftarrow> (if ft = 0 then Some True else do { l \<leftarrow> i32 (ft + 60); Some (l \<le> clock_sec env) });
                           if late
                           then do { fts \<leftarrow> wri (fifo_times sq) i (to_i32 (clock_sec env));
                                     fds \<leftarrow> wri (poll_fdset sq) i (fifo_fd env i);
                                     Some (sq\<lparr>fifo_times := fts, poll_fdset := fds\<rparr>) }
                           else Some sq }
                 else Some sq);
          fd \<leftarrow> rdi (poll_fdset sq) i;
          if fd > 0
          then do { lk \<leftarrow> rdi (siglock (head sq)) i;
                    nr \<leftarrow> rdi (signr (head sq)) i;
                    let (lk1, ok) = CAS32 lk 0 1;
                    if ok \<or> nr > 10
                    then do { nrs \<leftarrow> wri (signr (head sq)) i 0;
                              lks \<leftarrow> wri (siglock (head sq)) i 0;
                              Some (sq\<lparr>head := (head sq)\<lparr>signr := nrs, siglock := lks\<rparr>\<rparr>, [i], 0) }
                    else do { nr1 \<leftarrow> i32 (nr + 1);
                              nrs \<leftarrow> wri (signr (head sq)) i nr1;
                              Some (sq\<lparr>head := (head sq)\<lparr>signr := nrs\<rparr>\<rparr>, [], 0) } }
          else Some (sq, [], - 1) }"

fun signal_loop :: "sq_env \<Rightarrow> int list \<Rightarrow> int \<Rightarrow> shm_queue \<Rightarrow> (shm_queue \<times> int list) option" where
  "signal_loop env [] nr sq = Some (sq, [])"
| "signal_loop env (i # is) nr sq =
     (if \<not> nr < sig_process_num (head sq) then Some (sq, [])
      else do { pid \<leftarrow> rdi (pidset (head sq)) i;
                m \<leftarrow> rdi (sigmask (head sq)) (cdiv i 8);
                if pid \<noteq> 0 \<and> m AND push_bit (nat (cmod i 8)) 1 \<noteq> 0
                then do { (sq, sent, _) \<leftarrow> signal_process env sq i;
                          (q, _) \<leftarrow> sq_set_sig_off (head sq) i;
                          (sq, more) \<leftarrow> signal_loop env is (nr + 1) (sq\<lparr>head := q\<rparr>);
                          Some (sq, sent @ more) }
                else signal_loop env is nr sq })"

section \<open>Adding data\<close>

partial_function (option) mark_skipped :: "sq_head_t \<Rightarrow> int \<Rightarrow> sq_head_t option" where
  "mark_skipped q old_tail =
     do { p \<leftarrow> SQ_GET q old_tail;
          m \<leftarrow> wr32 (nodes q) p TOKEN_SKIPPED;
          t \<leftarrow> SQ_ADD_POS q old_tail 1;
          if t \<noteq> 0 then mark_skipped (q\<lparr>nodes := m\<rparr>) t else Some (q\<lparr>nodes := m\<rparr>) }"

definition write_body :: "sq_env \<Rightarrow> sq_head_t \<Rightarrow> nat \<Rightarrow> 8 word list \<Rightarrow> int \<Rightarrow> sq_head_t option" where
  "write_body env q p data datalen =
     do { m \<leftarrow> wr32 (nodes q) (p + 4) (word_of_int datalen);
          m \<leftarrow> wr32 m (p + 8) (word_of_int (clock_sec env));
          m \<leftarrow> wr32 m (p + 12) (word_of_int (clock_usec env));
          m \<leftarrow> (if nat datalen \<le> length data then wr_bytes m (p + 16) (take (nat datalen) data) else None);
          Some (q\<lparr>nodes := m\<rparr>) }"

definition publish_node :: "sq_head_t \<Rightarrow> nat \<Rightarrow> sq_head_t option" where
  "publish_node q p = do { m \<leftarrow> wr32 (nodes q) p TOKEN_HAS_DATA; Some (q\<lparr>nodes := m\<rparr>) }"

definition write_node :: "sq_env \<Rightarrow> sq_head_t \<Rightarrow> nat \<Rightarrow> 8 word list \<Rightarrow> int \<Rightarrow> sq_head_t option" where
  "write_node env q p data datalen = do { q \<leftarrow> write_body env q p data datalen; publish_node q p }"

partial_function (option) put_loop :: "sq_env \<Rightarrow> sq_head_t \<Rightarrow> 8 word list \<Rightarrow> int \<Rightarrow> (sq_head_t \<times> int) option" where
  "put_loop env q data datalen =
     do { let old_tail = tail_pos q;
          nr \<leftarrow> SQ_NUM_NEEDED_NODES q datalen;
          empty \<leftarrow> SQ_EMPTY_NODES q;
          want \<leftarrow> i32 (nr + RESERVE_BLOCK_COUNT);
          if empty < want then Some (q, - 2)
          else do {
            new_tail \<leftarrow> SQ_ADD_TAIL q nr;
            let wrapped = new_tail < old_tail;
            let idx = (if wrapped then 0 else old_tail);
            let new_tail = (if wrapped then nr else new_tail);
            if wrapped \<and> head_pos q - 1 < nr then Some (q, - 2)
            else do {
              let (t, ok) = CAS32 (tail_pos q) old_tail new_tail;
              if \<not> ok then put_loop env q data datalen
              else do {
                let q = q\<lparr>tail_pos := t\<rparr>;
                q \<leftarrow> (if idx = 0 \<and> old_tail \<noteq> 0 then mark_skipped q old_tail else Some q);
                p \<leftarrow> SQ_GET q idx;
                q \<leftarrow> write_node env q p data datalen;
                Some (q, 0) } } } }"

text \<open>\<open>data = None\<close> is the null pointer; the result tells the indices a byte was sent for.\<close>

definition sq_put :: "sq_env \<Rightarrow> shm_queue \<Rightarrow> 8 word list option \<Rightarrow> int \<Rightarrow> (shm_queue \<times> int \<times> int list) option" where
  "sq_put env sq data datalen =
     (case data of
        None \<Rightarrow> Some (sq, - 1, [])
      | Some d \<Rightarrow>
        if datalen \<le> 0 \<or> datalen > MAX_SQ_DATA_LENGTH then Some (sq, - 1, [])
        else do {
          (q, r) \<leftarrow> put_loop env (head sq) d datalen;
          if r \<noteq> 0 then Some (sq\<lparr>head := q\<rparr>, r, [])
          else do {
            let sq = sq\<lparr>head := q\<rparr>;
            due \<leftarrow> (if sig_node_num q \<noteq> 0 then do { u \<leftarrow> SQ_USED_NODES q; Some (u \<ge> sig_node_num q) } else Some False);
            if due
            then do { (sq, sent) \<leftarrow> signal_loop env (map int [0..<nat (pidnum q)]) 0 sq; Some (sq, 0, sent) }
            else Some (sq, 0, []) } })"

definition sq_get_usage :: "shm_queue \<Rightarrow> int option" where
  "sq_get_usage sq =
     (if ele_count (head sq) \<noteq> 0
      then do { u \<leftarrow> SQ_USED_NODES (head sq); h \<leftarrow> i32 (u * 100); Some (cdiv h (ele_count (head sq))) }
      else Some 0)"

definition sq_get_used_blocks :: "shm_queue \<Rightarrow> int option" where
  "sq_get_used_blocks sq = SQ_USED_NODES (head sq)"

section \<open>Retrieving data\<close>

text \<open>
  The reading loop either returns from the function (\<open>Ret\<close>) or leaves with the old and the new
  head and the length (\<open>Done\<close>); \<open>tm\<close> is the caller's time stamp.
\<close>

datatype get_out =
    Ret shm_queue int "8 word list" "32 word \<times> 32 word"
  | Done shm_queue int int int "8 word list" "32 word \<times> 32 word"

partial_function (option) get_loop ::
    "shm_queue \<Rightarrow> 8 word list \<Rightarrow> int \<Rightarrow> 32 word \<times> 32 word \<Rightarrow> int \<Rightarrow> int \<Rightarrow> get_out option" where
  "get_loop sq buf buf_sz tm old_head hpos =
     (let q = head sq in
      if tail_pos q = hpos
      then (if hpos \<noteq> old_head \<and> snd (CAS32 (head_pos q) old_head hpos)
            then Some (Done (sq\<lparr>head := q\<lparr>head_pos := fst (CAS32 (head_pos q) old_head hpos)\<rparr>\<rparr>) old_head hpos 0 buf tm)
            else Some (Ret (sq\<lparr>rw_conflict := 0\<rparr>) 0 buf tm))
      else do {
        p \<leftarrow> SQ_GET q hpos;
        tok \<leftarrow> rd32 (nodes q) p;
        if tok \<noteq> TOKEN_HAS_DATA \<and> tok = TOKEN_NO_DATA \<and> rw_conflict sq < SQ_MAX_CONFLICT_TRIES
        then (if old_head \<noteq> head_pos q then get_loop sq buf buf_sz tm (head_pos q) (head_pos q)
              else Some (Ret (sq\<lparr>rw_conflict := rw_conflict sq + 1\<rparr>) 0 buf tm))
        else if tok \<noteq> TOKEN_HAS_DATA
        then do { h \<leftarrow> SQ_ADD_POS q hpos 1; get_loop sq buf buf_sz tm old_head h }
        else do {
          len \<leftarrow> rd32 (nodes q) (p + 4);
          let datalen = sint len;
          nr \<leftarrow> SQ_NUM_NEEDED_NODES q datalen;
          used \<leftarrow> SQ_USED_NODES2 q hpos;
          if used < nr then do { h \<leftarrow> SQ_ADD_POS q hpos 1; get_loop sq buf buf_sz tm old_head h }
          else do {
            new_head \<leftarrow> SQ_ADD_POS q hpos nr;
            let (h, ok) = CAS32 (head_pos q) old_head new_head;
            if ok then do {
              let sq = sq\<lparr>head := q\<lparr>head_pos := h\<rparr>\<rparr>;
              sec \<leftarrow> rd32 (nodes q) (p + 8);
              usec \<leftarrow> rd32 (nodes q) (p + 12);
              if datalen > buf_sz then Some (Ret sq (- 2) buf (sec, usec))
              else if datalen < 0 then None
              else do {
                d \<leftarrow> rd_bytes (nodes q) (p + 16) (nat datalen);
                b \<leftarrow> wr_bytes buf 0 d;
                Some (Done sq old_head new_head datalen b (sec, usec)) } }
            else get_loop sq buf buf_sz tm (head_pos q) (head_pos q) } } })"

partial_function (option) clear_tokens :: "sq_head_t \<Rightarrow> int \<Rightarrow> int \<Rightarrow> sq_head_t option" where
  "clear_tokens q old_head new_head =
     (if old_head = new_head then Some q
      else do { p \<leftarrow> SQ_GET q old_head;
                m \<leftarrow> wr32 (nodes q) p 0;
                h \<leftarrow> SQ_ADD_POS q old_head 1;
                clear_tokens (q\<lparr>nodes := m\<rparr>) h new_head })"

text \<open>\<open>buf = None\<close> is the null pointer.\<close>

definition sq_get :: "shm_queue \<Rightarrow> 8 word list option \<Rightarrow> int \<Rightarrow> 32 word \<times> 32 word
    \<Rightarrow> (shm_queue \<times> int \<times> 8 word list \<times> (32 word \<times> 32 word)) option" where
  "sq_get sq buf buf_sz tm =
     (case buf of
        None \<Rightarrow> Some (sq, - 1, [], tm)
      | Some b \<Rightarrow>
        if buf_sz < 1 then Some (sq, - 1, b, tm)
        else do {
          out \<leftarrow> get_loop sq b buf_sz tm (head_pos (head sq)) (head_pos (head sq));
          case out of
            Ret sq r b tm \<Rightarrow> Some (sq, r, b, tm)
          | Done sq old_head new_head datalen b tm \<Rightarrow>
              do { q \<leftarrow> clear_tokens (head sq) old_head new_head;
                   Some (sq\<lparr>head := q, rw_conflict := 0\<rparr>, datalen, b, tm) } })"

declare mark_skipped.simps [code] and put_loop.simps [code] and get_loop.simps [code] and clear_tokens.simps [code]

end
