(* ===== verification/Message_Queue.thy ===== *)
theory Message_Queue
  imports Prelude
begin

text \<open>
  The interface of a queue of whole messages: a producer's message is accepted or refused, a
  consumer gets the oldest one or nothing.  What is delivered followed by what is queued is
  what was queued followed by what was accepted.
\<close>

datatype 'm mq_op = MPut 'm | MGet

fun mq_run :: "('s \<Rightarrow> 'm \<Rightarrow> ('s \<times> bool) option) \<Rightarrow> ('s \<Rightarrow> ('s \<times> 'm option) option) \<Rightarrow> 's \<Rightarrow> 'm mq_op list
    \<Rightarrow> ('s \<times> 'm list \<times> 'm list) option" where
  "mq_run put get s [] = Some (s, [], [])"
| "mq_run put get s (MPut m # ops) =
     do { (s1, ok) \<leftarrow> put s m;
          (s2, acc, out) \<leftarrow> mq_run put get s1 ops;
          Some (s2, (if ok then m # acc else acc), out) }"
| "mq_run put get s (MGet # ops) =
     do { (s1, r) \<leftarrow> get s;
          (s2, acc, out) \<leftarrow> mq_run put get s1 ops;
          Some (s2, acc, (case r of None \<Rightarrow> out | Some m \<Rightarrow> m # out)) }"

fun mq_ok :: "('m \<Rightarrow> bool) \<Rightarrow> 'm mq_op \<Rightarrow> bool" where
  "mq_ok P (MPut m) \<longleftrightarrow> P m"
| "mq_ok P MGet \<longleftrightarrow> True"

text \<open>\<open>holds s ms\<close>: the state is sound and its queue is \<open>ms\<close>; \<open>fits\<close> tells when a message is accepted.\<close>

locale message_queue =
  fixes put :: "'s \<Rightarrow> 'm \<Rightarrow> ('s \<times> bool) option"
    and get :: "'s \<Rightarrow> ('s \<times> 'm option) option"
    and holds :: "'s \<Rightarrow> 'm list \<Rightarrow> bool"
    and fits :: "'s \<Rightarrow> 'm \<Rightarrow> bool"
    and msg_ok :: "'m \<Rightarrow> bool"
  assumes put_law: "holds s ms \<Longrightarrow> msg_ok m \<Longrightarrow>
      \<exists>s'. put s m = Some (s', fits s m) \<and> holds s' (if fits s m then ms @ [m] else ms)"
    and get_nil: "holds s [] \<Longrightarrow> \<exists>s'. get s = Some (s', None) \<and> holds s' []"
    and get_cons: "holds s (m # ms) \<Longrightarrow> \<exists>s'. get s = Some (s', Some m) \<and> holds s' ms"
begin

lemma run_in_order:
  "holds s ms \<Longrightarrow> list_all (mq_ok msg_ok) ops \<Longrightarrow>
   \<exists>s' ms' acc out. mq_run put get s ops = Some (s', acc, out) \<and> holds s' ms' \<and> out @ ms' = ms @ acc"
proof (induction ops arbitrary: s ms)
  case Nil
  then show ?case by auto
next
  case (Cons p ops)
  show ?case
  proof (cases p)
    case (MPut m)
    then obtain s1 where s1: "put s m = Some (s1, fits s m)" "holds s1 (if fits s m then ms @ [m] else ms)"
      using put_law [of s ms m] Cons.prems by auto
    obtain s' ms' acc out where "mq_run put get s1 ops = Some (s', acc, out)" "holds s' ms'"
      "out @ ms' = (if fits s m then ms @ [m] else ms) @ acc"
      using Cons.IH [OF s1(2)] Cons.prems by auto
    then show ?thesis using MPut s1(1) by (auto split: if_splits)
  next
    case MGet
    show ?thesis
    proof (cases ms)
      case Nil
      then obtain s1 where s1: "get s = Some (s1, None)" "holds s1 []" using get_nil Cons.prems by auto
      obtain s' ms' acc out where "mq_run put get s1 ops = Some (s', acc, out)" "holds s' ms'" "out @ ms' = [] @ acc"
        using Cons.IH [OF s1(2)] Cons.prems by auto
      then show ?thesis using MGet Nil s1(1) by auto
    next
      case (Cons m ms1)
      then obtain s1 where s1: "get s = Some (s1, Some m)" "holds s1 ms1" using get_cons [of s m ms1] Cons.prems by auto
      obtain s' ms' acc out where "mq_run put get s1 ops = Some (s', acc, out)" "holds s' ms'" "out @ ms' = ms1 @ acc"
        using Cons.IH [OF s1(2)] Cons.prems by auto
      then show ?thesis using MGet Cons s1(1) by auto
    qed
  qed
qed

lemma put_get_singleton:
  assumes "holds s []" "msg_ok m" "fits s m"
  shows "\<exists>s1 s2. put s m = Some (s1, True) \<and> get s1 = Some (s2, Some m) \<and> holds s2 []"
  using put_law [OF assms(1,2)] assms(3) get_cons by fastforce

end

end
