(* ===== verification/Sq_Fifo.thy ===== *)
theory Sq_Fifo
  imports Shm_Queue Message_Queue
begin

text \<open>
  \<open>sq_put\<close> and \<open>sq_get\<close> as a first-in first-out queue of messages: the layout of messages and
  skipped nodes between head and tail, its invariance under both operations, and the runs.
\<close>

section \<open>Layout\<close>

text \<open>Between head and tail lie messages, each on consecutive nodes, and single skipped nodes.\<close>

datatype item = Skip | Msg "8 word list"

definition need :: "nat \<Rightarrow> nat \<Rightarrow> nat" where
  "need ns d = (d + 16 + ns - 1) div ns"

fun cells :: "nat \<Rightarrow> item list \<Rightarrow> nat" where
  "cells ns [] = 0"
| "cells ns (Skip # its) = Suc (cells ns its)"
| "cells ns (Msg d # its) = need ns (length d) + cells ns its"

fun messages :: "item list \<Rightarrow> 8 word list list" where
  "messages [] = []"
| "messages (Skip # its) = messages its"
| "messages (Msg d # its) = d # messages its"

definition msg_at :: "8 word list \<Rightarrow> nat \<Rightarrow> nat \<Rightarrow> 8 word list \<Rightarrow> bool" where
  "msg_at m ns p d \<longleftrightarrow> rd32 m (p * ns) = Some TOKEN_HAS_DATA \<and> rd32 m (p * ns + 4) = Some (of_nat (length d))
     \<and> rd32 m (p * ns + 8) \<noteq> None \<and> rd32 m (p * ns + 12) \<noteq> None
     \<and> rd_bytes m (p * ns + 16) (length d) = Some d"

fun lay :: "8 word list \<Rightarrow> nat \<Rightarrow> nat \<Rightarrow> nat \<Rightarrow> item list \<Rightarrow> bool" where
  "lay m N ns p [] \<longleftrightarrow> True"
| "lay m N ns p (Skip # its) \<longleftrightarrow> rd32 m (p * ns) = Some TOKEN_SKIPPED \<and> lay m N ns (Suc p mod N) its"
| "lay m N ns p (Msg d # its) \<longleftrightarrow> 0 < length d \<and> length d \<le> 65536 \<and> p + need ns (length d) < N
     \<and> msg_at m ns p d \<and> lay m N ns (p + need ns (length d)) its"

definition region :: "nat \<Rightarrow> nat \<Rightarrow> nat \<Rightarrow> nat \<Rightarrow> nat set" where
  "region N ns p c = {b. \<exists>k < c. b div ns = (p + k) mod N}"

lemma need_bounds:
  assumes "16 < ns"
  shows "16 + d \<le> need ns d * ns" "0 < need ns d" "need ns d \<le> d + 16"
proof -
  have e: "need ns d * ns + (d + 16 + ns - 1) mod ns = d + 16 + ns - 1" by (simp add: need_def)
  have "(d + 16 + ns - 1) mod ns < ns" using assms by simp
  then show a: "16 + d \<le> need ns d * ns" using e by linarith
  then show "0 < need ns d" by (cases "need ns d") auto
  show "need ns d \<le> d + 16"
  proof (rule ccontr)
    assume "\<not> need ns d \<le> d + 16"
    then have "Suc (d + 16) * ns \<le> need ns d * ns" by (intro mult_le_mono) auto
    then have "Suc (d + 16) * ns \<le> d + 16 + ns - 1" using e by linarith
    moreover have "d + 16 \<le> (d + 16) * ns" using assms by simp
    ultimately show False using assms by (simp only: mult_Suc)
  qed
qed

lemma cells_append [simp]: "cells ns (xs @ ys) = cells ns xs + cells ns ys"
proof (induction xs)
  case (Cons x xs)
  then show ?case by (cases x) auto
qed simp

lemma messages_append [simp]: "messages (xs @ ys) = messages xs @ messages ys"
  by (induction xs rule: messages.induct) auto

lemma lay_append:
  "p < N \<Longrightarrow> lay m N ns p (xs @ ys) \<longleftrightarrow> lay m N ns p xs \<and> lay m N ns ((p + cells ns xs) mod N) ys"
proof (induction xs arbitrary: p)
  case (Cons x xs)
  show ?case
  proof (cases x)
    case Skip
    then have "lay m N ns (Suc p mod N) (xs @ ys)
        \<longleftrightarrow> lay m N ns (Suc p mod N) xs \<and> lay m N ns ((Suc p mod N + cells ns xs) mod N) ys"
      using Cons.prems by (intro Cons.IH) simp
    moreover have "(Suc p mod N + cells ns xs) mod N = (p + Suc (cells ns xs)) mod N"
      by (simp add: mod_add_left_eq)
    ultimately show ?thesis using Skip by auto
  next
    case (Msg d)
    then show ?thesis using Cons.IH [of "p + need ns (length d)"] by (auto simp: add.assoc)
  qed
qed simp

lemma region_node:
  assumes "k < c" "p + k < N" "(p + k) * ns \<le> b" "b < Suc (p + k) * ns"
  shows "b \<in> region N ns p c"
proof -
  have "b div ns = p + k" using assms(3,4) by (intro div_nat_eqI) (simp_all add: mult.commute)
  then show ?thesis using assms(1,2) by (auto simp: region_def)
qed

lemma region_first:
  assumes "p + n < N" "n \<le> c" "0 < ns"
  shows "{p * ns ..< (p + n) * ns} \<subseteq> region N ns p c"
proof
  fix b assume b: "b \<in> {p * ns ..< (p + n) * ns}"
  have "p \<le> b div ns" "b div ns < p + n"
    using b assms(3) by (auto simp: less_eq_div_iff_mult_less_eq div_less_iff_less_mult mult.commute)
  then show "b \<in> region N ns p c"
    using assms(1,2) by (auto simp: region_def intro!: exI [of _ "b div ns - p"])
qed

lemma region_Suc_subset: "region N ns (Suc p mod N) c \<subseteq> region N ns p (Suc c)"
proof
  fix b assume "b \<in> region N ns (Suc p mod N) c"
  then obtain k where "k < c" "b div ns = (Suc p mod N + k) mod N" by (auto simp: region_def)
  then show "b \<in> region N ns p (Suc c)"
    by (auto simp: region_def mod_add_left_eq intro!: exI [of _ "Suc k"])
qed

lemma region_add_subset: "region N ns (p + n) c \<subseteq> region N ns p (n + c)"
proof
  fix b assume "b \<in> region N ns (p + n) c"
  then obtain k where "k < c" "b div ns = (p + n + k) mod N" by (auto simp: region_def)
  then show "b \<in> region N ns p (n + c)"
    by (auto simp: region_def add.assoc intro!: exI [of _ "n + k"])
qed

lemma msg_at_same:
  assumes "same m m' A" "{p * ns ..< (p + need ns (length d)) * ns} \<subseteq> A" "16 < ns" "msg_at m ns p d"
  shows "msg_at m' ns p d"
proof -
  have len: "p * ns + 16 + length d \<le> (p + need ns (length d)) * ns"
    using need_bounds(1) [OF assms(3), of "length d"] by (simp add: add_mult_distrib)
  have s: "{p * ns + a ..< p * ns + a + b} \<subseteq> A" if "a + b \<le> 16 + length d" for a b
    using assms(2) len that by auto
  have "rd32 m' (p * ns + a) = rd32 m (p * ns + a)" if "a + 4 \<le> 16" for a
    using same_rd32 [OF assms(1) s [of a 4]] that by simp
  note r = this [of 0] this [of 4] this [of 8] this [of 12]
  moreover have "rd_bytes m' (p * ns + 16) (length d) = rd_bytes m (p * ns + 16) (length d)"
    using same_rd_bytes [OF assms(1) s [of 16 "length d"]] by simp
  ultimately show ?thesis using assms(4) by (simp add: msg_at_def)
qed

lemma lay_same:
  assumes "same m m' A" "16 < ns"
  shows "p < N \<Longrightarrow> region N ns p (cells ns its) \<subseteq> A \<Longrightarrow> lay m N ns p its \<Longrightarrow> lay m' N ns p its"
proof (induction its arbitrary: p)
  case (Cons x its)
  show ?case
  proof (cases x)
    case Skip
    have "{p * ns ..< p * ns + 4} \<subseteq> region N ns p (Suc (cells ns its))"
    proof
      fix b assume "b \<in> {p * ns ..< p * ns + 4}"
      then show "b \<in> region N ns p (Suc (cells ns its))"
        using Cons.prems(1) assms(2) by (intro region_node [of 0]) auto
    qed
    then have "rd32 m' (p * ns) = rd32 m (p * ns)"
      using Cons.prems(2) Skip by (intro same_rd32 [OF assms(1)]) auto
    moreover have "lay m' N ns (Suc p mod N) its"
      using Cons.prems Skip region_Suc_subset [of N ns p "cells ns its"] by (intro Cons.IH) auto
    ultimately show ?thesis using Cons.prems(3) Skip by simp
  next
    case (Msg d)
    let ?n = "need ns (length d)"
    have "{p * ns ..< (p + ?n) * ns} \<subseteq> region N ns p (cells ns (x # its))"
      using Cons.prems(3) Msg assms(2) by (intro region_first) auto
    then have "msg_at m' ns p d"
      using Cons.prems Msg assms(2) by (intro msg_at_same [OF assms(1)]) auto
    moreover have "lay m' N ns (p + ?n) its"
      using Cons.prems Msg region_add_subset [of N ns p ?n "cells ns its"] by (intro Cons.IH) auto
    ultimately show ?thesis using Cons.prems(3) Msg by simp
  qed
qed simp

text \<open>Positions that are less than a whole turn apart are different.\<close>

lemma turn_inj:
  fixes h N :: nat
  assumes "(h + a) mod N = (h + b) mod N" "a < N" "b < N"
  shows "a = b"
proof -
  have "(int h + int a) mod int N = (int h + int b) mod int N"
    using assms(1) by (metis of_nat_add zmod_int)
  then have "int a mod int N = int b mod int N"
    by (metis add_diff_cancel_left' mod_diff_left_eq mod_diff_right_eq)
  then show ?thesis using assms(2,3) by simp
qed

section \<open>Validity\<close>

definition NN :: "sq_head_t \<Rightarrow> nat" where "NN q = nat (ele_count q + 1)"
definition NS :: "sq_head_t \<Rightarrow> nat" where "NS q = nat (16 + ele_size q)"

lemma NN_NS_upd [simp]:
  "NN (q\<lparr>tail_pos := t\<rparr>) = NN q" "NS (q\<lparr>tail_pos := t\<rparr>) = NS q"
  "NN (q\<lparr>head_pos := t\<rparr>) = NN q" "NS (q\<lparr>head_pos := t\<rparr>) = NS q"
  "NN (q\<lparr>nodes := m\<rparr>) = NN q" "NS (q\<lparr>nodes := m\<rparr>) = NS q"
  by (simp_all add: NN_def NS_def)

definition sq_geometry :: "sq_head_t \<Rightarrow> bool" where
  "sq_geometry q \<longleftrightarrow> RESERVE_BLOCK_COUNT < ele_count q \<and> ele_count q < 2 ^ 30
     \<and> 0 < ele_size q \<and> ele_size q < 2 ^ 31
     \<and> 0 \<le> head_pos q \<and> head_pos q \<le> ele_count q \<and> 0 \<le> tail_pos q \<and> tail_pos q \<le> ele_count q
     \<and> NN q * NS q \<le> length (nodes q)"

definition sq_layout :: "sq_head_t \<Rightarrow> item list \<Rightarrow> bool" where
  "sq_layout q its \<longleftrightarrow> sq_geometry q \<and> lay (nodes q) (NN q) (NS q) (nat (head_pos q)) its
     \<and> cells (NS q) its < NN q \<and> nat (tail_pos q) = (nat (head_pos q) + cells (NS q) its) mod NN q"

lemma sq_geometryD:
  assumes "sq_geometry q"
  shows "100 < ele_count q" "ele_count q < 2 ^ 30" "16 < NS q" "int (NN q) = ele_count q + 1"
    "int (NS q) = 16 + ele_size q" "SQ_NODE_SIZE q = int (NS q)" "101 < NN q" "ele_size q < 2 ^ 31"
    "nat (head_pos q) < NN q" "nat (tail_pos q) < NN q" "NN q * NS q \<le> length (nodes q)"
  using assms by (auto simp: sq_geometry_def RESERVE_BLOCK_COUNT_def NN_def NS_def SQ_NODE_SIZE_def sizeof_node_head_def)

lemma SQ_GET_eq:
  assumes "sq_geometry q"
  shows "SQ_GET q (int i) = Some (i * NS q)"
  using sq_geometryD(6) [OF assms] by (simp add: SQ_GET_def flip: of_nat_mult)

lemma SQ_ADD_POS_eq:
  assumes "sq_geometry q" "p < NN q" "n < NN q"
  shows "SQ_ADD_POS q (int p) (int n) = Some (int ((p + n) mod NN q))"
proof -
  note g = sq_geometryD [OF assms(1)]
  have "int p + int n < 2 ^ 31" using g(2,4) assms(2,3) by simp
  then show ?thesis using g(1,2,4) by (simp add: SQ_ADD_POS_def int_mod_def zmod_int)
qed

lemma SQ_EMPTY_eq:
  assumes q: "sq_geometry q" and p: "p < NN q" and c: "c < NN q"
    and t: "nat (tail_pos q) = (p + c) mod NN q"
  shows "SQ_EMPTY_NODES2 q (int p) = Some (ele_count q - int c)"
    "SQ_USED_NODES2 q (int p) = Some (int c)"
proof -
  note g = sq_geometryD [OF q]
  have tp: "tail_pos q = (int p + int c) mod int (NN q)" "0 \<le> tail_pos q" "tail_pos q \<le> ele_count q"
    using t q by (auto simp: sq_geometry_def nat_eq_iff zmod_int)
  have r: "0 \<le> int p + ele_count q - tail_pos q" "int p + ele_count q < 2 ^ 31"
    using tp p g(2,4) by auto
  have "(int p + ele_count q - tail_pos q) mod int (NN q) = (int p + ele_count q - (int p + int c)) mod int (NN q)"
    unfolding tp(1) by (simp add: mod_diff_right_eq)
  also have "\<dots> = ele_count q - int c" using c g(4) by simp
  finally have m: "(int p + ele_count q - tail_pos q) mod (ele_count q + 1) = ele_count q - int c"
    using g(4) by simp
  show e: "SQ_EMPTY_NODES2 q (int p) = Some (ele_count q - int c)"
    using r tp(2,3) g(1,2) m by (simp add: SQ_EMPTY_NODES2_def int_mod_def)
  have "c < 2 ^ 31" using c g(2,4) by simp
  then show "SQ_USED_NODES2 q (int p) = Some (int c)"
    using e by (simp add: SQ_USED_NODES2_def)
qed

lemma SQ_NEEDED_eq:
  assumes q: "sq_geometry q" and d: "0 < d" "d \<le> 65536"
  shows "SQ_NUM_NEEDED_NODES q (int d) = Some (int (need (NS q) d))"
proof -
  note g = sq_geometryD [OF q]
  have "int d + 16 + int (NS q) - 1 = int (d + 16 + NS q - 1)" using g(3) by simp
  moreover have "int (d + 16 + NS q - 1) < 2 ^ 64" using d g(5,8) by simp
  ultimately have a: "(int d + sizeof_node_head + SQ_NODE_SIZE q - 1) mod 2 ^ 64 div SQ_NODE_SIZE q
      = int (need (NS q) d)"
    using g(6) by (simp add: sizeof_node_head_def need_def zdiv_int)
  have "need (NS q) d \<le> 65552" using need_bounds(3) [OF g(3), of d] d by linarith
  then have "to_i32 (int (need (NS q) d)) = int (need (NS q) d)" by (simp add: to_i32_def)
  then show ?thesis using a g(3,6) by (simp add: SQ_NUM_NEEDED_NODES_def)
qed

text \<open>Only the bytes of the nodes change.\<close>

definition nodes_only :: "sq_head_t \<Rightarrow> sq_head_t \<Rightarrow> nat set \<Rightarrow> bool" where
  "nodes_only q q' A \<longleftrightarrow> (\<exists>m. q' = q\<lparr>nodes := m\<rparr> \<and> same (nodes q) m (- A))"

lemma nodes_onlyD:
  assumes "nodes_only q q' A"
  shows "NN q' = NN q" "NS q' = NS q" "sq_geometry q' = sq_geometry q" "head_pos q' = head_pos q"
    "tail_pos q' = tail_pos q" "ele_count q' = ele_count q" "same (nodes q) (nodes q') (- A)"
    "length (nodes q') = length (nodes q)"
  using assms by (auto simp: nodes_only_def NN_def NS_def sq_geometry_def same_def)

lemma nodes_only_trans:
  "nodes_only a b A \<Longrightarrow> nodes_only b c B \<Longrightarrow> nodes_only a c (A \<union> B)"
  by (auto simp: nodes_only_def same_def)

lemma nodes_only_mono: "nodes_only a b A \<Longrightarrow> A \<subseteq> B \<Longrightarrow> nodes_only a b B"
  unfolding nodes_only_def by (blast intro: same_mono)

lemma node_fits:
  assumes "sq_geometry q" "p + n \<le> NN q"
  shows "(p + n) * NS q \<le> length (nodes q)"
proof -
  have "(p + n) * NS q \<le> NN q * NS q" using assms(2) by (intro mult_le_mono) auto
  then show ?thesis using sq_geometryD(11) [OF assms(1)] by linarith
qed

section \<open>Writing\<close>

lemma mark_skipped_spec:
  "sq_geometry q \<Longrightarrow> 0 < t \<Longrightarrow> t < NN q \<Longrightarrow>
   \<exists>q'. mark_skipped q (int t) = Some q' \<and> nodes_only q q' {t * NS q ..< NN q * NS q}
     \<and> (\<forall>i. t \<le> i \<longrightarrow> i < NN q \<longrightarrow> rd32 (nodes q') (i * NS q) = Some TOKEN_SKIPPED)"
proof (induction "NN q - t" arbitrary: q t)
  case 0
  then show ?case by simp
next
  case (Suc n)
  note g = sq_geometryD [OF Suc.prems(1)]
  have fit: "t * NS q + NS q \<le> length (nodes q)" "t * NS q + NS q \<le> NN q * NS q"
  proof -
    have "Suc t * NS q \<le> NN q * NS q" using Suc.prems(3) by (intro mult_le_mono) auto
    then show "t * NS q + NS q \<le> NN q * NS q" by simp
    then show "t * NS q + NS q \<le> length (nodes q)" using g(11) by linarith
  qed
  obtain m where m: "wr32 (nodes q) (t * NS q) TOKEN_SKIPPED = Some m"
    "same (nodes q) m (- {t * NS q ..< t * NS q + 4})" "rd32 m (t * NS q) = Some TOKEN_SKIPPED"
    using wr32_spec [of "t * NS q" "nodes q" TOKEN_SKIPPED] fit g(3) by auto
  let ?q = "q\<lparr>nodes := m\<rparr>"
  have "same (nodes q) m (- {t * NS q ..< NN q * NS q})"
    using m(2) by (rule same_mono) (use fit g(3) in auto)
  then have no: "nodes_only q ?q {t * NS q ..< NN q * NS q}" by (auto simp: nodes_only_def)
  note nq = nodes_onlyD [OF no]
  have step: "mark_skipped q (int t)
      = (if Suc t mod NN q \<noteq> 0 then mark_skipped ?q (int (Suc t mod NN q)) else Some ?q)"
    using m(1) SQ_ADD_POS_eq [OF Suc.prems(1,3), of 1] g(7) SQ_GET_eq [OF Suc.prems(1), of t]
    by (subst mark_skipped.simps) simp
  show ?case
  proof (cases "Suc t = NN q")
    case True
    have "rd32 m (i * NS q) = Some TOKEN_SKIPPED" if "t \<le> i" "i < NN q" for i
    proof -
      have "i = t" using that True by simp
      then show ?thesis using m(3) by simp
    qed
    then show ?thesis using step True no by auto
  next
    case False
    then have lt: "Suc t < NN q" using Suc.prems(3) by simp
    have "\<exists>q'. mark_skipped ?q (int (Suc t)) = Some q' \<and> nodes_only ?q q' {Suc t * NS ?q ..< NN ?q * NS ?q}
        \<and> (\<forall>i. Suc t \<le> i \<longrightarrow> i < NN ?q \<longrightarrow> rd32 (nodes q') (i * NS ?q) = Some TOKEN_SKIPPED)"
      using Suc.hyps(2) Suc.prems(1) lt nq by (intro Suc.hyps(1)) auto
    then obtain q' where q': "mark_skipped ?q (int (Suc t)) = Some q'" "nodes_only ?q q' {Suc t * NS q ..< NN q * NS q}"
      "\<forall>i. Suc t \<le> i \<longrightarrow> i < NN q \<longrightarrow> rd32 (nodes q') (i * NS q) = Some TOKEN_SKIPPED"
      unfolding nq by blast
    have "rd32 (nodes q') (t * NS q) = rd32 m (t * NS q)"
      using rd32_disjoint [OF nodes_onlyD(7) [OF q'(2)], of "t * NS q"] g(3) by simp
    then have "\<forall>i. t \<le> i \<longrightarrow> i < NN q \<longrightarrow> rd32 (nodes q') (i * NS q) = Some TOKEN_SKIPPED"
      using q'(3) m(3) by (metis le_antisym not_less_eq_eq)
    moreover have "nodes_only q q' {t * NS q ..< NN q * NS q}"
      using nodes_only_trans [OF no q'(2)] by (rule back_subst [of "nodes_only q q'"]) auto
    ultimately show ?thesis using step lt q'(1) by auto
  qed
qed

definition body_at :: "8 word list \<Rightarrow> nat \<Rightarrow> nat \<Rightarrow> 8 word list \<Rightarrow> bool" where
  "body_at m ns p d \<longleftrightarrow> rd32 m (p * ns + 4) = Some (of_nat (length d))
     \<and> rd32 m (p * ns + 8) \<noteq> None \<and> rd32 m (p * ns + 12) \<noteq> None
     \<and> rd_bytes m (p * ns + 16) (length d) = Some d"

lemma msg_at_body: "msg_at m ns p d \<longleftrightarrow> rd32 m (p * ns) = Some TOKEN_HAS_DATA \<and> body_at m ns p d"
  by (simp add: msg_at_def body_at_def)

lemma write_body_spec:
  assumes q: "sq_geometry q" and d: "0 < length d" "length d \<le> 65536" and p: "p + need (NS q) (length d) \<le> NN q"
  shows "\<exists>q'. write_body env q (p * NS q) d (int (length d)) = Some q'
    \<and> nodes_only q q' {p * NS q + 4 ..< (p + need (NS q) (length d)) * NS q} \<and> body_at (nodes q') (NS q) p d"
proof -
  note g = sq_geometryD [OF q]
  let ?a = "p * NS q" and ?e = "(p + need (NS q) (length d)) * NS q"
  have len: "?a + 16 + length d \<le> ?e"
    using need_bounds(1) [OF g(3), of "length d"] by (simp add: add_mult_distrib)
  have fit: "?e \<le> length (nodes q)" by (rule node_fits [OF q p])
  obtain m1 where m1: "wr32 (nodes q) (?a + 4) (word_of_int (int (length d))) = Some m1"
    "same (nodes q) m1 (- {?a + 4 ..< ?a + 8})" "rd32 m1 (?a + 4) = Some (of_nat (length d))"
    using wr32_spec [of "?a + 4" "nodes q" "word_of_int (int (length d))"] fit len by (auto simp: add.assoc)
  obtain m2 where m2: "wr32 m1 (?a + 8) (word_of_int (clock_sec env)) = Some m2"
    "same m1 m2 (- {?a + 8 ..< ?a + 12})" "rd32 m2 (?a + 8) = Some (word_of_int (clock_sec env))"
    using wr32_spec [of "?a + 8" m1 "word_of_int (clock_sec env)"] fit len same_length [OF m1(2)] by (auto simp: add.assoc)
  obtain m3 where m3: "wr32 m2 (?a + 12) (word_of_int (clock_usec env)) = Some m3"
    "same m2 m3 (- {?a + 12 ..< ?a + 16})" "rd32 m3 (?a + 12) = Some (word_of_int (clock_usec env))"
    using wr32_spec [of "?a + 12" m2 "word_of_int (clock_usec env)"] fit len same_length [OF m1(2)] same_length [OF m2(2)]
    by (auto simp: add.assoc)
  obtain m4 where m4: "wr_bytes m3 (?a + 16) d = Some m4"
    "same m3 m4 (- {?a + 16 ..< ?a + 16 + length d})" "rd_bytes m4 (?a + 16) (length d) = Some d"
    using wr_bytes_spec [of "?a + 16" d m3] fit len same_length [OF m1(2)] same_length [OF m2(2)] same_length [OF m3(2)] by auto
  have "rd32 m4 (?a + 4) = rd32 m1 (?a + 4)"
    using rd32_disjoint [OF m4(2), of "?a + 4"] rd32_disjoint [OF m3(2), of "?a + 4"] rd32_disjoint [OF m2(2), of "?a + 4"] by simp
  moreover have "rd32 m4 (?a + 8) = rd32 m2 (?a + 8)"
    using rd32_disjoint [OF m4(2), of "?a + 8"] rd32_disjoint [OF m3(2), of "?a + 8"] by simp
  moreover have "rd32 m4 (?a + 12) = rd32 m3 (?a + 12)" using rd32_disjoint [OF m4(2), of "?a + 12"] by simp
  ultimately have "body_at m4 (NS q) p d" using m1(3) m2(3) m3(3) m4(3) by (simp add: body_at_def)
  moreover have "same (nodes q) m4 (- {?a + 4 ..< ?e})"
    using m1(2) m2(2) m3(2) m4(2) len by (auto simp: same_def)
  ultimately show ?thesis
    using m1(1) m2(1) m3(1) m4(1) by (auto simp: write_body_def nodes_only_def intro!: exI [of _ "q\<lparr>nodes := m4\<rparr>"])
qed

lemma body_at_same:
  assumes "same m m' A" "{p * ns + 4 ..< (p + need ns (length d)) * ns} \<subseteq> A" "16 < ns"
  shows "body_at m' ns p d = body_at m ns p d"
proof -
  have len: "p * ns + 16 + length d \<le> (p + need ns (length d)) * ns"
    using need_bounds(1) [OF assms(3), of "length d"] by (simp add: add_mult_distrib)
  have s: "{p * ns + a ..< p * ns + a + n} \<subseteq> A" if "4 \<le> a" "a + n \<le> 16 + length d" for a n
    using assms(2) len that by auto
  have "rd32 m' (p * ns + a) = rd32 m (p * ns + a)" if "4 \<le> a" "a + 4 \<le> 16" for a
    using same_rd32 [OF assms(1) s [of a 4]] that by simp
  note r = this [of 4] this [of 8] this [of 12]
  moreover have "rd_bytes m' (p * ns + 16) (length d) = rd_bytes m (p * ns + 16) (length d)"
    using same_rd_bytes [OF assms(1) s [of 16 "length d"]] by simp
  ultimately show ?thesis by (simp add: body_at_def)
qed

lemma wr32_node:
  assumes g: "sq_geometry q" and x: "x < NN q"
  shows "\<exists>m. wr32 (nodes q) (x * NS q) v = Some m \<and> nodes_only q (q\<lparr>nodes := m\<rparr>) {x * NS q ..< (x + 1) * NS q}
    \<and> same (nodes q) m (- {x * NS q ..< x * NS q + 4}) \<and> rd32 m (x * NS q) = Some v"
proof -
  note gd = sq_geometryD [OF g]
  have "(x + 1) * NS q \<le> length (nodes q)" using node_fits [OF g, of x 1] x by simp
  then have fit: "x * NS q + 4 \<le> length (nodes q)" using gd(3) by simp
  obtain m where m: "wr32 (nodes q) (x * NS q) v = Some m" "same (nodes q) m (- {x * NS q ..< x * NS q + 4})"
    "rd32 m (x * NS q) = Some v"
    using wr32_spec [OF fit] by blast
  have "same (nodes q) m (- {x * NS q ..< (x + 1) * NS q})"
    using m(2) by (rule same_mono) (use gd(3) in auto)
  then show ?thesis using m by (auto simp: nodes_only_def)
qed

lemma publish_spec:
  assumes q: "sq_geometry q" and d: "0 < length d" and p: "p < NN q" and b: "body_at (nodes q) (NS q) p d"
  shows "\<exists>q'. publish_node q (p * NS q) = Some q'
    \<and> nodes_only q q' {p * NS q ..< (p + need (NS q) (length d)) * NS q} \<and> msg_at (nodes q') (NS q) p d"
proof -
  note gd = sq_geometryD [OF q]
  obtain m where m: "wr32 (nodes q) (p * NS q) TOKEN_HAS_DATA = Some m"
    "nodes_only q (q\<lparr>nodes := m\<rparr>) {p * NS q ..< (p + 1) * NS q}"
    "same (nodes q) m (- {p * NS q ..< p * NS q + 4})" "rd32 m (p * NS q) = Some TOKEN_HAS_DATA"
    using wr32_node [OF q p] by blast
  have "{p * NS q + 4 ..< e} \<subseteq> - {p * NS q ..< p * NS q + 4}" for e by (rule subsetI) simp
  then have "body_at m (NS q) p d" using body_at_same [OF m(3) _ gd(3), of p d] b by simp
  moreover have "(p + 1) * NS q \<le> (p + need (NS q) (length d)) * NS q"
    using need_bounds(2) [OF gd(3), of "length d"] by (intro mult_le_mono1) simp
  then have "nodes_only q (q\<lparr>nodes := m\<rparr>) {p * NS q ..< (p + need (NS q) (length d)) * NS q}"
    using m(2) by (elim nodes_only_mono) auto
  ultimately show ?thesis using m(1,4) by (auto simp: publish_node_def msg_at_body)
qed

lemma write_node_spec:
  assumes q: "sq_geometry q" and d: "0 < length d" "length d \<le> 65536" and p: "p + need (NS q) (length d) \<le> NN q"
  shows "\<exists>q'. write_node env q (p * NS q) d (int (length d)) = Some q'
    \<and> nodes_only q q' {p * NS q ..< (p + need (NS q) (length d)) * NS q} \<and> msg_at (nodes q') (NS q) p d"
proof -
  note g = sq_geometryD [OF q]
  obtain q1 where q1: "write_body env q (p * NS q) d (int (length d)) = Some q1"
    "nodes_only q q1 {p * NS q + 4 ..< (p + need (NS q) (length d)) * NS q}" "body_at (nodes q1) (NS q) p d"
    using write_body_spec [OF q d p] by blast
  note n1 = nodes_onlyD [OF q1(2)]
  have "p < NN q1" using p need_bounds(2) [OF g(3), of "length d"] n1(1) by simp
  then obtain q2 where "publish_node q1 (p * NS q) = Some q2"
    "nodes_only q1 q2 {p * NS q ..< (p + need (NS q) (length d)) * NS q}" "msg_at (nodes q2) (NS q) p d"
    using publish_spec [of q1 d p] q1(3) q d(1) n1(2,3) by auto
  moreover have "nodes_only q q2 ({p * NS q + 4 ..< (p + need (NS q) (length d)) * NS q} \<union> {p * NS q ..< (p + need (NS q) (length d)) * NS q})"
    by (rule nodes_only_trans [OF q1(2) calculation(2)])
  then have "nodes_only q q2 {p * NS q ..< (p + need (NS q) (length d)) * NS q}" by (rule nodes_only_mono) auto
  ultimately show ?thesis using q1(1) by (simp add: write_node_def)
qed

section \<open>sq_put\<close>

definition sq_used :: "sq_head_t \<Rightarrow> nat" where
  "sq_used q = nat ((tail_pos q - head_pos q) mod int (NN q))"

text \<open>A message of \<open>n\<close> nodes fits: the reserve stays free, and there are \<open>n\<close> nodes in one piece.\<close>

definition sq_room :: "sq_head_t \<Rightarrow> nat \<Rightarrow> bool" where
  "sq_room q n \<longleftrightarrow> sq_used q + n + 100 \<le> nat (ele_count q)
     \<and> (nat (tail_pos q) + n < NN q \<or> n < nat (head_pos q))"

lemma sq_layout_pos:
  assumes "sq_layout q its"
  shows "head_pos q = int (nat (head_pos q))" "tail_pos q = int (nat (tail_pos q))"
    "sq_used q = cells (NS q) its"
proof -
  have g: "sq_geometry q" using assms by (simp add: sq_layout_def)
  then show hp: "head_pos q = int (nat (head_pos q))" and tp: "tail_pos q = int (nat (tail_pos q))"
    by (auto simp: sq_geometry_def)
  let ?c = "cells (NS q) its"
  have t: "nat (tail_pos q) = (nat (head_pos q) + ?c) mod NN q" and c: "?c < NN q"
    using assms by (auto simp: sq_layout_def)
  have "(tail_pos q - head_pos q) mod int (NN q)
      = (int ((nat (head_pos q) + ?c) mod NN q) - int (nat (head_pos q))) mod int (NN q)"
    using hp tp t by simp
  also have "\<dots> = int ?c" using c by (simp add: zmod_int mod_diff_left_eq)
  finally show "sq_used q = ?c" by (simp add: sq_used_def)
qed

lemma lay_skips:
  "p + j \<le> N \<Longrightarrow> \<forall>i. p \<le> i \<longrightarrow> i < p + j \<longrightarrow> rd32 m (i * ns) = Some TOKEN_SKIPPED \<Longrightarrow>
   lay m N ns p (replicate j Skip)"
proof (induction j arbitrary: p)
  case (Suc j)
  have "lay m N ns (Suc p mod N) (replicate j Skip)"
  proof (cases "j = 0")
    case False
    then have "Suc p mod N = Suc p" using Suc.prems(1) by simp
    then show ?thesis using Suc.prems by (auto intro: Suc.IH)
  qed simp
  then show ?case using Suc.prems(2) by simp
qed simp

lemma cells_skips [simp]: "cells ns (replicate j Skip) = j"
  by (induction j) auto

lemma messages_skips [simp]: "messages (replicate j Skip) = []"
  by (induction j) auto

lemma region_not_ahead:
  assumes ns: "0 < ns" and t: "t = (h + c) mod N" and n: "t + n \<le> N" "c + n < N"
  shows "region N ns h c \<subseteq> - {t * ns ..< (t + n) * ns}"
proof
  fix b assume "b \<in> region N ns h c"
  then obtain k where k: "k < c" "b div ns = (h + k) mod N" by (auto simp: region_def)
  show "b \<in> - {t * ns ..< (t + n) * ns}"
  proof
    assume "b \<in> {t * ns ..< (t + n) * ns}"
    then have "t \<le> b div ns" "b div ns < t + n"
      using ns by (auto simp: less_eq_div_iff_mult_less_eq div_less_iff_less_mult mult.commute)
    then obtain j where j: "b div ns = t + j" "j < n" by (metis le_add_diff_inverse nat_add_left_cancel_less)
    then have "t + j = (h + (c + j)) mod N"
      using t n(1) by (metis add.assoc mod_add_left_eq mod_less nat_add_left_cancel_less order_less_le_trans)
    then have "k = c + j" using turn_inj [of h k N "c + j"] k j n(2) by simp
    then show False using k(1) by simp
  qed
qed

lemma put_loop_full:
  assumes q: "sq_layout q its" and d: "0 < length d" "length d \<le> 65536"
    and full: "\<not> sq_room q (need (NS q) (length d))"
  shows "put_loop env q d (int (length d)) = Some (q, - 2)"
proof -
  have g: "sq_geometry q" and t: "nat (tail_pos q) = (nat (head_pos q) + cells (NS q) its) mod NN q"
    and c: "cells (NS q) its < NN q" using q by (auto simp: sq_layout_def)
  note gd = sq_geometryD [OF g] and lp = sq_layout_pos [OF q]
  let ?n = "need (NS q) (length d)"
  have n: "SQ_NUM_NEEDED_NODES q (int (length d)) = Some (int ?n)" by (rule SQ_NEEDED_eq [OF g d])
  have e: "SQ_EMPTY_NODES q = Some (ele_count q - int (sq_used q))"
    using SQ_EMPTY_eq(1) [OF g gd(9) c t] lp by (simp add: SQ_EMPTY_NODES_def)
  have w: "i32 (int ?n + RESERVE_BLOCK_COUNT) = Some (int ?n + 100)"
    using need_bounds(3) [OF gd(3), of "length d"] d by (simp add: RESERVE_BLOCK_COUNT_def)
  show ?thesis
  proof (cases "ele_count q - int (sq_used q) < int ?n + 100")
    case True
    then show ?thesis using n e w by (subst put_loop.simps) (simp add: Let_def)
  next
    case False
    then have nf: "nat (tail_pos q) + ?n \<ge> NN q" "\<not> ?n < nat (head_pos q)" "?n < NN q"
      using full gd(4) by (auto simp: sq_room_def)
    have a: "SQ_ADD_TAIL q (int ?n) = Some (int ((nat (tail_pos q) + ?n) mod NN q))"
      using SQ_ADD_POS_eq [OF g gd(10) nf(3)] lp by (simp add: SQ_ADD_TAIL_def)
    have "(nat (tail_pos q) + ?n) mod NN q = nat (tail_pos q) + ?n - NN q"
      using nf gd(10) by (simp add: le_mod_geq)
    then have "int ((nat (tail_pos q) + ?n) mod NN q) < tail_pos q"
      using nf lp(2) gd(10) by linarith
    moreover have "head_pos q - 1 < int ?n" using nf(2) lp(1) by linarith
    ultimately show ?thesis using False n e w a by (subst put_loop.simps) (simp add: Let_def)
  qed
qed

lemma put_loop_room:
  assumes q: "sq_layout q its" and d: "0 < length d" "length d \<le> 65536"
    and room: "sq_room q (need (NS q) (length d))"
  shows "\<exists>m t its'. put_loop env q d (int (length d)) = Some (q\<lparr>tail_pos := t, nodes := m\<rparr>, 0)
    \<and> sq_layout (q\<lparr>tail_pos := t, nodes := m\<rparr>) its'
    \<and> its' = (if nat (tail_pos q) + need (NS q) (length d) < NN q then its @ [Msg d]
        else its @ replicate (NN q - nat (tail_pos q)) Skip @ [Msg d])"
proof -
  let ?n = "need (NS q) (length d)" and ?t = "nat (tail_pos q)" and ?h = "nat (head_pos q)"
    and ?c = "cells (NS q) its" and ?N = "NN q" and ?S = "NS q"
  have g: "sq_geometry q" and lay: "lay (nodes q) ?N ?S ?h its" and t: "?t = (?h + ?c) mod ?N"
    and c: "?c < ?N" using q by (auto simp: sq_layout_def)
  note gd = sq_geometryD [OF g] and lp = sq_layout_pos [OF q]
  have n: "SQ_NUM_NEEDED_NODES q (int (length d)) = Some (int ?n)" by (rule SQ_NEEDED_eq [OF g d])
  have e: "SQ_EMPTY_NODES q = Some (ele_count q - int (sq_used q))"
    using SQ_EMPTY_eq(1) [OF g gd(9) c t] lp by (simp add: SQ_EMPTY_NODES_def)
  have w: "i32 (int ?n + RESERVE_BLOCK_COUNT) = Some (int ?n + 100)"
    using need_bounds(3) [OF gd(3), of "length d"] d by (simp add: RESERVE_BLOCK_COUNT_def)
  have fit: "?c + ?n + 100 \<le> nat (ele_count q)" using room lp(3) by (simp add: sq_room_def)
  have nN: "?c + ?n + 100 < ?N" using fit gd(4) by linarith
  have ge: "\<not> ele_count q - int (sq_used q) < int ?n + 100" using fit lp(3) gd(1) by linarith
  have a: "SQ_ADD_TAIL q (int ?n) = Some (int ((?t + ?n) mod ?N))"
    using SQ_ADD_POS_eq [OF g gd(10)] nN lp by (simp add: SQ_ADD_TAIL_def)
  show ?thesis
  proof (cases "?t + ?n < ?N")
    case True
    let ?q1 = "q\<lparr>tail_pos := int (?t + ?n)\<rparr>"
    have g1: "sq_geometry ?q1" and e1: "NN ?q1 = ?N" "NS ?q1 = ?S"
      using g True gd(4) by (auto simp: sq_geometry_def NN_def NS_def)
    obtain q' where q': "write_node env ?q1 (?t * ?S) d (int (length d)) = Some q'"
      "nodes_only ?q1 q' {?t * ?S ..< (?t + ?n) * ?S}" "msg_at (nodes q') ?S ?t d"
      using write_node_spec [OF g1 d, of ?t env] True e1 by auto
    obtain m where m: "q' = ?q1\<lparr>nodes := m\<rparr>" "same (nodes q) m (- {?t * ?S ..< (?t + ?n) * ?S})"
      using q'(2) by (auto simp: nodes_only_def)
    have run: "put_loop env q d (int (length d)) = Some (q', 0)"
      using n e w ge a True q'(1) lp(2) SQ_GET_eq [OF g1, of ?t]
      by (subst put_loop.simps) (simp add: Let_def CAS32_def e1)
    have "lay m ?N ?S ?h its"
      using lay_same [OF m(2) gd(3) gd(9) _ lay] region_not_ahead [of ?S ?t ?h ?c ?N ?n] gd(3) t True nN by simp
    moreover have "lay m ?N ?S ?t [Msg d]" using d True q'(3) m(1) by simp
    ultimately have "lay m ?N ?S ?h (its @ [Msg d])" using lay_append [OF gd(9)] t by simp
    moreover have "?t + ?n = (?h + (?c + ?n)) mod ?N"
      using t True by (metis add.assoc mod_add_left_eq mod_less)
    moreover have "sq_geometry q'" using g1 nodes_onlyD(3) [OF q'(2)] by simp
    ultimately have "sq_layout q' (its @ [Msg d])"
      using nN e1 nodes_onlyD(1,2) [OF q'(2)] m(1) by (simp add: sq_layout_def)
    then have "sq_layout (q\<lparr>tail_pos := int (?t + ?n), nodes := m\<rparr>) (its @ [Msg d])" unfolding m(1) by simp
    moreover have "put_loop env q d (int (length d)) = Some (q\<lparr>tail_pos := int (?t + ?n), nodes := m\<rparr>, 0)"
      using run unfolding m(1) by simp
    ultimately show ?thesis unfolding if_P [OF True] by blast
  next
    case False
    then have nh: "?n < ?h" using room by (simp add: sq_room_def)
    have t0: "0 < ?t" using False nN by linarith
    have md: "(?t + ?n) mod ?N = ?t + ?n - ?N" using False gd(10) nN by (simp add: le_mod_geq)
    have lt: "int ((?t + ?n) mod ?N) < tail_pos q" using md False nN lp(2) gd(10) by linarith
    have hc: "?h + ?c = ?t"
    proof (cases "?h + ?c < ?N")
      case False
      then have "?t = ?h + ?c - ?N" using t c gd(9) by (simp add: le_mod_geq)
      then show ?thesis using \<open>\<not> ?t + ?n < ?N\<close> nN gd(9) by linarith
    qed (use t in simp)
    let ?q1 = "q\<lparr>tail_pos := int ?n\<rparr>"
    have g1: "sq_geometry ?q1" and e1: "NN ?q1 = ?N" "NS ?q1 = ?S"
      using g nN gd(4) by (auto simp: sq_geometry_def NN_def NS_def)
    obtain q2 where q2: "mark_skipped ?q1 (int ?t) = Some q2" "nodes_only ?q1 q2 {?t * ?S ..< ?N * ?S}"
      "\<forall>i. ?t \<le> i \<longrightarrow> i < ?N \<longrightarrow> rd32 (nodes q2) (i * ?S) = Some TOKEN_SKIPPED"
      using mark_skipped_spec [OF g1, of ?t] t0 gd(10) e1 by auto
    note n2 = nodes_onlyD [OF q2(2)]
    have g2: "sq_geometry q2" using n2(3) g1 by simp
    obtain q3 where q3: "write_node env q2 (0 * ?S) d (int (length d)) = Some q3"
      "nodes_only q2 q3 {0 * ?S ..< (0 + ?n) * ?S}" "msg_at (nodes q3) ?S 0 d"
      using write_node_spec [OF g2 d, of 0 env] nN e1 n2(1,2) by auto
    have no: "nodes_only ?q1 q3 ({?t * ?S ..< ?N * ?S} \<union> {0 * ?S ..< (0 + ?n) * ?S})"
      by (rule nodes_only_trans [OF q2(2) q3(2)])
    obtain m where m: "q3 = ?q1\<lparr>nodes := m\<rparr>"
      "same (nodes q) m (- ({?t * ?S ..< ?N * ?S} \<union> {0 * ?S ..< (0 + ?n) * ?S}))"
      using no by (auto simp: nodes_only_def)
    have run: "put_loop env q d (int (length d)) = Some (q3, 0)"
    proof -
      have "SQ_GET q2 0 = Some 0" using SQ_GET_eq [OF g2, of 0] by simp
      moreover have "\<not> head_pos q - 1 < int ?n" using nh lp(1) by linarith
      ultimately show ?thesis using n e w ge a lt t0 q2(1) q3(1) lp(2)
        by (subst put_loop.simps) (simp add: Let_def CAS32_def)
    qed
    have "region ?N ?S ?h ?c \<subseteq> - ({?t * ?S ..< ?N * ?S} \<union> {0 * ?S ..< (0 + ?n) * ?S})"
    proof
      fix b assume "b \<in> region ?N ?S ?h ?c"
      then obtain k where k: "k < ?c" "b div ?S = (?h + k) mod ?N" by (auto simp: region_def)
      then have bd: "b div ?S = ?h + k" using hc gd(10) by simp
      have "?n * ?S \<le> (b div ?S) * ?S" "Suc (b div ?S) * ?S \<le> ?t * ?S"
        using bd nh k(1) hc by (intro mult_le_mono; simp)+
      moreover have "(b div ?S) * ?S \<le> b" "b < Suc (b div ?S) * ?S"
        using gd(3) by (simp_all add: dividend_less_div_times)
      ultimately have "?n * ?S \<le> b" "b < ?t * ?S" by linarith+
      then show "b \<in> - ({?t * ?S ..< ?N * ?S} \<union> {0 * ?S ..< (0 + ?n) * ?S})" by auto
    qed
    then have l1: "lay m ?N ?S ?h its" using lay_same [OF m(2) gd(3) gd(9) _ lay] by simp
    have "rd32 m (i * ?S) = Some TOKEN_SKIPPED" if "?t \<le> i" "i < ?t + (?N - ?t)" for i
    proof -
      have "?n * ?S \<le> i * ?S" using that nh hc by (intro mult_le_mono) auto
      then have "rd32 (nodes q3) (i * ?S) = rd32 (nodes q2) (i * ?S)"
        using rd32_disjoint [OF nodes_onlyD(7) [OF q3(2)], of "i * ?S"] by simp
      then show ?thesis using q2(3) that m(1) by simp
    qed
    then have l2: "lay m ?N ?S ?t (replicate (?N - ?t) Skip)" using gd(10) by (intro lay_skips) auto
    have l3: "lay m ?N ?S 0 [Msg d]" using d nN q3(3) m(1) by simp
    let ?its = "its @ replicate (?N - ?t) Skip @ [Msg d]"
    have "(?t + (?N - ?t)) mod ?N = 0" using gd(10) by simp
    then have "lay m ?N ?S ?h ?its"
      using l1 l2 l3 lay_append [OF gd(9)] lay_append [OF gd(10)] t by simp
    moreover have cc: "?h + cells ?S ?its = ?n + ?N" using hc gd(10) by simp
    then have "cells ?S ?its < ?N" using nh by linarith
    moreover have "?n = (?h + cells ?S ?its) mod ?N" unfolding cc using nN by simp
    moreover have "sq_geometry q3" using g1 nodes_onlyD(3) [OF no] by simp
    moreover have "NN q3 = ?N" "NS q3 = ?S" "nodes q3 = m" "head_pos q3 = head_pos q" "nat (tail_pos q3) = ?n"
      using m(1) by simp_all
    ultimately have "sq_layout q3 ?its" unfolding sq_layout_def by presburger
    then have "sq_layout (q\<lparr>tail_pos := int ?n, nodes := m\<rparr>) ?its" unfolding m(1) by simp
    moreover have "put_loop env q d (int (length d)) = Some (q\<lparr>tail_pos := int ?n, nodes := m\<rparr>, 0)"
      using run unfolding m(1) by simp
    ultimately show ?thesis unfolding if_not_P [OF False] by blast
  qed
qed

section \<open>sq_get\<close>

lemma get_skip:
  assumes g: "sq_geometry (head sq)" and p: "p < NN (head sq)" and t: "tail_pos (head sq) \<noteq> int p"
    and k: "rd32 (nodes (head sq)) (p * NS (head sq)) = Some TOKEN_SKIPPED"
  shows "get_loop sq buf sz tm old (int p) = get_loop sq buf sz tm old (int (Suc p mod NN (head sq)))"
proof -
  have a: "SQ_ADD_POS (head sq) (int p) 1 = Some (int (Suc p mod NN (head sq)))"
    using SQ_ADD_POS_eq [OF g p, of 1] sq_geometryD(7) [OF g] by simp
  have "TOKEN_SKIPPED \<noteq> TOKEN_HAS_DATA" "TOKEN_SKIPPED \<noteq> TOKEN_NO_DATA" by (simp_all add: token_defs)
  then show ?thesis
    using t k a SQ_GET_eq [OF g, of p] by (subst get_loop.simps) (simp add: Let_def)
qed

lemma get_walk:
  assumes g: "sq_geometry (head sq)"
  shows "p < NN (head sq) \<Longrightarrow> lay (nodes (head sq)) (NN (head sq)) (NS (head sq)) p (replicate j Skip @ rest) \<Longrightarrow>
    j + cells (NS (head sq)) rest < NN (head sq) \<Longrightarrow>
    nat (tail_pos (head sq)) = (p + (j + cells (NS (head sq)) rest)) mod NN (head sq) \<Longrightarrow>
    get_loop sq buf sz tm old (int p) = get_loop sq buf sz tm old (int ((p + j) mod NN (head sq)))"
proof (induction j arbitrary: p)
  case (Suc j)
  let ?N = "NN (head sq)" and ?c = "cells (NS (head sq)) rest"
  have "nat (tail_pos (head sq)) \<noteq> p"
  proof
    assume e: "nat (tail_pos (head sq)) = p"
    have "(p + (Suc j + ?c)) mod ?N = p" by (rule trans [OF Suc.prems(4) [symmetric] e])
    also have "p = (p + 0) mod ?N" using Suc.prems(1) by simp
    finally have "(p + (Suc j + ?c)) mod ?N = (p + 0) mod ?N" .
    then have "Suc j + ?c = 0" by (rule turn_inj) (use Suc.prems(1,3) in auto)
    then show False by simp
  qed
  then have "tail_pos (head sq) \<noteq> int p" by auto
  then have "get_loop sq buf sz tm old (int p) = get_loop sq buf sz tm old (int (Suc p mod ?N))"
    using Suc.prems by (intro get_skip [OF g]) auto
  also have "\<dots> = get_loop sq buf sz tm old (int ((Suc p mod ?N + j) mod ?N))"
    using Suc.prems by (intro Suc.IH) (auto simp: mod_add_left_eq)
  also have "(Suc p mod ?N + j) mod ?N = (p + Suc j) mod ?N" by (simp add: mod_add_left_eq)
  finally show ?case .
qed simp

lemma get_end:
  assumes "tail_pos (head sq) = p"
  shows "get_loop sq buf sz tm (head_pos (head sq)) p
    = (if p \<noteq> head_pos (head sq) then Some (Done (sq\<lparr>head := (head sq)\<lparr>head_pos := p\<rparr>\<rparr>) (head_pos (head sq)) p 0 buf tm)
       else Some (Ret (sq\<lparr>rw_conflict := 0\<rparr>) 0 buf tm))"
  using assms by (subst get_loop.simps) (simp add: Let_def CAS32_def)

lemma sint_length:
  assumes "n \<le> 65536"
  shows "sint (of_nat n :: 32 word) = int n"
proof -
  have "(of_nat n :: 32 word) = word_of_int (int n)" by simp
  moreover have "sint (word_of_int (int n) :: 32 word) = int n"
    using assms by (subst signed_of_int) (simp add: signed_take_bit_int_eq_self)
  ultimately show ?thesis by metis
qed

lemma get_msg:
  assumes g: "sq_geometry (head sq)" and p: "p < NN (head sq)"
    and l: "lay (nodes (head sq)) (NN (head sq)) (NS (head sq)) p (Msg d # rest)"
    and c: "cells (NS (head sq)) (Msg d # rest) < NN (head sq)"
    and t: "nat (tail_pos (head sq)) = (p + cells (NS (head sq)) (Msg d # rest)) mod NN (head sq)"
  shows "\<exists>tm'. get_loop sq buf (int (length buf)) tm (head_pos (head sq)) (int p)
    = (let q = head sq; h = int ((p + need (NS q) (length d)) mod NN q); sq' = sq\<lparr>head := q\<lparr>head_pos := h\<rparr>\<rparr> in
       Some (if length d > length buf then Ret sq' (- 2) buf tm'
             else Done sq' (head_pos q) h (int (length d)) (d @ drop (length d) buf) tm'))"
proof -
  let ?q = "head sq"
  let ?n = "need (NS ?q) (length d)"
  note gd = sq_geometryD [OF g]
  have d: "0 < length d" "length d \<le> 65536" "p + ?n < NN ?q" and m: "msg_at (nodes ?q) (NS ?q) p d"
    using l by auto
  have n0: "0 < ?n" using need_bounds(2) [OF gd(3)] .
  have "nat (tail_pos ?q) \<noteq> p"
  proof
    assume e: "nat (tail_pos ?q) = p"
    have "(p + cells (NS ?q) (Msg d # rest)) mod NN ?q = p" by (rule trans [OF t [symmetric] e])
    also have "p = (p + 0) mod NN ?q" using p by simp
    finally have "(p + (?n + cells (NS ?q) rest)) mod NN ?q = (p + 0) mod NN ?q" by simp
    then have "?n + cells (NS ?q) rest = 0" by (rule turn_inj) (use c p in auto)
    then show False using n0 by simp
  qed
  then have tp: "tail_pos ?q \<noteq> int p" by auto
  have sl: "sint (of_nat (length d) :: 32 word) = int (length d)" by (rule sint_length [OF d(2)])
  obtain sec usec where tm: "rd32 (nodes ?q) (p * NS ?q + 8) = Some sec" "rd32 (nodes ?q) (p * NS ?q + 12) = Some usec"
    using m by (auto simp: msg_at_def)
  have nd: "SQ_NUM_NEEDED_NODES ?q (int (length d)) = Some (int ?n)" by (rule SQ_NEEDED_eq [OF g d(1,2)])
  have us: "SQ_USED_NODES2 ?q (int p) = Some (int (cells (NS ?q) (Msg d # rest)))"
    by (rule SQ_EMPTY_eq(2) [OF g p c t])
  have ad: "SQ_ADD_POS ?q (int p) (int ?n) = Some (int ((p + ?n) mod NN ?q))"
    using SQ_ADD_POS_eq [OF g p] d(3) by simp
  have "get_loop sq buf (int (length buf)) tm (head_pos ?q) (int p)
      = (let h = int ((p + ?n) mod NN ?q); sq' = sq\<lparr>head := ?q\<lparr>head_pos := h\<rparr>\<rparr> in
       Some (if length d > length buf then Ret sq' (- 2) buf (sec, usec)
             else Done sq' (head_pos ?q) h (int (length d)) (d @ drop (length d) buf) (sec, usec)))"
    using tp m tm nd us ad SQ_GET_eq [OF g, of p]
    by (subst get_loop.simps) (simp add: Let_def msg_at_def sl CAS32_def wr_bytes_def)
  then show ?thesis by (auto simp: Let_def)
qed

lemma region_node_in: "p < N \<Longrightarrow> 4 < ns \<Longrightarrow> {p * ns ..< p * ns + 4} \<subseteq> region N ns p (Suc c)"
proof
  fix b assume "p < N" "4 < ns" "b \<in> {p * ns ..< p * ns + 4}"
  then show "b \<in> region N ns p (Suc c)" by (intro region_node [of 0]) auto
qed

lemma clear_tokens_spec:
  "sq_geometry q \<Longrightarrow> a < NN q \<Longrightarrow> c < NN q \<Longrightarrow>
   \<exists>q'. clear_tokens q (int a) (int ((a + c) mod NN q)) = Some q' \<and> nodes_only q q' (region (NN q) (NS q) a c)"
proof (induction c arbitrary: q a)
  case 0
  then show ?case by (subst clear_tokens.simps) (auto simp: nodes_only_def intro!: exI [of _ "nodes q"])
next
  case (Suc c)
  note g = sq_geometryD [OF Suc.prems(1)]
  have "a \<noteq> (a + Suc c) mod NN q"
  proof
    assume "a = (a + Suc c) mod NN q"
    from trans [OF _ this] have "(a + 0) mod NN q = (a + Suc c) mod NN q" using Suc.prems(2) by simp
    then have "0 = Suc c" by (rule turn_inj) (use Suc.prems in auto)
    then show False by simp
  qed
  moreover have "a * NS q + 4 \<le> length (nodes q)"
    using node_fits [OF Suc.prems(1), of a 1] Suc.prems(2) g(3) by simp
  then obtain m where m: "wr32 (nodes q) (a * NS q) 0 = Some m" "same (nodes q) m (- {a * NS q ..< a * NS q + 4})"
    using wr32_spec by blast
  let ?q = "q\<lparr>nodes := m\<rparr>"
  have no: "nodes_only q ?q {a * NS q ..< a * NS q + 4}" using m(2) by (auto simp: nodes_only_def)
  have "SQ_ADD_POS q (int a) 1 = Some (int (Suc a mod NN q))"
    using SQ_ADD_POS_eq [OF Suc.prems(1,2), of 1] g(7) by simp
  ultimately have step: "clear_tokens q (int a) (int ((a + Suc c) mod NN q))
      = clear_tokens ?q (int (Suc a mod NN q)) (int ((Suc a mod NN q + c) mod NN q))"
    using m(1) SQ_GET_eq [OF Suc.prems(1), of a]
    by (subst clear_tokens.simps) (simp add: mod_add_left_eq)
  have "sq_geometry ?q" using nodes_onlyD(3) [OF no] Suc.prems(1) by simp
  then obtain q' where q': "clear_tokens ?q (int (Suc a mod NN q)) (int ((Suc a mod NN q + c) mod NN q)) = Some q'"
    "nodes_only ?q q' (region (NN q) (NS q) (Suc a mod NN q) c)"
    using Suc.IH [of ?q "Suc a mod NN q"] Suc.prems(2,3) by auto
  have sub: "{a * NS q ..< a * NS q + 4} \<union> region (NN q) (NS q) (Suc a mod NN q) c \<subseteq> region (NN q) (NS q) a (Suc c)"
    using region_node_in [OF Suc.prems(2), of "NS q" c] region_Suc_subset [of "NN q" "NS q" a c] g(3) by simp
  have "nodes_only q q' ({a * NS q ..< a * NS q + 4} \<union> region (NN q) (NS q) (Suc a mod NN q) c)"
    by (rule nodes_only_trans [OF no q'(2)])
  then have "nodes_only q q' (region (NN q) (NS q) a (Suc c))"
    by (rule nodes_only_mono [OF _ sub])
  then show ?case using step q'(1) by auto
qed

lemma region_disjoint:
  assumes "c + e < N"
  shows "region N ns ((a + c) mod N) e \<subseteq> - region N ns a c"
proof
  fix b assume "b \<in> region N ns ((a + c) mod N) e"
  then obtain k where k: "k < e" "b div ns = (a + (c + k)) mod N"
    by (auto simp: region_def mod_add_left_eq add.assoc)
  show "b \<in> - region N ns a c"
  proof
    assume "b \<in> region N ns a c"
    then obtain j where j: "j < c" "b div ns = (a + j) mod N" by (auto simp: region_def)
    then have "c + k = j" using k assms turn_inj [of a "c + k" N j] by simp
    then show False using j(1) by simp
  qed
qed

text \<open>Moving the head over the first \<open>c\<close> nodes, with or without clearing their tokens.\<close>

lemma advance_head:
  assumes q: "sq_layout q (xs @ ys)"
  defines "h \<equiv> (nat (head_pos q) + cells (NS q) xs) mod NN q"
  shows "sq_layout (q\<lparr>head_pos := int h\<rparr>) ys"
    "\<exists>m. clear_tokens (q\<lparr>head_pos := int h\<rparr>) (head_pos q) (int h) = Some (q\<lparr>head_pos := int h, nodes := m\<rparr>)
      \<and> sq_layout (q\<lparr>head_pos := int h, nodes := m\<rparr>) ys"
proof -
  let ?N = "NN q" and ?S = "NS q" and ?a = "nat (head_pos q)" and ?c = "cells (NS q) xs" and ?e = "cells (NS q) ys"
  have g: "sq_geometry q" and l: "lay (nodes q) ?N ?S ?a (xs @ ys)" and c: "?c + ?e < ?N"
    and t: "nat (tail_pos q) = (?a + (?c + ?e)) mod ?N"
    using q by (auto simp: sq_layout_def)
  note gd = sq_geometryD [OF g]
  have hN: "h < ?N" using gd(7) by (simp add: h_def)
  let ?q1 = "q\<lparr>head_pos := int h\<rparr>"
  have g1: "sq_geometry ?q1" using g hN gd(4) by (simp add: sq_geometry_def)
  have lys: "lay (nodes q) ?N ?S h ys" using l lay_append [OF gd(9)] by (simp add: h_def)
  have t1: "nat (tail_pos q) = (h + ?e) mod ?N" using t by (simp add: h_def mod_add_left_eq add.assoc)
  show "sq_layout ?q1 ys"
    unfolding sq_layout_def using g1 lys c t1 by simp
  obtain q2 where q2: "clear_tokens ?q1 (int ?a) (int ((?a + ?c) mod ?N)) = Some q2" "nodes_only ?q1 q2 (region ?N ?S ?a ?c)"
    using clear_tokens_spec [OF g1, of ?a ?c] gd(9) c by auto
  obtain m where m: "q2 = ?q1\<lparr>nodes := m\<rparr>" "same (nodes q) m (- region ?N ?S ?a ?c)"
    using q2(2) by (auto simp: nodes_only_def)
  have "lay m ?N ?S h ys"
    using lay_same [OF m(2) gd(3) hN _ lys] region_disjoint [OF c, of ?S ?a] by (simp add: h_def)
  moreover have "sq_geometry (?q1\<lparr>nodes := m\<rparr>)" using nodes_onlyD(3) [OF q2(2)] g1 m(1) by simp
  ultimately have "sq_layout (?q1\<lparr>nodes := m\<rparr>) ys"
    unfolding sq_layout_def using c t1 by simp
  moreover have "clear_tokens ?q1 (head_pos q) (int h) = Some (?q1\<lparr>nodes := m\<rparr>)"
    using q2(1) m(1) sq_layout_pos(1) [OF q] by (simp only: h_def)
  ultimately show "\<exists>m. clear_tokens ?q1 (head_pos q) (int h) = Some (q\<lparr>head_pos := int h, nodes := m\<rparr>)
      \<and> sq_layout (q\<lparr>head_pos := int h, nodes := m\<rparr>) ys" by auto
qed

lemma split_skips:
  obtains j where "its = replicate j Skip" | j d rest where "its = replicate j Skip @ Msg d # rest"
proof -
  have "(\<exists>j. its = replicate j Skip) \<or> (\<exists>j d rest. its = replicate j Skip @ Msg d # rest)"
  proof (induction its)
    case Nil
    show ?case by (intro disjI1 exI [of _ 0]) simp
  next
    case (Cons x its)
    show ?case
    proof (cases x)
      case Skip
      then show ?thesis using Cons by (metis append_Cons replicate_Suc)
    next
      case (Msg d)
      then show ?thesis by (metis append_Nil replicate_0)
    qed
  qed
  then show thesis using that by blast
qed

definition sq_frame :: "shm_queue \<Rightarrow> shm_queue \<Rightarrow> bool" where
  "sq_frame sq sq' \<longleftrightarrow> (\<exists>m h t r. sq' = sq\<lparr>head := (head sq)\<lparr>nodes := m, head_pos := h, tail_pos := t\<rparr>, rw_conflict := r\<rparr>)"

lemma sq_frameI:
  "sq_frame sq (sq\<lparr>rw_conflict := r\<rparr>)"
  "sq_frame sq (sq\<lparr>head := (head sq)\<lparr>head_pos := h\<rparr>\<rparr>)"
  "sq_frame sq (sq\<lparr>head := (head sq)\<lparr>head_pos := h, nodes := m\<rparr>, rw_conflict := r\<rparr>)"
  "sq_frame sq (sq\<lparr>head := (head sq)\<lparr>tail_pos := t, nodes := m\<rparr>\<rparr>)"
proof -
  show "sq_frame sq (sq\<lparr>rw_conflict := r\<rparr>)"
    unfolding sq_frame_def
    by (intro exI [of _ "nodes (head sq)"] exI [of _ "head_pos (head sq)"] exI [of _ "tail_pos (head sq)"] exI [of _ r]) simp
  show "sq_frame sq (sq\<lparr>head := (head sq)\<lparr>head_pos := h\<rparr>\<rparr>)"
    unfolding sq_frame_def
    by (intro exI [of _ "nodes (head sq)"] exI [of _ h] exI [of _ "tail_pos (head sq)"] exI [of _ "rw_conflict sq"]) simp
  show "sq_frame sq (sq\<lparr>head := (head sq)\<lparr>head_pos := h, nodes := m\<rparr>, rw_conflict := r\<rparr>)"
    unfolding sq_frame_def
    by (intro exI [of _ m] exI [of _ h] exI [of _ "tail_pos (head sq)"] exI [of _ r]) simp
  show "sq_frame sq (sq\<lparr>head := (head sq)\<lparr>tail_pos := t, nodes := m\<rparr>\<rparr>)"
    unfolding sq_frame_def
    by (intro exI [of _ m] exI [of _ "head_pos (head sq)"] exI [of _ t] exI [of _ "rw_conflict sq"]) simp
qed

lemma get_loop_prefix:
  assumes q: "sq_layout (head sq) (replicate j Skip @ rest)"
  shows "get_loop sq buf sz tm old (head_pos (head sq))
    = get_loop sq buf sz tm old (int ((nat (head_pos (head sq)) + j) mod NN (head sq)))"
proof -
  note lp = sq_layout_pos [OF q]
  have g: "sq_geometry (head sq)" using q by (simp add: sq_layout_def)
  have "get_loop sq buf sz tm old (int (nat (head_pos (head sq))))
      = get_loop sq buf sz tm old (int ((nat (head_pos (head sq)) + j) mod NN (head sq)))"
    using q sq_geometryD(9) [OF g] by (intro get_walk [OF g, of _ j rest]) (auto simp: sq_layout_def)
  then show ?thesis using lp(1) by simp
qed

lemma sq_get_empty:
  assumes q: "sq_layout (head sq) its" and e: "messages its = []" and b: "0 < length buf"
  shows "\<exists>sq' its'. sq_get sq (Some buf) (int (length buf)) tm = Some (sq', 0, buf, tm) \<and> sq_frame sq sq'
    \<and> sq_layout (head sq') its' \<and> its' = []"
proof -
  let ?q = "head sq"
  obtain j where its: "its = replicate j Skip"
    by (rule split_skips [of its]) (use e in auto)
  define h where "h = (nat (head_pos ?q) + j) mod NN ?q"
  have q': "sq_layout ?q (replicate j Skip @ [])" using q its by simp
  have tp: "tail_pos ?q = int h"
    using q its sq_layout_pos(2) [OF q] by (simp add: sq_layout_def h_def)
  have gl: "get_loop sq buf (int (length buf)) tm (head_pos ?q) (head_pos ?q)
      = (if int h \<noteq> head_pos ?q then Some (Done (sq\<lparr>head := ?q\<lparr>head_pos := int h\<rparr>\<rparr>) (head_pos ?q) (int h) 0 buf tm)
         else Some (Ret (sq\<lparr>rw_conflict := 0\<rparr>) 0 buf tm))"
    using get_loop_prefix [OF q', of buf "int (length buf)" tm "head_pos ?q"] get_end [of sq, OF tp] by (simp add: h_def)
  show ?thesis
  proof (cases "int h = head_pos ?q")
    case True
    then have "sq_get sq (Some buf) (int (length buf)) tm = Some (sq\<lparr>rw_conflict := 0\<rparr>, 0, buf, tm)"
      using gl b by (simp add: sq_get_def)
    moreover have "its = []"
    proof -
      have g: "sq_geometry ?q" using q by (simp add: sq_layout_def)
      have b: "nat (head_pos ?q) < NN ?q" "j < NN ?q" using q its sq_geometryD(9) [OF g] by (simp_all add: sq_layout_def)
      have "(nat (head_pos ?q) + j) mod NN ?q = (nat (head_pos ?q) + 0) mod NN ?q" using True b(1) by (simp add: h_def)
      then have "j = 0" by (rule turn_inj) (use b in auto)
      then show ?thesis using its by simp
    qed
    ultimately show ?thesis using q sq_frameI(1) [of sq 0] by (intro exI [of _ "sq\<lparr>rw_conflict := 0\<rparr>"] exI [of _ its]) simp
  next
    case False
    obtain m where m: "clear_tokens (?q\<lparr>head_pos := int h\<rparr>) (head_pos ?q) (int h) = Some (?q\<lparr>head_pos := int h, nodes := m\<rparr>)"
      "sq_layout (?q\<lparr>head_pos := int h, nodes := m\<rparr>) []"
      using advance_head(2) [OF q'] by (auto simp: h_def)
    have "sq_get sq (Some buf) (int (length buf)) tm
        = Some (sq\<lparr>head := ?q\<lparr>head_pos := int h, nodes := m\<rparr>, rw_conflict := 0\<rparr>, 0, buf, tm)"
      using gl False b m(1) by (simp add: sq_get_def)
    then show ?thesis using m(2) sq_frameI(3) [where sq = sq and h = "int h" and m = m and r = 0]
      by (intro exI [of _ "sq\<lparr>head := ?q\<lparr>head_pos := int h, nodes := m\<rparr>, rw_conflict := 0\<rparr>"] exI [of _ "[]"]) simp
  qed
qed

lemma sq_get_message:
  assumes q: "sq_layout (head sq) its" and e: "messages its = d # ms" and b: "0 < length buf"
  shows "\<exists>sq' its' tm'. sq_get sq (Some buf) (int (length buf)) tm
      = Some (if length d \<le> length buf then (sq', int (length d), d @ drop (length d) buf, tm') else (sq', - 2, buf, tm'))
    \<and> sq_frame sq sq' \<and> sq_layout (head sq') its' \<and> messages its' = ms \<and> 0 < length d \<and> length d \<le> 65536"
proof -
  let ?q = "head sq"
  obtain j rest where its: "its = replicate j Skip @ Msg d # rest" "messages rest = ms"
    by (rule split_skips [of its]) (use e in auto)
  have q': "sq_layout ?q (replicate j Skip @ Msg d # rest)" using q its by simp
  have g: "sq_geometry ?q" using q by (simp add: sq_layout_def)
  let ?N = "NN ?q" and ?n = "need (NS ?q) (length d)"
  let ?p = "(nat (head_pos ?q) + j) mod ?N"
  define h where "h = (nat (head_pos ?q) + (j + ?n)) mod ?N"
  have p: "?p < ?N" using sq_geometryD(7) [OF g] by simp
  have l: "lay (nodes ?q) ?N (NS ?q) ?p (Msg d # rest)"
    using q' lay_append [OF sq_geometryD(9) [OF g]] by (simp add: sq_layout_def)
  have c: "j + cells (NS ?q) (Msg d # rest) < ?N" using q' by (simp add: sq_layout_def)
  have t: "nat (tail_pos ?q) = (?p + cells (NS ?q) (Msg d # rest)) mod ?N"
    using q' by (simp add: sq_layout_def mod_add_left_eq add.assoc)
  have d: "0 < length d" "length d \<le> 65536" using l by auto
  have hh: "(?p + ?n) mod ?N = h" by (simp add: h_def mod_add_left_eq add.assoc)
  have q2: "sq_layout ?q ((replicate j Skip @ [Msg d]) @ rest)" using q' by simp
  have h2: "(nat (head_pos ?q) + cells (NS ?q) (replicate j Skip @ [Msg d])) mod ?N = h" by (simp add: h_def)
  let ?sq1 = "sq\<lparr>head := ?q\<lparr>head_pos := int h\<rparr>\<rparr>"
  obtain tm' where gl: "get_loop sq buf (int (length buf)) tm (head_pos ?q) (head_pos ?q)
      = Some (if length d > length buf then Ret ?sq1 (- 2) buf tm'
              else Done ?sq1 (head_pos ?q) (int h) (int (length d)) (d @ drop (length d) buf) tm')"
    using get_loop_prefix [OF q', of buf "int (length buf)" tm "head_pos ?q"]
      get_msg [OF g p l _ t, of buf tm] c hh by (auto simp: Let_def)
  show ?thesis
  proof (cases "length d \<le> length buf")
    case False
    then have "sq_get sq (Some buf) (int (length buf)) tm = Some (?sq1, - 2, buf, tm')"
      using gl b by (simp add: sq_get_def)
    then show ?thesis using False advance_head(1) [OF q2] h2 sq_frameI(2) [of sq "int h"] its d
      by (intro exI [of _ ?sq1] exI [of _ rest] exI [of _ tm']) simp
  next
    case True
    obtain m where m: "clear_tokens (?q\<lparr>head_pos := int h\<rparr>) (head_pos ?q) (int h) = Some (?q\<lparr>head_pos := int h, nodes := m\<rparr>)"
      "sq_layout (?q\<lparr>head_pos := int h, nodes := m\<rparr>) rest"
      using advance_head(2) [OF q2] h2 by auto
    have "sq_get sq (Some buf) (int (length buf)) tm
        = Some (sq\<lparr>head := ?q\<lparr>head_pos := int h, nodes := m\<rparr>, rw_conflict := 0\<rparr>, int (length d), d @ drop (length d) buf, tm')"
      using gl True b m(1) by (simp add: sq_get_def)
    then show ?thesis using True m(2) sq_frameI(3) [where sq = sq and h = "int h" and m = m and r = 0] its d
      by (intro exI [of _ "sq\<lparr>head := ?q\<lparr>head_pos := int h, nodes := m\<rparr>, rw_conflict := 0\<rparr>"] exI [of _ rest] exI [of _ tm']) simp
  qed
qed

section \<open>Signals do not disturb the queue\<close>

definition sig_inv :: "shm_queue \<Rightarrow> bool" where
  "sig_inv sq \<longleftrightarrow> length (pidset (head sq)) = 64 \<and> length (sigmask (head sq)) = 8
     \<and> length (siglock (head sq)) = 64 \<and> length (signr (head sq)) = 64
     \<and> length (poll_fdset sq) = 64 \<and> length (fifo_times sq) = 64
     \<and> 0 \<le> pidnum (head sq) \<and> pidnum (head sq) \<le> 64
     \<and> list_all (\<lambda>n. - (2 ^ 31) \<le> n) (signr (head sq))
     \<and> list_all (\<lambda>t. - (2 ^ 31) \<le> t \<and> t < 2 ^ 31 - 60) (fifo_times sq)"

definition clock_ok :: "sq_env \<Rightarrow> bool" where
  "clock_ok env \<longleftrightarrow> 0 \<le> clock_sec env \<and> clock_sec env < 2 ^ 31 - 60"

definition queue_part :: "sq_head_t \<Rightarrow> int \<times> int \<times> int \<times> int \<times> 8 word list" where
  "queue_part q = (ele_size q, ele_count q, head_pos q, tail_pos q, nodes q)"

lemma sq_layout_part: "queue_part q' = queue_part q \<Longrightarrow> sq_layout q' its = sq_layout q its"
  by (simp add: queue_part_def sq_layout_def sq_geometry_def NN_def NS_def)

lemma sig_inv_frame: "sq_frame sq sq' \<Longrightarrow> sig_inv sq' = sig_inv sq"
  by (auto simp: sq_frame_def sig_inv_def)

lemma sig_off_ok:
  assumes "sig_inv sq" "0 \<le> i" "i < 64"
  shows "\<exists>ms. sq_set_sig_off (head sq) i = Some ((head sq)\<lparr>sigmask := ms\<rparr>, if u32 i < u32 (pidnum (head sq)) then 0 else - 1)
    \<and> length ms = 8"
proof (cases "u32 i < u32 (pidnum (head sq))")
  case True
  then show ?thesis using assms by (auto simp: sq_set_sig_off_def sig_inv_def)
next
  case False
  then show ?thesis using assms
    by (auto simp: sq_set_sig_off_def sig_inv_def intro!: exI [of _ "sigmask (head sq)"])
qed

lemma list_all_upd: "list_all P xs \<Longrightarrow> P x \<Longrightarrow> list_all P (xs[i := x])"
  by (auto simp: list_all_iff dest!: set_update_subset_insert [THEN subsetD])

lemma signal_process_ok:
  assumes s: "sig_inv sq" and i: "0 \<le> i" "i < 64" and env: "clock_ok env"
  shows "\<exists>sq' sent r. signal_process env sq i = Some (sq', sent, r) \<and> sig_inv sq'
    \<and> queue_part (head sq') = queue_part (head sq) \<and> (sent = [] \<or> sent = [i])
    \<and> pidnum (head sq') = pidnum (head sq) \<and> sig_process_num (head sq') = sig_process_num (head sq)"
proof -
  define sq1 where "sq1 = (if poll_fdset sq ! nat i \<le> 0 \<and> (fifo_times sq ! nat i = 0 \<or> fifo_times sq ! nat i + 60 \<le> clock_sec env)
      then sq\<lparr>fifo_times := (fifo_times sq)[nat i := clock_sec env], poll_fdset := (poll_fdset sq)[nat i := fifo_fd env i]\<rparr> else sq)"
  have tc: "to_i32 (clock_sec env) = clock_sec env" using env by (simp add: to_i32_def clock_ok_def)
  have ni: "nat i < 64" using i by simp
  have ft: "- (2 ^ 31) \<le> fifo_times sq ! nat i" "fifo_times sq ! nat i < 2 ^ 31 - 60"
    using s ni by (auto simp: sig_inv_def list_all_length)
  then have fi: "i32 (fifo_times sq ! nat i + 60) = Some (fifo_times sq ! nat i + 60)" by simp
  have s1: "sig_inv sq1" "queue_part (head sq1) = queue_part (head sq)" "head sq1 = head sq"
    using s env by (auto simp: sq1_def sig_inv_def clock_ok_def intro!: list_all_upd)
  have len: "length (poll_fdset sq) = 64" "length (fifo_times sq) = 64" "length (poll_fdset sq1) = 64"
    "length (siglock (head sq1)) = 64" "length (signr (head sq1)) = 64"
    using s s1 by (simp_all add: sig_inv_def)
  have first: "(if poll_fdset sq ! nat i \<le> 0
       then do { ft \<leftarrow> rdi (fifo_times sq) i;
                 late \<leftarrow> (if ft = 0 then Some True else do { l \<leftarrow> i32 (ft + 60); Some (l \<le> clock_sec env) });
                 if late
                 then do { fts \<leftarrow> wri (fifo_times sq) i (to_i32 (clock_sec env));
                           fds \<leftarrow> wri (poll_fdset sq) i (fifo_fd env i);
                           Some (sq\<lparr>fifo_times := fts, poll_fdset := fds\<rparr>) }
                 else Some sq }
       else Some sq) = Some sq1"
    using i len fi tc by (simp add: sq1_def)
  have nr: "- (2 ^ 31) \<le> signr (head sq1) ! nat i" using s1(1) ni by (auto simp: sig_inv_def list_all_length)
  show ?thesis
  proof (cases "poll_fdset sq1 ! nat i > 0")
    case False
    then have "signal_process env sq i = Some (sq1, [], - 1)"
      using i len first by (simp add: signal_process_def)
    then show ?thesis using s1 by auto
  next
    case True
    show ?thesis
    proof (cases "siglock (head sq1) ! nat i = 0 \<or> signr (head sq1) ! nat i > 10")
      case w: True
      let ?sq2 = "sq1\<lparr>head := (head sq1)\<lparr>signr := (signr (head sq1))[nat i := 0], siglock := (siglock (head sq1))[nat i := 0]\<rparr>\<rparr>"
      have "signal_process env sq i = Some (?sq2, [i], 0)"
        using i len first True w by (auto simp: signal_process_def CAS32_def)
      moreover have "sig_inv ?sq2" using s1(1) by (auto simp: sig_inv_def intro!: list_all_upd)
      ultimately show ?thesis using s1(2,3) by (auto simp: queue_part_def)
    next
      case w: False
      let ?sq2 = "sq1\<lparr>head := (head sq1)\<lparr>signr := (signr (head sq1))[nat i := signr (head sq1) ! nat i + 1]\<rparr>\<rparr>"
      have "signal_process env sq i = Some (?sq2, [], 0)"
        using i len first True w nr by (simp add: signal_process_def CAS32_def)
      moreover have "sig_inv ?sq2" using s1(1) nr by (auto simp: sig_inv_def intro!: list_all_upd)
      ultimately show ?thesis using s1(2,3) by (auto simp: queue_part_def)
    qed
  qed
qed

lemma signal_loop_ok:
  "sig_inv sq \<Longrightarrow> clock_ok env \<Longrightarrow> \<forall>i \<in> set is. 0 \<le> i \<and> i < 64 \<Longrightarrow>
   \<exists>sq' sent. signal_loop env is nr sq = Some (sq', sent) \<and> sig_inv sq' \<and> queue_part (head sq') = queue_part (head sq)
     \<and> set sent \<subseteq> set is \<and> int (length sent) \<le> max 0 (sig_process_num (head sq) - nr)"
proof (induction "is" arbitrary: sq nr)
  case (Cons i "is")
  show ?case
  proof (cases "nr < sig_process_num (head sq)")
    case False
    then show ?thesis using Cons.prems by simp
  next
    case True
    have i: "0 \<le> i" "i < 64" using Cons.prems(3) by auto
    then have r: "rdi (pidset (head sq)) i = Some (pidset (head sq) ! nat i)"
      "rdi (sigmask (head sq)) (cdiv i 8) = Some (sigmask (head sq) ! nat (i div 8))"
      using Cons.prems(1) by (auto simp: sig_inv_def)
    show ?thesis
    proof (cases "pidset (head sq) ! nat i \<noteq> 0 \<and> sigmask (head sq) ! nat (i div 8) AND push_bit (nat (cmod i 8)) 1 \<noteq> 0")
      case False
      then show ?thesis using Cons.IH [OF Cons.prems(1,2), of nr] Cons.prems(3) True r by auto
    next
      case w: True
      obtain sq1 s1 r1 where s1: "signal_process env sq i = Some (sq1, s1, r1)" "sig_inv sq1"
        "queue_part (head sq1) = queue_part (head sq)" "s1 = [] \<or> s1 = [i]"
        "sig_process_num (head sq1) = sig_process_num (head sq)"
        using signal_process_ok [OF Cons.prems(1) i Cons.prems(2)] by blast
      obtain ms r2 where ms: "sq_set_sig_off (head sq1) i = Some ((head sq1)\<lparr>sigmask := ms\<rparr>, r2)" "length ms = 8"
        using sig_off_ok [OF s1(2) i] by auto
      let ?sq2 = "sq1\<lparr>head := (head sq1)\<lparr>sigmask := ms\<rparr>\<rparr>"
      have i2: "sig_inv ?sq2" using s1(2) ms(2) by (simp add: sig_inv_def)
      have l1: "length s1 \<le> 1" using s1(4) by auto
      show ?thesis
        using Cons.IH [OF i2 Cons.prems(2), of "nr + 1"] Cons.prems(3) True w r s1 ms(1) l1
        by (auto simp: queue_part_def)
    qed
  qed
qed simp

section \<open>The queue of messages\<close>

lemma sq_put_full:
  assumes q: "sq_layout (head sq) its" and d: "0 < length d" "length d \<le> 65536"
    and full: "\<not> sq_room (head sq) (need (NS (head sq)) (length d))"
  shows "sq_put env sq (Some d) (int (length d)) = Some (sq, - 2, [])"
  using put_loop_full [OF q d full, of env] d by (simp add: sq_put_def MAX_SQ_DATA_LENGTH_def)

lemma sq_put_room:
  assumes q: "sq_layout (head sq) its" and d: "0 < length d" "length d \<le> 65536"
    and room: "sq_room (head sq) (need (NS (head sq)) (length d))" and s: "sig_inv sq" and env: "clock_ok env"
  shows "\<exists>sq' sent its'. sq_put env sq (Some d) (int (length d)) = Some (sq', 0, sent) \<and> sig_inv sq'
    \<and> sq_layout (head sq') its' \<and> NN (head sq') = NN (head sq) \<and> ele_count (head sq') = ele_count (head sq)
    \<and> NS (head sq') = NS (head sq)
    \<and> its' = (if nat (tail_pos (head sq)) + need (NS (head sq)) (length d) < NN (head sq) then its @ [Msg d]
        else its @ replicate (NN (head sq) - nat (tail_pos (head sq))) Skip @ [Msg d])"
proof -
  let ?q = "head sq"
  obtain m t its' where p: "put_loop env ?q d (int (length d)) = Some (?q\<lparr>tail_pos := t, nodes := m\<rparr>, 0)"
    "sq_layout (?q\<lparr>tail_pos := t, nodes := m\<rparr>) its'"
    "its' = (if nat (tail_pos ?q) + need (NS ?q) (length d) < NN ?q then its @ [Msg d]
        else its @ replicate (NN ?q - nat (tail_pos ?q)) Skip @ [Msg d])"
    using put_loop_room [OF q d room, of env] by blast
  let ?q1 = "?q\<lparr>tail_pos := t, nodes := m\<rparr>"
  let ?sq1 = "sq\<lparr>head := ?q1\<rparr>"
  have g1: "sq_geometry ?q1" using p(2) by (simp add: sq_layout_def)
  have us: "SQ_USED_NODES ?q1 = Some (int (cells (NS ?q1) its'))"
    using SQ_EMPTY_eq(2) [OF g1 sq_geometryD(9) [OF g1], of "cells (NS ?q1) its'"] p(2) sq_layout_pos(1) [OF p(2)]
    by (simp add: SQ_USED_NODES_def sq_layout_def)
  have s1: "sig_inv ?sq1" using s by (simp add: sig_inv_def)
  have is64: "\<forall>i \<in> set (map int [0..<nat (pidnum ?q)]). 0 \<le> i \<and> i < 64" using s by (auto simp: sig_inv_def)
  show ?thesis
  proof (cases "sig_node_num ?q \<noteq> 0 \<and> int (cells (NS ?q1) its') \<ge> sig_node_num ?q")
    case True
    obtain sq' sent where l: "signal_loop env (map int [0..<nat (pidnum ?q)]) 0 ?sq1 = Some (sq', sent)" "sig_inv sq'"
      "queue_part (head sq') = queue_part (head ?sq1)"
      using signal_loop_ok [OF s1 env is64, of 0] by blast
    have "sq_put env sq (Some d) (int (length d)) = Some (sq', 0, sent)"
      using p(1) d True us l(1) by (simp add: sq_put_def MAX_SQ_DATA_LENGTH_def Let_def)
    moreover have "sq_layout (head sq') its'" using sq_layout_part [OF l(3)] p(2) by simp
    moreover have "NN (head sq') = NN ?q" "ele_count (head sq') = ele_count ?q" "NS (head sq') = NS ?q"
      using l(3) by (simp_all add: queue_part_def NN_def NS_def)
    ultimately show ?thesis using l(2) p(3) by blast
  next
    case False
    then have "sq_put env sq (Some d) (int (length d)) = Some (?sq1, 0, [])"
      using p(1) d us by (auto simp: sq_put_def MAX_SQ_DATA_LENGTH_def Let_def)
    then show ?thesis using s1 p(2,3)
      by (intro exI [of _ ?sq1] exI [of _ "[]"] exI [of _ its']) simp
  qed
qed

text \<open>A put of a whole message, and a get into a buffer of the greatest message length.\<close>

definition sqm_put :: "sq_env \<Rightarrow> shm_queue \<Rightarrow> 8 word list \<Rightarrow> (shm_queue \<times> bool) option" where
  "sqm_put env sq d = map_option (\<lambda>(sq', r, _). (sq', r = 0)) (sq_put env sq (Some d) (int (length d)))"

definition sqm_get :: "shm_queue \<Rightarrow> (shm_queue \<times> 8 word list option) option" where
  "sqm_get sq = map_option (\<lambda>(sq', r, b, _). (sq', if r > 0 then Some (take (nat r) b) else None))
     (sq_get sq (Some (replicate 65536 0)) 65536 (0, 0))"

definition sqm_ok :: "8 word list \<Rightarrow> bool" where
  "sqm_ok d \<longleftrightarrow> 0 < length d \<and> length d \<le> 65536"

definition sqm_holds :: "shm_queue \<Rightarrow> 8 word list list \<Rightarrow> bool" where
  "sqm_holds sq ms \<longleftrightarrow> sig_inv sq \<and> (\<exists>its. sq_layout (head sq) its \<and> messages its = ms)"

definition sqm_fits :: "shm_queue \<Rightarrow> 8 word list \<Rightarrow> bool" where
  "sqm_fits sq d \<longleftrightarrow> sq_room (head sq) (need (NS (head sq)) (length d))"

definition quiet_env :: "sq_env \<Rightarrow> sq_env" where
  "quiet_env env = (if clock_ok env then env else env\<lparr>clock_sec := 0\<rparr>)"

lemma quiet_env_ok: "clock_ok (quiet_env env)"
  by (simp add: quiet_env_def clock_ok_def)

interpretation sqm: message_queue "sqm_put (quiet_env env)" sqm_get sqm_holds sqm_fits sqm_ok
  for env :: sq_env
proof
  fix sq ms d assume h: "sqm_holds sq ms" and d: "sqm_ok d"
  then obtain its where its: "sq_layout (head sq) its" "messages its = ms" "sig_inv sq" by (auto simp: sqm_holds_def)
  have l: "0 < length d" "length d \<le> 65536" using d by (auto simp: sqm_ok_def)
  show "\<exists>sq'. sqm_put (quiet_env env) sq d = Some (sq', sqm_fits sq d)
      \<and> sqm_holds sq' (if sqm_fits sq d then ms @ [d] else ms)"
  proof (cases "sqm_fits sq d")
    case True
    then have "sq_room (head sq) (need (NS (head sq)) (length d))" by (simp add: sqm_fits_def)
    from sq_put_room [OF its(1) l this its(3) quiet_env_ok [of env]]
    obtain sq' sent its' where r: "sq_put (quiet_env env) sq (Some d) (int (length d)) = Some (sq', 0, sent)"
      "sig_inv sq'" "sq_layout (head sq') its'"
      "its' = (if nat (tail_pos (head sq)) + need (NS (head sq)) (length d) < NN (head sq) then its @ [Msg d]
        else its @ replicate (NN (head sq) - nat (tail_pos (head sq))) Skip @ [Msg d])"
      by blast
    have "messages its' = ms @ [d]" using r(4) its(2) by simp
    then have "sqm_holds sq' (ms @ [d])" using r(2,3) unfolding sqm_holds_def by blast
    then show ?thesis using r(1) True by (simp add: sqm_put_def)
  next
    case False
    then show ?thesis using sq_put_full [OF its(1) l, of "quiet_env env"] h by (simp add: sqm_put_def sqm_fits_def)
  qed
next
  fix sq assume "sqm_holds sq []"
  then obtain its where its: "sq_layout (head sq) its" "messages its = []" "sig_inv sq" by (auto simp: sqm_holds_def)
  obtain sq' its' where r: "sq_get sq (Some (replicate 65536 0)) (int (length (replicate 65536 (0 :: 8 word)))) (0, 0)
      = Some (sq', 0, replicate 65536 0, (0, 0))"
    "sq_frame sq sq'" "sq_layout (head sq') its'" "messages its' = []"
    using sq_get_empty [OF its(1,2), of "replicate 65536 0" "(0, 0)"] by auto
  then have "sqm_holds sq' []" using its(3) sig_inv_frame [OF r(2)] by (auto simp: sqm_holds_def)
  then show "\<exists>sq'. sqm_get sq = Some (sq', None) \<and> sqm_holds sq' []"
    using r(1) by (simp add: sqm_get_def)
next
  fix sq d ms assume "sqm_holds sq (d # ms)"
  then obtain its where its: "sq_layout (head sq) its" "messages its = d # ms" "sig_inv sq" by (auto simp: sqm_holds_def)
  obtain sq' its' tm' where r: "sq_get sq (Some (replicate 65536 0)) (int (length (replicate 65536 (0 :: 8 word)))) (0, 0)
      = Some (if length d \<le> length (replicate 65536 (0 :: 8 word))
              then (sq', int (length d), d @ drop (length d) (replicate 65536 0), tm')
              else (sq', - 2, replicate 65536 0, tm'))"
    "sq_frame sq sq'" "sq_layout (head sq') its'" "messages its' = ms" "0 < length d" "length d \<le> 65536"
    using sq_get_message [OF its(1,2), of "replicate 65536 0" "(0, 0)"] by auto
  then have "sqm_holds sq' ms" using its(3) sig_inv_frame [OF r(2)] by (auto simp: sqm_holds_def)
  then show "\<exists>sq'. sqm_get sq = Some (sq', Some d) \<and> sqm_holds sq' ms"
    using r(1,5,6) by (simp add: sqm_get_def)
qed

end
