(* ===== verification/Sq_Create.thy ===== *)
theory Sq_Create
  imports Sq_Fifo
begin

text \<open>
  Attaching the segment, creating and opening a queue, and registering a reader for signals
  (shmqueue/shm_queue.c).
\<close>

section \<open>Attaching the segment\<close>

text \<open>
  \<open>shm_sys\<close>: the segment that exists for the key with its size, and whether each system call
  succeeds.  \<open>attach_shm\<close> returns the segment, if any, and whether it was created; a created
  segment is cleared by the caller, so its contents do not matter.
\<close>

record shm_sys =
  segment :: "(sq_head_t \<times> int) option"
  shmget_create_ok :: bool
  shmctl_stat_ok :: bool
  shmctl_rm_ok :: bool
  shmat_ok :: bool

datatype attached = Failed | Existing sq_head_t | Created

definition attach_shm :: "shm_sys \<Rightarrow> int \<Rightarrow> bool \<Rightarrow> attached" where
  "attach_shm sys iSize creating =
     (let r = (case segment sys of
         None \<Rightarrow> if \<not> creating \<or> \<not> shmget_create_ok sys then Failed else Created
       | Some (q, sz) \<Rightarrow>
           if creating
           then if \<not> shmctl_stat_ok sys then Failed
                else if sz \<noteq> iSize
                then if \<not> shmctl_rm_ok sys then Failed
                     else if \<not> shmget_create_ok sys then Failed else Created
                else Existing q
           else Existing q)
      in if r \<noteq> Failed \<and> \<not> shmat_ok sys then Failed else r)"

definition sizeof_sq_head_t :: int where
  "sizeof_sq_head_t = 7 * 4 + 64 * 4 + 8 + 64 * 4 + 64 * 4 + 1024 * 1024 * 4"

definition align8 :: "int \<Rightarrow> int" where
  "align8 n = (n + 7) div 8 * 8"

definition align4MB :: "int \<Rightarrow> int" where
  "align4MB n = (n + 4 * 2 ^ 20 - 1) div (4 * 2 ^ 20) * (4 * 2 ^ 20)"

definition open_shm_queue :: "shm_sys \<Rightarrow> int \<Rightarrow> int \<Rightarrow> bool \<Rightarrow> sq_head_t option" where
  "open_shm_queue sys ele_sz ele_cnt create =
     (let sz = (if create then align8 ele_sz else ele_sz);
          allocate_size = (if create then align4MB (sizeof_sq_head_t + (sizeof_node_head + sz) * (ele_cnt + 1)) else 0)
      in case attach_shm sys allocate_size create of
           Failed \<Rightarrow> None
         | Created \<Rightarrow> Some \<lparr>ele_size = to_i32 sz, ele_count = to_i32 ele_cnt, head_pos = 0, tail_pos = 0,
             sig_node_num = 0, sig_process_num = 0, pidnum = 0, pidset = replicate 64 0, sigmask = replicate 8 0,
             siglock = replicate 64 0, signr = replicate 64 0,
             nodes = replicate (nat (allocate_size - sizeof_sq_head_t)) 0\<rparr>
         | Existing q \<Rightarrow> if create \<and> (ele_size q \<noteq> sz \<or> ele_count q \<noteq> ele_cnt) then None else Some q)"

definition new_queue :: "64 word \<Rightarrow> sq_head_t \<Rightarrow> shm_queue" where
  "new_queue shmkey q = \<lparr>head = q, sig_idx = 0, poll_fd = 0, poll_fdset = replicate 64 0, fifo_times = replicate 64 0,
     shm_key = shmkey, rw_conflict = 0\<rparr>"

fun signal_all :: "sq_env \<Rightarrow> int list \<Rightarrow> shm_queue \<Rightarrow> shm_queue option" where
  "signal_all env [] sq = Some sq"
| "signal_all env (i # is) sq = do { (sq1, _, _) \<leftarrow> signal_process env sq i; signal_all env is sq1 }"

definition sq_set_sigparam :: "sq_env \<Rightarrow> shm_queue \<Rightarrow> int \<Rightarrow> int \<Rightarrow> shm_queue option" where
  "sq_set_sigparam env sq sig_ele_num sig_proc_num =
     do { q \<leftarrow> verify_and_remove_bad_pids env ((head sq)\<lparr>sig_node_num := sig_ele_num, sig_process_num := sig_proc_num\<rparr>);
          signal_all env (map int [0..<nat (pidnum q)]) (sq\<lparr>head := q\<rparr>) }"

text \<open>The outer option is undefined behaviour, the inner one the null pointer.  The lock file is in \<open>Sq_Lock\<close>.\<close>

definition sq_create :: "sq_env \<Rightarrow> shm_sys \<Rightarrow> bool \<Rightarrow> 64 word \<Rightarrow> int \<Rightarrow> int \<Rightarrow> int \<Rightarrow> int \<Rightarrow> shm_queue option option" where
  "sq_create env sys calloc_ok shmkey ele_sz ele_cnt sig_ele_num sig_proc_num =
     (if \<not> calloc_ok then Some None
      else if ele_sz \<le> 0 \<or> ele_cnt \<le> RESERVE_BLOCK_COUNT \<or> shmkey = 0 then Some None
      else case open_shm_queue sys ele_sz ele_cnt True of
        None \<Rightarrow> Some None
      | Some q \<Rightarrow> map_option Some (sq_set_sigparam env (new_queue shmkey q) sig_ele_num sig_proc_num))"

definition sq_open :: "shm_sys \<Rightarrow> bool \<Rightarrow> 64 word \<Rightarrow> shm_queue option" where
  "sq_open sys calloc_ok shmkey =
     (if \<not> calloc_ok then None
      else case open_shm_queue sys 0 0 False of
        None \<Rightarrow> None
      | Some q \<Rightarrow> Some ((new_queue shmkey q)\<lparr>sig_idx := - 1\<rparr>))"

section \<open>Registering a reader\<close>

fun find_pid :: "int list \<Rightarrow> int \<Rightarrow> nat \<Rightarrow> nat \<Rightarrow> nat option" where
  "find_pid ps pid i 0 = None"
| "find_pid ps pid i (Suc n) = (if i < length ps \<and> ps ! i = pid then Some i else find_pid ps pid (Suc i) n)"

partial_function (option) register_loop :: "int \<Rightarrow> sq_head_t \<Rightarrow> (sq_head_t \<times> int) option" where
  "register_loop pid q =
     (if pidnum q \<ge> SQ_MAX_READER_PROC_NUM then Some (q, - 1)
      else do { oldpid \<leftarrow> rdi (pidset q) (pidnum q);
                let (n, ok1) = CAS32 (pidnum q) (pidnum q) (pidnum q + 1);
                let (p, ok2) = CAS32 oldpid oldpid pid;
                if ok1 \<and> ok2
                then do { ps \<leftarrow> wri (pidset q) (pidnum q) p; Some (q\<lparr>pidnum := n, pidset := ps\<rparr>, pidnum q) }
                else register_loop pid q })"

definition choose_slot :: "sq_env \<Rightarrow> sq_head_t \<Rightarrow> (sq_head_t \<times> int) option" where
  "choose_slot env q =
     (case find_pid (pidset q) (getpid env) 0 (nat (pidnum q)) of
        Some i \<Rightarrow> Some (q, int i)
      | None \<Rightarrow>
        (case find_pid (pidset q) 0 0 (nat (pidnum q)) of
           Some i \<Rightarrow> Some (q\<lparr>pidset := (pidset q)[i := getpid env]\<rparr>, int i)
         | None \<Rightarrow> register_loop (getpid env) q))"

definition sq_get_eventfd :: "sq_env \<Rightarrow> shm_queue \<Rightarrow> (shm_queue \<times> int) option" where
  "sq_get_eventfd env sq =
     (if sig_idx sq \<ge> 0 \<and> poll_fd sq > 0 then Some (sq, poll_fd sq)
      else do { q \<leftarrow> verify_and_remove_bad_pids env (head sq);
                (q, sigidx) \<leftarrow> choose_slot env q;
                if sigidx = - 1 then Some (sq\<lparr>head := q\<rparr>, - 1)
                else let fd = fifo_fd env sigidx;
                         sq = sq\<lparr>head := q, sig_idx := sigidx, poll_fd := fd\<rparr>
                     in if fd < 0 then Some (sq\<lparr>sig_idx := - 1, poll_fd := 0\<rparr>, - 1) else Some (sq, fd) })"

text \<open>How many bytes \<open>sq_consume_event_ext\<close> reads from the fifo, and its result.\<close>

definition sq_consume_event_ext :: "shm_queue \<Rightarrow> int \<Rightarrow> int \<times> int" where
  "sq_consume_event_ext sq nr_events =
     (let nr = (if nr_events \<le> 0 then 64 else if nr_events > 1024 then 1024 else nr_events)
      in if poll_fd sq > 0 then (nr, 0) else (0, - 1))"

definition sq_consume_event :: "shm_queue \<Rightarrow> int \<times> int" where
  "sq_consume_event sq = sq_consume_event_ext sq 0"

section \<open>A new queue\<close>

lemma align8_bounds: "n \<le> align8 n" "align8 n < n + 8"
proof -
  have "(n + 7) div 8 * 8 = n + 7 - (n + 7) mod 8" by (rule minus_mod_eq_div_mult [symmetric])
  moreover have "0 \<le> (n + 7) mod 8" "(n + 7) mod 8 < 8" by simp_all
  ultimately show "n \<le> align8 n" "align8 n < n + 8" unfolding align8_def by linarith+
qed

lemma align4MB_le: "n \<le> align4MB n"
proof -
  have "(n + 4194303) div 4194304 * 4194304 = n + 4194303 - (n + 4194303) mod 4194304"
    by (rule minus_mod_eq_div_mult [symmetric])
  moreover have "(n + 4194303) mod 4194304 < 4194304" by simp
  ultimately have "n \<le> (n + 4194303) div 4194304 * 4194304" by linarith
  then show ?thesis by (simp add: align4MB_def)
qed

lemma verify_no_pids:
  assumes "pidnum q = 0"
  shows "verify_and_remove_bad_pids env q = Some q"
proof -
  have "q\<lparr>pidnum := 0\<rparr> = q" using assms by simp
  then show ?thesis using assms by (simp add: verify_and_remove_bad_pids_def SQ_MAX_READER_PROC_NUM_def)
qed

lemma sq_create_new:
  assumes "0 < ele_sz" "ele_sz < 2 ^ 31 - 8" "100 < ele_cnt" "ele_cnt < 2 ^ 30" "shmkey \<noteq> 0"
    and "segment sys = None" "shmget_create_ok sys" "shmat_ok sys"
  shows "\<exists>sq. sq_create env sys True shmkey ele_sz ele_cnt sn sp = Some (Some sq) \<and> sqm_holds sq []
    \<and> ele_count (head sq) = ele_cnt \<and> ele_size (head sq) = align8 ele_sz \<and> head_pos (head sq) = 0 \<and> tail_pos (head sq) = 0
    \<and> nodes (head sq) = replicate (length (nodes (head sq))) 0 \<and> pidnum (head sq) = 0 \<and> poll_fd sq = 0"
proof -
  let ?sz = "align8 ele_sz"
  have sz: "0 < ?sz" "?sz < 2 ^ 31" using align8_bounds [of ele_sz] assms by linarith+
  have t: "to_i32 ?sz = ?sz" "to_i32 ele_cnt = ele_cnt"
    using sz assms(3,4) by (simp_all add: to_i32_def)
  let ?al = "align4MB (sizeof_sq_head_t + (sizeof_node_head + ?sz) * (ele_cnt + 1))"
  have al: "(sizeof_node_head + ?sz) * (ele_cnt + 1) \<le> ?al - sizeof_sq_head_t"
    using align4MB_le [of "sizeof_sq_head_t + (sizeof_node_head + ?sz) * (ele_cnt + 1)"] by simp
  define q where "q = \<lparr>ele_size = ?sz, ele_count = ele_cnt, head_pos = 0, tail_pos = 0,
             sig_node_num = 0, sig_process_num = 0, pidnum = 0, pidset = replicate 64 0, sigmask = replicate 8 0,
             siglock = replicate 64 0, signr = replicate 64 0,
             nodes = replicate (nat (?al - sizeof_sq_head_t)) (0 :: 8 word)\<rparr>"
  have op: "open_shm_queue sys ele_sz ele_cnt True = Some q"
    using assms(6-8) t by (simp add: open_shm_queue_def attach_shm_def Let_def q_def)
  let ?q = "q\<lparr>sig_node_num := sn, sig_process_num := sp\<rparr>"
  let ?sq = "(new_queue shmkey q)\<lparr>head := ?q\<rparr>"
  have vq: "verify_and_remove_bad_pids env ?q = Some ?q" by (rule verify_no_pids) (simp add: q_def)
  have "pidnum ?q = 0" by (simp add: q_def)
  then have "sq_set_sigparam env (new_queue shmkey q) sn sp = Some ?sq"
    using vq by (simp add: sq_set_sigparam_def new_queue_def)
  then have "sq_create env sys True shmkey ele_sz ele_cnt sn sp = Some (Some ?sq)"
    using assms(1,3,5) op by (simp add: sq_create_def RESERVE_BLOCK_COUNT_def)
  moreover have "sqm_holds ?sq []"
  proof -
    have "int (NN ?q * NS ?q) = (16 + ?sz) * (ele_cnt + 1)"
      using sz assms(3) by (simp add: NN_def NS_def q_def)
    then have "int (NN ?q * NS ?q) \<le> int (length (nodes ?q))"
      using al by (simp add: q_def sizeof_node_head_def)
    then have len: "NN ?q * NS ?q \<le> length (nodes ?q)" by (simp only: of_nat_le_iff)
    then have "sq_geometry ?q"
      using sz assms(3,4) unfolding sq_geometry_def by (simp add: q_def RESERVE_BLOCK_COUNT_def)
    then have "sq_layout ?q []" using assms(3) by (simp add: sq_layout_def q_def NN_def)
    then show ?thesis
      by (auto simp: sqm_holds_def sig_inv_def new_queue_def q_def list_all_iff intro!: exI [of _ "[]"])
  qed
  ultimately show ?thesis by (auto simp: q_def new_queue_def)
qed

declare register_loop.simps [code]

end
