(* ===== verification/Opt_Time.thy ===== *)
theory Opt_Time
  imports Prelude
begin

text \<open>
  The cached clock of shmqueue/opt_time.h: \<open>opt_gettimeofday\<close> and \<open>opt_time\<close> ask the system
  only when the time stamp counter has advanced by more than 1000 ticks since the last answer.
\<close>

text \<open>The static variables; \<open>lock_v\<close> is the try-lock.\<close>

record opt_clock =
  walltick :: "64 word"
  walltime :: "int \<times> int"
  lock_v :: "64 word"

definition max_ticks :: "64 word" where "max_ticks = 1 * 1000 * 1"

text \<open>
  \<open>clk\<close> is the system clock at each counter value; \<open>t0\<close>, \<open>t1\<close> and \<open>t2\<close> are the counter at
  the test, at the call of gettimeofday and at the store to \<open>walltick\<close>.  The result is the new
  statics and the time that is handed out.
\<close>

definition opt_gettimeofday ::
    "(64 word \<Rightarrow> int \<times> int) \<Rightarrow> 64 word \<times> 64 word \<times> 64 word \<Rightarrow> opt_clock \<Rightarrow> opt_clock \<times> (int \<times> int)" where
  "opt_gettimeofday clk = (\<lambda>(t0, t1, t2) c.
     if fst (walltime c) = 0 \<or> t0 - walltick c > max_ticks
     then if lock_v c = 0
          then let c = c\<lparr>lock_v := 1\<rparr>;
                   c = c\<lparr>walltime := clk t1\<rparr>;
                   c = c\<lparr>walltick := t2\<rparr>;
                   c = c\<lparr>lock_v := 0\<rparr>
               in (c, walltime c)
          else (c, clk t1)
     else (c, walltime c))"

text \<open>\<open>opt_time\<close> has its own statics and hands out the seconds.\<close>

definition opt_time ::
    "(64 word \<Rightarrow> int \<times> int) \<Rightarrow> 64 word \<times> 64 word \<times> 64 word \<Rightarrow> opt_clock \<Rightarrow> opt_clock \<times> int" where
  "opt_time clk = (\<lambda>(t0, t1, t2) c.
     if fst (walltime c) = 0 \<or> t0 - walltick c > max_ticks
     then if lock_v c = 0
          then let c = c\<lparr>lock_v := 1\<rparr>;
                   c = c\<lparr>walltime := clk t1\<rparr>;
                   c = c\<lparr>walltick := t2\<rparr>;
                   c = c\<lparr>lock_v := 0\<rparr>
               in (c, fst (walltime c))
          else (c, fst (clk t1))
     else (c, fst (walltime c)))"

fun clock_run :: "(64 word \<Rightarrow> int \<times> int) \<Rightarrow> (64 word \<times> 64 word \<times> 64 word) list \<Rightarrow> opt_clock \<Rightarrow> (int \<times> int) list" where
  "clock_run clk [] c = []"
| "clock_run clk (ts # tss) c = (let (c', t) = opt_gettimeofday clk ts c in t # clock_run clk tss c')"

definition opt_clock_init :: opt_clock where
  "opt_clock_init = \<lparr>walltick = 0, walltime = (0, 0), lock_v = 0\<rparr>"

text \<open>The counter runs forward, and a call of gettimeofday and the store after it take at most \<open>w\<close> ticks.\<close>

fun ticks_ok :: "nat \<Rightarrow> nat \<Rightarrow> (64 word \<times> 64 word \<times> 64 word) list \<Rightarrow> bool" where
  "ticks_ok w t [] \<longleftrightarrow> True"
| "ticks_ok w t ((t0, t1, t2) # tss) \<longleftrightarrow> t \<le> unat t0 \<and> unat t0 \<le> unat t1 \<and> unat t1 \<le> unat t2
     \<and> unat t2 \<le> unat t0 + w \<and> ticks_ok w (unat t2) tss"

text \<open>The cached time is the system's at most \<open>w\<close> ticks before \<open>walltick\<close>.\<close>

definition clock_inv :: "(64 word \<Rightarrow> int \<times> int) \<Rightarrow> nat \<Rightarrow> nat \<Rightarrow> opt_clock \<Rightarrow> bool" where
  "clock_inv clk w t c \<longleftrightarrow> lock_v c = 0 \<and> (fst (walltime c) \<noteq> 0 \<longrightarrow>
     (\<exists>u. walltime c = clk u \<and> unat u \<le> unat (walltick c) \<and> unat (walltick c) \<le> unat u + w \<and> unat (walltick c) \<le> t))"

lemma opt_gettimeofday_fresh:
  assumes "clock_inv clk w t c" "t \<le> unat t0" "unat t0 \<le> unat t1" "unat t1 \<le> unat t2" "unat t2 \<le> unat t0 + w"
  shows "\<exists>c' u. opt_gettimeofday clk (t0, t1, t2) c = (c', clk u) \<and> clock_inv clk w (unat t2) c'
    \<and> unat t0 \<le> unat u + (1000 + w) \<and> unat u \<le> unat t0 + w"
proof (cases "fst (walltime c) = 0 \<or> t0 - walltick c > max_ticks")
  case True
  then show ?thesis using assms
    by (intro exI [of _ "c\<lparr>walltime := clk t1, walltick := t2, lock_v := 0\<rparr>"] exI [of _ t1])
      (auto simp: opt_gettimeofday_def clock_inv_def Let_def intro!: exI [of _ t1])
next
  case False
  then obtain u where u: "walltime c = clk u" "unat u \<le> unat (walltick c)" "unat (walltick c) \<le> unat u + w"
    "unat (walltick c) \<le> t"
    using assms(1) by (auto simp: clock_inv_def)
  have "unat (t0 - walltick c) = unat t0 - unat (walltick c)"
    using u(4) assms(2) by (intro unat_sub) (simp add: word_le_nat_alt)
  moreover have "unat (t0 - walltick c) \<le> 1000" using False by (simp add: max_ticks_def word_le_nat_alt not_less)
  ultimately have "unat t0 \<le> unat u + (1000 + w)" using u(3) by linarith
  moreover have "clock_inv clk w (unat t2) c" using assms u by (auto simp: clock_inv_def)
  ultimately show ?thesis using False u assms by (auto simp: opt_gettimeofday_def intro!: exI [of _ u])
qed

lemma clock_run_inv:
  "clock_inv clk w t c \<Longrightarrow> ticks_ok w t ts \<Longrightarrow> i < length ts \<Longrightarrow>
   \<exists>u. clock_run clk ts c ! i = clk u \<and> unat (fst (ts ! i)) \<le> unat u + (1000 + w) \<and> unat u \<le> unat (fst (ts ! i)) + w"
proof (induction w t ts arbitrary: c i rule: ticks_ok.induct)
  case (2 w t t0 t1 t2 tss)
  have "t \<le> unat t0" "unat t0 \<le> unat t1" "unat t1 \<le> unat t2" "unat t2 \<le> unat t0 + w" "ticks_ok w (unat t2) tss"
    using "2.prems"(2) by auto
  note ok = this
  obtain c' u where o: "opt_gettimeofday clk (t0, t1, t2) c = (c', clk u)" "clock_inv clk w (unat t2) c'"
    "unat t0 \<le> unat u + (1000 + w)" "unat u \<le> unat t0 + w"
    using opt_gettimeofday_fresh [OF "2.prems"(1) ok(1-4)] by blast
  show ?case
  proof (cases i)
    case 0
    then show ?thesis using o by auto
  next
    case (Suc j)
    then show ?thesis using "2.IH" [OF o(2) ok(5), of j] "2.prems"(3) o(1) by simp
  qed
qed simp

lemma clock_inv_init: "clock_inv clk w 0 opt_clock_init"
  by (simp add: clock_inv_def opt_clock_init_def)

text \<open>Both functions run the same cache.\<close>

lemma opt_time_is_seconds:
  "opt_time clk ts c = (case opt_gettimeofday clk ts c of (c', t) \<Rightarrow> (c', fst t))"
  by (cases ts) (simp add: opt_time_def opt_gettimeofday_def Let_def)

text \<open>
  Every time that a run of \<open>opt_gettimeofday\<close> calls hands out is an answer of the system
  clock that is at most 1000 ticks, and the ticks that one call takes, away from the call.
\<close>

theorem opt_gettimeofday_recent:
  assumes "ticks_ok w 0 ts" "i < length ts"
  shows "\<exists>u. clock_run clk ts opt_clock_init ! i = clk u
    \<and> unat (fst (ts ! i)) \<le> unat u + (1000 + w) \<and> unat u \<le> unat (fst (ts ! i)) + w"
  by (rule clock_run_inv [OF clock_inv_init assms])

theorem opt_gettimeofday_recent_witness:
  "\<exists>u :: 64 word. clock_run (\<lambda>t. (1 + uint t, 0)) [(10, 20, 30), (500, 510, 520), (2000, 2010, 2020)] opt_clock_init ! 1
     = (1 + uint u, 0) \<and> unat (500 :: 64 word) \<le> unat u + (1000 + 20) \<and> unat u \<le> unat (500 :: 64 word) + 20"
  using opt_gettimeofday_recent [of 20 "[(10, 20, 30), (500, 510, 520), (2000, 2010, 2020)]" 1 "\<lambda>t. (1 + uint t, 0)"]
  by (simp del: clock_run.simps)

end
