(* ===== verification/Sq_Registry.thy ===== *)
theory Sq_Registry
  imports Sq_Create Opt_Time
begin

text \<open>
  The registry of reader processes of the message queue, and the properties of the whole queue.
\<close>

section \<open>Removing dead readers\<close>

lemma sig_off_frame:
  assumes "length (sigmask q) = 8" "i < 64"
  shows "\<exists>ms r. sq_set_sig_off q (int i) = Some (q\<lparr>sigmask := ms\<rparr>, r) \<and> length ms = 8"
proof (cases "u32 (int i) < u32 (pidnum q)")
  case True
  then show ?thesis using assms by (auto simp: sq_set_sig_off_def)
next
  case False
  then show ?thesis using assms by (auto simp: sq_set_sig_off_def intro!: exI [of _ "sigmask q"])
qed

lemma drop_bad_pids_spec:
  "length (pidset q) = 64 \<Longrightarrow> length (sigmask q) = 8 \<Longrightarrow> n \<le> 64 \<Longrightarrow> pidnum q = int n \<Longrightarrow>
   \<exists>ms k. drop_bad_pids env n q = Some (q\<lparr>sigmask := ms, pidnum := int k\<rparr>, k) \<and> length ms = 8 \<and> k \<le> n
     \<and> (0 < k \<longrightarrow> is_pid_valid env (pidset q ! (k - 1)))
     \<and> (\<forall>i. k \<le> i \<longrightarrow> i < n \<longrightarrow> \<not> is_pid_valid env (pidset q ! i))"
proof (induction n arbitrary: q)
  case 0
  have "q = q\<lparr>sigmask := sigmask q, pidnum := int 0\<rparr>" using 0 by simp
  then show ?case using 0 by (intro exI [of _ "sigmask q"] exI [of _ 0]) simp
next
  case (Suc n)
  show ?case
  proof (cases "is_pid_valid env (pidset q ! n)")
    case True
    have "q = q\<lparr>sigmask := sigmask q, pidnum := int (Suc n)\<rparr>" using Suc.prems by simp
    then have "drop_bad_pids env (Suc n) q = Some (q\<lparr>sigmask := sigmask q, pidnum := int (Suc n)\<rparr>, Suc n)"
      using True Suc.prems by simp
    then show ?thesis using Suc.prems True by (intro exI [of _ "sigmask q"] exI [of _ "Suc n"]) simp
  next
    case False
    obtain ms r where ms: "sq_set_sig_off q (int n) = Some (q\<lparr>sigmask := ms\<rparr>, r)" "length ms = 8"
      using sig_off_frame [of q n] Suc.prems by auto
    let ?q = "q\<lparr>sigmask := ms, pidnum := int n\<rparr>"
    obtain ms2 k where k: "drop_bad_pids env n ?q = Some (?q\<lparr>sigmask := ms2, pidnum := int k\<rparr>, k)" "length ms2 = 8" "k \<le> n"
      "0 < k \<longrightarrow> is_pid_valid env (pidset ?q ! (k - 1))"
      "\<forall>i. k \<le> i \<longrightarrow> i < n \<longrightarrow> \<not> is_pid_valid env (pidset ?q ! i)"
      using Suc.IH [of ?q] Suc.prems ms(2) by auto
    have "drop_bad_pids env (Suc n) q = Some (q\<lparr>sigmask := ms2, pidnum := int k\<rparr>, k)"
      using False Suc.prems ms(1) k(1) by (simp add: CAS32_def)
    moreover have "\<forall>i. k \<le> i \<longrightarrow> i < Suc n \<longrightarrow> \<not> is_pid_valid env (pidset q ! i)"
      using k(5) False by (auto simp: less_Suc_eq)
    ultimately show ?thesis using k(2-4) by (intro exI [of _ ms2] exI [of _ k]) simp
  qed
qed

lemma zero_bad_pids_spec:
  "length (pidset q) = 64 \<Longrightarrow> length (sigmask q) = 8 \<Longrightarrow> n \<le> 64 \<Longrightarrow>
   \<exists>ms ps. zero_bad_pids env n q = Some (q\<lparr>sigmask := ms, pidset := ps\<rparr>) \<and> length ms = 8 \<and> length ps = 64
     \<and> (\<forall>i < 64. ps ! i = (if i < n \<and> \<not> is_pid_valid env (pidset q ! i) then 0 else pidset q ! i))"
proof (induction n arbitrary: q)
  case 0
  then show ?case by (intro exI [of _ "sigmask q"] exI [of _ "pidset q"]) simp
next
  case (Suc n)
  show ?case
  proof (cases "is_pid_valid env (pidset q ! n)")
    case True
    obtain ms ps where "zero_bad_pids env n q = Some (q\<lparr>sigmask := ms, pidset := ps\<rparr>)" "length ms = 8" "length ps = 64"
      "\<forall>i < 64. ps ! i = (if i < n \<and> \<not> is_pid_valid env (pidset q ! i) then 0 else pidset q ! i)"
      using Suc.IH [of q] Suc.prems by auto
    then show ?thesis using True Suc.prems
      by (intro exI [of _ ms] exI [of _ ps]) (auto simp: less_Suc_eq)
  next
    case False
    obtain ms r where ms: "sq_set_sig_off q (int n) = Some (q\<lparr>sigmask := ms\<rparr>, r)" "length ms = 8"
      using sig_off_frame [of q n] Suc.prems by auto
    let ?q = "q\<lparr>sigmask := ms, pidset := (pidset q)[n := 0]\<rparr>"
    obtain ms2 ps where z: "zero_bad_pids env n ?q = Some (?q\<lparr>sigmask := ms2, pidset := ps\<rparr>)" "length ms2 = 8" "length ps = 64"
      "\<forall>i < 64. ps ! i = (if i < n \<and> \<not> is_pid_valid env (pidset ?q ! i) then 0 else pidset ?q ! i)"
      using Suc.IH [of ?q] Suc.prems ms(2) by auto
    have "zero_bad_pids env (Suc n) q = Some (q\<lparr>sigmask := ms2, pidset := ps\<rparr>)"
      using False Suc.prems ms(1) z(1) by simp
    moreover have "\<forall>i < 64. ps ! i = (if i < Suc n \<and> \<not> is_pid_valid env (pidset q ! i) then 0 else pidset q ! i)"
      using z(4) False Suc.prems by (auto simp: less_Suc_eq nth_list_update)
    ultimately show ?thesis using z(2,3) by (intro exI [of _ ms2] exI [of _ ps]) simp
  qed
qed

text \<open>Whatever the count in the segment was, afterwards it is in range and every entry is alive or zero.\<close>

lemma verify_spec:
  assumes "length (pidset q) = 64" "length (sigmask q) = 8"
  shows "\<exists>ms ps k. verify_and_remove_bad_pids env q = Some (q\<lparr>pidnum := int k, sigmask := ms, pidset := ps\<rparr>)
    \<and> k \<le> 64 \<and> length ms = 8 \<and> length ps = 64 \<and> (\<forall>i < k. ps ! i = 0 \<or> is_pid_valid env (ps ! i))
    \<and> (\<forall>i < 64. is_pid_valid env (pidset q ! i) \<longrightarrow> ps ! i = pidset q ! i)
    \<and> (\<forall>i < 64. is_pid_valid env (pidset q ! i) \<longrightarrow> int i < pidnum q \<longrightarrow> i < k)"
proof -
  define n where "n = nat (if pidnum q < 0 \<or> pidnum q > 64 then 64 else pidnum q)"
  have n: "n \<le> 64" "(if pidnum q < 0 \<or> pidnum q > SQ_MAX_READER_PROC_NUM then SQ_MAX_READER_PROC_NUM else pidnum q) = int n"
    by (auto simp: n_def SQ_MAX_READER_PROC_NUM_def)
  let ?q = "q\<lparr>pidnum := int n\<rparr>"
  obtain ms k where d: "drop_bad_pids env n ?q = Some (?q\<lparr>sigmask := ms, pidnum := int k\<rparr>, k)" "length ms = 8" "k \<le> n"
    "0 < k \<longrightarrow> is_pid_valid env (pidset ?q ! (k - 1))"
    "\<forall>i. k \<le> i \<longrightarrow> i < n \<longrightarrow> \<not> is_pid_valid env (pidset ?q ! i)"
    using drop_bad_pids_spec [of ?q n env] assms n by auto
  let ?q1 = "?q\<lparr>sigmask := ms, pidnum := int k\<rparr>"
  have p: "length (pidset ?q1) = 64" "length (sigmask ?q1) = 8" "k - 1 \<le> 64" using assms d(2,3) n(1) by auto
  obtain ms2 ps where z: "zero_bad_pids env (k - 1) ?q1 = Some (?q1\<lparr>sigmask := ms2, pidset := ps\<rparr>)" "length ms2 = 8" "length ps = 64"
    "\<forall>i < 64. ps ! i = (if i < k - 1 \<and> \<not> is_pid_valid env (pidset ?q1 ! i) then 0 else pidset ?q1 ! i)"
    using zero_bad_pids_spec [OF p, of env] by blast
  have v: "verify_and_remove_bad_pids env q = Some (q\<lparr>pidnum := int k, sigmask := ms2, pidset := ps\<rparr>)"
    unfolding verify_and_remove_bad_pids_def Let_def n(2) using d(1) z(1) by simp
  have "ps ! i = 0 \<or> is_pid_valid env (ps ! i)" if "i < k" for i
  proof (cases "i < k - 1")
    case True
    then show ?thesis using z(4) d(3) n(1) by auto
  next
    case False
    then have "i = k - 1" using that by simp
    then show ?thesis using z(4) d(3,4) n(1) that by auto
  qed
  moreover have "i < k" if "i < 64" "is_pid_valid env (pidset q ! i)" "int i < pidnum q" for i
  proof (rule ccontr)
    assume "\<not> i < k"
    moreover have "i < n" using that(1,3) by (auto simp: n_def)
    ultimately show False using d(5) that(2) by (simp add: not_less)
  qed
  moreover have "ps ! i = pidset q ! i" if "i < 64" "is_pid_valid env (pidset q ! i)" for i
    using z(4) that by auto
  ultimately show ?thesis using v z(2,3) d(3) n(1) by (intro exI [of _ ms2] exI [of _ ps] exI [of _ k]) simp
qed

section \<open>Registering\<close>

lemma find_pid_Some: "find_pid ps pid i n = Some j \<Longrightarrow> i \<le> j \<and> j < i + n \<and> j < length ps \<and> ps ! j = pid"
  by (induction ps pid i n rule: find_pid.induct) (auto split: if_splits)

lemma choose_slot_spec:
  assumes "length (pidset q) = 64" "0 \<le> pidnum q" "pidnum q \<le> 64"
  shows "\<exists>q' j. choose_slot env q = Some (q', j) \<and> queue_part q' = queue_part q
    \<and> length (pidset q') = 64 \<and> sigmask q' = sigmask q \<and> siglock q' = siglock q \<and> signr q' = signr q
    \<and> pidnum q \<le> pidnum q' \<and> pidnum q' \<le> 64
    \<and> (j = - 1 \<and> q' = q \<and> pidnum q = 64 \<or> 0 \<le> j \<and> j < pidnum q' \<and> pidset q' ! nat j = getpid env)
    \<and> (\<forall>i < nat (pidnum q). pidset q ! i \<noteq> 0 \<longrightarrow> pidset q' ! i = pidset q ! i)"
proof (cases "find_pid (pidset q) (getpid env) 0 (nat (pidnum q))")
  case (Some i)
  then show ?thesis using assms find_pid_Some [OF Some]
    by (intro exI [of _ q] exI [of _ "int i"]) (auto simp: choose_slot_def)
next
  case n1: None
  show ?thesis
  proof (cases "find_pid (pidset q) 0 0 (nat (pidnum q))")
    case (Some i)
    then show ?thesis using assms n1 find_pid_Some [OF Some]
      by (intro exI [of _ "q\<lparr>pidset := (pidset q)[i := getpid env]\<rparr>"] exI [of _ "int i"])
        (auto simp: choose_slot_def queue_part_def nth_list_update)
  next
    case None
    then have c: "choose_slot env q = register_loop (getpid env) q" using n1 by (simp add: choose_slot_def)
    show ?thesis
    proof (cases "pidnum q = 64")
      case True
      then show ?thesis using assms c
        by (intro exI [of _ q] exI [of _ "- 1"]) (simp add: register_loop.simps SQ_MAX_READER_PROC_NUM_def)
    next
      case False
      then have "choose_slot env q = Some (q\<lparr>pidnum := pidnum q + 1, pidset := (pidset q)[nat (pidnum q) := getpid env]\<rparr>, pidnum q)"
        using assms c by (subst c, subst register_loop.simps) (simp add: SQ_MAX_READER_PROC_NUM_def CAS32_def Let_def)
      then show ?thesis using assms False
        by (intro exI [of _ "q\<lparr>pidnum := pidnum q + 1, pidset := (pidset q)[nat (pidnum q) := getpid env]\<rparr>"]
            exI [of _ "pidnum q"]) (auto simp: queue_part_def)
    qed
  qed
qed

lemma sig_inv_registry:
  assumes "sig_inv sq" "length ms = 8" "length ps = 64" "0 \<le> k" "k \<le> 64"
  shows "sig_inv (sq\<lparr>head := (head sq)\<lparr>pidnum := k, sigmask := ms, pidset := ps\<rparr>\<rparr>)"
  using assms by (simp add: sig_inv_def)

text \<open>A queue with no messages whose head and tail stand at \<open>p\<close>.\<close>

definition idle_queue :: "int \<Rightarrow> int \<Rightarrow> int \<Rightarrow> shm_queue" where
  "idle_queue es ec p = new_queue 1 \<lparr>ele_size = es, ele_count = ec, head_pos = p, tail_pos = p,
     sig_node_num = 0, sig_process_num = 0, pidnum = 0, pidset = replicate 64 0, sigmask = replicate 8 0,
     siglock = replicate 64 0, signr = replicate 64 0, nodes = replicate (nat ((16 + es) * (ec + 1))) 0\<rparr>"

lemma idle_queue_layout:
  assumes "0 < es" "es < 2 ^ 31" "100 < ec" "ec < 2 ^ 30" "0 \<le> p" "p \<le> ec"
  shows "sq_layout (head (idle_queue es ec p)) []"
proof -
  let ?q = "head (idle_queue es ec p)"
  have "NN ?q * NS ?q = nat ((16 + es) * (ec + 1))"
    using assms by (simp add: NN_def NS_def idle_queue_def new_queue_def nat_mult_distrib mult.commute)
  then have "sq_geometry ?q"
    using assms by (simp add: sq_geometry_def idle_queue_def new_queue_def RESERVE_BLOCK_COUNT_def)
  moreover have "nat p < NN ?q" using assms by (simp add: NN_def idle_queue_def new_queue_def)
  ultimately show ?thesis by (auto simp: sq_layout_def idle_queue_def new_queue_def)
qed

lemma idle_queue_holds:
  assumes "0 < es" "es < 2 ^ 31" "100 < ec" "ec < 2 ^ 30" "0 \<le> p" "p \<le> ec"
  shows "sig_inv (idle_queue es ec p)" "sqm_holds (idle_queue es ec p) []"
proof -
  show s: "sig_inv (idle_queue es ec p)" by (simp add: sig_inv_def idle_queue_def new_queue_def list_all_iff)
  then show "sqm_holds (idle_queue es ec p) []"
    using idle_queue_layout [OF assms] by (auto simp: sqm_holds_def intro!: exI [of _ "[]"])
qed

lemma sq_used_le:
  assumes "sq_layout q its"
  shows "int (sq_used q) \<le> ele_count q"
  using assms sq_layout_pos(3) [OF assms] sq_geometryD(4) [of q] by (simp add: sq_layout_def)

lemma sq_usage_eq:
  assumes "sq_layout (head sq) its" "ele_count (head sq) \<le> 21474836"
  shows "sq_get_usage sq = Some (100 * int (sq_used (head sq)) div ele_count (head sq))"
proof -
  let ?q = "head sq"
  have g: "sq_geometry ?q" using assms(1) by (simp add: sq_layout_def)
  have u: "SQ_USED_NODES ?q = Some (int (sq_used ?q))"
    using SQ_EMPTY_eq(2) [OF g sq_geometryD(9) [OF g], of "cells (NS ?q) its"] assms(1) sq_layout_pos [OF assms(1)]
    by (simp add: SQ_USED_NODES_def sq_layout_def)
  have "int (sq_used ?q) * 100 < 2147483648" using sq_used_le [OF assms(1)] assms(2) by linarith
  then show ?thesis using u sq_geometryD(1) [OF g] by (simp add: sq_get_usage_def mult.commute)
qed

lemma eventfd_registers:
  assumes "sig_inv sq" "sqm_holds sq ms" "\<not> (sig_idx sq \<ge> 0 \<and> poll_fd sq > 0)"
  shows "\<exists>sq' fd. sq_get_eventfd env sq = Some (sq', fd) \<and> sig_inv sq' \<and> sqm_holds sq' ms
    \<and> (\<forall>i < nat (pidnum (head sq)). is_pid_valid env (pidset (head sq) ! i) \<longrightarrow>
          pidset (head sq') ! i = pidset (head sq) ! i \<and> int i < pidnum (head sq'))
    \<and> (fd = - 1 \<or> 0 \<le> fd \<and> fd = fifo_fd env (sig_idx sq') \<and> 0 \<le> sig_idx sq' \<and> sig_idx sq' < pidnum (head sq')
        \<and> pidset (head sq') ! nat (sig_idx sq') = getpid env)"
proof -
  let ?q = "head sq"
  have l: "length (pidset ?q) = 64" "length (sigmask ?q) = 8" using assms(1) by (simp_all add: sig_inv_def)
  obtain ms1 ps k where v: "verify_and_remove_bad_pids env ?q = Some (?q\<lparr>pidnum := int k, sigmask := ms1, pidset := ps\<rparr>)"
    "k \<le> 64" "length ms1 = 8" "length ps = 64"
    "\<forall>i < 64. is_pid_valid env (pidset ?q ! i) \<longrightarrow> ps ! i = pidset ?q ! i"
    "\<forall>i < 64. is_pid_valid env (pidset ?q ! i) \<longrightarrow> int i < pidnum ?q \<longrightarrow> i < k"
    using verify_spec [OF l, of env] by blast
  let ?q1 = "?q\<lparr>pidnum := int k, sigmask := ms1, pidset := ps\<rparr>"
  have "length (pidset ?q1) = 64" "0 \<le> pidnum ?q1" "pidnum ?q1 \<le> 64" using v(2,4) by simp_all
  from choose_slot_spec [OF this, of env]
  obtain q2 j where c: "choose_slot env ?q1 = Some (q2, j)" "queue_part q2 = queue_part ?q1"
    "length (pidset q2) = 64" "sigmask q2 = sigmask ?q1" "siglock q2 = siglock ?q1" "signr q2 = signr ?q1"
    "pidnum ?q1 \<le> pidnum q2" "pidnum q2 \<le> 64"
    "j = - 1 \<and> q2 = ?q1 \<and> pidnum ?q1 = 64 \<or> 0 \<le> j \<and> j < pidnum q2 \<and> pidset q2 ! nat j = getpid env"
    "\<forall>i < nat (pidnum ?q1). pidset ?q1 ! i \<noteq> 0 \<longrightarrow> pidset q2 ! i = pidset ?q1 ! i"
    by blast
  have keep: "\<forall>i < nat (pidnum ?q). is_pid_valid env (pidset ?q ! i) \<longrightarrow> pidset q2 ! i = pidset ?q ! i \<and> int i < pidnum q2"
  proof (intro allI impI)
    fix i assume i: "i < nat (pidnum ?q)" "is_pid_valid env (pidset ?q ! i)"
    then have "i < 64" "int i < pidnum ?q" using assms(1) by (auto simp: sig_inv_def)
    then have "i < k" "ps ! i = pidset ?q ! i" using i(2) v(5,6) by auto
    moreover have "pidset ?q ! i \<noteq> 0" using i(2) by (auto simp: is_pid_valid_def)
    ultimately show "pidset q2 ! i = pidset ?q ! i \<and> int i < pidnum q2" using c(7,10) by auto
  qed
  have inv: "sig_inv (sq\<lparr>head := q2, sig_idx := a, poll_fd := b\<rparr>)" "sqm_holds (sq\<lparr>head := q2, sig_idx := a, poll_fd := b\<rparr>) ms" for a b
  proof -
    show s: "sig_inv (sq\<lparr>head := q2, sig_idx := a, poll_fd := b\<rparr>)"
      using assms(1) c(3-8) v(3) by (simp add: sig_inv_def)
    have "queue_part q2 = queue_part ?q" using c(2) by (simp add: queue_part_def)
    then show "sqm_holds (sq\<lparr>head := q2, sig_idx := a, poll_fd := b\<rparr>) ms"
      using assms(2) s sq_layout_part [of q2 ?q] by (auto simp: sqm_holds_def)
  qed
  show ?thesis
  proof (cases "j = - 1")
    case True
    have "sq_get_eventfd env sq = Some (sq\<lparr>head := q2, sig_idx := sig_idx sq, poll_fd := poll_fd sq\<rparr>, - 1)"
      unfolding sq_get_eventfd_def if_not_P [OF assms(3)] using v(1) c(1) True by simp
    then show ?thesis using inv [where a = "sig_idx sq" and b = "poll_fd sq"] keep
      by (intro exI [of _ "sq\<lparr>head := q2, sig_idx := sig_idx sq, poll_fd := poll_fd sq\<rparr>"] exI [of _ "- 1"]) simp
  next
    case False
    show ?thesis
    proof (cases "fifo_fd env j < 0")
      case True
      have "sq_get_eventfd env sq = Some (sq\<lparr>head := q2, sig_idx := - 1, poll_fd := 0\<rparr>, - 1)"
        unfolding sq_get_eventfd_def if_not_P [OF assms(3)] using v(1) c(1) True False by simp
      then show ?thesis using inv [where a = "- 1" and b = 0] keep
        by (intro exI [of _ "sq\<lparr>head := q2, sig_idx := - 1, poll_fd := 0\<rparr>"] exI [of _ "- 1"]) simp
    next
      case fd: False
      have "sq_get_eventfd env sq = Some (sq\<lparr>head := q2, sig_idx := j, poll_fd := fifo_fd env j\<rparr>, fifo_fd env j)"
        unfolding sq_get_eventfd_def if_not_P [OF assms(3)] using v(1) c(1) False fd by (simp add: Let_def)
      then show ?thesis using inv [where a = j and b = "fifo_fd env j"] keep c(9) False fd
        by (intro exI [of _ "sq\<lparr>head := q2, sig_idx := j, poll_fd := fifo_fd env j\<rparr>"] exI [of _ "fifo_fd env j"]) simp
    qed
  qed
qed

text \<open>
  Registering a reader.  On a sound queue whose reader has no descriptor yet, \<open>sq_get_eventfd\<close>
  does not reach undefined behaviour and leaves the messages alone; every registered process that
  is still alive keeps its entry.  It fails exactly by reporting -1, when 64 entries are taken or the
  fifo cannot be opened; otherwise the process owns the entry with its index, which is below
  the number of entries and so below 64.
\<close>

theorem sq_get_eventfd_registers:
  assumes "sig_inv sq" "sqm_holds sq ms" "\<not> (sig_idx sq \<ge> 0 \<and> poll_fd sq > 0)"
  shows "\<exists>sq' fd. sq_get_eventfd env sq = Some (sq', fd) \<and> sig_inv sq' \<and> sqm_holds sq' ms
    \<and> (\<forall>i < nat (pidnum (head sq)). is_pid_valid env (pidset (head sq) ! i) \<longrightarrow>
          pidset (head sq') ! i = pidset (head sq) ! i \<and> int i < pidnum (head sq'))
    \<and> (fd = - 1 \<or> 0 \<le> fd \<and> fd = fifo_fd env (sig_idx sq') \<and> 0 \<le> sig_idx sq' \<and> sig_idx sq' < pidnum (head sq')
        \<and> pidset (head sq') ! nat (sig_idx sq') = getpid env)"
  by (rule eventfd_registers [OF assms])

theorem sq_get_eventfd_registers_witness:
  "\<exists>sq' fd. sq_get_eventfd \<lparr>pid_exists = (\<lambda>p. p = 7), clock_sec = 0, clock_usec = 0, fifo_fd = (\<lambda>i. 3 + i), getpid = 42\<rparr>
       (idle_queue 8 200 5) = Some (sq', fd) \<and> sqm_holds sq' [] \<and> (fd = - 1 \<or> pidset (head sq') ! nat (sig_idx sq') = 42)"
proof -
  let ?env = "\<lparr>pid_exists = (\<lambda>p. p = 7), clock_sec = 0, clock_usec = 0, fifo_fd = (\<lambda>i. 3 + i), getpid = 42\<rparr>"
  have i: "sig_inv (idle_queue 8 200 5)" "sqm_holds (idle_queue 8 200 5) []"
    by (rule idle_queue_holds; simp)+
  have "\<not> (sig_idx (idle_queue 8 200 5) \<ge> 0 \<and> poll_fd (idle_queue 8 200 5) > 0)"
    by (simp add: idle_queue_def new_queue_def)
  from sq_get_eventfd_registers [OF i this, of ?env] show ?thesis by auto
qed

section \<open>The queue as a whole\<close>

text \<open>
  C7: the message queue is first-in first-out and loses nothing.  On a queue that
  \<open>sq_create\<close> has made, any sequence of puts and gets of messages of 1 to 65536 bytes runs without
  undefined behaviour; what the gets returned, followed by what is still queued, is exactly the
  accepted messages in the order of their puts, whole and unchanged; and a further get returns the
  oldest message that is left, or none when all were delivered.
\<close>

theorem sq_fifo:
  assumes "0 < ele_sz" "ele_sz < 2 ^ 31 - 8" "100 < ele_cnt" "ele_cnt < 2 ^ 30" "shmkey \<noteq> 0"
    and "segment sys = None" "shmget_create_ok sys" "shmat_ok sys"
    and "clock_ok env" "\<forall>d. MPut d \<in> set ops \<longrightarrow> 0 < length d \<and> length d \<le> 65536"
  shows "\<exists>sq sq' acc out ms' sq''. sq_create env sys True shmkey ele_sz ele_cnt sn sp = Some (Some sq)
    \<and> mq_run (sqm_put env) sqm_get sq ops = Some (sq', acc, out) \<and> out @ ms' = acc
    \<and> sqm_get sq' = Some (sq'', case ms' of [] \<Rightarrow> None | d # _ \<Rightarrow> Some d)"
proof -
  obtain sq where sq: "sq_create env sys True shmkey ele_sz ele_cnt sn sp = Some (Some sq)" "sqm_holds sq []"
    using sq_create_new [OF assms(1-8)] by blast
  have env: "quiet_env env = env" using assms(9) by (simp add: quiet_env_def)
  have "list_all (mq_ok sqm_ok) ops"
    unfolding list_all_iff
  proof
    fix p assume "p \<in> set ops"
    then have "p = MPut d \<Longrightarrow> sqm_ok d" for d using assms(10) by (auto simp: sqm_ok_def)
    then show "mq_ok sqm_ok p" by (rule_tac y = p in mq_op.exhaust) simp_all
  qed
  from sqm.run_in_order [OF sq(2) this, of env]
  obtain sq' ms' acc out where r: "mq_run (sqm_put env) sqm_get sq ops = Some (sq', acc, out)" "sqm_holds sq' ms'"
    "out @ ms' = [] @ acc"
    unfolding env by blast
  have "\<exists>sq''. sqm_get sq' = Some (sq'', case ms' of [] \<Rightarrow> None | d # _ \<Rightarrow> Some d)"
  proof (cases ms')
    case Nil
    then show ?thesis using sqm.get_nil [of sq'] r(2) by auto
  next
    case (Cons d ds)
    then show ?thesis using sqm.get_cons [of sq' d ds] r(2) by auto
  qed
  then show ?thesis using sq(1) r by auto
qed

theorem sq_fifo_witness:
  "\<exists>sq sq' acc out ms' sq''.
     sq_create \<lparr>pid_exists = (\<lambda>p. False), clock_sec = 0, clock_usec = 0, fifo_fd = (\<lambda>i. - 1), getpid = 1\<rparr>
       \<lparr>segment = None, shmget_create_ok = True, shmctl_stat_ok = True, shmctl_rm_ok = True, shmat_ok = True\<rparr>
       True 5 1 200 0 0 = Some (Some sq)
    \<and> mq_run (sqm_put \<lparr>pid_exists = (\<lambda>p. False), clock_sec = 0, clock_usec = 0, fifo_fd = (\<lambda>i. - 1), getpid = 1\<rparr>)
       sqm_get sq [MPut [1, 2], MPut [3], MGet] = Some (sq', acc, out) \<and> out @ ms' = acc
    \<and> sqm_get sq' = Some (sq'', case ms' of [] \<Rightarrow> None | d # _ \<Rightarrow> Some d)"
  by (rule sq_fifo) (auto simp: clock_ok_def)

text \<open>
  C11: acceptance and usage.  \<open>sq_put\<close> accepts a message of \<open>n\<close> nodes exactly when 100 nodes
  stay free behind it in count and \<open>n\<close> nodes are free in one piece, otherwise it returns -2
  and changes nothing.  After an accepted put the usage in percent is that of the used nodes
  before, the \<open>n\<close> nodes, and the nodes that are skipped when the message does not fit before the end;
  so when it wraps the reserve of 100 nodes may be used up, and the usage is then 100.
\<close>

theorem sq_put_usage:
  assumes "sqm_holds sq ms" "0 < length d" "length d \<le> 65536" "clock_ok env" "ele_count (head sq) \<le> 21474836"
    and "n = need (NS (head sq)) (length d)"
  shows "if sq_used (head sq) + n + 100 \<le> nat (ele_count (head sq))
           \<and> (nat (tail_pos (head sq)) + n < NN (head sq) \<or> n < nat (head_pos (head sq)))
         then \<exists>sq' sent. sq_put env sq (Some d) (int (length d)) = Some (sq', 0, sent) \<and> sqm_holds sq' (ms @ [d])
           \<and> sq_get_usage sq' = Some (100 * int (sq_used (head sq) + n
               + (if nat (tail_pos (head sq)) + n < NN (head sq) then 0 else NN (head sq) - nat (tail_pos (head sq))))
               div ele_count (head sq))
         else sq_put env sq (Some d) (int (length d)) = Some (sq, - 2, [])"
proof -
  let ?q = "head sq" and ?w = "if nat (tail_pos (head sq)) + n < NN (head sq) then 0 else NN (head sq) - nat (tail_pos (head sq))"
  obtain its where its: "sq_layout ?q its" "messages its = ms" "sig_inv sq" using assms(1) by (auto simp: sqm_holds_def)
  show ?thesis
  proof (cases "sq_room ?q n")
    case False
    then have "sq_put env sq (Some d) (int (length d)) = Some (sq, - 2, [])"
      using sq_put_full [OF its(1) assms(2,3), of env] assms(6) by simp
    then show ?thesis using False by (simp add: sq_room_def)
  next
    case True
    from True have "sq_room ?q (need (NS ?q) (length d))" using assms(6) by simp
    from sq_put_room [OF its(1) assms(2,3) this its(3) assms(4)]
    obtain sq' sent its' where p: "sq_put env sq (Some d) (int (length d)) = Some (sq', 0, sent)" "sig_inv sq'"
      "sq_layout (head sq') its'" "NN (head sq') = NN ?q" "ele_count (head sq') = ele_count ?q"
      "NS (head sq') = NS ?q"
      "its' = (if nat (tail_pos ?q) + need (NS ?q) (length d) < NN ?q then its @ [Msg d]
        else its @ replicate (NN ?q - nat (tail_pos ?q)) Skip @ [Msg d])"
      by blast
    have "sq_used (head sq') = sq_used ?q + n + ?w"
      using p(6,7) sq_layout_pos(3) [OF p(3)] sq_layout_pos(3) [OF its(1)] assms(6) by simp
    then have "sq_get_usage sq' = Some (100 * int (sq_used ?q + n + ?w) div ele_count ?q)"
      using sq_usage_eq [OF p(3)] p(5) assms(5) by simp
    moreover have "sqm_holds sq' (ms @ [d])" using p(2,3,7) its(2) unfolding sqm_holds_def by fastforce
    ultimately show ?thesis using p(1) True by (auto simp: sq_room_def)
  qed
qed

text \<open>In the witness a message of 100 nodes wraps and fills a queue of 200 nodes completely.\<close>

theorem sq_put_usage_witness:
  "\<exists>sq' sent. sq_put \<lparr>pid_exists = (\<lambda>p. False), clock_sec = 0, clock_usec = 0, fifo_fd = (\<lambda>i. - 1), getpid = 1\<rparr>
     (idle_queue 8 200 101) (Some (replicate 2384 7)) 2384 = Some (sq', 0, sent)
     \<and> sqm_holds sq' [replicate 2384 7] \<and> sq_get_usage sq' = Some 100"
proof -
  let ?env = "\<lparr>pid_exists = (\<lambda>p. False), clock_sec = 0, clock_usec = 0, fifo_fd = (\<lambda>i. - 1), getpid = 1\<rparr>"
  let ?q = "head (idle_queue 8 200 101)"
  have n: "100 = need (NS ?q) (length (replicate 2384 (7 :: 8 word)))"
    by (simp add: need_def NS_def idle_queue_def new_queue_def)
  have v: "sq_used ?q = 0" "NN ?q = 201" "nat (tail_pos ?q) = 101" "nat (head_pos ?q) = 101" "ele_count ?q = 200"
    by (simp_all add: sq_used_def NN_def idle_queue_def new_queue_def)
  have h: "sqm_holds (idle_queue 8 200 101) []" by (rule idle_queue_holds) simp_all
  have "0 < length (replicate 2384 (7 :: 8 word))" "length (replicate 2384 (7 :: 8 word)) \<le> 65536" "clock_ok ?env"
    by (simp_all add: clock_ok_def)
  from sq_put_usage [OF h this _ n] show ?thesis by (simp add: v)
qed

text \<open>
  C30: a buffer that is too small loses the message.  When the oldest message does not fit into
  the caller's buffer, \<open>sq_get\<close> returns -2, leaves the buffer as it was, and has already taken the
  message off the queue; when it fits it returns its length and the message.
\<close>

theorem sq_get_buffer:
  assumes "sqm_holds sq (d # ms)" "0 < length buf"
  shows "\<exists>sq' tm'. sq_get sq (Some buf) (int (length buf)) tm
      = Some (if length d \<le> length buf then (sq', int (length d), d @ drop (length d) buf, tm') else (sq', - 2, buf, tm'))
    \<and> sqm_holds sq' ms"
proof -
  obtain its where its: "sq_layout (head sq) its" "messages its = d # ms" "sig_inv sq" using assms(1) by (auto simp: sqm_holds_def)
  from sq_get_message [OF its(1,2) assms(2), of tm]
  obtain sq' its' tm' where r: "sq_get sq (Some buf) (int (length buf)) tm
      = Some (if length d \<le> length buf then (sq', int (length d), d @ drop (length d) buf, tm') else (sq', - 2, buf, tm'))"
    "sq_frame sq sq'" "sq_layout (head sq') its'" "messages its' = ms"
    by blast
  have "sqm_holds sq' ms" using r(2-4) its(3) sig_inv_frame [OF r(2)] unfolding sqm_holds_def by blast
  then show ?thesis using r(1) by blast
qed

theorem sq_get_buffer_witness:
  "\<exists>sq. sqm_holds sq [[1, 2, 3]] \<and> (\<exists>sq' tm'. sq_get sq (Some [9, 9]) 2 (0, 0) = Some (sq', - 2, [9, 9], tm') \<and> sqm_holds sq' [])"
proof -
  let ?env = "\<lparr>pid_exists = (\<lambda>p. False), clock_sec = 0, clock_usec = 0, fifo_fd = (\<lambda>i. - 1), getpid = 1\<rparr>"
  let ?s = "idle_queue 8 200 5"
  have h: "sqm_holds ?s []" by (rule idle_queue_holds) simp_all
  have "sqm_fits ?s [1, 2, 3]"
    by (simp add: sqm_fits_def sq_room_def sq_used_def need_def NN_def NS_def idle_queue_def new_queue_def)
  then obtain s1 where s1: "sqm_holds s1 [[1, 2, 3]]"
    using sqm.put_law [OF h, of "[1, 2, 3]"] by (auto simp: sqm_ok_def)
  then show ?thesis using sq_get_buffer [OF s1, of "[9, 9]" "(0, 0)"] by auto
qed

text \<open>
  An idle queue accepts.  When no node is in use, a message of \<open>n\<close> nodes with
  \<open>n + 100 \<le> ele_count\<close> and \<open>2 * n \<le> ele_count\<close> is accepted wherever head and tail stand; the witness
  refuses one of more than half of the nodes, although the queue is empty.
\<close>

theorem sq_idle_accepts:
  assumes "sqm_holds sq ms" "head_pos (head sq) = tail_pos (head sq)" "0 < length d" "length d \<le> 65536" "clock_ok env"
    and "need (NS (head sq)) (length d) + 100 \<le> nat (ele_count (head sq))"
    and "2 * need (NS (head sq)) (length d) \<le> nat (ele_count (head sq))"
  shows "ms = [] \<and> (\<exists>sq' sent. sq_put env sq (Some d) (int (length d)) = Some (sq', 0, sent) \<and> sqm_holds sq' [d])"
proof -
  obtain its where its: "sq_layout (head sq) its" "messages its = ms" "sig_inv sq" using assms(1) by (auto simp: sqm_holds_def)
  have g: "sq_geometry (head sq)" using its(1) by (simp add: sq_layout_def)
  have u: "sq_used (head sq) = 0" using assms(2) by (simp add: sq_used_def)
  then have c0: "cells (NS (head sq)) its = 0" using sq_layout_pos(3) [OF its(1)] by simp
  have i0: "its = []"
  proof (rule ccontr)
    assume "its \<noteq> []"
    then obtain x xs where x: "its = x # xs" by (cases its) auto
    have "need (NS (head sq)) k \<noteq> 0" for k using need_bounds(2) [OF sq_geometryD(3) [OF g], of k] by simp
    then show False using c0 x by (cases x) (simp_all only: cells.simps add_is_0 nat.distinct simp_thms)
  qed
  then have ms: "ms = []" using its(2) by simp
  have "sqm_fits sq d"
    using assms(2,6,7) u sq_geometryD(4) [OF g] by (auto simp: sqm_fits_def sq_room_def)
  moreover have "quiet_env env = env" using assms(5) by (simp add: quiet_env_def)
  ultimately obtain sq' where "sqm_put env sq d = Some (sq', True)" "sqm_holds sq' (ms @ [d])"
    using sqm.put_law [OF assms(1), of d env] assms(3,4) by (auto simp: sqm_ok_def)
  then show ?thesis using ms by (auto simp: sqm_put_def)
qed

theorem sq_idle_accepts_witness:
  "(\<exists>sq' sent. sq_put \<lparr>pid_exists = (\<lambda>p. False), clock_sec = 0, clock_usec = 0, fifo_fd = (\<lambda>i. - 1), getpid = 1\<rparr>
     (idle_queue 8 200 150) (Some (replicate 2384 7)) 2384 = Some (sq', 0, sent) \<and> sqm_holds sq' [replicate 2384 7])
   \<and> sq_put \<lparr>pid_exists = (\<lambda>p. False), clock_sec = 0, clock_usec = 0, fifo_fd = (\<lambda>i. - 1), getpid = 1\<rparr>
     (idle_queue 8 300 150) (Some (replicate 3608 7)) 3608 = Some (idle_queue 8 300 150, - 2, [])"
proof -
  let ?env = "\<lparr>pid_exists = (\<lambda>p. False), clock_sec = 0, clock_usec = 0, fifo_fd = (\<lambda>i. - 1), getpid = 1\<rparr>"
  let ?a = "idle_queue 8 200 150" and ?b = "idle_queue 8 300 150"
  have a: "sqm_holds ?a []" by (rule idle_queue_holds) simp_all
  have r: "head_pos (head ?a) = tail_pos (head ?a)" "0 < length (replicate 2384 (7 :: 8 word))"
    "length (replicate 2384 (7 :: 8 word)) \<le> 65536" "clock_ok ?env"
    "need (NS (head ?a)) (length (replicate 2384 (7 :: 8 word))) + 100 \<le> nat (ele_count (head ?a))"
    "2 * need (NS (head ?a)) (length (replicate 2384 (7 :: 8 word))) \<le> nat (ele_count (head ?a))"
    by (simp_all add: clock_ok_def need_def NS_def idle_queue_def new_queue_def)
  have b: "sq_layout (head ?b) []" by (rule idle_queue_layout) simp_all
  have "\<not> sq_room (head ?b) (need (NS (head ?b)) (length (replicate 3608 (7 :: 8 word))))"
    by (simp add: sq_room_def sq_used_def NN_def need_def NS_def idle_queue_def new_queue_def)
  then have "sq_put ?env ?b (Some (replicate 3608 7)) 3608 = Some (?b, - 2, [])"
    using sq_put_full [OF b, of "replicate 3608 7" ?env] by simp
  then show ?thesis using sq_idle_accepts [OF a r] by simp
qed

end
