(* ===== verification/Sq_Steps.thy ===== *)
theory Sq_Steps
  imports Sq_Fifo
begin

text \<open>
  \<open>sq_put\<close> and \<open>sq_get\<close> of shmqueue/shm_queue.c cut into the steps between which other processes
  run: reserving nodes with the compare-and-swap of the tail, marking the skipped nodes one by
  one, filling the node, setting its token; one turn of the reading loop, copying the message out,
  clearing the tokens one by one.  The steps put together again are the functions of
  \<open>Shm_Queue\<close>; a system of one reader and any number of writers interleaves them.
\<close>

section \<open>Steps of a writer\<close>

datatype put_step = PFull | PAgain | PReserved sq_head_t int int

text \<open>One turn of the loop of \<open>sq_put\<close>, up to the compare-and-swap.\<close>

definition put_reserve :: "sq_head_t \<Rightarrow> int \<Rightarrow> put_step option" where
  "put_reserve q datalen =
     do { let old_tail = tail_pos q;
          nr \<leftarrow> SQ_NUM_NEEDED_NODES q datalen;
          empty \<leftarrow> SQ_EMPTY_NODES q;
          want \<leftarrow> i32 (nr + RESERVE_BLOCK_COUNT);
          if empty < want then Some PFull
          else do {
            new_tail \<leftarrow> SQ_ADD_TAIL q nr;
            let wrapped = new_tail < old_tail;
            let idx = (if wrapped then 0 else old_tail);
            let new_tail = (if wrapped then nr else new_tail);
            if wrapped \<and> head_pos q - 1 < nr then Some PFull
            else do {
              let (t, ok) = CAS32 (tail_pos q) old_tail new_tail;
              Some (if \<not> ok then PAgain else PReserved (q\<lparr>tail_pos := t\<rparr>) old_tail idx) } } }"

definition mark_one :: "sq_head_t \<Rightarrow> int \<Rightarrow> (sq_head_t \<times> int) option" where
  "mark_one q old_tail =
     do { p \<leftarrow> SQ_GET q old_tail;
          m \<leftarrow> wr32 (nodes q) p TOKEN_SKIPPED;
          t \<leftarrow> SQ_ADD_POS q old_tail 1;
          Some (q\<lparr>nodes := m\<rparr>, t) }"

lemma mark_skipped_steps:
  "mark_skipped q t = do { (q1, t1) \<leftarrow> mark_one q t; if t1 \<noteq> 0 then mark_skipped q1 t1 else Some q1 }"
  by (subst mark_skipped.simps) (simp add: mark_one_def split: bind_splits)

lemma put_loop_steps:
  "put_loop env q data datalen =
     do { r \<leftarrow> put_reserve q datalen;
          case r of
            PFull \<Rightarrow> Some (q, - 2)
          | PAgain \<Rightarrow> put_loop env q data datalen
          | PReserved q1 old_tail idx \<Rightarrow>
              do { q2 \<leftarrow> (if idx = 0 \<and> old_tail \<noteq> 0 then mark_skipped q1 old_tail else Some q1);
                   p \<leftarrow> SQ_GET q2 idx;
                   q3 \<leftarrow> write_node env q2 p data datalen;
                   Some (q3, 0) } }"
  by (subst put_loop.simps)
    (simp add: put_reserve_def Let_def CAS32_def split: bind_splits if_splits)

section \<open>Steps of the reader\<close>

datatype get_step = GReturn int | GEnd sq_head_t | GGo int int | GClaim sq_head_t int nat int

text \<open>
  One turn of the loop of \<open>sq_get\<close>: it returns without data and leaves the number of conflicts,
  goes on at another node, or takes a message (or only the skipped nodes) with the
  compare-and-swap of the head.
\<close>

definition get_iter :: "sq_head_t \<Rightarrow> int \<Rightarrow> int \<Rightarrow> int \<Rightarrow> get_step option" where
  "get_iter q conflict old_head hpos =
     (if tail_pos q = hpos
      then (if hpos \<noteq> old_head \<and> snd (CAS32 (head_pos q) old_head hpos)
            then Some (GEnd (q\<lparr>head_pos := fst (CAS32 (head_pos q) old_head hpos)\<rparr>))
            else Some (GReturn 0))
      else do {
        p \<leftarrow> SQ_GET q hpos;
        tok \<leftarrow> rd32 (nodes q) p;
        if tok \<noteq> TOKEN_HAS_DATA \<and> tok = TOKEN_NO_DATA \<and> conflict < SQ_MAX_CONFLICT_TRIES
        then Some (if old_head \<noteq> head_pos q then GGo (head_pos q) (head_pos q) else GReturn (conflict + 1))
        else if tok \<noteq> TOKEN_HAS_DATA
        then do { h \<leftarrow> SQ_ADD_POS q hpos 1; Some (GGo old_head h) }
        else do {
          len \<leftarrow> rd32 (nodes q) (p + 4);
          let datalen = sint len;
          nr \<leftarrow> SQ_NUM_NEEDED_NODES q datalen;
          used \<leftarrow> SQ_USED_NODES2 q hpos;
          if used < nr then do { h \<leftarrow> SQ_ADD_POS q hpos 1; Some (GGo old_head h) }
          else do {
            new_head \<leftarrow> SQ_ADD_POS q hpos nr;
            let (h, ok) = CAS32 (head_pos q) old_head new_head;
            Some (if ok then GClaim (q\<lparr>head_pos := h\<rparr>) new_head p datalen
                  else GGo (head_pos q) (head_pos q)) } } })"

text \<open>Copying a claimed message out; \<open>- 2\<close> when the buffer is too small.\<close>

definition get_copy :: "sq_head_t \<Rightarrow> nat \<Rightarrow> int \<Rightarrow> 8 word list \<Rightarrow> int \<Rightarrow> (int \<times> 8 word list \<times> (32 word \<times> 32 word)) option" where
  "get_copy q p datalen buf buf_sz =
     do { sec \<leftarrow> rd32 (nodes q) (p + 8);
          usec \<leftarrow> rd32 (nodes q) (p + 12);
          if datalen > buf_sz then Some (- 2, buf, (sec, usec))
          else if datalen < 0 then None
          else do { d \<leftarrow> rd_bytes (nodes q) (p + 16) (nat datalen);
                    b \<leftarrow> wr_bytes buf 0 d;
                    Some (datalen, b, (sec, usec)) } }"

definition clear_one :: "sq_head_t \<Rightarrow> int \<Rightarrow> (sq_head_t \<times> int) option" where
  "clear_one q old_head =
     do { p \<leftarrow> SQ_GET q old_head;
          m \<leftarrow> wr32 (nodes q) p 0;
          h \<leftarrow> SQ_ADD_POS q old_head 1;
          Some (q\<lparr>nodes := m\<rparr>, h) }"

lemma clear_tokens_steps:
  "clear_tokens q old_head new_head =
     (if old_head = new_head then Some q
      else do { (q1, h) \<leftarrow> clear_one q old_head; clear_tokens q1 h new_head })"
  by (subst clear_tokens.simps) (simp add: clear_one_def split: bind_splits)

lemma get_loop_steps:
  "get_loop sq buf buf_sz tm old_head hpos =
     do { r \<leftarrow> get_iter (head sq) (rw_conflict sq) old_head hpos;
          case r of
            GReturn c \<Rightarrow> Some (Ret (sq\<lparr>rw_conflict := c\<rparr>) 0 buf tm)
          | GEnd q \<Rightarrow> Some (Done (sq\<lparr>head := q\<rparr>) old_head hpos 0 buf tm)
          | GGo old h \<Rightarrow> get_loop sq buf buf_sz tm old h
          | GClaim q new_head p datalen \<Rightarrow>
              do { (n, b, tm) \<leftarrow> get_copy q p datalen buf buf_sz;
                   Some (if datalen > buf_sz then Ret (sq\<lparr>head := q\<rparr>) n b tm
                         else Done (sq\<lparr>head := q\<rparr>) old_head new_head n b tm) } }"
proof -
  let ?q = "head sq"
  consider (stop) "tail_pos ?q = hpos" | (oob) "tail_pos ?q \<noteq> hpos" "SQ_GET ?q hpos = None"
    | (bad) p where "tail_pos ?q \<noteq> hpos" "SQ_GET ?q hpos = Some p" "rd32 (nodes ?q) p = None"
    | (tok) p tok where "tail_pos ?q \<noteq> hpos" "SQ_GET ?q hpos = Some p" "rd32 (nodes ?q) p = Some tok"
        "tok \<noteq> TOKEN_HAS_DATA"
    | (data) p where "tail_pos ?q \<noteq> hpos" "SQ_GET ?q hpos = Some p" "rd32 (nodes ?q) p = Some TOKEN_HAS_DATA"
    by (metis option.exhaust)
  then show ?thesis
  proof cases
    case stop
    then show ?thesis by (subst get_loop.simps) (simp add: get_iter_def Let_def CAS32_def)
  next
    case oob
    then show ?thesis by (subst get_loop.simps) (simp add: get_iter_def Let_def)
  next
    case bad
    then show ?thesis by (subst get_loop.simps) (simp add: get_iter_def Let_def)
  next
    case tok
    then show ?thesis
      by (subst get_loop.simps) (cases "SQ_ADD_POS ?q hpos 1"; simp add: get_iter_def Let_def)
  next
    case data
    consider "rd32 (nodes ?q) (p + 4) = None"
      | len where "rd32 (nodes ?q) (p + 4) = Some len" "SQ_NUM_NEEDED_NODES ?q (sint len) = None"
      | len nr where "rd32 (nodes ?q) (p + 4) = Some len" "SQ_NUM_NEEDED_NODES ?q (sint len) = Some nr"
          "SQ_USED_NODES2 ?q hpos = None"
      | len nr used where "rd32 (nodes ?q) (p + 4) = Some len" "SQ_NUM_NEEDED_NODES ?q (sint len) = Some nr"
          "SQ_USED_NODES2 ?q hpos = Some used" "used < nr"
      | (big) len nr used where "rd32 (nodes ?q) (p + 4) = Some len" "SQ_NUM_NEEDED_NODES ?q (sint len) = Some nr"
          "SQ_USED_NODES2 ?q hpos = Some used" "\<not> used < nr"
      by (metis option.exhaust)
    then show ?thesis
    proof cases
      case big
      show ?thesis
      proof (cases "SQ_ADD_POS ?q hpos nr")
        case None
        then show ?thesis using data big by (subst get_loop.simps) (simp add: get_iter_def Let_def)
      next
        case (Some nh)
        show ?thesis
        proof (cases "head_pos ?q = old_head")
          case True
          then show ?thesis using data big Some
            by (subst get_loop.simps) (simp add: get_iter_def get_copy_def Let_def CAS32_def split: bind_splits)
        next
          case False
          then show ?thesis using data big Some
            by (subst get_loop.simps) (simp add: get_iter_def Let_def CAS32_def)
        qed
      qed
    qed (use data in \<open>subst get_loop.simps; cases "SQ_ADD_POS ?q hpos 1"; simp add: get_iter_def Let_def\<close>)+
  qed
qed

end
