(* ===== verification/Sq_Concurrent.thy ===== *)
theory Sq_Concurrent
  imports Sq_Steps Sq_Create
begin

text \<open>
  One reader and any number of writers on one message queue, their steps interleaved: the
  invariant of the nodes between them and what the reader gets.
\<close>

section \<open>The system\<close>

text \<open>
  A writer is idle, has nodes left to mark as skipped, has its nodes to fill, or has its token to
  set.  The reader is idle, walks with its old head and position, has a message to copy, or has
  nodes to clear.
\<close>

datatype wphase = WIdle | WMark int "8 word list" | WFill int "8 word list" | WPub nat "8 word list"
datatype rphase = RIdle | RWalk int int | RCopy int int nat int | RClear int int

text \<open>\<open>tries\<close> is the reader's count of conflicts; \<open>given\<close> and \<open>got\<close> record the reserved and the read messages.\<close>

record mq_sys =
  mq_head :: sq_head_t
  writers :: "nat \<Rightarrow> wphase"
  reader :: rphase
  tries :: int
  given :: "8 word list list"
  got :: "8 word list list"

datatype mq_act = Reserve nat "8 word list" | Mark nat | Fill nat sq_env | Publish nat
  | Begin | Iter | Copy "8 word list" | Clear

fun mq_exec :: "mq_act \<Rightarrow> mq_sys \<Rightarrow> mq_sys option" where
  "mq_exec (Reserve w d) s =
     do { r \<leftarrow> put_reserve (mq_head s) (int (length d));
          Some (case r of
            PReserved q old_tail idx \<Rightarrow>
              s\<lparr>mq_head := q, given := given s @ [d],
                writers := (writers s)(w := if idx = 0 \<and> old_tail \<noteq> 0 then WMark old_tail d else WFill idx d)\<rparr>
          | _ \<Rightarrow> s) }"
| "mq_exec (Mark w) s =
     (case writers s w of
        WMark t d \<Rightarrow> do { (q, t1) \<leftarrow> mark_one (mq_head s) t;
                          Some (s\<lparr>mq_head := q, writers := (writers s)(w := if t1 \<noteq> 0 then WMark t1 d else WFill 0 d)\<rparr>) }
      | _ \<Rightarrow> None)"
| "mq_exec (Fill w env) s =
     (case writers s w of
        WFill idx d \<Rightarrow> do { p \<leftarrow> SQ_GET (mq_head s) idx;
                            q \<leftarrow> write_body env (mq_head s) p d (int (length d));
                            Some (s\<lparr>mq_head := q, writers := (writers s)(w := WPub p d)\<rparr>) }
      | _ \<Rightarrow> None)"
| "mq_exec (Publish w) s =
     (case writers s w of
        WPub p d \<Rightarrow> do { q \<leftarrow> publish_node (mq_head s) p;
                         Some (s\<lparr>mq_head := q, writers := (writers s)(w := WIdle)\<rparr>) }
      | _ \<Rightarrow> None)"
| "mq_exec Begin s = Some (s\<lparr>reader := RWalk (head_pos (mq_head s)) (head_pos (mq_head s))\<rparr>)"
| "mq_exec Iter s =
     (case reader s of
        RWalk old h \<Rightarrow> do { r \<leftarrow> get_iter (mq_head s) (tries s) old h;
                            Some (case r of
                              GReturn c \<Rightarrow> s\<lparr>reader := RIdle, tries := c\<rparr>
                            | GEnd q \<Rightarrow> s\<lparr>mq_head := q, reader := RClear old h\<rparr>
                            | GGo old h \<Rightarrow> s\<lparr>reader := RWalk old h\<rparr>
                            | GClaim q new_head p datalen \<Rightarrow> s\<lparr>mq_head := q, reader := RCopy old new_head p datalen\<rparr>) }
      | _ \<Rightarrow> None)"
| "mq_exec (Copy buf) s =
     (case reader s of
        RCopy old new_head p datalen \<Rightarrow>
          do { (n, b, tm) \<leftarrow> get_copy (mq_head s) p datalen buf (int (length buf));
               Some (if datalen > int (length buf) then s\<lparr>reader := RIdle\<rparr>
                     else s\<lparr>reader := RClear old new_head, got := got s @ [take (nat n) b]\<rparr>) }
      | _ \<Rightarrow> None)"
| "mq_exec Clear s =
     (case reader s of
        RClear old new_head \<Rightarrow>
          (if old = new_head then Some (s\<lparr>reader := RIdle, tries := 0\<rparr>)
           else do { (q, h) \<leftarrow> clear_one (mq_head s) old; Some (s\<lparr>mq_head := q, reader := RClear h new_head\<rparr>) })
      | _ \<Rightarrow> None)"

text \<open>Which step a process can take next.\<close>

fun mq_enabled :: "mq_act \<Rightarrow> mq_sys \<Rightarrow> bool" where
  "mq_enabled (Reserve w d) s \<longleftrightarrow> writers s w = WIdle \<and> 0 < length d \<and> length d \<le> 65536"
| "mq_enabled (Mark w) s \<longleftrightarrow> (case writers s w of WMark _ _ \<Rightarrow> True | _ \<Rightarrow> False)"
| "mq_enabled (Fill w env) s \<longleftrightarrow> (case writers s w of WFill _ _ \<Rightarrow> True | _ \<Rightarrow> False)"
| "mq_enabled (Publish w) s \<longleftrightarrow> (case writers s w of WPub _ _ \<Rightarrow> True | _ \<Rightarrow> False)"
| "mq_enabled Begin s \<longleftrightarrow> reader s = RIdle"
| "mq_enabled Iter s \<longleftrightarrow> (case reader s of RWalk _ _ \<Rightarrow> True | _ \<Rightarrow> False)"
| "mq_enabled (Copy buf) s \<longleftrightarrow> (case reader s of RCopy _ _ _ _ \<Rightarrow> True | _ \<Rightarrow> False)"
| "mq_enabled Clear s \<longleftrightarrow> (case reader s of RClear _ _ \<Rightarrow> True | _ \<Rightarrow> False)"

text \<open>
  The circumstances in which the reserve of 100 nodes and the ten tries suffice: while the reader
  has taken nodes that it has not cleared, these are at most 100 and no message is reserved across
  the end of the array; the reader does not meet a node that is being written for an eleventh time;
  its buffer is long enough.
\<close>

definition taken :: "mq_sys \<Rightarrow> int" where
  "taken s = (case reader s of
      RCopy old new_head _ _ \<Rightarrow> (new_head - old) mod int (NN (mq_head s))
    | RClear old new_head \<Rightarrow> (new_head - old) mod int (NN (mq_head s))
    | _ \<Rightarrow> 0)"

fun mq_calm :: "mq_act \<Rightarrow> mq_sys \<Rightarrow> bool" where
  "mq_calm (Reserve w d) s \<longleftrightarrow> taken s = 0 \<or> taken s \<le> 100 \<and>
     nat (tail_pos (mq_head s)) + need (NS (mq_head s)) (length d) < NN (mq_head s)"
| "mq_calm Iter s \<longleftrightarrow> (case reader s of
      RWalk old h \<Rightarrow> tries s < SQ_MAX_CONFLICT_TRIES \<or> h = tail_pos (mq_head s)
        \<or> rd32 (nodes (mq_head s)) (nat h * NS (mq_head s)) \<noteq> Some TOKEN_NO_DATA
    | _ \<Rightarrow> True)"
| "mq_calm (Copy buf) s \<longleftrightarrow> (case reader s of RCopy _ _ _ datalen \<Rightarrow> datalen \<le> int (length buf) | _ \<Rightarrow> True)"
| "mq_calm _ s \<longleftrightarrow> True"

inductive mq_reach :: "mq_sys \<Rightarrow> mq_sys \<Rightarrow> bool" for s0 where
  start: "mq_reach s0 s0"
| step: "mq_reach s0 s \<Longrightarrow> mq_enabled a s \<Longrightarrow> mq_calm a s \<Longrightarrow> mq_exec a s = Some s' \<Longrightarrow> mq_reach s0 s'"

section \<open>Slots\<close>

text \<open>Between head and tail: skipped nodes, nodes still to be marked, messages, reserved messages.\<close>

datatype slot = Skipped | Hole nat | Held "8 word list" | Pending nat "8 word list"

fun width :: "nat \<Rightarrow> slot \<Rightarrow> nat" where
  "width ns (Held d) = need ns (length d)"
| "width ns (Pending w d) = need ns (length d)"
| "width ns _ = 1"

fun owner :: "slot \<Rightarrow> nat option" where
  "owner (Hole w) = Some w"
| "owner (Pending w d) = Some w"
| "owner _ = None"

fun payload :: "slot \<Rightarrow> 8 word list list" where
  "payload (Held d) = [d]"
| "payload (Pending w d) = [d]"
| "payload _ = []"

definition span :: "nat \<Rightarrow> slot list \<Rightarrow> nat" where
  "span ns xs = sum_list (map (width ns) xs)"

definition fits_at :: "nat \<Rightarrow> nat \<Rightarrow> nat \<Rightarrow> 8 word list \<Rightarrow> bool" where
  "fits_at N ns p d \<longleftrightarrow> 0 < length d \<and> length d \<le> 65536 \<and> p + need ns (length d) < N"

text \<open>What holds of a slot at node \<open>p\<close>, for memory \<open>m\<close> and phases \<open>W\<close> of the writers.\<close>

fun slot_ok :: "8 word list \<Rightarrow> nat \<Rightarrow> nat \<Rightarrow> (nat \<Rightarrow> wphase) \<Rightarrow> nat \<Rightarrow> slot \<Rightarrow> bool" where
  "slot_ok m N ns W p Skipped \<longleftrightarrow> rd32 m (p * ns) = Some TOKEN_SKIPPED"
| "slot_ok m N ns W p (Hole w) \<longleftrightarrow> rd32 m (p * ns) = Some TOKEN_NO_DATA
     \<and> (case W w of WMark t d \<Rightarrow> t \<le> int p | _ \<Rightarrow> False)"
| "slot_ok m N ns W p (Held d) \<longleftrightarrow> fits_at N ns p d \<and> msg_at m ns p d"
| "slot_ok m N ns W p (Pending w d) \<longleftrightarrow> fits_at N ns p d \<and> rd32 m (p * ns) = Some TOKEN_NO_DATA
     \<and> (case W w of WMark t d' \<Rightarrow> d' = d \<and> p = 0 | WFill i d' \<Rightarrow> d' = d \<and> i = int p
         | WPub a d' \<Rightarrow> d' = d \<and> a = p * ns \<and> body_at m ns p d | WIdle \<Rightarrow> False)"

text \<open>A writer that is not idle has its slots.\<close>

definition writer_ok :: "nat \<Rightarrow> (nat \<Rightarrow> nat) \<Rightarrow> slot list \<Rightarrow> nat \<Rightarrow> wphase \<Rightarrow> bool" where
  "writer_ok N pos its w ph \<longleftrightarrow> (case ph of
      WIdle \<Rightarrow> True
    | WMark t d \<Rightarrow> 0 < t \<and> t < int N \<and> Pending w d \<in> set its
        \<and> (\<forall>k. nat t \<le> k \<and> k < N \<longrightarrow> (\<exists>i < length its. its ! i = Hole w \<and> pos i = k))
    | WFill i d \<Rightarrow> Pending w d \<in> set its
    | WPub a d \<Rightarrow> Pending w d \<in> set its)"

text \<open>
  The reader's phase against the first node \<open>b\<close> that is not cleared, the number \<open>c\<close> of taken nodes
  behind it, and the message it is going to deliver.
\<close>

fun reader_ok :: "8 word list \<Rightarrow> nat \<Rightarrow> nat \<Rightarrow> nat \<Rightarrow> nat \<Rightarrow> slot list \<Rightarrow> 8 word list list \<Rightarrow> rphase \<Rightarrow> bool" where
  "reader_ok m N ns b c its fl RIdle \<longleftrightarrow> c = 0 \<and> fl = []"
| "reader_ok m N ns b c its fl (RWalk old h) \<longleftrightarrow> c = 0 \<and> fl = [] \<and> old = int b
     \<and> (\<exists>j \<le> length its. (\<forall>i < j. its ! i = Skipped) \<and> h = int ((b + j) mod N))"
| "reader_ok m N ns b c its fl (RCopy old new_head p len) \<longleftrightarrow> old = int b \<and> new_head = int ((b + c) mod N)
     \<and> (\<exists>d k. fl = [d] \<and> len = int (length d) \<and> p = (b + k) mod N * ns \<and> fits_at N ns ((b + k) mod N) d
          \<and> k + need ns (length d) = c \<and> msg_at m ns ((b + k) mod N) d)"
| "reader_ok m N ns b c its fl (RClear old new_head) \<longleftrightarrow> fl = [] \<and> old = int b \<and> new_head = int ((b + c) mod N)"

definition spot :: "sq_head_t \<Rightarrow> nat \<Rightarrow> slot list \<Rightarrow> nat \<Rightarrow> nat" where
  "spot q h its i = (h + span (NS q) (take i its)) mod NN q"

lemma spot_upd [simp]:
  "spot (q\<lparr>tail_pos := t\<rparr>) = spot q" "spot (q\<lparr>head_pos := t\<rparr>) = spot q" "spot (q\<lparr>nodes := m\<rparr>) = spot q"
  by (simp_all add: spot_def fun_eq_iff)

definition mq_inv_at :: "mq_sys \<Rightarrow> nat \<Rightarrow> nat \<Rightarrow> slot list \<Rightarrow> 8 word list list \<Rightarrow> bool" where
  "mq_inv_at s b c its fl \<longleftrightarrow>
     (let q = mq_head s; N = NN q; ns = NS q; m = nodes q; pos = spot q (b + c) its in
      sq_geometry q \<and> b < N \<and> c + span ns its < N
      \<and> head_pos q = int ((b + c) mod N) \<and> tail_pos q = int ((b + c + span ns its) mod N)
      \<and> (\<forall>i < length its. slot_ok m N ns (writers s) (pos i) (its ! i))
      \<and> (\<forall>k. c + span ns its \<le> k \<and> k < N \<longrightarrow> rd32 m ((b + k) mod N * ns) = Some TOKEN_NO_DATA)
      \<and> reader_ok m N ns b c its fl (reader s)
      \<and> (\<forall>w. writer_ok N pos its w (writers s w))
      \<and> 0 \<le> tries s \<and> tries s \<le> SQ_MAX_CONFLICT_TRIES
      \<and> given s = got s @ fl @ concat (map payload its))"

definition mq_inv :: "mq_sys \<Rightarrow> bool" where
  "mq_inv s \<longleftrightarrow> (\<exists>b c its fl. mq_inv_at s b c its fl)"

section \<open>Disjoint nodes\<close>

text \<open>Runs of nodes at different distances from \<open>b\<close>, less than a turn apart, do not meet.\<close>

lemma apart:
  fixes b N :: nat
  assumes p: "p = (b + o1) mod N" "p + w \<le> N" and p': "p' = (b + o2) mod N" "p' + w' \<le> N"
    and d: "o1 + w \<le> o2 \<or> o2 + w' \<le> o1" "o1 + w \<le> N" "o2 + w' \<le> N" and w: "0 < w" "0 < w'"
  shows "p + w \<le> p' \<or> p' + w' \<le> p"
proof (rule ccontr)
  assume n: "\<not> ?thesis"
  define x where "x = max p p'"
  obtain k where k: "x = p + k" "k < w" using n w by (metis le_add_diff_inverse less_diff_conv2 linorder_not_le max.cobounded1 max_def nat_add_left_cancel_less x_def add_0_right)
  obtain k' where k': "x = p' + k'" "k' < w'" using n w by (metis le_add_diff_inverse linorder_not_le max.cobounded2 max_def nat_add_left_cancel_less x_def add_0_right)
  have "x = (b + (o1 + k)) mod N"
  proof -
    have "(b + (o1 + k)) mod N = (p + k) mod N" unfolding p(1) by (simp add: mod_add_left_eq add.assoc)
    also have "\<dots> = p + k" using p(2) k(2) by simp
    finally show ?thesis using k(1) by simp
  qed
  moreover have "x = (b + (o2 + k')) mod N"
  proof -
    have "(b + (o2 + k')) mod N = (p' + k') mod N" unfolding p'(1) by (simp add: mod_add_left_eq add.assoc)
    also have "\<dots> = p' + k'" using p'(2) k'(2) by simp
    finally show ?thesis using k'(1) by simp
  qed
  ultimately have "(b + (o1 + k)) mod N = (b + (o2 + k')) mod N" by simp
  then have "o1 + k = o2 + k'" by (rule turn_inj) (use d(2,3) k(2) k'(2) in auto)
  then show False using d(1) k(2) k'(2) by linarith
qed

lemma span_simps [simp]: "span ns [] = 0" "span ns (x # xs) = width ns x + span ns xs"
  "span ns (xs @ ys) = span ns xs + span ns ys" "span ns (replicate k (Hole w)) = k"
  by (simp_all add: span_def sum_list_replicate)

lemma width_pos: "16 < ns \<Longrightarrow> 0 < width ns x"
  using need_bounds(2) by (cases x) auto

lemma span_take_Suc: "i < length xs \<Longrightarrow> span ns (take (Suc i) xs) = span ns (take i xs) + width ns (xs ! i)"
  by (simp add: take_Suc_conv_app_nth)

lemma span_take_mono: "i \<le> j \<Longrightarrow> span ns (take i xs) \<le> span ns (take j xs)"
  by (simp add: span_def sum_list_mono2 mono_nat_linear_lb)
    (metis append_take_drop_id le_add1 map_append min.absorb1 sum_list.append take_take)

lemma span_take_le: "span ns (take i xs) \<le> span ns xs"
  by (metis append_take_drop_id le_add1 span_simps(3))

lemma span_before:
  assumes "i < j" "j < length xs"
  shows "span ns (take i xs) + width ns (xs ! i) \<le> span ns (take j xs)"
  using span_take_mono [of "Suc i" j ns xs] span_take_Suc [of i xs ns] assms by simp

lemma span_end:
  assumes "i < length xs"
  shows "span ns (take i xs) + width ns (xs ! i) \<le> span ns xs"
  using span_take_le [of ns "Suc i" xs] span_take_Suc [OF assms, of ns] by simp

lemma span_update:
  assumes "i < length xs" "width ns y = width ns (xs ! i)"
  shows "span ns (take j (xs[i := y])) = span ns (take j xs)" "span ns (xs[i := y]) = span ns xs"
proof -
  have m: "map (width ns) (xs[i := y]) = map (width ns) xs"
    using assms by (simp add: map_update list_update_same_conv)
  then show "span ns (xs[i := y]) = span ns xs" by (simp add: span_def)
  show "span ns (take j (xs[i := y])) = span ns (take j xs)" unfolding span_def by (metis m take_map)
qed

lemma rd32_same:
  assumes "same m m' (- {p0 * ns ..< (p0 + w0) * ns})" "p + 1 \<le> p0 \<or> p0 + w0 \<le> p" "16 < ns" "k + 4 \<le> 16"
  shows "rd32 m' (p * ns + k) = rd32 m (p * ns + k)"
proof (rule rd32_disjoint [OF assms(1)])
  from assms(2) show "p * ns + k + 4 \<le> p0 * ns \<or> (p0 + w0) * ns \<le> p * ns + k"
  proof
    assume "p + 1 \<le> p0"
    then have "(p + 1) * ns \<le> p0 * ns" by (rule mult_le_mono1)
    then show ?thesis using assms(3,4) by simp
  next
    assume "p0 + w0 \<le> p"
    then have "(p0 + w0) * ns \<le> p * ns" by (rule mult_le_mono1)
    then have "(p0 + w0) * ns \<le> p * ns + k" by (rule trans_le_add1)
    then show ?thesis by (rule disjI2)
  qed
qed

lemma bytes_apart:
  fixes p :: nat
  assumes "p + w \<le> p0 \<or> p0 + w0 \<le> p"
  shows "{p * ns ..< (p + w) * ns} \<subseteq> - {p0 * ns ..< (p0 + w0) * ns}"
  using assms
proof
  assume "p + w \<le> p0"
  then have "(p + w) * ns \<le> p0 * ns" by (rule mult_le_mono1)
  then have "x \<in> {p * ns ..< (p + w) * ns} \<Longrightarrow> x \<in> - {p0 * ns ..< (p0 + w0) * ns}" for x
    unfolding Compl_iff atLeastLessThan_iff by linarith
  then show ?thesis by (rule subsetI)
next
  assume "p0 + w0 \<le> p"
  then have "(p0 + w0) * ns \<le> p * ns" by (rule mult_le_mono1)
  then have "x \<in> {p * ns ..< (p + w) * ns} \<Longrightarrow> x \<in> - {p0 * ns ..< (p0 + w0) * ns}" for x
    unfolding Compl_iff atLeastLessThan_iff by linarith
  then show ?thesis by (rule subsetI)
qed

lemma slot_keep:
  assumes "slot_ok m N ns W p x" and same: "same m m' (- {a * ns ..< (a + n) * ns})"
    and ap: "p + width ns x \<le> a \<or> a + n \<le> p" and ns: "16 < ns"
    and W: "\<And>w. owner x = Some w \<Longrightarrow> W' w = W w"
  shows "slot_ok m' N ns W' p x"
proof -
  have tok: "rd32 m' (p * ns) = rd32 m (p * ns)"
    using rd32_same [OF same _ ns, of p 0] ap width_pos [OF ns, of x] by auto
  have msg: "msg_at m' ns p d = msg_at m ns p d" "body_at m' ns p d = body_at m ns p d"
    if "width ns x = need ns (length d)" for d
  proof -
    have "{p * ns ..< (p + need ns (length d)) * ns} \<subseteq> - {a * ns ..< (a + n) * ns}"
      using bytes_apart ap that by metis
    then show "body_at m' ns p d = body_at m ns p d"
      by (intro body_at_same [OF same _ ns]) (meson atLeastLessThan_subseteq_atLeastAtMost_iff ivl_subset le_add1 order_refl order_trans subset_trans)
    then show "msg_at m' ns p d = msg_at m ns p d" using tok by (simp add: msg_at_body)
  qed
  show ?thesis
  proof (cases x)
    case (Pending w d)
    then show ?thesis using assms(1) tok msg [of d] W [of w] by (cases "W w") auto
  qed (use assms(1) tok msg W in auto)
qed

section \<open>Steps of the writers\<close>

lemma mq_invD:
  assumes "mq_inv_at s b c its fl"
  shows "sq_geometry (mq_head s)" "b < NN (mq_head s)" "c + span (NS (mq_head s)) its < NN (mq_head s)"
    "head_pos (mq_head s) = int ((b + c) mod NN (mq_head s))"
    "tail_pos (mq_head s) = int ((b + c + span (NS (mq_head s)) its) mod NN (mq_head s))"
    "\<And>i. i < length its \<Longrightarrow> slot_ok (nodes (mq_head s)) (NN (mq_head s)) (NS (mq_head s)) (writers s) (spot (mq_head s) (b + c) its i) (its ! i)"
    "\<And>k. c + span (NS (mq_head s)) its \<le> k \<Longrightarrow> k < NN (mq_head s) \<Longrightarrow>
      rd32 (nodes (mq_head s)) ((b + k) mod NN (mq_head s) * NS (mq_head s)) = Some TOKEN_NO_DATA"
    "reader_ok (nodes (mq_head s)) (NN (mq_head s)) (NS (mq_head s)) b c its fl (reader s)"
    "\<And>w. writer_ok (NN (mq_head s)) (spot (mq_head s) (b + c) its) its w (writers s w)"
    "0 \<le> tries s" "tries s \<le> SQ_MAX_CONFLICT_TRIES"
    "given s = got s @ fl @ concat (map payload its)"
    "16 < NS (mq_head s)" "100 < ele_count (mq_head s)" "int (NN (mq_head s)) = ele_count (mq_head s) + 1"
  using assms sq_geometryD(1,3,4) [of "mq_head s"] by (simp_all add: mq_inv_at_def Let_def)

lemma slot_fits:
  assumes "slot_ok m N ns W p x" "p < N"
  shows "p + width ns x \<le> N"
  using assms by (cases x) (auto simp: fits_at_def)

lemma spot_lt: "sq_geometry q \<Longrightarrow> spot q h its i < NN q"
  using sq_geometryD(7) [of q] by (simp add: spot_def)

lemma spot_less: "mq_inv_at s b c its fl \<Longrightarrow> spot (mq_head s) (b + c) its i < NN (mq_head s)"
  using mq_invD(1) spot_lt by blast

lemma slots_apart:
  assumes inv: "mq_inv_at s b c its fl" and ij: "i < length its" "j < length its" "i \<noteq> j"
  shows "spot (mq_head s) (b + c) its i + width (NS (mq_head s)) (its ! i) \<le> spot (mq_head s) (b + c) its j
    \<or> spot (mq_head s) (b + c) its j + width (NS (mq_head s)) (its ! j) \<le> spot (mq_head s) (b + c) its i"
proof (rule apart)
  note D = mq_invD [OF inv]
  show "spot (mq_head s) (b + c) its i = (b + (c + span (NS (mq_head s)) (take i its))) mod NN (mq_head s)"
    "spot (mq_head s) (b + c) its j = (b + (c + span (NS (mq_head s)) (take j its))) mod NN (mq_head s)"
    by (simp_all add: spot_def add.assoc)
  show "spot (mq_head s) (b + c) its i + width (NS (mq_head s)) (its ! i) \<le> NN (mq_head s)"
    "spot (mq_head s) (b + c) its j + width (NS (mq_head s)) (its ! j) \<le> NN (mq_head s)"
    using slot_fits [OF D(6) spot_less [OF inv]] ij by auto
  show "c + span (NS (mq_head s)) (take i its) + width (NS (mq_head s)) (its ! i) \<le> NN (mq_head s)"
    "c + span (NS (mq_head s)) (take j its) + width (NS (mq_head s)) (its ! j) \<le> NN (mq_head s)"
    using span_end [of i its "NS (mq_head s)"] span_end [of j its "NS (mq_head s)"] ij D(3) by linarith+
  show "0 < width (NS (mq_head s)) (its ! i)" "0 < width (NS (mq_head s)) (its ! j)"
    using width_pos D(13) by blast+
  show "c + span (NS (mq_head s)) (take i its) + width (NS (mq_head s)) (its ! i) \<le> c + span (NS (mq_head s)) (take j its)
    \<or> c + span (NS (mq_head s)) (take j its) + width (NS (mq_head s)) (its ! j) \<le> c + span (NS (mq_head s)) (take i its)"
    using span_before [of i j its "NS (mq_head s)"] span_before [of j i its "NS (mq_head s)"] ij
    by (cases "i < j") auto
qed

text \<open>A slot does not meet \<open>w\<close> nodes at a distance from \<open>b\<close> outside the slots.\<close>

lemma slot_apart_outside:
  assumes inv: "mq_inv_at s b c its fl" and i: "i < length its"
    and k: "k + w \<le> c \<or> c + span (NS (mq_head s)) its \<le> k" "k + w \<le> NN (mq_head s)" "0 < w"
    and p: "p = (b + k) mod NN (mq_head s)" "p + w \<le> NN (mq_head s)"
  shows "spot (mq_head s) (b + c) its i + width (NS (mq_head s)) (its ! i) \<le> p
    \<or> p + w \<le> spot (mq_head s) (b + c) its i"
proof (rule apart [OF _ _ p])
  note D = mq_invD [OF inv]
  show "spot (mq_head s) (b + c) its i = (b + (c + span (NS (mq_head s)) (take i its))) mod NN (mq_head s)"
    by (simp add: spot_def add.assoc)
  show "spot (mq_head s) (b + c) its i + width (NS (mq_head s)) (its ! i) \<le> NN (mq_head s)"
    using slot_fits [OF D(6) spot_less [OF inv]] i by auto
  show "c + span (NS (mq_head s)) (take i its) + width (NS (mq_head s)) (its ! i) \<le> NN (mq_head s)"
    using span_end [of i its "NS (mq_head s)"] i D(3) by linarith
  show "0 < width (NS (mq_head s)) (its ! i)" using width_pos D(13) by blast
  show "c + span (NS (mq_head s)) (take i its) + width (NS (mq_head s)) (its ! i) \<le> k
    \<or> k + w \<le> c + span (NS (mq_head s)) (take i its)"
    using k(1) span_end [of i its "NS (mq_head s)"] i by linarith
qed (use k in auto)

lemma writer_step:
  assumes inv: "mq_inv_at s b c its fl" and i: "i < length its" "owner (its ! i) = Some w"
    and y: "width (NS (mq_head s)) y = width (NS (mq_head s)) (its ! i)" "payload y = payload (its ! i)"
    and q': "nodes_only (mq_head s) q' {p * NS (mq_head s) ..< (p + width (NS (mq_head s)) (its ! i)) * NS (mq_head s)}"
    and p: "p = spot (mq_head s) (b + c) its i"
    and ok: "slot_ok (nodes q') (NN (mq_head s)) (NS (mq_head s)) ((writers s)(w := ph)) p y"
    and mine: "\<And>j. j < length its \<Longrightarrow> j \<noteq> i \<Longrightarrow> owner (its ! j) = Some w \<Longrightarrow>
      slot_ok (nodes q') (NN (mq_head s)) (NS (mq_head s)) ((writers s)(w := ph)) (spot (mq_head s) (b + c) its j) (its ! j)"
    and phase: "writer_ok (NN (mq_head s)) (spot (mq_head s) (b + c) its) (its[i := y]) w ph"
  shows "mq_inv_at (s\<lparr>mq_head := q', writers := (writers s)(w := ph)\<rparr>) b c (its[i := y]) fl"
proof -
  note D = mq_invD [OF inv] and nq = nodes_onlyD [OF q']
  let ?q = "mq_head s"
  let ?N = "NN ?q" and ?S = "NS ?q" and ?pos = "spot ?q (b + c) its" and ?W = "(writers s)(w := ph)"
  have sp: "spot q' (b + c) (its[i := y]) = ?pos"
    using span_update(1) [OF i(1) y(1)] nq(1,2) by (auto simp: spot_def fun_eq_iff)
  have sy: "span ?S (its[i := y]) = span ?S its" by (rule span_update(2) [OF i(1) y(1)])
  have slots: "slot_ok (nodes q') ?N ?S ?W (?pos j) (its[i := y] ! j)" if j: "j < length its" for j
  proof (cases "j = i \<or> owner (its ! j) = Some w")
    case True
    then show ?thesis using ok mine j i(1) p by (cases "j = i") auto
  next
    case False
    have "slot_ok (nodes q') ?N ?S ?W (?pos j) (its ! j)"
    proof (rule slot_keep [OF D(6) [OF j] nq(7)])
      show "?pos j + width ?S (its ! j) \<le> p \<or> p + width ?S (its ! i) \<le> ?pos j"
        unfolding p using slots_apart [OF inv j i(1)] False by auto
    qed (use False D(13) in auto)
    then show ?thesis using False by (simp add: nth_list_update)
  qed
  have out: "rd32 (nodes q') (x * ?S) = rd32 (nodes ?q) (x * ?S)"
    if "k + 1 \<le> c \<or> c + span ?S its \<le> k" "k < ?N" "x = (b + k) mod ?N" for k x
  proof -
    have "x < ?N" using that(2,3) by simp
    then have "p + width ?S (its ! i) \<le> x \<or> x + 1 \<le> p"
      unfolding p using slot_apart_outside [OF inv i(1) that(1) _ _ that(3)] that(2) by linarith
    then show ?thesis using rd32_same [OF nq(7) _ D(13), of x 0] by auto
  qed
  have rd: "reader_ok (nodes q') ?N ?S b c (its[i := y]) fl (reader s)"
  proof (cases "reader s")
    case (RWalk old h)
    then obtain j where j: "j \<le> length its" "\<forall>k < j. its ! k = Skipped" "h = int ((b + j) mod ?N)" "c = 0" "fl = []" "old = int b"
      using D(8) by auto
    have "\<not> i < j" using j(2) i(2) by auto
    then show ?thesis using RWalk j by auto
  next
    case (RCopy old nh a len)
    then obtain d k where dk: "fl = [d]" "len = int (length d)" "a = (b + k) mod ?N * ?S" "fits_at ?N ?S ((b + k) mod ?N) d"
      "k + need ?S (length d) = c" "msg_at (nodes ?q) ?S ((b + k) mod ?N) d" "old = int b" "nh = int ((b + c) mod ?N)"
      using D(8) by auto
    let ?x = "(b + k) mod ?N"
    have "?pos i + width ?S (its ! i) \<le> ?x \<or> ?x + need ?S (length d) \<le> ?pos i"
      using dk(4,5) D(3) need_bounds(2) [OF D(13), of "length d"]
      by (intro slot_apart_outside [OF inv i(1)]) (auto simp: fits_at_def)
    then have ap: "?x + need ?S (length d) \<le> p \<or> p + width ?S (its ! i) \<le> ?x" unfolding p by blast
    have "msg_at (nodes q') ?S ?x d"
      by (rule msg_at_same [OF nq(7) bytes_apart [OF ap] D(13) dk(6)])
    then show ?thesis using RCopy dk by auto
  qed (use D(8) in auto)
  have others: "writer_ok ?N ?pos (its[i := y]) v (?W v)" for v
  proof (cases "v = w")
    case True
    then show ?thesis using phase by simp
  next
    case False
    have keep: "\<exists>j < length its. its[i := y] ! j = x \<and> ?pos j = r" if "\<exists>j < length its. its ! j = x \<and> ?pos j = r" "owner x = Some v" for x r
      using that i(2) False by (metis nth_list_update_neq option.inject)
    then have set: "x \<in> set its \<Longrightarrow> owner x = Some v \<Longrightarrow> x \<in> set (its[i := y])" for x
      by (metis in_set_conv_nth length_list_update)
    show ?thesis
    proof (cases "writers s v")
      case (WMark t d)
      then have t: "0 < t" "t < int ?N" "Pending v d \<in> set its"
        and h: "\<And>k. nat t \<le> k \<Longrightarrow> k < ?N \<Longrightarrow> \<exists>i < length its. its ! i = Hole v \<and> ?pos i = k"
        using D(9) [of v] by (auto simp: writer_ok_def)
      have "\<exists>j < length its. its[i := y] ! j = Hole v \<and> ?pos j = k" if "nat t \<le> k" "k < ?N" for k
        using keep [OF h [OF that]] by simp
      then show ?thesis using t set [OF t(3)] WMark False by (simp add: writer_ok_def)
    qed (use D(9) [of v] False set in \<open>auto simp: writer_ok_def\<close>)
  qed
  have pl: "map payload (its[i := y]) = map payload its"
    using y(2) by (simp add: map_update list_update_same_conv i(1))
  show ?thesis
    unfolding mq_inv_at_def Let_def
    using D nq sp sy slots out rd others pl by simp
qed

lemma mark_step:
  assumes inv: "mq_inv_at s b c its fl" and W: "writers s w = WMark t d"
  shows "\<exists>s' its'. mq_exec (Mark w) s = Some s' \<and> mq_inv_at s' b c its' fl"
proof -
  let ?q = "mq_head s" and ?pos = "spot (mq_head s) (b + c) its"
  note D = mq_invD [OF inv] and gd = sq_geometryD [OF mq_invD(1) [OF inv]]
  have wk: "0 < t" "t < int (NN ?q)" "Pending w d \<in> set its"
    "\<And>k. nat t \<le> k \<Longrightarrow> k < NN ?q \<Longrightarrow> \<exists>i < length its. its ! i = Hole w \<and> ?pos i = k"
    using D(9) [of w] W by (auto simp: writer_ok_def)
  define x where "x = nat t"
  have x: "t = int x" "0 < x" "x < NN ?q" using wk by (auto simp: x_def)
  obtain i where i: "i < length its" "its ! i = Hole w" "?pos i = x" using wk(4) [of x] x by auto
  obtain m where m: "wr32 (nodes ?q) (x * NS ?q) TOKEN_SKIPPED = Some m"
    "nodes_only ?q (?q\<lparr>nodes := m\<rparr>) {x * NS ?q ..< (x + 1) * NS ?q}" "rd32 m (x * NS ?q) = Some TOKEN_SKIPPED"
    using wr32_node [OF D(1) x(3)] by blast
  let ?q' = "?q\<lparr>nodes := m\<rparr>" and ?t = "int (Suc x mod NN ?q)"
  let ?ph = "if ?t \<noteq> 0 then WMark ?t d else WFill 0 d"
  have "mark_one ?q t = Some (?q', ?t)"
    using m(1) SQ_GET_eq [OF D(1), of x] SQ_ADD_POS_eq [OF D(1) x(3), of 1] gd(7) x(1) by (simp add: mark_one_def)
  then have run: "mq_exec (Mark w) s = Some (s\<lparr>mq_head := ?q', writers := (writers s)(w := ?ph)\<rparr>)"
    using W by simp
  have keep: "slot_ok m (NN ?q) (NS ?q) (writers s) (?pos j) (its ! j)" if "j < length its" "j \<noteq> i" for j
    using slots_apart [OF inv that(1) i(1) that(2)] i nodes_onlyD(7) [OF m(2)] D(13)
    by (intro slot_keep [OF D(6) [OF that(1)], where a = x and n = 1]) auto
  have away: "?pos j \<noteq> x" if "j < length its" "j \<noteq> i" for j
    using slots_apart [OF inv that(1) i(1) that(2)] i width_pos [OF D(13), of "its ! j"] by auto
  have "mq_inv_at (s\<lparr>mq_head := ?q', writers := (writers s)(w := ?ph)\<rparr>) b c (its[i := Skipped]) fl"
  proof (rule writer_step [OF inv i(1), where p = x])
    show "nodes_only ?q ?q' {x * NS ?q ..< (x + width (NS ?q) (its ! i)) * NS ?q}" using m(2) i(2) by simp
    fix j assume j: "j < length its" "j \<noteq> i" "owner (its ! j) = Some w"
    note kj = keep [OF j(1,2)] and lt = spot_less [OF inv, of j] and aw = away [OF j(1,2)]
    show "slot_ok (nodes ?q') (NN ?q) (NS ?q) ((writers s)(w := ?ph)) (?pos j) (its ! j)"
    proof (cases "its ! j")
      case (Hole v)
      then have "v = w" "t \<le> int (?pos j)" using j(3) kj W by auto
      moreover have "Suc x < NN ?q" using calculation aw lt x(1) by linarith
      ultimately show ?thesis using Hole kj aw x(1) by auto
    next
      case (Pending v d')
      then show ?thesis using j(3) kj W by auto
    qed (use j(3) in auto)
  next
    have pend: "Pending w d \<in> set (its[i := Skipped])"
      using wk(3) i(2) by (metis in_set_conv_nth length_list_update nth_list_update_neq slot.distinct(9))
    have "\<exists>j < length its. its[i := Skipped] ! j = Hole w \<and> ?pos j = k" if k: "Suc x \<le> k" "k < NN ?q" for k
    proof -
      obtain j where j: "j < length its" "its ! j = Hole w" "?pos j = k" using wk(4) [of k] k x(1) by auto
      then have "j \<noteq> i" using i(3) k(1) by auto
      then show ?thesis using j by auto
    qed
    then show "writer_ok (NN ?q) ?pos (its[i := Skipped]) w ?ph"
      using pend x(3) by (cases "Suc x = NN ?q") (simp_all add: writer_ok_def del: of_nat_Suc)
  qed (use i m(3) in auto)
  then show ?thesis using run by blast
qed

lemma pending_slot:
  assumes inv: "mq_inv_at s b c its fl" and W: "writers s w = WFill x d \<or> writers s w = WPub a d"
  shows "\<exists>i < length its. its ! i = Pending w d"
  using mq_invD(9) [OF inv, of w] W by (auto simp: writer_ok_def in_set_conv_nth)

lemma fill_step:
  assumes inv: "mq_inv_at s b c its fl" and W: "writers s w = WFill x d"
  shows "\<exists>s'. mq_exec (Fill w env) s = Some s' \<and> mq_inv_at s' b c its fl"
proof -
  let ?q = "mq_head s" and ?pos = "spot (mq_head s) (b + c) its"
  note D = mq_invD [OF inv] and gd = sq_geometryD [OF mq_invD(1) [OF inv]]
  obtain i where i: "i < length its" "its ! i = Pending w d" using pending_slot [OF inv] W by blast
  define p where "p = ?pos i"
  have p: "fits_at (NN ?q) (NS ?q) p d" "rd32 (nodes ?q) (p * NS ?q) = Some TOKEN_NO_DATA" "x = int p"
    using D(6) [OF i(1)] i(2) W by (auto simp: p_def)
  obtain q' where q': "write_body env ?q (p * NS ?q) d (int (length d)) = Some q'"
    "nodes_only ?q q' {p * NS ?q + 4 ..< (p + need (NS ?q) (length d)) * NS ?q}" "body_at (nodes q') (NS ?q) p d"
    using write_body_spec [OF D(1), of d p env] p(1) by (auto simp: fits_at_def)
  have no: "nodes_only ?q q' {p * NS ?q ..< (p + need (NS ?q) (length d)) * NS ?q}"
    using q'(2) by (rule nodes_only_mono) auto
  have tok: "rd32 (nodes q') (p * NS ?q) = Some TOKEN_NO_DATA"
    using rd32_disjoint [OF nodes_onlyD(7) [OF q'(2)], of "p * NS ?q"] p(2) by simp
  have "mq_exec (Fill w env) s = Some (s\<lparr>mq_head := q', writers := (writers s)(w := WPub (p * NS ?q) d)\<rparr>)"
    using W p(3) q'(1) SQ_GET_eq [OF D(1), of p] by simp
  moreover have "mq_inv_at (s\<lparr>mq_head := q', writers := (writers s)(w := WPub (p * NS ?q) d)\<rparr>) b c (its[i := Pending w d]) fl"
  proof (rule writer_step [OF inv i(1) _ _ _ _ p_def])
    fix j assume j: "j < length its" "j \<noteq> i" "owner (its ! j) = Some w"
    have "?pos j \<noteq> p" using slots_apart [OF inv j(1) i(1) j(2)] width_pos [OF D(13), of "its ! j"]
        width_pos [OF D(13), of "its ! i"] by (auto simp: p_def)
    then have False using D(6) [OF j(1)] j(3) W p(3) by (cases "its ! j") auto
    then show "slot_ok (nodes q') (NN ?q) (NS ?q) ((writers s)(w := WPub (p * NS ?q) d)) (?pos j) (its ! j)" ..
  qed (use i p no tok q'(3) in \<open>auto simp: writer_ok_def set_update_memI\<close>)
  ultimately show ?thesis using i by (metis list_update_id)
qed

lemma publish_step:
  assumes inv: "mq_inv_at s b c its fl" and W: "writers s w = WPub a d"
  shows "\<exists>s' its'. mq_exec (Publish w) s = Some s' \<and> mq_inv_at s' b c its' fl"
proof -
  let ?q = "mq_head s" and ?pos = "spot (mq_head s) (b + c) its"
  note D = mq_invD [OF inv] and gd = sq_geometryD [OF mq_invD(1) [OF inv]]
  obtain i where i: "i < length its" "its ! i = Pending w d" using pending_slot [OF inv] W by blast
  define p where "p = ?pos i"
  have p: "fits_at (NN ?q) (NS ?q) p d" "a = p * NS ?q" "body_at (nodes ?q) (NS ?q) p d"
    using D(6) [OF i(1)] i(2) W by (auto simp: p_def)
  have pN: "p < NN ?q" using p(1) by (simp add: fits_at_def)
  obtain q' where q': "publish_node ?q (p * NS ?q) = Some q'"
    "nodes_only ?q q' {p * NS ?q ..< (p + need (NS ?q) (length d)) * NS ?q}" "msg_at (nodes q') (NS ?q) p d"
    using publish_spec [OF D(1) _ pN p(3)] p(1) by (auto simp: fits_at_def)
  have "mq_exec (Publish w) s = Some (s\<lparr>mq_head := q', writers := (writers s)(w := WIdle)\<rparr>)"
    using W p(2) q'(1) by simp
  moreover have "mq_inv_at (s\<lparr>mq_head := q', writers := (writers s)(w := WIdle)\<rparr>) b c (its[i := Held d]) fl"
  proof (rule writer_step [OF inv i(1) _ _ _ _ p_def])
    fix j assume j: "j < length its" "j \<noteq> i" "owner (its ! j) = Some w"
    have "?pos j \<noteq> p" using slots_apart [OF inv j(1) i(1) j(2)] width_pos [OF D(13), of "its ! j"]
        width_pos [OF D(13), of "its ! i"] by (auto simp: p_def)
    then have False using D(6) [OF j(1)] j(3) W p(2) D(13) by (cases "its ! j") auto
    then show "slot_ok (nodes q') (NN ?q) (NS ?q) ((writers s)(w := WIdle)) (?pos j) (its ! j)" ..
  qed (use i p(1) q'(2,3) in \<open>auto simp: writer_ok_def\<close>)
  ultimately show ?thesis by blast
qed

text \<open>A reservation appends slots to the queue, on free nodes.\<close>

lemma spot_append: "i < length its \<Longrightarrow> spot q h (its @ ys) i = spot q h its i"
  by (simp add: spot_def)

lemma spot_new: "spot q h (its @ ys) (length its + i) = (h + (span (NS q) its + span (NS q) (take i ys))) mod NN q"
  by (simp add: spot_def)

lemma append_step:
  assumes inv: "mq_inv_at s b c its fl" and W: "writers s w = WIdle"
    and room: "c + span (NS (mq_head s)) (its @ ys) < NN (mq_head s)"
    and t: "t = int ((b + c + span (NS (mq_head s)) (its @ ys)) mod NN (mq_head s))"
    and new: "\<And>i. i < length ys \<Longrightarrow> slot_ok (nodes (mq_head s)) (NN (mq_head s)) (NS (mq_head s)) ((writers s)(w := ph))
      ((b + (c + span (NS (mq_head s)) its + span (NS (mq_head s)) (take i ys))) mod NN (mq_head s)) (ys ! i)"
    and phase: "writer_ok (NN (mq_head s)) (spot (mq_head s) (b + c) (its @ ys)) (its @ ys) w ph"
    and pl: "concat (map payload ys) = [d]"
  shows "mq_inv_at (s\<lparr>mq_head := (mq_head s)\<lparr>tail_pos := t\<rparr>, given := given s @ [d],
    writers := (writers s)(w := ph)\<rparr>) b c (its @ ys) fl"
proof -
  note D = mq_invD [OF inv]
  let ?q = "mq_head s"
  let ?N = "NN ?q" and ?S = "NS ?q" and ?W = "(writers s)(w := ph)"
  have slots: "slot_ok (nodes ?q) ?N ?S ?W (spot ?q (b + c) (its @ ys) i) ((its @ ys) ! i)"
    if "i < length (its @ ys)" for i
  proof (cases "i < length its")
    case True
    have "slot_ok (nodes ?q) ?N ?S ?W (spot ?q (b + c) its i) (its ! i)"
    proof (rule slot_keep [OF D(6) [OF True], where a = 0 and n = 0])
      fix v assume "owner (its ! i) = Some v"
      then have "v \<noteq> w" using D(6) [OF True] W by (cases "its ! i") auto
      then show "?W v = writers s v" by simp
    qed (use D(13) in auto)
    then show ?thesis using True by (simp add: spot_append nth_append)
  next
    case False
    then obtain k where k: "i = length its + k" by (metis le_add_diff_inverse linorder_not_less)
    then have "k < length ys" using that by simp
    then show ?thesis unfolding k spot_new using new [of k] by (simp add: add.assoc)
  qed
  have g: "sq_geometry (?q\<lparr>tail_pos := t\<rparr>)"
  proof -
    have "(b + c + span ?S (its @ ys)) mod ?N < ?N" using sq_geometryD(7) [OF D(1)] by simp
    then have "0 \<le> t" "t \<le> ele_count ?q" using t D(15) by linarith+
    then show ?thesis using D(1) by (simp add: sq_geometry_def)
  qed
  have rd: "reader_ok (nodes ?q) ?N ?S b c (its @ ys) fl (reader s)"
  proof (cases "reader s")
    case (RWalk old h)
    then obtain j where "j \<le> length its" "\<forall>i < j. its ! i = Skipped" "h = int ((b + j) mod ?N)" "c = 0" "fl = []" "old = int b"
      using D(8) by auto
    then show ?thesis using RWalk by (auto simp: nth_append intro!: exI [of _ j])
  qed (use D(8) in auto)
  have others: "writer_ok ?N (spot ?q (b + c) (its @ ys)) (its @ ys) v (?W v)" for v
  proof (cases "v = w")
    case False
    show ?thesis
    proof (cases "writers s v")
      case (WMark t d)
      then have t: "0 < t" "t < int ?N" "Pending v d \<in> set its"
        and h: "\<And>k. nat t \<le> k \<Longrightarrow> k < ?N \<Longrightarrow> \<exists>i < length its. its ! i = Hole v \<and> spot ?q (b + c) its i = k"
        using D(9) [of v] by (auto simp: writer_ok_def)
      have "\<exists>j < length (its @ ys). (its @ ys) ! j = Hole v \<and> spot ?q (b + c) (its @ ys) j = k"
        if k: "nat t \<le> k" "k < ?N" for k
      proof -
        obtain j where "j < length its" "its ! j = Hole v" "spot ?q (b + c) its j = k" using h [OF k] by blast
        then show ?thesis by (intro exI [of _ j]) (simp add: spot_append nth_append)
      qed
      then show ?thesis using t WMark False by (simp add: writer_ok_def)
    qed (use D(9) [of v] False in \<open>auto simp: writer_ok_def\<close>)
  qed (use phase in simp)
  show ?thesis
    unfolding mq_inv_at_def Let_def
    using D(2-5,7,10-12) g slots rd others room t pl by simp
qed

lemma put_reserve_spec:
  assumes g: "sq_geometry q" and h: "head_pos q = int h" "h < NN q" and u: "u < NN q"
    and tp: "tail_pos q = int ((h + u) mod NN q)" and d: "0 < length d" "length d \<le> 65536"
  shows "put_reserve q (int (length d)) = Some PFull
    \<or> u + need (NS q) (length d) + 100 < NN q \<and>
      ((h + u) mod NN q + need (NS q) (length d) < NN q \<and> put_reserve q (int (length d)) =
          Some (PReserved (q\<lparr>tail_pos := int ((h + u) mod NN q + need (NS q) (length d))\<rparr>) (tail_pos q) (tail_pos q))
       \<or> NN q \<le> h + u + need (NS q) (length d) \<and> need (NS q) (length d) < h \<and> h + u < NN q \<and> put_reserve q (int (length d)) =
          Some (PReserved (q\<lparr>tail_pos := int (need (NS q) (length d))\<rparr>) (tail_pos q) 0))"
proof -
  let ?n = "need (NS q) (length d)" and ?N = "NN q" and ?t = "(h + u) mod NN q"
  note gd = sq_geometryD [OF g]
  have n: "SQ_NUM_NEEDED_NODES q (int (length d)) = Some (int ?n)" by (rule SQ_NEEDED_eq [OF g d])
  have e: "SQ_EMPTY_NODES q = Some (ele_count q - int u)"
    using SQ_EMPTY_eq(1) [OF g h(2) u] tp h(1) by (simp add: SQ_EMPTY_NODES_def)
  have w: "i32 (int ?n + RESERVE_BLOCK_COUNT) = Some (int ?n + 100)"
    using need_bounds(3) [OF gd(3), of "length d"] d by (simp add: RESERVE_BLOCK_COUNT_def)
  have tN: "?t < ?N" using gd(7) by simp
  show ?thesis
  proof (cases "ele_count q - int u < int ?n + 100")
    case True
    then show ?thesis using n e w by (simp add: put_reserve_def Let_def)
  next
    case False
    then have nN: "u + ?n + 100 < ?N" using gd(4) by linarith
    have a: "SQ_ADD_TAIL q (int ?n) = Some (int ((?t + ?n) mod ?N))"
      using SQ_ADD_POS_eq [OF g tN, of ?n] nN tp by (simp add: SQ_ADD_TAIL_def del: mod_add_left_eq)
    show ?thesis
    proof (cases "?t + ?n < ?N")
      case True
      then have "(?t + ?n) mod ?N = ?t + ?n" by simp
      then show ?thesis using False n e w a True nN tp
        by (simp add: put_reserve_def Let_def CAS32_def del: mod_add_left_eq)
    next
      case wrap: False
      have "?t + ?n - ?N < ?N" using tN nN by linarith
      then have md: "(?t + ?n) mod ?N = ?t + ?n - ?N" using wrap by (simp add: le_mod_geq del: mod_add_left_eq)
      then have lt: "int ((?t + ?n) mod ?N) < tail_pos q" unfolding tp using wrap nN tN by linarith
      have hu: "h + u < ?N"
      proof (rule ccontr)
        assume "\<not> h + u < ?N"
        then have "?t = h + u - ?N" using u h(2) by (simp add: le_mod_geq)
        then show False using wrap nN h(2) by linarith
      qed
      then have "?t = h + u" by simp
      then show ?thesis using False n e w a lt wrap nN h(1) hu
        by (cases "?n < h") (simp_all add: put_reserve_def Let_def CAS32_def del: mod_add_left_eq)
    qed
  qed
qed

lemma taken_eq:
  assumes inv: "mq_inv_at s b c its fl"
  shows "taken s = int c"
proof -
  note D = mq_invD [OF inv]
  have "(int ((b + c) mod NN (mq_head s)) - int b) mod int (NN (mq_head s)) = int c"
    using D(3) by (simp add: zmod_int mod_diff_left_eq)
  then show ?thesis using D(8) by (cases "reader s") (auto simp: taken_def)
qed

lemma reserve_step:
  assumes inv: "mq_inv_at s b c its fl" and W: "writers s w = WIdle" and d: "0 < length d" "length d \<le> 65536"
    and calm: "mq_calm (Reserve w d) s"
  shows "\<exists>s' its'. mq_exec (Reserve w d) s = Some s' \<and> mq_inv_at s' b c its' fl"
proof -
  note D = mq_invD [OF inv]
  let ?q = "mq_head s"
  let ?N = "NN ?q" and ?S = "NS ?q" and ?u = "span (NS ?q) its" and ?h = "(b + c) mod NN ?q"
    and ?n = "need (NS ?q) (length d)"
  define t where "t = (?h + ?u) mod ?N"
  have N0: "0 < ?N" using sq_geometryD(7) [OF D(1)] by simp
  have t: "t = (b + c + ?u) mod ?N" by (simp add: t_def mod_add_left_eq)
  have tp: "tail_pos ?q = int t" unfolding t by (rule D(5))
  have cs: "c = 0 \<or> c \<le> 100 \<and> t + ?n < ?N" using calm taken_eq [OF inv] tp by simp
  have uN: "?u < ?N" using D(3) by simp
  have hN: "?h < ?N" using N0 by simp
  consider (full) "put_reserve ?q (int (length d)) = Some PFull"
    | (end_) "?u + ?n + 100 < ?N" "t + ?n < ?N"
        "put_reserve ?q (int (length d)) = Some (PReserved (?q\<lparr>tail_pos := int (t + ?n)\<rparr>) (tail_pos ?q) (tail_pos ?q))"
    | (wrap) "?u + ?n + 100 < ?N" "?N \<le> ?h + ?u + ?n" "?n < ?h" "?h + ?u < ?N"
        "put_reserve ?q (int (length d)) = Some (PReserved (?q\<lparr>tail_pos := int ?n\<rparr>) (tail_pos ?q) 0)"
    using put_reserve_spec [OF D(1) D(4) hN uN tp [unfolded t_def] d] unfolding t_def by blast
  then show ?thesis
  proof cases
    case full
    then show ?thesis using inv by auto
  next
    case end_
    let ?ph = "WFill (int t) d"
    have "mq_exec (Reserve w d) s = Some (s\<lparr>mq_head := ?q\<lparr>tail_pos := int (t + ?n)\<rparr>, given := given s @ [d],
        writers := (writers s)(w := ?ph)\<rparr>)"
      using end_(3) tp by (cases "t = 0") simp_all
    moreover have "mq_inv_at (s\<lparr>mq_head := ?q\<lparr>tail_pos := int (t + ?n)\<rparr>, given := given s @ [d],
        writers := (writers s)(w := ?ph)\<rparr>) b c (its @ [Pending w d]) fl"
    proof (rule append_step [OF inv W])
      show "c + span ?S (its @ [Pending w d]) < ?N" using cs end_(1) by auto
      have "t + ?n = (t + ?n) mod ?N" using end_(2) by simp
      also have "\<dots> = (b + c + span ?S (its @ [Pending w d])) mod ?N"
        unfolding t by (simp add: mod_add_left_eq add.assoc)
      finally show "int (t + ?n) = int ((b + c + span ?S (its @ [Pending w d])) mod ?N)" by simp
      have "rd32 (nodes ?q) ((b + (c + ?u)) mod ?N * ?S) = Some TOKEN_NO_DATA" by (rule D(7)) (use D(3) in auto)
      then have "slot_ok (nodes ?q) ?N ?S ((writers s)(w := ?ph)) t (Pending w d)"
        using d end_(2) unfolding t by (simp add: fits_at_def add.assoc)
      then show "slot_ok (nodes ?q) ?N ?S ((writers s)(w := ?ph))
          ((b + (c + ?u + span ?S (take i [Pending w d]))) mod ?N) ([Pending w d] ! i)" if "i < length [Pending w d]" for i
        using that unfolding t by (simp add: add.assoc)
    qed (auto simp: writer_ok_def)
    ultimately show ?thesis by blast
  next
    case wrap
    have c0: "c = 0" using cs wrap(2,4) by (auto simp: t_def)
    have hb: "?h = b" using c0 D(2) by simp
    let ?k = "?N - (b + ?u)" and ?ph = "WMark (int t) d"
    let ?ys = "replicate ?k (Hole w) @ [Pending w d]"
    have w4: "b + ?u < ?N" "t = b + ?u" using wrap(4) hb by (simp_all add: t_def)
    have "mq_exec (Reserve w d) s = Some (s\<lparr>mq_head := ?q\<lparr>tail_pos := int ?n\<rparr>, given := given s @ [d],
        writers := (writers s)(w := ?ph)\<rparr>)"
      using wrap tp hb w4 by simp
    moreover have "mq_inv_at (s\<lparr>mq_head := ?q\<lparr>tail_pos := int ?n\<rparr>, given := given s @ [d],
        writers := (writers s)(w := ?ph)\<rparr>) b c (its @ ?ys) fl"
    proof (rule append_step [OF inv W])
      show "c + span ?S (its @ ?ys) < ?N" using c0 wrap(3) hb w4 by simp
      have e: "b + c + span ?S (its @ ?ys) = ?n + ?N" using c0 w4 by simp
      show "int ?n = int ((b + c + span ?S (its @ ?ys)) mod ?N)" unfolding e using wrap(1) by simp
      fix i assume i: "i < length ?ys"
      let ?p = "(b + (c + ?u + span ?S (take i ?ys))) mod ?N"
      show "slot_ok (nodes ?q) ?N ?S ((writers s)(w := ?ph)) ?p (?ys ! i)"
      proof (cases "i < ?k")
        case True
        then have sp: "span ?S (take i ?ys) = i" by (simp add: min_def)
        have "b + (?u + i) < ?N" using True w4 by linarith
        then have p: "?p = b + ?u + i" unfolding sp using c0 by (simp add: add.assoc)
        have "rd32 (nodes ?q) ((b + (?u + i)) mod ?N * ?S) = Some TOKEN_NO_DATA"
          by (rule D(7)) (use c0 True in auto)
        then have "rd32 (nodes ?q) (?p * ?S) = Some TOKEN_NO_DATA" unfolding sp using c0 by (simp add: add.assoc)
        moreover have "int t \<le> int ?p" unfolding p using w4 by simp
        moreover have "?ys ! i = Hole w" using True by (simp add: nth_append)
        ultimately show ?thesis by simp
      next
        case False
        then have ik: "i = ?k" using i by simp
        then have sp: "span ?S (take i ?ys) = ?k" by simp
        have bk: "b + (?u + ?k) = ?N" using w4 by simp
        then have p: "?p = 0" unfolding sp using c0 by (simp add: add.assoc)
        have "rd32 (nodes ?q) ((b + (?u + ?k)) mod ?N * ?S) = Some TOKEN_NO_DATA"
          by (rule D(7)) (use c0 bk wrap(3) hb in auto)
        then have "rd32 (nodes ?q) 0 = Some TOKEN_NO_DATA" unfolding bk by simp
        moreover have "fits_at ?N ?S 0 d" using d wrap(1) by (simp add: fits_at_def)
        moreover have "?ys ! i = Pending w d" using ik by (simp add: nth_append)
        ultimately show ?thesis unfolding p by simp
      qed
    next
      have "\<exists>i < length (its @ ?ys). (its @ ?ys) ! i = Hole w \<and> spot ?q (b + c) (its @ ?ys) i = k"
        if k: "t \<le> k" "k < ?N" for k
      proof -
        let ?i = "k - (b + ?u)"
        have i: "?i < ?k" using k w4(2) by linarith
        then have "take ?i ?ys = replicate ?i (Hole w)" by (simp add: min_def)
        then have "spot ?q (b + c) (its @ ?ys) (length its + ?i) = k"
          unfolding spot_new using c0 k w4(2) by simp
        moreover have "(its @ ?ys) ! (length its + ?i) = Hole w" using i by (simp add: nth_append)
        ultimately show ?thesis using i by (intro exI [of _ "length its + ?i"]) simp
      qed
      moreover have "0 < t" "t < ?N" using wrap(3) hb w4 by simp_all
      ultimately show "writer_ok ?N (spot ?q (b + c) (its @ ?ys)) (its @ ?ys) w ?ph"
        by (simp add: writer_ok_def)
    qed simp
    ultimately show ?thesis by blast
  qed
qed

section \<open>Steps of the reader\<close>

lemma begin_step:
  assumes inv: "mq_inv_at s b c its fl" and R: "reader s = RIdle"
  shows "\<exists>s'. mq_exec Begin s = Some s' \<and> mq_inv_at s' b c its fl"
proof -
  note D = mq_invD [OF inv]
  have "c = 0" "fl = []" "(b + 0) mod NN (mq_head s) = b" using D(2,8) R by auto
  then show ?thesis
    using inv D(4) by (auto simp: mq_inv_at_def Let_def intro!: exI [of _ 0])
qed

text \<open>The reader takes the first \<open>n\<close> slots.\<close>

lemma span_take_add: "span ns (take (n + i) xs) = span ns (take n xs) + span ns (take i (drop n xs))"
  by (simp add: take_add)

lemma take_step:
  assumes inv: "mq_inv_at s b 0 its []" and n: "n \<le> length its" and c: "c = span (NS (mq_head s)) (take n its)"
    and free: "\<And>i. i < n \<Longrightarrow> owner (its ! i) = None"
    and rd: "reader_ok (nodes (mq_head s)) (NN (mq_head s)) (NS (mq_head s)) b c (drop n its) fl R"
    and pl: "concat (map payload (take n its)) = fl"
    and h: "h = int ((b + c) mod NN (mq_head s))"
  shows "mq_inv_at (s\<lparr>mq_head := (mq_head s)\<lparr>head_pos := h\<rparr>, reader := R\<rparr>) b c (drop n its) fl"
proof -
  note D = mq_invD [OF inv]
  let ?q = "mq_head s"
  let ?N = "NN ?q" and ?S = "NS ?q"
  have sp: "spot ?q (b + c) (drop n its) i = spot ?q b its (n + i)" for i
    unfolding spot_def span_take_add c by (simp add: add.assoc)
  have u: "c + span ?S (drop n its) = span ?S its"
    using span_take_add [of ?S n "length its" its] c by simp
  have g: "sq_geometry (?q\<lparr>head_pos := h\<rparr>)"
  proof -
    have "(b + c) mod ?N < ?N" using sq_geometryD(7) [OF D(1)] by simp
    then have "0 \<le> h" "h \<le> ele_count ?q" using h D(15) by linarith+
    then show ?thesis using D(1) by (simp add: sq_geometry_def)
  qed
  have slots: "slot_ok (nodes ?q) ?N ?S (writers s) (spot ?q (b + c) (drop n its) i) (drop n its ! i)"
    if "i < length (drop n its)" for i
    using D(6) [of "n + i"] that n unfolding sp by simp
  have mem: "x \<in> set its \<Longrightarrow> owner x = Some w \<Longrightarrow> x \<in> set (drop n its)" for x w
    using free by (metis Un_iff append_take_drop_id in_set_conv_nth length_take min_less_iff_conj nth_take option.distinct(1) set_append)
  have others: "writer_ok ?N (spot ?q (b + c) (drop n its)) (drop n its) w (writers s w)" for w
  proof (cases "writers s w")
    case (WMark t d)
    then have t: "0 < t" "t < int ?N" "Pending w d \<in> set its"
      and hole: "\<And>k. nat t \<le> k \<Longrightarrow> k < ?N \<Longrightarrow> \<exists>i < length its. its ! i = Hole w \<and> spot ?q b its i = k"
      using D(9) [of w] by (auto simp: writer_ok_def)
    have "\<exists>i < length (drop n its). drop n its ! i = Hole w \<and> spot ?q (b + c) (drop n its) i = k"
      if k: "nat t \<le> k" "k < ?N" for k
    proof -
      obtain i where i: "i < length its" "its ! i = Hole w" "spot ?q b its i = k" using hole [OF k] by blast
      then have "n \<le> i" using free [of i] by (cases "i < n") auto
      then obtain j where j: "i = n + j" by (metis le_add_diff_inverse)
      then show ?thesis using i n by (intro exI [of _ j]) (simp add: sp)
    qed
    then show ?thesis using t mem WMark by (simp add: writer_ok_def)
  qed (use D(9) [of w] mem in \<open>auto simp: writer_ok_def\<close>)
  have "concat (map payload its) = fl @ concat (map payload (drop n its))"
    unfolding pl [symmetric] by (metis append_take_drop_id concat_append map_append)
  then show ?thesis
    unfolding mq_inv_at_def Let_def
    using D(2,3,5,7,10-12) g slots rd others h u by (simp add: add.assoc)
qed

lemma iter_step:
  assumes inv: "mq_inv_at s b c its fl" and R: "reader s = RWalk old h" and calm: "mq_calm Iter s"
  shows "\<exists>s' b' c' its' fl'. mq_exec Iter s = Some s' \<and> mq_inv_at s' b' c' its' fl'"
proof -
  note D = mq_invD [OF inv]
  let ?q = "mq_head s"
  let ?N = "NN ?q" and ?S = "NS ?q" and ?u = "span (NS ?q) its"
  obtain j where c0: "c = 0" and fl: "fl = []" and old: "old = int b" and j: "j \<le> length its"
    "\<And>i. i < j \<Longrightarrow> its ! i = Skipped" and h: "h = int ((b + j) mod ?N)"
    using D(8) R by auto
  note inv0 = inv [unfolded c0 fl]
  have hp: "head_pos ?q = int b" using D(2,4) c0 by simp
  have "take j its = replicate j Skipped"
    using j by (intro nth_equalityI) simp_all
  then have sj: "span ?S (take j its) = j" by (simp add: span_def sum_list_replicate)
  then have ju: "j \<le> ?u" using span_take_le [of ?S j its] by simp
  then have jN: "j < ?N" using D(3) by simp
  have at: "spot ?q b its j = (b + j) mod ?N" by (simp add: spot_def sj)
  show ?thesis
  proof (cases "j = length its")
    case True
    then have u: "?u = j" using sj by simp
    have tp: "tail_pos ?q = h" using D(5) h u c0 by simp
    show ?thesis
    proof (cases "j = 0")
      case True
      then have "h = old" using h old D(2) by simp
      then have "mq_exec Iter s = Some (s\<lparr>reader := RIdle, tries := 0\<rparr>)"
        using R tp by (simp add: get_iter_def)
      moreover have "mq_inv_at (s\<lparr>reader := RIdle, tries := 0\<rparr>) b 0 its []"
        using inv0 by (simp add: mq_inv_at_def Let_def SQ_MAX_CONFLICT_TRIES_def)
      ultimately show ?thesis by blast
    next
      case False
      have "(b + j) mod ?N \<noteq> (b + 0) mod ?N" using turn_inj [of b j ?N 0] jN False by auto
      then have ne: "h \<noteq> old" using h old D(2) by simp
      have "mq_exec Iter s = Some (s\<lparr>mq_head := ?q\<lparr>head_pos := h\<rparr>, reader := RClear old h\<rparr>)"
        using R tp ne hp old by (simp add: get_iter_def CAS32_def)
      moreover have "mq_inv_at (s\<lparr>mq_head := ?q\<lparr>head_pos := h\<rparr>, reader := RClear old h\<rparr>) b j (drop j its) []"
        unfolding \<open>take j its = replicate j Skipped\<close> using j sj h old
        by (intro take_step [OF inv0]) (simp_all add: \<open>take j its = replicate j Skipped\<close>)
      ultimately show ?thesis by blast
    qed
  next
    case False
    then have jl: "j < length its" using j(1) by simp
    have ok: "slot_ok (nodes ?q) ?N ?S (writers s) ((b + j) mod ?N) (its ! j)"
      using D(6) [OF jl] at c0 by simp
    have "j + width ?S (its ! j) \<le> ?u" using span_end [OF jl, of ?S] sj by simp
    then have juw: "j + width ?S (its ! j) \<le> ?u" "j < ?u" using width_pos [OF D(13), of "its ! j"] by linarith+
    have "(b + j) mod ?N \<noteq> (b + ?u) mod ?N" using turn_inj [of b j ?N ?u] jN juw(2) D(3) by auto
    then have nt: "tail_pos ?q \<noteq> h" using D(5) h c0 by simp
    have get: "SQ_GET ?q h = Some ((b + j) mod ?N * ?S)" unfolding h by (rule SQ_GET_eq [OF D(1)])
    have N0: "(b + j) mod ?N < ?N" using sq_geometryD(7) [OF D(1)] by simp
    have next_: "SQ_ADD_POS ?q h (int n) = Some (int ((b + (j + n)) mod ?N))" if "n < ?N" for n
      using SQ_ADD_POS_eq [OF D(1) N0 that] h by (simp add: mod_add_left_eq add.assoc)
    have busy: ?thesis if "rd32 (nodes ?q) ((b + j) mod ?N * ?S) = Some TOKEN_NO_DATA"
    proof -
      have "tries s < SQ_MAX_CONFLICT_TRIES" using calm R that nt h by auto
      then have "mq_exec Iter s = Some (s\<lparr>reader := RIdle, tries := tries s + 1\<rparr>)"
        using R nt get that hp old by (simp add: get_iter_def token_defs)
      moreover have "mq_inv_at (s\<lparr>reader := RIdle, tries := tries s + 1\<rparr>) b 0 its []"
        using inv0 \<open>tries s < SQ_MAX_CONFLICT_TRIES\<close> by (simp add: mq_inv_at_def Let_def)
      ultimately show ?thesis by blast
    qed
    show ?thesis
    proof (cases "its ! j")
      case Skipped
      let ?h = "int ((b + (j + 1)) mod ?N)"
      have "get_iter ?q (tries s) old h = Some (GGo old ?h)"
        using nt get ok Skipped next_ [of 1] sq_geometryD(7) [OF D(1)]
        by (simp add: get_iter_def token_defs)
      then have "mq_exec Iter s = Some (s\<lparr>reader := RWalk old ?h\<rparr>)" using R by simp
      moreover have "mq_inv_at (s\<lparr>reader := RWalk old ?h\<rparr>) b 0 its []"
      proof -
        have "\<forall>i < j + 1. its ! i = Skipped" using j(2) Skipped by (simp add: less_Suc_eq)
        then have "reader_ok (nodes ?q) ?N ?S b 0 its [] (RWalk old ?h)"
          unfolding reader_ok.simps using jl old by (intro conjI exI [of _ "j + 1"]) simp_all
        then show ?thesis using inv0 by (simp add: mq_inv_at_def Let_def del: reader_ok.simps)
      qed
      ultimately show ?thesis by blast
    next
      case (Hole w)
      then show ?thesis using ok busy by simp
    next
      case (Pending w d)
      then show ?thesis using ok busy by simp
    next
      case (Held d)
      let ?p = "(b + j) mod ?N" and ?n = "need ?S (length d)"
      have f: "fits_at ?N ?S ?p d" and m: "msg_at (nodes ?q) ?S ?p d" using ok Held by auto
      have d: "0 < length d" "length d \<le> 65536" using f by (auto simp: fits_at_def)
      have nN: "?n < ?N" using f by (simp add: fits_at_def)
      let ?h = "int ((b + (j + ?n)) mod ?N)"
      have len: "sint (of_nat (length d) :: 32 word) = int (length d)" by (rule sint_length [OF d(2)])
      have nr: "SQ_NUM_NEEDED_NODES ?q (int (length d)) = Some (int ?n)" by (rule SQ_NEEDED_eq [OF D(1) d])
      have t: "nat (tail_pos ?q) = (?p + (?u - j)) mod ?N"
      proof -
        have "(?p + (?u - j)) mod ?N = (b + j + (?u - j)) mod ?N" by (rule mod_add_left_eq)
        also have "b + j + (?u - j) = b + ?u" using ju by simp
        finally show ?thesis using D(5) c0 by simp
      qed
      have us: "SQ_USED_NODES2 ?q h = Some (int (?u - j))"
        unfolding h using SQ_EMPTY_eq(2) [OF D(1) N0 _ t] D(3) by simp
      have "\<not> int (?u - j) < int ?n" using juw(1) Held by simp
      then have "get_iter ?q (tries s) old h = Some (GClaim (?q\<lparr>head_pos := ?h\<rparr>) ?h (?p * ?S) (int (length d)))"
        using nt get m len nr us next_ [OF nN] hp old
        by (simp add: get_iter_def Let_def CAS32_def msg_at_def)
      then have "mq_exec Iter s = Some (s\<lparr>mq_head := ?q\<lparr>head_pos := ?h\<rparr>, reader := RCopy old ?h (?p * ?S) (int (length d))\<rparr>)"
        using R by simp
      moreover have "mq_inv_at (s\<lparr>mq_head := ?q\<lparr>head_pos := ?h\<rparr>, reader := RCopy old ?h (?p * ?S) (int (length d))\<rparr>)
          b (j + ?n) (drop (Suc j) its) [d]"
      proof (rule take_step [OF inv0])
        show "j + ?n = span ?S (take (Suc j) its)" using span_take_Suc [OF jl, of ?S] sj Held by simp
        show "owner (its ! i) = None" if "i < Suc j" for i
          using that j(2) [of i] Held by (cases "i = j") auto
        have "take (Suc j) its = replicate j Skipped @ [Held d]"
          using \<open>take j its = replicate j Skipped\<close> Held jl by (simp add: take_Suc_conv_app_nth)
        then show "concat (map payload (take (Suc j) its)) = [d]" by simp
        show "reader_ok (nodes ?q) ?N ?S b (j + ?n) (drop (Suc j) its) [d] (RCopy old ?h (?p * ?S) (int (length d)))"
          using old f m by (auto simp: add.assoc intro!: exI [of _ j])
      qed (use jl in auto)
      ultimately show ?thesis by blast
    qed
  qed
qed

lemma copy_step:
  assumes inv: "mq_inv_at s b c its fl" and R: "reader s = RCopy old nh p len" and calm: "mq_calm (Copy buf) s"
  shows "\<exists>s'. mq_exec (Copy buf) s = Some s' \<and> mq_inv_at s' b c its []"
proof -
  note D = mq_invD [OF inv]
  let ?q = "mq_head s"
  obtain d k where dk: "fl = [d]" "len = int (length d)" "p = (b + k) mod NN ?q * NS ?q"
    "msg_at (nodes ?q) (NS ?q) ((b + k) mod NN ?q) d" "old = int b" "nh = int ((b + c) mod NN ?q)"
    using D(8) R by auto
  have fit: "length d \<le> length buf" using calm R dk(2) by simp
  obtain sec usec where tm: "rd32 (nodes ?q) (p + 8) = Some sec" "rd32 (nodes ?q) (p + 12) = Some usec"
    "rd_bytes (nodes ?q) (p + 16) (length d) = Some d"
    using dk(3,4) by (auto simp: msg_at_def)
  have "get_copy ?q p len buf (int (length buf)) = Some (len, d @ drop (length d) buf, (sec, usec))"
    using tm fit dk(2) by (simp add: get_copy_def wr_bytes_def)
  then have "mq_exec (Copy buf) s = Some (s\<lparr>reader := RClear old nh, got := got s @ [d]\<rparr>)"
    using R fit dk(2) by simp
  moreover have "mq_inv_at (s\<lparr>reader := RClear old nh, got := got s @ [d]\<rparr>) b c its []"
    using inv dk(1,5,6) by (simp add: mq_inv_at_def Let_def)
  ultimately show ?thesis by blast
qed

lemma clear_step:
  assumes inv: "mq_inv_at s b c its fl" and R: "reader s = RClear old nh"
  shows "\<exists>s' b' c'. mq_exec Clear s = Some s' \<and> mq_inv_at s' b' c' its fl"
proof -
  note D = mq_invD [OF inv]
  let ?q = "mq_head s"
  let ?N = "NN ?q" and ?S = "NS ?q"
  have r: "fl = []" "old = int b" "nh = int ((b + c) mod ?N)" using D(8) R by auto
  have cN: "c < ?N" using D(3) by simp
  show ?thesis
  proof (cases "c = 0")
    case True
    then have "old = nh" using r D(2) by simp
    then have "mq_exec Clear s = Some (s\<lparr>reader := RIdle, tries := 0\<rparr>)" using R by simp
    moreover have "mq_inv_at (s\<lparr>reader := RIdle, tries := 0\<rparr>) b c its fl"
      using inv True r(1) by (simp add: mq_inv_at_def Let_def SQ_MAX_CONFLICT_TRIES_def)
    ultimately show ?thesis by blast
  next
    case False
    have "(b + 0) mod ?N \<noteq> (b + c) mod ?N" using turn_inj [of b 0 ?N c] False cN by auto
    then have ne: "old \<noteq> nh" using r D(2) by simp
    obtain m where m: "wr32 (nodes ?q) (b * ?S) 0 = Some m"
      "nodes_only ?q (?q\<lparr>nodes := m\<rparr>) {b * ?S ..< (b + 1) * ?S}" "rd32 m (b * ?S) = Some 0"
      using wr32_node [OF D(1,2)] by blast
    note nq = nodes_onlyD [OF m(2)]
    let ?b = "Suc b mod ?N" and ?c = "c - 1" and ?q' = "?q\<lparr>nodes := m\<rparr>"
    have "clear_one ?q old = Some (?q', int ?b)"
      using m(1) SQ_GET_eq [OF D(1), of b] SQ_ADD_POS_eq [OF D(1,2), of 1] sq_geometryD(7) [OF D(1)] r(2)
      by (simp add: clear_one_def)
    then have "mq_exec Clear s = Some (s\<lparr>mq_head := ?q', reader := RClear (int ?b) nh\<rparr>)"
      using R ne by simp
    moreover have "mq_inv_at (s\<lparr>mq_head := ?q', reader := RClear (int ?b) nh\<rparr>) ?b ?c its fl"
    proof -
      have shift: "(?b + ?c + x) mod ?N = (b + c + x) mod ?N" for x
      proof -
        have "(?b + ?c + x) mod ?N = (Suc b + ?c + x) mod ?N" by (simp add: mod_add_left_eq add.assoc)
        then show ?thesis using False by simp
      qed
      then have sp: "spot ?q (?b + ?c) its = spot ?q (b + c) its" by (simp add: spot_def fun_eq_iff)
      have slots: "slot_ok m ?N ?S (writers s) (spot ?q (b + c) its i) (its ! i)" if i: "i < length its" for i
      proof (rule slot_keep [OF D(6) [OF i]])
        show "same (nodes ?q) m (- {b * ?S ..< (b + 1) * ?S})" using nq(7) by simp
        show "spot ?q (b + c) its i + width ?S (its ! i) \<le> b \<or> b + 1 \<le> spot ?q (b + c) its i"
          using slot_apart_outside [OF inv i, of 0 1 b] False D(2) by auto
      qed (use D(13) in auto)
      have free: "rd32 m ((?b + k) mod ?N * ?S) = Some TOKEN_NO_DATA" if k: "?c + span ?S its \<le> k" "k < ?N" for k
      proof -
        have e: "(?b + k) mod ?N = (b + Suc k) mod ?N" by (simp add: mod_add_left_eq)
        show ?thesis
        proof (cases "Suc k = ?N")
          case True
          then have "(?b + k) mod ?N = b" using e D(2) by simp
          then show ?thesis using m(3) by (simp add: token_defs)
        next
          case False
          then have kN: "Suc k < ?N" using k(2) by simp
          then have old0: "rd32 (nodes ?q) ((b + Suc k) mod ?N * ?S) = Some TOKEN_NO_DATA"
            using k(1) by (intro D(7)) auto
          let ?x = "(b + Suc k) mod ?N"
          have "?x \<noteq> (b + 0) mod ?N" using turn_inj [of b "Suc k" ?N 0] kN by auto
          then have "?x + 1 \<le> b \<or> b + 1 \<le> ?x" using D(2) by auto
          then show ?thesis unfolding e using rd32_same [OF nq(7) _ D(13), of ?x 0] old0 by simp
        qed
      qed
      have "head_pos ?q = int ((?b + ?c) mod ?N)" "tail_pos ?q = int ((?b + ?c + span ?S its) mod ?N)"
        "nh = int ((?b + ?c) mod ?N)"
        using shift [of 0] shift [of "span ?S its"] D(4,5) r(3) by simp_all
      moreover have "?b < ?N" "?c + span ?S its < ?N" using sq_geometryD(7) [OF D(1)] D(3) by simp_all
      moreover have "sq_geometry ?q'" using nq(3) D(1) by simp
      ultimately show ?thesis
        unfolding mq_inv_at_def Let_def
        using D(9-12) sp slots free r(1) by simp
    qed
    ultimately show ?thesis by blast
  qed
qed

section \<open>What the reader gets\<close>

lemma mq_step_inv:
  assumes "mq_inv s" "mq_enabled a s" "mq_calm a s"
  shows "\<exists>s'. mq_exec a s = Some s' \<and> mq_inv s'"
proof -
  obtain b c its fl where inv: "mq_inv_at s b c its fl" using assms(1) by (auto simp: mq_inv_def)
  show ?thesis
  proof (cases a)
    case (Reserve w d)
    then have "writers s w = WIdle" "0 < length d" "length d \<le> 65536" "mq_calm (Reserve w d) s"
      using assms by (simp_all del: mq_calm.simps)
    from reserve_step [OF inv this] show ?thesis unfolding mq_inv_def Reserve by blast
  next
    case (Mark w)
    then obtain t d where "writers s w = WMark t d" using assms(2) by (cases "writers s w") auto
    then show ?thesis using mark_step [OF inv] unfolding mq_inv_def Mark by blast
  next
    case (Fill w env)
    then obtain x d where "writers s w = WFill x d" using assms(2) by (cases "writers s w") auto
    then show ?thesis using fill_step [OF inv] unfolding mq_inv_def Fill by blast
  next
    case (Publish w)
    then obtain x d where "writers s w = WPub x d" using assms(2) by (cases "writers s w") auto
    then show ?thesis using publish_step [OF inv] unfolding mq_inv_def Publish by blast
  next
    case Begin
    then show ?thesis using begin_step [OF inv] assms(2) unfolding mq_inv_def Begin mq_enabled.simps by blast
  next
    case Iter
    then obtain x h where "reader s = RWalk x h" using assms(2) by (cases "reader s") auto
    then show ?thesis using iter_step [OF inv] assms(3) unfolding mq_inv_def Iter by blast
  next
    case (Copy buf)
    then obtain x h p l where "reader s = RCopy x h p l" using assms(2) by (cases "reader s") auto
    then show ?thesis using copy_step [OF inv] assms(3) unfolding mq_inv_def Copy by blast
  next
    case Clear
    then obtain x h where "reader s = RClear x h" using assms(2) by (cases "reader s") auto
    then show ?thesis using clear_step [OF inv] unfolding mq_inv_def Clear by blast
  qed
qed

text \<open>A queue with no message and no token set, and the system on it.\<close>

definition mq_blank :: "sq_head_t \<Rightarrow> bool" where
  "mq_blank q \<longleftrightarrow> sq_geometry q \<and> tail_pos q = head_pos q
     \<and> (\<forall>x < NN q. rd32 (nodes q) (x * NS q) = Some TOKEN_NO_DATA)"

definition mq_start :: "sq_head_t \<Rightarrow> mq_sys" where
  "mq_start q = \<lparr>mq_head = q, writers = (\<lambda>_. WIdle), reader = RIdle, tries = 0, given = [], got = []\<rparr>"

lemma mq_start_inv:
  assumes "mq_blank q"
  shows "mq_inv (mq_start q)"
proof -
  have g: "sq_geometry q" using assms by (simp add: mq_blank_def)
  have "0 \<le> head_pos q" using g by (simp add: sq_geometry_def)
  then have "mq_inv_at (mq_start q) (nat (head_pos q)) 0 [] []"
    using assms sq_geometryD(7,9) [OF g]
    by (auto simp: mq_blank_def mq_inv_at_def mq_start_def writer_ok_def SQ_MAX_CONFLICT_TRIES_def)
  then show ?thesis by (auto simp: mq_inv_def)
qed

lemma mq_reach_inv: "mq_reach s0 s \<Longrightarrow> mq_inv s0 \<Longrightarrow> mq_inv s"
proof (induction rule: mq_reach.induct)
  case (step s a s')
  then show ?case using mq_step_inv [of s a] by auto
qed

text \<open>With every process idle, the slots are the layout of the sequential queue.\<close>

fun item_of :: "slot \<Rightarrow> item" where
  "item_of (Held d) = Msg d"
| "item_of _ = Skip"

lemma slots_lay:
  assumes "\<And>i. i < length its \<Longrightarrow> slot_ok m N ns (\<lambda>_. WIdle) ((p + span ns (take i its)) mod N) (its ! i)" "p < N"
  shows "lay m N ns p (map item_of its) \<and> cells ns (map item_of its) = span ns its
    \<and> messages (map item_of its) = concat (map payload its)"
  using assms
proof (induction its arbitrary: p)
  case (Cons x its)
  have ok: "slot_ok m N ns (\<lambda>_. WIdle) p x" using Cons.prems(1) [of 0] Cons.prems(2) by simp
  have IH: "lay m N ns ((p + width ns x) mod N) (map item_of its) \<and> cells ns (map item_of its) = span ns its
    \<and> messages (map item_of its) = concat (map payload its)"
  proof (rule Cons.IH)
    fix i assume i: "i < length its"
    have "((p + width ns x) mod N + span ns (take i its)) mod N = (p + span ns (take (Suc i) (x # its))) mod N"
      by (simp add: mod_add_left_eq add.assoc)
    then show "slot_ok m N ns (\<lambda>_. WIdle) (((p + width ns x) mod N + span ns (take i its)) mod N) (its ! i)"
      using Cons.prems(1) [of "Suc i"] i by simp
  qed (use Cons.prems(2) in simp)
  show ?case
  proof (cases x)
    case (Held d)
    then have "p + need ns (length d) < N" using ok by (simp add: fits_at_def)
    then show ?thesis using ok IH Held by (simp add: fits_at_def)
  qed (use ok IH in auto)
qed simp

lemma mq_quiet:
  assumes inv: "mq_inv s" and w: "\<And>w. writers s w = WIdle" and r: "reader s = RIdle"
  shows "\<exists>its. sq_layout (mq_head s) its \<and> given s = got s @ messages its"
proof -
  obtain b c its fl where at: "mq_inv_at s b c its fl" using inv by (auto simp: mq_inv_def)
  note D = mq_invD [OF at]
  have cf: "c = 0" "fl = []" using D(8) r by auto
  have W: "writers s = (\<lambda>_. WIdle)" using w by blast
  have "lay (nodes (mq_head s)) (NN (mq_head s)) (NS (mq_head s)) b (map item_of its)
      \<and> cells (NS (mq_head s)) (map item_of its) = span (NS (mq_head s)) its
      \<and> messages (map item_of its) = concat (map payload its)"
    using D(6) cf W by (intro slots_lay [OF _ D(2)]) (simp add: spot_def)
  moreover have "nat (head_pos (mq_head s)) = b" "nat (tail_pos (mq_head s)) = (b + span (NS (mq_head s)) its) mod NN (mq_head s)"
    using D(2,4,5) cf by simp_all
  ultimately have "sq_layout (mq_head s) (map item_of its) \<and> given s = got s @ messages (map item_of its)"
    using D(1,3,12) cf by (simp add: sq_layout_def)
  then show ?thesis by blast
qed

lemma blank_zero:
  assumes "sq_geometry q" "tail_pos q = head_pos q" "nodes q = replicate n 0"
  shows "mq_blank q"
proof -
  note g = sq_geometryD [OF assms(1)]
  have "rd32 (nodes q) (x * NS q) = Some TOKEN_NO_DATA" if "x < NN q" for x
  proof -
    have "(x + 1) * NS q \<le> length (nodes q)" using node_fits [OF assms(1), of x 1] that by simp
    then have fit: "x * NS q + 4 \<le> n" using g(3) assms(3) by simp
    then have "seg (nodes q) (x * NS q) 4 = replicate 4 0" using assms(3) by (simp add: seg_def min_def)
    then have "rd32 (nodes q) (x * NS q) = Some (of_le32 (replicate 4 0))" using fit assms(3) by (simp add: rd32_def)
    then show ?thesis by (simp add: of_le32_def token_defs eval_nat_numeral)
  qed
  then show ?thesis using assms(1,2) by (simp add: mq_blank_def)
qed

lemma create_blank:
  assumes "0 < ele_sz" "ele_sz < 2 ^ 31 - 8" "100 < ele_cnt" "ele_cnt < 2 ^ 30" "shmkey \<noteq> 0"
    and "segment sys = None" "shmget_create_ok sys" "shmat_ok sys"
    and "sq_create env sys True shmkey ele_sz ele_cnt sn sp = Some (Some sq)"
  shows "mq_blank (head sq) \<and> ele_count (head sq) = ele_cnt \<and> ele_size (head sq) = align8 ele_sz
    \<and> head_pos (head sq) = 0 \<and> tail_pos (head sq) = 0"
  using sq_create_new [OF assms(1-8), of env sn sp] assms(9)
  by (auto simp: sqm_holds_def sq_layout_def intro: blank_zero)

text \<open>
  C2: a reader and any number of writers that run at the same time.  On a queue that
  \<open>sq_create\<close> has made, the steps of \<open>sq_put\<close> and \<open>sq_get\<close> are interleaved in any order; between the
  compare-and-swap with which a reader takes nodes and the clearing of their tokens, other
  processes go on.  As long as, while taken nodes are not cleared, these are at most
  \<open>RESERVE_BLOCK_COUNT\<close> and no message is reserved across the end of the array, and the reader does
  not meet a node in writing for an eleventh time, and its buffer suffices: no step has undefined
  behaviour; what the reader got is a beginning of what was accepted, every message whole and in
  the order of the reservations; and when all processes are between calls, the rest is in the queue.
\<close>

theorem sq_concurrent_fifo:
  assumes "0 < ele_sz" "ele_sz < 2 ^ 31 - 8" "100 < ele_cnt" "ele_cnt < 2 ^ 30" "shmkey \<noteq> 0"
    and "segment sys = None" "shmget_create_ok sys" "shmat_ok sys"
    and "sq_create env sys True shmkey ele_sz ele_cnt sn sp = Some (Some sq)"
    and "mq_reach (mq_start (head sq)) s"
  shows "(\<forall>a. mq_enabled a s \<and> mq_calm a s \<longrightarrow> mq_exec a s \<noteq> None)
    \<and> (\<exists>rest. given s = got s @ rest
        \<and> ((\<forall>w. writers s w = WIdle) \<and> reader s = RIdle \<longrightarrow> (\<exists>its. sq_layout (mq_head s) its \<and> messages its = rest)))"
proof -
  have "mq_blank (head sq)" using create_blank [OF assms(1-9)] by blast
  then have inv: "mq_inv s" by (rule mq_reach_inv [OF assms(10) mq_start_inv])
  then obtain b c its fl where at: "mq_inv_at s b c its fl" by (auto simp: mq_inv_def)
  have "mq_exec a s \<noteq> None" if "mq_enabled a s" "mq_calm a s" for a
    using mq_step_inv [OF inv that] by auto
  moreover have g: "given s = got s @ fl @ concat (map payload its)" by (rule mq_invD(12) [OF at])
  moreover have "\<exists>its'. sq_layout (mq_head s) its' \<and> messages its' = fl @ concat (map payload its)"
    if "\<forall>w. writers s w = WIdle" "reader s = RIdle"
    using mq_quiet [OF inv] that g by (metis same_append_eq)
  ultimately show ?thesis by (intro conjI exI [of _ "fl @ concat (map payload its)"]) blast+
qed

theorem sq_concurrent_fifo_witness:
  "\<exists>sq s. sq_create \<lparr>pid_exists = (\<lambda>p. False), clock_sec = 0, clock_usec = 0, fifo_fd = (\<lambda>i. - 1), getpid = 1\<rparr>
       \<lparr>segment = None, shmget_create_ok = True, shmctl_stat_ok = True, shmctl_rm_ok = True, shmat_ok = True\<rparr>
       True 5 1 200 0 0 = Some (Some sq)
    \<and> mq_reach (mq_start (head sq)) s \<and> given s = [[7], [8, 9]] \<and> got s @ [[7], [8, 9]] = given s \<and> tries s = 1
    \<and> mq_exec (Fill 1 \<lparr>pid_exists = (\<lambda>p. False), clock_sec = 0, clock_usec = 0, fifo_fd = (\<lambda>i. - 1), getpid = 1\<rparr>) s \<noteq> None"
proof -
  let ?env = "\<lparr>pid_exists = (\<lambda>p. False), clock_sec = 0, clock_usec = 0, fifo_fd = (\<lambda>i. - 1), getpid = 1\<rparr>"
  let ?sys = "\<lparr>segment = None, shmget_create_ok = True, shmctl_stat_ok = True, shmctl_rm_ok = True, shmat_ok = True\<rparr>"
  obtain sq where sq: "sq_create ?env ?sys True 5 1 200 0 0 = Some (Some sq)"
    using sq_create_new [of 1 200 5 ?sys ?env 0 0] by auto
  let ?q = "head sq"
  have q: "mq_blank ?q" "ele_count ?q = 200" "ele_size ?q = 8" "head_pos ?q = 0" "tail_pos ?q = 0"
    using create_blank [OF _ _ _ _ _ _ _ _ sq] by (auto simp: align8_def)
  note arith = put_reserve_def SQ_NUM_NEEDED_NODES_def SQ_EMPTY_NODES_def SQ_EMPTY_NODES2_def SQ_ADD_TAIL_def SQ_ADD_POS_def
    SQ_NODE_SIZE_def sizeof_node_head_def RESERVE_BLOCK_COUNT_def to_i32_def int_mod_def CAS32_def Let_def
  let ?q1 = "?q\<lparr>tail_pos := 1\<rparr>" and ?q2 = "?q\<lparr>tail_pos := 2\<rparr>"
  have r1: "put_reserve ?q 1 = Some (PReserved ?q1 0 0)" and r2: "put_reserve ?q1 2 = Some (PReserved ?q2 1 1)"
    using q by (simp_all add: arith)
  have g2: "sq_geometry ?q2" using q by (simp add: mq_blank_def sq_geometry_def)
  have tok: "rd32 (nodes ?q) 0 = Some TOKEN_NO_DATA"
    using q(1) sq_geometryD(7) [of ?q] by (auto simp: mq_blank_def dest: spec [of _ 0])
  have g0: "SQ_GET ?q2 0 = Some 0" using SQ_GET_eq [OF g2, of 0] by simp
  have it: "get_iter ?q2 0 0 0 = Some (GReturn 1)"
    using tok g0 q by (simp add: get_iter_def token_defs SQ_MAX_CONFLICT_TRIES_def)
  define s0 where "s0 = mq_start ?q"
  define s1 where "s1 = s0\<lparr>mq_head := ?q1, given := [[7]], writers := (writers s0)(0 := WFill 0 [7])\<rparr>"
  define s2 where "s2 = s1\<lparr>mq_head := ?q2, given := [[7], [8, 9]], writers := (writers s1)(1 := WFill 1 [8, 9])\<rparr>"
  define s3 where "s3 = s2\<lparr>reader := RWalk 0 0\<rparr>"
  define s4 where "s4 = s3\<lparr>reader := RIdle, tries := 1\<rparr>"
  note st = s4_def s3_def s2_def s1_def s0_def mq_start_def
  have "mq_reach s0 s0" by (rule mq_reach.start)
  then have "mq_reach s0 s1"
    by (rule mq_reach.step [where a = "Reserve 0 [7]"]) (use r1 in \<open>simp_all add: st taken_def\<close>)
  then have "mq_reach s0 s2"
    by (rule mq_reach.step [where a = "Reserve 1 [8, 9]"]) (use r2 in \<open>simp_all add: st taken_def\<close>)
  then have "mq_reach s0 s3"
    by (rule mq_reach.step [where a = Begin]) (use q in \<open>simp_all add: st\<close>)
  then have r4: "mq_reach s0 s4"
    by (rule mq_reach.step [where a = Iter]) (use it in \<open>simp_all add: st SQ_MAX_CONFLICT_TRIES_def\<close>)
  have f: "mq_enabled (Fill 1 ?env) s4" "mq_calm (Fill 1 ?env) s4" by (simp_all add: st)
  have "(\<forall>a. mq_enabled a s4 \<and> mq_calm a s4 \<longrightarrow> mq_exec a s4 \<noteq> None)
    \<and> (\<exists>rest. given s4 = got s4 @ rest
        \<and> ((\<forall>w. writers s4 w = WIdle) \<and> reader s4 = RIdle \<longrightarrow> (\<exists>its. sq_layout (mq_head s4) its \<and> messages its = rest)))"
    by (rule sq_concurrent_fifo [OF _ _ _ _ _ _ _ _ sq]) (use r4 in \<open>simp_all add: s0_def\<close>)
  then have "mq_exec (Fill 1 ?env) s4 \<noteq> None" using f by blast
  moreover have "given s4 = [[7], [8, 9]]" "got s4 @ [[7], [8, 9]] = given s4" "tries s4 = 1" by (simp_all add: st)
  ultimately show ?thesis using sq r4 unfolding s0_def by blast
qed

text \<open>
  Why the number of tries matters: a reader that polls eleven times while the first message is
  being written skips its node; the message is then published behind the head and never read,
  although \<open>sq_put\<close> has accepted it.
\<close>

fun mq_steps :: "mq_act list \<Rightarrow> mq_sys \<Rightarrow> mq_sys option" where
  "mq_steps [] s = Some s"
| "mq_steps (a # as) s = (if mq_enabled a s then do { s' \<leftarrow> mq_exec a s; mq_steps as s' } else None)"

lemma mq_steps_append: "mq_steps (as @ bs) s = do { s' \<leftarrow> mq_steps as s; mq_steps bs s' }"
  by (induction "as" arbitrary: s) (auto split: bind_splits)

lemma slow_polls:
  assumes "reader s = RIdle" "head_pos (mq_head s) = 0" "tail_pos (mq_head s) = 1" "0 \<le> tries s" "tries s + int k \<le> 10"
    "SQ_GET (mq_head s) 0 = Some 0" "rd32 (nodes (mq_head s)) 0 = Some TOKEN_NO_DATA"
  shows "mq_steps (concat (replicate k [Begin, Iter])) s = Some (s\<lparr>tries := tries s + int k\<rparr>)"
  using assms
proof (induction k arbitrary: s)
  case (Suc k)
  have it: "get_iter (mq_head s) (tries s) 0 0 = Some (GReturn (tries s + 1))"
    using Suc.prems by (simp add: get_iter_def token_defs SQ_MAX_CONFLICT_TRIES_def)
  have "mq_steps (concat (replicate k [Begin, Iter])) (s\<lparr>tries := tries s + 1\<rparr>)
      = Some (s\<lparr>tries := tries s + 1, tries := tries s + 1 + int k\<rparr>)"
    using Suc.IH [of "s\<lparr>tries := tries s + 1\<rparr>"] Suc.prems by simp
  moreover have r: "s\<lparr>reader := RIdle, tries := x\<rparr> = s\<lparr>tries := x\<rparr>" for x
    using Suc.prems(1) by (cases s) simp
  ultimately show ?case using it Suc.prems(1,2) by (simp add: add.assoc r)
qed simp

lemma slow_writer_loses:
  assumes q: "mq_blank q" "ele_count q = 200" "ele_size q = 8" "head_pos q = 0" "tail_pos q = 0"
  shows "\<exists>s. mq_steps (Reserve 0 [7] # concat (replicate 10 [Begin, Iter])
      @ [Begin, Iter, Iter, Clear, Clear, Fill 0 env, Publish 0]) (mq_start q) = Some s
    \<and> given s = [[7]] \<and> got s = [] \<and> (\<forall>w. writers s w = WIdle) \<and> reader s = RIdle
    \<and> head_pos (mq_head s) = tail_pos (mq_head s)"
proof -
  have g: "sq_geometry q" using q(1) by (simp add: mq_blank_def)
  let ?q1 = "q\<lparr>tail_pos := 1\<rparr>" and ?q2 = "q\<lparr>tail_pos := 1, head_pos := 1\<rparr>"
  have g1: "sq_geometry ?q1" and g2: "sq_geometry ?q2" using g q by (simp_all add: sq_geometry_def NN_def NS_def)
  have N: "NN q = 201" "NS q = 24" using q by (simp_all add: NN_def NS_def)
  have r1: "put_reserve q 1 = Some (PReserved ?q1 0 0)"
    using q by (simp add: put_reserve_def SQ_NUM_NEEDED_NODES_def SQ_EMPTY_NODES_def SQ_EMPTY_NODES2_def SQ_ADD_TAIL_def SQ_ADD_POS_def
      SQ_NODE_SIZE_def sizeof_node_head_def RESERVE_BLOCK_COUNT_def to_i32_def int_mod_def CAS32_def Let_def)
  have tok: "rd32 (nodes q) 0 = Some TOKEN_NO_DATA" using q(1) N by (auto simp: mq_blank_def dest: spec [of _ 0])
  have g0: "SQ_GET ?q1 0 = Some 0" using SQ_GET_eq [OF g1, of 0] by simp
  let ?s1 = "(mq_start q)\<lparr>mq_head := ?q1, given := [[7]], writers := (\<lambda>_. WIdle)(0 := WFill 0 [7])\<rparr>"
  have s1: "mq_exec (Reserve 0 [7]) (mq_start q) = Some ?s1" using r1 by (simp add: mq_start_def)
  have s2: "mq_steps (concat (replicate 10 [Begin, Iter])) ?s1 = Some (?s1\<lparr>tries := 10\<rparr>)"
    using slow_polls [of ?s1 10] q g0 tok by (simp add: mq_start_def)
  have add: "SQ_ADD_POS ?q1 0 1 = Some 1" using SQ_ADD_POS_eq [OF g1, of 0 1] N by simp
  have i1: "get_iter ?q1 10 0 0 = Some (GGo 0 1)"
    using q g0 tok add by (simp add: get_iter_def token_defs SQ_MAX_CONFLICT_TRIES_def)
  have i2: "get_iter ?q1 10 0 1 = Some (GEnd ?q2)" using q by (simp add: get_iter_def CAS32_def)
  obtain m where m: "wr32 (nodes ?q2) (0 * NS ?q2) 0 = Some m" "nodes_only ?q2 (?q2\<lparr>nodes := m\<rparr>) {0 * NS ?q2 ..< (0 + 1) * NS ?q2}"
    using wr32_node [OF g2, of 0] N by auto
  have g3: "sq_geometry (?q2\<lparr>nodes := m\<rparr>)" using nodes_onlyD(3) [OF m(2)] g2 by simp
  have c1: "clear_one ?q2 0 = Some (?q2\<lparr>nodes := m\<rparr>, 1)"
    using m(1) SQ_GET_eq [OF g2, of 0] SQ_ADD_POS_eq [OF g2, of 0 1] N by (simp add: clear_one_def)
  have n1: "need 24 1 = 1" by (simp add: need_def)
  obtain q4 where q4: "write_body env (?q2\<lparr>nodes := m\<rparr>) 0 [7] 1 = Some q4"
    "nodes_only (?q2\<lparr>nodes := m\<rparr>) q4 {4 ..< 24}" "body_at (nodes q4) 24 0 [7]"
    using write_body_spec [OF g3, of "[7]" 0 env] N n1 by auto
  note n4 = nodes_onlyD [OF q4(2)]
  obtain q5 where q5: "publish_node q4 0 = Some q5" "nodes_only q4 q5 {0 ..< 24}"
    using publish_spec [of q4 "[7]" 0] q4(3) n4 g3 N n1 by auto
  note n5 = nodes_onlyD [OF q5(2)]
  have G: "SQ_GET (?q2\<lparr>nodes := m\<rparr>) 0 = Some 0" using SQ_GET_eq [OF g3, of 0] by simp
  show ?thesis
    unfolding append_Cons mq_steps.simps(2) mq_steps_append
    using s1 s2 i1 i2 c1 q4(1) q5(1) G n4(4,5) n5(4,5) q by (simp add: mq_start_def)
qed

text \<open>
  Why no message may wrap while nodes are taken: a message that is put at node 0 needs only to be
  shorter than the head's position, so it can cover a node \<open>b\<close> that a reader has taken and is
  copying; the reader then gets the bytes of the new message.
\<close>

lemma wrapped_put_overwrites:
  assumes q: "sq_layout q its" and e: "0 < length e" "length e \<le> 65536" and room: "sq_room q (need (NS q) (length e))"
    and wrap: "NN q \<le> nat (tail_pos q) + need (NS q) (length e)" and n: "b * NS q + n \<le> length e"
  shows "\<exists>q'. put_loop env q e (int (length e)) = Some (q', 0)
    \<and> rd_bytes (nodes q') (b * NS q + 16) n = Some (take n (drop (b * NS q) e))"
proof -
  obtain m t its' where p: "put_loop env q e (int (length e)) = Some (q\<lparr>tail_pos := t, nodes := m\<rparr>, 0)"
    "sq_layout (q\<lparr>tail_pos := t, nodes := m\<rparr>) its'" "its' = its @ replicate (NN q - nat (tail_pos q)) Skip @ [Msg e]"
    using put_loop_room [OF q e room, of env] wrap by auto
  have g: "sq_geometry q" using q by (simp add: sq_layout_def)
  note gd = sq_geometryD [OF g]
  have tp: "nat (tail_pos q) = (nat (head_pos q) + cells (NS q) its) mod NN q" using q by (simp add: sq_layout_def)
  have "lay m (NN q) (NS q) ((nat (tail_pos q) + (NN q - nat (tail_pos q))) mod NN q) [Msg e]"
    using p(2,3) lay_append [OF gd(9)] lay_append [OF gd(10)] by (simp add: sq_layout_def tp [symmetric])
  moreover have "(nat (tail_pos q) + (NN q - nat (tail_pos q))) mod NN q = 0" using gd(10) by simp
  ultimately have "lay m (NN q) (NS q) 0 [Msg e]" by (simp only:)
  then have "msg_at m (NS q) 0 e" by simp
  then have r: "rd_bytes m 16 (length e) = Some e" by (simp add: msg_at_def)
  have "rd_bytes m (b * NS q + 16) n = Some (take n (drop (b * NS q) e))"
  proof -
    have l: "16 + length e \<le> length m" "seg m 16 (length e) = e" using r by (auto simp: rd_bytes_def split: if_splits)
    have "seg m (b * NS q + 16) n = take n (drop (b * NS q) (seg m 16 (length e)))"
      using n by (simp add: seg_def take_drop add.commute min_def)
    then show ?thesis using l n by (simp add: rd_bytes_def)
  qed
  then show ?thesis using p(1) by auto
qed

end
