(* ===== verification/BPlus_Node.thy ===== *)
theory BPlus_Node
  imports Prelude
begin

text \<open>
  The nodes of the B+ tree of example_bplus_tree.cpp: \<open>CNode\<close>, \<open>CInternalNode\<close> and \<open>CLeafNode\<close> with
  their arrays, the operations on one node, and on a heap of nodes those that involve a parent or
  a sibling (split, merge, borrow).
\<close>

section \<open>Data\<close>

datatype node_type = INTERNAL | LEAF
datatype sibling_direction = LEFT | RIGHT

definition ORDER :: int where "ORDER = 7"
definition MINNUM_KEY :: int where "MINNUM_KEY = ORDER - 1"
definition MAXNUM_KEY :: int where "MAXNUM_KEY = 2 * ORDER - 1"
definition MINNUM_CHILD :: int where "MINNUM_CHILD = MINNUM_KEY + 1"
definition MAXNUM_CHILD :: int where "MAXNUM_CHILD = MAXNUM_KEY + 1"
definition MINNUM_LEAF :: int where "MINNUM_LEAF = MINNUM_KEY"
definition MAXNUM_LEAF :: int where "MAXNUM_LEAF = MAXNUM_KEY"

lemmas order_defs = ORDER_def MINNUM_KEY_def MAXNUM_KEY_def MINNUM_CHILD_def MAXNUM_CHILD_def MINNUM_LEAF_def MAXNUM_LEAF_def

text \<open>
  A pointer is a number, 0 is the null pointer.  An array element that was never written is
  \<open>None\<close>.  The keys are of any linear order (floats other than NaN are one).  One record holds the
  members of both classes; the model never reads a member that the class of the node does not have.
\<close>

type_synonym ptr = nat

record 'k cnode =
  m_Type :: node_type
  m_KeyNum :: int
  m_KeyValues :: "'k option list"
  m_Childs :: "ptr option list"
  m_LeftSibling :: ptr
  m_RightSibling :: ptr
  m_Datas :: "int option list"

definition new_CNode :: "node_type \<Rightarrow> 'k cnode" where
  "new_CNode t = \<lparr>m_Type = t, m_KeyNum = 0, m_KeyValues = replicate (nat MAXNUM_KEY) None,
     m_Childs = (if t = INTERNAL then replicate (nat MAXNUM_CHILD) None else []),
     m_LeftSibling = 0, m_RightSibling = 0,
     m_Datas = (if t = LEAF then replicate (nat MAXNUM_LEAF) None else [])\<rparr>"

definition getKeyValue :: "'k cnode \<Rightarrow> int \<Rightarrow> 'k option" where
  "getKeyValue n i = do { c \<leftarrow> rdi (m_KeyValues n) i; c }"

definition setKeyValue :: "int \<Rightarrow> 'k \<Rightarrow> 'k cnode \<Rightarrow> 'k cnode option" where
  "setKeyValue i k n = do { ks \<leftarrow> wri (m_KeyValues n) i (Some k); Some (n\<lparr>m_KeyValues := ks\<rparr>) }"

definition getChild :: "'k cnode \<Rightarrow> int \<Rightarrow> ptr option" where
  "getChild n i = do { c \<leftarrow> rdi (m_Childs n) i; c }"

definition setChild :: "int \<Rightarrow> ptr \<Rightarrow> 'k cnode \<Rightarrow> 'k cnode option" where
  "setChild i p n = do { cs \<leftarrow> wri (m_Childs n) i (Some p); Some (n\<lparr>m_Childs := cs\<rparr>) }"

definition getData :: "'k cnode \<Rightarrow> int \<Rightarrow> int option" where
  "getData n i = do { c \<leftarrow> rdi (m_Datas n) i; c }"

definition setData :: "int \<Rightarrow> int \<Rightarrow> 'k cnode \<Rightarrow> 'k cnode option" where
  "setData i d n = do { ds \<leftarrow> wri (m_Datas n) i (Some d); Some (n\<lparr>m_Datas := ds\<rparr>) }"

section \<open>One node\<close>

partial_function (option) key_index_loop :: "('k :: linorder) cnode \<Rightarrow> 'k \<Rightarrow> int \<Rightarrow> int \<Rightarrow> int option" where
  "key_index_loop n key left right =
     (if left \<noteq> right
      then do { let current = cdiv (left + right) 2;
                k \<leftarrow> getKeyValue n current;
                if key > k then key_index_loop n key (current + 1) right
                else key_index_loop n key left current }
      else Some left)"

definition getKeyIndex :: "('k :: linorder) cnode \<Rightarrow> 'k \<Rightarrow> int option" where
  "getKeyIndex n key = key_index_loop n key 0 (m_KeyNum n - 1)"

definition getChildIndex :: "('k :: linorder) cnode \<Rightarrow> 'k \<Rightarrow> int \<Rightarrow> int option" where
  "getChildIndex n key keyIndex =
     (case m_Type n of
        INTERNAL \<Rightarrow> do { k \<leftarrow> getKeyValue n keyIndex; Some (if key = k then keyIndex + 1 else keyIndex) }
      | LEAF \<Rightarrow> Some keyIndex)"

text \<open>\<open>CInternalNode::insert\<close>; the loop runs from \<open>getKeyNum()\<close> down to \<open>keyIndex\<close> and leaves \<open>i\<close>.\<close>

function internal_shift :: "int \<Rightarrow> int \<Rightarrow> 'k cnode \<Rightarrow> ('k cnode \<times> int) option" where
  "internal_shift keyIndex i n =
     (if i > keyIndex
      then do { c \<leftarrow> getChild n i;
                n \<leftarrow> setChild (i + 1) c n;
                k \<leftarrow> getKeyValue n (i - 1);
                n \<leftarrow> setKeyValue i k n;
                internal_shift keyIndex (i - 1) n }
      else Some (n, i))"
  by auto
termination by (relation "measure (\<lambda>(keyIndex, i, _). nat (i - keyIndex))") auto

declare internal_shift.simps [simp del]

definition internal_insert :: "int \<Rightarrow> int \<Rightarrow> 'k \<Rightarrow> ptr \<Rightarrow> 'k cnode \<Rightarrow> 'k cnode option" where
  "internal_insert keyIndex childIndex key childNode n =
     do { (n, i) \<leftarrow> internal_shift keyIndex (m_KeyNum n) n;
          n \<leftarrow> (if i = childIndex then do { c \<leftarrow> getChild n i; setChild (i + 1) c n } else Some n);
          n \<leftarrow> setChild childIndex childNode n;
          n \<leftarrow> setKeyValue keyIndex key n;
          Some (n\<lparr>m_KeyNum := m_KeyNum n + 1\<rparr>) }"

fun leaf_shift :: "('k :: linorder) \<Rightarrow> nat \<Rightarrow> 'k cnode \<Rightarrow> ('k cnode \<times> nat) option" where
  "leaf_shift key 0 n = Some (n, 0)"
| "leaf_shift key (Suc i) n =
     do { k \<leftarrow> getKeyValue n (int i);
          if k > key
          then do { n \<leftarrow> setKeyValue (int (Suc i)) k n;
                    d \<leftarrow> getData n (int i);
                    n \<leftarrow> setData (int (Suc i)) d n;
                    leaf_shift key i n }
          else Some (n, Suc i) }"

definition leaf_insert :: "('k :: linorder) \<Rightarrow> int \<Rightarrow> 'k cnode \<Rightarrow> 'k cnode option" where
  "leaf_insert key data n =
     do { (n, i) \<leftarrow> leaf_shift key (nat (m_KeyNum n)) n;
          n \<leftarrow> setKeyValue (int i) key n;
          n \<leftarrow> setData (int i) data n;
          Some (n\<lparr>m_KeyNum := m_KeyNum n + 1\<rparr>) }"

text \<open>\<open>removeKey\<close> of both classes; \<open>m\<close> counts the rounds that are left.\<close>

fun internal_remove_loop :: "nat \<Rightarrow> int \<Rightarrow> int \<Rightarrow> 'k cnode \<Rightarrow> 'k cnode option" where
  "internal_remove_loop 0 ki ci n = Some n"
| "internal_remove_loop (Suc m) ki ci n =
     do { k \<leftarrow> getKeyValue n (ki + 1);
          n \<leftarrow> setKeyValue ki k n;
          c \<leftarrow> getChild n (ci + 1);
          n \<leftarrow> setChild ci c n;
          internal_remove_loop m (ki + 1) (ci + 1) n }"

definition internal_removeKey :: "int \<Rightarrow> int \<Rightarrow> 'k cnode \<Rightarrow> 'k cnode option" where
  "internal_removeKey keyIndex childIndex n =
     do { n \<leftarrow> internal_remove_loop (nat (m_KeyNum n - keyIndex - 1)) keyIndex childIndex n;
          Some (n\<lparr>m_KeyNum := m_KeyNum n - 1\<rparr>) }"

fun leaf_remove_loop :: "nat \<Rightarrow> int \<Rightarrow> 'k cnode \<Rightarrow> 'k cnode option" where
  "leaf_remove_loop 0 i n = Some n"
| "leaf_remove_loop (Suc m) i n =
     do { k \<leftarrow> getKeyValue n (i + 1);
          n \<leftarrow> setKeyValue i k n;
          d \<leftarrow> getData n (i + 1);
          n \<leftarrow> setData i d n;
          leaf_remove_loop m (i + 1) n }"

definition leaf_removeKey :: "int \<Rightarrow> int \<Rightarrow> 'k cnode \<Rightarrow> 'k cnode option" where
  "leaf_removeKey keyIndex childIndex n =
     do { n \<leftarrow> leaf_remove_loop (nat (m_KeyNum n - 1 - keyIndex)) keyIndex n;
          Some (n\<lparr>m_KeyNum := m_KeyNum n - 1\<rparr>) }"

definition removeKey :: "int \<Rightarrow> int \<Rightarrow> 'k cnode \<Rightarrow> 'k cnode option" where
  "removeKey keyIndex childIndex n =
     (case m_Type n of INTERNAL \<Rightarrow> internal_removeKey keyIndex childIndex n
      | LEAF \<Rightarrow> leaf_removeKey keyIndex childIndex n)"

section \<open>The heap of nodes\<close>

text \<open>The node at address \<open>p\<close> is element \<open>p - 1\<close>; a deleted node is \<open>None\<close>.\<close>

type_synonym 'k heap = "'k cnode option list"

definition node_at :: "'k heap \<Rightarrow> ptr \<Rightarrow> 'k cnode option" where
  "node_at h p = (if p = 0 then None else do { c \<leftarrow> rd h (p - 1); c })"

definition put_node :: "ptr \<Rightarrow> 'k cnode \<Rightarrow> 'k heap \<Rightarrow> 'k heap option" where
  "put_node p n h = do { _ \<leftarrow> node_at h p; wr h (p - 1) (Some n) }"

definition new_node :: "'k cnode \<Rightarrow> 'k heap \<Rightarrow> 'k heap \<times> ptr" where
  "new_node n h = (h @ [Some n], Suc (length h))"

definition delete_node :: "ptr \<Rightarrow> 'k heap \<Rightarrow> 'k heap option" where
  "delete_node p h = (if p = 0 then Some h else do { _ \<leftarrow> node_at h p; wr h (p - 1) None })"

definition on_node :: "ptr \<Rightarrow> ('k cnode \<Rightarrow> 'k cnode option) \<Rightarrow> 'k heap \<Rightarrow> 'k heap option" where
  "on_node p f h = do { n \<leftarrow> node_at h p; n \<leftarrow> f n; put_node p n h }"

text \<open>Copying \<open>m\<close> keys, children or data from index \<open>from\<close> of one node to index \<open>i\<close> on of another.\<close>

fun copy_keys :: "nat \<Rightarrow> int \<Rightarrow> int \<Rightarrow> 'k cnode \<Rightarrow> 'k cnode \<Rightarrow> 'k cnode option" where
  "copy_keys 0 i from src dst = Some dst"
| "copy_keys (Suc m) i from src dst =
     do { k \<leftarrow> getKeyValue src (i + from); dst \<leftarrow> setKeyValue i k dst; copy_keys m (i + 1) from src dst }"

fun copy_childs :: "nat \<Rightarrow> int \<Rightarrow> int \<Rightarrow> 'k cnode \<Rightarrow> 'k cnode \<Rightarrow> 'k cnode option" where
  "copy_childs 0 i from src dst = Some dst"
| "copy_childs (Suc m) i from src dst =
     do { c \<leftarrow> getChild src (i + from); dst \<leftarrow> setChild i c dst; copy_childs m (i + 1) from src dst }"

fun copy_datas :: "nat \<Rightarrow> int \<Rightarrow> int \<Rightarrow> 'k cnode \<Rightarrow> 'k cnode \<Rightarrow> 'k cnode option" where
  "copy_datas 0 i from src dst = Some dst"
| "copy_datas (Suc m) i from src dst =
     do { d \<leftarrow> getData src (i + from); dst \<leftarrow> setData i d dst; copy_datas m (i + 1) from src dst }"

text \<open>\<open>split\<close>: the upper half of the node \<open>self\<close> moves to a new right node that is inserted into the parent.\<close>

definition internal_split :: "ptr \<Rightarrow> ptr \<Rightarrow> int \<Rightarrow> 'k heap \<Rightarrow> 'k heap option" where
  "internal_split self parentNode childIndex h =
     do { n \<leftarrow> node_at h self;
          let new = (new_CNode INTERNAL)\<lparr>m_KeyNum := MINNUM_KEY\<rparr>;
          new \<leftarrow> copy_keys (nat MINNUM_KEY) 0 MINNUM_CHILD n new;
          new \<leftarrow> copy_childs (nat MINNUM_CHILD) 0 MINNUM_CHILD n new;
          h \<leftarrow> put_node self (n\<lparr>m_KeyNum := MINNUM_KEY\<rparr>) h;
          k \<leftarrow> getKeyValue n MINNUM_KEY;
          let (h, p) = new_node new h;
          on_node parentNode (internal_insert childIndex (childIndex + 1) k p) h }"

definition leaf_split :: "ptr \<Rightarrow> ptr \<Rightarrow> int \<Rightarrow> 'k heap \<Rightarrow> 'k heap option" where
  "leaf_split self parentNode childIndex h =
     do { n \<leftarrow> node_at h self;
          let new = (new_CNode LEAF)\<lparr>m_KeyNum := MINNUM_LEAF + 1, m_RightSibling := m_RightSibling n, m_LeftSibling := self\<rparr>;
          new \<leftarrow> copy_keys (nat (MINNUM_LEAF + 1)) 0 MINNUM_LEAF n new;
          new \<leftarrow> copy_datas (nat (MINNUM_LEAF + 1)) 0 MINNUM_LEAF n new;
          let (h, p) = new_node new h;
          h \<leftarrow> put_node self (n\<lparr>m_KeyNum := MINNUM_LEAF, m_RightSibling := p\<rparr>) h;
          k \<leftarrow> getKeyValue n MINNUM_LEAF;
          on_node parentNode (internal_insert childIndex (childIndex + 1) k p) h }"

definition split_node :: "ptr \<Rightarrow> ptr \<Rightarrow> int \<Rightarrow> 'k heap \<Rightarrow> 'k heap option" where
  "split_node self parentNode childIndex h =
     do { n \<leftarrow> node_at h self;
          case m_Type n of INTERNAL \<Rightarrow> internal_split self parentNode childIndex h
          | LEAF \<Rightarrow> leaf_split self parentNode childIndex h }"

text \<open>\<open>mergeChild\<close>: the right neighbour \<open>childNode\<close> is appended to \<open>self\<close>.\<close>

fun internal_merge_loop :: "nat \<Rightarrow> int \<Rightarrow> 'k cnode \<Rightarrow> 'k cnode \<Rightarrow> 'k cnode option" where
  "internal_merge_loop 0 i child n = Some n"
| "internal_merge_loop (Suc m) i child n =
     do { k \<leftarrow> getKeyValue child (i - 1);
          c \<leftarrow> getChild child i;
          n \<leftarrow> internal_insert (MINNUM_KEY + i) (MINNUM_KEY + i + 1) k c n;
          internal_merge_loop m (i + 1) child n }"

definition internal_mergeChild :: "ptr \<Rightarrow> ptr \<Rightarrow> ptr \<Rightarrow> int \<Rightarrow> 'k heap \<Rightarrow> 'k heap option" where
  "internal_mergeChild self parentNode childNode keyIndex h =
     do { parent \<leftarrow> node_at h parentNode;
          child \<leftarrow> node_at h childNode;
          k \<leftarrow> getKeyValue parent keyIndex;
          c \<leftarrow> getChild child 0;
          h \<leftarrow> on_node self (\<lambda>n. do { n \<leftarrow> internal_insert MINNUM_KEY (MINNUM_KEY + 1) k c n;
                                     internal_merge_loop (nat (m_KeyNum child)) 1 child n }) h;
          h \<leftarrow> on_node parentNode (removeKey keyIndex (keyIndex + 1)) h;
          parent \<leftarrow> node_at h parentNode;
          dead \<leftarrow> getChild parent (keyIndex + 1);
          delete_node dead h }"

fun leaf_merge_loop :: "nat \<Rightarrow> int \<Rightarrow> ('k :: linorder) cnode \<Rightarrow> 'k cnode \<Rightarrow> 'k cnode option" where
  "leaf_merge_loop 0 i child n = Some n"
| "leaf_merge_loop (Suc m) i child n =
     do { k \<leftarrow> getKeyValue child i;
          d \<leftarrow> getData child i;
          n \<leftarrow> leaf_insert k d n;
          leaf_merge_loop m (i + 1) child n }"

definition leaf_mergeChild :: "ptr \<Rightarrow> ptr \<Rightarrow> ptr \<Rightarrow> int \<Rightarrow> ('k :: linorder) heap \<Rightarrow> 'k heap option" where
  "leaf_mergeChild self parentNode childNode keyIndex h =
     do { child \<leftarrow> node_at h childNode;
          h \<leftarrow> on_node self (\<lambda>n. do { n \<leftarrow> leaf_merge_loop (nat (m_KeyNum child)) 0 child n;
                                     Some (n\<lparr>m_RightSibling := m_RightSibling child\<rparr>) }) h;
          on_node parentNode (removeKey keyIndex (keyIndex + 1)) h }"

definition mergeChild :: "ptr \<Rightarrow> ptr \<Rightarrow> ptr \<Rightarrow> int \<Rightarrow> ('k :: linorder) heap \<Rightarrow> 'k heap option" where
  "mergeChild self parentNode childNode keyIndex h =
     do { n \<leftarrow> node_at h self;
          case m_Type n of INTERNAL \<Rightarrow> internal_mergeChild self parentNode childNode keyIndex h
          | LEAF \<Rightarrow> leaf_mergeChild self parentNode childNode keyIndex h }"

text \<open>\<open>borrowFrom\<close>\<close>

definition internal_borrowFrom :: "ptr \<Rightarrow> ptr \<Rightarrow> ptr \<Rightarrow> int \<Rightarrow> sibling_direction \<Rightarrow> 'k heap \<Rightarrow> 'k heap option" where
  "internal_borrowFrom self siblingNode parentNode keyIndex d h =
     do { n \<leftarrow> node_at h self;
          sibling \<leftarrow> node_at h siblingNode;
          parent \<leftarrow> node_at h parentNode;
          k \<leftarrow> getKeyValue parent keyIndex;
          (case d of
             LEFT \<Rightarrow>
               do { c \<leftarrow> getChild sibling (m_KeyNum sibling);
                    h \<leftarrow> on_node self (internal_insert 0 0 k c) h;
                    s \<leftarrow> getKeyValue sibling (m_KeyNum sibling - 1);
                    h \<leftarrow> on_node parentNode (setKeyValue keyIndex s) h;
                    on_node siblingNode (removeKey (m_KeyNum sibling - 1) (m_KeyNum sibling)) h }
           | RIGHT \<Rightarrow>
               do { c \<leftarrow> getChild sibling 0;
                    h \<leftarrow> on_node self (internal_insert (m_KeyNum n) (m_KeyNum n + 1) k c) h;
                    s \<leftarrow> getKeyValue sibling 0;
                    h \<leftarrow> on_node parentNode (setKeyValue keyIndex s) h;
                    on_node siblingNode (removeKey 0 0) h }) }"

definition leaf_borrowFrom :: "ptr \<Rightarrow> ptr \<Rightarrow> ptr \<Rightarrow> int \<Rightarrow> sibling_direction \<Rightarrow> ('k :: linorder) heap \<Rightarrow> 'k heap option" where
  "leaf_borrowFrom self siblingNode parentNode keyIndex d h =
     do { sibling \<leftarrow> node_at h siblingNode;
          (case d of
             LEFT \<Rightarrow>
               do { k \<leftarrow> getKeyValue sibling (m_KeyNum sibling - 1);
                    v \<leftarrow> getData sibling (m_KeyNum sibling - 1);
                    h \<leftarrow> on_node self (leaf_insert k v) h;
                    h \<leftarrow> on_node siblingNode (removeKey (m_KeyNum sibling - 1) (m_KeyNum sibling - 1)) h;
                    n \<leftarrow> node_at h self;
                    s \<leftarrow> getKeyValue n 0;
                    on_node parentNode (setKeyValue keyIndex s) h }
           | RIGHT \<Rightarrow>
               do { k \<leftarrow> getKeyValue sibling 0;
                    v \<leftarrow> getData sibling 0;
                    h \<leftarrow> on_node self (leaf_insert k v) h;
                    h \<leftarrow> on_node siblingNode (removeKey 0 0) h;
                    sibling \<leftarrow> node_at h siblingNode;
                    s \<leftarrow> getKeyValue sibling 0;
                    on_node parentNode (setKeyValue keyIndex s) h }) }"

definition borrowFrom :: "ptr \<Rightarrow> ptr \<Rightarrow> ptr \<Rightarrow> int \<Rightarrow> sibling_direction \<Rightarrow> ('k :: linorder) heap \<Rightarrow> 'k heap option" where
  "borrowFrom self siblingNode parentNode keyIndex d h =
     do { n \<leftarrow> node_at h self;
          case m_Type n of INTERNAL \<Rightarrow> internal_borrowFrom self siblingNode parentNode keyIndex d h
          | LEAF \<Rightarrow> leaf_borrowFrom self siblingNode parentNode keyIndex d h }"

text \<open>\<open>clear\<close>; a leaf has nothing to free.\<close>

partial_function (option) clear_childs :: "ptr \<Rightarrow> int \<Rightarrow> 'k heap \<Rightarrow> 'k heap option" where
  "clear_childs self i h =
     do { n \<leftarrow> node_at h self;
          case m_Type n of
            LEAF \<Rightarrow> Some h
          | INTERNAL \<Rightarrow>
              if i \<le> m_KeyNum n
              then do { c \<leftarrow> getChild n i;
                        h \<leftarrow> clear_childs c 0 h;
                        h \<leftarrow> delete_node c h;
                        h \<leftarrow> on_node self (setChild i 0) h;
                        clear_childs self (i + 1) h }
              else Some h }"

definition clear_node :: "ptr \<Rightarrow> 'k heap \<Rightarrow> 'k heap option" where
  "clear_node self h = clear_childs self 0 h"

declare key_index_loop.simps [code] and clear_childs.simps [code]

end
