(* ===== verification/BPlus_Tree.thy ===== *)
theory BPlus_Tree
  imports BPlus_Node
begin

text \<open>The operations of \<open>CBPlusTree\<close> in example_bplus_tree.cpp on a heap of nodes.\<close>

record 'k cbtree =
  nodes_h :: "'k heap"
  m_Root :: ptr
  m_DataHead :: ptr
  m_MaxKey :: "'k option"

datatype compare_op = LT | LE | EQ | BE | BT | BETWEEN

definition INVALID_INDEX :: int where "INVALID_INDEX = - 1"

definition new_CBPlusTree :: "'k cbtree" where
  "new_CBPlusTree = \<lparr>nodes_h = [], m_Root = 0, m_DataHead = 0, m_MaxKey = None\<rparr>"

section \<open>Search\<close>

partial_function (option) recursive_search :: "('k :: linorder) heap \<Rightarrow> ptr \<Rightarrow> 'k \<Rightarrow> bool option" where
  "recursive_search h p key =
     (if p = 0 then Some False
      else do { n \<leftarrow> node_at h p;
                keyIndex \<leftarrow> getKeyIndex n key;
                childIndex \<leftarrow> getChildIndex n key keyIndex;
                hit \<leftarrow> (if keyIndex < m_KeyNum n then do { k \<leftarrow> getKeyValue n keyIndex; Some (key = k) } else Some False);
                if hit then Some True
                else if m_Type n = LEAF then Some False
                else do { c \<leftarrow> getChild n childIndex; recursive_search h c key } })"

definition search :: "('k :: linorder) cbtree \<Rightarrow> 'k \<Rightarrow> bool option" where
  "search t key = recursive_search (nodes_h t) (m_Root t) key"

text \<open>The other \<open>recursive_search\<close> finds the leaf and the index in it.\<close>

partial_function (option) search_leaf :: "('k :: linorder) heap \<Rightarrow> ptr \<Rightarrow> 'k \<Rightarrow> (int \<times> ptr) option" where
  "search_leaf h p key =
     do { n \<leftarrow> node_at h p;
          keyIndex \<leftarrow> getKeyIndex n key;
          childIndex \<leftarrow> getChildIndex n key keyIndex;
          if m_Type n = LEAF then Some (keyIndex, p)
          else do { c \<leftarrow> getChild n childIndex; search_leaf h c key } }"

section \<open>Insertion\<close>

partial_function (option) recursive_insert :: "('k :: linorder) heap \<Rightarrow> ptr \<Rightarrow> 'k \<Rightarrow> int \<Rightarrow> 'k heap option" where
  "recursive_insert h p key data =
     do { n \<leftarrow> node_at h p;
          if m_Type n = LEAF then on_node p (leaf_insert key data) h
          else do {
            keyIndex \<leftarrow> getKeyIndex n key;
            childIndex \<leftarrow> getChildIndex n key keyIndex;
            c \<leftarrow> getChild n childIndex;
            child \<leftarrow> node_at h c;
            if m_KeyNum child \<ge> MAXNUM_LEAF
            then do { h \<leftarrow> split_node c p childIndex h;
                      n \<leftarrow> node_at h p;
                      k \<leftarrow> getKeyValue n childIndex;
                      c \<leftarrow> (if k \<le> key then getChild n (childIndex + 1) else Some c);
                      recursive_insert h c key data }
            else recursive_insert h c key data } }"

definition insert :: "('k :: linorder) cbtree \<Rightarrow> 'k \<Rightarrow> int \<Rightarrow> ('k cbtree \<times> bool) option" where
  "insert t key data =
     do { found \<leftarrow> search t key;
          if found then Some (t, False)
          else do {
            let t = (if m_Root t = 0
                     then let (h, p) = new_node (new_CNode LEAF) (nodes_h t)
                          in t\<lparr>nodes_h := h, m_Root := p, m_DataHead := p, m_MaxKey := Some key\<rparr>
                     else t);
            root \<leftarrow> node_at (nodes_h t) (m_Root t);
            t \<leftarrow> (if m_KeyNum root \<ge> MAXNUM_KEY
                  then do { new \<leftarrow> setChild 0 (m_Root t) (new_CNode INTERNAL);
                            let (h, p) = new_node new (nodes_h t);
                            h \<leftarrow> split_node (m_Root t) p 0 h;
                            Some (t\<lparr>nodes_h := h, m_Root := p\<rparr>) }
                  else Some t);
            mx \<leftarrow> m_MaxKey t;
            let t = (if key > mx then t\<lparr>m_MaxKey := Some key\<rparr> else t);
            h \<leftarrow> recursive_insert (nodes_h t) (m_Root t) key data;
            Some (t\<lparr>nodes_h := h\<rparr>, True) } }"

definition clear :: "'k cbtree \<Rightarrow> 'k cbtree option" where
  "clear t =
     (if m_Root t \<noteq> 0
      then do { h \<leftarrow> clear_node (m_Root t) (nodes_h t);
                h \<leftarrow> delete_node (m_Root t) h;
                Some (t\<lparr>nodes_h := h, m_Root := 0, m_DataHead := 0\<rparr>) }
      else Some t)"

section \<open>Removal\<close>

partial_function (option) changeKey :: "('k :: linorder) heap \<Rightarrow> ptr \<Rightarrow> 'k \<Rightarrow> 'k \<Rightarrow> 'k heap option" where
  "changeKey h p oldKey newKey =
     (if p = 0 then Some h
      else do { n \<leftarrow> node_at h p;
                if m_Type n = LEAF then Some h
                else do {
                  keyIndex \<leftarrow> getKeyIndex n oldKey;
                  hit \<leftarrow> (if keyIndex < m_KeyNum n then do { k \<leftarrow> getKeyValue n keyIndex; Some (oldKey = k) } else Some False);
                  if hit then on_node p (setKeyValue keyIndex newKey) h
                  else do { c \<leftarrow> getChild n keyIndex; changeKey h c oldKey newKey } } })"

text \<open>The repair of a child with the least number of keys: the heap and the node to go on with.\<close>

definition refill :: "ptr \<Rightarrow> int \<Rightarrow> ('k :: linorder) heap \<Rightarrow> ('k heap \<times> ptr) option" where
  "refill p childIndex h =
     do { n \<leftarrow> node_at h p;
          c \<leftarrow> getChild n childIndex;
          child \<leftarrow> node_at h c;
          if m_KeyNum child = MINNUM_KEY
          then do {
            pLeft \<leftarrow> (if childIndex > 0 then getChild n (childIndex - 1) else Some 0);
            pRight \<leftarrow> (if childIndex < m_KeyNum n then getChild n (childIndex + 1) else Some 0);
            lk \<leftarrow> (if pLeft \<noteq> 0 then do { l \<leftarrow> node_at h pLeft; Some (m_KeyNum l > MINNUM_KEY) } else Some False);
            if lk then do { h \<leftarrow> borrowFrom c pLeft p (childIndex - 1) LEFT h; Some (h, c) }
            else do {
              rk \<leftarrow> (if pRight \<noteq> 0 then do { r \<leftarrow> node_at h pRight; Some (m_KeyNum r > MINNUM_KEY) } else Some False);
              if rk then do { h \<leftarrow> borrowFrom c pRight p childIndex RIGHT h; Some (h, c) }
              else if pLeft \<noteq> 0 then do { h \<leftarrow> mergeChild pLeft p c (childIndex - 1) h; Some (h, pLeft) }
              else if pRight \<noteq> 0 then do { h \<leftarrow> mergeChild c p pRight childIndex h; Some (h, c) }
              else Some (h, c) } }
          else Some (h, c) }"

partial_function (option) recursive_remove :: "('k :: linorder) cbtree \<Rightarrow> ptr \<Rightarrow> 'k \<Rightarrow> 'k cbtree option" where
  "recursive_remove t p key =
     do { n \<leftarrow> node_at (nodes_h t) p;
          keyIndex \<leftarrow> getKeyIndex n key;
          childIndex \<leftarrow> getChildIndex n key keyIndex;
          if m_Type n = LEAF
          then do {
            mx \<leftarrow> m_MaxKey t;
            t \<leftarrow> (if key = mx \<and> keyIndex > 0
                  then do { k \<leftarrow> getKeyValue n (keyIndex - 1); Some (t\<lparr>m_MaxKey := Some k\<rparr>) } else Some t);
            h \<leftarrow> on_node p (removeKey keyIndex childIndex) (nodes_h t);
            root \<leftarrow> node_at h (m_Root t);
            h \<leftarrow> (if childIndex = 0 \<and> m_Type root \<noteq> LEAF \<and> p \<noteq> m_DataHead t
                  then do { n \<leftarrow> node_at h p; k \<leftarrow> getKeyValue n 0; changeKey h (m_Root t) key k } else Some h);
            Some (t\<lparr>nodes_h := h\<rparr>) }
          else do {
            (h, c) \<leftarrow> refill p childIndex (nodes_h t);
            recursive_remove (t\<lparr>nodes_h := h\<rparr>) c key } }"

text \<open>A root with one key and two minimal children is replaced by their union.\<close>

definition shrink_root :: "('k :: linorder) cbtree \<Rightarrow> 'k cbtree option" where
  "shrink_root t =
     do { root \<leftarrow> node_at (nodes_h t) (m_Root t);
          p1 \<leftarrow> getChild root 0;
          p2 \<leftarrow> getChild root 1;
          c1 \<leftarrow> node_at (nodes_h t) p1;
          c2 \<leftarrow> node_at (nodes_h t) p2;
          if m_KeyNum c1 = MINNUM_KEY \<and> m_KeyNum c2 = MINNUM_KEY
          then do { h \<leftarrow> mergeChild p1 (m_Root t) p2 0 (nodes_h t);
                    h \<leftarrow> delete_node (m_Root t) h;
                    Some (t\<lparr>nodes_h := h, m_Root := p1\<rparr>) }
          else Some t }"

definition remove :: "('k :: linorder) cbtree \<Rightarrow> 'k \<Rightarrow> ('k cbtree \<times> bool) option" where
  "remove t key =
     do { found \<leftarrow> search t key;
          if \<not> found then Some (t, False)
          else do {
            root \<leftarrow> node_at (nodes_h t) (m_Root t);
            if m_KeyNum root = 1 \<and> m_Type root = LEAF
            then do { t \<leftarrow> clear t; Some (t, True) }
            else do {
              t \<leftarrow> (if m_KeyNum root = 1 then shrink_root t else Some t);
              t \<leftarrow> recursive_remove t (m_Root t) key;
              Some (t, True) } } }"

text \<open>The second pair of functions also returns the data of the removed key.\<close>

partial_function (option) recursive_remove_data :: "('k :: linorder) cbtree \<Rightarrow> ptr \<Rightarrow> 'k \<Rightarrow> ('k cbtree \<times> int) option" where
  "recursive_remove_data t p key =
     do { n \<leftarrow> node_at (nodes_h t) p;
          keyIndex \<leftarrow> getKeyIndex n key;
          childIndex \<leftarrow> getChildIndex n key keyIndex;
          if m_Type n = LEAF
          then do {
            mx \<leftarrow> m_MaxKey t;
            t \<leftarrow> (if key = mx \<and> keyIndex > 0
                  then do { k \<leftarrow> getKeyValue n (keyIndex - 1); Some (t\<lparr>m_MaxKey := Some k\<rparr>) } else Some t);
            v \<leftarrow> getData n keyIndex;
            h \<leftarrow> on_node p (removeKey keyIndex childIndex) (nodes_h t);
            root \<leftarrow> node_at h (m_Root t);
            h \<leftarrow> (if childIndex = 0 \<and> m_Type root \<noteq> LEAF \<and> p \<noteq> m_DataHead t
                  then do { n \<leftarrow> node_at h p; k \<leftarrow> getKeyValue n 0; changeKey h (m_Root t) key k } else Some h);
            Some (t\<lparr>nodes_h := h\<rparr>, v) }
          else do {
            (h, c) \<leftarrow> refill p childIndex (nodes_h t);
            recursive_remove_data (t\<lparr>nodes_h := h\<rparr>) c key } }"

definition remove_data :: "('k :: linorder) cbtree \<Rightarrow> 'k \<Rightarrow> ('k cbtree \<times> int) option" where
  "remove_data t key =
     do { found \<leftarrow> search t key;
          if \<not> found then Some (t, INVALID_INDEX)
          else do {
            root \<leftarrow> node_at (nodes_h t) (m_Root t);
            if m_KeyNum root = 1 \<and> m_Type root = LEAF
            then do { v \<leftarrow> getData root 0; t \<leftarrow> clear t; Some (t, v) }
            else do {
              t \<leftarrow> (if m_KeyNum root = 1 then shrink_root t else Some t);
              recursive_remove_data t (m_Root t) key } } }"

definition update :: "('k :: linorder) cbtree \<Rightarrow> 'k \<Rightarrow> 'k \<Rightarrow> ('k cbtree \<times> bool) option" where
  "update t oldKey newKey =
     do { found \<leftarrow> search t newKey;
          if found then Some (t, False)
          else do { (t, dataValue) \<leftarrow> remove_data t oldKey;
                    if dataValue = INVALID_INDEX then Some (t, False) else insert t newKey dataValue } }"

section \<open>Selection\<close>

fun datas_from :: "nat \<Rightarrow> int \<Rightarrow> 'k cnode \<Rightarrow> int list option" where
  "datas_from 0 i n = Some []"
| "datas_from (Suc m) i n = do { d \<leftarrow> getData n i; ds \<leftarrow> datas_from m (i + 1) n; Some (d # ds) }"

text \<open>The data of the leaves from \<open>p\<close> on, up to and not including the leaf \<open>stop\<close> (0: all of them).\<close>

partial_function (option) chain_datas :: "'k heap \<Rightarrow> ptr \<Rightarrow> ptr \<Rightarrow> int list option" where
  "chain_datas h stop p =
     (if p = stop then Some []
      else do { n \<leftarrow> node_at h p;
                ds \<leftarrow> datas_from (nat (m_KeyNum n)) 0 n;
                more \<leftarrow> chain_datas h stop (m_RightSibling n);
                Some (ds @ more) })"

definition select_cmp :: "('k :: linorder) cbtree \<Rightarrow> 'k \<Rightarrow> compare_op \<Rightarrow> int list option" where
  "select_cmp t compareKey op =
     (let h = nodes_h t in
      if m_Root t = 0 then Some []
      else do {
        mx \<leftarrow> m_MaxKey t;
        results \<leftarrow>
          (if compareKey > mx then if op = LE \<or> op = LT then chain_datas h 0 (m_DataHead t) else Some []
           else do {
             first \<leftarrow> node_at h (m_DataHead t);
             k0 \<leftarrow> getKeyValue first 0;
             if compareKey < k0 then if op = BE \<or> op = BT then chain_datas h 0 (m_DataHead t) else Some []
             else do {
               (keyIndex, target) \<leftarrow> search_leaf h (m_Root t) compareKey;
               n \<leftarrow> node_at h target;
               k \<leftarrow> getKeyValue n keyIndex;
               if op = LT \<or> op = LE
               then do { before \<leftarrow> chain_datas h target (m_DataHead t);
                         ds \<leftarrow> datas_from (nat keyIndex) 0 n;
                         d \<leftarrow> (if k < compareKey \<or> (op = LE \<and> compareKey = k)
                              then do { d \<leftarrow> getData n keyIndex; Some [d] } else Some []);
                         Some (before @ ds @ d) }
               else if op = EQ
               then if k = compareKey then do { d \<leftarrow> getData n keyIndex; Some [d] } else Some []
               else if op = BE \<or> op = BT
               then do { d \<leftarrow> (if compareKey < k \<or> (op = BE \<and> compareKey = k)
                              then do { d \<leftarrow> getData n keyIndex; Some [d] } else Some []);
                         ds \<leftarrow> datas_from (nat (m_KeyNum n - (keyIndex + 1))) (keyIndex + 1) n;
                         after \<leftarrow> chain_datas h 0 (m_RightSibling n);
                         Some (d @ ds @ after) }
               else Some [] } });
        Some (sort results) })"

text \<open>The walk of the range query: from index \<open>i\<close> of the leaf \<open>p\<close> to index \<open>last_i\<close> of the leaf \<open>stop\<close>.\<close>

partial_function (option) range_walk :: "'k heap \<Rightarrow> ptr \<Rightarrow> int \<Rightarrow> ptr \<Rightarrow> int \<Rightarrow> int list option" where
  "range_walk h stop last_i p i =
     do { n \<leftarrow> node_at h p;
          if p \<noteq> stop
          then do { ds \<leftarrow> datas_from (nat (m_KeyNum n - i)) i n;
                    more \<leftarrow> range_walk h stop last_i (m_RightSibling n) 0;
                    Some (ds @ more) }
          else datas_from (nat (last_i + 1 - i)) i n }"

definition select_range :: "('k :: linorder) cbtree \<Rightarrow> 'k \<Rightarrow> 'k \<Rightarrow> int list option" where
  "select_range t smallKey largeKey =
     (if smallKey \<le> largeKey
      then do {
        (si, sp) \<leftarrow> search_leaf (nodes_h t) (m_Root t) smallKey;
        (ei, ep) \<leftarrow> search_leaf (nodes_h t) (m_Root t) largeKey;
        sn \<leftarrow> node_at (nodes_h t) sp;
        sk \<leftarrow> getKeyValue sn si;
        en \<leftarrow> node_at (nodes_h t) ep;
        ek \<leftarrow> getKeyValue en ei;
        results \<leftarrow> range_walk (nodes_h t) ep (if ek > largeKey then ei - 1 else ei) sp (if sk < smallKey then si + 1 else si);
        Some (sort results) }
      else Some [])"

text \<open>What \<open>printData\<close> prints.\<close>

definition printData :: "'k cbtree \<Rightarrow> int list option" where
  "printData t = chain_datas (nodes_h t) 0 (m_DataHead t)"

declare recursive_search.simps [code] and search_leaf.simps [code] and recursive_insert.simps [code] and changeKey.simps [code] and recursive_remove.simps [code] and recursive_remove_data.simps [code] and chain_datas.simps [code] and range_walk.simps [code]

end
