(* ===== verification/BPlus_Node_Facts.thy ===== *)
theory BPlus_Node_Facts
  imports BPlus_Node
begin

text \<open>
  What the operations on one node of the B+ tree do to the list of its entries: \<open>leaf_rep\<close> and
  \<open>node_rep\<close> read the used part of the arrays as lists.
\<close>

section \<open>Nodes as lists\<close>

definition leaf_rep :: "'k cnode \<Rightarrow> ('k \<times> int) list \<Rightarrow> bool" where
  "leaf_rep n kvs \<longleftrightarrow> m_Type n = LEAF \<and> m_KeyNum n = int (length kvs) \<and> length kvs \<le> 13
     \<and> length (m_KeyValues n) = 13 \<and> length (m_Datas n) = 13
     \<and> (\<exists>r s. m_KeyValues n = map (Some \<circ> fst) kvs @ r \<and> m_Datas n = map (Some \<circ> snd) kvs @ s)"

definition node_rep :: "'k cnode \<Rightarrow> 'k list \<Rightarrow> ptr list \<Rightarrow> bool" where
  "node_rep n ks cs \<longleftrightarrow> m_Type n = INTERNAL \<and> m_KeyNum n = int (length ks) \<and> length ks \<le> 13
     \<and> length (m_KeyValues n) = 13 \<and> length (m_Childs n) = 14 \<and> length cs = Suc (length ks)
     \<and> (\<exists>r s. m_KeyValues n = map Some ks @ r \<and> m_Childs n = map Some cs @ s)"

lemma rdi_append: "i = int (length a) \<Longrightarrow> rdi (a @ x # r) i = Some x"
  by (simp add: rdi_def rd_def)

lemma wri_append: "i = int (length a) \<Longrightarrow> wri (a @ x # r) i y = Some (a @ y # r)"
  by (simp add: wri_def wr_def)

lemma key_at [simp]: "m_KeyValues n = a @ x # r \<Longrightarrow> i = int (length a) \<Longrightarrow> getKeyValue n i = x"
  by (simp add: getKeyValue_def rdi_append)

lemma data_at [simp]: "m_Datas n = a @ x # r \<Longrightarrow> i = int (length a) \<Longrightarrow> getData n i = x"
  by (simp add: getData_def rdi_append)

lemma child_at [simp]: "m_Childs n = a @ x # r \<Longrightarrow> i = int (length a) \<Longrightarrow> getChild n i = x"
  by (simp add: getChild_def rdi_append)

lemma set_key [simp]:
  "m_KeyValues n = a @ x # r \<Longrightarrow> i = int (length a) \<Longrightarrow> setKeyValue i k n = Some (n\<lparr>m_KeyValues := a @ Some k # r\<rparr>)"
  by (simp add: setKeyValue_def wri_append)

lemma set_data [simp]:
  "m_Datas n = a @ x # r \<Longrightarrow> i = int (length a) \<Longrightarrow> setData i k n = Some (n\<lparr>m_Datas := a @ Some k # r\<rparr>)"
  by (simp add: setData_def wri_append)

lemma set_child [simp]:
  "m_Childs n = a @ x # r \<Longrightarrow> i = int (length a) \<Longrightarrow> setChild i k n = Some (n\<lparr>m_Childs := a @ Some k # r\<rparr>)"
  by (simp add: setChild_def wri_append)

lemma leaf_rep_key: "leaf_rep n kvs \<Longrightarrow> 0 \<le> i \<Longrightarrow> i < int (length kvs) \<Longrightarrow> getKeyValue n i = Some (fst (kvs ! nat i))"
  by (auto simp: leaf_rep_def getKeyValue_def rdi_def rd_def nth_append nat_less_iff)

lemma leaf_rep_data: "leaf_rep n kvs \<Longrightarrow> 0 \<le> i \<Longrightarrow> i < int (length kvs) \<Longrightarrow> getData n i = Some (snd (kvs ! nat i))"
  by (auto simp: leaf_rep_def getData_def rdi_def rd_def nth_append nat_less_iff)

lemma node_rep_key: "node_rep n ks cs \<Longrightarrow> 0 \<le> i \<Longrightarrow> i < int (length ks) \<Longrightarrow> getKeyValue n i = Some (ks ! nat i)"
  by (auto simp: node_rep_def getKeyValue_def rdi_def rd_def nth_append nat_less_iff)

lemma node_rep_child: "node_rep n ks cs \<Longrightarrow> 0 \<le> i \<Longrightarrow> i \<le> int (length ks) \<Longrightarrow> getChild n i = Some (cs ! nat i)"
  by (auto simp: node_rep_def getChild_def rdi_def rd_def nth_append nat_less_iff)

section \<open>The binary search\<close>

text \<open>On a sorted node it stops at the first key that is not less, but never beyond the last key.\<close>

definition first_ge :: "('k :: linorder) list \<Rightarrow> 'k \<Rightarrow> nat" where
  "first_ge ks key = min (length (takeWhile (\<lambda>k. k < key) ks)) (length ks - 1)"

lemma key_index_loop_spec:
  assumes "\<And>i. 0 \<le> i \<Longrightarrow> i < int (length ks) \<Longrightarrow> getKeyValue n i = Some (ks ! nat i)"
  shows "0 \<le> l \<Longrightarrow> l \<le> r \<Longrightarrow> r < int (length ks) \<Longrightarrow>
    \<exists>i. key_index_loop n key l r = Some i \<and> l \<le> i \<and> i \<le> r
      \<and> (sorted ks \<longrightarrow> (\<forall>j. l \<le> j \<longrightarrow> j < i \<longrightarrow> ks ! nat j < key) \<and> (\<forall>j. i \<le> j \<longrightarrow> j < r \<longrightarrow> key \<le> ks ! nat j))"
proof (induction "nat (r - l)" arbitrary: l r rule: less_induct)
  case less
  show ?case
  proof (cases "l = r")
    case True
    then show ?thesis by (subst key_index_loop.simps) auto
  next
    case False
    let ?c = "(l + r) div 2"
    have c: "l \<le> ?c" "?c < r" using False less.prems by linarith+
    then have k: "getKeyValue n ?c = Some (ks ! nat ?c)" using assms less.prems by simp
    have cd: "cdiv (l + r) 2 = ?c" using less.prems by simp
    show ?thesis
    proof (cases "key > ks ! nat ?c")
      case True
      have "nat (r - (?c + 1)) < nat (r - l)" "0 \<le> ?c + 1" "?c + 1 \<le> r" using c less.prems by linarith+
      from less.hyps [OF this less.prems(3)]
      obtain i where i: "key_index_loop n key (?c + 1) r = Some i" "?c + 1 \<le> i" "i \<le> r"
        "sorted ks \<longrightarrow> (\<forall>j. ?c + 1 \<le> j \<longrightarrow> j < i \<longrightarrow> ks ! nat j < key) \<and> (\<forall>j. i \<le> j \<longrightarrow> j < r \<longrightarrow> key \<le> ks ! nat j)"
        by blast
      have lo: "ks ! nat j < key" if "sorted ks" "l \<le> j" "j < i" for j
      proof (cases "j \<le> ?c")
        case le: True
        have "ks ! nat j \<le> ks ! nat ?c" using that le less.prems c by (intro sorted_nth_mono) auto
        then show ?thesis using True by simp
      next
        case False
        then show ?thesis using i(4) that by simp
      qed
      have "key_index_loop n key l r = key_index_loop n key (?c + 1) r"
        using False True k cd by (subst key_index_loop.simps) (simp add: Let_def)
      then show ?thesis using i lo c by (intro exI [of _ i]) auto
    next
      case lt: False
      have "nat (?c - l) < nat (r - l)" "?c < int (length ks)" using c less.prems by linarith+
      from less.hyps [OF this(1) less.prems(1) c(1) this(2)]
      obtain i where i: "key_index_loop n key l ?c = Some i" "l \<le> i" "i \<le> ?c"
        "sorted ks \<longrightarrow> (\<forall>j. l \<le> j \<longrightarrow> j < i \<longrightarrow> ks ! nat j < key) \<and> (\<forall>j. i \<le> j \<longrightarrow> j < ?c \<longrightarrow> key \<le> ks ! nat j)"
        by blast
      have hi: "key \<le> ks ! nat j" if "sorted ks" "i \<le> j" "j < r" for j
      proof (cases "?c \<le> j")
        case le: True
        have "ks ! nat ?c \<le> ks ! nat j" using that le less.prems c by (intro sorted_nth_mono) auto
        then show ?thesis using lt by simp
      next
        case False
        then show ?thesis using i(4) that by simp
      qed
      have "key_index_loop n key l r = key_index_loop n key l ?c"
        using False lt k cd by (subst key_index_loop.simps) (simp add: Let_def)
      then show ?thesis using i hi c by (intro exI [of _ i]) auto
    qed
  qed
qed

lemma le_takeWhileI:
  assumes "i \<le> length ks" "\<And>j. j < i \<Longrightarrow> P (ks ! j)"
  shows "i \<le> length (takeWhile P ks)"
proof (rule ccontr)
  assume "\<not> i \<le> length (takeWhile P ks)"
  then have "length (takeWhile P ks) < i" by simp
  then show False using nth_length_takeWhile [of P ks] assms by simp
qed

lemma takeWhile_le:
  assumes "i < length ks" "\<not> P (ks ! i)"
  shows "length (takeWhile P ks) \<le> i"
proof (rule ccontr)
  assume "\<not> length (takeWhile P ks) \<le> i"
  then have "i < length (takeWhile P ks)" by simp
  then show False using assms takeWhile_nth [of i P ks] nth_mem [of i "takeWhile P ks"] set_takeWhileD by fastforce
qed

lemma getKeyIndex_spec:
  assumes "\<And>i. 0 \<le> i \<Longrightarrow> i < int (length ks) \<Longrightarrow> getKeyValue n i = Some (ks ! nat i)"
    and "m_KeyNum n = int (length ks)" "ks \<noteq> []"
  shows "\<exists>i. getKeyIndex n key = Some (int i) \<and> i < length ks \<and> (sorted ks \<longrightarrow> i = first_ge ks key)"
proof -
  have len: "0 < length ks" using assms(3) by simp
  then have "0 \<le> m_KeyNum n - 1" "m_KeyNum n - 1 < int (length ks)" using assms(2) by auto
  from key_index_loop_spec [OF assms(1) order_refl this, of key]
  obtain i where i: "getKeyIndex n key = Some i" "0 \<le> i" "i \<le> m_KeyNum n - 1"
    "sorted ks \<longrightarrow> (\<forall>j. 0 \<le> j \<longrightarrow> j < i \<longrightarrow> ks ! nat j < key) \<and> (\<forall>j. i \<le> j \<longrightarrow> j < m_KeyNum n - 1 \<longrightarrow> key \<le> ks ! nat j)"
    unfolding getKeyIndex_def by blast
  have "nat i = first_ge ks key" if s: "sorted ks"
  proof -
    have lo: "ks ! j < key" if "j < nat i" for j using i(4) s that by (auto dest!: spec [of _ "int j"])
    show ?thesis
  proof (cases "nat i = length ks - 1")
    case False
    then have l: "nat i < length ks - 1" using i(3) assms(2) by linarith
    have "\<not> ks ! nat i < key" using i(2-4) s l assms(2) by (auto dest!: spec [of _ i])
    then have "length (takeWhile (\<lambda>k. k < key) ks) \<le> nat i" using l by (intro takeWhile_le) auto
    moreover have "nat i \<le> length (takeWhile (\<lambda>k. k < key) ks)" using lo l by (intro le_takeWhileI) auto
    ultimately show ?thesis using l by (simp add: first_ge_def)
  next
    case True
    then have "nat i \<le> length (takeWhile (\<lambda>k. k < key) ks)" using lo by (intro le_takeWhileI) auto
    then show ?thesis using True by (simp add: first_ge_def)
  qed
  qed
  then show ?thesis using i len assms(2) by (intro exI [of _ "nat i"]) auto
qed

section \<open>Insertion into a leaf\<close>

lemma leaf_shift_spec:
  "length kvs = i \<Longrightarrow> m_KeyValues n = map (Some \<circ> fst) kvs @ x # r \<Longrightarrow> m_Datas n = map (Some \<circ> snd) kvs @ y # s \<Longrightarrow>
   \<exists>a b x' y'. kvs = a @ b \<and> (\<forall>p \<in> set b. key < fst p) \<and> (a \<noteq> [] \<longrightarrow> fst (last a) \<le> key)
     \<and> leaf_shift key i n = Some (n\<lparr>m_KeyValues := map (Some \<circ> fst) a @ x' # map (Some \<circ> fst) b @ r,
         m_Datas := map (Some \<circ> snd) a @ y' # map (Some \<circ> snd) b @ s\<rparr>, length a)"
proof (induction i arbitrary: kvs n x y r s)
  case 0
  then show ?case by (intro exI [of _ "[]"] exI [of _ "[]"] exI [of _ x] exI [of _ y]) simp
next
  case (Suc i)
  then obtain us p where kvs: "kvs = us @ [p]" "length us = i" by (cases kvs rule: rev_cases) auto
  have kv: "m_KeyValues n = map (Some \<circ> fst) us @ Some (fst p) # x # r"
    "m_KeyValues n = (map (Some \<circ> fst) us @ [Some (fst p)]) @ x # r"
    and dv: "m_Datas n = map (Some \<circ> snd) us @ Some (snd p) # y # s"
    "m_Datas n = (map (Some \<circ> snd) us @ [Some (snd p)]) @ y # s"
    using Suc.prems kvs by auto
  show ?case
  proof (cases "key < fst p")
    case True
    let ?n = "n\<lparr>m_KeyValues := map (Some \<circ> fst) us @ Some (fst p) # Some (fst p) # r,
        m_Datas := map (Some \<circ> snd) us @ Some (snd p) # Some (snd p) # s\<rparr>"
    let ?n1 = "n\<lparr>m_KeyValues := map (Some \<circ> fst) us @ Some (fst p) # Some (fst p) # r\<rparr>"
    have "getKeyValue n (int i) = Some (fst p)" using kvs(2) by (intro key_at [OF kv(1)]) simp
    moreover have "setKeyValue (int (Suc i)) (fst p) n = Some ?n1"
      using kvs(2) set_key [OF kv(2), of "int (Suc i)" "fst p"] by simp
    moreover have "getData ?n1 (int i) = Some (snd p)" using kvs(2) dv(1) by (intro data_at) auto
    moreover have "setData (int (Suc i)) (snd p) ?n1 = Some ?n"
      using kvs(2) dv(2) set_data [of ?n1 "map (Some \<circ> snd) us @ [Some (snd p)]" y s "int (Suc i)" "snd p"] by simp
    ultimately have step: "leaf_shift key (Suc i) n = leaf_shift key i ?n" using True by simp
    have e: "m_KeyValues ?n = map (Some \<circ> fst) us @ Some (fst p) # Some (fst p) # r"
      "m_Datas ?n = map (Some \<circ> snd) us @ Some (snd p) # Some (snd p) # s" by simp_all
    obtain a b x' y' where ab: "us = a @ b" "\<forall>p \<in> set b. key < fst p" "a \<noteq> [] \<longrightarrow> fst (last a) \<le> key"
      "leaf_shift key i ?n = Some (?n\<lparr>m_KeyValues := map (Some \<circ> fst) a @ x' # map (Some \<circ> fst) b @ Some (fst p) # r,
         m_Datas := map (Some \<circ> snd) a @ y' # map (Some \<circ> snd) b @ Some (snd p) # s\<rparr>, length a)"
      using Suc.IH [OF kvs(2) e] by blast
    then show ?thesis using step True kvs(1)
      by (intro exI [of _ a] exI [of _ "b @ [p]"] exI [of _ x'] exI [of _ y']) auto
  next
    case False
    have "leaf_shift key (Suc i) n = Some (n, Suc i)"
      using False kvs(2) key_at [OF kv(1), of "int i"] by simp
    moreover have "n\<lparr>m_KeyValues := map (Some \<circ> fst) kvs @ x # map (Some \<circ> fst) [] @ r,
        m_Datas := map (Some \<circ> snd) kvs @ y # map (Some \<circ> snd) [] @ s\<rparr> = n"
      using Suc.prems(2,3) by simp
    ultimately have "leaf_shift key (Suc i) n = Some (n\<lparr>m_KeyValues := map (Some \<circ> fst) kvs @ x # map (Some \<circ> fst) [] @ r,
        m_Datas := map (Some \<circ> snd) kvs @ y # map (Some \<circ> snd) [] @ s\<rparr>, length kvs)"
      using Suc.prems(1) by metis
    moreover have "kvs \<noteq> [] \<longrightarrow> fst (last kvs) \<le> key" using False kvs(1) by (simp add: not_less)
    ultimately show ?thesis by (metis append_Nil2 empty_iff list.set(1))
  qed
qed

text \<open>The new entry goes before the longest tail of greater keys.\<close>

lemma leaf_insert_spec:
  assumes "leaf_rep n kvs" "length kvs < 13"
  shows "\<exists>a b n'. kvs = a @ b \<and> (\<forall>p \<in> set b. key < fst p) \<and> (a \<noteq> [] \<longrightarrow> fst (last a) \<le> key)
    \<and> leaf_insert key d n = Some n' \<and> leaf_rep n' (a @ (key, d) # b)
    \<and> m_LeftSibling n' = m_LeftSibling n \<and> m_RightSibling n' = m_RightSibling n"
proof -
  obtain r s where r: "m_KeyValues n = map (Some \<circ> fst) kvs @ r" "m_Datas n = map (Some \<circ> snd) kvs @ s"
    and l: "m_Type n = LEAF" "m_KeyNum n = int (length kvs)" "length (m_KeyValues n) = 13" "length (m_Datas n) = 13"
    using assms(1) by (auto simp: leaf_rep_def)
  have "length r = 13 - length kvs" "length s = 13 - length kvs" using r l(3,4) by auto
  then obtain x r' y s' where rs: "r = x # r'" "s = y # s'" using assms(2) by (cases r; cases s) auto
  obtain a b x' y' where ab: "kvs = a @ b" "\<forall>p \<in> set b. key < fst p" "a \<noteq> [] \<longrightarrow> fst (last a) \<le> key"
    "leaf_shift key (length kvs) n = Some (n\<lparr>m_KeyValues := map (Some \<circ> fst) a @ x' # map (Some \<circ> fst) b @ r',
         m_Datas := map (Some \<circ> snd) a @ y' # map (Some \<circ> snd) b @ s'\<rparr>, length a)"
    using leaf_shift_spec [OF refl r [unfolded rs], of key] by blast
  let ?n = "n\<lparr>m_KeyValues := map (Some \<circ> fst) a @ Some key # map (Some \<circ> fst) b @ r',
         m_Datas := map (Some \<circ> snd) a @ Some d # map (Some \<circ> snd) b @ s', m_KeyNum := m_KeyNum n + 1\<rparr>"
  have "leaf_insert key d n = Some ?n"
    using ab(4) l(2) by (simp add: leaf_insert_def)
  moreover have "leaf_rep ?n (a @ (key, d) # b)"
    using l r rs ab(1) assms(2) by (simp add: leaf_rep_def)
  ultimately show ?thesis using ab(1-3) by (intro exI [of _ a] exI [of _ b] exI [of _ ?n]) simp
qed

section \<open>Removal from a leaf\<close>

lemma leaf_remove_loop_spec:
  "length kvs = m \<Longrightarrow> m_KeyValues n = ka @ x # map (Some \<circ> fst) kvs @ r \<Longrightarrow> m_Datas n = da @ y # map (Some \<circ> snd) kvs @ s \<Longrightarrow>
   length ka = length da \<Longrightarrow> i = int (length ka) \<Longrightarrow>
   \<exists>x' y'. leaf_remove_loop m i n = Some (n\<lparr>m_KeyValues := ka @ map (Some \<circ> fst) kvs @ x' # r,
       m_Datas := da @ map (Some \<circ> snd) kvs @ y' # s\<rparr>)"
proof (induction m arbitrary: kvs n ka da x y i)
  case 0
  then have "n\<lparr>m_KeyValues := ka @ map (Some \<circ> fst) kvs @ x # r, m_Datas := da @ map (Some \<circ> snd) kvs @ y # s\<rparr> = n" by simp
  then show ?case using 0 by (intro exI [of _ x] exI [of _ y]) simp
next
  case (Suc m)
  then obtain p us where kvs: "kvs = p # us" "length us = m" by (cases kvs) auto
  have kv: "m_KeyValues n = (ka @ [x]) @ Some (fst p) # map (Some \<circ> fst) us @ r"
    "m_KeyValues n = ka @ x # Some (fst p) # map (Some \<circ> fst) us @ r"
    and dv: "m_Datas n = (da @ [y]) @ Some (snd p) # map (Some \<circ> snd) us @ s"
    "m_Datas n = da @ y # Some (snd p) # map (Some \<circ> snd) us @ s"
    using Suc.prems(2,3) kvs by auto
  let ?n = "n\<lparr>m_KeyValues := (ka @ [Some (fst p)]) @ Some (fst p) # map (Some \<circ> fst) us @ r,
      m_Datas := (da @ [Some (snd p)]) @ Some (snd p) # map (Some \<circ> snd) us @ s\<rparr>"
  let ?n1 = "n\<lparr>m_KeyValues := ka @ Some (fst p) # Some (fst p) # map (Some \<circ> fst) us @ r\<rparr>"
  have "getKeyValue n (i + 1) = Some (fst p)" using Suc.prems(5) by (intro key_at [OF kv(1)]) simp
  moreover have "setKeyValue i (fst p) n = Some ?n1"
    using Suc.prems(5) by (intro set_key [OF kv(2)]) simp
  moreover have "getData ?n1 (i + 1) = Some (snd p)"
    using Suc.prems(4,5) dv(1) by (intro data_at [of _ "da @ [y]"]) auto
  moreover have "setData i (snd p) ?n1 = Some ?n"
    using Suc.prems(4,5) dv(2) set_data [of ?n1 da y _ i "snd p"] by simp
  ultimately have step: "leaf_remove_loop (Suc m) i n = leaf_remove_loop m (i + 1) ?n" by simp
  have e: "m_KeyValues ?n = (ka @ [Some (fst p)]) @ Some (fst p) # map (Some \<circ> fst) us @ r"
    "m_Datas ?n = (da @ [Some (snd p)]) @ Some (snd p) # map (Some \<circ> snd) us @ s"
    "length (ka @ [Some (fst p)]) = length (da @ [Some (snd p)])" "i + 1 = int (length (ka @ [Some (fst p)]))"
    using Suc.prems(4,5) by simp_all
  obtain x' y' where "leaf_remove_loop m (i + 1) ?n = Some (?n\<lparr>m_KeyValues := (ka @ [Some (fst p)]) @ map (Some \<circ> fst) us @ x' # r,
       m_Datas := (da @ [Some (snd p)]) @ map (Some \<circ> snd) us @ y' # s\<rparr>)"
    using Suc.IH [OF kvs(2) e] by blast
  then show ?case using step kvs(1) by (intro exI [of _ x'] exI [of _ y']) (simp add: comp_def)
qed

lemma leaf_removeKey_spec:
  assumes "leaf_rep n (a @ p # b)" "i = int (length a)"
  shows "\<exists>n'. leaf_removeKey i ci n = Some n' \<and> leaf_rep n' (a @ b)
    \<and> m_LeftSibling n' = m_LeftSibling n \<and> m_RightSibling n' = m_RightSibling n"
proof -
  obtain r s where r: "m_KeyValues n = map (Some \<circ> fst) a @ Some (fst p) # map (Some \<circ> fst) b @ r"
    "m_Datas n = map (Some \<circ> snd) a @ Some (snd p) # map (Some \<circ> snd) b @ s"
    and l: "m_Type n = LEAF" "m_KeyNum n = int (Suc (length a + length b))" "length (m_KeyValues n) = 13" "length (m_Datas n) = 13"
      "Suc (length a + length b) \<le> 13"
    using assms(1) by (auto simp: leaf_rep_def)
  obtain x' y' where w: "leaf_remove_loop (length b) i n = Some (n\<lparr>m_KeyValues := map (Some \<circ> fst) a @ map (Some \<circ> fst) b @ x' # r,
       m_Datas := map (Some \<circ> snd) a @ map (Some \<circ> snd) b @ y' # s\<rparr>)"
    using leaf_remove_loop_spec [OF refl r] assms(2) by auto
  have "nat (m_KeyNum n - 1 - i) = length b" using l(2) assms(2) by simp
  then have "leaf_removeKey i ci n = Some (n\<lparr>m_KeyValues := map (Some \<circ> fst) a @ map (Some \<circ> fst) b @ x' # r,
       m_Datas := map (Some \<circ> snd) a @ map (Some \<circ> snd) b @ y' # s, m_KeyNum := m_KeyNum n - 1\<rparr>)"
    using w by (simp add: leaf_removeKey_def)
  moreover have "leaf_rep (n\<lparr>m_KeyValues := map (Some \<circ> fst) a @ map (Some \<circ> fst) b @ x' # r,
       m_Datas := map (Some \<circ> snd) a @ map (Some \<circ> snd) b @ y' # s, m_KeyNum := m_KeyNum n - 1\<rparr>) (a @ b)"
    using l r by (simp add: leaf_rep_def)
  ultimately show ?thesis by auto
qed

section \<open>Internal nodes\<close>

lemma internal_shift_spec:
  "length ks = m \<Longrightarrow> length cs = m \<Longrightarrow> i = int (length ka + m) \<Longrightarrow> length ca = Suc (length ka) \<Longrightarrow>
   m_KeyValues n = ka @ map Some ks @ x # r \<Longrightarrow> m_Childs n = ca @ map Some cs @ y # s \<Longrightarrow>
   \<exists>x' y'. internal_shift (int (length ka)) i n = Some (n\<lparr>m_KeyValues := ka @ x' # map Some ks @ r,
       m_Childs := ca @ y' # map Some cs @ s\<rparr>, int (length ka))"
proof (induction m arbitrary: ks cs n x r y s i)
  case 0
  then have "n\<lparr>m_KeyValues := ka @ x # map Some ks @ r, m_Childs := ca @ y # map Some cs @ s\<rparr> = n" by simp
  then show ?case using 0 by (intro exI [of _ x] exI [of _ y]) (simp add: internal_shift.simps)
next
  case (Suc m)
  obtain us k where ks: "ks = us @ [k]" "length us = m" using Suc.prems(1) by (cases ks rule: rev_cases) auto
  obtain ds c where cs: "cs = ds @ [c]" "length ds = m" using Suc.prems(2) by (cases cs rule: rev_cases) auto
  let ?n1 = "n\<lparr>m_Childs := ca @ map Some ds @ Some c # Some c # s\<rparr>"
  let ?n2 = "n\<lparr>m_KeyValues := ka @ map Some us @ Some k # Some k # r, m_Childs := ca @ map Some ds @ Some c # Some c # s\<rparr>"
  have "getChild n i = Some c"
    using Suc.prems(3,4,6) cs by (intro child_at [of _ "ca @ map Some ds"]) auto
  moreover have "setChild (i + 1) c n = Some ?n1"
    using set_child [of n "ca @ map Some ds @ [Some c]" y s "i + 1" c] Suc.prems(3,4,6) cs by simp
  moreover have "getKeyValue ?n1 (i - 1) = Some k"
    using Suc.prems(3,5) ks by (intro key_at [of _ "ka @ map Some us"]) auto
  moreover have "setKeyValue i k ?n1 = Some ?n2"
    using set_key [of ?n1 "ka @ map Some us @ [Some k]" x r i k] Suc.prems(3,5) ks by simp
  moreover have "int (length ka) < i" using Suc.prems(3) by simp
  ultimately have step: "internal_shift (int (length ka)) i n = internal_shift (int (length ka)) (i - 1) ?n2"
    by (subst internal_shift.simps) simp
  have e: "i - 1 = int (length ka + m)" "m_KeyValues ?n2 = ka @ map Some us @ Some k # Some k # r"
    "m_Childs ?n2 = ca @ map Some ds @ Some c # Some c # s" using Suc.prems(3) by simp_all
  obtain x' y' where "internal_shift (int (length ka)) (i - 1) ?n2 = Some (?n2\<lparr>m_KeyValues := ka @ x' # map Some us @ Some k # r,
       m_Childs := ca @ y' # map Some ds @ Some c # s\<rparr>, int (length ka))"
    using Suc.IH [OF ks(2) cs(2) e(1) Suc.prems(4) e(2,3)] by blast
  then show ?case using step ks cs by (intro exI [of _ x'] exI [of _ y']) simp
qed

text \<open>Inserting a key before index \<open>i\<close> and a child after or before the child there.\<close>

lemma internal_insert_spec:
  assumes "node_rep n (k1 @ k2) (c1 @ c # c2)" "length k1 + length k2 < 13" "length c1 = length k1"
  shows "\<exists>n'. internal_insert (int (length k1)) (int (length k1) + 1) k p n = Some n' \<and> node_rep n' (k1 @ k # k2) (c1 @ c # p # c2)"
    "\<exists>n'. internal_insert (int (length k1)) (int (length k1)) k p n = Some n' \<and> node_rep n' (k1 @ k # k2) (c1 @ p # c # c2)"
proof -
  obtain r s where r: "m_KeyValues n = map Some k1 @ map Some k2 @ r" "m_Childs n = (map Some c1 @ [Some c]) @ map Some c2 @ s"
    and l: "m_Type n = INTERNAL" "m_KeyNum n = int (length k1 + length k2)" "length (m_KeyValues n) = 13" "length (m_Childs n) = 14"
      "length c2 = length k2"
    using assms(1,3) by (auto simp: node_rep_def)
  have "length r = 13 - (length k1 + length k2)" "length s = 13 - (length k1 + length k2)" using r l assms(3) by auto
  then obtain x r' y s' where rs: "r = x # r'" "s = y # s'" using assms(2) by (cases r; cases s) auto
  have e: "length k2 = length k2" "length c2 = length k2" "m_KeyNum n = int (length (map Some k1 :: 'a option list) + length k2)"
    "length (map Some c1 @ [Some c]) = Suc (length (map Some k1 :: 'a option list))"
    using l(2,5) assms(3) by simp_all
  obtain x' y' where sh: "internal_shift (int (length k1)) (m_KeyNum n) n = Some (n\<lparr>m_KeyValues := map Some k1 @ x' # map Some k2 @ r',
       m_Childs := (map Some c1 @ [Some c]) @ y' # map Some c2 @ s'\<rparr>, int (length k1))"
    using internal_shift_spec [OF e r [unfolded rs]] by auto
  let ?n = "n\<lparr>m_KeyValues := map Some k1 @ x' # map Some k2 @ r', m_Childs := (map Some c1 @ [Some c]) @ y' # map Some c2 @ s'\<rparr>"
  let ?f = "\<lambda>q. n\<lparr>m_KeyValues := map Some k1 @ Some k # map Some k2 @ r', m_Childs := map Some c1 @ q @ map Some c2 @ s', m_KeyNum := m_KeyNum n + 1\<rparr>"
  have "setChild (int (length k1) + 1) p ?n = Some (?n\<lparr>m_Childs := (map Some c1 @ [Some c]) @ Some p # map Some c2 @ s'\<rparr>)"
    using assms(3) by (intro set_child) auto
  then have "internal_insert (int (length k1)) (int (length k1) + 1) k p n = Some (?f [Some c, Some p])"
    using sh by (simp add: internal_insert_def)
  moreover have "node_rep (?f [Some c, Some p]) (k1 @ k # k2) (c1 @ c # p # c2)"
    using l r rs assms(2,3) by (simp add: node_rep_def)
  ultimately show "\<exists>n'. internal_insert (int (length k1)) (int (length k1) + 1) k p n = Some n' \<and> node_rep n' (k1 @ k # k2) (c1 @ c # p # c2)"
    by blast
  have "getChild ?n (int (length k1)) = Some c"
    using assms(3) by (intro child_at [of _ "map Some c1"]) auto
  moreover have "setChild (int (length k1) + 1) c ?n = Some (?n\<lparr>m_Childs := (map Some c1 @ [Some c]) @ Some c # map Some c2 @ s'\<rparr>)"
    using assms(3) by (intro set_child) auto
  moreover have "setChild (int (length k1)) p (?n\<lparr>m_Childs := (map Some c1 @ [Some c]) @ Some c # map Some c2 @ s'\<rparr>)
      = Some (?n\<lparr>m_Childs := map Some c1 @ Some p # Some c # map Some c2 @ s'\<rparr>)"
    using set_child [of "?n\<lparr>m_Childs := (map Some c1 @ [Some c]) @ Some c # map Some c2 @ s'\<rparr>" "map Some c1" "Some c"
        "Some c # map Some c2 @ s'" "int (length k1)" p] assms(3) by simp
  ultimately have "internal_insert (int (length k1)) (int (length k1)) k p n = Some (?f [Some p, Some c])"
    using sh by (simp add: internal_insert_def)
  moreover have "node_rep (?f [Some p, Some c]) (k1 @ k # k2) (c1 @ p # c # c2)"
    using l r rs assms(2,3) by (simp add: node_rep_def)
  ultimately show "\<exists>n'. internal_insert (int (length k1)) (int (length k1)) k p n = Some n' \<and> node_rep n' (k1 @ k # k2) (c1 @ p # c # c2)"
    by blast
qed

lemma internal_remove_loop_spec:
  "length ks = m \<Longrightarrow> length cs = m \<Longrightarrow> m_KeyValues n = ka @ x # map Some ks @ r \<Longrightarrow> m_Childs n = ca @ y # map Some cs @ s \<Longrightarrow>
   ki = int (length ka) \<Longrightarrow> ci = int (length ca) \<Longrightarrow>
   \<exists>x'. internal_remove_loop m ki ci n = Some (n\<lparr>m_KeyValues := ka @ map Some ks @ x' # r,
       m_Childs := ca @ map Some cs @ last (y # map Some cs) # s\<rparr>)"
proof (induction m arbitrary: ks cs n ka ca x y ki ci)
  case 0
  then have "n\<lparr>m_KeyValues := ka @ map Some ks @ x # r, m_Childs := ca @ map Some cs @ y # s\<rparr> = n" by simp
  then show ?case using 0 by (intro exI [of _ x]) simp
next
  case (Suc m)
  obtain k us where ks: "ks = k # us" "length us = m" using Suc.prems(1) by (cases ks) auto
  obtain c ds where cs: "cs = c # ds" "length ds = m" using Suc.prems(2) by (cases cs) auto
  let ?n1 = "n\<lparr>m_KeyValues := ka @ Some k # Some k # map Some us @ r\<rparr>"
  let ?n2 = "n\<lparr>m_KeyValues := (ka @ [Some k]) @ Some k # map Some us @ r, m_Childs := (ca @ [Some c]) @ Some c # map Some ds @ s\<rparr>"
  have "getKeyValue n (ki + 1) = Some k"
    using Suc.prems(3,5) ks by (intro key_at [of _ "ka @ [x]"]) auto
  moreover have "setKeyValue ki k n = Some ?n1"
    using set_key [of n ka x _ ki k] Suc.prems(3,5) ks by simp
  moreover have "getChild ?n1 (ci + 1) = Some c"
    using Suc.prems(4,6) cs by (intro child_at [of _ "ca @ [y]"]) auto
  moreover have "setChild ci c ?n1 = Some ?n2"
    using set_child [of ?n1 ca y _ ci c] Suc.prems(4,6) cs by simp
  ultimately have step: "internal_remove_loop (Suc m) ki ci n = internal_remove_loop m (ki + 1) (ci + 1) ?n2" by simp
  have e: "m_KeyValues ?n2 = (ka @ [Some k]) @ Some k # map Some us @ r" "m_Childs ?n2 = (ca @ [Some c]) @ Some c # map Some ds @ s"
    "ki + 1 = int (length (ka @ [Some k]))" "ci + 1 = int (length (ca @ [Some c]))"
    using Suc.prems(5,6) by simp_all
  obtain x' where "internal_remove_loop m (ki + 1) (ci + 1) ?n2 = Some (?n2\<lparr>m_KeyValues := (ka @ [Some k]) @ map Some us @ x' # r,
       m_Childs := (ca @ [Some c]) @ map Some ds @ last (Some c # map Some ds) # s\<rparr>)"
    using Suc.IH [OF ks(2) cs(2) e] by blast
  then show ?case using step ks cs by (intro exI [of _ x']) simp
qed

text \<open>Removing the key at an index together with the child behind it takes out exactly these two.\<close>

lemma internal_removeKey_spec:
  assumes "node_rep n (k1 @ k # k2) (c1 @ c # c2)" "length c1 = Suc (length k1)"
  shows "\<exists>n'. internal_removeKey (int (length k1)) (int (length k1) + 1) n = Some n' \<and> node_rep n' (k1 @ k2) (c1 @ c2)"
proof -
  obtain r s where r: "m_KeyValues n = map Some k1 @ Some k # map Some k2 @ r" "m_Childs n = map Some c1 @ Some c # map Some c2 @ s"
    and l: "m_Type n = INTERNAL" "m_KeyNum n = int (Suc (length k1 + length k2))" "length (m_KeyValues n) = 13" "length (m_Childs n) = 14"
      "length c2 = length k2"
    using assms by (auto simp: node_rep_def)
  have e: "length k2 = length k2" "int (length k1) = int (length (map Some k1 :: 'a option list))"
    "int (length k1) + 1 = int (length (map Some c1 :: nat option list))" using assms(2) by simp_all
  obtain x' where x: "internal_remove_loop (length k2) (int (length k1)) (int (length k1) + 1) n = Some (n\<lparr>m_KeyValues := map Some k1 @ map Some k2 @ x' # r,
       m_Childs := map Some c1 @ map Some c2 @ last (Some c # map Some c2) # s\<rparr>)"
    using internal_remove_loop_spec [OF e(1) l(5) r e(2,3)] by blast
  have "nat (m_KeyNum n - int (length k1) - 1) = length k2" using l(2) by simp
  then have "internal_removeKey (int (length k1)) (int (length k1) + 1) n = Some (n\<lparr>m_KeyValues := map Some k1 @ map Some k2 @ x' # r,
       m_Childs := map Some c1 @ map Some c2 @ last (Some c # map Some c2) # s, m_KeyNum := m_KeyNum n - 1\<rparr>)"
    using x by (simp add: internal_removeKey_def)
  moreover have "length k1 + length k2 \<le> 12" using assms(1) by (simp add: node_rep_def)
  ultimately show ?thesis using l r assms(2) by (auto simp: node_rep_def)
qed

text \<open>
  Removing the first key together with the first child, as \<open>borrowFrom\<close> does on a right sibling,
  stops one child short: the last child is dropped and the one before it stays twice.
\<close>

lemma internal_removeKey_first:
  assumes "node_rep n (k # ks) (c # cs @ [d, e])"
  shows "\<exists>n'. internal_removeKey 0 0 n = Some n' \<and> node_rep n' ks (cs @ [d, d])"
proof -
  obtain r s where r: "m_KeyValues n = [] @ Some k # map Some ks @ r" "m_Childs n = [] @ Some c # map Some (cs @ [d]) @ Some e # s"
    and l: "m_Type n = INTERNAL" "m_KeyNum n = int (Suc (length ks))" "length (m_KeyValues n) = 13" "length (m_Childs n) = 14"
      "length (cs @ [d]) = length ks" "length ks \<le> 12"
    using assms by (auto simp: node_rep_def)
  obtain x' where x: "internal_remove_loop (length ks) 0 0 n = Some (n\<lparr>m_KeyValues := [] @ map Some ks @ x' # r,
       m_Childs := [] @ map Some (cs @ [d]) @ last (Some c # map Some (cs @ [d])) # Some e # s\<rparr>)"
    using internal_remove_loop_spec [OF refl l(5) r] by force
  have "nat (m_KeyNum n - 0 - 1) = length ks" using l(2) by simp
  then have "internal_removeKey 0 0 n = Some (n\<lparr>m_KeyValues := map Some ks @ x' # r,
       m_Childs := map Some cs @ Some d # Some d # Some e # s, m_KeyNum := m_KeyNum n - 1\<rparr>)"
    using x by (simp add: internal_removeKey_def)
  then show ?thesis using l r by (auto simp: node_rep_def)
qed

end
