(* ===== verification/BPlus_Small.thy ===== *)
theory BPlus_Small
  imports BPlus_Tree BPlus_Node_Facts Key_Store
begin

text \<open>
  The B+ tree while its root is a leaf: a sorted array of at most 13 entries.  There the tree is
  a map from keys to data.
\<close>

section \<open>One node of the heap\<close>

lemma node_atD: "node_at h p = Some n \<Longrightarrow> 0 < p \<and> p - 1 < length h \<and> h ! (p - 1) = Some n"
  by (auto simp: node_at_def rd_def bind_eq_Some_conv split: if_splits)

lemma on_node_eq: "node_at h p = Some n \<Longrightarrow> f n = Some n' \<Longrightarrow> on_node p f h = Some (h[p - 1 := Some n'])"
  using node_atD [of h p n] by (auto simp: on_node_def put_node_def)

lemma node_at_upd [simp]: "node_at h p = Some n \<Longrightarrow> node_at (h[p - 1 := Some n']) p = Some n'"
  using node_atD [of h p n] by (simp add: node_at_def rd_def)

lemma node_at_upd_other: "node_at h p = Some n \<Longrightarrow> q \<noteq> p \<Longrightarrow> node_at (h[p - 1 := c]) q = node_at h q"
  using node_atD [of h p n] by (auto simp: node_at_def rd_def nth_list_update)

lemma node_at_new [simp]: "node_at (h @ [Some n]) (Suc (length h)) = Some n"
  by (simp add: node_at_def rd_def)

lemma node_at_new_old: "node_at h p = Some n \<Longrightarrow> node_at (h @ [c]) p = Some n"
  using node_atD [of h p n] by (auto simp: node_at_def rd_def nth_append)

section \<open>A tree that is one leaf\<close>

definition leaf_tree :: "('k :: linorder) cbtree \<Rightarrow> ('k \<times> int) list \<Rightarrow> bool" where
  "leaf_tree t kvs \<longleftrightarrow> sorted_wrt (\<lambda>a b. fst a < fst b) kvs \<and>
     (if kvs = [] then m_Root t = 0 \<and> m_DataHead t = 0
      else m_DataHead t = m_Root t \<and> m_MaxKey t = Some (fst (last kvs))
        \<and> (\<exists>n. node_at (nodes_h t) (m_Root t) = Some n \<and> leaf_rep n kvs \<and> m_RightSibling n = 0))"

lemma leaf_treeE:
  assumes "leaf_tree t kvs" "kvs \<noteq> []"
  obtains n where "node_at (nodes_h t) (m_Root t) = Some n" "leaf_rep n kvs" "m_RightSibling n = 0"
    "m_Root t \<noteq> 0" "m_DataHead t = m_Root t" "m_MaxKey t = Some (fst (last kvs))"
    "sorted_wrt (\<lambda>a b. fst a < fst b) kvs"
  using assms node_atD by (fastforce simp: leaf_tree_def)

lemma leaf_sorted_keys: "sorted_wrt (\<lambda>a b. fst a < fst b) kvs \<Longrightarrow> sorted (map fst kvs) \<and> distinct (map fst kvs)"
  by (induction kvs) (auto simp: less_imp_le)

lemma leaf_getKeyIndex:
  assumes "leaf_rep n kvs" "kvs \<noteq> []" "sorted_wrt (\<lambda>a b. fst a < fst b) kvs"
  shows "getKeyIndex n key = Some (int (first_ge (map fst kvs) key))" "first_ge (map fst kvs) key < length kvs"
proof -
  have k: "getKeyValue n i = Some (map fst kvs ! nat i)" if "0 \<le> i" "i < int (length (map fst kvs))" for i
    using leaf_rep_key [OF assms(1), of i] that by (simp add: nat_less_iff)
  have "m_KeyNum n = int (length (map fst kvs))" "map fst kvs \<noteq> []" using assms by (simp_all add: leaf_rep_def)
  from getKeyIndex_spec [OF k this, of key] leaf_sorted_keys [OF assms(3)]
  show "getKeyIndex n key = Some (int (first_ge (map fst kvs) key))" "first_ge (map fst kvs) key < length kvs" by auto
qed

text \<open>In a sorted list the key that the search stops at tells whether the key is there.\<close>

lemma takeWhile_less_index:
  assumes "sorted ks" "distinct ks" "i < length ks"
  shows "length (takeWhile (\<lambda>k. k < ks ! i) ks) = i"
proof (rule antisym)
  show "length (takeWhile (\<lambda>k. k < ks ! i) ks) \<le> i" using assms(3) by (intro takeWhile_le) simp_all
  show "i \<le> length (takeWhile (\<lambda>k. k < ks ! i) ks)"
  proof (rule le_takeWhileI)
    fix j assume "j < i"
    then have "ks ! j \<le> ks ! i" "ks ! j \<noteq> ks ! i"
      using assms by (auto intro: sorted_nth_mono simp: nth_eq_iff_index_eq)
    then show "ks ! j < ks ! i" by simp
  qed (use assms(3) in simp)
qed

lemma first_ge_nth:
  assumes "sorted ks" "distinct ks" "i < length ks"
  shows "first_ge ks (ks ! i) = i"
  using takeWhile_less_index [OF assms] assms(3) by (simp add: first_ge_def)

lemma first_ge_hit:
  assumes "sorted ks" "distinct ks" "ks \<noteq> []"
  shows "ks ! first_ge ks key = key \<longleftrightarrow> key \<in> set ks"
proof
  have "first_ge ks key < length ks" using assms(3) by (simp add: first_ge_def min_less_iff_disj)
  then show "ks ! first_ge ks key = key \<Longrightarrow> key \<in> set ks" by (metis nth_mem)
next
  assume "key \<in> set ks"
  then obtain i where "i < length ks" "ks ! i = key" by (auto simp: in_set_conv_nth)
  then show "ks ! first_ge ks key = key" using first_ge_nth [OF assms(1,2)] by auto
qed

lemma search_leaf_tree:
  assumes "leaf_tree t kvs"
  shows "search t key = Some (key \<in> fst ` set kvs)"
proof (cases "kvs = []")
  case True
  then show ?thesis using assms by (simp add: leaf_tree_def search_def recursive_search.simps)
next
  case False
  obtain n where n: "node_at (nodes_h t) (m_Root t) = Some n" "leaf_rep n kvs" "m_Root t \<noteq> 0"
    "sorted_wrt (\<lambda>a b. fst a < fst b) kvs"
    using leaf_treeE [OF assms False] by blast
  let ?i = "first_ge (map fst kvs) key"
  note gi = leaf_getKeyIndex [OF n(2) False n(4), of key]
  have kn: "m_KeyNum n = int (length kvs)" "m_Type n = LEAF" using n(2) by (simp_all add: leaf_rep_def)
  have gk: "getKeyValue n (int ?i) = Some (fst (kvs ! ?i))" using leaf_rep_key [OF n(2), of "int ?i"] gi(2) by simp
  have "fst (kvs ! ?i) = key \<longleftrightarrow> key \<in> fst ` set kvs"
    using first_ge_hit [of "map fst kvs" key] leaf_sorted_keys [OF n(4)] False gi(2) by auto
  then show ?thesis
    unfolding search_def using n(1,3) gi gk kn
    by (subst recursive_search.simps) (auto simp: getChildIndex_def)
qed

lemma sorted_insert_mid:
  fixes key :: "'k :: linorder"
  assumes "sorted_wrt (\<lambda>a b. fst a < fst b) (a @ b)" "\<forall>p \<in> set b. key < fst p" "a \<noteq> [] \<longrightarrow> fst (last a) \<le> key"
    "key \<notin> fst ` set (a @ b)"
  shows "sorted_wrt (\<lambda>a b. fst a < fst b) (a @ (key, d) # b)" "\<forall>p \<in> set a. fst p < key"
proof -
  show lo: "\<forall>p \<in> set a. fst p < key"
  proof
    fix p assume p: "p \<in> set a"
    then have a: "a \<noteq> []" by auto
    then have "fst (last a) \<le> key" "last a \<in> set (a @ b)" using assms(3) by auto
    then have "fst (last a) \<noteq> key" using assms(4) by auto
    then have "fst (last a) < key" using \<open>fst (last a) \<le> key\<close> by simp
    moreover have "fst p \<le> fst (last a)"
    proof (cases "p = last a")
      case False
      obtain u l where u: "a = u @ [l]" using a by (cases a rule: rev_cases) auto
      then show ?thesis using p False assms(1) by (auto simp: sorted_wrt_append less_imp_le)
    qed simp
    ultimately show "fst p < key" by simp
  qed
  show "sorted_wrt (\<lambda>a b. fst a < fst b) (a @ (key, d) # b)"
    using assms(1,2) lo by (auto simp: sorted_wrt_append)
qed

lemma sorted_last_ge:
  "sorted_wrt (\<lambda>a b. fst a < (fst b :: 'k :: linorder)) kvs \<Longrightarrow> p \<in> set kvs \<Longrightarrow> fst p \<le> fst (last kvs)"
  by (induction kvs) (auto simp: less_imp_le)

lemma map_of_insert_mid:
  "key \<notin> fst ` set a \<Longrightarrow> map_of (a @ (key, d) # b) = (map_of (a @ b))(key \<mapsto> d)"
  by (induction a) (auto simp: fun_eq_iff)

lemma insert_leaf_tree:
  assumes "leaf_tree t kvs" "length kvs < 13" "key \<notin> fst ` set kvs"
  shows "\<exists>t' a b. insert t key d = Some (t', True) \<and> kvs = a @ b \<and> leaf_tree t' (a @ (key, d) # b)"
proof (cases "kvs = []")
  case True
  let ?h = "nodes_h t" and ?n = "new_CNode LEAF :: 'a cnode"
  let ?t = "t\<lparr>nodes_h := ?h @ [Some ?n], m_Root := Suc (length ?h), m_DataHead := Suc (length ?h), m_MaxKey := Some key\<rparr>"
  have r0: "m_Root t = 0" using assms(1) True by (simp add: leaf_tree_def)
  have rep: "leaf_rep ?n []" by (simp add: leaf_rep_def new_CNode_def order_defs)
  have at: "node_at (nodes_h ?t) (m_Root ?t) = Some ?n" by simp
  obtain n' where n': "leaf_insert key d ?n = Some n'" "leaf_rep n' [(key, d)]" "m_RightSibling n' = m_RightSibling ?n"
    using leaf_insert_spec [OF rep, of key d] by auto
  have ri: "recursive_insert (nodes_h ?t) (m_Root ?t) key d = Some ((nodes_h ?t)[m_Root ?t - 1 := Some n'])"
    using at on_node_eq [OF at, where f = "leaf_insert key d" and n' = n'] n'(1) by (subst recursive_insert.simps) (simp add: new_CNode_def)
  have kn: "\<not> m_KeyNum ?n \<ge> MAXNUM_KEY" by (simp add: new_CNode_def order_defs)
  have s: "search t key = Some False" using search_leaf_tree [OF assms(1)] True by simp
  have "insert t key d = Some (?t\<lparr>nodes_h := (nodes_h ?t)[m_Root ?t - 1 := Some n']\<rparr>, True)"
    unfolding insert_def using s r0 kn ri by (simp add: new_node_def Let_def)
  moreover have "m_RightSibling ?n = 0" by (simp add: new_CNode_def)
  then have "leaf_tree (?t\<lparr>nodes_h := (nodes_h ?t)[m_Root ?t - 1 := Some n']\<rparr>) ([] @ (key, d) # [])"
    using n'(2,3) node_at_upd [OF at, of n'] by (simp add: leaf_tree_def)
  ultimately show ?thesis using True by blast
next
  case False
  obtain n where n: "node_at (nodes_h t) (m_Root t) = Some n" "leaf_rep n kvs" "m_RightSibling n = 0" "m_Root t \<noteq> 0"
    "m_DataHead t = m_Root t" "m_MaxKey t = Some (fst (last kvs))" "sorted_wrt (\<lambda>a b. fst a < fst b) kvs"
    using leaf_treeE [OF assms(1) False] by blast
  obtain a b n' where ab: "kvs = a @ b" "\<forall>p \<in> set b. key < fst p" "a \<noteq> [] \<longrightarrow> fst (last a) \<le> key"
    "leaf_insert key d n = Some n'" "leaf_rep n' (a @ (key, d) # b)" "m_RightSibling n' = m_RightSibling n"
    using leaf_insert_spec [OF n(2) assms(2), of key d] by blast
  have srt: "sorted_wrt (\<lambda>a b. fst a < fst b) (a @ (key, d) # b)" "\<forall>p \<in> set a. fst p < key"
    using sorted_insert_mid(1) [of a b key d] sorted_insert_mid(2) [of a b key] n(7) ab(1-3) assms(3) by auto
  let ?t = "if key > fst (last kvs) then t\<lparr>m_MaxKey := Some key\<rparr> else t"
  have t: "nodes_h ?t = nodes_h t" "m_Root ?t = m_Root t" "m_DataHead ?t = m_DataHead t" by simp_all
  have ty: "m_Type n = LEAF" "m_KeyNum n = int (length kvs)" using n(2) by (simp_all add: leaf_rep_def)
  have ri: "recursive_insert (nodes_h t) (m_Root t) key d = Some ((nodes_h t)[m_Root t - 1 := Some n'])"
    using n(1) ty(1) on_node_eq [OF n(1), where f = "leaf_insert key d" and n' = n'] ab(4) by (subst recursive_insert.simps) simp
  have kn: "\<not> m_KeyNum n \<ge> MAXNUM_KEY" using ty(2) assms(2) by (simp add: order_defs)
  have s: "search t key = Some False" using search_leaf_tree [OF assms(1)] assms(3) by simp
  have "insert t key d = Some (?t\<lparr>nodes_h := (nodes_h t)[m_Root t - 1 := Some n']\<rparr>, True)"
    unfolding insert_def using s n(1,4,6) kn ri by (simp add: Let_def)
  moreover have "m_MaxKey ?t = Some (fst (last (a @ (key, d) # b)))"
  proof (cases "b = []")
    case True
    then have "fst (last kvs) < key" using ab(1) srt(2) False by simp
    then show ?thesis using True by simp
  next
    case b: False
    then have "key < fst (last kvs)" using ab(1,2) by simp
    then show ?thesis using b ab(1) n(6) by (auto dest: less_asym)
  qed
  then have "leaf_tree (?t\<lparr>nodes_h := (nodes_h t)[m_Root t - 1 := Some n']\<rparr>) (a @ (key, d) # b)"
    using ab(5,6) n(3,5) srt(1) node_at_upd [OF n(1), of n'] by (simp add: leaf_tree_def)
  ultimately show ?thesis using ab(1) by blast
qed

lemma clear_leaf_tree:
  assumes "leaf_tree t kvs" "kvs \<noteq> []"
  shows "\<exists>t'. clear t = Some t' \<and> leaf_tree t' []"
proof -
  obtain n where n: "node_at (nodes_h t) (m_Root t) = Some n" "leaf_rep n kvs" "m_Root t \<noteq> 0"
    using leaf_treeE [OF assms] by blast
  have "clear_node (m_Root t) (nodes_h t) = Some (nodes_h t)"
    using n(1,2) by (subst clear_node_def, subst clear_childs.simps) (simp add: leaf_rep_def)
  then show ?thesis using n(1,3) node_atD [OF n(1)] by (auto simp: clear_def delete_node_def leaf_tree_def)
qed

lemma remove_leaf_tree:
  assumes "leaf_tree t (a @ (key, d) # b)"
  shows "\<exists>t'. remove t key = Some (t', True) \<and> leaf_tree t' (a @ b)"
proof -
  let ?kvs = "a @ (key, d) # b"
  have ne: "?kvs \<noteq> []" by simp
  obtain n where n: "node_at (nodes_h t) (m_Root t) = Some n" "leaf_rep n ?kvs" "m_RightSibling n = 0" "m_Root t \<noteq> 0"
    "m_DataHead t = m_Root t" "m_MaxKey t = Some (fst (last ?kvs))" "sorted_wrt (\<lambda>a b. fst a < fst b) ?kvs"
    using leaf_treeE [OF assms ne] by blast
  have ty: "m_Type n = LEAF" "m_KeyNum n = int (length ?kvs)" using n(2) by (simp_all add: leaf_rep_def)
  have s: "search t key = Some True" using search_leaf_tree [OF assms] by simp
  show ?thesis
  proof (cases "a @ b = []")
    case True
    then have "m_KeyNum n = 1" using ty(2) by simp
    then have "remove t key = do { t \<leftarrow> clear t; Some (t, True) }" using s n(1) ty(1) by (simp add: remove_def)
    then show ?thesis using clear_leaf_tree [OF assms ne] True by auto
  next
    case False
    then have "0 < int (length (a @ b))" by (simp only: of_nat_0_less_iff length_greater_0_conv not_False_eq_True)
    moreover have "m_KeyNum n = 1 + int (length (a @ b))" using ty(2) by simp
    ultimately have k1: "m_KeyNum n \<noteq> 1" by linarith
    have i: "getKeyIndex n key = Some (int (length a))"
      using leaf_getKeyIndex(1) [OF n(2) ne n(7), of key] leaf_sorted_keys [OF n(7)]
        first_ge_nth [of "map fst ?kvs" "length a"] by (simp add: nth_append)
    obtain n' where n': "leaf_removeKey (int (length a)) (int (length a)) n = Some n'" "leaf_rep n' (a @ b)"
      "m_RightSibling n' = m_RightSibling n"
      using leaf_removeKey_spec [OF n(2) refl] by blast
    have rk: "removeKey (int (length a)) (int (length a)) n = Some n'" using n'(1) ty(1) by (simp add: removeKey_def)
    have nx: "(key = fst (last ?kvs)) = (b = [])"
      using n(7) by (cases b rule: rev_cases) (auto simp: sorted_wrt_append)
    define t1 where "t1 = (if b = [] then t\<lparr>m_MaxKey := Some (fst (last a))\<rparr> else t)"
    have gk: "getKeyValue n (int (length a) - 1) = Some (fst (last a))" if "b = []"
      using False that leaf_rep_key [OF n(2), of "int (length a) - 1"]
      by (cases a rule: rev_cases) (auto simp: nth_append)
    have t1: "(if key = fst (last ?kvs) \<and> int (length a) > 0
        then do { k \<leftarrow> getKeyValue n (int (length a) - 1); Some (t\<lparr>m_MaxKey := Some k\<rparr>) } else Some t) = Some t1"
      using nx gk False by (cases "b = []") (auto simp: t1_def)
    let ?h = "(nodes_h t)[m_Root t - 1 := Some n']"
    have on: "on_node (m_Root t) (removeKey (int (length a)) (int (length a))) (nodes_h t1) = Some ?h"
      using on_node_eq [OF n(1), where f = "removeKey (int (length a)) (int (length a))" and n' = n'] rk by (simp add: t1_def)
    have ty': "m_Type n' = LEAF" using n'(2) by (simp add: leaf_rep_def)
    have "recursive_remove t (m_Root t) key = Some (t1\<lparr>nodes_h := ?h\<rparr>)"
      using n(1,6) ty(1) i t1 on ty' node_at_upd [OF n(1), of n']
      by (subst recursive_remove.simps) (simp add: getChildIndex_def t1_def)
    then have "remove t key = Some (t1\<lparr>nodes_h := ?h\<rparr>, True)" using s n(1) k1 by (simp add: remove_def)
    moreover have "leaf_tree (t1\<lparr>nodes_h := ?h\<rparr>) (a @ b)"
      using n(3,5,6,7) n'(2,3) False node_at_upd [OF n(1), of n']
      by (cases "b = []") (auto simp: leaf_tree_def t1_def sorted_wrt_append)
    ultimately show ?thesis by blast
  qed
qed

section \<open>Selection\<close>

lemma datas_from_spec:
  "leaf_rep n kvs \<Longrightarrow> i + m \<le> length kvs \<Longrightarrow> datas_from m (int i) n = Some (map snd (take m (drop i kvs)))"
proof (induction m arbitrary: i)
  case (Suc m)
  have "getData n (int i) = Some (snd (kvs ! i))" using leaf_rep_data [OF Suc.prems(1), of "int i"] Suc.prems(2) by simp
  moreover have "datas_from m (int i + 1) n = Some (map snd (take m (drop (Suc i) kvs)))"
    using Suc.IH [OF Suc.prems(1), of "Suc i"] Suc.prems(2) by (simp add: add.commute)
  moreover have "drop i kvs = kvs ! i # drop (Suc i) kvs" using Suc.prems(2) by (simp add: Cons_nth_drop_Suc)
  ultimately show ?case by simp
qed simp

lemma chain_datas_leaf:
  assumes "node_at h p = Some n" "leaf_rep n kvs" "m_RightSibling n = 0" "p \<noteq> 0"
  shows "chain_datas h 0 p = Some (map snd kvs)"
proof -
  have "chain_datas h 0 0 = Some []" by (subst chain_datas.simps) simp
  moreover have "datas_from (nat (m_KeyNum n)) 0 n = Some (map snd kvs)"
    using datas_from_spec [OF assms(2), of 0 "length kvs"] assms(2) by (simp add: leaf_rep_def)
  ultimately show ?thesis using assms(1,3,4) by (subst chain_datas.simps) simp
qed

fun cmp_holds :: "compare_op \<Rightarrow> ('k :: linorder) \<Rightarrow> 'k \<Rightarrow> bool" where
  "cmp_holds LT k x \<longleftrightarrow> x < k"
| "cmp_holds LE k x \<longleftrightarrow> x \<le> k"
| "cmp_holds EQ k x \<longleftrightarrow> x = k"
| "cmp_holds BE k x \<longleftrightarrow> k \<le> x"
| "cmp_holds BT k x \<longleftrightarrow> k < x"
| "cmp_holds BETWEEN k x \<longleftrightarrow> False"

text \<open>A key that is not beyond the last one splits the entries at the index of the search.\<close>

lemma split_at_key:
  assumes "sorted_wrt (\<lambda>a b. fst a < fst b) kvs" "kvs \<noteq> []" "key \<le> fst (last kvs)"
  obtains a p b where "kvs = a @ p # b" "length a = first_ge (map fst kvs) key"
    "\<forall>q \<in> set a. fst q < key" "key \<le> fst p" "\<forall>q \<in> set b. key < fst q"
proof -
  let ?a = "takeWhile (\<lambda>q. fst q < key) kvs" and ?r = "dropWhile (\<lambda>q. fst q < key) kvs"
  have "?r \<noteq> []"
  proof
    assume "?r = []"
    then have "fst (last kvs) < key" using assms(2) by (auto simp: dropWhile_eq_Nil_conv)
    then show False using assms(3) by simp
  qed
  then obtain p b where r: "?r = p # b" by (cases ?r) auto
  have e: "kvs = ?a @ p # b" using takeWhile_dropWhile_id [of "\<lambda>q. fst q < key" kvs] r by simp
  have p: "key \<le> fst p" using hd_dropWhile [of "\<lambda>q. fst q < key" kvs] r by (simp add: not_less)
  have "sorted_wrt (\<lambda>a b. fst a < fst b) (?a @ p # b)" using assms(1) e by simp
  then have "\<forall>q \<in> set b. key < fst q" using p by (auto simp: sorted_wrt_append)
  moreover have "length ?a = first_ge (map fst kvs) key"
  proof -
    have "length kvs = length ?a + Suc (length b)" using arg_cong [OF e, of length] by simp
    moreover have "length (takeWhile (\<lambda>k. k < key) (map fst kvs)) = length ?a" by (simp add: takeWhile_map comp_def)
    ultimately show ?thesis by (simp add: first_ge_def)
  qed
  ultimately show ?thesis using that e p by (metis (mono_tags, lifting) set_takeWhileD)
qed

lemma select_leaf_tree:
  assumes "leaf_tree t kvs"
  shows "select_cmp t key op = Some (sort (map snd (filter (\<lambda>q. cmp_holds op key (fst q)) kvs)))"
proof (cases "kvs = []")
  case True
  then show ?thesis using assms by (simp add: leaf_tree_def select_cmp_def Let_def)
next
  case False
  obtain n where n: "node_at (nodes_h t) (m_Root t) = Some n" "leaf_rep n kvs" "m_RightSibling n = 0" "m_Root t \<noteq> 0"
    "m_DataHead t = m_Root t" "m_MaxKey t = Some (fst (last kvs))" "sorted_wrt (\<lambda>a b. fst a < fst b) kvs"
    using leaf_treeE [OF assms False] by blast
  note all = chain_datas_leaf [OF n(1,2,3,4)]
  have k0: "getKeyValue n 0 = Some (fst (hd kvs))"
    using leaf_rep_key [OF n(2), of 0] False by (simp add: hd_conv_nth)
  have mx: "fst q \<le> fst (last kvs)" if "q \<in> set kvs" for q using sorted_last_ge [OF n(7) that] .
  have mn: "fst (hd kvs) \<le> fst q" if "q \<in> set kvs" for q
    using n(7) that by (cases kvs) (auto simp: less_imp_le)
  consider (hi) "key > fst (last kvs)" | (lo) "\<not> key > fst (last kvs)" "key < fst (hd kvs)"
    | (mid) "\<not> key > fst (last kvs)" "\<not> key < fst (hd kvs)" by blast
  then show ?thesis
  proof cases
    case hi
    then have "filter (\<lambda>q. cmp_holds op key (fst q)) kvs = (if op = LE \<or> op = LT then kvs else [])"
      using mx by (cases op) (fastforce simp: filter_id_conv filter_empty_conv)+
    then show ?thesis using hi n(1,4-6) all by (simp add: select_cmp_def Let_def)
  next
    case lo
    then have "filter (\<lambda>q. cmp_holds op key (fst q)) kvs = (if op = BE \<or> op = BT then kvs else [])"
      using mn by (cases op) (fastforce simp: filter_id_conv filter_empty_conv)+
    then show ?thesis using lo n(1,4-6) all k0 by (simp add: select_cmp_def Let_def)
  next
    case mid
    then have "key \<le> fst (last kvs)" by simp
    from split_at_key [OF n(7) False this]
    obtain a p b where e: "kvs = a @ p # b" "length a = first_ge (map fst kvs) key"
      "\<forall>q \<in> set a. fst q < key" "key \<le> fst p" "\<forall>q \<in> set b. key < fst q" by blast
    have ty: "m_Type n = LEAF" "m_KeyNum n = int (length a + Suc (length b))" using n(2) e(1) by (simp_all add: leaf_rep_def)
    have sl: "search_leaf (nodes_h t) (m_Root t) key = Some (int (length a), m_Root t)"
      using n(1) leaf_getKeyIndex(1) [OF n(2) False n(7), of key] e(2) ty(1)
      by (subst search_leaf.simps) (simp add: getChildIndex_def)
    have gk: "getKeyValue n (int (length a)) = Some (fst p)"
      using leaf_rep_key [OF n(2), of "int (length a)"] e(1) by simp
    have gd: "getData n (int (length a)) = Some (snd p)"
      using leaf_rep_data [OF n(2), of "int (length a)"] e(1) by simp
    have da: "datas_from (length a) 0 n = Some (map snd a)"
      using datas_from_spec [OF n(2), of 0 "length a"] e(1) by simp
    have "datas_from (length b) (int (Suc (length a))) n = Some (map snd b)"
      using e(1) by (subst datas_from_spec [OF n(2)]) simp_all
    then have db: "datas_from (nat (m_KeyNum n - (int (length a) + 1))) (int (length a) + 1) n = Some (map snd b)"
      using ty(2) by (simp add: add.commute)
    have c0: "chain_datas (nodes_h t) 0 0 = Some []" "chain_datas (nodes_h t) (m_Root t) (m_Root t) = Some []"
      by (subst chain_datas.simps, simp)+
    have lt: "\<And>q. q \<in> set a \<Longrightarrow> fst q < key" "\<And>q. q \<in> set b \<Longrightarrow> key < fst q" using e(3,5) by auto
    have fl: "filter (\<lambda>q. cmp_holds op key (fst q)) a = (if op = LT \<or> op = LE then a else [])"
      "filter (\<lambda>q. cmp_holds op key (fst q)) b = (if op = BE \<or> op = BT then b else [])"
      using lt by (cases op; fastforce simp: filter_id_conv filter_empty_conv)+
    have "select_cmp t key op = Some (sort
       (if op = LT \<or> op = LE then map snd a @ (if fst p < key \<or> op = LE \<and> key = fst p then [snd p] else [])
        else if op = EQ then if fst p = key then [snd p] else []
        else if op = BE \<or> op = BT then (if key < fst p \<or> op = BE \<and> key = fst p then [snd p] else []) @ map snd b
        else []))"
      using mid n(1,3-6) k0 sl gk gd da db c0 by (simp add: select_cmp_def Let_def)
    also have "\<dots> = Some (sort (map snd (filter (\<lambda>q. cmp_holds op key (fst q)) kvs)))"
      using e(4) fl unfolding e(1) by (cases op) auto
    finally show ?thesis .
  qed
qed

lemma filter_less_takeWhile:
  "sorted_wrt (\<lambda>a b. fst a < (fst b :: 'k :: linorder)) kvs \<Longrightarrow>
   filter (\<lambda>q. fst q < key) kvs = takeWhile (\<lambda>q. fst q < key) kvs
   \<and> filter (\<lambda>q. fst q \<le> key) kvs = takeWhile (\<lambda>q. fst q \<le> key) kvs"
proof (induction kvs)
  case (Cons p kvs)
  show ?case
  proof (intro conjI)
    show "filter (\<lambda>q. fst q < key) (p # kvs) = takeWhile (\<lambda>q. fst q < key) (p # kvs)"
    proof (cases "fst p < key")
      case False
      then have "filter (\<lambda>q. fst q < key) kvs = []" using Cons.prems by (fastforce simp: filter_empty_conv)
      then show ?thesis using False by simp
    qed (use Cons in simp)
    show "filter (\<lambda>q. fst q \<le> key) (p # kvs) = takeWhile (\<lambda>q. fst q \<le> key) (p # kvs)"
    proof (cases "fst p \<le> key")
      case False
      then have "filter (\<lambda>q. fst q \<le> key) kvs = []" using Cons.prems by (fastforce simp: filter_empty_conv)
      then show ?thesis using False by simp
    qed (use Cons in simp)
  qed
qed simp

lemma filter_range:
  fixes lo :: "'k :: linorder"
  assumes "sorted_wrt (\<lambda>a b. fst a < fst b) kvs" "lo \<le> hi"
  shows "filter (\<lambda>q. lo \<le> fst q \<and> fst q \<le> hi) kvs
    = drop (length (filter (\<lambda>q. fst q < lo) kvs)) (take (length (filter (\<lambda>q. fst q \<le> hi) kvs)) kvs)"
proof -
  let ?F = "filter (\<lambda>q. fst q \<le> hi) kvs"
  have ge: "filter (\<lambda>q. lo \<le> fst q) us = drop (length (filter (\<lambda>q. fst q < lo) us)) us"
    if "sorted_wrt (\<lambda>a b. fst a < fst b) us" for us :: "('k \<times> 'a) list"
    using that
  proof (induction us)
    case (Cons p us)
    show ?case
    proof (cases "fst p < lo")
      case True
      then show ?thesis using Cons by simp
    next
      case False
      then have "filter (\<lambda>q. fst q < lo) us = []" "filter (\<lambda>q. lo \<le> fst q) us = us"
        using Cons.prems by (force simp: filter_empty_conv filter_id_conv)+
      then show ?thesis using False by simp
    qed
  qed simp
  have "filter (\<lambda>q. lo \<le> fst q \<and> fst q \<le> hi) kvs = filter (\<lambda>q. lo \<le> fst q) ?F" by (simp add: conj_commute)
  also have "\<dots> = drop (length (filter (\<lambda>q. fst q < lo) ?F)) ?F"
    using assms(1) by (intro ge sorted_wrt_filter)
  also have "filter (\<lambda>q. fst q < lo) ?F = filter (\<lambda>q. fst q < lo) kvs"
    using assms(2) by (auto intro: filter_cong)
  also have "drop (length (filter (\<lambda>q. fst q < lo) kvs)) ?F
      = drop (length (filter (\<lambda>q. fst q < lo) kvs)) (take (length ?F) kvs)"
    using filter_less_takeWhile [OF assms(1), of hi] takeWhile_eq_take [of "\<lambda>q. fst q \<le> hi" kvs] by simp
  finally show ?thesis .
qed

lemma select_range_leaf_tree:
  assumes "leaf_tree t kvs" "kvs \<noteq> []"
  shows "select_range t lo hi = Some (sort (map snd (filter (\<lambda>q. lo \<le> fst q \<and> fst q \<le> hi) kvs)))"
proof (cases "lo \<le> hi")
  case False
  then have "filter (\<lambda>q. lo \<le> fst q \<and> fst q \<le> hi) kvs = []" by (auto simp: filter_empty_conv)
  then show ?thesis using False by (simp add: select_range_def)
next
  case True
  obtain n where n: "node_at (nodes_h t) (m_Root t) = Some n" "leaf_rep n kvs" "sorted_wrt (\<lambda>a b. fst a < fst b) kvs"
    using leaf_treeE [OF assms] by blast
  have ty: "m_Type n = LEAF" using n(2) by (simp add: leaf_rep_def)
  have sl: "search_leaf (nodes_h t) (m_Root t) k = Some (int (first_ge (map fst kvs) k), m_Root t)" for k
    using n(1) leaf_getKeyIndex(1) [OF n(2) assms(2) n(3), of k] ty by (subst search_leaf.simps) (simp add: getChildIndex_def)
  have gk: "getKeyValue n (int (first_ge (map fst kvs) k)) = Some (fst (kvs ! first_ge (map fst kvs) k))" for k
    using leaf_rep_key [OF n(2), of "int (first_ge (map fst kvs) k)"] leaf_getKeyIndex(2) [OF n(2) assms(2) n(3), of k] by simp
  let ?L = "length (filter (\<lambda>q. fst q < lo) kvs)" and ?H = "length (filter (\<lambda>q. fst q \<le> hi) kvs)"
  have len: "0 < length kvs" using assms(2) by simp
  have tw: "length (takeWhile (\<lambda>k. k < key) (map fst kvs)) = length (filter (\<lambda>q. fst q < key) kvs)" for key
    using filter_less_takeWhile [OF n(3), of key] by (simp add: takeWhile_map comp_def)
  have start: "(if fst (kvs ! first_ge (map fst kvs) lo) < lo then int (first_ge (map fst kvs) lo) + 1
      else int (first_ge (map fst kvs) lo)) = int ?L"
  proof -
    have fg: "first_ge (map fst kvs) lo = min ?L (length kvs - 1)" by (simp add: first_ge_def tw)
    have f: "filter (\<lambda>q. fst q < lo) kvs = take ?L kvs"
      using filter_less_takeWhile [OF n(3), of lo] takeWhile_eq_take by metis
    show ?thesis
    proof (cases "?L = length kvs")
      case True
      then have "\<forall>q \<in> set kvs. fst q < lo" using length_filter_less [of _ kvs "\<lambda>q. fst q < lo"] by force
      moreover have "int (length kvs - 1) + 1 = int (length kvs)" using len by linarith
      ultimately show ?thesis using True fg assms(2) by (simp add: last_conv_nth [symmetric])
    next
      case False
      then have l: "?L < length kvs" using length_filter_le [of "\<lambda>q. fst q < lo" kvs] by linarith
      then have "\<not> fst (kvs ! ?L) < lo"
        using nth_length_takeWhile [of "\<lambda>q. fst q < lo" kvs] filter_less_takeWhile [OF n(3), of lo] by simp
      then show ?thesis using fg l by simp
    qed
  qed
  have stop: "(if fst (kvs ! first_ge (map fst kvs) hi) > hi then int (first_ge (map fst kvs) hi) - 1
      else int (first_ge (map fst kvs) hi)) = int ?H - 1"
  proof (cases "hi \<le> fst (last kvs)")
    case False
    then have "\<forall>q \<in> set kvs. fst q < hi" using sorted_last_ge [OF n(3)] by force
    then have "filter (\<lambda>q. fst q \<le> hi) kvs = kvs" "filter (\<lambda>q. fst q < hi) kvs = kvs" by (auto simp: filter_id_conv less_imp_le)
    moreover from this have "first_ge (map fst kvs) hi = length kvs - 1" by (simp add: first_ge_def tw)
    moreover have "fst (kvs ! (length kvs - 1)) < hi" using False assms(2) by (simp add: last_conv_nth)
    moreover have "int (length kvs - 1) = int (length kvs) - 1" using len by linarith
    ultimately show ?thesis by auto
  next
    case hi: True
    from split_at_key [OF n(3) assms(2) hi]
    obtain a p b where e: "kvs = a @ p # b" "length a = first_ge (map fst kvs) hi"
      "\<forall>q \<in> set a. fst q < hi" "hi \<le> fst p" "\<forall>q \<in> set b. hi < fst q" by blast
    have fa: "filter (\<lambda>q. fst q \<le> hi) a = a" "filter (\<lambda>q. fst q \<le> hi) b = []"
      using e(3,5) by (auto simp: filter_id_conv filter_empty_conv less_imp_le)
    have "filter (\<lambda>q. fst q \<le> hi) kvs = a @ (if fst p \<le> hi then [p] else [])"
      unfolding e(1) by (simp add: fa)
    moreover have "kvs ! first_ge (map fst kvs) hi = p" using e(1,2) by (metis nth_append_length)
    ultimately show ?thesis using e(2,4) by auto
  qed
  have HL: "?L \<le> ?H" 
  proof -
    have "filter (\<lambda>q. fst q < lo) kvs = filter (\<lambda>q. fst q < lo) (filter (\<lambda>q. fst q \<le> hi) kvs)"
      using True by (auto intro: filter_cong)
    then show ?thesis using length_filter_le [of "\<lambda>q. fst q < lo" "filter (\<lambda>q. fst q \<le> hi) kvs"] by (simp only:)
  qed
  have nat: "nat (int h - 1 + 1 - int l) = h - l" for h l :: nat by simp
  have Hl: "?H \<le> length kvs" by simp
  have "range_walk (nodes_h t) (m_Root t) (int ?H - 1) (m_Root t) (int ?L) = datas_from (?H - ?L) (int ?L) n"
    using n(1) nat [of ?H ?L] by (subst range_walk.simps) simp
  also have "\<dots> = Some (map snd (take (?H - ?L) (drop ?L kvs)))"
    using HL Hl by (intro datas_from_spec [OF n(2)]) linarith
  also have "take (?H - ?L) (drop ?L kvs) = filter (\<lambda>q. lo \<le> fst q \<and> fst q \<le> hi) kvs"
    using filter_range [OF n(3) True] by (simp add: drop_take)
  finally have w: "range_walk (nodes_h t) (m_Root t) (int ?H - 1) (m_Root t) (int ?L)
      = Some (map snd (filter (\<lambda>q. lo \<le> fst q \<and> fst q \<le> hi) kvs))" .
  show ?thesis unfolding select_range_def using True n(1) sl gk start stop w by simp
qed

section \<open>The small tree as a map\<close>

text \<open>The three operations of a store: a lookup is a search and then the selection of equal keys.\<close>

definition bp_get :: "('k :: linorder) cbtree \<Rightarrow> 'k \<Rightarrow> ('k cbtree \<times> int option) option" where
  "bp_get t k = do { found \<leftarrow> search t k;
                     if found then do { ds \<leftarrow> select_cmp t k EQ; case ds of [d] \<Rightarrow> Some (t, Some d) | _ \<Rightarrow> None }
                     else Some (t, None) }"

definition bp_ins :: "('k :: linorder) cbtree \<Rightarrow> 'k \<Rightarrow> int \<Rightarrow> ('k cbtree \<times> ins_reply) option" where
  "bp_ins t k d = map_option (\<lambda>(t', r). (t', if r then Inserted else Exists)) (insert t k d)"

definition bp_contents :: "('k :: linorder) cbtree \<Rightarrow> 'k \<Rightarrow> int option" where
  "bp_contents t k = do { n \<leftarrow> node_at (nodes_h t) (m_Root t);
     map_of (map (\<lambda>i. (the (getKeyValue n (int i)), the (getData n (int i)))) [0..<nat (m_KeyNum n)]) k }"

definition bp_valid :: "'k set \<Rightarrow> ('k :: linorder) cbtree \<Rightarrow> bool" where
  "bp_valid K t \<longleftrightarrow> finite K \<and> card K \<le> 13 \<and> (\<exists>kvs. leaf_tree t kvs \<and> fst ` set kvs \<subseteq> K)"

lemma bp_contents_leaf_tree:
  assumes "leaf_tree t kvs"
  shows "bp_contents t = map_of kvs"
proof (cases "kvs = []")
  case True
  then show ?thesis using assms by (simp add: leaf_tree_def bp_contents_def node_at_def fun_eq_iff)
next
  case False
  obtain n where n: "node_at (nodes_h t) (m_Root t) = Some n" "leaf_rep n kvs" using leaf_treeE [OF assms False] by blast
  have "map (\<lambda>i. (the (getKeyValue n (int i)), the (getData n (int i)))) [0..<length kvs] = kvs"
    using leaf_rep_key [OF n(2)] leaf_rep_data [OF n(2)] by (intro nth_equalityI) simp_all
  then show ?thesis using n by (simp add: bp_contents_def leaf_rep_def fun_eq_iff)
qed

lemma leaf_tree_distinct: "leaf_tree t kvs \<Longrightarrow> distinct (map fst kvs)"
  using leaf_sorted_keys by (auto simp: leaf_tree_def)

lemma filter_key_map_of:
  "distinct (map fst kvs) \<Longrightarrow> map_of kvs k = Some d \<Longrightarrow> filter (\<lambda>q. fst q = k) kvs = [(k, d)]"
proof (induction kvs)
  case (Cons p kvs)
  show ?case
  proof (cases "fst p = k")
    case True
    then have "filter (\<lambda>q. fst q = k) kvs = []" using Cons.prems(1) by (auto simp: filter_empty_conv image_iff)
    then show ?thesis using True Cons.prems(2) by (cases p) auto
  qed (use Cons in auto)
qed simp

interpretation bp: keyed_store bp_get bp_ins remove bp_contents "bp_valid K" "\<lambda>k. k \<in> K"
  for K :: "('k :: linorder) set"
proof
  fix t :: "'k cbtree" and k assume v: "bp_valid K t"
  then obtain kvs where kvs: "leaf_tree t kvs" by (auto simp: bp_valid_def)
  have c: "bp_contents t = map_of kvs" by (rule bp_contents_leaf_tree [OF kvs])
  have "bp_get t k = Some (t, bp_contents t k)"
  proof (cases "map_of kvs k")
    case None
    then have "k \<notin> fst ` set kvs" by (simp add: map_of_eq_None_iff)
    then show ?thesis using search_leaf_tree [OF kvs, of k] c None by (simp add: bp_get_def)
  next
    case (Some d)
    then have "k \<in> fst ` set kvs" by (metis domI dom_map_of_conv_image_fst)
    moreover have "select_cmp t k EQ = Some [d]"
      using select_leaf_tree [OF kvs, of k EQ] filter_key_map_of [OF leaf_tree_distinct [OF kvs] Some] by simp
    ultimately show ?thesis using search_leaf_tree [OF kvs, of k] c Some by (simp add: bp_get_def)
  qed
  then show "\<exists>t'. bp_get t k = Some (t', bp_contents t k) \<and> bp_valid K t' \<and> bp_contents t' = bp_contents t"
    using v by blast
next
  fix t :: "'k cbtree" and k d assume v: "bp_valid K t" and k: "k \<in> K"
  then obtain kvs where kvs: "leaf_tree t kvs" "fst ` set kvs \<subseteq> K" and K: "finite K" "card K \<le> 13" by (auto simp: bp_valid_def)
  have c: "bp_contents t = map_of kvs" by (rule bp_contents_leaf_tree [OF kvs(1)])
  show "\<exists>t' r. bp_ins t k d = Some (t', r) \<and> bp_valid K t'
      \<and> (if bp_contents t k = None then r = Inserted \<or> r = Full else r = Exists)
      \<and> bp_contents t' = (if r = Inserted then (bp_contents t)(k \<mapsto> d) else bp_contents t)"
  proof (cases "k \<in> fst ` set kvs")
    case True
    then have "insert t k d = Some (t, False)" using search_leaf_tree [OF kvs(1), of k] by (simp add: insert_def)
    moreover have "bp_contents t k \<noteq> None" using True c by (metis map_of_eq_None_iff)
    ultimately show ?thesis using v by (simp add: bp_ins_def)
  next
    case False
    have "length kvs = card (fst ` set kvs)"
      using distinct_card [OF leaf_tree_distinct [OF kvs(1)]] by simp
    also have "\<dots> < card K" using False k kvs(2) K(1) by (intro psubset_card_mono) auto
    finally have "length kvs < 13" using K(2) by simp
    from insert_leaf_tree [OF kvs(1) this False, of d]
    obtain t' a b where t': "insert t k d = Some (t', True)" "kvs = a @ b" "leaf_tree t' (a @ (k, d) # b)" by blast
    have "bp_contents t' = (bp_contents t)(k \<mapsto> d)"
      using bp_contents_leaf_tree [OF t'(3)] c t'(2) False map_of_insert_mid [of k a d b] by auto
    moreover have "fst ` set (a @ (k, d) # b) \<subseteq> K" using kvs(2) t'(2) k by auto
    then have "bp_valid K t'" using t'(3) K unfolding bp_valid_def by blast
    moreover have "bp_contents t k = None" using c False by (simp add: map_of_eq_None_iff)
    ultimately show ?thesis using t'(1) by (simp add: bp_ins_def)
  qed
next
  fix t :: "'k cbtree" and k assume v: "bp_valid K t" and k: "k \<in> K"
  then obtain kvs where kvs: "leaf_tree t kvs" "fst ` set kvs \<subseteq> K" and K: "finite K" "card K \<le> 13" by (auto simp: bp_valid_def)
  have c: "bp_contents t = map_of kvs" by (rule bp_contents_leaf_tree [OF kvs(1)])
  show "\<exists>t'. remove t k = Some (t', bp_contents t k \<noteq> None) \<and> bp_valid K t' \<and> bp_contents t' = (bp_contents t)(k := None)"
  proof (cases "k \<in> fst ` set kvs")
    case False
    then have "remove t k = Some (t, False)" using search_leaf_tree [OF kvs(1), of k] by (simp add: remove_def)
    moreover have "bp_contents t k = None" using c False by (simp add: map_of_eq_None_iff)
    ultimately show ?thesis using v by (auto simp: fun_upd_idem)
  next
    case True
    then obtain d where "(k, d) \<in> set kvs" by auto
    then obtain a b where ab: "kvs = a @ (k, d) # b" by (meson split_list)
    obtain t' where t': "remove t k = Some (t', True)" "leaf_tree t' (a @ b)"
      using remove_leaf_tree [of t a k d b] kvs(1) ab by blast
    have "k \<notin> fst ` set a" "k \<notin> fst ` set b" using leaf_tree_distinct [OF kvs(1)] ab by auto
    then have "bp_contents t' = (bp_contents t)(k := None)" "bp_contents t k \<noteq> None"
      using bp_contents_leaf_tree [OF t'(2)] c ab map_of_eq_None_iff [of a k] map_of_eq_None_iff [of b k]
      by (auto simp: fun_eq_iff map_add_def split: option.splits)
    moreover have "bp_valid K t'" using t'(2) kvs(2) K ab unfolding bp_valid_def by (intro conjI exI [of _ "a @ b"]) auto
    ultimately show ?thesis using t'(1) by auto
  qed
qed

end
