(* ===== verification/BPlus_Search.thy ===== *)
theory BPlus_Search
  imports BPlus_Small
begin

text \<open>
  Searching a B+ tree of any height: the abstract tree that a heap represents, when it is sound,
  and exactly which of its keys the search finds; then the properties of the whole B+ tree.
\<close>

section \<open>Abstract trees\<close>

datatype 'k bt = BLeaf "('k \<times> int) list" | BNode "'k list" "'k bt list"

lemma size_nth_child [termination_simp]: "i < length ts \<Longrightarrow> size (ts ! i) < Suc (n + size_list size ts)"
  using size_list_estimation' [of "ts ! i" ts "size (ts ! i)" size] by simp

lemma size_nth_child_le [termination_simp]: "i < length ts \<Longrightarrow> size (ts ! i) \<le> Suc (n + size_list size ts)"
  using size_nth_child [of i ts n] by simp

fun bt_rep :: "'k heap \<Rightarrow> ptr \<Rightarrow> 'k bt \<Rightarrow> bool" where
  "bt_rep h p (BLeaf kvs) \<longleftrightarrow> (\<exists>n. node_at h p = Some n \<and> leaf_rep n kvs)"
| "bt_rep h p (BNode ks ts) \<longleftrightarrow> (\<exists>n cs. node_at h p = Some n \<and> node_rep n ks cs \<and> length cs = length ts
     \<and> (\<forall>i < length ts. bt_rep h (cs ! i) (ts ! i)))"

fun bt_keys :: "'k bt \<Rightarrow> 'k set" where
  "bt_keys (BLeaf kvs) = fst ` set kvs"
| "bt_keys (BNode ks ts) = \<Union> (set (map bt_keys ts))"

text \<open>
  Sound: no node is empty, keys are sorted, each child lies between its separators, and every
  separator is a stored key.
\<close>

fun bt_sound :: "('k :: linorder) bt \<Rightarrow> bool" where
  "bt_sound (BLeaf kvs) \<longleftrightarrow> kvs \<noteq> [] \<and> sorted_wrt (\<lambda>a b. fst a < fst b) kvs"
| "bt_sound (BNode ks ts) \<longleftrightarrow> ks \<noteq> [] \<and> sorted ks \<and> distinct ks \<and> length ts = Suc (length ks)
     \<and> (\<forall>t \<in> set ts. bt_sound t) \<and> set ks \<subseteq> \<Union> (set (map bt_keys ts))
     \<and> (\<forall>i < length ts. \<forall>k \<in> bt_keys (ts ! i). (0 < i \<longrightarrow> ks ! (i - 1) \<le> k) \<and> (i < length ks \<longrightarrow> k < ks ! i))"

text \<open>The keys that the search can reach: on its way down none is beyond the last separator of a node.\<close>

fun bt_reach :: "('k :: linorder) \<Rightarrow> 'k bt \<Rightarrow> bool" where
  "bt_reach key (BLeaf kvs) \<longleftrightarrow> True"
| "bt_reach key (BNode ks ts) \<longleftrightarrow> key \<le> last ks
     \<and> (key \<notin> set ks \<longrightarrow> first_ge ks key < length ts \<longrightarrow> bt_reach key (ts ! first_ge ks key))"

lemma first_ge_bounds:
  assumes "sorted ks" "ks \<noteq> []"
  shows "first_ge ks key < length ks" "j < first_ge ks key \<Longrightarrow> ks ! j < key" "key \<le> last ks \<Longrightarrow> key \<le> ks ! first_ge ks key"
proof -
  let ?w = "length (takeWhile (\<lambda>k. k < key) ks)"
  show "first_ge ks key < length ks" using assms(2) by (simp add: first_ge_def min_less_iff_disj)
  show "ks ! j < key" if "j < first_ge ks key"
  proof -
    have "j < ?w" using that by (simp add: first_ge_def)
    then show ?thesis using takeWhile_nth [of j "\<lambda>k. k < key" ks] nth_mem [of j "takeWhile (\<lambda>k. k < key) ks"] set_takeWhileD by fastforce
  qed
  show "key \<le> ks ! first_ge ks key" if le: "key \<le> last ks"
  proof (cases "?w < length ks")
    case True
    then have "first_ge ks key = ?w" by (simp add: first_ge_def)
    then show ?thesis using nth_length_takeWhile [OF True] by (simp add: not_less)
  next
    case False
    then have "first_ge ks key = length ks - 1" using length_takeWhile_le [of _ ks] by (simp add: first_ge_def)
    then show ?thesis using le assms(2) by (simp add: last_conv_nth)
  qed
qed

lemma sorted_le_last: "sorted ks \<Longrightarrow> k \<in> set ks \<Longrightarrow> k \<le> last ks"
  by (cases ks rule: rev_cases) (auto simp: sorted_append)

lemma bt_child_keys:
  assumes s: "bt_sound (BNode ks ts)" and k: "key \<notin> set ks" and i: "i = first_ge ks key"
  shows "key \<le> last ks \<Longrightarrow> key \<in> bt_keys (BNode ks ts) \<longleftrightarrow> key \<in> bt_keys (ts ! i)"
    "\<not> key \<le> last ks \<Longrightarrow> key \<notin> bt_keys (ts ! i)"
proof -
  have ks: "ks \<noteq> []" "sorted ks" "distinct ks" "length ts = Suc (length ks)"
    and between: "\<And>j x. j < length ts \<Longrightarrow> x \<in> bt_keys (ts ! j) \<Longrightarrow> (0 < j \<longrightarrow> ks ! (j - 1) \<le> x) \<and> (j < length ks \<longrightarrow> x < ks ! j)"
    using s by auto
  note fg = first_ge_bounds [OF ks(2,1), where key = key, folded i]
  show "key \<in> bt_keys (BNode ks ts) \<longleftrightarrow> key \<in> bt_keys (ts ! i)" if le: "key \<le> last ks"
  proof
    have lt: "key < ks ! i" using first_ge_bounds(3) [OF ks(2,1) le] k fg(1) i by (metis nth_mem order_le_less)
    assume "key \<in> bt_keys (BNode ks ts)"
    then obtain j where j: "j < length ts" "key \<in> bt_keys (ts ! j)" by (auto simp: in_set_conv_nth)
    have "\<not> j < i"
    proof
      assume "j < i"
      then have "key < ks ! j" "ks ! j < key" using between [OF j] fg by auto
      then show False by simp
    qed
    moreover have "\<not> i < j"
    proof
      assume "i < j"
      then have "ks ! (j - 1) \<le> key" using between [OF j] by simp
      moreover have "ks ! i \<le> ks ! (j - 1)" using \<open>i < j\<close> j(1) ks(2,4) by (intro sorted_nth_mono) auto
      ultimately show False using lt by simp
    qed
    ultimately show "key \<in> bt_keys (ts ! i)" using j(2) by (metis nat_neq_iff)
  next
    assume "key \<in> bt_keys (ts ! i)"
    moreover have "ts ! i \<in> set ts" using fg(1) ks(4) by simp
    ultimately show "key \<in> bt_keys (BNode ks ts)" by auto
  qed
  show "key \<notin> bt_keys (ts ! i)" if "\<not> key \<le> last ks"
  proof
    assume "key \<in> bt_keys (ts ! i)"
    then have "key < ks ! i" using between [of i key] fg(1) ks(4) by simp
    moreover have "ks ! i \<le> last ks" using fg(1) ks(1,2) by (simp add: last_conv_nth sorted_nth_mono)
    ultimately show False using that by simp
  qed
qed

text \<open>
  C9: what the search of a B+ tree finds.  On every heap that represents a sound tree of any height,
  \<open>recursive_search\<close> returns without undefined behaviour; it answers true exactly for the stored
  keys that are not greater than the last separator of each node on the way to them.  So it is right
  about every key it claims, and it misses the keys of the last child that are not separators.
\<close>

theorem search_finds_reachable:
  assumes "bt_rep (nodes_h t) (m_Root t) b" "bt_sound b"
  shows "search t key = Some (key \<in> bt_keys b \<and> bt_reach key b)"
proof -
  have "bt_rep h p b \<Longrightarrow> bt_sound b \<Longrightarrow> recursive_search h p key = Some (key \<in> bt_keys b \<and> bt_reach key b)" for h p
  proof (induction b arbitrary: p)
    case (BLeaf kvs)
    then obtain n where n: "node_at h p = Some n" "leaf_rep n kvs" by auto
    have s: "kvs \<noteq> []" "sorted_wrt (\<lambda>a b. fst a < fst b) kvs" using BLeaf.prems(2) by auto
    let ?i = "first_ge (map fst kvs) key"
    note gi = leaf_getKeyIndex [OF n(2) s, of key]
    have kn: "m_KeyNum n = int (length kvs)" "m_Type n = LEAF" using n(2) by (simp_all add: leaf_rep_def)
    have gk: "getKeyValue n (int ?i) = Some (fst (kvs ! ?i))" using leaf_rep_key [OF n(2), of "int ?i"] gi(2) by simp
    have "fst (kvs ! ?i) = key \<longleftrightarrow> key \<in> fst ` set kvs"
      using first_ge_hit [of "map fst kvs" key] leaf_sorted_keys [OF s(2)] s(1) gi(2) by auto
    then show ?case
      using n(1) gi gk kn node_atD [OF n(1)] by (subst recursive_search.simps) (auto simp: getChildIndex_def)
  next
    case (BNode ks ts)
    then obtain n cs where n: "node_at h p = Some n" "node_rep n ks cs" "length cs = length ts"
      "\<And>i. i < length ts \<Longrightarrow> bt_rep h (cs ! i) (ts ! i)" by auto
    have s: "ks \<noteq> []" "sorted ks" "distinct ks" "length ts = Suc (length ks)" "\<And>u. u \<in> set ts \<Longrightarrow> bt_sound u"
      and sep: "set ks \<subseteq> bt_keys (BNode ks ts)"
      using BNode.prems(2) by auto
    have kn: "m_KeyNum n = int (length ks)" "m_Type n = INTERNAL" using n(2) by (simp_all add: node_rep_def)
    define i where "i = first_ge ks key"
    have i: "getKeyIndex n key = Some (int i)" "i < length ks"
    proof -
      have "\<And>j. 0 \<le> j \<Longrightarrow> j < int (length ks) \<Longrightarrow> getKeyValue n j = Some (ks ! nat j)" by (rule node_rep_key [OF n(2)])
      from getKeyIndex_spec [OF this kn(1) s(1), of key] s(2)
      show "getKeyIndex n key = Some (int i)" "i < length ks" by (auto simp: i_def)
    qed
    have gk: "getKeyValue n (int i) = Some (ks ! i)" using node_rep_key [OF n(2), of "int i"] i(2) by simp
    have hit: "ks ! i = key \<longleftrightarrow> key \<in> set ks" unfolding i_def by (rule first_ge_hit [OF s(2,3,1)])
    have p: "p \<noteq> 0" using node_atD [OF n(1)] by simp
    show ?case
    proof (cases "key \<in> set ks")
      case True
      then have "key \<le> last ks" using sorted_le_last [OF s(2)] by simp
      moreover have "recursive_search h p key = Some True"
        using n(1) p i gk kn hit True by (subst recursive_search.simps) (simp add: getChildIndex_def)
      ultimately show ?thesis using True sep by auto
    next
      case False
      have c: "getChild n (int i) = Some (cs ! i)" using node_rep_child [OF n(2), of "int i"] i(2) by simp
      have it: "i < length ts" using i(2) s(4) by simp
      have step: "recursive_search h p key = recursive_search h (cs ! i) key"
        using n(1) p i gk kn hit False c by (subst recursive_search.simps) (auto simp: getChildIndex_def)
      have ih: "recursive_search h (cs ! i) key = Some (key \<in> bt_keys (ts ! i) \<and> bt_reach key (ts ! i))"
        using it n(4) s(5) by (intro BNode.IH) auto
      note ck = bt_child_keys [OF BNode.prems(2) False i_def]
      have "(key \<in> bt_keys (ts ! i) \<and> bt_reach key (ts ! i)) \<longleftrightarrow> (key \<in> bt_keys (BNode ks ts) \<and> bt_reach key (BNode ks ts))"
      proof (cases "key \<le> last ks")
        case True
        then show ?thesis using ck(1) False it by (auto simp: i_def)
      next
        case False
        then show ?thesis using ck(2) by simp
      qed
      then show ?thesis using step ih by simp
    qed
  qed
  then show ?thesis using assms by (simp add: search_def)
qed

text \<open>A leaf with given entries and an internal node with given keys and children.\<close>

definition mk_leaf :: "('k \<times> int) list \<Rightarrow> ptr \<Rightarrow> 'k cnode" where
  "mk_leaf kvs right = \<lparr>m_Type = LEAF, m_KeyNum = int (length kvs),
     m_KeyValues = map (Some \<circ> fst) kvs @ replicate (13 - length kvs) None, m_Childs = [], m_LeftSibling = 0,
     m_RightSibling = right, m_Datas = map (Some \<circ> snd) kvs @ replicate (13 - length kvs) None\<rparr>"

definition mk_node :: "'k list \<Rightarrow> ptr list \<Rightarrow> 'k cnode" where
  "mk_node ks cs = \<lparr>m_Type = INTERNAL, m_KeyNum = int (length ks),
     m_KeyValues = map Some ks @ replicate (13 - length ks) None,
     m_Childs = map Some cs @ replicate (14 - length cs) None, m_LeftSibling = 0, m_RightSibling = 0, m_Datas = []\<rparr>"

lemma mk_leaf_rep: "length kvs \<le> 13 \<Longrightarrow> leaf_rep (mk_leaf kvs r) kvs"
  by (simp add: mk_leaf_def leaf_rep_def)

lemma mk_node_rep: "length ks \<le> 13 \<Longrightarrow> length cs = Suc (length ks) \<Longrightarrow> node_rep (mk_node ks cs) ks cs"
  by (simp add: mk_node_def node_rep_def)

definition sample_tree :: "int cbtree" where
  "sample_tree = \<lparr>nodes_h = [Some (mk_leaf [(1, 10), (2, 20), (3, 30), (4, 40), (5, 50), (6, 60)] 2),
       Some (mk_leaf [(7, 70), (8, 80), (9, 90), (10, 100), (11, 110), (12, 120), (13, 130)] 0), Some (mk_node [7] [1, 2])],
     m_Root = 3, m_DataHead = 1, m_MaxKey = Some 13\<rparr>"

definition sample_bt :: "int bt" where
  "sample_bt = BNode [7] [BLeaf [(1, 10), (2, 20), (3, 30), (4, 40), (5, 50), (6, 60)],
     BLeaf [(7, 70), (8, 80), (9, 90), (10, 100), (11, 110), (12, 120), (13, 130)]]"

lemma sample_rep: "bt_rep (nodes_h sample_tree) (m_Root sample_tree) sample_bt"
proof -
  let ?h = "nodes_h sample_tree"
  have "node_at ?h 1 = Some (mk_leaf [(1, 10), (2, 20), (3, 30), (4, 40), (5, 50), (6, 60)] 2)"
    "node_at ?h 2 = Some (mk_leaf [(7, 70), (8, 80), (9, 90), (10, 100), (11, 110), (12, 120), (13, 130)] 0)"
    "node_at ?h 3 = Some (mk_node [7] [1, 2])"
    by (simp_all add: sample_tree_def node_at_def rd_def)
  moreover have "bt_rep ?h 3 (BNode [7] [BLeaf kvs, BLeaf kvs2])"
    if "node_at ?h 1 = Some (mk_leaf kvs r)" "node_at ?h 2 = Some (mk_leaf kvs2 r2)" "node_at ?h 3 = Some (mk_node [7] [1, 2])"
      "length kvs \<le> 13" "length kvs2 \<le> 13" for kvs kvs2 r r2
    using that mk_leaf_rep [of kvs r] mk_leaf_rep [of kvs2 r2] mk_node_rep [of "[7]" "[1, 2]"]
    by (auto simp: less_Suc_eq intro!: exI [of _ "[1, 2]"])
  ultimately show ?thesis by (simp add: sample_bt_def sample_tree_def)
qed

lemma sample_sound: "bt_sound sample_bt"
  by (simp add: sample_bt_def less_Suc_eq all_conj_distrib)

text \<open>In the witness the stored key 9 is not found, and the stored key 4 is.\<close>

theorem search_finds_reachable_witness:
  "search sample_tree 9 = Some False \<and> 9 \<in> bt_keys sample_bt \<and> search sample_tree 4 = Some True"
  using search_finds_reachable [OF sample_rep sample_sound, of 9] search_finds_reachable [OF sample_rep sample_sound, of 4]
  by (simp add: sample_bt_def first_ge_def)

section \<open>Building a tree\<close>

fun insert_all :: "('k :: linorder) cbtree \<Rightarrow> ('k \<times> int) list \<Rightarrow> ('k cbtree \<times> bool list) option" where
  "insert_all t [] = Some (t, [])"
| "insert_all t ((k, d) # kvs) = do { (t, r) \<leftarrow> insert t k d; (t, rs) \<leftarrow> insert_all t kvs; Some (t, r # rs) }"

text \<open>
  Ascending insertion loses keys.  Inserting 1, 2, ..., 21 in this order into an empty tree is
  accepted for every key, but afterwards the search denies the keys 7 to 13, and the leaves are no
  longer in key order.
\<close>

theorem ascending_insertion_loses:
  "\<exists>t. insert_all (new_CBPlusTree :: int cbtree) (map (\<lambda>k. (k, 100 + k)) [1..21]) = Some (t, replicate 21 True)
    \<and> map (search t) [1..6] = replicate 6 (Some True) \<and> map (search t) [7..13] = replicate 7 (Some False)
    \<and> map (search t) [14..21] = replicate 8 (Some True)
    \<and> printData t = Some [101, 102, 103, 104, 105, 106, 114, 115, 116, 117, 118, 119, 120, 121, 107, 108, 109, 110, 111, 112, 113]"
proof -
  have "map_option (\<lambda>(t, rs). (rs, map (search t) [1..6], map (search t) [7..13], map (search t) [14..21], printData t))
      (insert_all (new_CBPlusTree :: int cbtree) (map (\<lambda>k. (k, 100 + k)) [1..21]))
    = Some (replicate 21 True, replicate 6 (Some True), replicate 7 (Some False), replicate 8 (Some True),
        Some [101, 102, 103, 104, 105, 106, 114, 115, 116, 117, 118, 119, 120, 121, 107, 108, 109, 110, 111, 112, 113])"
    by code_simp
  then show ?thesis by auto
qed

lemma insert_all_leaf_tree:
  "leaf_tree t us \<Longrightarrow> distinct (map fst (us @ kvs)) \<Longrightarrow> length us + length kvs \<le> 13 \<Longrightarrow>
   \<exists>t' ws. insert_all t kvs = Some (t', replicate (length kvs) True) \<and> leaf_tree t' ws \<and> mset ws = mset us + mset kvs"
proof (induction kvs arbitrary: t us)
  case (Cons p kvs)
  obtain k d where p: "p = (k, d)" by (cases p)
  have "k \<notin> fst ` set us" "length us < 13" using Cons.prems(2,3) p by auto
  then obtain t1 a b where t1: "insert t k d = Some (t1, True)" "us = a @ b" "leaf_tree t1 (a @ (k, d) # b)"
    using insert_leaf_tree [OF Cons.prems(1)] by blast
  have "distinct (map fst ((a @ (k, d) # b) @ kvs))" "length (a @ (k, d) # b) + length kvs \<le> 13"
    using Cons.prems(2,3) p t1(2) by auto
  from Cons.IH [OF t1(3) this]
  obtain t' ws where "insert_all t1 kvs = Some (t', replicate (length kvs) True)" "leaf_tree t' ws"
    "mset ws = mset (a @ (k, d) # b) + mset kvs" by blast
  then show ?case using t1 p by auto
qed auto

lemma new_leaf_tree: "leaf_tree new_CBPlusTree []"
  by (simp add: leaf_tree_def new_CBPlusTree_def)

lemma sort_cong_mset: "mset xs = mset ys \<Longrightarrow> sort xs = sort (ys :: int list)"
  by (metis properties_for_sort sorted_sort mset_sort)

text \<open>
  C13: selection in a tree of one leaf.  After distinct keys, at most 13 and at least one, have been inserted into an empty
  tree in any order, which makes a tree of one leaf (larger trees lose keys, see \<open>search_finds_reachable\<close>), \<open>select\<close> with any comparison returns the data of exactly the keys that satisfy
  it, and the range query the data of exactly the keys in the range, in ascending order of the data.
\<close>

theorem bplus_select:
  assumes "distinct (map fst kvs)" "0 < length kvs" "length kvs \<le> 13"
  shows "\<exists>t. insert_all new_CBPlusTree kvs = Some (t, replicate (length kvs) True)
    \<and> (\<forall>key op. select_cmp t key op = Some (sort (map snd (filter (\<lambda>q. cmp_holds op key (fst q)) kvs))))
    \<and> (\<forall>lo hi. select_range t lo hi = Some (sort (map snd (filter (\<lambda>q. lo \<le> fst q \<and> fst q \<le> hi) kvs))))"
proof -
  obtain t ws where t: "insert_all new_CBPlusTree kvs = Some (t, replicate (length kvs) True)" "leaf_tree t ws" "mset ws = mset kvs"
    using insert_all_leaf_tree [OF new_leaf_tree, of kvs] assms by auto
  have "ws \<noteq> []" using t(3) assms(2) by auto
  moreover have "sort (map snd (filter P ws)) = sort (map snd (filter P kvs))" for P
    using t(3) by (intro sort_cong_mset) simp
  ultimately show ?thesis using t(1) select_leaf_tree [OF t(2)] select_range_leaf_tree [OF t(2)] by auto
qed

theorem bplus_select_witness:
  "\<exists>t. insert_all new_CBPlusTree [(5 :: int, 50), (2, 20), (9, 10)] = Some (t, [True, True, True])
    \<and> select_cmp t 5 LE = Some [20, 50] \<and> select_range t 3 9 = Some [10, 50]"
proof -
  let ?kvs = "[(5 :: int, 50 :: int), (2, 20), (9, 10)]"
  have "distinct (map fst ?kvs)" "0 < length ?kvs" "length ?kvs \<le> 13" by simp_all
  from bplus_select [OF this]
  obtain t where t: "insert_all new_CBPlusTree ?kvs = Some (t, replicate (length ?kvs) True)"
    and c: "\<forall>key op. select_cmp t key op = Some (sort (map snd (filter (\<lambda>q. cmp_holds op key (fst q)) ?kvs)))"
    and r: "\<forall>lo hi. select_range t lo hi = Some (sort (map snd (filter (\<lambda>q. lo \<le> fst q \<and> fst q \<le> hi) ?kvs)))"
    by blast
  have "replicate (length ?kvs) True = [True, True, True]" by simp
  moreover have "select_cmp t 5 LE = Some [20, 50]" using spec [OF spec [OF c, of 5], of LE] by simp
  moreover have "select_range t 3 9 = Some [10, 50]" using spec [OF spec [OF r, of 3], of 9] by simp
  ultimately show ?thesis using t by metis
qed

text \<open>
  C10: the small tree is a map.  For any set of at most 13 keys, any sequence of searches
  with selection, insertions and removals of these keys on an empty tree runs without undefined
  behaviour and answers as a map from keys to data does: a new key is inserted, a present key is
  refused and keeps its data, a removal reports whether the key was there.
\<close>

theorem bplus_small_is_map:
  fixes K :: "('k :: linorder) set"
  assumes "finite K" "card K \<le> 13" "\<forall>p \<in> set ops. kv_key p \<in> K"
  shows "\<exists>t rs m. kv_run bp_get bp_ins remove new_CBPlusTree ops = Some (t, rs) \<and> kv_conforms Map.empty ops rs m"
proof -
  have "bp_valid K new_CBPlusTree"
    unfolding bp_valid_def using assms(1,2) new_leaf_tree by (intro conjI exI [of _ "[]"]) auto
  moreover have "list_all (\<lambda>p. kv_key p \<in> K) ops" using assms(3) by (simp add: list_all_iff)
  moreover have "bp_contents (new_CBPlusTree :: 'k cbtree) = Map.empty" using bp_contents_leaf_tree [OF new_leaf_tree] by simp
  ultimately obtain t rs where "kv_run bp_get bp_ins remove new_CBPlusTree ops = Some (t, rs)"
    "kv_conforms Map.empty ops rs (bp_contents t)"
    using bp.run_conforms [of K new_CBPlusTree ops] by auto
  then show ?thesis by blast
qed

theorem bplus_small_is_map_witness:
  "\<exists>t rs m. kv_run bp_get bp_ins remove new_CBPlusTree [KInsert (4 :: int) 40, KInsert 2 20, KInsert 4 41, KGet 4, KRemove 2, KGet 2] = Some (t, rs)
     \<and> kv_conforms Map.empty [KInsert (4 :: int) 40, KInsert 2 20, KInsert 4 41, KGet 4, KRemove 2, KGet 2] rs m"
  by (rule bplus_small_is_map [of "{2, 4}"]) auto

end
