(* ===== verification/BPlus_Repair.thy ===== *)
theory BPlus_Repair
  imports BPlus_Search
begin

text \<open>
  Splitting a full node, merging two minimal nodes and borrowing from a sibling, on the heap: what
  each does to the nodes involved, and where the code damages the tree.
\<close>

section \<open>Copying\<close>

lemma upt_first: "[i..<Suc (i + m)] = i # [Suc i..<Suc (i + m)]"
  by (subst upt_conv_Cons) simp_all

lemma copy_keys_spec:
  "(\<And>j. i \<le> j \<Longrightarrow> j < i + m \<Longrightarrow> getKeyValue src (int j + from) = Some (f j)) \<Longrightarrow>
   m_KeyValues dst = a @ b \<Longrightarrow> length a = i \<Longrightarrow> m \<le> length b \<Longrightarrow>
   copy_keys m (int i) from src dst = Some (dst\<lparr>m_KeyValues := a @ map (\<lambda>j. Some (f j)) [i..<i + m] @ drop m b\<rparr>)"
proof (induction m arbitrary: i a b dst)
  case (Suc m)
  obtain x b' where b: "b = x # b'" using Suc.prems(4) by (cases b) auto
  let ?d = "dst\<lparr>m_KeyValues := (a @ [Some (f i)]) @ b'\<rparr>"
  have "copy_keys (Suc m) (int i) from src dst = copy_keys m (int (Suc i)) from src ?d"
    using Suc.prems(1) [of i] set_key [of dst a x b' "int i" "f i"] Suc.prems(2,3) b by (simp add: add.commute)
  also have "\<dots> = Some (?d\<lparr>m_KeyValues := (a @ [Some (f i)]) @ map (\<lambda>j. Some (f j)) [Suc i..<Suc i + m] @ drop m b'\<rparr>)"
    using Suc.prems b by (intro Suc.IH) auto
  finally show ?case using b by (simp add: upt_first del: upt_Suc)
qed simp

lemma copy_childs_spec:
  "(\<And>j. i \<le> j \<Longrightarrow> j < i + m \<Longrightarrow> getChild src (int j + from) = Some (f j)) \<Longrightarrow>
   m_Childs dst = a @ b \<Longrightarrow> length a = i \<Longrightarrow> m \<le> length b \<Longrightarrow>
   copy_childs m (int i) from src dst = Some (dst\<lparr>m_Childs := a @ map (\<lambda>j. Some (f j)) [i..<i + m] @ drop m b\<rparr>)"
proof (induction m arbitrary: i a b dst)
  case (Suc m)
  obtain x b' where b: "b = x # b'" using Suc.prems(4) by (cases b) auto
  let ?d = "dst\<lparr>m_Childs := (a @ [Some (f i)]) @ b'\<rparr>"
  have "copy_childs (Suc m) (int i) from src dst = copy_childs m (int (Suc i)) from src ?d"
    using Suc.prems(1) [of i] set_child [of dst a x b' "int i" "f i"] Suc.prems(2,3) b by (simp add: add.commute)
  also have "\<dots> = Some (?d\<lparr>m_Childs := (a @ [Some (f i)]) @ map (\<lambda>j. Some (f j)) [Suc i..<Suc i + m] @ drop m b'\<rparr>)"
    using Suc.prems b by (intro Suc.IH) auto
  finally show ?case using b by (simp add: upt_first del: upt_Suc)
qed simp

lemma copy_datas_spec:
  "(\<And>j. i \<le> j \<Longrightarrow> j < i + m \<Longrightarrow> getData src (int j + from) = Some (f j)) \<Longrightarrow>
   m_Datas dst = a @ b \<Longrightarrow> length a = i \<Longrightarrow> m \<le> length b \<Longrightarrow>
   copy_datas m (int i) from src dst = Some (dst\<lparr>m_Datas := a @ map (\<lambda>j. Some (f j)) [i..<i + m] @ drop m b\<rparr>)"
proof (induction m arbitrary: i a b dst)
  case (Suc m)
  obtain x b' where b: "b = x # b'" using Suc.prems(4) by (cases b) auto
  let ?d = "dst\<lparr>m_Datas := (a @ [Some (f i)]) @ b'\<rparr>"
  have "copy_datas (Suc m) (int i) from src dst = copy_datas m (int (Suc i)) from src ?d"
    using Suc.prems(1) [of i] set_data [of dst a x b' "int i" "f i"] Suc.prems(2,3) b by (simp add: add.commute)
  also have "\<dots> = Some (?d\<lparr>m_Datas := (a @ [Some (f i)]) @ map (\<lambda>j. Some (f j)) [Suc i..<Suc i + m] @ drop m b'\<rparr>)"
    using Suc.prems b by (intro Suc.IH) auto
  finally show ?case using b by (simp add: upt_first del: upt_Suc)
qed simp

lemma map_drop_nth: "n \<le> length xs \<Longrightarrow> m = length xs - n \<Longrightarrow> map (\<lambda>j. Some (g (xs ! (j + n)))) [0..<m] = map (Some \<circ> g) (drop n xs)"
  by (rule nth_equalityI) (auto simp: add.commute)

section \<open>Splitting\<close>

lemma leaf_rep_take:
  "leaf_rep n kvs \<Longrightarrow> m \<le> length kvs \<Longrightarrow> leaf_rep (n\<lparr>m_KeyNum := int m, m_RightSibling := r\<rparr>) (take m kvs)"
proof -
  assume a: "leaf_rep n kvs" "m \<le> length kvs"
  then obtain r' s where "m_KeyValues n = map (Some \<circ> fst) kvs @ r'" "m_Datas n = map (Some \<circ> snd) kvs @ s" by (auto simp: leaf_rep_def)
  then have "m_KeyValues n = map (Some \<circ> fst) (take m kvs) @ (map (Some \<circ> fst) (drop m kvs) @ r')"
    "m_Datas n = map (Some \<circ> snd) (take m kvs) @ (map (Some \<circ> snd) (drop m kvs) @ s)"
    by (metis append.assoc append_take_drop_id map_append)+
  then show ?thesis using a by (auto simp: leaf_rep_def)
qed

lemma node_rep_take:
  assumes "node_rep n ks cs" "m \<le> length ks"
  shows "node_rep (n\<lparr>m_KeyNum := int m\<rparr>) (take m ks) (take (Suc m) cs)"
proof -
  obtain r s where "m_KeyValues n = map Some ks @ r" "m_Childs n = map Some cs @ s" using assms(1) by (auto simp: node_rep_def)
  then have "m_KeyValues n = map Some (take m ks) @ (map Some (drop m ks) @ r)"
    "m_Childs n = map Some (take (Suc m) cs) @ (map Some (drop (Suc m) cs) @ s)"
    by (metis append.assoc append_take_drop_id map_append)+
  then show ?thesis using assms by (auto simp: node_rep_def)
qed

lemma node_at_distinct:
  assumes "node_at h p = Some n" "node_at h q = Some n'" "m_Type n \<noteq> m_Type n'"
  shows "p \<noteq> q"
  using assms by auto

text \<open>
  C14: splitting a full leaf.  A leaf of 13 entries keeps its first 6; a new leaf gets the other 7; the parent
  gets the first key of the new leaf as separator and the new leaf as the child behind the old one; and
  the chain of leaves runs from the old to the new leaf and on to the former right neighbour.
\<close>

theorem leaf_split_correct:
  assumes "node_at h p = Some n" "leaf_rep n kvs" "length kvs = 13"
    and "node_at h q = Some par" "node_rep par (k1 @ k2) (c1 @ p # c2)" "length c1 = length k1" "length k1 + length k2 < 13"
  shows "\<exists>h' left right par' r. split_node p q (int (length k1)) h = Some h' \<and> r = Suc (length h)
    \<and> node_at h' p = Some left \<and> leaf_rep left (take 6 kvs) \<and> m_RightSibling left = r
    \<and> node_at h' r = Some right \<and> leaf_rep right (drop 6 kvs) \<and> m_RightSibling right = m_RightSibling n \<and> m_LeftSibling right = p
    \<and> node_at h' q = Some par' \<and> node_rep par' (k1 @ fst (kvs ! 6) # k2) (c1 @ p # r # c2)
    \<and> (\<forall>x. x \<noteq> p \<longrightarrow> x \<noteq> q \<longrightarrow> x \<noteq> r \<longrightarrow> node_at h' x = node_at h x)"
proof -
  have ty: "m_Type n = LEAF" "m_Type par = INTERNAL" using assms(2,5) by (simp_all add: leaf_rep_def node_rep_def)
  have pq: "p \<noteq> q" using node_at_distinct [OF assms(1,4)] ty by simp
  let ?new = "(new_CNode LEAF :: 'a cnode)\<lparr>m_KeyNum := 7, m_RightSibling := m_RightSibling n, m_LeftSibling := p\<rparr>"
  let ?k = "map (\<lambda>j. Some (fst (kvs ! (j + 6)))) [0..<0 + 7] @ drop 7 (replicate 13 None)"
  let ?d = "map (\<lambda>j. Some (snd (kvs ! (j + 6)))) [0..<0 + 7] @ drop 7 (replicate 13 None)"
  let ?right = "?new\<lparr>m_KeyValues := [] @ ?k, m_Datas := [] @ ?d\<rparr>"
  let ?left = "n\<lparr>m_KeyNum := 6, m_RightSibling := Suc (length h)\<rparr>"
  have ck: "copy_keys 7 (int 0) 6 n ?new = Some (?new\<lparr>m_KeyValues := [] @ ?k\<rparr>)"
    using leaf_rep_key [OF assms(2)] assms(3)
    by (intro copy_keys_spec) (auto simp: new_CNode_def order_defs nat_add_distrib)
  have cd: "copy_datas 7 (int 0) 6 n (?new\<lparr>m_KeyValues := [] @ ?k\<rparr>) = Some (?new\<lparr>m_KeyValues := [] @ ?k, m_Datas := [] @ ?d\<rparr>)"
    using leaf_rep_data [OF assms(2)] assms(3)
    by (subst copy_datas_spec [where a = "[]" and b = "replicate 13 None" and f = "\<lambda>j. snd (kvs ! (j + 6))"])
      (auto simp: new_CNode_def order_defs nat_add_distrib)
  let ?h1 = "h @ [Some ?right]"
  have at1: "node_at ?h1 p = Some n" "node_at ?h1 q = Some par" using assms(1,4) by (simp_all add: node_at_new_old)
  let ?h2 = "?h1[p - 1 := Some ?left]"
  have put: "put_node p ?left ?h1 = Some ?h2" using at1(1) node_atD [OF at1(1)] by (simp add: put_node_def)
  have k6: "getKeyValue n 6 = Some (fst (kvs ! 6))" using leaf_rep_key [OF assms(2), of 6] assms(3) by simp
  obtain par' where par': "internal_insert (int (length k1)) (int (length k1) + 1) (fst (kvs ! 6)) (Suc (length h)) par = Some par'"
    "node_rep par' (k1 @ fst (kvs ! 6) # k2) (c1 @ p # Suc (length h) # c2)"
    using internal_insert_spec(1) [OF assms(5,7,6)] by blast
  have at2: "node_at ?h2 q = Some par" using node_at_upd_other [OF at1(1), of q] pq at1(2) by simp
  let ?h3 = "?h2[q - 1 := Some par']"
  have on: "on_node q (internal_insert (int (length k1)) (int (length k1) + 1) (fst (kvs ! 6)) (Suc (length h))) ?h2 = Some ?h3"
    by (rule on_node_eq [OF at2]) (rule par'(1))
  have "split_node p q (int (length k1)) h = Some ?h3"
    using assms(1) ty ck cd put k6 on by (simp add: split_node_def leaf_split_def new_node_def order_defs Let_def)
  moreover have "node_at ?h3 q = Some par'" by (rule node_at_upd [OF at2])
  moreover have "node_at ?h3 p = Some ?left" 
    using node_at_upd_other [OF at2, of p "Some par'"] node_at_upd [OF at1(1), of ?left] pq by (simp only:) simp
  moreover have "node_at ?h3 (Suc (length h)) = Some ?right"
  proof -
    have "Suc (length h) \<noteq> q" "Suc (length h) \<noteq> p" using node_atD [OF assms(4)] node_atD [OF assms(1)] by auto
    then show ?thesis using node_at_upd_other [OF at2, of "Suc (length h)"] node_at_upd_other [OF at1(1), of "Suc (length h)"] by simp
  qed
  moreover have "leaf_rep ?left (take 6 kvs)" using leaf_rep_take [OF assms(2), of 6] assms(3) by simp
  moreover have "leaf_rep ?right (drop 6 kvs)"
    using assms(3) map_drop_nth [of 6 kvs 7 fst] map_drop_nth [of 6 kvs 7 snd] by (simp add: leaf_rep_def new_CNode_def)
  moreover have "node_at ?h3 x = node_at h x" if "x \<noteq> p" "x \<noteq> q" "x \<noteq> Suc (length h)" for x
  proof -
    have "node_at ?h3 x = node_at ?h1 x" using node_at_upd_other [OF at2] node_at_upd_other [OF at1(1)] that by simp
    also have "\<dots> = node_at h x" using that by (auto simp: node_at_def rd_def nth_append less_Suc_eq)
    finally show ?thesis .
  qed
  moreover have "m_RightSibling ?right = m_RightSibling n" "m_LeftSibling ?right = p" "m_RightSibling ?left = Suc (length h)" by simp_all
  ultimately show ?thesis using par'(2) by blast
qed

definition full_leaf :: "(int \<times> int) list" where "full_leaf = map (\<lambda>i. (int i, 10 * int i)) [0..<13]"

theorem leaf_split_correct_witness:
  "\<exists>h' left right par'. split_node 1 2 0 [Some (mk_leaf full_leaf 0), Some (mk_node [] [1])] = Some h'
     \<and> node_at h' 1 = Some left \<and> leaf_rep left (take 6 full_leaf)
     \<and> node_at h' 3 = Some right \<and> leaf_rep right (drop 6 full_leaf)
     \<and> node_at h' 2 = Some par' \<and> node_rep par' [6] [1, 3]"
proof -
  let ?h = "[Some (mk_leaf full_leaf 0), Some (mk_node [] [1])]"
  have len: "length full_leaf = 13" "fst (full_leaf ! 6) = 6" by (simp_all add: full_leaf_def)
  have a: "node_at ?h 1 = Some (mk_leaf full_leaf 0)" "leaf_rep (mk_leaf full_leaf 0) full_leaf" "length full_leaf = 13"
    "node_at ?h 2 = Some (mk_node [] [1])" "node_rep (mk_node [] [1]) ([] @ []) ([] @ (1 :: ptr) # [])"
    "length ([] :: ptr list) = length ([] :: int list)" "length ([] :: int list) + length ([] :: int list) < 13"
    using len by (simp_all add: node_at_def rd_def mk_leaf_rep mk_node_rep)
  obtain h' left right par' where r: "split_node 1 2 (int (length ([] :: int list))) ?h = Some h'" "node_at h' 1 = Some left"
    "leaf_rep left (take 6 full_leaf)" "node_at h' (Suc (length ?h)) = Some right" "leaf_rep right (drop 6 full_leaf)"
    "node_at h' 2 = Some par'" "node_rep par' ([] @ fst (full_leaf ! 6) # []) ([] @ 1 # Suc (length ?h) # [])"
    using leaf_split_correct [OF a] by blast
  have "split_node 1 2 0 ?h = Some h'" using r(1) by simp
  moreover have "node_at h' 3 = Some right" using r(4) by (simp add: numeral_3_eq_3)
  moreover have "node_rep par' [6] [1, 3]" using r(7) len(2) by (simp add: numeral_3_eq_3)
  ultimately show ?thesis using r(2,3,5,6) by blast
qed

text \<open>The same for an internal node of 13 keys: its middle key moves up into the parent.\<close>

lemma internal_split_correct:
  assumes "node_at h p = Some n" "node_rep n ks cs" "length ks = 13"
    and "node_at h q = Some par" "node_rep par (k1 @ k2) (c1 @ p # c2)" "length c1 = length k1" "length k1 + length k2 < 13"
    and "p \<noteq> q"
  shows "\<exists>h' left right par' r. split_node p q (int (length k1)) h = Some h' \<and> r = Suc (length h)
    \<and> node_at h' p = Some left \<and> node_rep left (take 6 ks) (take 7 cs)
    \<and> node_at h' r = Some right \<and> node_rep right (drop 7 ks) (drop 7 cs)
    \<and> node_at h' q = Some par' \<and> node_rep par' (k1 @ ks ! 6 # k2) (c1 @ p # r # c2)"
proof -
  have ty: "m_Type n = INTERNAL" "length cs = 14" using assms(2,3) by (simp_all add: node_rep_def)
  let ?new = "(new_CNode INTERNAL :: 'a cnode)\<lparr>m_KeyNum := 6\<rparr>"
  let ?k = "map (\<lambda>j. Some (ks ! (j + 7))) [0..<0 + 6] @ drop 6 (replicate 13 None)"
  let ?c = "map (\<lambda>j. Some (cs ! (j + 7))) [0..<0 + 7] @ drop 7 (replicate 14 None)"
  let ?right = "?new\<lparr>m_KeyValues := [] @ ?k, m_Childs := [] @ ?c\<rparr>"
  let ?left = "n\<lparr>m_KeyNum := 6\<rparr>"
  have ck: "copy_keys 6 (int 0) 7 n ?new = Some (?new\<lparr>m_KeyValues := [] @ ?k\<rparr>)"
    using node_rep_key [OF assms(2)] assms(3)
    by (intro copy_keys_spec) (auto simp: new_CNode_def order_defs nat_add_distrib)
  have cc: "copy_childs 7 (int 0) 7 n (?new\<lparr>m_KeyValues := [] @ ?k\<rparr>) = Some ?right"
    using node_rep_child [OF assms(2)] assms(3)
    by (subst copy_childs_spec [where a = "[]" and b = "replicate 14 None" and f = "\<lambda>j. cs ! (j + 7)"])
      (auto simp: new_CNode_def order_defs nat_add_distrib)
  let ?h1 = "h[p - 1 := Some ?left]"
  have put: "put_node p ?left h = Some ?h1" using assms(1) node_atD [OF assms(1)] by (simp add: put_node_def)
  have at1: "node_at ?h1 p = Some ?left" "node_at ?h1 q = Some par"
    using node_at_upd [OF assms(1)] node_at_upd_other [OF assms(1), of q] assms(4,8) by simp_all
  let ?h2 = "?h1 @ [Some ?right]"
  have at2: "node_at ?h2 p = Some ?left" "node_at ?h2 q = Some par" "node_at ?h2 (Suc (length h)) = Some ?right"
    using node_at_new_old [OF at1(1)] node_at_new_old [OF at1(2)] node_at_new [of ?h1 ?right] by simp_all
  have k6: "getKeyValue n 6 = Some (ks ! 6)" using node_rep_key [OF assms(2), of 6] assms(3) by simp
  obtain par' where par': "internal_insert (int (length k1)) (int (length k1) + 1) (ks ! 6) (Suc (length h)) par = Some par'"
    "node_rep par' (k1 @ ks ! 6 # k2) (c1 @ p # Suc (length h) # c2)"
    using internal_insert_spec(1) [OF assms(5,7,6)] by blast
  let ?h3 = "?h2[q - 1 := Some par']"
  have on: "on_node q (internal_insert (int (length k1)) (int (length k1) + 1) (ks ! 6) (Suc (length h))) ?h2 = Some ?h3"
    by (rule on_node_eq [OF at2(2)]) (rule par'(1))
  have "split_node p q (int (length k1)) h = Some ?h3"
    using assms(1) ty ck cc put k6 on by (simp add: split_node_def internal_split_def new_node_def order_defs Let_def)
  moreover have "node_at ?h3 q = Some par'" by (rule node_at_upd [OF at2(2)])
  moreover have "node_at ?h3 p = Some ?left" using node_at_upd_other [OF at2(2), of p] assms(8) at2(1) by simp
  moreover have "node_at ?h3 (Suc (length h)) = Some ?right"
  proof -
    have "Suc (length h) \<noteq> q" using node_atD [OF assms(4)] by auto
    then show ?thesis using node_at_upd_other [OF at2(2), of "Suc (length h)"] at2(3) by simp
  qed
  moreover have "node_rep ?left (take 6 ks) (take 7 cs)" using node_rep_take [OF assms(2), of 6] assms(3) by simp
  moreover have "node_rep ?right (drop 7 ks) (drop 7 cs)"
    using assms(3) ty(2) map_drop_nth [of 7 ks 6 id] map_drop_nth [of 7 cs 7 id] by (simp add: node_rep_def new_CNode_def)
  ultimately show ?thesis using par'(2) by blast
qed

section \<open>Merging internal nodes\<close>

lemma internal_merge_loop_spec:
  "node_rep n ks cs \<Longrightarrow> node_rep child us ds \<Longrightarrow> int (length ks) = 6 + int i \<Longrightarrow> i + m = Suc (length us) \<Longrightarrow> 0 < i \<Longrightarrow>
   length ks + m \<le> 13 \<Longrightarrow>
   \<exists>n'. internal_merge_loop m (int i) child n = Some n' \<and> node_rep n' (ks @ drop (i - 1) us) (cs @ drop i ds)"
proof (induction m arbitrary: i n ks cs)
  case 0
  then have "drop (i - 1) us = []" "drop i ds = []" by (simp_all add: node_rep_def)
  then show ?case using 0 by simp
next
  case (Suc m)
  have lc: "length ds = Suc (length us)" "length cs = Suc (length ks)" using Suc.prems(1,2) by (simp_all add: node_rep_def)
  obtain cs' c where cs: "cs = cs' @ [c]" using lc(2) by (cases cs rule: rev_cases) auto
  have k: "getKeyValue child (int i - 1) = Some (us ! (i - 1))" "getChild child (int i) = Some (ds ! i)"
    using node_rep_key [OF Suc.prems(2), of "int i - 1"] node_rep_child [OF Suc.prems(2), of "int i"] Suc.prems(4,5)
    by (simp_all add: nat_diff_distrib)
  have r: "node_rep n (ks @ []) (cs' @ c # [])" "length ks + length [] < 13" "length cs' = length ks"
    using Suc.prems(1,6) cs lc(2) by simp_all
  from internal_insert_spec(1) [OF r, of "us ! (i - 1)" "ds ! i"]
  obtain n1 where n1: "internal_insert (int (length ks)) (int (length ks) + 1) (us ! (i - 1)) (ds ! i) n = Some n1"
    "node_rep n1 (ks @ [us ! (i - 1)]) (cs @ [ds ! i])"
    using cs by auto
  have "int (length (ks @ [us ! (i - 1)])) = 6 + int (Suc i)" "Suc i + m = Suc (length us)" "0 < Suc i"
    "length (ks @ [us ! (i - 1)]) + m \<le> 13" using Suc.prems(3,4,6) by simp_all
  from Suc.IH [OF n1(2) Suc.prems(2) this]
  obtain n' where n': "internal_merge_loop m (int (Suc i)) child n1 = Some n'"
    "node_rep n' ((ks @ [us ! (i - 1)]) @ drop i us) ((cs @ [ds ! i]) @ drop (Suc i) ds)" by auto
  have "internal_merge_loop (Suc m) (int i) child n = Some n'"
    using k n1(1) n'(1) Suc.prems(3) by (simp add: order_defs add.commute)
  moreover have "drop (i - 1) us = us ! (i - 1) # drop i us" "drop i ds = ds ! i # drop (Suc i) ds"
    using Suc.prems(4,5) lc(1) Cons_nth_drop_Suc [of "i - 1" us] Cons_nth_drop_Suc [of i ds] by simp_all
  ultimately show ?case using n'(2) by simp
qed

lemma delete_node_eq: "node_at h p = Some n \<Longrightarrow> delete_node p h = Some (h[p - 1 := None])"
  using node_atD [of h p n] by (auto simp: delete_node_def)

lemma node_at_deleted: "node_at (h[p - 1 := None]) p = None"
  by (auto simp: node_at_def rd_def)

text \<open>
  Merging internal nodes frees the wrong node.  When a minimal internal node absorbs its
  right neighbour, the entries of the two are joined around the separator and the parent
  loses that separator and the neighbour; but then the code deletes the parent's child at the old
  position of the neighbour, which by now is the next sibling: a node that the parent still refers
  to is freed, and the absorbed node is leaked.
\<close>

theorem merge_frees_live_sibling:
  assumes "node_at h p = Some n" "node_rep n ks cs" "length ks = 6"
    and "node_at h c = Some child" "node_rep child us ds" "length us \<le> 6"
    and "node_at h q = Some par" "node_rep par (k1 @ k # k' # k2) (c1 @ [p, c, x] @ c2)" "length c1 = length k1"
    and "node_at h x = Some nx" "distinct [p, c, x, q]"
  shows "\<exists>h' n' par'. mergeChild p q c (int (length k1)) h = Some h'
    \<and> node_at h' p = Some n' \<and> node_rep n' (ks @ k # us) (cs @ ds)
    \<and> node_at h' q = Some par' \<and> node_rep par' (k1 @ k' # k2) (c1 @ [p, x] @ c2)
    \<and> node_at h' x = None \<and> node_at h' c = Some child"
proof -
  have ty: "m_Type n = INTERNAL" "m_Type par = INTERNAL" "m_KeyNum child = int (length us)"
    using assms(2,5,8) by (simp_all add: node_rep_def)
  have k: "getKeyValue par (int (length k1)) = Some k" using node_rep_key [OF assms(8), of "int (length k1)"] by simp
  have ld: "length ds = Suc (length us)" "length cs = 7" using assms(2,3,5) by (simp_all add: node_rep_def)
  obtain d0 ds' where ds: "ds = d0 # ds'" using ld(1) by (cases ds) auto
  obtain cs' e where cs: "cs = cs' @ [e]" using ld(2) by (cases cs rule: rev_cases) auto
  have d0: "getChild child 0 = Some d0" using node_rep_child [OF assms(5), of 0] ds by simp
  have r: "node_rep n (ks @ []) (cs' @ e # [])" "length ks + length [] < 13" "length cs' = length ks"
    using assms(2,3) cs ld(2) by simp_all
  from internal_insert_spec(1) [OF r, of k d0]
  obtain n1 where n1: "internal_insert 6 7 k d0 n = Some n1" "node_rep n1 (ks @ [k]) (cs @ [d0])" using cs assms(3) by auto
  have "int (length (ks @ [k])) = 6 + int 1" "1 + length us = Suc (length us)" "0 < (1 :: nat)" "length (ks @ [k]) + length us \<le> 13"
    using assms(3,6) by simp_all
  from internal_merge_loop_spec [OF n1(2) assms(5) this]
  obtain n' where n': "internal_merge_loop (length us) 1 child n1 = Some n'" "node_rep n' (ks @ k # us) (cs @ ds)"
    using ds by auto
  let ?h1 = "h[p - 1 := Some n']"
  have on1: "on_node p (\<lambda>n. do { n \<leftarrow> internal_insert MINNUM_KEY (MINNUM_KEY + 1) k d0 n;
      internal_merge_loop (nat (m_KeyNum child)) 1 child n }) h = Some ?h1"
    by (rule on_node_eq [OF assms(1)]) (use n1(1) n'(1) ty(3) in \<open>simp add: order_defs\<close>)
  have ne: "p \<noteq> c" "p \<noteq> x" "p \<noteq> q" "c \<noteq> x" "c \<noteq> q" "x \<noteq> q" using assms(11) by auto
  have at1: "node_at ?h1 p = Some n'" "node_at ?h1 c = Some child" "node_at ?h1 q = Some par" "node_at ?h1 x = Some nx"
    using node_at_upd [OF assms(1)] node_at_upd_other [OF assms(1), of c] node_at_upd_other [OF assms(1), of q]
      node_at_upd_other [OF assms(1), of x] ne assms(4,7,10) by simp_all
  have rp: "node_rep par (k1 @ k # (k' # k2)) ((c1 @ [p]) @ c # (x # c2))" "length (c1 @ [p]) = Suc (length k1)"
    using assms(8,9) by simp_all
  obtain par' where par': "internal_removeKey (int (length k1)) (int (length k1) + 1) par = Some par'"
    "node_rep par' (k1 @ k' # k2) ((c1 @ [p]) @ x # c2)"
    using internal_removeKey_spec [OF rp] by blast
  let ?h2 = "?h1[q - 1 := Some par']"
  have on2: "on_node q (removeKey (int (length k1)) (int (length k1) + 1)) ?h1 = Some ?h2"
    by (rule on_node_eq [OF at1(3)]) (use par'(1) ty(2) in \<open>simp add: removeKey_def\<close>)
  have at2: "node_at ?h2 q = Some par'" "node_at ?h2 p = Some n'" "node_at ?h2 c = Some child" "node_at ?h2 x = Some nx"
    using node_at_upd [OF at1(3)] node_at_upd_other [OF at1(3), of p] node_at_upd_other [OF at1(3), of c]
      node_at_upd_other [OF at1(3), of x] ne at1 by simp_all
  have dead: "getChild par' (int (length k1) + 1) = Some x"
  proof -
    have "((c1 @ [p]) @ x # c2) ! nat (int (length k1) + 1) = x"
      using rp(2) by (metis Suc_eq_plus1 nat_int nth_append_length of_nat_1 of_nat_add)
    then show ?thesis using node_rep_child [OF par'(2), of "int (length k1) + 1"] by simp
  qed
  let ?h3 = "?h2[x - 1 := None]"
  have del: "delete_node x ?h2 = Some ?h3" by (rule delete_node_eq [OF at2(4)])
  have "mergeChild p q c (int (length k1)) h = Some ?h3"
    using assms(1,4,7) ty k d0 on1 on2 at2(1) dead del by (simp add: mergeChild_def internal_mergeChild_def)
  moreover have "node_at ?h3 q = Some par'" "node_at ?h3 p = Some n'" "node_at ?h3 c = Some child"
    using node_at_upd_other [OF at2(4)] ne at2 by metis+
  moreover have "node_at ?h3 x = None" by (rule node_at_deleted)
  ultimately show ?thesis using n'(2) par'(2) by auto
qed

theorem merge_frees_live_sibling_witness:
  "\<exists>h' par'. mergeChild 1 4 2 0 [Some (mk_node [1, 2, 3, 4, 5, 6 :: int] [11, 12, 13, 14, 15, 16, 17]),
        Some (mk_node [8, 9] [21, 22, 23]), Some (mk_node [21, 22] [31, 32, 33]), Some (mk_node [7, 20, 30] [1, 2, 3, 5])] = Some h'
     \<and> node_at h' 4 = Some par' \<and> node_rep par' [20, 30] [1, 3, 5] \<and> node_at h' 3 = None"
proof -
  let ?n1 = "mk_node [1, 2, 3, 4, 5, 6 :: int] [11, 12, 13, 14, 15, 16, 17]" and ?n2 = "mk_node [8, 9 :: int] [21, 22, 23]"
    and ?n3 = "mk_node [21, 22 :: int] [31, 32, 33]" and ?n4 = "mk_node [7, 20, 30 :: int] [1, 2, 3, 5]"
  let ?h = "[Some ?n1, Some ?n2, Some ?n3, Some ?n4]"
  have a: "node_at ?h 1 = Some ?n1" "node_rep ?n1 [1, 2, 3, 4, 5, 6] [11, 12, 13, 14, 15, 16, 17]" "length [1, 2, 3, 4, 5, 6 :: int] = 6"
    "node_at ?h 2 = Some ?n2" "node_rep ?n2 [8, 9] [21, 22, 23]" "length [8, 9 :: int] \<le> 6"
    "node_at ?h 4 = Some ?n4" "node_rep ?n4 ([] @ 7 # 20 # [30]) ([] @ [1, 2, 3] @ [5])" "length ([] :: ptr list) = length ([] :: int list)"
    "node_at ?h 3 = Some ?n3" "distinct [1, 2, 3, 4 :: ptr]"
    by (simp_all add: node_at_def rd_def mk_node_rep)
  obtain h' par' where r: "mergeChild 1 4 2 (int (length ([] :: int list))) ?h = Some h'" "node_at h' 4 = Some par'"
    "node_rep par' ([] @ 20 # [30]) ([] @ [1, 3] @ [5])" "node_at h' 3 = None"
    using merge_frees_live_sibling [OF a] by blast
  then show ?thesis by auto
qed

section \<open>Borrowing\<close>

lemma node_rep_setKey:
  assumes "node_rep n (k1 @ k # k2) cs"
  shows "\<exists>n'. setKeyValue (int (length k1)) k' n = Some n' \<and> node_rep n' (k1 @ k' # k2) cs"
proof -
  obtain r s where r: "m_KeyValues n = map Some k1 @ Some k # (map Some k2 @ r)" "m_Childs n = map Some cs @ s"
    using assms by (auto simp: node_rep_def)
  have "setKeyValue (int (length k1)) k' n = Some (n\<lparr>m_KeyValues := map Some k1 @ Some k' # (map Some k2 @ r)\<rparr>)"
    by (rule set_key [OF r(1)]) simp
  moreover have "node_rep (n\<lparr>m_KeyValues := map Some k1 @ Some k' # (map Some k2 @ r)\<rparr>) (k1 @ k' # k2) cs"
    using assms r by (auto simp: node_rep_def)
  ultimately show ?thesis by blast
qed

text \<open>
  Borrowing from the right loses a subtree.  When an internal node borrows the first child of its
  right sibling, it gets that child and the separator, and the parent gets the sibling's first key, as
  intended; but the sibling drops its last child and keeps the one before it twice.
\<close>

theorem borrow_right_loses_child:
  assumes "node_at h p = Some n" "node_rep n ks cs" "length ks < 13"
    and "node_at h s = Some sib" "node_rep sib (k0 # us) (d0 # ds @ [d, e])"
    and "node_at h q = Some par" "node_rep par (k1 @ k # k2) pcs" "distinct [p, s, q]"
  shows "\<exists>h' n' sib' par'. borrowFrom p s q (int (length k1)) RIGHT h = Some h'
    \<and> node_at h' p = Some n' \<and> node_rep n' (ks @ [k]) (cs @ [d0])
    \<and> node_at h' q = Some par' \<and> node_rep par' (k1 @ k0 # k2) pcs
    \<and> node_at h' s = Some sib' \<and> node_rep sib' us (ds @ [d, d])"
proof -
  have ty: "m_Type n = INTERNAL" "m_KeyNum n = int (length ks)" "m_Type sib = INTERNAL" "length cs = Suc (length ks)"
    using assms(2,5) by (simp_all add: node_rep_def)
  have ne: "p \<noteq> s" "p \<noteq> q" "s \<noteq> q" using assms(8) by auto
  have g: "getKeyValue par (int (length k1)) = Some k" "getChild sib 0 = Some d0" "getKeyValue sib 0 = Some k0"
    using node_rep_key [OF assms(7), of "int (length k1)"] node_rep_child [OF assms(5), of 0] node_rep_key [OF assms(5), of 0] by simp_all
  obtain cs' c where cs: "cs = cs' @ [c]" using ty(4) by (cases cs rule: rev_cases) auto
  have r: "node_rep n (ks @ []) (cs' @ c # [])" "length ks + length [] < 13" "length cs' = length ks"
    using assms(2,3) cs ty(4) by simp_all
  obtain n' where n': "internal_insert (int (length ks)) (int (length ks) + 1) k d0 n = Some n'" "node_rep n' (ks @ [k]) (cs @ [d0])"
    using internal_insert_spec(1) [OF r, of k d0] cs by auto
  obtain par' where par': "setKeyValue (int (length k1)) k0 par = Some par'" "node_rep par' (k1 @ k0 # k2) pcs"
    using node_rep_setKey [OF assms(7)] by blast
  obtain sib' where sib': "internal_removeKey 0 0 sib = Some sib'" "node_rep sib' us (ds @ [d, d])"
    using internal_removeKey_first [OF assms(5)] by blast
  let ?h1 = "h[p - 1 := Some n']"
  have on1: "on_node p (internal_insert (m_KeyNum n) (m_KeyNum n + 1) k d0) h = Some ?h1"
    by (rule on_node_eq [OF assms(1)]) (use n'(1) ty(2) in simp)
  have at1: "node_at ?h1 p = Some n'" "node_at ?h1 s = Some sib" "node_at ?h1 q = Some par"
    using node_at_upd [OF assms(1)] node_at_upd_other [OF assms(1), of s] node_at_upd_other [OF assms(1), of q] ne assms(4,6) by simp_all
  let ?h2 = "?h1[q - 1 := Some par']"
  have on2: "on_node q (setKeyValue (int (length k1)) k0) ?h1 = Some ?h2" by (rule on_node_eq [OF at1(3)]) (rule par'(1))
  have at2: "node_at ?h2 q = Some par'" "node_at ?h2 p = Some n'" "node_at ?h2 s = Some sib"
    using node_at_upd [OF at1(3)] node_at_upd_other [OF at1(3), of p] node_at_upd_other [OF at1(3), of s] ne at1 by simp_all
  let ?h3 = "?h2[s - 1 := Some sib']"
  have on3: "on_node s (removeKey 0 0) ?h2 = Some ?h3"
    by (rule on_node_eq [OF at2(3)]) (use sib'(1) ty(3) in \<open>simp add: removeKey_def\<close>)
  have "borrowFrom p s q (int (length k1)) RIGHT h = Some ?h3"
    using assms(1,4,6) ty(1) g on1 on2 on3 by (simp add: borrowFrom_def internal_borrowFrom_def)
  moreover have "node_at ?h3 s = Some sib'" by (rule node_at_upd [OF at2(3)])
  moreover have "node_at ?h3 p = Some n'" "node_at ?h3 q = Some par'"
    using node_at_upd_other [OF at2(3)] ne at2 by metis+
  ultimately show ?thesis using n'(2) par'(2) sib'(2) by blast
qed

theorem borrow_right_loses_child_witness:
  "\<exists>h' sib'. borrowFrom 1 2 3 0 RIGHT [Some (mk_node [1 :: int] [11, 12]), Some (mk_node [21, 22] [31, 32, 33]), Some (mk_node [10] [1, 2])]
     = Some h' \<and> node_at h' 2 = Some sib' \<and> node_rep sib' [22] [32, 32]"
proof -
  let ?n1 = "mk_node [1 :: int] [11, 12]" and ?n2 = "mk_node [21, 22 :: int] [31, 32, 33]" and ?n3 = "mk_node [10 :: int] [1, 2]"
  let ?h = "[Some ?n1, Some ?n2, Some ?n3]"
  have a: "node_at ?h 1 = Some ?n1" "node_rep ?n1 [1] [11, 12]" "length [1 :: int] < 13"
    "node_at ?h 2 = Some ?n2" "node_rep ?n2 (21 # [22]) (31 # [] @ [32, 33])"
    "node_at ?h 3 = Some ?n3" "node_rep ?n3 ([] @ 10 # []) [1, 2]" "distinct [1, 2, 3 :: ptr]"
    by (simp_all add: node_at_def rd_def mk_node_rep)
  obtain h' sib' where "borrowFrom 1 2 3 (int (length ([] :: int list))) RIGHT ?h = Some h'" "node_at h' 2 = Some sib'"
    "node_rep sib' [22] ([] @ [32, 32])"
    using borrow_right_loses_child [OF a] by blast
  then show ?thesis by auto
qed

end
