(* ===== verification/Priority_Queue.thy ===== *)
theory Priority_Queue
  imports Prelude
begin

text \<open>
  The interface of a bounded or unbounded min-priority queue of integers, seen as a multiset, and
  what a client gets from it: filling it and then emptying it sorts.
\<close>

fun pq_fill :: "(int \<Rightarrow> 's \<Rightarrow> 's option) \<Rightarrow> int list \<Rightarrow> 's \<Rightarrow> 's option" where
  "pq_fill ins [] s = Some s"
| "pq_fill ins (x # xs) s = do { s \<leftarrow> ins x s; pq_fill ins xs s }"

fun pq_drain :: "('s \<Rightarrow> ('s \<times> int) option) \<Rightarrow> nat \<Rightarrow> 's \<Rightarrow> ('s \<times> int list) option" where
  "pq_drain pop 0 s = Some (s, [])"
| "pq_drain pop (Suc n) s = do { (s, x) \<leftarrow> pop s; (s, xs) \<leftarrow> pq_drain pop n s; Some (s, x # xs) }"

locale priority_queue =
  fixes ins :: "int \<Rightarrow> 's \<Rightarrow> 's option"
    and pop :: "'s \<Rightarrow> ('s \<times> int) option"
    and holds :: "'s \<Rightarrow> int multiset \<Rightarrow> bool"
    and cap :: "'s \<Rightarrow> nat option"
  assumes ins_law: "holds s M \<Longrightarrow> (case cap s of None \<Rightarrow> True | Some c \<Rightarrow> size M < c) \<Longrightarrow>
      \<exists>s'. ins x s = Some s' \<and> holds s' (add_mset x M) \<and> cap s' = cap s"
    and pop_law: "holds s M \<Longrightarrow> M \<noteq> {#} \<Longrightarrow>
      \<exists>s'. pop s = Some (s', Min_mset M) \<and> holds s' (M - {#Min_mset M#}) \<and> cap s' = cap s"
begin

lemma fill:
  "holds s M \<Longrightarrow> (case cap s of None \<Rightarrow> True | Some c \<Rightarrow> size M + length xs \<le> c) \<Longrightarrow>
   \<exists>s'. pq_fill ins xs s = Some s' \<and> holds s' (M + mset xs) \<and> cap s' = cap s"
proof (induction xs arbitrary: s M)
  case (Cons x xs)
  have "case cap s of None \<Rightarrow> True | Some c \<Rightarrow> size M < c" using Cons.prems(2) by (auto split: option.splits)
  from ins_law [OF Cons.prems(1) this, of x]
  obtain s1 where s1: "ins x s = Some s1" "holds s1 (add_mset x M)" "cap s1 = cap s" by blast
  have "case cap s1 of None \<Rightarrow> True | Some c \<Rightarrow> size (add_mset x M) + length xs \<le> c"
    using Cons.prems(2) s1(3) by (auto split: option.splits)
  from Cons.IH [OF s1(2) this] show ?case using s1 by auto
qed auto

lemma drain:
  "holds s M \<Longrightarrow> n = size M \<Longrightarrow>
   \<exists>s'. pq_drain pop n s = Some (s', sorted_list_of_multiset M) \<and> holds s' {#}"
proof (induction n arbitrary: s M)
  case 0
  then show ?case by simp
next
  case (Suc n)
  then have ne: "M \<noteq> {#}" by auto
  let ?m = "Min_mset M"
  from pop_law [OF Suc.prems(1) ne]
  obtain s1 where s1: "pop s = Some (s1, ?m)" "holds s1 (M - {#?m#})" by blast
  have m: "?m \<in># M" using ne by simp
  then have sz: "n = size (M - {#?m#})" using Suc.prems(2) by (simp add: size_Diff_singleton)
  from Suc.IH [OF s1(2) sz]
  obtain s' where s': "pq_drain pop n s1 = Some (s', sorted_list_of_multiset (M - {#?m#}))" "holds s' {#}" by blast
  have "sorted_list_of_multiset M = ?m # sorted_list_of_multiset (M - {#?m#})"
  proof -
    have "sorted (?m # sorted_list_of_multiset (M - {#?m#}))"
      by (auto dest: in_diffD)
    moreover have "mset (?m # sorted_list_of_multiset (M - {#?m#})) = M" using m by simp
    ultimately show ?thesis by (metis sorted_list_of_multiset_mset sort_key_id_if_sorted sorted_sort_id)
  qed
  then show ?case using s1(1) s' by simp
qed

lemma fill_drain_sorts:
  assumes "holds s {#}" "case cap s of None \<Rightarrow> True | Some c \<Rightarrow> length xs \<le> c"
  shows "\<exists>s' s''. pq_fill ins xs s = Some s' \<and> pq_drain pop (length xs) s' = Some (s'', sort xs) \<and> holds s'' {#}"
proof -
  have "case cap s of None \<Rightarrow> True | Some c \<Rightarrow> size ({#} :: int multiset) + length xs \<le> c"
    using assms(2) by (simp split: option.splits)
  from fill [OF assms(1) this]
  obtain s' where s': "pq_fill ins xs s = Some s'" "holds s' (mset xs)" by auto
  then show ?thesis using drain [OF s'(2), of "length xs"] by simp
qed

end

end
