(* ===== verification/Leftist_Queue.thy ===== *)
theory Leftist_Queue
  imports Priority_Queue
begin

text \<open>
  The leftist heap of example_left_heap.cpp.  The nodes are never shared, so a heap is a tree; a
  read through the null pointer is \<open>None\<close>.  \<open>isEmpty\<close> is declared in the file but not defined, so it
  is a parameter.
\<close>

datatype lheap = LNull | LeftHeapNode (element: int) (lleft: lheap) (lright: lheap) (npl: int)

fun npl_of :: "lheap \<Rightarrow> int option" where
  "npl_of LNull = None"
| "npl_of (LeftHeapNode e l r n) = Some n"

fun swapChild :: "lheap \<Rightarrow> lheap option" where
  "swapChild LNull = None"
| "swapChild (LeftHeapNode e l r n) = Some (LeftHeapNode e r l n)"

function (sequential) merge :: "lheap \<Rightarrow> lheap \<Rightarrow> lheap option" and merge1 :: "lheap \<Rightarrow> lheap \<Rightarrow> lheap option" where
  "merge LNull queue2 = Some queue2"
| "merge queue1 LNull = Some queue1"
| "merge (LeftHeapNode e1 l1 r1 n1) (LeftHeapNode e2 l2 r2 n2) =
     (if e1 < e2 then merge1 (LeftHeapNode e1 l1 r1 n1) (LeftHeapNode e2 l2 r2 n2)
      else merge1 (LeftHeapNode e2 l2 r2 n2) (LeftHeapNode e1 l1 r1 n1))"
| "merge1 LNull queue2 = None"
| "merge1 (LeftHeapNode e l r n) queue2 =
     (if l = LNull then Some (LeftHeapNode e queue2 r n)
      else do { r \<leftarrow> merge r queue2;
                nl \<leftarrow> npl_of l;
                nr \<leftarrow> npl_of r;
                q \<leftarrow> (if nl < nr then swapChild (LeftHeapNode e l r n) else Some (LeftHeapNode e l r n));
                case q of LNull \<Rightarrow> None
                | LeftHeapNode e l r n \<Rightarrow> do { nr \<leftarrow> npl_of r; Some (LeftHeapNode e l r (nr + 1)) } })"
  by pat_completeness auto
termination
  by (relation "measures [\<lambda>p. case p of Inl (a, b) \<Rightarrow> size a + size b | Inr (a, b) \<Rightarrow> size a + size b,
      \<lambda>p. case p of Inl _ \<Rightarrow> 1 | Inr _ \<Rightarrow> 0]") auto

definition insert1 :: "bool \<Rightarrow> int \<Rightarrow> lheap \<Rightarrow> lheap option" where
  "insert1 malloc_ok x queue =
     (if \<not> malloc_ok then Some queue else merge (LeftHeapNode x LNull LNull 0) queue)"

definition deleteMin :: "(lheap \<Rightarrow> bool) \<Rightarrow> lheap \<Rightarrow> lheap option" where
  "deleteMin isEmpty queue =
     (if isEmpty queue then Some queue
      else case queue of LNull \<Rightarrow> None | LeftHeapNode e l r n \<Rightarrow> merge l r)"

section \<open>Invariants\<close>

fun mset_lheap :: "lheap \<Rightarrow> int multiset" where
  "mset_lheap LNull = {#}"
| "mset_lheap (LeftHeapNode e l r n) = add_mset e (mset_lheap l + mset_lheap r)"

fun heap_ordered :: "lheap \<Rightarrow> bool" where
  "heap_ordered LNull \<longleftrightarrow> True"
| "heap_ordered (LeftHeapNode e l r n) \<longleftrightarrow> (\<forall>x \<in># mset_lheap l + mset_lheap r. e \<le> x) \<and> heap_ordered l \<and> heap_ordered r"

text \<open>\<open>rank\<close> is the length of the shortest path to a missing child; the stored \<open>npl\<close> is one less.\<close>

fun rank :: "lheap \<Rightarrow> nat" where
  "rank LNull = 0"
| "rank (LeftHeapNode e l r n) = Suc (min (rank l) (rank r))"

fun leftist :: "lheap \<Rightarrow> bool" where
  "leftist LNull \<longleftrightarrow> True"
| "leftist (LeftHeapNode e l r n) \<longleftrightarrow> rank r \<le> rank l \<and> n = int (rank r) \<and> leftist l \<and> leftist r"

lemma rank_0 [simp]: "rank q = 0 \<longleftrightarrow> q = LNull"
  by (cases q) auto

lemma npl_of_rank: "leftist q \<Longrightarrow> q \<noteq> LNull \<Longrightarrow> npl_of q = Some (int (rank q) - 1)"
  by (cases q) auto

lemma merge_spec:
  "leftist a \<Longrightarrow> leftist b \<Longrightarrow> \<exists>q. merge a b = Some q \<and> leftist q \<and> mset_lheap q = mset_lheap a + mset_lheap b
     \<and> (heap_ordered a \<longrightarrow> heap_ordered b \<longrightarrow> heap_ordered q) \<and> (a \<noteq> LNull \<or> b \<noteq> LNull \<longrightarrow> q \<noteq> LNull)"
  "leftist a \<Longrightarrow> leftist b \<Longrightarrow> a \<noteq> LNull \<Longrightarrow> b \<noteq> LNull \<Longrightarrow> \<exists>q. merge1 a b = Some q \<and> leftist q \<and> mset_lheap q = mset_lheap a + mset_lheap b
     \<and> (heap_ordered a \<longrightarrow> heap_ordered b \<longrightarrow> (\<forall>x \<in># mset_lheap b. element a \<le> x) \<longrightarrow> heap_ordered q) \<and> q \<noteq> LNull"
proof (induction a b and a b rule: merge_merge1.induct)
  case (3 e1 l1 r1 n1 e2 l2 r2 n2)
  show ?case
  proof (cases "e1 < e2")
    case True
    let ?A = "LeftHeapNode e1 l1 r1 n1" and ?B = "LeftHeapNode e2 l2 r2 n2"
    obtain q where q: "merge1 ?A ?B = Some q" "leftist q" "q \<noteq> LNull" "mset_lheap q = mset_lheap ?A + mset_lheap ?B"
      "heap_ordered ?A \<longrightarrow> heap_ordered ?B \<longrightarrow> (\<forall>x \<in># mset_lheap ?B. e1 \<le> x) \<longrightarrow> heap_ordered q"
      using "3.IH"(1) [OF True "3.prems"] by (fastforce simp del: mset_lheap.simps heap_ordered.simps leftist.simps merge1.simps)
    have "heap_ordered ?B \<Longrightarrow> \<forall>x \<in># mset_lheap ?B. e1 \<le> x" using True by force
    with q show ?thesis using True by (auto simp del: mset_lheap.simps heap_ordered.simps leftist.simps merge1.simps simp: add.commute)
  next
    case False
    let ?A = "LeftHeapNode e2 l2 r2 n2" and ?B = "LeftHeapNode e1 l1 r1 n1"
    obtain q where q: "merge1 ?A ?B = Some q" "leftist q" "q \<noteq> LNull" "mset_lheap q = mset_lheap ?A + mset_lheap ?B"
      "heap_ordered ?A \<longrightarrow> heap_ordered ?B \<longrightarrow> (\<forall>x \<in># mset_lheap ?B. e2 \<le> x) \<longrightarrow> heap_ordered q"
      using "3.IH"(2) [OF False "3.prems"(2,1)] by (fastforce simp del: mset_lheap.simps heap_ordered.simps leftist.simps merge1.simps)
    have "heap_ordered ?B \<Longrightarrow> \<forall>x \<in># mset_lheap ?B. e2 \<le> x" using False by force
    with q show ?thesis using False by (auto simp del: mset_lheap.simps heap_ordered.simps leftist.simps merge1.simps simp: add.commute)
  qed
next
  case (5 e l r n b)
  show ?case
  proof (cases "l = LNull")
    case True
    then show ?thesis using "5.prems" by (auto simp: add.commute)
  next
    case False
    obtain r' where r': "merge r b = Some r'" "leftist r'" "mset_lheap r' = mset_lheap r + mset_lheap b"
      "heap_ordered r \<longrightarrow> heap_ordered b \<longrightarrow> heap_ordered r'" "r' \<noteq> LNull"
      using "5.IH" [OF False] "5.prems" by auto
    have l: "leftist l" using "5.prems"(1) by simp
    note np = npl_of_rank [OF l False] npl_of_rank [OF r'(2,5)]
    show ?thesis
    proof (cases "rank l < rank r'")
      case True
      have "merge1 (LeftHeapNode e l r n) b = Some (LeftHeapNode e r' l (int (rank l)))"
        using False r'(1) np True by simp
      moreover have "leftist (LeftHeapNode e r' l (int (rank l)))" using l r'(2) True by simp
      moreover have "mset_lheap (LeftHeapNode e r' l (int (rank l))) = mset_lheap (LeftHeapNode e l r n) + mset_lheap b"
        using r'(3) by (simp add: ac_simps)
      ultimately show ?thesis using r'(3,4) by auto
    next
      case le: False
      have "merge1 (LeftHeapNode e l r n) b = Some (LeftHeapNode e l r' (int (rank r')))"
        using False r'(1) np le by simp
      moreover have "leftist (LeftHeapNode e l r' (int (rank r')))" using l r'(2) le by simp
      moreover have "mset_lheap (LeftHeapNode e l r' (int (rank r'))) = mset_lheap (LeftHeapNode e l r n) + mset_lheap b"
        using r'(3) by (simp add: ac_simps)
      ultimately show ?thesis using r'(3,4) by auto
    qed
  qed
qed auto

text \<open>The right spine, which \<open>merge\<close> walks, is logarithmic in the size.\<close>

fun spine :: "lheap \<Rightarrow> nat" where
  "spine LNull = 0"
| "spine (LeftHeapNode e l r n) = Suc (spine r)"

lemma leftist_spine: "leftist q \<Longrightarrow> spine q = rank q"
  by (induction q) auto

lemma rank_size: "leftist q \<Longrightarrow> 2 ^ rank q \<le> size (mset_lheap q) + 1"
proof (induction q)
  case (LeftHeapNode e l r n)
  then have "2 ^ rank r \<le> size (mset_lheap r) + 1" "2 ^ rank l \<le> size (mset_lheap l) + 1" "rank r \<le> rank l" by auto
  moreover from \<open>rank r \<le> rank l\<close> have "(2 :: nat) ^ rank r \<le> 2 ^ rank l" by (rule power_increasing) simp
  moreover have "rank (LeftHeapNode e l r n) = Suc (rank r)" using \<open>rank r \<le> rank l\<close> by simp
  ultimately show ?case by (simp del: rank.simps power_increasing_iff)
qed simp

section \<open>A priority queue\<close>

definition lh_holds :: "lheap \<Rightarrow> int multiset \<Rightarrow> bool" where
  "lh_holds q M \<longleftrightarrow> leftist q \<and> heap_ordered q \<and> mset_lheap q = M"

text \<open>Reading the root and deleting it.\<close>

definition lh_pop :: "lheap \<Rightarrow> (lheap \<times> int) option" where
  "lh_pop q = (case q of LNull \<Rightarrow> None | LeftHeapNode e l r n \<Rightarrow> map_option (\<lambda>q'. (q', e)) (deleteMin (\<lambda>q. q = LNull) q))"

lemma Min_mset_root: "\<forall>x \<in># M. e \<le> x \<Longrightarrow> Min_mset (add_mset (e :: int) M) = e"
  by (auto intro!: Min_eqI)

interpretation lh: priority_queue "insert1 True" lh_pop lh_holds "\<lambda>_. None"
proof
  fix q M x assume h: "lh_holds q M"
  have "leftist (LeftHeapNode x LNull LNull 0)" by simp
  then show "\<exists>q'. insert1 True x q = Some q' \<and> lh_holds q' (add_mset x M) \<and> None = (None :: nat option)"
    using merge_spec(1) [of "LeftHeapNode x LNull LNull 0" q] h by (auto simp: insert1_def lh_holds_def)
next
  fix q M assume h: "lh_holds q M" and ne: "M \<noteq> {#}"
  then obtain e l r n where q: "q = LeftHeapNode e l r n" by (cases q) (auto simp: lh_holds_def)
  have "leftist l" "leftist r" using h q by (auto simp: lh_holds_def)
  from merge_spec(1) [OF this]
  obtain q' where q': "merge l r = Some q'" "leftist q'" "mset_lheap q' = mset_lheap l + mset_lheap r" "heap_ordered q'"
    using h q by (auto simp: lh_holds_def)
  have M: "M = add_mset e (mset_lheap l + mset_lheap r)" using h q by (simp add: lh_holds_def)
  have "Min_mset M = e" using h q M Min_mset_root [of "mset_lheap l + mset_lheap r" e] by (auto simp: lh_holds_def)
  moreover have "M - {#e#} = mset_lheap l + mset_lheap r" using M by simp
  ultimately
  show "\<exists>q'. lh_pop q = Some (q', Min_mset M) \<and> lh_holds q' (M - {#Min_mset M#}) \<and> None = (None :: nat option)"
    using q q' by (simp add: lh_pop_def deleteMin_def lh_holds_def)
qed

text \<open>
  The leftist heap is a priority queue.  Inserting any list into an empty heap and then taking
  its length many minima out never reads through a null pointer and gives the list in
  ascending order; and merging any heaps that keep the leftist invariant keeps it, so that the right spine
  that \<open>merge\<close> walks has at most \<open>log2 (n + 1)\<close> nodes.
\<close>

theorem leftist_heap_sorts:
  "(\<exists>q q'. pq_fill (insert1 True) xs LNull = Some q \<and> pq_drain lh_pop (length xs) q = Some (q', sort xs) \<and> q' = LNull)
   \<and> (leftist a \<longrightarrow> leftist b \<longrightarrow> (\<exists>q. merge a b = Some q \<and> leftist q \<and> 2 ^ spine q \<le> size (mset_lheap a) + size (mset_lheap b) + 1))"
proof (intro conjI impI)
  have "lh_holds LNull {#}" by (simp add: lh_holds_def)
  from lh.fill_drain_sorts [OF this, of xs]
  obtain q q' where "pq_fill (insert1 True) xs LNull = Some q" "pq_drain lh_pop (length xs) q = Some (q', sort xs)" "lh_holds q' {#}"
    by auto
  moreover have "q' = LNull" using \<open>lh_holds q' {#}\<close> by (cases q') (auto simp: lh_holds_def)
  ultimately show "\<exists>q q'. pq_fill (insert1 True) xs LNull = Some q \<and> pq_drain lh_pop (length xs) q = Some (q', sort xs) \<and> q' = LNull"
    by blast
next
  assume "leftist a" "leftist b"
  from merge_spec(1) [OF this] show "\<exists>q. merge a b = Some q \<and> leftist q \<and> 2 ^ spine q \<le> size (mset_lheap a) + size (mset_lheap b) + 1"
    using rank_size leftist_spine by (metis size_union)
qed

theorem leftist_heap_sorts_witness:
  "pq_drain lh_pop 3 (the (pq_fill (insert1 True) [5, 1, 3] LNull)) = Some (LNull, [1, 3, 5])
   \<and> (\<exists>q. merge (LeftHeapNode 1 LNull LNull 0) (LeftHeapNode 2 LNull LNull 0) = Some q \<and> leftist q)"
proof -
  have "length [5, 1, 3 :: int] = 3" "sort [5, 1, 3 :: int] = [1, 3, 5]" by simp_all
  moreover have "leftist (LeftHeapNode 1 LNull LNull 0)" "leftist (LeftHeapNode 2 LNull LNull 0)" by simp_all
  moreover note leftist_heap_sorts [of "[5, 1, 3]" "LeftHeapNode 1 LNull LNull 0" "LeftHeapNode 2 LNull LNull 0"]
  ultimately have "\<exists>q. pq_fill (insert1 True) [5, 1, 3] LNull = Some q \<and> pq_drain lh_pop 3 q = Some (LNull, [1, 3, 5])"
    "\<exists>q. merge (LeftHeapNode 1 LNull LNull 0) (LeftHeapNode 2 LNull LNull 0) = Some q \<and> leftist q"
    by metis+
  then show ?thesis by (auto simp del: pq_fill.simps pq_drain.simps merge.simps leftist.simps)
qed

end
