(* ===== verification/Binary_Heap_Queue.thy ===== *)
theory Binary_Heap_Queue
  imports Priority_Queue
begin

text \<open>
  The array heap of example_heap.cpp: a min-heap of bounded capacity with the root at index 0.
  The array is what \<open>malloc\<close> returned, so its contents are an argument of \<open>init\<close>; a read or a
  write outside it is \<open>None\<close>, and so is an index, a size or a block length that overflows an \<open>int\<close>.
\<close>

record Heap =
  capacity :: int
  elements :: "int list"
  heap_size :: nat

definition isEmpty :: "Heap \<Rightarrow> bool" where
  "isEmpty queue \<longleftrightarrow> heap_size queue = 0"

definition isFull :: "Heap \<Rightarrow> bool" where
  "isFull queue \<longleftrightarrow> int (heap_size queue) = capacity queue"

text \<open>\<open>init mx mem\<close>: \<open>mem\<close> is the block of \<open>mx + 1\<close> ints.\<close>

definition init :: "int \<Rightarrow> int list \<Rightarrow> Heap option" where
  "init mx mem = do {
     _ \<leftarrow> i32 (mx + 1);
     Some \<lparr>capacity = mx, elements = mem, heap_size = 0\<rparr> }"

text \<open>The loop of \<open>insert\<close>: the element above is read before \<open>i > 0\<close> is tested.\<close>

fun insert_loop :: "int list \<Rightarrow> int \<Rightarrow> nat \<Rightarrow> (int list \<times> nat) option" where
  "insert_loop es x i = do {
     up \<leftarrow> rd es ((i - 1) div 2);
     if up > x \<and> i > 0 then do {
       es \<leftarrow> wr es i up;
       insert_loop es x ((i - 1) div 2) }
     else Some (es, i) }"

definition insert_heap :: "int \<Rightarrow> Heap \<Rightarrow> Heap option" where
  "insert_heap x queue =
     (if isFull queue then Some queue
      else do {
        sz \<leftarrow> n32 (heap_size queue + 1);
        (es, i) \<leftarrow> insert_loop (elements queue) x (heap_size queue);
        es \<leftarrow> wr es i x;
        Some (queue\<lparr>elements := es, heap_size := sz\<rparr>) })"

text \<open>The loop of \<open>deleteMin\<close>, with \<open>sz\<close> the size after the decrement.\<close>

function delete_loop :: "int list \<Rightarrow> nat \<Rightarrow> int \<Rightarrow> nat \<Rightarrow> (int list \<times> nat) option" where
  "delete_loop es sz lastElement i = do {
     i2 \<leftarrow> n32 (i * 2);
     if i2 < sz then do {
        child \<leftarrow> n32 (i2 + 1);
        child \<leftarrow> (if child \<noteq> sz then do {
                     right \<leftarrow> n32 (child + 1);
                     r \<leftarrow> rd es right;
                     l \<leftarrow> rd es child;
                     Some (if r < l then right else child) }
                   else Some child);
        c \<leftarrow> rd es child;
        if lastElement > c then do {
          es \<leftarrow> wr es i c;
          (if i < child then delete_loop es sz lastElement child else None) }
        else Some (es, i) }
     else Some (es, i) }"
  by pat_completeness auto
termination
  by (relation "measure (\<lambda>(es, sz, e, i). sz - i)") (auto simp: n32_eq_Some_iff)

declare insert_loop.simps [simp del] delete_loop.simps [simp del]

definition deleteMin :: "Heap \<Rightarrow> (Heap \<times> int) option" where
  "deleteMin queue =
     (if isEmpty queue then Some (queue, 0)
      else do {
        minElement \<leftarrow> rd (elements queue) 0;
        let sz = heap_size queue - 1;
        lastElement \<leftarrow> rd (elements queue) sz;
        (es, i) \<leftarrow> delete_loop (elements queue) sz lastElement 0;
        es \<leftarrow> wr es i lastElement;
        Some (queue\<lparr>elements := es, heap_size := sz\<rparr>, minElement) })"

section \<open>The heap order\<close>

definition up :: "nat \<Rightarrow> nat" where
  "up j = (j - 1) div 2"

definition heap_but :: "nat \<Rightarrow> nat \<Rightarrow> int list \<Rightarrow> bool" where
  "heap_but i n a \<longleftrightarrow> (\<forall>j < n. 0 < j \<longrightarrow> j \<noteq> i \<longrightarrow> a ! up j \<le> a ! j)
     \<and> (\<forall>j < n. 0 < j \<longrightarrow> 0 < i \<longrightarrow> up j = i \<longrightarrow> a ! up i \<le> a ! j)"

definition heap_above :: "nat \<Rightarrow> nat \<Rightarrow> int list \<Rightarrow> bool" where
  "heap_above i n a \<longleftrightarrow> (\<forall>j < n. 0 < j \<longrightarrow> up j \<noteq> i \<longrightarrow> a ! up j \<le> a ! j)
     \<and> (\<forall>j < n. 0 < j \<longrightarrow> 0 < i \<longrightarrow> up j = i \<longrightarrow> a ! up i \<le> a ! j)"

definition heap :: "nat \<Rightarrow> int list \<Rightarrow> bool" where
  "heap n a \<longleftrightarrow> (\<forall>j < n. 0 < j \<longrightarrow> a ! up j \<le> a ! j)"

lemma up_less: "0 < j \<Longrightarrow> up j < j"
  unfolding up_def by linarith

lemma up_le: "up j \<le> j"
  unfolding up_def by linarith

lemma up_children: "0 < j \<Longrightarrow> up j = i \<longleftrightarrow> j = i * 2 + 1 \<or> j = i * 2 + 2"
  unfolding up_def by linarith

lemma heap_root: "heap n a \<Longrightarrow> j < n \<Longrightarrow> a ! 0 \<le> a ! j"
proof (induction j rule: less_induct)
  case (less j)
  show ?case
  proof (cases "j = 0")
    case False
    then have "a ! up j \<le> a ! j" using less.prems by (simp add: heap_def)
    moreover have "a ! 0 \<le> a ! up j" using less False up_less [of j] by simp
    ultimately show ?thesis by simp
  qed simp
qed

lemma heap_but_0: "heap_but 0 n a \<longleftrightarrow> heap n a"
  by (auto simp: heap_but_def heap_def)

lemma heap_but_stop: "heap_but i n a \<Longrightarrow> 0 < i \<Longrightarrow> a ! up i \<le> a ! i \<Longrightarrow> heap n a"
  by (auto simp: heap_but_def heap_def)

lemma heap_but_step:
  assumes "heap_but i n a" "0 < i" "i < n" "n \<le> length a" "a ! i < a ! up i"
  shows "heap_but (up i) n (a[i := a ! up i, up i := a ! i])"
proof -
  let ?b = "a[i := a ! up i, up i := a ! i]"
  have lt: "up i < i" using assms(2) by (rule up_less)
  have b: "?b ! j = (if j = up i then a ! i else if j = i then a ! up i else a ! j)" if "j < n" for j
    using that assms lt by (simp add: nth_list_update)
  have h1: "\<And>j. j < n \<Longrightarrow> 0 < j \<Longrightarrow> j \<noteq> i \<Longrightarrow> a ! up j \<le> a ! j"
    and h2: "\<And>j. j < n \<Longrightarrow> 0 < j \<Longrightarrow> up j = i \<Longrightarrow> a ! up i \<le> a ! j"
    using assms(1,2) by (auto simp: heap_but_def)
  have "?b ! up j \<le> ?b ! j" if j: "j < n" "0 < j" "j \<noteq> up i" for j
  proof -
    have uj: "up j < n" using j up_less [of j] by simp
    consider "j = i" | "j \<noteq> i" "up j = i" | "j \<noteq> i" "up j = up i" | "j \<noteq> i" "up j \<noteq> i" "up j \<noteq> up i" by blast
    then show ?thesis
    proof cases
      case 1
      then show ?thesis using b [OF j(1)] b [OF uj] assms(5) lt by simp
    next
      case 2
      then show ?thesis using b [OF j(1)] b [OF uj] h2 [OF j(1,2)] j(3) lt by simp
    next
      case 3
      then show ?thesis using b [OF j(1)] b [OF uj] h1 [OF j(1,2)] j(3) assms(5) by simp
    next
      case 4
      then show ?thesis using b [OF j(1)] b [OF uj] h1 [OF j(1,2)] j(3) by simp
    qed
  qed
  moreover have "?b ! up (up i) \<le> ?b ! j" if j: "j < n" "0 < j" "0 < up i" "up j = up i" for j
  proof -
    have l2: "up (up i) < up i" using up_less [OF j(3)] .
    have "a ! up (up i) \<le> a ! up i" using h1 [of "up i"] j(3) lt assms(3) by simp
    moreover have "j \<noteq> i \<Longrightarrow> a ! up i \<le> a ! j" using h1 [OF j(1,2)] j(4) by simp
    moreover have "j \<noteq> up i" using j(4) l2 by auto
    ultimately show ?thesis using b [OF j(1)] b [of "up (up i)"] l2 lt assms(3) by (cases "j = i") auto
  qed
  ultimately show ?thesis by (simp add: heap_but_def)
qed

lemma heap_above_start: "heap n a \<Longrightarrow> heap_above 0 n (a[0 := x])"
  using up_less by (auto simp: heap_above_def heap_def nth_list_update)

lemma heap_above_stop: "heap_above i n a \<Longrightarrow> (\<And>j. j < n \<Longrightarrow> 0 < j \<Longrightarrow> up j = i \<Longrightarrow> a ! i \<le> a ! j) \<Longrightarrow> heap n a"
  by (auto simp: heap_above_def heap_def)

lemma heap_above_step:
  assumes "heap_above i n a" "up c = i" "0 < c" "c < n" "n \<le> length a" "a ! c < a ! i"
    and m: "\<And>j. j < n \<Longrightarrow> 0 < j \<Longrightarrow> up j = i \<Longrightarrow> a ! c \<le> a ! j"
  shows "heap_above c n (a[i := a ! c, c := a ! i])"
proof -
  let ?b = "a[i := a ! c, c := a ! i]"
  have lt: "i < c" using up_less assms(2,3) by blast
  have b: "?b ! j = (if j = c then a ! i else if j = i then a ! c else a ! j)" if "j < n" for j
    using that assms lt by (simp add: nth_list_update)
  have h1: "\<And>j. j < n \<Longrightarrow> 0 < j \<Longrightarrow> up j \<noteq> i \<Longrightarrow> a ! up j \<le> a ! j"
    and h2: "\<And>j. j < n \<Longrightarrow> 0 < j \<Longrightarrow> 0 < i \<Longrightarrow> up j = i \<Longrightarrow> a ! up i \<le> a ! j"
    using assms(1) by (auto simp: heap_above_def)
  have "?b ! up j \<le> ?b ! j" if j: "j < n" "0 < j" "up j \<noteq> c" for j
  proof -
    have uj: "up j < n" "up j < j" using j up_less [of j] by simp_all
    show ?thesis
    proof (cases "up j = i")
      case True
      then show ?thesis using b [OF j(1)] b [OF uj(1)] m [OF j(1,2)] assms(6) lt uj(2) by simp
    next
      case False
      then have "j = i \<Longrightarrow> a ! up i \<le> a ! c" using h2 [of c] j assms(2,3,4) by simp
      then show ?thesis using b [OF j(1)] b [OF uj(1)] h1 [OF j(1,2)] j(3) False assms(2) by auto
    qed
  qed
  moreover have "?b ! up c \<le> ?b ! j" if j: "j < n" "0 < j" "up j = c" for j
    using b [OF j(1)] b [of i] h1 [OF j(1,2)] j assms(2,4) lt up_less [OF j(2)] by auto
  ultimately show ?thesis by (simp add: heap_above_def)
qed

section \<open>The loops\<close>

lemma insert_loop_up:
  "insert_loop es x i = do {
     u \<leftarrow> rd es (up i);
     if u > x \<and> i > 0 then do { es \<leftarrow> wr es i u; insert_loop es x (up i) } else Some (es, i) }"
  unfolding up_def by (rule insert_loop.simps)

lemma insert_loop_correct:
  "i < n \<Longrightarrow> n \<le> length es \<Longrightarrow> heap_but i n (es[i := x]) \<Longrightarrow>
   \<exists>es' k. insert_loop es x i = Some (es', k) \<and> k < n \<and> length es' = length es \<and> heap n (es'[k := x])
     \<and> mset (take n (es'[k := x])) = mset (take n (es[i := x]))"
proof (induction es x i rule: insert_loop.induct)
  case (1 es x i)
  let ?u = "es ! up i"
  have u: "up i < length es" using 1(2-3) up_le [of i] by linarith
  note split = insert_loop_up [of es x i]
  show ?case
  proof (cases "?u > x \<and> i > 0")
    case True
    let ?es = "es[i := ?u]"
    have lt: "up i < i" using True up_less by blast
    have "heap_but (up i) n (?es[up i := x])"
      using heap_but_step [OF 1(4) _ 1(2)] True 1(2,3) lt by simp
    moreover have "up i < n" "n \<le> length ?es" using lt 1(2,3) by simp_all
    moreover have "wr es i ?u = Some ?es" "rd es (up i) = Some ?u" using u 1(2,3) by simp_all
    ultimately obtain es' k where r: "insert_loop ?es x (up i) = Some (es', k)" "k < n" "length es' = length ?es"
      "heap n (es'[k := x])" "mset (take n (es'[k := x])) = mset (take n (?es[up i := x]))"
      using 1(1) [folded up_def, of ?u ?es] True by blast
    have "mset (take n (?es[up i := x])) = mset (take n (es[i := x]))"
      using mset_move_hole [of i "take n es" "up i" x] 1(2,3) lt by (simp add: take_update_swap)
    moreover have "insert_loop es x i = insert_loop ?es x (up i)" using split True u 1(2,3) by simp
    ultimately show ?thesis using r by auto
  next
    case False
    have "heap n (es[i := x])"
    proof (cases "i = 0")
      case True
      then show ?thesis using 1(4) heap_but_0 by simp
    next
      case i: False
      have "es[i := x] ! up i \<le> es[i := x] ! i" using False i up_less [of i] 1(2,3) by simp
      then show ?thesis using heap_but_stop [OF 1(4)] i by simp
    qed
    moreover have "insert_loop es x i = Some (es, i)" using split False u by simp
    ultimately show ?thesis using 1(2,3) by auto
  qed
qed


lemma delete_loop_correct:
  "sz \<le> 2 ^ 30 \<Longrightarrow> i < sz \<or> i = 0 \<and> sz = 0 \<Longrightarrow> sz < length es \<Longrightarrow> es ! sz = x \<Longrightarrow> heap_above i sz (es[i := x]) \<Longrightarrow>
   \<exists>es' k. delete_loop es sz x i = Some (es', k) \<and> (k < sz \<or> k = 0) \<and> length es' = length es \<and> heap sz (es'[k := x])
     \<and> mset (take sz (es'[k := x])) = mset (take sz (es[i := x]))"
proof (induction "sz - i" arbitrary: es i rule: less_induct)
  case less
  note prems = less.prems(2-)
  have i2 [simp]: "n32 (i * 2) = Some (i * 2)" using less.prems(1,2) by auto
  show ?case
  proof (cases "i * 2 < sz")
    case False
    have "es[i := x] ! i \<le> es[i := x] ! j" if "j < sz" "0 < j" "up j = i" for j
      using up_children [OF that(2), of i] that False by auto
    note h = heap_above_stop [OF prems(4) this]
    have "delete_loop es sz x i = Some (es, i)" using False by (simp add: delete_loop.simps [of es sz x i])
    then show ?thesis using h prems(1) by blast
  next
    case True
    let ?l = "i * 2 + 1"
    let ?c = "if ?l \<noteq> sz \<and> es ! (?l + 1) < es ! ?l then ?l + 1 else ?l"
    have c: "?c \<le> sz" "i < ?c" "up ?c = i" "0 < ?c" using True by (auto simp: up_def)
    have mc: "es ! ?c \<le> es ! j" if "j < sz" "0 < j" "up j = i" for j
      using that up_children [OF that(2), of i] by (auto simp: not_less)
    have l [simp]: "n32 (Suc (i * 2)) = Some (Suc (i * 2))" "n32 (Suc (Suc (i * 2))) = Some (Suc (Suc (i * 2)))"
      using True less.prems(1) by simp_all
    have step: "delete_loop es sz x i =
        (if x > es ! ?c then delete_loop (es[i := es ! ?c]) sz x ?c else Some (es, i))"
      using True c(1) prems(2) by (simp add: delete_loop.simps [of es sz x i] Let_def)
    have ul: "es[i := x] ! i = x" "\<And>j. i \<noteq> j \<Longrightarrow> es[i := x] ! j = es ! j" using True prems(2) by (simp_all add: nth_list_update)
    have i: "i < sz" using True by linarith
    show ?thesis
    proof (cases "x > es ! ?c")
      case gt: True
      with prems(3) have c2: "?c < sz" using c(1) by (cases "?c = sz") auto
      let ?es = "es[i := es ! ?c]"
      let ?a = "es[i := x]"
      have eq: "?es[?c := x] = ?a[i := ?a ! ?c, ?c := ?a ! i]" using ul c(2) by simp
      have "heap_above ?c sz (?es[?c := x])" unfolding eq
      proof (rule heap_above_step [OF prems(4) c(3,4) c2])
        show "sz \<le> length ?a" using prems(2) by simp
        show "?a ! ?c < ?a ! i" using ul c(2) gt by simp
        show "?a ! ?c \<le> ?a ! j" if "j < sz" "0 < j" "up j = i" for j
          using mc [OF that] ul c(2) up_less [OF that(2)] that(3) by simp
      qed
      moreover have "?es ! sz = x" "sz < length ?es" using i prems(2,3) by simp_all
      moreover have "sz - ?c < sz - i" "?c < sz \<or> ?c = 0 \<and> sz = 0" using c(2) c2 by linarith+
      moreover note less.hyps [of ?c ?es] less.prems(1)
      ultimately obtain es' k where r: "delete_loop ?es sz x ?c = Some (es', k)" "k < sz \<or> k = 0" "length es' = length ?es"
        "heap sz (es'[k := x])" "mset (take sz (es'[k := x])) = mset (take sz (?es[?c := x]))" by blast
      have "mset (take sz (?es[?c := x])) = mset (take sz (es[i := x]))"
        using mset_move_hole [of i "take sz es" ?c x] i c2 prems(2) by (simp add: take_update_swap)
      then show ?thesis using r step gt by simp
    next
      case ge: False
      have "es[i := x] ! i \<le> es[i := x] ! j" if "j < sz" "0 < j" "up j = i" for j
        using mc [OF that] ge ul up_less [OF that(2)] that(3) by simp
      note h = heap_above_stop [OF prems(4) this]
      have "delete_loop es sz x i = Some (es, i)" using step ge by simp
      then show ?thesis using h i by blast
    qed
  qed
qed

section \<open>A priority queue\<close>

definition bh_holds :: "Heap \<Rightarrow> int multiset \<Rightarrow> bool" where
  "bh_holds q M \<longleftrightarrow> int (heap_size q) \<le> capacity q \<and> capacity q \<le> 2 ^ 30 \<and> capacity q < int (length (elements q))
     \<and> heap (heap_size q) (elements q) \<and> mset (take (heap_size q) (elements q)) = M"

lemma heap_butI: "heap n a \<Longrightarrow> heap_but n (Suc n) (a[n := x])"
proof -
  have "a[n := x] ! j = a ! j" if "j < n" for j using that by simp
  moreover have "j < n \<Longrightarrow> up j < n" for j using up_le [of j] by simp
  moreover have "up j \<noteq> n" if "j < Suc n" "0 < j" for j using up_less [OF that(2)] that(1) by simp
  ultimately show "heap n a \<Longrightarrow> heap_but n (Suc n) (a[n := x])" unfolding heap_but_def heap_def by (metis less_SucE)
qed

lemma bh_holds_size: "bh_holds q M \<Longrightarrow> size M = heap_size q"
  by (auto simp: bh_holds_def)

lemma insert_heap_correct:
  assumes "bh_holds q M" "int (size M) < capacity q"
  shows "\<exists>q'. insert_heap x q = Some q' \<and> bh_holds q' (add_mset x M) \<and> capacity q' = capacity q"
proof -
  let ?n = "heap_size q" and ?es = "elements q"
  have n: "int ?n < capacity q" "capacity q \<le> 2 ^ 30" "Suc ?n \<le> length ?es" "heap ?n ?es" "mset (take ?n ?es) = M"
    using assms bh_holds_size [OF assms(1)] by (auto simp: bh_holds_def)
  have sz: "n32 (?n + 1) = Some (?n + 1)" using n(1,2) by simp
  from insert_loop_correct [OF _ n(3) heap_butI [OF n(4)]]
  obtain es' k where r: "insert_loop ?es x ?n = Some (es', k)" "k < Suc ?n" "length es' = length ?es"
    "heap (Suc ?n) (es'[k := x])" "mset (take (Suc ?n) (es'[k := x])) = mset (take (Suc ?n) (?es[?n := x]))" by blast
  have "mset (take (Suc ?n) (?es[?n := x])) = add_mset x M" using n(3,5) by (simp add: take_Suc_update)
  moreover have "insert_heap x q = Some (q\<lparr>elements := es'[k := x], heap_size := ?n + 1\<rparr>)"
    using n(1) r n(3) sz by (simp add: insert_heap_def isFull_def)
  moreover have "capacity q < int (length ?es)" using assms(1) by (simp add: bh_holds_def)
  ultimately show ?thesis using n r by (simp add: bh_holds_def)
qed

lemma deleteMin_correct:
  assumes "bh_holds q M" "M \<noteq> {#}"
  shows "\<exists>q'. deleteMin q = Some (q', Min_mset M) \<and> bh_holds q' (M - {#Min_mset M#}) \<and> capacity q' = capacity q"
proof -
  let ?sz = "heap_size q - 1" and ?es = "elements q"
  let ?x = "?es ! ?sz"
  have sz: "heap_size q = Suc ?sz" using bh_holds_size [OF assms(1)] assms(2) by (cases "heap_size q") auto
  have h: "int (Suc ?sz) \<le> capacity q" "?sz < length ?es" "heap (Suc ?sz) ?es" "mset (take (Suc ?sz) ?es) = M"
    using assms(1) sz by (auto simp: bh_holds_def)
  have "heap ?sz ?es" using h(3) by (simp add: heap_def)
  then have above: "heap_above 0 ?sz (?es[0 := ?x])" by (rule heap_above_start)
  have "int (heap_size q) \<le> 2 ^ 30" using assms(1) unfolding bh_holds_def by linarith
  then have s30: "?sz \<le> 2 ^ 30" by simp
  from delete_loop_correct [OF s30 _ h(2) refl above]
  obtain es' k where r: "delete_loop ?es ?sz ?x 0 = Some (es', k)" "k < ?sz \<or> k = 0" "length es' = length ?es"
    "heap ?sz (es'[k := ?x])" "mset (take ?sz (es'[k := ?x])) = mset (take ?sz (?es[0 := ?x]))" by (metis not_gr_zero)
  have 0: "0 < length ?es" using h(2) by linarith
  have "Min_mset M = ?es ! 0"
  proof (rule Min_eqI)
    show "?es ! 0 \<le> y" if "y \<in># M" for y
    proof -
      from that h(4) have "y \<in> set (take (Suc ?sz) ?es)" by auto
      then obtain j where "j < Suc ?sz" "y = ?es ! j" using h(2) by (auto simp: in_set_conv_nth)
      then show ?thesis using heap_root [OF h(3)] by simp
    qed
    have "?es ! 0 \<in> set (take (Suc ?sz) ?es)" using 0 by (auto simp: in_set_conv_nth intro!: exI [of _ 0])
    then show "?es ! 0 \<in># M" using h(4) by auto
  qed simp
  moreover have "mset (take ?sz (?es[0 := ?x])) = M - {#?es ! 0#}"
  proof (cases ?sz)
    case 0
    then show ?thesis using h(4) \<open>0 < length ?es\<close> by (auto simp: take_Suc_conv_app_nth)
  next
    case (Suc m)
    obtain y ys where es: "?es = y # ys" using 0 by (cases ?es) auto
    have "mset (take (Suc ?sz) ?es) = add_mset y (mset (take ?sz ys))" by (simp add: es)
    moreover have "mset (take ?sz ys) = add_mset (ys ! m) (mset (take m ys))"
      using Suc h(2) es by (simp add: take_Suc_conv_app_nth)
    moreover have x: "?x = ys ! m" by (simp only: Suc es nth_Cons_Suc)
    ultimately have "M = add_mset y (add_mset ?x (mset (take m ys)))" using h(4) Suc by simp
    then have "M - {#y#} = add_mset ?x (mset (take m ys))" by simp
    then show ?thesis unfolding Suc x es by simp
  qed
  moreover have "deleteMin q = Some (q\<lparr>elements := es'[k := ?x], heap_size := ?sz\<rparr>, ?es ! 0)"
    using sz r h(2) 0 by (auto simp: deleteMin_def isEmpty_def Let_def)
  moreover have "capacity q < int (length ?es)" "capacity q \<le> 2 ^ 30" using assms(1) by (simp_all add: bh_holds_def)
  ultimately show ?thesis using h r by (simp add: bh_holds_def)
qed

interpretation bh: priority_queue insert_heap deleteMin bh_holds "\<lambda>q. Some (nat (capacity q))"
proof
  fix q M x assume h: "bh_holds q M" and "case Some (nat (capacity q)) of None \<Rightarrow> True | Some c \<Rightarrow> size M < c"
  then have "int (size M) < capacity q" by simp
  from insert_heap_correct [OF h this, of x]
  show "\<exists>q'. insert_heap x q = Some q' \<and> bh_holds q' (add_mset x M) \<and> Some (nat (capacity q')) = Some (nat (capacity q))"
    by auto
next
  fix q M assume "bh_holds q M" "M \<noteq> {#}"
  from deleteMin_correct [OF this]
  show "\<exists>q'. deleteMin q = Some (q', Min_mset M) \<and> bh_holds q' (M - {#Min_mset M#}) \<and> Some (nat (capacity q')) = Some (nat (capacity q))"
    by auto
qed

text \<open>
  The array heap is a priority queue up to its capacity.  Whatever the block \<open>malloc\<close> returned
  contains, and for a capacity \<open>mx\<close> of at most \<open>2 ^ 30\<close>, inserting at most \<open>mx\<close> numbers into a new heap and deleting as many minima never
  touches memory outside the block and gives the numbers in ascending order; a full heap ignores
  an insertion, and an empty one answers a deletion with 0 and stays as it is.
\<close>

theorem binary_heap_sorts:
  assumes "mx \<le> 2 ^ 30" "length mem = Suc mx" "length xs \<le> mx"
  shows "\<exists>q0 q q'. init (int mx) mem = Some q0 \<and> pq_fill insert_heap xs q0 = Some q
    \<and> (length xs = mx \<longrightarrow> (\<forall>x. insert_heap x q = Some q))
    \<and> pq_drain deleteMin (length xs) q = Some (q', sort xs) \<and> deleteMin q' = Some (q', 0)"
proof -
  let ?q0 = "\<lparr>capacity = int mx, elements = mem, heap_size = 0\<rparr>"
  have q0: "init (int mx) mem = Some ?q0" using assms(1) by (simp add: init_def)
  have i: "bh_holds ?q0 {#}" using assms(1,2) by (simp add: bh_holds_def heap_def)
  moreover have "case Some (nat (capacity ?q0)) of None \<Rightarrow> True | Some c \<Rightarrow> size ({#} :: int multiset) + length xs \<le> c"
    using assms(3) by simp
  ultimately obtain q where q: "pq_fill insert_heap xs ?q0 = Some q" "bh_holds q (mset xs)"
      "nat (capacity q) = nat (capacity ?q0)"
    using bh.fill by fastforce
  have full: "insert_heap x q = Some q" if "length xs = mx" for x
    using that q bh_holds_size [OF q(2)] by (auto simp: insert_heap_def isFull_def bh_holds_def)
  obtain q' where q': "pq_drain deleteMin (length xs) q = Some (q', sort xs)" "bh_holds q' {#}"
    using bh.drain [OF q(2), of "length xs"] by auto
  have "deleteMin q' = Some (q', 0)" using bh_holds_size [OF q'(2)] by (simp add: deleteMin_def isEmpty_def)
  with q0 q q' full show ?thesis by blast
qed

theorem binary_heap_sorts_witness:
  "\<exists>q0 q q'. init 3 [9, - 5, 0, 7] = Some q0 \<and> pq_fill insert_heap [3, 1, 2] q0 = Some q \<and> insert_heap 8 q = Some q
     \<and> pq_drain deleteMin 3 q = Some (q', [1, 2, 3]) \<and> deleteMin q' = Some (q', 0)"
proof -
  have "(3 :: nat) \<le> 2 ^ 30" "length [9, - 5, 0, 7 :: int] = Suc 3" "length [3, 1, 2 :: int] \<le> 3" by simp_all
  note binary_heap_sorts [OF this]
  moreover have "length [3, 1, 2 :: int] = 3" "sort [3, 1, 2 :: int] = [1, 2, 3]" "int 3 = 3" by simp_all
  ultimately show ?thesis by metis
qed

text \<open>
  The bound is needed: on a heap of more than \<open>2 ^ 30 + 1\<close> numbers the sift of \<open>deleteMin\<close> may reach the
  index \<open>2 ^ 30\<close>, whose double overflows.
\<close>

lemma delete_loop_overflow:
  assumes "2 ^ 30 \<le> i"
  shows "delete_loop es sz x i = None"
proof -
  have "n32 (i * 2) = None" using assms by (simp add: n32_def)
  then show ?thesis by (simp add: delete_loop.simps [of es sz x i])
qed

end
