(* ===== verification/Coroutine.thy ===== *)
theory Coroutine
  imports Prelude
begin

text \<open>
  The coroutine scheduler of coroutine.cpp: all coroutines run on the one stack \<open>S->stack\<close>, and a
  yield copies the bytes in use to a private block of the coroutine.

  The code of the coroutines is a parameter \<open>code\<close>: it reads the registers and the bytes of its
  live frames and answers with the next thing it does, an \<open>event\<close>.  The bytes of \<open>S->stack\<close> are
  numbered from the top: byte \<open>k\<close> is the one at \<open>S->stack + STACK_SIZE - k\<close>.  Assertions are on;
  \<open>Inl\<close> is a failed assertion or frames that leave the stack, and \<open>None\<close> a coroutine that neither
  yields nor returns.
\<close>

definition STACK_SIZE :: nat where
  "STACK_SIZE = 1024 * 1024"

definition DEFAULT_COROUTINE :: nat where
  "DEFAULT_COROUTINE = 16"

datatype co_status = COROUTINE_DEAD | COROUTINE_READY | COROUTINE_RUNNING | COROUTINE_SUSPEND

datatype co_error = AssertFailed | StackOverflow

record ('f, 'u, 'r) coroutine =
  func :: 'f
  ud :: 'u
  ctx :: "'r option"
  co_cap :: nat
  co_size :: nat
  status :: co_status
  co_stack :: "8 word list"

record ('f, 'u, 'r) schedule =
  stack :: "nat \<Rightarrow> 8 word"
  nco :: nat
  sch_cap :: nat
  running :: int
  co :: "('f, 'u, 'r) coroutine option list"

definition co_new :: "'f \<Rightarrow> 'u \<Rightarrow> ('f, 'u, 'r) coroutine" where
  "co_new f u = \<lparr>func = f, ud = u, ctx = None, co_cap = 0, co_size = 0, status = COROUTINE_READY, co_stack = []\<rparr>"

definition coroutine_open :: "(nat \<Rightarrow> 8 word) \<Rightarrow> ('f, 'u, 'r) schedule" where
  "coroutine_open mem = \<lparr>stack = mem, nco = 0, sch_cap = DEFAULT_COROUTINE, running = -1,
     co = replicate DEFAULT_COROUTINE None\<rparr>"

text \<open>The coroutines that \<open>coroutine_close\<close> frees.\<close>

definition coroutine_close :: "('f, 'u, 'r) schedule \<Rightarrow> ('f, 'u, 'r) coroutine list" where
  "coroutine_close S = List.map_filter (\<lambda>i. co S ! i) [0..<sch_cap S]"

text \<open>The search for a free entry, \<open>k\<close> entries before its end.\<close>

fun find_slot :: "'a option list \<Rightarrow> nat \<Rightarrow> nat \<Rightarrow> nat \<Rightarrow> nat option" where
  "find_slot cs n i 0 = None"
| "find_slot cs n i (Suc k) =
     (let id = (i + n) mod length cs in if cs ! id = None then Some id else find_slot cs n (Suc i) k)"

definition coroutine_new :: "('f, 'u, 'r) schedule \<Rightarrow> 'f \<Rightarrow> 'u \<Rightarrow> (('f, 'u, 'r) schedule \<times> nat) option" where
  "coroutine_new S f u =
     (let C = co_new f u in
      if nco S \<ge> sch_cap S then
        (let id = sch_cap S in
         do { cs \<leftarrow> wr (co S @ replicate (sch_cap S) None) (sch_cap S) (Some C);
              Some (S\<lparr>co := cs, sch_cap := sch_cap S * 2, nco := nco S + 1\<rparr>, id) })
      else do { id \<leftarrow> find_slot (co S) (nco S) 0 (sch_cap S);
                Some (S\<lparr>co := (co S)[id := Some C], nco := nco S + 1\<rparr>, id) })"

definition coroutine_status :: "('f, 'u, 'r) schedule \<Rightarrow> int \<Rightarrow> co_status option" where
  "coroutine_status S cid =
     (if 0 \<le> cid \<and> cid < int (sch_cap S) then
        (case co S ! nat cid of None \<Rightarrow> Some COROUTINE_DEAD | Some C \<Rightarrow> Some (status C))
      else None)"

definition coroutine_running :: "('f, 'u, 'r) schedule \<Rightarrow> int" where
  "coroutine_running S = running S"

section \<open>The shared stack\<close>

definition read_top :: "(nat \<Rightarrow> 8 word) \<Rightarrow> nat \<Rightarrow> 8 word list" where
  "read_top stk n = map stk (rev [1..<n + 1])"

definition write_top :: "(nat \<Rightarrow> 8 word) \<Rightarrow> 8 word list \<Rightarrow> (nat \<Rightarrow> 8 word)" where
  "write_top stk bs = (\<lambda>k. if 1 \<le> k \<and> k \<le> length bs then bs ! (length bs - k) else stk k)"

definition push_frames :: "('f, 'u, 'r) schedule \<Rightarrow> 8 word list \<Rightarrow> co_error + ('f, 'u, 'r) schedule" where
  "push_frames S fs =
     (if length fs \<le> STACK_SIZE then Inr (S\<lparr>stack := write_top (stack S) fs\<rparr>) else Inl StackOverflow)"

text \<open>\<open>save_stack C stk n\<close>: \<open>n\<close> is \<open>top - &dummy\<close>.  The block is reallocated when it is too small.\<close>

definition save_stack :: "('f, 'u, 'r) coroutine \<Rightarrow> (nat \<Rightarrow> 8 word) \<Rightarrow> nat \<Rightarrow> ('f, 'u, 'r) coroutine option" where
  "save_stack C stk n =
     (if n \<le> STACK_SIZE then
        let C = (if co_cap C < n then C\<lparr>co_cap := n, co_stack := replicate n 0\<rparr> else C);
            C = C\<lparr>co_size := n\<rparr>
        in Some (C\<lparr>co_stack := read_top stk n @ drop n (co_stack C)\<rparr>)
      else None)"

text \<open>\<open>r\<close> are the registers with which \<open>swapcontext\<close> returns when the coroutine is resumed.\<close>

definition coroutine_yield :: "('f, 'u, 'r) schedule \<Rightarrow> 'r \<Rightarrow> nat \<Rightarrow> ('f, 'u, 'r) schedule option" where
  "coroutine_yield S r n =
     (let id = running S in
      if id \<ge> 0 then
        do { c \<leftarrow> rdi (co S) id;
             C \<leftarrow> c;
             C \<leftarrow> save_stack C (stack S) n;
             cs \<leftarrow> wri (co S) id (Some (C\<lparr>status := COROUTINE_SUSPEND, ctx := Some r\<rparr>));
             Some (S\<lparr>co := cs, running := -1\<rparr>) }
      else None)"

text \<open>What \<open>mainfunc\<close> does after the function of the coroutine has returned.\<close>

definition mainfunc_end :: "('f, 'u, 'r) schedule \<Rightarrow> ('f, 'u, 'r) schedule option" where
  "mainfunc_end S =
     do { cs \<leftarrow> wri (co S) (running S) None;
          Some (S\<lparr>co := cs, nco := nco S - 1, running := -1\<rparr>) }"

section \<open>Running a coroutine\<close>

datatype ('f, 'u, 'r) event =
    Compute 'r "8 word list"
  | CallNew 'f 'u "int \<Rightarrow> 'r"
  | CallStatus int "co_status \<Rightarrow> 'r"
  | CallRunning "int \<Rightarrow> 'r"
  | CallResume int
  | CallYield 'r "8 word list"
  | Return

type_synonym ('f, 'u, 'r) code = "'r \<Rightarrow> 8 word list \<Rightarrow> ('f, 'u, 'r) event"

text \<open>Repeat a step until it gives a result.\<close>

partial_function (option) iter :: "('a \<Rightarrow> 'a + 'b) \<Rightarrow> 'a \<Rightarrow> 'b option" where
  "iter f x = (case f x of Inl y \<Rightarrow> iter f y | Inr z \<Rightarrow> Some z)"

fun or_fail :: "'a option \<Rightarrow> ('a \<Rightarrow> 'b + (co_error + 'c)) \<Rightarrow> 'b + (co_error + 'c)" where
  "or_fail None k = Inr (Inl AssertFailed)"
| "or_fail (Some x) k = k x"

text \<open>One step of the running coroutine, whose frames take \<open>n\<close> bytes.\<close>

definition co_step :: "('f, 'u, 'r) code \<Rightarrow> ('f, 'u, 'r) schedule \<times> 'r \<times> nat \<Rightarrow>
    (('f, 'u, 'r) schedule \<times> 'r \<times> nat) + (co_error + ('f, 'u, 'r) schedule)" where
  "co_step code = (\<lambda>(S, r, n).
     (case code r (read_top (stack S) n) of
        Compute r fs \<Rightarrow> (case push_frames S fs of Inl e \<Rightarrow> Inr (Inl e) | Inr S \<Rightarrow> Inl (S, r, length fs))
      | CallNew f u k \<Rightarrow> or_fail (coroutine_new S f u) (\<lambda>(S, id). Inl (S, k (int id), n))
      | CallStatus cid k \<Rightarrow> or_fail (coroutine_status S cid) (\<lambda>s. Inl (S, k s, n))
      | CallRunning k \<Rightarrow> Inl (S, k (coroutine_running S), n)
      | CallResume cid \<Rightarrow> Inr (Inl AssertFailed)
      | CallYield r fs \<Rightarrow> (case push_frames S fs of Inl e \<Rightarrow> Inr (Inl e)
                        | Inr S \<Rightarrow> or_fail (coroutine_yield S r (length fs)) (\<lambda>S. Inr (Inr S)))
      | Return \<Rightarrow> or_fail (mainfunc_end S) (\<lambda>S. Inr (Inr S))))"

text \<open>
  \<open>coroutine_resume\<close>: a new coroutine starts with the registers that \<open>entry\<close> (makecontext and
  the head of \<open>mainfunc\<close>) prepares and no frames; a suspended one gets its bytes back first.
\<close>

definition coroutine_resume :: "('f, 'u, 'r) code \<Rightarrow> ('f \<Rightarrow> 'u \<Rightarrow> 'r) \<Rightarrow> ('f, 'u, 'r) schedule \<Rightarrow> int \<Rightarrow>
    (co_error + ('f, 'u, 'r) schedule) option" where
  "coroutine_resume code entry S cid =
     (if running S = -1 \<and> 0 \<le> cid \<and> cid < int (sch_cap S) then
        (case co S ! nat cid of
           None \<Rightarrow> Some (Inr S)
         | Some C \<Rightarrow>
             (case status C of
                COROUTINE_READY \<Rightarrow>
                  iter (co_step code)
                    (S\<lparr>running := cid, co := (co S)[nat cid := Some (C\<lparr>status := COROUTINE_RUNNING\<rparr>)]\<rparr>, entry (func C) (ud C), 0)
              | COROUTINE_SUSPEND \<Rightarrow>
                  (case ctx C of
                     None \<Rightarrow> Some (Inl AssertFailed)
                   | Some r \<Rightarrow>
                       iter (co_step code)
                         (S\<lparr>stack := write_top (stack S) (take (co_size C) (co_stack C)), running := cid,
                            co := (co S)[nat cid := Some (C\<lparr>status := COROUTINE_RUNNING\<rparr>)]\<rparr>, r, co_size C))
              | _ \<Rightarrow> Some (Inl AssertFailed)))
      else Some (Inl AssertFailed))"

section \<open>The specification: private stacks\<close>

text \<open>
  A task keeps its own registers and frames; there is no shared stack.  \<open>Active\<close> is the task that runs.
\<close>

datatype ('f, 'u, 'r) task = Fresh 'f 'u | Parked 'r "8 word list" | Active

definition live :: "'a option list \<Rightarrow> nat" where
  "live cs = length (filter (\<lambda>c. c \<noteq> None) cs)"

definition spec_new :: "('f, 'u, 'r) task option list \<Rightarrow> 'f \<Rightarrow> 'u \<Rightarrow> (('f, 'u, 'r) task option list \<times> nat) option" where
  "spec_new ts f u =
     (if live ts = length ts then Some ((ts @ replicate (length ts) None)[length ts := Some (Fresh f u)], length ts)
      else map_option (\<lambda>i. (ts[i := Some (Fresh f u)], i)) (find_slot ts (live ts) 0 (length ts)))"

fun task_status :: "('f, 'u, 'r) task option \<Rightarrow> co_status" where
  "task_status None = COROUTINE_DEAD"
| "task_status (Some (Fresh f u)) = COROUTINE_READY"
| "task_status (Some (Parked r fs)) = COROUTINE_SUSPEND"
| "task_status (Some Active) = COROUTINE_RUNNING"

definition spec_step :: "('f, 'u, 'r) code \<Rightarrow> nat \<Rightarrow> ('f, 'u, 'r) task option list \<times> 'r \<times> 8 word list \<Rightarrow>
    (('f, 'u, 'r) task option list \<times> 'r \<times> 8 word list) + (co_error + ('f, 'u, 'r) task option list)" where
  "spec_step code i = (\<lambda>(ts, r, fs).
     (case code r fs of
        Compute r fs \<Rightarrow> (if length fs \<le> STACK_SIZE then Inl (ts, r, fs) else Inr (Inl StackOverflow))
      | CallNew f u k \<Rightarrow> or_fail (spec_new ts f u) (\<lambda>(ts, j). Inl (ts, k (int j), fs))
      | CallStatus j k \<Rightarrow> (if 0 \<le> j \<and> j < int (length ts) then Inl (ts, k (task_status (ts ! nat j)), fs) else Inr (Inl AssertFailed))
      | CallRunning k \<Rightarrow> Inl (ts, k (int i), fs)
      | CallResume j \<Rightarrow> Inr (Inl AssertFailed)
      | CallYield r fs \<Rightarrow> Inr (if length fs \<le> STACK_SIZE then Inr (ts[i := Some (Parked r fs)]) else Inl StackOverflow)
      | Return \<Rightarrow> Inr (Inr (ts[i := None]))))"

definition spec_resume :: "('f, 'u, 'r) code \<Rightarrow> ('f \<Rightarrow> 'u \<Rightarrow> 'r) \<Rightarrow> ('f, 'u, 'r) task option list \<Rightarrow> int \<Rightarrow>
    (co_error + ('f, 'u, 'r) task option list) option" where
  "spec_resume code entry ts j =
     (if 0 \<le> j \<and> j < int (length ts) then
        (case ts ! nat j of
           None \<Rightarrow> Some (Inr ts)
         | Some (Fresh f u) \<Rightarrow> iter (spec_step code (nat j)) (ts[nat j := Some Active], entry f u, [])
         | Some (Parked r fs) \<Rightarrow> iter (spec_step code (nat j)) (ts[nat j := Some Active], r, fs)
         | Some Active \<Rightarrow> Some (Inl AssertFailed))
      else Some (Inl AssertFailed))"

definition abs_task :: "('f, 'u, 'r) coroutine \<Rightarrow> ('f, 'u, 'r) task" where
  "abs_task C =
     (case status C of
        COROUTINE_READY \<Rightarrow> Fresh (func C) (ud C)
      | COROUTINE_SUSPEND \<Rightarrow> Parked (the (ctx C)) (take (co_size C) (co_stack C))
      | _ \<Rightarrow> Active)"

definition abs_sch :: "('f, 'u, 'r) schedule \<Rightarrow> ('f, 'u, 'r) task option list" where
  "abs_sch S = map (map_option abs_task) (co S)"

section \<open>The invariant of the scheduler\<close>

definition entry_ok :: "int \<Rightarrow> nat \<Rightarrow> ('f, 'u, 'r) coroutine option \<Rightarrow> bool" where
  "entry_ok rn i c \<longleftrightarrow>
     (case c of None \<Rightarrow> rn \<noteq> int i
      | Some C \<Rightarrow> (status C = COROUTINE_RUNNING \<longleftrightarrow> rn = int i) \<and> status C \<noteq> COROUTINE_DEAD
           \<and> length (co_stack C) = co_cap C
           \<and> (status C = COROUTINE_SUSPEND \<longrightarrow> ctx C \<noteq> None \<and> co_size C \<le> co_cap C \<and> co_size C \<le> STACK_SIZE))"

definition sch_wf :: "('f, 'u, 'r) schedule \<Rightarrow> bool" where
  "sch_wf S \<longleftrightarrow> length (co S) = sch_cap S \<and> 0 < sch_cap S \<and> nco S = live (co S)
     \<and> (\<forall>i < sch_cap S. entry_ok (running S) i (co S ! i)) \<and> -1 \<le> running S \<and> running S < int (sch_cap S)"

lemma live_update: "i < length cs \<Longrightarrow> live (cs[i := x]) + (if cs ! i = None then 0 else 1) = live cs + (if x = None then 0 else 1)"
proof (induction cs arbitrary: i)
  case (Cons c cs)
  show ?case
  proof (cases i)
    case (Suc k)
    then have "live (cs[k := x]) + (if cs ! k = None then 0 else 1) = live cs + (if x = None then 0 else 1)"
      using Cons by simp
    then show ?thesis using Suc by (simp add: live_def split: if_splits)
  qed (simp add: live_def)
qed simp

lemma live_le: "live cs \<le> length cs"
  by (simp add: live_def)

lemma live_less: "live cs < length cs \<Longrightarrow> \<exists>i < length cs. cs ! i = None"
proof (rule ccontr)
  assume l: "live cs < length cs" and "\<not> (\<exists>i < length cs. cs ! i = None)"
  then have "\<forall>c \<in> set cs. c \<noteq> None" by (metis in_set_conv_nth)
  then have "filter (\<lambda>c. c \<noteq> None) cs = cs" by (simp add: filter_id_conv)
  then show False using l by (simp add: live_def)
qed

lemma live_map [simp]: "live (map (map_option g) cs) = live cs"
  by (induction cs) (auto simp: live_def)

lemma live_append: "live (cs @ replicate n None) = live cs"
  by (simp add: live_def)

lemma find_slot_Some: "find_slot cs n i k = Some j \<Longrightarrow> 0 < length cs \<Longrightarrow> j < length cs \<and> cs ! j = None"
  by (induction cs n i k rule: find_slot.induct) (auto simp: Let_def split: if_splits)

lemma find_slot_None: "find_slot cs n i k = None \<Longrightarrow> d < k \<Longrightarrow> cs ! ((i + d + n) mod length cs) \<noteq> None"
proof (induction cs n i k arbitrary: d rule: find_slot.induct)
  case (2 cs n i k)
  then show ?case by (cases d) (auto simp: Let_def split: if_splits)
qed simp

lemma find_slot_map: "0 < length cs \<Longrightarrow> find_slot (map (map_option g) cs) n i k = find_slot cs n i k"
  by (induction k arbitrary: i) (simp_all add: Let_def)

text \<open>The cyclic search visits every entry, so it finds a free one when there is one.\<close>

lemma find_slot_total:
  assumes "live cs < length cs"
  shows "\<exists>j. find_slot cs n 0 (length cs) = Some j \<and> j < length cs \<and> cs ! j = None"
proof (cases "find_slot cs n 0 (length cs)")
  case None
  let ?L = "length cs"
  obtain j where j: "j < ?L" "cs ! j = None" using live_less [OF assms] by blast
  let ?d = "(j + n * (?L - 1)) mod ?L"
  have "(?d + n) mod ?L = (j + n * (?L - 1) + n) mod ?L" by (simp add: mod_add_left_eq)
  also have "j + n * (?L - 1) + n = j + n * ?L" using j(1) by (cases ?L) simp_all
  finally have "(0 + ?d + n) mod ?L = j" using j(1) by simp
  moreover have "?d < ?L" using j(1) by (intro mod_less_divisor) linarith
  ultimately show ?thesis using find_slot_None [OF None, of ?d] j(2) by simp
next
  case (Some j)
  then show ?thesis using find_slot_Some assms by fastforce
qed

lemma length_read_top [simp]: "length (read_top stk n) = n"
  by (simp add: read_top_def)

lemma nth_read_top: "i < n \<Longrightarrow> read_top stk n ! i = stk (n - i)"
proof -
  assume i: "i < n"
  have "rev [1..<n + 1] ! i = [1..<n + 1] ! (n - Suc i)" using i by (subst rev_nth) simp_all
  also have "\<dots> = n - i" using i by (simp del: upt_Suc)
  finally show ?thesis using i by (simp add: read_top_def del: upt_Suc)
qed

lemma read_write_top [simp]: "read_top (write_top stk bs) (length bs) = bs"
  by (rule nth_equalityI) (auto simp: nth_read_top write_top_def)

lemma abs_update: "map (map_option abs_task) (cs[i := c]) = (map (map_option abs_task) cs)[i := map_option abs_task c]"
  by (simp add: map_update)

lemma new_task [simp]: "abs_task (co_new f u) = Fresh f u"
  by (simp add: abs_task_def co_new_def)

lemma new_entry_ok: "rn \<noteq> int i \<Longrightarrow> entry_ok rn i (Some (co_new f u))"
  by (simp add: entry_ok_def co_new_def)

lemma new_spec:
  assumes wf: "sch_wf S"
  shows "\<exists>S' j. coroutine_new S f u = Some (S', j) \<and> sch_wf S' \<and> running S' = running S \<and> stack S' = stack S
    \<and> spec_new (abs_sch S) f u = Some (abs_sch S', j)
    \<and> j < sch_cap S' \<and> (j < sch_cap S \<longrightarrow> co S ! j = None) \<and> (\<forall>i < sch_cap S. i \<noteq> j \<longrightarrow> co S' ! i = co S ! i)
    \<and> co S' ! j = Some (co_new f u) \<and> nco S' = nco S + 1"
proof -
  have S: "length (co S) = sch_cap S" "0 < sch_cap S" "nco S = live (co S)" "running S < int (sch_cap S)"
    "\<And>i. i < sch_cap S \<Longrightarrow> entry_ok (running S) i (co S ! i)" "-1 \<le> running S"
    using wf by (auto simp: sch_wf_def)
  let ?C = "Some (co_new f u)"
  show ?thesis
  proof (cases "nco S \<ge> sch_cap S")
    case True
    then have full: "live (co S) = sch_cap S" using S live_le [of "co S"] by simp
    let ?cs = "(co S @ replicate (sch_cap S) None)[sch_cap S := ?C]"
    let ?S = "S\<lparr>co := ?cs, sch_cap := sch_cap S * 2, nco := nco S + 1\<rparr>"
    have "entry_ok (running S) i (?cs ! i)" if "i < sch_cap S * 2" for i
      using S that new_entry_ok [of "running S" i f u] by (cases "i < sch_cap S") (auto simp: nth_append nth_list_update entry_ok_def)
    moreover have "live ?cs = live (co S) + 1"
      using live_update [of "sch_cap S" "co S @ replicate (sch_cap S) None" ?C] S
      by (simp add: live_append nth_append)
    ultimately have "sch_wf ?S" using S by (simp add: sch_wf_def)
    moreover have "coroutine_new S f u = Some (?S, sch_cap S)" using True S by (simp add: coroutine_new_def Let_def)
    moreover have "spec_new (abs_sch S) f u = Some (abs_sch ?S, sch_cap S)"
      using full S(1) by (simp add: spec_new_def abs_sch_def map_update)
    ultimately show ?thesis using S by (auto simp: nth_append nth_list_update)
  next
    case False
    with S have "live (co S) < length (co S)" by simp
    from find_slot_total [OF this]
    obtain j where j: "find_slot (co S) (nco S) 0 (sch_cap S) = Some j" "j < sch_cap S" "co S ! j = None"
      using S by auto
    let ?S = "S\<lparr>co := (co S)[j := ?C], nco := nco S + 1\<rparr>"
    have rj: "running S \<noteq> int j" using S(5) [OF j(2)] j(3) by (simp add: entry_ok_def)
    have "entry_ok (running S) i ((co S)[j := ?C] ! i)" if "i < sch_cap S" for i
      using S that new_entry_ok [OF rj] by (cases "i = j") auto
    moreover have "live ((co S)[j := ?C]) = live (co S) + 1" using live_update [of j "co S" ?C] S j by simp
    ultimately have "sch_wf ?S" using S by (simp add: sch_wf_def)
    moreover have "coroutine_new S f u = Some (?S, j)" using False j by (simp add: coroutine_new_def Let_def)
    moreover have "spec_new (abs_sch S) f u = Some (abs_sch ?S, j)"
      using False S j find_slot_map [of "co S" abs_task] by (simp add: spec_new_def abs_sch_def map_update)
    ultimately show ?thesis using S j by auto
  qed
qed

lemma status_spec:
  assumes "sch_wf S"
  shows "coroutine_status S j =
    (if 0 \<le> j \<and> j < int (length (abs_sch S)) then Some (task_status (abs_sch S ! nat j)) else None)"
proof (cases "0 \<le> j \<and> j < int (sch_cap S)")
  case True
  then have j: "nat j < sch_cap S" by (simp add: nat_less_iff)
  then have "entry_ok (running S) (nat j) (co S ! nat j)" using assms by (simp add: sch_wf_def)
  moreover have "length (co S) = sch_cap S" using assms by (simp add: sch_wf_def)
  ultimately show ?thesis using True j
    by (auto simp: coroutine_status_def abs_sch_def abs_task_def entry_ok_def split: option.splits co_status.splits)
next
  case False
  then show ?thesis using assms by (auto simp: coroutine_status_def abs_sch_def sch_wf_def)
qed

section \<open>Simulation\<close>

lemma iter_Inl: "f x = Inl y \<Longrightarrow> iter f x = iter f y"
  by (simp add: iter.simps [of f x])

lemma iter_Inr: "f x = Inr z \<Longrightarrow> iter f x = Some z"
  by (simp add: iter.simps [of f x])

lemma iter_induct [consumes 1, case_names step stop]:
  assumes it: "iter f a = Some y"
    and step: "\<And>x x' y. f x = Inl x' \<Longrightarrow> P x' y \<Longrightarrow> P x y" and stop: "\<And>x z. f x = Inr z \<Longrightarrow> P x z"
  shows "P a y"
proof -
  have "(case (f, a) of (g, x) \<Rightarrow> iter g x) = Some y" using it by simp
  from iter.raw_induct [OF _ this, where P = "\<lambda>g x y. g = f \<longrightarrow> P x y"]
  show ?thesis using step stop by (force split: sum.splits)
qed

lemma iter_sim_forward:
  assumes sim: "\<And>a b. R a b \<Longrightarrow> rel_sum R Q (f a) (g b)"
  shows "iter f a = Some y \<Longrightarrow> \<forall>b. R a b \<longrightarrow> (\<exists>z. iter g b = Some z \<and> Q y z)"
proof (induction rule: iter_induct)
  case (step x x' y)
  show ?case
  proof (intro allI impI)
    fix b assume "R x b"
    from sim [OF this] step(1) obtain b' where "g b = Inl b'" "R x' b'" by (auto elim: rel_sum.cases)
    then show "\<exists>z. iter g b = Some z \<and> Q y z" using step(2) iter_Inl by metis
  qed
next
  case (stop x z)
  show ?case
  proof (intro allI impI)
    fix b assume "R x b"
    from sim [OF this] stop obtain z' where "g b = Inr z'" "Q z z'" by (auto elim: rel_sum.cases)
    then show "\<exists>z'. iter g b = Some z' \<and> Q z z'" using iter_Inr by metis
  qed
qed

lemma iter_sim:
  assumes sim: "\<And>a b. R a b \<Longrightarrow> rel_sum R Q (f a) (g b)" and R: "R a b"
  shows "rel_option Q (iter f a) (iter g b)"
proof (cases "iter f a")
  case (Some y)
  then show ?thesis using iter_sim_forward [of R Q f g] sim R by fastforce
next
  case None
  have "iter g b = None"
  proof (rule ccontr)
    assume "iter g b \<noteq> None"
    then obtain z where "iter g b = Some z" by blast
    then show False using iter_sim_forward [of "\<lambda>x y. R y x" "\<lambda>x y. Q y x" g f b z] sim R None
      by (simp add: sum.rel_flip [of R Q, unfolded conversep_iff]) (metis option.distinct(1) sum.rel_flip conversep_iff)
  qed
  with None show ?thesis by simp
qed

definition co_rel :: "nat \<Rightarrow> ('f, 'u, 'r) schedule \<times> 'r \<times> nat \<Rightarrow> ('f, 'u, 'r) task option list \<times> 'r \<times> 8 word list \<Rightarrow> bool" where
  "co_rel i = (\<lambda>(S, r, n) (ts, r', fs). sch_wf S \<and> running S = int i \<and> ts = abs_sch S \<and> r' = r \<and> fs = read_top (stack S) n)"

definition idle :: "('f, 'u, 'r) schedule \<Rightarrow> bool" where
  "idle S \<longleftrightarrow> sch_wf S \<and> running S = -1"

definition res_rel :: "co_error + ('f, 'u, 'r) schedule \<Rightarrow> co_error + ('f, 'u, 'r) task option list \<Rightarrow> bool" where
  "res_rel = rel_sum (=) (\<lambda>S ts. idle S \<and> ts = abs_sch S)"

lemma res_rel_simps [simp]: "res_rel (Inl e) (Inl e') \<longleftrightarrow> e = e'" "res_rel (Inr S) (Inr ts) \<longleftrightarrow> idle S \<and> ts = abs_sch S"
  by (simp_all add: res_rel_def)

lemma wf_stack [simp]: "sch_wf (S\<lparr>stack := m\<rparr>) = sch_wf S"
  by (simp add: sch_wf_def)

lemma abs_stack [simp]: "abs_sch (S\<lparr>stack := m\<rparr>) = abs_sch S"
  by (simp add: abs_sch_def)

text \<open>Leaving the running coroutine, with its entry replaced.\<close>

lemma leave:
  assumes wf: "sch_wf S" "running S = int i" and c: "entry_ok (-1) i c"
    and n: "n + (if c = None then 1 else 0) = nco S"
  shows "idle (S\<lparr>co := (co S)[i := c], nco := n, running := -1\<rparr>)"
proof -
  have S: "length (co S) = sch_cap S" "0 < sch_cap S" "nco S = live (co S)" "i < sch_cap S"
    "\<And>j. j < sch_cap S \<Longrightarrow> entry_ok (int i) j (co S ! j)"
    using wf by (auto simp: sch_wf_def)
  have "co S ! i \<noteq> None" using S(5) [OF S(4)] by (simp add: entry_ok_def split: option.splits)
  then have "n = live ((co S)[i := c])" using live_update [of i "co S" c] S n by (auto split: if_splits)
  moreover have "entry_ok (-1) j ((co S)[i := c] ! j)" if "j < sch_cap S" for j
    using S(5) [OF that] that S(1) c by (cases "j = i") (auto simp: entry_ok_def split: option.splits)
  ultimately show ?thesis using S by (simp add: idle_def sch_wf_def)
qed

lemma running_task:
  assumes "sch_wf S" "running S = int i"
  obtains C where "i < length (co S)" "co S ! i = Some C" "status C = COROUTINE_RUNNING" "length (co_stack C) = co_cap C"
proof -
  have i: "i < length (co S)" "entry_ok (int i) i (co S ! i)" using assms by (auto simp: sch_wf_def)
  then show ?thesis using that by (auto simp: entry_ok_def split: option.splits)
qed

lemma yield_spec:
  assumes wf: "sch_wf S" "running S = int i" and n: "n \<le> STACK_SIZE"
  shows "\<exists>S'. coroutine_yield S r n = Some S' \<and> idle S' \<and> abs_sch S' = (abs_sch S)[i := Some (Parked r (read_top (stack S) n))]"
proof -
  obtain C where C: "i < length (co S)" "co S ! i = Some C" "status C = COROUTINE_RUNNING" "length (co_stack C) = co_cap C"
    using running_task [OF wf] .
  let ?blk = "read_top (stack S) n @ drop n (if co_cap C < n then replicate n 0 else co_stack C)"
  let ?C = "C\<lparr>co_cap := (if co_cap C < n then n else co_cap C), co_size := n, co_stack := ?blk, status := COROUTINE_SUSPEND, ctx := Some r\<rparr>"
  have ok: "entry_ok (-1) i (Some ?C)" using C(4) n by (auto simp: entry_ok_def)
  let ?S = "S\<lparr>co := (co S)[i := Some ?C], running := -1\<rparr>"
  have "coroutine_yield S r n = Some ?S" using wf(2) C n by (simp add: coroutine_yield_def save_stack_def Let_def)
  moreover have "idle ?S" using leave [OF wf ok, of "nco S"] by simp
  moreover have "abs_sch ?S = (abs_sch S)[i := Some (Parked r (read_top (stack S) n))]"
    by (simp add: abs_sch_def map_update abs_task_def)
  ultimately show ?thesis by blast
qed

lemma end_spec:
  assumes wf: "sch_wf S" "running S = int i"
  shows "\<exists>S'. mainfunc_end S = Some S' \<and> idle S' \<and> abs_sch S' = (abs_sch S)[i := None]"
proof -
  obtain C where C: "i < length (co S)" "co S ! i = Some C" using running_task [OF wf] .
  then have "0 < nco S" using live_update [OF C(1), of None] wf by (simp add: sch_wf_def)
  moreover have "entry_ok (-1) i None" by (simp add: entry_ok_def)
  ultimately have "idle (S\<lparr>co := (co S)[i := None], nco := nco S - 1, running := -1\<rparr>)"
    using leave [OF wf, of None "nco S - 1"] by simp
  then show ?thesis using wf(2) C(1) by (simp add: mainfunc_end_def abs_sch_def map_update)
qed

lemma step_sim:
  assumes "co_rel i a b"
  shows "rel_sum (co_rel i) res_rel (co_step code a) (spec_step code i b)"
proof -
  obtain S r n where a: "a = (S, r, n)" by (cases a)
  let ?fs = "read_top (stack S) n"
  have b: "b = (abs_sch S, r, ?fs)" and wf: "sch_wf S" "running S = int i"
    using assms by (cases b; auto simp: co_rel_def a)+
  note defs = co_step_def spec_step_def a b co_rel_def
  show ?thesis
  proof (cases "code r ?fs")
    case (Compute r' fs)
    then show ?thesis using wf by (simp add: defs push_frames_def)
  next
    case (CallNew f u k)
    then show ?thesis using new_spec [OF wf(1), of f u] wf(2) by (auto simp: defs)
  next
    case (CallStatus j k)
    then show ?thesis using status_spec [OF wf(1), of j] wf by (simp add: defs)
  next
    case (CallRunning k)
    then show ?thesis using wf by (simp add: defs coroutine_running_def)
  next
    case (CallResume j)
    then show ?thesis by (simp add: defs)
  next
    case (CallYield r' fs)
    have "sch_wf (S\<lparr>stack := write_top (stack S) fs\<rparr>)" "running (S\<lparr>stack := write_top (stack S) fs\<rparr>) = int i" using wf by simp_all
    from yield_spec [OF this, of "length fs" r'] CallYield show ?thesis by (auto simp: defs push_frames_def)
  next
    case Return
    then show ?thesis using end_spec [OF wf] by (auto simp: defs)
  qed
qed

text \<open>Dispatching the coroutine \<open>i\<close>.\<close>

lemma dispatch:
  assumes S: "idle S" and i: "i < sch_cap S" "co S ! i = Some C"
  shows "sch_wf (S\<lparr>running := int i, co := (co S)[i := Some (C\<lparr>status := COROUTINE_RUNNING\<rparr>)]\<rparr>)"
    and "abs_sch (S\<lparr>running := int i, co := (co S)[i := Some (C\<lparr>status := COROUTINE_RUNNING\<rparr>)]\<rparr>) = (abs_sch S)[i := Some Active]"
proof -
  let ?c = "Some (C\<lparr>status := COROUTINE_RUNNING\<rparr>)"
  have w: "length (co S) = sch_cap S" "0 < sch_cap S" "nco S = live (co S)" "\<And>j. j < sch_cap S \<Longrightarrow> entry_ok (-1) j (co S ! j)"
    using S by (auto simp: idle_def sch_wf_def)
  have "entry_ok (int i) j ((co S)[i := ?c] ! j)" if "j < sch_cap S" for j
    using w(4) [OF that] that w(1) i by (cases "j = i") (auto simp: entry_ok_def split: option.splits)
  moreover have "live ((co S)[i := ?c]) = live (co S)" using live_update [of i "co S" ?c] w i by simp
  ultimately show "sch_wf (S\<lparr>running := int i, co := (co S)[i := ?c]\<rparr>)" using w i by (simp add: sch_wf_def)
  show "abs_sch (S\<lparr>running := int i, co := (co S)[i := ?c]\<rparr>) = (abs_sch S)[i := Some Active]"
    by (simp add: abs_sch_def map_update abs_task_def)
qed

lemma resume_sim:
  assumes S: "idle S"
  shows "rel_option res_rel (coroutine_resume code entry S j) (spec_resume code entry (abs_sch S) j)"
proof (cases "0 \<le> j \<and> j < int (sch_cap S)")
  case False
  then show ?thesis using S by (auto simp: coroutine_resume_def spec_resume_def idle_def sch_wf_def abs_sch_def)
next
  case True
  define i where "i = nat j"
  have j: "j = int i" and i: "i < sch_cap S" using True by (auto simp: i_def)
  have len: "length (co S) = sch_cap S" and run: "running S = -1" and ok: "entry_ok (-1) i (co S ! i)"
    using S i by (auto simp: idle_def sch_wf_def)
  show ?thesis
  proof (cases "co S ! i")
    case None
    then show ?thesis using i len run S by (simp add: coroutine_resume_def spec_resume_def abs_sch_def j)
  next
    case (Some C)
    let ?S = "S\<lparr>running := int i, co := (co S)[i := Some (C\<lparr>status := COROUTINE_RUNNING\<rparr>)]\<rparr>"
    note d = dispatch [OF S i Some]
    have ts: "abs_sch S ! i = Some (abs_task C)" using Some i len by (simp add: abs_sch_def)
    note defs = coroutine_resume_def spec_resume_def j i Some run len ts abs_task_def
    have la: "length (abs_sch S) = sch_cap S" using len by (simp add: abs_sch_def)
    show ?thesis
    proof (cases "status C")
      case COROUTINE_READY
      have "co_rel i (?S, entry (func C) (ud C), 0) ((abs_sch S)[i := Some Active], entry (func C) (ud C), [])"
        using d by (simp add: co_rel_def read_top_def)
      from iter_sim [OF step_sim [where code = code] this] show ?thesis using COROUTINE_READY by (simp add: defs la)
    next
      case COROUTINE_SUSPEND
      then obtain r where r: "ctx C = Some r" "co_size C \<le> length (co_stack C)" using ok Some by (auto simp: entry_ok_def)
      let ?fs = "take (co_size C) (co_stack C)"
      let ?S2 = "S\<lparr>stack := write_top (stack S) ?fs, running := int i, co := (co S)[i := Some (C\<lparr>status := COROUTINE_RUNNING\<rparr>)]\<rparr>"
      have eq: "?S2 = ?S\<lparr>stack := write_top (stack S) ?fs\<rparr>" by simp
      have "read_top (write_top (stack S) ?fs) (co_size C) = ?fs" using read_write_top [of "stack S" ?fs] r(2) by simp
      then have "co_rel i (?S2, r, co_size C) ((abs_sch S)[i := Some Active], r, ?fs)"
        unfolding eq using d by (simp add: co_rel_def)
      from iter_sim [OF step_sim [where code = code] this] show ?thesis using COROUTINE_SUSPEND r by (simp add: defs la)
    qed (use ok Some in \<open>auto simp: entry_ok_def\<close>)
  qed
qed

section \<open>The spec leaves other tasks alone\<close>

lemma spec_step_others:
  assumes "spec_step code i (ts, r, fs) = Inl (ts', r', fs')"
  shows "length ts \<le> length ts' \<and> (\<forall>j < length ts. ts ! j \<noteq> None \<longrightarrow> ts' ! j = ts ! j)"
proof (cases "code r fs")
  case (CallNew f u k)
  then obtain n where n: "spec_new ts f u = Some (ts', n)"
    using assms by (cases "spec_new ts f u") (auto simp: spec_step_def)
  show ?thesis
  proof (cases "live ts = length ts")
    case True
    then show ?thesis using n by (auto simp: spec_new_def nth_append)
  next
    case False
    then obtain m where m: "find_slot ts (live ts) 0 (length ts) = Some m" "ts' = ts[m := Some (Fresh f u)]"
      using n by (auto simp: spec_new_def)
    moreover have "0 < length ts" using False live_le [of ts] by linarith
    ultimately have "ts ! m = None" using find_slot_Some by blast
    then show ?thesis using m(2) by (metis length_list_update nth_list_update_neq order_refl)
  qed
next
  case (CallStatus j k)
  then show ?thesis using assms by (auto simp: spec_step_def split: if_splits)
qed (use assms in \<open>auto simp: spec_step_def split: if_splits\<close>)

lemma spec_iter_others:
  "iter (spec_step code i) x = Some z \<Longrightarrow>
   (\<forall>ts'. z = Inr ts' \<longrightarrow> length (fst x) \<le> length ts' \<and>
      (\<forall>j < length (fst x). j \<noteq> i \<longrightarrow> fst x ! j \<noteq> None \<longrightarrow> ts' ! j = fst x ! j))"
proof (induction rule: iter_induct)
  case (step x x' y)
  obtain ts r fs ts' r' fs' where x: "x = (ts, r, fs)" "x' = (ts', r', fs')" by (cases x, cases x')
  have o: "length ts \<le> length ts'" "\<forall>j < length ts. ts ! j \<noteq> None \<longrightarrow> ts' ! j = ts ! j"
    using spec_step_others [OF step(1) [unfolded x]] by blast+
  show ?case
  proof (intro allI impI conjI)
    fix us assume y: "y = Inr us"
    have us: "length ts' \<le> length us" "\<And>j. j < length ts' \<Longrightarrow> j \<noteq> i \<Longrightarrow> ts' ! j \<noteq> None \<Longrightarrow> us ! j = ts' ! j"
      using step(2) y unfolding x by auto
    show "length (fst x) \<le> length us" using us(1) o(1) x by simp
    fix j assume "j < length (fst x)" "j \<noteq> i" "fst x ! j \<noteq> None"
    then show "us ! j = fst x ! j" using us(2) [of j] o x by simp
  qed
next
  case (stop x z)
  obtain ts r fs where x: "x = (ts, r, fs)" by (cases x)
  show ?case
  proof (cases "code r fs")
    case (CallNew f u k)
    then show ?thesis using stop x by (cases "spec_new ts f u") (auto simp: spec_step_def)
  next
    case (CallYield r' fs')
    then show ?thesis using stop x by (auto simp: spec_step_def split: if_splits)
  qed (use stop x in \<open>auto simp: spec_step_def split: if_splits\<close>)
qed

section \<open>Properties\<close>

text \<open>
  C8: the scheduler on one shared stack refines a scheduler in which every coroutine has a stack of
  its own.  From every state between two resumptions, for every behaviour \<open>code\<close> of the coroutines: a
  new coroutine is added as the specification adds it, and resuming any id runs forever, fails or
  returns exactly when the specification does, with the same tasks, registers and frames, in a state
  that keeps the invariant.
\<close>

theorem coroutine_refines_private_stacks:
  assumes "idle S"
  shows "rel_option res_rel (coroutine_resume code entry S j) (spec_resume code entry (abs_sch S) j)
    \<and> (\<exists>S' i. coroutine_new S f u = Some (S', i) \<and> idle S' \<and> spec_new (abs_sch S) f u = Some (abs_sch S', i))
    \<and> coroutine_status S j = (if 0 \<le> j \<and> j < int (length (abs_sch S)) then Some (task_status (abs_sch S ! nat j)) else None)"
proof (intro conjI)
  show "\<exists>S' i. coroutine_new S f u = Some (S', i) \<and> idle S' \<and> spec_new (abs_sch S) f u = Some (abs_sch S', i)"
    using new_spec [of S f u] assms by (auto simp: idle_def)
  show "coroutine_status S j = (if 0 \<le> j \<and> j < int (length (abs_sch S)) then Some (task_status (abs_sch S ! nat j)) else None)"
    using assms by (intro status_spec) (simp add: idle_def)
qed (rule resume_sim [OF assms])

lemma open_idle: "idle (coroutine_open mem)"
  by (simp add: idle_def sch_wf_def coroutine_open_def DEFAULT_COROUTINE_def entry_ok_def live_def nth_Cons' eval_nat_numeral)

text \<open>
  Isolation.  When resuming coroutine \<open>j\<close> has returned to the scheduler, every other coroutine that
  existed before still exists, with the status, the registers and the stack bytes it had, although
  \<open>j\<close> and the coroutines it created used the same stack.
\<close>

theorem coroutine_isolation:
  assumes "idle S" "coroutine_resume code entry S (int j) = Some (Inr S')" "i \<noteq> j" "i < sch_cap S" "co S ! i = Some C"
  shows "\<exists>C'. co S' ! i = Some C' \<and> status C' = status C \<and> abs_task C' = abs_task C"
proof -
  have "rel_option res_rel (Some (Inr S')) (spec_resume code entry (abs_sch S) (int j))"
    using resume_sim [OF assms(1), of code entry "int j"] assms(2) by simp
  then have r: "spec_resume code entry (abs_sch S) (int j) = Some (Inr (abs_sch S'))" "idle S'"
    by (auto simp: option_rel_Some1 res_rel_def elim: rel_sum.cases)
  have len: "length (abs_sch S) = sch_cap S" "length (co S) = sch_cap S" using assms(1) by (auto simp: abs_sch_def idle_def sch_wf_def)
  have C: "abs_sch S ! i = Some (abs_task C)" using assms(4,5) len by (simp add: abs_sch_def)
  have "abs_sch S' ! i = abs_sch S ! i \<and> sch_cap S \<le> length (abs_sch S')"
  proof (cases "j < sch_cap S")
    case False
    then show ?thesis using r(1) by (simp add: spec_resume_def len)
  next
    case True
    show ?thesis
    proof (cases "abs_sch S ! j")
      case None
      then have "abs_sch S' = abs_sch S" using r(1) True by (simp add: spec_resume_def len)
      then show ?thesis by (simp add: len)
    next
      case (Some t)
      then obtain r0 fs0 where "iter (spec_step code j) ((abs_sch S)[j := Some Active], r0, fs0) = Some (Inr (abs_sch S'))"
        using r(1) True by (cases t) (auto simp: spec_resume_def len)
      from spec_iter_others [OF this] show ?thesis using assms(3,4) C len by auto
    qed
  qed
  then have "i < length (co S')" "map_option abs_task (co S' ! i) = Some (abs_task C)" using C assms(4) by (auto simp: abs_sch_def)
  then obtain C' where C': "co S' ! i = Some C'" "abs_task C' = abs_task C" by auto
  have "entry_ok (-1) i (co S ! i)" "entry_ok (-1) i (co S' ! i)"
    using assms(1,4) r(2) \<open>i < length (co S')\<close> by (auto simp: idle_def sch_wf_def)
  then have "status C' = status C" using C' assms(5)
    by (cases "status C"; cases "status C'") (auto simp: entry_ok_def abs_task_def)
  with C' show ?thesis by blast
qed

text \<open>Two coroutines: 0 is parked with three bytes on its stack, 1 is new and will park with four.\<close>

definition two_code :: "(int, unit, int) code" where
  "two_code r fs = (if r = 20 then CallYield 21 [7, 7, 7, 7] else Return)"

definition two_sch :: "(int, unit, int) schedule" where
  "two_sch = \<lparr>stack = (\<lambda>_. 0), nco = 2, sch_cap = 3, running = -1,
     co = [Some \<lparr>func = 10, ud = (), ctx = Some 11, co_cap = 3, co_size = 3, status = COROUTINE_SUSPEND, co_stack = [1, 2, 3]\<rparr>,
           Some (co_new 20 ()), None]\<rparr>"

lemma two_idle: "idle two_sch"
proof -
  have "(3 :: nat) \<le> STACK_SIZE" by (simp add: STACK_SIZE_def)
  then show ?thesis
    by (simp add: idle_def sch_wf_def two_sch_def live_def entry_ok_def co_new_def numeral_3_eq_3 All_less_Suc)
qed

theorem coroutine_refines_private_stacks_witness:
  "rel_option res_rel (coroutine_resume two_code (\<lambda>f u. f) two_sch 1) (spec_resume two_code (\<lambda>f u. f) (abs_sch two_sch) 1)
   \<and> coroutine_status two_sch 0 = Some COROUTINE_SUSPEND"
  using coroutine_refines_private_stacks [OF two_idle, of two_code "\<lambda>f u. f" 1]
    coroutine_refines_private_stacks [OF two_idle, of two_code "\<lambda>f u. f" 0]
  by (simp add: abs_sch_def two_sch_def abs_task_def)

theorem coroutine_isolation_witness:
  "\<exists>S' C'. coroutine_resume two_code (\<lambda>f u. f) two_sch (int 1) = Some (Inr S') \<and> co S' ! 0 = Some C'
     \<and> status C' = COROUTINE_SUSPEND \<and> abs_task C' = Parked 11 [1, 2, 3]"
proof -
  have "\<exists>S'. coroutine_resume two_code (\<lambda>f u. f) two_sch (int 1) = Some (Inr S')"
    by (subst coroutine_resume_def)
      (simp add: two_sch_def co_new_def iter.simps [of _ "(S, 20, 0)" for S] co_step_def two_code_def push_frames_def
        STACK_SIZE_def coroutine_yield_def save_stack_def Let_def)
  then obtain S' where S': "coroutine_resume two_code (\<lambda>f u. f) two_sch (int 1) = Some (Inr S')" by blast
  have "co two_sch ! 0 = Some \<lparr>func = 10, ud = (), ctx = Some 11, co_cap = 3, co_size = 3, status = COROUTINE_SUSPEND, co_stack = [1, 2, 3]\<rparr>"
    by (simp add: two_sch_def)
  from coroutine_isolation [OF two_idle S' _ _ this] S' show ?thesis
    by (simp add: two_sch_def abs_task_def)
qed

text \<open>The states between two resumptions.\<close>

inductive sched_reach :: "('f, 'u, 'r) code \<Rightarrow> ('f \<Rightarrow> 'u \<Rightarrow> 'r) \<Rightarrow> ('f, 'u, 'r) schedule \<Rightarrow> bool"
  for code entry where
  reach_open: "sched_reach code entry (coroutine_open mem)"
| reach_new: "sched_reach code entry S \<Longrightarrow> coroutine_new S f u = Some (S', i) \<Longrightarrow> sched_reach code entry S'"
| reach_resume: "sched_reach code entry S \<Longrightarrow> coroutine_resume code entry S j = Some (Inr S') \<Longrightarrow> sched_reach code entry S'"

lemma reach_idle: "sched_reach code entry S \<Longrightarrow> idle S"
proof (induction rule: sched_reach.induct)
  case (reach_new S f u S' i)
  then show ?case using new_spec [of S f u] by (auto simp: idle_def)
next
  case (reach_resume S j S')
  then show ?case using resume_sim [of S code entry j] by (auto simp: option_rel_Some1 res_rel_def elim: rel_sum.cases)
qed (rule open_idle)

text \<open>Code that keeps to the stack and uses the interface as documented.\<close>

fun event_ok :: "('f, 'u, 'r) event \<Rightarrow> bool" where
  "event_ok (Compute r fs) \<longleftrightarrow> length fs \<le> STACK_SIZE"
| "event_ok (CallYield r fs) \<longleftrightarrow> length fs \<le> STACK_SIZE"
| "event_ok (CallResume j) \<longleftrightarrow> False"
| "event_ok (CallStatus j k) \<longleftrightarrow> 0 \<le> j \<and> j < int DEFAULT_COROUTINE"
| "event_ok _ \<longleftrightarrow> True"

lemma spec_new_total: "0 < length ts \<Longrightarrow> \<exists>ts' i. spec_new ts f u = Some (ts', i) \<and> length ts \<le> length ts'"
  using find_slot_total [of ts] live_le [of ts] by (cases "live ts = length ts") (auto simp: spec_new_def)

lemma spec_iter_no_error:
  assumes ok: "\<And>r fs. event_ok (code r fs)"
  shows "iter (spec_step code i) x = Some z \<Longrightarrow> DEFAULT_COROUTINE \<le> length (fst x) \<longrightarrow> (\<exists>ts. z = Inr ts)"
proof (induction rule: iter_induct)
  case (step x x' y)
  then show ?case using spec_step_others by (cases x, cases x') fastforce
next
  case (stop x z)
  obtain ts r fs where x: "x = (ts, r, fs)" by (cases x)
  have d: "0 < DEFAULT_COROUTINE" by (simp add: DEFAULT_COROUTINE_def)
  note st = stop [unfolded x spec_step_def]
  show ?case
  proof (cases "code r fs")
    case (CallNew f u k)
    with st have "ts = []" using spec_new_total [of ts f u] by (cases "ts = []") auto
    then show ?thesis using d x by simp
  qed (use st ok [of r fs] x in \<open>auto split: if_splits\<close>)
qed

lemma reach_cap: "sched_reach code entry S \<Longrightarrow> DEFAULT_COROUTINE \<le> length (abs_sch S)"
proof (induction rule: sched_reach.induct)
  case (reach_open mem)
  then show ?case by (simp add: abs_sch_def coroutine_open_def)
next
  case (reach_new S f u S' i)
  then show ?case by (auto simp: abs_sch_def coroutine_new_def Let_def wr_eq_Some_iff bind_eq_Some_conv split: if_splits)
next
  case (reach_resume S j S')
  from reach_idle [OF reach_resume(1)] have "rel_option res_rel (Some (Inr S')) (spec_resume code entry (abs_sch S) j)"
    using resume_sim [of S code entry j] reach_resume(2) by simp
  then have "spec_resume code entry (abs_sch S) j = Some (Inr (abs_sch S'))"
    by (auto simp: option_rel_Some1 res_rel_def elim: rel_sum.cases)
  then have "length (abs_sch S) \<le> length (abs_sch S')"
    by (auto simp: spec_resume_def split: if_splits option.splits task.splits dest!: spec_iter_others)
  then show ?case using reach_resume.IH by simp
qed

text \<open>
  C17: the scheduler's bookkeeping.  In every state reached from \<open>coroutine_open\<close> by creating and
  resuming coroutines, \<open>nco\<close> counts the coroutines, no coroutine runs, a creation succeeds with an
  id that was dead before, is ready then and disturbs no other, and resuming an existing id never
  fails an assertion as long as the coroutines keep to the stack and do not resume from inside.
\<close>

theorem scheduler_sound:
  assumes "sched_reach code entry S"
  shows "nco S = length (filter (\<lambda>c. c \<noteq> None) (co S)) \<and> coroutine_running S = -1
    \<and> (\<exists>S' i. coroutine_new S f u = Some (S', i) \<and> nco S' = nco S + 1 \<and> coroutine_status S' (int i) = Some COROUTINE_READY
         \<and> (i < sch_cap S \<longrightarrow> coroutine_status S (int i) = Some COROUTINE_DEAD)
         \<and> (\<forall>j < sch_cap S. j \<noteq> i \<longrightarrow> co S' ! j = co S ! j))
    \<and> ((\<forall>r fs. event_ok (code r fs)) \<longrightarrow> 0 \<le> j \<longrightarrow> j < int (sch_cap S) \<longrightarrow> coroutine_resume code entry S j \<noteq> Some (Inl e))"
proof (intro conjI impI)
  have i: "idle S" using reach_idle [OF assms] .
  then have wf: "sch_wf S" by (simp add: idle_def)
  show "nco S = length (filter (\<lambda>c. c \<noteq> None) (co S))" using wf by (simp add: sch_wf_def live_def)
  show "coroutine_running S = -1" using i by (simp add: idle_def coroutine_running_def)
  from new_spec [OF wf, of f u]
  show "\<exists>S' i. coroutine_new S f u = Some (S', i) \<and> nco S' = nco S + 1 \<and> coroutine_status S' (int i) = Some COROUTINE_READY
         \<and> (i < sch_cap S \<longrightarrow> coroutine_status S (int i) = Some COROUTINE_DEAD)
         \<and> (\<forall>j < sch_cap S. j \<noteq> i \<longrightarrow> co S' ! j = co S ! j)"
    by (fastforce simp: coroutine_status_def co_new_def)
  assume ok: "\<forall>r fs. event_ok (code r fs)" and j: "0 \<le> j" "j < int (sch_cap S)"
  have "spec_resume code entry (abs_sch S) j \<noteq> Some (Inl e)"
  proof
    assume r: "spec_resume code entry (abs_sch S) j = Some (Inl e)"
    have len: "length (co S) = sch_cap S" using wf by (simp add: sch_wf_def)
    then have jl: "nat j < length (abs_sch S)" using j by (simp add: abs_sch_def nat_less_iff)
    have na: "abs_sch S ! nat j \<noteq> Some Active"
    proof
      assume "abs_sch S ! nat j = Some Active"
      then obtain C where "co S ! nat j = Some C" "abs_task C = Active" using jl by (auto simp: abs_sch_def)
      moreover have "entry_ok (-1) (nat j) (co S ! nat j)" using i j by (auto simp: idle_def sch_wf_def nat_less_iff)
      ultimately show False using j(1) by (cases "status C") (auto simp: entry_ok_def abs_task_def)
    qed
    then obtain r0 fs0 where "iter (spec_step code (nat j)) ((abs_sch S)[nat j := Some Active], r0, fs0) = Some (Inl e)"
      using r j len by (auto simp: spec_resume_def abs_sch_def split: option.splits task.splits)
    from spec_iter_no_error [OF _ this] ok reach_cap [OF assms] show False by auto
  qed
  then show "coroutine_resume code entry S j \<noteq> Some (Inl e)"
    using resume_sim [OF i, of code entry j] by (auto simp: option_rel_Some1 res_rel_def elim: rel_sum.cases)
qed

theorem scheduler_sound_witness:
  "\<exists>S' i. coroutine_new (coroutine_open (\<lambda>_. 0) :: (int, unit, int) schedule) 20 () = Some (S', i)
     \<and> coroutine_status S' (int i) = Some COROUTINE_READY
     \<and> coroutine_resume two_code (\<lambda>f u. f) (coroutine_open (\<lambda>_. 0)) 3 \<noteq> Some (Inl AssertFailed)"
proof -
  have "sched_reach two_code (\<lambda>f u. f) (coroutine_open (\<lambda>_. 0))" by (rule reach_open)
  moreover have "\<forall>r fs. event_ok (two_code r fs)" by (simp add: two_code_def STACK_SIZE_def)
  moreover have "sch_cap (coroutine_open (\<lambda>_. 0) :: (int, unit, int) schedule) = 16"
    by (simp add: coroutine_open_def DEFAULT_COROUTINE_def)
  ultimately show ?thesis
    using scheduler_sound [of two_code "\<lambda>f u. f" "coroutine_open (\<lambda>_. 0)" 20 "()" 3 AssertFailed] by auto
qed

declare iter.simps [code]

end
