(* ===== verification/AVL_Tree.thy ===== *)
theory AVL_Tree
  imports Prelude
begin

text \<open>
  The AVL tree of example_binary_tree_avl.cpp, with the rotations that \<open>insNode\<close> really calls: both
  sides use the rotations of the left side.  A read through the null pointer is \<open>None\<close>.
\<close>

datatype avl = ANull | AvlNode (aval: int) (aleft: avl) (aright: avl) (aheight: int)

fun makeEmpty :: "avl \<Rightarrow> avl" where
  "makeEmpty t = ANull"

fun treeDeep :: "avl \<Rightarrow> int" where
  "treeDeep ANull = -1"
| "treeDeep (AvlNode v l r h) = h"

text \<open>\<open>None\<close> for an empty tree, where the function ends without a value.\<close>

fun findMin :: "avl \<Rightarrow> avl option" where
  "findMin ANull = None"
| "findMin (AvlNode v l r h) = (if l = ANull then Some (AvlNode v l r h) else findMin l)"

definition imax :: "int \<Rightarrow> int \<Rightarrow> int" where
  "imax a b = (if a > b then a else b)"

text \<open>The height of the returned node is computed from the children of the other one, as in the code.\<close>

fun singleRotateWithLeft :: "avl \<Rightarrow> avl option" where
  "singleRotateWithLeft (AvlNode v (AvlNode w a b h') r h) =
     (let k = imax (treeDeep b) (treeDeep r) + 1 in Some (AvlNode w a (AvlNode v b r k) k))"
| "singleRotateWithLeft _ = None"

fun singleRotateWithRight :: "avl \<Rightarrow> avl option" where
  "singleRotateWithRight (AvlNode v l (AvlNode w a b h') h) =
     (let k = imax (treeDeep l) (treeDeep a) + 1 in Some (AvlNode w (AvlNode v l a k) b k))"
| "singleRotateWithRight _ = None"

fun doubleRotateWithLeft :: "avl \<Rightarrow> avl option" where
  "doubleRotateWithLeft ANull = None"
| "doubleRotateWithLeft (AvlNode v l r h) =
     do { l \<leftarrow> singleRotateWithRight l; singleRotateWithLeft (AvlNode v l r h) }"

fun doubleRotateWithRight :: "avl \<Rightarrow> avl option" where
  "doubleRotateWithRight ANull = None"
| "doubleRotateWithRight (AvlNode v l r h) =
     do { r \<leftarrow> singleRotateWithLeft r; singleRotateWithLeft (AvlNode v l r h) }"

fun set_height :: "avl \<Rightarrow> avl option" where
  "set_height ANull = None"
| "set_height (AvlNode v l r h) = Some (AvlNode v l r (imax (treeDeep l) (treeDeep r) + 1))"

fun insNode :: "bool \<Rightarrow> int \<Rightarrow> avl \<Rightarrow> avl option" where
  "insNode malloc_ok v ANull = (if malloc_ok then set_height (AvlNode v ANull ANull 0) else set_height ANull)"
| "insNode malloc_ok v (AvlNode x l r h) = do {
     t \<leftarrow> (if v < x then do {
              l \<leftarrow> insNode malloc_ok v l;
              if treeDeep l - treeDeep r = 2 then
                (case l of ANull \<Rightarrow> None
                 | AvlNode y _ _ _ \<Rightarrow> if v < y then singleRotateWithLeft (AvlNode x l r h)
                                     else doubleRotateWithLeft (AvlNode x l r h))
              else Some (AvlNode x l r h) }
            else if v > x then do {
              r \<leftarrow> insNode malloc_ok v r;
              if treeDeep r - treeDeep l = 2 then
                (case r of ANull \<Rightarrow> None
                 | AvlNode y _ _ _ \<Rightarrow> if v > y then singleRotateWithLeft (AvlNode x l r h)
                                     else doubleRotateWithLeft (AvlNode x l r h))
              else Some (AvlNode x l r h) }
            else Some (AvlNode x l r h));
     set_height t }"

section \<open>Order\<close>

fun inorder :: "avl \<Rightarrow> int list" where
  "inorder ANull = []"
| "inorder (AvlNode v l r h) = inorder l @ v # inorder r"

fun ins_list :: "int \<Rightarrow> int list \<Rightarrow> int list" where
  "ins_list v [] = [v]"
| "ins_list v (x # xs) = (if v < x then v # x # xs else if v > x then x # ins_list v xs else x # xs)"

lemma ins_list_less: "sorted_wrt (<) (xs @ x # ys) \<Longrightarrow> v < x \<Longrightarrow> ins_list v (xs @ x # ys) = ins_list v xs @ x # ys"
  by (induction xs) auto

lemma ins_list_greater: "sorted_wrt (<) (xs @ x # ys) \<Longrightarrow> x < v \<Longrightarrow> ins_list v (xs @ x # ys) = xs @ x # ins_list v ys"
  by (induction xs) auto

lemma ins_list_mem: "sorted_wrt (<) (xs @ v # ys) \<Longrightarrow> ins_list v (xs @ v # ys) = xs @ v # ys"
  by (induction xs) auto

lemma set_ins_list: "set (ins_list v xs) = insert v (set xs)"
  by (induction xs) auto

lemma sorted_ins_list: "sorted_wrt (<) xs \<Longrightarrow> sorted_wrt (<) (ins_list v xs)"
  by (induction xs) (auto simp: set_ins_list)

lemma inorder_rotate:
  "singleRotateWithLeft t = Some t' \<Longrightarrow> inorder t' = inorder t"
  "singleRotateWithRight t = Some t' \<Longrightarrow> inorder t' = inorder t"
  "doubleRotateWithLeft t = Some t' \<Longrightarrow> inorder t' = inorder t"
proof -
  show 1: "singleRotateWithLeft t = Some t' \<Longrightarrow> inorder t' = inorder t" for t t'
    by (cases t rule: singleRotateWithLeft.cases) (auto simp: Let_def)
  show 2: "singleRotateWithRight t = Some t' \<Longrightarrow> inorder t' = inorder t" for t t'
    by (cases t rule: singleRotateWithRight.cases) (auto simp: Let_def)
  show "doubleRotateWithLeft t = Some t' \<Longrightarrow> inorder t' = inorder t"
    by (cases t) (auto simp: bind_eq_Some_conv dest!: 1 2)
qed

lemma inorder_set_height: "set_height t = Some t' \<Longrightarrow> inorder t' = inorder t"
  by (cases t) auto

lemma inorder_rebalance:
  "(if c then (case u of ANull \<Rightarrow> None | AvlNode y _ _ _ \<Rightarrow> if P y then singleRotateWithLeft t else doubleRotateWithLeft t)
    else Some t) = Some t' \<Longrightarrow> inorder t' = inorder t"
  by (auto split: if_splits avl.splits dest: inorder_rotate)

lemma insNode_inorder:
  "sorted_wrt (<) (inorder t) \<Longrightarrow> insNode m v t = Some t' \<Longrightarrow> inorder t' = ins_list v (inorder t)"
proof (induction t arbitrary: t')
  case ANull
  then show ?case by (auto split: if_splits)
next
  case (AvlNode x l r h)
  have s: "sorted_wrt (<) (inorder l @ x # inorder r)" using AvlNode.prems(1) by simp
  then have sl: "sorted_wrt (<) (inorder l)" and sr: "sorted_wrt (<) (inorder r)" by (simp_all add: sorted_wrt_append)
  consider "v < x" | "v > x" | "v = x" by linarith
  then show ?case
  proof cases
    case 1
    then obtain l' t where "insNode m v l = Some l'" "inorder t = inorder (AvlNode x l' r h)" "set_height t = Some t'"
      using AvlNode.prems(2) by (auto simp: bind_eq_Some_conv dest: inorder_rebalance)
    then show ?thesis using AvlNode.IH(1) [OF sl] ins_list_less [OF s 1] inorder_set_height by simp
  next
    case 2
    then obtain r' t where "insNode m v r = Some r'" "inorder t = inorder (AvlNode x l r' h)" "set_height t = Some t'"
      using AvlNode.prems(2) by (auto simp: bind_eq_Some_conv dest: inorder_rebalance)
    then show ?thesis using AvlNode.IH(2) [OF sr] ins_list_greater [OF s 2] inorder_set_height by simp
  next
    case 3
    then show ?thesis using AvlNode.prems(2) ins_list_mem s by (auto simp: inorder_set_height)
  qed
qed

section \<open>Balance\<close>

fun depth :: "avl \<Rightarrow> int" where
  "depth ANull = -1"
| "depth (AvlNode v l r h) = imax (depth l) (depth r) + 1"

fun balanced :: "avl \<Rightarrow> bool" where
  "balanced ANull \<longleftrightarrow> True"
| "balanced (AvlNode v l r h) \<longleftrightarrow> \<bar>depth l - depth r\<bar> \<le> 1 \<and> h = depth (AvlNode v l r h) \<and> balanced l \<and> balanced r"

lemma balanced_depth: "balanced t \<Longrightarrow> treeDeep t = depth t"
  by (cases t) auto

lemma depth_ge: "-1 \<le> depth t"
  by (induction t) (auto simp: imax_def)

text \<open>
  An insertion below every key only ever goes left, so only the left rotation is needed, which is right.
  The grown subtree is left heavy or a leaf.
\<close>

fun left_heavy :: "avl \<Rightarrow> bool" where
  "left_heavy ANull \<longleftrightarrow> False"
| "left_heavy (AvlNode v l r h) \<longleftrightarrow> (l = ANull \<and> r = ANull) \<or> depth l = depth r + 1"

lemma insNode_below:
  "balanced t \<Longrightarrow> \<forall>x \<in> set (inorder t). v < x \<Longrightarrow>
   \<exists>t'. insNode True v t = Some t' \<and> balanced t' \<and> (depth t' = depth t \<or> depth t' = depth t + 1 \<and> left_heavy t')
      \<and> (\<exists>y a b h. t' = AvlNode y a b h \<and> (t \<noteq> ANull \<longrightarrow> v < y))"
proof (induction t)
  case ANull
  then show ?case by (simp add: imax_def)
next
  case (AvlNode x l r h)
  have b: "balanced l" "balanced r" "\<bar>depth l - depth r\<bar> \<le> 1" and v: "v < x" "\<forall>y \<in> set (inorder l). v < y"
    using AvlNode.prems by auto
  obtain l' where l': "insNode True v l = Some l'" "balanced l'"
    "depth l' = depth l \<or> depth l' = depth l + 1 \<and> left_heavy l'" "\<exists>y a b h. l' = AvlNode y a b h \<and> (l \<noteq> ANull \<longrightarrow> v < y)"
    using AvlNode.IH(1) [OF b(1) v(2)] by blast
  then obtain y a c k where y: "l' = AvlNode y a c k" "l \<noteq> ANull \<longrightarrow> v < y" by blast
  have d: "treeDeep l' = depth l'" "treeDeep r = depth r" using balanced_depth l'(2) b(2) by auto
  show ?case
  proof (cases "depth l' - depth r = 2")
    case False
    then have "insNode True v (AvlNode x l r h) = Some (AvlNode x l' r (imax (depth l') (depth r) + 1))"
      using v(1) l'(1) d by simp
    moreover have "balanced (AvlNode x l' r (imax (depth l') (depth r) + 1))" using False b l'(2,3) by auto
    ultimately show ?thesis using False b l'(3) v(1) by (auto simp: imax_def)
  next
    case True
    then have g: "depth l' = depth l + 1" "left_heavy l'" "depth l = depth r + 1" using b(3) l'(3) by auto
    have ln: "l \<noteq> ANull" using g(3) depth_ge [of r] by (cases l) auto
    have hv: "depth a = depth c + 1" using g y(1) depth_ge [of r] by (auto simp: imax_def)
    have bc: "balanced a" "balanced c" using l'(2) y(1) by auto
    have dc: "depth c = depth r" "depth a = depth r + 1" using g(1,3) hv y(1) by (auto simp: imax_def)
    have td: "treeDeep a = depth a" "treeDeep c = depth c" using bc balanced_depth by auto
    let ?t = "AvlNode y a (AvlNode x c r (depth r + 1)) (depth r + 2)"
    have "insNode True v (AvlNode x l r h) = Some ?t"
      using True v(1) l'(1) d y ln td dc by (simp add: imax_def Let_def)
    moreover have "balanced ?t" using bc b(2) dc by (simp add: imax_def)
    moreover have "depth ?t = depth (AvlNode x l r h)" using dc g(3) by (simp add: imax_def)
    ultimately show ?thesis using ln y(2) by blast
  qed
qed

text \<open>
  C38: insertion.  Whenever \<open>insNode\<close> returns, the tree holds the old keys and the new one in order; below
  all keys of a balanced tree it always returns a balanced tree with correct heights; but three keys
  inserted in ascending order make it read through the null pointer, because the right side is
  rebalanced with the rotation of the left side.
\<close>

theorem avl_insert:
  "(sorted_wrt (<) (inorder t) \<longrightarrow> insNode m v t = Some t' \<longrightarrow>
      inorder t' = ins_list v (inorder t) \<and> sorted_wrt (<) (inorder t') \<and> set (inorder t') = insert v (set (inorder t)))
   \<and> (balanced t \<longrightarrow> (\<forall>x \<in> set (inorder t). v < x) \<longrightarrow> (\<exists>t'. insNode True v t = Some t' \<and> balanced t'))
   \<and> (x < y \<longrightarrow> y < z \<longrightarrow>
       do { t \<leftarrow> insNode True x (makeEmpty ANull); t \<leftarrow> insNode True y t; insNode True z t } = None)"
proof (intro conjI impI)
  assume "sorted_wrt (<) (inorder t)" "insNode m v t = Some t'"
  from insNode_inorder [OF this] show "inorder t' = ins_list v (inorder t)" "sorted_wrt (<) (inorder t')"
    "set (inorder t') = insert v (set (inorder t))"
    using \<open>sorted_wrt (<) (inorder t)\<close> by (simp_all add: sorted_ins_list set_ins_list)
next
  assume "balanced t" "\<forall>x \<in> set (inorder t). v < x"
  then show "\<exists>t'. insNode True v t = Some t' \<and> balanced t'" using insNode_below by blast
next
  assume "x < y" "y < z"
  then show "do { t \<leftarrow> insNode True x (makeEmpty ANull); t \<leftarrow> insNode True y t; insNode True z t } = None"
    by (simp add: imax_def)
qed

theorem avl_insert_witness:
  "(\<exists>t'. insNode True 1 (AvlNode 3 (AvlNode 2 ANull ANull 0) ANull 1) = Some t' \<and> balanced t' \<and> inorder t' = [1, 2, 3])
   \<and> do { t \<leftarrow> insNode True 1 (makeEmpty ANull); t \<leftarrow> insNode True 2 t; insNode True 3 t } = None"
proof -
  let ?t = "AvlNode 3 (AvlNode 2 ANull ANull 0) ANull 1"
  have "balanced ?t" "\<forall>x \<in> set (inorder ?t). 1 < x" "sorted_wrt (<) (inorder ?t)" by (simp_all add: imax_def)
  moreover from this avl_insert [of ?t True 1 _ 1 2 3]
  obtain t' where t': "insNode True 1 ?t = Some t'" "balanced t'" by blast
  ultimately have "inorder t' = ins_list 1 (inorder ?t)" using avl_insert [of ?t True 1 t' 1 2 3] by blast
  then have "inorder t' = [1, 2, 3]" by simp
  moreover have "do { t \<leftarrow> insNode True 1 (makeEmpty ANull); t \<leftarrow> insNode True 2 t; insNode True 3 t } = None"
    using avl_insert [of ?t True 1 t' 1 2 3] by (simp del: insNode.simps makeEmpty.simps)
  ultimately show ?thesis using t' by blast
qed

end
