(* ===== verification/Word_Trie.thy ===== *)
theory Word_Trie
  imports Prelude "HOL-Library.Sublist" "HOL-Library.List_Lexorder"
begin

text \<open>
  The word counter of example_trie.cpp.  A node has 256 children; a character indexes them as a signed
  number, so a byte from 128 on leaves the array, which is \<open>None\<close>, as is a counter that overflows its \<open>int\<close>.  Words are their bytes without the final 0.
\<close>

definition TREE_WIDTH :: nat where
  "TREE_WIDTH = 256"

definition WORDLENMAX :: nat where
  "WORDLENMAX = 128"

datatype trie = TNode (tcount: nat) (tpass: nat) (tnext: "trie option list")

definition new_node :: trie where
  "new_node = TNode 0 0 (replicate TREE_WIDTH None)"

text \<open>\<open>spaces\<close> is the C string of the separators: blank, tab, newline, slash, dot, quotes and parentheses.\<close>

definition spaces :: "8 word list" where
  "spaces = [32, 9, 10, 47, 46, 34, 39, 40, 41]"

fun insert_at :: "8 word list \<Rightarrow> trie \<Rightarrow> trie option" where
  "insert_at [] (TNode c p ns) = do { c \<leftarrow> n32 (c + 1); Some (TNode c p ns) }"
| "insert_at (x # xs) (TNode c p ns) = do {
     p \<leftarrow> n32 (p + 1);
     old \<leftarrow> rdi ns (sint x);
     child \<leftarrow> insert_at xs (case old of None \<Rightarrow> new_node | Some t \<Rightarrow> t);
     ns \<leftarrow> wri ns (sint x) (Some child);
     Some (TNode c p ns) }"

definition insert_word :: "8 word list \<Rightarrow> trie \<Rightarrow> trie option" where
  "insert_word word root = (if word = [] then Some root else insert_at word root)"

text \<open>What \<open>printword\<close> shows: the C string in \<open>worddump\<close> and the number.\<close>

definition printword :: "8 word list \<Rightarrow> nat \<Rightarrow> 8 word list \<times> nat" where
  "printword str n = (takeWhile (\<lambda>c. c \<noteq> 0) str, n)"

text \<open>
  \<open>do_travel t worddump pos\<close> gives the buffer and what is printed; \<open>travel_next ns i worddump pos\<close> is
  its loop from child \<open>i\<close> on.
\<close>

fun do_travel :: "trie \<Rightarrow> 8 word list \<Rightarrow> nat \<Rightarrow> (8 word list \<times> (8 word list \<times> nat) list) option"
and travel_next :: "trie option list \<Rightarrow> nat \<Rightarrow> 8 word list \<Rightarrow> nat \<Rightarrow> (8 word list \<times> (8 word list \<times> nat) list) option" where
  "do_travel (TNode c p ns) dump pos = do {
     (dump, out) \<leftarrow> (if c \<noteq> 0 then do { dump \<leftarrow> wr dump pos 0; n \<leftarrow> n32 (c + p); Some (dump, [printword dump n]) }
                     else Some (dump, []));
     (dump, out') \<leftarrow> travel_next ns 0 dump pos;
     Some (dump, out @ out') }"
| "travel_next [] i dump pos = Some (dump, [])"
| "travel_next (n # ns) i dump pos = do {
     dump \<leftarrow> wr dump pos (of_nat i);
     (dump, out) \<leftarrow> (case n of None \<Rightarrow> Some (dump, []) | Some t \<Rightarrow> do_travel t dump (pos + 1));
     (dump, out') \<leftarrow> travel_next ns (i + 1) dump pos;
     Some (dump, out @ out') }"

text \<open>The words of a line: \<open>strsep\<close> in a loop, empty words skipped.\<close>

fun line_words :: "8 word list \<Rightarrow> 8 word list \<Rightarrow> 8 word list list" where
  "line_words word [] = (if word = [] then [] else [word])"
| "line_words word (c # line) =
     (if c \<in> set spaces then (if word = [] then [] else [word]) @ line_words [] line
      else line_words (word @ [c]) line)"

fun insert_words :: "8 word list list \<Rightarrow> trie \<Rightarrow> trie option" where
  "insert_words [] root = Some root"
| "insert_words (w # ws) root = do { root \<leftarrow> insert_word w root; insert_words ws root }"

text \<open>The lines that \<open>getline\<close> delivers, up to the end or the line ``-1''.\<close>

fun main_loop :: "8 word list list \<Rightarrow> trie \<Rightarrow> trie option" where
  "main_loop [] root = Some root"
| "main_loop (line # ls) root =
     (if line = [45, 49, 10] then Some root
      else do { root \<leftarrow> insert_words (line_words [] line) root; main_loop ls root })"

definition trie_main :: "8 word list list \<Rightarrow> (8 word list \<times> nat) list option" where
  "trie_main lines = do {
     root \<leftarrow> main_loop lines new_node;
     (dump, out) \<leftarrow> do_travel root (replicate (WORDLENMAX + 1) 0) 0;
     Some out }"

section \<open>The trie of a list of words\<close>

definition tails :: "8 word \<Rightarrow> 8 word list list \<Rightarrow> 8 word list list" where
  "tails c ws = map tl (filter (\<lambda>w. w \<noteq> [] \<and> hd w = c) ws)"

lemma tails_simps [simp]:
  "tails c [] = []"
  "tails c ([] # ws) = tails c ws"
  "tails c ((x # xs) # ws) = (if x = c then xs # tails c ws else tails c ws)"
  by (simp_all add: tails_def)

lemma set_tails: "w \<in> set (tails c ws) \<longleftrightarrow> c # w \<in> set ws"
proof -
  have "w \<in> set (tails c ws) \<longleftrightarrow> (\<exists>v \<in> set ws. v \<noteq> [] \<and> hd v = c \<and> w = tl v)" by (auto simp: tails_def)
  also have "\<dots> \<longleftrightarrow> c # w \<in> set ws" by (metis list.collapse list.discI list.sel(1,3))
  finally show ?thesis .
qed

lemma tails_less: "tails c ws \<noteq> [] \<Longrightarrow> sum_list (map length (tails c ws)) < sum_list (map length ws)"
proof (induction ws)
  case (Cons w ws)
  have le: "sum_list (map length (tails c ws)) \<le> sum_list (map length ws)" using Cons.IH by (cases "tails c ws = []") auto
  show ?case using Cons le by (cases w) (auto split: if_splits)
qed simp

function build :: "8 word list list \<Rightarrow> trie" where
  "build ws = TNode (count_list ws []) (length (filter (\<lambda>w. w \<noteq> []) ws))
     (map (\<lambda>i. if tails (of_nat i) ws = [] then None else Some (build (tails (of_nat i) ws))) [0..<TREE_WIDTH])"
  by pat_completeness auto
termination
  by (relation "measure (\<lambda>ws. sum_list (map length ws))") (auto simp: tails_less)

declare build.simps [simp del]

lemma build_Nil: "build [] = new_node"
  by (simp add: build.simps new_node_def map_replicate_const)

definition ascii :: "8 word list \<Rightarrow> bool" where
  "ascii w \<longleftrightarrow> (\<forall>c \<in> set w. c < 128)"

lemma unat_less_256: "unat (c :: 8 word) < 256"
proof -
  have "(unsigned c :: nat) < 2 ^ LENGTH(8)" by (rule unsigned_less)
  then show ?thesis by simp
qed

lemma sint_char: "sint (c :: 8 word) = (if c < 128 then int (unat c) else int (unat c) - 256)"
proof -
  have u: "unat c < 256" by (rule unat_less_256)
  have "sint c = take_bit 8 (uint c + 2 ^ 7) - 2 ^ 7"
    unfolding sint_uint signed_take_bit_eq_take_bit_shift by simp
  then have "sint c = (int (unat c) + 128) mod 256 - 128"
    unfolding take_bit_eq_mod by simp
  moreover have "c < 128 \<longleftrightarrow> unat c < 128" by (simp add: word_less_nat_alt)
  moreover have "(int k + 128) mod 256 - 128 = (if k < 128 then int k else int k - 256)" if "k < 256" for k
  proof (cases "k < 128")
    case False
    have "int k + 128 = (int k - 128) + 256" by simp
    then have "(int k + 128) mod 256 = ((int k - 128) + 256) mod 256" by (rule arg_cong)
    also have "\<dots> = (int k - 128) mod 256" by (rule mod_add_self2)
    also have "\<dots> = int k - 128" using False that by (intro mod_pos_pos_trivial) auto
    finally show ?thesis using False by simp
  qed simp
  moreover have "c < 128 \<longleftrightarrow> unat c < 128" by (simp add: word_less_nat_alt)
  ultimately show ?thesis using u by metis
qed

lemma unat_of_nat_child: "i < 256 \<Longrightarrow> unat (of_nat i :: 8 word) = i"
  by (simp add: unat_of_nat)

lemma build_next: "i < 256 \<Longrightarrow> tnext (build ws) ! i =
   (if tails (of_nat i) ws = [] then None else Some (build (tails (of_nat i) ws)))"
  by (subst build.simps) (simp add: TREE_WIDTH_def)

lemma tails_le: "length (tails c ws) \<le> length ws"
  by (simp add: tails_def)

lemma insert_at_build: "ascii w \<Longrightarrow> Suc (length ws) < 2 ^ 31 \<Longrightarrow> insert_at w (build ws) = Some (build (w # ws))"
proof (induction w arbitrary: ws)
  case Nil
  have "n32 (count_list ws [] + 1) = Some (count_list ws [] + 1)" using Nil.prems(2) count_le_length [of ws "[]"] by simp
  then show ?case by (simp add: build.simps [of ws] build.simps [of "[] # ws"])
next
  case (Cons x w)
  have x: "x < 128" "ascii w" using Cons.prems by (auto simp: ascii_def)
  define k where "k = unat x"
  have n: "k < 128" "sint x = int k" "of_nat k = x" using x(1) by (simp_all add: k_def word_less_nat_alt sint_char del: of_nat_unat)
     (simp add: k_def)
  let ?ns = "map (\<lambda>i. if tails (of_nat i) ws = [] then None else Some (build (tails (of_nat i) ws))) [0..<TREE_WIDTH]"
  let ?t = "tails x ws"
  have old: "rdi ?ns (sint x) = Some (if ?t = [] then None else Some (build ?t))"
    using n by (simp add: TREE_WIDTH_def)
  have child: "insert_at w (case (if ?t = [] then None else Some (build ?t)) of None \<Rightarrow> new_node | Some t \<Rightarrow> t) = Some (build (w # ?t))"
    using Cons.IH [OF x(2), of ?t] Cons.prems(2) tails_le [of x ws] by (auto simp: build_Nil)
  have pass: "n32 (length (filter (\<lambda>w. w \<noteq> []) ws) + 1) = Some (length (filter (\<lambda>w. w \<noteq> []) ws) + 1)"
    using le_less_trans [OF length_filter_le [of "\<lambda>w. w \<noteq> []" ws], of "2147483647"] Cons.prems(2) by simp
  have wri: "wri ?ns (sint x) (Some (build (w # ?t))) = Some (?ns[k := Some (build (w # ?t))])"
    using n by (simp add: TREE_WIDTH_def)
  have "?ns[k := Some (build (w # ?t))] =
      map (\<lambda>i. if tails (of_nat i) ((x # w) # ws) = [] then None else Some (build (tails (of_nat i) ((x # w) # ws)))) [0..<TREE_WIDTH]"
  proof (rule nth_equalityI)
    fix i assume "i < length (?ns[k := Some (build (w # ?t))])"
    then have i: "i < 256" by (simp add: TREE_WIDTH_def)
    have "of_nat i = x \<longleftrightarrow> i = k" using unat_of_nat_child [OF i] n(3) k_def by auto
    then show "?ns[k := Some (build (w # ?t))] ! i =
      map (\<lambda>i. if tails (of_nat i) ((x # w) # ws) = [] then None else Some (build (tails (of_nat i) ((x # w) # ws)))) [0..<TREE_WIDTH] ! i"
      using i by (auto simp: TREE_WIDTH_def)
  qed simp
  then show ?case using old child wri pass by (simp add: build.simps [of ws] build.simps [of "(x # w) # ws"] del: tails_simps)
qed

text \<open>A byte from 128 on stops the insertion outside the array.\<close>

lemma insert_at_not_ascii: "\<not> ascii w \<Longrightarrow> insert_at w t = None"
proof (induction w arbitrary: t)
  case (Cons x w)
  obtain c p ns where t: "t = TNode c p ns" by (cases t)
  show ?case
  proof (cases "x < 128")
    case True
    then have "\<not> ascii w" using Cons.prems by (simp add: ascii_def)
    then show ?thesis using Cons.IH by (simp add: t bind_eq_None_conv)
  next
    case False
    have "unat x < 256" by (rule unat_less_256)
    then have "sint x < 0" using False by (simp add: sint_char del: of_nat_unat)
    then have "rdi ns (sint x) = None" by (simp add: rdi_def)
    then show ?thesis by (simp add: t)
  qed
qed (simp add: ascii_def)

lemma insert_words_build:
  "\<forall>w \<in> set ws. ascii w \<and> w \<noteq> [] \<Longrightarrow> length ws + length us < 2 ^ 31 \<Longrightarrow> insert_words ws (build us) = Some (build (rev ws @ us))"
  by (induction ws arbitrary: us) (simp_all add: insert_word_def insert_at_build)

text \<open>The root counts every word in its \<open>pass\<close>.\<close>

lemma insert_words_overflow:
  "\<forall>w \<in> set ws. ascii w \<and> w \<noteq> [] \<Longrightarrow> \<forall>u \<in> set us. u \<noteq> [] \<Longrightarrow> length us < 2 ^ 31 \<Longrightarrow> 2 ^ 31 \<le> length ws + length us
    \<Longrightarrow> insert_words ws (build us) = None"
proof (induction ws arbitrary: us)
  case (Cons w ws)
  show ?case
  proof (cases "Suc (length us) < 2 ^ 31")
    case True
    have "insert_words ws (build (w # us)) = None" using Cons.IH [of "w # us"] Cons.prems True by simp
    then show ?thesis using insert_at_build [of w us] Cons.prems(1) True by (simp add: insert_word_def)
  next
    case False
    have "filter (\<lambda>u. u \<noteq> []) us = us" using Cons.prems(2) by simp
    moreover have "n32 (length us + 1) = None" using False by (simp add: n32_def)
    moreover obtain x v where "w = x # v" using Cons.prems(1) by (cases w) auto
    ultimately show ?thesis by (simp add: insert_word_def build.simps [of us])
  qed
qed simp

section \<open>The listing\<close>

definition listing :: "8 word list list \<Rightarrow> (8 word list \<times> nat) list" where
  "listing ws = map (\<lambda>w. (w, length (filter (prefix w) ws))) (sorted_list_of_set (set ws))"

lemma mem_concat_upt: "u \<in> set (concat (map f [0..<n])) \<longleftrightarrow> (\<exists>i < n. u \<in> set (f i))"
  by auto

lemma words_split:
  "sorted_list_of_set (set ws) = (if [] \<in> set ws then [[]] else []) @
     concat (map (\<lambda>i. map ((#) (of_nat i)) (sorted_list_of_set (set (tails (of_nat i) ws)))) [0..<TREE_WIDTH])"
    (is "_ = ?r")
proof -
  let ?part = "\<lambda>i. map ((#) (of_nat i :: 8 word)) (sorted_list_of_set (set (tails (of_nat i) ws)))"
  have part: "sorted_wrt (<) (concat (map ?part [0..<n]))" if "n \<le> 256" for n
    using that
  proof (induction n)
    case (Suc n)
    have "u < v" if "u \<in> set (?part i)" "v \<in> set (?part n)" "i < n" for u v i
    proof -
      have "(of_nat i :: 8 word) < of_nat n"
        using that(3) Suc.prems unat_of_nat_child [of i] unat_of_nat_child [of n] by (simp add: word_less_nat_alt)
      then show ?thesis using that by auto
    qed
    moreover have "sorted_wrt (<) (?part n)" by (simp add: sorted_wrt_map)
    moreover have "sorted_wrt (<) (concat (map ?part [0..<n]))" using Suc by simp
    moreover have "u < v" if uv: "u \<in> set (concat (map ?part [0..<n]))" "v \<in> set (?part n)" for u v
    proof -
      obtain i where "i < n" "u \<in> set (?part i)" using mem_concat_upt [THEN iffD1, OF uv(1)] by blast
      then show ?thesis using uv(2) \<open>\<And>v u i. u \<in> set (?part i) \<Longrightarrow> v \<in> set (?part n) \<Longrightarrow> i < n \<Longrightarrow> u < v\<close> by blast
    qed
    moreover have "concat (map ?part [0..<Suc n]) = concat (map ?part [0..<n]) @ ?part n" by simp
    ultimately show ?case unfolding sorted_wrt_append by (simp only: sorted_wrt_append) blast
  qed simp
  have "sorted_wrt (<) ?r" using part [of TREE_WIDTH] by (auto simp: sorted_wrt_append TREE_WIDTH_def)
  moreover have "set ?r = set ws"
  proof (intro set_eqI)
    fix w :: "8 word list"
    show "w \<in> set ?r \<longleftrightarrow> w \<in> set ws"
    proof (cases w)
      case (Cons c v)
      have "of_nat (unat c) = c" "unat c \<in> set [0..<TREE_WIDTH]" using unat_less_256 [of c] by (simp_all add: TREE_WIDTH_def)
      then show ?thesis using Cons by (auto simp: set_tails intro!: bexI [of _ "unat c"])
    qed auto
  qed
  moreover have "sorted_wrt (<) xs \<Longrightarrow> sorted_list_of_set (set xs) = xs" for xs :: "8 word list list"
    by (simp add: strict_sorted_iff sorted_list_of_set.idem_if_sorted_distinct)
  ultimately show ?thesis by (metis (no_types))
qed

lemma filter_tails: "length (filter (prefix v) (tails c ws)) = length (filter (prefix (c # v)) ws)"
proof (induction ws)
  case (Cons w ws)
  then show ?case by (cases w) auto
qed simp

lemma listing_split:
  "listing ws = (if [] \<in> set ws then [([], length ws)] else []) @
     concat (map (\<lambda>i. map (\<lambda>(v, n). (of_nat i # v, n)) (listing (tails (of_nat i) ws))) [0..<TREE_WIDTH])"
proof -
  let ?f = "\<lambda>w. (w, length (filter (prefix w) ws))"
  have part: "map ?f (map ((#) (of_nat i)) (sorted_list_of_set (set (tails (of_nat i) ws)))) =
      map (\<lambda>(v, n). (of_nat i # v, n)) (listing (tails (of_nat i) ws))" for i
    by (simp add: listing_def filter_tails comp_def)
  have "map ?f (if [] \<in> set ws then [[]] else []) = (if [] \<in> set ws then [([], length ws)] else [])" by simp
  moreover have "listing ws = map ?f (sorted_list_of_set (set ws))" by (simp add: listing_def)
  ultimately show ?thesis
    by (simp only: words_split [of ws] map_append map_concat map_map [of "map ?f"] comp_def part)
qed

text \<open>
  One walk: with the prefix \<open>take pos dump\<close> of the current node free of zero bytes and the deepest word
  inside the buffer, the walk prints the listing below the node.
\<close>

definition under :: "8 word list \<Rightarrow> (8 word list \<times> nat) list \<Rightarrow> (8 word list \<times> nat) list" where
  "under u out = map (\<lambda>(v, n). (u @ v, n)) out"

lemma under_simps [simp]: "under u [] = []" "under u (a @ b) = under u a @ under u b" "under u ((v, n) # out) = (u @ v, n) # under u out"
  by (simp_all add: under_def)

lemma printword_prefix:
  "pos < length dump \<Longrightarrow> 0 \<notin> set (take pos dump) \<Longrightarrow> printword (dump[pos := 0]) n = (take pos dump, n)"
proof -
  assume a: "pos < length dump" "0 \<notin> set (take pos dump)"
  have "dump[pos := 0] = take pos dump @ 0 # drop (Suc pos) dump" using a(1) by (rule upd_conv_take_nth_drop)
  moreover have "takeWhile (\<lambda>c. c \<noteq> 0) (take pos dump @ 0 # drop (Suc pos) dump) = take pos dump"
    using a(2) by (subst takeWhile_append2) auto
  ultimately show ?thesis by (simp add: printword_def)
qed

lemma listing_nonempty: "count_list ws [] + length (filter (\<lambda>w. w \<noteq> []) ws) = length ws"
  by (induction ws) auto

lemma travel_build:
  "\<forall>w \<in> set ws. 0 \<notin> set w \<and> length w + pos < length dump \<Longrightarrow> pos < length dump \<Longrightarrow> 0 \<notin> set (take pos dump) \<Longrightarrow>
   length ws < 2 ^ 31 \<Longrightarrow>
   \<exists>d. do_travel (build ws) dump pos = Some (d, under (take pos dump) (listing ws)) \<and> length d = length dump
      \<and> take pos d = take pos dump"
proof (induction ws arbitrary: dump pos rule: build.induct)
  case (1 ws)
  let ?sub = "\<lambda>i. tails (of_nat i :: 8 word) ws"
  let ?node = "\<lambda>i. if ?sub i = [] then None else Some (build (?sub i))"
  let ?out = "\<lambda>i. map (\<lambda>(v, n). (of_nat i # v, n)) (listing (?sub i))"
  have loop: "\<exists>e. travel_next (map ?node [m..<TREE_WIDTH]) m d pos = Some (e, under (take pos dump) (concat (map ?out [m..<TREE_WIDTH])))
      \<and> length e = length dump \<and> take pos e = take pos dump"
    if "length d = length dump" "take pos d = take pos dump" "m \<le> TREE_WIDTH" for m d
    using that
  proof (induction "TREE_WIDTH - m" arbitrary: m d)
    case 0
    then show ?case by simp
  next
    case (Suc k)
    then have m: "m < TREE_WIDTH" by simp
    then have split: "[m..<TREE_WIDTH] = m # [Suc m..<TREE_WIDTH]" by (rule upt_conv_Cons)
    let ?d = "d[pos := of_nat m]"
    have d: "wr d pos (of_nat m) = Some ?d" "length ?d = length dump" "take pos ?d = take pos dump"
      using Suc.prems "1.prems"(2) by simp_all
    have "\<exists>e. (case ?node m of None \<Rightarrow> Some (?d, []) | Some t \<Rightarrow> do_travel t ?d (pos + 1)) = Some (e, under (take pos dump) (?out m))
        \<and> length e = length dump \<and> take pos e = take pos dump"
    proof (cases "?sub m = []")
      case True
      then show ?thesis using d by (simp add: listing_def)
    next
      case False
      have tp: "take (Suc pos) ?d = take pos dump @ [of_nat m]"
        using d(2,3) "1.prems"(2) Suc.prems(1,2) by (simp add: take_Suc_update)
      obtain v where "v \<in> set (?sub m)" using False by (cases "?sub m") auto
      then have "of_nat m # v \<in> set ws" by (simp add: set_tails)
      then have p: "Suc pos < length ?d" "(of_nat m :: 8 word) \<noteq> 0" using "1.prems"(1) d(2) by force+
      have "0 \<notin> set w \<and> length w + Suc pos < length ?d" if "w \<in> set (?sub m)" for w
        using that "1.prems"(1) d(2) by (fastforce simp: set_tails)
      moreover have "0 \<notin> set (take (Suc pos) ?d)" unfolding tp using "1.prems"(3) p(2) by simp
      ultimately obtain e where e: "do_travel (build (?sub m)) ?d (Suc pos) = Some (e, under (take (Suc pos) ?d) (listing (?sub m)))"
        "length e = length ?d" "take (Suc pos) e = take (Suc pos) ?d"
        using "1.IH" [of m "Suc pos" ?d] m False p(1) "1.prems"(4) tails_le [of "of_nat m" ws] by auto
      have "take pos e = take pos dump"
        using arg_cong [OF e(3), of "take pos"] d(3) by (simp add: min_def)
      moreover have "under (take (Suc pos) ?d) (listing (?sub m)) = under (take pos dump) (?out m)"
        unfolding tp by (simp add: under_def comp_def case_prod_beta)
      ultimately show ?thesis using e d(2) False by simp
    qed
    then obtain e where e: "(case ?node m of None \<Rightarrow> Some (?d, []) | Some t \<Rightarrow> do_travel t ?d (pos + 1)) = Some (e, under (take pos dump) (?out m))"
      "length e = length dump" "take pos e = take pos dump" by blast
    have k: "k = TREE_WIDTH - Suc m" using Suc.hyps(2) by simp
    obtain f where f: "travel_next (map ?node [Suc m..<TREE_WIDTH]) (Suc m) e pos = Some (f, under (take pos dump) (concat (map ?out [Suc m..<TREE_WIDTH])))"
      "length f = length dump" "take pos f = take pos dump"
      using Suc.hyps(1) [OF k e(2,3) Suc_leI [OF m]] by blast
    show ?case unfolding split using d(1) e(1) f by simp
  qed
  let ?c = "count_list ws []"
  have "\<exists>d. (if ?c \<noteq> 0 then do { dump \<leftarrow> wr dump pos 0; n \<leftarrow> n32 (?c + length (filter (\<lambda>w. w \<noteq> []) ws)); Some (dump, [printword dump n]) }
      else Some (dump, [])) = Some (d, under (take pos dump) (if [] \<in> set ws then [([], length ws)] else []))
      \<and> length d = length dump \<and> take pos d = take pos dump"
  proof (cases "[] \<in> set ws")
    case True
    then have "?c \<noteq> 0" by (simp add: count_list_0_iff)
    then show ?thesis using True "1.prems"(2) printword_prefix [OF "1.prems"(2,3)] "1.prems"(4) by (simp add: listing_nonempty)
  next
    case False
    then have "?c = 0" by (simp add: count_list_0_iff)
    then show ?thesis using False by simp
  qed
  then obtain d where d: "(if ?c \<noteq> 0 then do { dump \<leftarrow> wr dump pos 0; n \<leftarrow> n32 (?c + length (filter (\<lambda>w. w \<noteq> []) ws)); Some (dump, [printword dump n]) }
      else Some (dump, [])) = Some (d, under (take pos dump) (if [] \<in> set ws then [([], length ws)] else []))"
      "length d = length dump" "take pos d = take pos dump" by (elim exE conjE) rule
  from loop [OF d(2,3)] obtain e where e:
    "travel_next (map ?node [0..<TREE_WIDTH]) 0 d pos = Some (e, under (take pos dump) (concat (map ?out [0..<TREE_WIDTH])))"
    "length e = length dump" "take pos e = take pos dump" by blast
  have "do_travel (build ws) dump pos = Some (e, under (take pos dump) (listing ws))"
    by (simp only: build.simps [of ws] listing_split [of ws] do_travel.simps d(1) e(1) Option.bind.simps prod.case under_simps)
  then show ?case using e(2,3) by blast
qed


section \<open>The program\<close>

lemma main_loop_words:
  "main_loop ls root = insert_words (concat (map (line_words []) (takeWhile (\<lambda>l. l \<noteq> [45, 49, 10]) ls))) root"
proof -
  have app: "insert_words (us @ vs) root = do { root \<leftarrow> insert_words us root; insert_words vs root }" for us vs root
  proof (induction us arbitrary: root)
    case (Cons u us)
    then show ?case by (cases "insert_word u root") simp_all
  qed simp
  show ?thesis
  proof (induction ls arbitrary: root)
    case (Cons l ls)
    then show ?case by (cases "insert_words (line_words [] l) root") (simp_all add: app)
  qed simp
qed

lemma line_words_ok: "w \<in> set (line_words u line) \<Longrightarrow> w \<noteq> [] \<and> set w \<subseteq> set u \<union> set line"
  by (induction u line rule: line_words.induct) (auto split: if_splits)

text \<open>
  C29: the program counts prefixes.  For lines of 7-bit characters without zero bytes whose words are at most
  128 long, it reads and writes only inside the child arrays and the 129 byte buffer, and prints every
  distinct word of the lines before ``-1'' once, in lexicographic order, each with the number of words that it is a
  prefix of, when there are fewer than \<open>2 ^ 31\<close> words.  With more, the counter of the root overflows, which is undefined.  A word with a byte from 128 on makes the insertion leave the child array.
\<close>

theorem trie_main_counts:
  assumes "\<forall>l \<in> set ls. ascii l \<and> 0 \<notin> set l"
    and "ws = concat (map (line_words []) (takeWhile (\<lambda>l. l \<noteq> [45, 49, 10]) ls))" "\<forall>w \<in> set ws. length w \<le> WORDLENMAX"
  shows "trie_main ls =
      (if length ws < 2 ^ 31 then Some (map (\<lambda>w. (w, length (filter (prefix w) ws))) (sorted_list_of_set (set ws))) else None)
    \<and> (\<not> ascii v \<longrightarrow> insert_word v t = None)"
proof
  have ws: "w \<noteq> [] \<and> ascii w \<and> 0 \<notin> set w" if w: "w \<in> set ws" for w
  proof -
    obtain l where "l \<in> set ls" "w \<in> set (line_words [] l)" using w assms(2) by (auto dest: set_takeWhileD)
    then show ?thesis using line_words_ok [of w "[]" l] assms(1) by (auto simp: ascii_def)
  qed
  have m: "main_loop ls new_node = insert_words ws (build [])" by (simp only: main_loop_words assms(2) build_Nil)
  show "trie_main ls =
      (if length ws < 2 ^ 31 then Some (map (\<lambda>w. (w, length (filter (prefix w) ws))) (sorted_list_of_set (set ws))) else None)"
  proof (cases "length ws < 2 ^ 31")
    case True
    have b: "insert_words ws (build []) = Some (build (rev ws))" using insert_words_build [of ws "[]"] ws True by simp
    let ?d = "replicate (WORDLENMAX + 1) (0 :: 8 word)"
    have "\<forall>w \<in> set (rev ws). 0 \<notin> set w \<and> length w + 0 < length ?d" using ws assms(3) by fastforce
    from travel_build [OF this] True obtain d where "do_travel (build (rev ws)) ?d 0 = Some (d, under [] (listing (rev ws)))" by auto
    moreover have "under [] (listing (rev ws)) = map (\<lambda>w. (w, length (filter (prefix w) ws))) (sorted_list_of_set (set ws))"
      by (simp add: under_def listing_def rev_filter [symmetric])
    ultimately show ?thesis using True unfolding trie_main_def m b by simp
  next
    case False
    then have "insert_words ws (build []) = None" using insert_words_overflow [of ws "[]"] ws by simp
    then show ?thesis using False unfolding trie_main_def m by simp
  qed
  show "\<not> ascii v \<longrightarrow> insert_word v t = None"
    using insert_at_not_ascii by (auto simp: insert_word_def ascii_def)
qed

text \<open>The lines ``this is'', ``is'' and ``-1''.\<close>

theorem trie_main_counts_witness:
  "trie_main [[116, 104, 105, 115, 32, 105, 115, 10], [105, 115, 10], [45, 49, 10]] =
     Some [([105, 115], 2), ([116, 104, 105, 115], 1)] \<and> insert_word [200] new_node = None"
proof -
  let ?ls = "[[116, 104, 105, 115, 32, 105, 115, 10], [105, 115, 10], [45, 49, 10]] :: 8 word list list"
  let ?ws = "[[116, 104, 105, 115], [105, 115], [105, 115]] :: 8 word list list"
  have a: "\<forall>l \<in> set ?ls. ascii l \<and> 0 \<notin> set l" by (simp add: ascii_def)
  have b: "?ws = concat (map (line_words []) (takeWhile (\<lambda>l. l \<noteq> [45, 49, 10]) ?ls))" by (simp add: spaces_def)
  have c: "\<forall>w \<in> set ?ws. length w \<le> WORDLENMAX" by (simp add: WORDLENMAX_def)
  have d: "sorted_list_of_set (set ?ws) = [[105, 115], [116, 104, 105, 115]]" by (simp add: list_less_def)
  have e: "\<not> ascii [200]" by (simp add: ascii_def)
  from trie_main_counts [OF a b c, of "[200]" new_node] e show ?thesis unfolding d by simp
qed

end
