(* ===== verification/Digraph_Search.thy ===== *)
theory Digraph_Search
  imports Prelude
begin

text \<open>
  The breadth-first search \<open>shortestPath\<close> of example_digraph.cpp.  The graph is the vector of
  adjacency lists, whose entry 0 is a dummy; an index outside a vector is \<open>None\<close>.  The message about
  an unreachable destination is the flag \<open>False\<close> of the result.
\<close>

record 'd VertexInfo =
  data :: 'd
  adjacencyList :: "int list"

text \<open>The inner loop, for the vertex \<open>v\<close> that was taken from the queue.\<close>

fun relax :: "int \<Rightarrow> nat \<Rightarrow> int list \<Rightarrow> int list \<times> int list \<times> int list \<Rightarrow> (int list \<times> int list \<times> int list) option" where
  "relax v distance [] st = Some st"
| "relax v distance (u # us) (distLabel, predLabel, vertexQueue) = do {
     l \<leftarrow> rdi distLabel u;
     if l < 0 then do {
       distLabel \<leftarrow> wri distLabel u (int distance + 1);
       predLabel \<leftarrow> wri predLabel u v;
       relax v distance us (distLabel, predLabel, vertexQueue @ [u]) }
     else relax v distance us (distLabel, predLabel, vertexQueue) }"

definition unlabelled :: "int list \<Rightarrow> nat" where
  "unlabelled dl = length (filter (\<lambda>l. l < 0) dl)"

lemma unlabelled_update: "i < length dl \<Longrightarrow> dl ! i < 0 \<Longrightarrow> 0 \<le> l \<Longrightarrow> Suc (unlabelled (dl[i := l])) = unlabelled dl"
proof (induction dl arbitrary: i)
  case (Cons a dl)
  then show ?case by (cases i) (auto simp: unlabelled_def)
qed simp

lemma relax_measure:
  "relax v distance us (dl, pl, q) = Some (dl', pl', q') \<Longrightarrow> unlabelled dl' + length q' = unlabelled dl + length q"
proof (induction v distance us "(dl, pl, q)" arbitrary: dl pl q rule: relax.induct)
  case (2 v distance u us dl pl q)
  have s: "0 \<le> u \<and> u < int (length dl) \<Longrightarrow> dl ! nat u < 0 \<Longrightarrow>
      Suc (unlabelled (dl[nat u := int distance + 1])) = unlabelled dl"
    using unlabelled_update [of "nat u" dl "int distance + 1"] by (simp add: nat_less_iff)
  show ?case
  proof (cases "0 \<le> u \<and> u < int (length dl) \<and> dl ! nat u < 0")
    case True
    then show ?thesis using 2 s by (auto simp: bind_eq_Some_conv rdi_eq_Some_iff wri_eq_Some_iff)
  next
    case False
    then show ?thesis using 2 by (auto simp: bind_eq_Some_conv rdi_eq_Some_iff)
  qed
qed simp

function bfs_loop :: "'d VertexInfo list \<Rightarrow> int \<Rightarrow> int list \<Rightarrow> int list \<Rightarrow> int list \<Rightarrow> nat \<Rightarrow> (int list \<times> int list \<times> nat) option" where
  "bfs_loop g destination distLabel predLabel vertexQueue distance = do {
     l \<leftarrow> rdi distLabel destination;
     (case vertexQueue of
        [] \<Rightarrow> Some (distLabel, predLabel, distance)
      | vertex # vertexQueue \<Rightarrow>
          if l < 0 then do {
            lv \<leftarrow> rdi distLabel vertex;
            let distance = (if lv > int distance then distance + 1 else distance);
            info \<leftarrow> rdi g vertex;
            st \<leftarrow> relax vertex distance (adjacencyList info) (distLabel, predLabel, vertexQueue);
            (case st of (distLabel, predLabel, vertexQueue) \<Rightarrow>
               bfs_loop g destination distLabel predLabel vertexQueue distance) }
          else Some (distLabel, predLabel, distance)) }"
  by pat_completeness auto
termination
  by (relation "measure (\<lambda>(g, dst, dl, pl, q, d). unlabelled dl + length q)") (auto dest!: relax_measure)

declare bfs_loop.simps [simp del]

text \<open>Filling in \<open>path[k - 1], \<dots>, path[0]\<close>.\<close>

fun path_loop :: "int list \<Rightarrow> int list \<Rightarrow> nat \<Rightarrow> int list option" where
  "path_loop predLabel path 0 = Some path"
| "path_loop predLabel path (Suc k) = do {
     u \<leftarrow> rd path (k + 1);
     p \<leftarrow> rdi predLabel u;
     path \<leftarrow> wr path k p;
     path_loop predLabel path k }"

definition shortestPath :: "'d VertexInfo list \<Rightarrow> int \<Rightarrow> int \<Rightarrow> (bool \<times> int list) option" where
  "shortestPath g start destination = do {
     let n = length g;
     distLabel \<leftarrow> wri (replicate n (- 1)) start 0;
     (distLabel, predLabel, distance) \<leftarrow> bfs_loop g destination distLabel (replicate n 0) [start] 0;
     let distance = distance + 1;
     let path = replicate (distance + 1) 0;
     l \<leftarrow> rdi distLabel destination;
     if l < 0 then Some (False, path)
     else do {
       path \<leftarrow> wr path distance destination;
       path \<leftarrow> path_loop predLabel path distance;
       Some (True, path) } }"

section \<open>Walks\<close>

definition vertex :: "'d VertexInfo list \<Rightarrow> int \<Rightarrow> bool" where
  "vertex g u \<longleftrightarrow> 0 \<le> u \<and> u < int (length g)"

definition edges :: "'d VertexInfo list \<Rightarrow> (int \<times> int) set" where
  "edges g = {(v, u). vertex g v \<and> u \<in> set (adjacencyList (g ! nat v))}"

definition graph_ok :: "'d VertexInfo list \<Rightarrow> bool" where
  "graph_ok g \<longleftrightarrow> (\<forall>info \<in> set g. \<forall>u \<in> set (adjacencyList info). vertex g u)"

definition walk :: "'d VertexInfo list \<Rightarrow> int \<Rightarrow> int \<Rightarrow> int list \<Rightarrow> bool" where
  "walk g s t p \<longleftrightarrow> p \<noteq> [] \<and> p ! 0 = s \<and> p ! (length p - 1) = t \<and> (\<forall>k. Suc k < length p \<longrightarrow> (p ! k, p ! Suc k) \<in> edges g)"

definition label :: "int list \<Rightarrow> int \<Rightarrow> int" where
  "label dl u = dl ! nat u"

lemma graph_okD: "graph_ok g \<Longrightarrow> (v, u) \<in> edges g \<Longrightarrow> vertex g u"
  by (auto simp: graph_ok_def edges_def vertex_def nat_less_iff)

lemma walk_relpow: "walk g s t p \<Longrightarrow> (s, t) \<in> edges g ^^ (length p - 1)"
proof (induction p arbitrary: t rule: rev_induct)
  case (snoc t' p)
  show ?case
  proof (cases "p = []")
    case True
    then show ?thesis using snoc.prems by (simp add: walk_def)
  next
    case False
    let ?m = "length p - 1"
    have "Suc ?m < length (p @ [t'])" using False by simp
    then have "((p @ [t']) ! ?m, (p @ [t']) ! Suc ?m) \<in> edges g" using snoc.prems unfolding walk_def by blast
    then have e: "(p ! ?m, t') \<in> edges g" using False by (simp add: nth_append)
    have "(p ! k, p ! Suc k) \<in> edges g" if "Suc k < length p" for k
      using snoc.prems that unfolding walk_def by (auto simp: nth_append dest!: spec [of _ k])
    then have "walk g s (p ! ?m) p" using False snoc.prems by (auto simp: walk_def nth_append)
    from snoc.IH [OF this] e have "(s, t') \<in> edges g ^^ Suc ?m" by auto
    moreover have "t = t'" using snoc.prems by (simp add: walk_def nth_append)
    ultimately show ?thesis using False by simp
  qed
qed (simp add: walk_def)

section \<open>The invariant of the search\<close>

lemma vertex_nat: "vertex g u \<Longrightarrow> length xs = length g \<Longrightarrow> nat u < length xs"
  by (simp add: vertex_def nat_less_iff)

lemma rdi_vertex: "vertex g u \<Longrightarrow> length xs = length g \<Longrightarrow> rdi xs u = Some (label xs u)"
  by (simp add: vertex_def label_def)

lemma wri_vertex: "vertex g u \<Longrightarrow> length xs = length g \<Longrightarrow> wri xs u x = Some (xs[nat u := x])"
  by (simp add: vertex_def)

lemma label_update: "vertex g u \<Longrightarrow> vertex g w \<Longrightarrow> length xs = length g \<Longrightarrow>
    label (xs[nat u := x]) w = (if w = u then x else label xs w)"
  by (auto simp: label_def vertex_def nth_list_update nat_less_iff)

lemma relax_spec:
  "length dl = length g \<Longrightarrow> length pl = length g \<Longrightarrow> \<forall>u \<in> set us. vertex g u \<Longrightarrow>
   \<exists>dl' pl' new. relax v d us (dl, pl, q) = Some (dl', pl', q @ new) \<and> length dl' = length g \<and> length pl' = length g
     \<and> set new = {u \<in> set us. label dl u < 0}
     \<and> (\<forall>u. vertex g u \<longrightarrow> label dl' u = (if u \<in> set us \<and> label dl u < 0 then int d + 1 else label dl u)
          \<and> label pl' u = (if u \<in> set us \<and> label dl u < 0 then v else label pl u))"
proof (induction us arbitrary: dl pl q)
  case (Cons u us)
  have u: "vertex g u" and us: "\<forall>u \<in> set us. vertex g u" using Cons.prems(3) by auto
  show ?case
  proof (cases "label dl u < 0")
    case True
    let ?dl = "dl[nat u := int d + 1]" and ?pl = "pl[nat u := v]"
    have l: "length ?dl = length g" "length ?pl = length g" using Cons.prems by simp_all
    from Cons.IH [OF l us, of "q @ [u]"] obtain dl' pl' new where
      r: "relax v d us (?dl, ?pl, q @ [u]) = Some (dl', pl', (q @ [u]) @ new)" "length dl' = length g" "length pl' = length g"
        "set new = {u \<in> set us. label ?dl u < 0}"
        "\<forall>w. vertex g w \<longrightarrow> label dl' w = (if w \<in> set us \<and> label ?dl w < 0 then int d + 1 else label ?dl w)
          \<and> label pl' w = (if w \<in> set us \<and> label ?dl w < 0 then v else label ?pl w)" by blast
    have "relax v d (u # us) (dl, pl, q) = Some (dl', pl', q @ u # new)"
      using True r(1) by (simp add: rdi_vertex [OF u] wri_vertex [OF u] Cons.prems)
    moreover have "set (u # new) = {w \<in> set (u # us). label dl w < 0}"
      using r(4) True us by (auto simp: label_update [OF u _ Cons.prems(1)] split: if_splits)
    moreover have "\<forall>w. vertex g w \<longrightarrow> label dl' w = (if w \<in> set (u # us) \<and> label dl w < 0 then int d + 1 else label dl w)
          \<and> label pl' w = (if w \<in> set (u # us) \<and> label dl w < 0 then v else label pl w)"
      using r(5) True by (auto simp: label_update [OF u _ Cons.prems(1)] label_update [OF u _ Cons.prems(2)])
    ultimately show ?thesis using r(2,3) by blast
  next
    case False
    from Cons.IH [OF Cons.prems(1,2) us, of q] obtain dl' pl' new where
      r: "relax v d us (dl, pl, q) = Some (dl', pl', q @ new)" "length dl' = length g" "length pl' = length g"
        "set new = {u \<in> set us. label dl u < 0}"
        "\<forall>w. vertex g w \<longrightarrow> label dl' w = (if w \<in> set us \<and> label dl w < 0 then int d + 1 else label dl w)
          \<and> label pl' w = (if w \<in> set us \<and> label dl w < 0 then v else label pl w)" by blast
    have "relax v d (u # us) (dl, pl, q) = Some (dl', pl', q @ new)"
      using False r(1) by (simp add: rdi_vertex [OF u] Cons.prems)
    moreover have "set new = {w \<in> set (u # us). label dl w < 0}" using r(4) False by auto
    moreover have "\<forall>w. vertex g w \<longrightarrow> label dl' w = (if w \<in> set (u # us) \<and> label dl w < 0 then int d + 1 else label dl w)
          \<and> label pl' w = (if w \<in> set (u # us) \<and> label dl w < 0 then v else label pl w)"
      using r(5) False by auto
    ultimately show ?thesis using r(2,3) by blast
  qed
qed auto

definition distance_label :: "'d VertexInfo list \<Rightarrow> int \<Rightarrow> int list \<Rightarrow> int \<Rightarrow> bool" where
  "distance_label g s dl u \<longleftrightarrow> (s, u) \<in> edges g ^^ nat (label dl u) \<and> (\<forall>k. (s, u) \<in> edges g ^^ k \<longrightarrow> label dl u \<le> int k)"

definition pred_ok :: "'d VertexInfo list \<Rightarrow> int list \<Rightarrow> int list \<Rightarrow> int \<Rightarrow> bool" where
  "pred_ok g dl pl u \<longleftrightarrow> (label pl u, u) \<in> edges g \<and> label dl u = label dl (label pl u) + 1 \<and> 0 \<le> label dl (label pl u)"

definition bfs_inv :: "'d VertexInfo list \<Rightarrow> int \<Rightarrow> int list \<Rightarrow> int list \<Rightarrow> int list \<Rightarrow> nat \<Rightarrow> bool" where
  "bfs_inv g s dl pl q d \<longleftrightarrow> length dl = length g \<and> length pl = length g \<and> vertex g s \<and> label dl s = 0
     \<and> (\<forall>u. vertex g u \<longrightarrow> 0 \<le> label dl u \<longrightarrow> distance_label g s dl u \<and> (u \<noteq> s \<longrightarrow> pred_ok g dl pl u)
          \<and> (u \<notin> set q \<longrightarrow> (\<forall>x. (u, x) \<in> edges g \<longrightarrow> 0 \<le> label dl x \<and> label dl x \<le> label dl u + 1)))
     \<and> (\<forall>w \<in> set q. vertex g w \<and> int d \<le> label dl w \<and> label dl w \<le> int d + 1) \<and> sorted (map (label dl) q)"

text \<open>Every walk ends in a labelled vertex or goes through the queue.\<close>

lemma bfs_frontier:
  assumes g: "graph_ok g" and inv: "bfs_inv g s dl pl q d"
  shows "(s, u) \<in> edges g ^^ k \<Longrightarrow> vertex g u \<and> (0 \<le> label dl u \<and> label dl u \<le> int k \<or> (\<exists>w \<in> set q. label dl w < int k))"
proof (induction k arbitrary: u)
  case 0
  then show ?case using inv by (simp add: bfs_inv_def)
next
  case (Suc k)
  then obtain w where w: "(s, w) \<in> edges g ^^ k" "(w, u) \<in> edges g" by auto
  have vu: "vertex g u" using graph_okD [OF g w(2)] .
  from Suc.IH [OF w(1)] consider "vertex g w" "0 \<le> label dl w" "label dl w \<le> int k" "w \<notin> set q" |
    x where "x \<in> set q" "label dl x < int (Suc k)" by force
  then show ?case
  proof cases
    case 1
    then have "0 \<le> label dl u \<and> label dl u \<le> label dl w + 1" using inv w(2) unfolding bfs_inv_def by blast
    then show ?thesis using vu 1(3) by simp
  qed (use vu in auto)
qed

lemma bfs_step:
  assumes g: "graph_ok g" and inv: "bfs_inv g s dl pl (v # q) d"
  shows "vertex g v \<and> (\<exists>dl' pl' new. relax v (nat (label dl v)) (adjacencyList (g ! nat v)) (dl, pl, q) = Some (dl', pl', q @ new)
    \<and> bfs_inv g s dl' pl' (q @ new) (nat (label dl v))
    \<and> (\<forall>u. vertex g u \<longrightarrow> label dl u < 0 \<longrightarrow> 0 \<le> label dl' u \<longrightarrow> label dl' u = label dl v + 1))"
proof -
  let ?us = "adjacencyList (g ! nat v)" and ?d = "nat (label dl v)"
  have I: "length dl = length g" "length pl = length g" "vertex g s" "label dl s = 0"
    and I': "\<And>u. vertex g u \<Longrightarrow> 0 \<le> label dl u \<Longrightarrow> distance_label g s dl u \<and> (u \<noteq> s \<longrightarrow> pred_ok g dl pl u)
      \<and> (u \<notin> set (v # q) \<longrightarrow> (\<forall>x. (u, x) \<in> edges g \<longrightarrow> 0 \<le> label dl x \<and> label dl x \<le> label dl u + 1))"
    and I9: "sorted (map (label dl) (v # q))"
    using inv unfolding bfs_inv_def by simp_all
  have I8: "vertex g w \<and> int d \<le> label dl w \<and> label dl w \<le> int d + 1" if "w \<in> set (v # q)" for w
    using inv that unfolding bfs_inv_def by blast
  have I5: "distance_label g s dl u" if "vertex g u" "0 \<le> label dl u" for u using I' [OF that] by blast
  have I6: "pred_ok g dl pl u" if "vertex g u" "0 \<le> label dl u" "u \<noteq> s" for u using I' [OF that(1,2)] that(3) by blast
  have I7: "0 \<le> label dl x \<and> label dl x \<le> label dl u + 1"
    if "vertex g u" "0 \<le> label dl u" "u \<notin> set (v # q)" "(u, x) \<in> edges g" for u x
    using I' [OF that(1,2)] that(3,4) by blast
  have v: "vertex g v" "int d \<le> label dl v" "label dl v \<le> int d + 1" using I8 [of v] by auto
  then have dv: "int ?d = label dl v" by simp
  have min: "label dl v \<le> label dl w" if "w \<in> set (v # q)" for w using I9 that by auto
  have us2: "u \<in> set ?us \<longleftrightarrow> (v, u) \<in> edges g" for u using v(1) by (simp add: edges_def)
  have us1: "\<forall>u \<in> set ?us. vertex g u" using graph_okD [OF g] us2 by blast
  from relax_spec [OF I(1,2) us1, of v ?d q] obtain dl' pl' new where
    r: "relax v ?d ?us (dl, pl, q) = Some (dl', pl', q @ new)" "length dl' = length g" "length pl' = length g"
      "set new = {u \<in> set ?us. label dl u < 0}"
      "\<And>u. vertex g u \<Longrightarrow> label dl' u = (if u \<in> set ?us \<and> label dl u < 0 then label dl v + 1 else label dl u)"
      "\<And>u. vertex g u \<Longrightarrow> label pl' u = (if u \<in> set ?us \<and> label dl u < 0 then v else label pl u)"
    unfolding dv by blast
  have old: "label dl' u = label dl u" "label pl' u = label pl u" if "vertex g u" "0 \<le> label dl u" for u
    using r(5,6) [OF that(1)] that(2) by auto
  have new: "label dl' u = label dl v + 1 \<and> label pl' u = v \<and> u \<in> set new \<and> (v, u) \<in> edges g"
    if "vertex g u" "label dl u < 0" "0 \<le> label dl' u" for u
    using r(4,5,6) that us2 by (auto split: if_splits)
  have dist_new: "distance_label g s dl' u" if u: "vertex g u" "label dl u < 0" "0 \<le> label dl' u" for u
  proof -
    have l: "label dl' u = label dl v + 1" "(v, u) \<in> edges g" using new [OF u] by auto
    have "(s, v) \<in> edges g ^^ ?d" using I5 [OF v(1)] v(2) by (simp add: distance_label_def)
    then have "(s, u) \<in> edges g ^^ Suc ?d" using l(2) by auto
    moreover have "nat (label dl' u) = Suc ?d" using l(1) v(2) by simp
    moreover have "label dl' u \<le> int k" if "(s, u) \<in> edges g ^^ k" for k
      using bfs_frontier [OF g inv that] u(2) min l(1) by force
    ultimately show ?thesis by (simp add: distance_label_def)
  qed
  have "bfs_inv g s dl' pl' (q @ new) ?d"
    unfolding bfs_inv_def
  proof (intro conjI allI impI ballI)
    show "label dl' s = 0" using old [OF I(3)] I(4) by simp
    fix u assume u: "vertex g u" "0 \<le> label dl' u"
    show "distance_label g s dl' u"
      using I5 [OF u(1)] old [OF u(1)] dist_new [OF u(1)] u(2) by (cases "0 \<le> label dl u") (auto simp: distance_label_def)
    show "pred_ok g dl' pl' u" if "u \<noteq> s"
    proof (cases "0 \<le> label dl u")
      case True
      then have p: "pred_ok g dl pl u" using I6 u(1) that by blast
      then have "vertex g (label pl u)" by (simp add: pred_ok_def edges_def)
      then show ?thesis using p old [OF u(1) True] old(1) by (simp add: pred_ok_def)
    next
      case False
      then show ?thesis using new [OF u(1)] u(2) old(1) [OF v(1)] v(2) by (simp add: pred_ok_def)
    qed
    fix x assume q: "u \<notin> set (q @ new)" and e: "(u, x) \<in> edges g"
    have lu: "0 \<le> label dl u" using new [OF u(1)] u(2) q by force
    have vx: "vertex g x" using graph_okD [OF g e] .
    have "0 \<le> label dl' x \<and> label dl' x \<le> label dl' u + 1"
    proof (cases "u = v")
      case True
      show ?thesis
      proof (cases "label dl x < 0")
        case True
        then show ?thesis using \<open>u = v\<close> e us2 [of x] r(5) [OF vx] old(1) [OF u(1) lu] v(2) by auto
      next
        case False
        moreover have "label dl x \<le> label dl v + 1"
        proof -
          have "(s, v) \<in> edges g ^^ ?d" using I5 [OF v(1)] v(2) by (simp add: distance_label_def)
          then have "(s, x) \<in> edges g ^^ Suc ?d" using e True \<open>u = v\<close> by auto
          then show ?thesis using I5 [OF vx] False dv unfolding distance_label_def by fastforce
        qed
        ultimately show ?thesis using old(1) [OF vx] old(1) [OF u(1) lu] \<open>u = v\<close> by simp
      qed
    next
      case False
      then have "0 \<le> label dl x \<and> label dl x \<le> label dl u + 1" using I7 [OF u(1) lu _ e] q by simp
      then show ?thesis using old(1) [OF vx] old(1) [OF u(1) lu] by simp
    qed
    then show "0 \<le> label dl' x" "label dl' x \<le> label dl' u + 1" by auto
  next
    fix w assume w: "w \<in> set (q @ new)"
    have "vertex g w \<and> label dl v \<le> label dl' w \<and> label dl' w \<le> label dl v + 1"
    proof (cases "w \<in> set new")
      case True
      then have "w \<in> set ?us" "label dl w < 0" using r(4) by auto
      then show ?thesis using r(5) [of w] us1 by simp
    next
      case False
      then have "w \<in> set (v # q)" using w by auto
      then have "vertex g w" "label dl v \<le> label dl w" "label dl w \<le> int d + 1" using I8 min by blast+
      then show ?thesis using old(1) [of w] v(2) by simp
    qed
    then show "vertex g w" "int ?d \<le> label dl' w" "label dl' w \<le> int ?d + 1" using dv by auto
  next
    have "label dl' w = label dl w" if "w \<in> set q" for w using I8 [of w] old(1) [of w] that by simp
    then have qs: "map (label dl') q = map (label dl) q" by simp
    have "label dl' w = label dl v + 1" if "w \<in> set new" for w
      using that r(4) r(5) [of w] us1 by simp
    then have ns: "map (label dl') new = replicate (length new) (label dl v + 1)" by (induction new) auto
    have "label dl w \<le> label dl v + 1" if "w \<in> set q" for w using I8 [of w] v(2) that by simp
    then show "sorted (map (label dl') (q @ new))" using I9 unfolding map_append qs ns by (auto simp: sorted_append)
  qed (use r(2,3) I(3) in simp_all)
  then show ?thesis using v(1) r(1) new by blast
qed

lemma bfs_loop_correct:
  assumes g: "graph_ok g" and t: "vertex g t"
  shows "bfs_inv g s dl pl q d \<Longrightarrow> 0 \<le> label dl t \<longrightarrow> t = s \<or> label dl t = int d + 1 \<Longrightarrow>
    \<exists>dl' pl' q' d'. bfs_loop g t dl pl q d = Some (dl', pl', d') \<and> bfs_inv g s dl' pl' q' d'
      \<and> (label dl' t < 0 \<longrightarrow> q' = []) \<and> (0 \<le> label dl' t \<longrightarrow> t = s \<or> label dl' t = int d' + 1)"
proof (induction "unlabelled dl + length q" arbitrary: dl pl q d rule: less_induct)
  case less
  have len: "length dl = length g" using less.prems(1) by (simp add: bfs_inv_def)
  note lt = rdi_vertex [OF t len]
  show ?case
  proof (cases "q = [] \<or> 0 \<le> label dl t")
    case True
    then have "bfs_loop g t dl pl q d = Some (dl, pl, d)"
      by (auto simp: bfs_loop.simps [of g t dl pl q d] lt split: list.splits)
    then show ?thesis using less.prems True by (intro exI conjI) auto
  next
    case False
    then obtain v q1 where q: "q = v # q1" by (cases q) auto
    let ?d = "nat (label dl v)"
    from bfs_step [OF g less.prems(1) [unfolded q]] obtain dl' pl' new where
      st: "vertex g v" "relax v ?d (adjacencyList (g ! nat v)) (dl, pl, q1) = Some (dl', pl', q1 @ new)"
      "bfs_inv g s dl' pl' (q1 @ new) ?d"
      "\<forall>u. vertex g u \<longrightarrow> label dl u < 0 \<longrightarrow> 0 \<le> label dl' u \<longrightarrow> label dl' u = label dl v + 1" by blast
    have dv: "int d \<le> label dl v" "label dl v \<le> int d + 1" using less.prems(1) q by (auto simp: bfs_inv_def)
    then have d1: "int d < label dl v \<Longrightarrow> ?d = Suc d" and d2: "\<not> int d < label dl v \<Longrightarrow> ?d = d" by linarith+
    have rg: "rdi g v = Some (g ! nat v)" using st(1) by (simp add: vertex_def)
    have eq: "bfs_loop g t dl pl q d = bfs_loop g t dl' pl' (q1 @ new) ?d"
      unfolding q using False st(2)
      by (cases "int d < label dl v"; subst bfs_loop.simps) (simp_all add: lt rdi_vertex [OF st(1) len] d1 d2 rg Let_def)
    have "unlabelled dl' + length (q1 @ new) < unlabelled dl + length q"
      using relax_measure [OF st(2)] q by simp
    moreover have "0 \<le> label dl' t \<longrightarrow> t = s \<or> label dl' t = int ?d + 1" using st(4) t False dv(1) by auto
    ultimately show ?thesis unfolding eq using less.hyps st(3) by blast
  qed
qed

section \<open>The path\<close>

lemma path_loop_correct:
  assumes inv: "bfs_inv g s dl pl q d"
  shows "k < length p \<Longrightarrow> vertex g (p ! k) \<Longrightarrow> label dl (p ! k) = int k \<Longrightarrow>
    \<exists>p'. path_loop pl p k = Some p' \<and> length p' = length p \<and> (\<forall>j. k \<le> j \<longrightarrow> p' ! j = p ! j) \<and> p' ! 0 = s
      \<and> (\<forall>j < k. (p' ! j, p' ! Suc j) \<in> edges g)"
proof (induction k arbitrary: p)
  case 0
  have "p ! 0 = s"
  proof (rule ccontr)
    assume "p ! 0 \<noteq> s"
    then have "pred_ok g dl pl (p ! 0)" using inv "0.prems" unfolding bfs_inv_def by (metis of_nat_0_le_iff)
    then show False using "0.prems"(3) unfolding pred_ok_def by linarith
  qed
  then show ?case by simp
next
  case (Suc k)
  let ?u = "p ! Suc k"
  have "?u \<noteq> s" using inv Suc.prems(3) by (auto simp: bfs_inv_def)
  then have pu: "pred_ok g dl pl ?u" using inv Suc.prems(2,3) unfolding bfs_inv_def by (metis of_nat_0_le_iff)
  then have w: "vertex g (label pl ?u)" "label dl (label pl ?u) = int k" "(label pl ?u, ?u) \<in> edges g"
    using Suc.prems(3) by (auto simp: pred_ok_def edges_def)
  have "length pl = length g" using inv by (simp add: bfs_inv_def)
  then have r: "rdi pl ?u = Some (label pl ?u)" by (rule rdi_vertex [OF Suc.prems(2)])
  let ?p = "p[k := label pl ?u]"
  have "?p ! k = label pl ?u" using Suc.prems(1) by simp
  with Suc.IH [of ?p] Suc.prems(1) w obtain p' where p': "path_loop pl ?p k = Some p'" "length p' = length ?p"
    "\<forall>j. k \<le> j \<longrightarrow> p' ! j = ?p ! j" "p' ! 0 = s" "\<forall>j < k. (p' ! j, p' ! Suc j) \<in> edges g" by auto
  have "path_loop pl p (Suc k) = Some p'" using Suc.prems(1) r p'(1) by simp
  moreover have "(p' ! j, p' ! Suc j) \<in> edges g" if "j < Suc k" for j
    using that p'(3,5) w(3) Suc.prems(1) by (cases "j = k") auto
  moreover have "p' ! j = p ! j" if "Suc k \<le> j" for j using that p'(3) by simp
  ultimately show ?case using p'(2,4) by auto
qed

text \<open>
  C20: breadth-first search.  In a graph whose edges stay inside it, for different start and destination,
  the search returns without leaving its vectors: if the destination can be reached, a
  walk from the start to it, and no walk is shorter; otherwise the message and a path of
  zeros.  For equal start and destination it returns the dummy vertex 0 before the start.
\<close>

theorem shortestPath_correct:
  assumes g: "graph_ok g" and s: "vertex g s" and t: "vertex g t"
  shows "(s \<noteq> t \<and> (\<exists>p. walk g s t p) \<longrightarrow> (\<exists>p. shortestPath g s t = Some (True, p) \<and> walk g s t p
            \<and> (\<forall>p'. walk g s t p' \<longrightarrow> length p \<le> length p')))
    \<and> (s \<noteq> t \<and> \<not> (\<exists>p. walk g s t p) \<longrightarrow> (\<exists>m. shortestPath g s t = Some (False, replicate m 0)))
    \<and> (s = t \<longrightarrow> shortestPath g s t = Some (True, [0, s]))"
proof -
  let ?n = "length g"
  let ?dl = "(replicate ?n (- 1))[nat s := 0] :: int list" and ?pl = "replicate ?n 0 :: int list"
  have lab: "label ?dl u = (if u = s then 0 else - 1)" if "vertex g u" for u
    using s that by (auto simp: label_def vertex_def nth_list_update nat_less_iff)
  have wr: "wri (replicate ?n (- 1)) s 0 = Some ?dl" using s by (intro wri_vertex) simp_all
  have inv: "bfs_inv g s ?dl ?pl [s] 0"
    using s lab by (auto simp: bfs_inv_def distance_label_def split: if_splits)
  have pre: "0 \<le> label ?dl t \<longrightarrow> t = s \<or> label ?dl t = int 0 + 1" using lab [OF t] by simp
  from bfs_loop_correct [OF g t inv pre] obtain dl pl q d where
    loop: "bfs_loop g t ?dl ?pl [s] 0 = Some (dl, pl, d)" "bfs_inv g s dl pl q d"
      "label dl t < 0 \<longrightarrow> q = []" "0 \<le> label dl t \<longrightarrow> t = s \<or> label dl t = int d + 1" by blast
  have len: "length dl = ?n" "length pl = ?n" using loop(2) by (simp_all add: bfs_inv_def)
  note rt = rdi_vertex [OF t len(1)]
  have sp: "shortestPath g s t = (if label dl t < 0 then Some (False, replicate (Suc (Suc d)) 0)
      else map_option (\<lambda>p. (True, p)) (path_loop pl ((replicate (Suc (Suc d)) 0)[Suc d := t]) (Suc d)))"
    unfolding shortestPath_def Let_def wr by (simp add: loop(1) rt map_conv_bind_option comp_def)
  show ?thesis
  proof (cases "s = t")
    case True
    have "bfs_loop g t ?dl ?pl [s] 0 = Some (?dl, ?pl, 0)"
      using True lab [OF t] rdi_vertex [OF t, of ?dl] by (subst bfs_loop.simps) simp
    then have e: "dl = ?dl" "pl = ?pl" "d = 0" using loop(1) by simp_all
    have "rdi ?pl t = Some (label ?pl t)" by (rule rdi_vertex [OF t]) simp
    moreover have "label ?pl t = 0" using t by (simp add: label_def vertex_def nat_less_iff)
    ultimately show ?thesis using True lab [OF t] unfolding sp e by simp
  next
    case False
    show ?thesis
    proof (cases "label dl t < 0")
      case True
      then have "q = []" using loop(3) by simp
      then have "\<not> walk g s t p" for p using bfs_frontier [OF g loop(2) walk_relpow [of g s t p]] True by auto
      moreover have "shortestPath g s t = Some (False, replicate (Suc (Suc d)) 0)" unfolding sp using True by (rule if_P)
      ultimately show ?thesis using False by blast
    next
      case lt: False
      then have d: "label dl t = int (Suc d)" using loop(4) False by simp
      let ?p = "(replicate (Suc (Suc d)) 0)[Suc d := t]"
      have "?p ! Suc d = t" by (simp del: replicate.simps)
      then have "vertex g (?p ! Suc d)" "label dl (?p ! Suc d) = int (Suc d)" using t d by (simp_all del: replicate.simps)
      from path_loop_correct [OF loop(2) _ this] obtain p where
        p: "path_loop pl ?p (Suc d) = Some p" "length p = Suc (Suc d)" "p ! Suc d = t" "p ! 0 = s"
          "\<forall>j < Suc d. (p ! j, p ! Suc j) \<in> edges g"
        using \<open>?p ! Suc d = t\<close> by (auto simp del: replicate.simps)
      have w: "walk g s t p" using p(2-5) by (auto simp: walk_def)
      have "length p \<le> length p'" if "walk g s t p'" for p'
      proof -
        have "distance_label g s dl t" using loop(2) t lt unfolding bfs_inv_def by (meson not_less)
        then have "label dl t \<le> int (length p' - 1)" using walk_relpow [OF that] by (simp add: distance_label_def)
        then show ?thesis using d p(2) by simp
      qed
      moreover have "shortestPath g s t = Some (True, p)" using sp lt p(1) by (simp del: replicate.simps path_loop.simps)
      ultimately show ?thesis using w False by blast
    qed
  qed
qed

text \<open>A chain 1, 2, 3 with a shortcut from 1 to 3 and the isolated vertex 4.\<close>

theorem shortestPath_correct_witness:
  "\<exists>p. shortestPath [\<lparr>data = CHR ''-'', adjacencyList = []\<rparr>, \<lparr>data = CHR ''A'', adjacencyList = [2, 3]\<rparr>,
      \<lparr>data = CHR ''B'', adjacencyList = [3]\<rparr>, \<lparr>data = CHR ''C'', adjacencyList = []\<rparr>, \<lparr>data = CHR ''D'', adjacencyList = [1]\<rparr>] 1 3
     = Some (True, p) \<and> length p \<le> length [1 :: int, 3]"
proof -
  let ?g = "[\<lparr>data = CHR ''-'', adjacencyList = []\<rparr>, \<lparr>data = CHR ''A'', adjacencyList = [2, 3]\<rparr>,
      \<lparr>data = CHR ''B'', adjacencyList = [3]\<rparr>, \<lparr>data = CHR ''C'', adjacencyList = []\<rparr>, \<lparr>data = CHR ''D'', adjacencyList = [1]\<rparr>]"
  have g: "graph_ok ?g" "vertex ?g 1" "vertex ?g 3" by (auto simp: graph_ok_def vertex_def)
  have w: "walk ?g 1 3 [1, 3]" by (simp add: walk_def edges_def vertex_def)
  from shortestPath_correct [OF g] w show ?thesis by fastforce
qed

end
