(* ===== verification/Thread_Pool.thy ===== *)
theory Thread_Pool
  imports Prelude
begin

text \<open>
  The thread pool of example_thread_pool.cpp as a system of interleaved steps: one client thread that
  runs \<open>pool_add_worker\<close> and \<open>pool_destroy\<close>, and the workers that run \<open>thread_routine\<close>.

  A program counter stands before the next action that another thread can observe: locking,
  testing the condition, going to wait (which unlocks), re-locking after a wake-up, taking a task,
  running it.  A failed assertion is \<open>Bug\<close>, a step that has to wait is \<open>Blocked\<close>.  The logs \<open>added\<close>,
  \<open>taken\<close> and \<open>finished\<close> are not in the code; they record what happened.
\<close>

datatype 't worker_pc = WLock | WCheck | WToWait | WWait | WWoken | WHave | WRun 't | WExit

datatype 't client_op = AddWorker 't | Destroy

datatype 't client_pc = CReady | CAdd 't | CSignal | CBroadcast | CJoin | CDone

datatype holder = Client | Worker nat

record 't pool =
  queue_head :: "'t list"
  cur_queue_size :: int
  shutdown :: bool
  queue_lock :: "holder option"
  workers :: "'t worker_pc list"
  client :: "'t client_pc"
  script :: "'t client_op list"
  added :: "'t list"
  taken :: "'t list"
  finished :: "'t list"

datatype 't outcome = Next "'t pool" | Blocked | Bug

definition pool_init :: "nat \<Rightarrow> 't client_op list \<Rightarrow> 't pool" where
  "pool_init max_thread_num ops = \<lparr>queue_head = [], cur_queue_size = 0, shutdown = False, queue_lock = None,
     workers = replicate max_thread_num WLock, client = CReady, script = ops, added = [], taken = [], finished = []\<rparr>"

definition goto :: "nat \<Rightarrow> 't worker_pc \<Rightarrow> 't pool \<Rightarrow> 't pool" where
  "goto i pc s = s\<lparr>workers := (workers s)[i := pc]\<rparr>"

text \<open>\<open>thread_routine\<close>: one step of worker \<open>i\<close>.\<close>

definition worker_step :: "nat \<Rightarrow> 't pool \<Rightarrow> 't outcome" where
  "worker_step i s =
     (if i < length (workers s) then
        (case workers s ! i of
           WLock \<Rightarrow> (if queue_lock s = None then Next (goto i WCheck (s\<lparr>queue_lock := Some (Worker i)\<rparr>)) else Blocked)
         | WCheck \<Rightarrow> Next (goto i (if cur_queue_size s = 0 \<and> \<not> shutdown s then WToWait else WHave) s)
         | WToWait \<Rightarrow> Next (goto i WWait (s\<lparr>queue_lock := None\<rparr>))
         | WWait \<Rightarrow> Blocked
         | WWoken \<Rightarrow> (if queue_lock s = None then Next (goto i WCheck (s\<lparr>queue_lock := Some (Worker i)\<rparr>)) else Blocked)
         | WHave \<Rightarrow>
             (if shutdown s then Next (goto i WExit (s\<lparr>queue_lock := None\<rparr>))
              else if cur_queue_size s = 0 then Bug
              else (case queue_head s of
                      [] \<Rightarrow> Bug
                    | t # ts \<Rightarrow> Next (goto i (WRun t) (s\<lparr>cur_queue_size := cur_queue_size s - 1, queue_head := ts,
                                    queue_lock := None, taken := taken s @ [t]\<rparr>))))
         | WRun t \<Rightarrow> Next (goto i WLock (s\<lparr>finished := finished s @ [t]\<rparr>))
         | WExit \<Rightarrow> Blocked)
      else Blocked)"

text \<open>
  One step of the client.  \<open>pthread_cond_signal\<close> wakes the waiting worker \<open>i\<close>, if any waits.  What the client calls after
  \<open>pool_destroy\<close> has returned, when the pool is a null pointer, is left out, as is the overflow of the size at \<open>2 ^ 31\<close> queued tasks.
\<close>

definition client_step :: "nat \<Rightarrow> 't pool \<Rightarrow> 't outcome" where
  "client_step i s =
     (case client s of
        CReady \<Rightarrow>
          (case script s of
             [] \<Rightarrow> Blocked
           | AddWorker t # ops \<Rightarrow>
               (if queue_lock s = None then Next (s\<lparr>queue_lock := Some Client, client := CAdd t, script := ops\<rparr>) else Blocked)
           | Destroy # ops \<Rightarrow>
               (if shutdown s then Next (s\<lparr>script := ops\<rparr>)
                else Next (s\<lparr>shutdown := True, client := CBroadcast, script := ops\<rparr>)))
      | CAdd t \<Rightarrow> Next (s\<lparr>queue_head := queue_head s @ [t], cur_queue_size := cur_queue_size s + 1, queue_lock := None,
                        added := added s @ [t], client := CSignal\<rparr>)
      | CSignal \<Rightarrow>
          (if WWait \<in> set (workers s) then
             (if i < length (workers s) \<and> workers s ! i = WWait then Next (goto i WWoken (s\<lparr>client := CReady\<rparr>)) else Blocked)
           else Next (s\<lparr>client := CReady\<rparr>))
      | CBroadcast \<Rightarrow> Next (s\<lparr>workers := map (\<lambda>w. if w = WWait then WWoken else w) (workers s), client := CJoin\<rparr>)
      | CJoin \<Rightarrow> (if list_all (\<lambda>w. w = WExit) (workers s) then Next (s\<lparr>queue_head := [], client := CDone\<rparr>) else Blocked)
      | CDone \<Rightarrow> Blocked)"

text \<open>Who moves; the number is the worker, or the one that a signal wakes.  \<open>Spurious i\<close> wakes it without a signal.\<close>

datatype move = MoveWorker nat | MoveClient nat | Spurious nat

fun pool_step :: "move \<Rightarrow> 't pool \<Rightarrow> 't outcome" where
  "pool_step (MoveWorker i) s = worker_step i s"
| "pool_step (MoveClient i) s = client_step i s"
| "pool_step (Spurious i) s = (if i < length (workers s) \<and> workers s ! i = WWait then Next (goto i WWoken s) else Blocked)"

inductive pool_reach :: "nat \<Rightarrow> 't client_op list \<Rightarrow> 't pool \<Rightarrow> bool" for n ops where
  pool_start: "pool_reach n ops (pool_init n ops)"
| pool_move: "pool_reach n ops s \<Longrightarrow> pool_step m s = Next s' \<Longrightarrow> pool_reach n ops s'"

section \<open>The invariant\<close>

fun holds_lock :: "'t worker_pc \<Rightarrow> bool" where
  "holds_lock WCheck = True"
| "holds_lock WToWait = True"
| "holds_lock WHave = True"
| "holds_lock _ = False"

fun task_of :: "'t worker_pc \<Rightarrow> 't list" where
  "task_of (WRun t) = [t]"
| "task_of _ = []"

definition running_tasks :: "'t pool \<Rightarrow> 't list" where
  "running_tasks s = concat (map task_of (workers s))"

fun op_tasks :: "'t client_op \<Rightarrow> 't list" where
  "op_tasks (AddWorker t) = [t]"
| "op_tasks Destroy = []"

fun adding :: "'t client_pc \<Rightarrow> 't list" where
  "adding (CAdd t) = [t]"
| "adding _ = []"

definition lock_ok :: "'t worker_pc list \<Rightarrow> holder option \<Rightarrow> 't client_pc \<Rightarrow> bool" where
  "lock_ok ws l c \<longleftrightarrow> (\<forall>i. l = Some (Worker i) \<longleftrightarrow> i < length ws \<and> holds_lock (ws ! i)) \<and> (l = Some Client \<longleftrightarrow> adding c \<noteq> [])"

definition lock_inv :: "'t pool \<Rightarrow> bool" where
  "lock_inv s \<longleftrightarrow> lock_ok (workers s) (queue_lock s) (client s)"

lemma lock_ok_worker:
  "lock_ok ws l c \<Longrightarrow> i < length ws \<Longrightarrow>
     (if holds_lock pc then l' = Some (Worker i) \<and> (l = None \<or> holds_lock (ws ! i))
      else l' = (if holds_lock (ws ! i) then None else l)) \<Longrightarrow> lock_ok (ws[i := pc]) l' c"
proof -
  assume ok: "lock_ok ws l c" and i: "i < length ws"
    and new: "if holds_lock pc then l' = Some (Worker i) \<and> (l = None \<or> holds_lock (ws ! i))
      else l' = (if holds_lock (ws ! i) then None else l)"
  have a: "l = Some (Worker j) \<longleftrightarrow> j < length ws \<and> holds_lock (ws ! j)" for j using ok by (simp add: lock_ok_def)
  have b: "l = Some Client \<longleftrightarrow> adding c \<noteq> []" using ok by (simp add: lock_ok_def)
  have "l' = Some (Worker j) \<longleftrightarrow> j < length (ws[i := pc]) \<and> holds_lock (ws[i := pc] ! j)" for j
    using new a [of i] a [of j] i by (cases "j = i") (auto split: if_splits)
  moreover have "l' = Some Client \<longleftrightarrow> adding c \<noteq> []" using new a [of i] b i by (auto split: if_splits)
  ultimately show ?thesis by (simp add: lock_ok_def)
qed

lemma lock_ok_client:
  "lock_ok ws l c \<Longrightarrow>
     (if adding c' \<noteq> [] then l' = Some Client \<and> (l = None \<or> adding c \<noteq> [])
      else l' = (if adding c \<noteq> [] then None else l)) \<Longrightarrow> lock_ok ws l' c'"
  unfolding lock_ok_def by (auto split: if_splits)

lemma lock_ok_wake: "lock_ok ws l c \<Longrightarrow> lock_ok (map (\<lambda>w. if w = WWait then WWoken else w) ws) l c"
proof -
  assume ok: "lock_ok ws l c"
  let ?ws = "map (\<lambda>w. if w = WWait then WWoken else w) ws"
  have "holds_lock (?ws ! i) = holds_lock (ws ! i)" if "i < length ws" for i using that by simp
  then have "i < length ?ws \<and> holds_lock (?ws ! i) \<longleftrightarrow> i < length ws \<and> holds_lock (ws ! i)" for i by auto
  then show ?thesis using ok unfolding lock_ok_def by simp
qed

definition queue_inv :: "'t client_op list \<Rightarrow> 't pool \<Rightarrow> bool" where
  "queue_inv ops s \<longleftrightarrow>
     (\<forall>i < length (workers s). workers s ! i = WHave \<longrightarrow> \<not> shutdown s \<longrightarrow> queue_head s \<noteq> [])
     \<and> (client s \<noteq> CDone \<longrightarrow> cur_queue_size s = int (length (queue_head s)) \<and> taken s @ queue_head s = added s)
     \<and> (client s = CDone \<longrightarrow> list_all (\<lambda>w. w = WExit) (workers s) \<and> (\<exists>rest. taken s @ rest = added s))
     \<and> added s @ adding (client s) @ concat (map op_tasks (script s)) = concat (map op_tasks ops)"

definition task_inv :: "'t pool \<Rightarrow> bool" where
  "task_inv s \<longleftrightarrow> mset (taken s) = mset (finished s) + mset (running_tasks s)"

lemma goto_simps [simp]:
  "workers (goto i pc s) = (workers s)[i := pc]" "queue_head (goto i pc s) = queue_head s"
  "cur_queue_size (goto i pc s) = cur_queue_size s" "shutdown (goto i pc s) = shutdown s"
  "queue_lock (goto i pc s) = queue_lock s" "client (goto i pc s) = client s" "script (goto i pc s) = script s"
  "added (goto i pc s) = added s" "taken (goto i pc s) = taken s" "finished (goto i pc s) = finished s"
  by (simp_all add: goto_def)

lemma running_goto:
  "i < length ws \<Longrightarrow> mset (concat (map task_of (ws[i := pc]))) + mset (task_of (ws ! i)) = mset (concat (map task_of ws)) + mset (task_of pc)"
proof (induction ws arbitrary: i)
  case (Cons w ws)
  show ?case
  proof (cases i)
    case (Suc k)
    then have "mset (concat (map task_of (ws[k := pc]))) + mset (task_of (ws ! k)) = mset (concat (map task_of ws)) + mset (task_of pc)"
      using Cons by simp
    then show ?thesis using Suc by (simp add: ac_simps)
  qed (simp add: ac_simps)
qed simp

lemma worker_lock_inv:
  assumes l: "lock_inv s" and st: "worker_step i s = Next s'"
  shows "lock_inv s'"
proof -
  have i: "i < length (workers s)" using st by (auto simp: worker_step_def split: if_splits)
  note ok = lock_ok_worker [OF l [unfolded lock_inv_def] i]
  have "holds_lock (workers s ! i) \<Longrightarrow> queue_lock s = Some (Worker i)" using l i by (simp add: lock_inv_def lock_ok_def)
  then show ?thesis
    using st i
    by (cases "workers s ! i") (auto simp: worker_step_def lock_inv_def ok split: if_splits list.splits)
qed

lemma client_lock_inv:
  assumes l: "lock_inv s" and st: "client_step i s = Next s'"
  shows "lock_inv s'"
proof -
  note l = l [unfolded lock_inv_def]
  note ok = lock_ok_client [OF l]
  show ?thesis
  proof (cases "client s")
    case CReady
    then show ?thesis using st by (auto simp: client_step_def lock_inv_def ok l split: list.splits client_op.splits if_splits)
  next
    case (CAdd t)
    then show ?thesis using st by (auto simp: client_step_def lock_inv_def ok)
  next
    case CSignal
    then have "lock_ok (workers s) (queue_lock s) CReady" by (intro ok) auto
    then show ?thesis using st CSignal lock_ok_worker [of "workers s" "queue_lock s" CReady i WWoken]
      by (auto simp: client_step_def lock_inv_def split: if_splits)
  next
    case CBroadcast
    then have "lock_ok (workers s) (queue_lock s) CJoin" by (intro ok) auto
    from lock_ok_wake [OF this] show ?thesis using st CBroadcast by (auto simp: client_step_def lock_inv_def)
  next
    case CJoin
    then show ?thesis using st by (auto simp: client_step_def lock_inv_def ok split: if_splits)
  next
    case CDone
    then show ?thesis using st by (simp add: client_step_def)
  qed
qed

lemma worker_queue_inv:
  assumes l: "lock_inv s" and q: "queue_inv ops s" and st: "worker_step i s = Next s'"
  shows "queue_inv ops s'"
proof -
  have i: "i < length (workers s)" using st by (auto simp: worker_step_def split: if_splits)
  have live: "client s \<noteq> CDone"
  proof
    assume "client s = CDone"
    then have "workers s ! i = WExit" using q i by (auto simp: queue_inv_def list_all_length)
    then show False using st i by (simp add: worker_step_def)
  qed
  have other: "workers s ! j \<noteq> WHave" if "j < length (workers s)" "j \<noteq> i" "holds_lock (workers s ! i)" for j
  proof
    assume "workers s ! j = WHave"
    then have "queue_lock s = Some (Worker j)" using l that(1) by (auto simp: lock_inv_def lock_ok_def)
    moreover have "queue_lock s = Some (Worker i)" using l i that(3) by (auto simp: lock_inv_def lock_ok_def)
    ultimately show False using that(2) by simp
  qed
  show ?thesis
    using q st i live other
    by (cases "workers s ! i") (auto simp: queue_inv_def worker_step_def nth_list_update split: if_splits list.splits)
qed

lemma client_queue_inv:
  assumes l: "lock_inv s" and q: "queue_inv ops s" and st: "client_step i s = Next s'"
  shows "queue_inv ops s'"
  using q st
  by (cases "client s") (auto simp: queue_inv_def client_step_def nth_list_update list_all_length split: if_splits list.splits client_op.splits)

lemma worker_task_inv: "task_inv s \<Longrightarrow> worker_step i s = Next s' \<Longrightarrow> task_inv s'"
  using running_goto [of i "workers s"]
  by (auto simp: task_inv_def worker_step_def running_tasks_def split: worker_pc.splits if_splits list.splits)

lemma running_wake: "map task_of (map (\<lambda>w. if w = WWait then WWoken else w) ws) = map task_of ws"
  by simp

lemma client_task_inv: "task_inv s \<Longrightarrow> client_step i s = Next s' \<Longrightarrow> task_inv s'"
  using running_goto [of i "workers s" WWoken] running_wake [of "workers s"]
  by (auto simp: task_inv_def client_step_def running_tasks_def
      split: client_pc.splits client_op.splits if_splits list.splits simp del: map_map)

definition pool_inv :: "'t client_op list \<Rightarrow> 't pool \<Rightarrow> bool" where
  "pool_inv ops s \<longleftrightarrow> lock_inv s \<and> queue_inv ops s \<and> task_inv s"

lemma spurious_inv:
  assumes "pool_inv ops s" "i < length (workers s)" "workers s ! i = WWait"
  shows "pool_inv ops (goto i WWoken s)"
proof -
  have "lock_inv (goto i WWoken s)"
    using assms lock_ok_worker [of "workers s" "queue_lock s" "client s" i WWoken] by (simp add: pool_inv_def lock_inv_def)
  moreover have "queue_inv ops (goto i WWoken s)"
    using assms by (auto simp: pool_inv_def queue_inv_def nth_list_update list_all_length)
  moreover have "task_inv (goto i WWoken s)"
    using assms running_goto [of i "workers s" WWoken] by (simp add: pool_inv_def task_inv_def running_tasks_def)
  ultimately show ?thesis by (simp add: pool_inv_def)
qed

lemma pool_reach_inv: "pool_reach n ops s \<Longrightarrow> pool_inv ops s"
proof (induction rule: pool_reach.induct)
  case pool_start
  show ?case
    by (simp add: pool_inv_def pool_init_def lock_inv_def lock_ok_def queue_inv_def task_inv_def running_tasks_def)
next
  case (pool_move s m s')
  then have inv: "lock_inv s" "queue_inv ops s" "task_inv s" by (simp_all add: pool_inv_def)
  show ?case
  proof (cases m)
    case (MoveWorker i)
    then show ?thesis using pool_move.hyps(2) inv worker_lock_inv worker_queue_inv worker_task_inv
      unfolding pool_inv_def by (metis pool_step.simps(1))
  next
    case (MoveClient i)
    then show ?thesis using pool_move.hyps(2) inv client_lock_inv client_queue_inv client_task_inv
      unfolding pool_inv_def by (metis pool_step.simps(2))
  next
    case (Spurious i)
    then show ?thesis using pool_move spurious_inv by (auto split: if_splits)
  qed
qed

lemma pool_no_bug: "pool_inv ops s \<Longrightarrow> pool_step m s \<noteq> Bug"
proof (cases m)
  case (MoveWorker i)
  assume inv: "pool_inv ops s"
  have "cur_queue_size s \<noteq> 0 \<and> queue_head s \<noteq> []" if "i < length (workers s)" "workers s ! i = WHave" "\<not> shutdown s"
  proof -
    have "client s \<noteq> CDone" using inv that by (auto simp: pool_inv_def queue_inv_def list_all_length)
    then show ?thesis using inv that by (auto simp: pool_inv_def queue_inv_def)
  qed
  then show ?thesis using MoveWorker by (auto simp: worker_step_def split: worker_pc.splits list.splits)
next
  case (MoveClient i)
  then show ?thesis by (auto simp: client_step_def split: client_pc.splits list.splits client_op.splits)
qed simp

text \<open>
  C19: the pool runs every task at most once and in order.  In every state that any interleaving of the client
  and the workers reaches, no assertion fails, at most one thread holds the lock, the size is the length of
  the queue, the tasks taken so far are the first of those added, in that order, each of them is running
  or has finished, and when \<open>pool_destroy\<close> returns all of them have finished.
\<close>

theorem pool_sound:
  assumes "pool_reach n ops s"
  shows "pool_step m s \<noteq> Bug
    \<and> (i < length (workers s) \<longrightarrow> j < length (workers s) \<longrightarrow> holds_lock (workers s ! i) \<longrightarrow> holds_lock (workers s ! j) \<longrightarrow> i = j)
    \<and> (client s \<noteq> CDone \<longrightarrow> cur_queue_size s = int (length (queue_head s)) \<and> taken s @ queue_head s = added s)
    \<and> (\<exists>rest. taken s @ rest = concat (map op_tasks ops))
    \<and> mset (taken s) = mset (finished s) + mset (running_tasks s)
    \<and> (client s = CDone \<longrightarrow> mset (finished s) = mset (taken s))"
proof -
  have inv: "pool_inv ops s" by (rule pool_reach_inv [OF assms])
  then have l: "lock_inv s" and q: "queue_inv ops s" and t: "task_inv s" by (simp_all add: pool_inv_def)
  have "i = j" if "i < length (workers s)" "j < length (workers s)" "holds_lock (workers s ! i)" "holds_lock (workers s ! j)"
    using l that unfolding lock_inv_def lock_ok_def by (metis option.inject holder.inject)
  moreover have "\<exists>rest. taken s @ rest = concat (map op_tasks ops)"
  proof -
    have "\<exists>rest. taken s @ rest = added s" using q by (auto simp: queue_inv_def)
    moreover have "\<exists>rest. added s @ rest = concat (map op_tasks ops)" using q by (auto simp: queue_inv_def)
    ultimately show ?thesis by (metis append_assoc)
  qed
  moreover have "running_tasks s = []" if "client s = CDone"
  proof -
    have "\<forall>w \<in> set (workers s). w = WExit" using q that by (simp add: queue_inv_def list_all_iff)
    then have "\<forall>w \<in> set (workers s). task_of w = []" by auto
    then show ?thesis by (simp add: running_tasks_def)
  qed
  ultimately show ?thesis using pool_no_bug [OF inv] q t by (simp add: queue_inv_def task_inv_def)
qed

fun run_moves :: "move list \<Rightarrow> 't pool \<Rightarrow> 't pool option" where
  "run_moves [] s = Some s"
| "run_moves (m # ms) s = (case pool_step m s of Next s' \<Rightarrow> run_moves ms s' | _ \<Rightarrow> None)"

lemma run_moves_reach: "run_moves ms s = Some s' \<Longrightarrow> pool_reach n ops s \<Longrightarrow> pool_reach n ops s'"
  by (induction ms arbitrary: s) (auto split: outcome.splits intro: pool_move)

text \<open>Two workers, two tasks; worker 0 takes the first and runs it.\<close>

theorem pool_sound_witness:
  "\<exists>s. run_moves [MoveClient 0, MoveClient 0, MoveClient 0, MoveWorker 0, MoveWorker 0, MoveWorker 0, MoveClient 0, MoveClient 0, MoveWorker 0]
        (pool_init 2 [AddWorker (7 :: int), AddWorker 8]) = Some s
     \<and> taken s = [7] \<and> queue_head s = [8] \<and> taken s @ queue_head s = added s \<and> pool_step (MoveWorker 1) s \<noteq> Bug"
proof -
  let ?ms = "[MoveClient 0, MoveClient 0, MoveClient 0, MoveWorker 0, MoveWorker 0, MoveWorker 0, MoveClient 0, MoveClient 0, MoveWorker 0]"
  let ?s = "run_moves ?ms (pool_init 2 [AddWorker (7 :: int), AddWorker 8])"
  have e: "map_option taken ?s = Some [7]" "map_option queue_head ?s = Some [8]" "map_option client ?s = Some CSignal"
    by code_simp+
  then obtain s where s: "?s = Some s" "taken s = [7]" "queue_head s = [8]" "client s = CSignal" by auto
  have "pool_reach 2 [AddWorker 7, AddWorker 8] s" using run_moves_reach [OF s(1) pool_start] .
  from pool_sound [OF this, of "MoveWorker 1" 0 0] s show ?thesis by simp
qed

text \<open>
  The lost wake-up.  While \<open>pool_destroy\<close> waits for the workers, the threads can only be stuck
  because a worker still waits for the condition; and this happens: \<open>shutdown\<close> is set and broadcast without the
  lock, between the test of a worker and its wait, after which the worker is never woken and the join
  never returns.
\<close>

theorem pool_destroy_lost_wakeup:
  "(pool_reach n ops s \<longrightarrow> client s = CJoin \<longrightarrow> (\<forall>i. worker_step i s = Blocked) \<longrightarrow> (\<forall>i. client_step i s = Blocked) \<longrightarrow>
      WWait \<in> set (workers s))
   \<and> (\<exists>s. pool_reach 1 [Destroy] s \<and> client s = CJoin \<and> shutdown s \<and> workers s = [WWait]
        \<and> (\<forall>i. worker_step i s = Blocked) \<and> (\<forall>i. client_step i s = Blocked))"
proof (intro conjI impI)
  assume r: "pool_reach n ops s" and c: "client s = CJoin" and w: "\<forall>i. worker_step i s = Blocked" and b: "\<forall>i. client_step i s = Blocked"
  have l: "lock_inv s" using pool_reach_inv [OF r] by (simp add: pool_inv_def)
  obtain i where i: "i < length (workers s)" "workers s ! i \<noteq> WExit"
    using b c by (auto simp: client_step_def list_all_length split: if_splits)
  have hold: "\<not> holds_lock (workers s ! j)" if "j < length (workers s)" for j
    using spec [OF w, of j] that pool_no_bug [OF pool_reach_inv [OF r], of "MoveWorker j"]
    by (cases "workers s ! j") (auto simp: worker_step_def split: if_splits list.splits)
  have "queue_lock s \<noteq> Some h" for h
    using l hold c by (cases h) (auto simp: lock_inv_def lock_ok_def)
  then have "queue_lock s = None" by auto
  then have "workers s ! i = WWait"
    using spec [OF w, of i] i hold [OF i(1)] by (cases "workers s ! i") (auto simp: worker_step_def)
  then show "WWait \<in> set (workers s)" using i(1) by (metis nth_mem)
next
  let ?s = "(pool_init 1 [] :: 't pool)\<lparr>shutdown := True, workers := [WWait], client := CJoin\<rparr>"
  have "run_moves [MoveWorker 0, MoveWorker 0, MoveClient 0, MoveClient 0, MoveWorker 0] (pool_init 1 [Destroy]) = Some ?s"
    by (simp add: pool_init_def worker_step_def client_step_def goto_def)
  then have "pool_reach 1 [Destroy] ?s" by (rule run_moves_reach) (rule pool_start)
  moreover have "worker_step i ?s = Blocked" for i by (cases i) (simp_all add: worker_step_def)
  moreover have "client_step i ?s = Blocked" for i by (simp add: client_step_def)
  ultimately show "\<exists>s :: 't pool. pool_reach 1 [Destroy] s \<and> client s = CJoin \<and> shutdown s \<and> workers s = [WWait]
        \<and> (\<forall>i. worker_step i s = Blocked) \<and> (\<forall>i. client_step i s = Blocked)"
    by (intro exI [of _ ?s] conjI allI) simp_all
qed

theorem pool_destroy_lost_wakeup_witness:
  "\<exists>s :: int pool. pool_reach 1 [Destroy] s \<and> client s = CJoin \<and> WWait \<in> set (workers s)"
proof -
  obtain s :: "int pool" where s: "pool_reach 1 [Destroy] s" "client s = CJoin"
    "\<forall>i. worker_step i s = Blocked" "\<forall>i. client_step i s = Blocked"
    using pool_destroy_lost_wakeup [of 1 "[]" "pool_init 1 []"] by blast
  then show ?thesis using pool_destroy_lost_wakeup [of 1 "[Destroy]" s] by blast
qed

end
