(* ===== verification/Morse.thy ===== *)
theory Morse
  imports Prelude
begin

text \<open>
  The Morse coder of example_morse.cpp in the C locale.  \<open>cap\<close> is the size of the destination array; a write
  beyond it or beyond the 50 bytes of \<open>temp\<close>, and a read of the uninitialised \<open>temp\<close>, is \<open>None\<close>.
  Strings stand without their final zero byte.
\<close>

definition morse_table :: "string list" where
  "morse_table = [''._'', ''_...'', ''_._.'', ''_..'', ''.'', ''.._.'', ''__.'', ''....'', ''..'', ''.___'', ''_._'', ''._..'', ''__'',
     ''_.'', ''___'', ''.__.'', ''__._'', ''._.'', ''...'', ''_'', ''.._'', ''..._'', ''.__'', ''_.._'', ''_.__'', ''__..'',
     ''_____'', ''.____'', ''..___'', ''...__'', ''...._'', ''.....'', ''_....'', ''__...'', ''___..'', ''____.'']"

definition isdigit :: "char \<Rightarrow> bool" where
  "isdigit c \<longleftrightarrow> 48 \<le> (of_char c :: int) \<and> (of_char c :: int) \<le> 57"

definition islower :: "char \<Rightarrow> bool" where
  "islower c \<longleftrightarrow> 97 \<le> (of_char c :: int) \<and> (of_char c :: int) \<le> 122"

definition isalpha :: "char \<Rightarrow> bool" where
  "isalpha c \<longleftrightarrow> islower c \<or> 65 \<le> (of_char c :: int) \<and> (of_char c :: int) \<le> 90"

definition isspace :: "char \<Rightarrow> bool" where
  "isspace c \<longleftrightarrow> (of_char c :: int) = 32 \<or> 9 \<le> (of_char c :: int) \<and> (of_char c :: int) \<le> 13"

definition toupper :: "char \<Rightarrow> char" where
  "toupper c = (if islower c then char_of (of_char c - 32 :: int) else c)"

definition strcat :: "nat \<Rightarrow> string \<Rightarrow> string \<Rightarrow> string option" where
  "strcat cap d x = (if length d + length x < cap then Some (d @ x) else None)"

fun encode_loop :: "nat \<Rightarrow> string \<Rightarrow> string \<Rightarrow> string option" where
  "encode_loop cap d [] = Some d"
| "encode_loop cap d (c # s) = do {
     d \<leftarrow> (if isalpha c then do { x \<leftarrow> rdi morse_table (of_char (toupper c) - 65); strcat cap d x } else Some d);
     d \<leftarrow> (if isdigit c then do { x \<leftarrow> rdi morse_table (of_char c - 48 + (90 - 65) + 1); strcat cap d x } else Some d);
     d \<leftarrow> strcat cap d '' '';
     encode_loop cap d s }"

definition encodeMorse :: "nat \<Rightarrow> string \<Rightarrow> string option" where
  "encodeMorse cap s = encode_loop cap [] s"

text \<open>\<open>sscanf(s, "%s", temp)\<close> leaves \<open>temp\<close> alone when only white space is left.\<close>

definition scan_word :: "string \<Rightarrow> string option \<Rightarrow> string option" where
  "scan_word s temp =
     (let w = takeWhile (\<lambda>c. \<not> isspace c) (dropWhile isspace s) in
      if w = [] then temp else if length w < 50 then Some w else None)"

definition symbol :: "nat \<Rightarrow> char" where
  "symbol i = (if i < 26 then char_of (65 + i) else char_of (48 + i - 26))"

fun match_loop :: "string list \<Rightarrow> nat \<Rightarrow> string \<Rightarrow> string" where
  "match_loop [] i temp = []"
| "match_loop (x # xs) i temp = (if temp = x then symbol i # match_loop xs (i + 1) temp else match_loop xs (i + 1) temp)"

partial_function (option) decode_loop :: "string option \<Rightarrow> string \<Rightarrow> string \<Rightarrow> string option" where
  "decode_loop temp d s =
     (if s = [] then Some d
      else do {
        temp \<leftarrow> scan_word s temp;
        (if length temp \<le> length s then
           decode_loop (Some temp) (d @ match_loop morse_table 0 temp) (dropWhile (\<lambda>c. c = CHR '' '') (drop (length temp) s))
         else None) })"

definition decodeMorse :: "string \<Rightarrow> string option" where
  "decodeMorse s = decode_loop None [] s"

section \<open>Round trip\<close>

definition morse_index :: "char \<Rightarrow> int" where
  "morse_index c = (if isalpha c then of_char (toupper c) - 65 else of_char c - 48 + 26)"

definition morse_code :: "char \<Rightarrow> string" where
  "morse_code c = morse_table ! nat (morse_index c)"

lemma length_table: "length morse_table = 36"
  by (simp add: morse_table_def)

lemma table_words: "\<forall>x \<in> set morse_table. x \<noteq> [] \<and> length x \<le> 5 \<and> list_all (\<lambda>c. \<not> isspace c) x"
  by (simp add: morse_table_def isspace_def)

lemma table_match: "\<forall>i \<in> set [0..<36]. match_loop morse_table 0 (morse_table ! i) = [symbol i]"
  by code_simp

lemma of_char_int: "(of_char c :: int) = int (of_char c)"
  by (rule of_nat_of_char [symmetric])

lemma alnum_index:
  assumes "isalpha c \<or> isdigit c"
  shows "0 \<le> morse_index c \<and> morse_index c < 36 \<and> symbol (nat (morse_index c)) = toupper c"
proof -
  define n :: nat where "n = of_char c"
  have c: "c = char_of n" "(of_char c :: int) = int n" by (simp_all only: n_def of_char_int char_of_char)
  consider "97 \<le> n" "n \<le> 122" | "65 \<le> n" "n \<le> 90" | "48 \<le> n" "n \<le> 57"
    using assms by (auto simp: isalpha_def islower_def isdigit_def c(2))
  then show ?thesis
  proof cases
    case 1
    then have l: "islower c" "isalpha c" by (simp_all add: islower_def isalpha_def c(2))
    have "int n - 32 = int (n - 32)" using 1 by simp
    then have t: "toupper c = char_of (n - 32)" using l by (simp only: toupper_def c(2) if_True char_of_nat)
    have "(of_char (toupper c) :: int) = int ((n - 32) mod 256)" unfolding t of_char_int by simp
    then have "morse_index c = int n - 97" using 1 l by (simp add: morse_index_def of_nat_diff)
    then show ?thesis using 1 t by (simp add: symbol_def nat_diff_distrib)
  next
    case 2
    then have l: "\<not> islower c" "isalpha c" by (simp_all add: islower_def isalpha_def c(2))
    then have "toupper c = c" by (simp add: toupper_def)
    moreover from this have "morse_index c = int n - 65" using l c(2) by (simp add: morse_index_def)
    ultimately show ?thesis using 2 c(1) by (simp add: symbol_def nat_diff_distrib)
  next
    case 3
    then have l: "\<not> islower c" "\<not> isalpha c" by (simp_all add: islower_def isalpha_def c(2))
    then have "toupper c = c" by (simp add: toupper_def)
    moreover from l have i: "morse_index c = int n - 22" using c(2) by (simp add: morse_index_def)
    moreover have "nat (int n - 22) = n - 22" using 3 by simp
    ultimately show ?thesis using 3 c(1) by (simp add: symbol_def)
  qed
qed

lemma alnum_code:
  assumes "isalpha c \<or> isdigit c"
  shows "morse_code c \<noteq> []" "length (morse_code c) \<le> 5" "list_all (\<lambda>c. \<not> isspace c) (morse_code c)"
    "match_loop morse_table 0 (morse_code c) = [toupper c]"
proof -
  have i: "nat (morse_index c) < 36" "symbol (nat (morse_index c)) = toupper c" using alnum_index [OF assms] by auto
  then have "morse_code c \<in> set morse_table" by (simp add: morse_code_def length_table)
  then show "morse_code c \<noteq> []" "length (morse_code c) \<le> 5" "list_all (\<lambda>c. \<not> isspace c) (morse_code c)"
    using table_words by auto
  show "match_loop morse_table 0 (morse_code c) = [toupper c]" using table_match i by (simp add: morse_code_def)
qed

lemma not_both: "isalpha c \<Longrightarrow> \<not> isdigit c"
  by (auto simp: isalpha_def islower_def isdigit_def)

definition morse_text :: "string \<Rightarrow> string" where
  "morse_text s = concat (map (\<lambda>c. morse_code c @ '' '') s)"

lemma encode_loop_alnum:
  "list_all (\<lambda>c. isalpha c \<or> isdigit c) s \<Longrightarrow> length d + 6 * length s < cap \<Longrightarrow> encode_loop cap d s = Some (d @ morse_text s)"
proof (induction s arbitrary: d)
  case (Cons c s)
  then have c: "isalpha c \<or> isdigit c" by simp
  let ?x = "morse_code c"
  have x: "length ?x \<le> 5" by (rule alnum_code [OF c])
  have r: "rdi morse_table (morse_index c) = Some ?x"
    using alnum_index [OF c] by (simp add: rdi_def rd_def morse_code_def length_table nat_less_iff)
  have s1: "strcat cap d ?x = Some (d @ ?x)" using x Cons.prems(2) by (simp add: strcat_def)
  have s2: "strcat cap (d @ ?x) '' '' = Some (d @ ?x @ '' '')" using x Cons.prems(2) by (simp add: strcat_def)
  have IH: "encode_loop cap (d @ ?x @ '' '') s = Some ((d @ ?x @ '' '') @ morse_text s)"
    using Cons.prems x by (intro Cons.IH) simp_all
  have step: "encode_loop cap d (c # s) = encode_loop cap (d @ ?x @ '' '') s"
  proof (cases "isalpha c")
    case True
    then have "rdi morse_table (of_char (toupper c) - 65) = Some ?x" using r by (simp add: morse_index_def)
    then show ?thesis using True not_both [OF True] s1 s2 by simp
  next
    case False
    then have "rdi morse_table (of_char c - 48 + (90 - 65) + 1) = Some ?x" using r by (simp add: morse_index_def algebra_simps)
    then show ?thesis using False c s1 s2 by simp
  qed
  show ?case unfolding step IH by (simp add: morse_text_def)
qed (simp add: morse_text_def)

lemma decode_loop_alnum:
  "list_all (\<lambda>c. isalpha c \<or> isdigit c) s \<Longrightarrow> decode_loop temp d (morse_text s) = Some (d @ map toupper s)"
proof (induction s arbitrary: temp d)
  case Nil
  then show ?case by (simp add: decode_loop.simps morse_text_def)
next
  case (Cons c s)
  then have c: "isalpha c \<or> isdigit c" by simp
  let ?x = "morse_code c" and ?r = "morse_text s"
  note x = alnum_code [OF c]
  have t: "morse_text (c # s) = ?x @ CHR '' '' # ?r" by (simp add: morse_text_def)
  obtain a as where a: "?x = a # as" using x(1) by (cases ?x) auto
  have "dropWhile isspace (?x @ CHR '' '' # ?r) = ?x @ CHR '' '' # ?r" using x(3) a by simp
  moreover have "takeWhile (\<lambda>c. \<not> isspace c) (?x @ CHR '' '' # ?r) = ?x"
    using x(3) by (subst takeWhile_append2) (auto simp: list_all_iff isspace_def)
  ultimately have w: "scan_word (?x @ CHR '' '' # ?r) temp = Some ?x" using x(1,2) by (simp add: scan_word_def)
  have "dropWhile (\<lambda>c. c = CHR '' '') (CHR '' '' # ?r) = ?r"
  proof (cases s)
    case (Cons c' s')
    have c': "isalpha c' \<or> isdigit c'" using Cons.prems \<open>s = c' # s'\<close> by simp
    obtain b bs where "morse_code c' = b # bs" using alnum_code(1) [OF c'] by (cases "morse_code c'") auto
    moreover from this have "b \<noteq> CHR '' ''" using alnum_code(3) [OF c'] by (auto simp: isspace_def)
    ultimately show ?thesis using Cons by (simp add: morse_text_def)
  qed (simp add: morse_text_def)
  then have "decode_loop temp d (morse_text (c # s)) = decode_loop (Some ?x) (d @ [toupper c]) ?r"
    unfolding t by (subst decode_loop.simps) (simp add: w x(4))
  then show ?case using Cons by simp
qed

text \<open>
  The round trip.  A text of letters and digits that fits is encoded inside the array, and decoding the result
  gives the text in upper case.  A text that starts with a blank does not come back: the decoder skips as many
  characters as the code has, but not the blanks before it, and reads the rest of the code as another letter.
\<close>

theorem morse_roundtrip:
  "(list_all (\<lambda>c. isalpha c \<or> isdigit c) s \<longrightarrow> 6 * length s < cap \<longrightarrow>
      (\<exists>d. encodeMorse cap s = Some d \<and> decodeMorse d = Some (map toupper s)))
   \<and> (\<exists>d. encodeMorse 1000 '' A'' = Some d \<and> decodeMorse d = Some ''AT'')"
proof (intro conjI impI)
  assume "list_all (\<lambda>c. isalpha c \<or> isdigit c) s" "6 * length s < cap"
  then show "\<exists>d. encodeMorse cap s = Some d \<and> decodeMorse d = Some (map toupper s)"
    using encode_loop_alnum [of s "[]" cap] decode_loop_alnum [of s None "[]"] by (simp add: encodeMorse_def decodeMorse_def)
next
  have "encodeMorse 1000 '' A'' = Some '' ._ ''" by code_simp
  moreover have "match_loop morse_table 0 ''._'' = ''A''" "match_loop morse_table 0 ''_'' = ''T''" by code_simp+
  then have "decodeMorse '' ._ '' = Some ''AT''"
    by (simp add: decodeMorse_def decode_loop.simps scan_word_def isspace_def)
  ultimately show "\<exists>d. encodeMorse 1000 '' A'' = Some d \<and> decodeMorse d = Some ''AT''" by simp
qed

theorem morse_roundtrip_witness:
  "\<exists>d. encodeMorse 1000 ''HappyNewYear2014'' = Some d \<and> decodeMorse d = Some ''HAPPYNEWYEAR2014''"
proof -
  have "list_all (\<lambda>c. isalpha c \<or> isdigit c) ''HappyNewYear2014''" "map toupper ''HappyNewYear2014'' = ''HAPPYNEWYEAR2014''"
    by code_simp+
  moreover have "6 * length ''HappyNewYear2014'' < 1000" by simp
  ultimately show ?thesis using morse_roundtrip [of "''HappyNewYear2014''" 1000] by simp
qed

declare decode_loop.simps [code]

end
