(* ===== verification/Chained_Hash.thy ===== *)
theory Chained_Hash
  imports Prelude
begin

text \<open>
  The string hash table of example_hashtable2.cpp.  A key is the bytes of a C string without the final
  zero; a bucket is the list of its nodes, which no other pointer reaches.  Removing the head of a chain
  stores the null pointer in the table, as the code does.
\<close>

unbundle bit_operations_syntax

definition HASH_TABLE_MAX_SIZE :: nat where
  "HASH_TABLE_MAX_SIZE = 10000"

type_synonym str = "8 word list"

record hash_node =
  sKey :: str
  nValue :: int

record hash_table =
  hashTable :: "hash_node list list"
  hash_table_size :: int

definition hash_table_init :: hash_table where
  "hash_table_init = \<lparr>hashTable = replicate HASH_TABLE_MAX_SIZE [], hash_table_size = 0\<rparr>"

fun hash_loop :: "32 word \<Rightarrow> str \<Rightarrow> 32 word" where
  "hash_loop h [] = h"
| "hash_loop h (c # p) = hash_loop (push_bit 5 h - h + scast c) p"

fun hash_table_hash_str :: "str \<Rightarrow> 32 word" where
  "hash_table_hash_str [] = 0"
| "hash_table_hash_str (c # p) = (let h = scast c in if h \<noteq> 0 then hash_loop h p else h)"

definition bucket_of :: "str \<Rightarrow> nat" where
  "bucket_of skey = unat (hash_table_hash_str skey mod of_nat HASH_TABLE_MAX_SIZE)"

text \<open>The walk along a chain with strcmp.\<close>

fun chain_find :: "str \<Rightarrow> hash_node list \<Rightarrow> hash_node option" where
  "chain_find skey [] = None"
| "chain_find skey (n # ns) = (if sKey n = skey then Some n else chain_find skey ns)"

definition hash_table_insert :: "str \<Rightarrow> int \<Rightarrow> hash_table \<Rightarrow> hash_table" where
  "hash_table_insert skey nvalue s =
     (if hash_table_size s \<ge> int HASH_TABLE_MAX_SIZE then s
      else let pos = bucket_of skey; chain = hashTable s ! pos in
        if chain_find skey chain \<noteq> None then s
        else s\<lparr>hashTable := (hashTable s)[pos := \<lparr>sKey = skey, nValue = nvalue\<rparr> # chain],
               hash_table_size := hash_table_size s + 1\<rparr>)"

text \<open>\<open>chain_remove_after\<close> is the loop once \<open>pLast\<close> is set.\<close>

fun chain_remove_after :: "str \<Rightarrow> hash_node list \<Rightarrow> hash_node list" where
  "chain_remove_after skey [] = []"
| "chain_remove_after skey (n # ns) = (if skey = sKey n then ns else n # chain_remove_after skey ns)"

fun chain_remove :: "str \<Rightarrow> hash_node list \<Rightarrow> hash_node list" where
  "chain_remove skey [] = []"
| "chain_remove skey (n # ns) = (if skey = sKey n then [] else n # chain_remove_after skey ns)"

definition hash_table_remove :: "str \<Rightarrow> hash_table \<Rightarrow> hash_table" where
  "hash_table_remove skey s =
     (let pos = bucket_of skey in s\<lparr>hashTable := (hashTable s)[pos := chain_remove skey (hashTable s ! pos)]\<rparr>)"

definition hash_table_lookup :: "str \<Rightarrow> hash_table \<Rightarrow> hash_node option" where
  "hash_table_lookup skey s = chain_find skey (hashTable s ! bucket_of skey)"

text \<open>The nodes that \<open>hash_table_release\<close> frees, in order.\<close>

definition hash_table_release :: "hash_table \<Rightarrow> hash_node list" where
  "hash_table_release s = concat (map (\<lambda>i. hashTable s ! i) [0..<HASH_TABLE_MAX_SIZE])"

section \<open>The map\<close>

definition ht_map :: "hash_table \<Rightarrow> (str \<rightharpoonup> int)" where
  "ht_map s = (\<lambda>k. map_option nValue (hash_table_lookup k s))"

definition ht_valid :: "hash_table \<Rightarrow> bool" where
  "ht_valid s \<longleftrightarrow> length (hashTable s) = HASH_TABLE_MAX_SIZE
     \<and> (\<forall>i < HASH_TABLE_MAX_SIZE. distinct (map sKey (hashTable s ! i)) \<and> (\<forall>n \<in> set (hashTable s ! i). bucket_of (sKey n) = i))
     \<and> int (length (hash_table_release s)) \<le> hash_table_size s \<and> hash_table_size s \<le> int HASH_TABLE_MAX_SIZE"

lemma bucket_less: "bucket_of k < HASH_TABLE_MAX_SIZE"
proof -
  have u: "unat (10000 :: 32 word) = 10000" by simp
  have "unat (hash_table_hash_str k mod 10000) < unat (10000 :: 32 word)"
    unfolding unat_mod_distrib u by simp
  then show ?thesis by (simp add: bucket_of_def HASH_TABLE_MAX_SIZE_def)
qed

lemma chain_find_None: "chain_find k ns = None \<longleftrightarrow> k \<notin> sKey ` set ns"
  by (induction ns) auto

lemma chain_find_after: "distinct (map sKey ns) \<Longrightarrow> chain_find k (chain_remove_after j ns) = (if k = j then None else chain_find k ns)"
  by (induction ns) (auto simp: chain_find_None)

lemma set_remove_after: "set (chain_remove_after k ns) \<subseteq> set ns"
  by (induction ns) auto

lemma distinct_remove_after: "distinct (map sKey ns) \<Longrightarrow> distinct (map sKey (chain_remove_after k ns))"
  by (induction ns) (auto dest: set_remove_after [THEN subsetD])

lemma length_remove_after: "length (chain_remove_after k ns) \<le> length ns"
  by (induction ns) auto

lemma chain_remove_props:
  "distinct (map sKey ns) \<Longrightarrow> distinct (map sKey (chain_remove k ns))"
  "set (chain_remove k ns) \<subseteq> set ns" "length (chain_remove k ns) \<le> length ns"
  using set_remove_after [of k] distinct_remove_after [of _ k] length_remove_after [of k]
  by (cases ns; fastforce)+

lemma release_length: "length (hashTable s) = HASH_TABLE_MAX_SIZE \<Longrightarrow> length (hash_table_release s) = sum_list (map length (hashTable s))"
  unfolding hash_table_release_def using map_nth [of "hashTable s"] by (metis length_concat)

lemma sum_list_update_length:
  "i < length xs \<Longrightarrow> sum_list (map length (xs[i := ys])) + length (xs ! i) = sum_list (map length xs) + length ys"
proof (induction xs arbitrary: i)
  case (Cons x xs)
  then show ?case by (cases i) (auto simp: less_Suc_eq_0_disj)
qed simp

lemma lookup_update:
  "length (hashTable s) = HASH_TABLE_MAX_SIZE \<Longrightarrow>
   hash_table_lookup k (s\<lparr>hashTable := (hashTable s)[i := ns]\<rparr>) = (if bucket_of k = i then chain_find k ns else hash_table_lookup k s)"
  using bucket_less [of k] by (simp add: hash_table_lookup_def)

lemma ht_map_lookup: "ht_map s k = map_option nValue (chain_find k (hashTable s ! bucket_of k))"
  by (simp add: ht_map_def hash_table_lookup_def)

lemma ht_valid_update:
  assumes v: "ht_valid s" and i: "i < HASH_TABLE_MAX_SIZE" and d: "distinct (map sKey ns)"
    and b: "\<forall>n \<in> set ns. bucket_of (sKey n) = i"
    and l: "int (length ns) + hash_table_size s \<le> int (length (hashTable s ! i)) + m" "m \<le> int HASH_TABLE_MAX_SIZE"
  shows "ht_valid (s\<lparr>hashTable := (hashTable s)[i := ns], hash_table_size := m\<rparr>)"
proof -
  let ?t = "(hashTable s)[i := ns]"
  have len: "length (hashTable s) = HASH_TABLE_MAX_SIZE" using v by (simp add: ht_valid_def)
  have r: "length (hash_table_release (s\<lparr>hashTable := ?t, hash_table_size := m\<rparr>)) = sum_list (map length ?t)"
    using release_length [of "s\<lparr>hashTable := ?t, hash_table_size := m\<rparr>"] len by simp
  have "int (sum_list (map length (hashTable s))) \<le> hash_table_size s" using v release_length [OF len] by (simp add: ht_valid_def)
  then have "int (sum_list (map length ?t)) \<le> m" using sum_list_update_length [of i "hashTable s" ns] i len l(1) by simp
  moreover have "distinct (map sKey (?t ! j)) \<and> (\<forall>n \<in> set (?t ! j). bucket_of (sKey n) = j)" if "j < HASH_TABLE_MAX_SIZE" for j
    using that v d b len by (cases "j = i") (auto simp: ht_valid_def)
  ultimately show ?thesis using len l(2) r by (simp add: ht_valid_def)
qed

lemma init_valid: "ht_valid hash_table_init"
proof -
  have "hash_table_release hash_table_init = []" by (simp add: hash_table_release_def hash_table_init_def)
  then show ?thesis by (simp add: ht_valid_def hash_table_init_def)
qed

lemma insert_spec:
  assumes v: "ht_valid s"
  shows "ht_valid (hash_table_insert k x s) \<and>
    (if hash_table_size s = int HASH_TABLE_MAX_SIZE \<or> ht_map s k \<noteq> None then hash_table_insert k x s = s
     else ht_map (hash_table_insert k x s) = (ht_map s)(k \<mapsto> x) \<and> hash_table_size (hash_table_insert k x s) = hash_table_size s + 1)"
proof (cases "hash_table_size s = int HASH_TABLE_MAX_SIZE \<or> ht_map s k \<noteq> None")
  case True
  then have "hash_table_insert k x s = s" by (auto simp: hash_table_insert_def Let_def ht_map_lookup)
  then show ?thesis using True v by simp
next
  case False
  let ?i = "bucket_of k" and ?ns = "\<lparr>sKey = k, nValue = x\<rparr> # hashTable s ! bucket_of k"
  let ?s = "s\<lparr>hashTable := (hashTable s)[?i := ?ns], hash_table_size := hash_table_size s + 1\<rparr>"
  have i: "?i < HASH_TABLE_MAX_SIZE" and len: "length (hashTable s) = HASH_TABLE_MAX_SIZE"
    using bucket_less v by (auto simp: ht_valid_def)
  have fresh: "chain_find k (hashTable s ! ?i) = None" using False by (simp add: ht_map_lookup)
  have sz: "hash_table_size s < int HASH_TABLE_MAX_SIZE" using False v by (auto simp: ht_valid_def)
  have e: "hash_table_insert k x s = ?s" using sz fresh by (simp add: hash_table_insert_def Let_def)
  have "ht_valid ?s"
    using v fresh i sz by (intro ht_valid_update) (auto simp: ht_valid_def chain_find_None)
  moreover have "ht_map ?s = (ht_map s)(k \<mapsto> x)"
  proof
    fix j show "ht_map ?s j = ((ht_map s)(k \<mapsto> x)) j"
      using i len bucket_less [of j] by (cases "bucket_of j = ?i") (auto simp: ht_map_lookup)
  qed
  ultimately show ?thesis unfolding e using False by simp
qed

lemma remove_spec:
  assumes v: "ht_valid s"
  shows "ht_valid (hash_table_remove k s) \<and> hash_table_size (hash_table_remove k s) = hash_table_size s
    \<and> ht_map (hash_table_remove k s) = (\<lambda>j. if j = k then None
        else if bucket_of j = bucket_of k \<and> map_option sKey (case hashTable s ! bucket_of k of [] \<Rightarrow> None | n # ns \<Rightarrow> Some n) = Some k then None
        else ht_map s j)"
proof -
  let ?i = "bucket_of k"
  let ?c = "hashTable s ! ?i"
  let ?s = "s\<lparr>hashTable := (hashTable s)[?i := chain_remove k ?c], hash_table_size := hash_table_size s\<rparr>"
  have i: "?i < HASH_TABLE_MAX_SIZE" and len: "length (hashTable s) = HASH_TABLE_MAX_SIZE"
    and d: "distinct (map sKey ?c)" and b: "\<forall>n \<in> set ?c. bucket_of (sKey n) = ?i"
    using bucket_less v by (auto simp: ht_valid_def)
  note c = chain_remove_props(1) [OF d, of k] chain_remove_props(2,3) [of k ?c]
  have e: "hash_table_remove k s = ?s" by (simp add: hash_table_remove_def Let_def)
  have "ht_valid ?s"
    using v b c i by (intro ht_valid_update) (auto simp: ht_valid_def)
  moreover have "chain_find j (chain_remove k ?c) = (if j = k \<or> map_option sKey (case ?c of [] \<Rightarrow> None | n # ns \<Rightarrow> Some n) = Some k then None else chain_find j ?c)" for j
    using d by (cases ?c) (auto simp: chain_find_after)
  then have "ht_map ?s j = (if j = k then None
        else if bucket_of j = ?i \<and> map_option sKey (case ?c of [] \<Rightarrow> None | n # ns \<Rightarrow> Some n) = Some k then None
        else ht_map s j)" for j
    using i len by (cases "bucket_of j = ?i") (auto simp: ht_map_lookup)
  ultimately show ?thesis unfolding e by auto
qed

text \<open>
  C33: the string table against a map.  From the empty table on, insertion adds a missing key as long as the
  counter is below the limit, and changes nothing otherwise; looking up answers the map; removal deletes the
  key, but when the key is the first of its chain it deletes every key of the bucket with it, and it never lowers the counter,
  so that the table fills up for good.  ``Aa'' and ``BB'' share a bucket: removing the second loses the first.
\<close>

theorem hash_table_operations:
  assumes v: "ht_valid s"
  shows "ht_valid hash_table_init \<and> ht_map hash_table_init = Map.empty
    \<and> map_option nValue (hash_table_lookup k s) = ht_map s k
    \<and> ht_valid (hash_table_insert k x s)
    \<and> (if hash_table_size s = int HASH_TABLE_MAX_SIZE \<or> ht_map s k \<noteq> None then hash_table_insert k x s = s
       else ht_map (hash_table_insert k x s) = (ht_map s)(k \<mapsto> x) \<and> hash_table_size (hash_table_insert k x s) = hash_table_size s + 1)
    \<and> ht_valid (hash_table_remove k s) \<and> hash_table_size (hash_table_remove k s) = hash_table_size s
    \<and> ht_map (hash_table_remove k s) = (\<lambda>j. if j = k then None
        else if bucket_of j = bucket_of k \<and> map_option sKey (case hashTable s ! bucket_of k of [] \<Rightarrow> None | n # ns \<Rightarrow> Some n) = Some k then None
        else ht_map s j)"
proof -
  have "ht_map hash_table_init = Map.empty"
    using bucket_less by (auto simp: ht_map_lookup hash_table_init_def)
  moreover have "map_option nValue (hash_table_lookup k s) = ht_map s k" by (simp add: ht_map_def)
  ultimately show ?thesis using init_valid insert_spec [OF v, of k x] remove_spec [OF v, of k] by blast
qed

lemma bucket_AaBB: "bucket_of [65, 97] = 2112" "bucket_of [66, 66] = 2112"
  by (simp_all add: bucket_of_def HASH_TABLE_MAX_SIZE_def)

theorem hash_table_operations_witness:
  "ht_map (hash_table_remove [66, 66] (hash_table_insert [66, 66] 2 (hash_table_insert [65, 97] 1 hash_table_init))) [65, 97] = None
   \<and> ht_map (hash_table_insert [66, 66] 2 (hash_table_insert [65, 97] 1 hash_table_init)) [65, 97] = Some 1"
proof -
  let ?a = "hash_table_insert [65, 97] 1 hash_table_init"
  let ?b = "hash_table_insert [66, 66] 2 ?a"
  have z: "hash_table_size hash_table_init = 0" "int HASH_TABLE_MAX_SIZE = 10000"
    by (simp_all add: hash_table_init_def HASH_TABLE_MAX_SIZE_def)
  note i = hash_table_operations [OF init_valid, of "[65, 97]" 1]
  then have a: "ht_valid ?a" "ht_map ?a = [[65, 97] \<mapsto> 1]" "hash_table_size ?a = 1"
    using z by (auto split: if_splits)
  have b: "ht_valid ?b" "ht_map ?b = [[65, 97] \<mapsto> 1, [66, 66] \<mapsto> 2]"
    using hash_table_operations [OF a(1), of "[66, 66]" 2] a(2,3) z by (auto split: if_splits)
  have "hashTable ?b ! 2112 = \<lparr>sKey = [66, 66], nValue = 2\<rparr> # hashTable ?a ! 2112"
    using a(2,3) ht_map_lookup [of ?a "[66, 66]"]
    by (simp add: hash_table_insert_def [of "[66, 66]"] bucket_AaBB Let_def HASH_TABLE_MAX_SIZE_def)
      (simp add: hash_table_insert_def hash_table_init_def HASH_TABLE_MAX_SIZE_def Let_def)
  then show ?thesis using hash_table_operations [OF b(1), of "[66, 66]" 0] b(2) by (simp add: bucket_AaBB)
qed

end
