(* ===== verification/Linear_Probing.thy ===== *)
theory Linear_Probing
  imports Prelude
begin

text \<open>
  The open addressing table of example_hashtable.cpp.  \<open>table_len\<close> is the global \<open>m\<close> with the length of the table.
  The loops may run forever: the outer \<open>None\<close> is a call that does not return, the inner one a read or write outside
  the array.
\<close>

definition HASHSIZE :: int where "HASHSIZE = 7"

definition NULLKEY :: int where "NULLKEY = - 32768"

record HashTable =
  elem :: "int list"
  count :: int
  table_len :: int

definition Init :: HashTable where
  "Init = \<lparr>elem = replicate (nat HASHSIZE) NULLKEY, count = HASHSIZE, table_len = HASHSIZE\<rparr>"

definition Hash :: "HashTable \<Rightarrow> int \<Rightarrow> int option" where
  "Hash t data = (if table_len t = 0 then None else Some (cmod data (table_len t)))"

partial_function (option) insert_probe :: "int list \<Rightarrow> int \<Rightarrow> int \<Rightarrow> int option option" where
  "insert_probe es m h =
     (case rdi es h of
        None \<Rightarrow> Some None
      | Some v \<Rightarrow> if v \<noteq> NULLKEY then insert_probe es m (cmod (h + 1) m) else Some (Some h))"

definition Insert :: "HashTable \<Rightarrow> int \<Rightarrow> HashTable option option" where
  "Insert t data =
     (case Hash t data of
        None \<Rightarrow> Some None
      | Some h \<Rightarrow> do { r \<leftarrow> insert_probe (elem t) (table_len t) h;
                     Some (do { a \<leftarrow> r; es \<leftarrow> wri (elem t) a data; Some (t\<lparr>elem := es\<rparr>) }) })"

partial_function (option) search_probe :: "int list \<Rightarrow> int \<Rightarrow> int \<Rightarrow> int \<Rightarrow> int option option" where
  "search_probe es m data h =
     (case rdi es h of
        None \<Rightarrow> Some None
      | Some v \<Rightarrow>
          if v \<noteq> data then
            (let h = cmod (h + 1) m in
             case rdi es h of
               None \<Rightarrow> Some None
             | Some v \<Rightarrow> if v = NULLKEY \<or> h = cmod data m then Some (Some (- 1)) else search_probe es m data h)
          else Some (Some h))"

definition Search :: "HashTable \<Rightarrow> int \<Rightarrow> int option option" where
  "Search t data =
     (case Hash t data of None \<Rightarrow> Some None | Some h \<Rightarrow> search_probe (elem t) (table_len t) data h)"

fun insert_all :: "int list \<Rightarrow> HashTable \<Rightarrow> HashTable option option" where
  "insert_all [] t = Some (Some t)"
| "insert_all (x # xs) t = do { r \<leftarrow> Insert t x; (case r of None \<Rightarrow> Some None | Some t \<Rightarrow> insert_all xs t) }"

section \<open>Probing\<close>

text \<open>The cell \<open>i\<close> steps after \<open>h\<close>.\<close>

definition cell :: "int list \<Rightarrow> nat \<Rightarrow> nat \<Rightarrow> int" where
  "cell es h i = es ! ((h + i) mod length es)"

lemma next_address: "0 < M \<Longrightarrow> h < M \<Longrightarrow> cmod (int ((h + i) mod M) + 1) (int M) = int ((h + Suc i) mod M)"
proof -
  assume "0 < M" "h < M"
  then have "cmod (int ((h + i) mod M) + 1) (int M) = (int ((h + i) mod M) + 1) mod int M" by simp
  also have "\<dots> = int (((h + i) mod M + 1) mod M)" unfolding of_nat_mod of_nat_add of_nat_1 ..
  also have "((h + i) mod M + 1) mod M = (h + Suc i) mod M" by (simp add: mod_Suc_eq)
  finally show ?thesis .
qed

lemma rdi_cell: "0 < length es \<Longrightarrow> rdi es (int ((h + i) mod length es)) = Some (cell es h i)"
  by (simp add: rdi_def rd_def cell_def)

lemma cell_reach:
  assumes "h < length es" "j < length es"
  obtains d where "d < length es" "(h + d) mod length es = j"
proof -
  let ?M = "length es" and ?d = "(j + length es - h) mod length es"
  have "(h + ?d) mod ?M = (h + (j + ?M - h)) mod ?M" by (simp add: mod_add_right_eq)
  also have "h + (j + ?M - h) = j + ?M" using assms by simp
  also have "(j + ?M) mod ?M = j" using assms by simp
  finally have "(h + ?d) mod ?M = j" .
  moreover have "?d < ?M" using assms by (intro mod_less_divisor) linarith
  ultimately show ?thesis using that by blast
qed

lemma offset_unique: "d < M \<Longrightarrow> e < M \<Longrightarrow> (h + d) mod M = (h + e) mod M \<Longrightarrow> d = (e :: nat)"
proof (induction d e rule: linorder_wlog)
  case (le d e)
  have "h + d \<le> h + e" using le by simp
  then have "M dvd (h + e) - (h + d)" using le(4) [symmetric] by (simp only: mod_eq_dvd_iff_nat)
  then have "M dvd e - d" by simp
  then show ?case using le(1,3) by (metis diff_is_0_eq dvd_imp_le le_antisym less_imp_diff_less not_le zero_less_diff)
qed simp

lemma cell_update:
  assumes "0 < length es" "d < length es" "i < length es"
  shows "cell (es[(h + d) mod length es := x]) h i = (if i = d then x else cell es h i)"
  using assms offset_unique [of d "length es" i h] by (auto simp: cell_def nth_list_update)

definition probe_free :: "int list \<Rightarrow> nat \<Rightarrow> nat \<Rightarrow> bool" where
  "probe_free es h d \<longleftrightarrow> d < length es \<and> cell es h d = NULLKEY \<and> (\<forall>i < d. cell es h i \<noteq> NULLKEY)"

lemma insert_eq:
  assumes h: "h < length es"
  shows "insert_probe es (int (length es)) (int ((h + i) mod length es)) =
    (if cell es h i \<noteq> NULLKEY then insert_probe es (int (length es)) (int ((h + Suc i) mod length es))
     else Some (Some (int ((h + i) mod length es))))"
proof -
  have M: "0 < length es" using h by linarith
  show ?thesis by (subst insert_probe.simps) (simp only: rdi_cell [OF M] next_address [OF M h] option.case)
qed

lemma insert_probe_found:
  assumes "h < length es" "probe_free es h d"
  shows "i \<le> d \<Longrightarrow> insert_probe es (int (length es)) (int ((h + i) mod length es)) = Some (Some (int ((h + d) mod length es)))"
proof (induction "d - i" arbitrary: i)
  case 0
  then have "i = d" by simp
  then show ?case using assms(2) by (subst insert_eq [OF assms(1)]) (simp add: probe_free_def)
next
  case (Suc k)
  then have i: "i < d" "k = d - Suc i" "Suc i \<le> d" by simp_all
  then show ?case using assms(2) Suc.hyps(1) [OF i(2,3)] by (subst insert_eq [OF assms(1)]) (simp add: probe_free_def)
qed

text \<open>In a full table the insertion never returns.\<close>

lemma insert_probe_full:
  assumes h: "h < length es" and full: "\<forall>i. cell es h i \<noteq> NULLKEY"
  shows "insert_probe es (int (length es)) (int ((h + i) mod length es)) = None"
proof -
  have M: "0 < length es" using h by linarith
  let ?P = "\<lambda>xs m a (y :: int option). xs = es \<longrightarrow> m = int (length es) \<longrightarrow> (\<forall>j. a \<noteq> int ((h + j) mod length es))"
  have step: "?P xs m a y"
    if IH: "\<And>xs m a y. probe xs m a = Some y \<Longrightarrow> ?P xs m a y"
      and b: "(case rdi xs a of None \<Rightarrow> Some None | Some v \<Rightarrow> if v \<noteq> NULLKEY then probe xs m (cmod (a + 1) m) else Some (Some a)) = Some y"
    for probe xs m a y
  proof (intro allI impI notI)
    fix j assume a: "xs = es" "m = int (length es)" "a = int ((h + j) mod length es)"
    have "probe es (int (length es)) (int ((h + Suc j) mod length es)) = Some y"
      using b full unfolding a by (simp only: rdi_cell [OF M] next_address [OF M h] option.case if_True simp_thms)
    then show False using IH by blast
  qed
  show ?thesis
  proof (rule ccontr)
    assume "insert_probe es (int (length es)) (int ((h + i) mod length es)) \<noteq> None"
    then obtain y where "insert_probe es (int (length es)) (int ((h + i) mod length es)) = Some y" by auto
    then have "?P es (int (length es)) (int ((h + i) mod length es)) y"
    proof (rule insert_probe.raw_induct [where P = ?P, rotated])
      fix probe xs m a y
      assume IH: "\<And>xs m a y. probe xs m a = Some y \<Longrightarrow> ?P xs m a y"
        and "(case rdi xs a of None \<Rightarrow> Some None | Some v \<Rightarrow> if v \<noteq> NULLKEY then probe xs m (cmod (a + 1) m) else Some (Some a)) = Some y"
      then show "?P xs m a y" by (rule step)
    qed
    then show False by blast
  qed
qed

section \<open>Searching\<close>

lemma search_start: "i < length es \<Longrightarrow> h < length es \<Longrightarrow> (h + Suc i) mod length es = h \<longleftrightarrow> Suc i = length es"
proof
  assume i: "i < length es" "h < length es" and e: "(h + Suc i) mod length es = h"
  show "Suc i = length es"
  proof (rule ccontr)
    assume "Suc i \<noteq> length es"
    then have "Suc i < length es" using i by simp
    moreover have "(h + Suc i) mod length es = (h + 0) mod length es" using e i(2) by simp
    moreover have "0 < length es" using i(2) by linarith
    ultimately show False using offset_unique [of "Suc i" "length es" 0 h] by simp
  qed
qed simp

lemma search_step:
  assumes h: "h < length es" and k: "0 \<le> k" "nat k mod length es = h" and i: "i < length es" and ne: "cell es h i \<noteq> k"
  shows "search_probe es (int (length es)) k (int ((h + i) mod length es)) =
    (if cell es h (Suc i) = NULLKEY \<or> Suc i = length es then Some (Some (- 1))
     else search_probe es (int (length es)) k (int ((h + Suc i) mod length es)))"
proof -
  have M: "0 < length es" using h by linarith
  have hk: "cmod k (int (length es)) = int h" using k M by (simp flip: k(2) add: zmod_int)
  have e: "int ((h + Suc i) mod length es) = int h \<longleftrightarrow> Suc i = length es"
    using search_start [OF i h] by (simp only: of_nat_eq_iff)
  show ?thesis
    by (subst search_probe.simps)
      (simp only: rdi_cell [OF M] next_address [OF M h] option.case Let_def hk e ne if_True simp_thms)
qed

lemma search_hit: "0 < length es \<Longrightarrow> cell es h i = k \<Longrightarrow>
    search_probe es (int (length es)) k (int ((h + i) mod length es)) = Some (Some (int ((h + i) mod length es)))"
  by (subst search_probe.simps) (simp only: rdi_cell option.case simp_thms if_False)

lemma search_found:
  assumes h: "h < length es" and k: "0 \<le> k" "nat k mod length es = h"
    and d: "d < length es" "cell es h d = k" "\<forall>e < d. cell es h e \<noteq> k \<and> cell es h e \<noteq> NULLKEY" and kn: "k \<noteq> NULLKEY"
  shows "i \<le> d \<Longrightarrow> search_probe es (int (length es)) k (int ((h + i) mod length es)) = Some (Some (int ((h + d) mod length es)))"
proof (induction "d - i" arbitrary: i)
  case 0
  then have "i = d" by simp
  moreover have "0 < length es" using h by linarith
  ultimately show ?case using search_hit [of es h d k] d(2) by simp
next
  case (Suc n)
  then have i: "i < d" "n = d - Suc i" "Suc i \<le> d" by simp_all
  have "cell es h (Suc i) \<noteq> NULLKEY" using d(2,3) i kn by (cases "Suc i = d") auto
  moreover have "cell es h i \<noteq> k" "i < length es" "Suc i \<noteq> length es" using d i by auto
  ultimately show ?case using search_step [OF h k, of i] Suc.hyps(1) [OF i(2,3)] by simp
qed

lemma search_absent:
  assumes h: "h < length es" and k: "0 \<le> k" "nat k mod length es = h" and ne: "\<forall>e. cell es h e \<noteq> k"
  shows "i < length es \<Longrightarrow> search_probe es (int (length es)) k (int ((h + i) mod length es)) = Some (Some (- 1))"
proof (induction "length es - i" arbitrary: i)
  case (Suc n)
  show ?case
  proof (cases "Suc i = length es")
    case True
    then show ?thesis using search_step [OF h k Suc.prems] ne by simp
  next
    case False
    then have i: "Suc i < length es" "n = length es - Suc i" using Suc by simp_all
    then show ?thesis using search_step [OF h k Suc.prems] ne Suc.hyps(1) [OF i(2,1)] by simp
  qed
qed simp

section \<open>The table\<close>

text \<open>Between the address of a key and the cell that holds it no cell is free.\<close>

definition lp_valid :: "HashTable \<Rightarrow> bool" where
  "lp_valid t \<longleftrightarrow> length (elem t) = 7 \<and> table_len t = 7
     \<and> (\<forall>j < 7. elem t ! j \<noteq> NULLKEY \<longrightarrow> 0 \<le> elem t ! j
          \<and> (\<forall>d < 7. (nat (elem t ! j) mod 7 + d) mod 7 = j \<longrightarrow> (\<forall>i < d. cell (elem t) (nat (elem t ! j) mod 7) i \<noteq> NULLKEY)))"

definition stored :: "HashTable \<Rightarrow> int multiset" where
  "stored t = mset (filter (\<lambda>v. v \<noteq> NULLKEY) (elem t))"

lemma mset_filter_update:
  "j < length es \<Longrightarrow> es ! j = n \<Longrightarrow> x \<noteq> n \<Longrightarrow> mset (filter (\<lambda>v. v \<noteq> n) (es[j := x])) = add_mset x (mset (filter (\<lambda>v. v \<noteq> n) es))"
proof (induction es arbitrary: j)
  case (Cons e es)
  then show ?case by (cases j) auto
qed simp

lemma size_stored: "size (stored t) = length (filter (\<lambda>v. v \<noteq> NULLKEY) (elem t))"
  by (simp only: stored_def size_mset)

lemma stored_full: "size (stored t) = length (elem t) \<Longrightarrow> j < length (elem t) \<Longrightarrow> elem t ! j \<noteq> NULLKEY"
  using length_filter_less [of "elem t ! j" "elem t" "\<lambda>v. v \<noteq> NULLKEY"] by (auto simp: size_stored)

lemma stored_free: "size (stored t) < length (elem t) \<Longrightarrow> \<exists>j < length (elem t). elem t ! j = NULLKEY"
proof (rule ccontr)
  assume l: "size (stored t) < length (elem t)" and "\<not> (\<exists>j < length (elem t). elem t ! j = NULLKEY)"
  then have "\<forall>v \<in> set (elem t). v \<noteq> NULLKEY" by (metis in_set_conv_nth)
  then have "filter (\<lambda>v. v \<noteq> NULLKEY) (elem t) = elem t" by (simp add: filter_id_conv)
  then show False using l by (simp add: size_stored)
qed

lemma Hash_nonneg: "table_len t = 7 \<Longrightarrow> 0 \<le> k \<Longrightarrow> Hash t k = Some (int (nat k mod 7))"
  by (simp add: Hash_def zmod_int)

lemma Insert_room:
  assumes v: "lp_valid t" and k: "0 \<le> k" and room: "size (stored t) < 7"
  shows "\<exists>t'. Insert t k = Some (Some t') \<and> lp_valid t' \<and> stored t' = add_mset k (stored t)"
proof -
  let ?es = "elem t" and ?h = "nat k mod 7"
  have len: "length ?es = 7" "table_len t = 7" using v by (simp_all add: lp_valid_def)
  have h: "?h < length ?es" using len by simp
  obtain j where j: "j < length ?es" "?es ! j = NULLKEY" using stored_free [of t] room len by auto
  obtain d0 where "d0 < length ?es" "(?h + d0) mod length ?es = j" using cell_reach [OF h j(1)] .
  then have d0: "d0 < 7 \<and> cell ?es ?h d0 = NULLKEY" using j(2) len by (simp add: cell_def)
  define d where "d = (LEAST d. d < 7 \<and> cell ?es ?h d = NULLKEY)"
  have d: "d < 7" "cell ?es ?h d = NULLKEY" using LeastI [of "\<lambda>d. d < 7 \<and> cell ?es ?h d = NULLKEY", OF d0] by (simp_all add: d_def)
  have least: "cell ?es ?h i \<noteq> NULLKEY" if "i < d" for i
    using not_less_Least [of i "\<lambda>d. d < 7 \<and> cell ?es ?h d = NULLKEY"] that d(1) by (auto simp: d_def)
  have "probe_free ?es ?h d" using d least len by (simp add: probe_free_def)
  from insert_probe_found [OF h this, of 0]
  have pr: "insert_probe ?es 7 (int ?h) = Some (Some (int ((?h + d) mod 7)))" using len by simp
  let ?a = "(?h + d) mod 7" and ?es' = "?es[(?h + d) mod 7 := k]"
  have a: "?a < length ?es" "?es ! ?a = NULLKEY" using d(2) len by (simp_all add: cell_def)
  have kn: "k \<noteq> NULLKEY" using k by (auto simp: NULLKEY_def)
  have "Insert t k = Some (Some (t\<lparr>elem := ?es'\<rparr>))"
    using Hash_nonneg [OF len(2) k] pr a(1) len(2) by (simp add: Insert_def wri_def)
  moreover have "lp_valid (t\<lparr>elem := ?es'\<rparr>)"
  proof -
    have mono: "cell ?es' x i \<noteq> NULLKEY" if "cell ?es x i \<noteq> NULLKEY" for x i
      using that a kn by (auto simp: cell_def nth_list_update)
    have "0 \<le> ?es' ! j \<and> (\<forall>e < 7. (nat (?es' ! j) mod 7 + e) mod 7 = j \<longrightarrow> (\<forall>i < e. cell ?es' (nat (?es' ! j) mod 7) i \<noteq> NULLKEY))"
      if j: "j < 7" "?es' ! j \<noteq> NULLKEY" for j
    proof (cases "j = ?a")
      case True
      have "e = d" if "e < 7" "(?h + e) mod 7 = ?a" for e using offset_unique [OF that(1) d(1) that(2)] .
      moreover have "?es' ! j = k" using True a(1) by simp
      moreover have "\<forall>i < d. cell ?es' ?h i \<noteq> NULLKEY" using least mono by blast
      ultimately show ?thesis using True k by (metis)
    next
      case False
      then have e: "?es' ! j = ?es ! j" by simp
      then have "?es ! j \<noteq> NULLKEY" using j(2) by simp
      then have "0 \<le> ?es ! j \<and> (\<forall>e < 7. (nat (?es ! j) mod 7 + e) mod 7 = j \<longrightarrow> (\<forall>i < e. cell ?es (nat (?es ! j) mod 7) i \<noteq> NULLKEY))"
        using v j(1) unfolding lp_valid_def by blast
      then show ?thesis unfolding e using mono by blast
    qed
    moreover have t: "elem (t\<lparr>elem := ?es'\<rparr>) = ?es'" "table_len (t\<lparr>elem := ?es'\<rparr>) = 7" "length ?es' = 7" using len by simp_all
    ultimately show ?thesis unfolding lp_valid_def t by blast
  qed
  moreover have "stored (t\<lparr>elem := ?es'\<rparr>) = add_mset k (stored t)"
    using mset_filter_update [OF a kn] by (simp add: stored_def)
  ultimately show ?thesis by blast
qed

lemma Insert_full:
  assumes v: "lp_valid t" and k: "0 \<le> k" and full: "size (stored t) = 7"
  shows "Insert t k = None"
proof -
  have len: "length (elem t) = 7" "table_len t = 7" using v by (simp_all add: lp_valid_def)
  have "\<forall>i. cell (elem t) (nat k mod 7) i \<noteq> NULLKEY" using stored_full [of t] full len by (simp add: cell_def)
  from insert_probe_full [OF _ this, of 0] show ?thesis using Hash_nonneg [OF len(2) k] len by (simp add: Insert_def)
qed

lemma Search_spec:
  assumes v: "lp_valid t" and k: "0 \<le> k"
  shows "\<exists>i. Search t k = Some (Some i) \<and> (if k \<in># stored t then 0 \<le> i \<and> i < 7 \<and> elem t ! nat i = k else i = - 1)"
proof -
  let ?es = "elem t" and ?h = "nat k mod 7"
  have len: "length ?es = 7" "table_len t = 7" using v by (simp_all add: lp_valid_def)
  have h: "?h < length ?es" "nat k mod length ?es = ?h" using len by simp_all
  have kn: "k \<noteq> NULLKEY" using k by (auto simp: NULLKEY_def)
  have S: "Search t k = search_probe ?es (int (length ?es)) k (int ((?h + 0) mod length ?es))"
    using Hash_nonneg [OF len(2) k] len by (simp add: Search_def)
  show ?thesis
  proof (cases "k \<in># stored t")
    case True
    then obtain j where j: "j < 7" "?es ! j = k" using len by (auto simp: stored_def in_set_conv_nth)
    obtain d0 where d0: "d0 < length ?es" "(?h + d0) mod length ?es = j" using cell_reach [OF h(1)] j(1) len by metis
    define d where "d = (LEAST d. cell ?es ?h d = k)"
    have c0: "cell ?es ?h d0 = k" using d0 j by (simp add: cell_def)
    have d: "cell ?es ?h d = k" "d \<le> d0" using LeastI [of "\<lambda>d. cell ?es ?h d = k", OF c0] Least_le [of "\<lambda>d. cell ?es ?h d = k", OF c0]
      by (simp_all add: d_def)
    have least: "cell ?es ?h e \<noteq> k" if "e < d" for e using not_less_Least that by (auto simp: d_def)
    have "\<forall>i < d0. cell ?es ?h i \<noteq> NULLKEY" using v j d0 len kn by (auto simp: lp_valid_def)
    then have "\<forall>e < d. cell ?es ?h e \<noteq> k \<and> cell ?es ?h e \<noteq> NULLKEY" using least d(2) by simp
    from search_found [OF h(1) k h(2) _ d(1) this kn, of 0] d d0(1)
    have "Search t k = Some (Some (int ((?h + d) mod length ?es)))" unfolding S by simp
    moreover have "?es ! ((?h + d) mod length ?es) = k" using d(1) by (simp add: cell_def)
    ultimately show ?thesis using True len by auto
  next
    case False
    have "cell ?es ?h e \<noteq> k" for e
    proof
      assume "cell ?es ?h e = k"
      then have "k \<in> set ?es" using len by (auto simp: cell_def in_set_conv_nth intro!: exI [of _ "(?h + e) mod 7"])
      then show False using False kn by (simp add: stored_def)
    qed
    then show ?thesis using search_absent [OF h(1) k h(2), of 0] S False len by simp
  qed
qed

lemma insert_all_spec:
  "lp_valid t \<Longrightarrow> \<forall>x \<in> set xs. 0 \<le> x \<Longrightarrow> size (stored t) + length xs \<le> 7 \<Longrightarrow>
   \<exists>t'. insert_all xs t = Some (Some t') \<and> lp_valid t' \<and> stored t' = stored t + mset xs"
proof (induction xs arbitrary: t)
  case (Cons x xs)
  from Insert_room [OF Cons.prems(1), of x] Cons.prems(2,3)
  obtain t1 where t1: "Insert t x = Some (Some t1)" "lp_valid t1" "stored t1 = add_mset x (stored t)" by auto
  from Cons.IH [OF t1(2)] t1(3) Cons.prems(2,3)
  obtain t' where "insert_all xs t1 = Some (Some t')" "lp_valid t'" "stored t' = stored t1 + mset xs" by auto
  then show ?case using t1 by auto
qed auto



declare insert_probe.simps [code] and search_probe.simps [code]

end
