(* ===== verification/Huffman_Tree.thy ===== *)
theory Huffman_Tree
  imports Prelude "HOL-Library.Sublist"
begin

text \<open>
  The Huffman coder of example_huffman.cpp.  The forest is the array \<open>b\<close> of trees that no other pointer reaches;
  a read through the null pointer, an index outside an array, a variable that was never assigned and a signed
  overflow are \<open>None\<close>.  The code of a leaf is the list of the bits that the program prints for it.
\<close>

section \<open>The code\<close>

datatype btree = Null | BTreeNode (bt_data: int) btree btree

fun data_of :: "btree \<Rightarrow> int option" where
  "data_of Null = None"
| "data_of (BTreeNode w l r) = Some w"

text \<open>The first scan: \<open>k1\<close> is the first tree of the forest, \<open>k2\<close> the second, if there are two.\<close>

fun first_two :: "btree list \<Rightarrow> int \<Rightarrow> int \<Rightarrow> int \<times> int option" where
  "first_two [] j k1 = (k1, None)"
| "first_two (t # ts) j k1 =
     (if t \<noteq> Null \<and> k1 = - 1 then first_two ts (j + 1) j
      else if t \<noteq> Null then (k1, Some j)
      else first_two ts (j + 1) k1)"

text \<open>The second scan, over the indices from \<open>k2\<close> on.\<close>

fun least_two :: "btree list \<Rightarrow> int list \<Rightarrow> int \<Rightarrow> int \<Rightarrow> (int \<times> int) option" where
  "least_two b [] k1 k2 = Some (k1, k2)"
| "least_two b (j # js) k1 k2 = do {
     t \<leftarrow> rdi b j;
     if t \<noteq> Null then do {
       d \<leftarrow> data_of t; t1 \<leftarrow> rdi b k1; d1 \<leftarrow> data_of t1;
       if d < d1 then least_two b js j k1
       else do { t2 \<leftarrow> rdi b k2; d2 \<leftarrow> data_of t2; if d < d2 then least_two b js k1 j else least_two b js k1 k2 } }
     else least_two b js k1 k2 }"

text \<open>One round of the outer loop: the new tree and the new forest.\<close>

definition huffman_round :: "btree list \<Rightarrow> (btree \<times> btree list) option" where
  "huffman_round b =
     (case first_two b 0 (- 1) of
        (k1, None) \<Rightarrow> None
      | (k1, Some k2) \<Rightarrow> do {
          (k1, k2) \<leftarrow> least_two b [k2..int (length b) - 1] k1 k2;
          t1 \<leftarrow> rdi b k1; d1 \<leftarrow> data_of t1;
          t2 \<leftarrow> rdi b k2; d2 \<leftarrow> data_of t2;
          w \<leftarrow> i32 (d1 + d2);
          let q = BTreeNode w t1 t2;
          b \<leftarrow> wri b k1 q;
          b \<leftarrow> wri b k2 Null;
          Some (q, b) })"

text \<open>The outer loop with its remaining rounds; \<open>q\<close> is unassigned before the first.\<close>

fun huffman_loop :: "nat \<Rightarrow> btree list \<Rightarrow> btree option \<Rightarrow> btree option" where
  "huffman_loop 0 b q = q"
| "huffman_loop (Suc i) b q = do { (q, b) \<leftarrow> huffman_round b; huffman_loop i b (Some q) }"

definition CreateHuffman :: "int list \<Rightarrow> nat \<Rightarrow> btree option" where
  "CreateHuffman a n =
     (if n \<le> length a then huffman_loop (n - 1) (map (\<lambda>w. BTreeNode w Null Null) (take n a)) None else None)"

fun WeightPathLength :: "btree \<Rightarrow> int \<Rightarrow> int option" where
  "WeightPathLength Null len = Some 0"
| "WeightPathLength (BTreeNode w l r) len =
     (if l = Null \<and> r = Null then i32 (w * len)
      else do { k \<leftarrow> i32 (len + 1); x \<leftarrow> WeightPathLength l k; y \<leftarrow> WeightPathLength r k; i32 (x + y) })"

text \<open>\<open>HuffManCoding\<close> with its static array \<open>a\<close>; the output is the list of printed leaves with their codes.\<close>

fun HuffManCoding :: "btree \<Rightarrow> nat \<Rightarrow> int list \<Rightarrow> (int list \<times> (int \<times> int list) list) option" where
  "HuffManCoding Null len a = Some (a, [])"
| "HuffManCoding (BTreeNode w l r) len a =
     (if l = Null \<and> r = Null then (if len \<le> length a then Some (a, [(w, take len a)]) else None)
      else do {
        a \<leftarrow> wr a len 0;
        (a, out1) \<leftarrow> HuffManCoding l (len + 1) a;
        a \<leftarrow> wr a len 1;
        (a, out2) \<leftarrow> HuffManCoding r (len + 1) a;
        Some (a, out1 @ out2) })"

definition coding_array :: "int list" where
  "coding_array = replicate 10 0"

section \<open>Full trees and their profiles\<close>

inductive full :: "btree \<Rightarrow> bool" where
  full_leaf: "full (BTreeNode w Null Null)"
| full_fork: "full l \<Longrightarrow> full r \<Longrightarrow> full (BTreeNode w l r)"

inductive_cases full_nodeE: "full (BTreeNode w l r)"

lemma not_full_Null [simp]: "\<not> full Null"
  by (auto elim: full.cases)

text \<open>The weights of the leaves with their depths.\<close>

fun profile :: "btree \<Rightarrow> (int \<times> nat) multiset" where
  "profile Null = {#}"
| "profile (BTreeNode w l r) =
     (if l = Null \<and> r = Null then {#(w, 0)#} else image_mset (map_prod id Suc) (profile l + profile r))"

definition leaf_weights :: "btree \<Rightarrow> int multiset" where
  "leaf_weights t = image_mset fst (profile t)"

definition depths :: "btree \<Rightarrow> nat multiset" where
  "depths t = image_mset snd (profile t)"

definition pcost :: "(int \<times> nat) multiset \<Rightarrow> int" where
  "pcost P = (\<Sum>(w, d) \<in># P. w * int d)"

fun tree_height :: "btree \<Rightarrow> nat" where
  "tree_height Null = 0"
| "tree_height (BTreeNode w l r) = (if l = Null \<and> r = Null then 0 else Suc (max (tree_height l) (tree_height r)))"

lemma full_not_Null: "full t \<Longrightarrow> t \<noteq> Null" by auto

lemma profile_fork: "full l \<Longrightarrow> profile (BTreeNode w l r) = image_mset (map_prod id Suc) (profile l + profile r)"
  by (auto simp: full_not_Null)

lemma leaf_weights_fork: "full l \<Longrightarrow> leaf_weights (BTreeNode w l r) = leaf_weights l + leaf_weights r"
  by (simp add: leaf_weights_def profile_fork multiset.map_comp comp_def del: profile.simps)

lemma depths_fork: "full l \<Longrightarrow> depths (BTreeNode w l r) = image_mset Suc (depths l + depths r)"
  by (simp add: depths_def profile_fork multiset.map_comp comp_def del: profile.simps)

lemma depths_leaf: "depths (BTreeNode w Null Null) = {#0#}" by (simp add: depths_def)

lemma height_fork: "full l \<Longrightarrow> tree_height (BTreeNode w l r) = Suc (max (tree_height l) (tree_height r))"
  by (auto simp: full_not_Null)

lemma pcost_union [simp]: "pcost (P + Q) = pcost P + pcost Q" by (simp add: pcost_def)

lemma pcost_add [simp]: "pcost (add_mset x P) = fst x * int (snd x) + pcost P" by (simp add: pcost_def case_prod_beta)

lemma pcost_Suc: "pcost (image_mset (map_prod id Suc) P) = pcost P + sum_mset (image_mset fst P)"
  by (induction P) (auto simp: pcost_def algebra_simps)

lemma pcost_fork: "full l \<Longrightarrow> pcost (profile (BTreeNode w l r))
    = pcost (profile l) + pcost (profile r) + sum_mset (leaf_weights l) + sum_mset (leaf_weights r)"
  by (simp add: profile_fork pcost_Suc leaf_weights_def del: profile.simps)

text \<open>Every assignment of weights to the depths of a full tree is the profile of a full tree.\<close>

lemma relabel: "full t \<Longrightarrow> image_mset snd P = depths t \<Longrightarrow> \<exists>u. full u \<and> profile u = P"
proof (induction arbitrary: P rule: full.induct)
  case (full_leaf w)
  then have e: "image_mset snd P = {#0#}" by (simp add: depths_leaf)
  then have "size P = 1" by (metis size_image_mset size_single)
  then obtain p where "P = {#p#}" by (metis size_1_singleton_mset)
  then obtain x where "P = {#(x, 0)#}" using e by (cases p) simp
  then show ?case by (intro exI [of _ "BTreeNode x Null Null"]) (simp add: full.full_leaf)
next
  case (full_fork l r w)
  from full_fork.prems have "image_mset snd P = image_mset Suc (depths l) + image_mset Suc (depths r)"
    by (simp add: depths_fork full_fork.hyps)
  from image_mset_eq_plusD [OF this] obtain A B
    where P: "P = A + B" and A: "image_mset snd A = image_mset Suc (depths l)" and B: "image_mset snd B = image_mset Suc (depths r)" by metis
  have pos: "image_mset (map_prod id Suc) (image_mset (map_prod id (\<lambda>d. d - 1)) C) = C"
    if "image_mset snd C = image_mset Suc D" for C :: "(int \<times> nat) multiset" and D
  proof -
    have "\<exists>d. snd x = Suc d" if "x \<in># C" for x
    proof -
      have "snd x \<in># image_mset snd C" using that by auto
      then show ?thesis using \<open>image_mset snd C = image_mset Suc D\<close> by auto
    qed
    then have "map_prod id Suc (map_prod id (\<lambda>d. d - 1) x) = x" if "x \<in># C" for x using that by (cases x) fastforce
    then have "image_mset (\<lambda>x. map_prod id Suc (map_prod id (\<lambda>d. d - 1) x)) C = image_mset (\<lambda>x. x) C"
      by (intro image_mset_cong) auto
    then show ?thesis by (simp add: multiset.map_comp comp_def)
  qed
  have "image_mset snd (image_mset (map_prod id (\<lambda>d. d - 1)) C) = D"
    if "image_mset snd C = image_mset Suc D" for C :: "(int \<times> nat) multiset" and D
  proof -
    have "image_mset (\<lambda>d. d - 1) (image_mset snd C) = D" using that by (simp add: multiset.map_comp comp_def)
    then show ?thesis by (simp add: multiset.map_comp comp_def)
  qed
  from full_fork.IH(1) [OF this [OF A]] full_fork.IH(2) [OF this [OF B]]
  obtain u v where "full u" "profile u = image_mset (map_prod id (\<lambda>d. d - 1)) A"
    and "full v" "profile v = image_mset (map_prod id (\<lambda>d. d - 1)) B" by blast
  then have "full (BTreeNode 0 u v)" "profile (BTreeNode 0 u v) = P"
    using pos [OF A] pos [OF B] P by (simp_all add: full.full_fork profile_fork del: profile.simps)
  then show ?case by (intro exI conjI)
qed

text \<open>A full tree with a fork has two deepest leaves that are siblings.\<close>

lemma collapse: "full t \<Longrightarrow> 0 < tree_height t \<Longrightarrow>
  \<exists>u D. full u \<and> depths t = add_mset (tree_height t) (add_mset (tree_height t) D) \<and> depths u = add_mset (tree_height t - 1) D"
proof (induction rule: full.induct)
  case (full_fork l r w)
  let ?h = "tree_height (BTreeNode w l r)"
  have h: "?h = Suc (max (tree_height l) (tree_height r))" using full_fork.hyps by (rule_tac height_fork) auto
  consider (leaves) "tree_height l = 0" "tree_height r = 0" | (left) "0 < tree_height l" "tree_height r \<le> tree_height l"
    | (right) "0 < tree_height r" "tree_height l \<le> tree_height r" by linarith
  then show ?case
  proof cases
    case leaves
    have "depths t = {#0#}" if "full t" "tree_height t = 0" for t
      using that by (cases rule: full.cases) (auto simp: depths_leaf full_not_Null split: if_splits)
    then have "depths (BTreeNode w l r) = {#1, 1#}" using leaves full_fork.hyps by (simp add: depths_fork)
    then show ?thesis using h leaves by (intro exI [of _ "BTreeNode 0 Null Null"] exI [of _ "{#}"]) (simp add: full.full_leaf depths_leaf)
  next
    case left
    from full_fork.IH(1) [OF left(1)] obtain u D where u: "full u" "depths l = add_mset (tree_height l) (add_mset (tree_height l) D)"
      "depths u = add_mset (tree_height l - 1) D" by blast
    show ?thesis using left u h full_fork.hyps
      by (intro exI [of _ "BTreeNode 0 u r"] exI [of _ "image_mset Suc (D + depths r)"]) (simp add: full.full_fork depths_fork)
  next
    case right
    from full_fork.IH(2) [OF right(1)] obtain u D where u: "full u" "depths r = add_mset (tree_height r) (add_mset (tree_height r) D)"
      "depths u = add_mset (tree_height r - 1) D" by blast
    show ?thesis using right u h full_fork.hyps
      by (intro exI [of _ "BTreeNode 0 l u"] exI [of _ "image_mset Suc (depths l + D)"]) (simp add: full.full_fork depths_fork)
  qed
qed simp

text \<open>Moving the least weight to the greatest depth does not raise the cost.\<close>

lemma least_to_deepest:
  assumes "x \<in># image_mset fst P" "\<forall>y \<in># image_mset fst P. x \<le> y" "h \<in># image_mset snd P" "\<forall>d \<in># image_mset snd P. d \<le> h"
  shows "\<exists>Q. image_mset fst P = add_mset x (image_mset fst Q) \<and> image_mset snd P = add_mset h (image_mset snd Q) \<and> x * int h + pcost Q \<le> pcost P"
proof -
  obtain d w where xd: "(x, d) \<in># P" and wh: "(w, h) \<in># P" using assms(1,3) by auto
  show ?thesis
  proof (cases "(x, d) = (w, h)")
    case True
    then obtain Q where "P = add_mset (x, h) Q" using xd by (auto dest: multi_member_split)
    then show ?thesis by (intro exI [of _ Q]) simp
  next
    case False
    obtain P1 where P1: "P = add_mset (x, d) P1" using xd by (auto dest: multi_member_split)
    then have "(w, h) \<in># P1" using wh False by auto
    then obtain P2 where P2: "P1 = add_mset (w, h) P2" by (auto dest: multi_member_split)
    have "x \<le> w" "d \<le> h" using assms(2,4) wh xd by auto
    then have "0 \<le> (w - x) * (int h - int d)" by simp
    then have "x * int h + w * int d \<le> x * int d + w * int h" by (simp add: algebra_simps)
    then show ?thesis using P1 P2 by (intro exI [of _ "add_mset (w, d) P2"]) (simp add: add_mset_commute)
  qed
qed

text \<open>The step of the greedy argument: the two least weights may be merged first.\<close>

lemma greedy_step:
  assumes t: "full t" and M: "leaf_weights t = add_mset x (add_mset y M)" and x: "x \<le> y" and y: "\<forall>z \<in># M. y \<le> z"
  shows "\<exists>u. full u \<and> leaf_weights u = add_mset (x + y) M \<and> pcost (profile u) + x + y \<le> pcost (profile t)"
proof -
  have h0: "0 < tree_height t" using t M by (cases rule: full.cases) (auto simp: leaf_weights_def full_not_Null)
  have max_depth: "\<forall>d \<in># depths t. d \<le> tree_height t" if "full t" for t
    using that by (induction rule: full.induct) (auto simp: depths_leaf depths_fork height_fork le_max_iff_disj simp del: tree_height.simps(2))
  let ?h = "tree_height t"
  obtain u0 D where u0: "full u0" "depths t = add_mset ?h (add_mset ?h D)" "depths u0 = add_mset (?h - 1) D"
    using collapse [OF t h0] by blast
  obtain Q where Q: "add_mset x (add_mset y M) = add_mset x (image_mset fst Q)" "depths t = add_mset ?h (image_mset snd Q)"
      "x * int ?h + pcost Q \<le> pcost (profile t)"
    using least_to_deepest [of x "profile t" ?h] M x y u0(2) max_depth [OF t] unfolding leaf_weights_def depths_def by force
  then have Q': "image_mset fst Q = add_mset y M" "image_mset snd Q = add_mset ?h D" using u0(2) by auto
  obtain R where R: "add_mset y M = add_mset y (image_mset fst R)" "add_mset ?h D = add_mset ?h (image_mset snd R)"
      "y * int ?h + pcost R \<le> pcost Q"
    using least_to_deepest [of y Q ?h] Q' y u0(2) max_depth [OF t] by force
  then have "image_mset snd (add_mset (x + y, ?h - 1) R) = depths u0" using u0(3) by simp
  from relabel [OF u0(1) this] obtain u where u: "full u" "profile u = add_mset (x + y, ?h - 1) R" by blast
  have "leaf_weights u = add_mset (x + y) M" using u(2) R(1) by (simp add: leaf_weights_def)
  moreover have "pcost (profile u) + x + y = (x + y) * int ?h + pcost R"
    using u(2) h0 by (simp add: of_nat_diff algebra_simps)
  ultimately show ?thesis using u(1) Q(3) R(3) by (intro exI [of _ u]) (simp add: algebra_simps)
qed

section \<open>The two scans\<close>

lemma first_two_second:
  "k1 \<noteq> - 1 \<Longrightarrow> m < length ts \<Longrightarrow> ts ! m \<noteq> Null \<Longrightarrow>
     \<exists>m < length ts. first_two ts j k1 = (k1, Some (j + int m)) \<and> ts ! m \<noteq> Null \<and> (\<forall>i < m. ts ! i = Null)"
proof (induction ts arbitrary: j m)
  case (Cons t ts)
  show ?case
  proof (cases "t = Null")
    case True
    then obtain m' where m': "m = Suc m'" using Cons.prems by (cases m) auto
    with Cons.IH [of m' "j + 1"] Cons.prems obtain i where i: "i < length ts" "first_two ts (j + 1) k1 = (k1, Some (j + 1 + int i))"
      "ts ! i \<noteq> Null" "\<forall>l < i. ts ! l = Null" by auto
    then show ?thesis using True by (intro exI [of _ "Suc i"]) (auto simp: nth_Cons split: nat.splits)
  next
    case False
    then show ?thesis using Cons.prems(1) by (intro exI [of _ 0]) simp
  qed
qed simp

lemma first_two_spec:
  "0 \<le> j \<Longrightarrow> 2 \<le> length (filter (\<lambda>t. t \<noteq> Null) ts) \<Longrightarrow>
     \<exists>m1 m2. m1 < m2 \<and> m2 < length ts \<and> first_two ts j (- 1) = (j + int m1, Some (j + int m2)) \<and> ts ! m1 \<noteq> Null \<and> ts ! m2 \<noteq> Null
       \<and> (\<forall>i < m2. i \<noteq> m1 \<longrightarrow> ts ! i = Null)"
proof (induction ts arbitrary: j)
  case (Cons t ts)
  show ?case
  proof (cases "t = Null")
    case True
    then obtain m1 m2 where m: "m1 < m2" "m2 < length ts" "first_two ts (j + 1) (- 1) = (j + 1 + int m1, Some (j + 1 + int m2))"
      "ts ! m1 \<noteq> Null" "ts ! m2 \<noteq> Null" "\<forall>i < m2. i \<noteq> m1 \<longrightarrow> ts ! i = Null" using Cons.IH [of "j + 1"] Cons.prems by auto
    then show ?thesis using True by (intro exI [of _ "Suc m1"] exI [of _ "Suc m2"]) (auto simp: nth_Cons split: nat.splits)
  next
    case False
    then have "filter (\<lambda>t. t \<noteq> Null) ts \<noteq> []" using Cons.prems(2) by auto
    then obtain m where "m < length ts" "ts ! m \<noteq> Null" by (auto simp: filter_empty_conv in_set_conv_nth)
    from first_two_second [OF _ this, of j "j + 1"] Cons.prems(1)
    obtain m where m: "m < length ts" "first_two ts (j + 1) j = (j, Some (j + 1 + int m))" "ts ! m \<noteq> Null" "\<forall>i < m. ts ! i = Null" by auto
    then show ?thesis using False by (intro exI [of _ 0] exI [of _ "Suc m"]) (auto simp: nth_Cons split: nat.splits)
  qed
qed simp

text \<open>\<open>k1\<close> and \<open>k2\<close> are the least and the second least tree below index \<open>m\<close>.\<close>

definition two_least :: "btree list \<Rightarrow> nat \<Rightarrow> nat \<Rightarrow> nat \<Rightarrow> bool" where
  "two_least b m k1 k2 \<longleftrightarrow> k1 \<noteq> k2 \<and> k1 < m \<and> k2 < m \<and> b ! k1 \<noteq> Null \<and> b ! k2 \<noteq> Null \<and> bt_data (b ! k1) \<le> bt_data (b ! k2)
     \<and> (\<forall>i < m. b ! i \<noteq> Null \<longrightarrow> i \<noteq> k1 \<longrightarrow> bt_data (b ! k2) \<le> bt_data (b ! i))"

lemma data_of_bt_data [simp]: "t \<noteq> Null \<Longrightarrow> data_of t = Some (bt_data t)"
  by (cases t) simp_all

lemma rdi_int [simp]: "i < length a \<Longrightarrow> rdi a (int i) = Some (a ! i)"
  by (simp add: rdi_def rd_def)

lemma least_two_spec:
  "two_least b m k1 k2 \<Longrightarrow> m \<le> length b \<Longrightarrow>
     \<exists>k1' k2'. least_two b [int m..int (length b) - 1] (int k1) (int k2) = Some (int k1', int k2') \<and> two_least b (length b) k1' k2'"
proof (induction "length b - m" arbitrary: m k1 k2)
  case 0
  then show ?case by auto
next
  case (Suc n)
  then have m: "m < length b" and e: "[int m..int (length b) - 1] = int m # [int (Suc m)..int (length b) - 1]"
    by (auto simp: upto_rec1 add.commute)
  have step: "\<exists>k1' k2'. least_two b [int (Suc m)..int (length b) - 1] (int i) (int j) = Some (int k1', int k2') \<and> two_least b (length b) k1' k2'"
    if "two_least b (Suc m) i j" for i j using Suc.hyps(1) [of "Suc m" i j] Suc.hyps(2) that m by simp
  have k: "k1 < length b" "k2 < length b" "b ! k1 \<noteq> Null" "b ! k2 \<noteq> Null" using Suc.prems m by (auto simp: two_least_def)
  consider (null) "b ! m = Null" | (less) "b ! m \<noteq> Null" "bt_data (b ! m) < bt_data (b ! k1)"
    | (mid) "b ! m \<noteq> Null" "\<not> bt_data (b ! m) < bt_data (b ! k1)" "bt_data (b ! m) < bt_data (b ! k2)"
    | (more) "b ! m \<noteq> Null" "\<not> bt_data (b ! m) < bt_data (b ! k1)" "\<not> bt_data (b ! m) < bt_data (b ! k2)" by blast
  then show ?case
  proof cases
    case null
    then have "two_least b (Suc m) k1 k2" using Suc.prems by (auto simp: two_least_def less_Suc_eq)
    from step [OF this] show ?thesis unfolding e using null m by (simp del: upto.simps)
  next
    case less
    then have "two_least b (Suc m) m k1" using Suc.prems m unfolding two_least_def less_Suc_eq by force
    from step [OF this] show ?thesis unfolding e using less m k by (simp del: upto.simps)
  next
    case mid
    then have "two_least b (Suc m) k1 m" using Suc.prems m unfolding two_least_def less_Suc_eq by force
    from step [OF this] show ?thesis unfolding e using mid m k by (simp del: upto.simps)
  next
    case more
    then have "two_least b (Suc m) k1 k2" using Suc.prems unfolding two_least_def less_Suc_eq by force
    from step [OF this] show ?thesis unfolding e using more m k by (simp del: upto.simps)
  qed
qed

text \<open>Both scans together.\<close>

lemma scans_spec:
  assumes "2 \<le> length (filter (\<lambda>t. t \<noteq> Null) b)"
  shows "\<exists>i j k1 k2. first_two b 0 (- 1) = (i, Some j) \<and> least_two b [j..int (length b) - 1] i j = Some (int k1, int k2)
    \<and> two_least b (length b) k1 k2"
proof -
  obtain i j where ij: "i < j" "j < length b" "first_two b 0 (- 1) = (int i, Some (int j))" "b ! i \<noteq> Null" "b ! j \<noteq> Null"
    "\<forall>l < j. l \<noteq> i \<longrightarrow> b ! l = Null" using first_two_spec [of 0 b] assms by auto
  have e: "[int j..int (length b) - 1] = int j # [int (Suc j)..int (length b) - 1]" using ij by (simp add: upto_rec1 add.commute)
  show ?thesis
  proof (cases "bt_data (b ! j) < bt_data (b ! i)")
    case True
    then have "two_least b (Suc j) j i" using ij unfolding two_least_def less_Suc_eq by force
    from least_two_spec [OF this] obtain k1 k2 where
      "least_two b [int (Suc j)..int (length b) - 1] (int j) (int i) = Some (int k1, int k2)" "two_least b (length b) k1 k2" using ij by auto
    then show ?thesis using ij True unfolding ij(3)
      by (intro exI [of _ "int i"] exI [of _ "int j"] exI [of _ k1] exI [of _ k2]) (simp add: e del: upto.simps)
  next
    case False
    then have "two_least b (Suc j) i j" using ij unfolding two_least_def less_Suc_eq by force
    from least_two_spec [OF this] obtain k1 k2 where
      "least_two b [int (Suc j)..int (length b) - 1] (int i) (int j) = Some (int k1, int k2)" "two_least b (length b) k1 k2" using ij by auto
    then show ?thesis using ij False unfolding ij(3)
      by (intro exI [of _ "int i"] exI [of _ "int j"] exI [of _ k1] exI [of _ k2]) (simp add: e del: upto.simps)
  qed
qed

section \<open>The invariant of the forest\<close>

definition forest :: "btree list \<Rightarrow> btree multiset" where
  "forest b = filter_mset (\<lambda>t. t \<noteq> Null) (mset b)"

definition tree_ok :: "btree \<Rightarrow> bool" where
  "tree_ok t \<longleftrightarrow> full t \<and> bt_data t = sum_mset (leaf_weights t)"

definition forest_cost :: "btree multiset \<Rightarrow> int" where
  "forest_cost F = (\<Sum>t \<in># F. pcost (profile t))"

definition forest_inv :: "int list \<Rightarrow> btree list \<Rightarrow> bool" where
  "forest_inv a b \<longleftrightarrow> (\<forall>t \<in># forest b. tree_ok t) \<and> sum_mset (image_mset leaf_weights (forest b)) = mset a
     \<and> (\<forall>u. full u \<longrightarrow> leaf_weights u = mset a \<longrightarrow>
          (\<exists>v. full v \<and> leaf_weights v = image_mset bt_data (forest b) \<and> pcost (profile v) + forest_cost (forest b) \<le> pcost (profile u)))"

lemma two_least_split:
  assumes "two_least b (length b) k1 k2"
  shows "\<exists>R. mset b = add_mset (b ! k1) (add_mset (b ! k2) R) \<and> (\<forall>q. mset (b[k1 := q, k2 := Null]) = add_mset q (add_mset Null R))
    \<and> (\<forall>t \<in># R. t \<noteq> Null \<longrightarrow> bt_data (b ! k2) \<le> bt_data t)"
proof -
  have k: "k1 \<noteq> k2" "k1 < length b" "k2 < length b" "b ! k1 \<noteq> Null" "b ! k2 \<noteq> Null"
    and m: "\<forall>i < length b. b ! i \<noteq> Null \<longrightarrow> i \<noteq> k1 \<longrightarrow> bt_data (b ! k2) \<le> bt_data (b ! i)" using assms by (auto simp: two_least_def)
  define R where "R = mset b - {#b ! k1#} - {#b ! k2#}"
  have up: "mset (b[k1 := q, k2 := Null]) = add_mset Null (add_mset q (mset b - {#b ! k1#}) - {#b ! k2#})" for q
    using k by (simp add: mset_update)
  have "b ! k2 \<in># mset (b[k1 := Null])" using k by (metis length_list_update nth_list_update_neq nth_mem_mset)
  then have in2: "b ! k2 \<in># mset b - {#b ! k1#}" using k by (simp add: mset_update)
  have "b ! k1 \<in># mset b" using k by simp
  then have b: "mset b = add_mset (b ! k1) (add_mset (b ! k2) R)" using in2 unfolding R_def by (metis insert_DiffM)
  have u: "mset (b[k1 := q, k2 := Null]) = add_mset q (add_mset Null R)" for q
    unfolding up using in2 unfolding R_def by (simp add: add_mset_commute)
  have "bt_data (b ! k2) \<le> bt_data t" if "t \<in># R" "t \<noteq> Null" for t
  proof -
    have "t \<in> set (b[k1 := Null, k2 := Null])" using that(1) u [of Null] by (metis set_mset_mset insert_iff set_mset_add_mset_insert)
    then obtain i where "i < length b" "b[k1 := Null, k2 := Null] ! i = t" by (auto simp: in_set_conv_nth)
    then have "i \<noteq> k1" "i < length b" "b ! i = t" using that(2) k by (auto simp: nth_list_update split: if_splits)
    then show ?thesis using m that(2) by auto
  qed
  then show ?thesis using b u by blast
qed

lemma abs_sum_mset: "\<bar>sum_mset A\<bar> \<le> sum_mset (image_mset abs (A :: int multiset))"
  by (induction A) auto

lemma abs_sum_sub: "A \<subseteq># B \<Longrightarrow> \<bar>sum_mset A\<bar> \<le> sum_mset (image_mset abs (B :: int multiset))"
proof -
  assume "A \<subseteq># B"
  then obtain C where "B = A + C" by (auto simp: mset_subset_eq_exists_conv)
  moreover have "0 \<le> sum_mset (image_mset abs C)" by (induction C) auto
  ultimately show ?thesis using abs_sum_mset [of A] by simp
qed

lemma round_spec:
  assumes inv: "forest_inv a b" and two: "2 \<le> size (forest b)" and B: "sum_mset (image_mset abs (mset a)) < 2 ^ 31"
  shows "\<exists>q b'. huffman_round b = Some (q, b') \<and> forest_inv a b' \<and> q \<in># forest b' \<and> size (forest b) = Suc (size (forest b'))"
proof -
  have "2 \<le> length (filter (\<lambda>t. t \<noteq> Null) b)" using two by (metis forest_def mset_filter size_mset)
  from scans_spec [OF this] obtain i j k1 k2 where scan: "first_two b 0 (- 1) = (i, Some j)"
      "least_two b [j..int (length b) - 1] i j = Some (int k1, int k2)" and least: "two_least b (length b) k1 k2" by blast
  let ?t1 = "b ! k1" and ?t2 = "b ! k2"
  have k: "k1 < length b" "k2 < length b" "?t1 \<noteq> Null" "?t2 \<noteq> Null" "bt_data ?t1 \<le> bt_data ?t2" using least by (auto simp: two_least_def)
  define q where "q = BTreeNode (bt_data ?t1 + bt_data ?t2) ?t1 ?t2"
  let ?b = "b[k1 := q, k2 := Null]"
  obtain R where R: "mset b = add_mset ?t1 (add_mset ?t2 R)" "mset ?b = add_mset q (add_mset Null R)"
    "\<forall>t \<in># R. t \<noteq> Null \<longrightarrow> bt_data ?t2 \<le> bt_data t" using two_least_split [OF least] by blast
  define F where "F = filter_mset (\<lambda>t. t \<noteq> Null) R"
  have f: "forest b = add_mset ?t1 (add_mset ?t2 F)" using R(1) k by (simp add: forest_def F_def)
  have f': "forest ?b = add_mset q F" using R(2) by (simp add: forest_def F_def q_def)
  have ok: "tree_ok ?t1" "tree_ok ?t2" "\<forall>t \<in># F. tree_ok t" using inv f by (auto simp: forest_inv_def)
  then have lw: "leaf_weights q = leaf_weights ?t1 + leaf_weights ?t2" by (simp add: q_def tree_ok_def leaf_weights_fork)
  have qok: "tree_ok q" using ok lw by (simp add: tree_ok_def q_def full.full_fork)
  have leaves: "leaf_weights ?t1 + leaf_weights ?t2 + sum_mset (image_mset leaf_weights F) = mset a"
    using inv f by (simp add: forest_inv_def ac_simps)
  then have "leaf_weights q \<subseteq># mset a" unfolding lw by (metis mset_subset_eq_add_left)
  then have "\<bar>bt_data q\<bar> < 2 ^ 31" using abs_sum_sub [of "leaf_weights q" "mset a"] B qok unfolding tree_ok_def by linarith
  then have w: "i32 (bt_data ?t1 + bt_data ?t2) = Some (bt_data ?t1 + bt_data ?t2)" by (auto simp: q_def i32_def abs_less_iff)
  have round: "huffman_round b = Some (q, ?b)"
    using scan k w by (simp add: huffman_round_def wri_def wr_def q_def Let_def)
  have cost: "forest_cost (forest ?b) = forest_cost (forest b) + bt_data ?t1 + bt_data ?t2"
    using ok pcost_fork [of ?t1 "bt_data ?t1 + bt_data ?t2" ?t2] unfolding f f' by (simp add: forest_cost_def tree_ok_def q_def del: profile.simps)
  have "forest_inv a ?b"
    unfolding forest_inv_def
  proof (intro conjI allI impI)
    show "\<forall>t \<in># forest ?b. tree_ok t" using qok ok f' by simp
    show "sum_mset (image_mset leaf_weights (forest ?b)) = mset a" using leaves by (simp add: f' lw)
    fix u assume "full u" "leaf_weights u = mset a"
    then obtain v where v: "full v" "leaf_weights v = image_mset bt_data (forest b)" "pcost (profile v) + forest_cost (forest b) \<le> pcost (profile u)"
      using inv unfolding forest_inv_def by blast
    have "\<forall>z \<in># image_mset bt_data F. bt_data ?t2 \<le> z" using R(3) by (auto simp: F_def)
    from greedy_step [OF v(1) _ k(5) this] v(2) f obtain v' where v': "full v'" "leaf_weights v' = add_mset (bt_data ?t1 + bt_data ?t2) (image_mset bt_data F)"
      "pcost (profile v') + bt_data ?t1 + bt_data ?t2 \<le> pcost (profile v)" by auto
    have "leaf_weights v' = image_mset bt_data (forest ?b)" using v'(2) f' by (simp add: q_def)
    moreover have "pcost (profile v') + forest_cost (forest ?b) \<le> pcost (profile u)" using v'(3) v(3) cost by linarith
    ultimately show "\<exists>v. full v \<and> leaf_weights v = image_mset bt_data (forest ?b) \<and> pcost (profile v) + forest_cost (forest ?b) \<le> pcost (profile u)"
      using v'(1) by blast
  qed
  then show ?thesis using round f f' by auto
qed

text \<open>The height is less than the number of leaves, so the products stay in range.\<close>

lemma height_less: "full t \<Longrightarrow> tree_height t < size (leaf_weights t)"
  by (induction rule: full.induct) (auto simp: leaf_weights_fork height_fork simp del: tree_height.simps(2), simp add: leaf_weights_def)

lemma loop_spec:
  "forest_inv a b \<Longrightarrow> size (forest b) = Suc i \<Longrightarrow> (i = 0 \<Longrightarrow> \<exists>t. q = Some t \<and> t \<in># forest b)
     \<Longrightarrow> sum_mset (image_mset abs (mset a)) < 2 ^ 31
     \<Longrightarrow> \<exists>t. huffman_loop i b q = Some t \<and> tree_ok t \<and> leaf_weights t = mset a
          \<and> (\<forall>u. full u \<longrightarrow> leaf_weights u = mset a \<longrightarrow> pcost (profile t) \<le> pcost (profile u))"
proof (induction i arbitrary: b q)
  case 0
  then obtain t where t: "q = Some t" "forest b = {#t#}" by (metis One_nat_def multi_member_split size_1_singleton_mset add_mset_eq_singleton_iff)
  have "pcost (profile t) \<le> pcost (profile u)" if u: "full u" "leaf_weights u = mset a" for u
  proof -
    obtain v where v: "full v" "leaf_weights v = {#bt_data t#}" "pcost (profile v) + pcost (profile t) \<le> pcost (profile u)"
      using "0.prems"(1) u t(2) unfolding forest_inv_def forest_cost_def by auto
    have "size (leaf_weights v) = 1" using v(2) by simp
    then have "tree_height v = 0" using height_less [OF v(1)] by simp
    with v(1) have "pcost (profile v) = 0" by (cases rule: full.cases) (auto simp: pcost_def full_not_Null split: if_splits)
    then show ?thesis using v(3) by simp
  qed
  then show ?case using t "0.prems"(1) by (simp add: forest_inv_def)
next
  case (Suc i)
  then have "2 \<le> size (forest b)" by simp
  from round_spec [OF Suc.prems(1) this Suc.prems(4)] obtain t b' where r: "huffman_round b = Some (t, b')" "forest_inv a b'" "t \<in># forest b'"
    "size (forest b) = Suc (size (forest b'))" by blast
  then have "size (forest b') = Suc i" using Suc.prems(2) by simp
  from Suc.IH [OF r(2) this _ Suc.prems(4), of "Some t"] r(1,3) show ?case by simp
qed

lemma start_inv: "forest_inv a (map (\<lambda>w. BTreeNode w Null Null) a)" "size (forest (map (\<lambda>w. BTreeNode w Null Null) a)) = length a"
proof -
  let ?b = "map (\<lambda>w. BTreeNode w Null Null) a"
  have f: "forest ?b = image_mset (\<lambda>w. BTreeNode w Null Null) (mset a)"
    by (simp add: forest_def filter_mset_image_mset)
  then show "size (forest ?b) = length a" by simp
  have "forest_cost (forest ?b) = 0" unfolding f by (simp add: forest_cost_def multiset.map_comp comp_def pcost_def)
  moreover have "image_mset bt_data (forest ?b) = mset a" "sum_mset (image_mset leaf_weights (forest ?b)) = mset a"
    unfolding f by (simp_all add: multiset.map_comp comp_def leaf_weights_def)
  moreover have "\<forall>t \<in># forest ?b. tree_ok t" unfolding f by (auto simp: tree_ok_def leaf_weights_def full.full_leaf)
  ultimately show "forest_inv a ?b" unfolding forest_inv_def by auto
qed

lemma CreateHuffman_spec:
  assumes n: "2 \<le> n" "n \<le> length a" and B: "(\<Sum>x\<leftarrow>take n a. \<bar>x\<bar>) < 2 ^ 31"
  shows "\<exists>t. CreateHuffman a n = Some t \<and> tree_ok t \<and> leaf_weights t = mset (take n a)
    \<and> (\<forall>u. full u \<longrightarrow> leaf_weights u = mset (take n a) \<longrightarrow> pcost (profile t) \<le> pcost (profile u))"
proof -
  have "sum_mset (image_mset abs (mset (take n a))) < 2 ^ 31" using B by (simp flip: sum_mset_sum_list mset_map)
  from loop_spec [OF start_inv(1) _ _ this, of "n - 1" None] start_inv(2) [of "take n a"] n
  show ?thesis by (simp add: CreateHuffman_def)
qed

section \<open>The weighted path length\<close>

definition abs_leaves :: "btree \<Rightarrow> int" where
  "abs_leaves t = sum_mset (image_mset abs (leaf_weights t))"

lemma abs_leaves_nonneg: "0 \<le> abs_leaves t"
  proof -
  have "0 \<le> sum_mset (image_mset abs A)" for A :: "int multiset" by (induction A) auto
  then show ?thesis by (simp add: abs_leaves_def)
qed

lemma abs_leaves_fork: "full l \<Longrightarrow> abs_leaves (BTreeNode w l r) = abs_leaves l + abs_leaves r"
  by (simp add: abs_leaves_def leaf_weights_fork)

definition wpl :: "btree \<Rightarrow> int \<Rightarrow> int" where
  "wpl t len = pcost (profile t) + len * sum_mset (leaf_weights t)"

lemma wpl_fork: "full l \<Longrightarrow> wpl (BTreeNode w l r) len = wpl l (len + 1) + wpl r (len + 1)"
  by (simp add: wpl_def pcost_fork leaf_weights_fork algebra_simps del: profile.simps)

lemma wpl_abs: "full t \<Longrightarrow> 0 \<le> len \<Longrightarrow> \<bar>wpl t len\<bar> \<le> abs_leaves t * (len + int (tree_height t))"
proof (induction arbitrary: len rule: full.induct)
  case (full_leaf w)
  then show ?case by (simp add: wpl_def abs_leaves_def leaf_weights_def pcost_def abs_mult)
next
  case (full_fork l r w)
  let ?H = "len + int (tree_height (BTreeNode w l r))"
  have "\<bar>wpl l (len + 1)\<bar> \<le> abs_leaves l * (len + 1 + int (tree_height l))" "\<bar>wpl r (len + 1)\<bar> \<le> abs_leaves r * (len + 1 + int (tree_height r))"
    using full_fork by auto
  moreover have "abs_leaves l * (len + 1 + int (tree_height l)) \<le> abs_leaves l * ?H" "abs_leaves r * (len + 1 + int (tree_height r)) \<le> abs_leaves r * ?H"
    using full_fork.hyps by (auto intro!: mult_left_mono simp: abs_leaves_nonneg height_fork simp del: tree_height.simps(2))
  moreover have "\<bar>wpl (BTreeNode w l r) len\<bar> \<le> \<bar>wpl l (len + 1)\<bar> + \<bar>wpl r (len + 1)\<bar>" using full_fork.hyps by (simp add: wpl_fork)
  moreover have "abs_leaves (BTreeNode w l r) * ?H = abs_leaves l * ?H + abs_leaves r * ?H"
    using full_fork.hyps by (simp only: abs_leaves_fork distrib_right)
  ultimately show ?case by linarith
qed

lemma WeightPathLength_spec:
  "full t \<Longrightarrow> 0 \<le> len \<Longrightarrow> len + int (tree_height t) < 2 ^ 31 \<Longrightarrow> abs_leaves t * (len + int (tree_height t)) < 2 ^ 31
    \<Longrightarrow> WeightPathLength t len = Some (wpl t len)"
proof (induction arbitrary: len rule: full.induct)
  case (full_leaf w)
  then have "\<bar>w * len\<bar> < 2 ^ 31" by (simp add: abs_leaves_def leaf_weights_def abs_mult)
  then show ?case by (simp add: wpl_def leaf_weights_def pcost_def i32_def abs_less_iff)
next
  case (full_fork l r w)
  let ?t = "BTreeNode w l r"
  have h: "tree_height ?t = Suc (max (tree_height l) (tree_height r))" and a: "abs_leaves ?t = abs_leaves l + abs_leaves r"
    using full_fork.hyps height_fork abs_leaves_fork by auto
  have le: "abs_leaves l * (len + 1 + int (tree_height l)) \<le> abs_leaves ?t * (len + int (tree_height ?t))"
    "abs_leaves r * (len + 1 + int (tree_height r)) \<le> abs_leaves ?t * (len + int (tree_height ?t))"
    using full_fork.prems(1) abs_leaves_nonneg [of l] abs_leaves_nonneg [of r] unfolding h a by (auto intro!: mult_mono)
  have "\<bar>wpl ?t len\<bar> \<le> abs_leaves ?t * (len + int (tree_height ?t))"
    using wpl_abs [of ?t len] full_fork.hyps full_fork.prems by (simp add: full.full_fork del: tree_height.simps)
  then have "\<bar>wpl ?t len\<bar> < 2 ^ 31" using full_fork.prems(3) by linarith
  then have "i32 (wpl l (len + 1) + wpl r (len + 1)) = Some (wpl ?t len)" using full_fork.hyps by (auto simp: wpl_fork i32_def abs_less_iff)
  moreover have "WeightPathLength l (len + 1) = Some (wpl l (len + 1))" "WeightPathLength r (len + 1) = Some (wpl r (len + 1))"
    using full_fork.IH [of "len + 1"] full_fork.prems le h by auto
  moreover have "i32 (len + 1) = Some (len + 1)" using full_fork.prems h by (simp add: i32_def)
  ultimately show ?case using full_not_Null [OF full_fork.hyps(1)] by simp
qed

lemma WeightPathLength_Some: "full t \<Longrightarrow> WeightPathLength t len = Some v \<Longrightarrow> v = wpl t len"
proof (induction arbitrary: len v rule: full.induct)
  case (full_leaf w)
  then show ?case by (simp add: wpl_def leaf_weights_def pcost_def i32_eq_Some_iff mult.commute)
next
  case (full_fork l r w)
  then show ?case using full_not_Null [OF full_fork.hyps(1)]
    by (auto simp: bind_eq_Some_conv i32_eq_Some_iff wpl_fork)
qed

section \<open>The codes\<close>

fun codes :: "btree \<Rightarrow> (int \<times> int list) list" where
  "codes Null = []"
| "codes (BTreeNode w l r) =
     (if l = Null \<and> r = Null then [(w, [])] else map (map_prod id (Cons 0)) (codes l) @ map (map_prod id (Cons 1)) (codes r))"

definition prefix_free :: "int list list \<Rightarrow> bool" where
  "prefix_free cs \<longleftrightarrow> sorted_wrt (\<lambda>c d. \<not> prefix c d \<and> \<not> prefix d c) cs"

lemma codes_fork: "full l \<Longrightarrow> codes (BTreeNode w l r) = map (map_prod id (Cons 0)) (codes l) @ map (map_prod id (Cons 1)) (codes r)"
  by (auto simp: full_not_Null)

lemma codes_prefix_free: "full t \<Longrightarrow> prefix_free (map snd (codes t))"
proof (induction rule: full.induct)
  case (full_fork l r w)
  have "map snd (codes (BTreeNode w l r)) = map (Cons 0) (map snd (codes l)) @ map (Cons 1) (map snd (codes r))"
    using full_fork.hyps by (simp add: codes_fork comp_def del: codes.simps)
  then show ?case using full_fork.IH by (auto simp: prefix_free_def sorted_wrt_append sorted_wrt_map simp del: map_map)
qed (simp add: prefix_free_def)

lemma codes_profile: "full t \<Longrightarrow> image_mset (\<lambda>(w, c). (w, length c)) (mset (codes t)) = profile t"
proof (induction rule: full.induct)
  case (full_fork l r w)
  have "image_mset (\<lambda>(w, c). (w, length c)) (mset (map (map_prod id (Cons x)) cs)) = image_mset (map_prod id Suc) (image_mset (\<lambda>(w, c). (w, length c)) (mset cs))"
    for x :: int and cs :: "(int \<times> int list) list" by (induction cs) auto
  then show ?case using full_fork by (simp add: codes_fork profile_fork del: codes.simps profile.simps)
qed simp

lemma HuffManCoding_spec:
  "full t \<Longrightarrow> len \<le> length a \<Longrightarrow>
     (if len + tree_height t \<le> length a
      then \<exists>a'. HuffManCoding t len a = Some (a', map (map_prod id (append (take len a))) (codes t)) \<and> length a' = length a \<and> take len a' = take len a
      else HuffManCoding t len a = None)"
proof (induction arbitrary: len a rule: full.induct)
  case (full_leaf w)
  then show ?case by simp
next
  case (full_fork l r w)
  let ?t = "BTreeNode w l r"
  have nn: "l \<noteq> Null" using full_fork.hyps full_not_Null by blast
  have h: "tree_height ?t = Suc (max (tree_height l) (tree_height r))" using full_fork.hyps height_fork by blast
  show ?case
  proof (cases "len < length a")
    case False
    then show ?thesis using nn h by (simp add: wr_def)
  next
    case len: True
    let ?a0 = "a[len := 0]"
    have t0: "take (Suc len) ?a0 = take len a @ [0]" using len by (rule take_Suc_update)
    show ?thesis
    proof (cases "Suc len + tree_height l \<le> length a")
      case False
      then have "HuffManCoding l (Suc len) ?a0 = None" using full_fork.IH(1) [of "Suc len" ?a0] len by simp
      then show ?thesis using False nn h len by (simp add: wr_def)
    next
      case True
      from full_fork.IH(1) [of "Suc len" ?a0] len True t0 obtain a1 where
        l: "HuffManCoding l (Suc len) ?a0 = Some (a1, map (map_prod id (append (take len a @ [0]))) (codes l))"
        and a1: "length a1 = length a" "take (Suc len) a1 = take len a @ [0]" by auto
      have "take len (take (Suc len) a1) = take len a" unfolding a1(2) using len by simp
      then have a1': "take len a1 = take len a" by simp
      let ?a2 = "a1[len := 1]"
      have t1: "take (Suc len) ?a2 = take len a @ [1]" using len a1 a1' by (simp add: take_Suc_update)
      have r: "if Suc len + tree_height r \<le> length a
         then \<exists>a'. HuffManCoding r (Suc len) ?a2 = Some (a', map (map_prod id (append (take len a @ [1]))) (codes r)) \<and> length a' = length a
           \<and> take (Suc len) a' = take len a @ [1]
         else HuffManCoding r (Suc len) ?a2 = None" using full_fork.IH(2) [of "Suc len" ?a2, unfolded t1] len a1 by (simp split: if_splits)
      have comp: "map (map_prod id (append (take len a))) (map (map_prod id (Cons x)) cs) = map (map_prod id (append (take len a @ [x]))) cs"
        for x :: int and cs :: "(int \<times> int list) list" by auto
      show ?thesis
      proof (cases "Suc len + tree_height r \<le> length a")
        case False
        then show ?thesis using r l nn h len a1 by (simp add: wr_def)
      next
        case r': True
        then obtain a3 where a3: "HuffManCoding r (Suc len) ?a2 = Some (a3, map (map_prod id (append (take len a @ [1]))) (codes r))" "length a3 = length a"
           "take (Suc len) a3 = take len a @ [1]" using r by auto
        have "take len (take (Suc len) a3) = take len a" unfolding a3(3) using len by simp
        then have "take len a3 = take len a" by simp
        moreover have "HuffManCoding ?t len a = Some (a3, map (map_prod id (append (take len a))) (codes ?t))"
          using l a3(1) nn len a1 unfolding codes_fork [OF full_fork.hyps(1)] map_append comp by (simp add: wr_def)
        moreover have "len + tree_height ?t \<le> length a" using True r' h by simp
        ultimately show ?thesis using a3(2) by (simp only: if_True) blast
      qed
    qed
  qed
qed

section \<open>Properties\<close>

text \<open>
  C15: the Huffman tree is optimal.  For two or more weights whose path lengths fit in an int, the tree that \<open>CreateHuffman\<close> builds
  has exactly these weights at its leaves, and \<open>WeightPathLength\<close> computes for it the least value that it
  computes for any full tree with these leaves.  Weights may be negative.
\<close>

theorem huffman_optimal:
  assumes n: "2 \<le> n" "n \<le> length a" "n < 2 ^ 31" and B: "int (n - 1) * (\<Sum>x\<leftarrow>take n a. \<bar>x\<bar>) < 2 ^ 31"
  shows "\<exists>t c. CreateHuffman a n = Some t \<and> full t \<and> leaf_weights t = mset (take n a) \<and> WeightPathLength t 0 = Some c
    \<and> (\<forall>u d. full u \<longrightarrow> leaf_weights u = mset (take n a) \<longrightarrow> WeightPathLength u 0 = Some d \<longrightarrow> c \<le> d)"
proof -
  let ?S = "\<Sum>x\<leftarrow>take n a. \<bar>x\<bar>"
  have S0: "0 \<le> ?S" by (rule sum_list_nonneg) auto
  then have "1 * ?S \<le> int (n - 1) * ?S" using n by (intro mult_right_mono) auto
  then have "?S < 2 ^ 31" using B by linarith
  from CreateHuffman_spec [OF n(1,2) this] obtain t where t: "CreateHuffman a n = Some t" "tree_ok t" "leaf_weights t = mset (take n a)"
    "\<forall>u. full u \<longrightarrow> leaf_weights u = mset (take n a) \<longrightarrow> pcost (profile t) \<le> pcost (profile u)" by blast
  have f: "full t" using t(2) by (simp add: tree_ok_def)
  have h: "tree_height t \<le> n - 1" using height_less [OF f] t(3) n by simp
  have "abs_leaves t = ?S" using t(3) by (simp add: abs_leaves_def flip: sum_mset_sum_list mset_map)
  moreover have "?S * int (tree_height t) \<le> int (n - 1) * ?S" using h S0 by (simp add: mult.commute mult_right_mono)
  ultimately have "WeightPathLength t 0 = Some (wpl t 0)" using h n B by (intro WeightPathLength_spec [OF f]) auto
  moreover have "wpl t 0 \<le> d" if "full u" "leaf_weights u = mset (take n a)" "WeightPathLength u 0 = Some d" for u d
    using WeightPathLength_Some [OF that(1,3)] t(4) that by (simp add: wpl_def)
  ultimately show ?thesis using t f by blast
qed

text \<open>
  The codes.  For a full tree of height at most 10 \<open>HuffManCoding\<close> prints every leaf once, no code is a prefix of another, and the
  lengths weighted with the leaves sum up to the weighted path length; for a higher tree it writes beyond its array,
  which twelve weights suffice for.
\<close>

theorem huffman_codes:
  assumes "full t"
  shows "(if tree_height t \<le> 10
     then \<exists>a out. HuffManCoding t 0 coding_array = Some (a, out) \<and> prefix_free (map snd out) \<and> mset (map fst out) = leaf_weights t
       \<and> (\<forall>c. WeightPathLength t 0 = Some c \<longrightarrow> c = (\<Sum>(w, code)\<leftarrow>out. w * int (length code)))
     else HuffManCoding t 0 coding_array = None)
   \<and> Option.bind (CreateHuffman [1, 1, 2, 3, 5, 8, 13, 21, 34, 55, 89, 144] 12) (\<lambda>t. HuffManCoding t 0 coding_array) = None"
proof
  have id: "map (map_prod id (append [])) cs = cs" for cs :: "(int \<times> int list) list" by (induction cs) auto
  have fst: "mset (map fst (codes t)) = leaf_weights t"
    using arg_cong [OF codes_profile [OF assms], of "image_mset fst"] by (simp add: leaf_weights_def multiset.map_comp comp_def case_prod_beta)
  have "(\<Sum>(w, code)\<leftarrow>codes t. w * int (length code)) = pcost (profile t)"
    unfolding codes_profile [OF assms, symmetric] by (simp add: pcost_def multiset.map_comp comp_def case_prod_unfold flip: sum_mset_sum_list mset_map)
  then have "\<forall>c. WeightPathLength t 0 = Some c \<longrightarrow> c = (\<Sum>(w, code)\<leftarrow>codes t. w * int (length code))"
    using WeightPathLength_Some [OF assms, of 0] by (auto simp: wpl_def)
  then show "if tree_height t \<le> 10
     then \<exists>a out. HuffManCoding t 0 coding_array = Some (a, out) \<and> prefix_free (map snd out) \<and> mset (map fst out) = leaf_weights t
       \<and> (\<forall>c. WeightPathLength t 0 = Some c \<longrightarrow> c = (\<Sum>(w, code)\<leftarrow>out. w * int (length code)))
     else HuffManCoding t 0 coding_array = None"
    using HuffManCoding_spec [OF assms, of 0 coding_array] codes_prefix_free [OF assms] fst by (auto simp: id coding_array_def split: if_splits)
next
  show "Option.bind (CreateHuffman [1, 1, 2, 3, 5, 8, 13, 21, 34, 55, 89, 144] 12) (\<lambda>t. HuffManCoding t 0 coding_array) = None"
    by code_simp
qed

theorem huffman_optimal_witness:
  "\<exists>t c. CreateHuffman [5, 1, 3, 2] 4 = Some t \<and> WeightPathLength t 0 = Some c \<and> c = 20
     \<and> (\<forall>u d. full u \<longrightarrow> leaf_weights u = {#5, 1, 3, 2#} \<longrightarrow> WeightPathLength u 0 = Some d \<longrightarrow> c \<le> d)"
proof -
  have e: "Option.bind (CreateHuffman [5, 1, 3, 2] 4) (\<lambda>t. WeightPathLength t 0) = Some 20" by code_simp
  have p: "(2 :: nat) \<le> 4" "(4 :: nat) \<le> length [5, 1, 3, 2 :: int]" "(4 :: nat) < 2 ^ 31"
    "int (4 - 1) * (\<Sum>x\<leftarrow>take 4 [5, 1, 3, 2]. \<bar>x\<bar>) < 2 ^ 31" by simp_all
  from huffman_optimal [OF p] e show ?thesis by auto
qed

theorem huffman_codes_witness:
  "\<exists>t a out. CreateHuffman [5, 1, 3, 2] 4 = Some t \<and> HuffManCoding t 0 coding_array = Some (a, out) \<and> prefix_free (map snd out)
     \<and> mset (map fst out) = {#5, 1, 3, 2#}"
proof -
  let ?t = "BTreeNode 11 (BTreeNode 5 Null Null) (BTreeNode 6 (BTreeNode 3 (BTreeNode 1 Null Null) (BTreeNode 2 Null Null)) (BTreeNode 3 Null Null))"
  have f: "full ?t" by (intro full.intros)
  have c: "CreateHuffman [5, 1, 3, 2] 4 = Some ?t" by code_simp
  have l: "leaf_weights ?t = {#5, 1, 3, 2#}" by (simp add: leaf_weights_def add_mset_commute)
  have "tree_height ?t \<le> 10" by simp
  with huffman_codes [OF f] l c show ?thesis by (auto simp del: HuffManCoding.simps)
qed

section \<open>Printing a tree\<close>

datatype token = Num int | Open | Comma | Shut

fun PrintBTree_int :: "btree \<Rightarrow> token list" where
  "PrintBTree_int Null = []"
| "PrintBTree_int (BTreeNode d l r) =
     Num d # (if l \<noteq> Null \<or> r \<noteq> Null
              then Open # PrintBTree_int l @ (if r \<noteq> Null then [Comma] else []) @ PrintBTree_int r @ [Shut]
              else [])"

text \<open>What can stand behind a printed tree.\<close>

definition after_tree :: "token list \<Rightarrow> bool" where
  "after_tree u \<longleftrightarrow> (case u of Num d # v \<Rightarrow> False | Open # v \<Rightarrow> False | _ \<Rightarrow> True)"

lemma after_tree_simps [simp]:
  "after_tree []" "after_tree (Comma # u)" "after_tree (Shut # u)" "\<not> after_tree (Num d # u)" "\<not> after_tree (Open # u)"
  by (simp_all add: after_tree_def)

lemma print_unique:
  "PrintBTree_int t @ u = PrintBTree_int t' @ u' \<Longrightarrow> after_tree u \<Longrightarrow> after_tree u' \<Longrightarrow> t = t' \<and> u = u'"
proof (induction t arbitrary: t' u u')
  case Null
  then show ?case by (cases t') auto
next
  case (BTreeNode d l r)
  note IH = BTreeNode.IH and prems = BTreeNode.prems
  obtain l' r' where t': "t' = BTreeNode d l' r'" using prems by (cases t') auto
  show ?case
  proof (cases "l = Null \<and> r = Null \<or> l' = Null \<and> r' = Null")
    case True
    then show ?thesis using prems unfolding t' by (auto split: if_splits)
  next
    case False
    let ?c = "\<lambda>r. if r \<noteq> Null then [Comma] else []"
    have "PrintBTree_int l @ (?c r @ PrintBTree_int r @ Shut # u) = PrintBTree_int l' @ (?c r' @ PrintBTree_int r' @ Shut # u')"
      using prems(1) False unfolding t' by (auto split: if_splits)
    from IH(1) [OF this] have l: "l = l'" "?c r @ PrintBTree_int r @ Shut # u = ?c r' @ PrintBTree_int r' @ Shut # u'" by auto
    then have "PrintBTree_int r @ Shut # u = PrintBTree_int r' @ Shut # u'" by (auto split: if_splits)
    from IH(2) [OF this] show ?thesis using l(1) t' by simp
  qed
qed

text \<open>The print determines the tree, whatever its shape.\<close>

lemma PrintBTree_inj: "PrintBTree_int t = PrintBTree_int t' \<Longrightarrow> t = t'"
  using print_unique [of t "[]" t' "[]"] by simp

section \<open>The program\<close>

text \<open>Numbers are read until one is greater than 1; \<open>None\<close> when the input ends, and \<open>scanf\<close> answers nothing more.\<close>

fun read_count :: "int list \<Rightarrow> (int \<times> int list) option" where
  "read_count [] = None"
| "read_count (n # input) = (if n > 1 then Some (n, input) else read_count input)"

text \<open>What is printed: the tree, its weighted path length, and the codes of the leaves.\<close>

definition huffman_main :: "int list \<Rightarrow> (token list \<times> int \<times> (int \<times> int list) list) option" where
  "huffman_main input =
     do { (n, input) \<leftarrow> read_count input;
          a \<leftarrow> (if nat n \<le> length input then Some (take (nat n) input) else None);
          fbt \<leftarrow> CreateHuffman a (nat n);
          c \<leftarrow> WeightPathLength fbt 0;
          (_, out) \<leftarrow> HuffManCoding fbt 0 coding_array;
          Some (PrintBTree_int fbt, c, out) }"

lemma read_count_skips: "\<forall>x \<in> set ys. x \<le> 1 \<Longrightarrow> 1 < n \<Longrightarrow> read_count (ys @ n # input) = Some (n, input)"
  by (induction ys) auto

text \<open>
  The Huffman program.  For up to eleven weights whose sums fit in an int the program prints a tree with exactly these weights, its
  weighted path length, and for every leaf a code; no code is a prefix of another, and the printed length is that of the codes.
\<close>

theorem huffman_program:
  assumes ys: "\<forall>x \<in> set ys. x \<le> 1" and n: "2 \<le> length ws" "length ws \<le> 11"
    and B: "int (length ws - 1) * (\<Sum>x\<leftarrow>ws. \<bar>x\<bar>) < 2 ^ 31"
  shows "\<exists>t c out. huffman_main (ys @ int (length ws) # ws) = Some (PrintBTree_int t, c, out) \<and> full t
    \<and> leaf_weights t = mset ws \<and> mset (map fst out) = mset ws \<and> prefix_free (map snd out)
    \<and> c = (\<Sum>(w, code)\<leftarrow>out. w * int (length code))"
proof -
  let ?S = "\<Sum>x\<leftarrow>ws. \<bar>x\<bar>"
  have S0: "0 \<le> ?S" by (rule sum_list_nonneg) auto
  then have "1 * ?S \<le> int (length ws - 1) * ?S" using n by (intro mult_right_mono) auto
  then have "(\<Sum>x\<leftarrow>take (length ws) ws. \<bar>x\<bar>) < 2 ^ 31" using B by simp
  from CreateHuffman_spec [OF n(1) _ this] obtain t where t: "CreateHuffman ws (length ws) = Some t" "tree_ok t" "leaf_weights t = mset ws"
    by auto
  have f: "full t" using t(2) by (simp add: tree_ok_def)
  have h: "tree_height t \<le> length ws - 1" using height_less [OF f] t(3) n by simp
  have "abs_leaves t = ?S" using t(3) by (simp add: abs_leaves_def flip: sum_mset_sum_list mset_map)
  moreover have "?S * int (tree_height t) \<le> int (length ws - 1) * ?S" 
    using h S0 mult_right_mono [of "int (tree_height t)" "int (length ws - 1)" ?S] by (simp only: mult.commute of_nat_le_iff)
  ultimately have w: "WeightPathLength t 0 = Some (wpl t 0)" using h n B by (intro WeightPathLength_spec [OF f]) auto
  have id: "map (map_prod id (append [])) cs = cs" for cs :: "(int \<times> int list) list" by (induction cs) auto
  obtain a where c: "HuffManCoding t 0 coding_array = Some (a, codes t)"
    using HuffManCoding_spec [OF f, of 0 coding_array] h n by (auto simp: id coding_array_def split: if_splits)
  have m: "huffman_main (ys @ int (length ws) # ws) = Some (PrintBTree_int t, wpl t 0, codes t)"
    using read_count_skips [OF ys, of "int (length ws)" ws] n t(1) w c by (simp add: huffman_main_def)
  have "mset (map fst (codes t)) = leaf_weights t"
    using arg_cong [OF codes_profile [OF f], of "image_mset fst"] by (simp add: leaf_weights_def multiset.map_comp comp_def case_prod_beta)
  moreover have "wpl t 0 = (\<Sum>(w, code)\<leftarrow>codes t. w * int (length code))"
    unfolding wpl_def codes_profile [OF f, symmetric] by (simp add: pcost_def multiset.map_comp comp_def case_prod_unfold flip: sum_mset_sum_list mset_map)
  ultimately show ?thesis using m f t(3) codes_prefix_free [OF f] by metis
qed

end
