(* ===== verification/Memory_Pool.thy ===== *)
theory Memory_Pool
  imports Prelude
begin

text \<open>
  The block allocator of example_mem_pool.cpp on an explicit heap of block headers.  An address is a region that
  \<open>malloc\<close> returned and a byte offset in it; a header takes 24 bytes.  Reading or writing a header through a null
  pointer or through an address where none lies is \<open>None\<close>.  The allocator succeeds, and the user does not
  write through the pointers handed out: they point into the headers, see the last theorem.  An address here is never
  null, so the check of \<open>Xpool_free\<close> that the block it has computed is null, which holds for the pointer 8 only, has no
  branch.
\<close>

section \<open>The code\<close>

type_synonym addr = "nat \<times> int"

record MemoryBlock =
  pNext :: "addr option"
  pPrev :: "addr option"
  data :: "addr option"

record MemoryPool =
  blockCount :: "32 word"
  blockCountStep :: "32 word"
  blockSize :: "32 word"
  freeCount :: "32 word"
  freeHead :: "addr option"
  freeTail :: "addr option"
  usedHead :: "addr option"
  usedTail :: "addr option"
  pBlockMemoryHead :: "addr option"
  pDataMemoryHead :: "addr option"
  heap :: "addr \<rightharpoonup> MemoryBlock"
  next_region :: nat

definition sizeof_block :: int where "sizeof_block = 24"
definition sizeof_ptr :: int where "sizeof_ptr = 8"

text \<open>Changing the header behind a pointer.\<close>

definition set_block :: "addr option \<Rightarrow> (MemoryBlock \<Rightarrow> MemoryBlock) \<Rightarrow> MemoryPool \<Rightarrow> MemoryPool option" where
  "set_block q f p = do { a \<leftarrow> q; b \<leftarrow> heap p a; Some (p\<lparr>heap := (heap p)(a \<mapsto> f b)\<rparr>) }"

text \<open>One round of the loop of \<open>Xpool_block\<close>: block \<open>i\<close> is linked behind the free blocks.\<close>

definition link_block :: "nat \<Rightarrow> nat \<Rightarrow> 32 word \<Rightarrow> nat \<Rightarrow> MemoryPool \<Rightarrow> MemoryPool option" where
  "link_block blocks datas bsize i p =
     (let pFree = (blocks, sizeof_block * int i);
          p = p\<lparr>heap := (heap p)(pFree \<mapsto> \<lparr>pNext = None, pPrev = freeTail p, data = Some (datas, (uint bsize + sizeof_ptr) * int i)\<rparr>)\<rparr> in
      if freeHead p = None then Some (p\<lparr>freeHead := Some pFree, freeTail := Some pFree\<rparr>)
      else do { p \<leftarrow> set_block (freeTail p) (\<lambda>b. b\<lparr>pNext := Some pFree\<rparr>) p; Some (p\<lparr>freeTail := Some pFree\<rparr>) })"

fun link_blocks :: "nat \<Rightarrow> nat \<Rightarrow> 32 word \<Rightarrow> nat list \<Rightarrow> MemoryPool \<Rightarrow> MemoryPool option" where
  "link_blocks blocks datas bsize [] p = Some p"
| "link_blocks blocks datas bsize (i # is) p = do { p \<leftarrow> link_block blocks datas bsize i p; link_blocks blocks datas bsize is p }"

definition Xpool_block :: "32 word \<Rightarrow> 32 word \<Rightarrow> MemoryPool \<Rightarrow> MemoryPool option" where
  "Xpool_block cnt bsize p =
     (let r = next_region p;
          p = p\<lparr>pBlockMemoryHead := Some (r, 0), pDataMemoryHead := Some (r + 1, 0), next_region := r + 2\<rparr> in
      link_blocks r (r + 1) bsize [0..<unat cnt] p)"

text \<open>The static pool before the first call, and \<open>Xpool_init\<close> on any pool.\<close>

definition memory :: MemoryPool where
  "memory = \<lparr>blockCount = 0, blockCountStep = 0, blockSize = 0, freeCount = 0, freeHead = None, freeTail = None, usedHead = None,
     usedTail = None, pBlockMemoryHead = None, pDataMemoryHead = None, heap = Map.empty, next_region = 0\<rparr>"

definition Xpool_init :: "32 word \<Rightarrow> 32 word \<Rightarrow> MemoryPool \<Rightarrow> MemoryPool option" where
  "Xpool_init cnt bsize p =
     Xpool_block cnt bsize
       (p\<lparr>blockCount := cnt, blockSize := bsize, freeCount := cnt, blockCountStep := 100,
          freeHead := None, freeTail := None, usedHead := None, usedTail := None\<rparr>)"

text \<open>\<open>free\<close> of a region removes its headers.\<close>

definition free_region :: "addr option \<Rightarrow> MemoryPool \<Rightarrow> MemoryPool" where
  "free_region q p = (case q of None \<Rightarrow> p | Some a \<Rightarrow> p\<lparr>heap := \<lambda>b. if fst b = fst a then None else heap p b\<rparr>)"

definition Xpool_destroy :: "MemoryPool \<Rightarrow> MemoryPool" where
  "Xpool_destroy p = free_region (pDataMemoryHead p) (free_region (pBlockMemoryHead p) p)"

definition Xpool_alloc :: "32 word \<Rightarrow> MemoryPool \<Rightarrow> (addr \<times> MemoryPool) option" where
  "Xpool_alloc req p = do {
     p \<leftarrow> (if freeHead p = None then Xpool_block (blockCountStep p) (blockSize p) p else Some p);
     a \<leftarrow> freeHead p;
     b \<leftarrow> heap p a;
     let p = p\<lparr>freeHead := pNext b, freeCount := freeCount p - 1\<rparr>;
     p \<leftarrow> set_block (Some a) (\<lambda>b. b\<lparr>pNext := None, pPrev := usedTail p\<rparr>) p;
     p \<leftarrow> (if usedHead p = None then Some (p\<lparr>usedHead := Some a, usedTail := Some a\<rparr>)
           else do { p \<leftarrow> set_block (usedTail p) (\<lambda>b. b\<lparr>pNext := Some a\<rparr>) p; Some (p\<lparr>usedTail := Some a\<rparr>) });
     p \<leftarrow> set_block (Some a) (\<lambda>b. b\<lparr>data := Some a\<rparr>) p;
     Some ((fst a, snd a + sizeof_ptr), p) }"

definition Xpool_free :: "addr \<Rightarrow> MemoryPool \<Rightarrow> MemoryPool option" where
  "Xpool_free ptr p =
     (let a = (fst ptr, snd ptr - sizeof_ptr) in
      do {
        b \<leftarrow> heap p a;
        p \<leftarrow> (if pPrev b = None then
                (let p = p\<lparr>usedHead := pNext b\<rparr> in
                 if usedHead p \<noteq> None then set_block (usedHead p) (\<lambda>b. b\<lparr>pPrev := None\<rparr>) p else Some p)
              else if pNext b = None then
                (let p = p\<lparr>usedTail := pPrev b\<rparr> in
                 if usedTail p \<noteq> None then set_block (usedTail p) (\<lambda>b. b\<lparr>pNext := None\<rparr>) p else Some p)
              else do {
                p \<leftarrow> set_block (pPrev b) (\<lambda>c. c\<lparr>pNext := pNext b\<rparr>) p;
                b \<leftarrow> heap p a;
                set_block (pNext b) (\<lambda>c. c\<lparr>pPrev := pPrev b\<rparr>) p });
        p \<leftarrow> set_block (Some a) (\<lambda>b. b\<lparr>pPrev := freeTail p, pNext := None, data := Some a\<rparr>) p;
        p \<leftarrow> set_block (freeTail p) (\<lambda>b. b\<lparr>pNext := Some a\<rparr>) p;
        Some (p\<lparr>freeTail := Some a, freeCount := freeCount p + 1\<rparr>) })"

section \<open>Linked lists on the heap\<close>

declare split_paired_All [simp del] split_paired_Ex [simp del]

fun next_seg :: "(addr \<rightharpoonup> MemoryBlock) \<Rightarrow> addr option \<Rightarrow> addr list \<Rightarrow> addr option \<Rightarrow> bool" where
  "next_seg h s [] e \<longleftrightarrow> s = e"
| "next_seg h s (a # xs) e \<longleftrightarrow> s = Some a \<and> (\<exists>b. h a = Some b \<and> next_seg h (pNext b) xs e)"

fun prev_seg :: "(addr \<rightharpoonup> MemoryBlock) \<Rightarrow> addr option \<Rightarrow> addr list \<Rightarrow> bool" where
  "prev_seg h q [] \<longleftrightarrow> True"
| "prev_seg h q (a # xs) \<longleftrightarrow> (\<exists>b. h a = Some b \<and> pPrev b = q) \<and> prev_seg h (Some a) xs"

definition tail_of :: "addr option \<Rightarrow> addr list \<Rightarrow> addr option" where
  "tail_of q xs = (if xs = [] then q else Some (last xs))"

lemma tail_of_simps [simp]: "tail_of q [] = q" "tail_of q (xs @ a # ys) = tail_of (Some a) ys" "tail_of q (a # xs) = tail_of (Some a) xs"
  by (simp_all add: tail_of_def)

lemma next_seg_append: "next_seg h s (xs @ ys) e \<longleftrightarrow> (\<exists>m. next_seg h s xs m \<and> next_seg h m ys e)"
  by (induction xs arbitrary: s) auto

lemma prev_seg_append: "prev_seg h q (xs @ ys) \<longleftrightarrow> prev_seg h q xs \<and> prev_seg h (tail_of q xs) ys"
  by (induction xs arbitrary: q) auto

lemma next_seg_frame: "(\<And>a. a \<in> set xs \<Longrightarrow> map_option pNext (h' a) = map_option pNext (h a)) \<Longrightarrow> next_seg h' s xs e = next_seg h s xs e"
proof (induction xs arbitrary: s)
  case (Cons a xs)
  have "map_option pNext (h' a) = map_option pNext (h a)" using Cons.prems by simp
  then show ?case using Cons by (cases "h a"; cases "h' a") auto
qed simp

lemma prev_seg_frame: "(\<And>a. a \<in> set xs \<Longrightarrow> map_option pPrev (h' a) = map_option pPrev (h a)) \<Longrightarrow> prev_seg h' q xs = prev_seg h q xs"
proof (induction xs arbitrary: q)
  case (Cons a xs)
  have "map_option pPrev (h' a) = map_option pPrev (h a)" using Cons.prems by simp
  then show ?case using Cons by (cases "h a"; cases "h' a") auto
qed simp

lemma next_seg_dom: "next_seg h s xs e \<Longrightarrow> a \<in> set xs \<Longrightarrow> \<exists>b. h a = Some b"
  by (induction xs arbitrary: s) auto

lemma next_seg_upd: "a \<notin> set xs \<or> map_option pNext (h a) = Some (pNext b) \<Longrightarrow> next_seg (h(a \<mapsto> b)) s xs e = next_seg h s xs e"
  by (rule next_seg_frame) auto

lemma prev_seg_upd: "a \<notin> set xs \<or> map_option pPrev (h a) = Some (pPrev b) \<Longrightarrow> prev_seg (h(a \<mapsto> b)) q xs = prev_seg h q xs"
  by (rule prev_seg_frame) auto

text \<open>Relinking the last block of a segment.\<close>

lemma next_seg_relink:
  "next_seg h s (xs @ [l]) e \<Longrightarrow> l \<notin> set xs \<Longrightarrow> next_seg (h(l \<mapsto> b)) s (xs @ [l]) (pNext b)"
  by (auto simp: next_seg_append next_seg_upd)

text \<open>The state of a pool with the free blocks \<open>F\<close> and the used blocks \<open>U\<close>.\<close>

definition free_rep :: "MemoryPool \<Rightarrow> addr list \<Rightarrow> bool" where
  "free_rep p F \<longleftrightarrow> next_seg (heap p) (freeHead p) F None \<and> (F \<noteq> [] \<longrightarrow> freeTail p = Some (last F))"

definition used_rep :: "MemoryPool \<Rightarrow> addr list \<Rightarrow> bool" where
  "used_rep p U \<longleftrightarrow> next_seg (heap p) (usedHead p) U None \<and> prev_seg (heap p) None U \<and> usedTail p = tail_of None U"

definition pool_rep :: "MemoryPool \<Rightarrow> addr list \<Rightarrow> addr list \<Rightarrow> bool" where
  "pool_rep p F U \<longleftrightarrow> distinct (F @ U) \<and> free_rep p F \<and> used_rep p U \<and> (\<forall>a. heap p a \<noteq> None \<longrightarrow> fst a < next_region p)"

definition user_ptr :: "addr \<Rightarrow> addr" where
  "user_ptr a = (fst a, snd a + sizeof_ptr)"

section \<open>Allocating new blocks\<close>

definition new_addr :: "nat \<Rightarrow> nat \<Rightarrow> addr" where
  "new_addr blocks i = (blocks, sizeof_block * int i)"

lemma new_addr_inj: "inj (new_addr r)"
  by (rule injI) (simp add: new_addr_def sizeof_block_def)

lemma set_block_Some: "heap p a = Some b \<Longrightarrow> set_block (Some a) f p = Some (p\<lparr>heap := (heap p)(a \<mapsto> f b)\<rparr>)"
  by (simp add: set_block_def)

lemma link_block_spec:
  assumes F: "free_rep p F" and new: "new_addr r i \<notin> set F" and d: "distinct F"
  shows "\<exists>p'. link_block r ds bsize i p = Some p' \<and> free_rep p' (F @ [new_addr r i])
    \<and> (\<forall>x. x \<notin> set F \<longrightarrow> x \<noteq> new_addr r i \<longrightarrow> heap p' x = heap p x) \<and> usedHead p' = usedHead p \<and> usedTail p' = usedTail p
    \<and> next_region p' = next_region p \<and> (\<forall>x. heap p' x \<noteq> None \<longrightarrow> heap p x \<noteq> None \<or> x = new_addr r i)"
proof (cases F rule: rev_cases)
  case Nil
  then have "freeHead p = None" using F by (simp add: free_rep_def)
  then show ?thesis using Nil by (simp add: link_block_def free_rep_def new_addr_def Let_def)
next
  case (snoc xs l)
  let ?a = "new_addr r i"
  define b0 where "b0 = \<lparr>pNext = None, pPrev = freeTail p, data = Some (ds, (uint bsize + sizeof_ptr) * int i)\<rparr>"
  define h where "h = (heap p)(?a \<mapsto> b0)"
  have nn: "freeHead p \<noteq> None" "freeTail p = Some l" using F snoc by (cases xs; auto simp: free_rep_def)+
  have seg: "next_seg h (freeHead p) (xs @ [l]) None" using F snoc new unfolding h_def free_rep_def by (subst next_seg_upd) auto
  then obtain b where b: "h l = Some b" using next_seg_dom by fastforce
  have "l \<notin> set xs" using d snoc by simp
  from next_seg_relink [OF seg this, of "b\<lparr>pNext := Some ?a\<rparr>"]
  have "next_seg (h(l \<mapsto> b\<lparr>pNext := Some ?a\<rparr>)) (freeHead p) (F @ [?a]) None"
    using new snoc b0_def unfolding snoc by (subst next_seg_append) (auto simp: h_def)
  moreover have "link_block r ds bsize i p = Some (p\<lparr>heap := h(l \<mapsto> b\<lparr>pNext := Some ?a\<rparr>), freeTail := Some ?a\<rparr>)"
    using nn b by (simp add: link_block_def set_block_Some Let_def flip: new_addr_def) (simp add: set_block_def h_def b0_def new_addr_def nn)
  ultimately show ?thesis using snoc b by (auto simp: free_rep_def h_def)
qed

lemma link_blocks_spec:
  "free_rep p F \<Longrightarrow> distinct (F @ map (new_addr r) is) \<Longrightarrow>
   \<exists>p'. link_blocks r ds bsize is p = Some p' \<and> free_rep p' (F @ map (new_addr r) is)
    \<and> (\<forall>x. x \<notin> set F \<longrightarrow> fst x \<noteq> r \<longrightarrow> heap p' x = heap p x) \<and> usedHead p' = usedHead p \<and> usedTail p' = usedTail p
    \<and> next_region p' = next_region p \<and> (\<forall>x. heap p' x \<noteq> None \<longrightarrow> heap p x \<noteq> None \<or> fst x = r)"
proof (induction "is" arbitrary: p F)
  case (Cons i "is")
  from link_block_spec [OF Cons.prems(1), of r i ds bsize] Cons.prems(2) obtain p1 where p1: "link_block r ds bsize i p = Some p1"
    "free_rep p1 (F @ [new_addr r i])" "\<forall>x. x \<notin> set F \<longrightarrow> x \<noteq> new_addr r i \<longrightarrow> heap p1 x = heap p x" "usedHead p1 = usedHead p" "usedTail p1 = usedTail p"
    "next_region p1 = next_region p" "\<forall>x. heap p1 x \<noteq> None \<longrightarrow> heap p x \<noteq> None \<or> x = new_addr r i" by auto
  have f: "fst (new_addr r i) = r" by (simp add: new_addr_def)
  from Cons.IH [OF p1(2)] Cons.prems(2) obtain p2 where p2: "link_blocks r ds bsize is p1 = Some p2" "free_rep p2 (F @ map (new_addr r) (i # is))"
    "\<forall>x. x \<notin> set (F @ [new_addr r i]) \<longrightarrow> fst x \<noteq> r \<longrightarrow> heap p2 x = heap p1 x" "usedHead p2 = usedHead p1" "usedTail p2 = usedTail p1"
    "next_region p2 = next_region p1" "\<forall>x. heap p2 x \<noteq> None \<longrightarrow> heap p1 x \<noteq> None \<or> fst x = r" by auto
  have "heap p2 x = heap p x" if "x \<notin> set F" "fst x \<noteq> r" for x
  proof -
    have "x \<noteq> new_addr r i" using f that by auto
    then show ?thesis using p1(3) p2(3) that by (cases x) simp
  qed
  moreover have "heap p x \<noteq> None \<or> fst x = r" if "heap p2 x \<noteq> None" for x using p1(7) p2(7) that f by metis
  ultimately show ?case using p1 p2 by simp
qed simp

lemma Xpool_block_spec:
  assumes p: "pool_rep p [] U"
  shows "\<exists>p'. Xpool_block cnt bsize p = Some p' \<and> pool_rep p' (map (new_addr (next_region p)) [0..<unat cnt]) U"
proof -
  let ?r = "next_region p"
  let ?p = "p\<lparr>pBlockMemoryHead := Some (?r, 0), pDataMemoryHead := Some (?r + 1, 0), next_region := ?r + 2\<rparr>"
  let ?N = "map (new_addr ?r) [0..<unat cnt]"
  have d: "distinct ?N" using inj_on_subset [OF new_addr_inj subset_UNIV] by (simp add: distinct_map)
  have "free_rep ?p []" using p by (simp add: pool_rep_def free_rep_def)
  from link_blocks_spec [OF this, of ?r "[0..<unat cnt]" "?r + 1" bsize] d obtain p' where p': "link_blocks ?r (?r + 1) bsize [0..<unat cnt] ?p = Some p'"
    "free_rep p' ?N" "\<forall>x. fst x \<noteq> ?r \<longrightarrow> heap p' x = heap p x" "usedHead p' = usedHead p" "usedTail p' = usedTail p"
    "next_region p' = ?r + 2" "\<forall>x. heap p' x \<noteq> None \<longrightarrow> heap p x \<noteq> None \<or> fst x = ?r" by auto
  have low: "fst a < ?r" if "a \<in> set U" for a
    using p next_seg_dom [OF _ that] unfolding pool_rep_def used_rep_def by blast
  then have same: "heap p' a = heap p a" if "a \<in> set U" for a using p'(3) that by fastforce
  have "used_rep p' U" using p p'(4,5) same next_seg_frame [of U "heap p'" "heap p"] prev_seg_frame [of U "heap p'" "heap p"]
    by (simp add: pool_rep_def used_rep_def)
  moreover have "distinct (?N @ U)" using d p low by (fastforce simp: pool_rep_def new_addr_def)
  moreover have "\<forall>a. heap p' a \<noteq> None \<longrightarrow> fst a < next_region p'" using p p'(6,7) unfolding pool_rep_def by fastforce
  ultimately have "pool_rep p' ?N U" using p'(2) by (simp add: pool_rep_def)
  moreover have "Xpool_block cnt bsize p = Some p'" using p'(1) by (simp add: Xpool_block_def Let_def)
  ultimately show ?thesis by blast
qed

section \<open>Handing out a block\<close>

lemma user_append:
  assumes u: "used_rep p U" and a: "a \<notin> set U" "heap p a = Some b" "pNext b = None" "pPrev b = usedTail p" and d: "distinct U"
  shows "\<exists>p'. (if usedHead p = None then Some (p\<lparr>usedHead := Some a, usedTail := Some a\<rparr>)
           else do { p \<leftarrow> set_block (usedTail p) (\<lambda>b. b\<lparr>pNext := Some a\<rparr>) p; Some (p\<lparr>usedTail := Some a\<rparr>) }) = Some p'
    \<and> used_rep p' (U @ [a]) \<and> freeHead p' = freeHead p \<and> freeTail p' = freeTail p \<and> next_region p' = next_region p
    \<and> (\<forall>x. x \<notin> set U \<longrightarrow> heap p' x = heap p x) \<and> (\<forall>x. heap p' x \<noteq> None \<longrightarrow> heap p x \<noteq> None)"
proof (cases U rule: rev_cases)
  case Nil
  then show ?thesis using u a by (auto simp: used_rep_def)
next
  case (snoc xs l)
  have nn: "usedHead p \<noteq> None" "usedTail p = Some l" using u snoc by (cases xs; auto simp: used_rep_def)+
  have seg: "next_seg (heap p) (usedHead p) (xs @ [l]) None" using u snoc by (simp add: used_rep_def)
  then obtain c where c: "heap p l = Some c" using next_seg_dom by fastforce
  let ?h = "(heap p)(l \<mapsto> c\<lparr>pNext := Some a\<rparr>)"
  have la: "a \<noteq> l" "l \<notin> set xs" using a(1) snoc d by auto
  from next_seg_relink [OF seg la(2), of "c\<lparr>pNext := Some a\<rparr>"] have "next_seg ?h (usedHead p) (U @ [a]) None"
    using a la unfolding snoc by (subst next_seg_append) auto
  moreover have "prev_seg ?h None (U @ [a])"
    using u a c la unfolding prev_seg_append used_rep_def by (subst prev_seg_upd) (auto simp: snoc)
  ultimately show ?thesis using nn c snoc by (auto simp: set_block_Some used_rep_def)
qed

lemma alloc_pop:
  assumes p: "pool_rep p (a # F) U"
  shows "\<exists>p' b. Xpool_alloc req p = Some (user_ptr a, p') \<and> pool_rep p' F (U @ [a]) \<and> heap p' a = Some b \<and> data b = Some a"
proof -
  have a: "a \<notin> set U" "a \<notin> set F" "distinct (F @ U)" "freeHead p = Some a" using p by (auto simp: pool_rep_def free_rep_def)
  obtain b where b: "heap p a = Some b" "next_seg (heap p) (pNext b) F None" using p by (auto simp: pool_rep_def free_rep_def)
  define b1 where "b1 = b\<lparr>pNext := None, pPrev := usedTail p\<rparr>"
  define p1 where "p1 = p\<lparr>freeHead := pNext b, freeCount := freeCount p - 1, heap := (heap p)(a \<mapsto> b1)\<rparr>"
  have p1: "set_block (Some a) (\<lambda>c. c\<lparr>pNext := None, pPrev := usedTail p\<rparr>) (p\<lparr>freeHead := pNext b, freeCount := freeCount p - 1\<rparr>) = Some p1"
    using b by (simp add: set_block_Some p1_def b1_def)
  have u1: "used_rep p1 U" using p a unfolding pool_rep_def used_rep_def p1_def by (simp add: next_seg_upd prev_seg_upd)
  have "heap p1 a = Some b1" "pNext b1 = None" "pPrev b1 = usedTail p1" by (simp_all add: p1_def b1_def)
  from user_append [OF u1 a(1) this] a(3) obtain p2 where p2:
    "(if usedHead p1 = None then Some (p1\<lparr>usedHead := Some a, usedTail := Some a\<rparr>)
      else do { p \<leftarrow> set_block (usedTail p1) (\<lambda>b. b\<lparr>pNext := Some a\<rparr>) p1; Some (p\<lparr>usedTail := Some a\<rparr>) }) = Some p2"
    "used_rep p2 (U @ [a])" "freeHead p2 = pNext b" "freeTail p2 = freeTail p" "next_region p2 = next_region p"
    "\<forall>x. x \<notin> set U \<longrightarrow> heap p2 x = heap p1 x" "\<forall>x. heap p2 x \<noteq> None \<longrightarrow> heap p1 x \<noteq> None"
    by (auto simp: p1_def)
  have h2: "heap p2 a = Some b1" using p2(6) a(1) by (simp add: p1_def)
  let ?p = "p2\<lparr>heap := (heap p2)(a \<mapsto> b1\<lparr>data := Some a\<rparr>)\<rparr>"
  have sel: "usedTail (p\<lparr>freeHead := x, freeCount := y\<rparr>) = usedTail p" for x y by simp
  have alloc: "Xpool_alloc req p = Some (user_ptr a, ?p)"
    by (simp only: Xpool_alloc_def a(4) option.distinct if_False bind.bind_lunit b(1) Let_def MemoryPool.simps p1 p2(1))
      (simp only: sel p1 p2(1) bind.bind_lunit set_block_Some [OF h2] user_ptr_def)
  have "used_rep ?p (U @ [a])" using p2(2) h2 unfolding used_rep_def by (simp add: next_seg_upd prev_seg_upd)
  moreover have "free_rep ?p F"
  proof -
    have "heap ?p x = heap p x" if "x \<in> set F" for x using that a p2(6) by (auto simp: p1_def)
    then have "next_seg (heap ?p) (pNext b) F None" using b(2) next_seg_frame [of F "heap ?p" "heap p"] by presburger
    moreover have "F \<noteq> [] \<longrightarrow> freeTail p = Some (last F)" using p by (auto simp: pool_rep_def free_rep_def)
    ultimately show ?thesis using p2(3,4) by (simp add: free_rep_def)
  qed
  moreover have "\<forall>x. heap ?p x \<noteq> None \<longrightarrow> fst x < next_region ?p"
  proof (intro allI impI)
    fix x assume "heap ?p x \<noteq> None"
    then have "heap p x \<noteq> None" using b(1) p2(7) by (cases "x = a") (auto simp: p1_def)
    then show "fst x < next_region ?p" using p p2(5) by (simp add: pool_rep_def)
  qed
  ultimately show ?thesis using alloc a by (auto simp: pool_rep_def)
qed

lemma alloc_more:
  assumes p: "pool_rep p [] U" and n: "0 < blockCountStep p"
  shows "\<exists>p' a F. Xpool_alloc req p = Some (user_ptr a, p') \<and> a \<notin> set U \<and> pool_rep p' F (U @ [a]) \<and> Suc (length F) = unat (blockCountStep p)"
proof -
  obtain q where q: "Xpool_block (blockCountStep p) (blockSize p) p = Some q"
    "pool_rep q (map (new_addr (next_region p)) [0..<unat (blockCountStep p)]) U" using Xpool_block_spec [OF p] by blast
  have "0 < unat (blockCountStep p)" using n by (simp add: unat_gt_0 word_gt_0)
  then obtain a F where F: "map (new_addr (next_region p)) [0..<unat (blockCountStep p)] = a # F"
    by (metis length_map length_upt list.size(3) neq_Nil_conv not_less_iff_gr_or_eq minus_nat.diff_0)
  then have l: "Suc (length F) = unat (blockCountStep p)" by (metis length_map length_upt length_Cons minus_nat.diff_0)
  have q': "pool_rep q (a # F) U" using q(2) F by simp
  have "freeHead p = None" using p by (simp add: pool_rep_def free_rep_def)
  moreover have "freeHead q = Some a" using q' by (simp add: pool_rep_def free_rep_def)
  ultimately have "Xpool_alloc req p = Xpool_alloc req q" using q(1) by (simp add: Xpool_alloc_def)
  moreover have "a \<notin> set U" using q' by (simp add: pool_rep_def)
  ultimately show ?thesis using alloc_pop [OF q', of req] l by metis
qed

section \<open>Taking a block back\<close>

lemma free_append:
  assumes f: "free_rep p F" "F \<noteq> []" "distinct F" and a: "a \<notin> set F" "heap p a = Some b" and u: "used_rep p U" "a \<notin> set U" "set F \<inter> set U = {}"
  shows "\<exists>p'. do { p \<leftarrow> set_block (Some a) (\<lambda>b. b\<lparr>pPrev := freeTail p, pNext := None, data := Some a\<rparr>) p;
        p \<leftarrow> set_block (freeTail p) (\<lambda>b. b\<lparr>pNext := Some a\<rparr>) p;
        Some (p\<lparr>freeTail := Some a, freeCount := freeCount p + 1\<rparr>) } = Some p' \<and> free_rep p' (F @ [a]) \<and> used_rep p' U
     \<and> next_region p' = next_region p \<and> (\<forall>x. heap p' x \<noteq> None \<longrightarrow> heap p x \<noteq> None)"
proof -
  obtain xs l where F: "F = xs @ [l]" using f(2) by (cases F rule: rev_cases) auto
  have l: "freeTail p = Some l" "a \<noteq> l" "l \<notin> set xs" using f a F by (auto simp: free_rep_def)
  let ?b = "b\<lparr>pPrev := freeTail p, pNext := None, data := Some a\<rparr>"
  let ?h = "(heap p)(a \<mapsto> ?b)"
  have seg: "next_seg ?h (freeHead p) (xs @ [l]) None" using f a F unfolding free_rep_def by (subst next_seg_upd) auto
  then obtain c where c: "heap p l = Some c" using next_seg_dom [OF seg, of l] l(2) by auto
  let ?h' = "?h(l \<mapsto> c\<lparr>pNext := Some a\<rparr>)"
  from next_seg_relink [OF seg l(3), of "c\<lparr>pNext := Some a\<rparr>"] have "next_seg ?h' (freeHead p) (F @ [a]) None"
    using l unfolding F by (subst next_seg_append) auto
  moreover have "next_seg ?h' (usedHead p) U None" "prev_seg ?h' None U"
    using u F unfolding used_rep_def by (auto simp: next_seg_upd prev_seg_upd)
  ultimately show ?thesis using a c l u by (auto simp: set_block_Some free_rep_def used_rep_def)
qed

lemma free_unlink:
  assumes u: "used_rep p U" and d: "distinct U" and a: "a \<in> set U" "heap p a = Some b" and two: "2 \<le> length U"
  shows "\<exists>p' b'. (if pPrev b = None then
                (let p = p\<lparr>usedHead := pNext b\<rparr> in
                 if usedHead p \<noteq> None then set_block (usedHead p) (\<lambda>b. b\<lparr>pPrev := None\<rparr>) p else Some p)
              else if pNext b = None then
                (let p = p\<lparr>usedTail := pPrev b\<rparr> in
                 if usedTail p \<noteq> None then set_block (usedTail p) (\<lambda>b. b\<lparr>pNext := None\<rparr>) p else Some p)
              else do {
                p \<leftarrow> set_block (pPrev b) (\<lambda>c. c\<lparr>pNext := pNext b\<rparr>) p;
                b \<leftarrow> heap p a;
                set_block (pNext b) (\<lambda>c. c\<lparr>pPrev := pPrev b\<rparr>) p }) = Some p'
    \<and> used_rep p' (remove1 a U) \<and> heap p' a = Some b' \<and> freeHead p' = freeHead p \<and> freeTail p' = freeTail p \<and> next_region p' = next_region p
    \<and> (\<forall>x. x \<notin> set U \<longrightarrow> heap p' x = heap p x) \<and> (\<forall>x. heap p' x \<noteq> None \<longrightarrow> heap p x \<noteq> None)"
proof -
  obtain ys zs where U: "U = ys @ a # zs" using a(1) by (meson split_list)
  then have rm: "remove1 a U = ys @ zs" using d by (simp add: remove1_append)
  have links: "next_seg (heap p) (usedHead p) ys (Some a)" "next_seg (heap p) (pNext b) zs None"
    "prev_seg (heap p) None ys" "pPrev b = tail_of None ys" "prev_seg (heap p) (Some a) zs"
    "usedTail p = tail_of (Some a) zs" using u a unfolding used_rep_def U by (auto simp: next_seg_append prev_seg_append)
  show ?thesis
  proof (cases ys rule: rev_cases)
    case Nil
    then obtain c zs' where zs: "zs = c # zs'" using two U by (cases zs) auto
    obtain cb where cb: "heap p c = Some cb" "pNext b = Some c" "prev_seg (heap p) (Some c) zs'" using links zs by auto
    have ac: "a \<noteq> c" "c \<notin> set zs'" using d U zs by auto
    let ?h = "(heap p)(c \<mapsto> cb\<lparr>pPrev := None\<rparr>)"
    have "next_seg ?h (pNext b) zs None" using links(2) cb(1) by (subst next_seg_upd) auto
    moreover have "prev_seg ?h None zs" using zs cb ac by (auto simp: prev_seg_upd)
    ultimately show ?thesis using Nil zs cb links ac a rm U by (auto simp: set_block_Some used_rep_def)
  next
    case (snoc ys' q)
    obtain qb where qb: "heap p q = Some qb" using next_seg_dom [OF links(1), of q] snoc by auto
    have aq: "a \<noteq> q" "q \<notin> set ys'" "q \<notin> set zs" using d U snoc by auto
    let ?h = "(heap p)(q \<mapsto> qb\<lparr>pNext := pNext b\<rparr>)"
    have n1: "next_seg ?h (usedHead p) ys (pNext b)"
      using next_seg_relink [OF links(1) [unfolded snoc] aq(2), of "qb\<lparr>pNext := pNext b\<rparr>"] snoc by simp
    have n2: "next_seg ?h (pNext b) zs None" using links(2) aq by (subst next_seg_upd) auto
    have p1: "prev_seg ?h None ys" "prev_seg ?h (Some a) zs" using links qb by (auto simp: prev_seg_upd)
    have pb: "pPrev b = Some q" using links(4) snoc by simp
    show ?thesis
    proof (cases zs)
      case Nil
      then have "pNext b = None" using links(2) by simp
      moreover have "used_rep (p\<lparr>usedTail := Some q, heap := ?h\<rparr>) (remove1 a U)"
        using n1 p1 Nil snoc \<open>pNext b = None\<close> unfolding rm by (simp add: used_rep_def)
      ultimately show ?thesis using pb qb a aq U snoc by (auto simp: set_block_Some)
    next
      case (Cons c zs')
      then obtain cb where cb: "heap p c = Some cb" "pNext b = Some c" using links by auto
      have ac: "a \<noteq> c" "c \<noteq> q" "c \<notin> set ys" "c \<notin> set zs'" using d U Cons aq by auto
      let ?h2 = "?h(c \<mapsto> cb\<lparr>pPrev := Some q\<rparr>)"
      have hc: "?h c = Some cb" using cb ac by simp
      have "next_seg ?h2 (usedHead p) (ys @ zs) None" using n1 n2 hc cb(1) ac(2) unfolding next_seg_append by (auto simp: next_seg_upd)
      moreover have "prev_seg ?h2 None (ys @ zs)"
        using p1 hc ac snoc Cons unfolding prev_seg_append by (auto simp: prev_seg_upd)
      moreover have "usedTail p = tail_of None (ys @ zs)" using links(6) Cons snoc by simp
      ultimately have "used_rep (p\<lparr>heap := ?h2\<rparr>) (remove1 a U)" unfolding rm by (simp add: used_rep_def)
      then show ?thesis using pb cb hc qb a aq ac U snoc Cons by (auto simp: set_block_Some)
    qed
  qed
qed

lemma free_spec:
  assumes p: "pool_rep p F U" and a: "a \<in> set U" and two: "2 \<le> length U" and F: "F \<noteq> []"
  shows "\<exists>p'. Xpool_free (user_ptr a) p = Some p' \<and> pool_rep p' (F @ [a]) (remove1 a U)"
proof -
  have u: "used_rep p U" and d: "distinct (F @ U)" and f: "free_rep p F" using p by (auto simp: pool_rep_def)
  obtain b where b: "heap p a = Some b" using u a next_seg_dom unfolding used_rep_def by blast
  from free_unlink [OF u _ a b two] d obtain p1 b1 where
    p1: "(if pPrev b = None then
                (let p = p\<lparr>usedHead := pNext b\<rparr> in
                 if usedHead p \<noteq> None then set_block (usedHead p) (\<lambda>b. b\<lparr>pPrev := None\<rparr>) p else Some p)
              else if pNext b = None then
                (let p = p\<lparr>usedTail := pPrev b\<rparr> in
                 if usedTail p \<noteq> None then set_block (usedTail p) (\<lambda>b. b\<lparr>pNext := None\<rparr>) p else Some p)
              else do {
                p \<leftarrow> set_block (pPrev b) (\<lambda>c. c\<lparr>pNext := pNext b\<rparr>) p;
                b \<leftarrow> heap p a;
                set_block (pNext b) (\<lambda>c. c\<lparr>pPrev := pPrev b\<rparr>) p }) = Some p1"
    and q: "used_rep p1 (remove1 a U)" "heap p1 a = Some b1" "freeHead p1 = freeHead p" "freeTail p1 = freeTail p" "next_region p1 = next_region p"
      "\<forall>x. x \<notin> set U \<longrightarrow> heap p1 x = heap p x" "\<forall>x. heap p1 x \<noteq> None \<longrightarrow> heap p x \<noteq> None" by auto
  have "heap p1 x = heap p x" if "x \<in> set F" for x using q(6) that d by auto
  then have "next_seg (heap p1) (freeHead p1) F None" using f q(3) next_seg_frame [of F "heap p1" "heap p"] by (simp add: free_rep_def)
  then have f1: "free_rep p1 F" using f q(4) by (simp add: free_rep_def)
  have sets: "a \<notin> set F" "a \<notin> set (remove1 a U)" "set F \<inter> set (remove1 a U) = {}" "distinct F"
    using a d notin_set_remove1 by auto
  from free_append [OF f1 F sets(4,1) q(2,1) sets(2,3)] obtain p2 where
    p2: "do { p \<leftarrow> set_block (Some a) (\<lambda>b. b\<lparr>pPrev := freeTail p1, pNext := None, data := Some a\<rparr>) p1;
        p \<leftarrow> set_block (freeTail p) (\<lambda>b. b\<lparr>pNext := Some a\<rparr>) p;
        Some (p\<lparr>freeTail := Some a, freeCount := freeCount p + 1\<rparr>) } = Some p2"
      "free_rep p2 (F @ [a])" "used_rep p2 (remove1 a U)" "next_region p2 = next_region p1" "\<forall>x. heap p2 x \<noteq> None \<longrightarrow> heap p1 x \<noteq> None" by blast
  have "Xpool_free (user_ptr a) p = Some p2"
    unfolding Xpool_free_def user_ptr_def fst_conv snd_conv add_diff_cancel_right' prod.collapse Let_def [of "a"] b bind.bind_lunit p1 p2(1) ..
  moreover have "pool_rep p2 (F @ [a]) (remove1 a U)"
    using p2 q d sets p by (auto simp: pool_rep_def)
  ultimately show ?thesis by blast
qed

section \<open>Properties\<close>

text \<open>The allocations of a program, each followed by a release or not, and the pointers it gets.\<close>

fun alloc_free :: "bool list \<Rightarrow> MemoryPool \<Rightarrow> (addr list \<times> MemoryPool) option" where
  "alloc_free [] p = Some ([], p)"
| "alloc_free (release # ops) p = do {
     (q, p) \<leftarrow> Xpool_alloc 20 p;
     p \<leftarrow> (if release then Xpool_free q p else Some p);
     (qs, p) \<leftarrow> alloc_free ops p;
     Some (q # qs, p) }"

text \<open>
  Where the pool goes wrong.  A pool of three blocks whose user twice allocates and releases one block and then allocates
  three hands out the same block twice, since releasing the only used block leaves \<open>usedTail\<close> behind; and a pool of one
  block never gets that block back.
\<close>

lemma pool_hands_out_twice:
  "(\<exists>q1 q2 q3 p. Option.bind (Xpool_init 3 96 memory) (alloc_free [True, True, False, False, False]) = Some ([q1, q2, q3, q1, q3], p))
   \<and> (\<exists>q p. Option.bind (Xpool_init 1 96 memory) (alloc_free [True]) = Some ([q], p) \<and> freeHead p = None \<and> freeCount p = 1)"
proof
  have "map_option fst (Option.bind (Xpool_init 3 96 memory) (alloc_free [True, True, False, False, False]))
      = Some [(0, 8), (0, 32), (0, 56), (0, 8), (0, 56)]" by code_simp
  then show "\<exists>q1 q2 q3 p. Option.bind (Xpool_init 3 96 memory) (alloc_free [True, True, False, False, False]) = Some ([q1, q2, q3, q1, q3], p)"
    by auto
next
  have "map_option (\<lambda>(qs, p). (qs, freeHead p, freeCount p)) (Option.bind (Xpool_init 1 96 memory) (alloc_free [True])) = Some ([(0, 8)], None, 1)"
    by code_simp
  then show "\<exists>q p. Option.bind (Xpool_init 1 96 memory) (alloc_free [True]) = Some ([q], p) \<and> freeHead p = None \<and> freeCount p = 1"
    by auto
qed

text \<open>
  C31: the pool as two lists.  In a pool with the free blocks \<open>F\<close> and the used blocks \<open>U\<close>, an allocation takes the first
  free block, or a block of a new region when there is none, and appends it to the used ones; a release of a used
  block moves it behind the free ones, provided that it is not the last used block and that some block is free.  No
  step leaves the heap.  The pointer that the user gets lies inside the header of the block.  The proviso is needed: a pool of three blocks
  hands out one block twice, and a pool of one block never gets it back.
\<close>

theorem pool_two_lists:
  assumes p: "pool_rep p F U"
  shows "(\<exists>p'. Xpool_init cnt bsize memory = Some p' \<and> pool_rep p' (map (new_addr 0) [0..<unat cnt]) [])
    \<and> (F \<noteq> [] \<longrightarrow> (\<exists>p'. Xpool_alloc req p = Some (user_ptr (hd F), p') \<and> pool_rep p' (tl F) (U @ [hd F])))
    \<and> (F = [] \<longrightarrow> 0 < blockCountStep p \<longrightarrow> (\<exists>p' a F'. Xpool_alloc req p = Some (user_ptr a, p') \<and> a \<notin> set U \<and> pool_rep p' F' (U @ [a])
         \<and> Suc (length F') = unat (blockCountStep p)))
    \<and> (a \<in> set U \<longrightarrow> 2 \<le> length U \<longrightarrow> F \<noteq> [] \<longrightarrow> (\<exists>p'. Xpool_free (user_ptr a) p = Some p' \<and> pool_rep p' (F @ [a]) (remove1 a U)))
    \<and> fst (user_ptr a) = fst a \<and> snd a \<le> snd (user_ptr a) \<and> snd (user_ptr a) < snd a + sizeof_block
    \<and> (\<exists>q1 q2 q3 p. Option.bind (Xpool_init 3 96 memory) (alloc_free [True, True, False, False, False]) = Some ([q1, q2, q3, q1, q3], p))
    \<and> (\<exists>q p. Option.bind (Xpool_init 1 96 memory) (alloc_free [True]) = Some ([q], p) \<and> freeHead p = None \<and> freeCount p = 1)"
proof -
  have "pool_rep (memory\<lparr>blockCount := cnt, blockSize := bsize, freeCount := cnt, blockCountStep := 100,
          freeHead := None, freeTail := None, usedHead := None, usedTail := None\<rparr>) [] []"
    by (simp add: pool_rep_def free_rep_def used_rep_def memory_def)
  from Xpool_block_spec [OF this, of cnt bsize]
  have "\<exists>p'. Xpool_init cnt bsize memory = Some p' \<and> pool_rep p' (map (new_addr 0) [0..<unat cnt]) []"
    by (simp add: Xpool_init_def memory_def)
  moreover have "\<exists>p'. Xpool_alloc req p = Some (user_ptr (hd F), p') \<and> pool_rep p' (tl F) (U @ [hd F])" if "F \<noteq> []"
    using alloc_pop [of p "hd F" "tl F" U req] p that by auto
  moreover have "fst (user_ptr a) = fst a \<and> snd a \<le> snd (user_ptr a) \<and> snd (user_ptr a) < snd a + sizeof_block"
    by (simp add: user_ptr_def sizeof_block_def sizeof_ptr_def)
  ultimately show ?thesis using alloc_more [of p U req] free_spec [of p F U a] p pool_hands_out_twice by blast
qed

theorem pool_two_lists_witness:
  "\<exists>p p'. Xpool_init 3 96 memory = Some p \<and> Xpool_alloc 20 p = Some ((0, 8), p') \<and> pool_rep p' [(0, 24), (0, 48)] [(0, 0)]"
proof -
  have m: "pool_rep memory [] []" by (simp add: pool_rep_def free_rep_def used_rep_def memory_def)
  have n: "map (new_addr 0) [0..<unat (3 :: 32 word)] = [(0, 0), (0, 24), (0, 48)]"
    by (simp add: new_addr_def sizeof_block_def upt_rec)
  from pool_two_lists [OF m, of 3 96] obtain p where p: "Xpool_init 3 96 memory = Some p" "pool_rep p [(0, 0), (0, 24), (0, 48)] []"
    unfolding n by blast
  from pool_two_lists [OF p(2), of 0 0 20] p(1) show ?thesis by (auto simp: user_ptr_def sizeof_ptr_def)
qed

end
