(* ===== verification/Search_Tree.thy ===== *)
theory Search_Tree
  imports Prelude
begin

text \<open>
  The binary search tree of example_binary_tree_adt.cpp.  The nodes are never shared, so a tree is a datatype and an
  operation is a function to the tree that it returns.  \<open>Dangling\<close> is a pointer to a node that was freed; a read through it or
  through the null pointer and a missing return value are \<open>None\<close>.  The allocator succeeds.
\<close>

section \<open>The code\<close>

datatype stree = Null | Dangling | TreeNode int stree stree

fun value_of :: "stree \<Rightarrow> int option" where
  "value_of (TreeNode x l r) = Some x"
| "value_of _ = None"

fun left_of :: "stree \<Rightarrow> stree option" where
  "left_of (TreeNode x l r) = Some l"
| "left_of _ = None"

fun makeEmpty :: "stree \<Rightarrow> stree option" where
  "makeEmpty Null = Some Null"
| "makeEmpty Dangling = None"
| "makeEmpty (TreeNode x l r) = do { _ \<leftarrow> makeEmpty l; _ \<leftarrow> makeEmpty r; Some Null }"

fun insNode :: "int \<Rightarrow> stree \<Rightarrow> stree option" where
  "insNode value Null = Some (TreeNode value Null Null)"
| "insNode value Dangling = None"
| "insNode value (TreeNode x l r) =
     (if value > x then do { r \<leftarrow> insNode value r; Some (TreeNode x l r) }
      else if value < x then do { l \<leftarrow> insNode value l; Some (TreeNode x l r) }
      else Some (TreeNode x l r))"

text \<open>The pointer that \<open>findMin\<close> returns is the subtree below it.\<close>

fun findMin :: "stree \<Rightarrow> stree option" where
  "findMin Null = Some Null"
| "findMin Dangling = None"
| "findMin (TreeNode x l r) = (if l = Null then Some (TreeNode x l r) else findMin l)"

fun find_max_loop :: "stree \<Rightarrow> stree option" where
  "find_max_loop Null = None"
| "find_max_loop Dangling = None"
| "find_max_loop (TreeNode x l r) = (if r \<noteq> Null then find_max_loop r else Some (TreeNode x l r))"

definition findMax :: "stree \<Rightarrow> stree option" where
  "findMax t = (if t \<noteq> Null then find_max_loop t else None)"

fun find_node :: "int \<Rightarrow> stree \<Rightarrow> stree option" where
  "find_node value Null = Some Null"
| "find_node value Dangling = None"
| "find_node value (TreeNode x l r) =
     (if value > x then find_node value r else if value < x then find_node value l else Some (TreeNode x l r))"

text \<open>
  A node with at most one child is replaced with two tests in a row, the second on the node that the first
  selected; the node itself is freed, also when no test selected another one.
\<close>

definition splice :: "int \<Rightarrow> stree \<Rightarrow> stree \<Rightarrow> stree option" where
  "splice x l r = do {
     let tree = (if r \<noteq> Null then r else TreeNode x l r);
     left \<leftarrow> left_of tree;
     Some (if left \<noteq> Null then left else if r \<noteq> Null then r else Dangling) }"

fun delNode :: "int \<Rightarrow> stree \<Rightarrow> stree option" where
  "delNode value Null = Some Null"
| "delNode value Dangling = None"
| "delNode value (TreeNode x l r) =
     (if value > x then delNode value r
      else if value < x then delNode value l
      else if r \<noteq> Null \<and> l \<noteq> Null then do {
        m \<leftarrow> findMin r;
        y \<leftarrow> value_of m;
        r \<leftarrow> delNode y r;
        Some (TreeNode y l r) }
      else splice x l r)"

section \<open>Search trees\<close>

fun keys :: "stree \<Rightarrow> int set" where
  "keys (TreeNode x l r) = insert x (keys l \<union> keys r)"
| "keys _ = {}"

fun bst :: "stree \<Rightarrow> bool" where
  "bst Null = True"
| "bst Dangling = False"
| "bst (TreeNode x l r) \<longleftrightarrow> bst l \<and> bst r \<and> (\<forall>y \<in> keys l. y < x) \<and> (\<forall>y \<in> keys r. x < y)"

lemma insNode_spec: "bst t \<Longrightarrow> \<exists>t'. insNode v t = Some t' \<and> bst t' \<and> keys t' = insert v (keys t)"
proof (induction t)
  case (TreeNode x l r)
  consider "v > x" | "v < x" | "v = x" by linarith
  then show ?case
  proof cases
    case 1
    then show ?thesis using TreeNode by fastforce
  next
    case 2
    then show ?thesis using TreeNode by fastforce
  next
    case 3
    then show ?thesis using TreeNode by auto
  qed
qed auto

lemma find_node_spec: "bst t \<Longrightarrow> \<exists>s. find_node v t = Some s \<and> (if v \<in> keys t then value_of s = Some v else s = Null)"
  by (induction t) fastforce+

lemma findMin_spec: "bst t \<Longrightarrow> t \<noteq> Null \<Longrightarrow> \<exists>y r. findMin t = Some (TreeNode y Null r) \<and> y \<in> keys t \<and> (\<forall>z \<in> keys t. y \<le> z)"
proof (induction t)
  case (TreeNode x l r)
  show ?case
  proof (cases "l = Null")
    case True
    then show ?thesis using TreeNode.prems by fastforce
  next
    case False
    then obtain y r' where "findMin l = Some (TreeNode y Null r')" "y \<in> keys l" "\<forall>z \<in> keys l. y \<le> z" using TreeNode by auto
    then show ?thesis using False TreeNode.prems by fastforce
  qed
qed auto

lemma findMax_spec: "bst t \<Longrightarrow> t \<noteq> Null \<Longrightarrow> \<exists>s y. find_max_loop t = Some s \<and> value_of s = Some y \<and> y \<in> keys t \<and> (\<forall>z \<in> keys t. z \<le> y)"
proof (induction t)
  case (TreeNode x l r)
  show ?case
  proof (cases "r = Null")
    case True
    then show ?thesis using TreeNode.prems by fastforce
  next
    case False
    from TreeNode.IH(2) [OF _ this] TreeNode.prems(1) obtain s y where s: "find_max_loop r = Some s" "value_of s = Some y" "y \<in> keys r" "\<forall>z \<in> keys r. z \<le> y" by auto
    moreover have "z \<le> y" if "z \<in> keys (TreeNode x l r)" for z
    proof -
      have "x < y" using TreeNode.prems(1) s(3) by simp
      then show ?thesis using that TreeNode.prems(1) s(4) by force
    qed
    ultimately show ?thesis using False by auto
  qed
qed auto

section \<open>Deletion\<close>

text \<open>When the returned tree is right: the value is at the root, and its successor is the right child.\<close>

fun deletion_ok :: "int \<Rightarrow> stree \<Rightarrow> bool" where
  "deletion_ok v (TreeNode x l r) \<longleftrightarrow> v = x \<and>
     (if r = Null then l \<noteq> Null
      else left_of r = Some Null \<and> (l \<noteq> Null \<longrightarrow> (\<exists>y z zr. r = TreeNode y Null (TreeNode z Null zr))))"
| "deletion_ok v t \<longleftrightarrow> True"

lemma delNode_min: "bst t \<Longrightarrow> findMin t = Some (TreeNode y Null r) \<Longrightarrow> delNode y t = splice y Null r"
proof (induction t)
  case (TreeNode x l r')
  show ?case
  proof (cases "l = Null")
    case True
    then show ?thesis using TreeNode.prems by auto
  next
    case False
    then have "findMin l = Some (TreeNode y Null r)" using TreeNode.prems by simp
    moreover have "y < x" using findMin_spec [of l] False TreeNode.prems calculation by auto
    ultimately show ?thesis using TreeNode by simp
  qed
qed auto

lemma splice_Some: "bst r \<Longrightarrow> \<exists>s. splice y Null r = Some s \<and> keys s \<subseteq> keys r \<and> (s = Dangling \<longleftrightarrow> r = Null) \<and> (r \<noteq> Null \<longrightarrow> bst s)"
  by (cases r) (auto simp: splice_def)

lemma findMin_right: "bst t \<Longrightarrow> findMin t = Some (TreeNode y Null r) \<Longrightarrow> bst r \<and> keys r \<subseteq> keys t - {y}"
  by (induction t) (fastforce split: if_splits)+

lemma delNode_bst: "bst t \<Longrightarrow> \<exists>t'. delNode v t = Some t' \<and> keys t' \<subseteq> keys t - {v}"
proof (induction t)
  case (TreeNode x l r)
  consider "v > x" | "v < x" | (two) "v = x" "r \<noteq> Null" "l \<noteq> Null" | (one) "v = x" "r = Null \<or> l = Null" by linarith
  then show ?case
  proof cases
    case two
    then obtain y r' where m: "findMin r = Some (TreeNode y Null r')" "y \<in> keys r" using findMin_spec [of r] TreeNode.prems by auto
    have "bst r" "bst r'" "keys r' \<subseteq> keys r" using findMin_right [OF _ m(1)] TreeNode.prems by auto
    then obtain s where s: "delNode y r = Some s" "keys s \<subseteq> keys r" using splice_Some [of r' y] delNode_min [OF _ m(1)] by force
    then show ?thesis using two m TreeNode.prems by auto
  next
    case one
    then show ?thesis using TreeNode.prems by (cases r; cases l) (auto simp: splice_def)
  qed (use TreeNode in fastforce)+
qed auto

lemma deletion_exact:
  assumes t: "bst t"
  shows "(\<exists>t'. delNode v t = Some t' \<and> bst t' \<and> keys t' = keys t - {v}) \<longleftrightarrow> deletion_ok v t"
proof (cases t)
  case (TreeNode x l r)
  have b: "bst l" "bst r" "\<forall>y \<in> keys l. y < x" "\<forall>y \<in> keys r. x < y" using t TreeNode by auto
  consider (right) "v > x" | (left) "v < x" | (two) "v = x" "r \<noteq> Null" "l \<noteq> Null" | (one) "v = x" "r = Null \<or> l = Null" by linarith
  then show ?thesis
  proof cases
    case right
    then obtain t' where "delNode v t = Some t'" "keys t' \<subseteq> keys r" using delNode_bst [OF b(2), of v] TreeNode by auto
    then show ?thesis using right TreeNode b by fastforce
  next
    case left
    then obtain t' where "delNode v t = Some t'" "keys t' \<subseteq> keys l" using delNode_bst [OF b(1), of v] TreeNode by auto
    then show ?thesis using left TreeNode b by fastforce
  next
    case two
    then obtain y r' where m: "findMin r = Some (TreeNode y Null r')" "y \<in> keys r" "\<forall>z \<in> keys r. y \<le> z"
      using findMin_spec [OF b(2)] by auto
    have r': "bst r'" "keys r' \<subseteq> keys r - {y}" using findMin_right [OF b(2) m(1)] by auto
    obtain s where s: "splice y Null r' = Some s" "keys s \<subseteq> keys r'" "s = Dangling \<longleftrightarrow> r' = Null" "r' \<noteq> Null \<longrightarrow> bst s"
      using splice_Some [OF r'(1)] by blast
    have d: "delNode v t = Some (TreeNode y l s)" using two m s delNode_min [OF b(2) m(1)] TreeNode by simp
    have lt: "\<forall>z \<in> keys l. z < y" using b(3,4) m(2) by fastforce
    have gt: "\<forall>z \<in> keys s. y < z" using s(2) r'(2) m(3) by force
    have "bst (TreeNode y l s) \<longleftrightarrow> r' \<noteq> Null" using b(1) lt gt s(3,4) by (cases "r' = Null") simp_all
    moreover have "x \<notin> keys l" "x \<notin> keys r" "keys l \<inter> keys r = {}" using b(3,4) by fastforce+
    then have "keys t - {v} = keys l \<union> keys r" using two(1) TreeNode by auto
    then have "keys (TreeNode y l s) = keys t - {v} \<longleftrightarrow> keys s = keys r - {y}"
      using \<open>keys l \<inter> keys r = {}\<close> m(2) s(2) r'(2) by auto
    ultimately have "(bst (TreeNode y l s) \<and> keys (TreeNode y l s) = keys t - {v}) \<longleftrightarrow> r' \<noteq> Null \<and> keys s = keys r - {y}"
      by simp
    also have "\<dots> \<longleftrightarrow> deletion_ok v t"
    proof (cases r)
      case (TreeNode z rl rr)
      show ?thesis
      proof (cases "rl = Null")
        case True
        then have e: "y = z" "r' = rr" using m(1) TreeNode by auto
        have "keys r - {y} = keys rr" using b(2) TreeNode True e by auto
        moreover have "rr \<noteq> Null \<Longrightarrow> (keys s = keys rr) = (left_of rr = Some Null)"
          using s(1) e r'(1) by (cases rr) (auto simp: splice_def split: if_splits)
        ultimately show ?thesis using two \<open>t = TreeNode x l r\<close> TreeNode True e r'(1) by (cases rr) auto
      next
        case False
        then have "findMin rl = Some (TreeNode y Null r')" using m(1) TreeNode by simp
        then have "keys r' \<subseteq> keys rl" "y \<in> keys rl" using findMin_right [of rl] findMin_spec [of rl] b(2) TreeNode False by auto
        then have "z \<notin> keys s" "z \<noteq> y" using s(2) b(2) TreeNode by auto
        then have "keys s \<noteq> keys r - {y}" using TreeNode by auto
        then show ?thesis using two \<open>t = TreeNode x l r\<close> TreeNode False by simp
      qed
    qed (use two b in auto)
    finally show ?thesis using d by auto
  next
    case one
    show ?thesis
    proof (cases r)
      case (TreeNode y rl rr)
      have l: "l = Null" and x: "v = x" using one TreeNode by auto
      have "delNode v t = Some (if rl = Null then r else rl)"
        using l x TreeNode \<open>t = TreeNode x l r\<close> by (simp add: splice_def)
      moreover have "x \<notin> keys r" "y \<notin> keys rl" using b TreeNode by auto
      then have "keys (if rl = Null then r else rl) = keys t - {v} \<longleftrightarrow> rl = Null"
        using l x TreeNode \<open>t = TreeNode x l r\<close> by auto
      ultimately show ?thesis using l x b TreeNode \<open>t = TreeNode x l r\<close> by simp
    qed (use one b TreeNode in \<open>cases l; auto simp: splice_def\<close>)+
  qed
qed (use t in auto)

section \<open>Property\<close>

text \<open>
  C36: the search tree.  On a search tree insertion adds the value, the search returns its node exactly when it is there, the
  least and the greatest node are found, also in every tree built by insertions; deletion returns a pointer below which only
  other values of the tree lie, and the tree without the value only when the value is at the root and its
  successor is the right child of the root, or the left child alone.  Deleting a single node returns a pointer to it after freeing it.
\<close>

theorem search_tree_operations:
  assumes t: "bst t"
  shows "(\<exists>t'. insNode v t = Some t' \<and> bst t' \<and> keys t' = insert v (keys t))
    \<and> (\<exists>s. find_node v t = Some s \<and> (if v \<in> keys t then value_of s = Some v else s = Null))
    \<and> (t \<noteq> Null \<longrightarrow> (\<exists>s y. findMin t = Some s \<and> value_of s = Some y \<and> y \<in> keys t \<and> (\<forall>z \<in> keys t. y \<le> z))
        \<and> (\<exists>s y. findMax t = Some s \<and> value_of s = Some y \<and> y \<in> keys t \<and> (\<forall>z \<in> keys t. z \<le> y)))
    \<and> (\<exists>t'. delNode v t = Some t' \<and> keys t' \<subseteq> keys t - {v} \<and> (bst t' \<and> keys t' = keys t - {v} \<longleftrightarrow> deletion_ok v t))
    \<and> delNode v (TreeNode v Null Null) = Some Dangling"
proof -
  have "\<exists>s y. findMin t = Some s \<and> value_of s = Some y \<and> y \<in> keys t \<and> (\<forall>z \<in> keys t. y \<le> z)" if "t \<noteq> Null"
    using findMin_spec [OF t that] by fastforce
  moreover have "\<exists>s y. findMax t = Some s \<and> value_of s = Some y \<and> y \<in> keys t \<and> (\<forall>z \<in> keys t. z \<le> y)" if "t \<noteq> Null"
    using findMax_spec [OF t that] that by (simp add: findMax_def)
  moreover have "\<exists>t'. delNode v t = Some t' \<and> keys t' \<subseteq> keys t - {v} \<and> (bst t' \<and> keys t' = keys t - {v} \<longleftrightarrow> deletion_ok v t)"
    using delNode_bst [OF t, of v] deletion_exact [OF t, of v] by auto
  moreover have "delNode v (TreeNode v Null Null) = Some Dangling" by (simp add: splice_def)
  ultimately show ?thesis using insNode_spec [OF t, of v] find_node_spec [OF t, of v] by blast
qed

theorem search_tree_operations_witness:
  "\<exists>t'. insNode 4 (TreeNode 5 (TreeNode 2 Null Null) (TreeNode 7 Null Null)) = Some t' \<and> keys t' = {2, 4, 5, 7}
     \<and> (\<exists>s. find_node 4 t' = Some s \<and> value_of s = Some 4)
     \<and> (\<exists>d. delNode 4 t' = Some d \<and> keys d \<noteq> keys t' - {4} \<or> d = Dangling)"
proof -
  have b: "bst (TreeNode 5 (TreeNode 2 Null Null) (TreeNode 7 Null Null))" by simp
  from search_tree_operations [OF b, of 4] obtain t' where t': "insNode 4 (TreeNode 5 (TreeNode 2 Null Null) (TreeNode 7 Null Null)) = Some t'"
    "bst t'" "keys t' = {2, 4, 5, 7}" by auto
  have "t' = TreeNode 5 (TreeNode 2 Null (TreeNode 4 Null Null)) (TreeNode 7 Null Null)" using t'(1) by simp
  then have "delNode 4 t' = Some Dangling" by (simp add: splice_def)
  moreover have "\<exists>s. find_node 4 t' = Some s \<and> value_of s = Some 4" using search_tree_operations [OF t'(2), of 4] t'(3) by auto
  ultimately show ?thesis using t' by auto
qed

end
