(* ===== verification/Input_Tree.thy ===== *)
theory Input_Tree
  imports Prelude
begin

text \<open>
  The binary trees that example_binary_tree2.cpp and example_binary_tree.cpp read from the input and traverse.  The input is the
  list of the numbers that \<open>scanf\<close> reads; at its end the variable stays unassigned, which is \<open>None\<close>.  A traversal is the list
  of the numbers that it prints.  The allocator succeeds.
\<close>

section \<open>The code\<close>

datatype bitree = Null | BinaryTreeNode int bitree bitree

text \<open>
  \<open>createBiTree\<close> and \<open>createBinaryTree\<close> read the left subtree to its end before the right one; the number of
  further calls is not bounded by the structure of an argument.
\<close>

partial_function (option) createBiTree :: "int list \<Rightarrow> (bitree \<times> int list) option" where
  "createBiTree input =
     (case input of
        [] \<Rightarrow> None
      | ch # input \<Rightarrow>
          if ch = - 1 then Some (Null, input)
          else do { (l, input) \<leftarrow> createBiTree input; (r, input) \<leftarrow> createBiTree input; Some (BinaryTreeNode ch l r, input) })"

fun traverseBiTree :: "bitree \<Rightarrow> int list" where
  "traverseBiTree Null = []"
| "traverseBiTree (BinaryTreeNode x l r) = x # traverseBiTree l @ traverseBiTree r"

fun inOrderBiTree :: "bitree \<Rightarrow> int list" where
  "inOrderBiTree Null = []"
| "inOrderBiTree (BinaryTreeNode x l r) = inOrderBiTree l @ x # inOrderBiTree r"

fun postOrderBiTree :: "bitree \<Rightarrow> int list" where
  "postOrderBiTree Null = []"
| "postOrderBiTree (BinaryTreeNode x l r) = postOrderBiTree l @ postOrderBiTree r @ [x]"

fun treeDeep :: "bitree \<Rightarrow> nat" where
  "treeDeep Null = 0"
| "treeDeep (BinaryTreeNode x l r) =
     (let leftdeep = treeDeep l; rightdeep = treeDeep r in if leftdeep \<ge> rightdeep then leftdeep + 1 else rightdeep + 1)"

text \<open>The traversals of example_binary_tree.cpp: the last two call the first one.\<close>

fun preTravelTree :: "bitree \<Rightarrow> int list" where
  "preTravelTree Null = []"
| "preTravelTree (BinaryTreeNode x l r) = x # preTravelTree l @ preTravelTree r"

fun inTravelTree :: "bitree \<Rightarrow> int list" where
  "inTravelTree Null = []"
| "inTravelTree (BinaryTreeNode x l r) = preTravelTree l @ x # preTravelTree r"

fun postTravelTree :: "bitree \<Rightarrow> int list" where
  "postTravelTree Null = []"
| "postTravelTree (BinaryTreeNode x l r) = preTravelTree l @ preTravelTree r @ [x]"

section \<open>Reading back\<close>

text \<open>The input that describes a tree.\<close>

fun tree_input :: "bitree \<Rightarrow> int list" where
  "tree_input Null = [- 1]"
| "tree_input (BinaryTreeNode x l r) = x # tree_input l @ tree_input r"

fun no_mark :: "bitree \<Rightarrow> bool" where
  "no_mark Null = True"
| "no_mark (BinaryTreeNode x l r) \<longleftrightarrow> x \<noteq> - 1 \<and> no_mark l \<and> no_mark r"

lemma createBiTree_input: "no_mark t \<Longrightarrow> createBiTree (tree_input t @ rest) = Some (t, rest)"
proof (induction t arbitrary: rest)
  case (BinaryTreeNode x l r)
  then show ?case by (subst createBiTree.simps) simp
qed (simp add: createBiTree.simps)

lemma createBiTree_Some: "createBiTree input = Some (t, rest) \<Longrightarrow> no_mark t \<and> input = tree_input t @ rest"
proof -
  have "(\<lambda>input y. (case y of (t, rest) \<Rightarrow> no_mark t \<and> input = tree_input t @ rest)) input (t, rest)" if "createBiTree input = Some (t, rest)"
    using that
    by (rule createBiTree.raw_induct [rotated])
      (auto split: list.splits if_splits prod.splits simp: bind_eq_Some_conv; blast)
  then show "createBiTree input = Some (t, rest) \<Longrightarrow> no_mark t \<and> input = tree_input t @ rest" by simp
qed

text \<open>The preorder and the inorder of a tree without repetitions determine it.\<close>

lemma in_set: "set (inOrderBiTree t) = set (traverseBiTree t)"
  by (induction t) auto

lemma length_orders: "length (inOrderBiTree t) = length (traverseBiTree t)"
  by (induction t) auto

lemma orders_determine:
  "distinct (inOrderBiTree t) \<Longrightarrow> traverseBiTree t = traverseBiTree u \<Longrightarrow> inOrderBiTree t = inOrderBiTree u \<Longrightarrow> t = u"
proof (induction t arbitrary: u)
  case Null
  then show ?case by (cases u) auto
next
  case (BinaryTreeNode x l r)
  then obtain l' r' where u: "u = BinaryTreeNode x l' r'" by (cases u) auto
  have d: "x \<notin> set (inOrderBiTree l)" "x \<notin> set (inOrderBiTree r)" "distinct (inOrderBiTree l)" "distinct (inOrderBiTree r)"
    using BinaryTreeNode.prems(1) by auto
  have i: "inOrderBiTree l @ x # inOrderBiTree r = inOrderBiTree l' @ x # inOrderBiTree r'" using BinaryTreeNode.prems(3) u by simp
  then have io: "inOrderBiTree l = inOrderBiTree l'" "inOrderBiTree r = inOrderBiTree r'"
    using append_Cons_eq_iff [OF d(1,2)] by simp_all
  have "traverseBiTree l @ traverseBiTree r = traverseBiTree l' @ traverseBiTree r'" using BinaryTreeNode.prems(2) u by simp
  moreover have "length (traverseBiTree l) = length (traverseBiTree l')" using io length_orders by metis
  ultimately have "traverseBiTree l = traverseBiTree l'" "traverseBiTree r = traverseBiTree r'" by auto
  then show ?case using BinaryTreeNode.IH d io u by blast
qed

lemma orders_permute: "mset (inOrderBiTree t) = mset (traverseBiTree t)" "mset (postOrderBiTree t) = mset (traverseBiTree t)"
  by (induction t) auto

lemma deep_bound: "length (traverseBiTree t) < 2 ^ treeDeep t" "treeDeep t \<le> length (traverseBiTree t)"
proof (induction t)
  case (BinaryTreeNode x l r)
  {
    case 1
    let ?m = "max (treeDeep l) (treeDeep r)"
    have "(2 :: nat) ^ treeDeep l \<le> 2 ^ ?m" "(2 :: nat) ^ treeDeep r \<le> 2 ^ ?m" by (simp_all add: power_increasing)
    then have "length (traverseBiTree l) < 2 ^ ?m" "length (traverseBiTree r) < 2 ^ ?m" using BinaryTreeNode(1,3) by linarith+
    moreover have "treeDeep (BinaryTreeNode x l r) = Suc ?m" by (simp add: Let_def max_def)
    ultimately show ?case by (simp del: treeDeep.simps)
  next
    case 2
    then show ?case using BinaryTreeNode by (simp add: Let_def)
  }
qed auto

section \<open>Property\<close>

text \<open>
  C39: reading and printing trees.  Reading is the inverse of writing a tree in preorder with -1 for every missing child: it
  returns the tree and the rest of the input, and accepts nothing else.  The three traversals print the same numbers;
  preorder and inorder determine a tree without repetitions; the depth lies between the logarithm of the number of nodes and this number.  In
  example_binary_tree.cpp the other two traversals print the subtrees in preorder.
\<close>

theorem tree_input_roundtrip:
  "(no_mark t \<longrightarrow> createBiTree (tree_input t @ rest) = Some (t, rest))
   \<and> (createBiTree input = Some (u, rest') \<longrightarrow> no_mark u \<and> input = tree_input u @ rest')
   \<and> mset (inOrderBiTree t) = mset (traverseBiTree t) \<and> mset (postOrderBiTree t) = mset (traverseBiTree t)
   \<and> (distinct (inOrderBiTree t) \<longrightarrow> traverseBiTree t = traverseBiTree u \<longrightarrow> inOrderBiTree t = inOrderBiTree u \<longrightarrow> t = u)
   \<and> treeDeep t \<le> length (traverseBiTree t) \<and> length (traverseBiTree t) < 2 ^ treeDeep t
   \<and> preTravelTree t = traverseBiTree t
   \<and> (\<exists>t. inTravelTree t \<noteq> inOrderBiTree t) \<and> (\<exists>t. postTravelTree t \<noteq> postOrderBiTree t)"
proof (intro conjI impI)
  show "preTravelTree t = traverseBiTree t" by (induction t) simp_all
  show "\<exists>t. inTravelTree t \<noteq> inOrderBiTree t" "\<exists>t. postTravelTree t \<noteq> postOrderBiTree t"
    by (rule exI [of _ "BinaryTreeNode 3 (BinaryTreeNode 2 (BinaryTreeNode 1 Null Null) Null) Null"]; simp)+
qed (use createBiTree_input createBiTree_Some orders_permute orders_determine deep_bound in metis)+

theorem tree_input_roundtrip_witness:
  "createBiTree [5, 3, -1, -1, 8, -1, -1] = Some (BinaryTreeNode 5 (BinaryTreeNode 3 Null Null) (BinaryTreeNode 8 Null Null), [])"
  using tree_input_roundtrip [of "BinaryTreeNode 5 (BinaryTreeNode 3 Null Null) (BinaryTreeNode 8 Null Null)" "[]"] by simp

declare createBiTree.simps [code]

end
