(* ===== verification/Graph_Connect.thy ===== *)
theory Graph_Connect
  imports Prelude
begin

text \<open>
  The undirected graph of example_graph.cpp.  An edge node lies in the lists of both its end points; the nodes are numbered in the
  order of their creation.  Endpoints are what the input holds; an index outside a vector, a read through
  the null pointer or of the unassigned list of vertex 0, and the end of the input are \<open>None\<close>.  \<open>None\<close> is also a search
  that does not end.
\<close>

section \<open>The code\<close>

datatype edge_ptr = Unassigned | Null | Edge nat

record edge_node =
  vertex1 :: int
  vertex2 :: int
  link1 :: edge_ptr
  link2 :: edge_ptr

record 'd graph =
  labels :: "'d list"
  first :: "edge_ptr list"
  edges :: "edge_node list"

text \<open>One end of a new edge \<open>e\<close>: the list of the end point, which the edge is put in front of.\<close>

definition link_end :: "nat \<Rightarrow> int \<Rightarrow> edge_ptr list \<Rightarrow> (edge_ptr \<times> edge_ptr list) option" where
  "link_end e endpoint fs = do {
     f \<leftarrow> rdi fs endpoint;
     if f = Unassigned then None else do { fs \<leftarrow> wri fs endpoint (Edge e); Some (f, fs) } }"

fun read_edges :: "nat \<Rightarrow> int list \<Rightarrow> 'd graph \<Rightarrow> 'd graph option" where
  "read_edges 0 input g = Some g"
| "read_edges (Suc m) (a # b # input) g = do {
     (l1, fs) \<leftarrow> link_end (length (edges g)) a (first g);
     (l2, fs) \<leftarrow> link_end (length (edges g)) b fs;
     read_edges m input (g\<lparr>first := fs, edges := edges g @ [\<lparr>vertex1 = a, vertex2 = b, link1 = l1, link2 = l2\<rparr>]\<rparr>) }"
| "read_edges (Suc m) input g = None"

text \<open>The first vertex only fills index 0; its list is not assigned.\<close>

definition read_graph :: "'d \<Rightarrow> 'd list \<Rightarrow> nat \<Rightarrow> int list \<Rightarrow> nat \<Rightarrow> 'd graph option" where
  "read_graph d ls numVertices input numEdges =
     (if numVertices \<le> length ls then
        read_edges numEdges input \<lparr>labels = d # take numVertices ls, first = Unassigned # replicate numVertices Null, edges = []\<rparr>
      else None)"

definition data :: "'d graph \<Rightarrow> int \<Rightarrow> 'd option" where
  "data g k = rdi (labels g) k"

definition anyLeft :: "bool list \<Rightarrow> bool" where
  "anyLeft unvisited = list_ex id (tl unvisited)"

text \<open>
  The loop of \<open>depthFirstSearch\<close> over the list of \<open>start\<close>.  The recursive call, which marks its vertex and runs the
  loop over the list of this vertex, stands in its place.
\<close>

partial_function (option) search_loop :: "'d graph \<Rightarrow> int \<Rightarrow> edge_ptr \<Rightarrow> bool list \<Rightarrow> bool list option" where
  "search_loop g start ptr unvisited =
     (if anyLeft unvisited \<and> ptr \<noteq> Null then
        (case ptr of
           Edge e \<Rightarrow> do {
             n \<leftarrow> rd (edges g) e;
             let (newStart, next) = (if vertex1 n \<noteq> start then (vertex1 n, link2 n) else (vertex2 n, link1 n));
             left \<leftarrow> rdi unvisited newStart;
             unvisited \<leftarrow> (if left then do {
                 unvisited \<leftarrow> wri unvisited newStart False;
                 p \<leftarrow> rdi (first g) newStart;
                 search_loop g newStart p unvisited }
               else Some unvisited);
             search_loop g start next unvisited }
         | _ \<Rightarrow> None)
      else Some unvisited)"

definition depthFirstSearch :: "'d graph \<Rightarrow> int \<Rightarrow> bool list \<Rightarrow> bool list option" where
  "depthFirstSearch g start unvisited = do {
     unvisited \<leftarrow> wri unvisited start False;
     ptr \<leftarrow> rdi (first g) start;
     search_loop g start ptr unvisited }"

definition isConnected :: "'d graph \<Rightarrow> bool option" where
  "isConnected g = do {
     unvisited \<leftarrow> depthFirstSearch g 1 (replicate (length (first g)) True);
     Some (\<not> anyLeft unvisited) }"

section \<open>The lists of edges\<close>

text \<open>\<open>chain es p v xs\<close>: the list that starts at \<open>p\<close> and follows the links of vertex \<open>v\<close> has the edges \<open>xs\<close>.\<close>

fun chain :: "edge_node list \<Rightarrow> edge_ptr \<Rightarrow> int \<Rightarrow> nat list \<Rightarrow> bool" where
  "chain es p v [] \<longleftrightarrow> p = Null"
| "chain es p v (e # xs) \<longleftrightarrow> p = Edge e \<and> e < length es \<and> (vertex1 (es ! e) = v \<or> vertex2 (es ! e) = v)
     \<and> chain es (if vertex1 (es ! e) \<noteq> v then link2 (es ! e) else link1 (es ! e)) v xs"

definition incident :: "edge_node list \<Rightarrow> int \<Rightarrow> nat set" where
  "incident es v = {e. e < length es \<and> (vertex1 (es ! e) = v \<or> vertex2 (es ! e) = v)}"

definition graph_ok :: "'d graph \<Rightarrow> bool" where
  "graph_ok g \<longleftrightarrow> first g \<noteq> []
     \<and> (\<forall>n \<in> set (edges g). 1 \<le> vertex1 n \<and> vertex1 n < int (length (first g)) \<and> 1 \<le> vertex2 n \<and> vertex2 n < int (length (first g)))
     \<and> first g ! 0 = Unassigned
     \<and> (\<forall>v. 1 \<le> v \<longrightarrow> v < int (length (first g)) \<longrightarrow> (\<exists>xs. chain (edges g) (first g ! nat v) v xs \<and> set xs = incident (edges g) v))"

definition neighbours :: "'d graph \<Rightarrow> (int \<times> int) set" where
  "neighbours g = (\<Union>n \<in> set (edges g). {(vertex1 n, vertex2 n), (vertex2 n, vertex1 n)})"

lemma chain_append: "chain es p v xs \<Longrightarrow> chain (es @ ns) p v xs"
  by (induction xs arbitrary: p) (auto simp: nth_append)

lemma incident_append: "incident (es @ [n]) v = incident es v \<union> (if vertex1 n = v \<or> vertex2 n = v then {length es} else {})"
  by (auto simp: incident_def nth_append less_Suc_eq)

lemma link_end_Some: "link_end e a fs = Some (l, fs') \<longleftrightarrow> 0 \<le> a \<and> a < int (length fs) \<and> l = fs ! nat a \<and> l \<noteq> Unassigned \<and> fs' = fs[nat a := Edge e]"
  by (auto simp: link_end_def bind_eq_Some_conv access_iffs)

lemma read_edges_ok:
  "graph_ok g \<Longrightarrow> read_edges m input g = Some g' \<Longrightarrow>
     graph_ok g' \<and> length (first g') = length (first g) \<and> 2 * m \<le> length input
     \<and> map (\<lambda>n. (vertex1 n, vertex2 n)) (edges g') = map (\<lambda>n. (vertex1 n, vertex2 n)) (edges g) @ map (\<lambda>i. (input ! (2 * i), input ! (2 * i + 1))) [0..<m]"
proof (induction m input g rule: read_edges.induct)
  case (2 m a b input g)
  let ?k = "length (edges g)"
  obtain l1 fs l2 fs' where l: "link_end ?k a (first g) = Some (l1, fs)" "link_end ?k b fs = Some (l2, fs')"
    and r: "read_edges m input (g\<lparr>first := fs', edges := edges g @ [\<lparr>vertex1 = a, vertex2 = b, link1 = l1, link2 = l2\<rparr>]\<rparr>) = Some g'"
    using "2.prems"(2) by (auto simp: bind_eq_Some_conv)
  let ?n = "\<lparr>vertex1 = a, vertex2 = b, link1 = l1, link2 = l2\<rparr>"
  let ?g = "g\<lparr>first := fs', edges := edges g @ [?n]\<rparr>"
  have a: "0 \<le> a" "a < int (length (first g))" "l1 = first g ! nat a" "l1 \<noteq> Unassigned" "fs = (first g)[nat a := Edge ?k]"
    using l(1) by (auto simp: link_end_Some)
  have b: "0 \<le> b" "b < int (length (first g))" "l2 = fs ! nat b" "l2 \<noteq> Unassigned" "fs' = fs[nat b := Edge ?k]"
    using l(2) a(5) by (auto simp: link_end_Some)
  have ab: "1 \<le> a" "1 \<le> b"
  proof -
    have "a \<noteq> 0" using a "2.prems"(1) by (auto simp: graph_ok_def)
    then show "1 \<le> a" using a by simp
    have "b \<noteq> 0" using a b \<open>a \<noteq> 0\<close> "2.prems"(1) by (auto simp: graph_ok_def nth_list_update)
    then show "1 \<le> b" using b by simp
  qed
  have "graph_ok ?g"
    unfolding graph_ok_def
  proof (intro conjI allI impI)
    show "first ?g \<noteq> []" using a b "2.prems"(1) by (simp add: graph_ok_def)
    show "first ?g ! 0 = Unassigned" using a b ab "2.prems"(1) by (simp add: graph_ok_def)
    show "\<forall>n \<in> set (edges ?g). 1 \<le> vertex1 n \<and> vertex1 n < int (length (first ?g)) \<and> 1 \<le> vertex2 n \<and> vertex2 n < int (length (first ?g))"
      using a b ab "2.prems"(1) by (simp add: graph_ok_def)
    fix v :: int assume v: "1 \<le> v" "v < int (length (first ?g))"
    then have "v < int (length (first g))" using a b by simp
    then obtain xs where xs: "chain (edges g) (first g ! nat v) v xs" "set xs = incident (edges g) v"
      using "2.prems"(1) v unfolding graph_ok_def by blast
    show "\<exists>xs. chain (edges ?g) (first ?g ! nat v) v xs \<and> set xs = incident (edges ?g) v"
    proof (cases "v = a \<or> v = b")
      case True
      have f: "first ?g ! nat v = Edge ?k" using True a b by (auto simp: nth_list_update)
      have "(if a \<noteq> v then l2 else l1) = first g ! nat v" using True a b v ab by (auto simp: nth_list_update)
      then have "chain (edges ?g) (first ?g ! nat v) v (?k # xs)"
        using True chain_append [OF xs(1), of "[?n]"] f by auto
      moreover have "set (?k # xs) = incident (edges ?g) v" using xs(2) True by (auto simp: incident_append)
      ultimately show ?thesis by blast
    next
      case False
      then have "first ?g ! nat v = first g ! nat v" using a b v by (simp add: nth_list_update nat_eq_iff)
      moreover have "incident (edges ?g) v = incident (edges g) v" using False by (simp add: incident_append)
      ultimately show ?thesis using xs chain_append [OF xs(1), of "[?n]"] by auto
    qed
  qed
  from "2.IH" [OF l(1) refl l(2) refl this r] show ?case
    using a b by (simp add: map_upt_Suc del: upt.simps)
qed simp_all

section \<open>The search\<close>

definition left_set :: "bool list \<Rightarrow> int set" where
  "left_set u = {i. 0 \<le> i \<and> i < int (length u) \<and> u ! nat i}"

definition other_end :: "edge_node list \<Rightarrow> int \<Rightarrow> nat \<Rightarrow> int" where
  "other_end es v e = (if vertex1 (es ! e) \<noteq> v then vertex1 (es ! e) else vertex2 (es ! e))"

text \<open>What a loop over the edges \<open>xs\<close> of \<open>v\<close> does to the marks.\<close>

definition search_post :: "'d graph \<Rightarrow> int \<Rightarrow> nat list \<Rightarrow> bool list \<Rightarrow> bool list \<Rightarrow> bool" where
  "search_post g v xs u u' \<longleftrightarrow> length u' = length u \<and> left_set u' \<subseteq> left_set u
     \<and> (\<forall>i \<in> left_set u - left_set u'. (v, i) \<in> (neighbours g)\<^sup>*)
     \<and> (anyLeft u' \<longrightarrow> (\<forall>e \<in> set xs. other_end (edges g) v e \<notin> left_set u')
          \<and> (\<forall>i \<in> left_set u - left_set u'. \<forall>j. (i, j) \<in> neighbours g \<longrightarrow> j \<notin> left_set u'))"

lemma anyLeft_iff: "anyLeft u \<longleftrightarrow> (\<exists>i \<in> left_set u. i \<noteq> 0)"
proof -
  have "anyLeft u \<longleftrightarrow> (\<exists>i < length (tl u). tl u ! i)" by (simp add: anyLeft_def list_ex_length)
  also have "\<dots> \<longleftrightarrow> (\<exists>i < length u - 1. u ! Suc i)" by (intro ex_cong1 conj_cong) (simp_all add: nth_tl)
  also have "\<dots> \<longleftrightarrow> (\<exists>i \<in> left_set u. i \<noteq> 0)"
  proof
    assume "\<exists>i < length u - 1. u ! Suc i"
    then obtain i where "i < length u - 1" "u ! Suc i" by blast
    then have "int (Suc i) \<in> left_set u" by (simp add: left_set_def nat_add_distrib)
    then show "\<exists>i \<in> left_set u. i \<noteq> 0" by (intro bexI [of _ "int (Suc i)"]) simp_all
  next
    assume "\<exists>i \<in> left_set u. i \<noteq> 0"
    then obtain i where "0 \<le> i" "i \<noteq> 0" "i < int (length u)" "u ! nat i" unfolding left_set_def by blast
    moreover obtain k where "nat i = Suc k" using calculation by (cases "nat i") auto
    ultimately have "k < length u - 1" "u ! Suc k" by auto
    then show "\<exists>i < length u - 1. u ! Suc i" by blast
  qed
  finally show ?thesis .
qed

lemma anyLeft_mono: "left_set u' \<subseteq> left_set u \<Longrightarrow> anyLeft u' \<Longrightarrow> anyLeft u"
  by (auto simp: anyLeft_iff)

lemma left_set_update: "0 \<le> i \<Longrightarrow> i < int (length u) \<Longrightarrow> left_set (u[nat i := False]) = left_set u - {i}"
  by (auto simp: left_set_def nth_list_update nat_eq_iff)

lemma left_set_finite: "finite (left_set u)"
proof -
  have "left_set u \<subseteq> {0..<int (length u)}" by (auto simp: left_set_def)
  then show ?thesis by (rule finite_subset) simp
qed

lemma neighbours_other: "e \<in> incident (edges g) v \<Longrightarrow> (v, other_end (edges g) v e) \<in> neighbours g"
  by (force simp: incident_def neighbours_def other_end_def)

lemma neighbours_incident: "(v, j) \<in> neighbours g \<Longrightarrow> \<exists>e \<in> incident (edges g) v. j = other_end (edges g) v e"
proof -
  assume "(v, j) \<in> neighbours g"
  then obtain n where n: "n \<in> set (edges g)" "v = vertex1 n \<and> j = vertex2 n \<or> v = vertex2 n \<and> j = vertex1 n" by (auto simp: neighbours_def)
  then obtain e where "e < length (edges g)" "edges g ! e = n" by (auto simp: in_set_conv_nth)
  then show ?thesis using n by (intro bexI [of _ e]) (auto simp: incident_def other_end_def)
qed

lemma chain_incident: "chain es p v xs \<Longrightarrow> set xs \<subseteq> incident es v"
  by (induction xs arbitrary: p) (auto simp: incident_def)

lemma search_loop_spec:
  assumes g: "graph_ok g"
  shows "length u = length (first g) \<Longrightarrow> chain (edges g) p v xs \<Longrightarrow> \<exists>u'. search_loop g v p u = Some u' \<and> search_post g v xs u u'"
proof (induction "card (left_set u)" arbitrary: u v p xs rule: less_induct)
  case less
  note outer = less.hyps
  from less.prems show ?case
  proof (induction xs arbitrary: p)
    case Nil
    then show ?case by (subst search_loop.simps) (simp add: search_post_def)
  next
    case (Cons e xs)
    show ?case
    proof (cases "anyLeft u")
      case False
      then show ?thesis by (subst search_loop.simps) (simp add: search_post_def)
    next
      case left: True
      let ?n = "edges g ! e" and ?w = "other_end (edges g) v e"
      have p: "p = Edge e" "e < length (edges g)" "chain (edges g) (if vertex1 ?n \<noteq> v then link2 ?n else link1 ?n) v xs"
        using Cons.prems(2) by auto
      let ?next = "if vertex1 ?n \<noteq> v then link2 ?n else link1 ?n"
      have inc: "e \<in> incident (edges g) v" using chain_incident [OF Cons.prems(2)] by simp
      have "?n \<in> set (edges g)" using p(2) by simp
      then have w: "1 \<le> ?w" "?w < int (length u)" using g Cons.prems(1) unfolding graph_ok_def other_end_def by auto
      have sel: "(if vertex1 ?n \<noteq> v then (vertex1 ?n, link2 ?n) else (vertex2 ?n, link1 ?n)) = (?w, ?next)" by (simp add: other_end_def)
      have rw: "rdi u ?w = Some (u ! nat ?w)" using w by (simp add: rdi_def rd_def nat_less_iff)
      have step: "search_loop g v p u = do {
          u \<leftarrow> (if u ! nat ?w then do { u \<leftarrow> wri u ?w False; q \<leftarrow> rdi (first g) ?w; search_loop g ?w q u } else Some u);
          search_loop g v ?next u }"
        using left p(1,2) rw by (subst search_loop.simps) (simp add: rd_def sel Let_def del: if_split_asm)
      show ?thesis
      proof (cases "u ! nat ?w")
        case False
        then have "?w \<notin> left_set u" by (simp add: left_set_def)
        moreover obtain u' where u': "search_loop g v ?next u = Some u'" "search_post g v xs u u'" using Cons.IH [OF Cons.prems(1) p(3)] by blast
        ultimately have "search_post g v (e # xs) u u'" by (auto simp: search_post_def)
        then show ?thesis using step False u'(1) by simp
      next
        case True
        have win: "?w \<in> left_set u" using True w by (simp add: left_set_def)
        define u1 where "u1 = u[nat ?w := False]"
        have u1: "left_set u1 = left_set u - {?w}" using w by (simp add: u1_def left_set_update)
        have c1: "card (left_set u1) < card (left_set u)" unfolding u1 using win left_set_finite by (intro card_Diff1_less) auto
        have wl: "?w < int (length (first g))" using w Cons.prems(1) by simp
        obtain ys where ys: "chain (edges g) (first g ! nat ?w) ?w ys" "set ys = incident (edges g) ?w" using g w(1) wl unfolding graph_ok_def by blast
        have "length u1 = length (first g)" using Cons.prems(1) by (simp add: u1_def)
        from outer [OF c1 this ys(1)] obtain u2 where u2: "search_loop g ?w (first g ! nat ?w) u1 = Some u2" "search_post g ?w ys u1 u2" by blast
        have l2: "length u2 = length (first g)" "left_set u2 \<subseteq> left_set u1" using u2(2) \<open>length u1 = length (first g)\<close> by (auto simp: search_post_def)
        have c2: "card (left_set u2) < card (left_set u)" using card_mono [OF left_set_finite l2(2)] c1 by simp
        from outer [OF c2 l2(1) p(3)] obtain u3 where u3: "search_loop g v ?next u2 = Some u3" "search_post g v xs u2 u3" by blast
        have "search_loop g v p u = Some u3"
          using step True u2(1) u3(1) w wl by (simp add: wri_def wr_def rdi_def rd_def nat_less_iff u1_def)
        moreover have "search_post g v (e # xs) u u3"
          unfolding search_post_def
        proof (intro conjI impI ballI allI)
          have sub3: "left_set u3 \<subseteq> left_set u2" using u3(2) by (simp add: search_post_def)
          show "length u3 = length u" using u3(2) l2(1) Cons.prems(1) by (simp add: search_post_def)
          show "left_set u3 \<subseteq> left_set u" using sub3 l2(2) u1 by blast
          have vw: "(v, ?w) \<in> neighbours g" using neighbours_other [OF inc] .
          fix i assume i: "i \<in> left_set u - left_set u3"
          then consider "i = ?w" | "i \<in> left_set u1 - left_set u2" | "i \<in> left_set u2 - left_set u3" using u1 by blast
          then show "(v, i) \<in> (neighbours g)\<^sup>*"
          proof cases
            case 1
            then show ?thesis using vw by blast
          next
            case 2
            then have "(?w, i) \<in> (neighbours g)\<^sup>*" using u2(2) by (simp add: search_post_def)
            then show ?thesis using vw by (meson converse_rtrancl_into_rtrancl)
          next
            case 3
            then show ?thesis using u3(2) by (simp add: search_post_def)
          qed
        next
          assume al: "anyLeft u3"
          have sub3: "left_set u3 \<subseteq> left_set u2" using u3(2) by (simp add: search_post_def)
          fix e' assume "e' \<in> set (e # xs)"
          then show "other_end (edges g) v e' \<notin> left_set u3" using al u3(2) sub3 l2(2) u1 by (auto simp: search_post_def)
        next
          assume al: "anyLeft u3"
          have sub3: "left_set u3 \<subseteq> left_set u2" using u3(2) by (simp add: search_post_def)
          have al2: "anyLeft u2" using anyLeft_mono [OF sub3 al] .
          fix i j assume i: "i \<in> left_set u - left_set u3" and ij: "(i, j) \<in> neighbours g"
          then consider "i = ?w" | "i \<in> left_set u1 - left_set u2" | "i \<in> left_set u2 - left_set u3" using u1 by blast
          then show "j \<notin> left_set u3"
          proof cases
            case 1
            then obtain e' where "e' \<in> set ys" "j = other_end (edges g) ?w e'" using neighbours_incident [of ?w j g] ij ys(2) by blast
            then show ?thesis using u2(2) al2 sub3 by (auto simp: search_post_def)
          next
            case 2
            then show ?thesis using u2(2) al2 sub3 ij by (auto simp: search_post_def)
          next
            case 3
            then show ?thesis using u3(2) al ij by (simp add: search_post_def)
          qed
        qed
        ultimately show ?thesis by blast
      qed
    qed
  qed
qed

lemma isConnected_ok:
  assumes g: "graph_ok g" and n: "2 \<le> length (first g)"
  shows "isConnected g = Some (\<forall>v. 1 \<le> v \<and> v < int (length (first g)) \<longrightarrow> (1, v) \<in> (neighbours g)\<^sup>*)"
proof -
  let ?N = "length (first g)"
  define u0 where "u0 = (replicate ?N True)[1 := False]"
  have rep: "left_set (replicate ?N True) = {0..<int ?N}" by (auto simp: left_set_def)
  have l0: "left_set u0 = {0..<int ?N} - {1}" using left_set_update [of 1 "replicate ?N True"] n rep by (simp add: u0_def)
  obtain xs where xs: "chain (edges g) (first g ! 1) 1 xs" "set xs = incident (edges g) 1"
    using g n unfolding graph_ok_def by force
  obtain u where u: "search_loop g 1 (first g ! 1) u0 = Some u" "search_post g 1 xs u0 u"
    using search_loop_spec [OF g _ xs(1), of u0] by (auto simp: u0_def)
  have c: "isConnected g = Some (\<not> anyLeft u)"
    using u(1) n by (simp add: isConnected_def depthFirstSearch_def wri_def wr_def rdi_def rd_def u0_def)
  have "\<not> anyLeft u \<longleftrightarrow> (\<forall>v. 1 \<le> v \<and> v < int ?N \<longrightarrow> (1, v) \<in> (neighbours g)\<^sup>*)"
  proof
    assume "\<not> anyLeft u"
    then have "v \<notin> left_set u" if "1 \<le> v" for v using that by (auto simp: anyLeft_iff)
    then have "(1, v) \<in> (neighbours g)\<^sup>*" if "1 \<le> v" "v < int ?N" for v
      using that u(2) l0 by (cases "v = 1") (auto simp: search_post_def)
    then show "\<forall>v. 1 \<le> v \<and> v < int ?N \<longrightarrow> (1, v) \<in> (neighbours g)\<^sup>*" by blast
  next
    assume all: "\<forall>v. 1 \<le> v \<and> v < int ?N \<longrightarrow> (1, v) \<in> (neighbours g)\<^sup>*"
    show "\<not> anyLeft u"
    proof
      assume al: "anyLeft u"
      have closed: "v \<notin> left_set u \<and> 1 \<le> v \<and> v < int ?N" if "(1, v) \<in> (neighbours g)\<^sup>*" for v
        using that
      proof (induction rule: rtrancl_induct)
        case base
        have "1 \<notin> left_set u" using u(2) l0 by (auto simp: search_post_def)
        then show ?case using n by simp
      next
        case (step v w)
        have "1 \<le> w \<and> w < int ?N" using step(2) g by (auto simp: neighbours_def graph_ok_def)
        moreover have "w \<notin> left_set u"
        proof (cases "v = 1")
          case True
          then obtain e where "e \<in> set xs" "w = other_end (edges g) 1 e" using neighbours_incident [of 1 w g] step(2) xs(2) by blast
          then show ?thesis using u(2) al by (simp add: search_post_def)
        next
          case False
          then have "v \<in> left_set u0 - left_set u" using step(3) l0 by auto
          then show ?thesis using u(2) al step(2) by (auto simp: search_post_def)
        qed
        ultimately show ?case by simp
      qed
      obtain i where i: "i \<in> left_set u" "i \<noteq> 0" using al by (auto simp: anyLeft_iff)
      then have "1 \<le> i" "i < int ?N" using u(2) l0 by (auto simp: search_post_def)
      then show False using all closed i(1) by blast
    qed
  qed
  then show ?thesis using c by simp
qed

section \<open>Property\<close>

text \<open>
  The connectivity test.  Reading a graph succeeds exactly for end points from 1 to the number of vertices, and then, if there is
  a vertex, \<open>isConnected\<close> returns, stays in its vectors, and answers whether every vertex can be reached from vertex 1 along the
  edges that were read, loops and parallel edges included.
\<close>

theorem isConnected_correct:
  assumes l: "n \<le> length ls" and i: "length input = 2 * m"
  shows "((\<exists>g. read_graph d ls n input m = Some g) \<longleftrightarrow> (\<forall>a \<in> set input. 1 \<le> a \<and> a \<le> int n))
    \<and> (\<forall>g. read_graph d ls n input m = Some g \<longrightarrow> 1 \<le> n \<longrightarrow>
         isConnected g = Some (\<forall>v. 1 \<le> v \<and> v \<le> int n \<longrightarrow>
           (1, v) \<in> (\<Union>k < m. {(input ! (2 * k), input ! (2 * k + 1)), (input ! (2 * k + 1), input ! (2 * k))})\<^sup>*))"
proof
  let ?g = "\<lparr>labels = d # take n ls, first = Unassigned # replicate n Null, edges = []\<rparr>"
  have start: "graph_ok ?g"
    by (auto simp: graph_ok_def incident_def nth_Cons' intro!: exI [of _ "[]"])
  have rg: "read_graph d ls n input m = read_edges m input ?g" using l by (simp add: read_graph_def)
  have some: "graph_ok h \<Longrightarrow> length input = 2 * m \<Longrightarrow> length (first h) = Suc n \<Longrightarrow>
      (\<exists>g. read_edges m input h = Some g) \<longleftrightarrow> (\<forall>a \<in> set input. 1 \<le> a \<and> a \<le> int n)" for h :: "'a graph" and m input
  proof (induction m input h rule: read_edges.induct)
    case (2 m a b input h)
    let ?k = "length (edges h)"
    have ok: "(\<exists>l fs. link_end ?k a fs0 = Some (l, fs)) \<longleftrightarrow> 1 \<le> a \<and> a \<le> int n"
      if "length fs0 = Suc n" "fs0 ! 0 = Unassigned" "\<forall>i. 1 \<le> i \<longrightarrow> i < Suc n \<longrightarrow> fs0 ! i \<noteq> Unassigned" for fs0 a
    proof -
      have "fs0 ! nat a \<noteq> Unassigned \<longleftrightarrow> 1 \<le> a" if "0 \<le> a" "a \<le> int n"
        using that \<open>fs0 ! 0 = Unassigned\<close> \<open>\<forall>i. 1 \<le> i \<longrightarrow> i < Suc n \<longrightarrow> fs0 ! i \<noteq> Unassigned\<close> by (cases "a = 0") auto
      then show ?thesis using \<open>length fs0 = Suc n\<close> by (auto simp: link_end_Some)
    qed
    have f0: "first h ! 0 = Unassigned" using "2.prems"(1) by (simp add: graph_ok_def)
    have fi: "first h ! i \<noteq> Unassigned" if i: "1 \<le> i" "i < Suc n" for i
    proof -
      have "1 \<le> int i" "int i < int (length (first h))" using i "2.prems"(3) by simp_all
      then obtain xs where "chain (edges h) (first h ! nat (int i)) (int i) xs" using "2.prems"(1) unfolding graph_ok_def by blast
      then show ?thesis by (cases xs) auto
    qed
    have okb: "(\<exists>l fs'. link_end ?k b fs = Some (l, fs')) \<longleftrightarrow> 1 \<le> b \<and> b \<le> int n"
      if "link_end ?k a (first h) = Some (l1, fs)" "1 \<le> a" for l1 fs
    proof -
      have fs: "fs = (first h)[nat a := Edge ?k]" using that(1) by (simp add: link_end_Some)
      have "fs ! i \<noteq> Unassigned" if "1 \<le> i" "i < Suc n" for i
        using fi [OF that] "2.prems"(3) that by (cases "nat a = i") (simp_all add: fs)
      then show ?thesis using "2.prems"(3) f0 that(2) by (intro ok) (simp_all add: fs)
    qed
    show ?case
    proof (cases "(1 \<le> a \<and> a \<le> int n) \<and> (1 \<le> b \<and> b \<le> int n)")
      case False
      have "read_edges (Suc m) (a # b # input) h = None"
      proof (cases "1 \<le> a \<and> a \<le> int n")
        case True
        then obtain l1 fs where l1: "link_end ?k a (first h) = Some (l1, fs)" using ok [of "first h" a] "2.prems"(3) f0 fi by blast
        then have "\<nexists>l fs'. link_end ?k b fs = Some (l, fs')" using False True okb [OF l1] by blast
        then have "link_end ?k b fs = None" by (cases "link_end ?k b fs") auto
        then show ?thesis using l1 by simp
      next
        case False
        then have "\<nexists>l fs. link_end ?k a (first h) = Some (l, fs)" using ok [of "first h" a] "2.prems"(3) f0 fi by blast
        then have "link_end ?k a (first h) = None" by (cases "link_end ?k a (first h)") auto
        then show ?thesis by simp
      qed
      then show ?thesis using False by auto
    next
      case True
      then obtain l1 fs where l1: "link_end ?k a (first h) = Some (l1, fs)" using ok [of "first h" a] "2.prems"(3) f0 fi by blast
      then obtain l2 fs' where l2: "link_end ?k b fs = Some (l2, fs')" using True okb by blast
      let ?h = "h\<lparr>first := fs', edges := edges h @ [\<lparr>vertex1 = a, vertex2 = b, link1 = l1, link2 = l2\<rparr>]\<rparr>"
      have "read_edges 1 [a, b] h = Some ?h" using l1 l2 by simp
      from read_edges_ok [OF "2.prems"(1) this] have "graph_ok ?h" "length (first ?h) = Suc n" using "2.prems"(3) by auto
      from "2.IH" [OF l1 refl l2 refl this(1) _ this(2)] "2.prems"(2) True show ?thesis using l1 l2 by simp
    qed
  qed auto
  show "(\<exists>g. read_graph d ls n input m = Some g) \<longleftrightarrow> (\<forall>a \<in> set input. 1 \<le> a \<and> a \<le> int n)"
    unfolding rg by (rule some [OF start i]) simp
  show "\<forall>g. read_graph d ls n input m = Some g \<longrightarrow> 1 \<le> n \<longrightarrow>
         isConnected g = Some (\<forall>v. 1 \<le> v \<and> v \<le> int n \<longrightarrow>
           (1, v) \<in> (\<Union>k < m. {(input ! (2 * k), input ! (2 * k + 1)), (input ! (2 * k + 1), input ! (2 * k))})\<^sup>*)"
  proof (intro allI impI)
    fix g assume g: "read_graph d ls n input m = Some g" and n: "1 \<le> n"
    from read_edges_ok [OF start g [unfolded rg]] have ok: "graph_ok g" "length (first g) = Suc n"
      "map (\<lambda>n. (vertex1 n, vertex2 n)) (edges g) = map (\<lambda>i. (input ! (2 * i), input ! (2 * i + 1))) [0..<m]" by auto
    have "neighbours g = (\<Union>(a, b) \<in> set (map (\<lambda>n. (vertex1 n, vertex2 n)) (edges g)). {(a, b), (b, a)})"
      by (auto simp: neighbours_def)
    also have "\<dots> = (\<Union>k < m. {(input ! (2 * k), input ! (2 * k + 1)), (input ! (2 * k + 1), input ! (2 * k))})"
      unfolding ok(3) by auto
    finally have e: "neighbours g = (\<Union>k < m. {(input ! (2 * k), input ! (2 * k + 1)), (input ! (2 * k + 1), input ! (2 * k))})" .
    have "v < int (length (first g)) \<longleftrightarrow> v \<le> int n" for v using ok(2) by auto
    then show "isConnected g = Some (\<forall>v. 1 \<le> v \<and> v \<le> int n \<longrightarrow>
           (1, v) \<in> (\<Union>k < m. {(input ! (2 * k), input ! (2 * k + 1)), (input ! (2 * k + 1), input ! (2 * k))})\<^sup>*)"
      using isConnected_ok [OF ok(1)] ok(2) n by (simp add: e)
  qed
qed

theorem isConnected_correct_witness:
  "\<exists>g. read_graph CHR '' '' ''abc'' 3 [1, 2, 3, 2, 3, 3] 3 = Some g \<and> isConnected g = Some True"
proof -
  let ?in = "[1, 2, 3, 2, 3, 3] :: int list"
  let ?R = "\<Union>k < (3 :: nat). {(?in ! (2 * k), ?in ! (2 * k + 1)), (?in ! (2 * k + 1), ?in ! (2 * k))}"
  have p: "(3 :: nat) \<le> length ''abc''" "length ?in = 2 * 3" "\<forall>a \<in> set ?in. 1 \<le> a \<and> a \<le> int 3" by simp_all
  from isConnected_correct [OF p(1,2), of "CHR '' ''"] p(3) obtain g where g: "read_graph CHR '' '' ''abc'' 3 ?in 3 = Some g"
    "isConnected g = Some (\<forall>v. 1 \<le> v \<and> v \<le> int 3 \<longrightarrow> (1, v) \<in> ?R\<^sup>*)" by fastforce
  have "(1, 2) \<in> ?R" by (rule UN_I [of 0]) simp_all
  moreover have "(2, 3) \<in> ?R" by (rule UN_I [of 1]) simp_all
  ultimately have "(1, 2) \<in> ?R\<^sup>*" "(1, 3) \<in> ?R\<^sup>*" by (meson rtrancl.rtrancl_refl rtrancl.rtrancl_into_rtrancl)+
  moreover have "v = 1 \<or> v = 2 \<or> v = 3" if "1 \<le> v \<and> v \<le> int 3" for v using that by auto
  ultimately have "\<forall>v. 1 \<le> v \<and> v \<le> int 3 \<longrightarrow> (1, v) \<in> ?R\<^sup>*" by blast
  then show ?thesis using g by auto
qed

declare search_loop.simps [code]

end
