(* ===== verification/Bounded_Buffer.thy ===== *)
theory Bounded_Buffer
  imports Prelude
begin

text \<open>
  The producers and the consumer of example_pthread_cond1.cpp as interleaved steps of a list of threads around one mutex and
  two condition variables.  The store and its size are only used with the mutex held, so a step goes from one locking
  operation to the next: acquiring the mutex (\<open>Ready\<close>), testing the condition (\<open>Test\<close>), which may put the
  thread to sleep and frees the mutex, and the push or pop with its broadcast and the unlocking (\<open>Act\<close>).
  An access outside the store is \<open>Bug\<close>.  The logs \<open>pushed\<close> and \<open>popped\<close> are not in the code, except as output.
\<close>

section \<open>The code\<close>

datatype role = Producer "char list" | Customer nat

datatype pc = Ready | Test | Act | Asleep | Done

record monitor =
  store :: "char list"
  stored :: int
  mutex :: "nat option"
  threads :: "(role \<times> pc) list"
  pushed :: "char list"
  popped :: "char list"

datatype outcome = Next monitor | Blocked | Bug

definition CAPACITY :: nat where "CAPACITY = 8"

fun remaining :: "role \<Rightarrow> nat" where
  "remaining (Producer cs) = length cs"
| "remaining (Customer n) = n"

text \<open>The threads of \<open>main\<close>, or any others; the store is a global array of zeros.\<close>

definition start_threads :: "role list \<Rightarrow> monitor" where
  "start_threads rs = \<lparr>store = replicate CAPACITY (char_of (0 :: nat)), stored = 0, mutex = None, threads = map (\<lambda>r. (r, Ready)) rs,
     pushed = [], popped = []\<rparr>"

definition alphabet :: "char list" where
  "alphabet = map char_of [65..<91 :: nat]"

definition main_threads :: "role list" where
  "main_threads = [Producer alphabet, Customer 52, Producer alphabet]"

definition is_producer :: "role \<Rightarrow> bool" where
  "is_producer r = (case r of Producer cs \<Rightarrow> True | Customer n \<Rightarrow> False)"

text \<open>\<open>pthread_cond_broadcast\<close>: the producers sleep on \<open>full\<close>, the customers on \<open>empty\<close>.\<close>

definition broadcast :: "bool \<Rightarrow> (role \<times> pc) list \<Rightarrow> (role \<times> pc) list" where
  "broadcast producers ts = map (\<lambda>(r, p). if p = Asleep \<and> is_producer r = producers then (r, Ready) else (r, p)) ts"

definition wait_here :: "role \<Rightarrow> int \<Rightarrow> bool" where
  "wait_here r n = (case r of Producer cs \<Rightarrow> n = int CAPACITY | Customer k \<Rightarrow> n = 0)"

definition thread_step :: "nat \<Rightarrow> monitor \<Rightarrow> outcome" where
  "thread_step i s =
     (if i < length (threads s) then
        (let (r, p) = threads s ! i in
         case p of
           Ready \<Rightarrow>
             (if remaining r = 0 then Next (s\<lparr>threads := (threads s)[i := (r, Done)]\<rparr>)
              else if mutex s = None then Next (s\<lparr>mutex := Some i, threads := (threads s)[i := (r, Test)]\<rparr>)
              else Blocked)
         | Test \<Rightarrow>
             (if wait_here r (stored s) then Next (s\<lparr>mutex := None, threads := (threads s)[i := (r, Asleep)]\<rparr>)
              else Next (s\<lparr>threads := (threads s)[i := (r, Act)]\<rparr>))
         | Act \<Rightarrow>
             (case r of
                Producer (c # cs) \<Rightarrow>
                  (case wri (store s) (stored s) c of
                     None \<Rightarrow> Bug
                   | Some st \<Rightarrow> Next (s\<lparr>store := st, stored := stored s + 1, pushed := pushed s @ [c], mutex := None,
                                   threads := broadcast False ((threads s)[i := (Producer cs, Ready)])\<rparr>))
              | Customer (Suc n) \<Rightarrow>
                  (case rdi (store s) (stored s - 1) of
                     None \<Rightarrow> Bug
                   | Some c \<Rightarrow> Next (s\<lparr>stored := stored s - 1, popped := popped s @ [c], mutex := None,
                                  threads := broadcast True ((threads s)[i := (Customer n, Ready)])\<rparr>))
              | _ \<Rightarrow> Blocked)
         | _ \<Rightarrow> Blocked)
      else Blocked)"

text \<open>A thread that sleeps may also wake up without a broadcast.\<close>

definition wake_up :: "nat \<Rightarrow> monitor \<Rightarrow> outcome" where
  "wake_up i s =
     (if i < length (threads s) \<and> snd (threads s ! i) = Asleep
      then Next (s\<lparr>threads := (threads s)[i := (fst (threads s ! i), Ready)]\<rparr>) else Blocked)"

inductive reach :: "role list \<Rightarrow> monitor \<Rightarrow> bool" for rs where
  reach_start: "reach rs (start_threads rs)"
| reach_step: "reach rs s \<Longrightarrow> thread_step i s = Next s' \<Longrightarrow> reach rs s'"
| reach_wake: "reach rs s \<Longrightarrow> wake_up i s = Next s' \<Longrightarrow> reach rs s'"

section \<open>The steps\<close>

lemma thread_step_cases:
  assumes "thread_step i s = Next s'"
  obtains
    (finish) r where "i < length (threads s)" "threads s ! i = (r, Ready)" "remaining r = 0" "s' = s\<lparr>threads := (threads s)[i := (r, Done)]\<rparr>"
  | (acquire) r where "i < length (threads s)" "threads s ! i = (r, Ready)" "0 < remaining r" "mutex s = None"
      "s' = s\<lparr>mutex := Some i, threads := (threads s)[i := (r, Test)]\<rparr>"
  | (sleep) r where "i < length (threads s)" "threads s ! i = (r, Test)" "wait_here r (stored s)"
      "s' = s\<lparr>mutex := None, threads := (threads s)[i := (r, Asleep)]\<rparr>"
  | (go) r where "i < length (threads s)" "threads s ! i = (r, Test)" "\<not> wait_here r (stored s)" "s' = s\<lparr>threads := (threads s)[i := (r, Act)]\<rparr>"
  | (push) c cs where "i < length (threads s)" "threads s ! i = (Producer (c # cs), Act)" "0 \<le> stored s" "stored s < int (length (store s))"
      "s' = s\<lparr>store := (store s)[nat (stored s) := c], stored := stored s + 1, pushed := pushed s @ [c], mutex := None,
         threads := broadcast False ((threads s)[i := (Producer cs, Ready)])\<rparr>"
  | (pop) n where "i < length (threads s)" "threads s ! i = (Customer (Suc n), Act)" "1 \<le> stored s" "stored s \<le> int (length (store s))"
      "s' = s\<lparr>stored := stored s - 1, popped := popped s @ [store s ! nat (stored s - 1)], mutex := None,
         threads := broadcast True ((threads s)[i := (Customer n, Ready)])\<rparr>"
proof -
  have i: "i < length (threads s)" using assms by (auto simp: thread_step_def split: if_splits)
  obtain r p where t: "threads s ! i = (r, p)" by force
  show thesis
  proof (cases p)
    case Ready
    then show thesis using assms i t finish [of r] acquire [of r] by (simp add: thread_step_def split: if_splits)
  next
    case Test
    then show thesis using assms i t sleep [of r] go [of r] by (simp add: thread_step_def split: if_splits)
  next
    case Act
    show thesis
    proof (cases r)
      case (Producer ds)
      then obtain c cs where "ds = c # cs" using assms i t Act by (cases ds) (simp_all add: thread_step_def)
      then show thesis using assms i t Act Producer push [of c cs] by (auto simp: thread_step_def access_iffs split: option.splits)
    next
      case (Customer k)
      then obtain n where "k = Suc n" using assms i t Act by (cases k) (simp_all add: thread_step_def)
      then show thesis using assms i t Act Customer pop [of n] by (auto simp: thread_step_def access_iffs split: option.splits)
    qed
  qed (use assms i t in \<open>auto simp: thread_step_def\<close>)
qed

lemma wake_up_cases:
  assumes "wake_up i s = Next s'"
  obtains r where "i < length (threads s)" "threads s ! i = (r, Asleep)" "s' = s\<lparr>threads := (threads s)[i := (r, Ready)]\<rparr>"
  using assms by (cases "threads s ! i") (auto simp: wake_up_def split: if_splits)

section \<open>The invariant\<close>

definition inside :: "pc \<Rightarrow> bool" where
  "inside p \<longleftrightarrow> p = Test \<or> p = Act"

definition mutex_inv :: "monitor \<Rightarrow> bool" where
  "mutex_inv s \<longleftrightarrow> (\<forall>i. mutex s = Some i \<longleftrightarrow> i < length (threads s) \<and> inside (snd (threads s ! i)))"

text \<open>A thread at work does not have to wait, a thread that sleeps does, and only a finished one is done.\<close>

definition pc_ok :: "int \<Rightarrow> role \<times> pc \<Rightarrow> bool" where
  "pc_ok n t \<longleftrightarrow> (snd t = Act \<longrightarrow> \<not> wait_here (fst t) n) \<and> (snd t = Asleep \<longrightarrow> wait_here (fst t) n)
     \<and> (snd t = Done \<longrightarrow> remaining (fst t) = 0) \<and> (snd t \<in> {Test, Act, Asleep} \<longrightarrow> 0 < remaining (fst t))"

definition pcs_inv :: "monitor \<Rightarrow> bool" where
  "pcs_inv s \<longleftrightarrow> (\<forall>i < length (threads s). pc_ok (stored s) (threads s ! i))"

definition work_left :: "bool \<Rightarrow> role list \<Rightarrow> nat" where
  "work_left producers rs = (\<Sum>r\<leftarrow>rs. if is_producer r = producers then remaining r else 0)"

definition roles :: "monitor \<Rightarrow> role list" where
  "roles s = map fst (threads s)"

definition store_inv :: "role list \<Rightarrow> monitor \<Rightarrow> bool" where
  "store_inv rs s \<longleftrightarrow> length (store s) = CAPACITY \<and> 0 \<le> stored s \<and> stored s \<le> int CAPACITY
     \<and> mset (pushed s) = mset (popped s) + mset (take (nat (stored s)) (store s))
     \<and> length (pushed s) + work_left True (roles s) = work_left True rs
     \<and> length (popped s) + work_left False (roles s) = work_left False rs"

lemma broadcast_simps [simp]: "length (broadcast b ts) = length ts" "map fst (broadcast b ts) = map fst ts"
  by (auto simp: broadcast_def)

lemma broadcast_nth: "i < length ts \<Longrightarrow> broadcast b ts ! i = (fst (ts ! i), if snd (ts ! i) = Asleep \<and> is_producer (fst (ts ! i)) = b then Ready else snd (ts ! i))"
  by (auto simp: broadcast_def case_prod_beta prod_eq_iff)

text \<open>A change of the program counter leaves the roles alone.\<close>

lemma map_fst_pc: "ts ! i = (r, p) \<Longrightarrow> map fst (ts[i := (r, q)]) = map fst ts"
  by (metis fst_conv list_update_beyond list_update_id map_update not_le_imp_less nth_map)

lemma inside_simps [simp]: "\<not> inside Ready" "inside Test" "inside Act" "\<not> inside Asleep" "\<not> inside Done"
  by (simp_all add: inside_def)

lemma mutex_inv_update:
  assumes m: "mutex_inv s" and i: "i < length (threads s)" "threads s ! i = (r, p)"
    and new: "if inside q then m = Some i \<and> (mutex s = None \<or> inside p) else m = (if inside p then None else mutex s)"
  shows "m = Some j \<longleftrightarrow> j < length ((threads s)[i := (r', q)]) \<and> inside (snd ((threads s)[i := (r', q)] ! j))"
proof -
  have a: "mutex s = Some j \<longleftrightarrow> j < length (threads s) \<and> inside (snd (threads s ! j))" for j using m by (simp add: mutex_inv_def)
  show ?thesis using new a [of i] a [of j] i by (cases "j = i") (auto split: if_splits)
qed

lemma step_mutex_inv: "mutex_inv s \<Longrightarrow> thread_step i s = Next s' \<Longrightarrow> mutex_inv s'"
proof -
  assume m: "mutex_inv s" and st: "thread_step i s = Next s'"
  have bc: "inside (snd (broadcast b ts ! j)) \<longleftrightarrow> inside (snd (ts ! j))" if "j < length ts" for b ts j
    using that by (auto simp: broadcast_nth inside_def)
  from st show ?thesis
  proof (cases rule: thread_step_cases)
    case (finish r)
    then show ?thesis using mutex_inv_update [OF m finish(1,2), of Done "mutex s"] by (simp add: mutex_inv_def)
  next
    case (acquire r)
    then show ?thesis using mutex_inv_update [OF m acquire(1,2), of Test "Some i"] by (simp add: mutex_inv_def)
  next
    case (sleep r)
    then show ?thesis using mutex_inv_update [OF m sleep(1,2), of Asleep None] by (simp add: mutex_inv_def)
  next
    case (go r)
    have "mutex s = Some i" using m go(1,2) by (simp add: mutex_inv_def)
    then show ?thesis using mutex_inv_update [OF m go(1,2), of Act "mutex s"] go(4) by (simp add: mutex_inv_def)
  next
    case (push c cs)
    then show ?thesis using mutex_inv_update [OF m push(1,2), of Ready None "_" "Producer cs"] bc by (auto simp: mutex_inv_def)
  next
    case (pop n)
    then show ?thesis using mutex_inv_update [OF m pop(1,2), of Ready None "_" "Customer n"] bc by (auto simp: mutex_inv_def)
  qed
qed

lemma alone_inside: "mutex_inv s \<Longrightarrow> i < length (threads s) \<Longrightarrow> inside (snd (threads s ! i)) \<Longrightarrow> j < length (threads s) \<Longrightarrow> inside (snd (threads s ! j)) \<Longrightarrow> i = j"
  unfolding mutex_inv_def by (metis option.inject)

lemma step_pcs_inv: "mutex_inv s \<Longrightarrow> pcs_inv s \<Longrightarrow> thread_step i s = Next s' \<Longrightarrow> pcs_inv s'"
proof -
  assume m: "mutex_inv s" and p: "pcs_inv s" and st: "thread_step i s = Next s'"
  have old: "pc_ok (stored s) (threads s ! j)" if "j < length (threads s)" for j using p that by (simp add: pcs_inv_def)
  have upd: "pcs_inv (s\<lparr>mutex := x, threads := (threads s)[i := t]\<rparr>)" if "pc_ok (stored s) t" for x t
    using old that by (simp add: pcs_inv_def) (metis nth_list_update_eq nth_list_update_neq)
  have upd': "pcs_inv (s\<lparr>threads := (threads s)[i := t]\<rparr>)" if "pc_ok (stored s) t" for t
    using old that by (simp add: pcs_inv_def) (metis nth_list_update_eq nth_list_update_neq)
  have act: "pc_ok n (broadcast b ((threads s)[i := (r', Ready)]) ! j)"
    if i: "i < length (threads s)" "threads s ! i = (r, Act)" "is_producer r = (\<not> b)" and j: "j < length (threads s)" for b r r' n j
  proof (cases "j = i")
    case True
    then show ?thesis using i by (simp add: broadcast_nth pc_ok_def)
  next
    case False
    have "\<not> inside (snd (threads s ! j))" using alone_inside [OF m i(1) _ j] i(2) False by auto
    moreover have "snd (threads s ! j) = Asleep \<longrightarrow> is_producer (fst (threads s ! j)) = b"
    proof
      assume "snd (threads s ! j) = Asleep"
      then have "wait_here (fst (threads s ! j)) (stored s)" using old [OF j] by (simp add: pc_ok_def)
      moreover have "\<not> wait_here r (stored s)" using old [OF i(1)] i(2) by (simp add: pc_ok_def)
      ultimately show "is_producer (fst (threads s ! j)) = b"
        using i(3) by (cases r; cases "fst (threads s ! j)") (auto simp: wait_here_def is_producer_def)
    qed
    ultimately show ?thesis using old [OF j] False j by (auto simp: broadcast_nth pc_ok_def)
  qed
  from st show ?thesis
  proof (cases rule: thread_step_cases)
    case (finish r)
    then show ?thesis using upd' [of "(r, Done)"] by (simp add: pc_ok_def)
  next
    case (acquire r)
    then show ?thesis using upd [of "(r, Test)"] by (simp add: pc_ok_def)
  next
    case (sleep r)
    then show ?thesis using upd [of "(r, Asleep)"] old [of i] by (simp add: pc_ok_def)
  next
    case (go r)
    then show ?thesis using upd' [of "(r, Act)"] old [of i] by (simp add: pc_ok_def)
  next
    case (push c cs)
    then show ?thesis using act [OF push(1,2), of False] by (simp add: pcs_inv_def is_producer_def)
  next
    case (pop n)
    then show ?thesis using act [OF pop(1,2), of True] by (simp add: pcs_inv_def is_producer_def)
  qed
qed

lemma work_left_update:
  "i < length rs \<Longrightarrow> work_left b (rs[i := r]) + (if is_producer (rs ! i) = b then remaining (rs ! i) else 0)
     = work_left b rs + (if is_producer r = b then remaining r else 0)"
  unfolding work_left_def by (rule sum_list_change)

lemma step_store_inv: "store_inv rs s \<Longrightarrow> thread_step i s = Next s' \<Longrightarrow> store_inv rs s'"
proof -
  assume v: "store_inv rs s" and st: "thread_step i s = Next s'"
  have same: "roles (s\<lparr>threads := (threads s)[i := (r, q)]\<rparr>) = roles s" "roles (s\<lparr>mutex := x, threads := (threads s)[i := (r, q)]\<rparr>) = roles s"
    if "i < length (threads s)" "threads s ! i = (r, p)" for r p q x
    using that by (simp_all add: roles_def map_update list_update_same_conv)
  from st show ?thesis
  proof (cases rule: thread_step_cases)
    case (push c cs)
    let ?r = "map fst (threads s)"
    have w: "work_left b (?r[i := Producer cs]) + (if b then Suc (length cs) else 0) = work_left b ?r + (if b then length cs else 0)" for b
      using work_left_update [of i ?r b "Producer cs"] push(1,2) by (simp add: is_producer_def split: if_splits)
    have t: "take (nat (stored s + 1)) ((store s)[nat (stored s) := c]) = take (nat (stored s)) (store s) @ [c]"
      using push(3,4) take_Suc_update [of "nat (stored s)" "store s" c] by (simp add: nat_add_distrib)
    show ?thesis using v w [of True] w [of False] push(3,4) t unfolding push(5) by (simp add: store_inv_def roles_def map_update)
  next
    case (pop n)
    let ?r = "map fst (threads s)"
    have w: "work_left b (?r[i := Customer n]) + (if \<not> b then Suc n else 0) = work_left b ?r + (if \<not> b then n else 0)" for b
      using work_left_update [of i ?r b "Customer n"] pop(1,2) by (simp add: is_producer_def split: if_splits)
    have "nat (stored s) = Suc (nat (stored s - 1))" using pop(3) by simp
    then have t: "take (nat (stored s)) (store s) = take (nat (stored s - 1)) (store s) @ [store s ! nat (stored s - 1)]"
      using pop(3,4) by (simp add: take_Suc_conv_app_nth)
    show ?thesis using v w [of True] w [of False] pop(3,4) t unfolding pop(5) by (simp add: store_inv_def roles_def map_update)
  qed (use v same in \<open>auto simp: store_inv_def\<close>)
qed

definition monitor_inv :: "role list \<Rightarrow> monitor \<Rightarrow> bool" where
  "monitor_inv rs s \<longleftrightarrow> mutex_inv s \<and> pcs_inv s \<and> store_inv rs s"

lemma reach_inv: "reach rs s \<Longrightarrow> monitor_inv rs s"
proof (induction rule: reach.induct)
  case reach_start
  have "mutex_inv (start_threads rs)" by (simp add: mutex_inv_def start_threads_def)
  moreover have "pcs_inv (start_threads rs)" by (simp add: pcs_inv_def start_threads_def pc_ok_def)
  moreover have "store_inv rs (start_threads rs)" by (simp add: store_inv_def start_threads_def roles_def comp_def)
  ultimately show ?case by (simp add: monitor_inv_def)
next
  case (reach_step s i s')
  then show ?case using step_mutex_inv step_pcs_inv step_store_inv by (auto simp: monitor_inv_def)
next
  case (reach_wake s i s')
  from reach_wake.hyps(2) obtain r where r: "i < length (threads s)" "threads s ! i = (r, Asleep)" "s' = s\<lparr>threads := (threads s)[i := (r, Ready)]\<rparr>"
    by (rule wake_up_cases)
  have "mutex_inv s'" using mutex_inv_update [OF _ r(1,2), of Ready "mutex s"] reach_wake.IH r(3) by (simp add: monitor_inv_def mutex_inv_def)
  moreover have "pcs_inv s'" using reach_wake.IH r by (auto simp: monitor_inv_def pcs_inv_def nth_list_update pc_ok_def)
  moreover have "roles s' = roles s" using r by (simp add: roles_def map_fst_pc)
  then have "store_inv rs s'" using reach_wake.IH r(3) by (simp add: monitor_inv_def store_inv_def)
  ultimately show ?case by (simp add: monitor_inv_def)
qed

section \<open>What is delivered\<close>

fun items :: "role \<Rightarrow> char list" where
  "items (Producer cs) = cs"
| "items (Customer n) = []"

definition items_left :: "role list \<Rightarrow> char multiset" where
  "items_left rs = (\<Sum>r\<leftarrow>rs. mset (items r))"

lemma items_left_update: "i < length rs \<Longrightarrow> items_left (rs[i := r]) + mset (items (rs ! i)) = items_left rs + mset (items r)"
  unfolding items_left_def by (rule sum_list_change)

lemma step_items: "thread_step i s = Next s' \<Longrightarrow> mset (pushed s') + items_left (roles s') = mset (pushed s) + items_left (roles s)"
proof -
  assume "thread_step i s = Next s'"
  then show ?thesis
  proof (cases rule: thread_step_cases)
    case (push c cs)
    then have "items_left ((roles s)[i := Producer cs]) + add_mset c (mset cs) = items_left (roles s) + mset cs"
      using items_left_update [of i "roles s" "Producer cs"] by (simp add: roles_def)
    then show ?thesis using push(5) by (simp add: roles_def map_update)
  next
    case (pop n)
    then have "items_left ((roles s)[i := Customer n]) = items_left (roles s)"
      using items_left_update [of i "roles s" "Customer n"] by (simp add: roles_def)
    then show ?thesis using pop(5) by (simp add: roles_def map_update)
  qed (simp_all add: roles_def map_fst_pc)
qed

lemma reach_items: "reach rs s \<Longrightarrow> mset (pushed s) + items_left (roles s) = items_left rs"
proof (induction rule: reach.induct)
  case reach_start
  show ?case by (simp add: start_threads_def roles_def comp_def)
next
  case (reach_step s i s')
  then show ?case using step_items by metis
next
  case (reach_wake s i s')
  from reach_wake.hyps(2) obtain r where r: "i < length (threads s)" "threads s ! i = (r, Asleep)" "s' = s\<lparr>threads := (threads s)[i := (r, Ready)]\<rparr>"
    by (rule wake_up_cases)
  then have "roles s' = roles s" by (simp add: roles_def map_fst_pc)
  then show ?case using reach_wake.IH r(3) by simp
qed

section \<open>No deadlock\<close>

lemma no_bug: "monitor_inv rs s \<Longrightarrow> thread_step i s \<noteq> Bug"
proof
  assume inv: "monitor_inv rs s" and b: "thread_step i s = Bug"
  have i: "i < length (threads s)" using b by (auto simp: thread_step_def split: if_splits)
  obtain r p where t: "threads s ! i = (r, p)" by force
  have pc: "pc_ok (stored s) (r, p)" using inv i t by (auto simp: monitor_inv_def pcs_inv_def)
  have st: "length (store s) = CAPACITY" "0 \<le> stored s" "stored s \<le> int CAPACITY" using inv by (auto simp: monitor_inv_def store_inv_def)
  have p: "p = Act" using b i t by (cases p) (auto simp: thread_step_def split: if_splits)
  show False
  proof (cases r)
    case (Producer cs)
    then have "stored s < int CAPACITY" using pc p st by (auto simp: pc_ok_def wait_here_def)
    then show False using b i t p Producer st by (auto simp: thread_step_def wri_def wr_def nat_less_iff split: list.splits)
  next
    case (Customer n)
    then have "0 < stored s" using pc p st by (auto simp: pc_ok_def wait_here_def)
    then show False using b i t p Customer st by (auto simp: thread_step_def rdi_def rd_def nat_less_iff split: nat.splits)
  qed
qed

lemma blocked_pc:
  assumes inv: "monitor_inv rs s" and b: "thread_step i s = Blocked" and i: "i < length (threads s)" and m: "mutex s = None"
  shows "snd (threads s ! i) = Done \<or> snd (threads s ! i) = Asleep"
proof -
  obtain r p where t: "threads s ! i = (r, p)" by force
  have "\<not> inside p" using inv m i t by (auto simp: monitor_inv_def mutex_inv_def)
  moreover have "p \<noteq> Ready" using b i t m by (auto simp: thread_step_def split: if_splits)
  ultimately show ?thesis using t by (cases p) auto
qed

lemma blocked_mutex:
  assumes inv: "monitor_inv rs s" and b: "\<forall>i. thread_step i s = Blocked"
  shows "mutex s = None"
proof (rule ccontr)
  assume "mutex s \<noteq> None"
  then obtain i where "mutex s = Some i" by blast
  then have i: "i < length (threads s)" "inside (snd (threads s ! i))" using inv by (auto simp: monitor_inv_def mutex_inv_def)
  obtain r p where t: "threads s ! i = (r, p)" by force
  have bl: "thread_step i s = Blocked" using b by blast
  then have p: "p = Act" using i t by (cases p) (auto simp: thread_step_def split: if_splits)
  have "0 < remaining r" using inv i t p by (auto simp: monitor_inv_def pcs_inv_def pc_ok_def)
  then show False using bl i t p by (cases r) (auto simp: thread_step_def split: list.splits nat.splits option.splits)
qed

lemma work_left_0: "work_left b rs = 0 \<longleftrightarrow> (\<forall>r \<in> set rs. is_producer r = b \<longrightarrow> remaining r = 0)"
  by (auto simp: work_left_def)

lemma stuck_done:
  assumes inv: "monitor_inv rs s" and b: "\<forall>i. thread_step i s = Blocked" and eq: "work_left True rs = work_left False rs"
  shows "\<forall>t \<in> set (threads s). snd t = Done"
proof (rule ccontr)
  assume "\<not> (\<forall>t \<in> set (threads s). snd t = Done)"
  then obtain i where i: "i < length (threads s)" "snd (threads s ! i) \<noteq> Done" by (auto simp: in_set_conv_nth)
  have m: "mutex s = None" by (rule blocked_mutex [OF inv b])
  have two: "snd t = Done \<or> snd t = Asleep" and ok: "pc_ok (stored s) t" if "t \<in> set (threads s)" for t
    using that blocked_pc [OF inv _ _ m] b inv by (auto simp: in_set_conv_nth monitor_inv_def pcs_inv_def)
  let ?t = "threads s ! i"
  have t: "?t \<in> set (threads s)" using i(1) by simp
  have a: "snd ?t = Asleep" using two [OF t] i(2) by blast
  then have w: "wait_here (fst ?t) (stored s)" "0 < remaining (fst ?t)" using ok [OF t] by (auto simp: pc_ok_def)
  have others: "work_left (\<not> is_producer (fst ?t)) (roles s) = 0"
    unfolding work_left_0
  proof (intro ballI impI)
    fix r assume "r \<in> set (roles s)" "is_producer r = (\<not> is_producer (fst ?t))"
    then obtain q where q: "(r, q) \<in> set (threads s)" by (auto simp: roles_def)
    have "\<not> wait_here r (stored s)" using w(1) \<open>is_producer r = (\<not> is_producer (fst ?t))\<close>
      by (cases r; cases "fst ?t") (auto simp: wait_here_def is_producer_def CAPACITY_def)
    then show "remaining r = 0" using two [OF q] ok [OF q] by (auto simp: pc_ok_def)
  qed
  have st: "0 \<le> stored s" "stored s \<le> int CAPACITY" "length (store s) = CAPACITY"
    "length (pushed s) + work_left True (roles s) = work_left True rs" "length (popped s) + work_left False (roles s) = work_left False rs"
    "mset (pushed s) = mset (popped s) + mset (take (nat (stored s)) (store s))" using inv by (auto simp: monitor_inv_def store_inv_def)
  have len: "length (pushed s) = length (popped s) + nat (stored s)"
    using arg_cong [OF st(6), of size] st(2,3) by simp
  have mine: "0 < work_left (is_producer (fst ?t)) (roles s)"
    using w(2) t work_left_0 [of "is_producer (fst ?t)" "roles s"] unfolding roles_def by fastforce
  show False
  proof (cases "is_producer (fst ?t)")
    case True
    then show False using w(1) others mine st len eq by (cases "fst ?t") (auto simp: wait_here_def is_producer_def)
  next
    case False
    then have "stored s = 0" using w(1) by (cases "fst ?t") (auto simp: wait_here_def is_producer_def)
    then show False using False others mine st(4,5) len eq by simp
  qed
qed

section \<open>Termination\<close>

fun rank :: "pc \<Rightarrow> nat" where
  "rank Ready = 3"
| "rank Test = 2"
| "rank Act = 1"
| "rank Asleep = 0"
| "rank Done = 0"

definition ranks :: "(role \<times> pc) list \<Rightarrow> nat" where
  "ranks ts = (\<Sum>t\<leftarrow>ts. rank (snd t))"

text \<open>A push or a pop may wake every thread, which costs at most three steps each.\<close>

definition potential :: "monitor \<Rightarrow> nat" where
  "potential s = (work_left True (roles s) + work_left False (roles s)) * (3 * length (threads s) + 1) + ranks (threads s)"

lemma ranks_le: "ranks ts \<le> 3 * length ts"
proof (induction ts)
  case (Cons t ts)
  have "rank (snd t) \<le> 3" by (cases "snd t") auto
  then show ?case using Cons by (simp add: ranks_def)
qed (simp add: ranks_def)

lemma ranks_update: "i < length ts \<Longrightarrow> ranks (ts[i := t]) + rank (snd (ts ! i)) = ranks ts + rank (snd t)"
  unfolding ranks_def by (rule sum_list_change)

lemma step_potential: "thread_step i s = Next s' \<Longrightarrow> potential s' < potential s"
proof -
  assume "thread_step i s = Next s'"
  then show ?thesis
  proof (cases rule: thread_step_cases)
    case (push c cs)
    let ?n = "3 * length (threads s) + 1" and ?w = "work_left True (roles s') + work_left False (roles s')"
    have "work_left True (roles s) + work_left False (roles s) = Suc ?w"
      using work_left_update [of i "roles s" True "Producer cs"] work_left_update [of i "roles s" False "Producer cs"] push
      by (simp add: roles_def map_update is_producer_def)
    moreover have "ranks (threads s') < ?n" using ranks_le [of "threads s'"] push(5) by simp
    moreover have "length (threads s') = length (threads s)" using push(5) by simp
    ultimately show ?thesis by (simp add: potential_def)
  next
    case (pop n)
    let ?n = "3 * length (threads s) + 1" and ?w = "work_left True (roles s') + work_left False (roles s')"
    have "work_left True (roles s) + work_left False (roles s) = Suc ?w"
      using work_left_update [of i "roles s" True "Customer n"] work_left_update [of i "roles s" False "Customer n"] pop
      by (simp add: roles_def map_update is_producer_def)
    moreover have "ranks (threads s') < ?n" using ranks_le [of "threads s'"] pop(5) by simp
    moreover have "length (threads s') = length (threads s)" using pop(5) by simp
    ultimately show ?thesis by (simp add: potential_def)
  next
    case (finish r)
    then show ?thesis using ranks_update [of i "threads s" "(r, Done)"] by (simp add: potential_def roles_def map_fst_pc)
  next
    case (acquire r)
    then show ?thesis using ranks_update [of i "threads s" "(r, Test)"] by (simp add: potential_def roles_def map_fst_pc)
  next
    case (sleep r)
    then show ?thesis using ranks_update [of i "threads s" "(r, Asleep)"] by (simp add: potential_def roles_def map_fst_pc)
  next
    case (go r)
    then show ?thesis using ranks_update [of i "threads s" "(r, Act)"] by (simp add: potential_def roles_def map_fst_pc)
  qed
qed

text \<open>A schedule names the thread that makes each step.\<close>

fun run_schedule :: "nat list \<Rightarrow> monitor \<Rightarrow> monitor option" where
  "run_schedule [] s = Some s"
| "run_schedule (i # is) s = (case thread_step i s of Next s' \<Rightarrow> run_schedule is s' | _ \<Rightarrow> None)"

lemma run_length: "run_schedule is s = Some s' \<Longrightarrow> length is + potential s' \<le> potential s"
proof (induction "is" arbitrary: s)
  case (Cons i "is")
  then obtain s1 where "thread_step i s = Next s1" "run_schedule is s1 = Some s'" by (auto split: outcome.splits)
  then show ?case using Cons.IH [of s1] step_potential [of i s s1] by simp
qed simp

lemma run_reach: "run_schedule is s = Some s' \<Longrightarrow> reach rs s \<Longrightarrow> reach rs s'"
  by (induction "is" arbitrary: s) (auto split: outcome.splits intro: reach_step)

section \<open>Property\<close>

text \<open>
  C21: producers and consumers.  When the producers have as many characters as the customers want, then in every reachable
  state no thread leaves the store and what was pushed is what was popped and what is stored; a schedule without spurious
  wake-ups makes at most \<open>potential s\<close> steps, and when no thread can make a step, all have
  finished and every character was popped as often as it was produced.
\<close>

theorem monitor_delivers_all:
  assumes r: "reach rs s" and eq: "work_left True rs = work_left False rs"
  shows "thread_step i s \<noteq> Bug \<and> 0 \<le> stored s \<and> stored s \<le> 8
    \<and> mset (pushed s) = mset (popped s) + mset (take (nat (stored s)) (store s))
    \<and> (run_schedule is s = Some s' \<longrightarrow> length is \<le> potential s)
    \<and> ((\<forall>i. thread_step i s = Blocked) \<longrightarrow> (\<forall>t \<in> set (threads s). snd t = Done) \<and> mset (popped s) = items_left rs)"
proof -
  have inv: "monitor_inv rs s" by (rule reach_inv [OF r])
  have st: "0 \<le> stored s" "stored s \<le> int CAPACITY" "length (store s) = CAPACITY"
    "length (pushed s) + work_left True (roles s) = work_left True rs" "length (popped s) + work_left False (roles s) = work_left False rs"
    "mset (pushed s) = mset (popped s) + mset (take (nat (stored s)) (store s))" using inv by (auto simp: monitor_inv_def store_inv_def)
  have "(\<forall>t \<in> set (threads s). snd t = Done) \<and> mset (popped s) = items_left rs" if b: "\<forall>i. thread_step i s = Blocked"
  proof
    show d: "\<forall>t \<in> set (threads s). snd t = Done" by (rule stuck_done [OF inv b eq])
    have z: "remaining q = 0" if q: "q \<in> set (roles s)" for q
    proof -
      obtain p where p: "(q, p) \<in> set (threads s)" using q unfolding roles_def by force
      then have "pc_ok (stored s) (q, p)" using inv by (auto simp: monitor_inv_def pcs_inv_def in_set_conv_nth)
      then show ?thesis using d p by (auto simp: pc_ok_def)
    qed
    then have "work_left True (roles s) = 0" "work_left False (roles s) = 0" by (simp_all add: work_left_0)
    then have "length (pushed s) = length (popped s)" using st(4,5) eq by simp
    then have "stored s = 0" using arg_cong [OF st(6), of size] st(1,2,3) by simp
    then have "mset (popped s) = mset (pushed s)" using st(6) by simp
    moreover have "items q = []" if "q \<in> set (roles s)" for q using z [OF that] by (cases q) auto
    then have "items_left (roles s) = (\<Sum>r\<leftarrow>roles s. {#})" unfolding items_left_def by (intro arg_cong [of _ _ sum_list] map_cong) simp_all
    then have "items_left (roles s) = {#}" by simp
    ultimately show "mset (popped s) = items_left rs" using reach_items [OF r] by simp
  qed
  moreover have "run_schedule is s = Some s' \<longrightarrow> length is \<le> potential s" using run_length [of "is" s s'] by auto
  ultimately show ?thesis using no_bug [OF inv] st by (simp add: CAPACITY_def)
qed

text \<open>One producer of two characters and one customer: a schedule to the end.\<close>

theorem monitor_delivers_all_witness:
  "\<exists>s. run_schedule [1, 1, 0, 0, 0, 1, 1, 1, 0, 0, 0, 1, 1, 1, 0, 1] (start_threads [Producer ''ab'', Customer 2]) = Some s
     \<and> (\<forall>t \<in> set (threads s). snd t = Done) \<and> mset (popped s) = {#CHR ''a'', CHR ''b''#}"
proof -
  let ?rs = "[Producer ''ab'', Customer 2]"
  let ?is = "[1, 1, 0, 0, 0, 1, 1, 1, 0, 0, 0, 1, 1, 1, 0, 1]"
  have "map_option threads (run_schedule ?is (start_threads ?rs)) = Some [(Producer [], Done), (Customer 0, Done)]" by code_simp
  then obtain s where s: "run_schedule ?is (start_threads ?rs) = Some s" "threads s = [(Producer [], Done), (Customer 0, Done)]" by auto
  have "reach ?rs s" by (rule run_reach [OF s(1) reach_start])
  moreover have "work_left True ?rs = work_left False ?rs" by code_simp
  moreover have "thread_step i s = Blocked" for i
  proof (cases "i < 2")
    case True
    then have "threads s ! i = (Producer [], Done) \<or> threads s ! i = (Customer 0, Done)" using s(2) by (auto simp: less_2_cases_iff)
    then show ?thesis by (auto simp: thread_step_def)
  next
    case False
    then show ?thesis using s(2) by (simp add: thread_step_def)
  qed
  moreover have "items_left ?rs = {#CHR ''a'', CHR ''b''#}" by (simp add: items_left_def)
  ultimately show ?thesis using monitor_delivers_all [of ?rs s] s(1) by auto
qed

end
