(* ===== verification/Heap_Queues.thy ===== *)
theory Heap_Queues
  imports Leftist_Queue Binary_Heap_Queue
begin

text \<open>The two heaps of the program compared: both interpret the interface of a priority queue.\<close>

text \<open>
  C37: the heaps sort.  The leftist heap of example_left_heap.cpp, and the array heap of example_heap.cpp up to its capacity, a capacity of at
  most \<open>2 ^ 30\<close> (beyond it the index arithmetic of the sift overflows an \<open>int\<close>), and whatever its block contains, answer the insertion of a list and as many deletions of the minimum with the same sorted list, and never read
  through a null pointer or outside their memory.  The full array heap ignores an insertion and the empty one answers 0.  Merging keeps the leftist
  invariant, so that the right spine that \<open>merge\<close> walks is logarithmic.
\<close>

theorem heaps_sort:
  assumes "mx \<le> 2 ^ 30" "length mem = Suc mx" "length xs \<le> mx"
  shows "(\<exists>q q'. pq_fill (insert1 True) xs LNull = Some q \<and> pq_drain lh_pop (length xs) q = Some (q', sort xs) \<and> q' = LNull)
    \<and> (\<exists>q0 q q'. Binary_Heap_Queue.init (int mx) mem = Some q0 \<and> pq_fill insert_heap xs q0 = Some q
        \<and> (length xs = mx \<longrightarrow> (\<forall>x. insert_heap x q = Some q))
        \<and> pq_drain Binary_Heap_Queue.deleteMin (length xs) q = Some (q', sort xs) \<and> Binary_Heap_Queue.deleteMin q' = Some (q', 0))
    \<and> (leftist a \<longrightarrow> leftist b \<longrightarrow> (\<exists>q. merge a b = Some q \<and> leftist q \<and> 2 ^ spine q \<le> size (mset_lheap a) + size (mset_lheap b) + 1))"
  using leftist_heap_sorts binary_heap_sorts [OF assms] by blast

theorem heaps_sort_witness:
  "\<exists>q0 q q'. Binary_Heap_Queue.init 3 [9, - 5, 0, 7] = Some q0 \<and> pq_fill insert_heap [3, 1, 2] q0 = Some q \<and> insert_heap 8 q = Some q
     \<and> pq_drain Binary_Heap_Queue.deleteMin 3 q = Some (q', [1, 2, 3]) \<and> Binary_Heap_Queue.deleteMin q' = Some (q', 0)"
proof -
  have "(3 :: nat) \<le> 2 ^ 30" "length [9, - 5, 0, 7 :: int] = Suc 3" "length [3, 1, 2 :: int] \<le> 3" by simp_all
  note heaps_sort [OF this]
  moreover have "length [3, 1, 2 :: int] = 3" "sort [3, 1, 2 :: int] = [1, 2, 3]" "int 3 = 3" by simp_all
  ultimately show ?thesis by metis
qed

end
