(* ===== verification/Digraph_Dfs.thy ===== *)
theory Digraph_Dfs
  imports Digraph_Search
begin

text \<open>
  The recursive depth-first print \<open>depthFirstSearchAux\<close> of example_digraph.cpp, and \<open>display\<close> and \<open>Data\<close>.  The
  printed data are a list; \<open>unvisited\<close> is the vector of flags.
\<close>

section \<open>The code\<close>

definition Data :: "'d VertexInfo list \<Rightarrow> int \<Rightarrow> 'd option" where
  "Data g k = do { info \<leftarrow> rdi g k; Some (data info) }"

text \<open>The loop over the adjacency list; the call for an unvisited vertex stands in its place.\<close>

partial_function (option) dfs_list :: "'d VertexInfo list \<Rightarrow> int list \<Rightarrow> bool list \<Rightarrow> ('d list \<times> bool list) option" where
  "dfs_list g us unvisited =
     (case us of
        [] \<Rightarrow> Some ([], unvisited)
      | u # us \<Rightarrow> do {
          b \<leftarrow> rdi unvisited u;
          (out, unvisited) \<leftarrow> (if b then do {
              info \<leftarrow> rdi g u;
              unvisited \<leftarrow> wri unvisited u False;
              (out, unvisited) \<leftarrow> dfs_list g (adjacencyList info) unvisited;
              Some (data info # out, unvisited) }
            else Some ([], unvisited));
          (more_out, unvisited) \<leftarrow> dfs_list g us unvisited;
          Some (out @ more_out, unvisited) })"

definition depthFirstSearchAux :: "'d VertexInfo list \<Rightarrow> int \<Rightarrow> bool list \<Rightarrow> ('d list \<times> bool list) option" where
  "depthFirstSearchAux g start unvisited = do {
     info \<leftarrow> rdi g start;
     unvisited \<leftarrow> wri unvisited start False;
     (out, unvisited) \<leftarrow> dfs_list g (adjacencyList info) unvisited;
     Some (data info # out, unvisited) }"

text \<open>What \<open>display\<close> prints for each vertex: its index, its data and its successors.\<close>

definition display :: "'d VertexInfo list \<Rightarrow> (nat \<times> 'd \<times> int list) list" where
  "display g = map (\<lambda>i. (i, data (g ! i), adjacencyList (g ! i))) [1..<length g]"

section \<open>What is visited\<close>

definition unseen :: "bool list \<Rightarrow> int set" where
  "unseen unv = {u. 0 \<le> u \<and> u < int (length unv) \<and> unv ! nat u}"

lemma unseen_finite [simp]: "finite (unseen unv)"
  by (rule finite_subset [of _ "{0 ..< int (length unv)}"]) (auto simp: unseen_def)

lemma unseen_mark: "unseen (unv[nat u := False]) = unseen unv - {u}" if "0 \<le> u" "u < int (length unv)"
  using that by (auto simp: unseen_def nth_list_update nat_less_iff split: if_splits)

definition visits :: "'d VertexInfo list \<Rightarrow> int list \<Rightarrow> bool list \<Rightarrow> int list \<Rightarrow> bool list \<Rightarrow> bool" where
  "visits g us unv vs unv' \<longleftrightarrow> length unv' = length g \<and> distinct vs \<and> unseen unv' \<subseteq> unseen unv
     \<and> set vs = unseen unv - unseen unv' \<and> set us \<inter> unseen unv' = {}
     \<and> (\<forall>v \<in> set vs. \<exists>u \<in> set us. (u, v) \<in> (edges g)\<^sup>*)
     \<and> (\<forall>v \<in> set vs. \<forall>w. (v, w) \<in> edges g \<longrightarrow> w \<notin> unseen unv')"

lemma visits_skip:
  assumes "visits g us unv vs unv'" "u \<notin> unseen unv"
  shows "visits g (u # us) unv vs unv'"
  using assms by (auto simp: visits_def)

lemma visits_step:
  assumes u: "vertex g u" "u \<in> unseen unv" "length unv = length g"
    and a: "visits g (adjacencyList (g ! nat u)) (unv[nat u := False]) vs1 unv1"
    and b: "visits g us unv1 vs2 unv2"
  shows "visits g (u # us) unv (u # vs1 @ vs2) unv2"
proof -
  have m: "unseen (unv[nat u := False]) = unseen unv - {u}" using u by (intro unseen_mark) (auto simp: vertex_def)
  have e: "(u, w) \<in> edges g \<longleftrightarrow> w \<in> set (adjacencyList (g ! nat u))" for w using u(1) by (simp add: edges_def)
  have A: "length unv1 = length g" "distinct vs1" "unseen unv1 \<subseteq> unseen unv - {u}" "set vs1 = unseen unv - {u} - unseen unv1"
    "\<And>w. (u, w) \<in> edges g \<Longrightarrow> w \<notin> unseen unv1"
    "\<And>v. v \<in> set vs1 \<Longrightarrow> \<exists>w. (u, w) \<in> edges g \<and> (w, v) \<in> (edges g)\<^sup>*"
    "\<And>v w. v \<in> set vs1 \<Longrightarrow> (v, w) \<in> edges g \<Longrightarrow> w \<notin> unseen unv1"
    using a unfolding visits_def m by (auto simp: e)
  have B: "length unv2 = length g" "distinct vs2" "unseen unv2 \<subseteq> unseen unv1" "set vs2 = unseen unv1 - unseen unv2"
    "set us \<inter> unseen unv2 = {}" "\<And>v. v \<in> set vs2 \<Longrightarrow> \<exists>w \<in> set us. (w, v) \<in> (edges g)\<^sup>*"
    "\<And>v w. v \<in> set vs2 \<Longrightarrow> (v, w) \<in> edges g \<Longrightarrow> w \<notin> unseen unv2"
    using b unfolding visits_def by auto
  have r: "\<exists>w \<in> set (u # us). (w, v) \<in> (edges g)\<^sup>*" if v: "v \<in> set (u # vs1 @ vs2)" for v
  proof -
    consider "v = u" | "v \<in> set vs1" | "v \<in> set vs2" using v by auto
    then show ?thesis
    proof cases
      case 2
      then show ?thesis using A(6) by (meson converse_rtrancl_into_rtrancl list.set_intros(1))
    next
      case 3
      then show ?thesis using B(6) by auto
    qed auto
  qed
  have c: "w \<notin> unseen unv2" if "v \<in> set (u # vs1 @ vs2)" "(v, w) \<in> edges g" for v w
    using that A(5,7) B(3,7) by auto
  have "set (u # vs1 @ vs2) = unseen unv - unseen unv2" using A(3,4) B(3,4) u(2) by auto
  moreover have "distinct (u # vs1 @ vs2)" using A(2,3,4) B(2,4) by auto
  moreover have "set (u # us) \<inter> unseen unv2 = {}" using A(3) B(3,5) by auto
  ultimately show ?thesis using A(1,3) B(1,3) r c unfolding visits_def by blast
qed

lemma dfs_list_visits:
  assumes "graph_ok g"
  shows "card (unseen unv) \<le> n \<Longrightarrow> length unv = length g \<Longrightarrow> \<forall>u \<in> set us. vertex g u \<Longrightarrow>
    \<exists>vs unv'. dfs_list g us unv = Some (map (\<lambda>v. data (g ! nat v)) vs, unv') \<and> visits g us unv vs unv'"
proof (induction n arbitrary: us unv rule: less_induct)
  case (less n)
  note outer = less.IH
  show ?case using less.prems
  proof (induction us arbitrary: unv)
    case Nil
    have "visits g [] unv [] unv" using Nil by (simp add: visits_def)
    then show ?case by (intro exI [of _ "[]"] exI [of _ unv]) (simp add: dfs_list.simps)
  next
    case (Cons u us)
    have u: "vertex g u" "0 \<le> u" "u < int (length unv)" using Cons.prems by (auto simp: vertex_def)
    have b: "rdi unv u = Some (unv ! nat u)" "unv ! nat u \<longleftrightarrow> u \<in> unseen unv" using u by (auto simp: unseen_def)
    show ?case
    proof (cases "u \<in> unseen unv")
      case False
      obtain vs unv' where r: "dfs_list g us unv = Some (map (\<lambda>v. data (g ! nat v)) vs, unv')" "visits g us unv vs unv'"
        using Cons.IH [OF Cons.prems(1,2)] Cons.prems(3) by auto
      have "dfs_list g (u # us) unv = Some (map (\<lambda>v. data (g ! nat v)) vs, unv')"
        using r(1) b False by (subst dfs_list.simps) simp
      then show ?thesis using visits_skip [OF r(2) False] by blast
    next
      case True
      let ?unv = "unv[nat u := False]" and ?info = "g ! nat u"
      have m: "unseen ?unv = unseen unv - {u}" by (rule unseen_mark [OF u(2,3)])
      have pos: "0 < card (unseen unv)" using True by (auto simp: card_gt_0_iff)
      then have n: "n - 1 < n" "card (unseen ?unv) \<le> n - 1" using True Cons.prems(1) by (auto simp: m)
      have adj: "\<forall>w \<in> set (adjacencyList ?info). vertex g w"
        using graph_okD [OF assms] u(1) by (auto simp: edges_def)
      obtain vs1 unv1 where r1: "dfs_list g (adjacencyList ?info) ?unv = Some (map (\<lambda>v. data (g ! nat v)) vs1, unv1)"
        "visits g (adjacencyList ?info) ?unv vs1 unv1"
        using outer [OF n _ adj] Cons.prems(2) by auto
      have s1: "unseen unv1 \<subseteq> unseen unv" "length unv1 = length g" using r1(2) m by (auto simp: visits_def)
      have "card (unseen unv1) \<le> n" using card_mono [OF _ s1(1)] Cons.prems(1) by simp
      then obtain vs2 unv2 where r2: "dfs_list g us unv1 = Some (map (\<lambda>v. data (g ! nat v)) vs2, unv2)" "visits g us unv1 vs2 unv2"
        using Cons.IH [of unv1] s1(2) Cons.prems(3) by auto
      have "rdi g u = Some ?info" "wri unv u False = Some ?unv" using u Cons.prems(2) by simp_all
      then have "dfs_list g (u # us) unv = Some (map (\<lambda>v. data (g ! nat v)) (u # vs1 @ vs2), unv2)"
        using r1(1) r2(1) b True by (subst dfs_list.simps) simp
      then show ?thesis using visits_step [OF u(1) True Cons.prems(2) r1(2) r2(2)] by blast
    qed
  qed
qed

text \<open>
  C27: the depth-first print.  Started with nothing visited, \<open>depthFirstSearchAux\<close> ends, stays inside its
  vectors, prints the data of the vertices that can be reached from the start, each once and the start first,
  and leaves exactly the others unvisited.
\<close>

theorem digraph_dfs:
  assumes "graph_ok g" "vertex g start"
  shows "\<exists>vs unv. depthFirstSearchAux g start (replicate (length g) True) = Some (map (\<lambda>v. data (g ! nat v)) (start # vs), unv)
    \<and> distinct (start # vs) \<and> set (start # vs) = (edges g)\<^sup>* `` {start}
    \<and> (\<forall>u. vertex g u \<longrightarrow> (unv ! nat u \<longleftrightarrow> (start, u) \<notin> (edges g)\<^sup>*))"
proof -
  let ?all = "replicate (length g) True"
  have all: "unseen ?all = {u. vertex g u}" by (auto simp: unseen_def vertex_def nat_less_iff)
  have st: "start \<in> unseen ?all" using assms(2) all by simp
  have adj: "\<forall>w \<in> set (adjacencyList (g ! nat start)). vertex g w"
    using graph_okD [OF assms(1)] assms(2) by (auto simp: edges_def)
  obtain vs unv where r: "dfs_list g (adjacencyList (g ! nat start)) (?all[nat start := False]) = Some (map (\<lambda>v. data (g ! nat v)) vs, unv)"
    "visits g (adjacencyList (g ! nat start)) (?all[nat start := False]) vs unv"
    using dfs_list_visits [OF assms(1) order_refl _ adj, of "?all[nat start := False]"] by auto
  have "visits g [] unv [] unv" using r(2) by (simp add: visits_def)
  from visits_step [OF assms(2) st _ r(2) this]
  have v: "visits g [start] ?all (start # vs) unv" by simp
  have len: "length unv = length g" using v by (simp add: visits_def)
  have V: "set (start # vs) = {u. vertex g u} - unseen unv" "distinct (start # vs)"
    "\<And>v. v \<in> set (start # vs) \<Longrightarrow> (start, v) \<in> (edges g)\<^sup>*"
    "\<And>v w. v \<in> set (start # vs) \<Longrightarrow> (v, w) \<in> edges g \<Longrightarrow> w \<notin> unseen unv"
    using v unfolding visits_def all by auto
  have "u \<in> set (start # vs)" if "(start, u) \<in> (edges g)\<^sup>*" for u
    using that
  proof (induction rule: rtrancl_induct)
    case (step v w)
    then show ?case using V(1) V(4) [OF step.IH step.hyps(2)] graph_okD [OF assms(1) step.hyps(2)] by blast
  qed simp
  then have s: "set (start # vs) = (edges g)\<^sup>* `` {start}" using V(3) by blast
  have "unv ! nat u \<longleftrightarrow> u \<notin> set (start # vs)" if "vertex g u" for u
    using that len unfolding V(1) by (auto simp: unseen_def vertex_def)
  moreover have "depthFirstSearchAux g start ?all = Some (map (\<lambda>v. data (g ! nat v)) (start # vs), unv)"
    using r(1) assms(2) by (simp add: depthFirstSearchAux_def vertex_def)
  ultimately show ?thesis using V(2) s by blast
qed

theorem digraph_dfs_witness:
  "\<exists>vs unv. depthFirstSearchAux [\<lparr>data = 0, adjacencyList = []\<rparr>, \<lparr>data = 7, adjacencyList = [2]\<rparr>,
       \<lparr>data = 8, adjacencyList = [1, 2]\<rparr>, \<lparr>data = 9 :: nat, adjacencyList = [1]\<rparr>] 1 (replicate 4 True) = Some (map (\<lambda>v. data
         ([\<lparr>data = 0, adjacencyList = []\<rparr>, \<lparr>data = 7, adjacencyList = [2]\<rparr>, \<lparr>data = 8, adjacencyList = [1, 2]\<rparr>,
           \<lparr>data = 9, adjacencyList = [1]\<rparr>] ! nat v)) (1 # vs), unv) \<and> distinct (1 # vs)"
  using digraph_dfs [of "[\<lparr>data = 0, adjacencyList = []\<rparr>, \<lparr>data = 7, adjacencyList = [2]\<rparr>,
       \<lparr>data = 8, adjacencyList = [1, 2]\<rparr>, \<lparr>data = 9 :: nat, adjacencyList = [1]\<rparr>]" 1]
  by (auto simp: graph_ok_def vertex_def eval_nat_numeral)

declare dfs_list.simps [code]

end
