(* ===== verification/Text_Numbers.thy ===== *)
theory Text_Numbers
  imports Prelude
begin

text \<open>
  Numbers in texts: the character classes, decimal numbers as they are written and read, and the library functions \<open>atoi\<close>
  and \<open>strtoul\<close> as far as the programs use them.
\<close>

section \<open>Characters and digits\<close>

definition is_ws :: "char \<Rightarrow> bool" where
  "is_ws c \<longleftrightarrow> of_char c = (32 :: nat) \<or> 9 \<le> (of_char c :: nat) \<and> (of_char c :: nat) \<le> 13"

definition is_digit :: "char \<Rightarrow> bool" where
  "is_digit c \<longleftrightarrow> 48 \<le> (of_char c :: nat) \<and> (of_char c :: nat) \<le> 57"

definition digits_value :: "string \<Rightarrow> int" where
  "digits_value = foldl (\<lambda>a c. a * 10 + (of_char c - 48)) 0"

fun nat_text :: "nat \<Rightarrow> string" where
  "nat_text n = (if n < 10 then [] else nat_text (n div 10)) @ [char_of (48 + n mod 10)]"

declare nat_text.simps [simp del]

definition int_text :: "int \<Rightarrow> string" where
  "int_text i = (if i < 0 then CHR ''-'' # nat_text (nat (- i)) else nat_text (nat i))"

lemma of_char_digit: "k < 10 \<Longrightarrow> of_char (char_of (48 + k) :: char) = (48 + k :: nat)"
  by (simp add: of_char_mod_256)

lemma nat_text_digits: "nat_text n \<noteq> [] \<and> list_all is_digit (nat_text n)"
proof (induction n rule: nat_text.induct)
  case (1 n)
  have "is_digit (char_of (48 + n mod 10))" using of_char_digit [of "n mod 10"] by (simp add: is_digit_def)
  then show ?case using 1 by (subst (1 2) nat_text.simps) auto
qed

lemma nat_text_value: "digits_value (nat_text n) = int n"
proof (induction n rule: nat_text.induct)
  case (1 n)
  have c: "(of_char (char_of (48 + n mod 10) :: char) :: int) = 48 + int (n mod 10)"
  proof -
    have i: "(of_char x :: int) = int (of_char x)" for x by (rule of_nat_of_char [symmetric])
    have "(of_char (char_of (48 + n mod 10) :: char) :: nat) = 48 + n mod 10" by (rule of_char_digit) simp
    then show ?thesis unfolding i by (simp only: of_nat_add of_nat_numeral)
  qed
  have e: "digits_value (xs @ [x]) = digits_value xs * 10 + (of_char x - 48)" for xs x
    by (simp add: digits_value_def)
  show ?case
  proof (cases "n < 10")
    case True
    then show ?thesis using c by (subst nat_text.simps) (simp add: digits_value_def)
  next
    case False
    then have "digits_value (nat_text n) = digits_value (nat_text (n div 10) @ [char_of (48 + n mod 10)])"
      by (subst nat_text.simps) simp
    moreover have "int (n div 10) * 10 + int (n mod 10) = int (n div 10 * 10 + n mod 10)" by (simp only: of_nat_add of_nat_mult of_nat_numeral)
    ultimately show ?thesis using 1 False c unfolding e div_mult_mod_eq by simp
  qed
qed

text \<open>What may follow a number.\<close>

definition num_end :: "string \<Rightarrow> bool" where
  "num_end t \<longleftrightarrow> (case t of [] \<Rightarrow> True | c # _ \<Rightarrow> \<not> is_digit c)"

lemma skip_sep: "list_all is_ws sep \<Longrightarrow> dropWhile is_ws (sep @ t) = dropWhile is_ws t"
  by (induction sep) auto

lemma digit_no_ws: "is_digit c \<Longrightarrow> \<not> is_ws c" "is_digit c \<Longrightarrow> c \<noteq> CHR ''-'' \<and> c \<noteq> CHR ''+''" "is_ws c \<Longrightarrow> \<not> is_digit c"
  by (auto simp: is_digit_def is_ws_def)

lemma take_digits: "list_all is_digit ds \<Longrightarrow> num_end t \<Longrightarrow> takeWhile is_digit (ds @ t) = ds \<and> dropWhile is_digit (ds @ t) = t"
  by (induction ds) (auto simp: num_end_def split: list.splits)

section \<open>The library functions\<close>

text \<open>The sign and the digits at the beginning of a text; \<open>None\<close> when the number is out of the range of \<open>int\<close>.\<close>

definition atoi :: "string \<Rightarrow> int option" where
  "atoi t =
     (case dropWhile is_ws t of
        [] \<Rightarrow> Some 0
      | c # cs \<Rightarrow>
          i32 (if c = CHR ''-'' then - digits_value (takeWhile is_digit cs)
               else if c = CHR ''+'' then digits_value (takeWhile is_digit cs)
               else digits_value (takeWhile is_digit (c # cs))))"

lemma atoi_nat_text:
  assumes "num_end t" "n < 2 ^ 31"
  shows "atoi (nat_text n @ t) = Some (int n)"
proof -
  obtain c cs where c: "nat_text n = c # cs" "is_digit c" "list_all is_digit (c # cs)"
    using nat_text_digits [of n] by (cases "nat_text n") auto
  have "takeWhile is_digit (c # cs @ t) = nat_text n" using take_digits [OF c(3) assms(1)] c(1) by simp
  then have "digits_value (takeWhile is_digit (c # cs @ t)) = int n" by (simp only: nat_text_value)
  then show ?thesis using c(1) digit_no_ws(1,2) [OF c(2)] assms(2) by (simp add: atoi_def)
qed

text \<open>Without the prefix of base 16; a value that does not fit is \<open>ULONG_MAX\<close>, a minus sign negates modulo \<open>2 ^ 64\<close>.\<close>

definition digit_of :: "nat \<Rightarrow> char \<Rightarrow> nat option" where
  "digit_of base c =
     (let v = (of_char c :: nat);
          d = (if 48 \<le> v \<and> v \<le> 57 then v - 48 else if 97 \<le> v \<and> v \<le> 122 then v - 97 + 10
               else if 65 \<le> v \<and> v \<le> 90 then v - 65 + 10 else base)
      in if d < base then Some d else None)"

fun strtoul_loop :: "nat \<Rightarrow> nat \<Rightarrow> string \<Rightarrow> nat" where
  "strtoul_loop base v [] = v"
| "strtoul_loop base v (c # cs) = (case digit_of base c of None \<Rightarrow> v | Some d \<Rightarrow> strtoul_loop base (base * v + d) cs)"

definition strtoul :: "nat \<Rightarrow> string \<Rightarrow> 64 word" where
  "strtoul base t =
     (let s = dropWhile is_ws t;
          neg = (s \<noteq> [] \<and> s ! 0 = CHR ''-'');
          v = strtoul_loop base 0 (if neg \<or> s \<noteq> [] \<and> s ! 0 = CHR ''+'' then drop 1 s else s)
      in if v < 2 ^ 64 then (if neg then - of_nat v else of_nat v) else - 1)"

lemma digit_of_decimal: "is_digit c \<Longrightarrow> digit_of 10 c = Some (of_char c - 48)"
  by (auto simp: digit_of_def is_digit_def Let_def)

lemma strtoul_digits:
  "list_all is_digit ds \<Longrightarrow> int (strtoul_loop 10 v ds) = foldl (\<lambda>a c. a * 10 + (of_char c - 48)) (int v) ds"
proof (induction ds arbitrary: v)
  case (Cons c ds)
  then have "48 \<le> (of_char c :: nat)" by (simp add: is_digit_def)
  then have "int (10 * v + (of_char c - 48)) = int v * 10 + (of_char c - 48)"
    by (simp add: of_nat_of_char of_nat_diff)
  then show ?case using Cons digit_of_decimal [of c] by (simp add: mult.commute)
qed simp

lemma strtoul_nat_text:
  assumes "n < 2 ^ 64"
  shows "strtoul 10 (nat_text n) = of_nat n"
proof -
  obtain c cs where c: "nat_text n = c # cs" "is_digit c" "list_all is_digit (c # cs)"
    using nat_text_digits [of n] by (cases "nat_text n") auto
  have "int (strtoul_loop 10 0 (nat_text n)) = int n"
    using strtoul_digits [of "nat_text n" 0] nat_text_digits [of n] nat_text_value [of n] by (simp add: digits_value_def)
  then show ?thesis using c digit_no_ws(1,2) [OF c(2)] assms by (simp add: strtoul_def Let_def)
qed

end
