(* ===== verification/Digraph_Read.thy ===== *)
theory Digraph_Read
  imports Digraph_Search Text_Numbers
begin

text \<open>
  \<open>Read\<close> of example_digraph.cpp on a stream of characters, for vertices whose data are characters as in
  \<open>main\<close>, with the extraction operators of the standard library as far as it uses them.  A variable
  without a value is \<open>None\<close>; \<open>None\<close> as a result is the use of such a variable, or a loop that does not end.
\<close>

section \<open>The stream\<close>

record istream =
  rest :: string
  eof :: bool
  failed :: bool

text \<open>The variable keeps its value \<open>old\<close> when the stream is not good or holds white space only.\<close>

definition get_char :: "istream \<Rightarrow> char \<Rightarrow> char \<times> istream" where
  "get_char s old =
     (if eof s \<or> failed s then (old, s\<lparr>failed := True\<rparr>)
      else case dropWhile is_ws (rest s) of
        [] \<Rightarrow> (old, s\<lparr>rest := [], eof := True, failed := True\<rparr>)
      | c # cs \<Rightarrow> (c, s\<lparr>rest := cs\<rparr>))"

text \<open>No digit gives 0, a number outside the range of \<open>int\<close> its nearest end; both fail.\<close>

definition get_int :: "istream \<Rightarrow> int option \<Rightarrow> int option \<times> istream" where
  "get_int s old =
     (if eof s \<or> failed s then (old, s\<lparr>failed := True\<rparr>)
      else case dropWhile is_ws (rest s) of
        [] \<Rightarrow> (old, s\<lparr>rest := [], eof := True, failed := True\<rparr>)
      | c # cs \<Rightarrow>
         (let signed = (c = CHR ''-'' \<or> c = CHR ''+''); ds = (if signed then cs else c # cs);
              digits = takeWhile is_digit ds; after = dropWhile is_digit ds;
              v = (if c = CHR ''-'' then - digits_value digits else digits_value digits);
              s = s\<lparr>rest := after, eof := (after = [])\<rparr>
          in if digits = [] then (Some 0, s\<lparr>failed := True\<rparr>)
             else if v < - (2 ^ 31) then (Some (- (2 ^ 31)), s\<lparr>failed := True\<rparr>)
             else if 2 ^ 31 \<le> v then (Some (2 ^ 31 - 1), s\<lparr>failed := True\<rparr>)
             else (Some v, s)))"

section \<open>Reading a graph\<close>

fun read_adj :: "nat \<Rightarrow> istream \<Rightarrow> int option \<Rightarrow> (int list \<times> int option \<times> istream) option" where
  "read_adj 0 s vtx = Some ([], vtx, s)"
| "read_adj (Suc k) s vtx =
     (case get_int s vtx of
        (None, s) \<Rightarrow> None
      | (Some v, s) \<Rightarrow> do { (us, vtx, s) \<leftarrow> read_adj k s (Some v); Some (v # us, vtx, s) })"

partial_function (option) read_loop ::
    "istream \<Rightarrow> char \<Rightarrow> int option \<Rightarrow> int option \<Rightarrow> char VertexInfo list \<Rightarrow> char VertexInfo list option" where
  "read_loop s d n vtx g =
     (case get_char s d of (d, s) \<Rightarrow>
        if eof s then Some g
        else case get_int s n of (n, s) \<Rightarrow>
          (case n of
             None \<Rightarrow> None
           | Some k \<Rightarrow> do {
               (us, vtx, s) \<leftarrow> read_adj (nat k) s vtx;
               read_loop s d n vtx (g @ [\<lparr>data = d, adjacencyList = us\<rparr>]) }))"

text \<open>\<open>d\<close> is the value that the data of a vertex have before they are assigned.\<close>

definition Read :: "char \<Rightarrow> string \<Rightarrow> char VertexInfo list option" where
  "Read d input = read_loop \<lparr>rest = input, eof = False, failed = False\<rparr> d None None [\<lparr>data = d, adjacencyList = []\<rparr>]"

section \<open>Writing and reading back\<close>

definition vertex_text :: "string \<Rightarrow> char VertexInfo \<Rightarrow> string" where
  "vertex_text sep v = sep @ data v # sep @ int_text (int (length (adjacencyList v)))
     @ concat (map (\<lambda>u. sep @ int_text u) (adjacencyList v))"

text \<open>A separator between the numbers.\<close>

definition sep_ok :: "string \<Rightarrow> bool" where
  "sep_ok sep \<longleftrightarrow> sep \<noteq> [] \<and> list_all is_ws sep"

lemma get_int_text:
  assumes "rest s = sep @ int_text i @ t" "sep_ok sep" "num_end t" "\<not> eof s" "\<not> failed s" "- (2 ^ 31) \<le> i" "i < 2 ^ 31"
  shows "get_int s old = (Some i, s\<lparr>rest := t, eof := (t = [])\<rparr>)"
proof -
  have ws: "list_all is_ws sep" using assms(2) by (simp add: sep_ok_def)
  show ?thesis
  proof (cases "i < 0")
    case True
    let ?ds = "nat_text (nat (- i))"
    have d: "?ds \<noteq> []" "list_all is_digit ?ds" using nat_text_digits by blast+
    have "dropWhile is_ws (rest s) = CHR ''-'' # ?ds @ t"
      using True unfolding assms(1) skip_sep [OF ws] by (simp add: int_text_def is_ws_def)
    then show ?thesis
      using assms True take_digits [OF d(2) assms(3)] d(1) nat_text_value [of "nat (- i)"]
      by (simp add: get_int_def Let_def)
  next
    case False
    let ?ds = "nat_text (nat i)"
    have d: "?ds \<noteq> []" "list_all is_digit ?ds" using nat_text_digits by blast+
    then obtain c cs where c: "?ds = c # cs" "is_digit c" by (cases ?ds) auto
    have "dropWhile is_ws (rest s) = c # cs @ t"
      using False c digit_no_ws(1) [OF c(2)] unfolding assms(1) skip_sep [OF ws] by (simp add: int_text_def)
    moreover have "takeWhile is_digit (c # cs @ t) = ?ds" "dropWhile is_digit (c # cs @ t) = t"
      using take_digits [OF d(2) assms(3)] c(1) by simp_all
    ultimately show ?thesis
      using assms False d(1) nat_text_value [of "nat i"] digit_no_ws(2) [OF c(2)]
      by (simp add: get_int_def Let_def)
  qed
qed

lemma num_end_text: "num_end (concat (map (\<lambda>u. sep @ int_text u) us) @ t)" if s: "sep_ok sep" and t: "num_end t"
proof -
  obtain c cs where "sep = c # cs" "is_ws c" using s by (cases sep) (auto simp: sep_ok_def)
  then show ?thesis using t digit_no_ws(3) by (cases us) (auto simp: num_end_def)
qed

lemma read_adj_text:
  "sep_ok sep \<Longrightarrow> num_end t \<Longrightarrow> \<forall>u \<in> set us. - (2 ^ 31) \<le> u \<and> u < 2 ^ 31 \<Longrightarrow>
   rest s = concat (map (\<lambda>u. sep @ int_text u) us) @ t \<Longrightarrow> eof s = (rest s = []) \<Longrightarrow> \<not> failed s \<Longrightarrow>
   \<exists>v. read_adj (length us) s vtx = Some (us, v, s\<lparr>rest := t, eof := (t = [])\<rparr>)"
proof (induction us arbitrary: s vtx)
  case Nil
  then show ?case by (cases s) simp
next
  case (Cons u us)
  let ?t = "concat (map (\<lambda>u. sep @ int_text u) us) @ t"
  let ?s = "s\<lparr>rest := ?t, eof := (?t = [])\<rparr>"
  have "sep \<noteq> []" using Cons.prems(1) by (simp add: sep_ok_def)
  then have "\<not> eof s" using Cons.prems(4,5) by simp
  then have g: "get_int s vtx = (Some u, ?s)"
    using Cons.prems by (intro get_int_text [OF _ Cons.prems(1) num_end_text]) simp_all
  obtain v where "read_adj (length us) ?s (Some u) = Some (us, v, ?s\<lparr>rest := t, eof := (t = [])\<rparr>)"
    using Cons.IH [of ?s "Some u"] Cons.prems by auto
  then show ?case using g by simp
qed

definition vertex_ok :: "char VertexInfo \<Rightarrow> bool" where
  "vertex_ok v \<longleftrightarrow> \<not> is_ws (data v) \<and> length (adjacencyList v) < 2 ^ 31
     \<and> (\<forall>u \<in> set (adjacencyList v). - (2 ^ 31) \<le> u \<and> u < 2 ^ 31)"

lemma read_loop_text:
  "sep_ok sep \<Longrightarrow> list_all is_ws ws \<Longrightarrow> \<forall>v \<in> set vs. vertex_ok v \<Longrightarrow>
   rest s = concat (map (vertex_text sep) vs) @ ws \<Longrightarrow> eof s \<longrightarrow> rest s = [] \<Longrightarrow> \<not> failed s \<Longrightarrow>
   read_loop s d n vtx g = Some (g @ vs)"
proof (induction vs arbitrary: s d n vtx g)
  case Nil
  have e: "dropWhile is_ws (rest s) = []" using Nil.prems(2,4) by (simp add: list.pred_set)
  have "eof (snd (get_char s d))" by (cases "eof s") (simp_all add: get_char_def e Nil.prems(6))
  then show ?case by (cases "get_char s d") (subst read_loop.simps, simp)
next
  case (Cons v vs)
  let ?more = "concat (map (vertex_text sep) vs) @ ws"
  let ?adj = "concat (map (\<lambda>u. sep @ int_text u) (adjacencyList v)) @ ?more"
  let ?n = "int (length (adjacencyList v))"
  have ws: "sep \<noteq> []" "list_all is_ws sep" using Cons.prems(1) by (simp_all add: sep_ok_def)
  have v: "\<not> is_ws (data v)" "?n < 2 ^ 31" "\<forall>u \<in> set (adjacencyList v). - (2 ^ 31) \<le> u \<and> u < 2 ^ 31"
    using Cons.prems(3) by (auto simp: vertex_ok_def)
  have r: "rest s = sep @ data v # sep @ int_text ?n @ ?adj" using Cons.prems(4) by (simp add: vertex_text_def [of sep v])
  then have ne: "\<not> eof s" using ws(1) Cons.prems(5) by auto
  let ?s1 = "s\<lparr>rest := sep @ int_text ?n @ ?adj\<rparr>"
  have c: "get_char s d = (data v, ?s1)"
    using ne Cons.prems(6) v(1) by (simp add: get_char_def r skip_sep [OF ws(2)])
  have me: "num_end ?more"
  proof (cases vs)
    case Nil
    then show ?thesis using Cons.prems(2) digit_no_ws(3) by (cases ws) (auto simp: num_end_def)
  next
    case (Cons w ws')
    then show ?thesis using ws digit_no_ws(3) by (cases sep) (auto simp: num_end_def vertex_text_def)
  qed
  let ?s2 = "?s1\<lparr>rest := ?adj, eof := (?adj = [])\<rparr>"
  have i: "get_int ?s1 n = (Some ?n, ?s2)"
    using ne Cons.prems(6) v(2) num_end_text [OF Cons.prems(1) me]
    by (intro get_int_text [OF _ Cons.prems(1)]) simp_all
  obtain w where a: "read_adj (length (adjacencyList v)) ?s2 vtx = Some (adjacencyList v, w, ?s2\<lparr>rest := ?more, eof := (?more = [])\<rparr>)"
    using read_adj_text [OF Cons.prems(1) me v(3), of ?s2 vtx] Cons.prems(6) by auto
  let ?s3 = "?s2\<lparr>rest := ?more, eof := (?more = [])\<rparr>"
  have IH: "read_loop ?s3 (data v) (Some ?n) w (g @ [v]) = Some ((g @ [v]) @ vs)"
    using Cons.prems by (intro Cons.IH) simp_all
  define s1 s2 s3 where "s1 = ?s1" and "s2 = ?s2" and "s3 = ?s3"
  have c1: "get_char s d = (data v, s1)" unfolding s1_def by (rule c)
  have i1: "get_int s1 n = (Some ?n, s2)" unfolding s1_def s2_def by (rule i)
  have a1: "read_adj (length (adjacencyList v)) s2 vtx = Some (adjacencyList v, w, s3)" unfolding s2_def s3_def by (rule a)
  have IH1: "read_loop s3 (data v) (Some ?n) w (g @ [v]) = Some ((g @ [v]) @ vs)" unfolding s3_def by (rule IH)
  have v': "\<lparr>data = data v, adjacencyList = adjacencyList v\<rparr> = v" by (cases v) simp
  have "\<not> eof s1" using ne by (simp add: s1_def)
  then show ?case using c1 i1 a1 IH1 by (subst read_loop.simps) (simp add: v')
qed

theorem digraph_read:
  assumes "sep_ok sep" "list_all is_ws ws" "\<forall>v \<in> set vs. vertex_ok v"
  shows "Read d (concat (map (vertex_text sep) vs) @ ws) = Some (\<lparr>data = d, adjacencyList = []\<rparr> # vs)"
  unfolding Read_def using read_loop_text [OF assms, of "\<lparr>rest = concat (map (vertex_text sep) vs) @ ws, eof = False, failed = False\<rparr>"]
  by simp

text \<open>A count that is not a number makes the stream fail without reaching its end, and the loop never ends.\<close>

lemma read_loop_failed: "failed s \<Longrightarrow> \<not> eof s \<Longrightarrow> read_loop s d n vtx g = None"
proof -
  have "failed s \<longrightarrow> \<not> eof s \<longrightarrow> False" if "read_loop s d n vtx g = Some r" for r
  proof (rule read_loop.raw_induct [OF _ that])
    fix read_loop s d n vtx g r
    assume IH: "\<And>s d n vtx g r. read_loop s d n vtx g = Some r \<Longrightarrow> failed s \<longrightarrow> \<not> eof s \<longrightarrow> False"
      and run: "(case get_char s d of (d, s) \<Rightarrow> if eof s then Some g
        else case get_int s n of (n, s) \<Rightarrow>
          (case n of None \<Rightarrow> None
           | Some k \<Rightarrow> do { (us, vtx, s) \<leftarrow> read_adj (nat k) s vtx;
               read_loop s d n vtx (g @ [\<lparr>data = d, adjacencyList = us\<rparr>]) })) = Some r"
    have adj: "failed s' \<Longrightarrow> \<not> eof s' \<Longrightarrow> read_adj k s' v = Some (us, v', s'') \<Longrightarrow> failed s'' \<and> \<not> eof s''" for k s' v us v' s''
    proof (induction k arbitrary: s' v us)
      case (Suc k)
      then have "get_int s' v = (v, s'\<lparr>failed := True\<rparr>)" by (simp add: get_int_def)
      then obtain x us' where "read_adj k (s'\<lparr>failed := True\<rparr>) (Some x) = Some (us', v', s'')"
        using Suc.prems(3) by (auto simp: bind_eq_Some_conv split: option.splits)
      from Suc.IH [OF _ _ this] show ?case using Suc.prems(2) by simp
    qed simp
    show "failed s \<longrightarrow> \<not> eof s \<longrightarrow> False"
    proof (intro impI)
      assume f: "failed s" "\<not> eof s"
      let ?s = "s\<lparr>failed := True\<rparr>"
      have "get_char s d = (d, ?s)" "get_int ?s n = (n, ?s)" using f by (simp_all add: get_char_def get_int_def)
      then obtain k us v s'' where r: "read_adj (nat k) ?s vtx = Some (us, v, s'')"
        "read_loop s'' d n v (g @ [\<lparr>data = d, adjacencyList = us\<rparr>]) = Some r"
        using run f(2) by (auto simp: bind_eq_Some_conv split: option.splits)
      then have "failed s'' \<and> \<not> eof s''" using adj [of ?s "nat k" vtx us v s''] f(2) by simp
      then show False using IH [OF r(2)] by blast
    qed
  qed
  then show "failed s \<Longrightarrow> \<not> eof s \<Longrightarrow> read_loop s d n vtx g = None" by (cases "read_loop s d n vtx g") auto
qed

declare read_loop.simps [code]

end
