(* ===== verification/Redis_Pool.thy ===== *)
theory Redis_Pool
  imports Prelude
begin

text \<open>
  The connection pool \<open>HiredisHelper\<close> of example_redis_test.cpp.  hiredis is a parameter: the outcome of each
  call of \<open>redisConnectWithTimeout\<close>, and the reply of each command.  A context is the number of the
  call that made it, the null pointer is \<open>None\<close>; the world records which contexts are allocated, and
  freeing one that is not is \<open>None\<close>.
\<close>

section \<open>The library\<close>

text \<open>A call answers with the null pointer, with a context that carries an error, or with a connection.\<close>

datatype connected = NoMemory | Failed | Connected

record world =
  calls :: nat
  alive :: "nat list"
  replies :: nat

definition redisConnectWithTimeout :: "(nat \<Rightarrow> connected) \<Rightarrow> world \<Rightarrow> nat option \<times> bool \<times> world" where
  "redisConnectWithTimeout net w =
     (let c = calls w; w1 = w\<lparr>calls := Suc c\<rparr> in
      case net c of
        NoMemory \<Rightarrow> (None, False, w1)
      | Failed \<Rightarrow> (Some c, True, w1\<lparr>alive := c # alive w\<rparr>)
      | Connected \<Rightarrow> (Some c, False, w1\<lparr>alive := c # alive w\<rparr>))"

definition redisFree :: "nat option \<Rightarrow> world \<Rightarrow> world option" where
  "redisFree ctx w =
     (case ctx of None \<Rightarrow> Some w
      | Some c \<Rightarrow> if c \<in> set (alive w) then Some (w\<lparr>alive := remove1 c (alive w)\<rparr>) else None)"

section \<open>The code\<close>

definition REDIS_ERRORCODE_POOL_NO_CONNECTION :: int where "REDIS_ERRORCODE_POOL_NO_CONNECTION = - 5000001"
definition REDIS_ERRORCODE_SET_ERR :: int where "REDIS_ERRORCODE_SET_ERR = - 5100002"

record HiredisHelper =
  m_ctxs :: "nat option list"
  m_poolsize :: int
  m_maxpoolsize :: int
  m_useNum :: int

fun connect_loop :: "(nat \<Rightarrow> connected) \<Rightarrow> nat \<Rightarrow> HiredisHelper \<Rightarrow> world \<Rightarrow> HiredisHelper \<times> world" where
  "connect_loop net 0 p w = (p, w)"
| "connect_loop net (Suc i) p w =
     (case redisConnectWithTimeout net w of
        (ctx, err, w) \<Rightarrow>
          if ctx \<noteq> None \<and> err then connect_loop net i p w
          else connect_loop net i (p\<lparr>m_ctxs := m_ctxs p @ [ctx]\<rparr>) w)"

definition connect :: "(nat \<Rightarrow> connected) \<Rightarrow> HiredisHelper \<Rightarrow> world \<Rightarrow> HiredisHelper \<times> world" where
  "connect net p w = connect_loop net (nat (m_poolsize p)) p w"

definition init :: "(nat \<Rightarrow> connected) \<Rightarrow> world \<Rightarrow> HiredisHelper \<times> world" where
  "init net w = connect net \<lparr>m_ctxs = [], m_poolsize = 10, m_maxpoolsize = 100, m_useNum = 0\<rparr> w"

definition getConntection :: "(nat \<Rightarrow> connected) \<Rightarrow> HiredisHelper \<Rightarrow> world \<Rightarrow> (nat option \<times> HiredisHelper \<times> world) option" where
  "getConntection net p w =
     (case m_ctxs p of
        ctx # ctxs \<Rightarrow> do { n \<leftarrow> i32 (m_useNum p + 1); Some (ctx, p\<lparr>m_useNum := n, m_ctxs := ctxs\<rparr>, w) }
      | [] \<Rightarrow>
          if m_useNum p \<ge> m_maxpoolsize p then Some (None, p, w)
          else (case redisConnectWithTimeout net w of
            (ctx, err, w) \<Rightarrow>
              if ctx = None \<or> err
              then do { w \<leftarrow> (if ctx \<noteq> None then redisFree ctx w else Some w); Some (None, p, w) }
              else do { n \<leftarrow> i32 (m_useNum p + 1); Some (ctx, p\<lparr>m_useNum := n\<rparr>, w) }))"

definition releaseConnection :: "nat option \<Rightarrow> bool \<Rightarrow> HiredisHelper \<Rightarrow> world \<Rightarrow> (HiredisHelper \<times> world) option" where
  "releaseConnection ctx active p w =
     do { n \<leftarrow> i32 (m_useNum p - 1);
          let p = p\<lparr>m_useNum := n\<rparr>;
          if ctx = None then Some (p, w)
          else if \<not> active then do { w \<leftarrow> redisFree ctx w; Some (p, w) }
          else Some (p\<lparr>m_ctxs := m_ctxs p @ [ctx]\<rparr>, w) }"

text \<open>\<open>reply\<close>: whether the command has a reply, which the function does not free.\<close>

definition SetEx :: "(nat \<Rightarrow> connected) \<Rightarrow> bool \<Rightarrow> HiredisHelper \<Rightarrow> world \<Rightarrow> (int \<times> HiredisHelper \<times> world) option" where
  "SetEx net reply p w =
     do { (ctx, p, w) \<leftarrow> getConntection net p w;
          if ctx = None then Some (REDIS_ERRORCODE_POOL_NO_CONNECTION, p, w)
          else if reply
          then do { (p, w) \<leftarrow> releaseConnection ctx True p (w\<lparr>replies := Suc (replies w)\<rparr>); Some (0, p, w) }
          else do { (p, w) \<leftarrow> releaseConnection ctx False p w; Some (REDIS_ERRORCODE_SET_ERR, p, w) } }"

text \<open>The destructor; \<open>i\<close> goes up while the queue gets shorter.\<close>

function destroy_loop :: "nat \<Rightarrow> nat option list \<Rightarrow> world \<Rightarrow> (nat option list \<times> world) option" where
  "destroy_loop i ctxs w =
     (if i < length ctxs then do { w \<leftarrow> redisFree (hd ctxs) w; destroy_loop (Suc i) (tl ctxs) w } else Some (ctxs, w))"
  by pat_completeness auto
termination by (relation "measure (\<lambda>(i, ctxs, w). length ctxs)") auto

declare destroy_loop.simps [simp del]

section \<open>The pool with its users\<close>

text \<open>Users take contexts, keep those that are not null, and give back what they hold.\<close>

datatype pool_act = Acquire | Release nat bool

fun pool_step :: "(nat \<Rightarrow> connected) \<Rightarrow> pool_act \<Rightarrow> HiredisHelper \<times> world \<times> nat list \<Rightarrow> (HiredisHelper \<times> world \<times> nat list) option" where
  "pool_step net Acquire (p, w, held) =
     do { (ctx, p, w) \<leftarrow> getConntection net p w;
          Some (p, w, case ctx of None \<Rightarrow> held | Some c \<Rightarrow> c # held) }"
| "pool_step net (Release c active) (p, w, held) =
     (if c \<in> set held
      then do { (p, w) \<leftarrow> releaseConnection (Some c) active p w; Some (p, w, remove1 c held) }
      else Some (p, w, held))"

fun pool_run :: "(nat \<Rightarrow> connected) \<Rightarrow> pool_act list \<Rightarrow> HiredisHelper \<times> world \<times> nat list \<Rightarrow> (HiredisHelper \<times> world \<times> nat list) option" where
  "pool_run net [] st = Some st"
| "pool_run net (a # as) st = do { st \<leftarrow> pool_step net a st; pool_run net as st }"

definition idle :: "HiredisHelper \<Rightarrow> nat list" where
  "idle p = map the (filter (\<lambda>c. c \<noteq> None) (m_ctxs p))"

definition nulls :: "HiredisHelper \<Rightarrow> nat" where
  "nulls p = length (filter (\<lambda>c. c = None) (m_ctxs p))"

text \<open>
  \<open>lost\<close> are the contexts with an error that \<open>connect\<close> dropped; \<open>k\<close> is the number of null pointers that \<open>connect\<close>
  queued, those still in the queue and those handed out.
\<close>

definition pool_inv :: "nat list \<Rightarrow> nat \<Rightarrow> HiredisHelper \<times> world \<times> nat list \<Rightarrow> bool" where
  "pool_inv lost k st \<longleftrightarrow> (case st of (p, w, held) \<Rightarrow>
     distinct (alive w) \<and> mset (alive w) = mset lost + mset (idle p) + mset held
     \<and> (\<forall>c \<in> set (alive w). c < calls w)
     \<and> nulls p \<le> k \<and> m_useNum p = int (length held) + int (k - nulls p)
     \<and> int (length (m_ctxs p)) + m_useNum p \<le> m_maxpoolsize p \<and> m_maxpoolsize p = 100)"

lemma queue_length: "length (m_ctxs p) = length (idle p) + nulls p"
  by (simp add: idle_def nulls_def sum_length_filter_compl [of "\<lambda>c. c \<noteq> None", simplified])

lemma idle_simps [simp]:
  "idle (p\<lparr>m_useNum := n\<rparr>) = idle p" "nulls (p\<lparr>m_useNum := n\<rparr>) = nulls p"
  "idle (p\<lparr>m_ctxs := []\<rparr>) = []" "nulls (p\<lparr>m_ctxs := []\<rparr>) = 0"
  "idle (p\<lparr>m_ctxs := xs @ [Some c]\<rparr>) = idle (p\<lparr>m_ctxs := xs\<rparr>) @ [c]" "nulls (p\<lparr>m_ctxs := xs @ [Some c]\<rparr>) = nulls (p\<lparr>m_ctxs := xs\<rparr>)"
  "idle (p\<lparr>m_ctxs := xs @ [None]\<rparr>) = idle (p\<lparr>m_ctxs := xs\<rparr>)" "nulls (p\<lparr>m_ctxs := xs @ [None]\<rparr>) = Suc (nulls (p\<lparr>m_ctxs := xs\<rparr>))"
  "idle (p\<lparr>m_ctxs := m_ctxs p\<rparr>) = idle p" "nulls (p\<lparr>m_ctxs := m_ctxs p\<rparr>) = nulls p"
  by (simp_all add: idle_def nulls_def)

lemma idle_front:
  "m_ctxs p = Some c # xs \<Longrightarrow> idle p = c # idle (p\<lparr>m_ctxs := xs\<rparr>) \<and> nulls p = nulls (p\<lparr>m_ctxs := xs\<rparr>)"
  "m_ctxs p = None # xs \<Longrightarrow> idle p = idle (p\<lparr>m_ctxs := xs\<rparr>) \<and> nulls p = Suc (nulls (p\<lparr>m_ctxs := xs\<rparr>))"
  "m_ctxs p = [] \<Longrightarrow> idle p = [] \<and> nulls p = 0"
  by (simp_all add: idle_def nulls_def)

lemma connect_inv:
  assumes "pool_inv lost (nulls p) (p, w, [])" "int (length (m_ctxs p)) + int i \<le> 100"
  shows "\<exists>lost'. pool_inv lost' (nulls (fst (connect_loop net i p w))) (fst (connect_loop net i p w), snd (connect_loop net i p w), [])
    \<and> length lost' + length (m_ctxs (fst (connect_loop net i p w))) = length lost + length (m_ctxs p) + i"
  using assms
proof (induction i arbitrary: lost p w)
  case (Suc i)
  let ?w = "w\<lparr>calls := Suc (calls w)\<rparr>"
  have fresh: "calls w \<notin> set (alive w)" using Suc.prems(1) by (auto simp: pool_inv_def)
  show ?case
  proof (cases "net (calls w)")
    case NoMemory
    have "pool_inv lost (nulls (p\<lparr>m_ctxs := m_ctxs p @ [None]\<rparr>)) (p\<lparr>m_ctxs := m_ctxs p @ [None]\<rparr>, ?w, [])"
      using Suc.prems by (auto simp: pool_inv_def less_Suc_eq)
    from Suc.IH [OF this] Suc.prems(2) NoMemory show ?thesis
      by (auto simp: redisConnectWithTimeout_def Let_def)
  next
    case Failed
    have "pool_inv (calls w # lost) (nulls p) (p, ?w\<lparr>alive := calls w # alive w\<rparr>, [])"
      using Suc.prems fresh by (auto simp: pool_inv_def less_Suc_eq)
    from Suc.IH [OF this] Suc.prems(2) Failed show ?thesis
      by (auto simp: redisConnectWithTimeout_def Let_def)
  next
    case Connected
    have "pool_inv lost (nulls (p\<lparr>m_ctxs := m_ctxs p @ [Some (calls w)]\<rparr>))
        (p\<lparr>m_ctxs := m_ctxs p @ [Some (calls w)]\<rparr>, ?w\<lparr>alive := calls w # alive w\<rparr>, [])"
      using Suc.prems fresh by (auto simp: pool_inv_def less_Suc_eq)
    from Suc.IH [OF this] Suc.prems(2) Connected show ?thesis
      by (auto simp: redisConnectWithTimeout_def Let_def)
  qed
qed auto

lemma acquire_inv:
  assumes "pool_inv lost k (p, w, held)"
  shows "\<exists>st. pool_step net Acquire (p, w, held) = Some st \<and> pool_inv lost k st"
proof -
  have inv: "distinct (alive w)" "mset (alive w) = mset lost + mset (idle p) + mset held"
    "\<forall>c \<in> set (alive w). c < calls w" "nulls p \<le> k" "m_useNum p = int (length held) + int (k - nulls p)"
    "int (length (m_ctxs p)) + m_useNum p \<le> 100" "m_maxpoolsize p = 100"
    using assms by (auto simp: pool_inv_def)
  have fresh: "calls w \<notin> set (alive w)" using inv(3) by auto
  have n: "i32 (m_useNum p + 1) = Some (m_useNum p + 1)" using inv(5,6) by simp
  let ?w = "w\<lparr>calls := Suc (calls w)\<rparr>"
  show ?thesis
  proof (cases "m_ctxs p")
    case (Cons ctx xs)
    show ?thesis
    proof (cases ctx)
      case None
      have "pool_step net Acquire (p, w, held) = Some (p\<lparr>m_useNum := m_useNum p + 1, m_ctxs := xs\<rparr>, w, held)"
        using Cons None n by (simp add: getConntection_def)
      moreover have "pool_inv lost k (p\<lparr>m_useNum := m_useNum p + 1, m_ctxs := xs\<rparr>, w, held)"
        using inv idle_front(2) [of p xs] Cons None by (auto simp: pool_inv_def idle_def nulls_def)
      ultimately show ?thesis by blast
    next
      case (Some c)
      have "pool_step net Acquire (p, w, held) = Some (p\<lparr>m_useNum := m_useNum p + 1, m_ctxs := xs\<rparr>, w, c # held)"
        using Cons Some n by (simp add: getConntection_def)
      moreover have "pool_inv lost k (p\<lparr>m_useNum := m_useNum p + 1, m_ctxs := xs\<rparr>, w, c # held)"
        using inv idle_front(1) [of p c xs] Cons Some by (auto simp: pool_inv_def idle_def nulls_def)
      ultimately show ?thesis by blast
    qed
  next
    case Nil
    have q: "idle p = []" "nulls p = 0" using idle_front(3) [OF Nil] by simp_all
    show ?thesis
    proof (cases "m_useNum p \<ge> 100")
      case True
      then show ?thesis using Nil inv(7) assms by (simp add: getConntection_def)
    next
      case False
      show ?thesis
      proof (cases "net (calls w)")
        case NoMemory
        have "pool_step net Acquire (p, w, held) = Some (p, ?w, held)"
          using Nil False inv(7) NoMemory by (simp add: getConntection_def redisConnectWithTimeout_def Let_def)
        moreover have "pool_inv lost k (p, ?w, held)" using assms by (auto simp: pool_inv_def less_Suc_eq)
        ultimately show ?thesis by blast
      next
        case Failed
        have "pool_step net Acquire (p, w, held) = Some (p, ?w, held)"
          using Nil False inv(7) Failed by (simp add: getConntection_def redisConnectWithTimeout_def Let_def redisFree_def)
        moreover have "pool_inv lost k (p, ?w, held)" using assms by (auto simp: pool_inv_def less_Suc_eq)
        ultimately show ?thesis by blast
      next
        case Connected
        have "pool_step net Acquire (p, w, held)
            = Some (p\<lparr>m_useNum := m_useNum p + 1\<rparr>, ?w\<lparr>alive := calls w # alive w\<rparr>, calls w # held)"
          using Nil False inv(7) Connected n by (simp add: getConntection_def redisConnectWithTimeout_def Let_def)
        moreover have "pool_inv lost k (p\<lparr>m_useNum := m_useNum p + 1\<rparr>, ?w\<lparr>alive := calls w # alive w\<rparr>, calls w # held)"
          using inv fresh q Nil False by (auto simp: pool_inv_def less_Suc_eq)
        ultimately show ?thesis by blast
      qed
    qed
  qed
qed

lemma release_inv:
  assumes "pool_inv lost k (p, w, held)"
  shows "\<exists>st. pool_step net (Release c active) (p, w, held) = Some st \<and> pool_inv lost k st"
proof (cases "c \<in> set held")
  case True
  have inv: "distinct (alive w)" "mset (alive w) = mset lost + mset (idle p) + mset held"
    "\<forall>c \<in> set (alive w). c < calls w" "nulls p \<le> k" "m_useNum p = int (length held) + int (k - nulls p)"
    "int (length (m_ctxs p)) + m_useNum p \<le> 100" "m_maxpoolsize p = 100"
    using assms by (auto simp: pool_inv_def)
  have "c \<in># mset (alive w)" unfolding inv(2) using True by simp
  then have c: "c \<in> set (alive w)" by simp
  define h where "h = remove1 c held"
  have m: "mset held = add_mset c (mset h)" using True by (simp add: h_def)
  then have l: "length held = Suc (length h)" by (metis size_add_mset size_mset)
  have n: "i32 (m_useNum p - 1) = Some (m_useNum p - 1)" using inv(5,6) by simp
  show ?thesis
  proof (cases active)
    case True
    have "pool_step net (Release c active) (p, w, held)
        = Some (p\<lparr>m_useNum := m_useNum p - 1, m_ctxs := m_ctxs p @ [Some c]\<rparr>, w, h)"
      using True \<open>c \<in> set held\<close> n by (simp add: releaseConnection_def Let_def h_def)
    moreover have "pool_inv lost k (p\<lparr>m_useNum := m_useNum p - 1, m_ctxs := m_ctxs p @ [Some c]\<rparr>, w, h)"
      using inv l m by (simp add: pool_inv_def idle_def nulls_def)
    ultimately show ?thesis by blast
  next
    case False
    have "pool_step net (Release c active) (p, w, held)
        = Some (p\<lparr>m_useNum := m_useNum p - 1\<rparr>, w\<lparr>alive := remove1 c (alive w)\<rparr>, h)"
      using False \<open>c \<in> set held\<close> n c by (simp add: releaseConnection_def Let_def redisFree_def h_def)
    moreover have "pool_inv lost k (p\<lparr>m_useNum := m_useNum p - 1\<rparr>, w\<lparr>alive := remove1 c (alive w)\<rparr>, h)"
      using inv l m c by (auto simp: pool_inv_def dest: notin_set_remove1)
    ultimately show ?thesis by blast
  qed
qed (use assms in auto)

lemma pool_run_inv:
  "pool_inv lost k st \<Longrightarrow> \<exists>st'. pool_run net as st = Some st' \<and> pool_inv lost k st'"
proof (induction "as" arbitrary: st)
  case (Cons a "as")
  obtain p w held where st: "st = (p, w, held)" by (cases st)
  obtain st1 where "pool_step net a st = Some st1" "pool_inv lost k st1"
    using acquire_inv release_inv Cons.prems unfolding st by (cases a) blast+
  then show ?case using Cons.IH [of st1] by auto
qed simp

text \<open>
  C32: the connection pool.  Whatever the network answers and in whatever order users take connections
  and give them back, no context is freed twice; a context is with one user, or idle in the queue, or was lost
  by \<open>connect\<close>, which drops those with an error; idle and used ones are never more than 100 together; and
  \<open>m_useNum\<close> is the number of connections in use and of the null pointers that \<open>connect\<close> queued and users were
  handed, for which the count never goes down again.
\<close>

theorem redis_pool_sound:
  assumes "init net \<lparr>calls = 0, alive = [], replies = 0\<rparr> = (p0, w0)"
  shows "\<exists>p w held lost. pool_run net as (p0, w0, []) = Some (p, w, held)
    \<and> distinct (alive w) \<and> mset (alive w) = mset lost + mset (idle p) + mset held
    \<and> length lost + length (m_ctxs p0) = 10 \<and> int (length (m_ctxs p)) + m_useNum p \<le> 100
    \<and> nulls p \<le> nulls p0 \<and> m_useNum p = int (length held) + int (nulls p0 - nulls p)"
proof -
  let ?p = "\<lparr>m_ctxs = [], m_poolsize = 10, m_maxpoolsize = 100, m_useNum = 0\<rparr>" and ?w = "\<lparr>calls = 0, alive = [], replies = 0\<rparr>"
  have "pool_inv [] (nulls ?p) (?p, ?w, [])" by (simp add: pool_inv_def idle_def nulls_def)
  from connect_inv [OF this, of 10 net] assms obtain lost where
    i: "pool_inv lost (nulls p0) (p0, w0, [])" "length lost + length (m_ctxs p0) = 10"
    by (auto simp: init_def connect_def)
  obtain st where st: "pool_run net as (p0, w0, []) = Some st" "pool_inv lost (nulls p0) st"
    using pool_run_inv [OF i(1)] by blast
  obtain p w held where e: "st = (p, w, held)" by (cases st)
  show ?thesis
    using st i(2) unfolding e pool_inv_def by (simp only: prod.case) metis
qed

theorem redis_pool_sound_witness:
  "\<exists>p w held lost. pool_run (\<lambda>n. if n = 1 then NoMemory else if n = 2 then Failed else Connected) [Acquire, Acquire, Release 0 True]
      (fst (init (\<lambda>n. if n = 1 then NoMemory else if n = 2 then Failed else Connected) \<lparr>calls = 0, alive = [], replies = 0\<rparr>),
       snd (init (\<lambda>n. if n = 1 then NoMemory else if n = 2 then Failed else Connected) \<lparr>calls = 0, alive = [], replies = 0\<rparr>), []) = Some (p, w, held)
    \<and> distinct (alive w) \<and> mset (alive w) = mset lost + mset (idle p) + mset held"
  using redis_pool_sound [of "\<lambda>n. if n = 1 then NoMemory else if n = 2 then Failed else Connected"
      "fst (init (\<lambda>n. if n = 1 then NoMemory else if n = 2 then Failed else Connected) \<lparr>calls = 0, alive = [], replies = 0\<rparr>)"
      "snd (init (\<lambda>n. if n = 1 then NoMemory else if n = 2 then Failed else Connected) \<lparr>calls = 0, alive = [], replies = 0\<rparr>)"
      "[Acquire, Acquire, Release 0 True]"]
  by (metis prod.collapse)

text \<open>\<open>SetEx\<close> gives back what it takes, unless it was handed a null pointer.\<close>

lemma SetEx_as_actions:
  "SetEx net reply p w = do {
     (ctx, p1, w1) \<leftarrow> getConntection net p w;
     case ctx of
       None \<Rightarrow> Some (REDIS_ERRORCODE_POOL_NO_CONNECTION, p1, w1)
     | Some c \<Rightarrow> do {
         (p2, w2, held) \<leftarrow> pool_step net (Release c reply) (p1, w1\<lparr>replies := replies w1 + (if reply then 1 else 0)\<rparr>, [c]);
         Some (if reply then 0 else REDIS_ERRORCODE_SET_ERR, p2, w2) } }"
  by (auto simp: SetEx_def split: option.splits bind_splits)

text \<open>The destructor frees only the first half of the queue, rounded up.\<close>

definition nonnull :: "nat option list \<Rightarrow> nat list" where
  "nonnull xs = map the (filter (\<lambda>c. c \<noteq> None) xs)"

lemma destroy_half:
  assumes "mset (nonnull ctxs) \<subseteq># mset (alive w)"
  shows "\<exists>w'. destroy_loop i ctxs w = Some (drop ((length ctxs - i + 1) div 2) ctxs, w')
    \<and> mset (alive w') = mset (alive w) - mset (nonnull (take ((length ctxs - i + 1) div 2) ctxs))"
  using assms
proof (induction i ctxs w rule: destroy_loop.induct)
  case (1 i ctxs w)
  show ?case
  proof (cases "i < length ctxs")
    case False
    then show ?thesis by (subst destroy_loop.simps) (simp add: nonnull_def)
  next
    case True
    then obtain ctx xs where c: "ctxs = ctx # xs" by (cases ctxs) auto
    define w1 where "w1 = (case ctx of None \<Rightarrow> w | Some a \<Rightarrow> w\<lparr>alive := remove1 a (alive w)\<rparr>)"
    have f: "redisFree (hd ctxs) w = Some w1" "mset (alive w1) = mset (alive w) - mset (nonnull [ctx])"
    proof -
      have "ctx = Some a \<Longrightarrow> a \<in># mset (alive w)" for a
        using 1(2) c by (auto simp: nonnull_def dest: mset_subset_eqD)
      then show "redisFree (hd ctxs) w = Some w1" "mset (alive w1) = mset (alive w) - mset (nonnull [ctx])"
        using c by (auto simp: redisFree_def w1_def nonnull_def split: option.splits)
    qed
    have "mset (nonnull xs) \<subseteq># mset (alive w1)"
      using 1(2) c f(2) by (cases ctx) (auto simp: nonnull_def subset_eq_diff_conv insert_subset_eq_iff)
    then obtain w' where r: "destroy_loop (Suc i) xs w1 = Some (drop ((length xs - Suc i + 1) div 2) xs, w')"
      "mset (alive w') = mset (alive w1) - mset (nonnull (take ((length xs - Suc i + 1) div 2) xs))"
      using 1(1) [OF True f(1)] c by auto
    obtain m where m: "length xs = i + m" using True c by (metis length_Cons less_Suc_eq_le le_add_diff_inverse)
    have "(length ctxs - i + 1) div 2 = Suc ((length xs - Suc i + 1) div 2)" using m c by (cases m) simp_all
    then show ?thesis using r f True c by (subst destroy_loop.simps) (auto simp: nonnull_def)
  qed
qed

end
