(* ===== verification/Leaking_Hash.thy ===== *)
theory Leaking_Hash
  imports Prelude "HOL-Library.Word"
begin

text \<open>
  The hash table of example_hashtable3.cpp.  Nodes are numbered, a freed node is \<open>None\<close> in the heap.  The
  allocator succeeds; how many bytes of a block of \<open>n\<close> bytes can be written is the parameter \<open>usable\<close>.
  \<open>None\<close> as a result is an access outside the table or a block, a use of a freed node, or a loop
  that does not end.  Strings have no null characters, and the pointers to them are not null.
\<close>

section \<open>The code\<close>

definition HASHSIZE :: nat where "HASHSIZE = 30000"

record HashNode =
  key :: string
  val :: string
  pNext :: "nat option"

record hash_state =
  hashTable :: "nat option list"
  heap :: "HashNode option list"

text \<open>\<open>char\<close> is signed; the sum is an \<open>unsigned long\<close> that is returned as an \<open>int\<close>.\<close>

definition time33 :: "string \<Rightarrow> int" where
  "time33 k = sint (ucast (foldl (\<lambda>h c. h * 33 + scast (of_char c :: 8 word)) (0 :: 64 word) k) :: 32 word)"

definition hashFn :: "string \<Rightarrow> int" where
  "hashFn k = cmod (time33 k) (int HASHSIZE)"

definition hashInit :: hash_state where
  "hashInit = \<lparr>hashTable = replicate HASHSIZE None, heap = []\<rparr>"

definition deref :: "HashNode option list \<Rightarrow> nat \<Rightarrow> HashNode option" where
  "deref h n = do { x \<leftarrow> rd h n; x }"

definition strcpy_ok :: "(nat \<Rightarrow> nat) \<Rightarrow> nat \<Rightarrow> string \<Rightarrow> bool" where
  "strcpy_ok usable n t \<longleftrightarrow> length t + 1 \<le> usable n"

text \<open>The search before an insertion; it sets the link of the node to the node itself.\<close>

partial_function (option) insert_loop :: "string \<Rightarrow> HashNode option list \<Rightarrow> nat option \<Rightarrow> (bool \<times> HashNode option list) option" where
  "insert_loop k h p =
     (case p of
        None \<Rightarrow> Some (False, h)
      | Some n \<Rightarrow> do {
          x \<leftarrow> deref h n;
          if key x = k then Some (True, h)
          else do { h \<leftarrow> wr h n (Some (x\<lparr>pNext := Some n\<rparr>)); insert_loop k h (Some n) } })"

definition hashInsert :: "(nat \<Rightarrow> nat) \<Rightarrow> string \<Rightarrow> string \<Rightarrow> hash_state \<Rightarrow> hash_state option" where
  "hashInsert usable k v s = do {
     p \<leftarrow> rdi (hashTable s) (hashFn k);
     (existed, h) \<leftarrow> insert_loop k (heap s) p;
     if existed then Some (s\<lparr>heap := h\<rparr>)
     else if \<not> (strcpy_ok usable (length k) k \<and> strcpy_ok usable (length v) v) then None
     else do {
       t \<leftarrow> wri (hashTable s) (hashFn k) (Some (length h));
       Some \<lparr>hashTable = t, heap = h @ [Some \<lparr>key = k, val = v, pNext = p\<rparr>]\<rparr> } }"

text \<open>Taking the node \<open>n\<close>, with the contents \<open>x\<close>, out of its chain and freeing it.\<close>

definition unlink_free :: "string \<Rightarrow> hash_state \<Rightarrow> nat option \<Rightarrow> nat \<Rightarrow> HashNode \<Rightarrow> hash_state option" where
  "unlink_free k s pLast n x = do {
     s \<leftarrow> (case pLast of
        Some l \<Rightarrow> do { y \<leftarrow> deref (heap s) l; h \<leftarrow> wr (heap s) l (Some (y\<lparr>pNext := pNext x\<rparr>)); Some (s\<lparr>heap := h\<rparr>) }
      | None \<Rightarrow> do { t \<leftarrow> wri (hashTable s) (hashFn k) (pNext x); Some (s\<lparr>hashTable := t\<rparr>) });
     h \<leftarrow> wr (heap s) n None;
     Some (s\<lparr>heap := h\<rparr>) }"

text \<open>After a node is freed its link is still read.\<close>

partial_function (option) delete_loop :: "string \<Rightarrow> hash_state \<Rightarrow> nat option \<Rightarrow> nat option \<Rightarrow> hash_state option" where
  "delete_loop k s p pLast =
     (case p of
        None \<Rightarrow> Some s
      | Some n \<Rightarrow> do {
          x \<leftarrow> deref (heap s) n;
          s1 \<leftarrow> (if key x = k then unlink_free k s pLast n x else Some s);
          x1 \<leftarrow> deref (heap s1) n;
          delete_loop k s1 (pNext x1) (Some n) })"

definition hashDelete :: "string \<Rightarrow> hash_state \<Rightarrow> hash_state option" where
  "hashDelete k s = do { p \<leftarrow> rdi (hashTable s) (hashFn k); delete_loop k s p None }"

partial_function (option) search_loop :: "string \<Rightarrow> HashNode option list \<Rightarrow> nat option \<Rightarrow> string option option" where
  "search_loop k h p =
     (case p of
        None \<Rightarrow> Some None
      | Some n \<Rightarrow> do { x \<leftarrow> deref h n; if k = key x then Some (Some (val x)) else search_loop k h (pNext x) })"

text \<open>The position, or -1; and the value that is copied to the caller.\<close>

definition hashSearch :: "string \<Rightarrow> hash_state \<Rightarrow> (int \<times> string option) option" where
  "hashSearch k s = do {
     p \<leftarrow> rdi (hashTable s) (hashFn k);
     r \<leftarrow> search_loop k (heap s) p;
     Some (case r of None \<Rightarrow> (- 1, None) | Some v \<Rightarrow> (hashFn k, Some v)) }"

section \<open>What works\<close>

text \<open>A table as insertions leave it: every bucket has at most one node, whose key belongs to it.\<close>

definition single :: "hash_state \<Rightarrow> bool" where
  "single s \<longleftrightarrow> length (hashTable s) = HASHSIZE
     \<and> (\<forall>i < HASHSIZE. case hashTable s ! i of None \<Rightarrow> True
          | Some n \<Rightarrow> n < length (heap s) \<and> (\<exists>x. heap s ! n = Some x \<and> pNext x = None \<and> hashFn (key x) = int i))"

definition stored :: "hash_state \<Rightarrow> string \<Rightarrow> string option" where
  "stored s k = (case hashTable s ! nat (hashFn k) of None \<Rightarrow> None
     | Some n \<Rightarrow> (case heap s ! n of None \<Rightarrow> None | Some x \<Rightarrow> if key x = k then Some (val x) else None))"

lemma hashFn_bounds: "- int HASHSIZE < hashFn k" "hashFn k < int HASHSIZE"
proof -
  have "0 < int HASHSIZE" by (simp add: HASHSIZE_def)
  moreover have "a mod int HASHSIZE < int HASHSIZE" "0 \<le> a mod int HASHSIZE" for a by (simp_all add: HASHSIZE_def)
  ultimately show "- int HASHSIZE < hashFn k" "hashFn k < int HASHSIZE"
    unfolding hashFn_def using cmod_nonneg [of "time33 k" "int HASHSIZE"] cmod_neg [of "time33 k" "int HASHSIZE"]
    by (cases "0 \<le> time33 k"; smt (verit))+
qed

lemma singleD:
  assumes "single s" "0 \<le> hashFn k"
  shows "rdi (hashTable s) (hashFn k) = Some (hashTable s ! nat (hashFn k))"
    "hashTable s ! nat (hashFn k) = Some n \<Longrightarrow> \<exists>x. deref (heap s) n = Some x \<and> heap s ! n = Some x \<and> n < length (heap s)
      \<and> pNext x = None \<and> hashFn (key x) = hashFn k"
proof -
  show "rdi (hashTable s) (hashFn k) = Some (hashTable s ! nat (hashFn k))"
    using assms hashFn_bounds [of k] by (simp add: single_def)
  have i: "nat (hashFn k) < HASHSIZE" using assms(2) hashFn_bounds(2) [of k] by linarith
  assume n: "hashTable s ! nat (hashFn k) = Some n"
  have "case hashTable s ! nat (hashFn k) of None \<Rightarrow> True
      | Some n \<Rightarrow> n < length (heap s) \<and> (\<exists>x. heap s ! n = Some x \<and> pNext x = None \<and> hashFn (key x) = int (nat (hashFn k)))"
    using assms(1) i unfolding single_def by blast
  then obtain x where "n < length (heap s)" "heap s ! n = Some x" "pNext x = None" "hashFn (key x) = hashFn k"
    using n assms(2) by auto
  then show "\<exists>x. deref (heap s) n = Some x \<and> heap s ! n = Some x \<and> n < length (heap s) \<and> pNext x = None \<and> hashFn (key x) = hashFn k"
    by (simp add: deref_def)
qed

lemma search_single:
  assumes "single s" "0 \<le> hashFn k"
  shows "hashSearch k s = Some (case stored s k of None \<Rightarrow> (- 1, None) | Some v \<Rightarrow> (hashFn k, Some v))"
proof (cases "hashTable s ! nat (hashFn k)")
  case None
  then show ?thesis using singleD(1) [OF assms] by (simp add: hashSearch_def stored_def search_loop.simps)
next
  case (Some n)
  then obtain x where x: "deref (heap s) n = Some x" "heap s ! n = Some x" "pNext x = None" using singleD(2) [OF assms] by blast
  have "search_loop k (heap s) (Some n) = Some (if k = key x then Some (val x) else None)"
    using x by (subst search_loop.simps) (simp add: search_loop.simps [of k _ None])
  then show ?thesis using singleD(1) [OF assms] Some x by (auto simp: hashSearch_def stored_def)
qed

lemma insert_loop_diverges:
  assumes "insert_loop k h (Some n) = Some r"
  shows "\<forall>x. deref h n = Some x \<longrightarrow> key x = k"
proof -
  have "\<forall>m. p = Some m \<longrightarrow> (\<forall>x. deref h m = Some x \<longrightarrow> key x = k)" if "insert_loop k h p = Some r" for k h p r
  proof (rule insert_loop.raw_induct [OF _ that])
    fix loop k h p r
    assume IH: "\<And>k h p r. loop k h p = Some r \<Longrightarrow> \<forall>m. p = Some m \<longrightarrow> (\<forall>x. deref h m = Some x \<longrightarrow> key x = k)"
      and run: "(case p of None \<Rightarrow> Some (False, h)
        | Some n \<Rightarrow> do { x \<leftarrow> deref h n;
            if key x = k then Some (True, h) else do { h \<leftarrow> wr h n (Some (x\<lparr>pNext := Some n\<rparr>)); loop k h (Some n) } }) = Some r"
    show "\<forall>m. p = Some m \<longrightarrow> (\<forall>x. deref h m = Some x \<longrightarrow> key x = k)"
    proof (intro allI impI)
      fix m x assume m: "p = Some m" "deref h m = Some x"
      show "key x = k"
      proof (rule ccontr)
        assume ne: "key x \<noteq> k"
        then obtain h1 where h1: "wr h m (Some (x\<lparr>pNext := Some m\<rparr>)) = Some h1" "loop k h1 (Some m) = Some r"
          using run m by (auto simp: bind_eq_Some_conv)
        then have "deref h1 m = Some (x\<lparr>pNext := Some m\<rparr>)" by (auto simp: wr_eq_Some_iff deref_def)
        then show False using IH [OF h1(2)] ne by auto
      qed
    qed
  qed
  then show ?thesis using assms by blast
qed

text \<open>
  Insertion, search and deletion.  With room for the terminating zero that \<open>malloc(strlen(...))\<close> does not ask for, and a
  hash value that is not negative: a key that is stored is left alone; a key of an empty bucket is stored and found;
  for any other key the insertion never returns.  Deleting a key that is not stored does nothing, deleting
  one that is uses memory after it was freed.
\<close>

theorem leaking_hash_operations:
  assumes s: "single s" and k: "0 \<le> hashFn k" and u: "\<And>n. n < usable n"
  shows "hashInsert usable k v s =
      (if stored s k \<noteq> None then Some s
       else if hashTable s ! nat (hashFn k) = None
       then Some \<lparr>hashTable = (hashTable s)[nat (hashFn k) := Some (length (heap s))],
                  heap = heap s @ [Some \<lparr>key = k, val = v, pNext = None\<rparr>]\<rparr>
       else None)"
    and "hashInsert usable k v s = Some s' \<Longrightarrow> single s' \<and> (\<forall>j. 0 \<le> hashFn j \<longrightarrow>
      stored s' j = (if j = k \<and> stored s k = None then Some v else stored s j))"
    and "hashDelete k s = (if stored s k = None then Some s else None)"
proof -
  note table = singleD(1) [OF s k]
  have i: "nat (hashFn k) < HASHSIZE" using k hashFn_bounds(2) [of k] by linarith
  have len: "length (hashTable s) = HASHSIZE" using s by (simp add: single_def)
  have w: "wri (hashTable s) (hashFn k) x = Some ((hashTable s)[nat (hashFn k) := x])" for x
    using k hashFn_bounds(2) [of k] len by simp
  have c: "strcpy_ok usable (length t) t" for t using u [of "length t"] by (simp add: strcpy_ok_def)
  show ins: "hashInsert usable k v s =
      (if stored s k \<noteq> None then Some s
       else if hashTable s ! nat (hashFn k) = None
       then Some \<lparr>hashTable = (hashTable s)[nat (hashFn k) := Some (length (heap s))],
                  heap = heap s @ [Some \<lparr>key = k, val = v, pNext = None\<rparr>]\<rparr>
       else None)"
  proof (cases "hashTable s ! nat (hashFn k)")
    case None
    then show ?thesis using table w c by (simp add: hashInsert_def insert_loop.simps stored_def)
  next
    case (Some n)
    then obtain x where x: "deref (heap s) n = Some x" "heap s ! n = Some x" using singleD(2) [OF s k] by blast
    show ?thesis
    proof (cases "key x = k")
      case True
      then have "insert_loop k (heap s) (Some n) = Some (True, heap s)" using x by (subst insert_loop.simps) simp
      then show ?thesis using table Some x True by (simp add: hashInsert_def stored_def)
    next
      case False
      then have "insert_loop k (heap s) (Some n) = None"
        using insert_loop_diverges [of k "heap s" n] x(1) by (cases "insert_loop k (heap s) (Some n)") auto
      then show ?thesis using table Some x False by (simp add: hashInsert_def stored_def)
    qed
  qed
  show "hashDelete k s = (if stored s k = None then Some s else None)"
  proof (cases "hashTable s ! nat (hashFn k)")
    case None
    then show ?thesis using table by (simp add: hashDelete_def delete_loop.simps stored_def)
  next
    case (Some n)
    then obtain x where x: "deref (heap s) n = Some x" "heap s ! n = Some x" "n < length (heap s)" "pNext x = None"
      using singleD(2) [OF s k] by blast
    have "delete_loop k s (Some n) None = (if key x = k then None else Some s)"
      using x w by (subst delete_loop.simps) (simp add: delete_loop.simps [of k s None] unlink_free_def deref_def)
    then show ?thesis using table Some x by (simp add: hashDelete_def stored_def)
  qed
  assume "hashInsert usable k v s = Some s'"
  then consider (kept) "stored s k \<noteq> None" "s' = s"
    | (new) "stored s k = None" "hashTable s ! nat (hashFn k) = None"
        "s' = \<lparr>hashTable = (hashTable s)[nat (hashFn k) := Some (length (heap s))],
               heap = heap s @ [Some \<lparr>key = k, val = v, pNext = None\<rparr>]\<rparr>"
    unfolding ins by (auto split: if_splits)
  then show "single s' \<and> (\<forall>j. 0 \<le> hashFn j \<longrightarrow> stored s' j = (if j = k \<and> stored s k = None then Some v else stored s j))"
  proof cases
    case kept
    then show ?thesis using s by auto
  next
    case new
    have b: "case hashTable s' ! j of None \<Rightarrow> True
          | Some n \<Rightarrow> n < length (heap s') \<and> (\<exists>x. heap s' ! n = Some x \<and> pNext x = None \<and> hashFn (key x) = int j)"
      if j: "j < HASHSIZE" for j
    proof (cases "j = nat (hashFn k)")
      case True
      then show ?thesis using i k len new(3) by simp
    next
      case False
      have "case hashTable s ! j of None \<Rightarrow> True
          | Some n \<Rightarrow> n < length (heap s) \<and> (\<exists>x. heap s ! n = Some x \<and> pNext x = None \<and> hashFn (key x) = int j)"
        using s j unfolding single_def by blast
      then show ?thesis using False new(3) by (cases "hashTable s ! j") (auto simp: nth_append)
    qed
    have "stored s' j = (if j = k then Some v else stored s j)" if j: "0 \<le> hashFn j" for j
    proof (cases "hashFn j = hashFn k")
      case True
      then show ?thesis using new i len by (auto simp: stored_def nth_append)
    next
      case False
      then have "nat (hashFn j) \<noteq> nat (hashFn k)" using j k by auto
      then have t: "hashTable s' ! nat (hashFn j) = hashTable s ! nat (hashFn j)" using new(3) by simp
      show ?thesis
      proof (cases "hashTable s ! nat (hashFn j)")
        case None
        then show ?thesis using t False by (auto simp: stored_def)
      next
        case (Some n)
        then have "n < length (heap s)" using singleD(2) [OF s j] by blast
        then show ?thesis using t Some False new(3) by (auto simp: stored_def nth_append)
      qed
    qed
    then show ?thesis using b new len by (auto simp: single_def)
  qed
qed

lemma hashInit_single: "single hashInit"
  by (simp add: single_def hashInit_def)

text \<open>A hash value can be negative, and the table is then accessed outside its bounds.\<close>

lemma negative_hash: "hashFn ''zzzzzzz'' = - 3402" "hashSearch ''zzzzzzz'' hashInit = None"
proof -
  have "time33 ''zzzzzzz'' = - 725943402" by (simp add: time33_def)
  then show h: "hashFn ''zzzzzzz'' = - 3402" by (simp add: hashFn_def HASHSIZE_def cmod_neg)
  show "hashSearch ''zzzzzzz'' hashInit = None" unfolding hashSearch_def h by (simp add: rdi_def)
qed

declare insert_loop.simps [code] and delete_loop.simps [code] and search_loop.simps [code]

end
