(* ===== verification/Power_Test.thy ===== *)
theory Power_Test
  imports Prelude
begin

text \<open>The test for powers of two of example_bitalgorithm.cpp; \<open>None\<close> is the overflow of \<open>n - 1\<close>.\<close>

unbundle bit_operations_syntax

definition isPowerOf2 :: "int \<Rightarrow> bool option" where
  "isPowerOf2 n = do { m \<leftarrow> i32 (n - 1); Some (n AND m = 0) }"

lemma and_pred_even: "(2 * m) AND (2 * m - 1) = 2 * (m AND (m - 1))" for m :: int
proof -
  have "(2 * m - 1) div 2 = m - 1" by presburger
  then show ?thesis by (subst and_int_rec) simp
qed

lemma and_pred_odd: "(2 * m + 1) AND (2 * m + 1 - 1) = 2 * m" for m :: int
  by (subst and_int_rec) simp

lemma and_pred_zero:
  "0 < n \<Longrightarrow> int n AND (int n - 1) = 0 \<longleftrightarrow> (\<exists>k. n = 2 ^ k)"
proof (induction n rule: less_induct)
  case (less n)
  show ?case
  proof (cases "even n")
    case True
    then obtain m where m: "n = 2 * m" by blast
    then have pos: "0 < m" "m < n" using less.prems by auto
    have "int n AND (int n - 1) = 0 \<longleftrightarrow> int m AND (int m - 1) = 0"
      using and_pred_even [of "int m"] m by simp
    also have "\<dots> \<longleftrightarrow> (\<exists>k. m = 2 ^ k)" by (rule less.IH [OF pos(2,1)])
    also have "\<dots> \<longleftrightarrow> (\<exists>k. n = 2 ^ k)"
    proof
      assume "\<exists>k. n = 2 ^ k"
      then obtain k where k: "n = 2 ^ k" by blast
      then show "\<exists>k. m = 2 ^ k" using True m pos by (cases k) auto
    next
      assume "\<exists>k. m = 2 ^ k"
      then show "\<exists>k. n = 2 ^ k" unfolding m by (metis power_Suc)
    qed
    finally show ?thesis .
  next
    case False
    then obtain m where m: "n = 2 * m + 1" using oddE by blast
    have "int n AND (int n - 1) = 2 * int m" using and_pred_odd [of "int m"] m by (simp add: algebra_simps)
    moreover have "(\<exists>k. n = 2 ^ k) \<longleftrightarrow> m = 0"
    proof
      assume "\<exists>k. n = 2 ^ k"
      then obtain k where k: "n = 2 ^ k" by blast
      then show "m = 0" using False m by (cases k) auto
    next
      assume "m = 0"
      then show "\<exists>k. n = 2 ^ k" using m by (intro exI [of _ 0]) simp
    qed
    ultimately show ?thesis by simp
  qed
qed

text \<open>The test is right for positive numbers; it also accepts 0.\<close>

theorem isPowerOf2_correct:
  assumes "- (2 ^ 31) < n" "n < 2 ^ 31"
  shows "0 < n \<Longrightarrow> isPowerOf2 n = Some (\<exists>k. n = 2 ^ k)" "isPowerOf2 0 = Some True"
proof -
  assume n: "0 < n"
  then obtain m where m: "n = int m" "0 < m" by (metis int_nat_eq nat_0_less_mult_iff of_nat_0_less_iff pos_int_cases)
  have "(n AND (n - 1) = 0) = (\<exists>k. n = 2 ^ k)"
    using and_pred_zero [OF m(2)] unfolding m(1) by (metis of_nat_eq_iff of_nat_numeral of_nat_power)
  then show "isPowerOf2 n = Some (\<exists>k. n = 2 ^ k)" using assms n by (simp add: isPowerOf2_def)
qed (simp add: isPowerOf2_def)

end
