(* ===== verification/Test_Scheduler.thy ===== *)
theory Test_Scheduler
  imports Prelude
begin

text \<open>
  The coroutine scheduler at the beginning of example_test.cpp (the rest of the file is a client that does not compile).
  Every coroutine has a stack of its own, so what it does from one point on is a function of a continuation:
  \<open>behave k\<close> is the continuation at the next call of \<open>coroutine_yield\<close>, or \<open>None\<close> when the function returns.
  The functions are called from the main context, and a coroutine only yields.  \<open>trace\<close> records
  which pieces have run.
\<close>

section \<open>The code\<close>

definition MAX_COROUTINE_SIZE :: nat where "MAX_COROUTINE_SIZE = 1024"

datatype CoroutineState = FREE | RUNNABLE | RUNNING | SUSPEND

text \<open>\<open>ctx\<close> is what runs when the context is switched to.\<close>

record 'k Coroutine_t =
  ctx :: "'k option"
  state :: CoroutineState

record 'k Schedule_t =
  running_coroutine :: int
  coroutines :: "'k Coroutine_t list"
  max_index :: nat
  trace :: "(nat \<times> 'k) list"

definition Schedule_init :: "'k Schedule_t" where
  "Schedule_init = \<lparr>running_coroutine = - 1,
     coroutines = replicate MAX_COROUTINE_SIZE \<lparr>ctx = None, state = FREE\<rparr>, max_index = 0, trace = []\<rparr>"

definition upd_co :: "'k Schedule_t \<Rightarrow> int \<Rightarrow> ('k Coroutine_t \<Rightarrow> 'k Coroutine_t) \<Rightarrow> 'k Schedule_t option" where
  "upd_co S i f = do { t \<leftarrow> rdi (coroutines S) i; cs \<leftarrow> wri (coroutines S) i (f t); Some (S\<lparr>coroutines := cs\<rparr>) }"

text \<open>What a call of \<open>coroutine_yield\<close> does before it switches; the flag tells whether it switches to the main context.\<close>

definition coroutine_yield :: "'k \<Rightarrow> 'k Schedule_t \<Rightarrow> (bool \<times> 'k Schedule_t) option" where
  "coroutine_yield k S =
     (if running_coroutine S \<noteq> - 1
      then do { S1 \<leftarrow> upd_co S (running_coroutine S) (\<lambda>t. t\<lparr>state := SUSPEND, ctx := Some k\<rparr>);
                Some (True, S1\<lparr>running_coroutine := - 1\<rparr>) }
      else Some (False, S))"

text \<open>\<open>coroute_body\<close> from the continuation \<open>k\<close> of coroutine \<open>i\<close> on, until the main context runs again.\<close>

partial_function (option) run_co :: "('k \<Rightarrow> 'k option) \<Rightarrow> nat \<Rightarrow> 'k \<Rightarrow> 'k Schedule_t \<Rightarrow> 'k Schedule_t option" where
  "run_co behave i k S0 =
     (let S = S0\<lparr>trace := trace S0 @ [(i, k)]\<rparr> in
      case behave k of
        None \<Rightarrow> do { S1 \<leftarrow> upd_co S (int i) (\<lambda>t. t\<lparr>state := FREE\<rparr>); Some (S1\<lparr>running_coroutine := - 1\<rparr>) }
      | Some k1 \<Rightarrow> do { (switched, S1) \<leftarrow> coroutine_yield k1 S;
                        if switched then Some S1 else run_co behave i k1 S1 })"

fun find_free :: "'k Coroutine_t list \<Rightarrow> nat \<Rightarrow> nat" where
  "find_free [] n = 0"
| "find_free (t # ts) 0 = 0"
| "find_free (t # ts) (Suc n) = (if state t = FREE then 0 else Suc (find_free ts n))"

definition coroutine_create :: "('k \<Rightarrow> 'k option) \<Rightarrow> 'k \<Rightarrow> 'k Schedule_t \<Rightarrow> (nat \<times> 'k Schedule_t) option" where
  "coroutine_create behave k S = do {
     let i = find_free (coroutines S) (max_index S);
     let S = (if i = max_index S then S\<lparr>max_index := max_index S + 1\<rparr> else S);
     S \<leftarrow> upd_co S (int i) (\<lambda>t. t\<lparr>state := RUNNABLE, ctx := Some k\<rparr>);
     S \<leftarrow> run_co behave i k (S\<lparr>running_coroutine := int i\<rparr>);
     Some (i, S) }"

text \<open>
  The case \<open>RUNNABLE\<close> would overwrite the context of a coroutine that has not returned to the main context yet;
  it does not occur.
\<close>

definition coroutine_resume :: "('k \<Rightarrow> 'k option) \<Rightarrow> int \<Rightarrow> 'k Schedule_t \<Rightarrow> 'k Schedule_t option" where
  "coroutine_resume behave i S =
     (if i < 0 \<or> i \<ge> int (max_index S) then Some S
      else do {
        t \<leftarrow> rdi (coroutines S) i;
        (case state t of
           RUNNABLE \<Rightarrow> None
         | SUSPEND \<Rightarrow> do { k \<leftarrow> ctx t; run_co behave (nat i) k S }
         | _ \<Rightarrow> Some S) })"

definition schedule_finished :: "'k Schedule_t \<Rightarrow> bool option" where
  "schedule_finished S =
     (if running_coroutine S \<noteq> - 1 then Some False
      else if max_index S \<le> length (coroutines S)
      then Some (list_all (\<lambda>t. state t = FREE) (take (max_index S) (coroutines S)))
      else None)"

section \<open>What it does\<close>

text \<open>The pieces of a coroutine from \<open>k\<close> on, if it ends.\<close>

inductive pieces :: "('k \<Rightarrow> 'k option) \<Rightarrow> 'k \<Rightarrow> 'k list \<Rightarrow> bool" for behave where
  last_piece: "behave k = None \<Longrightarrow> pieces behave k [k]"
| more_pieces: "behave k = Some k1 \<Longrightarrow> pieces behave k1 ks \<Longrightarrow> pieces behave k (k # ks)"

text \<open>In the main context no coroutine counts as running, and one below \<open>max_index\<close> is free or suspended.\<close>

definition main_ok :: "'k Schedule_t \<Rightarrow> bool" where
  "main_ok S \<longleftrightarrow> running_coroutine S = - 1 \<and> length (coroutines S) = MAX_COROUTINE_SIZE \<and> max_index S \<le> MAX_COROUTINE_SIZE
     \<and> (\<forall>i < max_index S. state (coroutines S ! i) = FREE
          \<or> state (coroutines S ! i) = SUSPEND \<and> ctx (coroutines S ! i) \<noteq> None)"

lemma find_free_spec:
  "n \<le> length ts \<Longrightarrow> find_free ts n \<le> n \<and> (find_free ts n < n \<longrightarrow> state (ts ! find_free ts n) = FREE)"
  by (induction ts n rule: find_free.induct) auto

text \<open>Once resumed, a coroutine is not counted as running: its further yields do nothing.\<close>

lemma run_not_counted:
  assumes "pieces behave k ks"
  shows "running_coroutine S = - 1 \<Longrightarrow> i < length (coroutines S) \<Longrightarrow>
    run_co behave i k S = Some (S\<lparr>trace := trace S @ map (Pair i) ks,
      coroutines := (coroutines S)[i := (coroutines S ! i)\<lparr>state := FREE\<rparr>]\<rparr>)"
  using assms
proof (induction arbitrary: S)
  case (last_piece k)
  then show ?case by (subst run_co.simps) (simp add: upd_co_def)
next
  case (more_pieces k k1 ks)
  then show ?case by (subst run_co.simps) (simp add: coroutine_yield_def)
qed

lemma run_endless:
  assumes "run_co behave i k S = Some S'" "running_coroutine S = - 1"
  shows "\<exists>ks. pieces behave k ks"
proof -
  have "running_coroutine S = - 1 \<longrightarrow> (\<exists>ks. pieces behave k ks)"
  proof (rule run_co.raw_induct [OF _ assms(1)])
    fix run_co behave i k S0 S'
    assume IH: "\<And>behave i k S0 S'. run_co behave i k S0 = Some S' \<Longrightarrow> running_coroutine S0 = - 1 \<longrightarrow> (\<exists>ks. pieces behave k ks)"
      and run: "(let S = S0\<lparr>trace := trace S0 @ [(i, k)]\<rparr> in
      case behave k of
        None \<Rightarrow> do { S1 \<leftarrow> upd_co S (int i) (\<lambda>t. t\<lparr>state := FREE\<rparr>); Some (S1\<lparr>running_coroutine := - 1\<rparr>) }
      | Some k1 \<Rightarrow> do { (switched, S1) \<leftarrow> coroutine_yield k1 S;
                        if switched then Some S1 else run_co behave i k1 S1 }) = Some S'"
    show "running_coroutine S0 = - 1 \<longrightarrow> (\<exists>ks. pieces behave k ks)"
    proof
      assume r: "running_coroutine S0 = - 1"
      show "\<exists>ks. pieces behave k ks"
      proof (cases "behave k")
        case None
        then show ?thesis by (blast intro: last_piece)
      next
        case (Some k1)
        then have "run_co behave i k1 (S0\<lparr>trace := trace S0 @ [(i, k)]\<rparr>) = Some S'"
          using run r by (simp add: coroutine_yield_def)
        then obtain ks where "pieces behave k1 ks" using IH r by fastforce
        then show ?thesis using Some by (blast intro: more_pieces)
      qed
    qed
  qed
  then show ?thesis using assms by blast
qed

text \<open>
  Only the first yield of a coroutine works.  \<open>coroutine_create\<close> runs the first piece and leaves the
  coroutine suspended, or free when it has returned; \<open>coroutine_resume\<close> on a suspended one runs
  all its remaining pieces at once, because it does not set \<open>running_coroutine\<close>, and does not return when there is no last one.
\<close>

theorem only_first_yield_works:
  assumes S: "main_ok S"
  shows "find_free (coroutines S) (max_index S) < MAX_COROUTINE_SIZE \<Longrightarrow>
      \<exists>S'. coroutine_create behave k S = Some (find_free (coroutines S) (max_index S), S') \<and> main_ok S'
        \<and> trace S' = trace S @ [(find_free (coroutines S) (max_index S), k)]"
    and "find_free (coroutines S) (max_index S) = MAX_COROUTINE_SIZE \<Longrightarrow> coroutine_create behave k S = None"
    and "i < max_index S \<Longrightarrow> state (coroutines S ! i) = SUSPEND \<Longrightarrow> ctx (coroutines S ! i) = Some k1 \<Longrightarrow> pieces behave k1 ks \<Longrightarrow>
      \<exists>S'. coroutine_resume behave (int i) S = Some S' \<and> main_ok S' \<and> state (coroutines S' ! i) = FREE
        \<and> trace S' = trace S @ map (Pair i) ks"
    and "i < max_index S \<Longrightarrow> state (coroutines S ! i) = SUSPEND \<Longrightarrow> ctx (coroutines S ! i) = Some k1 \<Longrightarrow> \<nexists>ks. pieces behave k1 ks \<Longrightarrow>
      coroutine_resume behave (int i) S = None"
proof -
  let ?i = "find_free (coroutines S) (max_index S)"
  have s: "running_coroutine S = - 1" "length (coroutines S) = MAX_COROUTINE_SIZE" "max_index S \<le> MAX_COROUTINE_SIZE"
    "\<And>j. j < max_index S \<Longrightarrow> state (coroutines S ! j) = FREE
          \<or> state (coroutines S ! j) = SUSPEND \<and> ctx (coroutines S ! j) \<noteq> None"
    using S by (auto simp: main_ok_def)
  have f: "?i \<le> max_index S" using find_free_spec [of "max_index S" "coroutines S"] s by simp
  {
    assume lt: "?i < MAX_COROUTINE_SIZE"
    define t where "t = (case behave k of None \<Rightarrow> (coroutines S ! ?i)\<lparr>ctx := Some k, state := FREE\<rparr>
        | Some k1 \<Rightarrow> (coroutines S ! ?i)\<lparr>state := SUSPEND, ctx := Some k1\<rparr>)"
    define S' where "S' = (if ?i = max_index S then S\<lparr>max_index := max_index S + 1\<rparr> else S)
      \<lparr>trace := trace S @ [(?i, k)], coroutines := (coroutines S)[?i := t], running_coroutine := - 1\<rparr>"
    have run: "coroutine_create behave k S = Some (?i, S')"
      unfolding coroutine_create_def S'_def
      using lt s(1,2) by (subst run_co.simps) (auto simp: upd_co_def coroutine_yield_def t_def Let_def split: option.splits)
    have "state (coroutines S' ! j) = FREE \<or> state (coroutines S' ! j) = SUSPEND \<and> ctx (coroutines S' ! j) \<noteq> None"
      if j: "j < max_index S'" for j
    proof (cases "j = ?i")
      case True
      then show ?thesis using lt s(2) by (auto simp: S'_def t_def split: option.splits)
    next
      case False
      then have "j < max_index S" using j by (auto simp: S'_def split: if_splits)
      then show ?thesis using s(4) [of j] False by (simp add: S'_def)
    qed
    then have "main_ok S'" using s lt f by (auto simp: main_ok_def S'_def)
    then show "\<exists>S'. coroutine_create behave k S = Some (?i, S') \<and> main_ok S' \<and> trace S' = trace S @ [(?i, k)]"
      using run by (auto simp: S'_def)
  }
  show "?i = MAX_COROUTINE_SIZE \<Longrightarrow> coroutine_create behave k S = None"
    using s(2) by (simp add: coroutine_create_def upd_co_def rdi_def)
  assume i: "i < max_index S" "state (coroutines S ! i) = SUSPEND" "ctx (coroutines S ! i) = Some k1"
  then have il: "i < length (coroutines S)" using s by simp
  have res: "coroutine_resume behave (int i) S = run_co behave i k1 S"
    using i il by (simp add: coroutine_resume_def)
  show "\<exists>S'. coroutine_resume behave (int i) S = Some S' \<and> main_ok S' \<and> state (coroutines S' ! i) = FREE
        \<and> trace S' = trace S @ map (Pair i) ks" if "pieces behave k1 ks"
  proof -
    let ?S = "S\<lparr>trace := trace S @ map (Pair i) ks, coroutines := (coroutines S)[i := (coroutines S ! i)\<lparr>state := FREE\<rparr>]\<rparr>"
    have "main_ok ?S" using S il by (auto simp: main_ok_def nth_list_update)
    moreover have "run_co behave i k1 S = Some ?S" by (rule run_not_counted [OF that s(1) il])
    ultimately show ?thesis unfolding res using il by auto
  qed
  show "coroutine_resume behave (int i) S = None" if "\<nexists>ks. pieces behave k1 ks"
    unfolding res using run_endless [OF _ s(1), of behave i k1] that by (cases "run_co behave i k1 S") auto
qed

declare run_co.simps [code]

end
