(* ===== verification/Sq_Press.thy ===== *)
theory Sq_Press
  imports Sq_Registry
begin

text \<open>
  The load test \<open>press_test\<close> at the end of shm_queue.c, a client of the message queue: it puts messages until the
  queue refuses one, gets until the queue is empty, and repeats this until all are put.  The static
  array \<open>m\<close> is both what is sent and where it is received.  \<open>env n\<close> is the environment while \<open>n\<close>
  messages have been put.  The two counters are \<open>int\<close>s, and the first one is compared with the unsigned
  \<open>record_count\<close>.  A run has three outcomes: \<open>None\<close> when the loops never end, \<open>Some None\<close> when a counter
  overflows, which C does not define, or when a call of the queue has no defined result, and \<open>Some (Some r)\<close>.
\<close>

section \<open>The code\<close>

partial_function (option) press_put :: "(int \<Rightarrow> sq_env) \<Rightarrow> 8 word list \<Rightarrow> 32 word \<Rightarrow> 32 word \<Rightarrow> int \<Rightarrow> shm_queue
    \<Rightarrow> (shm_queue \<times> int) option option" where
  "press_put env m record_count record_size put_count sq =
     (if word_of_int put_count < record_count
      then (case sq_put (env put_count) sq (Some m) (sint record_size) of
              None \<Rightarrow> Some None
            | Some (sq, r, sent) \<Rightarrow>
                if r = 0
                then (case i32 (put_count + 1) of
                        None \<Rightarrow> Some None
                      | Some put_count \<Rightarrow> press_put env m record_count record_size put_count sq)
                else Some (Some (sq, put_count)))
      else Some (Some (sq, put_count)))"

partial_function (option) press_get :: "8 word list \<Rightarrow> 32 word \<times> 32 word \<Rightarrow> int \<Rightarrow> shm_queue
    \<Rightarrow> (shm_queue \<times> 8 word list \<times> (32 word \<times> 32 word) \<times> int) option option" where
  "press_get m tv get_count sq =
     (case sq_get sq (Some m) (int (length m)) tv of
        None \<Rightarrow> Some None
      | Some (sq, r, m, tv) \<Rightarrow>
          if r > 0
          then (case i32 (get_count + 1) of
                  None \<Rightarrow> Some None
                | Some get_count \<Rightarrow> press_get m tv get_count sq)
          else Some (Some (sq, m, tv, get_count)))"

text \<open>The result ends with the two numbers that are printed.\<close>

partial_function (option) press_loop :: "(int \<Rightarrow> sq_env) \<Rightarrow> 32 word \<Rightarrow> 32 word \<Rightarrow> 8 word list \<Rightarrow> 32 word \<times> 32 word \<Rightarrow> int \<Rightarrow> int
    \<Rightarrow> shm_queue \<Rightarrow> (shm_queue \<times> 8 word list \<times> int \<times> int) option option" where
  "press_loop env record_count record_size m tv put_count get_count sq =
     (if word_of_int put_count < record_count
      then do { p \<leftarrow> press_put env m record_count record_size put_count sq;
                case p of
                  None \<Rightarrow> Some None
                | Some (sq, put_count) \<Rightarrow>
                    do { g \<leftarrow> press_get m tv get_count sq;
                         case g of
                           None \<Rightarrow> Some None
                         | Some (sq, m, tv, get_count) \<Rightarrow> press_loop env record_count record_size m tv put_count get_count sq } }
      else Some (Some (sq, m, put_count, get_count)))"

definition press_test :: "(int \<Rightarrow> sq_env) \<Rightarrow> 8 word list \<Rightarrow> 32 word \<times> 32 word \<Rightarrow> shm_queue \<Rightarrow> 32 word \<Rightarrow> 32 word
    \<Rightarrow> (shm_queue \<times> 8 word list \<times> int \<times> int) option option" where
  "press_test env m tv sq record_count record_size = press_loop env record_count record_size m tv 0 0 sq"

section \<open>One round\<close>

text \<open>Only the first \<open>n\<close> bytes of the array are sent.\<close>

lemma put_loop_take:
  assumes "n \<le> length m"
  shows "put_loop env q m (int n) = put_loop env q (take n m) (int n)"
proof -
  have "write_node env x p m (int n) = write_node env x p (take n m) (int n)" for x p
    using assms by (simp add: write_node_def write_body_def)
  moreover have "CAS32 (tail_pos q) (tail_pos q) t = (t, True)" for t by (simp add: CAS32_def)
  ultimately show ?thesis by (subst (1 2) put_loop.simps) (simp add: Let_def cong: if_cong)
qed

lemma sq_put_take: "n \<le> length m \<Longrightarrow> sq_put env sq (Some m) (int n) = sq_put env sq (Some (take n m)) (int n)"
  by (simp add: sq_put_def put_loop_take [of n m])

text \<open>The queue holds \<open>k\<close> copies of the record.\<close>

definition pressed :: "sq_head_t \<Rightarrow> 8 word list \<Rightarrow> nat \<Rightarrow> shm_queue \<Rightarrow> item list \<Rightarrow> bool" where
  "pressed q d k sq its \<longleftrightarrow> sq_layout (head sq) its \<and> messages its = replicate k d \<and> sig_inv sq
     \<and> NN (head sq) = NN q \<and> NS (head sq) = NS q \<and> ele_count (head sq) = ele_count q"

lemma pressed_put:
  assumes p: "pressed q d k sq its" and d: "0 < length d" "length d \<le> 65536" and e: "clock_ok env"
  shows "if sq_room (head sq) (need (NS q) (length d))
    then \<exists>sq' sent its'. sq_put env sq (Some d) (int (length d)) = Some (sq', 0, sent) \<and> pressed q d (Suc k) sq' its'
    else sq_put env sq (Some d) (int (length d)) = Some (sq, - 2, [])"
proof -
  note P = p [unfolded pressed_def]
  show ?thesis
  proof (cases "sq_room (head sq) (need (NS q) (length d))")
    case True
    then have r: "sq_room (head sq) (need (NS (head sq)) (length d))" using P by simp
    obtain sq' sent its' where s: "sq_put env sq (Some d) (int (length d)) = Some (sq', 0, sent)" "sig_inv sq'"
      "sq_layout (head sq') its'" "NN (head sq') = NN (head sq)" "ele_count (head sq') = ele_count (head sq)"
      "NS (head sq') = NS (head sq)" "messages its' = messages its @ [d]"
      using sq_put_room [OF _ d r _ e, of its] P by (auto split: if_splits)
    moreover have "replicate k d @ [d] = replicate (Suc k) d" by (simp add: replicate_append_same)
    ultimately show ?thesis using True P unfolding pressed_def by auto
  next
    case False
    then show ?thesis using sq_put_full [of sq its d env] P d by simp
  qed
qed

lemma count_less: "n < 2 ^ 31 \<Longrightarrow> (word_of_int (int n) :: 32 word) < c \<longleftrightarrow> n < unat c"
  by (simp add: word_less_nat_alt unsigned_of_nat take_bit_nat_eq_self)

lemma press_put_spec:
  fixes rs :: "32 word"
  assumes n: "0 < n" "n \<le> 65536" "n \<le> length m" and rs: "sint rs = int n" and e: "\<And>i. clock_ok (env i)"
  shows "pressed q (take n m) k sq its \<Longrightarrow> pc \<le> unat cnt \<Longrightarrow> pc < 2 ^ 31 \<Longrightarrow>
    press_put env m cnt rs (int pc) sq = Some None \<and> 2 ^ 31 \<le> unat cnt
    \<or> (\<exists>j sq' its'. press_put env m cnt rs (int pc) sq = Some (Some (sq', int (pc + j)))
      \<and> pressed q (take n m) (k + j) sq' its' \<and> pc + j \<le> unat cnt \<and> pc + j < 2 ^ 31
      \<and> (pc < unat cnt \<longrightarrow> sq_room (head sq) (need (NS q) n) \<longrightarrow> 0 < j))"
proof (induction "unat cnt - pc" arbitrary: pc k sq its)
  case 0
  then have "press_put env m cnt rs (int pc) sq = Some (Some (sq, int pc))"
    using count_less [of pc cnt] by (simp add: press_put.simps)
  then show ?case using 0 by (intro disjI2 exI [of _ 0] exI [of _ sq] exI [of _ its]) simp
next
  case (Suc c)
  have d: "0 < length (take n m)" "length (take n m) \<le> 65536" "length (take n m) = n" using n by simp_all
  have s: "sq_put (env (int pc)) sq (Some m) (sint rs) = sq_put (env (int pc)) sq (Some (take n m)) (int (length (take n m)))"
    unfolding d(3) rs by (rule sq_put_take [OF n(3)])
  have pc: "pc < unat cnt" using Suc.hyps(2) by simp
  then have go: "word_of_int (int pc) < cnt" using count_less [OF Suc.prems(3), of cnt] by blast
  note pp = pressed_put [OF Suc.prems(1) d(1,2) e [of "int pc"], unfolded d(3)]
  note step = press_put.simps [of _ _ _ _ "int pc"]
  show ?case
  proof (cases "sq_room (head sq) (need (NS q) n)")
    case True
    then obtain sq1 sent its1 where s1: "sq_put (env (int pc)) sq (Some (take n m)) (int n) = Some (sq1, 0, sent)"
      "pressed q (take n m) (Suc k) sq1 its1"
      using pp by auto
    show ?thesis
    proof (cases "Suc pc < 2 ^ 31")
      case False
      then have "i32 (int pc + 1) = None" by (simp add: i32_def)
      moreover have "2 ^ 31 \<le> unat cnt" using False pc by simp
      ultimately show ?thesis using go s s1(1) d(3) by (simp add: step)
    next
      case in_range: True
      then have inc: "i32 (int pc + 1) = Some (int (Suc pc))" by simp
      have "c = unat cnt - Suc pc" "Suc pc \<le> unat cnt" using Suc.hyps(2) by simp_all
      note IH = Suc.hyps(1) [OF this(1) s1(2) this(2) in_range]
      have eq: "press_put env m cnt rs (int pc) sq = press_put env m cnt rs (int (Suc pc)) sq1"
        using go s s1(1) d(3) inc by (simp add: step)
      from IH show ?thesis
      proof (elim disjE exE conjE)
        fix j sq' its'
        assume "press_put env m cnt rs (int (Suc pc)) sq1 = Some (Some (sq', int (Suc pc + j)))"
          "pressed q (take n m) (Suc k + j) sq' its'" "Suc pc + j \<le> unat cnt" "Suc pc + j < 2 ^ 31"
        then show ?thesis unfolding eq by (intro disjI2 exI [of _ "Suc j"] exI [of _ sq'] exI [of _ its']) simp
      qed (simp add: eq)
    qed
  next
    case False
    then have "press_put env m cnt rs (int pc) sq = Some (Some (sq, int pc))" using go s pp d(3) by (simp add: step)
    then show ?thesis using Suc.prems False by (intro disjI2 exI [of _ 0] exI [of _ sq] exI [of _ its]) simp
  qed
qed

lemma pressed_frame: "sq_frame sq sq' \<Longrightarrow> pressed q d k sq its \<Longrightarrow> sq_layout (head sq') its' \<Longrightarrow> messages its' = replicate k' d
    \<Longrightarrow> pressed q d k' sq' its'"
  using sig_inv_frame [of sq sq'] by (auto simp: pressed_def sq_frame_def NN_def NS_def)

lemma press_get_spec:
  assumes n: "n \<le> length m"
  shows "pressed q (take n m) k sq its \<Longrightarrow> m \<noteq> [] \<Longrightarrow> gc + k < 2 ^ 31 \<Longrightarrow>
    \<exists>sq' tv'. press_get m tv (int gc) sq = Some (Some (sq', m, tv', int (gc + k))) \<and> pressed q (take n m) 0 sq' []"
proof (induction k arbitrary: sq its tv gc)
  case 0
  obtain sq' where s: "sq_get sq (Some m) (int (length m)) tv = Some (sq', 0, m, tv)" "sq_frame sq sq'" "sq_layout (head sq') []"
    using sq_get_empty [of sq its m tv] 0 by (auto simp: pressed_def)
  then show ?case using pressed_frame [OF s(2) 0(1) s(3), of 0] by (simp add: press_get.simps)
next
  case (Suc k)
  then obtain sq1 its1 tm1 where s: "sq_get sq (Some m) (int (length m)) tv = Some (sq1, int n, m, tm1)" "sq_frame sq sq1"
    "sq_layout (head sq1) its1" "messages its1 = replicate k (take n m)" "0 < n"
    using sq_get_message [of sq its "take n m" "replicate k (take n m)" m tv] n by (auto simp: pressed_def)
  have inc: "i32 (int gc + 1) = Some (int (Suc gc))" "Suc gc + k < 2 ^ 31" using Suc.prems(3) by simp_all
  obtain sq' tv' where "press_get m tm1 (int (Suc gc)) sq1 = Some (Some (sq', m, tv', int (Suc gc + k)))" "pressed q (take n m) 0 sq' []"
    using Suc.IH [OF pressed_frame [OF s(2) Suc.prems(1) s(3,4)] Suc.prems(2) inc(2)] by blast
  then show ?case using s inc(1) by (simp add: press_get.simps [of m tv])
qed

text \<open>When nothing is queued, half of the nodes are in one piece.\<close>

lemma pressed_idle_room:
  assumes "pressed q d 0 sq []" "need (NS q) n + 100 \<le> nat (ele_count q)" "2 * need (NS q) n \<le> nat (ele_count q)"
  shows "sq_room (head sq) (need (NS q) n)"
proof -
  have l: "sq_layout (head sq) []" and ec: "ele_count (head sq) = ele_count q" using assms(1) by (simp_all add: pressed_def)
  have "sq_used (head sq) = 0" using sq_layout_pos(3) [OF l] by simp
  moreover have "nat (tail_pos (head sq)) = nat (head_pos (head sq))" "int (NN (head sq)) = ele_count q + 1"
    using l sq_geometryD(4,9) [of "head sq"] ec by (auto simp: sq_layout_def)
  ultimately show ?thesis using assms(2,3) ec by (simp add: sq_room_def) linarith
qed

section \<open>The whole test\<close>

lemma press_loop_ends:
  fixes rs :: "32 word"
  assumes n: "0 < n" "n \<le> 65536" "n \<le> length m" and rs: "sint rs = int n" and e: "\<And>i. clock_ok (env i)"
    and fit: "need (NS q) n + 100 \<le> nat (ele_count q)" "2 * need (NS q) n \<le> nat (ele_count q)"
  shows "pressed q (take n m) 0 sq [] \<Longrightarrow> pc \<le> unat cnt \<Longrightarrow> pc < 2 ^ 31 \<Longrightarrow>
    press_loop env cnt rs m tv (int pc) (int pc) sq = Some None \<and> 2 ^ 31 \<le> unat cnt
    \<or> (\<exists>sq'. press_loop env cnt rs m tv (int pc) (int pc) sq = Some (Some (sq', m, uint cnt, uint cnt))
      \<and> pressed q (take n m) 0 sq' [] \<and> unat cnt < 2 ^ 31)"
proof (induction "unat cnt - pc" arbitrary: pc sq tv rule: less_induct)
  case less
  note step = press_loop.simps [of _ _ _ _ _ "int pc"]
  show ?case
  proof (cases "pc < unat cnt")
    case True
    then have go: "word_of_int (int pc) < cnt" using count_less [OF less.prems(3), of cnt] by blast
    have room: "sq_room (head sq) (need (NS q) n)" by (rule pressed_idle_room [OF less.prems(1) fit])
    have "press_put env m cnt rs (int pc) sq = Some None \<and> 2 ^ 31 \<le> unat cnt
      \<or> (\<exists>j sq1 its1. press_put env m cnt rs (int pc) sq = Some (Some (sq1, int (pc + j)))
        \<and> pressed q (take n m) (0 + j) sq1 its1 \<and> pc + j \<le> unat cnt \<and> pc + j < 2 ^ 31
        \<and> (pc < unat cnt \<longrightarrow> sq_room (head sq) (need (NS q) n) \<longrightarrow> 0 < j))"
      by (rule press_put_spec [OF n rs _ less.prems]) (rule e)
    then consider "press_put env m cnt rs (int pc) sq = Some None" "2 ^ 31 \<le> unat cnt"
      | j sq1 its1 where "press_put env m cnt rs (int pc) sq = Some (Some (sq1, int (pc + j)))"
        "pressed q (take n m) j sq1 its1" "pc + j \<le> unat cnt" "pc + j < 2 ^ 31" "0 < j"
      using True room unfolding add_0 by blast
    then show ?thesis
    proof cases
      case 1
      then show ?thesis using go by (simp add: step)
    next
      case (2 j sq1 its1)
      have "m \<noteq> []" using n by auto
      then obtain sq2 tv2 where g: "press_get m tv (int pc) sq1 = Some (Some (sq2, m, tv2, int (pc + j)))" "pressed q (take n m) 0 sq2 []"
        using press_get_spec [OF n(3) 2(2) _ 2(4)] by blast
      have eq: "press_loop env cnt rs m tv (int pc) (int pc) sq = press_loop env cnt rs m tv2 (int (pc + j)) (int (pc + j)) sq2"
        using go 2(1) g(1) by (simp add: step)
      have "unat cnt - (pc + j) < unat cnt - pc" using 2(5) True by simp
      from less.hyps [OF this g(2) 2(3,4), of tv2] show ?thesis unfolding eq .
    qed
  next
    case False
    then have "pc = unat cnt" using less.prems(2) by simp
    moreover have "press_loop env cnt rs m tv (int pc) (int pc) sq = Some (Some (sq, m, int pc, int pc))"
      using False count_less [OF less.prems(3), of cnt] by (simp add: step)
    ultimately show ?thesis using less.prems by auto
  qed
qed

text \<open>A record that the empty queue refuses keeps the loop going.\<close>

lemma press_loop_stuck:
  fixes rs :: "32 word"
  assumes n: "n \<le> length m" "m \<noteq> []" and c: "word_of_int pc < cnt" and gc: "0 \<le> gc" "gc < 2 ^ 31"
    and refuse: "\<And>sq. pressed q (take n m) 0 sq [] \<Longrightarrow> \<exists>r. sq_put (env pc) sq (Some m) (sint rs) = Some (sq, r, []) \<and> r \<noteq> 0"
    and p: "pressed q (take n m) 0 sq []"
  shows "press_loop env cnt rs m tv pc gc sq = None"
proof (rule ccontr)
  let ?stuck = "\<lambda>env cnt rs m pc gc sq. n \<le> length m \<and> m \<noteq> [] \<and> word_of_int pc < cnt \<and> 0 \<le> gc \<and> gc < 2 ^ 31 \<and> pressed q (take n m) 0 sq [] \<and>
    (\<forall>sq. pressed q (take n m) 0 sq [] \<longrightarrow> (\<exists>r. sq_put (env pc) sq (Some m) (sint rs) = Some (sq, r, []) \<and> r \<noteq> 0))"
  have "\<not> ?stuck env cnt rs m pc gc sq" if "press_loop env cnt rs m tv pc gc sq = Some y" for env cnt rs m tv pc gc sq y
  proof (rule press_loop.raw_induct [OF _ that])
    fix loop env cnt rs m tv pc gc sq y
    assume IH: "\<And>env cnt rs m tv pc gc sq y. loop env cnt rs m tv pc gc sq = Some y \<Longrightarrow> \<not> ?stuck env cnt rs m pc gc sq"
      and run: "(if word_of_int pc < cnt
        then do { p \<leftarrow> press_put env m cnt rs pc sq;
                  case p of
                    None \<Rightarrow> Some None
                  | Some (sq, pc) \<Rightarrow>
                      do { g \<leftarrow> press_get m tv gc sq;
                           case g of
                             None \<Rightarrow> Some None
                           | Some (sq, m, tv, gc) \<Rightarrow> loop env cnt rs m tv pc gc sq } }
        else Some (Some (sq, m, pc, gc))) = Some y"
    show "\<not> ?stuck env cnt rs m pc gc sq"
    proof
      assume st: "?stuck env cnt rs m pc gc sq"
      then obtain r where r: "sq_put (env pc) sq (Some m) (sint rs) = Some (sq, r, [])" "r \<noteq> 0" by blast
      then have "press_put env m cnt rs pc sq = Some (Some (sq, pc))"
        using st by (subst press_put.simps) simp
      moreover have gc: "int (nat gc) = gc" "nat gc + 0 < 2 ^ 31" using st by auto
      moreover obtain sq2 tv2 where g: "press_get m tv gc sq = Some (Some (sq2, m, tv2, gc))" "pressed q (take n m) 0 sq2 []"
        using press_get_spec [of n m q 0 sq "[]" "nat gc" tv, unfolded gc(1)] st gc(2) by auto
      ultimately have "loop env cnt rs m tv2 pc gc sq2 = Some y" using run st by simp
      from IH [OF this] st g(2) show False by blast
    qed
  qed
  moreover assume "press_loop env cnt rs m tv pc gc sq \<noteq> None"
  ultimately show False using assms by blast
qed

lemma sint_small: "unat (w :: 32 word) < 2 ^ 31 \<Longrightarrow> sint w = int (unat w)"
proof -
  assume "unat w < 2 ^ 31"
  then have "signed_take_bit 31 (uint w) = uint w"
    unfolding signed_take_bit_int_eq_self_iff using of_nat_less_iff [of "unat w" "2 ^ 31", where ?'a = int] by (simp add: order_trans [OF _ uint_ge_0])
  then show ?thesis by (simp add: sint_uint)
qed

lemma sint_refused:
  fixes w :: "32 word"
  assumes "unat w = 0 \<or> 65536 < unat w"
  shows "sint w \<le> 0 \<or> 65536 < sint w"
proof (rule ccontr)
  assume n: "\<not> ?thesis"
  have "uint w = take_bit 32 (sint w)" using uint_word_of_int_eq [of "sint w", where ?'a = 32] by simp
  also have "\<dots> = sint w" using n by (simp add: take_bit_int_eq_self)
  finally have "uint w = sint w" .
  then have "int (unat w) = sint w" by (simp only: of_nat_unat)
  then show False using n assms by linarith
qed

text \<open>
  C12: the load test of the message queue.  On a queue with nothing in it, and with records that need at
  most half of the nodes and leave the reserve of 100, \<open>press_test\<close> with fewer than \<open>2 ^ 31\<close> records gets as many records as it put, all of them,
  and leaves the queue empty and the array as it was; with \<open>2 ^ 31\<close> records or more it overflows its counter \<open>put_count\<close>, which is
  undefined.  Its loops never end when there is something to put and the record is
  empty, longer than 65536 bytes, or so long that the reserve is not left.
\<close>

theorem press_test_ends:
  fixes record_count record_size :: "32 word"
  assumes q: "sqm_holds sq []" "head_pos (head sq) = tail_pos (head sq)" and m: "length m = 1024 * 1024"
    and e: "\<And>i. clock_ok (env i)"
  shows "(0 < record_size \<and> record_size \<le> 65536 \<and> need (NS (head sq)) (unat record_size) + 100 \<le> nat (ele_count (head sq))
        \<and> 2 * need (NS (head sq)) (unat record_size) \<le> nat (ele_count (head sq)) \<longrightarrow>
      (if record_count < 2 ^ 31
       then \<exists>sq'. press_test env m tv sq record_count record_size = Some (Some (sq', m, uint record_count, uint record_count)) \<and> sqm_holds sq' []
       else press_test env m tv sq record_count record_size = Some None))
    \<and> (0 < record_count \<and> (record_size = 0 \<or> 65536 < record_size
          \<or> nat (ele_count (head sq)) < need (NS (head sq)) (unat record_size) + 100) \<longrightarrow>
      press_test env m tv sq record_count record_size = None)"
proof -
  let ?q = "head sq" and ?n = "unat record_size"
  obtain its where its: "sq_layout ?q its" "messages its = []" "sig_inv sq" using q(1) by (auto simp: sqm_holds_def)
  have "sq_used ?q = 0" using q(2) by (simp add: sq_used_def)
  then have "cells (NS ?q) its = 0" using sq_layout_pos(3) [OF its(1)] by simp
  then have "its = []" using its(2) by (cases its rule: messages.cases) simp_all
  then have p: "pressed ?q (take n m) 0 sq []" for n using its by (simp add: pressed_def)
  have ne: "m \<noteq> []" using m by auto
  have cnt: "record_count < 2 ^ 31 \<longleftrightarrow> unat record_count < 2 ^ 31" by (simp add: word_less_nat_alt)
  have pos: "0 < record_size \<longleftrightarrow> 0 < ?n" "record_size = 0 \<longleftrightarrow> ?n = 0" "record_size \<le> 65536 \<longleftrightarrow> ?n \<le> 65536"
      "65536 < record_size \<longleftrightarrow> 65536 < ?n"
    by (simp_all add: word_less_nat_alt word_le_nat_alt unat_eq_0 unat_gt_0)
  have "if record_count < 2 ^ 31
       then \<exists>sq'. press_test env m tv sq record_count record_size = Some (Some (sq', m, uint record_count, uint record_count)) \<and> sqm_holds sq' []
       else press_test env m tv sq record_count record_size = Some None"
    if t: "0 < ?n" "?n \<le> 65536" "need (NS ?q) ?n + 100 \<le> nat (ele_count ?q)" "2 * need (NS ?q) ?n \<le> nat (ele_count ?q)"
  proof -
    have n: "?n \<le> length m" "sint record_size = int ?n" using t(2) m by (simp_all add: sint_small)
    have "press_test env m tv sq record_count record_size = Some None \<and> 2 ^ 31 \<le> unat record_count
      \<or> (\<exists>sq'. press_test env m tv sq record_count record_size = Some (Some (sq', m, uint record_count, uint record_count))
        \<and> pressed ?q (take ?n m) 0 sq' [] \<and> unat record_count < 2 ^ 31)"
      using press_loop_ends [OF t(1,2) n _ t(3,4) p, of env 0 record_count tv] e by (simp add: press_test_def)
    moreover have "sqm_holds sq' []" if "pressed ?q (take ?n m) 0 sq' []" for sq'
      using that unfolding pressed_def sqm_holds_def by auto
    ultimately show ?thesis unfolding cnt by auto
  qed
  moreover have "press_test env m tv sq record_count record_size = None"
    if c: "0 < record_count" and bad: "?n = 0 \<or> 65536 < ?n \<or> nat (ele_count ?q) < need (NS ?q) ?n + 100"
  proof -
    have "\<exists>r. sq_put (env 0) sq1 (Some m) (sint record_size) = Some (sq1, r, []) \<and> r \<noteq> 0" if "pressed ?q (take 0 m) 0 sq1 []" for sq1
    proof (cases "?n = 0 \<or> 65536 < ?n")
      case True
      have "sint record_size \<le> 0 \<or> 65536 < sint record_size"
        using True by (rule sint_refused)
      then show ?thesis by (auto simp: sq_put_def MAX_SQ_DATA_LENGTH_def)
    next
      case False
      then have n: "?n \<le> length m" "sint record_size = int ?n" using m by (simp_all add: sint_small)
      have "\<not> sq_room (head sq1) (need (NS ?q) ?n)" using False bad that by (auto simp: sq_room_def pressed_def)
      moreover have "length (take ?n m) = ?n" using n by simp
      moreover have "pressed ?q (take ?n m) 0 sq1 []" using that by (simp add: pressed_def)
      ultimately have "sq_put (env 0) sq1 (Some (take ?n m)) (int ?n) = Some (sq1, - 2, [])"
        using pressed_put [of ?q "take ?n m" 0 sq1 "[]", OF _ _ _ e [of 0]] False by simp
      then show ?thesis using sq_put_take [OF n(1)] n(2) by simp
    qed
    moreover have "(0 :: int) < 2 ^ 31" "word_of_int 0 < record_count" using c by simp_all
    ultimately show ?thesis unfolding press_test_def using press_loop_stuck [OF _ ne _ _ _ _ p, of 0 0 record_count 0] by simp
  qed
  ultimately show ?thesis unfolding pos by blast
qed

text \<open>On a queue of 200 nodes, records of 50 nodes, and one of 101.\<close>

theorem press_test_ends_witness:
  "(\<exists>sq'. press_test (\<lambda>i. \<lparr>pid_exists = (\<lambda>p. False), clock_sec = 0, clock_usec = 0, fifo_fd = (\<lambda>i. - 1), getpid = 1\<rparr>)
      (replicate (1024 * 1024) 0) (0, 0) (idle_queue 8 200 101) 1000 1184
        = Some (Some (sq', replicate (1024 * 1024) 0, 1000, 1000)) \<and> sqm_holds sq' [])
   \<and> press_test (\<lambda>i. \<lparr>pid_exists = (\<lambda>p. False), clock_sec = 0, clock_usec = 0, fifo_fd = (\<lambda>i. - 1), getpid = 1\<rparr>)
      (replicate (1024 * 1024) 0) (0, 0) (idle_queue 8 200 101) 0x80000000 1184 = Some None
   \<and> press_test (\<lambda>i. \<lparr>pid_exists = (\<lambda>p. False), clock_sec = 0, clock_usec = 0, fifo_fd = (\<lambda>i. - 1), getpid = 1\<rparr>)
      (replicate (1024 * 1024) 0) (0, 0) (idle_queue 8 200 101) 1 2408 = None"
proof -
  let ?env = "\<lambda>i :: int. \<lparr>pid_exists = (\<lambda>p. False), clock_sec = 0, clock_usec = 0, fifo_fd = (\<lambda>i. - 1), getpid = 1\<rparr>"
  let ?sq = "idle_queue 8 200 101" and ?m = "replicate (1024 * 1024) (0 :: 8 word)"
  have h: "sqm_holds ?sq []" by (rule idle_queue_holds) simp_all
  have i: "head_pos (head ?sq) = tail_pos (head ?sq)" by (simp add: idle_queue_def new_queue_def)
  have m: "length ?m = 1024 * 1024" by (rule length_replicate)
  have e: "clock_ok (?env i)" for i by (simp add: clock_ok_def)
  have v: "ele_count (head ?sq) = 200" "need (NS (head ?sq)) 1184 = 50" "need (NS (head ?sq)) 2408 = 101"
    by (simp_all add: need_def NS_def idle_queue_def new_queue_def)
  have a: "\<exists>sq'. press_test ?env ?m (0, 0) ?sq 1000 1184 = Some (Some (sq', ?m, 1000, 1000)) \<and> sqm_holds sq' []"
    using press_test_ends [OF h i m e, where tv = "(0, 0)" and record_count = 1000 and record_size = 1184] by (simp add: v)
  have b: "press_test ?env ?m (0, 0) ?sq 0x80000000 1184 = Some None"
    using press_test_ends [OF h i m e, where tv = "(0, 0)" and record_count = "0x80000000" and record_size = 1184] by (simp add: v)
  have n: "press_test ?env ?m (0, 0) ?sq 1 2408 = None"
    using press_test_ends [OF h i m e, where tv = "(0, 0)" and record_count = 1 and record_size = 2408] by (simp add: v)
  show ?thesis using a b n by simp
qed

end
