(* ===== verification/Sq_Lock.thy ===== *)
theory Sq_Lock
  imports Sq_Create
begin

text \<open>
  The descriptors of shm_queue.c: the lock file around \<open>sq_create\<close>, the fifos, and \<open>sq_destroy\<close>.  What open, mkfifo and
  flock answer are parameters; a successful open gives a descriptor that is not in use.
\<close>

section \<open>The code\<close>

record files =
  fds :: "int list"
  locked :: "int option"

definition add_fd :: "int \<Rightarrow> files \<Rightarrow> files" where
  "add_fd fd w = (if fd \<ge> 0 then w\<lparr>fds := fd # fds w\<rparr> else w)"

text \<open>\<open>opened\<close> is the result of open, \<open>flock_ok\<close> whether flock succeeds; the result is the new \<open>*fd\<close> and that of the function.\<close>

definition exc_lock :: "bool \<Rightarrow> int \<Rightarrow> bool \<Rightarrow> int \<Rightarrow> files \<Rightarrow> files \<times> int \<times> int" where
  "exc_lock iUnlocking opened flock_ok fd w =
     (let (fd, w) = (if fd \<le> 0 then (opened, add_fd opened w) else (fd, w)) in
      if fd < 0 then (w, fd, - 1)
      else if \<not> flock_ok then (w, fd, - 2)
      else (w\<lparr>locked := if iUnlocking then (if locked w = Some fd then None else locked w) else Some fd\<rparr>, fd, 0))"

datatype mkfifo = Made | AlreadyThere | Refused

definition create_fifo :: "mkfifo \<Rightarrow> int \<Rightarrow> files \<Rightarrow> files \<times> int" where
  "create_fifo made opened w =
     (if made = Refused then (w, - 1)
      else if opened = - 1 then (w, - 2)
      else (add_fd opened w, opened))"

text \<open>\<open>sq_create\<close> with its lock; whether it returns a queue or the null pointer, it unlocks on the way out.\<close>

definition sq_create_locked :: "sq_env \<Rightarrow> shm_sys \<Rightarrow> bool \<Rightarrow> 64 word \<Rightarrow> int \<Rightarrow> int \<Rightarrow> int \<Rightarrow> int \<Rightarrow>
    int \<times> bool \<Rightarrow> int \<times> bool \<Rightarrow> files \<Rightarrow> (files \<times> shm_queue option) option" where
  "sq_create_locked env sys calloc_ok shmkey ele_sz ele_cnt sn sp lock unlock w =
     (let (w, fd, _) = exc_lock False (fst lock) (snd lock) (- 1) w in
      do { r \<leftarrow> sq_create env sys calloc_ok shmkey ele_sz ele_cnt sn sp;
           let (w, fd, _) = exc_lock True (fst unlock) (snd unlock) fd w;
           Some (w, r) })"

text \<open>\<open>sq_destroy\<close> detaches the segment and frees the queue; it closes no descriptor.\<close>

definition sq_destroy :: "shm_queue \<Rightarrow> files \<Rightarrow> files" where
  "sq_destroy sq w = w"

section \<open>What is left open\<close>

text \<open>
  Locking and unlocking.  When both calls of flock succeed and the lock file gets a positive descriptor,
  the lock is free again after \<open>sq_create\<close>, whatever it returns, but the descriptor stays open:
  each call leaves one more.  With descriptor 0 the unlocking opens the file again and the lock is not given back.
\<close>

theorem sq_create_lock:
  assumes "sq_create env sys calloc_ok shmkey ele_sz ele_cnt sn sp = Some r" "locked w = None" "0 < fd"
  shows "sq_create_locked env sys calloc_ok shmkey ele_sz ele_cnt sn sp (fd, True) (fd', True) w
      = Some (w\<lparr>fds := fd # fds w, locked := None\<rparr>, r)
    \<and> (0 < fd' \<longrightarrow> sq_create_locked env sys calloc_ok shmkey ele_sz ele_cnt sn sp (0, True) (fd', True) w
      = Some (w\<lparr>fds := fd' # 0 # fds w, locked := Some 0\<rparr>, r))"
  using assms by (auto simp: sq_create_locked_def exc_lock_def add_fd_def)

theorem sq_create_lock_witness:
  "sq_create_locked \<lparr>pid_exists = (\<lambda>p. False), clock_sec = 0, clock_usec = 0, fifo_fd = (\<lambda>i. - 1), getpid = 1\<rparr>
     \<lparr>segment = None, shmget_create_ok = True, shmctl_stat_ok = True, shmctl_rm_ok = True, shmat_ok = True\<rparr>
     True 5 0 200 0 0 (3, True) (4, True) \<lparr>fds = [], locked = None\<rparr> = Some (\<lparr>fds = [3], locked = None\<rparr>, None)"
  using sq_create_lock [of "\<lparr>pid_exists = (\<lambda>p. False), clock_sec = 0, clock_usec = 0, fifo_fd = (\<lambda>i. - 1), getpid = 1\<rparr>"
     "\<lparr>segment = None, shmget_create_ok = True, shmctl_stat_ok = True, shmctl_rm_ok = True, shmat_ok = True\<rparr>"
     True 5 0 200 0 0 None "\<lparr>fds = [], locked = None\<rparr>" 3 4]
  by (simp add: sq_create_def)

end
