(* ===== verification/Check_Servers.thy ===== *)
theory Check_Servers
  imports Coroutine
begin

text \<open>
  The client of the coroutine scheduler in example_check_alot_server2.cpp: two coroutines each connect to a server
  and yield while they would have to wait.  What the network answers to a coroutine is the parameter \<open>net\<close>;
  \<open>select\<close> watches one descriptor, so it fails, finds it not ready, or finds it ready.  What a
  coroutine does between two yields is a \<open>piece\<close>.
\<close>

section \<open>A coroutine\<close>

datatype answer = NotReady | SelectFailed | Ready

text \<open>
  The results of inet_aton and of \<open>fcntl(fd, F_GETFL)\<close>, whether connect returned a negative value with errno
  \<open>EINPROGRESS\<close>, and for the \<open>i\<close>-th time around a loop the answer of select and the results of
  \<open>getsockopt\<close>.
\<close>

record network =
  inet_aton :: int
  getfl :: int
  in_progress :: bool
  wselect :: "nat \<Rightarrow> answer"
  sockopt :: "nat \<Rightarrow> int \<times> int"
  rselect :: "nat \<Rightarrow> answer"

datatype io = Write | Read | Close

text \<open>Where a coroutine stands: before its first statement, or in a loop with the number of calls of select so far.\<close>

datatype point = Begin | Connecting nat | Reading nat

definition read_piece :: "network \<Rightarrow> nat \<Rightarrow> io list \<times> point option" where
  "read_piece net i =
     (case rselect net i of
        NotReady \<Rightarrow> ([], Some (Reading (i + 1)))
      | SelectFailed \<Rightarrow> ([Close], None)
      | Ready \<Rightarrow> ([Read, Close], None))"

definition connect_piece :: "network \<Rightarrow> nat \<Rightarrow> io list \<times> point option" where
  "connect_piece net i =
     (case wselect net i of
        NotReady \<Rightarrow> ([], Some (Connecting (i + 1)))
      | SelectFailed \<Rightarrow> ([Close], None)
      | Ready \<Rightarrow> (let (r, err) = sockopt net i in
          if r = - 1 then ([Close], None)
          else if err = 0 then (let (acts, next) = read_piece net 0 in (Write # acts, next))
          else ([Close], None)))"

definition foo_begin :: "network \<Rightarrow> io list \<times> point option" where
  "foo_begin net =
     (if inet_aton net < 0 then ([], None)
      else if getfl net = - 1 then ([], None)
      else if in_progress net then connect_piece net 0
      else ([Close], None))"

fun foo :: "network \<Rightarrow> point \<Rightarrow> io list \<times> point option" where
  "foo net Begin = foo_begin net"
| "foo net (Connecting i) = connect_piece net i"
| "foo net (Reading i) = read_piece net i"

text \<open>
  As the code of the scheduler: the registers are the argument \<open>ud\<close> (the port, which tells the coroutines
  apart) and the point; \<open>frame\<close> gives the bytes of the live frames at a yield.
\<close>

definition foo_code :: "(int \<Rightarrow> network) \<Rightarrow> (int \<times> point \<Rightarrow> 8 word list) \<Rightarrow> (unit, int, int \<times> point) code" where
  "foo_code net frame = (\<lambda>(port, p) _.
     (case snd (foo (net port) p) of None \<Rightarrow> Return | Some p \<Rightarrow> CallYield (port, p) (frame (port, p))))"

definition foo_entry :: "unit \<Rightarrow> int \<Rightarrow> int \<times> point" where
  "foo_entry f port = (port, Begin)"

section \<open>The main program\<close>

partial_function (option) test_loop :: "('f, 'u, 'r) code \<Rightarrow> ('f \<Rightarrow> 'u \<Rightarrow> 'r) \<Rightarrow> int \<Rightarrow> int \<Rightarrow> ('f, 'u, 'r) schedule
    \<Rightarrow> (co_error + ('f, 'u, 'r) schedule) option" where
  "test_loop code entry co1 co2 S =
     (case coroutine_status S co1 of None \<Rightarrow> Some (Inl AssertFailed)
      | Some s1 \<Rightarrow> if s1 = COROUTINE_DEAD then Some (Inr S)
     else case coroutine_status S co2 of None \<Rightarrow> Some (Inl AssertFailed)
      | Some s2 \<Rightarrow> if s2 = COROUTINE_DEAD then Some (Inr S)
     else coroutine_resume code entry S co1 \<bind> (\<lambda>r1.
       case r1 of Inl e \<Rightarrow> Some (Inl e)
       | Inr S \<Rightarrow> coroutine_resume code entry S co2 \<bind> (\<lambda>r2.
           case r2 of Inl e \<Rightarrow> Some (Inl e)
           | Inr S \<Rightarrow> test_loop code entry co1 co2 S)))"

definition test :: "('f, 'u, 'r) code \<Rightarrow> ('f \<Rightarrow> 'u \<Rightarrow> 'r) \<Rightarrow> ('f, 'u, 'r) schedule \<Rightarrow> 'f \<Rightarrow> 'u \<Rightarrow> 'u
    \<Rightarrow> (co_error + ('f, 'u, 'r) schedule) option" where
  "test code entry S f port1 port2 =
     (case coroutine_new S f port1 of None \<Rightarrow> Some (Inl AssertFailed)
      | Some (S, co1) \<Rightarrow>
     (case coroutine_new S f port2 of None \<Rightarrow> Some (Inl AssertFailed)
      | Some (S, co2) \<Rightarrow> test_loop code entry (int co1) (int co2) S))"

text \<open>The result of \<open>main\<close>: the coroutines that \<open>coroutine_close\<close> frees.\<close>

definition main :: "(int \<Rightarrow> network) \<Rightarrow> (int \<times> point \<Rightarrow> 8 word list) \<Rightarrow> (nat \<Rightarrow> 8 word)
    \<Rightarrow> (co_error + (unit, int, int \<times> point) coroutine list) option" where
  "main net frame mem = map_option (map_sum id coroutine_close)
     (test (foo_code net frame) foo_entry (coroutine_open mem) () 16870 16888)"

section \<open>What a coroutine does\<close>

text \<open>The point after \<open>k\<close> pieces, \<open>None\<close> when the coroutine has returned, and all its system calls until then.\<close>

primrec after :: "network \<Rightarrow> nat \<Rightarrow> point option" where
  "after net 0 = Some Begin"
| "after net (Suc k) = (case after net k of None \<Rightarrow> None | Some p \<Rightarrow> snd (foo net p))"

primrec calls :: "network \<Rightarrow> nat \<Rightarrow> io list" where
  "calls net 0 = []"
| "calls net (Suc k) = calls net k @ (case after net k of None \<Rightarrow> [] | Some p \<Rightarrow> fst (foo net p))"

lemma after_mono: "after net k = None \<Longrightarrow> k \<le> j \<Longrightarrow> after net j = None"
  by (induction j) (auto simp: le_Suc_eq)

lemma foo_calls:
  "snd (foo net p) = Some q \<Longrightarrow> Close \<notin> set (fst (foo net p)) \<and> (Write \<in> set (fst (foo net p)) \<longrightarrow> (\<exists>i. q = Reading i))"
  "snd (foo net p) = None \<Longrightarrow> p \<noteq> Begin \<or> 0 \<le> inet_aton net \<and> getfl net \<noteq> - 1 \<Longrightarrow> last (fst (foo net p)) = Close \<and> fst (foo net p) \<noteq> []"
  by (cases p; auto simp: foo_begin_def connect_piece_def read_piece_def split: answer.splits prod.splits if_splits)+

section \<open>The loop on private stacks\<close>

fun task_at :: "(int \<times> point \<Rightarrow> 8 word list) \<Rightarrow> int \<Rightarrow> nat \<Rightarrow> point option \<Rightarrow> (unit, int, int \<times> point) task option" where
  "task_at frame port k None = None"
| "task_at frame port 0 (Some p) = Some (Fresh () port)"
| "task_at frame port (Suc k) (Some p) = Some (Parked (port, p) (frame (port, p)))"

lemma resume_foo:
  assumes S: "idle S" and i: "i < length (abs_sch S)" and f: "\<And>r. length (frame r) \<le> STACK_SIZE"
    and t: "abs_sch S ! i = task_at frame port k (after (net port) k)"
  shows "\<exists>S'. coroutine_resume (foo_code net frame) foo_entry S (int i) = Some (Inr S') \<and> idle S'
    \<and> abs_sch S' = (abs_sch S)[i := task_at frame port (Suc k) (after (net port) (Suc k))]"
proof -
  let ?ts = "abs_sch S"
  have "spec_resume (foo_code net frame) foo_entry ?ts (int i)
      = Some (Inr (?ts[i := task_at frame port (Suc k) (after (net port) (Suc k))]))"
  proof (cases "after (net port) k")
    case None
    then have "?ts ! i = None" using t by simp
    then have "?ts[i := None] = ?ts" using i by (metis list_update_id)
    then show ?thesis using None t i by (simp add: spec_resume_def)
  next
    case (Some p)
    have "spec_step (foo_code net frame) i (?ts[i := Some Active], (port, p), fs)
        = Inr (Inr (?ts[i := task_at frame port (Suc k) (after (net port) (Suc k))]))" for fs
      using f Some by (simp add: spec_step_def foo_code_def split: option.split)
    then have "iter (spec_step (foo_code net frame) i) (?ts[i := Some Active], (port, p), fs)
        = Some (Inr (?ts[i := task_at frame port (Suc k) (after (net port) (Suc k))]))" for fs
      by (rule iter_Inr)
    then show ?thesis using Some t i by (cases k) (simp_all add: spec_resume_def foo_entry_def)
  qed
  then show ?thesis using resume_sim [OF S, of "foo_code net frame" foo_entry "int i"]
    by (auto simp: option_rel_Some2 res_rel_def rel_sum_simps elim!: rel_sum.cases)
qed

text \<open>The schedule of \<open>test\<close> after \<open>k\<close> rounds: entries 0 and 1 are taken, or free again.\<close>

definition pair_at :: "(int \<Rightarrow> network) \<Rightarrow> (int \<times> point \<Rightarrow> 8 word list) \<Rightarrow> nat \<Rightarrow> (unit, int, int \<times> point) schedule \<Rightarrow> bool" where
  "pair_at net frame k S \<longleftrightarrow> idle S \<and> (\<exists>rest. abs_sch S = task_at frame 16870 k (after (net 16870) k)
     # task_at frame 16888 k (after (net 16888) k) # replicate rest None)"

lemma pair_round:
  assumes p: "pair_at net frame k S" and f: "\<And>r. length (frame r) \<le> STACK_SIZE"
  shows "\<exists>S1 S'. coroutine_resume (foo_code net frame) foo_entry S 0 = Some (Inr S1)
    \<and> coroutine_resume (foo_code net frame) foo_entry S1 1 = Some (Inr S') \<and> pair_at net frame (Suc k) S'"
proof -
  obtain rest where S: "idle S" "abs_sch S = task_at frame 16870 k (after (net 16870) k)
     # task_at frame 16888 k (after (net 16888) k) # replicate rest None"
    using p by (auto simp: pair_at_def)
  obtain S1 where S1: "coroutine_resume (foo_code net frame) foo_entry S 0 = Some (Inr S1)" "idle S1"
    "abs_sch S1 = task_at frame 16870 (Suc k) (after (net 16870) (Suc k)) # task_at frame 16888 k (after (net 16888) k) # replicate rest None"
    using resume_foo [OF S(1), where i = 0 and frame = frame and port = 16870 and k = k and net = net] f S(2) by auto
  obtain S2 where S2: "coroutine_resume (foo_code net frame) foo_entry S1 1 = Some (Inr S2)" "idle S2"
    "abs_sch S2 = task_at frame 16870 (Suc k) (after (net 16870) (Suc k)) # task_at frame 16888 (Suc k) (after (net 16888) (Suc k))
      # replicate rest None"
    using resume_foo [OF S1(2), where i = 1 and frame = frame and port = 16888 and k = k and net = net] f S1(3) by auto
  then have "pair_at net frame (Suc k) S2" unfolding pair_at_def by blast
  then show ?thesis using S1(1) S2(1) by blast
qed

lemma pair_status:
  assumes p: "pair_at net frame k S"
  shows "\<exists>s. coroutine_status S 0 = Some s \<and> (s = COROUTINE_DEAD \<longleftrightarrow> after (net 16870) k = None)"
    and "\<exists>s. coroutine_status S 1 = Some s \<and> (s = COROUTINE_DEAD \<longleftrightarrow> after (net 16888) k = None)"
proof -
  obtain rest where S: "sch_wf S" "abs_sch S = task_at frame 16870 k (after (net 16870) k)
     # task_at frame 16888 k (after (net 16888) k) # replicate rest None"
    using p by (auto simp: pair_at_def idle_def)
  have t: "task_status (task_at frame port j x) = COROUTINE_DEAD \<longleftrightarrow> x = None" for port j x
    by (cases x; cases j) simp_all
  show "\<exists>s. coroutine_status S 0 = Some s \<and> (s = COROUTINE_DEAD \<longleftrightarrow> after (net 16870) k = None)"
    using status_spec [OF S(1), of 0] t by (simp add: S(2))
  show "\<exists>s. coroutine_status S 1 = Some s \<and> (s = COROUTINE_DEAD \<longleftrightarrow> after (net 16888) k = None)"
    using status_spec [OF S(1), of 1] t by (simp add: S(2))
qed

lemma test_loop_at:
  assumes p: "pair_at net frame k S"
  shows "test_loop (foo_code net frame) foo_entry 0 1 S =
    (if after (net 16870) k = None \<or> after (net 16888) k = None then Some (Inr S)
     else coroutine_resume (foo_code net frame) foo_entry S 0 \<bind> (\<lambda>r1.
       case r1 of Inl e \<Rightarrow> Some (Inl e)
       | Inr S \<Rightarrow> coroutine_resume (foo_code net frame) foo_entry S 1 \<bind> (\<lambda>r2.
           case r2 of Inl e \<Rightarrow> Some (Inl e)
           | Inr S \<Rightarrow> test_loop (foo_code net frame) foo_entry 0 1 S)))"
  using pair_status [OF p] by (subst test_loop.simps) auto

lemma test_loop_ends:
  assumes f: "\<And>r. length (frame r) \<le> STACK_SIZE"
    and K: "after (net 16870) K = None \<or> after (net 16888) K = None"
    and before: "\<And>k. k < K \<Longrightarrow> after (net 16870) k \<noteq> None \<and> after (net 16888) k \<noteq> None"
  shows "pair_at net frame k S \<Longrightarrow> k \<le> K \<Longrightarrow>
    \<exists>S'. test_loop (foo_code net frame) foo_entry 0 1 S = Some (Inr S') \<and> pair_at net frame K S'"
proof (induction "K - k" arbitrary: k S)
  case 0
  then show ?case using K by (subst test_loop_at [OF 0(2)]) auto
next
  case (Suc d)
  obtain S1 S2 where r: "coroutine_resume (foo_code net frame) foo_entry S 0 = Some (Inr S1)"
    "coroutine_resume (foo_code net frame) foo_entry S1 1 = Some (Inr S2)" "pair_at net frame (Suc k) S2"
    using pair_round [OF Suc.prems(1) f] by blast
  have "d = K - Suc k" "Suc k \<le> K" and kK: "k < K" using Suc.hyps(2) by simp_all
  from Suc.hyps(1) [OF this(1) r(3) this(2)] show ?case
    by (subst test_loop_at [OF Suc.prems(1)]) (simp add: before [OF kK] r(1,2))
qed

lemma test_loop_runs_on:
  assumes f: "\<And>r. length (frame r) \<le> STACK_SIZE"
    and go: "\<And>k. after (net 16870) k \<noteq> None \<and> after (net 16888) k \<noteq> None" and p: "pair_at net frame k S"
  shows "test_loop (foo_code net frame) foo_entry 0 1 S = None"
proof (rule ccontr)
  let ?P = "\<lambda>code entry c1 c2 S. code = foo_code net frame \<and> entry = foo_entry \<and> c1 = 0 \<and> c2 = 1 \<and> (\<exists>k. pair_at net frame k S)"
  have "\<not> ?P code entry c1 c2 S" if "test_loop code entry c1 c2 S = Some y" for code entry c1 c2 S y
  proof (rule test_loop.raw_induct [OF _ that])
    fix loop code entry co1 co2 S y
    assume IH: "\<And>code entry c1 c2 S y. loop code entry c1 c2 S = Some y \<Longrightarrow> \<not> ?P code entry c1 c2 S"
      and run: "(case coroutine_status S co1 of None \<Rightarrow> Some (Inl AssertFailed)
      | Some s1 \<Rightarrow> if s1 = COROUTINE_DEAD then Some (Inr S)
     else case coroutine_status S co2 of None \<Rightarrow> Some (Inl AssertFailed)
      | Some s2 \<Rightarrow> if s2 = COROUTINE_DEAD then Some (Inr S)
     else coroutine_resume code entry S co1 \<bind> (\<lambda>r1.
       case r1 of Inl e \<Rightarrow> Some (Inl e)
       | Inr S \<Rightarrow> coroutine_resume code entry S co2 \<bind> (\<lambda>r2.
           case r2 of Inl e \<Rightarrow> Some (Inl e)
           | Inr S \<Rightarrow> loop code entry co1 co2 S))) = Some y"
    show "\<not> ?P code entry co1 co2 S"
    proof
      assume P: "?P code entry co1 co2 S"
      then obtain k where k: "pair_at net frame k S" by blast
      obtain S1 S2 where r: "coroutine_resume (foo_code net frame) foo_entry S 0 = Some (Inr S1)"
        "coroutine_resume (foo_code net frame) foo_entry S1 1 = Some (Inr S2)" "pair_at net frame (Suc k) S2"
        using pair_round [OF k f] by blast
      have "loop code entry co1 co2 S2 = Some y"
        using run P pair_status [OF k] go [of k] r(1,2) by auto
      from IH [OF this] P r(3) show False by blast
    qed
  qed
  moreover assume "test_loop (foo_code net frame) foo_entry 0 1 S \<noteq> None"
  ultimately show False using p by blast
qed

lemma find_slot_first: "cs ! (n mod length cs) = None \<Longrightarrow> 0 < k \<Longrightarrow> find_slot cs n 0 k = Some (n mod length cs)"
  by (cases k) (simp_all add: Let_def)

lemma test_start:
  "\<exists>S. test (foo_code net frame) foo_entry (coroutine_open mem) () 16870 16888 = test_loop (foo_code net frame) foo_entry 0 1 S
     \<and> pair_at net frame 0 S"
proof -
  let ?S = "coroutine_open mem :: (unit, int, int \<times> point) schedule"
  have "idle ?S" by (rule open_idle)
  then have i: "sch_wf ?S" "running ?S = -1" by (simp_all add: idle_def)
  have o: "abs_sch ?S = replicate 16 None"
    by (simp add: abs_sch_def coroutine_open_def DEFAULT_COROUTINE_def)
  have r: "replicate 16 x = x # replicate 15 x" "replicate 15 x = x # replicate 14 x" for x :: "(unit, int, int \<times> point) task option"
    by (simp_all add: numeral_eq_Suc)
  obtain S1 j1 where S1: "coroutine_new ?S () 16870 = Some (S1, j1)"
    "sch_wf S1" "running S1 = -1" "spec_new (replicate 16 None) () 16870 = Some (abs_sch S1, j1)"
    using new_spec [OF i(1), of "()" "16870 :: int"] i(2) o by auto
  have a1: "abs_sch S1 = Some (Fresh () 16870) # replicate 15 None" "j1 = 0"
    using S1(4) find_slot_first [of "(None :: (unit, int, int \<times> point) task option) # None # replicate 14 None" 0 16] by (auto simp: r spec_new_def live_def)
  obtain S2 j2 where S2: "coroutine_new S1 () (16888 :: int) = Some (S2, j2)" "sch_wf S2" "running S2 = -1"
    "spec_new (Some (Fresh () 16870) # replicate 15 None) () 16888 = Some (abs_sch S2, j2)"
    using new_spec [OF S1(2), of "()" "16888 :: int"] S1(3) a1(1) by auto
  have a2: "abs_sch S2 = Some (Fresh () 16870) # Some (Fresh () 16888) # replicate 14 None" "j2 = 1"
    using S2(4) find_slot_first [of "Some (Fresh () 16870 :: (unit, int, int \<times> point) task) # None # replicate 14 None" 1 16] by (auto simp: r spec_new_def live_def)
  have "pair_at net frame 0 S2" using S2(2,3) a2(1) unfolding pair_at_def idle_def by (auto intro!: exI [of _ 14])
  then show ?thesis using S1(1) S2(1) a1(2) a2(2) by (intro exI [of _ S2]) (simp add: test_def)
qed

section \<open>What main leaves behind\<close>

lemma parked_ctx:
  assumes "sch_wf S" "i < length (co S)" "abs_sch S ! i = Some (Parked r fs)"
  shows "map_option ctx (co S ! i) = Some (Some r)"
proof -
  obtain C where C: "co S ! i = Some C" "abs_task C = Parked r fs" using assms(2,3) by (auto simp: abs_sch_def)
  then have "status C = COROUTINE_SUSPEND" by (auto simp: abs_task_def split: co_status.splits)
  moreover have "entry_ok (running S) i (Some C)" using assms(1,2) C(1) by (auto simp: sch_wf_def)
  ultimately show ?thesis using C by (auto simp: entry_ok_def abs_task_def)
qed

lemma map_filter_image: "List.map_filter (\<lambda>i. f i) xs = List.map_filter id (map f xs)"
  by (induction xs) (simp_all add: List.map_filter_simps split: option.split)

lemma close_as_filter: "sch_wf S \<Longrightarrow> coroutine_close S = List.map_filter id (co S)"
  unfolding coroutine_close_def sch_wf_def by (subst map_filter_image) (metis map_nth)

definition left_over :: "(int \<Rightarrow> network) \<Rightarrow> nat \<Rightarrow> (int \<times> point) list" where
  "left_over net k = List.map_filter (\<lambda>port. map_option (Pair port) (after (net port) k)) [16870, 16888]"

lemma pair_close:
  assumes "pair_at net frame (Suc k) S"
  shows "map ctx (coroutine_close S) = map Some (left_over net (Suc k))"
proof -
  obtain rest where S: "sch_wf S" "abs_sch S = task_at frame 16870 (Suc k) (after (net 16870) (Suc k))
     # task_at frame 16888 (Suc k) (after (net 16888) (Suc k)) # replicate rest None"
    using assms by (auto simp: pair_at_def idle_def)
  obtain c0 c1 cs where c: "co S = c0 # c1 # cs" "map (map_option abs_task) cs = replicate rest None"
    using S(2) by (auto simp: abs_sch_def map_eq_Cons_conv)
  have "\<forall>c \<in> set cs. map_option abs_task c = None" using c(2) by (metis image_eqI in_set_replicate list.set_map)
  then have cs: "List.map_filter id cs = []" by (auto simp: List.map_filter_def filter_empty_conv)
  have ctx: "map_option ctx (co S ! i) = map_option (Some \<circ> Pair port) x"
    if "i < 2" "abs_sch S ! i = task_at frame port (Suc k) x" for i port x
  proof (cases x)
    case None
    then show ?thesis using that S(2) c(1) by (auto simp: abs_sch_def less_2_cases_iff)
  next
    case (Some p)
    then show ?thesis using parked_ctx [OF S(1), of i "(port, p)" "frame (port, p)"] that c(1) by simp
  qed
  have "map ctx (coroutine_close S) = List.map_filter (map_option ctx) [c0, c1]"
    using cs by (cases c0; cases c1) (simp_all add: close_as_filter [OF S(1)] c(1) List.map_filter_simps)
  also have "\<dots> = map Some (left_over net (Suc k))"
    using ctx [of 0 16870 "after (net 16870) (Suc k)"] ctx [of 1 16888 "after (net 16888) (Suc k)"] S(2) c(1)
    unfolding left_over_def
    by (cases "after (net 16870) (Suc k)"; cases "after (net 16888) (Suc k)")
      (auto simp: List.map_filter_simps simp del: after.simps)
  finally show ?thesis .
qed

lemma calls_close:
  "after net k \<noteq> None \<Longrightarrow> Close \<notin> set (calls net k)"
  "after net k = None \<Longrightarrow> 0 \<le> inet_aton net \<Longrightarrow> getfl net \<noteq> - 1 \<Longrightarrow> count_list (calls net k) Close = 1"
proof -
  show *: "Close \<notin> set (calls net k)" if "after net k \<noteq> None" for k
    using that by (induction k) (auto dest: foo_calls(1) split: option.splits)
  have one: "count_list (fst (foo net p)) Close = 1"
    if "snd (foo net p) = None" "p \<noteq> Begin \<or> 0 \<le> inet_aton net \<and> getfl net \<noteq> - 1" for p
    using that by (cases p; auto simp: foo_begin_def connect_piece_def read_piece_def split: answer.splits prod.splits if_splits)
  show "count_list (calls net k) Close = 1"
    if "after net k = None" "0 \<le> inet_aton net" "getfl net \<noteq> - 1"
    using that(1)
  proof (induction k)
    case (Suc k)
    show ?case
    proof (cases "after net k")
      case None
      then show ?thesis using Suc.IH by simp
    next
      case (Some p)
      then show ?thesis using Suc.prems * [of k] one [of p] that(2,3) by (simp add: count_list_append count_notin)
    qed
  qed simp
qed

text \<open>
  C16: the program that checks two servers.  \<open>main\<close> resumes its two coroutines in turn until one of them has returned
  and never again: if this is after \<open>K\<close> rounds, it ends there without a failed assertion, and
  \<open>coroutine_close\<close> frees the coroutine that is still suspended.  It runs for ever when neither coroutine returns.
  A coroutine has closed its socket once if it has returned (unless fcntl failed), but not before, so the one
  that is freed leaves its socket open.
\<close>

theorem check_servers_main:
  assumes f: "\<And>r. length (frame r) \<le> STACK_SIZE"
  shows "((after (net 16870) K = None \<or> after (net 16888) K = None)
        \<and> (\<forall>k < K. after (net 16870) k \<noteq> None \<and> after (net 16888) k \<noteq> None) \<longrightarrow>
      (\<exists>cs. main net frame mem = Some (Inr cs) \<and> map ctx cs = map Some (left_over net K)
        \<and> (\<forall>(port, p) \<in> set (left_over net K). Close \<notin> set (calls (net port) K))))
    \<and> ((\<forall>k. after (net 16870) k \<noteq> None \<and> after (net 16888) k \<noteq> None) \<longrightarrow> main net frame mem = None)
    \<and> (after (net port) k = None \<and> 0 \<le> inet_aton (net port) \<and> getfl (net port) \<noteq> - 1 \<longrightarrow>
      count_list (calls (net port) k) Close = 1)"
proof -
  obtain S where S: "test (foo_code net frame) foo_entry (coroutine_open mem) () 16870 16888 = test_loop (foo_code net frame) foo_entry 0 1 S"
    "pair_at net frame 0 S" using test_start by blast
  have "\<exists>cs. main net frame mem = Some (Inr cs) \<and> map ctx cs = map Some (left_over net K)
        \<and> (\<forall>(port, p) \<in> set (left_over net K). Close \<notin> set (calls (net port) K))"
    if K: "after (net 16870) K = None \<or> after (net 16888) K = None"
      "\<forall>k < K. after (net 16870) k \<noteq> None \<and> after (net 16888) k \<noteq> None"
  proof -
    obtain S' where S': "test_loop (foo_code net frame) foo_entry 0 1 S = Some (Inr S')" "pair_at net frame K S'"
      using test_loop_ends [OF f K(1) _ S(2)] K(2) by auto
    obtain k where k: "K = Suc k" using K(1) by (cases K) simp_all
    have "Close \<notin> set (calls (net port) K)" if "(port, p) \<in> set (left_over net K)" for port p
      using that calls_close(1) [of "net port" K]
      by (auto simp: left_over_def List.map_filter_simps simp del: after.simps calls.simps split: option.splits)
    then show ?thesis using pair_close [OF S'(2) [unfolded k]] S(1) S'(1) unfolding k [symmetric] by (auto simp: main_def)
  qed
  moreover have "main net frame mem = None" if go: "\<forall>k. after (net 16870) k \<noteq> None \<and> after (net 16888) k \<noteq> None"
  proof -
    have "test_loop (foo_code net frame) foo_entry 0 1 S = None" by (rule test_loop_runs_on [OF f _ S(2)]) (use go in blast)
    then show ?thesis using S(1) by (simp add: main_def)
  qed
  ultimately show ?thesis using calls_close(2) [of "net port" k] by blast
qed

text \<open>
  In the witness the first server answers after one round and is sent the request, the other never answers, and its
  coroutine is left connecting.
\<close>

definition two_servers :: "int \<Rightarrow> network" where
  "two_servers port = \<lparr>inet_aton = 1, getfl = 2, in_progress = True,
     wselect = (\<lambda>i. if port = 16870 \<and> i = 1 then Ready else NotReady), sockopt = (\<lambda>i. (0, 0)), rselect = (\<lambda>i. Ready)\<rparr>"

theorem check_servers_main_witness:
  "(\<exists>cs. main two_servers (\<lambda>r. [7, 8]) (\<lambda>a. 0) = Some (Inr cs) \<and> map ctx cs = [Some (16888, Connecting 2)]
      \<and> Close \<notin> set (calls (two_servers 16888) 2))
   \<and> main (\<lambda>p. two_servers 1) (\<lambda>r. [7, 8]) (\<lambda>a. 0) = None
   \<and> calls (two_servers 16870) 2 = [Write, Read, Close] \<and> count_list (calls (two_servers 16870) 2) Close = 1"
proof -
  have f: "length ((\<lambda>r :: int \<times> point. [7, 8 :: 8 word]) r) \<le> STACK_SIZE" for r by (simp add: STACK_SIZE_def)
  note d = two_servers_def foo_begin_def connect_piece_def read_piece_def
  have a: "after (two_servers 16870) 1 = Some (Connecting 1)" "after (two_servers 16870) 2 = None"
    "after (two_servers 16888) 1 = Some (Connecting 1)" "after (two_servers 16888) 2 = Some (Connecting 2)"
    by (simp_all add: d numeral_2_eq_2)
  have before: "after (two_servers 16870) k \<noteq> None \<and> after (two_servers 16888) k \<noteq> None" if "k < 2" for k
    using that by (auto simp: less_2_cases_iff d)
  have on: "after (two_servers 1) k \<noteq> None \<and> after (two_servers 1) k \<noteq> None" for k
  proof -
    have "\<exists>p. after (two_servers 1) k = Some p \<and> (\<forall>i. p \<noteq> Reading i)"
    proof (induction k)
      case (Suc k)
      then obtain p where "after (two_servers 1) k = Some p" "\<forall>i. p \<noteq> Reading i" by blast
      then show ?case by (cases p) (simp_all add: d)
    qed simp
    then show ?thesis by auto
  qed
  have l: "left_over two_servers 2 = [(16888, Connecting 2)]" using a by (simp add: left_over_def List.map_filter_simps)
  have c: "calls (two_servers 16870) 2 = [Write, Read, Close]" by (simp add: d numeral_2_eq_2)
  obtain cs where cs: "main two_servers (\<lambda>r. [7, 8]) (\<lambda>a. 0) = Some (Inr cs)" "map ctx cs = map Some (left_over two_servers 2)"
    "\<forall>(port, p) \<in> set (left_over two_servers 2). Close \<notin> set (calls (two_servers port) 2)"
    using check_servers_main [OF f, of two_servers 2 "\<lambda>a. 0"] a(2) before by blast
  have "main (\<lambda>p. two_servers 1) (\<lambda>r. [7, 8]) (\<lambda>a. 0) = None" using check_servers_main [OF f, of "\<lambda>p. two_servers 1"] on by blast
  moreover have "count_list (calls (two_servers 16870) 2) Close = 1"
    using c by simp
  ultimately show ?thesis using cs c unfolding l by auto
qed

end
