(* ===== verification/Interleaving.thy ===== *)
theory Interleaving
  imports Prelude
begin

text \<open>
  The interface of programs whose threads are interleaved step by step: a step of thread \<open>t\<close> is a partial function
  on the state, and a schedule is the list of the threads that take the steps.
\<close>

fun run :: "('t \<Rightarrow> 's \<Rightarrow> 's option) \<Rightarrow> 't list \<Rightarrow> 's \<Rightarrow> 's option" where
  "run step [] s = Some s"
| "run step (t # ts) s = do { s \<leftarrow> step t s; run step ts s }"

lemma run_append: "run step (ts @ us) s = do { s \<leftarrow> run step ts s; run step us s }"
  by (induction ts arbitrary: s) (simp_all, metis bind_assoc)

text \<open>An invariant that every step keeps.\<close>

locale interleaved =
  fixes step :: "'t \<Rightarrow> 's \<Rightarrow> 's option" and inv :: "'s \<Rightarrow> bool"
  assumes keeps: "inv s \<Longrightarrow> step t s = Some s' \<Longrightarrow> inv s'"
begin

lemma run_inv: "inv s \<Longrightarrow> run step ts s = Some s' \<Longrightarrow> inv s'"
proof (induction ts arbitrary: s)
  case (Cons t ts)
  then obtain s1 where s1: "step t s = Some s1" "run step ts s1 = Some s'" by (auto simp: bind_eq_Some_conv)
  then show ?case using keeps [OF Cons.prems(1) s1(1)] Cons.IH by blast
qed simp

text \<open>A schedule of steps that are always possible is never stuck.\<close>

lemma run_total:
  assumes possible: "\<And>s t. inv s \<Longrightarrow> ok t \<Longrightarrow> \<exists>s'. step t s = Some s'"
  shows "inv s \<Longrightarrow> list_all ok ts \<Longrightarrow> \<exists>s'. run step ts s = Some s' \<and> inv s'"
proof (induction ts arbitrary: s)
  case (Cons t ts)
  then obtain s1 where s1: "step t s = Some s1" using possible [of s t] by auto
  then show ?case using keeps [OF Cons.prems(1) s1] Cons by auto
qed simp

end

text \<open>
  Threads that always make progress: each step takes one from a bound on the steps that are left, and some thread can
  take one as long as not all have finished.
\<close>

locale progressing = interleaved step inv for step :: "'t \<Rightarrow> 's \<Rightarrow> 's option" and inv :: "'s \<Rightarrow> bool" +
  fixes left :: "'s \<Rightarrow> nat" and finished :: "'s \<Rightarrow> bool"
  assumes fewer: "inv s \<Longrightarrow> step t s = Some s' \<Longrightarrow> left s' < left s"
    and live: "inv s \<Longrightarrow> \<not> finished s \<Longrightarrow> \<exists>t s'. step t s = Some s'"
begin

lemma run_bounded: "inv s \<Longrightarrow> run step ts s = Some s' \<Longrightarrow> left s' + length ts \<le> left s"
proof (induction ts arbitrary: s)
  case (Cons t ts)
  then obtain s1 where s1: "step t s = Some s1" "run step ts s1 = Some s'" by (auto simp: bind_eq_Some_conv)
  then show ?case using keeps [OF Cons.prems(1) s1(1)] fewer [OF Cons.prems(1) s1(1)] Cons.IH by fastforce
qed simp

lemma run_on: "inv s \<Longrightarrow> \<exists>ts s'. run step ts s = Some s' \<and> finished s'"
proof (induction "left s" arbitrary: s rule: less_induct)
  case less
  show ?case
  proof (cases "finished s")
    case False
    obtain t s1 where s1: "step t s = Some s1" using live [OF less.prems False] by blast
    then obtain ts s' where "run step ts s1 = Some s'" "finished s'"
      using less.hyps keeps [OF less.prems s1] fewer [OF less.prems s1] by blast
    then show ?thesis using s1 by (intro exI [of _ "t # ts"]) auto
  qed (auto intro!: exI [of _ "[]"])
qed

end

end
