(* ===== verification/Sync_Counter.thy ===== *)
theory Sync_Counter
  imports Interleaving
begin

text \<open>
  The threads of example_sync2.cpp, which increment one counter, as interleaved steps: \<open>thread_routine\<close> with an atomic
  addition, and \<open>thread_routine2\<close> with a mutex around separate reading and writing.  A thread is a pair of what
  \<open>sched_setaffinity\<close> does for it (\<open>True\<close>: it succeeds) and the point it has reached.
\<close>

section \<open>The code\<close>

definition INC_TO :: nat where "INC_TO = 1000000"

text \<open>\<open>Loop i\<close>: at the test of the loop; the other points are between the statements of \<open>thread_routine2\<close>.\<close>

datatype pc = Start | Loop nat | Locked nat | Loaded nat "32 word" | Stored nat | Done

record sync =
  global_int :: "32 word"
  count_lock :: "nat option"
  threads :: "(bool \<times> pc) list"

definition goto :: "nat \<Rightarrow> pc \<Rightarrow> sync \<Rightarrow> sync" where
  "goto t p s = s\<lparr>threads := (threads s)[t := (fst (threads s ! t), p)]\<rparr>"

text \<open>
  A step of thread \<open>t\<close>; \<open>None\<close> when it has returned, has to wait, or overflows the counter.  The loop with the atomic
  addition is also in example_list1.cpp, with another number \<open>n\<close>.
\<close>

definition routine :: "nat \<Rightarrow> nat \<Rightarrow> sync \<Rightarrow> sync option" where
  "routine n t s =
     do { (ok, p) \<leftarrow> rd (threads s) t;
          case p of
            Start \<Rightarrow> Some (goto t (if ok then Loop 0 else Done) s)
          | Loop i \<Rightarrow> Some (if i < n then goto t (Loop (i + 1)) (s\<lparr>global_int := global_int s + 1\<rparr>) else goto t Done s)
          | _ \<Rightarrow> None }"

definition thread_routine :: "nat \<Rightarrow> sync \<Rightarrow> sync option" where
  "thread_routine = routine INC_TO"

definition thread_routine2 :: "nat \<Rightarrow> sync \<Rightarrow> sync option" where
  "thread_routine2 t s =
     do { (ok, p) \<leftarrow> rd (threads s) t;
          case p of
            Start \<Rightarrow> Some (goto t (if ok then Loop 0 else Done) s)
          | Loop i \<Rightarrow>
              (if i < INC_TO
               then (if count_lock s = None then Some (goto t (Locked i) (s\<lparr>count_lock := Some t\<rparr>)) else None)
               else Some (goto t Done s))
          | Locked i \<Rightarrow> Some (goto t (Loaded i (global_int s)) s)
          | Loaded i v \<Rightarrow> do { v' \<leftarrow> i32 (sint v + 1); Some (goto t (Stored i) (s\<lparr>global_int := word_of_int v'\<rparr>)) }
          | Stored i \<Rightarrow> Some (goto t (Loop (i + 1)) (s\<lparr>count_lock := None\<rparr>))
          | Done \<Rightarrow> None }"

text \<open>\<open>main\<close> creates \<open>procs\<close> threads, up to the first failure of \<open>pthread_create\<close>, and waits for all of them.\<close>

fun create :: "(nat \<Rightarrow> bool) \<Rightarrow> nat \<Rightarrow> nat \<Rightarrow> nat" where
  "create created i 0 = i"
| "create created i (Suc k) = (if created i then create created (Suc i) k else i)"

definition start_threads :: "bool list \<Rightarrow> sync" where
  "start_threads oks = \<lparr>global_int = 0, count_lock = None, threads = map (\<lambda>ok. (ok, Start)) oks\<rparr>"

definition joined :: "sync \<Rightarrow> bool" where
  "joined s = list_all (\<lambda>(ok, p). p = Done) (threads s)"

text \<open>The counter and the expected value that are printed, when the threads run as in the schedule \<open>ts\<close>.\<close>

definition main :: "(nat \<Rightarrow> sync \<Rightarrow> sync option) \<Rightarrow> nat \<Rightarrow> (nat \<Rightarrow> bool) \<Rightarrow> (nat \<Rightarrow> bool) \<Rightarrow> nat list \<Rightarrow> (32 word \<times> int) option" where
  "main step procs created affinity ts =
     (let n = create created 0 procs in
      do { s \<leftarrow> run step ts (start_threads (map affinity [0..<n]));
           if joined s then do { e \<leftarrow> i32 (int INC_TO * int n); Some (global_int s, e) } else None })"

section \<open>The invariants\<close>

text \<open>How often a thread has incremented, and how many steps it has left.\<close>

fun counted :: "nat \<Rightarrow> bool \<times> pc \<Rightarrow> nat" where
  "counted n (ok, Start) = 0"
| "counted n (ok, Loop i) = i"
| "counted n (ok, Locked i) = i"
| "counted n (ok, Loaded i v) = i"
| "counted n (ok, Stored i) = i + 1"
| "counted n (ok, Done) = (if ok then n else 0)"

fun todo :: "nat \<Rightarrow> bool \<times> pc \<Rightarrow> nat" where
  "todo n (ok, Start) = 4 * n + 2"
| "todo n (ok, Loop i) = 4 * (n - i) + 1"
| "todo n (ok, Locked i) = 4 * (n - i)"
| "todo n (ok, Loaded i v) = 4 * (n - i) - 1"
| "todo n (ok, Stored i) = 4 * (n - i) - 2"
| "todo n (ok, Done) = 0"

fun thread_ok :: "nat \<Rightarrow> bool \<times> pc \<Rightarrow> bool" where
  "thread_ok n (ok, Start) \<longleftrightarrow> True"
| "thread_ok n (ok, Done) \<longleftrightarrow> True"
| "thread_ok n (ok, Loop i) \<longleftrightarrow> ok \<and> i \<le> n"
| "thread_ok n (ok, Locked i) \<longleftrightarrow> ok \<and> i < n"
| "thread_ok n (ok, Loaded i v) \<longleftrightarrow> ok \<and> i < n"
| "thread_ok n (ok, Stored i) \<longleftrightarrow> ok \<and> i < n"

fun inside :: "bool \<times> pc \<Rightarrow> bool" where
  "inside (ok, Locked i) = True"
| "inside (ok, Loaded i v) = True"
| "inside (ok, Stored i) = True"
| "inside (ok, _) = False"

definition total :: "nat \<Rightarrow> sync \<Rightarrow> nat" where "total n s = sum_list (map (counted n) (threads s))"

definition steps_left :: "nat \<Rightarrow> sync \<Rightarrow> nat" where "steps_left n s = sum_list (map (todo n) (threads s))"

definition sync_inv :: "nat \<Rightarrow> bool list \<Rightarrow> sync \<Rightarrow> bool" where
  "sync_inv n oks s \<longleftrightarrow> map fst (threads s) = oks \<and> list_all (thread_ok n) (threads s) \<and> global_int s = of_nat (total n s)"

text \<open>With the atomic addition no thread is ever inside a critical section.\<close>

definition atomic_inv :: "nat \<Rightarrow> bool list \<Rightarrow> sync \<Rightarrow> bool" where
  "atomic_inv n oks s \<longleftrightarrow> sync_inv n oks s \<and> list_all (\<lambda>th. \<not> inside th) (threads s)"

text \<open>With the mutex only its owner is, and the value that it has read is still that of the counter.\<close>

definition mutex_inv :: "nat \<Rightarrow> bool list \<Rightarrow> sync \<Rightarrow> bool" where
  "mutex_inv n oks s \<longleftrightarrow> sync_inv n oks s
     \<and> (\<forall>t < length (threads s). inside (threads s ! t) = (count_lock s = Some t)
          \<and> (\<forall>ok i v. threads s ! t = (ok, Loaded i v) \<longrightarrow> v = global_int s))
     \<and> (\<forall>t. count_lock s = Some t \<longrightarrow> t < length (threads s))"

lemma goto_fields [simp]: "global_int (goto t p s) = global_int s" "count_lock (goto t p s) = count_lock s"
  "threads (goto t p s) = (threads s)[t := (fst (threads s ! t), p)]"
  by (simp_all add: goto_def)

lemma goto_sums:
  assumes "t < length (threads s)"
  shows "total n (goto t p s) + counted n (threads s ! t) = total n s + counted n (fst (threads s ! t), p)"
    "steps_left n (goto t p s) + todo n (threads s ! t) = steps_left n s + todo n (fst (threads s ! t), p)"
  using sum_list_change [OF assms, of "counted n" "(fst (threads s ! t), p)"] sum_list_change [OF assms, of "todo n" "(fst (threads s ! t), p)"]
  by (simp_all add: total_def steps_left_def)

lemma total_le: "list_all (thread_ok n) ths \<Longrightarrow> sum_list (map (counted n) ths) \<le> n * length ths"
proof (induction ths)
  case (Cons th ths)
  have "counted n th \<le> n" using Cons.prems by (cases "(n, th)" rule: thread_ok.cases) auto
  then show ?case using Cons by simp
qed simp

lemma joined_total:
  assumes "sync_inv n oks s" "joined s"
  shows "global_int s = of_nat (n * length (filter id oks))"
proof -
  have "sum_list (map (counted n) ths) = n * length (filter id (map fst ths))" if "list_all (\<lambda>(ok, p). p = Done) ths" for ths
    using that by (induction ths) auto
  then show ?thesis using assms by (auto simp: sync_inv_def total_def joined_def)
qed

text \<open>A step of one thread that adds \<open>d\<close> to the counter and to its own count.\<close>

lemma sync_inv_goto:
  assumes s: "sync_inv n oks s" and t: "t < length (threads s)" "threads s ! t = (ok, p)"
    and p': "thread_ok n (ok, p')" "counted n (ok, p') = counted n (ok, p) + d"
  shows "sync_inv n oks (goto t p' (s\<lparr>global_int := global_int s + of_nat d, count_lock := l\<rparr>))"
proof -
  let ?s = "s\<lparr>global_int := global_int s + of_nat d, count_lock := l\<rparr>"
  have "total n (goto t p' ?s) = total n s + d"
    using goto_sums(1) [of t ?s n p'] t p'(2) by (simp add: total_def)
  moreover have "map fst ((threads s)[t := (ok, p')]) = map fst (threads s)"
    using t by (metis fst_conv list_update_id map_update)
  ultimately show ?thesis
    using s t p'(1) by (auto simp: sync_inv_def list_all_iff dest!: set_update_subset [OF t(1), THEN subsetD])
qed

lemma steps_left_goto:
  "t < length (threads s) \<Longrightarrow> threads s ! t = (ok, p) \<Longrightarrow> todo n (ok, p') < todo n (ok, p) \<Longrightarrow>
    steps_left n (goto t p' (s\<lparr>global_int := g, count_lock := l\<rparr>)) < steps_left n s"
  using goto_sums(2) [of t "s\<lparr>global_int := g, count_lock := l\<rparr>" n p'] by (simp add: steps_left_def)

text \<open>Every step has this form.\<close>

lemma routine_cases:
  assumes "routine n t s = Some s'" "sync_inv n oks s"
  obtains ok p p' d where "t < length (threads s)" "threads s ! t = (ok, p)" "\<not> inside (ok, p')" "thread_ok n (ok, p')"
    "counted n (ok, p') = counted n (ok, p) + d" "todo n (ok, p') < todo n (ok, p)"
    "s' = goto t p' (s\<lparr>global_int := global_int s + of_nat d, count_lock := count_lock s\<rparr>)"
proof -
  obtain ok p where t: "t < length (threads s)" "threads s ! t = (ok, p)"
    using assms(1) by (cases "threads s ! t") (auto simp: routine_def rd_eq_Some_iff bind_eq_Some_conv)
  have k: "thread_ok n (ok, p)" using assms(2) t by (metis list_all_length sync_inv_def)
  show thesis
  proof (cases p)
    case Start
    then have "s' = goto t (if ok then Loop 0 else Done) (s\<lparr>global_int := global_int s + of_nat 0, count_lock := count_lock s\<rparr>)"
      using assms(1) t by (simp add: routine_def)
    then show thesis using that [of ok p "if ok then Loop 0 else Done" 0] t Start by simp
  next
    case (Loop i)
    show thesis
    proof (cases "i < n")
      case True
      then have "s' = goto t (Loop (i + 1)) (s\<lparr>global_int := global_int s + of_nat 1, count_lock := count_lock s\<rparr>)"
        using assms(1) t Loop by (simp add: routine_def)
      then show thesis using that [of ok p "Loop (i + 1)" 1] t Loop True k by simp
    next
      case False
      then have "s' = goto t Done (s\<lparr>global_int := global_int s + of_nat 0, count_lock := count_lock s\<rparr>)"
        using assms(1) t Loop by (simp add: routine_def)
      then show thesis using that [of ok p Done 0] t Loop False k by simp
    qed
  qed (use assms(1) t in \<open>simp_all add: routine_def\<close>)
qed

lemma not_joined: "\<not> joined s \<Longrightarrow> \<exists>t ok p. t < length (threads s) \<and> threads s ! t = (ok, p) \<and> p \<noteq> Done"
  by (auto simp: joined_def list_all_length)

interpretation atomic: progressing "routine n" "atomic_inv n oks" "steps_left n" joined
  for n :: nat and oks :: "bool list"
proof
  have step: "atomic_inv n oks s' \<and> steps_left n s' < steps_left n s" if s: "atomic_inv n oks s" and st: "routine n t s = Some s'" for s t s'
  proof -
    have si: "sync_inv n oks s" using s by (simp add: atomic_inv_def)
    obtain ok p p' d where c: "t < length (threads s)" "threads s ! t = (ok, p)" "\<not> inside (ok, p')" "thread_ok n (ok, p')"
      "counted n (ok, p') = counted n (ok, p) + d" "todo n (ok, p') < todo n (ok, p)"
      "s' = goto t p' (s\<lparr>global_int := global_int s + of_nat d, count_lock := count_lock s\<rparr>)"
      using routine_cases [OF st si] by blast
    then have "list_all (\<lambda>th. \<not> inside th) (threads s')"
      using s by (auto simp: atomic_inv_def list_all_iff dest!: set_update_subset [OF c(1), THEN subsetD])
    then show ?thesis unfolding atomic_inv_def c(7)
      using sync_inv_goto [OF si c(1,2,4,5)] steps_left_goto [OF c(1,2,6)] by blast
  qed
  show "atomic_inv n oks s'" if "atomic_inv n oks s" "routine n t s = Some s'" for s t s' using step that by blast
  show "steps_left n s' < steps_left n s" if "atomic_inv n oks s" "routine n t s = Some s'" for s t s' using step that by blast
  show "\<exists>t s'. routine n t s = Some s'" if s: "atomic_inv n oks s" and nj: "\<not> joined s" for s
  proof -
    obtain t ok p where t: "t < length (threads s)" "threads s ! t = (ok, p)" "p \<noteq> Done" using not_joined [OF nj] by blast
    then have "\<not> inside (ok, p)" using s by (metis atomic_inv_def list_all_length)
    then have "\<exists>s'. routine n t s = Some s'" using t by (cases p) (simp_all add: routine_def)
    then show ?thesis by blast
  qed
qed

text \<open>The critical section: another thread that has read the counter would own the lock too.\<close>

lemma mutex_goto:
  assumes m: "mutex_inv n oks s" and t: "t < length (threads s)" "threads s ! t = (ok, p)"
    and p': "thread_ok n (ok, p')" "counted n (ok, p') = counted n (ok, p) + d" "inside (ok, p') \<longleftrightarrow> l = Some t"
    and l: "\<And>u. u \<noteq> t \<Longrightarrow> l = Some u \<longleftrightarrow> count_lock s = Some u" and d: "d \<noteq> 0 \<Longrightarrow> inside (ok, p)"
    and v: "\<And>i v. p' = Loaded i v \<Longrightarrow> v = global_int s + of_nat d"
  shows "mutex_inv n oks (goto t p' (s\<lparr>global_int := global_int s + of_nat d, count_lock := l\<rparr>))"
proof -
  let ?s = "goto t p' (s\<lparr>global_int := global_int s + of_nat d, count_lock := l\<rparr>)"
  have si: "sync_inv n oks s"
    and c: "\<And>u. u < length (threads s) \<Longrightarrow> inside (threads s ! u) = (count_lock s = Some u)"
    and w: "\<And>u ok i v. u < length (threads s) \<Longrightarrow> threads s ! u = (ok, Loaded i v) \<Longrightarrow> v = global_int s"
    and b: "\<And>u. count_lock s = Some u \<Longrightarrow> u < length (threads s)"
    using m by (auto simp: mutex_inv_def)
  have ths: "threads ?s = (threads s)[t := (ok, p')]" using t by simp
  have "inside (threads ?s ! u) = (count_lock ?s = Some u) \<and> (\<forall>ok i v. threads ?s ! u = (ok, Loaded i v) \<longrightarrow> v = global_int ?s)"
    if u: "u < length (threads ?s)" for u
  proof (cases "u = t")
    case True
    then show ?thesis using t p'(3) v by simp
  next
    case False
    have "d = 0" if e: "threads s ! u = (ok', Loaded i v')" for ok' i v'
    proof (rule ccontr)
      assume "d \<noteq> 0"
      then have "count_lock s = Some t" using d c [OF t(1)] t(2) by simp
      moreover have "count_lock s = Some u" using c [of u] e u by simp
      ultimately show False using False by simp
    qed
    then show ?thesis using False u c [of u] w [of u] l [of u] by auto
  qed
  moreover have "u < length (threads ?s)" if "count_lock ?s = Some u" for u
    using that b [of u] l [of u] t(1) by (cases "u = t") auto
  ultimately show ?thesis unfolding mutex_inv_def using sync_inv_goto [OF si t p'(1,2)] by blast
qed

lemma increment:
  assumes si: "sync_inv n oks s" and small: "n * length oks < 2 ^ 31" and t: "t < length (threads s)" "threads s ! t = (ok, Loaded i v)"
    and v: "v = global_int s"
  shows "i32 (sint v + 1) = Some (sint v + 1)" "word_of_int (sint v + 1) = global_int s + 1"
proof -
  have len: "length (threads s) = length oks" using si by (auto simp: sync_inv_def)
  have "total n (goto t (Loop n) s) + i = total n s + n" using goto_sums(1) [OF t(1), of n "Loop n"] t(2) by simp
  moreover have th: "list_all (thread_ok n) (threads s)" "thread_ok n (ok, Loaded i v)"
    using si t by (auto simp: sync_inv_def list_all_length)
  moreover have "list_all (thread_ok n) ((threads s)[t := (ok, Loop n)])"
    using th set_update_subset [OF t(1)] by (fastforce simp: list_all_iff)
  then have "total n (goto t (Loop n) s) \<le> n * length oks"
    using total_le [of n "(threads s)[t := (ok, Loop n)]"] t(2) len by (simp add: total_def)
  ultimately have "total n s < 2 ^ 31 - 1" using small th(2) by simp
  moreover have "v = of_nat (total n s)" using v si by (simp add: sync_inv_def)
  moreover have "sint (of_nat (total n s) :: 32 word) = int (total n s)" if "total n s < 2 ^ 31 - 1"
    using that by (simp add: signed_of_nat signed_take_bit_int_eq_self)
  ultimately show "i32 (sint v + 1) = Some (sint v + 1)" by simp
  show "word_of_int (sint v + 1) = global_int s + 1" using v by simp
qed

lemma mutex_step:
  assumes s: "mutex_inv INC_TO oks s \<and> INC_TO * length oks < 2 ^ 31" and st: "thread_routine2 t s = Some s'"
  shows "mutex_inv INC_TO oks s' \<and> steps_left INC_TO s' < steps_left INC_TO s"
proof -
  have m: "mutex_inv INC_TO oks s" and small: "INC_TO * length oks < 2 ^ 31" and si: "sync_inv INC_TO oks s" using s by (auto simp: mutex_inv_def)
  obtain ok p where t: "t < length (threads s)" "threads s ! t = (ok, p)"
    using st by (cases "threads s ! t") (auto simp: thread_routine2_def rd_eq_Some_iff bind_eq_Some_conv)
  have k: "thread_ok INC_TO (ok, p)" using si t by (metis list_all_length sync_inv_def)
  have c: "inside (ok, p) \<longleftrightarrow> count_lock s = Some t" using m t unfolding mutex_inv_def by metis
  have "mutex_inv INC_TO oks s' \<and> steps_left INC_TO s' < steps_left INC_TO s"
    if "s' = goto t p' (s\<lparr>global_int := global_int s + of_nat d, count_lock := l\<rparr>)" "thread_ok INC_TO (ok, p')"
      "counted INC_TO (ok, p') = counted INC_TO (ok, p) + d" "inside (ok, p') \<longleftrightarrow> l = Some t"
      "\<And>u. u \<noteq> t \<Longrightarrow> l = Some u \<longleftrightarrow> count_lock s = Some u" "d \<noteq> 0 \<Longrightarrow> inside (ok, p)"
      "\<And>i v. p' = Loaded i v \<Longrightarrow> v = global_int s + of_nat d" "todo INC_TO (ok, p') < todo INC_TO (ok, p)" for p' d l
    unfolding that(1)
  proof
    show "mutex_inv INC_TO oks (goto t p' (s\<lparr>global_int := global_int s + of_nat d, count_lock := l\<rparr>))"
      by (rule mutex_goto [OF m t]) (fact that)+
    show "steps_left INC_TO (goto t p' (s\<lparr>global_int := global_int s + of_nat d, count_lock := l\<rparr>)) < steps_left INC_TO s"
      by (rule steps_left_goto [OF t]) (fact that)
  qed
  note step = this
  show ?thesis
  proof (cases p)
    case Start
    then show ?thesis using step [of "if ok then Loop 0 else Done" "count_lock s" 0] st t c small by (simp add: thread_routine2_def split: if_splits)
  next
    case (Loop i)
    show ?thesis
    proof (cases "i < INC_TO")
      case True
      then show ?thesis using step [of "Locked i" "Some t" 0] st t c k small Loop by (simp add: thread_routine2_def split: if_splits)
    next
      case False
      then show ?thesis using step [of Done "count_lock s" 0] st t c k small Loop by (simp add: thread_routine2_def split: if_splits)
    qed
  next
    case (Locked i)
    then show ?thesis using step [of "Loaded i (global_int s)" "count_lock s" 0] st t c k small by (simp add: thread_routine2_def split: if_splits)
  next
    case (Loaded i v)
    have v: "v = global_int s" using m t Loaded unfolding mutex_inv_def by blast
    have "4 * (INC_TO - i) - 2 < 4 * (INC_TO - i) - 1" using k Loaded by auto
    then show ?thesis
      using step [of "Stored i" "count_lock s" 1] increment [OF si small t(1) t(2) [unfolded Loaded] v] st t c k small Loaded
      by (simp add: thread_routine2_def split: if_splits)
  next
    case (Stored i)
    then have "INC_TO - i = Suc (INC_TO - Suc i)" using k by (simp add: Suc_diff_Suc)
    then have "Suc (4 * (INC_TO - Suc i)) < 4 * (INC_TO - i) - 2" by simp
    then show ?thesis using Stored step [of "Loop (i + 1)" None 0] st t c k small by (simp add: thread_routine2_def split: if_splits)
  next
    case Done
    then show ?thesis using st t by (simp add: thread_routine2_def split: if_splits)
  qed
qed

lemma mutex_live:
  assumes s: "mutex_inv INC_TO oks s \<and> INC_TO * length oks < 2 ^ 31" and nj: "\<not> joined s"
  shows "\<exists>t s'. thread_routine2 t s = Some s'"
proof -
  have m: "mutex_inv INC_TO oks s" and si: "sync_inv INC_TO oks s" using s by (auto simp: mutex_inv_def)
  show ?thesis
  proof (cases "count_lock s")
    case None
    obtain t ok p where t: "t < length (threads s)" "threads s ! t = (ok, p)" "p \<noteq> Done" using not_joined [OF nj] by blast
    then have "\<not> inside (ok, p)" using m None by (auto simp: mutex_inv_def)
    then have "\<exists>s'. thread_routine2 t s = Some s'" using t None by (cases p) (simp_all add: thread_routine2_def)
    then show ?thesis by blast
  next
    case (Some t)
    then have t: "t < length (threads s)" "inside (threads s ! t)" using m by (auto simp: mutex_inv_def)
    obtain ok p where p: "threads s ! t = (ok, p)" by fastforce
    have "\<exists>s'. thread_routine2 t s = Some s'"
    proof (cases p)
      case (Loaded i v)
      then have "v = global_int s" using m t(1) p unfolding mutex_inv_def by blast
      then show ?thesis using increment(1) [OF si _ t(1) p [unfolded Loaded]] s t(1) p Loaded by (simp add: thread_routine2_def split: if_splits)
    qed (use t p in \<open>simp_all add: thread_routine2_def\<close>)
    then show ?thesis by blast
  qed
qed

interpretation mutex: progressing thread_routine2 "\<lambda>s. mutex_inv INC_TO oks s \<and> INC_TO * length oks < 2 ^ 31"
    "steps_left INC_TO" joined
  for oks :: "bool list"
  by unfold_locales (use mutex_step in blast, use mutex_step in blast, use mutex_live in blast)

section \<open>The program\<close>

lemma started: "sync_inv n oks (start_threads oks)" "atomic_inv n oks (start_threads oks)" "mutex_inv n oks (start_threads oks)"
proof -
  have z: "sum_list (map (counted n) (map (\<lambda>ok. (ok, Start)) oks)) = 0" by (induction oks) auto
  show *: "sync_inv n oks (start_threads oks)"
    unfolding sync_inv_def start_threads_def total_def
    using z by (simp add: list_all_iff comp_def)
  then show "atomic_inv n oks (start_threads oks)" "mutex_inv n oks (start_threads oks)"
    by (auto simp: atomic_inv_def mutex_inv_def start_threads_def list_all_iff)
qed

text \<open>
  C22: counting with threads.  With the atomic addition, and with the mutex as long as the counter
  does not overflow, every schedule of the threads that were created can be continued until all have returned, and then the counter is
  a million for each thread whose affinity could be set, modulo \<open>2 ^ 32\<close>.  So it is the expected value that is printed
  beside it when this holds for all of them.
\<close>

theorem counting_exact:
  assumes "step = thread_routine \<or> step = thread_routine2 \<and> INC_TO * length oks < 2 ^ 31"
    and "run step ts (start_threads oks) = Some s"
  shows "(\<exists>ts' s'. run step ts' s = Some s' \<and> joined s')
    \<and> (joined s \<longrightarrow> global_int s = of_nat (INC_TO * length (filter id oks)))"
proof -
  have *: "sync_inv INC_TO oks s \<and> (\<exists>ts' s'. run step ts' s = Some s' \<and> joined s')"
    using assms(1)
  proof
    assume st: "step = thread_routine"
    then have "atomic_inv INC_TO oks s" using atomic.run_inv [OF started(2)] assms(2) by (simp add: thread_routine_def)
    then show ?thesis using atomic.run_on st by (auto simp: thread_routine_def atomic_inv_def)
  next
    assume st: "step = thread_routine2 \<and> INC_TO * length oks < 2 ^ 31"
    then have "mutex_inv INC_TO oks s \<and> INC_TO * length oks < 2 ^ 31"
      using mutex.run_inv [OF conjI [OF started(3)]] assms(2) by blast
    then show ?thesis using mutex.run_on st by (auto simp: mutex_inv_def)
  qed
  then show ?thesis using joined_total by blast
qed

theorem counting_exact_witness:
  "(\<exists>ts' s'. run thread_routine ts' (start_threads [True, False, True]) = Some s' \<and> joined s')
   \<and> (\<exists>ts' s'. run thread_routine2 ts' (start_threads [True, False, True]) = Some s' \<and> joined s')
   \<and> run thread_routine [1, 0] (start_threads [False, False]) = Some \<lparr>global_int = 0, count_lock = None, threads = [(False, Done), (False, Done)]\<rparr>
   \<and> (0 :: 32 word) = of_nat (INC_TO * length (filter id [False, False]))"
proof -
  have a: "\<exists>ts' s'. run thread_routine ts' (start_threads [True, False, True]) = Some s' \<and> joined s'"
    by (rule counting_exact [where ts = "[]", THEN conjunct1]) simp_all
  have b: "\<exists>ts' s'. run thread_routine2 ts' (start_threads [True, False, True]) = Some s' \<and> joined s'"
    by (rule counting_exact [where ts = "[]" and oks = "[True, False, True]", THEN conjunct1]) (simp_all add: INC_TO_def)
  have r: "run thread_routine [1, 0] (start_threads [False, False])
      = Some \<lparr>global_int = 0, count_lock = None, threads = [(False, Done), (False, Done)]\<rparr>"
    by (simp add: thread_routine_def routine_def start_threads_def goto_def)
  have "(0 :: 32 word) = of_nat (INC_TO * length (filter id [False, False]))"
    using counting_exact [OF _ r] by (simp add: joined_def)
  then show ?thesis using a b r by blast
qed

lemma main_prints:
  assumes "main thread_routine procs created affinity ts = Some (c, e)"
  shows "c = of_nat (INC_TO * length (filter affinity [0..<create created 0 procs])) \<and> e = int (INC_TO * create created 0 procs)"
proof -
  let ?oks = "map affinity [0..<create created 0 procs]"
  obtain s where s: "run thread_routine ts (start_threads ?oks) = Some s" "joined s" "c = global_int s" "e = int (INC_TO * create created 0 procs)"
    using assms by (auto simp: main_def Let_def bind_eq_Some_conv i32_eq_Some_iff split: if_splits)
  have "sync_inv INC_TO ?oks s" using atomic.run_inv [OF started(2) s(1) [unfolded thread_routine_def]] by (simp add: atomic_inv_def)
  then have "c = of_nat (INC_TO * length (filter id ?oks))" using joined_total s(2,3) by simp
  moreover have "length (filter id ?oks) = length (filter affinity [0..<create created 0 procs])" by (simp add: filter_map comp_def)
  ultimately show ?thesis using s(4) by metis
qed

section \<open>The same routine in example_list1.cpp\<close>

text \<open>
  example_list1.cpp: twenty threads that add to one counter, each with the loop of \<open>routine\<close>.  When a thread
  cannot be created, its identifier is joined uninitialised: \<open>None\<close>.
\<close>

definition test_func :: "nat \<Rightarrow> sync \<Rightarrow> sync option" where
  "test_func = routine 20000"

definition count_main :: "(nat \<Rightarrow> bool) \<Rightarrow> nat list \<Rightarrow> 32 word option" where
  "count_main created ts =
     (if list_all created [0..<20]
      then do { s \<leftarrow> run test_func ts \<lparr>global_int = 0, count_lock = None, threads = replicate 20 (True, Loop 0)\<rparr>;
                if joined s then Some (global_int s) else None }
      else None)"

lemma launched: "atomic_inv n (replicate k True) \<lparr>global_int = 0, count_lock = None, threads = replicate k (True, Loop 0)\<rparr>"
  by (simp add: atomic_inv_def sync_inv_def total_def list_all_iff sum_list_replicate)

text \<open>Whatever the schedule, the program prints 400000, and every partial schedule can be completed.\<close>

lemma count_main_prints: "count_main created ts = Some c \<Longrightarrow> c = 400000"
proof -
  assume "count_main created ts = Some c"
  then obtain s where s: "run (routine 20000) ts \<lparr>global_int = 0, count_lock = None, threads = replicate 20 (True, Loop 0)\<rparr> = Some s"
    "joined s" "c = global_int s"
    by (auto simp: count_main_def test_func_def bind_eq_Some_conv split: if_splits)
  have "sync_inv 20000 (replicate 20 True) s" using atomic.run_inv [OF launched s(1)] by (simp add: atomic_inv_def)
  then show ?thesis using joined_total s(2,3) by fastforce
qed

lemma count_main_ends:
  assumes "list_all created [0..<20]"
    and "run test_func ts \<lparr>global_int = 0, count_lock = None, threads = replicate 20 (True, Loop 0)\<rparr> = Some s"
  shows "\<exists>ts'. count_main created (ts @ ts') = Some 400000"
proof -
  have "atomic_inv 20000 (replicate 20 True) s"
    using atomic.run_inv [OF launched] assms(2) by (simp add: test_func_def)
  then obtain ts' s' where "run test_func ts' s = Some s'" "joined s'"
    using atomic.run_on unfolding test_func_def by blast
  then have "count_main created (ts @ ts') = Some (global_int s')"
    using assms by (simp add: count_main_def run_append)
  moreover have "global_int s' = 400000" using count_main_prints calculation by blast
  ultimately show ?thesis by auto
qed

end
