(* ===== verification/BPlus_Print.thy ===== *)
theory BPlus_Print
  imports BPlus_Search
begin

text \<open>
  The print of the tree, \<open>printInConcavo\<close>, of example_bplus_tree.cpp.  A printed line is the number of dashes
  and the key behind them.
\<close>

section \<open>The code\<close>

text \<open>The loop over the keys from \<open>i\<close> on, and the last child behind it; dashes are written for \<open>j = cnt, ..., 0\<close>.\<close>

partial_function (option) print_from :: "'k heap \<Rightarrow> ptr \<Rightarrow> int \<Rightarrow> int \<Rightarrow> (nat \<times> 'k) list option" where
  "print_from h p cnt i =
     (if p = 0 then Some []
      else do { n \<leftarrow> node_at h p;
                before \<leftarrow> (if m_Type n \<noteq> LEAF then do { c \<leftarrow> getChild n i; print_from h c (cnt - 2) 0 } else Some []);
                if i < m_KeyNum n
                then do { k \<leftarrow> getKeyValue n i;
                          rest \<leftarrow> print_from h p cnt (i + 1);
                          Some (before @ (nat (cnt + 1), k) # rest) }
                else Some before })"

definition printInConcavo :: "'k heap \<Rightarrow> ptr \<Rightarrow> int \<Rightarrow> (nat \<times> 'k) list option" where
  "printInConcavo h p cnt = print_from h p cnt 0"

definition print :: "'k cbtree \<Rightarrow> (nat \<times> 'k) list option" where
  "print t = printInConcavo (nodes_h t) (m_Root t) 10"

declare print_from.simps [code]

section \<open>The print of an abstract tree\<close>

fun interleave :: "'a list list \<Rightarrow> 'a list \<Rightarrow> 'a list" where
  "interleave [] ys = ys"
| "interleave (xs # xss) [] = xs"
| "interleave (xs # xss) (y # ys) = xs @ y # interleave xss ys"

fun bt_print :: "'k bt \<Rightarrow> int \<Rightarrow> (nat \<times> 'k) list" where
  "bt_print (BLeaf kvs) c = map (\<lambda>q. (nat (c + 1), fst q)) kvs"
| "bt_print (BNode ks ts) c = interleave (map (\<lambda>t. bt_print t (c - 2)) ts) (map (Pair (nat (c + 1))) ks)"

text \<open>The keys of the internal nodes.\<close>

fun bt_seps :: "'k bt \<Rightarrow> 'k multiset" where
  "bt_seps (BLeaf kvs) = {#}"
| "bt_seps (BNode ks ts) = mset ks + sum_list (map bt_seps ts)"

fun bt_entries :: "'k bt \<Rightarrow> 'k multiset" where
  "bt_entries (BLeaf kvs) = mset (map fst kvs)"
| "bt_entries (BNode ks ts) = sum_list (map bt_entries ts)"

lemma mset_interleave: "length xss = Suc (length ys) \<Longrightarrow> mset (interleave xss ys) = mset ys + sum_list (map mset xss)"
  by (induction xss ys rule: interleave.induct) auto

lemma set_interleave: "length xss = Suc (length ys) \<Longrightarrow> set (interleave xss ys) = set ys \<union> \<Union> (set (map set xss))"
  by (induction xss ys rule: interleave.induct) auto

lemma map_interleave: "map f (interleave xss ys) = interleave (map (map f) xss) (map f ys)"
  by (induction xss ys rule: interleave.induct) auto

lemma sorted_interleave:
  fixes ys :: "('k :: linorder) list"
  shows "length xss = Suc (length ys) \<Longrightarrow> \<forall>xs \<in> set xss. sorted xs \<Longrightarrow> sorted ys \<Longrightarrow>
    (\<And>i k. i < length xss \<Longrightarrow> k \<in> set (xss ! i) \<Longrightarrow> (0 < i \<longrightarrow> ys ! (i - 1) \<le> k) \<and> (i < length ys \<longrightarrow> k < ys ! i)) \<Longrightarrow>
    sorted (interleave xss ys)"
proof (induction xss ys rule: interleave.induct)
  case (3 xs xss y ys)
  have low: "y \<le> k" if "i < length xss" "k \<in> set (xss ! i)" for i k
  proof -
    have "(y # ys) ! i \<le> k" using "3.prems"(4) [of "Suc i" k] that by simp
    moreover have "y \<le> (y # ys) ! i" using "3.prems"(1,3) that(1) by (cases i) auto
    ultimately show ?thesis by simp
  qed
  have "(0 < i \<longrightarrow> ys ! (i - 1) \<le> k) \<and> (i < length ys \<longrightarrow> k < ys ! i)" if "i < length xss" "k \<in> set (xss ! i)" for i k
    using "3.prems"(4) [of "Suc i" k] that by (cases i) auto
  then have "sorted (interleave xss ys)" using "3.IH" "3.prems"(1,2,3) by simp
  moreover have "\<forall>k \<in> set (interleave xss ys). y \<le> k"
  proof -
    have "y \<le> k" if "xs \<in> set xss" "k \<in> set xs" for k xs
      using that low by (auto simp: in_set_conv_nth [of xs xss])
    then show ?thesis using "3.prems"(1,3) by (auto simp: set_interleave)
  qed
  moreover have "\<forall>k \<in> set xs. k < y" using "3.prems"(4) [of 0] by auto
  ultimately show ?case using "3.prems"(2) by (auto simp: sorted_append) (meson order.trans less_imp_le)+
qed auto

lemma print_keys: "bt_sound b \<Longrightarrow> mset (map snd (bt_print b c)) = bt_entries b + bt_seps b"
proof (induction b arbitrary: c)
  case (BLeaf kvs)
  then show ?case by (simp add: comp_def)
next
  case (BNode ks ts)
  have "sum_list (map (\<lambda>t. mset (map snd (bt_print t (c - 2)))) us) = sum_list (map bt_entries us) + sum_list (map bt_seps us)"
    if "set us \<subseteq> set ts" for us
    using that
  proof (induction us)
    case (Cons u us)
    then have "bt_sound u" "u \<in> set ts" using BNode.prems by auto
    then show ?case using Cons BNode.IH by (simp add: add.assoc add.left_commute)
  qed simp
  then show ?case using BNode.prems by (simp add: map_interleave mset_interleave comp_def ac_simps)
qed

lemma print_set: "bt_sound b \<Longrightarrow> set (map snd (bt_print b c)) = bt_keys b"
proof (induction b arbitrary: c)
  case (BNode ks ts)
  have u: "set (map snd (bt_print t (c - 2))) = bt_keys t" if "t \<in> set ts" for t using BNode that by auto
  have "set (map snd (bt_print (BNode ks ts) c)) = set ks \<union> \<Union> (set (map bt_keys ts))"
    using u BNode.prems by (simp add: map_interleave set_interleave comp_def image_image)
  then show ?case using BNode.prems by auto
qed (simp add: image_image)

lemma print_is_sorted: "bt_sound b \<Longrightarrow> sorted (map snd (bt_print b c))"
proof (induction b arbitrary: c)
  case (BLeaf kvs)
  then show ?case using strict_sorted_imp_sorted [of "map fst kvs"] by (simp add: comp_def sorted_wrt_map)
next
  case (BNode ks ts)
  have k: "set (map snd (bt_print (ts ! i) (c - 2))) = bt_keys (ts ! i)" if "i < length ts" for i
    using BNode.prems that by (intro print_set) auto
  have "sorted (interleave (map (\<lambda>t. map snd (bt_print t (c - 2))) ts) ks)"
    using BNode k by (intro sorted_interleave) auto
  then show ?case by (simp add: map_interleave comp_def)
qed

section \<open>The print of a sound tree\<close>

lemma print_from_rep:
  "bt_rep h p b \<Longrightarrow> bt_sound b \<Longrightarrow> print_from h p c 0 = Some (bt_print b c)"
proof (induction b arbitrary: p c)
  case (BLeaf kvs)
  then obtain n where n: "node_at h p = Some n" "leaf_rep n kvs" by auto
  have kn: "m_KeyNum n = int (length kvs)" "m_Type n = LEAF" using n(2) by (simp_all add: leaf_rep_def)
  have "print_from h p c (int i) = Some (map (\<lambda>q. (nat (c + 1), fst q)) (drop i kvs))" if "i \<le> length kvs" for i
    using that
  proof (induction "length kvs - i" arbitrary: i)
    case 0
    then show ?case using n(1) kn node_atD [OF n(1)] by (subst print_from.simps) simp
  next
    case (Suc d)
    then have i: "i < length kvs" "d = length kvs - Suc i" by simp_all
    have "print_from h p c (int (Suc i)) = Some (map (\<lambda>q. (nat (c + 1), fst q)) (drop (Suc i) kvs))"
      using Suc.hyps(1) [OF i(2)] i(1) by simp
    then have "print_from h p c (int i + 1) = Some (map (\<lambda>q. (nat (c + 1), fst q)) (drop (Suc i) kvs))"
      by (simp add: add.commute)
    then show ?case
      using n(1) kn node_atD [OF n(1)] leaf_rep_key [OF n(2), of "int i"] i(1)
      by (subst print_from.simps) (simp flip: Cons_nth_drop_Suc [OF i(1)])
  qed
  from this [of 0] show ?case by simp
next
  case (BNode ks ts)
  then obtain n cs where n: "node_at h p = Some n" "node_rep n ks cs" "length cs = length ts"
    "\<And>i. i < length ts \<Longrightarrow> bt_rep h (cs ! i) (ts ! i)" by auto
  have kn: "m_KeyNum n = int (length ks)" "m_Type n = INTERNAL" using n(2) by (simp_all add: node_rep_def)
  have len: "length ts = Suc (length ks)" using BNode.prems(2) by simp
  let ?xs = "map (\<lambda>t. bt_print t (c - 2)) ts" and ?ys = "map (Pair (nat (c + 1))) ks"
  have child: "getChild n (int i) = Some (cs ! i)" "print_from h (cs ! i) (c - 2) 0 = Some (?xs ! i)" if "i < length ts" for i
    using that node_rep_child [OF n(2), of "int i"] n(4) BNode.prems(2) BNode.IH [of "ts ! i" "cs ! i" "c - 2"] len by auto
  have "print_from h p c (int i) = Some (interleave (drop i ?xs) (drop i ?ys))" if "i \<le> length ks" for i
    using that
  proof (induction "length ks - i" arbitrary: i)
    case 0
    then have i: "i = length ks" by simp
    have "drop i ?xs = [?xs ! i]" using len i by (metis Cons_nth_drop_Suc drop_all length_map lessI order_refl)
    then show ?case using n(1) kn node_atD [OF n(1)] child [of i] len i by (subst print_from.simps) simp
  next
    case (Suc d)
    then have i: "i < length ks" "d = length ks - Suc i" by simp_all
    have "print_from h p c (int (Suc i)) = Some (interleave (drop (Suc i) ?xs) (drop (Suc i) ?ys))"
      using Suc.hyps(1) [OF i(2)] i(1) by simp
    then have r: "print_from h p c (int i + 1) = Some (interleave (drop (Suc i) ?xs) (drop (Suc i) ?ys))"
      by (simp add: add.commute)
    have d: "drop i ?xs = ?xs ! i # drop (Suc i) ?xs" "drop i ?ys = ?ys ! i # drop (Suc i) ?ys"
      using i(1) len by (simp_all add: Cons_nth_drop_Suc del: drop_map nth_map)
    show ?case
      unfolding d
      using n(1) kn node_atD [OF n(1)] node_rep_key [OF n(2), of "int i"] i(1) child [of i] len r
      by (subst print_from.simps) (simp del: drop_map)
  qed
  from this [of 0] show ?case by simp
qed

text \<open>
  Printing.  On every heap that represents a sound tree of any height, \<open>print\<close> ends without undefined behaviour and
  prints the keys in ascending order: every stored key once for its entry in a leaf and once for
  each time it separates children, and nothing else.
\<close>

theorem bplus_print:
  assumes "bt_rep (nodes_h t) (m_Root t) b" "bt_sound b"
  shows "\<exists>out. print t = Some out \<and> sorted (map snd out) \<and> set (map snd out) = bt_keys b
    \<and> mset (map snd out) = bt_entries b + bt_seps b"
  using print_from_rep [OF assms] print_is_sorted [OF assms(2)] print_set [OF assms(2)] print_keys [OF assms(2)]
  by (simp add: print_def printInConcavo_def)

theorem bplus_print_witness:
  "\<exists>out. print sample_tree = Some out \<and> sorted (map snd out) \<and> mset (map snd out) = mset [1..13] + {#7#}"
proof -
  obtain out where "print sample_tree = Some out" "sorted (map snd out)" "mset (map snd out) = bt_entries sample_bt + bt_seps sample_bt"
    using bplus_print [OF sample_rep sample_sound] by blast
  moreover have "bt_entries sample_bt + bt_seps sample_bt = mset [1..13] + {#7#}" by (simp add: sample_bt_def upto.simps)
  ultimately show ?thesis by auto
qed

end
