(* ===== verification/Http_Handler.thy ===== *)
theory Http_Handler
  imports Prelude
begin

text \<open>
  The thread of example_thread_epoll1.cpp that answers a client, \<open>pthread_handle_message\<close>, on a non-blocking socket.
  \<open>net i\<close> is the result of the \<open>i\<close>-th call of recv and whether errno is then \<open>EAGAIN\<close>.
  The counter of answers per second is output only.
\<close>

section \<open>The code\<close>

datatype action = SendAnswer | CloseSocket

text \<open>The loop ends with the last result of recv, the number of calls, and what it does to the socket.\<close>

partial_function (option) recv_loop :: "(nat \<Rightarrow> int \<times> bool) \<Rightarrow> nat \<Rightarrow> (int \<times> nat \<times> action list) option" where
  "recv_loop net i =
     (let (ret, again) = net i in
      if ret < 0 then Some (ret, i + 1, if again then [] else [CloseSocket])
      else let rs = (if ret = 0 then False else True);
               rs = (if ret = 1024 then True else False) in
           if rs then recv_loop net (i + 1) else Some (ret, i + 1, []))"

definition pthread_handle_message :: "(nat \<Rightarrow> int \<times> bool) \<Rightarrow> (nat \<times> action list) option" where
  "pthread_handle_message net =
     do { (ret, n, acts) \<leftarrow> recv_loop net 0;
          Some (n, acts @ (if ret > 0 then [SendAnswer] else []) @ [CloseSocket]) }"

section \<open>What it does\<close>

lemma recv_loop_stops:
  "i \<le> k \<Longrightarrow> (\<And>j. i \<le> j \<Longrightarrow> j < k \<Longrightarrow> fst (net j) = 1024) \<Longrightarrow> net k = (ret, again) \<Longrightarrow> ret \<noteq> 1024 \<Longrightarrow>
    recv_loop net i = Some (ret, k + 1, if ret < 0 \<and> \<not> again then [CloseSocket] else [])"
proof (induction "k - i" arbitrary: i)
  case 0
  then show ?case by (subst recv_loop.simps) simp
next
  case (Suc d)
  have "fst (net i) = 1024" using Suc.prems(2) [of i] Suc.hyps(2) by simp
  moreover have "recv_loop net (Suc i) = Some (ret, k + 1, if ret < 0 \<and> \<not> again then [CloseSocket] else [])"
    using Suc.hyps(2) Suc.prems by (intro Suc.hyps(1)) auto
  ultimately show ?case by (subst recv_loop.simps) (simp add: split_beta)
qed

lemma recv_loop_forever:
  assumes "\<And>j. fst (net j) = 1024"
  shows "recv_loop net i = None"
proof (rule ccontr)
  have "\<not> (\<forall>j. fst (net j) = 1024)" if "recv_loop net i = Some y" for net :: "nat \<Rightarrow> int \<times> bool" and i y
  proof (rule recv_loop.raw_induct [OF _ that])
    fix loop and net :: "nat \<Rightarrow> int \<times> bool" and i y
    assume IH: "\<And>net i y. loop net i = Some y \<Longrightarrow> \<not> (\<forall>j. fst (net j) = 1024)"
      and run: "(let (ret, again) = net i in
      if ret < 0 then Some (ret, i + 1, if again then [] else [CloseSocket])
      else let rs = (if ret = 0 then False else True);
               rs = (if ret = 1024 then True else False) in
           if rs then loop net (i + 1) else Some (ret, i + 1, [])) = Some y"
    show "\<not> (\<forall>j. fst (net j) = 1024)"
    proof
      assume all: "\<forall>j. fst (net j) = 1024"
      then have "fst (net i) = 1024" by blast
      then have "loop net (i + 1) = Some y" using run by (simp add: split_beta Let_def)
      from IH [OF this] all show False by blast
    qed
  qed
  moreover assume "recv_loop net i \<noteq> None"
  ultimately show False using assms by blast
qed

text \<open>
  The thread reads until a call of recv does not fill its buffer of 1024 bytes, and never ends when all do.  It answers
  exactly if this last call returned something: a request whose length is a multiple of 1024 is followed by
  \<open>EAGAIN\<close> and gets no answer.  It closes the socket once, but twice after another error, when
  the descriptor may already belong to another thread.
\<close>

theorem handle_message:
  assumes "\<And>j. j < k \<Longrightarrow> fst (net j) = 1024" and "net k = (ret, again)" and "ret \<noteq> 1024"
  shows "pthread_handle_message net = Some (k + 1,
    if 0 < ret then [SendAnswer, CloseSocket] else if ret < 0 \<and> \<not> again then [CloseSocket, CloseSocket] else [CloseSocket])"
  using recv_loop_stops [of 0 k net ret again] assms by (auto simp: pthread_handle_message_def)

theorem handle_message_witness:
  "pthread_handle_message (\<lambda>i. if i = 0 then (1024, False) else (- 1, True)) = Some (2, [CloseSocket])
   \<and> pthread_handle_message (\<lambda>i. (- 1, False)) = Some (1, [CloseSocket, CloseSocket])"
  using handle_message [of 1 "\<lambda>i. if i = 0 then (1024, False) else (- 1, True)" "- 1" True]
    handle_message [of 0 "\<lambda>i. (- 1, False)" "- 1" False]
  by (simp add: numeral_2_eq_2)

theorem handle_message_forever: "pthread_handle_message (\<lambda>i. (1024, again)) = None"
  by (simp add: pthread_handle_message_def recv_loop_forever)

end
