(* ===== verification/Opt_Attr.thy ===== *)
theory Opt_Attr
  imports Interleaving Opt_Time
begin

text \<open>
  The counters of shmqueue/opt_time.h: the macro \<open>Frequent_Attr_API_Ext\<close> adds to the static counter of an attribute and
  reports it when the second has changed.  Its atomic and volatile accesses are single steps of the threads that call it.
\<close>

section \<open>The code\<close>

text \<open>Where a thread is in the macro, with the \<open>curtime\<close> of its call and the \<open>cnt\<close> that it has taken.\<close>

datatype apc = Ready | Added int | Changed int | Taken int "64 word" | Sent int

text \<open>
  The two static variables of an attribute, the counts that were reported by \<open>Attr_API\<close>, and the threads, each with the
  calls (\<open>count\<close> and \<open>curtime\<close>) that it still makes.
\<close>

record attr =
  tPrevReport :: int
  iReportNum :: "64 word"
  reports :: "64 word list"
  callers :: "(apc \<times> (64 word \<times> int) list) list"

definition at :: "nat \<Rightarrow> apc \<Rightarrow> attr \<Rightarrow> attr" where
  "at t p a = a\<lparr>callers := (callers a)[t := (p, snd (callers a ! t))]\<rparr>"

definition Attr_API :: "64 word \<Rightarrow> attr \<Rightarrow> attr" where
  "Attr_API cnt a = a\<lparr>reports := reports a @ [cnt]\<rparr>"

definition attr_step :: "nat \<Rightarrow> attr \<Rightarrow> attr option" where
  "attr_step t a =
     do { (p, calls) \<leftarrow> rd (callers a) t;
          case p of
            Ready \<Rightarrow>
              (case calls of
                 [] \<Rightarrow> None
               | (n, curtime) # cs \<Rightarrow>
                   Some (a\<lparr>iReportNum := iReportNum a + n, callers := (callers a)[t := (Added curtime, cs)]\<rparr>))
          | Added curtime \<Rightarrow> Some (at t (if tPrevReport a \<noteq> curtime then Changed curtime else Ready) a)
          | Changed curtime \<Rightarrow> Some (at t (Taken curtime (iReportNum a)) (a\<lparr>iReportNum := 0\<rparr>))
          | Taken curtime cnt \<Rightarrow> Some (at t (Sent curtime) (if cnt \<noteq> 0 then Attr_API cnt a else a))
          | Sent curtime \<Rightarrow> Some (at t Ready (a\<lparr>tPrevReport := curtime\<rparr>)) }"

definition attr_start :: "(64 word \<times> int) list list \<Rightarrow> attr" where
  "attr_start callss = \<lparr>tPrevReport = 0, iReportNum = 0, reports = [], callers = map (Pair Ready) callss\<rparr>"

definition returned :: "attr \<Rightarrow> bool" where
  "returned a = list_all (\<lambda>(p, calls). p = Ready \<and> calls = []) (callers a)"

section \<open>No count is lost\<close>

text \<open>What a thread holds and will still add, and the steps that it has left.\<close>

fun taken :: "apc \<Rightarrow> 64 word" where
  "taken (Taken curtime cnt) = cnt"
| "taken _ = 0"

fun held :: "apc \<times> (64 word \<times> int) list \<Rightarrow> 64 word" where
  "held (p, calls) = taken p + sum_list (map fst calls)"

fun in_call :: "apc \<Rightarrow> nat" where
  "in_call Ready = 0"
| "in_call (Added _) = 4"
| "in_call (Changed _) = 3"
| "in_call (Taken _ _) = 2"
| "in_call (Sent _) = 1"

fun call_steps :: "apc \<times> (64 word \<times> int) list \<Rightarrow> nat" where
  "call_steps (p, calls) = in_call p + 5 * length calls"

definition accounted :: "attr \<Rightarrow> 64 word" where
  "accounted a = sum_list (reports a) + iReportNum a + sum_list (map held (callers a))"

definition attr_steps :: "attr \<Rightarrow> nat" where "attr_steps a = sum_list (map call_steps (callers a))"

definition attr_inv :: "64 word \<Rightarrow> attr \<Rightarrow> bool" where
  "attr_inv k a \<longleftrightarrow> accounted a = k \<and> 0 \<notin> set (reports a)"

lemma caller_change:
  assumes "t < length cs" "cs ! t = c"
  shows "sum_list (map held (cs[t := c'])) = sum_list (map held cs) - held c + held c'"
    "sum_list (map call_steps (cs[t := c'])) + call_steps c = sum_list (map call_steps cs) + call_steps c'"
  using sum_list_change [OF assms(1), of held c'] sum_list_change [OF assms(1), of call_steps c'] assms(2)
  by (simp_all add: algebra_simps)

lemma attr_step_inv:
  assumes a: "attr_inv k a" and st: "attr_step t a = Some a'"
  shows "attr_inv k a' \<and> attr_steps a' < attr_steps a"
proof -
  obtain p calls where t: "t < length (callers a)" "callers a ! t = (p, calls)"
    using st by (cases "callers a ! t") (auto simp: attr_step_def rd_eq_Some_iff bind_eq_Some_conv)
  note c = caller_change [OF t]
  show ?thesis
  proof (cases p)
    case Ready
    then obtain n curtime cs where "calls = (n, curtime) # cs" using st t by (auto simp: attr_step_def split: list.splits)
    then show ?thesis using a st t Ready c [of "(Added curtime, cs)"]
      by (auto simp: attr_step_def attr_inv_def accounted_def attr_steps_def)
  next
    case (Added curtime)
    then show ?thesis using a st t c [of "(if tPrevReport a \<noteq> curtime then Changed curtime else Ready, calls)"]
      by (auto simp: attr_step_def attr_inv_def accounted_def attr_steps_def at_def split: if_splits)
  next
    case (Changed curtime)
    then show ?thesis using a st t c [of "(Taken curtime (iReportNum a), calls)"]
      by (auto simp: attr_step_def attr_inv_def accounted_def attr_steps_def at_def)
  next
    case (Taken curtime cnt)
    then show ?thesis using a st t c [of "(Sent curtime, calls)"]
      by (auto simp: attr_step_def attr_inv_def accounted_def attr_steps_def at_def Attr_API_def algebra_simps split: if_splits)
  next
    case (Sent curtime)
    then show ?thesis using a st t c [of "(Ready, calls)"]
      by (auto simp: attr_step_def attr_inv_def accounted_def attr_steps_def at_def)
  qed
qed

lemma attr_live:
  assumes "\<not> returned a"
  shows "\<exists>t a'. attr_step t a = Some a'"
proof -
  obtain t p calls where t: "t < length (callers a)" "callers a ! t = (p, calls)" "p \<noteq> Ready \<or> calls \<noteq> []"
    using assms by (auto simp: returned_def list_all_length)
  then have "\<exists>a'. attr_step t a = Some a'" by (cases p; cases calls) (auto simp: attr_step_def)
  then show ?thesis by blast
qed

interpretation attrs: progressing attr_step "attr_inv k" attr_steps returned for k :: "64 word"
  by unfold_locales (use attr_step_inv in blast, use attr_step_inv in blast, use attr_live in blast)

lemma attr_started: "attr_inv (sum_list (map fst (concat callss))) (attr_start callss)"
  by (induction callss) (auto simp: attr_inv_def accounted_def attr_start_def)

lemma returned_held: "returned a \<Longrightarrow> sum_list (map held (callers a)) = 0"
proof -
  have "sum_list (map held cs) = 0" if "list_all (\<lambda>(p, calls). p = Ready \<and> calls = []) cs" for cs
    using that by (induction cs) auto
  then show "returned a \<Longrightarrow> sum_list (map held (callers a)) = 0" by (simp add: returned_def)
qed

text \<open>
  C24: the counters of several threads.  Under every schedule the calls can be completed, no report is empty, and once all have
  returned every count is in exactly one report or still in the counter: their sum is that of the counts of all calls.
\<close>

theorem attr_counts_kept:
  assumes "run attr_step ts (attr_start callss) = Some a"
  shows "(\<exists>ts' a'. run attr_step ts' a = Some a' \<and> returned a') \<and> 0 \<notin> set (reports a)
    \<and> (returned a \<longrightarrow> sum_list (reports a) + iReportNum a = sum_list (map fst (concat callss)))"
proof -
  have i: "attr_inv (sum_list (map fst (concat callss))) a" using attrs.run_inv [OF attr_started assms] .
  then show ?thesis using attrs.run_on [OF i] returned_held [of a] by (auto simp: attr_inv_def accounted_def)
qed

theorem attr_counts_kept_witness:
  "run attr_step [0, 1, 0, 0, 1, 1, 0, 1, 0, 1] (attr_start [[(5, 8)], [(2, 8)]])
     = Some \<lparr>tPrevReport = 8, iReportNum = 0, reports = [7], callers = [(Ready, []), (Ready, [])]\<rparr>
   \<and> sum_list [7] + 0 = sum_list (map fst (concat [[(5 :: 64 word, 8 :: int)], [(2, 8)]]))"
proof -
  have r: "run attr_step [0, 1, 0, 0, 1, 1, 0, 1, 0, 1] (attr_start [[(5, 8)], [(2, 8)]])
     = Some \<lparr>tPrevReport = 8, iReportNum = 0, reports = [7], callers = [(Ready, []), (Ready, [])]\<rparr>"
    by (simp add: attr_step_def attr_start_def at_def Attr_API_def)
  show ?thesis using attr_counts_kept [OF r] r by (simp add: returned_def)
qed

text \<open>Two threads can report twice in one second: both find the old one before either stores the new one.\<close>

lemma two_reports:
  "run attr_step [0, 0, 0, 0, 1, 1, 1, 1] (attr_start [[(5, 8)], [(2, 8)]])
     = Some \<lparr>tPrevReport = 0, iReportNum = 0, reports = [5, 2], callers = [(Sent 8, []), (Sent 8, [])]\<rparr>"
  by (simp add: attr_step_def attr_start_def at_def Attr_API_def)

section \<open>One thread\<close>

definition Frequent_Attr_API_Ext :: "64 word \<times> int \<Rightarrow> attr \<Rightarrow> attr" where
  "Frequent_Attr_API_Ext = (\<lambda>(n, curtime) a.
     let a = a\<lparr>iReportNum := iReportNum a + n\<rparr>
     in if tPrevReport a \<noteq> curtime
        then let cnt = iReportNum a;
                 a = a\<lparr>iReportNum := 0\<rparr>;
                 a = (if cnt \<noteq> 0 then Attr_API cnt a else a)
             in a\<lparr>tPrevReport := curtime\<rparr>
        else a)"

text \<open>A thread alone runs the macro as one operation.\<close>

lemma alone:
  assumes "t < length (callers a)" "callers a ! t = (Ready, call # calls)"
  shows "\<exists>k. run attr_step (replicate k t) a = Some (Frequent_Attr_API_Ext call (a\<lparr>callers := (callers a)[t := (Ready, calls)]\<rparr>))"
proof (cases call)
  case (Pair n curtime)
  show ?thesis
  proof (cases "tPrevReport a = curtime")
    case True
    then show ?thesis using assms Pair
      by (intro exI [of _ 2]) (simp add: attr_step_def at_def Frequent_Attr_API_Ext_def Let_def numeral_2_eq_2)
  next
    case False
    then show ?thesis using assms Pair
      by (intro exI [of _ 5]) (simp add: attr_step_def at_def Frequent_Attr_API_Ext_def Let_def Attr_API_def eval_nat_numeral)
  qed
qed

text \<open>With times that run forward it then reports at most once in a second, and the reports miss only the counts since the last.\<close>

lemma alone_reports:
  "sorted (tPrevReport a # map snd calls) \<Longrightarrow>
    length (reports (fold Frequent_Attr_API_Ext calls a)) \<le> length (reports a) + card (set (map snd calls) - {tPrevReport a})"
proof (induction calls arbitrary: a)
  case (Cons call calls)
  obtain n t where c: "call = (n, t)" by fastforce
  let ?a = "Frequent_Attr_API_Ext call a"
  have t': "tPrevReport ?a = t" by (simp add: c Frequent_Attr_API_Ext_def Let_def Attr_API_def)
  have l: "length (reports ?a) \<le> length (reports a) + (if t = tPrevReport a then 0 else 1)"
    by (simp add: c Frequent_Attr_API_Ext_def Let_def Attr_API_def)
  have "length (reports (fold Frequent_Attr_API_Ext calls ?a)) \<le> length (reports ?a) + card (set (map snd calls) - {t})"
    using Cons.IH [of ?a, unfolded t'] Cons.prems by (simp add: c)
  also have "\<dots> \<le> length (reports a) + card (set (map snd (call # calls)) - {tPrevReport a})"
  proof (cases "t = tPrevReport a")
    case True
    then show ?thesis using l by (simp add: c)
  next
    case False
    have "tPrevReport a \<notin> set (map snd calls)" using Cons.prems False by (auto simp: c)
    then have "set (map snd (call # calls)) - {tPrevReport a} = insert t (set (map snd calls) - {t})"
      using False by (auto simp: c)
    then have "card (set (map snd (call # calls)) - {tPrevReport a}) = Suc (card (set (map snd calls) - {t}))"
      by (simp only:) (rule card_insert_disjoint, auto)
    then show ?thesis using l False by simp
  qed
  finally show ?case by simp
qed simp

section \<open>The test program\<close>

text \<open>
  With two arguments: the ticks are those of the counter at the successive calls.  The time test prints every ten millionth
  answer; the attribute test makes ten calls in each of ten million rounds.
\<close>

fun time_loop :: "(64 word \<times> 64 word \<times> 64 word \<Rightarrow> opt_clock \<Rightarrow> opt_clock \<times> 'a) \<Rightarrow> nat
    \<Rightarrow> (nat \<Rightarrow> 64 word \<times> 64 word \<times> 64 word) \<Rightarrow> nat \<Rightarrow> nat \<Rightarrow> opt_clock \<Rightarrow> 'a list" where
  "time_loop f every ticks i 0 c = []"
| "time_loop f every ticks i (Suc k) c =
     (let (c, t) = f (ticks i) c
      in (if i mod every = 0 then [t] else []) @ time_loop f every ticks (Suc i) k c)"

definition Frequent_Attr_API :: "(64 word \<Rightarrow> int \<times> int) \<Rightarrow> 64 word \<times> 64 word \<times> 64 word \<Rightarrow> 64 word \<Rightarrow> opt_clock \<times> attr \<Rightarrow> opt_clock \<times> attr" where
  "Frequent_Attr_API clk ticks n = (\<lambda>(c, a). let (c, t) = opt_time clk ticks c in (c, Frequent_Attr_API_Ext (n, t) a))"

text \<open>One round: an attribute after the other, each call with the clock that the call before it left.\<close>

fun attr_round :: "(64 word \<Rightarrow> int \<times> int) \<Rightarrow> (nat \<Rightarrow> 64 word \<times> 64 word \<times> 64 word) \<Rightarrow> nat \<Rightarrow> opt_clock \<Rightarrow> attr list \<Rightarrow> opt_clock \<times> attr list" where
  "attr_round clk ticks i c [] = (c, [])"
| "attr_round clk ticks i c (a # as) =
     (let (c, a) = Frequent_Attr_API clk (ticks i) 1 (c, a);
          (c, as) = attr_round clk ticks (Suc i) c as
      in (c, a # as))"

fun attr_loop :: "(64 word \<Rightarrow> int \<times> int) \<Rightarrow> (nat \<Rightarrow> 64 word \<times> 64 word \<times> 64 word) \<Rightarrow> nat \<Rightarrow> nat \<Rightarrow> opt_clock \<Rightarrow> attr list \<Rightarrow> attr list" where
  "attr_loop clk ticks i 0 c as = as"
| "attr_loop clk ticks i (Suc k) c as =
     (let (c, as) = attr_round clk ticks i c as in attr_loop clk ticks (i + length as) k c as)"

datatype test_output = Usage | Times "(int \<times> int) list" | Seconds "int list" | Attrs "attr list"

definition main :: "(64 word \<Rightarrow> int \<times> int) \<Rightarrow> (nat \<Rightarrow> 64 word \<times> 64 word \<times> 64 word) \<Rightarrow> string list \<Rightarrow> test_output" where
  "main clk ticks args =
     (case args of
        [_, arg] \<Rightarrow>
          if arg \<noteq> [] \<and> arg ! 0 = CHR ''g''
          then Times (time_loop (opt_gettimeofday clk) 10000000 ticks 0 100000000 opt_clock_init)
          else if arg \<noteq> [] \<and> arg ! 0 = CHR ''t''
          then Seconds (time_loop (opt_time clk) 10000000 ticks 0 100000000 opt_clock_init)
          else Attrs (attr_loop clk ticks 0 10000000 opt_clock_init (replicate 10 (attr_start [])))
      | _ \<Rightarrow> Usage)"

lemma attr_sum: "attr_inv k a \<Longrightarrow> attr_inv (k + n) (Frequent_Attr_API_Ext (n, t) a)"
  by (auto simp: attr_inv_def accounted_def Frequent_Attr_API_Ext_def Let_def Attr_API_def algebra_simps)

lemma attr_round_keeps:
  "list_all (attr_inv k) as \<Longrightarrow> list_all (attr_inv (k + 1)) (snd (attr_round clk ticks i c as))"
  by (induction clk ticks i c as rule: attr_round.induct)
    (auto simp: Frequent_Attr_API_def split_def Let_def intro: attr_sum)

lemma attr_loop_keeps:
  "list_all (attr_inv k) as \<Longrightarrow> list_all (attr_inv (k + of_nat n)) (attr_loop clk ticks i n c as)"
proof (induction clk ticks i n c as arbitrary: k rule: attr_loop.induct)
  case (2 clk ticks i n c as)
  show ?case using "2.IH" [OF refl prod.collapse attr_round_keeps [OF "2.prems"]]
    by (simp add: split_def Let_def algebra_simps)
qed simp

text \<open>The attribute test accounts for its ten million calls of each attribute.\<close>

lemma main_attrs:
  assumes "main clk ticks args = Attrs as" "a \<in> set as"
  shows "accounted a = 10000000"
proof -
  have "list_all (attr_inv 0) (replicate 10 (attr_start []))"
    by (simp add: list_all_length attr_inv_def accounted_def attr_start_def)
  note attr_loop_keeps [OF this, of 10000000 clk ticks 0 opt_clock_init]
  moreover have "as = attr_loop clk ticks 0 10000000 opt_clock_init (replicate 10 (attr_start []))"
    using assms(1) by (auto simp: main_def split: list.splits if_splits)
  ultimately show ?thesis using assms(2) by (auto simp: list_all_iff attr_inv_def)
qed

text \<open>The time test prints ten answers.\<close>

lemma time_loop_length:
  "length (time_loop f every ticks i k c) = length (filter (\<lambda>j. j mod every = 0) [i..<i + k])"
  by (induction f every ticks i k c rule: time_loop.induct) (auto simp: Let_def upt_conv_Cons simp del: upt_Suc split: prod.splits)

end
