(* ===== verification/Clock_Threads.thy ===== *)
theory Clock_Threads
  imports Interleaving Opt_Time
begin

text \<open>
  The cached clock of shmqueue/opt_time.h called by several threads.  Every access to a static variable is a step; the words of
  \<open>walltime\<close> are stored by \<open>gettimeofday\<close> and read by \<open>memcpy\<close> one at a time, in an order that the library decides.
\<close>

section \<open>The code\<close>

datatype field = Sec | Usec

text \<open>
  Where a thread is: at the test of \<open>tv_sec\<close>, at that of the ticks, at the test of \<open>lock\<close>, at the compare-and-swap, at the call of
  \<open>gettimeofday\<close>, in it with the fields that are still to be stored, at the unlocking, and at the end with the words that it has read.
\<close>

datatype cpc = Testing | Ticking | Trying | Swapping | Asking | Writing "int \<times> int" "field list" | Unlocking | Reading "int list"

text \<open>
  The statics, what the system has answered so far, the threads with the calls that they still make, and what the calls have
  handed out.
\<close>

record clocks =
  statics :: opt_clock
  answers :: "(int \<times> int) list"
  callers :: "(cpc \<times> nat) list"
  handed :: "int list list"

fun get_field :: "field \<Rightarrow> int \<times> int \<Rightarrow> int" where
  "get_field Sec tv = fst tv"
| "get_field Usec tv = snd tv"

fun put_field :: "field \<Rightarrow> int \<times> int \<Rightarrow> int \<times> int \<Rightarrow> int \<times> int" where
  "put_field Sec now tv = (fst now, snd tv)"
| "put_field Usec now tv = (fst tv, snd now)"

definition go :: "nat \<Rightarrow> cpc \<Rightarrow> clocks \<Rightarrow> clocks" where
  "go t p s = s\<lparr>callers := (callers s)[t := (p, snd (callers s ! t))]\<rparr>"

text \<open>The call returns; the thread is then before its next one.\<close>

definition hand_out :: "nat \<Rightarrow> int list \<Rightarrow> clocks \<Rightarrow> clocks" where
  "hand_out t vs s = s\<lparr>callers := (callers s)[t := (Testing, snd (callers s ! t) - 1)], handed := handed s @ [vs]\<rparr>"

text \<open>
  A turn: the thread, and what the tick counter and the system clock show when it asks them.  \<open>stores\<close> is the order in which
  \<open>gettimeofday\<close> stores the fields, and \<open>reads\<close> are the fields that the function reads in the end: both for
  \<open>opt_gettimeofday\<close>, the seconds for \<open>opt_time\<close>, and twice when its argument is not null.
\<close>

definition clock_step :: "field list \<Rightarrow> field list \<Rightarrow> nat \<times> 64 word \<times> int \<times> int \<Rightarrow> clocks \<Rightarrow> clocks option" where
  "clock_step stores reads = (\<lambda>(t, tick, now) s.
     do { (p, calls) \<leftarrow> rd (callers s) t;
          let c = statics s;
          let system = hand_out t (map (\<lambda>f. get_field f now) reads) (s\<lparr>answers := answers s @ [now]\<rparr>);
          if calls = 0 then None
          else case p of
            Testing \<Rightarrow> Some (go t (if fst (walltime c) = 0 then Trying else Ticking) s)
          | Ticking \<Rightarrow> Some (go t (if tick - walltick c > max_ticks then Trying else Reading []) s)
          | Trying \<Rightarrow> Some (if lock_v c = 0 then go t Swapping s else system)
          | Swapping \<Rightarrow> Some (if lock_v c = 0 then go t Asking (s\<lparr>statics := c\<lparr>lock_v := 1\<rparr>\<rparr>) else system)
          | Asking \<Rightarrow> Some (go t (Writing now stores) (s\<lparr>answers := answers s @ [now]\<rparr>))
          | Writing tv (f # fs) \<Rightarrow> Some (go t (Writing tv fs) (s\<lparr>statics := c\<lparr>walltime := put_field f tv (walltime c)\<rparr>\<rparr>))
          | Writing tv [] \<Rightarrow> Some (go t Unlocking (s\<lparr>statics := c\<lparr>walltick := tick\<rparr>\<rparr>))
          | Unlocking \<Rightarrow> Some (go t (Reading []) (s\<lparr>statics := c\<lparr>lock_v := 0\<rparr>\<rparr>))
          | Reading vs \<Rightarrow>
              (if length vs < length reads then Some (go t (Reading (vs @ [get_field (reads ! length vs) (walltime c)])) s)
               else Some (hand_out t vs s)) })"

definition clock_start :: "nat list \<Rightarrow> clocks" where
  "clock_start calls = \<lparr>statics = opt_clock_init, answers = [], callers = map (Pair Testing) calls, handed = []\<rparr>"

definition all_returned :: "clocks \<Rightarrow> bool" where
  "all_returned s = list_all (\<lambda>(p, calls). calls = 0) (callers s)"

section \<open>What the threads rely on\<close>

text \<open>The thread that has the lock.\<close>

fun inside :: "cpc \<Rightarrow> bool" where
  "inside Asking = True"
| "inside (Writing tv fs) = True"
| "inside Unlocking = True"
| "inside _ = False"

text \<open>A field that was read comes from an answer; the microseconds can still be those of the initialisation.\<close>

fun from_answer :: "(int \<times> int) list \<Rightarrow> field \<Rightarrow> int \<Rightarrow> bool" where
  "from_answer as Sec v \<longleftrightarrow> v \<in> fst ` set as"
| "from_answer as Usec v \<longleftrightarrow> v = 0 \<or> v \<in> snd ` set as"

fun pc_ok :: "field list \<Rightarrow> clocks \<Rightarrow> cpc \<Rightarrow> bool" where
  "pc_ok reads s Ticking \<longleftrightarrow> fst (walltime (statics s)) \<noteq> 0"
| "pc_ok reads s Unlocking \<longleftrightarrow> fst (walltime (statics s)) \<noteq> 0"
| "pc_ok reads s (Writing tv fs) \<longleftrightarrow> tv \<in> set (answers s) \<and> (Sec \<in> set fs \<or> fst (walltime (statics s)) \<noteq> 0)"
| "pc_ok reads s (Reading vs) \<longleftrightarrow> fst (walltime (statics s)) \<noteq> 0 \<and> length vs \<le> length reads
     \<and> list_all2 (from_answer (answers s)) (take (length vs) reads) vs"
| "pc_ok reads s _ \<longleftrightarrow> True"

definition honest :: "clocks \<Rightarrow> bool" where "honest s \<longleftrightarrow> 0 \<notin> fst ` set (answers s)"

definition values_ok :: "field list \<Rightarrow> clocks \<Rightarrow> bool" where
  "values_ok reads s \<longleftrightarrow> (fst (walltime (statics s)) = 0 \<or> fst (walltime (statics s)) \<in> fst ` set (answers s))
     \<and> (snd (walltime (statics s)) = 0 \<or> snd (walltime (statics s)) \<in> snd ` set (answers s))
     \<and> list_all (\<lambda>(p, calls). calls \<noteq> 0 \<longrightarrow> pc_ok reads s p) (callers s)
     \<and> list_all (\<lambda>vs. list_all2 (from_answer (answers s)) reads vs) (handed s)"

definition owners :: "clocks \<Rightarrow> nat" where
  "owners s = sum_list (map (\<lambda>(p, calls). of_bool (inside p)) (callers s))"

definition lock_ok :: "clocks \<Rightarrow> bool" where
  "lock_ok s \<longleftrightarrow> owners s = (if lock_v (statics s) = 0 then 0 else 1)"

fun call_left :: "nat \<Rightarrow> nat \<Rightarrow> cpc \<Rightarrow> nat" where
  "call_left w r (Reading vs) = Suc r - length vs"
| "call_left w r Unlocking = r + 2"
| "call_left w r (Writing tv fs) = r + 3 + length fs"
| "call_left w r Asking = r + 4 + w"
| "call_left w r Swapping = r + 5 + w"
| "call_left w r Trying = r + 6 + w"
| "call_left w r Ticking = r + 7 + w"
| "call_left w r Testing = r + 8 + w"

fun thread_left :: "nat \<Rightarrow> nat \<Rightarrow> cpc \<times> nat \<Rightarrow> nat" where
  "thread_left w r (p, 0) = 0"
| "thread_left w r (p, Suc k) = max 1 (call_left w r p) + k * (r + 8 + w)"

definition clock_left :: "field list \<Rightarrow> field list \<Rightarrow> clocks \<Rightarrow> nat" where
  "clock_left stores reads s = sum_list (map (thread_left (length stores) (length reads)) (callers s))"

definition clocks_inv :: "field list \<Rightarrow> clocks \<Rightarrow> bool" where
  "clocks_inv reads s \<longleftrightarrow> lock_ok s \<and> (honest s \<longrightarrow> values_ok reads s)"

lemma from_answer_mono: "from_answer as f v \<Longrightarrow> set as \<subseteq> set bs \<Longrightarrow> from_answer bs f v"
  by (cases f) auto

lemma from_answer_now: "now \<in> set as \<Longrightarrow> from_answer as f (get_field f now)"
  by (cases f) auto

lemma put_field_parts:
  "fst (put_field f tv x) = fst x \<or> fst (put_field f tv x) = fst tv" "snd (put_field f tv x) = snd x \<or> snd (put_field f tv x) = snd tv"
  by (cases f; simp)+

lemma read_mono: "list_all2 (from_answer as) fs vs \<Longrightarrow> set as \<subseteq> set bs \<Longrightarrow> list_all2 (from_answer bs) fs vs"
  by (erule list_all2_mono) (rule from_answer_mono)

lemma pc_ok_mono:
  assumes "pc_ok reads s p" "set (answers s) \<subseteq> set (answers s')"
    and "fst (walltime (statics s)) \<noteq> 0 \<Longrightarrow> fst (walltime (statics s')) \<noteq> 0"
  shows "pc_ok reads s' p"
  using assms by (cases p) (auto intro: read_mono)

text \<open>A step of thread \<open>t\<close>, as far as the values go: what it has to show about itself.\<close>

lemma values_change:
  assumes v: "values_ok reads s" and t: "t < length (callers s)"
    and a: "set (answers s) \<subseteq> set (answers s')"
    and n: "fst (walltime (statics s)) \<noteq> 0 \<Longrightarrow> fst (walltime (statics s')) \<noteq> 0"
    and w: "walltime (statics s') = walltime (statics s)
      \<or> (\<exists>f tv. tv \<in> set (answers s) \<and> walltime (statics s') = put_field f tv (walltime (statics s)))"
    and c: "callers s' = (callers s)[t := (p', k)]" "k \<noteq> 0 \<longrightarrow> pc_ok reads s' p'"
    and h: "handed s' = handed s \<or> (\<exists>vs. handed s' = handed s @ [vs] \<and> list_all2 (from_answer (answers s')) reads vs)"
  shows "values_ok reads s'"
proof -
  have "list_all (\<lambda>(p, calls). calls \<noteq> 0 \<longrightarrow> pc_ok reads s' p) (callers s)"
    using v pc_ok_mono [OF _ a n] by (fastforce simp: values_ok_def list_all_iff)
  then have p: "list_all (\<lambda>(p, calls). calls \<noteq> 0 \<longrightarrow> pc_ok reads s' p) (callers s')"
    using c set_update_subset_insert [of "callers s" t "(p', k)"] by (fastforce simp: list_all_iff)
  have "list_all (list_all2 (from_answer (answers s')) reads) (handed s)"
    using v read_mono [OF _ a] by (auto simp: values_ok_def list_all_iff)
  then have h': "list_all (list_all2 (from_answer (answers s')) reads) (handed s')" using h by auto
  have "fst (walltime (statics s')) = fst (walltime (statics s)) \<or> fst (walltime (statics s')) \<in> fst ` set (answers s)"
    "snd (walltime (statics s')) = snd (walltime (statics s)) \<or> snd (walltime (statics s')) \<in> snd ` set (answers s)"
    using w put_field_parts by (metis image_eqI)+
  moreover have "fst ` set (answers s) \<subseteq> fst ` set (answers s')" "snd ` set (answers s) \<subseteq> snd ` set (answers s')" using a by auto
  ultimately have "fst (walltime (statics s')) = 0 \<or> fst (walltime (statics s')) \<in> fst ` set (answers s')"
    "snd (walltime (statics s')) = 0 \<or> snd (walltime (statics s')) \<in> snd ` set (answers s')"
    using v unfolding values_ok_def by (metis subsetD)+
  then show ?thesis using p h' by (simp add: values_ok_def)
qed

lemma thread_change:
  assumes "t < length (callers s)" "callers s ! t = (p, k)" "callers s' = (callers s)[t := (p', k')]"
  shows "owners s' + of_bool (inside p) = owners s + of_bool (inside p')"
    "clock_left st rs s' + thread_left (length st) (length rs) (p, k) = clock_left st rs s + thread_left (length st) (length rs) (p', k')"
  using sum_list_change [OF assms(1), of "\<lambda>(p, calls). of_bool (inside p) :: nat" "(p', k')"]
    sum_list_change [OF assms(1), of "thread_left (length st) (length rs)" "(p', k')"] assms(2,3)
  by (simp_all add: owners_def clock_left_def)

lemma one_owner: "lock_ok s \<Longrightarrow> t < length (callers s) \<Longrightarrow> callers s ! t = (p, k) \<Longrightarrow> inside p \<Longrightarrow> lock_v (statics s) \<noteq> 0 \<and> owners s = 1"
  using member_le_sum_list [of "of_bool (inside p)" "map (\<lambda>(p, calls). of_bool (inside p) :: nat) (callers s)"] nth_mem [of t "callers s"]
  by (force simp: lock_ok_def owners_def split: if_splits)

lemma clock_step_lock:
  assumes l: "lock_ok s" and st: "clock_step stores reads (t, tick, now) s = Some s'"
  shows "lock_ok s'"
proof -
  obtain p k where t: "t < length (callers s)" "callers s ! t = (p, k)"
    using st by (cases "callers s ! t") (auto simp: clock_step_def rd_eq_Some_iff bind_eq_Some_conv)
  note own = thread_change(1) [OF t] and one = one_owner [OF l t]
  have k: "k \<noteq> 0" using st t by (cases "k = 0") (simp_all add: clock_step_def Let_def)
  note d = clock_step_def Let_def go_def hand_out_def lock_ok_def
  show ?thesis
  proof (cases p)
    case (Writing tv fs)
    then show ?thesis using st t k l one own [of s' "case fs of [] \<Rightarrow> Unlocking | f # fs \<Rightarrow> Writing tv fs" k]
      by (cases fs) (auto simp: d)
  next
    case Swapping
    then show ?thesis using st t k l own [of s' Asking k] own [of s' Testing "k - 1"] by (auto simp: d split: if_splits)
  next
    case Asking
    then show ?thesis using st t k l one own [of s' "Writing now stores" k] by (auto simp: d)
  next
    case Unlocking
    then show ?thesis using st t k l one own [of s' "Reading []" k] by (auto simp: d)
  next
    case (Reading vs)
    then show ?thesis using st t k l own [of s' Testing "k - 1"]
        own [of s' "Reading (vs @ [get_field (reads ! length vs) (walltime (statics s))])" k]
      by (auto simp: d split: if_splits)
  next
    case Testing
    then show ?thesis using st t k l own [of s' Trying k] own [of s' Ticking k] by (auto simp: d split: if_splits)
  next
    case Ticking
    then show ?thesis using st t k l own [of s' Trying k] own [of s' "Reading []" k] by (auto simp: d split: if_splits)
  next
    case Trying
    then show ?thesis using st t k l own [of s' Swapping k] own [of s' Testing "k - 1"] by (auto simp: d split: if_splits)
  qed
qed

lemma clock_step_left:
  assumes st: "clock_step stores reads (t, tick, now) s = Some s'"
  shows "clock_left stores reads s' < clock_left stores reads s"
proof -
  obtain p k where t: "t < length (callers s)" "callers s ! t = (p, k)"
    using st by (cases "callers s ! t") (auto simp: clock_step_def rd_eq_Some_iff bind_eq_Some_conv)
  obtain j where k: "k = Suc j" using st t by (cases k) (simp_all add: clock_step_def Let_def)
  have le: "thread_left w r (Testing, j) < thread_left w r (p, k)" for w r using k by (cases j) auto
  show ?thesis
  proof (cases "callers s' = (callers s)[t := (Testing, j)]")
    case True
    from thread_change(2) [OF t True, of stores reads] le [of "length stores" "length reads"] show ?thesis by linarith
  next
    case False
    have "\<exists>p'. callers s' = (callers s)[t := (p', k)]
        \<and> thread_left (length stores) (length reads) (p', k) < thread_left (length stores) (length reads) (p, k)"
    proof (cases p)
      case (Reading vs)
      then show ?thesis using st t k False
        by (auto simp: clock_step_def Let_def go_def hand_out_def split: if_splits
            intro!: exI [of _ "Reading (vs @ [get_field (reads ! length vs) (walltime (statics s))])"])
    qed (use st t k False in \<open>auto simp: clock_step_def Let_def go_def hand_out_def split: if_splits list.splits\<close>)
    then obtain p' where p': "callers s' = (callers s)[t := (p', k)]"
        "thread_left (length stores) (length reads) (p', k) < thread_left (length stores) (length reads) (p, k)" by blast
    from thread_change(2) [OF t p'(1), of stores reads] p'(2) show ?thesis by linarith
  qed
qed

lemma walltime_nonzero: "values_ok reads s \<Longrightarrow> fst (walltime (statics s)) \<noteq> 0 \<Longrightarrow> fst (walltime (statics s)) \<in> fst ` set (answers s)"
  by (auto simp: values_ok_def)

lemma read_field:
  assumes "values_ok reads s" "fst (walltime (statics s)) \<noteq> 0"
  shows "from_answer (answers s) f (get_field f (walltime (statics s)))"
  using assms by (cases f) (auto simp: values_ok_def)

lemma system_fields: "list_all2 (from_answer (as @ [now])) fs (map (\<lambda>f. get_field f now) fs)"
  by (auto simp: list_all2_conv_all_nth intro: from_answer_now)

lemma clock_step_values:
  assumes st: "clock_step stores reads (t, tick, now) s = Some s'" and stores: "Sec \<in> set stores"
    and h: "honest s'" and i: "honest s \<Longrightarrow> values_ok reads s"
  shows "values_ok reads s'"
proof -
  obtain p k where t: "t < length (callers s)" "callers s ! t = (p, k)"
    using st by (cases "callers s ! t") (auto simp: clock_step_def rd_eq_Some_iff bind_eq_Some_conv)
  have k: "k \<noteq> 0" using st t by (cases "k = 0") (simp_all add: clock_step_def Let_def)
  have sub: "set (answers s) \<subseteq> set (answers s')"
    using st t k by (cases p) (auto simp: clock_step_def Let_def go_def hand_out_def split: if_splits list.splits)
  then have v: "values_ok reads s" using i h by (auto simp: honest_def)
  then have p: "pc_ok reads s p" using t k nth_mem [OF t(1)] by (fastforce simp: values_ok_def list_all_iff)
  note change = values_change [OF v t(1) sub]
  note d = clock_step_def Let_def go_def hand_out_def
  show ?thesis
  proof (cases p)
    case Testing
    show ?thesis by (rule change [where p' = "if fst (walltime (statics s)) = 0 then Trying else Ticking" and k = "k"]) (use st t k Testing in \<open>auto simp: d split: if_splits\<close>)
  next
    case Ticking
    show ?thesis by (rule change [where p' = "if tick - walltick (statics s) > max_ticks then Trying else Reading []" and k = "k"]) (use st t k Ticking p in \<open>auto simp: d split: if_splits\<close>)
  next
    case Trying
    show ?thesis by (rule change [where p' = "if lock_v (statics s) = 0 then Swapping else Testing" and k = "if lock_v (statics s) = 0 then k else k - 1"]) (use st t k Trying system_fields [of "answers s" now reads] in \<open>auto simp: d split: if_splits\<close>)
  next
    case Swapping
    show ?thesis by (rule change [where p' = "if lock_v (statics s) = 0 then Asking else Testing" and k = "if lock_v (statics s) = 0 then k else k - 1"]) (use st t k Swapping system_fields [of "answers s" now reads] in \<open>auto simp: d split: if_splits\<close>)
  next
    case Asking
    show ?thesis by (rule change [where p' = "Writing now stores" and k = "k"]) (use st t k Asking stores in \<open>auto simp: d split: if_splits\<close>)
  next
    case (Writing tv fs)
    show ?thesis
    proof (cases fs)
      case Nil
      show ?thesis by (rule change [where p' = Unlocking and k = k]) (use st t k p Writing Nil in \<open>auto simp: d\<close>)
    next
      case (Cons f fs')
      have "fst tv \<noteq> 0" using p Writing h sub by (auto simp: honest_def)
      then have n: "fst (walltime (statics s)) \<noteq> 0 \<or> f = Sec \<Longrightarrow> fst (put_field f tv (walltime (statics s))) \<noteq> 0" by (cases f) auto
      have s': "s' = go t (Writing tv fs') (s\<lparr>statics := (statics s)\<lparr>walltime := put_field f tv (walltime (statics s))\<rparr>\<rparr>)"
        using st t k Writing Cons by (simp add: clock_step_def Let_def)
      have tv: "tv \<in> set (answers s)" "Sec \<in> set fs' \<or> f = Sec \<or> fst (walltime (statics s)) \<noteq> 0" using p Writing Cons by auto
      show ?thesis
      proof (rule change [where p' = "Writing tv fs'" and k = k])
        show "walltime (statics s') = walltime (statics s)
            \<or> (\<exists>f tv. tv \<in> set (answers s) \<and> walltime (statics s') = put_field f tv (walltime (statics s)))"
          by (rule disjI2, rule exI [of _ f], rule exI [of _ tv]) (simp add: s' go_def tv(1))
      qed (use n tv t in \<open>auto simp: s' go_def\<close>)
    qed
  next
    case Unlocking
    show ?thesis by (rule change [where p' = "Reading []" and k = k]) (use st t k p Unlocking in \<open>auto simp: d\<close>)
  next
    case (Reading vs)
    show ?thesis
    proof (cases "length vs < length reads")
      case True
      show ?thesis
        by (rule change [where p' = "Reading (vs @ [get_field (reads ! length vs) (walltime (statics s))])" and k = k])
          (use st t k p Reading True read_field [OF v] in \<open>auto simp: d take_Suc_conv_app_nth intro!: list_all2_appendI\<close>)
    next
      case False
      show ?thesis by (rule change [where p' = Testing and k = "k - 1"]) (use st t k p Reading False in \<open>auto simp: d\<close>)
    qed
  qed
qed

lemma clock_step_inv:
  assumes "clocks_inv reads s" "clock_step stores reads e s = Some s'" "Sec \<in> set stores"
  shows "clocks_inv reads s'"
proof -
  obtain t tick now where e: "e = (t, tick, now)" by (cases e)
  show ?thesis
    using assms clock_step_lock [of s stores reads t tick now s'] clock_step_values [of stores reads t tick now s s'] e
    by (simp add: clocks_inv_def)
qed

text \<open>No thread ever waits for another: each that has a call left can take a step.\<close>

lemma clock_step_possible:
  assumes "t < length (callers s)" "snd (callers s ! t) \<noteq> 0"
  shows "\<exists>s'. clock_step stores reads (t, tick, now) s = Some s'"
proof -
  obtain p k where "callers s ! t = (p, k)" "k \<noteq> 0" using assms(2) by (cases "callers s ! t") auto
  then show ?thesis using assms(1) by (simp add: clock_step_def Let_def split: cpc.split list.split)
qed

lemma clock_live:
  assumes "\<not> all_returned s"
  shows "\<exists>e s'. clock_step stores reads e s = Some s'"
proof -
  obtain t where "t < length (callers s)" "snd (callers s ! t) \<noteq> 0" using assms by (auto simp: all_returned_def list_all_length split_beta)
  from clock_step_possible [OF this] show ?thesis by blast
qed

lemma clock_step_fewer: "clock_step stores reads e s = Some s' \<Longrightarrow> clock_left stores reads s' < clock_left stores reads s"
  by (cases e) (auto intro: clock_step_left)

interpretation caches: progressing "clock_step stores reads" "\<lambda>s. Sec \<in> set stores \<and> clocks_inv reads s"
    "clock_left stores reads" all_returned for stores reads
  by unfold_locales (use clock_step_inv in blast, use clock_step_fewer in blast, use clock_live in blast)

lemma clocks_started: "clocks_inv reads (clock_start calls)"
proof -
  have "sum_list (map (\<lambda>(p, calls). of_bool (inside p) :: nat) (map (Pair Testing) calls)) = 0" by (induction calls) auto
  then show ?thesis
    by (auto simp: clocks_inv_def lock_ok_def values_ok_def owners_def clock_start_def opt_clock_init_def list_all_iff)
qed

section \<open>The calls of several threads\<close>

lemma one_inside:
  assumes "lock_ok s"
  shows "length (filter (inside \<circ> fst) (callers s)) \<le> 1"
proof -
  have "sum_list (map (\<lambda>(p, calls). of_bool (inside p)) cs) = length (filter (inside \<circ> fst) cs)" for cs :: "(cpc \<times> nat) list"
    by (induction cs) auto
  then show ?thesis using assms by (auto simp: lock_ok_def owners_def split: if_splits)
qed

text \<open>
  C23: the cached clock with any number of threads, for a system clock that never shows second 0.  Under every schedule at most
  one thread refreshes the cache, no thread waits for another and the calls can be completed; the seconds that a call hands
  out are those of an answer of the system, the microseconds too, or still 0.
\<close>

theorem clock_threads_sound:
  assumes "run (clock_step stores reads) es (clock_start calls) = Some s" "Sec \<in> set stores" "0 \<notin> fst ` set (answers s)"
  shows "length (filter (inside \<circ> fst) (callers s)) \<le> 1
    \<and> (\<forall>t < length (callers s). snd (callers s ! t) \<noteq> 0 \<longrightarrow> (\<forall>tick now. \<exists>s'. clock_step stores reads (t, tick, now) s = Some s'))
    \<and> (\<exists>es' s'. run (clock_step stores reads) es' s = Some s' \<and> all_returned s')
    \<and> list_all (list_all2 (from_answer (answers s)) reads) (handed s)"
proof -
  have i: "Sec \<in> set stores \<and> clocks_inv reads s"
    by (rule caches.run_inv [OF _ assms(1)]) (simp add: assms(2) clocks_started)
  then have "values_ok reads s" using assms(3) by (simp add: clocks_inv_def honest_def)
  moreover have "length (filter (inside \<circ> fst) (callers s)) \<le> 1" using i one_inside [of s] by (simp add: clocks_inv_def)
  ultimately show ?thesis using caches.run_on [OF i] clock_step_possible by (simp add: values_ok_def)
qed

text \<open>
  Two threads.  The first fills the cache at 5.999999 and refreshes it at 6.000001; the second reads between the two stores and
  hands out 6.999999, a second that has not passed.
\<close>

definition torn_run :: "(nat \<times> 64 word \<times> int \<times> int) list" where
  "torn_run = map (\<lambda>t. (t, 1, 5, 999999)) [0, 0, 0, 0, 0, 0, 0, 0, 0, 0, 0, 1, 1] @ map (\<lambda>t. (t, 1002, 6, 1)) [0, 0, 0, 0, 0, 0, 1, 1, 1]"

lemma torn_result:
  "run (clock_step [Sec, Usec] [Sec, Usec]) torn_run (clock_start [2, 1]) = Some
     \<lparr>statics = \<lparr>walltick = 1, walltime = (6, 999999), lock_v = 1\<rparr>, answers = [(5, 999999), (6, 1)],
      callers = [(Writing (6, 1) [Usec], 1), (Testing, 0)], handed = [[5, 999999], [6, 999999]]\<rparr>"
  by (simp add: torn_run_def clock_step_def clock_start_def opt_clock_init_def go_def hand_out_def max_ticks_def)

theorem clock_threads_sound_witness:
  "\<exists>s. run (clock_step [Sec, Usec] [Sec, Usec]) torn_run (clock_start [2, 1]) = Some s \<and> handed s = [[5, 999999], [6, 999999]]
    \<and> list_all (list_all2 (from_answer (answers s)) [Sec, Usec]) (handed s) \<and> (6, 999999) \<notin> set (answers s)"
  using clock_threads_sound [OF torn_result] torn_result by simp

text \<open>A thread that is alone does what \<open>opt_gettimeofday\<close> does.\<close>

lemma alone_call:
  assumes "opt_gettimeofday clk (t0, t1, t2) c = (c', tv)"
  shows "\<exists>es as'. run (clock_step [Sec, Usec] [Sec, Usec]) es \<lparr>statics = c, answers = as, callers = [(Testing, Suc k)], handed = h\<rparr>
    = Some \<lparr>statics = c', answers = as', callers = [(Testing, k)], handed = h @ [[fst tv, snd tv]]\<rparr>"
proof -
  let ?ask = "\<lambda>n. replicate n (0, t0, clk t1)" and ?stamp = "[(0, t2, clk t1)]"
  note d = clock_step_def go_def hand_out_def opt_gettimeofday_def Let_def numeral_eq_Suc
  consider "fst (walltime c) = 0" "lock_v c = 0" | "fst (walltime c) = 0" "lock_v c \<noteq> 0"
    | "fst (walltime c) \<noteq> 0" "t0 - walltick c > max_ticks" "lock_v c = 0"
    | "fst (walltime c) \<noteq> 0" "t0 - walltick c > max_ticks" "lock_v c \<noteq> 0"
    | "fst (walltime c) \<noteq> 0" "\<not> t0 - walltick c > max_ticks" by blast
  then show ?thesis
  proof cases
    case 1
    then show ?thesis using assms by (intro exI [of _ "?ask 6 @ ?stamp @ ?ask 4"]) (auto simp: d)
  next
    case 2
    then show ?thesis using assms by (intro exI [of _ "?ask 2"]) (auto simp: d)
  next
    case 3
    then show ?thesis using assms by (intro exI [of _ "?ask 7 @ ?stamp @ ?ask 4"]) (auto simp: d)
  next
    case 4
    then show ?thesis using assms by (intro exI [of _ "?ask 3"]) (auto simp: d)
  next
    case 5
    then show ?thesis using assms by (intro exI [of _ "?ask 5"]) (auto simp: d)
  qed
qed

end
