(* ===== verification/Student_Queue.thy ===== *)
theory Student_Queue
  imports Unlock_Queue Sq_Memory Interleaving "HOL-Library.Sublist"
begin

text \<open>
  The program around the queue of example_unlockqueue.cpp: a producer thread that puts records of 16 bytes and a consumer
  thread that gets them, over the interleaved steps of \<open>Unlock_Queue\<close>.  \<open>rand seed k\<close> is the \<open>k\<close>-th answer of
  \<open>rand\<close> after \<open>srand(seed)\<close>.
\<close>

section \<open>The records\<close>

record student_info =
  stu_id :: "64 word"
  age :: "32 word"
  score :: "32 word"

definition student_bytes :: "student_info \<Rightarrow> 8 word list" where
  "student_bytes i = le32 (ucast (stu_id i)) @ le32 (ucast (drop_bit 32 (stu_id i))) @ le32 (age i) @ le32 (score i)"

definition student_of :: "8 word list \<Rightarrow> student_info" where
  "student_of b =
     \<lparr>stu_id = ucast (of_le32 (seg b 0 4)) OR push_bit 32 (ucast (of_le32 (seg b 4 4))),
      age = of_le32 (seg b 8 4), score = of_le32 (seg b 12 4)\<rparr>"

lemma length_student_bytes [simp]: "length (student_bytes i) = 16"
  by (simp add: student_bytes_def)

lemma halves: "(ucast (ucast v :: 32 word) :: 64 word) OR push_bit 32 (ucast (ucast (drop_bit 32 v) :: 32 word)) = v"
  for v :: "64 word"
proof (rule bit_eqI)
  fix n assume "possible_bit TYPE(64 word) n"
  then have "n < 64" by simp
  then show "bit ((ucast (ucast v :: 32 word) :: 64 word) OR push_bit 32 (ucast (ucast (drop_bit 32 v) :: 32 word))) n = bit v n"
    by (cases "n < 32") (auto simp: bit_or_iff bit_push_bit_iff bit_ucast_iff bit_drop_bit_eq)
qed

lemma student_of_bytes [simp]: "student_of (student_bytes i) = i"
proof -
  have "seg (student_bytes i) 0 4 = le32 (ucast (stu_id i))" "seg (student_bytes i) 4 4 = le32 (ucast (drop_bit 32 (stu_id i)))"
    "seg (student_bytes i) 8 4 = le32 (age i)" "seg (student_bytes i) 12 4 = le32 (score i)"
    by (simp_all add: student_bytes_def seg_def)
  then show ?thesis by (simp add: student_of_def halves)
qed

text \<open>\<open>None\<close> when \<open>malloc\<close> fails.\<close>

definition get_student_info :: "(32 word \<Rightarrow> nat \<Rightarrow> nat) \<Rightarrow> bool \<Rightarrow> int \<Rightarrow> student_info option" where
  "get_student_info rand malloc timer =
     (if malloc
      then (let seed = word_of_int timer
            in Some \<lparr>stu_id = of_nat (10000 + rand seed 0 mod 9999), age = of_nat (rand seed 1 mod 30),
                     score = of_nat (rand seed 2 mod 101)\<rparr>)
      else None)"

section \<open>The threads\<close>

text \<open>
  \<open>reporting\<close>: the producer is to print the length of the queue; \<open>showing\<close>: what \<open>Get\<close> has returned to the consumer,
  which it is to print with \<open>stu_info\<close>.  \<open>made\<close> is what the producer has put, \<open>lengths\<close> and \<open>shown\<close> what is printed.
\<close>

record app =
  link :: spsc
  reporting :: bool
  showing :: "32 word option"
  stu_info :: "8 word list"
  made :: "student_info list"
  lengths :: "32 word list"
  shown :: "(32 word \<times> student_info) list"

text \<open>
  A step of the producer, with the time and the success of \<open>malloc\<close> for the start of a round.  \<open>None\<close>: the record is
  copied from the null pointer.
\<close>

definition producer_proc :: "(32 word \<Rightarrow> nat \<Rightarrow> nat) \<Rightarrow> int \<Rightarrow> bool \<Rightarrow> app \<Rightarrow> app option" where
  "producer_proc rand cur_time malloc s =
     (if reporting s
      then Some (s\<lparr>lengths := lengths s @ [GetDataLen (queue (link s))], reporting := False\<rparr>)
      else if producing (link s) = PIdle
      then do { let seed = rand (word_of_int cur_time) 0 mod 11111;
                i \<leftarrow> get_student_info rand malloc (cur_time + int seed);
                l \<leftarrow> spsc_step (turn.Producer (student_bytes i) 16) (link s);
                Some (s\<lparr>link := l, made := made s @ [i]\<rparr>) }
      else do { l \<leftarrow> spsc_step (turn.Producer [] 0) (link s);
                Some (s\<lparr>link := l, reporting := (producing l = PIdle)\<rparr>) })"

definition consumer_proc :: "app \<Rightarrow> app option" where
  "consumer_proc s =
     (case showing s of
        Some n \<Rightarrow>
          Some (s\<lparr>showing := None,
                  shown := (if n > 0 then shown s @ [(GetDataLen (queue (link s)), student_of (stu_info s))] else shown s)\<rparr>)
      | None \<Rightarrow>
          (case consuming (link s) of
             CFull d n \<Rightarrow>
               do { l \<leftarrow> spsc_step (turn.Consumer [] 0) (link s); Some (s\<lparr>link := l, stu_info := d, showing := Some n\<rparr>) }
           | _ \<Rightarrow> do { l \<leftarrow> spsc_step (turn.Consumer (stu_info s) 16) (link s); Some (s\<lparr>link := l\<rparr>) }))"

datatype side = Producing int bool | Consuming

fun app_step :: "(32 word \<Rightarrow> nat \<Rightarrow> nat) \<Rightarrow> side \<Rightarrow> app \<Rightarrow> app option" where
  "app_step rand (Producing cur_time malloc) s = producer_proc rand cur_time malloc s"
| "app_step rand Consuming s = consumer_proc s"

text \<open>\<open>garbage\<close>: the uninitialised \<open>stu_info\<close> of the consumer.\<close>

definition app_start :: "8 word list \<Rightarrow> uq \<Rightarrow> app" where
  "app_start garbage q =
     \<lparr>link = spsc_start q, reporting = False, showing = None, stu_info = garbage, made = [], lengths = [], shown = []\<rparr>"

text \<open>\<open>mem\<close> is the block that \<open>Initialize\<close> gets; the threads run until the end of the schedule.\<close>

definition main :: "(32 word \<Rightarrow> nat \<Rightarrow> nat) \<Rightarrow> 8 word list option \<Rightarrow> 8 word list \<Rightarrow> bool \<Rightarrow> bool \<Rightarrow> side list \<Rightarrow> (int + app) option" where
  "main rand mem garbage producer_created consumer_created es =
     do { q \<leftarrow> UnlockQueue 1024;
          let (q, ok) = Initialize mem q;
          if \<not> ok then Some (Inl (- 1))
          else if \<not> producer_created then Some (Inl (- 1))
          else if \<not> consumer_created then Some (Inl (- 1))
          else do { s \<leftarrow> run (app_step rand) es (app_start garbage q); Some (Inr s) } }"


section \<open>Whole records\<close>

abbreviation stream :: "student_info list \<Rightarrow> 8 word list" where
  "stream is \<equiv> concat (map student_bytes is)"

lemma length_stream [simp]: "length (stream is) = 16 * length is"
  by (induction "is") auto

lemma take_stream: "take (16 * k) (stream is) = stream (take k is)"
proof (induction "is" arbitrary: k)
  case (Cons i "is")
  then show ?case by (cases k) auto
qed simp

text \<open>The record after the first \<open>k\<close>.\<close>

lemma stream_next:
  assumes "stream is' @ d @ rest = stream is" "length d = 16"
  shows "length is' < length is" "d = student_bytes (is ! length is')"
proof -
  have "length (stream is' @ d @ rest) = length (stream is)" using assms(1) by simp
  then show l: "length is' < length is" using assms(2) by simp
  have "stream is' @ d = take (16 * Suc (length is')) (stream is)"
    unfolding assms(1) [symmetric] using assms(2) by simp
  also have "\<dots> = stream (take (length is') is) @ student_bytes (is ! length is')"
    using l by (simp only: take_stream take_Suc_conv_app_nth) simp
  finally have "stream is' @ d = stream (take (length is') is) @ student_bytes (is ! length is')" .
  then show "d = student_bytes (is ! length is')"
    using l by (subst (asm) append_eq_append_conv) auto
qed

lemma put_step_size: "put_step b n q p = Some (q', p', out) \<Longrightarrow> m_nSize q' = m_nSize q"
  by (induction b n q p rule: put_step.induct) (auto simp: bind_eq_Some_conv Let_def)

lemma get_step_size: "get_step b n q c = Some (q', c', out) \<Longrightarrow> m_nSize q' = m_nSize q"
  by (induction b n q c rule: get_step.induct) (auto simp: bind_eq_Some_conv Let_def)

lemma spsc_step_size: "spsc_step t s = Some s' \<Longrightarrow> m_nSize (queue s') = m_nSize (queue s)"
  by (cases t) (auto simp: bind_eq_Some_conv put_step_size get_step_size)

text \<open>
  What the producer holds (the record that it is putting, in full or not at all), and the consumer.  \<open>acc\<close> are the
  records that the queue has accepted.
\<close>

definition whole :: "32 word \<Rightarrow> bool" where "whole n \<longleftrightarrow> n = 0 \<or> n = 16"

fun putting :: "student_info list \<Rightarrow> student_info list \<Rightarrow> producer \<Rightarrow> bool" where
  "putting acc is PIdle \<longleftrightarrow> subseq acc is"
| "putting acc is (PLen b n) \<longleftrightarrow> is \<noteq> [] \<and> b = student_bytes (last is) \<and> whole n \<and> subseq acc (butlast is)"
| "putting acc is (PHalf b n l) \<longleftrightarrow> is \<noteq> [] \<and> b = student_bytes (last is) \<and> whole n \<and> subseq acc (butlast is)"
| "putting acc is (PFull b n) \<longleftrightarrow> is \<noteq> [] \<and> b = student_bytes (last is) \<and> whole n \<and> subseq acc (butlast is)"

fun getting :: "consumer \<Rightarrow> bool" where
  "getting CIdle \<longleftrightarrow> True"
| "getting (CLen b n) \<longleftrightarrow> length b = 16 \<and> whole n"
| "getting (CHalf b n l) \<longleftrightarrow> length b = 16 \<and> whole n \<and> l \<le> n"
| "getting (CFull b n) \<longleftrightarrow> length b = 16 \<and> whole n"

text \<open>The records that the consumer has got: what it has shown and what it is to show.\<close>

definition got :: "app \<Rightarrow> student_info list" where
  "got s = map snd (shown s) @ (case showing s of Some n \<Rightarrow> if n > 0 then [student_of (stu_info s)] else [] | None \<Rightarrow> [])"

lemma got_other [simp]: "got (link_update f s) = got s" "got (reporting_update g s) = got s" "got (made_update h s) = got s"
  "got (lengths_update k s) = got s"
  by (simp_all add: got_def split: option.split)

definition app_inv :: "student_info list \<Rightarrow> app \<Rightarrow> bool" where
  "app_inv acc s \<longleftrightarrow> spsc_inv (link s) \<and> m_nSize (queue (link s)) = 1024 \<and> sent (link s) = stream acc
     \<and> putting acc (made s) (producing (link s)) \<and> (reporting s \<longrightarrow> producing (link s) = PIdle)
     \<and> recvd (link s) = stream (got s) \<and> prefix (got s) acc \<and> getting (consuming (link s))
     \<and> (showing s \<noteq> None \<longrightarrow> consuming (link s) = CIdle) \<and> length (stu_info s) = 16"

text \<open>With whole records in the queue, \<open>Put\<close> and \<open>Get\<close> take the record or nothing.\<close>

lemma app_used:
  assumes "app_inv acc s"
  shows "uq_used (queue (link s)) + 16 * length (got s) = 16 * length acc"
proof -
  have "recvd (link s) @ uq_contents (queue (link s)) = sent (link s)" "recvd (link s) = stream (got s)" "sent (link s) = stream acc"
    using assms unfolding app_inv_def spsc_inv_def by blast+
  then have "length (stream (got s) @ uq_contents (queue (link s))) = length (stream acc)" by simp
  then show ?thesis by (simp add: uq_contents_def)
qed

lemma whole_unat: "unat n = 0 \<or> unat n = 16 \<Longrightarrow> whole n"
proof -
  have "unat (16 :: 32 word) = 16" by simp
  then show "unat n = 0 \<or> unat n = 16 \<Longrightarrow> whole n"
    unfolding whole_def by (metis unat_0 word_unat_eq_iff)
qed

lemma whole_put:
  assumes s: "app_inv acc s"
  shows "whole (put_len (queue (link s)) 16)"
proof -
  let ?q = "queue (link s)"
  have v: "uq_valid ?q" "m_nSize ?q = 1024" using s by (auto simp: app_inv_def spsc_inv_def)
  have "16 dvd uq_used ?q" using app_used [OF s] by (metis dvd_add_left_iff dvd_triv_left)
  then obtain k where k: "uq_used ?q = 16 * k" by (auto elim: dvdE)
  have "unat (put_len ?q 16) = min 16 (1024 - 16 * k)" using unat_put_len [OF v(1), of 16] v(2) k by simp
  then show ?thesis by (intro whole_unat) (cases "k < 64", auto)
qed

lemma whole_get:
  assumes s: "app_inv acc s"
  shows "whole (get_len (queue (link s)) 16)"
proof -
  let ?q = "queue (link s)"
  have "16 dvd uq_used ?q" using app_used [OF s] by (metis dvd_add_left_iff dvd_triv_left)
  then obtain k where k: "uq_used ?q = 16 * k" by (auto elim: dvdE)
  have "unat (get_len ?q 16) = min 16 (16 * k)" using unat_get_len [of ?q 16] k by simp
  then show ?thesis by (intro whole_unat) (cases k, auto)
qed


lemma spsc_sides:
  "spsc_step (turn.Producer b n) l = Some l' \<Longrightarrow> consuming l' = consuming l \<and> recvd l' = recvd l"
  "spsc_step (turn.Consumer b n) l = Some l' \<Longrightarrow> producing l' = producing l \<and> sent l' = sent l"
  by (auto simp: bind_eq_Some_conv)

lemma take_whole: "whole n \<Longrightarrow> take (unat n) (student_bytes i) = (if n = 0 then [] else student_bytes i)"
  by (auto simp: whole_def)

text \<open>A step inside \<open>Put\<close>.\<close>

lemma putting_step:
  assumes l: "spsc_step (turn.Producer b n) l = Some l'" and p: "putting acc is (producing l)" "producing l \<noteq> PIdle"
    and sent: "sent l = stream acc"
  shows "\<exists>acc'. prefix acc acc' \<and> putting acc' is (producing l') \<and> sent l' = stream acc'"
proof (cases "producing l")
  case (PFull b' k)
  then have k: "is \<noteq> []" "b' = student_bytes (last is)" "whole k" "subseq acc (butlast is)" using p by auto
  have split: "is = butlast is @ [last is]" using k(1) by simp
  show ?thesis
  proof (cases "k = 0")
    case True
    have "subseq acc is" using k(4) split by (metis subseq_rev_drop_many)
    then show ?thesis using l PFull True sent by (intro exI [of _ acc]) auto
  next
    case False
    then have "take (unat k) b' = student_bytes (last is)" using k(2,3) take_whole by simp
    moreover have "subseq (acc @ [last is]) is" using k(4) split by (metis list_emb_append_mono subseq_order.order_refl)
    ultimately show ?thesis using l PFull sent by (intro exI [of _ "acc @ [last is]"]) auto
  qed
qed (use l p sent in \<open>auto simp: Let_def bind_eq_Some_conv intro!: exI [of _ acc]\<close>)

lemma producer_step_inv:
  assumes s: "app_inv acc s"
  shows "\<exists>s' acc'. producer_proc rand cur_time True s = Some s' \<and> app_inv acc' s'"
proof -
  have si: "spsc_inv (link s)" and sz: "m_nSize (queue (link s)) = 1024" and se: "sent (link s) = stream acc"
    and pu: "putting acc (made s) (producing (link s))" and pre: "prefix (got s) acc"
    using s unfolding app_inv_def by blast+
  consider "reporting s" | "\<not> reporting s" "producing (link s) = PIdle" | "\<not> reporting s" "producing (link s) \<noteq> PIdle" by blast
  then show ?thesis
  proof cases
    case 1
    then show ?thesis using s by (intro exI [of _ acc] exI) (auto simp: producer_proc_def app_inv_def)
  next
    case 2
    obtain i where i: "get_student_info rand True (cur_time + int (rand (word_of_int cur_time) 0 mod 11111)) = Some i"
      by (simp add: get_student_info_def Let_def)
    obtain l where l: "spsc_step (turn.Producer (student_bytes i) 16) (link s) = Some l" "spsc_inv l"
      using spsc_step_inv [OF si, of "turn.Producer (student_bytes i) 16"] by auto
    have "queue l = queue (link s)" "producing l = PLen (student_bytes i) (put_len (queue (link s)) 16)" "sent l = sent (link s)"
      using l(1) 2 by auto
    then have "app_inv acc (s\<lparr>link := l, made := made s @ [i]\<rparr>)"
      using s l spsc_sides(1) [OF l(1)] whole_put [OF s] pu 2 by (auto simp: app_inv_def)
    then show ?thesis using 2 i l(1) by (auto simp: producer_proc_def Let_def)
  next
    case 3
    obtain l where l: "spsc_step (turn.Producer [] 0) (link s) = Some l" "spsc_inv l"
      using spsc_step_inv [OF si, of "turn.Producer [] 0"] by auto
    obtain acc' where acc': "prefix acc acc'" "putting acc' (made s) (producing l)" "sent l = stream acc'"
      using putting_step [OF l(1) pu 3(2) se] by blast
    have "app_inv acc' (s\<lparr>link := l, reporting := (producing l = PIdle)\<rparr>)"
      using s l spsc_sides(1) [OF l(1)] spsc_step_size [OF l(1)] acc' prefix_order.trans [OF pre acc'(1)]
      by (auto simp: app_inv_def)
    then show ?thesis using 3 l(1) by (auto simp: producer_proc_def)
  qed
qed

text \<open>A step inside \<open>Get\<close>, before the last.\<close>

lemma getting_step:
  assumes l: "spsc_step (turn.Consumer b 16) l = Some l'" "length b = 16" and c: "getting (consuming l)" "\<And>d n. consuming l \<noteq> CFull d n"
    and w: "whole (get_len (queue l) 16)"
  shows "getting (consuming l') \<and> recvd l' = recvd l"
proof (cases "consuming l")
  case (CLen d n)
  then show ?thesis using l c(1) by (auto simp: Let_def bind_eq_Some_conv first_part_def dest: memcpy_at_length)
next
  case (CHalf d n k)
  then show ?thesis using l c(1) by (auto simp: Let_def bind_eq_Some_conv dest: memcpy_at_length)
qed (use l c w in auto)

lemma consumer_step_inv:
  assumes s: "app_inv acc s"
  shows "\<exists>s'. consumer_proc s = Some s' \<and> app_inv acc s'"
proof (cases "showing s")
  case (Some n)
  have "got (s\<lparr>showing := None, shown := (if n > 0 then shown s @ [(GetDataLen (queue (link s)), student_of (stu_info s))] else shown s)\<rparr>) = got s"
    using Some by (simp add: got_def)
  then show ?thesis using s Some by (simp add: consumer_proc_def app_inv_def)
next
  case None
  have si: "spsc_inv (link s)" and ln: "length (stu_info s) = 16" and ge: "getting (consuming (link s))"
    and re: "recvd (link s) = stream (got s)" and se: "sent (link s) = stream acc" and pre: "prefix (got s) acc"
    using s unfolding app_inv_def by blast+
  show ?thesis
  proof (cases "\<exists>d n. consuming (link s) = CFull d n")
    case True
    then obtain d n where dn: "consuming (link s) = CFull d n" by blast
    then have d: "length d = 16" "whole n" using ge by auto
    obtain l where l: "spsc_step (turn.Consumer [] 0) (link s) = Some l" "spsc_inv l"
      using spsc_step_inv [OF si, of "turn.Consumer [] 0"] by auto
    have cl: "consuming l = CIdle" "recvd l = recvd (link s) @ take (unat n) d" using l(1) dn by auto
    let ?s = "s\<lparr>link := l, stu_info := d, showing := Some n\<rparr>"
    have "recvd l = stream (got ?s) \<and> prefix (got ?s) acc"
    proof (cases "n = 0")
      case True
      then show ?thesis using cl re pre None by (simp add: got_def)
    next
      case False
      then have n: "n = 16" using d(2) by (simp add: whole_def)
      have "recvd l @ uq_contents (queue l) = stream acc"
        using l(2) spsc_sides(2) [OF l(1)] se by (simp add: spsc_inv_def)
      then have "stream (got s) @ d @ uq_contents (queue l) = stream acc" using cl(2) re n d(1) by simp
      from stream_next [OF this d(1)]
      have x: "length (got s) < length acc" "d = student_bytes (acc ! length (got s))" .
      then have g: "got ?s = got s @ [acc ! length (got s)]" using None n by (simp add: got_def)
      have "got s = take (length (got s)) acc" using pre by (metis prefix_def append_eq_conv_conj)
      then have "got ?s = take (Suc (length (got s))) acc" using g x(1) by (simp add: take_Suc_conv_app_nth)
      then have "prefix (got ?s) acc" by (simp add: take_is_prefix)
      moreover have "recvd l = stream (got ?s)" using cl(2) re n d(1) g x(2) by simp
      ultimately show ?thesis by blast
    qed
    then have "app_inv acc ?s"
      using s l(2) spsc_sides(2) [OF l(1)] spsc_step_size [OF l(1)] cl(1) d(1) by (auto simp: app_inv_def)
    then show ?thesis using None dn l(1) by (auto simp: consumer_proc_def)
  next
    case False
    obtain l where l: "spsc_step (turn.Consumer (stu_info s) 16) (link s) = Some l" "spsc_inv l"
      using spsc_step_inv [OF si, of "turn.Consumer (stu_info s) 16"] ln by auto
    have "getting (consuming l) \<and> recvd l = recvd (link s)"
      using False by (intro getting_step [OF l(1) ln ge _ whole_get [OF s]]) auto
    then have "app_inv acc (s\<lparr>link := l\<rparr>)"
      using s l(2) spsc_sides(2) [OF l(1)] spsc_step_size [OF l(1)] None by (auto simp: app_inv_def)
    moreover have "consumer_proc s = Some (s\<lparr>link := l\<rparr>)"
      using None False l(1) by (cases "consuming (link s)") (simp_all add: consumer_proc_def del: spsc_step.simps)
    ultimately show ?thesis by blast
  qed
qed


section \<open>The program\<close>

definition plausible :: "student_info \<Rightarrow> bool" where
  "plausible i \<longleftrightarrow> 10000 \<le> unat (stu_id i) \<and> unat (stu_id i) < 19999 \<and> unat (age i) < 30 \<and> unat (score i) \<le> 100"

definition students_inv :: "app \<Rightarrow> bool" where
  "students_inv s \<longleftrightarrow> (\<exists>acc. app_inv acc s) \<and> list_all plausible (made s)"

lemma made_plausible:
  assumes "get_student_info rand malloc timer = Some i"
  shows "plausible i"
proof -
  have w: "unat (of_nat n :: 64 word) = n" "unat (of_nat n :: 32 word) = n" if "n < 19999" for n
    using that by (simp_all add: unat_of_nat take_bit_nat_eq_self)
  obtain x where i: "i = \<lparr>stu_id = of_nat (10000 + rand x 0 mod 9999), age = of_nat (rand x 1 mod 30), score = of_nat (rand x 2 mod 101)\<rparr>"
    using assms by (auto simp: get_student_info_def Let_def split: if_splits)
  have r: "rand x 0 mod 9999 < 9999" "rand x 1 mod 30 < 30" "rand x 2 mod 101 < 101" by simp_all
  have "unat (stu_id i) = 10000 + rand x 0 mod 9999" unfolding i using r(1) by (simp only: student_info.select_convs) (rule w, simp)
  moreover have "unat (age i) = rand x 1 mod 30" unfolding i using r(2) by (simp only: student_info.select_convs) (rule w, simp)
  moreover have "unat (score i) = rand x 2 mod 101" unfolding i using r(3) by (simp only: student_info.select_convs) (rule w, simp)
  ultimately show ?thesis using r unfolding plausible_def by linarith
qed

lemma producer_made:
  "producer_proc rand t malloc s = Some s' \<Longrightarrow> list_all plausible (made s) \<Longrightarrow> list_all plausible (made s')"
  by (auto simp: producer_proc_def Let_def bind_eq_Some_conv intro: made_plausible split: if_splits simp del: spsc_step.simps)

lemma consumer_made: "consumer_proc s = Some s' \<Longrightarrow> made s' = made s"
  by (auto simp: consumer_proc_def bind_eq_Some_conv split: option.splits consumer.splits simp del: spsc_step.simps)

lemma malloc_fails: "producer_proc rand t False s = Some s' \<Longrightarrow> producer_proc rand t True s = Some s'"
  by (auto simp: producer_proc_def get_student_info_def Let_def bind_eq_Some_conv split: if_splits)

fun side_ok :: "side \<Rightarrow> bool" where
  "side_ok (Producing t malloc) = malloc"
| "side_ok Consuming = True"

lemma app_step_keeps: "students_inv s \<Longrightarrow> app_step rand e s = Some s' \<Longrightarrow> students_inv s'"
proof (cases e)
  case (Producing t malloc)
  assume s: "students_inv s" and st: "app_step rand e s = Some s'"
  then have "producer_proc rand t True s = Some s'" using Producing malloc_fails by (cases malloc) auto
  then show ?thesis using s producer_step_inv producer_made unfolding students_inv_def by (metis option.inject)
next
  case Consuming
  assume "students_inv s" "app_step rand e s = Some s'"
  then show ?thesis using Consuming consumer_step_inv consumer_made unfolding students_inv_def
    by (metis app_step.simps(2) option.inject)
qed

interpretation students: interleaved "app_step rand" students_inv for rand :: "32 word \<Rightarrow> nat \<Rightarrow> nat"
  by unfold_locales (rule app_step_keeps)

lemma app_step_possible: "students_inv s \<Longrightarrow> side_ok e \<Longrightarrow> \<exists>s'. app_step rand e s = Some s'"
proof (cases e)
  case (Producing t malloc)
  then show "students_inv s \<Longrightarrow> side_ok e \<Longrightarrow> ?thesis" using producer_step_inv unfolding students_inv_def by fastforce
next
  case Consuming
  then show "students_inv s \<Longrightarrow> side_ok e \<Longrightarrow> ?thesis" using consumer_step_inv unfolding students_inv_def by fastforce
qed

lemma putting_subseq: "putting acc is p \<Longrightarrow> subseq acc is"
  by (cases p) (auto, (metis append_butlast_last_id subseq_rev_drop_many)+)

lemma students_shown:
  assumes "students_inv s"
  shows "subseq (map snd (shown s)) (made s)" "list_all plausible (map snd (shown s))"
proof -
  obtain acc where acc: "app_inv acc s" using assms by (auto simp: students_inv_def)
  have "prefix (map snd (shown s)) (got s)" by (simp add: got_def)
  also have "prefix (got s) acc" using acc by (simp add: app_inv_def)
  finally have "subseq (map snd (shown s)) acc" by (rule prefix_imp_subseq)
  also have "subseq acc (made s)" using acc by (auto simp: app_inv_def intro: putting_subseq)
  finally show sub: "subseq (map snd (shown s)) (made s)" .
  show "list_all plausible (map snd (shown s))"
    using assms list_emb_set [OF sub] by (fastforce simp: students_inv_def list_all_iff)
qed

text \<open>
  C3: the threads around the queue, composed with its interleaved steps.  As long as \<open>malloc\<close> succeeds no step of any
  schedule leaves a buffer, and what the consumer prints are whole records that the producer has made, in their order and none
  twice; records can be missing, because \<open>Put\<close> drops one when the queue is full.
\<close>

theorem students_delivered_whole:
  assumes "length mem = 1024" "length garbage = 16" "list_all side_ok es"
  shows "\<exists>s. main rand (Some mem) garbage True True es = Some (Inr s)
    \<and> subseq (map snd (shown s)) (made s) \<and> list_all plausible (map snd (shown s))"
proof -
  let ?q = "\<lparr>m_pBuffer = Some mem, m_nSize = 1024, m_nIn = 0, m_nOut = 0\<rparr>"
  have q: "UnlockQueue 1024 = Some \<lparr>m_pBuffer = None, m_nSize = 1024, m_nIn = 0, m_nOut = 0\<rparr>"
    by (simp add: UnlockQueue_def is_power_of_2_def)
  have v: "uq_valid ?q" using assms(1) by (auto simp: uq_valid_def uq_mem_def uq_used_def intro!: exI [of _ 10])
  have "app_inv [] (app_start garbage ?q)"
    using v assms(2) by (auto simp: app_inv_def app_start_def spsc_inv_def spsc_start_def uq_contents_def uq_used_def got_def)
  then have "students_inv (app_start garbage ?q)" by (auto simp: students_inv_def app_start_def)
  then obtain s where s: "run (app_step rand) es (app_start garbage ?q) = Some s" "students_inv s"
    using students.run_total [where ok = side_ok, OF app_step_possible] assms(3) by blast
  then show ?thesis using students_shown [OF s(2)] q by (simp add: main_def Initialize_def)
qed

theorem students_delivered_whole_witness:
  "\<exists>s. main (\<lambda>seed k. 7) (Some (replicate 1024 0)) (replicate 16 0) True True
        (replicate 5 (Producing 1 True) @ replicate 4 Consuming @ [Producing 2 True, Consuming]) = Some (Inr s)
    \<and> subseq (map snd (shown s)) (made s) \<and> list_all plausible (map snd (shown s))"
  by (rule students_delivered_whole) (simp_all add: list_all_iff)

text \<open>A full queue: the producer goes on as if the record were in it.\<close>

lemma full_drops:
  assumes "uq_valid q" "m_nSize q = 1024" "uq_used q = 1024"
  shows "put_len q 16 = 0"
  using unat_put_len [OF assms(1), of 16] assms(2,3) by (simp add: unat_eq_zero)

end
