(* ===== verification/Sq_Test.thy ===== *)
theory Sq_Test
  imports Sq_Press Interleaving Text_Numbers "HOL-Library.Sublist"
begin

text \<open>
  The interactive test program at the end of shm_queue.c: child processes that put and get messages, and the commands that
  start them.  A turn of a child is a whole call of the queue, so that the schedules here are those in which no two calls
  overlap.  That is every schedule when a command starts one child, since the parent waits for it; calls of several children that
  overlap are not expressed here, and \<open>Sq_Concurrent\<close> has them, for any number of putting processes and one that gets.
\<close>

section \<open>The children that put\<close>

definition bytes_of :: "string \<Rightarrow> 8 word list" where
  "bytes_of = map of_char"

definition put_text :: "nat \<Rightarrow> nat \<Rightarrow> string \<Rightarrow> string" where
  "put_text pid i msg = ''['' @ nat_text pid @ '':'' @ nat_text i @ ''] '' @ msg"

text \<open>\<open>Back i\<close>: \<open>test_put\<close> has returned in the child, which goes on in \<open>main\<close>.\<close>

datatype putter = Putting nat | Gone | Back nat

text \<open>
  A child has its own copy of \<open>struct shm_queue\<close>, of which only the segment behind \<open>head\<close> is shared.  \<open>accepted\<close> lists
  the child and the number of each message that was put.
\<close>

record putters =
  put_shared :: sq_head_t
  kids :: "(shm_queue \<times> putter) list"
  accepted :: "(nat \<times> nat) list"

definition put_kid :: "nat \<Rightarrow> shm_queue \<Rightarrow> putter \<Rightarrow> putters \<Rightarrow> putters" where
  "put_kid k q c s = s\<lparr>put_shared := head q, kids := (kids s)[k := (q, c)]\<rparr>"

text \<open>The next round of the child with \<open>pid = k + 1\<close>; \<open>None\<close> also when \<open>sprintf\<close> leaves the array \<open>m\<close>.\<close>

definition put_step :: "(nat \<Rightarrow> nat \<Rightarrow> sq_env) \<Rightarrow> int \<Rightarrow> string \<Rightarrow> nat \<Rightarrow> putters \<Rightarrow> putters option" where
  "put_step env cnt msg k s =
     do { (q, c) \<leftarrow> rd (kids s) k;
          let q = q\<lparr>head := put_shared s\<rparr>;
          case c of
            Putting i \<Rightarrow>
              (if int i < cnt
               then let m = bytes_of (put_text (k + 1) i msg)
                    in if length m < 1024 * 1024
                       then do { (q, r, sent) \<leftarrow> sq_put (env k i) q (Some m) (int (length m));
                                 if r < 0 then Some (put_kid k q (Back i) s)
                                 else Some (put_kid k q (Putting (i + 1)) (s\<lparr>accepted := accepted s @ [(k, i)]\<rparr>)) }
                       else None
               else Some (put_kid k q Gone s))
          | _ \<Rightarrow> None }"

text \<open>
  \<open>forks\<close> tells which of the \<open>proc_count\<close> forks succeed, \<open>turns\<close> which child runs next, until no child is in its loop.  The
  parent returns when no child is left, and so not while one is in \<open>main\<close>.
\<close>

definition put_start :: "shm_queue \<Rightarrow> bool list \<Rightarrow> putters" where
  "put_start q forks = \<lparr>put_shared = head q, kids = map (\<lambda>ok. (q, if ok then Putting 0 else Gone)) forks, accepted = []\<rparr>"

definition test_put :: "(nat \<Rightarrow> nat \<Rightarrow> sq_env) \<Rightarrow> bool list \<Rightarrow> nat list \<Rightarrow> shm_queue \<Rightarrow> int \<Rightarrow> string \<Rightarrow> (putters \<times> bool) option" where
  "test_put env forks turns q cnt msg =
     do { s \<leftarrow> run (put_step env cnt msg) turns (put_start q forks);
          if list_all (\<lambda>(q, c). case c of Putting i \<Rightarrow> False | _ \<Rightarrow> True) (kids s)
          then Some (s, list_all (\<lambda>(q, c). c = Gone) (kids s)) else None }"

section \<open>The children that get\<close>

datatype getter = Opening | Waiting int nat | Asleep int nat | Ended

text \<open>What \<open>select\<close> answers: an error, or whether the descriptor is ready.\<close>

datatype selected = Failed | Answered bool

text \<open>As above, with the segment in \<open>shared\<close>.\<close>

record getters =
  shared :: sq_head_t
  readers :: "(shm_queue \<times> getter) list"
  received :: "(nat \<times> 8 word list) list"

definition put_reader :: "nat \<Rightarrow> shm_queue \<Rightarrow> getter \<Rightarrow> getters \<Rightarrow> getters" where
  "put_reader k q c g = g\<lparr>shared := head q, readers := (readers g)[k := (q, c)]\<rparr>"

text \<open>
  A turn runs up to \<open>select\<close>, or from it on.  \<open>m\<close> is the static array of the child; \<open>None\<close> also for a descriptor that is
  out of the range of \<open>FD_SET\<close>.
\<close>

definition get_step :: "(nat \<Rightarrow> sq_env) \<Rightarrow> 8 word list \<Rightarrow> int \<Rightarrow> nat \<times> selected \<Rightarrow> getters \<Rightarrow> getters option" where
  "get_step env m cnt = (\<lambda>(k, answer) g.
     do { (q, c) \<leftarrow> rd (readers g) k;
          let q = q\<lparr>head := shared g\<rparr>;
          case c of
            Opening \<Rightarrow>
              do { (q, fd) \<leftarrow> sq_get_eventfd (env k) q;
                   if 0 \<le> fd \<and> fd < 1024 then Some (put_reader k q (Waiting fd 0) g) else None }
          | Waiting fd i \<Rightarrow>
              (if int i < cnt then do { (q, r) \<leftarrow> sq_sigon q; Some (put_reader k q (Asleep fd i) g) }
               else Some (put_reader k q Ended g))
          | Asleep fd i \<Rightarrow>
              do { (q, r) \<leftarrow> sq_sigoff q;
                   case answer of
                     Failed \<Rightarrow> Some (put_reader k q (Waiting fd (i + 1)) g)
                   | Answered ready \<Rightarrow>
                       do { (q, l, b, tv) \<leftarrow> sq_get q (Some m) (int (length m)) (0, 0);
                            if l < 0 then Some (put_reader k q Ended g)
                            else if l = 0 then Some (put_reader k q (Waiting fd i) g)
                            else do { b' \<leftarrow> wri b l 0;
                                      Some (put_reader k q (Waiting fd (i + 1)) (g\<lparr>received := received g @ [(k, take (nat l) b)]\<rparr>)) } } }
          | Ended \<Rightarrow> None })"

definition test_get :: "(nat \<Rightarrow> sq_env) \<Rightarrow> 8 word list \<Rightarrow> bool list \<Rightarrow> (nat \<times> selected) list \<Rightarrow> shm_queue \<Rightarrow> int \<Rightarrow> getters option" where
  "test_get env m forks turns q cnt =
     do { g \<leftarrow> run (get_step env m cnt) turns
            \<lparr>shared = head q, readers = map (\<lambda>ok. (q, if ok then Opening else Ended)) forks, received = []\<rparr>;
          if list_all (\<lambda>(q, c). c = Ended) (readers g) then Some g else None }"

section \<open>The commands\<close>

datatype cmd = Put int int string | Get int int | Quit | Other

definition at_least_one :: "int \<Rightarrow> int" where "at_least_one n = (if n < 1 then 1 else n)"

definition parse_cmd :: "string \<Rightarrow> cmd option" where
  "parse_cmd cmd =
     (if take 4 cmd = ''put ''
      then do { let p = dropWhile is_ws (drop 4 cmd);
                proc_count \<leftarrow> atoi p;
                let p = dropWhile is_ws (dropWhile is_digit p);
                cnt \<leftarrow> atoi p;
                let p = dropWhile is_ws (dropWhile is_digit p);
                Some (Put (at_least_one proc_count) (at_least_one cnt) p) }
      else if take 4 cmd = ''get ''
      then do { let p = dropWhile is_ws (drop 4 cmd);
                proc_count \<leftarrow> atoi p;
                let p = dropWhile is_ws (dropWhile is_digit p);
                cnt \<leftarrow> atoi p;
                Some (Get (at_least_one proc_count) (at_least_one cnt)) }
      else if take 4 cmd = ''quit'' \<or> take 4 cmd = ''exit'' then Some Quit
      else Some Other)"

text \<open>
  What the environment does during a command: the clock and the processes that it sees, the forks that succeed, and the
  turns of the children.
\<close>

record script =
  put_env :: "nat \<Rightarrow> nat \<Rightarrow> sq_env"
  get_env :: "nat \<Rightarrow> sq_env"
  forks :: "int \<Rightarrow> bool list"
  put_turns :: "nat list"
  get_turns :: "(nat \<times> selected) list"

text \<open>
  How the loop of \<open>main\<close> ends: the process returns, or children have come back into it and read the lines that follow
  instead of their parent.  With it stand the messages that were put and got.
\<close>

datatype ending = Returned | Strayed "putter list" "string list"

fun command_loop :: "8 word list \<Rightarrow> script list \<Rightarrow> string list \<Rightarrow> shm_queue
    \<Rightarrow> (shm_queue \<times> ending \<times> 8 word list list \<times> 8 word list list) option" where
  "command_loop m scripts [] q = Some (q, Returned, [], [])"
| "command_loop m [] (line # lines) q = None"
| "command_loop m (e # es) (line # lines) q =
     (if length line < 1024 * 1024
      then do { cmd \<leftarrow> parse_cmd line;
                case cmd of
                  Put proc_count cnt msg \<Rightarrow>
                    do { (s, finished) \<leftarrow> test_put (put_env e) (forks e proc_count) (put_turns e) q cnt msg;
                         let done = map (\<lambda>(k, i). bytes_of (put_text (k + 1) i msg)) (accepted s);
                         if finished
                         then do { (q', out, puts, gets) \<leftarrow> command_loop m es lines (q\<lparr>head := put_shared s\<rparr>);
                                   Some (q', out, done @ puts, gets) }
                         else Some (q\<lparr>head := put_shared s\<rparr>, Strayed (map snd (kids s)) lines, done, []) }
                | Get proc_count cnt \<Rightarrow>
                    do { g \<leftarrow> test_get (get_env e) m (forks e proc_count) (get_turns e) q cnt;
                         (q', out, puts, gets) \<leftarrow> command_loop m es lines (q\<lparr>head := shared g\<rparr>);
                         Some (q', out, puts, map snd (received g) @ gets) }
                | Quit \<Rightarrow> Some (q, Returned, [], [])
                | Other \<Rightarrow> command_loop m es lines q }
      else None)"

text \<open>\<open>main\<close>: the key and the queue; \<open>None\<close> is undefined behaviour or a load test that does not end.\<close>

datatype result = Usage | No_queue | Pressed int int | Commands ending "8 word list list" "8 word list list"

definition queue_key :: "string \<Rightarrow> 64 word" where
  "queue_key arg = (if take 2 arg = ''0x'' \<or> take 2 arg = ''0X'' then strtoul 16 (drop 2 arg) else strtoul 10 arg)"

definition int_arg :: "string \<Rightarrow> int" where
  "int_arg arg = to_i32 (uint (strtoul 10 arg))"

definition main :: "sq_env \<Rightarrow> shm_sys \<Rightarrow> bool \<Rightarrow> (int \<Rightarrow> sq_env) \<Rightarrow> script list \<Rightarrow> string list \<Rightarrow> string list \<Rightarrow> result option" where
  "main env sys calloc_ok press_env scripts args lines =
     (if length args < 3 then Some Usage
      else do {
        queue \<leftarrow>
          (if args ! 1 = ''open'' \<or> args ! 1 = ''press'' then Some (Some (sq_open sys calloc_ok (queue_key (args ! 2))))
           else if args ! 1 = ''create'' \<and> length args = 5
           then map_option Some (sq_create env sys calloc_ok (queue_key (args ! 2)) (int_arg (args ! 3)) (int_arg (args ! 4)) 1 2)
           else Some None);
        case queue of
          None \<Rightarrow> Some Usage
        | Some None \<Rightarrow> Some No_queue
        | Some (Some q) \<Rightarrow>
            if args ! 1 = ''press''
            then if length args \<noteq> 5 then Some Usage
                 else do { pressed \<leftarrow> press_test press_env (replicate (1024 * 1024) 0) (0, 0) q
                             (ucast (strtoul 10 (args ! 3))) (ucast (strtoul 10 (args ! 4)));
                           (q, m, puts, gets) \<leftarrow> pressed;
                           Some (Pressed puts gets) }
            else do { (q, out, puts, gets) \<leftarrow> command_loop (replicate (1024 * 1024) 0) scripts lines q;
                      Some (Commands out puts gets) } })"


section \<open>Single calls\<close>

lemma put_call:
  assumes q: "sqm_holds q ms" and e: "clock_ok env" and d: "d \<noteq> []"
  shows "\<exists>q' r sent. sq_put env q (Some d) (int (length d)) = Some (q', r, sent)
    \<and> (if r < 0 then sqm_holds q' ms else sqm_holds q' (ms @ [d]))"
proof (cases "length d \<le> 65536")
  case False
  then show ?thesis using q by (simp add: sq_put_def MAX_SQ_DATA_LENGTH_def)
next
  case True
  then have d': "0 < length d" "length d \<le> 65536" using d by simp_all
  obtain its where its: "sq_layout (head q) its" "messages its = ms" "sig_inv q" using q by (auto simp: sqm_holds_def)
  show ?thesis
  proof (cases "sq_room (head q) (need (NS (head q)) (length d))")
    case True
    obtain q' sent its' where r: "sq_put env q (Some d) (int (length d)) = Some (q', 0, sent)" "sig_inv q'"
      "sq_layout (head q') its'" "messages its' = ms @ [d]"
      using sq_put_room [OF its(1) d' True its(3) e] its(2) by (auto split: if_splits)
    then show ?thesis unfolding sqm_holds_def by fastforce
  next
    case False
    then show ?thesis using sq_put_full [OF its(1) d' False, of env] q by simp
  qed
qed

lemma get_call:
  assumes q: "sqm_holds q ms" and m: "65536 \<le> length m" and g: "sq_get q (Some m) (int (length m)) tv = Some (q', l, b, tv')"
  shows "if l = 0 then ms = [] \<and> sqm_holds q' ms else 0 < l \<and> sqm_holds q' (tl ms) \<and> ms = take (nat l) b # tl ms"
proof -
  obtain its where its: "sq_layout (head q) its" "messages its = ms" "sig_inv q" using q by (auto simp: sqm_holds_def)
  have m0: "0 < length m" using m by linarith
  show ?thesis
  proof (cases ms)
    case Nil
    then show ?thesis using sq_get_empty [OF its(1) _ m0, of tv] its(2,3) g
      by (auto simp: sqm_holds_def sig_inv_frame)
  next
    case (Cons d ms')
    have its2: "messages its = d # ms'" using its(2) Cons by simp
    from sq_get_message [OF its(1) its2 m0, of tv]
    obtain q1 its1 tm1 where r: "sq_get q (Some m) (int (length m)) tv
        = Some (if length d \<le> length m then (q1, int (length d), d @ drop (length d) m, tm1) else (q1, - 2, m, tm1))"
      "sq_frame q q1" "sq_layout (head q1) its1" "messages its1 = ms'" "0 < length d" "length d \<le> 65536"
      by blast
    then have "q' = q1" "l = int (length d)" "b = d @ drop (length d) m" using g m by simp_all
    moreover have "sqm_holds q1 ms'" using r(2-4) its(3) sig_inv_frame [OF r(2)] by (auto simp: sqm_holds_def)
    ultimately show ?thesis using Cons r(5) by simp
  qed
qed

text \<open>The shared head of one copy of the queue in another copy.\<close>

lemma holds_copy:
  assumes "sqm_holds q ms" "sqm_holds p ms'"
  shows "sqm_holds (p\<lparr>head := head q\<rparr>) ms"
  using assms by (simp add: sqm_holds_def sig_inv_def)

lemma holds_mask:
  assumes "sqm_holds q ms" "length x = 8"
  shows "sqm_holds (q\<lparr>head := head q\<lparr>sigmask := x\<rparr>\<rparr>) ms"
proof -
  have "queue_part (head q\<lparr>sigmask := x\<rparr>) = queue_part (head q)" by (simp add: queue_part_def)
  from sq_layout_part [OF this] show ?thesis using assms by (simp add: sqm_holds_def sig_inv_def)
qed

lemma sigon_call: "sqm_holds q ms \<Longrightarrow> sq_sigon q = Some (q', r) \<Longrightarrow> sqm_holds q' ms"
proof -
  assume h: "sqm_holds q ms" and s: "sq_sigon q = Some (q', r)"
  have l: "length (sigmask (head q)) = 8" using h by (simp add: sqm_holds_def sig_inv_def)
  have "q' = q \<or> (\<exists>x. length x = 8 \<and> q' = q\<lparr>head := head q\<lparr>sigmask := x\<rparr>\<rparr>)"
  proof (cases "u32 (sig_idx q) < u32 (pidnum (head q))")
    case True
    then obtain x where "q' = q\<lparr>head := head q\<lparr>sigmask := x\<rparr>\<rparr>" "length x = 8"
      using s l by (auto simp: sq_sigon_def sq_set_sig_on_def bind_eq_Some_conv wri_eq_Some_iff)
    then show ?thesis by blast
  next
    case False
    then show ?thesis using s by (simp add: sq_sigon_def sq_set_sig_on_def)
  qed
  then show ?thesis using h holds_mask by auto
qed

lemma sigoff_call: "sqm_holds q ms \<Longrightarrow> sq_sigoff q = Some (q', r) \<Longrightarrow> sqm_holds q' ms"
proof -
  assume h: "sqm_holds q ms" and s: "sq_sigoff q = Some (q', r)"
  have l: "length (sigmask (head q)) = 8" using h by (simp add: sqm_holds_def sig_inv_def)
  have "q' = q \<or> (\<exists>x. length x = 8 \<and> q' = q\<lparr>head := head q\<lparr>sigmask := x\<rparr>\<rparr>)"
  proof (cases "u32 (sig_idx q) < u32 (pidnum (head q))")
    case True
    then obtain x where "q' = q\<lparr>head := head q\<lparr>sigmask := x\<rparr>\<rparr>" "length x = 8"
      using s l by (auto simp: sq_sigoff_def sq_set_sig_off_def bind_eq_Some_conv wri_eq_Some_iff)
    then show ?thesis by blast
  next
    case False
    then show ?thesis using s by (simp add: sq_sigoff_def sq_set_sig_off_def)
  qed
  then show ?thesis using h holds_mask by auto
qed

lemma eventfd_call:
  assumes "sqm_holds q ms" "sq_get_eventfd env q = Some (q', fd)"
  shows "sqm_holds q' ms"
proof (cases "sig_idx q \<ge> 0 \<and> poll_fd q > 0")
  case True
  then show ?thesis using assms by (simp add: sq_get_eventfd_def)
next
  case False
  have "sig_inv q" using assms(1) by (simp add: sqm_holds_def)
  from eventfd_registers [OF this assms(1) False, of env] show ?thesis using assms(2) by auto
qed


section \<open>All calls of the children\<close>

text \<open>Each child has put its messages from the first on, in their order.\<close>

definition put_bytes :: "string \<Rightarrow> nat \<times> nat \<Rightarrow> 8 word list" where
  "put_bytes msg = (\<lambda>(k, i). bytes_of (put_text (k + 1) i msg))"

definition numbers :: "nat \<Rightarrow> (nat \<times> nat) list \<Rightarrow> nat list" where
  "numbers k log = map snd (filter (\<lambda>(j, i). j = k) log)"

fun put_count :: "int \<Rightarrow> bool \<Rightarrow> putter \<Rightarrow> nat" where
  "put_count cnt ok (Putting i) = i"
| "put_count cnt ok (Back i) = i"
| "put_count cnt ok Gone = (if ok then nat cnt else 0)"

definition put_inv :: "8 word list list \<Rightarrow> shm_queue \<Rightarrow> int \<Rightarrow> string \<Rightarrow> bool list \<Rightarrow> putters \<Rightarrow> bool" where
  "put_inv ms q0 cnt msg oks s \<longleftrightarrow> (let now = ms @ map (put_bytes msg) (accepted s) in
       sqm_holds (q0\<lparr>head := put_shared s\<rparr>) now \<and> list_all (\<lambda>(q, c). sqm_holds (q\<lparr>head := put_shared s\<rparr>) now) (kids s))
     \<and> length (kids s) = length oks \<and> (\<forall>(j, i) \<in> set (accepted s). j < length oks)
     \<and> (\<forall>k < length oks. numbers k (accepted s) = [0..<put_count cnt (oks ! k) (snd (kids s ! k))]
          \<and> (\<forall>i. snd (kids s ! k) = Putting i \<longrightarrow> oks ! k \<and> i \<le> nat cnt)
          \<and> (\<forall>i. snd (kids s ! k) = Back i \<longrightarrow> i \<le> nat cnt))"

lemma list_all_update: "list_all P xs \<Longrightarrow> P x \<Longrightarrow> list_all P (xs[k := x])"
  by (auto simp: list_all_iff dest!: set_update_subset_insert [THEN subsetD])

text \<open>A call of one child whose copy of the queue becomes \<open>q'\<close>.\<close>

lemma put_inv_kid:
  assumes s: "put_inv ms q0 cnt msg oks s" and k: "k < length oks"
    and q: "sqm_holds q' (ms @ map (put_bytes msg) (accepted s @ added))" "added = map (Pair k) nums"
    and c: "[0..<put_count cnt (oks ! k) c] = [0..<put_count cnt (oks ! k) (snd (kids s ! k))] @ nums"
      "\<And>i. c = Putting i \<Longrightarrow> oks ! k \<and> i \<le> nat cnt" "\<And>i. c = Back i \<Longrightarrow> i \<le> nat cnt"
  shows "put_inv ms q0 cnt msg oks (put_kid k q' c (s\<lparr>accepted := accepted s @ added\<rparr>))"
proof -
  let ?now = "ms @ map (put_bytes msg) (accepted s @ added)"
  note S = s [unfolded put_inv_def Let_def]
  have copy: "sqm_holds (q\<lparr>head := head q'\<rparr>) ?now"
    if "sqm_holds (q\<lparr>head := put_shared s\<rparr>) (ms @ map (put_bytes msg) (accepted s))" for q
    using holds_copy [OF q(1) that] by simp
  have "list_all (\<lambda>(q, c). sqm_holds (q\<lparr>head := put_shared s\<rparr>) (ms @ map (put_bytes msg) (accepted s))) (kids s)"
    using S by simp
  then have "list_all (\<lambda>(q, c). sqm_holds (q\<lparr>head := head q'\<rparr>) ?now) (kids s)"
    by (rule list.pred_mono_strong) (auto simp del: append_assoc map_append intro: copy)
  then have "list_all (\<lambda>(q, c). sqm_holds (q\<lparr>head := head q'\<rparr>) ?now) ((kids s)[k := (q', c)])"
    by (rule list_all_update) (use q(1) in simp)
  moreover have "numbers j (accepted s @ added) = numbers j (accepted s) @ (if j = k then nums else [])" for j
    unfolding q(2) by (simp add: numbers_def filter_map comp_def)
  moreover have "\<forall>(j, i) \<in> set (accepted s @ added). j < length oks" using S k q(2) by auto
  ultimately show ?thesis
    using S copy [of q0] c k by (simp add: put_inv_def put_kid_def nth_list_update)
qed

lemma put_step_keeps:
  assumes e: "\<And>k i. clock_ok (env k i)" and s: "put_inv ms q0 cnt msg oks s" and st: "put_step env cnt msg k s = Some s'"
  shows "put_inv ms q0 cnt msg oks s'"
proof -
  obtain q i where K: "k < length (kids s)" "kids s ! k = (q, Putting i)"
    using st by (cases "kids s ! k"; cases "snd (kids s ! k)") (auto simp: put_step_def rd_eq_Some_iff bind_eq_Some_conv Let_def)
  let ?q = "q\<lparr>head := put_shared s\<rparr>" and ?now = "ms @ map (put_bytes msg) (accepted s)"
  have k: "k < length oks" and h: "sqm_holds ?q ?now" and i: "oks ! k" "i \<le> nat cnt"
    using s K by (auto simp: put_inv_def Let_def list_all_length)
  note kid = put_inv_kid [OF s k, unfolded K(2) snd_conv put_count.simps]
  show ?thesis
  proof (cases "int i < cnt")
    case False
    then have "s' = put_kid k ?q Gone s" using st K by (simp add: put_step_def)
    moreover have "i = nat cnt" using i(2) False by simp
    ultimately show ?thesis using kid [of ?q "[]" "[]" Gone] h i(1) by simp
  next
    case True
    let ?m = "bytes_of (put_text (k + 1) i msg)"
    have ne: "?m \<noteq> []" by (simp add: bytes_of_def put_text_def)
    obtain q1 r sent where q1: "sq_put (env k i) ?q (Some ?m) (int (length ?m)) = Some (q1, r, sent)"
      "if r < 0 then sqm_holds q1 ?now else sqm_holds q1 (?now @ [?m])"
      using put_call [OF h e ne] by blast
    have s': "s' = (if r < 0 then put_kid k q1 (Back i) s
        else put_kid k q1 (Putting (i + 1)) (s\<lparr>accepted := accepted s @ [(k, i)]\<rparr>))"
      using st K True q1(1) by (auto simp: put_step_def Let_def split: if_splits)
    show ?thesis
    proof (cases "r < 0")
      case r: True
      then show ?thesis using kid [of q1 "[]" "[]" "Back i"] q1(2) i unfolding s' by simp
    next
      case r: False
      then have "sqm_holds q1 (ms @ map (put_bytes msg) (accepted s @ [(k, i)]))" using q1(2) by (simp add: put_bytes_def)
      from kid [OF this, of "[i]" "Putting (i + 1)"] show ?thesis using r i(1) True unfolding s' by simp
    qed
  qed
qed

definition clocks :: "script \<Rightarrow> bool" where
  "clocks e \<longleftrightarrow> (\<forall>k i. clock_ok (put_env e k i))"

interpretation puts: interleaved "put_step (put_env e) cnt msg" "\<lambda>s. clocks e \<and> put_inv ms q0 cnt msg oks s"
  for q0 :: shm_queue and e :: script and cnt :: int and msg :: string and ms :: "8 word list list" and oks :: "bool list"
  by unfold_locales (auto simp: clocks_def intro: put_step_keeps [rotated])

definition get_inv :: "8 word list list \<Rightarrow> shm_queue \<Rightarrow> getters \<Rightarrow> bool" where
  "get_inv ms q0 g \<longleftrightarrow> (\<exists>rest. map snd (received g) @ rest = ms \<and> sqm_holds (q0\<lparr>head := shared g\<rparr>) rest
     \<and> list_all (\<lambda>(q, c). sqm_holds (q\<lparr>head := shared g\<rparr>) rest) (readers g))"

text \<open>A call of one child whose copy of the queue becomes \<open>q'\<close>.\<close>

lemma get_inv_put:
  assumes "map snd (received g) @ rest = ms" "sqm_holds (q0\<lparr>head := shared g0\<rparr>) r0"
    "list_all (\<lambda>(q, c). sqm_holds (q\<lparr>head := shared g0\<rparr>) r0) (readers g)" "sqm_holds q' rest"
  shows "get_inv ms q0 (put_reader k q' c g)"
proof -
  have c: "sqm_holds (q\<lparr>head := head q'\<rparr>) rest" if "sqm_holds (q\<lparr>head := shared g0\<rparr>) r0" for q
    using holds_copy [OF assms(4) that] by simp
  have "list_all (\<lambda>(q, c). sqm_holds (q\<lparr>head := head q'\<rparr>) rest) ((readers g)[k := (q', c)])"
    using assms(3) assms(4) c by (cases "k < length (readers g)") (fastforce simp: list_all_length nth_list_update split: prod.splits)+
  then show ?thesis using assms(1) c [OF assms(2)] by (auto simp: get_inv_def put_reader_def intro!: exI [of _ rest])
qed

lemma get_step_keeps:
  assumes m: "65536 \<le> length m" and g: "get_inv ms q0 g" and st: "get_step env m cnt (k, answer) g = Some g'"
  shows "get_inv ms q0 g'"
proof -
  obtain q c where k: "k < length (readers g)" "readers g ! k = (q, c)"
    using st by (cases "readers g ! k") (auto simp: get_step_def rd_eq_Some_iff bind_eq_Some_conv)
  obtain rest where r: "map snd (received g) @ rest = ms" "sqm_holds (q0\<lparr>head := shared g\<rparr>) rest"
    "list_all (\<lambda>(q, c). sqm_holds (q\<lparr>head := shared g\<rparr>) rest) (readers g)"
    using g by (auto simp: get_inv_def)
  let ?q = "q\<lparr>head := shared g\<rparr>"
  have q: "sqm_holds ?q rest" using r(3) k by (auto simp: list_all_length)
  note put = get_inv_put [OF r]
  show ?thesis
  proof (cases c)
    case Opening
    then obtain q' fd where "sq_get_eventfd (env k) ?q = Some (q', fd)" "g' = put_reader k q' (Waiting fd 0) g"
      using st k by (auto simp: get_step_def Let_def bind_eq_Some_conv split: if_splits)
    then show ?thesis using put eventfd_call [OF q] by blast
  next
    case (Waiting fd i)
    show ?thesis
    proof (cases "int i < cnt")
      case True
      then obtain q' b where "sq_sigon ?q = Some (q', b)" "g' = put_reader k q' (Asleep fd i) g"
        using st k Waiting by (auto simp: get_step_def Let_def bind_eq_Some_conv)
      then show ?thesis using put sigon_call [OF q] by blast
    next
      case False
      then show ?thesis using st k Waiting put [OF q] by (auto simp: get_step_def Let_def)
    qed
  next
    case (Asleep fd i)
    then obtain q1 b where q1: "sq_sigoff ?q = Some (q1, b)" "sqm_holds q1 rest"
      using st k sigoff_call [OF q] by (auto simp: get_step_def Let_def bind_eq_Some_conv)
    show ?thesis
    proof (cases answer)
      case Failed
      then show ?thesis using st k Asleep q1 put [OF q1(2)] by (auto simp: get_step_def Let_def)
    next
      case (Answered ready)
      then obtain q2 l b tv where q2: "sq_get q1 (Some m) (int (length m)) (0, 0) = Some (q2, l, b, tv)"
        using st k Asleep q1(1) by (auto simp: get_step_def Let_def bind_eq_Some_conv)
      note gc = get_call [OF q1(2) m q2]
      show ?thesis
      proof (cases "l = 0")
        case True
        then have "g' = put_reader k q2 (Waiting fd i) g"
          using st k Asleep Answered q1(1) q2 by (simp add: get_step_def)
        moreover have "sqm_holds q2 rest" using gc True by auto
        ultimately show ?thesis using put by blast
      next
        case False
        then have l: "0 < l" "sqm_holds q2 (tl rest)" "rest = take (nat l) b # tl rest" using gc by auto
        then have "g' = put_reader k q2 (Waiting fd (i + 1)) (g\<lparr>received := received g @ [(k, take (nat l) b)]\<rparr>)"
          using st k Asleep Answered q1(1) q2 by (auto simp: get_step_def Let_def bind_eq_Some_conv split: if_splits)
        moreover have "map snd (received (g\<lparr>received := received g @ [(k, take (nat l) b)]\<rparr>)) @ tl rest = ms"
          using l(3) r(1) by simp
        ultimately show ?thesis
          using get_inv_put [where g = "g\<lparr>received := received g @ [(k, take (nat l) b)]\<rparr>" and rest = "tl rest", OF _ r(2)] r(3) l(2) by simp
      qed
    qed
  next
    case Ended
    then show ?thesis using st k by (simp add: get_step_def)
  qed
qed

interpretation gets: interleaved "get_step env m cnt" "\<lambda>g. 65536 \<le> length m \<and> get_inv ms q0 g"
  for env :: "nat \<Rightarrow> sq_env" and m :: "8 word list" and cnt :: int and ms :: "8 word list list" and q0 :: shm_queue
proof
  fix g g' :: getters and t assume "65536 \<le> length m \<and> get_inv ms q0 g" "get_step env m cnt t g = Some g'"
  then show "65536 \<le> length m \<and> get_inv ms q0 g'" using get_step_keeps by (cases t) blast
qed

section \<open>The session\<close>

lemma test_put_inv:
  assumes q: "sqm_holds q ms" and e: "clocks e" and t: "test_put (put_env e) oks turns q cnt msg = Some (s, fin)"
  shows "put_inv ms q cnt msg oks s" "\<And>k i. k < length (kids s) \<Longrightarrow> snd (kids s ! k) \<noteq> Putting i"
    "fin \<longleftrightarrow> (\<forall>k < length (kids s). snd (kids s ! k) = Gone)"
proof -
  have s: "run (put_step (put_env e) cnt msg) turns (put_start q oks) = Some s" "fin = list_all (\<lambda>(q, c). c = Gone) (kids s)"
    "list_all (\<lambda>(q, c). case c of Putting i \<Rightarrow> False | _ \<Rightarrow> True) (kids s)"
    using t by (auto simp: test_put_def bind_eq_Some_conv split: if_splits)
  have "put_inv ms q cnt msg oks (put_start q oks)"
    using q by (auto simp: put_inv_def put_start_def numbers_def list_all_iff)
  then show "put_inv ms q cnt msg oks s" using puts.run_inv [OF _ s(1), of ms q oks] e by blast
  show "fin \<longleftrightarrow> (\<forall>k < length (kids s). snd (kids s ! k) = Gone)"
    unfolding s(2) by (simp add: list_all_length case_prod_beta)
  show "snd (kids s ! k) \<noteq> Putting i" if "k < length (kids s)" for k i
    using s(3) that by (cases "kids s ! k") (auto simp: list_all_length)
qed

text \<open>Each child has put its messages from the first on, in their order.\<close>

lemma test_put_spec:
  assumes "sqm_holds q ms" "clocks e" "test_put (put_env e) oks turns q cnt msg = Some (s, fin)"
  shows "sqm_holds (q\<lparr>head := put_shared s\<rparr>) (ms @ map (put_bytes msg) (accepted s))"
    and "k < length oks \<Longrightarrow> numbers k (accepted s) = [0..<put_count cnt (oks ! k) (snd (kids s ! k))]"
  using test_put_inv(1) [OF assms] by (simp_all add: put_inv_def Let_def)

text \<open>One child puts all its messages, or the first ones and strays.\<close>

lemma test_put_one:
  assumes "sqm_holds q ms" "clocks e" "test_put (put_env e) [True] turns q cnt msg = Some (s, fin)"
  shows "\<exists>n \<le> nat cnt. map (put_bytes msg) (accepted s) = map (\<lambda>i. bytes_of (put_text 1 i msg)) [0..<n] \<and> (fin \<longrightarrow> n = nat cnt)"
proof -
  note inv = test_put_inv [OF assms]
  have one: "length (kids s) = 1" "\<forall>(j, i) \<in> set (accepted s). j = 0" using inv(1) by (auto simp: put_inv_def)
  have "map (put_bytes msg) xs = map (\<lambda>i. bytes_of (put_text 1 i msg)) (numbers 0 xs)" if "\<forall>(j, i) \<in> set xs. j = (0 :: nat)" for xs
    using that by (induction xs) (auto simp: numbers_def put_bytes_def)
  moreover have "numbers 0 (accepted s) = [0..<put_count cnt True (snd (kids s ! 0))]"
    using inv(1) by (simp add: put_inv_def)
  moreover have "put_count cnt True (snd (kids s ! 0)) \<le> nat cnt"
    using inv(1) by (cases "snd (kids s ! 0)") (auto simp: put_inv_def)
  moreover have "fin \<longleftrightarrow> snd (kids s ! 0) = Gone" using inv(3) one(1) by simp
  ultimately show ?thesis using one(2) by (intro exI [of _ "put_count cnt True (snd (kids s ! 0))"]) simp
qed

lemma test_get_spec:
  assumes q: "sqm_holds q ms" and m: "65536 \<le> length m" and t: "test_get env m oks turns q cnt = Some g"
  shows "\<exists>rest. sqm_holds (q\<lparr>head := shared g\<rparr>) rest \<and> map snd (received g) @ rest = ms"
proof -
  have g: "run (get_step env m cnt) turns
      \<lparr>shared = head q, readers = map (\<lambda>ok. (q, if ok then Opening else Ended)) oks, received = []\<rparr> = Some g"
    using t by (auto simp: test_get_def bind_eq_Some_conv split: if_splits)
  have "get_inv ms q \<lparr>shared = head q, readers = map (\<lambda>ok. (q, if ok then Opening else Ended)) oks, received = []\<rparr>"
    using q by (auto simp: get_inv_def list_all_iff)
  then have "get_inv ms q g" using gets.run_inv [OF _ g, of ms q] m by blast
  then show ?thesis by (auto simp: get_inv_def)
qed

text \<open>One child whose \<open>select\<close> never fails gets what it was asked for, one message in each round that does not wait.\<close>

definition got_inv :: "int \<Rightarrow> getters \<Rightarrow> bool" where
  "got_inv cnt g \<longleftrightarrow> (\<exists>q c. readers g = [(q, c)] \<and>
     (case c of
        Opening \<Rightarrow> received g = []
      | Waiting fd i \<Rightarrow> length (received g) = i \<and> int i \<le> cnt
      | Asleep fd i \<Rightarrow> length (received g) = i \<and> int i < cnt
      | Ended \<Rightarrow> int (length (received g)) = cnt))"

lemma get_step_one:
  assumes m: "65536 \<le> length m" and c: "0 \<le> cnt" and g: "get_inv ms q0 g" "got_inv cnt g" and a: "answer \<noteq> Failed"
    and st: "get_step env m cnt (k, answer) g = Some g'"
  shows "got_inv cnt g'"
proof -
  obtain q s where one: "readers g = [(q, s)]" using g(2) by (auto simp: got_inv_def)
  have k: "k = 0" using st one by (auto simp: get_step_def rd_eq_Some_iff bind_eq_Some_conv)
  obtain rest where q: "sqm_holds (q\<lparr>head := shared g\<rparr>) rest" using g(1) one by (auto simp: get_inv_def)
  note unfold = get_step_def got_inv_def put_reader_def one k
  show ?thesis
  proof (cases s)
    case (Asleep fd i)
    obtain ready where ans: "answer = Answered ready" using a by (cases answer) auto
    obtain q1 b where q1: "sq_sigoff (q\<lparr>head := shared g\<rparr>) = Some (q1, b)" "sqm_holds q1 rest"
      using st Asleep sigoff_call [OF q] by (auto simp: get_step_def one k Let_def bind_eq_Some_conv)
    obtain q2 l b' tv where q2: "sq_get q1 (Some m) (int (length m)) (0, 0) = Some (q2, l, b', tv)"
      using st Asleep ans q1(1) by (auto simp: get_step_def one k Let_def bind_eq_Some_conv)
    have "0 \<le> l" using get_call [OF q1(2) m q2] by (cases "l = 0") simp_all
    then show ?thesis using st Asleep ans q1(1) q2 g(2)
      by (auto simp: unfold bind_eq_Some_conv split: if_splits)
  qed (use st g(2) c in \<open>auto simp: unfold Let_def bind_eq_Some_conv split: if_splits\<close>)
qed

lemma get_run_one:
  assumes m: "65536 \<le> length m" and c: "0 \<le> cnt"
  shows "get_inv ms q0 g \<Longrightarrow> got_inv cnt g \<Longrightarrow> list_all (\<lambda>(k, a). a \<noteq> Failed) turns \<Longrightarrow>
    run (get_step env m cnt) turns g = Some g' \<Longrightarrow> got_inv cnt g'"
proof (induction turns arbitrary: g)
  case (Cons t turns)
  obtain k a where t: "t = (k, a)" "a \<noteq> Failed" using Cons.prems(3) by (cases t) simp
  obtain g1 where g1: "get_step env m cnt (k, a) g = Some g1" "run (get_step env m cnt) turns g1 = Some g'"
    using Cons.prems(4) t(1) by (auto simp: bind_eq_Some_conv)
  show ?case
    using Cons.IH [OF get_step_keeps [OF m Cons.prems(1) g1(1)] get_step_one [OF m c Cons.prems(1,2) t(2) g1(1)] _ g1(2)] Cons.prems(3)
    by simp
qed simp

lemma test_get_one:
  assumes q: "sqm_holds q ms" and m: "65536 \<le> length m" and c: "0 \<le> cnt"
    and t: "test_get env m [True] turns q cnt = Some g" "list_all (\<lambda>(k, a). a \<noteq> Failed) turns"
  shows "int (length (received g)) = cnt"
proof -
  let ?g0 = "\<lparr>shared = head q, readers = [(q, Opening)], received = []\<rparr>"
  have g: "run (get_step env m cnt) turns ?g0 = Some g" "list_all (\<lambda>(q, c). c = Ended) (readers g)"
    using t(1) by (auto simp: test_get_def bind_eq_Some_conv split: if_splits)
  have "get_inv ms q ?g0" "got_inv cnt ?g0" using q by (auto simp: get_inv_def got_inv_def)
  from get_run_one [OF m c this t(2) g(1)] g(2) show ?thesis by (auto simp: got_inv_def)
qed

lemma command_loop_spec:
  "65536 \<le> length m \<Longrightarrow> sqm_holds q ms \<Longrightarrow> list_all clocks es \<Longrightarrow> command_loop m es lines q = Some (q', out, puts, gets) \<Longrightarrow>
    \<exists>rest. sqm_holds q' rest \<and> gets @ rest = ms @ puts"
proof (induction m es lines q arbitrary: ms q' out puts gets rule: command_loop.induct)
  case (3 m e es line lines q)
  then obtain c where c: "length line < 1024 * 1024" "parse_cmd line = Some c"
    by (auto simp: bind_eq_Some_conv split: if_splits)
  note h = "3.prems"(2)
  have e: "clocks e" "list_all clocks es" using "3.prems"(3) by simp_all
  note run = "3.prems"(4)
  show ?case
  proof (cases c)
    case (Put proc_count cnt msg)
    obtain s fin where t: "test_put (put_env e) (forks e proc_count) (put_turns e) q cnt msg = Some (s, fin)"
      using run c Put by (auto simp: bind_eq_Some_conv)
    let ?done = "map (put_bytes msg) (accepted s)"
    have h': "sqm_holds (q\<lparr>head := put_shared s\<rparr>) (ms @ ?done)"
      by (rule test_put_spec(1) [OF h e(1) t])
    show ?thesis
    proof (cases fin)
      case True
      then obtain puts' where r: "command_loop m es lines (q\<lparr>head := put_shared s\<rparr>) = Some (q', out, puts', gets)"
        "puts = ?done @ puts'"
        using run c Put t by (auto simp: bind_eq_Some_conv Let_def put_bytes_def)
      show ?thesis using "3.IH"(1) [OF c Put t refl refl True "3.prems"(1) h' e(2) r(1)] r(2) by simp
    next
      case False
      then show ?thesis using run c Put t h' by (auto simp: Let_def put_bytes_def)
    qed
  next
    case (Get proc_count cnt)
    obtain g where g: "test_get (get_env e) m (forks e proc_count) (get_turns e) q cnt = Some g"
      using run c Get by (auto simp: bind_eq_Some_conv)
    obtain rest where rest: "sqm_holds (q\<lparr>head := shared g\<rparr>) rest" "map snd (received g) @ rest = ms"
      using test_get_spec [OF h "3.prems"(1) g] by blast
    obtain gets' where r: "command_loop m es lines (q\<lparr>head := shared g\<rparr>) = Some (q', out, puts, gets')"
      "gets = map snd (received g) @ gets'"
      using run c Get g by (auto simp: bind_eq_Some_conv)
    obtain rest' where "sqm_holds q' rest'" "gets' @ rest' = rest @ puts"
      using "3.IH"(2) [OF c Get g "3.prems"(1) rest(1) e(2) r(1)] by blast
    then show ?thesis using r(2) rest(2) by auto
  next
    case Quit
    then show ?thesis using run c h by auto
  next
    case Other
    then show ?thesis using run c "3.IH"(3) [OF c Other "3.prems"(1) h e(2)] by auto
  qed
qed auto

text \<open>A command as it is typed is what is run.\<close>

lemma is_ws_blank: "is_ws CHR '' ''"
  by (simp add: is_ws_def)

lemma parse_put:
  assumes "1 \<le> p" "p < 2 ^ 31" "1 \<le> n" "n < 2 ^ 31" "msg \<noteq> []" "\<not> is_ws (msg ! 0)"
  shows "parse_cmd (''put '' @ nat_text p @ '' '' @ nat_text n @ '' '' @ msg) = Some (Put (int p) (int n) msg)"
proof -
  have blank: "num_end (CHR '' '' # t)" for t by (simp add: num_end_def is_digit_def)
  have skip: "dropWhile is_ws (nat_text k @ t) = nat_text k @ t" for k t
    using nat_text_digits [of k] digit_no_ws(1) by (cases "nat_text k") auto
  have digits: "dropWhile is_digit (nat_text k @ CHR '' '' # t) = CHR '' '' # t" for k t
    using take_digits [OF _ blank] nat_text_digits [of k] by blast
  have msg: "dropWhile is_ws msg = msg" using assms(5,6) by (cases msg) auto
  show ?thesis
    using assms(1-4) atoi_nat_text [OF blank, of p] atoi_nat_text [OF blank, of n]
    by (simp add: parse_cmd_def skip digits is_ws_blank msg Let_def at_least_one_def)
qed

text \<open>
  A session whose commands start one child each: the forks succeed, and no \<open>select\<close> fails.  What it puts and how many messages it gets is
  then in its lines.
\<close>

definition one_child :: "string \<Rightarrow> bool" where
  "one_child line \<longleftrightarrow> (case parse_cmd line of Some (Put p cnt msg) \<Rightarrow> p = 1 | Some (Get p cnt) \<Rightarrow> p = 1 | _ \<Rightarrow> True)"

definition calm :: "script \<Rightarrow> bool" where
  "calm e \<longleftrightarrow> forks e 1 = [True] \<and> list_all (\<lambda>(k, a). a \<noteq> Failed) (get_turns e)"

fun requested :: "string list \<Rightarrow> 8 word list list" where
  "requested [] = []"
| "requested (line # lines) =
     (case parse_cmd line of
        Some (Put p cnt msg) \<Rightarrow> map (\<lambda>i. bytes_of (put_text 1 i msg)) [0..<nat cnt] @ requested lines
      | Some Quit \<Rightarrow> []
      | _ \<Rightarrow> requested lines)"

fun wanted :: "string list \<Rightarrow> int" where
  "wanted [] = 0"
| "wanted (line # lines) =
     (case parse_cmd line of
        Some (Get p cnt) \<Rightarrow> cnt + wanted lines
      | Some Quit \<Rightarrow> 0
      | _ \<Rightarrow> wanted lines)"

lemma parse_get_positive: "parse_cmd line = Some (Get p cnt) \<Longrightarrow> 1 \<le> cnt"
  by (auto simp: parse_cmd_def Let_def bind_eq_Some_conv at_least_one_def split: if_splits)

lemma command_loop_exact:
  "65536 \<le> length m \<Longrightarrow> sqm_holds q ms \<Longrightarrow> list_all clocks es \<Longrightarrow> list_all calm es \<Longrightarrow> list_all one_child lines \<Longrightarrow>
   command_loop m es lines q = Some (q', out, puts, gets) \<Longrightarrow>
    prefix puts (requested lines) \<and> (out = Returned \<longrightarrow> puts = requested lines \<and> int (length gets) = wanted lines)"
proof (induction m es lines q arbitrary: ms q' out puts gets rule: command_loop.induct)
  case (3 m e es line lines q)
  then obtain c where c: "length line < 1024 * 1024" "parse_cmd line = Some c"
    by (auto simp: bind_eq_Some_conv split: if_splits)
  note h = "3.prems"(2)
  have e: "clocks e" "list_all clocks es" "forks e 1 = [True]" "list_all (\<lambda>(k, a). a \<noteq> Failed) (get_turns e)" "list_all calm es"
    and one: "one_child line" "list_all one_child lines"
    using "3.prems"(3-5) by (simp_all add: calm_def [of e])
  note run = "3.prems"(6)
  show ?case
  proof (cases c)
    case (Put proc_count cnt msg)
    have p: "proc_count = 1" using one(1) c(2) Put by (simp add: one_child_def)
    obtain s fin where t: "test_put (put_env e) (forks e proc_count) (put_turns e) q cnt msg = Some (s, fin)"
      using run c Put by (auto simp: bind_eq_Some_conv)
    let ?done = "map (put_bytes msg) (accepted s)"
    obtain n where n: "n \<le> nat cnt" "?done = map (\<lambda>i. bytes_of (put_text 1 i msg)) [0..<n]" "fin \<longrightarrow> n = nat cnt"
      using test_put_one [OF h e(1), of "put_turns e" cnt msg s fin] t p e(3) by auto
    have h': "sqm_holds (q\<lparr>head := put_shared s\<rparr>) (ms @ ?done)"
      by (rule test_put_spec(1) [OF h e(1) t])
    show ?thesis
    proof (cases fin)
      case True
      then obtain puts' where r: "command_loop m es lines (q\<lparr>head := put_shared s\<rparr>) = Some (q', out, puts', gets)"
        "puts = ?done @ puts'"
        using run c Put t by (auto simp: bind_eq_Some_conv Let_def put_bytes_def)
      show ?thesis using "3.IH"(1) [OF c Put t refl refl True "3.prems"(1) h' e(2,5) one(2) r(1)] r(2) n(2,3) True c(2) Put by simp
    next
      case False
      have "[0..<nat cnt] = [0..<n] @ [n..<nat cnt]" using n(1) upt_add_eq_append [of 0 n "nat cnt - n"] by simp
      then have "prefix ?done (requested (line # lines))" using n(2) c(2) Put by (simp add: prefix_def)
      then show ?thesis using False run c Put t by (auto simp: Let_def put_bytes_def)
    qed
  next
    case (Get proc_count cnt)
    have p: "proc_count = 1" using one(1) c(2) Get by (simp add: one_child_def)
    obtain g where g: "test_get (get_env e) m (forks e proc_count) (get_turns e) q cnt = Some g"
      using run c Get by (auto simp: bind_eq_Some_conv)
    have "0 \<le> cnt" using parse_get_positive [of line proc_count cnt] c(2) Get by simp
    then have l: "int (length (received g)) = cnt"
      using test_get_one [OF h "3.prems"(1) _ _ e(4), of cnt "get_env e" g] g p e(3) by simp
    obtain rest where rest: "sqm_holds (q\<lparr>head := shared g\<rparr>) rest"
      using test_get_spec [OF h "3.prems"(1) g] by blast
    obtain gets' where r: "command_loop m es lines (q\<lparr>head := shared g\<rparr>) = Some (q', out, puts, gets')"
      "gets = map snd (received g) @ gets'"
      using run c Get g by (auto simp: bind_eq_Some_conv)
    show ?thesis using "3.IH"(2) [OF c Get g "3.prems"(1) rest e(2,5) one(2) r(1)] r(2) l c(2) Get by simp
  next
    case Quit
    then show ?thesis using run c by auto
  next
    case Other
    then show ?thesis using run c "3.IH"(3) [OF c Other "3.prems"(1) h e(2,5) one(2)] by auto
  qed
qed auto

text \<open>
  C5: a session of the test program on a sound queue, whose commands start one child each: their \<open>proc_count\<close> is 1 and the forks succeed, so
  that the parent waits and no two calls of the queue overlap.  When no \<open>select\<close> fails, whatever the system otherwise answers, the messages that the
  children got, in their order, followed by what is left in the queue are what was in the queue followed by what the children put.  If the
  loop of \<open>main\<close> ends, every message that the lines ask for has been put, numbered from 0, and as many messages as they ask for have been got; if a child
  has strayed into the loop, the messages put are the first of those.
\<close>

theorem sq_test_session:
  assumes "sqm_holds q ms" "list_all clocks scripts" "length m = 1024 * 1024"
    and "list_all calm scripts" "list_all one_child lines"
    and "command_loop m scripts lines q = Some (q', out, puts, gets)"
  shows "(\<exists>rest. sqm_holds q' rest \<and> gets @ rest = ms @ puts) \<and> prefix puts (requested lines)
    \<and> (out = Returned \<longrightarrow> puts = requested lines \<and> int (length gets) = wanted lines)"
proof -
  have m: "65536 \<le> length m" using assms(3) by linarith
  show ?thesis using command_loop_spec [OF m assms(1,2,6)] command_loop_exact [OF m assms(1,2,4-6)] by blast
qed

text \<open>One child puts one message into an empty queue of 200 nodes.\<close>

theorem sq_test_session_witness:
  "\<exists>q' rest. command_loop (replicate (1024 * 1024) 0)
      [\<lparr>put_env = \<lambda>k i. \<lparr>pid_exists = (\<lambda>p. False), clock_sec = 0, clock_usec = 0, fifo_fd = (\<lambda>i. - 1), getpid = 1\<rparr>,
        get_env = \<lambda>k. \<lparr>pid_exists = (\<lambda>p. False), clock_sec = 0, clock_usec = 0, fifo_fd = (\<lambda>i. - 1), getpid = 1\<rparr>,
        forks = \<lambda>n. replicate (nat n) True, put_turns = [0, 0], get_turns = []\<rparr>]
      [''put 1 1 hi''] (idle_queue 8 200 101) = Some (q', Returned, [bytes_of ''[1:0] hi''], [])
    \<and> sqm_holds q' rest \<and> [] @ rest = [] @ [bytes_of ''[1:0] hi''] \<and> requested [''put 1 1 hi''] = [bytes_of ''[1:0] hi'']"
proof -
  let ?env = "\<lparr>pid_exists = (\<lambda>p. False), clock_sec = 0, clock_usec = 0, fifo_fd = (\<lambda>i. - 1), getpid = 1\<rparr>"
  let ?e = "\<lparr>put_env = \<lambda>k i. ?env, get_env = \<lambda>k. ?env, forks = \<lambda>n. replicate (nat n) True, put_turns = [0, 0], get_turns = []\<rparr>"
  let ?q = "idle_queue 8 200 101" and ?m = "replicate (1024 * 1024) (0 :: 8 word)" and ?d = "bytes_of ''[1:0] hi''"
  have h: "sqm_holds ?q []" by (rule idle_queue_holds) simp_all
  have e: "clock_ok ?env" by (simp add: clock_ok_def)
  have l: "length ?d = 8" by (simp add: bytes_of_def)
  obtain its where its: "sq_layout (head ?q) its" "sig_inv ?q" using h by (auto simp: sqm_holds_def)
  have "sq_room (head ?q) (need (NS (head ?q)) (length ?d))"
    unfolding l by (simp add: sq_room_def sq_used_def need_def NS_def idle_queue_def new_queue_def NN_def)
  from sq_put_room [OF its(1) _ _ this its(2) e]
  obtain q1 sent where q1: "sq_put ?env ?q (Some ?d) (int (length ?d)) = Some (q1, 0, sent)" using l by auto
  have one: "nat_text 1 = ''1''" "nat_text (Suc 0) = ''1''" "nat_text 0 = ''0''" by code_simp+
  have msg: "bytes_of (put_text (Suc 0) 0 ''hi'') = ?d" by (simp add: put_text_def one)
  have t: "test_put (put_env ?e) (forks ?e 1) (put_turns ?e) ?q 1 ''hi'' = Some (\<lparr>put_shared = head q1, kids = [(q1, Gone)], accepted = [(0, 0)]\<rparr>, True)"
    using q1 l by (simp add: test_put_def put_start_def put_step_def put_kid_def msg)
  have p: "parse_cmd ''put 1 1 hi'' = Some (Put 1 1 ''hi'')"
    using parse_put [of 1 1 "''hi''"] by (simp add: one is_ws_def)
  have r: "command_loop ?m [?e] [''put 1 1 hi''] ?q = Some (?q\<lparr>head := head q1\<rparr>, Returned, [?d], [])"
    using p t by (simp add: msg)
  have "list_all clocks [?e]" "list_all calm [?e]" "list_all one_child [''put 1 1 hi'']"
    using e p by (simp_all add: clocks_def calm_def one_child_def)
  from sq_test_session [OF h this(1) length_replicate this(2,3) r] r show ?thesis by auto
qed

text \<open>A child whose message the queue refuses strays.\<close>

lemma full_queue_strays:
  assumes "sq_layout (head q) its" "\<not> sq_room (head q) (need (NS (head q)) (length (bytes_of (put_text 1 0 msg))))"
    and "length (put_text 1 0 msg) \<le> 65536" "1 \<le> cnt"
  shows "test_put env [True] [0] q cnt msg = Some (\<lparr>put_shared = head q, kids = [(q, Back 0)], accepted = []\<rparr>, False)"
proof -
  have l: "0 < length (bytes_of (put_text 1 0 msg))" "length (bytes_of (put_text 1 0 msg)) \<le> 65536"
    using assms(3) by (simp_all add: bytes_of_def put_text_def)
  show ?thesis using sq_put_full [OF assms(1) l assms(2), of "env 0 0"] l(2) assms(4)
    by (simp add: test_put_def put_start_def put_step_def put_kid_def)
qed

end
