(* ===== verification/Sq_Client.thy ===== *)
theory Sq_Client
  imports Sq_Test
begin

text \<open>
  The client of the message queue in example_shmqueue_test.cpp: it opens or creates the queue, puts one text, and prints the
  messages that it gets.  \<open>None\<close> is undefined behaviour: the null pointer as a queue, a descriptor out of the range of
  \<open>FD_SET\<close>, a text that is printed to the end of its array.
\<close>

section \<open>The code\<close>

definition data :: "8 word list" where
  "data = [232, 166, 129, 229, 134, 153, 228, 187, 128, 228, 185, 136, 229, 176, 177, 229, 134, 153, 228, 187, 128, 228, 185, 136,
     239, 188, 140, 230, 175, 171, 228, 184, 141, 231, 138, 185, 232, 177, 171]"

definition c_text :: "8 word list \<Rightarrow> 8 word list option" where
  "c_text b = (if 0 \<in> set b then Some (takeWhile (\<lambda>x. x \<noteq> 0) b) else None)"

datatype line = Put_failed | Get_failed | Message "8 word list"

text \<open>One round of the loop, with the answer of \<open>select\<close> and the 1024 bytes that the new \<open>buffer\<close> holds.\<close>

definition client_round :: "selected \<times> 8 word list \<Rightarrow> shm_queue \<Rightarrow> (shm_queue \<times> line list) option" where
  "client_round = (\<lambda>(answer, buffer) sq.
     do { (sq, r) \<leftarrow> sq_sigon sq;
          (sq, r) \<leftarrow> sq_sigoff sq;
          case answer of
            Failed \<Rightarrow> Some (sq, [])
          | Answered ready \<Rightarrow>
              do { (sq, n, buffer, tv) \<leftarrow> sq_get sq (Some buffer) (int (length buffer)) (0, 0);
                   if n < 0 then Some (sq, [Get_failed])
                   else if n = 0 then Some (sq, [])
                   else do { t \<leftarrow> c_text buffer; Some (sq, [Message t]) } } })"

fun client_loop :: "(selected \<times> 8 word list) list \<Rightarrow> shm_queue \<Rightarrow> (shm_queue \<times> line list) option" where
  "client_loop [] sq = Some (sq, [])"
| "client_loop (r # rs) sq =
     do { (sq, out) \<leftarrow> client_round r sq; (sq, outs) \<leftarrow> client_loop rs sq; Some (sq, out @ outs) }"

text \<open>The loop has no end; \<open>rounds\<close> are those that have been run.\<close>

definition client_main :: "sq_env \<Rightarrow> shm_sys \<Rightarrow> bool \<Rightarrow> (selected \<times> 8 word list) list \<Rightarrow> (shm_queue \<times> line list) option" where
  "client_main env sys calloc_ok rounds =
     do { sq \<leftarrow> (case sq_open sys calloc_ok 0x1234 of
                  Some sq \<Rightarrow> Some sq
                | None \<Rightarrow> do { r \<leftarrow> sq_create env sys calloc_ok 0x1234 64 1024 1 1; r });
          (sq, r, sent) \<leftarrow> sq_put env sq (Some data) (int (length data));
          (sq, event_fd) \<leftarrow> sq_get_eventfd env sq;
          if 0 \<le> event_fd \<and> event_fd < 1024
          then do { (sq, out) \<leftarrow> client_loop rounds sq; Some (sq, (if r < 0 then [Put_failed] else []) @ out) }
          else None }"

section \<open>What is printed\<close>

text \<open>A registered reader can switch its signal on and off.\<close>

definition ready :: "8 word list list \<Rightarrow> shm_queue \<Rightarrow> bool" where
  "ready ms q \<longleftrightarrow> sqm_holds q ms \<and> 0 \<le> sig_idx q \<and> sig_idx q < 64"

lemma sig_calls:
  assumes "ready ms q"
  shows "\<exists>q' r. sq_sigon q = Some (q', r) \<and> ready ms q'" "\<exists>q' r. sq_sigoff q = Some (q', r) \<and> ready ms q'"
proof -
  have i: "0 \<le> sig_idx q" "sig_idx q < 64" and h: "sqm_holds q ms" using assms by (simp_all add: ready_def)
  have l: "sig_inv q" "length (sigmask (head q)) = 8" using h by (simp_all add: sqm_holds_def sig_inv_def)
  have "\<exists>x r. sq_set_sig_on (head q) (sig_idx q) = Some (head q\<lparr>sigmask := x\<rparr>, r)"
  proof (cases "u32 (sig_idx q) < u32 (pidnum (head q))")
    case True
    then show ?thesis using i l(2) by (auto simp: sq_set_sig_on_def)
  next
    case False
    then show ?thesis by (intro exI [of _ "sigmask (head q)"]) (simp add: sq_set_sig_on_def)
  qed
  then obtain x r where on: "sq_sigon q = Some (q\<lparr>head := head q\<lparr>sigmask := x\<rparr>\<rparr>, r)" by (auto simp: sq_sigon_def)
  then show "\<exists>q' r. sq_sigon q = Some (q', r) \<and> ready ms q'" using sigon_call [OF h on] i by (auto simp: ready_def)
  obtain x' r' where off: "sq_sigoff q = Some (q\<lparr>head := head q\<lparr>sigmask := x'\<rparr>\<rparr>, r')"
    using sig_off_ok [OF l(1) i] by (auto simp: sq_sigoff_def)
  then show "\<exists>q' r. sq_sigoff q = Some (q', r) \<and> ready ms q'" using sigoff_call [OF h off] i by (auto simp: ready_def)
qed

lemma frame_ready: "sq_frame q q' \<Longrightarrow> sig_idx q' = sig_idx q"
  by (auto simp: sq_frame_def)

text \<open>
  A message is printed with what the buffer holds behind it up to the next zero byte, and beyond the buffer when there is none;
  a message of more than 1024 bytes is lost.
\<close>

lemma client_round_prints:
  assumes r: "ready (d # ms) q" and b: "length buffer = 1024"
  shows "if length d \<le> 1024 \<and> 0 \<notin> set (d @ drop (length d) buffer)
    then client_round (Answered rdy, buffer) q = None
    else \<exists>q'. client_round (Answered rdy, buffer) q = Some (q', if length d \<le> 1024
            then [Message (takeWhile (\<lambda>x. x \<noteq> 0) (d @ drop (length d) buffer))] else [Get_failed])
        \<and> ready ms q'"
proof -
  obtain q1 r1 where q1: "sq_sigon q = Some (q1, r1)" "ready (d # ms) q1" using sig_calls(1) [OF r] by blast
  obtain q2 r2 where q2: "sq_sigoff q1 = Some (q2, r2)" "ready (d # ms) q2" using sig_calls(2) [OF q1(2)] by blast
  obtain its where its: "sq_layout (head q2) its" "messages its = d # ms" "sig_inv q2"
    using q2(2) by (auto simp: ready_def sqm_holds_def)
  have b0: "0 < length buffer" using b by simp
  from sq_get_message [OF its(1,2) b0, of "(0, 0)"]
  obtain q3 its' tm' where g: "sq_get q2 (Some buffer) (int (length buffer)) (0, 0)
      = Some (if length d \<le> length buffer then (q3, int (length d), d @ drop (length d) buffer, tm') else (q3, - 2, buffer, tm'))"
    "sq_frame q2 q3" "sq_layout (head q3) its'" "messages its' = ms" "0 < length d"
    by blast
  have "ready ms q3"
    using q2(2) g(2-4) its(3) sig_inv_frame [OF g(2)] frame_ready [OF g(2)] by (auto simp: ready_def sqm_holds_def)
  then show ?thesis using q1(1) q2(1) g(1,5) b by (auto simp: client_round_def c_text_def)
qed

lemma client_round_empty:
  assumes r: "ready [] q" and b: "length buffer = 1024"
  shows "\<exists>q'. client_round (Answered rdy, buffer) q = Some (q', []) \<and> ready [] q'"
proof -
  obtain q1 r1 where q1: "sq_sigon q = Some (q1, r1)" "ready [] q1" using sig_calls(1) [OF r] by blast
  obtain q2 r2 where q2: "sq_sigoff q1 = Some (q2, r2)" "ready [] q2" using sig_calls(2) [OF q1(2)] by blast
  obtain its where its: "sq_layout (head q2) its" "messages its = []" "sig_inv q2"
    using q2(2) by (auto simp: ready_def sqm_holds_def)
  have b0: "0 < length buffer" using b by simp
  from sq_get_empty [OF its(1,2) b0, of "(0, 0)"]
  obtain q3 where g: "sq_get q2 (Some buffer) (int (length buffer)) (0, 0) = Some (q3, 0, buffer, (0, 0))"
    "sq_frame q2 q3" "sq_layout (head q3) []"
    by auto
  have "ready [] q3"
    using q2(2) g(2,3) its(3) sig_inv_frame [OF g(2)] frame_ready [OF g(2)] by (auto simp: ready_def sqm_holds_def)
  then show ?thesis using q1(1) q2(1) g(1) by (auto simp: client_round_def)
qed

text \<open>The first reader of a queue gets the entry 0.\<close>

lemma first_reader:
  assumes h: "sqm_holds q ms" and p: "pidnum (head q) = 0" "poll_fd q = 0" and fd: "0 \<le> fifo_fd env 0"
  shows "\<exists>q'. sq_get_eventfd env q = Some (q', fifo_fd env 0) \<and> ready ms q'"
proof -
  have l: "length (pidset (head q)) = 64" using h by (simp add: sqm_holds_def sig_inv_def)
  have r: "register_loop (getpid env) (head q) = Some ((head q)\<lparr>pidnum := 1, pidset := (pidset (head q))[0 := getpid env]\<rparr>, 0)"
    using p(1) l by (subst register_loop.simps) (simp add: SQ_MAX_READER_PROC_NUM_def CAS32_def)
  have "choose_slot env (head q) = Some ((head q)\<lparr>pidnum := 1, pidset := (pidset (head q))[0 := getpid env]\<rparr>, 0)"
    using p(1) r by (simp add: choose_slot_def)
  then obtain q' where q': "sq_get_eventfd env q = Some (q', fifo_fd env 0)" "sig_idx q' = 0"
    using p fd verify_no_pids [OF p(1), of env] by (auto simp: sq_get_eventfd_def Let_def)
  then show ?thesis using eventfd_call [OF h q'(1)] by (auto simp: ready_def)
qed

text \<open>
  The first run of the client, alone: it creates the queue, puts its text, registers, and in the first round prints the text with
  what the buffer holds behind it.
\<close>

lemma client_main_first:
  assumes s: "segment sys = None" "shmget_create_ok sys" "shmat_ok sys" and e: "clock_ok env"
    and fd: "0 \<le> fifo_fd env 0" "fifo_fd env 0 < 1024" and b: "length buffer = 1024" "0 \<in> set (drop 39 buffer)"
  shows "\<exists>q. client_main env sys True [(Answered rdy, buffer)]
        = Some (q, [Message (takeWhile (\<lambda>x. x \<noteq> 0) (data @ drop 39 buffer))]) \<and> ready [] q"
proof -
  obtain q where q: "sq_create env sys True 0x1234 64 1024 1 1 = Some (Some q)" "sqm_holds q []"
    "ele_count (head q) = 1024" "ele_size (head q) = align8 64" "head_pos (head q) = 0" "tail_pos (head q) = 0"
    "pidnum (head q) = 0" "poll_fd q = 0"
    using sq_create_new [of 64 1024 "0x1234" sys env 1 1] s by auto
  have op: "sq_open sys True 0x1234 = None"
    using s by (simp add: sq_open_def open_shm_queue_def attach_shm_def)
  have l: "length data = 39" by (simp add: data_def)
  have d: "0 < length data" "length data \<le> 65536" by (simp_all add: l)
  have al: "align8 64 = 64" by (simp add: align8_def)
  obtain its where its: "sq_layout (head q) its" "messages its = []" "sig_inv q" using q(2) by (auto simp: sqm_holds_def)
  have room: "sq_room (head q) (need (NS (head q)) (length data))"
    unfolding l using q(3-6) by (simp add: sq_room_def sq_used_def need_def NS_def NN_def al)
  from sq_put_room [OF its(1) d room its(3) e]
  obtain q1 sent its1 where p: "sq_put env q (Some data) (int (length data)) = Some (q1, 0, sent)" "sig_inv q1"
    "sq_layout (head q1) its1" "messages its1 = [data]"
    using its(2) by (auto split: if_splits)
  then have h1: "sqm_holds q1 [data]" by (auto simp: sqm_holds_def)
  obtain m t where "put_loop env (head q) data (int (length data)) = Some ((head q)\<lparr>tail_pos := t, nodes := m\<rparr>, 0)"
    using put_loop_room [OF its(1) d room, of env] by blast
  then have "pidnum (head q1) = 0 \<and> poll_fd q1 = 0"
    using p(1) q(7,8) by (auto simp: sq_put_def Let_def bind_eq_Some_conv split: if_splits)
  then obtain q2 where f: "sq_get_eventfd env q1 = Some (q2, fifo_fd env 0)" "ready [data] q2"
    using first_reader [OF h1 _ _ fd(1)] by blast
  have "0 \<in> set (data @ drop (length data) buffer)" using b(2) l by simp
  then obtain q3 where "client_round (Answered rdy, buffer) q2
      = Some (q3, [Message (takeWhile (\<lambda>x. x \<noteq> 0) (data @ drop (length data) buffer))])" "ready [] q3"
    using client_round_prints [OF f(2) b(1), of rdy] l by (simp del: set_append) blast
  then show ?thesis using op q(1) p(1) f(1) fd l by (auto simp: client_main_def)
qed

end
