(* ===== verification/Named_Pipe.thy ===== *)
theory Named_Pipe
  imports Text_Numbers
begin

text \<open>
  The two programs example_fifo1.cpp and example_fifo2.cpp, which write words into a named pipe and read them from it.  Strings stand
  without their final zero byte, except in the pipe and in the buffer of the reader.  \<open>None\<close> is an access outside a buffer.
\<close>

section \<open>The writer\<close>

abbreviation NUL :: char where "NUL \<equiv> CHR 0x00"

definition next_word :: "string \<Rightarrow> string" where
  "next_word t = takeWhile (\<lambda>c. \<not> is_ws c) (dropWhile is_ws t)"

definition after_word :: "string \<Rightarrow> string" where
  "after_word t = dropWhile (\<lambda>c. \<not> is_ws c) (dropWhile is_ws t)"

text \<open>
  \<open>oks\<close> are the answers of the successive calls of \<open>write\<close>, as long as the run is observed; \<open>scanf\<close> leaves \<open>buf\<close> alone at the
  end of the input.  The result is what was written and whether the loop has ended.
\<close>

fun fifo1_loop :: "bool list \<Rightarrow> string \<Rightarrow> string \<Rightarrow> (string list \<times> bool) option" where
  "fifo1_loop [] input buf = Some ([], False)"
| "fifo1_loop (ok # oks) input buf =
     (let w = next_word input;
          buf = (if w = [] then buf else w)
      in if length buf < 100
         then if \<not> ok then Some ([], True)
              else if take 4 buf = ''quit'' then Some ([buf], True)
              else do { (ws, ended) \<leftarrow> fifo1_loop oks (after_word input) buf; Some (buf # ws, ended) }
         else None)"

text \<open>The exit code, the words written and whether the program has ended.  A failed \<open>open\<close> only makes \<open>write\<close> fail.\<close>

definition fifo1_main :: "bool \<Rightarrow> bool \<Rightarrow> bool list \<Rightarrow> string \<Rightarrow> (int \<times> string list \<times> bool) option" where
  "fifo1_main mkfifo_ok open_ok oks input =
     (if \<not> mkfifo_ok then Some (1, [], True)
      else do { (ws, ended) \<leftarrow> fifo1_loop (if open_ok then oks else map (\<lambda>_. False) oks) input []; Some (0, ws, ended) })"

definition piped :: "string list \<Rightarrow> string" where
  "piped ws = concat (map (\<lambda>w. w @ [NUL]) ws)"

section \<open>The reader\<close>

text \<open>
  \<open>sizes\<close> are the numbers of bytes that the successive calls of \<open>read\<close> return; 0 stands for the end of the file or an error.
\<close>

fun fifo2_loop :: "nat list \<Rightarrow> string \<Rightarrow> string \<Rightarrow> string list option" where
  "fifo2_loop [] pipe buf = Some []"
| "fifo2_loop (k # ks) pipe buf =
     (if k = 0 then Some []
      else if k \<le> length pipe \<and> k \<le> 100
      then let buf = take k pipe @ drop k buf
           in if NUL \<in> set buf
              then let s = takeWhile (\<lambda>c. c \<noteq> NUL) buf
                   in if take 4 buf = ''quit'' then Some [s]
                      else do { ss \<leftarrow> fifo2_loop ks (drop k pipe) buf; Some (s # ss) }
              else None
      else None)"

definition fifo2_main :: "bool \<Rightarrow> nat list \<Rightarrow> string \<Rightarrow> (int \<times> string list) option" where
  "fifo2_main open_ok sizes pipe =
     (if \<not> open_ok then Some (1, [])
      else do { ss \<leftarrow> fifo2_loop sizes pipe (replicate 100 NUL); Some (0, ss) })"

section \<open>Words through the pipe\<close>

lemma next_word_no_ws: "c \<in> set (next_word t) \<Longrightarrow> \<not> is_ws c"
  by (auto simp: next_word_def dest: set_takeWhileD)

text \<open>The words that the writer writes are those of its input, up to the first that begins with quit.\<close>

fun words :: "nat \<Rightarrow> string \<Rightarrow> string list" where
  "words 0 t = []"
| "words (Suc n) t =
     (if next_word t = [] then [] else if take 4 (next_word t) = ''quit'' then [next_word t]
      else next_word t # words n (after_word t))"

definition quits :: "string list \<Rightarrow> bool" where
  "quits ws \<longleftrightarrow> ws \<noteq> [] \<and> take 4 (last ws) = ''quit''"

lemma quits_Cons [simp]: "ws \<noteq> [] \<Longrightarrow> quits (w # ws) = quits ws"
  by (simp add: quits_def)

lemma fifo1_words:
  assumes "quits (words n input)" "list_all (\<lambda>w. length w < 100) (words n input)"
  shows "fifo1_loop (replicate n True) input buf = Some (words n input, True)"
  using assms
proof (induction n arbitrary: input buf)
  case (Suc n)
  show ?case
  proof (cases "next_word input = [] \<or> take 4 (next_word input) = ''quit''")
    case True
    then show ?thesis using Suc.prems by (auto simp: quits_def Let_def)
  next
    case False
    then have "words n (after_word input) \<noteq> []" using Suc.prems(1) by (auto simp: quits_def)
    then show ?thesis using False Suc by (simp add: Let_def)
  qed
qed (simp add: quits_def)

text \<open>After the end of the input the last word is written for ever.\<close>

lemma end_of_input_repeats:
  assumes "next_word input = []" "length buf < 100" "take 4 buf \<noteq> ''quit''"
  shows "fifo1_loop (replicate n True) input buf = Some (replicate n buf, False)"
proof -
  have a: "next_word (after_word t) = []" if "next_word t = []" for t
  proof (cases "dropWhile is_ws t")
    case Nil
    show ?thesis unfolding next_word_def after_word_def Nil by simp
  next
    case (Cons c cs)
    then have "\<not> is_ws c" by (metis hd_dropWhile list.discI list.sel(1))
    then show ?thesis using that Cons by (simp add: next_word_def)
  qed
  show ?thesis using assms by (induction n arbitrary: input) (simp_all add: Let_def a)
qed

text \<open>One message in one read: what is in front of its zero byte is printed.\<close>

lemma fifo2_message:
  assumes "NUL \<notin> set w" "length w < 100" "length buf = 100"
  shows "fifo2_loop (Suc (length w) # ks) (w @ NUL # rest) buf
    = (if take 4 w = ''quit'' then Some [w]
       else do { ss \<leftarrow> fifo2_loop ks rest ((w @ [NUL]) @ drop (Suc (length w)) buf); Some (w # ss) })"
proof -
  have t: "takeWhile (\<lambda>c. c \<noteq> NUL) (w @ NUL # x) = w" for x
    using assms(1) by (subst takeWhile_append2) auto
  have q: "take 4 (w @ NUL # x) = ''quit'' \<longleftrightarrow> take 4 w = ''quit''" for x
  proof (cases "4 \<le> length w")
    case False
    have "NUL \<in> set (take 4 (w @ NUL # x))" using False by (cases "4 - length w") auto
    moreover have "NUL \<notin> set ''quit''" by simp
    ultimately have "take 4 (w @ NUL # x) \<noteq> ''quit''" by metis
    moreover have "length (take 4 w) \<noteq> length ''quit''" using False by simp
    ultimately show ?thesis by metis
  qed simp
  show ?thesis using assms t q by (simp add: Let_def)
qed

lemma fifo2_words:
  "quits (words n input) \<Longrightarrow> list_all (\<lambda>w. length w < 100 \<and> NUL \<notin> set w) (words n input) \<Longrightarrow> length buf = 100 \<Longrightarrow>
    fifo2_loop (map (\<lambda>w. Suc (length w)) (words n input)) (piped (words n input) @ rest) buf = Some (words n input)"
proof (induction n arbitrary: input buf)
  case (Suc n)
  let ?w = "next_word input" and ?ws = "words n (after_word input)"
  have w: "?w \<noteq> []" "NUL \<notin> set ?w" "length ?w < 100" using Suc.prems(1,2) by (auto simp: quits_def split: if_splits)
  show ?case
  proof (cases "take 4 ?w = ''quit''")
    case True
    then show ?thesis using w fifo2_message [OF w(2,3) Suc.prems(3), of "[]" rest] by (simp add: piped_def)
  next
    case False
    then have ws: "words (Suc n) input = ?w # ?ws" "?ws \<noteq> []" using w Suc.prems(1) by (auto simp: quits_def)
    have l: "length ((?w @ [NUL]) @ drop (Suc (length ?w)) buf) = 100" using w(3) Suc.prems(3) by simp
    have "quits ?ws" "list_all (\<lambda>w. length w < 100 \<and> NUL \<notin> set w) ?ws" using Suc.prems(1,2) ws by simp_all
    note IH = Suc.IH [OF this l]
    have p: "piped (?w # ?ws) @ rest = ?w @ NUL # (piped ?ws @ rest)" by (simp add: piped_def)
    show ?thesis unfolding ws(1) list.map p fifo2_message [OF w(2,3) Suc.prems(3)] using False IH by simp
  qed
qed (simp add: quits_def)

text \<open>
  Words go through the pipe.  For an input whose words are shorter than 100 bytes up to one that begins with quit, the
  writer writes these words and ends, and a reader whose calls of \<open>read\<close> each find one message prints the same words and ends.
\<close>

theorem pipe_delivers:
  assumes "quits (words n input)" "list_all (\<lambda>w. length w < 100 \<and> NUL \<notin> set w) (words n input)"
  shows "\<exists>ws. fifo1_main True True (replicate n True) input = Some (0, ws, True)
    \<and> fifo2_main True (map (\<lambda>w. Suc (length w)) ws) (piped ws) = Some (0, ws) \<and> ws = words n input"
proof -
  have "list_all (\<lambda>w. length w < 100) (words n input)" using assms(2) by (simp add: list_all_iff)
  then show ?thesis
    using fifo1_words [OF assms(1)] fifo2_words [OF assms, of "replicate 100 NUL" "[]"]
    by (simp add: fifo1_main_def fifo2_main_def)
qed

theorem pipe_delivers_witness:
  "fifo1_main True True [True, True, True] ''hello world quit more'' = Some (0, [''hello'', ''world'', ''quit''], True)
   \<and> fifo2_main True [6, 6, 5] (piped [''hello'', ''world'', ''quit'']) = Some (0, [''hello'', ''world'', ''quit''])"
proof -
  have w: "words 3 ''hello world quit more'' = [''hello'', ''world'', ''quit'']" by code_simp
  have "quits (words 3 ''hello world quit more'')" by (simp add: w quits_def)
  moreover have "list_all (\<lambda>w. length w < 100 \<and> NUL \<notin> set w) (words 3 ''hello world quit more'')" by (simp add: w)
  ultimately show ?thesis using pipe_delivers [of 3 "''hello world quit more''"] unfolding w by (simp add: eval_nat_numeral)
qed

text \<open>A read that finds two messages loses the second, here the one that should end the reader.\<close>

lemma second_message_lost:
  "fifo2_main True [11] (piped [''hello'', ''quit'']) = Some (0, [''hello''])"
  by code_simp

text \<open>A word of 100 bytes overflows the buffer.\<close>

lemma long_word_overflows: "length (next_word input) \<ge> 100 \<Longrightarrow> fifo1_main True True (True # oks) input = None"
  by (auto simp: fifo1_main_def Let_def)

end
