(* ===== verification/Shared_Pages.thy ===== *)
theory Shared_Pages
  imports Prelude
begin

text \<open>
  The programs that work on mapped and shared memory: example_mmap1.cpp, example_shm1.cpp, and the pair example_shm2.cpp and
  example_shm3.cpp.  What the system answers is a parameter; \<open>None\<close> is an access outside the memory.
\<close>

section \<open>An anonymous mapping\<close>

datatype mmap_run = Exit int | Looping "int list" "int list"

fun fill :: "nat \<Rightarrow> nat \<Rightarrow> int list \<Rightarrow> int list option" where
  "fill i 0 p = Some p"
| "fill i (Suc k) p = do { p \<leftarrow> wr p i (int i + 1); fill (Suc i) k p }"

fun show_ints :: "nat \<Rightarrow> nat \<Rightarrow> int list \<Rightarrow> int list option" where
  "show_ints i 0 p = Some []"
| "show_ints i (Suc k) p = do { x \<leftarrow> rd p i; xs \<leftarrow> show_ints (Suc i) k p; Some (x # xs) }"

text \<open>
  \<open>p\<close> are the integers of the page; it is \<open>None\<close> when \<open>mmap\<close> fails, and the address that it then returns is dereferenced.
  \<open>Looping out p\<close>: the program has printed \<open>out\<close> and is in its final loop.
\<close>

definition mmap_main :: "int list option \<Rightarrow> mmap_run option" where
  "mmap_main mmap =
     do { p \<leftarrow> mmap;
          first \<leftarrow> rd p 0;
          if first = - 1 then Some (Exit (- 1))
          else do { p \<leftarrow> fill 0 100 p; out \<leftarrow> show_ints 0 200 p; p \<leftarrow> wr p (1024 + 1) 1234; Some (Looping out p) } }"

lemma fill_spec:
  "i + k \<le> length p \<Longrightarrow> fill i k p = Some (take i p @ map (\<lambda>j. int j + 1) [i..<i + k] @ drop (i + k) p)"
proof (induction k arbitrary: i p)
  case (Suc k)
  then have i: "i < length p" "Suc i + k \<le> length (p[i := int i + 1])" by simp_all
  have "fill i (Suc k) p = Some (take (Suc i) (p[i := int i + 1]) @ map (\<lambda>j. int j + 1) [Suc i..<Suc i + k]
      @ drop (Suc i + k) (p[i := int i + 1]))"
    using Suc.IH [OF i(2)] i(1) by simp
  also have "\<dots> = Some (take i p @ map (\<lambda>j. int j + 1) [i..<i + Suc k] @ drop (i + Suc k) p)"
    using i(1) by (simp add: take_Suc_update upt_rec [of i])
  finally show ?case .
qed simp

lemma show_ints_spec: "i + k \<le> length p \<Longrightarrow> show_ints i k p = Some (seg p i k)"
  by (induction k arbitrary: i) (auto simp: seg_Cons)

text \<open>
  A fresh page holds zeros.  On a page of 1024 integers the program writes beyond it; on a larger page it prints the numbers
  up to 100 and a hundred zeros.
\<close>

lemma mmap_main_result:
  assumes "200 \<le> n"
  shows "mmap_main (Some (replicate n 0)) =
    (if n \<le> 1025 then None
     else Some (Looping (map (\<lambda>j. int j + 1) [0..<100] @ replicate 100 0)
       ((map (\<lambda>j. int j + 1) [0..<100] @ replicate (n - 100) 0)[1025 := 1234])))"
proof -
  let ?p = "map (\<lambda>j. int j + 1) [0..<100] @ replicate (n - 100) 0"
  have f: "fill 0 100 (replicate n 0) = Some ?p" using fill_spec [of 0 100 "replicate n 0"] assms by simp
  have "seg ?p 0 200 = map (\<lambda>j. int j + 1) [0..<100] @ replicate 100 0" using assms by (simp add: seg_def)
  then have s: "show_ints 0 200 ?p = Some (map (\<lambda>j. int j + 1) [0..<100] @ replicate 100 0)"
    using show_ints_spec [of 0 200 ?p] assms by simp
  have r: "rd (replicate n (0 :: int)) 0 = Some 0" using assms by simp
  show ?thesis
  proof (cases "n \<le> 1025")
    case True
    then have "wr ?p 1025 1234 = None" using assms by (intro wr_None) simp
    then show ?thesis using f s r True by (simp add: mmap_main_def)
  next
    case False
    then have "wr ?p 1025 1234 = Some (?p[1025 := 1234])" using assms by (intro wr_Some) simp
    then show ?thesis using f s r False by (simp add: mmap_main_def)
  qed
qed

section \<open>A segment shared with a child\<close>

text \<open>The answers of the system calls of the parent, and whether the child can attach the segment and has run within three seconds.\<close>

record shm1_sys =
  shmget_ok :: bool
  fork_ok :: bool
  child_shmat_ok :: bool
  child_in_time :: bool
  stat_ok :: bool
  parent_shmat_ok :: bool

definition strcpy :: "string \<Rightarrow> string \<Rightarrow> string option" where
  "strcpy dst src =
     (if length src < length dst then Some (src @ CHR 0x00 # drop (Suc (length src)) dst) else None)"

text \<open>The exit code of the parent, what it prints of the segment, and whether the segment was removed.\<close>

definition shm1_main :: "shm1_sys \<Rightarrow> (int \<times> string \<times> bool) option" where
  "shm1_main sys =
     (if \<not> shmget_ok sys then Some (- 1, [], False)
      else if \<not> fork_ok sys then Some (0, [], True)
      else do {
        let mem = replicate 1024 CHR 0x00;
        mem \<leftarrow> (if child_shmat_ok sys \<and> child_in_time sys then strcpy mem ''helloworld'' else Some mem);
        if \<not> stat_ok sys then Some (- 1, [], False)
        else if \<not> parent_shmat_ok sys then Some (- 1, [], False)
        else if CHR 0x00 \<in> set mem then Some (0, takeWhile (\<lambda>c. c \<noteq> CHR 0x00) mem, True)
        else None })"

lemma shm1_main_result:
  "shm1_main sys = Some
     (if \<not> shmget_ok sys then (- 1, [], False)
      else if \<not> fork_ok sys then (0, [], True)
      else if stat_ok sys \<and> parent_shmat_ok sys
      then (0, if child_shmat_ok sys \<and> child_in_time sys then ''helloworld'' else [], True)
      else (- 1, [], False))"
  by (auto simp: shm1_main_def strcpy_def Let_def)

section \<open>A flag in a shared region\<close>

text \<open>The region is \<open>None\<close> when it cannot be opened or mapped; the programs then return without doing anything.\<close>

definition shm2_main :: "8 word list option \<Rightarrow> 8 word list option" where
  "shm2_main region = do { p \<leftarrow> region; wr p 0 0x12 }"

text \<open>
  The loop reads the first byte again and again; \<open>views\<close> are the contents of the region at these reads, and the result is
  the number that is printed, or \<open>None\<close> when the loop goes on.
\<close>

fun spin :: "8 word list list \<Rightarrow> 8 word option" where
  "spin [] = None"
| "spin (v # vs) = do { x \<leftarrow> rd v 0; if x \<noteq> 0x12 then spin vs else Some x }"

definition shm3_main :: "8 word list list option \<Rightarrow> 8 word option" where
  "shm3_main views = do { vs \<leftarrow> views; spin vs }"

text \<open>A reader that started first waits, and ends at its first read after the writer's store with the number 18.\<close>

lemma flag_seen:
  assumes "region \<noteq> []" "region ! 0 \<noteq> 0x12"
  shows "\<exists>region'. shm2_main (Some region) = Some region' \<and> shm3_main (Some (replicate n region)) = None
    \<and> shm3_main (Some (replicate n region @ [region'])) = Some 18"
proof -
  have w: "shm2_main (Some region) = Some (region[0 := 0x12])" using assms by (simp add: shm2_main_def)
  have "spin (replicate n region @ vs) = spin vs" for vs using assms by (induction n) auto
  from this [of "[]"] this [of "[region[0 := 0x12]]"] show ?thesis using w assms by (auto simp: shm3_main_def)
qed

text \<open>The region outlives the programs: a reader that starts after an earlier run does not wait.\<close>

lemma old_flag: "region \<noteq> [] \<Longrightarrow> shm2_main (Some region) = Some region' \<Longrightarrow> shm3_main (Some [region']) = Some 18"
  by (auto simp: shm2_main_def shm3_main_def access_iffs)

end
