(* ===== verification/Atomic_Ops.thy ===== *)
theory Atomic_Ops
  imports Prelude
begin

text \<open>
  The built-in atomic operations that example_sync.cpp tries out, and its counter of a second in one 64-bit word.
\<close>

unbundle bit_operations_syntax

section \<open>The operations\<close>

text \<open>Each returns the old value, or the new one, and the new value of the variable.\<close>

definition fetch_and_add :: "32 word \<Rightarrow> 32 word \<Rightarrow> 32 word \<times> 32 word" where "fetch_and_add g v = (g, g + v)"
definition fetch_and_sub :: "32 word \<Rightarrow> 32 word \<Rightarrow> 32 word \<times> 32 word" where "fetch_and_sub g v = (g, g - v)"
definition fetch_and_or :: "32 word \<Rightarrow> 32 word \<Rightarrow> 32 word \<times> 32 word" where "fetch_and_or g v = (g, g OR v)"
definition fetch_and_xor :: "32 word \<Rightarrow> 32 word \<Rightarrow> 32 word \<times> 32 word" where "fetch_and_xor g v = (g, g XOR v)"
definition fetch_and_nand :: "32 word \<Rightarrow> 32 word \<Rightarrow> 32 word \<times> 32 word" where "fetch_and_nand g v = (g, NOT (g AND v))"
definition add_and_fetch :: "32 word \<Rightarrow> 32 word \<Rightarrow> 32 word \<times> 32 word" where "add_and_fetch g v = (g + v, g + v)"

section \<open>The counter of a second\<close>

record fields =
  timestamp :: "32 word"
  count :: "32 word"

text \<open>The union: the time stamp is the lower half of \<open>u64\<close>.\<close>

definition u64 :: "fields \<Rightarrow> 64 word" where
  "u64 f = ucast (timestamp f) OR push_bit 32 (ucast (count f))"

definition of_u64 :: "64 word \<Rightarrow> fields" where
  "of_u64 w = \<lparr>timestamp = ucast w, count = ucast (drop_bit 32 w)\<rparr>"

definition lock_test_and_set :: "fields \<Rightarrow> int \<Rightarrow> 32 word \<times> fields" where
  "lock_test_and_set f now = (timestamp f, f\<lparr>timestamp := word_of_int now\<rparr>)"

text \<open>\<open>now\<close> has the 64 bits of \<open>time_t\<close>; the time stamps are compared with it as they are.\<close>

definition new_second :: "fields \<Rightarrow> int \<Rightarrow> fields" where
  "new_second f now =
     (if uint (timestamp f) \<noteq> now
      then let (old, f) = lock_test_and_set f now in if uint old \<noteq> now then f\<lparr>count := 0\<rparr> else f
      else f)"

text \<open>The numbers that are printed, with the times of the two calls of \<open>time\<close>.\<close>

definition main :: "int \<Rightarrow> int \<Rightarrow> int list \<times> int" where
  "main time1 time2 =
     (let g = 0;
          (_, g) = fetch_and_add g 2; a = sint g;
          (_, g) = fetch_and_sub g 2; b = sint g;
          (_, g) = fetch_and_or g 1; c = sint g;
          (_, g) = fetch_and_xor g 3; d = sint g;
          (_, g) = fetch_and_nand g 1; e = sint g;
          (f, g) = add_and_fetch g 2;
          stat = \<lparr>timestamp = word_of_int time1, count = 3\<rparr>;
          stat = new_second stat time2
      in ([a, b, c, d, e, sint f], uint (count stat)))"

lemma u64_round_trip: "of_u64 (u64 f) = f"
proof -
  have "ucast (ucast t OR push_bit 32 (ucast c) :: 64 word) = t" for t c :: "32 word"
    by (rule bit_eqI) (auto simp: bit_ucast_iff bit_or_iff bit_push_bit_iff)
  moreover have "ucast (drop_bit 32 (ucast t OR push_bit 32 (ucast c) :: 64 word)) = c" for t c :: "32 word"
    by (rule bit_eqI) (auto simp: bit_ucast_iff bit_or_iff bit_push_bit_iff bit_drop_bit_eq dest: bit_imp_le_length)
  ultimately show ?thesis by (simp add: of_u64_def u64_def)
qed

text \<open>The count is kept within a second and starts again with a new one, as long as the time has 32 bits.\<close>

lemma main_result:
  assumes "0 \<le> time1" "time1 < 2 ^ 32"
  shows "main time1 time2 = ([2, 0, 1, 2, - 1, 1], if time2 = time1 then 3 else 0)"
  using assms by (simp add: main_def new_second_def lock_test_and_set_def fetch_and_add_def fetch_and_sub_def fetch_and_or_def
      fetch_and_xor_def fetch_and_nand_def add_and_fetch_def uint_word_of_int)

end
