(* ===== verification/Epoll_Server.thy ===== *)
theory Epoll_Server
  imports Http_Handler Interleaving Text_Numbers
begin

text \<open>
  The main program of example_thread_epoll1.cpp: it sets up a listening socket and hands each ready client to a new thread, as
  the address of the descriptor in the array \<open>events\<close>.  The answers of the system calls are parameters.
\<close>

section \<open>Setting up\<close>

record server_sys =
  setrlimit_ok :: bool
  socket_fd :: int
  bind_ok :: bool
  listen_ok :: bool
  add_listener_ok :: bool

datatype prepared = Failed int | Listening int "16 word" int "string option"

text \<open>
  The listener with its port, backlog and address; \<open>None\<close> when a number is out of range.  What \<open>setsockopt\<close> and \<open>setnonblocking\<close>
  return is not looked at.
\<close>

definition set_up :: "server_sys \<Rightarrow> string list \<Rightarrow> prepared option" where
  "set_up sys args =
     do { myport \<leftarrow> (if length args > 1 then atoi (args ! 1) else Some 8006);
          lisnum \<leftarrow> (if length args > 2 then atoi (args ! 2) else Some 10);
          Some (if \<not> setrlimit_ok sys then Failed 1
                else if socket_fd sys = - 1 then Failed 1
                else if \<not> bind_ok sys then Failed 1
                else if \<not> listen_ok sys then Failed 1
                else if \<not> add_listener_ok sys then Failed (- 1)
                else Listening (socket_fd sys) (word_of_int myport) lisnum (if length args > 3 then Some (args ! 3) else None)) }"

text \<open>Without arguments the server listens on port 8006, unless a system call fails.\<close>

lemma set_up_default:
  "length args \<le> 1 \<Longrightarrow> set_up sys args = Some
     (if setrlimit_ok sys \<and> socket_fd sys \<noteq> - 1 \<and> bind_ok sys \<and> listen_ok sys
      then if add_listener_ok sys then Listening (socket_fd sys) 8006 10 None else Failed (- 1)
      else Failed 1)"
  by (simp add: set_up_def)

section \<open>The loop and the threads\<close>

definition MAXEPOLLSIZE :: nat where "MAXEPOLLSIZE = 10000"

text \<open>The limit of descriptors that \<open>setrlimit\<close> sets: the process has descriptors below it only.\<close>

definition rlim_cur :: int where "rlim_cur = int MAXEPOLLSIZE"

text \<open>
  A thread holds the index of its slot until it reads the descriptor in it.  With it stand the descriptor it was made for, and
  the number of calls of \<open>epoll_wait\<close> at its start and when it read.
\<close>

datatype thread = Fresh int nat nat | Serving int nat int nat

text \<open>\<open>Exited\<close>: the process has ended.  \<open>Undefined\<close>: an access outside the array, or an overflow of \<open>curfds\<close>.\<close>

datatype pc = Waiting | Handling nat nat | Exited int | Undefined

record server =
  pc :: pc
  curfds :: int
  slots :: "int list"
  waits :: nat
  accepted :: "int list"
  threads :: "thread list"

definition server_start :: "int list \<Rightarrow> server" where
  "server_start garbage = \<lparr>pc = Waiting, curfds = 1, slots = garbage, waits = 0, accepted = [], threads = []\<rparr>"

text \<open>
  A step: \<open>epoll_wait\<close> returns, with the ready descriptors or an error; the next event is handled, with the answers of
  \<open>accept\<close>, \<open>epoll_ctl\<close> and \<open>pthread_create\<close>; a thread reads its slot.  \<open>epoll_wait\<close> stores at most the number of events that it
  is given, which is \<open>curfds\<close> whatever the size of the array.  \<open>None\<close>: a step that is not possible now.
\<close>

datatype event = Ready "int list" | Wait_error | Next int bool bool | Reads nat

fun server_step :: "int \<Rightarrow> event \<Rightarrow> server \<Rightarrow> server option" where
  "server_step listener (Ready fds) s =
     (if pc s = Waiting \<and> int (length fds) \<le> curfds s
      then if length fds \<le> length (slots s)
           then Some (s\<lparr>pc := Handling 0 (length fds), slots := fds @ drop (length fds) (slots s), waits := waits s + 1\<rparr>)
           else Some (s\<lparr>pc := Undefined\<rparr>)
      else None)"
| "server_step listener Wait_error s = (if pc s = Waiting then Some s else None)"
| "server_step listener (Next new_fd add_ok create_ok) s =
     (case pc s of
        Handling n nfds \<Rightarrow>
          if n < nfds
          then (case rd (slots s) n of
                  None \<Rightarrow> Some (s\<lparr>pc := Undefined\<rparr>)
                | Some fd \<Rightarrow>
                    if fd = listener
                    then if new_fd < 0 then Some (s\<lparr>pc := Handling (n + 1) nfds\<rparr>)
                         else if \<not> add_ok then Some (s\<lparr>pc := Exited (- 1)\<rparr>)
                         else (case i32 (curfds s + 1) of
                                 None \<Rightarrow> Some (s\<lparr>pc := Undefined\<rparr>)
                               | Some c \<Rightarrow> Some (s\<lparr>pc := Handling (n + 1) nfds, curfds := c, accepted := accepted s @ [new_fd]\<rparr>))
                    else if \<not> create_ok then Some (s\<lparr>pc := Exited (- 1)\<rparr>)
                    else Some (s\<lparr>pc := Handling (n + 1) nfds, threads := threads s @ [Fresh fd n (waits s)]\<rparr>))
          else Some (s\<lparr>pc := Waiting\<rparr>)
      | _ \<Rightarrow> None)"
| "server_step listener (Reads t) s =
     (case pc s of
        Exited _ \<Rightarrow> None
      | Undefined \<Rightarrow> None
      | _ \<Rightarrow>
          do { th \<leftarrow> rd (threads s) t;
               case th of
                 Fresh fd n w \<Rightarrow>
                   (case rd (slots s) n of
                      None \<Rightarrow> Some (s\<lparr>pc := Undefined\<rparr>)
                    | Some x \<Rightarrow> Some (s\<lparr>threads := (threads s)[t := Serving fd w x (waits s)]\<rparr>))
               | Serving _ _ _ _ \<Rightarrow> None })"

text \<open>
  What is assumed of the kernel: \<open>epoll_wait\<close> reports a descriptor at most once, since each is registered with itself as its
  data, and the descriptors of the process are below the limit.
\<close>

fun reported :: "event \<Rightarrow> bool" where
  "reported (Ready fds) \<longleftrightarrow> distinct fds \<and> list_all (\<lambda>fd. 0 \<le> fd \<and> fd < rlim_cur) fds"
| "reported _ \<longleftrightarrow> True"

lemma events_fit:
  assumes "reported (Ready fds)"
  shows "length fds \<le> MAXEPOLLSIZE"
proof -
  have "set fds \<subseteq> {0 ..< int MAXEPOLLSIZE}" using assms by (auto simp: rlim_cur_def list_all_iff)
  then have "card (set fds) \<le> card {0 ..< int MAXEPOLLSIZE}" by (rule card_mono [OF finite_atLeastLessThan_int])
  then show ?thesis using distinct_card [of fds] assms by simp
qed

section \<open>The invariant\<close>

fun thread_ok :: "server \<Rightarrow> thread \<Rightarrow> bool" where
  "thread_ok s (Fresh fd n w) \<longleftrightarrow> n < length (slots s) \<and> w \<le> waits s \<and> (w = waits s \<longrightarrow> slots s ! n = fd)"
| "thread_ok s (Serving fd w x w') \<longleftrightarrow> (w' = w \<longrightarrow> x = fd)"

definition server_inv :: "server \<Rightarrow> bool" where
  "server_inv s \<longleftrightarrow> length (slots s) = MAXEPOLLSIZE \<and> curfds s = 1 + int (length (accepted s)) \<and> curfds s < 2 ^ 31
     \<and> list_all (\<lambda>fd. 0 \<le> fd) (accepted s) \<and> list_all (thread_ok s) (threads s)
     \<and> (\<forall>n nfds. pc s = Handling n nfds \<longrightarrow> n \<le> nfds \<and> nfds \<le> MAXEPOLLSIZE)"

lemma thread_ok_other: "slots s' = slots s \<Longrightarrow> waits s' = waits s \<Longrightarrow> thread_ok s' th = thread_ok s th"
  by (cases th) auto

lemma server_step_keeps:
  assumes s: "server_inv s" and st: "server_step listener e s = Some s'"
  shows "server_inv s'"
proof -
  have l: "length (slots s) = MAXEPOLLSIZE" and c: "curfds s = 1 + int (length (accepted s))" and c31: "curfds s < 2 ^ 31"
    and a: "list_all (\<lambda>fd. 0 \<le> fd) (accepted s)" and th: "list_all (thread_ok s) (threads s)"
    using s by (simp_all add: server_inv_def)
  show ?thesis
  proof (cases e)
    case (Ready fds)
    show ?thesis
    proof (cases "length fds \<le> MAXEPOLLSIZE")
      case False
      then have "s' = s\<lparr>pc := Undefined\<rparr>" using st l Ready by (auto split: if_splits)
      then show ?thesis using l c c31 a th thread_ok_other [of s' s] by (simp add: server_inv_def list_all_iff)
    next
    case True
    then have n: "length fds \<le> MAXEPOLLSIZE"
      and s': "s' = s\<lparr>pc := Handling 0 (length fds), slots := fds @ drop (length fds) (slots s), waits := waits s + 1\<rparr>"
      using st l Ready by (auto split: if_splits)
    have "thread_ok s' t" if "thread_ok s t" for t using that n l by (cases t) (auto simp: s')
    then have "list_all (thread_ok s') (threads s')" using th by (auto simp: list_all_iff s')
    then show ?thesis using l c c31 a n by (simp add: server_inv_def s')
    qed
  next
    case Wait_error
    then show ?thesis using st s by (auto split: if_splits)
  next
    case (Next new_fd add_ok create_ok)
    then obtain n nfds where p: "pc s = Handling n nfds" "n \<le> nfds" "nfds \<le> MAXEPOLLSIZE"
      using st s by (auto simp: server_inv_def split: pc.splits)
    have keep: "list_all (thread_ok s'') (threads s)" if "slots s'' = slots s" "waits s'' = waits s" for s'' :: server
      using th thread_ok_other [OF that] by (simp add: list_all_iff)
    show ?thesis
    proof (cases "n < nfds")
      case False
      then show ?thesis using st Next p s keep by (simp add: server_inv_def) (auto simp: server_inv_def)
    next
      case True
      then have r: "rd (slots s) n = Some (slots s ! n)" using p(3) l by simp
      have i: "i32 (curfds s + 1) = None \<or> i32 (curfds s + 1) = Some (curfds s + 1)" by (simp add: i32_def)
      consider "slots s ! n = listener" "\<not> new_fd < 0" "add_ok" "i32 (curfds s + 1) = None"
        | "slots s ! n = listener" "new_fd < 0" | "slots s ! n = listener" "\<not> new_fd < 0" "\<not> add_ok"
        | "slots s ! n = listener" "\<not> new_fd < 0" "add_ok" "i32 (curfds s + 1) = Some (curfds s + 1)" | "slots s ! n \<noteq> listener" "\<not> create_ok" | "slots s ! n \<noteq> listener" "create_ok"
        using i by argo
      then show ?thesis
      proof cases
        case 4
        then have "s' = s\<lparr>pc := Handling (n + 1) nfds, curfds := curfds s + 1, accepted := accepted s @ [new_fd]\<rparr>"
          using st Next p r True by simp
        then show ?thesis using l c a p 4 True keep [of s'] by (auto simp: server_inv_def i32_eq_Some_iff)
      next
        case 6
        then have "s' = s\<lparr>pc := Handling (n + 1) nfds, threads := threads s @ [Fresh (slots s ! n) n (waits s)]\<rparr>"
          using st Next p r True by auto
        then show ?thesis using l c c31 a p True keep [of s'] by (auto simp: server_inv_def)
      qed (use st Next p r True l c c31 a keep [of s'] in \<open>auto simp: server_inv_def\<close>)
    qed
  next
    case (Reads t)
    then have on: "pc s \<noteq> Undefined" "\<And>i. pc s \<noteq> Exited i" using st by (auto split: pc.splits)
    obtain fd n w where t: "t < length (threads s)" "threads s ! t = Fresh fd n w"
      using st Reads by (cases "pc s") (auto simp: bind_eq_Some_conv access_iffs split: thread.splits)
    have "n < length (slots s)" using th t by (metis list_all_length thread_ok.simps(1))
    then have s': "s' = s\<lparr>threads := (threads s)[t := Serving fd w (slots s ! n) (waits s)]\<rparr>"
      using st Reads t on by (cases "pc s") simp_all
    have "thread_ok s (Fresh fd n w)" using th t by (metis list_all_length)
    then have "thread_ok s (Serving fd w (slots s ! n) (waits s))" by auto
    then have "list_all (thread_ok s) (threads s')"
      using th set_update_subset [OF t(1)] by (fastforce simp: s' list_all_iff)
    then have "list_all (thread_ok s') (threads s')" using thread_ok_other [of s' s] by (simp add: s' list_all_iff)
    then show ?thesis using s by (auto simp: server_inv_def s')
  qed
qed

interpretation server: interleaved "server_step listener" server_inv for listener :: int
  by unfold_locales (rule server_step_keeps)

lemma server_started: "length garbage = MAXEPOLLSIZE \<Longrightarrow> server_inv (server_start garbage)"
  by (simp add: server_inv_def server_start_def)

lemma server_step_defined:
  assumes s: "server_inv s" and e: "reported e" and st: "server_step listener e s = Some s'" "pc s' = Undefined"
  shows "curfds s' = 2 ^ 31 - 1"
proof -
  have l: "length (slots s) = MAXEPOLLSIZE" and c: "1 \<le> curfds s" "curfds s < 2 ^ 31" and th: "list_all (thread_ok s) (threads s)"
    using s by (simp_all add: server_inv_def)
  show ?thesis
  proof (cases e)
    case (Ready fds)
    then show ?thesis using st events_fit [of fds] e l by (auto split: if_splits)
  next
    case Wait_error
    then show ?thesis using st by (auto split: if_splits)
  next
    case (Next new_fd add_ok create_ok)
    then obtain n nfds where p: "pc s = Handling n nfds" "nfds \<le> MAXEPOLLSIZE"
      using st s by (auto simp: server_inv_def split: pc.splits)
    then have "n < nfds \<longrightarrow> rd (slots s) n = Some (slots s ! n)" using l by simp
    then show ?thesis using st Next p c by (auto simp: i32_def split: if_splits)
  next
    case (Reads t)
    obtain fd n w where t: "t < length (threads s)" "threads s ! t = Fresh fd n w"
      using st Reads by (cases "pc s") (auto simp: bind_eq_Some_conv access_iffs split: thread.splits)
    have "n < length (slots s)" using th t by (metis list_all_length thread_ok.simps(1))
    then show ?thesis using st Reads t by (cases "pc s") auto
  qed
qed

lemma server_run_defined:
  "server_inv s \<Longrightarrow> (pc s = Undefined \<longrightarrow> curfds s = 2 ^ 31 - 1) \<Longrightarrow> list_all reported es \<Longrightarrow> run (server_step listener) es s = Some s'
    \<Longrightarrow> pc s' = Undefined \<longrightarrow> curfds s' = 2 ^ 31 - 1"
proof (induction es arbitrary: s)
  case (Cons e es)
  then obtain s1 where s1: "server_step listener e s = Some s1" "run (server_step listener) es s1 = Some s'"
    by (auto simp: bind_eq_Some_conv)
  have "pc s1 = Undefined \<longrightarrow> curfds s1 = 2 ^ 31 - 1"
    using server_step_defined [OF Cons.prems(1) _ s1(1)] Cons.prems(3) by simp
  then show ?case using Cons.IH [OF server_step_keeps [OF Cons.prems(1) s1(1)] _ _ s1(2)] Cons.prems(3) by simp
qed simp

text \<open>
  C25: the server and its threads.  In every run the number that is passed to \<open>epoll_wait\<close> is one more than that of the
  clients accepted so far, which may exceed the size of the array.  As long as \<open>epoll_wait\<close> reports no descriptor twice and the descriptors are
  below the limit that \<open>setrlimit\<close> has set, the events nevertheless fit, no slot outside the array is used, and the program stays
  defined until \<open>2 ^ 31 - 1\<close> descriptors are counted and the counter overflows.  A thread that reads its slot before the next return of
  \<open>epoll_wait\<close> serves the client it was made for.
\<close>

theorem server_threads:
  assumes "length garbage = MAXEPOLLSIZE" "list_all reported es" "run (server_step listener) es (server_start garbage) = Some s"
  shows "curfds s = 1 + int (length (accepted s))
    \<and> (\<forall>n nfds. pc s = Handling n nfds \<longrightarrow> nfds \<le> length (slots s))
    \<and> (pc s = Undefined \<longrightarrow> curfds s = 2 ^ 31 - 1)
    \<and> (\<forall>fd w x. Serving fd w x w \<in> set (threads s) \<longrightarrow> x = fd)"
proof -
  note start = server_started [OF assms(1)]
  have "pc s = Undefined \<longrightarrow> curfds s = 2 ^ 31 - 1"
    using server_run_defined [OF start _ assms(2,3)] by (simp add: server_start_def)
  then show ?thesis using server.run_inv [OF start assms(3)] by (fastforce simp: server_inv_def list_all_iff)
qed

text \<open>A thread that reads later serves another client: here 7 is never served and 8 twice.\<close>

definition late_run :: "event list" where
  "late_run = [Ready [3], Next 7 True True, Next 0 True True, Ready [3], Next 8 True True, Next 0 True True, Ready [7], Next 0 True True, Next 0 True True,
     Ready [8], Next 0 True True, Reads 0, Reads 1]"

theorem server_threads_witness:
  "\<exists>s. run (server_step 3) late_run (server_start (replicate MAXEPOLLSIZE 0)) = Some s
    \<and> threads s = [Serving 7 3 8 4, Serving 8 4 8 4] \<and> curfds s = 1 + int (length (accepted s)) \<and> pc s \<noteq> Undefined"
proof -
  obtain g :: "int list" where g: "g = replicate MAXEPOLLSIZE 0" "length g = MAXEPOLLSIZE" by simp
  have n: "Suc 0 \<le> MAXEPOLLSIZE" by (simp add: MAXEPOLLSIZE_def)
  have e: "list_all reported late_run" by (simp add: late_run_def rlim_cur_def MAXEPOLLSIZE_def)
  have r: "run (server_step 3) late_run (server_start g) = Some \<lparr>pc = Handling 1 1, curfds = 3, slots = 8 # drop 1 g, waits = 4,
      accepted = [7, 8], threads = [Serving 7 3 8 4, Serving 8 4 8 4]\<rparr>"
    using g(2) n by (simp add: late_run_def server_start_def)
  show ?thesis using server_threads [OF g(2) e r] r g(1) by simp
qed

text \<open>Without the limit more events than slots could be stored, since \<open>curfds\<close> never falls.\<close>

lemma events_overrun:
  assumes "pc s = Waiting" "MAXEPOLLSIZE < length fds" "int (length fds) \<le> curfds s" "length (slots s) = MAXEPOLLSIZE"
  shows "server_step listener (Ready fds) s = Some (s\<lparr>pc := Undefined\<rparr>)"
  using assms by simp

end
