(* ===== verification/Connect_Many.thy ===== *)
theory Connect_Many
  imports Prelude
begin

text \<open>
  The programs that connect to ten thousand ports at once: example_check_alot_server.cpp with epoll and
  example_check_alot_server3.cpp with libev.  The answers of the system calls are parameters; \<open>None\<close> is undefined behaviour.
\<close>

section \<open>With epoll\<close>

definition many :: nat where "many = 10000"

text \<open>\<open>sock i\<close> is what \<open>socket\<close> returns; the results of the other calls are only reported.\<close>

definition open_sockets :: "(nat \<Rightarrow> int) \<Rightarrow> int list" where
  "open_sockets sock = map sock [0..<many]"

text \<open>An event: the descriptor, and whether it is writable and hung up.  \<open>Error\<close> is the result -1, no event the time-out.\<close>

datatype waited = Error | Events "(int \<times> bool \<times> bool) list"

fun take_events :: "(int \<times> bool \<times> bool) list \<Rightarrow> int list \<Rightarrow> int list option" where
  "take_events [] socketfds2 = Some socketfds2"
| "take_events ((fd, out, hup) # evs) socketfds2 =
     (if out \<and> \<not> hup
      then if length socketfds2 < many then take_events evs (socketfds2 @ [fd]) else None
      else take_events evs socketfds2)"

text \<open>The sockets that are connected, and whether the loop has ended.\<close>

fun collect :: "waited list \<Rightarrow> int list \<Rightarrow> (int list \<times> bool) option" where
  "collect [] socketfds2 = Some (socketfds2, False)"
| "collect (Error # ws) socketfds2 = collect ws socketfds2"
| "collect (Events evs # ws) socketfds2 =
     do { fds \<leftarrow> take_events evs socketfds2; if evs = [] then Some (fds, True) else collect ws fds }"

definition request :: string where
  "request = ''HTTP/1.0 200 OK'' @ [CHR 0x0D, CHR 0x0A] @ ''Content-type: text/plain'' @ [CHR 0x0D, CHR 0x0A, CHR 0x0D, CHR 0x0A]
     @ ''Hello world!'' @ [CHR 0x0A]"

text \<open>What is read into the array of 4096 bytes, which holds zeros, is printed as a string.\<close>

definition show_answer :: "string \<Rightarrow> string option" where
  "show_answer d =
     (let buf = d @ replicate (4096 - length d) CHR 0x00
      in if length d \<le> 4096 \<and> CHR 0x00 \<in> set buf then Some (takeWhile (\<lambda>c. c \<noteq> CHR 0x00) buf) else None)"

fun show_answers :: "string list \<Rightarrow> string list option" where
  "show_answers [] = Some []"
| "show_answers (d # ds) = do { x \<leftarrow> show_answer d; xs \<leftarrow> show_answers ds; Some (x # xs) }"

text \<open>
  What is sent, once the first loop has ended, and what is printed of the answers; with no connection the array of the second loop has no element.  The
  loop that prints has no end.
\<close>

definition alot_main :: "waited list \<Rightarrow> string list \<Rightarrow> ((int \<times> string) list \<times> string list) option" where
  "alot_main waits answers =
     do { (fds, ended) \<leftarrow> collect waits [];
          if \<not> ended then Some ([], [])
          else if fds = [] then None
          else do { out \<leftarrow> show_answers answers; Some (map (\<lambda>fd. (fd, request)) fds, out) } }"

definition connected :: "(int \<times> bool \<times> bool) list \<Rightarrow> int list" where
  "connected evs = map fst (filter (\<lambda>(fd, out, hup). out \<and> \<not> hup) evs)"

lemma take_events_spec:
  "length fds \<le> many \<Longrightarrow>
    take_events evs fds = (if length fds + length (connected evs) \<le> many then Some (fds @ connected evs) else None)"
  by (induction evs fds rule: take_events.induct) (auto simp: connected_def)

text \<open>The events up to the time-out.\<close>

fun reported :: "waited list \<Rightarrow> (int \<times> bool \<times> bool) list option" where
  "reported [] = None"
| "reported (Error # ws) = reported ws"
| "reported (Events evs # ws) = (if evs = [] then Some [] else map_option (\<lambda>r. evs @ r) (reported ws))"

lemma connected_append [simp]: "connected (xs @ ys) = connected xs @ connected ys"
  by (simp add: connected_def)

lemma collect_spec:
  "length fds \<le> many \<Longrightarrow> reported ws = Some evs \<Longrightarrow>
    collect ws fds = (if length fds + length (connected evs) \<le> many then Some (fds @ connected evs, True) else None)"
proof (induction ws fds arbitrary: evs rule: collect.induct)
  case (3 es ws fds)
  show ?case
  proof (cases "es = []")
    case True
    then show ?thesis using "3.prems" by (simp add: connected_def)
  next
    case False
    then obtain r where r: "reported ws = Some r" "evs = es @ r" using "3.prems"(2) by auto
    show ?thesis
    proof (cases "length fds + length (connected es) \<le> many")
      case True
      then show ?thesis using "3.IH" [of "fds @ connected es" r] False r take_events_spec [OF "3.prems"(1), of es]
        by simp
    next
      case full: False
      then show ?thesis using False r take_events_spec [OF "3.prems"(1), of es] by simp
    qed
  qed
qed simp_all

text \<open>An answer that fills the array is printed beyond it unless it holds a zero byte.\<close>

lemma show_answer_cases:
  "CHR 0x00 \<notin> set d \<Longrightarrow> show_answer d = (if length d < 4096 then Some d else None)"
proof -
  assume d: "CHR 0x00 \<notin> set d"
  have "takeWhile (\<lambda>c. c \<noteq> CHR 0x00) (d @ replicate k CHR 0x00) = d" for k
    using d by (subst takeWhile_append2) (auto simp: takeWhile_eq_Nil_iff)
  then show ?thesis using d by (auto simp: show_answer_def Let_def)
qed

lemma show_answers_all: "list_all (\<lambda>d. CHR 0x00 \<notin> set d \<and> length d < 4096) ds \<Longrightarrow> show_answers ds = Some ds"
  by (induction ds) (auto simp: show_answer_cases)

text \<open>
  Checking many servers.  Every socket that is reported writable and not hung up before the first time-out is sent the request, in
  that order and once for each report, and the answers are printed; more than ten thousand reports overflow the array of
  sockets, and none at all leaves the second loop without an array.
\<close>

theorem alot_main_result:
  assumes "reported waits = Some evs" "list_all (\<lambda>d. CHR 0x00 \<notin> set d \<and> length d < 4096) answers"
  shows "alot_main waits answers =
    (if connected evs \<noteq> [] \<and> length (connected evs) \<le> many
     then Some (map (\<lambda>fd. (fd, request)) (connected evs), answers) else None)"
  using collect_spec [of "[]" waits evs] assms show_answers_all by (simp add: alot_main_def)

theorem alot_main_result_witness:
  "alot_main [Events [(3, True, False), (4, True, True)], Error, Events [(5, True, False)], Events []] [''hi'']
     = Some ([(3, request), (5, request)], [''hi''])
   \<and> alot_main [Events [(4, True, True)], Events []] [] = None"
  using alot_main_result [of "[Events [(3, True, False), (4, True, True)], Error, Events [(5, True, False)], Events []]"
      "[(3, True, False), (4, True, True), (5, True, False)]" "[''hi'']"]
    alot_main_result [of "[Events [(4, True, True)], Events []]" "[(4, True, True)]" "[]"]
  by (simp add: connected_def many_def)

section \<open>With libev\<close>

text \<open>
  The answers for one socket: whether both calls of \<open>fcntl\<close> succeed and whether \<open>connect\<close> is in progress.  All sockets use one
  watcher, which must not be initialised while it is active: \<open>watched\<close> is its descriptor.
\<close>

fun ev_loop :: "(int \<times> bool \<times> bool) list \<Rightarrow> int option \<Rightarrow> (int + int option) option" where
  "ev_loop [] watched = Some (Inr watched)"
| "ev_loop ((fd, fcntl_ok, in_progress) # ss) watched =
     (if \<not> fcntl_ok then Some (Inl (- 1))
      else if in_progress
      then if watched = None then ev_loop ss (Some fd) else None
      else ev_loop ss watched)"

definition ev_main :: "(int \<times> bool \<times> bool) list \<Rightarrow> (int + int option) option" where
  "ev_main ss = ev_loop (take many ss) None"

text \<open>The callback prints whether the connection was made and closes the socket; \<open>err\<close> has no value when \<open>getsockopt\<close> fails.\<close>

datatype printed = Connected int | Socket_error

definition connected_callback :: "int \<Rightarrow> int option \<Rightarrow> (printed \<times> int) option" where
  "connected_callback fd err = do { e \<leftarrow> err; Some (if e = 0 then Connected fd else Socket_error, fd) }"

lemma ev_loop_spec:
  "list_all (\<lambda>(fd, ok, p). ok) ss \<Longrightarrow>
    ev_loop ss w = (case filter (\<lambda>(fd, ok, p). p) ss of
       [] \<Rightarrow> Some (Inr w)
     | s # rest \<Rightarrow> if w = None \<and> rest = [] then Some (Inr (Some (fst s))) else None)"
proof (induction ss w rule: ev_loop.induct)
  case (2 fd ok p ss w)
  then show ?case by (cases "filter (\<lambda>(fd, ok, p). p) ss") auto
qed simp

text \<open>So the program is defined only when at most one of the ten thousand connections is still in progress.\<close>

lemma ev_main_result:
  assumes "list_all (\<lambda>(fd, ok, p). ok) (take many ss)"
  shows "ev_main ss \<noteq> None \<longleftrightarrow> length (filter (\<lambda>(fd, ok, p). p) (take many ss)) \<le> 1"
  using ev_loop_spec [OF assms, of None] by (auto simp: ev_main_def split: list.splits)

end
