(* ===== verification/Accept_Workers.thy ===== *)
theory Accept_Workers
  imports Interleaving "HOL-Library.Multiset"
begin

text \<open>
  The servers whose processes accept on one listening socket: example_jingqun.cpp, the epoll loop of example_jingqun2.cpp, and
  the echo server example_socket1.cpp.  The answers of the system calls are parameters.
\<close>

section \<open>Workers that accept\<close>

text \<open>
  The connections that wait, those that each worker has accepted and still holds open, and how often \<open>accept\<close> failed.  A
  process has \<open>limit\<close> descriptors left.  The loop of \<open>worker\<close> never closes an accepted connection.
\<close>

record crew =
  waiting :: "nat list"
  held :: "nat list list"
  failures :: nat

datatype event = Arrives nat | Runs nat

fun worker :: "nat \<Rightarrow> nat \<Rightarrow> crew \<Rightarrow> crew option" where
  "worker limit k s =
     do { h \<leftarrow> rd (held s) k;
          case waiting s of
            [] \<Rightarrow> None
          | c # cs \<Rightarrow>
              if length h < limit then Some (s\<lparr>waiting := cs, held := (held s)[k := h @ [c]]\<rparr>)
              else Some (s\<lparr>failures := failures s + 1\<rparr>) }"

fun crew_step :: "nat \<Rightarrow> event \<Rightarrow> crew \<Rightarrow> crew option" where
  "crew_step limit (Arrives c) s = Some (s\<lparr>waiting := waiting s @ [c]\<rparr>)"
| "crew_step limit (Runs k) s = worker limit k s"

text \<open>\<open>main\<close> starts a worker for each of the four forks that succeeds, once socket, bind and listen have succeeded.\<close>

definition WORKER :: nat where "WORKER = 4"

definition crew_main :: "bool \<Rightarrow> bool \<Rightarrow> bool \<Rightarrow> bool list \<Rightarrow> crew option" where
  "crew_main socket_ok bind_ok listen_ok forks =
     (if socket_ok \<and> bind_ok \<and> listen_ok
      then Some \<lparr>waiting = [], held = map (\<lambda>_. []) (filter id (take WORKER forks)), failures = 0\<rparr>
      else None)"

fun arrivals :: "event list \<Rightarrow> nat list" where
  "arrivals [] = []"
| "arrivals (Arrives c # es) = c # arrivals es"
| "arrivals (Runs k # es) = arrivals es"

definition crew_inv :: "nat \<Rightarrow> nat \<Rightarrow> crew \<Rightarrow> bool" where
  "crew_inv limit n s \<longleftrightarrow> length (held s) = n \<and> list_all (\<lambda>h. length h \<le> limit) (held s)"

lemma crew_step_keeps: "crew_inv limit n s \<Longrightarrow> crew_step limit e s = Some s' \<Longrightarrow> crew_inv limit n s'"
  by (cases e) (auto simp: crew_inv_def bind_eq_Some_conv access_iffs list_all_iff split: list.splits if_splits
      dest!: set_update_subset_insert [THEN subsetD])

interpretation crew: interleaved "crew_step limit" "crew_inv limit n" for limit n :: nat
  by unfold_locales (rule crew_step_keeps)

definition everyone :: "crew \<Rightarrow> nat multiset" where
  "everyone s = mset (waiting s) + sum_list (map mset (held s))"

lemma sum_mset_update:
  "k < length hs \<Longrightarrow> sum_list (map mset (hs[k := hs ! k @ [c]])) = add_mset c (sum_list (map mset hs))"
  by (induction hs arbitrary: k) (auto split: nat.splits)

lemma crew_step_everyone:
  "crew_step limit e s = Some s' \<Longrightarrow> everyone s' = everyone s + mset (arrivals [e])"
  by (cases e) (auto simp: everyone_def bind_eq_Some_conv access_iffs sum_mset_update split: list.splits if_splits)

lemma crew_run_everyone:
  "run (crew_step limit) es s = Some s' \<Longrightarrow> everyone s' = everyone s + mset (arrivals es)"
proof (induction es arbitrary: s)
  case (Cons e es)
  then obtain s1 where s1: "crew_step limit e s = Some s1" "run (crew_step limit) es s1 = Some s'"
    by (auto simp: bind_eq_Some_conv)
  have "arrivals (e # es) = arrivals [e] @ arrivals es" by (cases e) auto
  then show ?case using Cons.IH [OF s1(2)] crew_step_everyone [OF s1(1)] by simp
qed simp

lemma sum_lengths: "list_all (\<lambda>h. length h \<le> limit) hs \<Longrightarrow> size (sum_list (map mset hs)) \<le> limit * length hs"
  by (induction hs) auto

text \<open>
  The workers of example_jingqun.cpp.  However they take turns, each connection is accepted by one worker, or still
  waits.  Since none is ever closed, a worker accepts no more than its limit of descriptors, and beyond that all
  further connections wait for ever.
\<close>

theorem crew_accepts:
  assumes "crew_main True True True forks = Some s0" "run (crew_step limit) es s0 = Some s"
  shows "mset (waiting s) + sum_list (map mset (held s)) = mset (arrivals es)
    \<and> length (arrivals es) - limit * WORKER \<le> length (waiting s)"
proof -
  let ?n = "length (filter id (take WORKER forks))"
  have s0: "s0 = \<lparr>waiting = [], held = map (\<lambda>_. []) (filter id (take WORKER forks)), failures = 0\<rparr>"
    using assms(1) by (simp add: crew_main_def)
  have z: "sum_list (map mset (map (\<lambda>_. []) xs)) = ({#} :: nat multiset)" for xs :: "bool list" by (induction xs) auto
  have e: "mset (waiting s) + sum_list (map mset (held s)) = mset (arrivals es)"
    using crew_run_everyone [OF assms(2)] z [of "filter id (take WORKER forks)"] by (simp add: everyone_def s0)
  have "crew_inv limit ?n s0" by (simp add: crew_inv_def s0 list_all_iff)
  then have i: "crew_inv limit ?n s" using crew.run_inv assms(2) by blast
  have "?n \<le> WORKER" using length_filter_le [of id "take WORKER forks"] by simp
  then have "limit * ?n \<le> limit * WORKER" by (rule mult_le_mono2)
  moreover have "size (sum_list (map mset (held s))) \<le> limit * ?n"
    using i sum_lengths [of limit "held s"] by (simp add: crew_inv_def)
  ultimately have "size (sum_list (map mset (held s))) \<le> limit * WORKER" by (rule order.trans [rotated])
  moreover have "length (waiting s) + size (sum_list (map mset (held s))) = length (arrivals es)"
    using arg_cong [OF e, of size] by simp
  ultimately show ?thesis using e by linarith
qed

theorem crew_accepts_witness:
  "run (crew_step 1) [Arrives 7, Arrives 8, Arrives 9, Runs 1, Runs 0, Runs 1]
      \<lparr>waiting = [], held = [[], []], failures = 0\<rparr> = Some \<lparr>waiting = [9], held = [[8], [7]], failures = 1\<rparr>
   \<and> mset [9] + sum_list (map mset [[8], [7]]) = mset (arrivals [Arrives 7, Arrives 8, Arrives 9, Runs 1, Runs 0, Runs 1])"
proof -
  have m: "crew_main True True True [True, False, False, True] = Some \<lparr>waiting = [], held = [[], []], failures = 0\<rparr>"
    by (simp add: crew_main_def WORKER_def)
  have r: "run (crew_step 1) [Arrives 7, Arrives 8, Arrives 9, Runs 1, Runs 0, Runs 1]
      \<lparr>waiting = [], held = [[], []], failures = 0\<rparr> = Some \<lparr>waiting = [9], held = [[8], [7]], failures = 1\<rparr>"
    by simp
  show ?thesis using crew_accepts [OF m r] r by simp
qed

section \<open>The epoll loop\<close>

text \<open>
  An event: the descriptor, and whether it is an error, a hang-up or not readable.  The result of a batch is the
  list of descriptors that are closed, the rest of the answers of \<open>accept\<close>, and whether a failed \<open>accept\<close> has ended it.
\<close>

fun worker_batch :: "int \<Rightarrow> (int \<times> bool) list \<Rightarrow> int list \<Rightarrow> (int list \<times> int list \<times> bool) option" where
  "worker_batch sfd [] infds = Some ([], infds, False)"
| "worker_batch sfd ((fd, bad) # evs) infds =
     (if bad
      then do { (cl, infds, b) \<leftarrow> worker_batch sfd evs infds; Some (fd # cl, infds, b) }
      else if sfd = fd
      then (case infds of
              [] \<Rightarrow> None
            | infd # infds \<Rightarrow>
                if infd = - 1 then Some ([], infds, True)
                else do { (cl, infds, b) \<leftarrow> worker_batch sfd evs infds; Some (infd # cl, infds, b) })
      else worker_batch sfd evs infds)"

text \<open>The answers of the calls that set up the server; every failure but that of \<open>bind\<close> aborts it.\<close>

record epoll_sys =
  socket_fd :: int
  fcntl_ok :: bool
  listen_ok :: bool
  create_ok :: bool
  ctl_ok :: bool

definition epoll_main :: "epoll_sys \<Rightarrow> bool list \<Rightarrow> (int \<times> nat) option" where
  "epoll_main sys forks =
     (if socket_fd sys = - 1 then None
      else if \<not> fcntl_ok sys then None
      else if \<not> listen_ok sys then None
      else if \<not> create_ok sys then None
      else if \<not> ctl_ok sys then None
      else Some (socket_fd sys, length (filter id (take 4 forks))))"

text \<open>A good batch closes each connection as soon as it is accepted; an error event of the listening socket closes that.\<close>

lemma worker_batch_good:
  "list_all (\<lambda>(fd, bad). \<not> bad) evs \<Longrightarrow> - 1 \<notin> set infds \<Longrightarrow> length (filter (\<lambda>(fd, bad). fd = sfd) evs) = length infds \<Longrightarrow>
    worker_batch sfd (evs @ later) (infds @ rest) =
      do { (cl, r, b) \<leftarrow> worker_batch sfd later rest; Some (infds @ cl, r, b) }"
proof (induction sfd evs infds rule: worker_batch.induct)
  case (2 sfd fd bad evs infds)
  then show ?case by (cases infds) (auto simp: bind_assoc split_def)
qed (auto simp: split_def bind_assoc)

lemma listener_error_closes: "worker_batch sfd [(sfd, True)] infds = Some ([sfd], infds, False)"
  by simp

section \<open>The echo server\<close>

text \<open>
  A round of \<open>worker\<close>: the connection, or \<open>None\<close> when \<open>accept\<close> fails, and what \<open>read\<close> puts into the array of 4096 zero
  bytes, or \<open>None\<close> when it fails.  The result is what is printed and written.  \<open>None\<close>: the array is printed beyond its end, or
  -1 bytes are written, which is the greatest length of all.
\<close>

datatype round_out = Accept_failed | Echoed string string

definition echo_round :: "int option \<times> string option \<Rightarrow> round_out option" where
  "echo_round = (\<lambda>(clientfd, data).
     case clientfd of
       None \<Rightarrow> Some Accept_failed
     | Some fd \<Rightarrow>
         do { d \<leftarrow> data;
              let buf = d @ replicate (4096 - length d) CHR 0x00;
              if CHR 0x00 \<in> set buf then Some (Echoed (takeWhile (\<lambda>c. c \<noteq> CHR 0x00) buf) d) else None })"

fun echo_worker :: "(int option \<times> string option) list \<Rightarrow> round_out list option" where
  "echo_worker [] = Some []"
| "echo_worker (r # rs) = do { x \<leftarrow> echo_round r; xs \<leftarrow> echo_worker rs; Some (x # xs) }"

definition echo_main :: "bool \<Rightarrow> (int option \<times> string option) list \<Rightarrow> (int + round_out list) option" where
  "echo_main bind_ok rounds = (if \<not> bind_ok then Some (Inl 1) else map_option Inr (echo_worker rounds))"

lemma echo_all:
  assumes "list_all (\<lambda>(fd, d). \<exists>x. d = Some x \<and> length x < 4096) rounds"
  shows "\<exists>out. echo_main True rounds = Some (Inr out) \<and> length out = length rounds
    \<and> (\<forall>i < length rounds. \<forall>fd x. rounds ! i = (Some fd, Some x) \<longrightarrow> (\<exists>t. out ! i = Echoed t x))"
proof -
  have "\<exists>out. echo_worker rounds = Some out \<and> length out = length rounds
      \<and> (\<forall>i < length rounds. \<forall>fd x. rounds ! i = (Some fd, Some x) \<longrightarrow> (\<exists>t. out ! i = Echoed t x))"
    using assms
  proof (induction rounds)
    case (Cons r rs)
    then obtain xs where xs: "echo_worker rs = Some xs" "length xs = length rs"
      "\<forall>i < length rs. \<forall>fd x. rs ! i = (Some fd, Some x) \<longrightarrow> (\<exists>t. xs ! i = Echoed t x)"
      by auto
    obtain y where y: "echo_round r = Some y" "\<forall>fd x. r = (Some fd, Some x) \<longrightarrow> (\<exists>t. y = Echoed t x)"
      using Cons.prems by (cases "fst r") (auto simp: echo_round_def)
    then show ?case using xs by (intro exI [of _ "y # xs"]) (auto simp: nth_Cons split: nat.splits)
  qed simp
  then show ?thesis by (auto simp: echo_main_def)
qed

text \<open>A failed read, as every read of a non-blocking socket without data would be, writes from beyond the array.\<close>

lemma failed_read: "echo_worker ((Some fd, None) # rs) = None"
  by (simp add: echo_round_def)

end
