(* ===== verification/Async_Io.thy ===== *)
theory Async_Io
  imports Prelude
begin

text \<open>
  The five examples of example_aio.cpp, which read and write files asynchronously.  Files and buffers are lists of characters; a
  buffer from \<open>malloc\<close> starts with arbitrary contents, here an argument.  \<open>None\<close> is an access outside a buffer or
  to a control block that is gone.
\<close>

section \<open>Requests\<close>

definition BUFFER_SIZE :: nat where "BUFFER_SIZE = 1024"

text \<open>
  The two files (\<open>None\<close>: it cannot be opened, and requests on its descriptor fail), whether a request can be started and waited
  for, and how often \<open>aio_error\<close> answers \<open>EINPROGRESS\<close>.
\<close>

record aio_sys =
  file1 :: "string option"
  file2 :: "string option"
  start_ok :: bool
  suspend_ok :: bool
  busy :: nat

text \<open>
  A control block with its buffer; \<open>aio_fildes\<close> is the contents of the open file.  A read puts into the buffer what the file
  has, up to \<open>aio_nbytes\<close>; the result is that of \<open>aio_return\<close>.
\<close>

record aiocb =
  aio_fildes :: "string option"
  aio_buf :: string
  aio_nbytes :: nat
  aio_offset :: nat

definition complete_read :: "aiocb \<Rightarrow> (aiocb \<times> int) option" where
  "complete_read cb =
     (case aio_fildes cb of
        None \<Rightarrow> Some (cb, - 1)
      | Some f \<Rightarrow>
          let d = take (aio_nbytes cb) (drop (aio_offset cb) f)
          in if length d \<le> length (aio_buf cb)
             then Some (cb\<lparr>aio_buf := d @ drop (length d) (aio_buf cb)\<rparr>, int (length d)) else None)"

text \<open>A write to a file that was opened with \<open>O_APPEND\<close>.\<close>

definition complete_write :: "aiocb \<Rightarrow> (aiocb \<times> int) option" where
  "complete_write cb =
     (case aio_fildes cb of
        None \<Rightarrow> Some (cb, - 1)
      | Some f \<Rightarrow>
          if aio_nbytes cb \<le> length (aio_buf cb)
          then Some (cb\<lparr>aio_fildes := Some (f @ take (aio_nbytes cb) (aio_buf cb))\<rparr>, int (aio_nbytes cb)) else None)"

definition c_string :: "string \<Rightarrow> string option" where
  "c_string b = (if CHR 0x00 \<in> set b then Some (takeWhile (\<lambda>c. c \<noteq> CHR 0x00) b) else None)"

section \<open>The examples\<close>

text \<open>What is printed: the rounds of the waiting loop, the text, and the results.\<close>

datatype 'a run = Exit int | Done 'a

definition example1 :: "aio_sys \<Rightarrow> string \<Rightarrow> (nat \<times> string \<times> int) run option" where
  "example1 sys mem =
     (let rd = \<lparr>aio_fildes = file1 sys, aio_buf = mem, aio_nbytes = BUFFER_SIZE, aio_offset = 0\<rparr>
      in if \<not> start_ok sys then Some (Exit 1)
         else do { (rd, ret) \<leftarrow> complete_read rd; t \<leftarrow> c_string (aio_buf rd); Some (Done (busy sys, t, ret)) })"

text \<open>The buffer that \<open>malloc\<close> returns is replaced by the array on the stack and never freed.\<close>

definition example2 :: "aio_sys \<Rightarrow> (nat \<times> int \<times> string option) option" where
  "example2 sys =
     (let str = ''hello,world'' @ replicate 9 CHR 0x00;
          wr = \<lparr>aio_fildes = file1 sys, aio_buf = str, aio_nbytes = length str, aio_offset = 0\<rparr>
      in do { (wr, ret) \<leftarrow> (if start_ok sys then complete_write wr else Some (wr, - 1)); Some (busy sys, ret, aio_fildes wr) })"

text \<open>After \<open>aio_suspend\<close> the request is complete.\<close>

definition example3 :: "aio_sys \<Rightarrow> string \<Rightarrow> int run option" where
  "example3 sys mem =
     (let rd = \<lparr>aio_fildes = file1 sys, aio_buf = mem, aio_nbytes = 64, aio_offset = 0\<rparr>
      in if \<not> start_ok sys then Some (Exit 1)
         else if \<not> suspend_ok sys then Some (Exit 1)
         else do { (rd, ret) \<leftarrow> complete_read rd; Some (if ret < 0 then Exit 1 else Done ret) })"

text \<open>A read and a write, each with a buffer of its own, started together; the second file at the end.\<close>

definition example4 :: "aio_sys \<Rightarrow> string \<Rightarrow> string \<Rightarrow> (int \<times> int \<times> string option) option" where
  "example4 sys mem1 mem2 =
     (let rd = \<lparr>aio_fildes = file1 sys, aio_buf = mem1, aio_nbytes = 1024, aio_offset = 0\<rparr>;
          wr = \<lparr>aio_fildes = file2 sys, aio_buf = mem2, aio_nbytes = 1024, aio_offset = 0\<rparr>
      in do { (rd, r) \<leftarrow> complete_read rd; (wr, w) \<leftarrow> complete_write wr; Some (r, w, aio_fildes wr) })"

text \<open>The handler prints the number of bytes of a request that has succeeded.\<close>

definition aio_completion_handler :: "int \<Rightarrow> int list" where
  "aio_completion_handler ret = (if ret \<ge> 0 then [ret] else [])"

text \<open>
  \<open>sizeof(BUFFER_SIZE + 1)\<close> is the size of an \<open>int\<close>.  The function sleeps a second and returns; the request completes
  before or after that (\<open>in_time\<close>), when its control block on the stack is gone.
\<close>

definition sizeof_int :: nat where "sizeof_int = 4"

definition example5 :: "aio_sys \<Rightarrow> bool \<Rightarrow> string \<Rightarrow> int list option" where
  "example5 sys in_time garbage =
     (let rd = \<lparr>aio_fildes = file1 sys, aio_buf = take sizeof_int garbage, aio_nbytes = BUFFER_SIZE, aio_offset = 0\<rparr>
      in if \<not> start_ok sys then Some []
         else if \<not> in_time then None
         else do { (rd, ret) \<leftarrow> complete_read rd; Some (aio_completion_handler ret) })"

definition main :: "aio_sys \<Rightarrow> bool \<Rightarrow> string \<Rightarrow> int list option" where
  "main sys in_time garbage = example5 sys in_time garbage"

section \<open>What they do\<close>

text \<open>The text of a file is printed with what the uninitialised buffer holds behind it.\<close>

lemma example1_prints:
  assumes "file1 sys = Some f" "CHR 0x00 \<notin> set f" "length f \<le> 1024" "length mem = BUFFER_SIZE + 1" "start_ok sys"
  shows "example1 sys mem = (if CHR 0x00 \<in> set (drop (length f) mem)
    then Some (Done (busy sys, f @ takeWhile (\<lambda>c. c \<noteq> CHR 0x00) (drop (length f) mem), int (length f))) else None)"
proof -
  have "takeWhile (\<lambda>c. c \<noteq> CHR 0x00) (f @ x) = f @ takeWhile (\<lambda>c. c \<noteq> CHR 0x00) x" for x
    using assms(2) by (subst takeWhile_append2) auto
  then show ?thesis using assms by (auto simp: example1_def complete_read_def c_string_def BUFFER_SIZE_def Let_def)
qed

lemma example2_appends:
  "start_ok sys \<Longrightarrow> file1 sys = Some f \<Longrightarrow>
    example2 sys = Some (busy sys, 20, Some (f @ ''hello,world'' @ replicate 9 CHR 0x00))"
  by (simp add: example2_def complete_write_def Let_def)

lemma example3_reads:
  "start_ok sys \<Longrightarrow> suspend_ok sys \<Longrightarrow> length mem = 64 \<Longrightarrow>
    example3 sys mem = Some (case file1 sys of None \<Rightarrow> Exit 1 | Some f \<Rightarrow> Done (int (min 64 (length f))))"
  by (auto simp: example3_def complete_read_def Let_def split: option.splits)

text \<open>What is appended to the second file is the uninitialised buffer, whatever the first file holds.\<close>

lemma example4_writes_garbage:
  assumes "file2 sys = Some g" "length mem1 = 1024" "length mem2 = 1024"
  shows "\<exists>r. example4 sys mem1 mem2 = Some (r, 1024, Some (g @ mem2))"
  using assms by (auto simp: example4_def complete_read_def complete_write_def Let_def split: option.splits)

text \<open>
  The asynchronous read of \<open>main\<close>.  Once started on a file that can be opened, it stays inside its buffer and its
  control block exactly when the file has at most four bytes and the read is complete within the second.
\<close>

theorem main_defined:
  assumes "start_ok sys" "file1 sys = Some f" "sizeof_int \<le> length garbage"
  shows "main sys in_time garbage = (if in_time \<and> length f \<le> 4 then Some [int (length f)] else None)"
  using assms by (auto simp: main_def example5_def complete_read_def aio_completion_handler_def BUFFER_SIZE_def sizeof_int_def Let_def
      split: if_splits)

theorem main_defined_witness:
  "main \<lparr>file1 = Some ''abc'', file2 = None, start_ok = True, suspend_ok = True, busy = 0\<rparr> True ''zzzzzzzz'' = Some [3]
   \<and> main \<lparr>file1 = Some ''abcde'', file2 = None, start_ok = True, suspend_ok = True, busy = 0\<rparr> True ''zzzzzzzz'' = None"
  using main_defined [of "\<lparr>file1 = Some ''abc'', file2 = None, start_ok = True, suspend_ok = True, busy = 0\<rparr>" "''abc''" "''zzzzzzzz''" True]
    main_defined [of "\<lparr>file1 = Some ''abcde'', file2 = None, start_ok = True, suspend_ok = True, busy = 0\<rparr>" "''abcde''" "''zzzzzzzz''" True]
  by (simp add: sizeof_int_def)

end
