(* ===== verification/System_Objects.thy ===== *)
theory System_Objects
  imports Prelude
begin

text \<open>
  Small programs on objects of the operating system: files of a given size (example_ftruncate.cpp, example_fallocate.cpp,
  example_fsync.cpp) and a semaphore (example_sem1.cpp).
\<close>

section \<open>Files\<close>

text \<open>The size, the position, and what was written where.\<close>

record fstate =
  fsize :: nat
  fpos :: nat
  pieces :: "(nat \<times> string) list"

definition empty_file :: fstate where "empty_file = \<lparr>fsize = 0, fpos = 0, pieces = []\<rparr>"

definition ftruncate :: "nat \<Rightarrow> fstate \<Rightarrow> fstate" where "ftruncate n f = f\<lparr>fsize := n\<rparr>"

definition lseek_cur :: "nat \<Rightarrow> fstate \<Rightarrow> fstate" where "lseek_cur n f = f\<lparr>fpos := fpos f + n\<rparr>"

definition put_bytes :: "string \<Rightarrow> fstate \<Rightarrow> fstate" where
  "put_bytes d f = f\<lparr>fsize := max (fsize f) (fpos f + length d), fpos := fpos f + length d, pieces := pieces f @ [(fpos f, d)]\<rparr>"

definition posix_fallocate :: "nat \<Rightarrow> fstate \<Rightarrow> fstate" where "posix_fallocate n f = f\<lparr>fsize := max (fsize f) n\<rparr>"

text \<open>The exit code and the file.\<close>

definition ftruncate_main :: "bool \<Rightarrow> bool \<Rightarrow> fstate \<Rightarrow> int \<times> fstate" where
  "ftruncate_main open_ok ftruncate_ok f =
     (let file_size = 10 * 1024 * 1024 * 1024
      in if \<not> open_ok then (- 1, f)
         else if \<not> ftruncate_ok then (- 1, f)
         else (0, put_bytes ''1'' (lseek_cur (file_size - 1) (ftruncate file_size f))))"

lemma ftruncate_main_result:
  "fpos f = 0 \<Longrightarrow> ftruncate_main True True f = (0, \<lparr>fsize = 10737418240, fpos = 10737418240, pieces = pieces f @ [(10737418239, ''1'')]\<rparr>)"
  by (simp add: ftruncate_main_def ftruncate_def lseek_cur_def put_bytes_def Let_def)

text \<open>
  A failing \<open>posix_fallocate\<close> returns a positive number and leaves the file alone; only a negative one ends the program.  The times
  are in seconds and microseconds.
\<close>

definition fallocate_main :: "bool \<Rightarrow> int \<Rightarrow> int \<times> int \<Rightarrow> int \<times> int \<Rightarrow> fstate \<Rightarrow> int \<times> int option \<times> fstate" where
  "fallocate_main open_ok ret begin_time end_time f =
     (let file_size = 10 * 1024 * 1024 * 10
      in if \<not> open_ok then (- 1, None, f)
         else let f = (if ret = 0 then posix_fallocate file_size f else f)
              in if ret < 0 then (- 1, None, f)
                 else let f = (put_bytes (CHR 0x01 # replicate 99 CHR 0x00) ^^ 1000000) f;
                          elapsed = (fst end_time - fst begin_time) * 1000000 + (snd end_time + snd begin_time)
                      in (0, Some elapsed, f))"

lemma puts: shows "fsize ((put_bytes d ^^ n) f) = (if n = 0 then fsize f else max (fsize f) (fpos f + n * length d))"
    and "fpos ((put_bytes d ^^ n) f) = fpos f + n * length d"
proof -
  have "fpos ((put_bytes d ^^ n) f) = fpos f + n * length d
      \<and> fsize ((put_bytes d ^^ n) f) = (if n = 0 then fsize f else max (fsize f) (fpos f + n * length d))"
    by (induction n) (auto simp: put_bytes_def)
  then show "fsize ((put_bytes d ^^ n) f) = (if n = 0 then fsize f else max (fsize f) (fpos f + n * length d))"
    "fpos ((put_bytes d ^^ n) f) = fpos f + n * length d" by auto
qed

text \<open>
  The hundred million bytes stay in the space that was reserved, but a failure to reserve it goes unnoticed; the time that is printed
  is right only when the run began at the start of a second.
\<close>

lemma fallocate_main_result:
  assumes "0 \<le> ret" "ret = 0 \<or> ret = 28"
  shows "\<exists>t f. fallocate_main True ret (s0, u0) (s1, u1) empty_file = (0, Some t, f)
    \<and> fsize f = (if ret = 0 then 104857600 else 100000000)
    \<and> (t = (s1 * 1000000 + u1) - (s0 * 1000000 + u0) \<longleftrightarrow> u0 = 0)"
  using assms(2)
  by (auto simp: fallocate_main_def Let_def posix_fallocate_def empty_file_def puts simp del: funpow.simps)

text \<open>\<open>oks\<close> tells which of the thousand writes of a mebibyte succeed.\<close>

definition fsync_main :: "bool \<Rightarrow> (nat \<Rightarrow> bool) \<Rightarrow> fstate \<Rightarrow> int \<times> fstate" where
  "fsync_main fopen_ok oks f =
     (if \<not> fopen_ok then (1, f)
      else (0, fold (\<lambda>i f. if oks i then put_bytes (''@A'' @ replicate (1024 * 1024 - 2) CHR 0x00) f else f) [0..<1000] empty_file))"

text \<open>The file holds a mebibyte for each write that has succeeded.\<close>

lemma fold_puts:
  "fsize f = fpos f \<Longrightarrow> fsize (fold (\<lambda>i f. if oks i then put_bytes d f else f) js f) = fpos f + length (filter oks js) * length d"
  by (induction js arbitrary: f) (simp_all add: put_bytes_def)

lemma fsync_main_size: "fsize (snd (fsync_main True oks f)) = length (filter oks [0..<1000]) * 1048576"
  by (simp add: fsync_main_def fold_puts empty_file_def del: upt_rec_numeral)

section \<open>A semaphore\<close>

text \<open>
  The value of the semaphore and how often the loop has got the resource; \<open>None\<close>: \<open>semop\<close> blocks.  Nothing raises the value, which is
  that of an existing set, or 0 in a new one.
\<close>

record sem =
  semval :: nat
  got :: nat

definition sem_round :: "sem \<Rightarrow> sem option" where
  "sem_round s = (if semval s \<ge> 1 then Some (s\<lparr>semval := semval s - 1, got := got s + 1\<rparr>) else None)"

fun sem_rounds :: "nat \<Rightarrow> sem \<Rightarrow> sem option" where
  "sem_rounds 0 s = Some s"
| "sem_rounds (Suc n) s = do { s \<leftarrow> sem_round s; sem_rounds n s }"

definition sem_main :: "nat option \<Rightarrow> nat \<Rightarrow> sem option" where
  "sem_main semget n = do { v \<leftarrow> semget; sem_rounds n \<lparr>semval = v, got = 0\<rparr> }"

text \<open>
  \<open>quit\<close> passes \<open>IPC_RMID\<close> as the number of the semaphore and 0 as the command, which is \<open>IPC_RMID\<close>: it removes the set.
\<close>

definition IPC_RMID :: int where "IPC_RMID = 0"

definition semctl :: "int \<Rightarrow> int \<Rightarrow> sem option \<Rightarrow> sem option" where
  "semctl semnum cmd s = (if cmd = IPC_RMID then None else s)"

definition quit :: "sem option \<Rightarrow> sem option" where "quit s = semctl IPC_RMID 0 s"

lemma sem_main_blocks: "sem_main (Some v) n = (if n \<le> v then Some \<lparr>semval = v - n, got = n\<rparr> else None)"
proof -
  have "sem_rounds n s = (if n \<le> semval s then Some \<lparr>semval = semval s - n, got = got s + n\<rparr> else None)" for s
    by (induction n arbitrary: s) (auto simp: sem_round_def)
  then show ?thesis by (simp add: sem_main_def)
qed

lemma quit_removes: "quit s = None"
  by (simp add: quit_def semctl_def IPC_RMID_def)

end
