(* ===== verification/Descriptor_Flags.thy ===== *)
theory Descriptor_Flags
  imports Prelude
begin

text \<open>
  How the network programs make a socket non-blocking.  A descriptor has status flags (\<open>F_GETFL\<close>, \<open>F_SETFL\<close>) and descriptor
  flags (\<open>F_GETFD\<close>, \<open>F_SETFD\<close>); only \<open>O_NONBLOCK\<close> among the status flags has an effect.  The results of the calls are
  parameters: \<open>True\<close> is success.
\<close>

unbundle bit_operations_syntax

section \<open>The system calls\<close>

record descriptor =
  status_flags :: "32 word"
  fd_flags :: "32 word"

definition O_NONBLOCK :: "32 word" where "O_NONBLOCK = 0x800"
definition FD_CLOEXEC :: "32 word" where "FD_CLOEXEC = 1"

text \<open>\<open>F_SETFL\<close> changes \<open>O_APPEND\<close>, \<open>O_ASYNC\<close>, \<open>O_DIRECT\<close>, \<open>O_NOATIME\<close> and \<open>O_NONBLOCK\<close>, \<open>F_SETFD\<close> only \<open>FD_CLOEXEC\<close>.\<close>

definition settable :: "32 word" where "settable = 0x400 OR 0x2000 OR 0x4000 OR 0x40000 OR O_NONBLOCK"

definition F_SETFL :: "32 word \<Rightarrow> descriptor \<Rightarrow> descriptor" where
  "F_SETFL flags d = d\<lparr>status_flags := (status_flags d AND NOT settable) OR (flags AND settable)\<rparr>"

definition F_SETFD :: "32 word \<Rightarrow> descriptor \<Rightarrow> descriptor" where
  "F_SETFD flags d = d\<lparr>fd_flags := flags AND FD_CLOEXEC\<rparr>"

section \<open>The functions of the programs\<close>

text \<open>example_jingqun2.cpp\<close>

definition make_socket_non_blocking :: "bool \<Rightarrow> bool \<Rightarrow> descriptor \<Rightarrow> descriptor \<times> int" where
  "make_socket_non_blocking get_ok set_ok d =
     (if \<not> get_ok then (d, - 1)
      else if \<not> set_ok then (d, - 1)
      else (F_SETFL (status_flags d OR O_NONBLOCK) d, 0))"

text \<open>example_thread_epoll1.cpp\<close>

definition setnonblocking :: "bool \<Rightarrow> bool \<Rightarrow> descriptor \<Rightarrow> descriptor \<times> int" where
  "setnonblocking get_ok set_ok d =
     (if \<not> set_ok then (d, - 1)
      else (F_SETFL ((if get_ok then fd_flags d else - 1) OR O_NONBLOCK) d, 0))"

text \<open>example_socket1.cpp\<close>

definition set_fd_nonblock :: "bool \<Rightarrow> bool \<Rightarrow> descriptor \<Rightarrow> descriptor" where
  "set_fd_nonblock get_ok set_ok d =
     (if \<not> get_ok then d
      else if set_ok then F_SETFD (status_flags d OR O_NONBLOCK) d else d)"

text \<open>example_check_alot_server.cpp; after a failed \<open>fcntl\<close> it goes on with the result -1.\<close>

definition alot_non_block :: "bool \<Rightarrow> bool \<Rightarrow> descriptor \<Rightarrow> descriptor" where
  "alot_non_block get_ok set_ok d =
     (let flags = (if get_ok then fd_flags d else - 1) OR O_NONBLOCK in if set_ok then F_SETFD flags d else d)"

text \<open>example_check_alot_server3.cpp; \<open>None\<close>: the program returns.\<close>

definition ev_non_block :: "bool \<Rightarrow> bool \<Rightarrow> descriptor \<Rightarrow> descriptor option" where
  "ev_non_block get_ok set_ok d =
     (if \<not> get_ok then None else if \<not> set_ok then None else Some (F_SETFL (status_flags d OR O_NONBLOCK) d))"

section \<open>Which of them do it\<close>

definition nonblocking :: "descriptor \<Rightarrow> bool" where
  "nonblocking d \<longleftrightarrow> status_flags d AND O_NONBLOCK \<noteq> 0"

lemma settable_nonblock: "settable AND O_NONBLOCK = O_NONBLOCK" "O_NONBLOCK AND settable = O_NONBLOCK" "O_NONBLOCK \<noteq> 0"
  by (simp_all add: settable_def O_NONBLOCK_def)

lemma F_SETFL_nonblocking: "nonblocking (F_SETFL (flags OR O_NONBLOCK) d)"
proof -
  have "bit (status_flags (F_SETFL (flags OR O_NONBLOCK) d)) 11"
    by (simp add: F_SETFL_def settable_def O_NONBLOCK_def bit_or_iff bit_and_iff bit_not_iff bit_simps)
  moreover have "bit O_NONBLOCK 11" by (simp add: O_NONBLOCK_def bit_simps)
  ultimately have "bit (status_flags (F_SETFL (flags OR O_NONBLOCK) d) AND O_NONBLOCK) 11" by (simp add: bit_and_iff)
  then show ?thesis unfolding nonblocking_def by (metis bit_0_eq bot_apply bot_bool_def)
qed

text \<open>\<open>F_SETFL\<close> with the old status flags keeps all others; with the descriptor flags it clears them.\<close>

lemma keeps_status: "F_SETFL (status_flags d OR O_NONBLOCK) d = d\<lparr>status_flags := status_flags d OR O_NONBLOCK\<rparr>"
proof -
  have "(s AND NOT settable) OR ((s OR O_NONBLOCK) AND settable) = s OR O_NONBLOCK" for s
    using settable_nonblock(2) by (simp add: bit.conj_disj_distrib2 or.assoc [symmetric] bit.conj_disj_distrib [symmetric])
  then show ?thesis by (simp add: F_SETFL_def)
qed

text \<open>
  Non-blocking sockets.  When the system calls succeed, \<open>make_socket_non_blocking\<close> and the code with libev set
  \<open>O_NONBLOCK\<close> and change no other flag; \<open>setnonblocking\<close> sets it too, but clears the other settable flags; \<open>set_fd_nonblock\<close>
  and example_check_alot_server.cpp leave the socket as blocking as it was.
\<close>

theorem nonblocking_calls:
  shows "make_socket_non_blocking True True d = (d\<lparr>status_flags := status_flags d OR O_NONBLOCK\<rparr>, 0)
    \<and> ev_non_block True True d = Some (d\<lparr>status_flags := status_flags d OR O_NONBLOCK\<rparr>)
    \<and> nonblocking (fst (setnonblocking True True d))
    \<and> status_flags (set_fd_nonblock g s d) = status_flags d
    \<and> status_flags (alot_non_block g s d) = status_flags d"
  by (simp add: make_socket_non_blocking_def ev_non_block_def keeps_status setnonblocking_def F_SETFL_nonblocking
      set_fd_nonblock_def alot_non_block_def F_SETFD_def Let_def)

lemma setnonblocking_clears:
  "fst (setnonblocking True True \<lparr>status_flags = 0x402, fd_flags = 0\<rparr>) = \<lparr>status_flags = 0x802, fd_flags = 0\<rparr>"
  by (simp add: setnonblocking_def F_SETFL_def settable_def O_NONBLOCK_def)

end
