(* ===== verification/Redis_Clients.thy ===== *)
theory Redis_Clients
  imports Redis_Pool
begin

text \<open>
  The functions of example_redis_test.cpp that use hiredis directly, and \<open>fn\<close>, which uses the pool.  The outcome of the
  connection and the replies are parameters; the null pointer is \<open>None\<close>, and using it is undefined behaviour.
\<close>

section \<open>The code\<close>

definition REDIS_REPLY_STRING :: int where "REDIS_REPLY_STRING = 1"
definition REDIS_REPLY_STATUS :: int where "REDIS_REPLY_STATUS = 5"

record reply =
  rtype :: int
  str :: "string option"
  elements :: int

text \<open>Whether \<open>strncmp\<close> finds no difference, for strings without zero bytes inside.\<close>

definition strncmp_equal :: "string \<Rightarrow> string \<Rightarrow> nat \<Rightarrow> bool" where
  "strncmp_equal s t n \<longleftrightarrow> take n (s @ [CHR 0x00]) = take n (t @ [CHR 0x00])"

datatype shown = Mark string | Reply string int int | Code int

datatype ending = Exit int | Done "shown list" nat nat

text \<open>
  How a function ends: with \<open>exit\<close>, or with what it has printed, and the contexts and the replies that it leaves allocated.
\<close>

definition fn1 :: "connected \<Rightarrow> reply option \<Rightarrow> ending option" where
  "fn1 net answer =
     (case net of
        Failed \<Rightarrow> Some (Exit 1)
      | NoMemory \<Rightarrow> None
      | Connected \<Rightarrow>
          do { r \<leftarrow> answer;
               s \<leftarrow> str r;
               Some (Done ((if strncmp_equal s ''OK'' (length s) then [Mark ''123''] else []) @ [Reply s (elements r) (rtype r)]) 0 0) })"

text \<open>\<open>toupper\<close> on the letters of the C locale.\<close>

definition upper :: "char \<Rightarrow> char" where
  "upper c = (if 97 \<le> (of_char c :: nat) \<and> (of_char c :: nat) \<le> 122 then char_of ((of_char c :: nat) - 32) else c)"

text \<open>The status of a connection, and the replies that are left.\<close>

definition checkStatus :: "reply option \<Rightarrow> (bool \<times> nat) option" where
  "checkStatus answer =
     (case answer of
        None \<Rightarrow> Some (False, 0)
      | Some r \<Rightarrow>
          if rtype r \<noteq> REDIS_REPLY_STATUS then Some (False, 0)
          else do { s \<leftarrow> str r;
                    if map upper s \<noteq> ''PONG'' then Some (False, 0) else Some (True, 1) })"

text \<open>The program around the pool: the result of \<open>SetEx\<close> and what is left after the destructor.\<close>

definition fn :: "(nat \<Rightarrow> connected) \<Rightarrow> bool \<Rightarrow> (int \<times> world) option" where
  "fn net reply =
     do { let (helper, w) = init net \<lparr>calls = 0, alive = [], replies = 0\<rparr>;
          (ret, helper, w) \<leftarrow> SetEx net reply helper w;
          (ctxs, w) \<leftarrow> destroy_loop 0 (m_ctxs helper) w;
          Some (ret, w) }"

definition testPipeLine :: "connected \<Rightarrow> reply option \<times> reply option \<Rightarrow> ending option" where
  "testPipeLine net = (\<lambda>(reply1, reply2).
     (case net of
        NoMemory \<Rightarrow> Some (Done [Mark ''no context''] 0 0)
      | Failed \<Rightarrow> Some (Done [Mark ''error''] 1 0)
      | Connected \<Rightarrow>
          do { r \<leftarrow> reply1;
               let out = [Mark ''connected''] @ (if rtype r = REDIS_REPLY_STATUS then [Mark ''set hello redis''] else []);
               r \<leftarrow> reply2;
               got \<leftarrow> (if rtype r = REDIS_REPLY_STRING then do { s \<leftarrow> str r; Some [Mark (''get '' @ s)] } else Some []);
               Some (Done (out @ got) 0 0) }))"

text \<open>The results of \<open>redisGetReply\<close> are printed.\<close>

definition testPipeLine2 :: "connected \<Rightarrow> (int \<times> reply option) \<times> (int \<times> reply option) \<Rightarrow> ending option" where
  "testPipeLine2 net = (\<lambda>((ret1, reply1), (ret2, reply2)).
     (case net of
        NoMemory \<Rightarrow> Some (Done [Mark ''no context''] 0 0)
      | Failed \<Rightarrow> Some (Done [Mark ''error''] 1 0)
      | Connected \<Rightarrow>
          do { r \<leftarrow> reply1;
               out1 \<leftarrow> (if rtype r = REDIS_REPLY_STATUS then do { s \<leftarrow> str r; Some [Mark (''set hello redis:'' @ s)] } else Some []);
               r \<leftarrow> reply2;
               out2 \<leftarrow> (if rtype r = REDIS_REPLY_STATUS then do { s \<leftarrow> str r; Some [Mark (''set '' @ s)] } else Some []);
               Some (Done ([Mark ''connected'', Code ret1] @ out1 @ [Code ret2] @ out2) 0 0) }))"

definition main :: "connected \<Rightarrow> (int \<times> reply option) \<times> (int \<times> reply option) \<Rightarrow> ending option" where
  "main = testPipeLine2"

section \<open>What they do\<close>

lemma strncmp_own_length:
  assumes "CHR 0x00 \<notin> set s"
  shows "strncmp_equal s ''OK'' (length s) \<longleftrightarrow> s \<in> {[], ''O'', ''OK''}"
proof
  assume "strncmp_equal s ''OK'' (length s)"
  then have s: "s = take (length s) (''OK'' @ [CHR 0x00])" by (simp add: strncmp_equal_def)
  consider "length s = 0" | "length s = 1" | "length s = 2" | "3 \<le> length s" by linarith
  then show "s \<in> {[], ''O'', ''OK''}"
  proof cases
    case 4
    then have "s = ''OK'' @ [CHR 0x00]" using s by simp
    then show ?thesis using assms by simp
  qed (use s in \<open>simp_all add: numeral_eq_Suc\<close>)
qed (auto simp: strncmp_equal_def)

text \<open>The reply is compared on its own length: a prefix of \<open>OK\<close>, the empty one too, passes.\<close>

lemma fn1_result:
  assumes "CHR 0x00 \<notin> set s"
  shows "fn1 Connected (Some \<lparr>rtype = t, str = Some s, elements = n\<rparr>) =
    Some (Done (if s \<in> {[], ''O'', ''OK''} then [Mark ''123'', Reply s n t] else [Reply s n t]) 0 0)"
  using strncmp_own_length [OF assms] by (simp add: fn1_def)

text \<open>A context that could not be allocated, a command without a reply, and a reply without a string.\<close>

lemma fn1_null: "fn1 NoMemory answer = None" "fn1 Connected None = None" "fn1 Connected (Some (r\<lparr>str := None\<rparr>)) = None"
  by (simp_all add: fn1_def)

text \<open>The reply of a good connection is not freed.\<close>

lemma checkStatus_leaks: "checkStatus answer = Some (True, n) \<Longrightarrow> n = 1"
  by (auto simp: checkStatus_def bind_eq_Some_conv split: option.splits if_splits)

lemma checkStatus_pong: "checkStatus (Some \<lparr>rtype = REDIS_REPLY_STATUS, str = Some ''pong'', elements = 0\<rparr>) = Some (True, 1)"
  by code_simp

text \<open>With every connection made, half of the pool and the reply stay allocated.\<close>

lemma fn_leaves: "fn (\<lambda>i. Connected) True = Some (0, \<lparr>calls = 10, alive = [9, 8, 7, 6, 0], replies = 1\<rparr>)"
proof -
  have i: "init (\<lambda>i. Connected) \<lparr>calls = 0, alive = [], replies = 0\<rparr> =
    (\<lparr>m_ctxs = map Some [0..<10], m_poolsize = 10, m_maxpoolsize = 100, m_useNum = 0\<rparr>,
     \<lparr>calls = 10, alive = rev [0..<10], replies = 0\<rparr>)"
    by (simp add: init_def connect_def redisConnectWithTimeout_def numeral_eq_Suc)
  show ?thesis
    by (simp add: fn_def i SetEx_def getConntection_def releaseConnection_def redisFree_def upt_rec destroy_loop.simps i32_def)
qed

text \<open>Both pipelines work when the server answers as the commands ask; one that meets an error keeps its context.\<close>

lemma pipelines:
  "testPipeLine Connected (Some \<lparr>rtype = REDIS_REPLY_STATUS, str = Some ''OK'', elements = 0\<rparr>,
      Some \<lparr>rtype = REDIS_REPLY_STRING, str = Some ''redis'', elements = 0\<rparr>)
    = Some (Done [Mark ''connected'', Mark ''set hello redis'', Mark ''get redis''] 0 0)"
  "main Connected ((0, Some \<lparr>rtype = REDIS_REPLY_STATUS, str = Some ''OK'', elements = 0\<rparr>),
      (0, Some \<lparr>rtype = REDIS_REPLY_STATUS, str = Some ''OK'', elements = 0\<rparr>))
    = Some (Done [Mark ''connected'', Code 0, Mark ''set hello redis:OK'', Code 0, Mark ''set OK''] 0 0)"
  "testPipeLine Failed rs = Some (Done [Mark ''error''] 1 0)" "testPipeLine2 Failed qs = Some (Done [Mark ''error''] 1 0)"
  "testPipeLine Connected (None, q) = None" "testPipeLine2 Connected ((e, None), p) = None"
  by (simp_all add: testPipeLine_def testPipeLine2_def main_def REDIS_REPLY_STATUS_def REDIS_REPLY_STRING_def split_beta)

end
