(* ===== verification/Server_Check.thy ===== *)
theory Server_Check
  imports Check_Servers
begin

text \<open>
  \<open>checkServer\<close> of example_test.cpp, the coroutine that connects to a server as in \<open>Check_Servers\<close>, but whose first loop is not
  left when the connection is made.  The network and the pieces between two yields are those of \<open>Check_Servers\<close>.
\<close>

section \<open>The code\<close>

datatype check_point = Checking nat bool | Receiving nat

definition receive_piece :: "network \<Rightarrow> nat \<Rightarrow> io list \<times> check_point option" where
  "receive_piece net i =
     (case rselect net i of
        NotReady \<Rightarrow> ([], Some (Receiving (i + 1)))
      | SelectFailed \<Rightarrow> ([Close], None)
      | Ready \<Rightarrow> ([Read, Close], None))"

text \<open>After the first loop.\<close>

definition check_connected :: "network \<Rightarrow> bool \<Rightarrow> io list \<times> check_point option" where
  "check_connected net isConnect =
     (if isConnect then (let (acts, next) = receive_piece net 0 in (Write # acts, next)) else ([Close], None))"

partial_function (option) check_loop :: "network \<Rightarrow> nat \<Rightarrow> bool \<Rightarrow> (io list \<times> check_point option) option" where
  "check_loop net i isConnect =
     (case wselect net i of
        NotReady \<Rightarrow> Some ([], Some (Checking (i + 1) isConnect))
      | SelectFailed \<Rightarrow> Some (check_connected net isConnect)
      | Ready \<Rightarrow>
          if fst (sockopt net i) = - 1 then Some (check_connected net isConnect)
          else if snd (sockopt net i) = 0 then check_loop net (i + 1) True
          else Some (check_connected net isConnect))"

definition checkServer :: "network \<Rightarrow> (io list \<times> check_point option) option" where
  "checkServer net =
     (if inet_aton net < 0 then Some ([], None)
      else if getfl net = - 1 then Some ([], None)
      else if in_progress net then check_loop net 0 False
      else Some ([Close], None))"

section \<open>What it does\<close>

text \<open>A connection that is made and stays good: the coroutine neither returns nor yields.\<close>

lemma good_connection_hangs:
  assumes "\<And>j. j \<ge> i \<Longrightarrow> wselect net j = Ready \<and> fst (sockopt net j) \<noteq> - 1 \<and> snd (sockopt net j) = 0"
  shows "check_loop net i b = None"
proof (rule ccontr)
  assume "check_loop net i b \<noteq> None"
  then obtain y where y: "check_loop net i b = Some y" by blast
  have "(\<forall>j \<ge> i. wselect net j = Ready \<and> fst (sockopt net j) \<noteq> - 1 \<and> snd (sockopt net j) = 0) \<longrightarrow> False"
  proof (rule check_loop.raw_induct [OF _ y, where P = "\<lambda>net i b y.
      (\<forall>j \<ge> i. wselect net j = Ready \<and> fst (sockopt net j) \<noteq> - 1 \<and> snd (sockopt net j) = 0) \<longrightarrow> False"])
    fix loop net i b y
    assume IH: "\<And>net i b y. loop net i b = Some y \<Longrightarrow>
        (\<forall>j \<ge> i. wselect net j = Ready \<and> fst (sockopt net j) \<noteq> - 1 \<and> snd (sockopt net j) = 0) \<longrightarrow> False"
      and step: "(case wselect net i of
        NotReady \<Rightarrow> Some ([], Some (Checking (i + 1) b))
      | SelectFailed \<Rightarrow> Some (check_connected net b)
      | Ready \<Rightarrow>
          if fst (sockopt net i) = - 1 then Some (check_connected net b)
          else if snd (sockopt net i) = 0 then loop net (i + 1) True
          else Some (check_connected net b)) = Some y"
    show "(\<forall>j \<ge> i. wselect net j = Ready \<and> fst (sockopt net j) \<noteq> - 1 \<and> snd (sockopt net j) = 0) \<longrightarrow> False"
    proof
      assume good: "\<forall>j \<ge> i. wselect net j = Ready \<and> fst (sockopt net j) \<noteq> - 1 \<and> snd (sockopt net j) = 0"
      then have "loop net (i + 1) True = Some y" using step by simp
      from IH [OF this] good show False by (meson le_add1 order_trans)
    qed
  qed
  then show False using assms by blast
qed

text \<open>The request is only written after a later call on the connection has failed.\<close>

lemma writes_after_failure:
  assumes "check_loop net i b = Some (acts, next)" "Write \<in> set acts"
  shows "\<exists>j \<ge> i. wselect net j = SelectFailed \<or> wselect net j = Ready \<and> (fst (sockopt net j) = - 1 \<or> snd (sockopt net j) \<noteq> 0)"
proof -
  have "Write \<in> set (fst y) \<longrightarrow>
    (\<exists>j \<ge> i. wselect net j = SelectFailed \<or> wselect net j = Ready \<and> (fst (sockopt net j) = - 1 \<or> snd (sockopt net j) \<noteq> 0))"
    if "check_loop net i b = Some y" for y
  proof (rule check_loop.raw_induct [OF _ that, where P = "\<lambda>net i b y. Write \<in> set (fst y) \<longrightarrow>
      (\<exists>j \<ge> i. wselect net j = SelectFailed \<or> wselect net j = Ready \<and> (fst (sockopt net j) = - 1 \<or> snd (sockopt net j) \<noteq> 0))"])
    fix loop net i b y
    assume IH: "\<And>net i b y. loop net i b = Some y \<Longrightarrow> Write \<in> set (fst y) \<longrightarrow>
      (\<exists>j \<ge> i. wselect net j = SelectFailed \<or> wselect net j = Ready \<and> (fst (sockopt net j) = - 1 \<or> snd (sockopt net j) \<noteq> 0))"
      and step: "(case wselect net i of
        NotReady \<Rightarrow> Some ([], Some (Checking (i + 1) b))
      | SelectFailed \<Rightarrow> Some (check_connected net b)
      | Ready \<Rightarrow>
          if fst (sockopt net i) = - 1 then Some (check_connected net b)
          else if snd (sockopt net i) = 0 then loop net (i + 1) True
          else Some (check_connected net b)) = Some y"
    show "Write \<in> set (fst y) \<longrightarrow>
      (\<exists>j \<ge> i. wselect net j = SelectFailed \<or> wselect net j = Ready \<and> (fst (sockopt net j) = - 1 \<or> snd (sockopt net j) \<noteq> 0))"
      using step IH [of net "i + 1" True y]
      by (cases "wselect net i") (auto split: if_splits dest: Suc_leD)
  qed
  then show ?thesis using assms by fastforce
qed

end
