(* ===== verification/Hash_Program.thy ===== *)
theory Hash_Program
  imports Chained_Hash
begin

text \<open>
  The program of example_hashtable2.cpp around \<open>Chained_Hash\<close>: random strings, the print of the table, and \<open>main\<close>, whose
  lookups and removal work whatever \<open>rand\<close> gives.
\<close>

section \<open>The code\<close>

definition MAX_STR_LEN :: nat where "MAX_STR_LEN = 20"
definition MIN_STR_LEN :: nat where "MIN_STR_LEN = 10"

text \<open>
  The letters up to \<open>len - 2\<close>, and how many numbers of \<open>rand\<close> have been used; the terminating zero goes to \<open>len - 1\<close>, inside the
  array of 21 bytes.
\<close>

definition rand_str :: "(nat \<Rightarrow> nat) \<Rightarrow> nat \<Rightarrow> str \<times> nat" where
  "rand_str rand k =
     (let len = MIN_STR_LEN + rand k mod (MAX_STR_LEN - MIN_STR_LEN)
      in (map (\<lambda>i. of_nat (97 + rand (k + 1 + i) mod (122 - 97))) [0..<len - 1], k + len))"

fun insert_randoms :: "(nat \<Rightarrow> nat) \<Rightarrow> nat \<Rightarrow> nat \<Rightarrow> hash_table \<Rightarrow> hash_table" where
  "insert_randoms rand k 0 s = s"
| "insert_randoms rand k (Suc n) s = (let (r, k) = rand_str rand k in insert_randoms rand k n (hash_table_insert r (int n) s))"

text \<open>A line for each bucket that is not empty: its number, and the keys with their values.\<close>

definition hash_table_print :: "hash_table \<Rightarrow> (nat \<times> (str \<times> int) list) list" where
  "hash_table_print s = map (\<lambda>i. (i, map (\<lambda>n. (sKey n, nValue n)) (hashTable s ! i)))
     (filter (\<lambda>i. hashTable s ! i \<noteq> []) [0..<HASH_TABLE_MAX_SIZE])"

definition key1 :: str where "key1 = [97, 97, 97, 109, 109, 100]"
definition key2 :: str where "key2 = [120, 122, 122, 121, 121, 109]"
definition key3 :: str where "key3 = [99, 100, 99, 100, 101, 100]"

text \<open>The two values that are looked up, \<open>None\<close> when a pointer is null, and the table before and after the removal.\<close>

definition hash_main :: "(nat \<Rightarrow> nat) \<Rightarrow> (int \<times> int \<times> hash_table \<times> hash_table) option" where
  "hash_main rand =
     do { let s = hash_table_insert key1 110 hash_table_init;
          let s = hash_table_insert key2 220 s;
          let s = hash_table_insert key3 330 s;
          let s = insert_randoms rand 0 10 s;
          pNode1 \<leftarrow> hash_table_lookup key1 s;
          pNode2 \<leftarrow> hash_table_lookup key2 s;
          Some (nValue pNode1, nValue pNode2, s, hash_table_remove key3 s) }"

section \<open>What it prints\<close>

lemma rand_str_length: "9 \<le> length (fst (rand_str rand k)) \<and> length (fst (rand_str rand k)) \<le> 18"
proof -
  have "rand k mod 10 < 10" by simp
  then show ?thesis by (simp add: rand_str_def Let_def MIN_STR_LEN_def MAX_STR_LEN_def)
qed

text \<open>The key never holds a z.\<close>

lemma rand_str_letters: "c \<in> set (fst (rand_str rand k)) \<Longrightarrow> 97 \<le> unat c \<and> unat c < 122"
proof -
  assume "c \<in> set (fst (rand_str rand k))"
  then obtain j where c: "c = of_nat (97 + rand j mod 25)" by (auto simp: rand_str_def Let_def)
  have "rand j mod 25 < 25" by simp
  have u: "unat (of_nat m :: 8 word) = m" if "m < 256" for m using that by (simp add: unsigned_of_nat take_bit_nat_eq_self)
  have "unat c = 97 + rand j mod 25" unfolding c by (rule u) (use \<open>rand j mod 25 < 25\<close> in linarith)
  then show ?thesis using \<open>rand j mod 25 < 25\<close> by simp
qed

text \<open>Inserting a random key leaves the keys of six bytes alone.\<close>

lemma insert_randoms_spec:
  "ht_valid s \<Longrightarrow> hash_table_size s + int n < int HASH_TABLE_MAX_SIZE \<Longrightarrow>
   ht_valid (insert_randoms rand k n s) \<and> (\<forall>j. length j = 6 \<longrightarrow> ht_map (insert_randoms rand k n s) j = ht_map s j)"
proof (induction n arbitrary: k s)
  case (Suc n)
  obtain r k' where r: "rand_str rand k = (r, k')" by fastforce
  then have l: "length r \<noteq> 6" using rand_str_length [of rand k] by simp
  note i = insert_spec [OF Suc.prems(1), of r "int n"]
  have "hash_table_size (hash_table_insert r (int n) s) \<le> hash_table_size s + 1" using i by (auto split: if_splits)
  then have "hash_table_size (hash_table_insert r (int n) s) + int n < int HASH_TABLE_MAX_SIZE" using Suc.prems(2) by simp
  from Suc.IH [OF _ this, of k'] have "ht_valid (insert_randoms rand k (Suc n) s)
      \<and> (\<forall>j. length j = 6 \<longrightarrow> ht_map (insert_randoms rand k (Suc n) s) j = ht_map (hash_table_insert r (int n) s) j)"
    using i r by simp
  moreover have "length j = 6 \<Longrightarrow> ht_map (hash_table_insert r (int n) s) j = ht_map s j" for j using i l by (auto split: if_splits)
  ultimately show ?case by simp
qed simp

lemma print_lists: "ht_valid s \<Longrightarrow> (k, v) \<in> set (concat (map snd (hash_table_print s))) \<longleftrightarrow> ht_map s k = Some v"
proof
  assume v: "ht_valid s" and "(k, v) \<in> set (concat (map snd (hash_table_print s)))"
  then obtain i n where n: "i < HASH_TABLE_MAX_SIZE" "n \<in> set (hashTable s ! i)" "sKey n = k" "nValue n = v"
    by (auto simp: hash_table_print_def)
  then have b: "bucket_of k = i" "distinct (map sKey (hashTable s ! i))" using v by (auto simp: ht_valid_def)
  have "chain_find k ns = Some n" if "n \<in> set ns" "distinct (map sKey ns)" for ns
    using that n(3) by (induction ns) (auto simp: rev_image_eqI)
  then show "ht_map s k = Some v" using n b by (simp add: ht_map_lookup)
next
  assume v: "ht_valid s" and "ht_map s k = Some v"
  then obtain n where n: "chain_find k (hashTable s ! bucket_of k) = Some n" "nValue n = v" by (auto simp: ht_map_lookup)
  have "n \<in> set ns \<and> sKey n = k" if "chain_find k ns = Some n" for ns using that by (induction ns) (auto split: if_splits)
  then have "n \<in> set (hashTable s ! bucket_of k)" "sKey n = k" using n(1) by auto
  then show "(k, v) \<in> set (concat (map snd (hash_table_print s)))"
    using n(2) bucket_less [of k] by (fastforce simp: hash_table_print_def)
qed

text \<open>
  The program of the string table.  Whatever numbers \<open>rand\<close> gives, both lookups find their values, the print lists each key
  of the table with its value, and after the removal the third key is gone.
\<close>

theorem hash_program:
  shows "\<exists>s t. hash_main rand = Some (110, 220, s, t)
    \<and> (\<forall>k v. (k, v) \<in> set (concat (map snd (hash_table_print s))) \<longleftrightarrow> ht_map s k = Some v)
    \<and> ht_map s key3 = Some 330 \<and> ht_map t key3 = None"
proof -
  let ?a = "hash_table_insert key1 110 hash_table_init"
  let ?b = "hash_table_insert key2 220 ?a"
  let ?c = "hash_table_insert key3 330 ?b"
  let ?s = "insert_randoms rand 0 10 ?c"
  have z: "hash_table_size hash_table_init = 0" "int HASH_TABLE_MAX_SIZE = 10000" "ht_map hash_table_init = Map.empty"
    using bucket_less by (auto simp: hash_table_init_def HASH_TABLE_MAX_SIZE_def ht_map_lookup)
  have k: "key1 \<noteq> key2" "key1 \<noteq> key3" "key2 \<noteq> key3" "length key1 = 6" "length key2 = 6" "length key3 = 6"
    by (simp_all add: key1_def key2_def key3_def)
  have a: "ht_valid ?a" "ht_map ?a = [key1 \<mapsto> 110]" "hash_table_size ?a = 1"
    using insert_spec [OF init_valid, of key1 110] z by (auto split: if_splits)
  have b: "ht_valid ?b" "ht_map ?b = [key1 \<mapsto> 110, key2 \<mapsto> 220]" "hash_table_size ?b = 2"
    using insert_spec [OF a(1), of key2 220] a(2,3) z k by (auto split: if_splits)
  have c: "ht_valid ?c" "ht_map ?c = [key1 \<mapsto> 110, key2 \<mapsto> 220, key3 \<mapsto> 330]" "hash_table_size ?c = 3"
    using insert_spec [OF b(1), of key3 330] b(2,3) z k by (auto split: if_splits)
  have s: "ht_valid ?s" "ht_map ?s key1 = Some 110" "ht_map ?s key2 = Some 220" "ht_map ?s key3 = Some 330"
    using insert_randoms_spec [OF c(1), of 10 rand 0] c(2,3) z k by auto
  then obtain n1 n2 where "hash_table_lookup key1 ?s = Some n1" "nValue n1 = 110" "hash_table_lookup key2 ?s = Some n2" "nValue n2 = 220"
    by (auto simp: ht_map_def)
  then have "hash_main rand = Some (110, 220, ?s, hash_table_remove key3 ?s)" by (simp add: hash_main_def Let_def)
  moreover have "ht_map (hash_table_remove key3 ?s) key3 = None" using remove_spec [OF s(1), of key3] by simp
  ultimately show ?thesis using print_lists [OF s(1)] s(4) by blast
qed

end
