(* ===== verification/Small_Programs.thy ===== *)
theory Small_Programs
  imports Binary_Heap_Queue AVL_Tree Search_Tree Input_Tree Linear_Probing Morse Digraph_Read Digraph_Dfs Binary_Search Sorting
begin

text \<open>
  The main programs of the data structures and algorithms that come with fixed inputs: what each prints.  \<open>None\<close> is undefined
  behaviour or an input that ends too early.
\<close>

section \<open>Heaps and trees\<close>

text \<open>example_heap.cpp.\<close>

fun insert_heaps :: "int list \<Rightarrow> Heap \<Rightarrow> Heap option" where
  "insert_heaps [] queue = Some queue"
| "insert_heaps (x # xs) queue = do { queue \<leftarrow> insert_heap x queue; insert_heaps xs queue }"

definition print_heap :: "Heap \<Rightarrow> int list option" where
  "print_heap queue = (if heap_size queue \<le> length (elements queue) then Some (take (heap_size queue) (elements queue)) else None)"

definition heap_main :: "int list \<Rightarrow> (int list \<times> int list) option" where
  "heap_main mem =
     do { queue \<leftarrow> Binary_Heap_Queue.init 300 mem;
          queue \<leftarrow> insert_heaps [2, 4, 3, 6, 5, 100, 10, 8, 7] queue;
          out1 \<leftarrow> print_heap queue;
          (queue, x) \<leftarrow> deleteMin queue;
          out2 \<leftarrow> print_heap queue;
          Some (out1, out2) }"

text \<open>example_binary_tree_avl.cpp.\<close>

definition avl_main :: "bool \<Rightarrow> (int \<times> int) option" where
  "avl_main malloc_ok =
     do { let avlTree = AVL_Tree.makeEmpty ANull;
          avlTree \<leftarrow> AVL_Tree.insNode malloc_ok 10 avlTree;
          avlTree \<leftarrow> AVL_Tree.insNode malloc_ok 15 avlTree;
          avlTree \<leftarrow> AVL_Tree.insNode malloc_ok 6 avlTree;
          avlTree \<leftarrow> AVL_Tree.insNode malloc_ok 3 avlTree;
          avlTree \<leftarrow> AVL_Tree.insNode malloc_ok 4 avlTree;
          position \<leftarrow> AVL_Tree.findMin avlTree;
          case (avlTree, position) of
            (AvlNode v l r h, AvlNode w l' r' h') \<Rightarrow> Some (h, w)
          | _ \<Rightarrow> None }"

text \<open>example_binary_tree_adt.cpp; the root, the least and the greatest value.\<close>

fun insert_randoms :: "int list \<Rightarrow> stree \<Rightarrow> stree option" where
  "insert_randoms [] tree = Some tree"
| "insert_randoms (x # xs) tree = do { tree \<leftarrow> Search_Tree.insNode x tree; insert_randoms xs tree }"

definition search_tree_main :: "int list \<Rightarrow> (int \<times> int \<times> int) option" where
  "search_tree_main rands =
     do { tree \<leftarrow> Search_Tree.makeEmpty stree.Null;
          ignored \<leftarrow> Search_Tree.insNode 5 tree;
          root \<leftarrow> value_of tree;
          tree \<leftarrow> insert_randoms (map (\<lambda>x. x mod 1000) (take 100 rands)) tree;
          position \<leftarrow> Search_Tree.findMin tree;
          least \<leftarrow> value_of position;
          position \<leftarrow> findMax tree;
          greatest \<leftarrow> value_of position;
          ignored \<leftarrow> delNode 5 tree;
          Some (root, least, greatest) }"

text \<open>example_binary_tree2.cpp and example_binary_tree.cpp: the three traversals and the depth.\<close>

definition bitree_main :: "int list \<Rightarrow> (int list \<times> int list \<times> int list \<times> nat) option" where
  "bitree_main input = do { (T, input) \<leftarrow> createBiTree input; Some (traverseBiTree T, inOrderBiTree T, postOrderBiTree T, Input_Tree.treeDeep T) }"

definition travel_main :: "int list \<Rightarrow> (int list \<times> int list \<times> int list \<times> nat) option" where
  "travel_main input = do { (T, input) \<leftarrow> createBiTree input; Some (preTravelTree T, inTravelTree T, postTravelTree T, Input_Tree.treeDeep T) }"

lemma heap_main_result:
  assumes "length mem = 301"
  shows "heap_main mem = Some ([2, 4, 3, 6, 5, 100, 10, 8, 7], [3, 4, 7, 6, 5, 100, 10, 8])"
proof -
  obtain xs ms where m: "mem = xs @ ms" "length xs = 10"
    using assms by (intro that [of "take 10 mem" "drop 10 mem"]) simp_all
  then have "mem = xs ! 0 # xs ! 1 # xs ! 2 # xs ! 3 # xs ! 4 # xs ! 5 # xs ! 6 # xs ! 7 # xs ! 8 # xs ! 9 # ms"
    by (auto simp: numeral_eq_Suc length_Suc_conv)
  then show ?thesis
    by (simp add: heap_main_def Binary_Heap_Queue.init_def insert_heap_def isFull_def insert_loop.simps deleteMin_def isEmpty_def
        delete_loop.simps print_heap_def rd_def wr_def Let_def)
qed

text \<open>The new tree of the first insertion is not assigned: the program reads the value of the null pointer.\<close>

lemma search_tree_main_crashes: "search_tree_main rands = None"
  by (simp add: search_tree_main_def)

text \<open>A traversal that calls the preorder instead of itself.\<close>

lemma tree_mains_differ:
  "bitree_main [1, 2, 3, - 1, - 1, - 1, - 1] = Some ([1, 2, 3], [3, 2, 1], [3, 2, 1], 3)"
  "travel_main [1, 2, 3, - 1, - 1, - 1, - 1] = Some ([1, 2, 3], [2, 3, 1], [2, 3, 1], 3)"
  by (simp_all add: bitree_main_def travel_main_def createBiTree.simps)

section \<open>Tables and texts\<close>

text \<open>example_hashtable.cpp: what is displayed, and the result of the search.\<close>

definition Display :: "HashTable \<Rightarrow> int list option" where
  "Display t = (if nat (HashTable.count t) \<le> length (elem t) then Some (take (nat (HashTable.count t)) (elem t)) else None)"

definition probing_main :: "(int list \<times> int) option option" where
  "probing_main =
     (case insert_all [13, 29, 27, 28, 26, 30, 38] Init of
        None \<Rightarrow> None
      | Some None \<Rightarrow> Some None
      | Some (Some t) \<Rightarrow> (case Search t 21 of
            None \<Rightarrow> None
          | Some r \<Rightarrow> Some (do { out \<leftarrow> Display t; result \<leftarrow> r; Some (out, result) })))"

text \<open>example_morse.cpp.\<close>

definition morse_main :: "(string \<times> string) option" where
  "morse_main = do { str1 \<leftarrow> encodeMorse 1000 ''HappyNewYear2014''; str2 \<leftarrow> decodeMorse str1;
     if length str2 < 1000 then Some (str1, str2) else None }"

declare insert_probe.simps [code] search_probe.simps [code] read_loop.simps [code] createBiTree.simps [code]

lemma probing_main_result: "probing_main = Some (Some ([27, 29, 28, 30, 38, 26, 13], - 1))"
  by code_simp

lemma morse_main_result: "map_option snd morse_main = Some ''HAPPYNEWYEAR2014''"
proof -
  have a: "list_all (\<lambda>c. isalpha c \<or> isdigit c) ''HappyNewYear2014''" "map toupper ''HappyNewYear2014'' = ''HAPPYNEWYEAR2014''"
    by code_simp+
  have "encode_loop 1000 [] ''HappyNewYear2014'' = Some (morse_text ''HappyNewYear2014'')"
    using encode_loop_alnum [OF a(1), of "[]" 1000] by simp
  moreover have "decode_loop None [] (morse_text ''HappyNewYear2014'') = Some ''HAPPYNEWYEAR2014''"
    using decode_loop_alnum [OF a(1), of None "[]"] a(2) by simp
  ultimately show ?thesis by (simp add: morse_main_def encodeMorse_def decodeMorse_def)
qed

section \<open>Searching, sorting and the digraph\<close>

text \<open>example_binarysearch.cpp, example_quicksort.cpp, example_heapsort.cpp and example_sort.cpp.\<close>

definition search_main :: "(int \<times> int) option" where
  "search_main =
     do { let array = map int [0..<10];
          p \<leftarrow> binarySearch array 10 6;
          q \<leftarrow> BinarySearchRecursive array 0 9 6;
          Some (p, q) }"

definition quicksort_main :: "int list option" where
  "quicksort_main = quicksort [1, 5, 7, 10, 2, 3, 45, 6, 78, 9] 0 9"

definition heapsort_main :: "int list option" where
  "heapsort_main = heapsort [0, 14, 10, 4, 7, 9, 3, 2, 8, 1] 10"

definition sort_main :: "int list option" where
  "sort_main = bucketsort [81, 94, 11, 96, 12, 35, 17, 95, 28, 58, 41, 75, 15] 13 10"

text \<open>example_digraph.cpp: the vertices that are displayed, and the path.\<close>

definition NL :: char where "NL = CHR 0x0A"

definition digraph_text :: string where
  "digraph_text = concat (map (\<lambda>c. [c, NL]) ''A3245B16C224D238E18F279G223H0I1'') @ ''8''"

definition digraph_main :: "char \<Rightarrow> ((nat \<times> char \<times> int list) list \<times> int list) option" where
  "digraph_main d =
     do { digraph \<leftarrow> Read d digraph_text;
          (found, path) \<leftarrow> shortestPath digraph 1 8;
          Some (display digraph, path) }"

lemma fixed_inputs:
  "avl_main True = Some (2, 3)" "search_main = Some (6, 6)"
  "quicksort_main = Some [1, 2, 3, 5, 6, 7, 9, 10, 45, 78]"
  "heapsort_main = Some [0, 1, 2, 3, 4, 7, 8, 9, 10, 14]"
  "sort_main = Some [11, 12, 15, 17, 28, 35, 41, 58, 75, 81, 94, 95, 96]"
  by code_simp+

lemma digraph_main_result:
  "digraph_main d = Some ([(1, CHR ''A'', [2, 4, 5]), (2, CHR ''B'', [6]), (3, CHR ''C'', [2, 4]), (4, CHR ''D'', [3, 8]),
     (5, CHR ''E'', [8]), (6, CHR ''F'', [7, 9]), (7, CHR ''G'', [2, 3]), (8, CHR ''H'', []), (9, CHR ''I'', [8])], [1, 4, 8])"
  by code_simp

end
