(* ===== verification/Spec2Isabelle.thy ===== *)
theory Spec2Isabelle
  imports Insertion_Sorts Merge_Sort Bucket_Sort Heap_Sort Quick_Sort Sorting Binary_Search
    Unlock_Queue C_Hash_Shm Hash_Shm Sq_Registry Sq_Concurrent BPlus_Repair Leftist_Queue Binary_Heap_Queue Coroutine
    AVL_Tree Word_Trie Digraph_Search Thread_Pool Morse Chained_Hash Linear_Probing
    Huffman_Tree Memory_Pool Search_Tree Input_Tree Graph_Connect Bounded_Buffer Heap_Queues
    Digraph_Dfs Digraph_Read Redis_Pool Leaking_Hash Power_Test Test_Scheduler
    Sq_Press Sq_Lock Check_Servers Sync_Counter BPlus_Print Http_Handler
    Opt_Attr Clock_Threads Student_Queue Sq_Client Named_Pipe Shared_Pages Atomic_Ops Epoll_Server Connect_Many
    Accept_Workers Async_Io System_Objects Descriptor_Flags
    Redis_Clients Server_Check Hash_Program Small_Programs
begin

text \<open>
  A verification library for the UC repository: a collection of C and C++ modules under \<open>src/\<close>, most of them
  self-contained.  The modules with logic of their own are a lock-free byte queue, a message queue and two
  hash tables in shared memory, a B+ tree, a coroutine scheduler, a thread pool, and a set of smaller
  data structures and algorithms.  The rest are programs around system calls, whose answers are arguments of the model.

  \<^bold>\<open>Conventions\<close> (theory \<open>Prelude\<close>).  An array is a list; an access outside its bounds, a signed overflow and a
  read through the null pointer are undefined behaviour and are the value \<open>None\<close>, so a theorem that a routine
  returns \<open>Some\<close> states memory safety too.  Unsigned machine integers are words; signed ones are integers
  that \<open>i32\<close> checks where a sum can overflow, or natural numbers that \<open>n32\<close> checks.  A loop that might not end is a \<open>partial_function\<close>, whose value for
  a run that does not end is \<open>None\<close>; where such a run and undefined behaviour are told apart, the latter is \<open>Some None\<close>.  No fuel is used anywhere.  Pointer structures that are never shared are datatypes;
  the B+ tree, whose nodes are shared by the leaf chain and freed, lives on an explicit heap.

  \<^bold>\<open>Interfaces\<close>.  Locales state what a client relies on, and each is interpreted on the model of the code:
    \<^item> \<open>bounded_queue\<close> (Ring_Buffer): a bounded first-in first-out queue of bytes; \<open>Unlock_Queue\<close>.
    \<^item> \<open>message_queue\<close> (Message_Queue): a queue of whole messages; \<open>Sq_Fifo\<close>.
    \<^item> \<open>keyed_store\<close>, \<open>replacing_store\<close> (Key_Store): a table that may be full; \<open>C_Hash_Shm\<close>, \<open>Hash_Shm\<close>, \<open>BPlus_Small\<close>.
    \<^item> \<open>priority_queue\<close> (Priority_Queue): insertion and removal of the least element; \<open>Binary_Heap_Queue\<close>, \<open>Leftist_Queue\<close>.
    \<^item> \<open>interleaved\<close> (Interleaving): a step function for the turns of several threads or processes and an invariant that every
      step keeps, so that every run keeps it; \<open>Student_Queue\<close>, \<open>Sq_Test\<close>, \<open>Epoll_Server\<close>, \<open>Accept_Workers\<close>.
    \<^item> \<open>progressing\<close> extends it with a measure and a step that is always possible before the end, so that every run can be
      completed; \<open>Sync_Counter\<close> (twice), \<open>Opt_Attr\<close>, \<open>Clock_Threads\<close>.

  \<^bold>\<open>Lock-free byte queue\<close> (example_unlockqueue.cpp; Ring_Buffer, Unlock_Queue).  The class with its free-running 32-bit
  indices, the rounding of the size, and a step relation for one producer and one consumer with a step per
  memory barrier.  Shown: Put and Get refine a bounded queue, every interleaving of the two threads is safe and
  delivers what was published in order, the rounding ends with the least power of two.
  \<open>Student_Queue\<close> has the producer, the consumer and \<open>main\<close> of the file on top of these steps: what is printed are whole
  records, in order; records can be dropped.

  \<^bold>\<open>Message queue\<close> (shmqueue/shm_queue.c, shm_queue.h; Sq_Memory, Shm_Queue, Sq_Fifo, Sq_Create, Sq_Registry,
  Sq_Steps, Sq_Concurrent).
  The node array as bytes, the position macros, sq_put, sq_get, the signalling of readers, sq_create, sq_open, and the
  registration of readers, first with functions that run one at a time.  \<open>Sq_Steps\<close> cuts sq_put and sq_get at their
  compare-and-swaps and stores, and \<open>Sq_Concurrent\<close> interleaves one reader and any number of writers: the reader gets
  the accepted messages whole and in order as long as the 100 nodes of the reserve cover what it is reading.  Shown: the queue delivers accepted messages whole,
  once and in order; when a message is accepted; the usage; the buffer error; the invariant of the registry.
  \<open>Sq_Press\<close> is the load test of the queue, a client: when it ends, when its counter overflows, and when its loops never end;
  \<open>Sq_Lock\<close> has the lock file, the fifos and the descriptors that are left open.
  \<open>Sq_Test\<close> is the interactive test program of the file, its commands and the processes that it forks, whose turns are whole
  calls of the queue: in a session whose commands start one process each, so that no calls overlap, no
  message is lost, altered or got twice, and the messages that the commands ask for are put and got.  \<open>Sq_Client\<close> is the client in example_shmqueue_test.cpp.
  \<open>Opt_Time\<close> has the cached clock of shmqueue/opt_time.h, \<open>Clock_Threads\<close> the same with any number of threads, which never wait but can
  read a torn time, and \<open>Opt_Attr\<close> its counters as interleaved steps, which keep every count, and the test program.

  \<^bold>\<open>Hash tables in shared memory\<close> (example_shm_hashtable2.cpp, example_shm_hashtable1.cpp; Multi_Hash, C_Hash_Shm, Hash_Shm).
  Both are a hash in several rows, each with a prime modulus.  Shown: they refine a map and a set; exactly when an
  insertion succeeds; traversal, dump and restore, the unrolled string hash, and the search for the primes.

  \<^bold>\<open>B+ tree\<close> (example_bplus_tree.cpp; BPlus_Node, BPlus_Node_Facts, BPlus_Tree, BPlus_Small, BPlus_Search, BPlus_Repair,
  BPlus_Print).
  Every operation on nodes and trees on a heap of nodes.  Keys of any linear order stand for the \<open>float\<close> of the code, without NaN.
  Shown: which keys a search finds in a sound tree of any height, the tree as a map while it is one leaf, the selections, the print,
  what split, merge and borrow do, and where they damage the tree.

  \<^bold>\<open>Coroutines\<close> (coroutine.cpp, coroutine.h; Coroutine).  All coroutines run on one stack, which is copied away at a yield.  Their code is
  a parameter that reads its registers and live frames only.  Shown: the scheduler behaves like one with private
  stacks, leaves the other coroutines alone, and keeps its invariant.  \<open>Check_Servers\<close> (example_check_alot_server2.cpp) is a client of
  it, two coroutines that check servers: the program ends with the first that returns.

  \<^bold>\<open>Thread pool\<close> (example_thread_pool.cpp; Thread_Pool).  The client and the workers as interleaved steps between the points
  that other threads can observe.  Shown: no assertion fails and each task is run at most once, in order; a wake-up can be lost at the destruction.

  \<^bold>\<open>Producers and consumer\<close> (example_pthread_cond1.cpp; Bounded_Buffer).  Any number of threads around one mutex and two condition
  variables.  Shown: every interleaving is safe, none deadlocks, and all that is produced is consumed.

  \<^bold>\<open>Counter with threads\<close> (example_sync2.cpp; Sync_Counter).  The atomic addition and the mutex as interleaved steps.  Shown:
  no schedule gets stuck, and no increment is lost.  example_list1.cpp uses the same routine, \<open>Atomic_Ops\<close>
  (example_sync.cpp) has the built-in operations one by one.

  \<^bold>\<open>Server with epoll\<close> (example_thread_epoll1.cpp; Http_Handler, Epoll_Server).  Shown: which requests get an answer, how often the socket is
  closed; that the events fit the array of the main loop although its counter may exceed the array, and when a thread serves the client that it was made for.

  \<^bold>\<open>Sockets\<close>: processes that accept from one socket and an echo server (example_jingqun.cpp, example_jingqun2.cpp,
  example_socket1.cpp; Accept_Workers), two programs that connect to many servers (example_check_alot_server.cpp,
  example_check_alot_server3.cpp; Connect_Many), and the attempts of five programs to make a socket non-blocking, two of which do not
  (Descriptor_Flags).

  \<^bold>\<open>Files and memory of the system\<close>: the named pipe (example_fifo1.cpp, example_fifo2.cpp; Named_Pipe), asynchronous requests
  (example_aio.cpp; Async_Io), mapped and shared memory (example_mmap1.cpp, example_shm1.cpp, example_shm2.cpp,
  example_shm3.cpp; Shared_Pages), files and a semaphore (example_ftruncate.cpp, example_fallocate.cpp, example_fsync.cpp,
  example_sem1.cpp; System_Objects).  Each has lemmas for what the program does when the system works and where it goes wrong.

  \<^bold>\<open>Memory pool\<close> (example_mem_pool.cpp; Memory_Pool).  The block headers on a heap of their own.  Shown: the two linked lists are kept
  under a stated condition, and what happens without it.

  \<^bold>\<open>Hash tables in private memory\<close>: chained (example_hashtable2.cpp; Chained_Hash) and with linear probing
  (example_hashtable.cpp; Linear_Probing), both with what the code does wrong.

  \<^bold>\<open>Heaps and trees\<close>: the array heap (example_heap.cpp; Binary_Heap_Queue) and the leftist heap
  (example_left_heap.cpp; Leftist_Queue), compared in Heap_Queues, the AVL tree
  (example_binary_tree_avl.cpp), the word trie (example_trie.cpp), the binary search tree (example_binary_tree_adt.cpp; Search_Tree), trees read from the input
  (example_binary_tree2.cpp, example_binary_tree.cpp; Input_Tree).

  \<^bold>\<open>Graphs\<close>: the digraph (example_digraph.cpp): the shortest path (Digraph_Search), the depth-first print (Digraph_Dfs) and the
  input (Digraph_Read); the connectivity of the undirected graph (example_graph.cpp; Graph_Connect).

  \<^bold>\<open>Redis connection pool\<close> (example_redis_test.cpp; Redis_Pool).  The library hiredis is a parameter.  Shown: no connection
  is freed twice or held by two users, the pool never exceeds its size, and what its destruction leaves.

  \<^bold>\<open>Hash table with allocated strings\<close> (example_hashtable3.cpp; Leaking_Hash).  Shown: what insertion, search and deletion do
  when the hashes are not negative and the blocks have room, and what happens otherwise.

  \<^bold>\<open>Scheduler of example_test.cpp\<close> (Test_Scheduler).  Shown: only the first yield of a coroutine resumes where it should.

  \<^bold>\<open>Algorithms\<close>: six sorting routines (example_sort.cpp, example_heapsort.cpp, example_quicksort.cpp), two binary
  searches (example_binarysearch.cpp), the test for powers of two (example_bitalgorithm.cpp; Power_Test), the Morse coder (example_morse.cpp),
  the Huffman tree (example_huffman.cpp; Huffman_Tree), which is shown to be optimal.

  \<^bold>\<open>Main programs\<close>.  \<open>Huffman_Tree\<close> and \<open>Hash_Program\<close> (example_huffman.cpp, example_hashtable2.cpp) show what \<open>main\<close> prints
  for any weights and any random numbers, and that the print of a tree determines it; \<open>Small_Programs\<close> has the mains with fixed inputs.
  \<open>Redis_Clients\<close> has the functions of example_redis_test.cpp outside the pool, \<open>Server_Check\<close> the coroutine of
  example_test.cpp, which hangs on a good connection.

  \<^bold>\<open>Bounds\<close>.  Array lengths are natural numbers, with a bound of \<open>2 ^ 30\<close> or \<open>2 ^ 31\<close> where an index sum or a counter could overflow (the
  sorting routines, the array heap, the trie, the load test).  The size of the thread pool's queue, the ranks of the leftist heap and numbers that are only
  printed are unbounded.  The allocator succeeds unless its failure is a case of the code.

  \<^bold>\<open>Not modelled\<close>: times and texts that are only printed; what \<open>Attr_API\<close> does with a count, which belongs to a monitoring
  library outside the repository; two threads that print until one cancels the other (example_pthread1.cpp); mains that print what one
  library call returns; the second copy of the B+ tree classes in example_bplus_tree.cpp and of the heap sort in example_sort.cpp, which
  repeat the first.
\<close>

end
